(* ===== verification/Prelude.thy ===== *)
theory Prelude
  imports Main
begin

text \<open>
  Shared vocabulary of the development.

  \<^item> Python exceptions are values: every fallible operation returns \<open>'e + 'a\<close>, with
    \<open>Inl\<close> for a raised exception and \<open>Inr\<close> for a normal return; \<open>rbind\<close> sequences
    two such operations and \<open>rmapM\<close> is a \<^verbatim>\<open>for\<close> loop that stops at the first exception.
  \<^item> Python string methods that several components use (\<open>py_split\<close>).
  \<^item> Database tables are lists of rows; \<open>upd_where\<close> is an \<^verbatim>\<open>UPDATE .. WHERE\<close> and
    \<open>count_where\<close> a \<^verbatim>\<open>SELECT count(*) .. WHERE\<close>.
  \<^item> The collections \<open>res_simps\<close> (evaluation of results), \<open>table_simps\<close> (tables) and
    \<open>counter_simps\<close> (how table updates move the counters) carry the component proofs.
\<close>

named_theorems res_simps "evaluation of results"
named_theorems table_simps "projection laws of table updates"
named_theorems counter_simps "effect of a table update on row counts"

section \<open>Results\<close>

definition rbind :: "'e + 'a \<Rightarrow> ('a \<Rightarrow> 'e + 'b) \<Rightarrow> 'e + 'b" where
  "rbind r f = (case r of Inl e \<Rightarrow> Inl e | Inr x \<Rightarrow> f x)"

lemma rbind_Inl [simp, res_simps]: "rbind (Inl e) f = Inl e"
  by (simp add: rbind_def)

lemma rbind_Inr [simp, res_simps]: "rbind (Inr x) f = f x"
  by (simp add: rbind_def)

lemma rbind_eq_Inr: "rbind r f = Inr y \<longleftrightarrow> (\<exists>x. r = Inr x \<and> f x = Inr y)"
  by (cases r) simp_all

lemma rbind_InrE [elim]:
  assumes "rbind r f = Inr y"
  obtains x where "r = Inr x" and "f x = Inr y"
  using assms by (auto simp: rbind_eq_Inr)

lemma returnsE:
  assumes "\<not> isl r"
  obtains x where "r = Inr x"
  using assms by (cases r) simp_all

fun rmapM :: "('a \<Rightarrow> 'e + 'b) \<Rightarrow> 'a list \<Rightarrow> 'e + 'b list" where
  "rmapM f [] = Inr []"
| "rmapM f (x # xs) = rbind (f x) (\<lambda>y. rbind (rmapM f xs) (\<lambda>ys. Inr (y # ys)))"

text \<open>A \<^verbatim>\<open>for\<close> loop over a list that threads a state and may raise.\<close>

fun rfold :: "('a \<Rightarrow> 's \<Rightarrow> 'e + 's) \<Rightarrow> 'a list \<Rightarrow> 's \<Rightarrow> 'e + 's" where
  "rfold f [] s = Inr s"
| "rfold f (x # xs) s = rbind (f x s) (rfold f xs)"

lemma rfold_append:
  "rfold f (xs @ ys) s = rbind (rfold f xs s) (rfold f ys)"
  by (induction xs arbitrary: s) (simp_all add: rbind_def split: sum.splits)

lemma rfold_invariant:
  assumes "rfold f xs s = Inr t" and "I s"
    and "\<And>x s t. x \<in> set xs \<Longrightarrow> I s \<Longrightarrow> f x s = Inr t \<Longrightarrow> I t"
  shows "I t"
  using assms
proof (induction xs arbitrary: s)
  case Nil
  then show ?case by simp
next
  case (Cons x xs)
  from Cons.prems(1) obtain s' where s': "f x s = Inr s'" and rest: "rfold f xs s' = Inr t"
    by auto
  from Cons.prems(2,3) s' have "I s'" by (meson list.set_intros(1))
  with rest Cons.prems(3) show ?case
    by (intro Cons.IH) auto
qed

lemma rfold_total:
  assumes "I s"
    and "\<And>x s. x \<in> set xs \<Longrightarrow> I s \<Longrightarrow> \<exists>t. f x s = Inr t \<and> I t"
  shows "\<exists>t. rfold f xs s = Inr t \<and> I t"
  using assms
proof (induction xs arbitrary: s)
  case Nil
  then show ?case by simp
next
  case (Cons x xs)
  then obtain s' where "f x s = Inr s'" and "I s'"
    by (meson list.set_intros(1))
  with Cons show ?case by simp
qed

section \<open>Strings\<close>

text \<open>\<^verbatim>\<open>s.split(c)\<close> for a one-character separator: always at least one part.\<close>

fun py_split :: "char \<Rightarrow> string \<Rightarrow> string list" where
  "py_split c [] = [[]]"
| "py_split c (x # xs) =
     (if x = c then [] # py_split c xs
      else (x # hd (py_split c xs)) # tl (py_split c xs))"

lemma py_split_not_Nil [simp]: "py_split c s \<noteq> []"
  by (induction s) simp_all

lemma py_split_no_sep: "c \<notin> set s \<Longrightarrow> py_split c s = [s]"
  by (induction s) auto

lemma py_split_once:
  "c \<notin> set k \<Longrightarrow> c \<notin> set v \<Longrightarrow> py_split c (k @ c # v) = [k, v]"
  by (induction k) (auto simp: py_split_no_sep)

text \<open>\<^verbatim>\<open>s.lower()\<close> on ASCII text.\<close>

definition lower_char :: "char \<Rightarrow> char" where
  "lower_char c = (let n = (of_char c :: nat) in if 65 \<le> n \<and> n \<le> 90 then char_of (n + 32) else c)"

definition lower :: "string \<Rightarrow> string" where
  "lower s = map lower_char s"

text \<open>The virtual organisation of a single-organisation instance (\<^verbatim>\<open>common/constants.py\<close>).\<close>

definition DEFAULT_VO :: string where
  "DEFAULT_VO = ''def''"

text \<open>\<^verbatim>\<open>str.isspace\<close> on ASCII characters and \<^verbatim>\<open>str.strip\<close>.\<close>

definition is_space :: "char \<Rightarrow> bool" where
  "is_space c \<longleftrightarrow> (let n = (of_char c :: nat) in 9 \<le> n \<and> n \<le> 13 \<or> 28 \<le> n \<and> n \<le> 32)"

definition strip :: "string \<Rightarrow> string" where
  "strip s = rev (dropWhile is_space (rev (dropWhile is_space s)))"

text \<open>\<^verbatim>\<open>int(s)\<close> for a string: optional white space around, a sign, digits with single underscores between them.
  \<open>None\<close> is the \<^verbatim>\<open>ValueError\<close>.\<close>

fun digits_value :: "int \<Rightarrow> bool \<Rightarrow> string \<Rightarrow> int option" where
  "digits_value acc after_digit [] = (if after_digit then Some acc else None)"
| "digits_value acc after_digit (c # s) =
     (let n = (of_char c :: nat)
      in if 48 \<le> n \<and> n \<le> 57 then digits_value (10 * acc + (int n - 48)) True s
         else if c = CHR ''_'' \<and> after_digit then digits_value acc False s else None)"

definition py_int :: "string \<Rightarrow> int option" where
  "py_int s =
     (case strip s of
        [] \<Rightarrow> None
      | c # u \<Rightarrow> if c = CHR ''-'' then map_option uminus (digits_value 0 False u)
                 else if c = CHR ''+'' then digits_value 0 False u else digits_value 0 False (c # u))"

lemma rev_dropWhile_fixed: "xs = [] \<or> \<not> P (last xs) \<Longrightarrow> rev (dropWhile P (rev xs)) = xs"
  by (cases xs rule: rev_cases) auto

lemma last_strip: "strip s \<noteq> [] \<Longrightarrow> \<not> is_space (last (strip s))"
  by (simp add: strip_def last_rev hd_dropWhile)

lemma hd_strip: "strip s \<noteq> [] \<Longrightarrow> \<not> is_space (hd (strip s))"
proof -
  define u where "u = dropWhile is_space s"
  assume "strip s \<noteq> []"
  then have "rev (dropWhile is_space (rev u)) \<noteq> []" by (simp add: strip_def u_def)
  moreover have "u = rev (dropWhile is_space (rev u)) @ rev (takeWhile is_space (rev u))"
    by (metis rev_append rev_rev_ident takeWhile_dropWhile_id)
  ultimately have "hd (strip s) = hd u" and "u \<noteq> []"
    by (metis hd_append2 strip_def u_def, auto)
  then show ?thesis using hd_dropWhile [of is_space s] by (simp add: u_def)
qed

lemma strip_idem [simp]: "strip (strip s) = strip s"
proof (cases "strip s")
  case Nil
  then show ?thesis by (simp only: strip_def dropWhile.simps rev.simps)
next
  case (Cons c u)
  have "dropWhile is_space (strip s) = strip s"
    using hd_strip [of s] Cons by (simp add: dropWhile_eq_self_iff)
  then have "strip (strip s) = rev (dropWhile is_space (rev (strip s)))"
    by (simp add: strip_def [of "strip s"])
  also have "\<dots> = strip s"
    using last_strip [of s] by (intro rev_dropWhile_fixed) blast
  finally show ?thesis .
qed

lemma drop_length_append [simp]: "drop (length xs) (xs @ ys) = ys"
  by simp

lemma takeWhile_boundary:
  assumes "\<forall>x \<in> set xs. P x" and "ys = [] \<or> \<not> P (hd ys)"
  shows "takeWhile P (xs @ ys) = xs" and "dropWhile P (xs @ ys) = ys"
  using assms by (cases ys; simp)+

section \<open>Dictionaries built from lists\<close>

text \<open>The keys of a dictionary stand in the order in which they came up first; each has the value that it got last.\<close>

definition in_order :: "'a list \<Rightarrow> 'a list" where
  "in_order xs = rev (remdups (rev xs))"

lemma set_in_order [simp]: "set (in_order xs) = set xs"
  by (simp add: in_order_def)

lemma distinct_in_order [simp]: "distinct (in_order xs)"
  by (simp add: in_order_def)

lemma in_order_Nil_iff [simp]: "in_order xs = [] \<longleftrightarrow> xs = []"
  by (simp add: in_order_def)

definition py_dict :: "('a \<Rightarrow> 'k) \<Rightarrow> 'a list \<Rightarrow> 'a list" where
  "py_dict key xs = map (\<lambda>k. last (filter (\<lambda>x. key x = k) xs)) (in_order (map key xs))"

lemma last_filter_key: "k \<in> set (map key xs) \<Longrightarrow> key (last (filter (\<lambda>x. key x = k) xs)) = k \<and> last (filter (\<lambda>x. key x = k) xs) \<in> set xs"
  using last_in_set [of "filter (\<lambda>x. key x = k) xs"] by (auto simp: filter_empty_conv)

lemma keys_py_dict [simp]: "map key (py_dict key xs) = in_order (map key xs)"
  unfolding py_dict_def map_map by (rule map_idI) (simp add: last_filter_key)

lemma set_py_dict: "set (py_dict key xs) \<subseteq> set xs"
  unfolding py_dict_def using last_filter_key [of _ key xs] by fastforce

section \<open>Tables\<close>

definition upd_where :: "('r \<Rightarrow> bool) \<Rightarrow> ('r \<Rightarrow> 'r) \<Rightarrow> 'r list \<Rightarrow> 'r list" where
  "upd_where P f rows = map (\<lambda>r. if P r then f r else r) rows"

definition count_where :: "('r \<Rightarrow> bool) \<Rightarrow> 'r list \<Rightarrow> nat" where
  "count_where P rows = length (filter P rows)"

lemma count_where_Nil [simp, table_simps]: "count_where P [] = 0"
  by (simp add: count_where_def)

lemma count_where_Cons [simp, table_simps]:
  "count_where P (r # rs) = (if P r then Suc (count_where P rs) else count_where P rs)"
  by (simp add: count_where_def)

lemma count_where_append [simp, table_simps]:
  "count_where P (rs @ ss) = count_where P rs + count_where P ss"
  by (simp add: count_where_def)

lemma upd_where_Nil [simp, table_simps]: "upd_where P f [] = []"
  by (simp add: upd_where_def)

lemma upd_where_Cons [simp, table_simps]:
  "upd_where P f (r # rs) = (if P r then f r else r) # upd_where P f rs"
  by (simp add: upd_where_def)

lemma length_upd_where [simp, table_simps]: "length (upd_where P f rows) = length rows"
  by (simp add: upd_where_def)

lemma upd_where_append [simp, table_simps]:
  "upd_where P f (rs @ ss) = upd_where P f rs @ upd_where P f ss"
  by (simp add: upd_where_def)

lemma upd_where_none: "\<forall>r \<in> set rows. \<not> P r \<Longrightarrow> upd_where P f rows = rows"
  by (induction rows) simp_all

lemma map_upd_where:
  "(\<And>r. g (f r) = g r) \<Longrightarrow> map g (upd_where P f rows) = map g rows"
  by (simp add: upd_where_def)

lemma set_upd_where:
  "set (upd_where P f rows) = f ` {r \<in> set rows. P r} \<union> {r \<in> set rows. \<not> P r}"
  by (auto simp: upd_where_def)

lemma mem_upd_whereE:
  assumes "d \<in> set (upd_where P f rows)"
  obtains (updated) x where "x \<in> set rows" and "P x" and "d = f x"
    | (kept) "d \<in> set rows" and "\<not> P d"
  using assms by (auto simp: set_upd_where)

lemma count_where_0_iff [simp]: "count_where P rows = 0 \<longleftrightarrow> (\<forall>r \<in> set rows. \<not> P r)"
  by (auto simp: count_where_def filter_empty_conv)

lemma count_where_partition:
  "count_where P rows = count_where (\<lambda>r. P r \<and> Q r) rows + count_where (\<lambda>r. P r \<and> \<not> Q r) rows"
  by (induction rows) auto

text \<open>The sum of a column over the rows of one key, under an \<^verbatim>\<open>UPDATE\<close> of that key. A primary key
  makes the row unique, so the update adds its delta exactly once.\<close>

definition sum_where :: "('r \<Rightarrow> bool) \<Rightarrow> ('r \<Rightarrow> int) \<Rightarrow> 'r list \<Rightarrow> int" where
  "sum_where P g rows = sum_list (map g (filter P rows))"

lemma sum_where_Nil [simp, table_simps]: "sum_where P g [] = 0"
  by (simp add: sum_where_def)

lemma sum_where_Cons [simp, table_simps]:
  "sum_where P g (r # rs) = (if P r then g r + sum_where P g rs else sum_where P g rs)"
  by (simp add: sum_where_def)

lemma sum_where_append [simp, table_simps]:
  "sum_where P g (rs @ ss) = sum_where P g rs + sum_where P g ss"
  by (simp add: sum_where_def)

lemma sum_where_none: "\<forall>r \<in> set rows. \<not> P r \<Longrightarrow> sum_where P g rows = 0"
  by (induction rows) simp_all

lemma sum_where_upd_other:
  assumes "\<And>r. Q r \<Longrightarrow> \<not> P r" and "\<And>r. Q r \<Longrightarrow> \<not> P (f r)"
  shows "sum_where P g (upd_where Q f rows) = sum_where P g rows"
  using assms by (induction rows) auto

lemma sum_where_upd_unique:
  assumes "distinct (map key rows)" and "\<exists>r \<in> set rows. P r"
    and "\<And>r. P r \<longleftrightarrow> key r = k" and "\<And>r. P r \<Longrightarrow> P (f r)" and "\<And>r. P r \<Longrightarrow> g (f r) = g r + d"
  shows "sum_where P g (upd_where P f rows) = sum_where P g rows + d"
  using assms(1,2)
proof (induction rows)
  case Nil
  then show ?case by simp
next
  case (Cons r rs)
  show ?case
  proof (cases "P r")
    case True
    then have "\<forall>r' \<in> set rs. \<not> P r'"
      using Cons.prems(1) assms(3) by (metis distinct.simps(2) image_eqI list.set_map list.simps(9))
    with True show ?thesis
      using assms(4,5) by (simp add: upd_where_none sum_where_none)
  next
    case False
    with Cons show ?thesis by auto
  qed
qed

lemma sum_where_filter_other:
  assumes "\<And>r. P r \<Longrightarrow> Q r"
  shows "sum_where P g (filter Q rows) = sum_where P g rows"
  using assms by (induction rows) auto

lemma sum_where_filter_none: "(\<And>r. Q r \<Longrightarrow> \<not> P r) \<Longrightarrow> sum_where P g (filter Q rows) = 0"
  by (induction rows) auto

lemma filter_ConsD: "filter P xs = y # ys \<Longrightarrow> y \<in> set xs \<and> P y"
  by (induction xs) (auto split: if_splits)

text \<open>A primary key selects at most one row.\<close>

lemma filter_unique_key:
  assumes "distinct (map key rows)" and "\<And>r. P r \<longleftrightarrow> key r = k" and "u \<in> set rows" and "P u"
  shows "filter P rows = [u]"
  using assms(1,3)
proof (induction rows)
  case Nil
  then show ?case by simp
next
  case (Cons r rs)
  show ?case
  proof (cases "P r")
    case True
    then have "\<forall>r' \<in> set rs. \<not> P r'"
      using Cons.prems(1) assms(2) by (metis distinct.simps(2) image_eqI list.set_map list.simps(9))
    with True Cons.prems(2) assms(4) show ?thesis by (auto simp: filter_empty_conv)
  next
    case False
    with Cons assms(4) show ?thesis by auto
  qed
qed

text \<open>Deleting the one row of a primary key takes exactly that row out of a sum or a count.\<close>

lemma filter_other_key_id: "k \<notin> set (map key rows) \<Longrightarrow> filter (\<lambda>r. key r \<noteq> k) rows = rows"
  by (induction rows) auto

lemma sum_where_delete_key:
  assumes "distinct (map key rows)" and "a \<in> set rows"
  shows "sum_where P g (filter (\<lambda>r. key r \<noteq> key a) rows)
    = sum_where P g rows - (if P a then g a else 0)"
  using assms
proof (induction rows)
  case Nil
  then show ?case by simp
next
  case (Cons r rs)
  show ?case
  proof (cases "a = r")
    case True
    with Cons.prems have "filter (\<lambda>r'. key r' \<noteq> key r) rs = rs"
      by (intro filter_other_key_id) simp
    with True show ?thesis by simp
  next
    case False
    with Cons.prems have "key r \<noteq> key a" by (metis distinct.simps(2) imageI list.set_map list.simps(9) set_ConsD)
    with Cons False show ?thesis by simp
  qed
qed

lemma count_eq_sum: "int (count_where P rows) = sum_where P (\<lambda>_. 1) rows"
  by (induction rows) auto

lemma count_where_delete_key:
  assumes "distinct (map key rows)" and "a \<in> set rows"
  shows "int (count_where P (filter (\<lambda>r. key r \<noteq> key a) rows))
    = int (count_where P rows) - (if P a then 1 else 0)"
  using sum_where_delete_key [OF assms, of P "\<lambda>_. 1"] by (simp add: count_eq_sum)

text \<open>Updating the one row of a primary key replaces its contribution.\<close>

lemma upd_where_other_key_id: "k \<notin> set (map key rows) \<Longrightarrow> upd_where (\<lambda>r. key r = k) f rows = rows"
  by (induction rows) auto

lemma sum_where_update_key:
  assumes "distinct (map key rows)" and "a \<in> set rows"
  shows "sum_where P g (upd_where (\<lambda>r. key r = key a) f rows)
    = sum_where P g rows - (if P a then g a else 0) + (if P (f a) then g (f a) else 0)"
  using assms
proof (induction rows)
  case Nil
  then show ?case by simp
next
  case (Cons r rs)
  show ?case
  proof (cases "a = r")
    case True
    with Cons.prems have "upd_where (\<lambda>r'. key r' = key r) f rs = rs"
      by (intro upd_where_other_key_id) simp
    with True show ?thesis by simp
  next
    case False
    with Cons.prems have "key r \<noteq> key a" by (metis distinct.simps(2) imageI list.set_map list.simps(9) set_ConsD)
    with Cons False show ?thesis by simp
  qed
qed

lemma count_where_update_key:
  assumes "distinct (map key rows)" and "a \<in> set rows"
  shows "int (count_where P (upd_where (\<lambda>r. key r = key a) f rows))
    = int (count_where P rows) - (if P a then 1 else 0) + (if P (f a) then 1 else 0)"
  using sum_where_update_key [OF assms, of P "\<lambda>_. 1" f] by (simp add: count_eq_sum)

lemma distinct_map_filter_key: "distinct (map key rows) \<Longrightarrow> distinct (map key (filter P rows))"
  by (induction rows) auto

lemma key_unique:
  "distinct (map key rows) \<Longrightarrow> a \<in> set rows \<Longrightarrow> b \<in> set rows \<Longrightarrow> key a = key b \<Longrightarrow> a = b"
  by (metis distinct_map inj_on_contraD)

section \<open>Keyed stores\<close>

text \<open>A table with a primary key that is written by \<^verbatim>\<open>session.merge\<close> (insert or update) and
  deleted by key. \<open>norm\<close> is what the column type makes of a value that is written and read back.\<close>

locale keyed_store =
  fixes get :: "'s \<Rightarrow> 'k \<Rightarrow> 'v option"
    and put :: "'k \<Rightarrow> 'w \<Rightarrow> 's \<Rightarrow> 's"
    and del :: "'k \<Rightarrow> 's \<Rightarrow> 's"
    and norm :: "'w \<Rightarrow> 'v"
  assumes get_put: "get (put k v s) k' = (if k = k' then Some (norm v) else get s k')"
    and get_del: "get (del k s) k' = (if k = k' then None else get s k')"
begin

lemma get_put_same: "get (put k v s) k = Some (norm v)"
  by (simp add: get_put)

lemma get_put_put: "get (put k v (put k w s)) k' = get (put k v s) k'"
  by (simp add: get_put)

lemma get_put_del: "get (put k v (del k s)) k' = get (put k v s) k'"
  by (simp add: get_put get_del)

lemma get_fold_put:
  "get (fold (\<lambda>(k, v). put k v) kvs s) k =
     (case map_of (rev kvs) k of Some v \<Rightarrow> Some (norm v) | None \<Rightarrow> get s k)"
  by (induction kvs arbitrary: s) (auto simp: get_put map_add_def split: option.split)

lemma get_fold_put_other: "k \<notin> fst ` set kvs \<Longrightarrow> get (fold (\<lambda>(k, v). put k v) kvs s) k = get s k"
  by (simp add: get_fold_put) (metis (no_types, lifting) map_of_eq_None_iff option.simps(4) set_rev)

end

lemma filter_upd_where_same:
  "(\<And>r. P r \<Longrightarrow> P (f r)) \<Longrightarrow> filter P (upd_where P f rows) = map f (filter P rows)"
  by (induction rows) auto

lemma filter_upd_where_other:
  "(\<And>r. Q r \<Longrightarrow> \<not> P r) \<Longrightarrow> (\<And>r. Q r \<Longrightarrow> \<not> P (f r)) \<Longrightarrow> filter P (upd_where Q f rows) = filter P rows"
  by (induction rows) auto

end
