(* ===== verification/Counters.thy ===== *)
theory Counters
  imports Prelude
begin

text \<open>
  The space counters: \<^verbatim>\<open>core/rse_counter.py\<close> (one counter per RSE) and
  \<^verbatim>\<open>core/account_counter.py\<close> (one per account and RSE), with the pass of the abacus
  daemon over the RSE counters.

  Both files work the same way. An upload or a deletion appends a delta row to an
  \<^verbatim>\<open>updated_*_counters\<close> table (\<^verbatim>\<open>increase\<close>, \<^verbatim>\<open>decrease\<close>); later the daemon sums the
  pending deltas of one key into the materialised usage row and deletes them
  (\<^verbatim>\<open>update_rse_counter\<close>, \<^verbatim>\<open>update_account_counter\<close>). The locale \<open>delta_counter\<close> states
  that contract; its client lemmas say that no delta is lost or counted twice, in whatever
  order increments and flushes interleave. It is interpreted four times, on the bytes and
  the files of both counters.
\<close>

section \<open>The contract of a delta counter\<close>

datatype ('k, 'd) counter_op = Increase 'k 'd | Flush 'k

fun counter_run ::
  "('k \<Rightarrow> 'd \<Rightarrow> 's \<Rightarrow> 's) \<Rightarrow> ('k \<Rightarrow> 's \<Rightarrow> 's) \<Rightarrow> ('k, 'd) counter_op list \<Rightarrow> 's \<Rightarrow> 's" where
  "counter_run inc flush [] s = s"
| "counter_run inc flush (Increase k d # ops) s = counter_run inc flush ops (inc k d s)"
| "counter_run inc flush (Flush k # ops) s = counter_run inc flush ops (flush k s)"

fun increments :: "('d \<Rightarrow> int) \<Rightarrow> 'k \<Rightarrow> ('k, 'd) counter_op list \<Rightarrow> int" where
  "increments amount k [] = 0"
| "increments amount k (Increase k' d # ops) =
     (if k' = k then amount d else 0) + increments amount k ops"
| "increments amount k (Flush k' # ops) = increments amount k ops"

lemma counter_run_append:
  "counter_run inc flush (xs @ ys) s = counter_run inc flush ys (counter_run inc flush xs s)"
  by (induction inc flush xs s rule: counter_run.induct) simp_all

lemma increments_flushes: "increments amount k (map Flush ks) = 0"
  by (induction ks) simp_all

locale delta_counter =
  fixes inc :: "'k \<Rightarrow> 'd \<Rightarrow> 's \<Rightarrow> 's"
    and flush :: "'k \<Rightarrow> 's \<Rightarrow> 's"
    and amount :: "'d \<Rightarrow> int"
    and counted :: "'s \<Rightarrow> 'k \<Rightarrow> int"
    and pending :: "'s \<Rightarrow> 'k \<Rightarrow> int"
    and inv :: "'s \<Rightarrow> bool"
  assumes inv_inc: "inv s \<Longrightarrow> inv (inc k d s)"
    and inv_flush: "inv s \<Longrightarrow> inv (flush k s)"
    and counted_inc: "counted (inc k d s) k' = counted s k'"
    and pending_inc: "pending (inc k d s) k' = pending s k' + (if k = k' then amount d else 0)"
    and counted_flush:
      "inv s \<Longrightarrow> counted (flush k s) k' = counted s k' + (if k = k' then pending s k else 0)"
    and pending_flush: "pending (flush k s) k' = (if k = k' then 0 else pending s k')"
begin

definition total :: "'s \<Rightarrow> 'k \<Rightarrow> int" where
  "total s k = counted s k + pending s k"

lemma total_flush: "inv s \<Longrightarrow> total (flush k s) k' = total s k'"
  by (simp add: total_def counted_flush pending_flush)

lemma total_run:
  "inv s \<Longrightarrow> total (counter_run inc flush ops s) k = total s k + increments amount k ops"
proof (induction ops arbitrary: s)
  case Nil
  then show ?case by simp
next
  case (Cons op ops)
  then show ?case
    by (cases op)
      (auto simp: inv_inc inv_flush total_flush, auto simp: total_def counted_inc pending_inc)
qed

lemma inv_run: "inv s \<Longrightarrow> inv (counter_run inc flush ops s)"
proof (induction ops arbitrary: s)
  case (Cons op ops)
  then show ?case by (cases op) (simp_all add: inv_inc inv_flush)
qed simp

lemma counted_run_flush:
  "inv s \<Longrightarrow> counted (counter_run inc flush (ops @ [Flush k]) s) k
     = total s k + increments amount k ops"
  using total_run [of s ops k] by (simp add: counter_run_append counted_flush inv_run total_def)

lemma fold_flush_eq_run: "fold flush ks s = counter_run inc flush (map Flush ks) s"
  by (induction ks arbitrary: s) simp_all

lemma pending_fold_flush: "k \<in> set ks \<Longrightarrow> pending (fold flush ks s) k = 0"
proof (induction ks arbitrary: s)
  case (Cons k' ks)
  have "pending (fold flush ks t) k = 0" if "pending t k = 0" for t
    using that by (induction ks arbitrary: t) (simp_all add: pending_flush)
  with Cons show ?case by (auto simp: pending_flush)
qed simp

lemma counted_fold_flush:
  assumes "inv s" and "k \<in> set ks"
  shows "counted (fold flush ks s) k = total s k"
  using assms total_run [of s "map Flush ks" k] pending_fold_flush [of k ks s]
  by (simp add: fold_flush_eq_run increments_flushes) (simp add: total_def)

end

section \<open>RSE counters\<close>

record rse_usage =
  ru_rse_id :: string
  ru_source :: string
  ru_used :: "int option"
  ru_free :: "int option"
  ru_files :: "int option"

record updated_rse_counter =
  uc_rse_id :: string
  uc_files :: int
  uc_bytes :: int

record rse_counter_db =
  rse_usages :: "rse_usage list"
  updated_rse_counters :: "updated_rse_counter list"
  rse_usage_history :: "rse_usage list"

datatype counter_error = IntegrityError | CounterNotFound | MultipleResultsFound

definition is_rucio_usage :: "string \<Rightarrow> rse_usage \<Rightarrow> bool" where
  "is_rucio_usage r u \<longleftrightarrow> ru_rse_id u = r \<and> ru_source u = ''rucio''"

text \<open>The primary key \<^verbatim>\<open>(rse_id, source)\<close> of \<^verbatim>\<open>rse_usage\<close>.\<close>

definition rse_usage_key :: "rse_usage \<Rightarrow> string \<times> string" where
  "rse_usage_key u = (ru_rse_id u, ru_source u)"

definition rse_counter_inv :: "rse_counter_db \<Rightarrow> bool" where
  "rse_counter_inv db \<longleftrightarrow> distinct (map rse_usage_key (rse_usages db))"

definition save_rse_usage :: "rse_usage \<Rightarrow> rse_counter_db \<Rightarrow> counter_error + rse_counter_db" where
  "save_rse_usage u db =
     (if rse_usage_key u \<in> set (map rse_usage_key (rse_usages db)) then Inl IntegrityError
      else Inr (db\<lparr>rse_usages := rse_usages db @ [u]\<rparr>))"

definition add_counter :: "string \<Rightarrow> rse_counter_db \<Rightarrow> counter_error + rse_counter_db" where
  "add_counter r db =
     save_rse_usage \<lparr>ru_rse_id = r, ru_source = ''rucio'', ru_used = Some 0, ru_free = None,
                     ru_files = Some 0\<rparr> db"

definition increase :: "string \<Rightarrow> int \<times> int \<Rightarrow> rse_counter_db \<Rightarrow> rse_counter_db" where
  "increase r d db =
     db\<lparr>updated_rse_counters := updated_rse_counters db @
         [\<lparr>uc_rse_id = r, uc_files = fst d, uc_bytes = snd d\<rparr>]\<rparr>"

definition decrease :: "string \<Rightarrow> int \<times> int \<Rightarrow> rse_counter_db \<Rightarrow> rse_counter_db" where
  "decrease r d db = increase r (- fst d, - snd d) db"

definition del_counter :: "string \<Rightarrow> rse_counter_db \<Rightarrow> rse_counter_db" where
  "del_counter r db = db\<lparr>rse_usages := filter (\<lambda>u. \<not> is_rucio_usage r u) (rse_usages db)\<rparr>"

text \<open>\<^verbatim>\<open>session.execute(stmt).one()\<close>: the row when there is exactly one; the code catches
  \<^verbatim>\<open>NoResultFound\<close> only. The returned pair is \<^verbatim>\<open>(bytes, files)\<close>.\<close>

definition get_counter :: "string \<Rightarrow> rse_counter_db \<Rightarrow> counter_error + (int option \<times> int option)" where
  "get_counter r db =
     (case filter (is_rucio_usage r) (rse_usages db) of
        [] \<Rightarrow> Inl CounterNotFound
      | [u] \<Rightarrow> Inr (ru_used u, ru_files u)
      | _ \<Rightarrow> Inl MultipleResultsFound)"

text \<open>\<^verbatim>\<open>filter_thread_work\<close> hashes the id in SQL; \<open>mine\<close> says which ids fall on this worker.\<close>

definition get_updated_rse_counters :: "(string \<Rightarrow> bool) \<Rightarrow> rse_counter_db \<Rightarrow> string list" where
  "get_updated_rse_counters mine db =
     filter mine (remdups (map uc_rse_id (updated_rse_counters db)))"

definition or0 :: "int option \<Rightarrow> int" where
  "or0 x = (case x of None \<Rightarrow> 0 | Some n \<Rightarrow> n)"

definition update_rse_counter :: "string \<Rightarrow> rse_counter_db \<Rightarrow> rse_counter_db" where
  "update_rse_counter r db =
     (let updates = filter (\<lambda>c. uc_rse_id c = r) (updated_rse_counters db);
          sum_bytes = sum_list (map uc_bytes updates);
          sum_files = sum_list (map uc_files updates);
          usages = (if \<exists>u \<in> set (rse_usages db). is_rucio_usage r u
            then upd_where (is_rucio_usage r)
                   (\<lambda>u. u\<lparr>ru_used := Some (or0 (ru_used u) + sum_bytes),
                          ru_files := Some (or0 (ru_files u) + sum_files)\<rparr>) (rse_usages db)
            else rse_usages db @ [\<lparr>ru_rse_id = r, ru_source = ''rucio'', ru_used = Some sum_bytes,
                                   ru_free = None, ru_files = Some sum_files\<rparr>])
      in db\<lparr>rse_usages := usages,
            updated_rse_counters := filter (\<lambda>c. uc_rse_id c \<noteq> r) (updated_rse_counters db)\<rparr>)"

text \<open>The snapshot copies \<^verbatim>\<open>used\<close>, \<^verbatim>\<open>files\<close> and \<^verbatim>\<open>source\<close>; \<^verbatim>\<open>free\<close> stays null.\<close>

definition fill_rse_counter_history_table :: "rse_counter_db \<Rightarrow> rse_counter_db" where
  "fill_rse_counter_history_table db =
     db\<lparr>rse_usage_history := rse_usage_history db @ map (\<lambda>u. u\<lparr>ru_free := None\<rparr>) (rse_usages db)\<rparr>"

text \<open>One pass of the abacus-rse daemon (\<^verbatim>\<open>run_once\<close>). \<open>stop\<close> is \<^verbatim>\<open>graceful_stop.is_set()\<close> before
  each RSE of the work list.\<close>

fun abacus_loop :: "(string \<Rightarrow> bool) \<Rightarrow> string list \<Rightarrow> rse_counter_db \<Rightarrow> rse_counter_db" where
  "abacus_loop stop [] db = db"
| "abacus_loop stop (r # rs) db =
     (if stop r then db else abacus_loop stop rs (update_rse_counter r db))"

definition abacus_rse_run_once ::
  "(string \<Rightarrow> bool) \<Rightarrow> (string \<Rightarrow> bool) \<Rightarrow> rse_counter_db \<Rightarrow> rse_counter_db" where
  "abacus_rse_run_once mine stop db =
     (let rse_ids = get_updated_rse_counters mine db
      in if rse_ids = [] then db else abacus_loop stop rse_ids db)"

section \<open>Account counters\<close>

record account_usage =
  au_account :: string
  au_rse_id :: string
  au_files :: int
  au_bytes :: int

record account_counter_db =
  account_usages :: "account_usage list"
  updated_account_counters :: "account_usage list"
  account_usage_history :: "account_usage list"

definition au_key :: "account_usage \<Rightarrow> string \<times> string" where
  "au_key u = (au_account u, au_rse_id u)"

definition account_counter_inv :: "account_counter_db \<Rightarrow> bool" where
  "account_counter_inv db \<longleftrightarrow> distinct (map au_key (account_usages db))"

definition account_add_counter ::
  "string \<times> string \<Rightarrow> account_counter_db \<Rightarrow> counter_error + account_counter_db" where
  "account_add_counter k db =
     (if k \<in> set (map au_key (account_usages db)) then Inl IntegrityError
      else Inr (db\<lparr>account_usages := account_usages db @
             [\<lparr>au_account = fst k, au_rse_id = snd k, au_files = 0, au_bytes = 0\<rparr>]\<rparr>))"

definition account_increase ::
  "string \<times> string \<Rightarrow> int \<times> int \<Rightarrow> account_counter_db \<Rightarrow> account_counter_db" where
  "account_increase k d db =
     db\<lparr>updated_account_counters := updated_account_counters db @
         [\<lparr>au_account = fst k, au_rse_id = snd k, au_files = fst d, au_bytes = snd d\<rparr>]\<rparr>"

definition account_decrease ::
  "string \<times> string \<Rightarrow> int \<times> int \<Rightarrow> account_counter_db \<Rightarrow> account_counter_db" where
  "account_decrease k d db = account_increase k (- fst d, - snd d) db"

definition account_del_counter :: "string \<times> string \<Rightarrow> account_counter_db \<Rightarrow> account_counter_db" where
  "account_del_counter k db =
     db\<lparr>account_usages := filter (\<lambda>u. au_key u \<noteq> k) (account_usages db)\<rparr>"

definition get_updated_account_counters ::
  "(string \<times> string \<Rightarrow> bool) \<Rightarrow> account_counter_db \<Rightarrow> (string \<times> string) list" where
  "get_updated_account_counters mine db =
     filter mine (remdups (map au_key (updated_account_counters db)))"

definition update_account_counter :: "string \<times> string \<Rightarrow> account_counter_db \<Rightarrow> account_counter_db" where
  "update_account_counter k db =
     (let updates = filter (\<lambda>c. au_key c = k) (updated_account_counters db);
          sum_bytes = sum_list (map au_bytes updates);
          sum_files = sum_list (map au_files updates);
          usages = (if \<exists>u \<in> set (account_usages db). au_key u = k
            then upd_where (\<lambda>u. au_key u = k)
                   (\<lambda>u. u\<lparr>au_bytes := au_bytes u + sum_bytes, au_files := au_files u + sum_files\<rparr>)
                   (account_usages db)
            else account_usages db @ [\<lparr>au_account = fst k, au_rse_id = snd k,
                                       au_files = sum_files, au_bytes = sum_bytes\<rparr>])
      in db\<lparr>account_usages := usages,
            updated_account_counters := filter (\<lambda>c. au_key c \<noteq> k) (updated_account_counters db)\<rparr>)"

definition update_account_counter_history ::
  "string \<times> string \<Rightarrow> account_counter_db \<Rightarrow> account_counter_db" where
  "update_account_counter_history k db =
     (let row = (case filter (\<lambda>u. au_key u = k) (account_usages db) of
                   u # _ \<Rightarrow> u
                 | [] \<Rightarrow> \<lparr>au_account = fst k, au_rse_id = snd k, au_files = 0, au_bytes = 0\<rparr>)
      in db\<lparr>account_usage_history := account_usage_history db @ [row]\<rparr>)"

definition fill_account_counter_history_table :: "account_counter_db \<Rightarrow> account_counter_db" where
  "fill_account_counter_history_table db =
     db\<lparr>account_usage_history := account_usage_history db @ account_usages db\<rparr>"

section \<open>The counters keep the contract\<close>

definition rse_counted :: "(rse_usage \<Rightarrow> int option) \<Rightarrow> rse_counter_db \<Rightarrow> string \<Rightarrow> int" where
  "rse_counted col db r = sum_where (is_rucio_usage r) (\<lambda>u. or0 (col u)) (rse_usages db)"

definition rse_pending :: "(updated_rse_counter \<Rightarrow> int) \<Rightarrow> rse_counter_db \<Rightarrow> string \<Rightarrow> int" where
  "rse_pending col db r = sum_where (\<lambda>c. uc_rse_id c = r) col (updated_rse_counters db)"

definition account_counted :: "(account_usage \<Rightarrow> int) \<Rightarrow> account_counter_db \<Rightarrow> string \<times> string \<Rightarrow> int" where
  "account_counted col db k = sum_where (\<lambda>u. au_key u = k) col (account_usages db)"

definition account_pending :: "(account_usage \<Rightarrow> int) \<Rightarrow> account_counter_db \<Rightarrow> string \<times> string \<Rightarrow> int" where
  "account_pending col db k = sum_where (\<lambda>u. au_key u = k) col (updated_account_counters db)"

lemma is_rucio_usage_key: "is_rucio_usage r u \<longleftrightarrow> rse_usage_key u = (r, ''rucio'')"
  by (simp add: is_rucio_usage_def rse_usage_key_def)

lemma map_key_update_rse:
  "map rse_usage_key (upd_where P (\<lambda>u. u\<lparr>ru_used := f u, ru_files := g u\<rparr>) rows)
     = map rse_usage_key rows"
  by (rule map_upd_where) (simp add: rse_usage_key_def)

lemma rse_counter_inv_update: "rse_counter_inv db \<Longrightarrow> rse_counter_inv (update_rse_counter r db)"
  by (auto simp: rse_counter_inv_def update_rse_counter_def Let_def map_key_update_rse
      is_rucio_usage_key rse_usage_key_def)

lemma account_counter_inv_update:
  "account_counter_inv db \<Longrightarrow> account_counter_inv (update_account_counter k db)"
  by (auto simp: account_counter_inv_def update_account_counter_def Let_def map_upd_where au_key_def)

text \<open>What \<^verbatim>\<open>update_rse_counter\<close> does to one column of the usage table.\<close>

lemma rse_counted_update:
  assumes inv: "rse_counter_inv db"
    and col: "\<And>u b f. or0 (col (u\<lparr>ru_used := Some b, ru_files := Some f\<rparr>)) = pick b f"
    and new: "\<And>x b f. or0 (col \<lparr>ru_rse_id = x, ru_source = ''rucio'', ru_used = Some b, ru_free = None,
                ru_files = Some f\<rparr>) = pick b f"
    and pick: "\<And>u b f. pick (or0 (ru_used u) + b) (or0 (ru_files u) + f) = or0 (col u) + pick b f"
    and sums: "\<And>cs. pick (sum_list (map uc_bytes cs)) (sum_list (map uc_files cs)) = sum_list (map ucol cs)"
  shows "rse_counted col (update_rse_counter r db) r'
    = rse_counted col db r' + (if r = r' then rse_pending ucol db r else 0)"
proof -
  let ?ups = "filter (\<lambda>c. uc_rse_id c = r) (updated_rse_counters db)"
  let ?f = "\<lambda>u. u\<lparr>ru_used := Some (or0 (ru_used u) + sum_list (map uc_bytes ?ups)),
                     ru_files := Some (or0 (ru_files u) + sum_list (map uc_files ?ups))\<rparr>"
  have f: "is_rucio_usage r u \<Longrightarrow> or0 (col (?f u)) = or0 (col u) + sum_list (map ucol ?ups)" for u
    by (simp add: col pick sums)
  show ?thesis
  proof (cases "\<exists>u \<in> set (rse_usages db). is_rucio_usage r u")
    case True
    have one: "sum_where (is_rucio_usage r) (\<lambda>u. or0 (col u)) (upd_where (is_rucio_usage r) ?f (rse_usages db))
        = sum_where (is_rucio_usage r) (\<lambda>u. or0 (col u)) (rse_usages db) + sum_list (map ucol ?ups)"
      by (rule sum_where_upd_unique [OF inv [unfolded rse_counter_inv_def] True is_rucio_usage_key])
        (simp_all add: f, simp add: is_rucio_usage_def)
    have other: "r \<noteq> r' \<Longrightarrow> sum_where (is_rucio_usage r') (\<lambda>u. or0 (col u))
          (upd_where (is_rucio_usage r) ?f (rse_usages db))
        = sum_where (is_rucio_usage r') (\<lambda>u. or0 (col u)) (rse_usages db)"
      by (rule sum_where_upd_other) (auto simp: is_rucio_usage_def)
    show ?thesis
      using True one other
      by (cases "r = r'")
        (auto simp: rse_counted_def rse_pending_def update_rse_counter_def Let_def sum_where_def)
  next
    case False
    then show ?thesis
      by (auto simp: rse_counted_def rse_pending_def update_rse_counter_def Let_def new sums
          sum_where_none is_rucio_usage_def) (simp_all add: sum_where_def)
  qed
qed

lemma account_counted_update:
  assumes inv: "account_counter_inv db"
    and col: "\<And>u b f. col (u\<lparr>au_bytes := b, au_files := f\<rparr>) = pick b f"
    and new: "\<And>a x b f. col \<lparr>au_account = a, au_rse_id = x, au_files = f, au_bytes = b\<rparr> = pick b f"
    and pick: "\<And>u b f. pick (au_bytes u + b) (au_files u + f) = col u + pick b f"
    and sums: "\<And>cs. pick (sum_list (map au_bytes cs)) (sum_list (map au_files cs)) = sum_list (map col cs)"
  shows "account_counted col (update_account_counter k db) k'
    = account_counted col db k' + (if k = k' then account_pending col db k else 0)"
proof -
  let ?ups = "filter (\<lambda>c. au_key c = k) (updated_account_counters db)"
  let ?f = "\<lambda>u. u\<lparr>au_bytes := au_bytes u + sum_list (map au_bytes ?ups),
                     au_files := au_files u + sum_list (map au_files ?ups)\<rparr>"
  have f: "col (?f u) = col u + sum_list (map col ?ups)" for u
    by (simp only: col pick sums)
  show ?thesis
  proof (cases "\<exists>u \<in> set (account_usages db). au_key u = k")
    case True
    have one: "sum_where (\<lambda>u. au_key u = k) col (upd_where (\<lambda>u. au_key u = k) ?f (account_usages db))
        = sum_where (\<lambda>u. au_key u = k) col (account_usages db) + sum_list (map col ?ups)"
      by (rule sum_where_upd_unique [OF inv [unfolded account_counter_inv_def] True refl])
        (simp_all only: f, simp add: au_key_def)
    have other: "k \<noteq> k' \<Longrightarrow> sum_where (\<lambda>u. au_key u = k') col
          (upd_where (\<lambda>u. au_key u = k) ?f (account_usages db))
        = sum_where (\<lambda>u. au_key u = k') col (account_usages db)"
      by (rule sum_where_upd_other) (auto simp: au_key_def)
    show ?thesis
      using True one other
      by (cases "k = k'")
        (auto simp: account_counted_def account_pending_def update_account_counter_def Let_def
          sum_where_def)
  next
    case False
    then show ?thesis
      by (auto simp: account_counted_def account_pending_def update_account_counter_def Let_def new
          sums sum_where_none au_key_def) (simp_all add: sum_where_def)
  qed
qed

lemma rse_pending_update:
  "rse_pending col (update_rse_counter r db) r' = (if r = r' then 0 else rse_pending col db r')"
  by (auto simp: rse_pending_def update_rse_counter_def Let_def sum_where_filter_none
      intro: sum_where_filter_other)

lemma account_pending_update:
  "account_pending col (update_account_counter k db) k' = (if k = k' then 0 else account_pending col db k')"
  by (auto simp: account_pending_def update_account_counter_def Let_def sum_where_filter_none
      intro: sum_where_filter_other)

lemmas rse_counter_defs = rse_counter_inv_def rse_counted_def rse_pending_def increase_def
lemmas account_counter_defs =
  account_counter_inv_def account_counted_def account_pending_def account_increase_def au_key_def

interpretation rse_bytes: delta_counter increase update_rse_counter snd
  "rse_counted ru_used" "rse_pending uc_bytes" rse_counter_inv
  by unfold_locales
    (simp_all add: rse_counter_inv_update rse_pending_update
      rse_counted_update [where pick = "\<lambda>b f. b" and ucol = uc_bytes] or0_def [of "Some _"],
     simp_all add: rse_counter_defs)

interpretation rse_files: delta_counter increase update_rse_counter fst
  "rse_counted ru_files" "rse_pending uc_files" rse_counter_inv
  by unfold_locales
    (simp_all add: rse_counter_inv_update rse_pending_update
      rse_counted_update [where pick = "\<lambda>b f. f" and ucol = uc_files] or0_def [of "Some _"],
     simp_all add: rse_counter_defs)

interpretation account_bytes: delta_counter account_increase update_account_counter snd
  "account_counted au_bytes" "account_pending au_bytes" account_counter_inv
  by unfold_locales
    (simp_all add: account_counter_inv_update account_pending_update
      account_counted_update [where pick = "\<lambda>b f. b"],
     auto simp: account_counter_defs)

interpretation account_files: delta_counter account_increase update_account_counter fst
  "account_counted au_files" "account_pending au_files" account_counter_inv
  by unfold_locales
    (simp_all add: account_counter_inv_update account_pending_update
      account_counted_update [where pick = "\<lambda>b f. f"],
     auto simp: account_counter_defs)

section \<open>Properties\<close>

lemma update_rse_counter_row:
  "\<exists>u b f. u \<in> set (rse_usages (update_rse_counter r db)) \<and> is_rucio_usage r u \<and>
     ru_used u = Some b \<and> ru_files u = Some f"
proof (cases "\<exists>u \<in> set (rse_usages db). is_rucio_usage r u")
  case True
  then obtain u where u: "u \<in> set (rse_usages db)" "is_rucio_usage r u" by blast
  have "\<exists>u' \<in> set (rse_usages (update_rse_counter r db)). is_rucio_usage r u' \<and>
      (\<exists>b f. ru_used u' = Some b \<and> ru_files u' = Some f)"
    using u True
    by (simp add: update_rse_counter_def Let_def set_upd_where bex_Un)
      (rule exI [of _ u], simp add: is_rucio_usage_def)
  then show ?thesis by blast
next
  case False
  then show ?thesis by (auto simp: update_rse_counter_def Let_def is_rucio_usage_def)
qed

lemma get_counter_update:
  assumes "rse_counter_inv db"
  shows "get_counter r (update_rse_counter r db) =
    Inr (Some (rse_counted ru_used (update_rse_counter r db) r),
         Some (rse_counted ru_files (update_rse_counter r db) r))"
proof -
  obtain u b f where u: "u \<in> set (rse_usages (update_rse_counter r db))" "is_rucio_usage r u"
    and bf: "ru_used u = Some b" "ru_files u = Some f"
    using update_rse_counter_row by blast
  have "filter (is_rucio_usage r) (rse_usages (update_rse_counter r db)) = [u]"
    using rse_counter_inv_update [OF assms, of r] u
    by (intro filter_unique_key [OF _ is_rucio_usage_key]) (simp_all add: rse_counter_inv_def)
  then show ?thesis
    by (simp add: get_counter_def rse_counted_def sum_where_def bf or0_def)
qed

lemma abacus_loop_no_stop: "abacus_loop (\<lambda>_. False) rs db = fold update_rse_counter rs db"
  by (induction rs arbitrary: db) simp_all

lemma fold_update_other:
  assumes "r \<notin> set rs" and "rse_counter_inv db"
  shows "rse_counted ru_used (fold update_rse_counter rs db) r = rse_counted ru_used db r"
    and "rse_pending uc_bytes (fold update_rse_counter rs db) r = rse_pending uc_bytes db r"
  using assms by (induction rs arbitrary: db)
    (auto simp: rse_bytes.counted_flush rse_pending_update rse_counter_inv_update)

lemma rse_pending_no_rows:
  "r \<notin> set (map uc_rse_id (updated_rse_counters db)) \<Longrightarrow> rse_pending col db r = 0"
  by (auto simp: rse_pending_def intro: sum_where_none)

text \<open>C26: However \<^verbatim>\<open>increase\<close> calls and daemon flushes of any RSEs interleave, once
  \<^verbatim>\<open>update_rse_counter\<close> runs for an RSE, \<^verbatim>\<open>get_counter\<close> returns exactly the bytes and files that
  were counted and pending at the start plus all increments made since: no delta is lost
  and none is counted twice.\<close>

theorem rse_counter_exact:
  assumes "rse_counter_inv db"
  shows "get_counter r (update_rse_counter r (counter_run increase update_rse_counter ops db)) =
    Inr (Some (rse_counted ru_used db r + rse_pending uc_bytes db r + increments snd r ops),
         Some (rse_counted ru_files db r + rse_pending uc_files db r + increments fst r ops))"
  using get_counter_update [OF rse_bytes.inv_run [OF assms, of ops], of r]
    rse_bytes.counted_run_flush [OF assms, of ops r] rse_files.counted_run_flush [OF assms, of ops r]
  by (simp add: counter_run_append rse_bytes.total_def rse_files.total_def)

definition counter_example_db :: rse_counter_db where
  "counter_example_db = \<lparr>rse_usages = [\<lparr>ru_rse_id = ''A'', ru_source = ''rucio'', ru_used = Some 10,
      ru_free = None, ru_files = Some 1\<rparr>], updated_rse_counters = [], rse_usage_history = []\<rparr>"

theorem rse_counter_exact_witness:
  "get_counter ''A'' (update_rse_counter ''A'' (counter_run increase update_rse_counter
      [Increase ''A'' (1, 7), Flush ''A'', Increase ''B'' (4, 4), Increase ''A'' (-1, -10)]
      counter_example_db)) = Inr (Some 7, Some 1)"
  using rse_counter_exact [of counter_example_db "''A''"
      "[Increase ''A'' (1, 7), Flush ''A'', Increase ''B'' (4, 4), Increase ''A'' (-1, -10)]"]
  by (simp add: counter_example_db_def rse_counter_inv_def rse_counted_def rse_pending_def
      is_rucio_usage_def or0_def)

text \<open>One uninterrupted pass of the abacus-rse daemon moves every pending delta of the RSEs of
  this worker into their counters and leaves nothing pending for them, and changes neither
  the counter nor the pending deltas of an RSE that belongs to another worker.\<close>

theorem abacus_pass_settles:
  assumes "rse_counter_inv db"
  shows "rse_counted ru_used (abacus_rse_run_once mine (\<lambda>_. False) db) r =
      rse_counted ru_used db r + (if mine r then rse_pending uc_bytes db r else 0) \<and>
    rse_pending uc_bytes (abacus_rse_run_once mine (\<lambda>_. False) db) r =
      (if mine r then 0 else rse_pending uc_bytes db r)"
proof -
  let ?ids = "get_updated_rse_counters mine db"
  have run: "abacus_rse_run_once mine (\<lambda>_. False) db = fold update_rse_counter ?ids db"
    by (simp add: abacus_rse_run_once_def abacus_loop_no_stop Let_def)
  show ?thesis
  proof (cases "r \<in> set ?ids")
    case True
    then have "mine r" by (simp add: get_updated_rse_counters_def)
    then show ?thesis
      using True assms by (simp add: run rse_bytes.counted_fold_flush rse_bytes.pending_fold_flush
          rse_bytes.total_def)
  next
    case False
    then have "mine r \<Longrightarrow> rse_pending uc_bytes db r = 0"
      by (intro rse_pending_no_rows) (simp add: get_updated_rse_counters_def)
    then show ?thesis
      using False assms by (simp add: run fold_update_other)
  qed
qed

theorem abacus_pass_settles_witness:
  "rse_counted ru_used (abacus_rse_run_once (\<lambda>r. r = ''A'') (\<lambda>_. False)
     (increase ''B'' (1, 5) (increase ''A'' (1, 7) counter_example_db))) ''A'' = 17"
  using abacus_pass_settles [of "increase ''B'' (1, 5) (increase ''A'' (1, 7) counter_example_db)"
      "\<lambda>r. r = ''A''" "''A''"]
  by (simp add: counter_example_db_def rse_counter_inv_def rse_counted_def rse_pending_def
      increase_def is_rucio_usage_def or0_def)

text \<open>The account counters are exact in the same sense: after any interleaving of increments
  (decrements are negative increments) and flushes, flushing the key of an account and an RSE makes its
  usage row hold the initial count, the initial pending deltas and all increments.\<close>

theorem account_counter_exact:
  assumes "account_counter_inv db"
  shows "account_counted au_bytes
      (update_account_counter k (counter_run account_increase update_account_counter ops db)) k =
    account_counted au_bytes db k + account_pending au_bytes db k + increments snd k ops"
  using account_bytes.counted_run_flush [OF assms, of ops k]
  by (simp add: counter_run_append account_bytes.total_def)

theorem account_counter_exact_witness:
  "account_counted au_bytes
      (update_account_counter (''alice'', ''A'') (counter_run account_increase update_account_counter
         [Increase (''alice'', ''A'') (2, 9), Flush (''alice'', ''A''), Increase (''alice'', ''A'') (-1, -4)]
         \<lparr>account_usages = [], updated_account_counters = [], account_usage_history = []\<rparr>))
      (''alice'', ''A'') = 5"
  using account_counter_exact [of "\<lparr>account_usages = [], updated_account_counters = [],
      account_usage_history = []\<rparr>" "(''alice'', ''A'')" "[Increase (''alice'', ''A'') (2, 9),
      Flush (''alice'', ''A''), Increase (''alice'', ''A'') (-1, -4)]"]
  by (simp add: account_counter_inv_def account_counted_def account_pending_def)

end
