(* ===== verification/RSE_Store.thy ===== *)
theory RSE_Store
  imports Counters
begin

text \<open>
  The registry of storage elements, \<^verbatim>\<open>core/rse.py\<close>: the \<^verbatim>\<open>rses\<close> table (\<^verbatim>\<open>models.RSE\<close>), the
  attribute table with its \<^verbatim>\<open>BooleanString\<close> column type, the limits, and the operations that
  add, delete, restore, list and tag RSEs. It uses the counters of the previous theory
  (\<^verbatim>\<open>add_counter\<close>, \<^verbatim>\<open>get_counter\<close>).

  Not code of the repository, hence parameters: the id that \<^verbatim>\<open>generate_uuid\<close> returns, the
  comparison of a stored cell with a value of another type (\<open>sql_eq\<close>), the names of class
  attributes of \<^verbatim>\<open>models.RSE\<close> that are not columns (\<open>orm_attr\<close>), and the answers of the
  cache region. Strings are 8-bit character strings.
\<close>

section \<open>Column types\<close>

datatype attr_value = AStr string | ABool bool

text \<open>\<^verbatim>\<open>BooleanString\<close>: the stored form of a value and the value read back.\<close>

fun process_bind_param :: "attr_value \<Rightarrow> string" where
  "process_bind_param (ABool b) = (if b then ''true'' else ''false'')"
| "process_bind_param (AStr s) =
     (if lower s = ''true'' then ''true'' else if lower s = ''false'' then ''false'' else s)"

definition process_result_value :: "string \<Rightarrow> attr_value" where
  "process_result_value s =
     (if lower s = ''true'' then ABool True else if lower s = ''false'' then ABool False else AStr s)"

datatype rse_type = DISK | TAPE

datatype cell = CBool bool | CText string | CType rse_type | CNull

record rse_row =
  rse_id :: string
  rse_name :: string
  rse_vo :: string
  rse_type :: rse_type
  deterministic :: bool
  volatile :: bool
  staging_area :: bool
  availability_read :: "bool option"
  availability_write :: "bool option"
  availability_delete :: "bool option"
  settings :: "string \<Rightarrow> string option" \<comment> \<open>the nullable text columns\<close>
  deleted :: bool

record attr_row =
  at_rse_id :: string
  at_key :: string
  at_value :: string

record rse_db =
  rses :: "rse_row list"
  rse_attrs :: "attr_row list"
  rse_limits :: "(string \<times> string \<times> int) list"
  counters :: rse_counter_db

datatype rse_error =
    RSENotFound
  | RSEAttributeNotFound
  | RSEOperationNotSupported
  | Duplicate
  | InvalidObject
  | TypeError
  | CounterError counter_error
  | NotAColumn string \<comment> \<open>a relationship is compared with a value\<close>

definition text_columns :: "string list" where
  "text_columns = [''city'', ''region_code'', ''country_name'', ''continent'', ''time_zone'', ''ISP'',
     ''ASN'', ''longitude'', ''latitude'', ''availability'', ''qos_class'', ''created_at'',
     ''updated_at'', ''deleted_at'']"

definition opt_bool :: "bool option \<Rightarrow> cell" where
  "opt_bool b = (case b of None \<Rightarrow> CNull | Some x \<Rightarrow> CBool x)"

text \<open>\<^verbatim>\<open>getattr(models.RSE, k)\<close> on one row, \<open>None\<close> when \<open>k\<close> is no column. Columns of another type
  than boolean or enumeration are read as text.\<close>

definition rse_cell :: "rse_row \<Rightarrow> string \<Rightarrow> cell option" where
  "rse_cell r k =
     (if k = ''id'' then Some (CText (rse_id r))
      else if k = ''rse'' then Some (CText (rse_name r))
      else if k = ''vo'' then Some (CText (rse_vo r))
      else if k = ''rse_type'' then Some (CType (rse_type r))
      else if k = ''deterministic'' then Some (CBool (deterministic r))
      else if k = ''volatile'' then Some (CBool (volatile r))
      else if k = ''staging_area'' then Some (CBool (staging_area r))
      else if k = ''availability_read'' then Some (opt_bool (availability_read r))
      else if k = ''availability_write'' then Some (opt_bool (availability_write r))
      else if k = ''availability_delete'' then Some (opt_bool (availability_delete r))
      else if k = ''deleted'' then Some (CBool (deleted r))
      else if k \<in> set text_columns then
        Some (case settings r k of None \<Rightarrow> CNull | Some s \<Rightarrow> CText s)
      else None)"

definition column_names :: "string list" where
  "column_names = [''id'', ''rse'', ''vo'', ''rse_type'', ''deterministic'', ''volatile'', ''staging_area'',
     ''availability_read'', ''availability_write'', ''availability_delete'', ''deleted''] @ text_columns"

lemma rse_cell_None_iff: "rse_cell r k = None \<longleftrightarrow> k \<notin> set column_names"
  by (auto simp: rse_cell_def column_names_def)

definition boolean_columns :: "string list" where
  "boolean_columns = [''deterministic'', ''volatile'', ''staging_area'', ''availability_read'',
     ''availability_write'', ''availability_delete'']"

text \<open>\<^verbatim>\<open>RSE.from_str\<close>: \<open>None\<close> is the raised \<^verbatim>\<open>ValueError\<close>.\<close>

definition from_str :: "string \<Rightarrow> string \<Rightarrow> cell option" where
  "from_str key v =
     (if key \<in> set boolean_columns then
        if v = ''1'' \<or> lower v = ''true'' then Some (CBool True)
        else if v = ''0'' \<or> lower v = ''false'' then Some (CBool False)
        else None
      else if key = ''rse_type'' then
        if v = ''DISK'' then Some (CType DISK) else if v = ''TAPE'' then Some (CType TAPE) else None
      else Some (CText v))"

text \<open>SQL equality of a column with a bound value: equal cells of the same type are equal, a null
  is equal to nothing, and the engine decides (\<open>sql_eq\<close>) where the types differ.\<close>

fun cell_eq :: "(cell \<Rightarrow> cell \<Rightarrow> bool) \<Rightarrow> cell \<Rightarrow> cell \<Rightarrow> bool" where
  "cell_eq sql_eq CNull _ = False"
| "cell_eq sql_eq _ CNull = False"
| "cell_eq sql_eq (CBool a) (CBool b) = (a = b)"
| "cell_eq sql_eq (CText a) (CText b) = (a = b)"
| "cell_eq sql_eq (CType a) (CType b) = (a = b)"
| "cell_eq sql_eq a b = sql_eq a b"

section \<open>Attributes\<close>

definition attr_is :: "string \<Rightarrow> string \<Rightarrow> attr_row \<Rightarrow> bool" where
  "attr_is r k a \<longleftrightarrow> at_rse_id a = r \<and> at_key a = k"

text \<open>\<^verbatim>\<open>session.merge\<close> updates the row with the same primary key or inserts one.\<close>

definition add_rse_attribute :: "string \<Rightarrow> string \<Rightarrow> attr_value \<Rightarrow> rse_db \<Rightarrow> rse_db" where
  "add_rse_attribute r k v db =
     db\<lparr>rse_attrs :=
       (if \<exists>a \<in> set (rse_attrs db). attr_is r k a
        then upd_where (attr_is r k) (\<lambda>a. a\<lparr>at_value := process_bind_param v\<rparr>) (rse_attrs db)
        else rse_attrs db @ [\<lparr>at_rse_id = r, at_key = k, at_value = process_bind_param v\<rparr>])\<rparr>"

definition del_rse_attribute :: "string \<Rightarrow> string \<Rightarrow> rse_db \<Rightarrow> rse_error + rse_db" where
  "del_rse_attribute r k db =
     (if \<exists>a \<in> set (rse_attrs db). attr_is r k a
      then Inr (db\<lparr>rse_attrs := filter (\<lambda>a. \<not> attr_is r k a) (rse_attrs db)\<rparr>)
      else Inl RSEAttributeNotFound)"

definition list_rse_attributes :: "rse_db \<Rightarrow> string \<Rightarrow> string \<rightharpoonup> attr_value" where
  "list_rse_attributes db r k =
     map_of (rev (map (\<lambda>a. (at_key a, process_result_value (at_value a)))
       (filter (\<lambda>a. at_rse_id a = r) (rse_attrs db)))) k"

text \<open>Python truthiness of an attribute value.\<close>

fun truthy :: "attr_value \<Rightarrow> bool" where
  "truthy (ABool b) = b"
| "truthy (AStr s) = (s \<noteq> [])"

definition has_rse_attribute :: "rse_db \<Rightarrow> string \<Rightarrow> string \<Rightarrow> bool" where
  "has_rse_attribute db r k =
     (case filter (attr_is r k) (rse_attrs db) of
        [] \<Rightarrow> False
      | a # _ \<Rightarrow> truthy (process_result_value (at_value a)))"

text \<open>\<open>region\<close> is \<^verbatim>\<open>REGION.get\<close>: \<open>None\<close> for \<^verbatim>\<open>NoValue\<close>, \<open>Some v\<close> for a cached value.\<close>

definition get_rse_attribute ::
  "(string \<Rightarrow> string \<Rightarrow> attr_value option option) \<Rightarrow> rse_db \<Rightarrow> string \<Rightarrow> string \<Rightarrow> attr_value option" where
  "get_rse_attribute region db r k =
     (case region r k of
        Some v \<Rightarrow> v
      | None \<Rightarrow> (case filter (attr_is r k) (rse_attrs db) of
                   [] \<Rightarrow> None
                 | a # _ \<Rightarrow> Some (process_result_value (at_value a))))"

definition get_rses_with_attribute :: "rse_db \<Rightarrow> string \<Rightarrow> rse_row list" where
  "get_rses_with_attribute db k =
     [r. r \<leftarrow> rses db, \<not> deleted r, a \<leftarrow> rse_attrs db, attr_is (rse_id r) k a]"

section \<open>Listing\<close>

record rse_env =
  sql_eq :: "cell \<Rightarrow> cell \<Rightarrow> bool"
  orm_attr :: "string \<Rightarrow> bool"
  region :: "string \<Rightarrow> string \<Rightarrow> attr_value option option"

text \<open>\<^verbatim>\<open>list_rses\<close> with no filter, and with the one-entry filter that every caller of the
  expression parser passes. \<^verbatim>\<open>ORDER BY rse\<close> is omitted: the callers build a set.\<close>

definition list_rses_all :: "rse_db \<Rightarrow> rse_row list" where
  "list_rses_all db = filter (\<lambda>r. \<not> deleted r) (rses db)"

text \<open>\<^verbatim>\<open>common/utils.py Availability\<close>: a missing value counts as available.\<close>

record availability =
  av_read :: "bool option"
  av_write :: "bool option"
  av_delete :: "bool option"

definition from_integer :: "int option \<Rightarrow> availability" where
  "from_integer n =
     (case n of
        None \<Rightarrow> \<lparr>av_read = None, av_write = None, av_delete = None\<rparr>
      | Some i \<Rightarrow> \<lparr>av_read = Some ((i div 4) mod 2 = 1), av_write = Some ((i div 2) mod 2 = 1),
                   av_delete = Some (i mod 2 = 1)\<rparr>)"

definition av_bit :: "bool option \<Rightarrow> int" where
  "av_bit b = (if b = Some False then 0 else 1)"

definition availability_integer :: "availability \<Rightarrow> int" where
  "availability_integer a = av_bit (av_read a) * 4 + av_bit (av_write a) * 2 + av_bit (av_delete a)"

text \<open>The filter key \<^verbatim>\<open>availability\<close> is expanded into the three boolean columns. The integer shift
  raises \<^verbatim>\<open>TypeError\<close> on a string.\<close>

definition list_by_availability :: "rse_db \<Rightarrow> attr_value \<Rightarrow> rse_error + rse_row list" where
  "list_by_availability db v =
     (case v of
        AStr s \<Rightarrow> Inl TypeError
      | ABool b \<Rightarrow>
          let a = from_integer (Some (if b then 1 else 0))
          in Inr (filter (\<lambda>r. availability_read r = av_read a \<and> availability_write r = av_write a
                            \<and> availability_delete r = av_delete a) (list_rses_all db)))"

definition attr_join :: "rse_db \<Rightarrow> string \<Rightarrow> string \<Rightarrow> rse_row list" where
  "attr_join db k s =
     [r. r \<leftarrow> list_rses_all db, a \<leftarrow> rse_attrs db, attr_is (rse_id r) k a \<and> at_value a = s]"

text \<open>A class attribute that is neither a column nor a relationship is an object of Python that equals no value, so that the
  condition of the query is \<^verbatim>\<open>False\<close>. The comparison of a relationship with a value raises.\<close>

definition relationships :: "string list" where
  "relationships = [''usage'']"

definition list_rses ::
  "rse_env \<Rightarrow> rse_db \<Rightarrow> string \<Rightarrow> attr_value \<Rightarrow> rse_error + rse_row list" where
  "list_rses env db k v =
     (if k = ''availability'' then list_by_availability db v
      else if k \<in> set column_names then
        (case v of
           AStr s \<Rightarrow> (case from_str k s of
               None \<Rightarrow> Inl InvalidObject
             | Some c \<Rightarrow> Inr (filter (\<lambda>r. cell_eq (sql_eq env) (the (rse_cell r k)) c) (list_rses_all db)))
         | ABool b \<Rightarrow> Inr (filter (\<lambda>r. cell_eq (sql_eq env) (the (rse_cell r k)) (CBool b)) (list_rses_all db)))
      else if k \<in> set relationships then Inl (NotAColumn k)
      else if orm_attr env k then Inr []
      else Inr (attr_join db k (process_bind_param v)))"

section \<open>Adding, deleting and restoring an RSE\<close>

definition rse_exists :: "rse_db \<Rightarrow> string \<Rightarrow> string \<Rightarrow> bool \<Rightarrow> bool" where
  "rse_exists db n vo include_deleted =
     (\<exists>r \<in> set (rses db). rse_name r = n \<and> rse_vo r = vo \<and> (include_deleted \<or> \<not> deleted r))"

definition RSE_SETTINGS :: "string list" where
  "RSE_SETTINGS = [''continent'', ''city'', ''region_code'', ''country_name'', ''time_zone'', ''ISP'', ''ASN'']"

definition setting_step :: "rse_row \<Rightarrow> string \<Rightarrow> rse_db \<Rightarrow> rse_db" where
  "setting_step r k db =
     (case settings r k of
        Some s \<Rightarrow> if s = [] then db else add_rse_attribute (rse_id r) k (AStr s) db
      | None \<Rightarrow> db)"

text \<open>\<open>row\<close> carries the arguments of \<^verbatim>\<open>add_rse\<close> and the generated id. The insert violates a key
  when the id or the name within the VO is taken, deleted rows included. A flag that is not given gets the default
  of its column, which is true, and the integer column has the code of the three flags.\<close>

definition availability_code :: "rse_row \<Rightarrow> string" where
  "availability_code row = [char_of (48 + nat (availability_integer
     \<lparr>av_read = availability_read row, av_write = availability_write row, av_delete = availability_delete row\<rparr>))]"

definition default_true :: "bool option \<Rightarrow> bool option" where
  "default_true b = (case b of None \<Rightarrow> Some True | Some x \<Rightarrow> Some x)"

definition new_rse :: "rse_row \<Rightarrow> rse_row" where
  "new_rse row = row\<lparr>availability_read := default_true (availability_read row), availability_write := default_true (availability_write row),
     availability_delete := default_true (availability_delete row), settings := (settings row)(''availability'' \<mapsto> availability_code row), deleted := False\<rparr>"

definition add_rse :: "rse_row \<Rightarrow> rse_db \<Rightarrow> rse_error + rse_db" where
  "add_rse row db =
     (if rse_id row \<in> set (map rse_id (rses db))
         \<or> rse_exists db (rse_name row) (rse_vo row) True then Inl Duplicate
      else
        let db1 = db\<lparr>rses := rses db @ [new_rse row]\<rparr>;
            db2 = add_rse_attribute (rse_id row) (rse_name row) (ABool True) db1;
            db3 = fold (setting_step row) RSE_SETTINGS db2
        in (case add_counter (rse_id row) (counters db3) of
              Inl e \<Rightarrow> Inl (CounterError e)
            | Inr c \<Rightarrow> Inr (db3\<lparr>counters := c\<rparr>)))"

definition rse_is_empty :: "rse_db \<Rightarrow> string \<Rightarrow> rse_error + bool" where
  "rse_is_empty db r =
     (case get_counter r (counters db) of
        Inr (b, f) \<Rightarrow> Inr (b = Some 0)
      | Inl CounterNotFound \<Rightarrow> Inr True
      | Inl e \<Rightarrow> Inl (CounterError e))"

definition set_deleted :: "string \<Rightarrow> bool \<Rightarrow> rse_db \<Rightarrow> rse_db" where
  "set_deleted i d db = db\<lparr>rses := upd_where (\<lambda>r. rse_id r = i) (\<lambda>r. r\<lparr>deleted := d\<rparr>) (rses db)\<rparr>"

definition del_rse :: "string \<Rightarrow> rse_db \<Rightarrow> rse_error + rse_db" where
  "del_rse i db =
     (case filter (\<lambda>r. rse_id r = i \<and> \<not> deleted r) (rses db) of
        [] \<Rightarrow> Inl RSENotFound
      | r # _ \<Rightarrow>
          rbind (rse_is_empty db i) (\<lambda>empty.
            if \<not> empty then Inl RSEOperationNotSupported
            else let db1 = set_deleted i True db
                 in (case del_rse_attribute i (rse_name r) db1 of
                       Inl e \<Rightarrow> Inr db1
                     | Inr db2 \<Rightarrow> Inr db2)))"

definition restore_rse :: "string \<Rightarrow> rse_db \<Rightarrow> rse_error + rse_db" where
  "restore_rse i db =
     (case filter (\<lambda>r. rse_id r = i \<and> deleted r) (rses db) of
        [] \<Rightarrow> Inl RSENotFound
      | r # _ \<Rightarrow> Inr (add_rse_attribute i (rse_name r) (ABool True) (set_deleted i False db)))"

definition get_rse_id :: "rse_db \<Rightarrow> string \<Rightarrow> string \<Rightarrow> bool \<Rightarrow> rse_error + string" where
  "get_rse_id db n vo include_deleted =
     (case filter (\<lambda>r. rse_name r = n \<and> rse_vo r = vo \<and> (include_deleted \<or> \<not> deleted r)) (rses db) of
        [] \<Rightarrow> Inl RSENotFound
      | r # _ \<Rightarrow> Inr (rse_id r))"

section \<open>Limits\<close>

definition limit_is :: "string \<Rightarrow> string \<Rightarrow> string \<times> string \<times> int \<Rightarrow> bool" where
  "limit_is r n l \<longleftrightarrow> fst l = r \<and> fst (snd l) = n"

definition set_rse_limits :: "string \<Rightarrow> string \<Rightarrow> int \<Rightarrow> rse_db \<Rightarrow> rse_db" where
  "set_rse_limits r n v db =
     db\<lparr>rse_limits :=
       (if \<exists>l \<in> set (rse_limits db). limit_is r n l
        then upd_where (limit_is r n) (\<lambda>l. (r, n, v)) (rse_limits db)
        else rse_limits db @ [(r, n, v)])\<rparr>"

text \<open>\<open>get_rse_limits db r None\<close> lists all limits; an empty name counts as no name.\<close>

definition get_rse_limits :: "rse_db \<Rightarrow> string \<Rightarrow> string option \<Rightarrow> (string \<times> int) list" where
  "get_rse_limits db r n =
     map snd (filter (\<lambda>l. fst l = r \<and> (case n of None \<Rightarrow> True | Some s \<Rightarrow> s = [] \<or> fst (snd l) = s))
       (rse_limits db))"

definition delete_rse_limits :: "string \<Rightarrow> string option \<Rightarrow> rse_db \<Rightarrow> rse_db" where
  "delete_rse_limits r n db =
     db\<lparr>rse_limits := filter (\<lambda>l. \<not> (fst l = r \<and> (case n of None \<Rightarrow> True | Some s \<Rightarrow> fst (snd l) = s)))
       (rse_limits db)\<rparr>"

section \<open>Well-formed registries\<close>

definition attr_key :: "attr_row \<Rightarrow> string \<times> string" where
  "attr_key a = (at_rse_id a, at_key a)"

definition rse_wf :: "rse_db \<Rightarrow> bool" where
  "rse_wf db \<longleftrightarrow> distinct (map rse_id (rses db))
     \<and> distinct (map (\<lambda>r. (rse_name r, rse_vo r)) (rses db))
     \<and> distinct (map attr_key (rse_attrs db)) \<and> rse_counter_inv (counters db)"

lemma attr_is_key: "attr_is r k a \<longleftrightarrow> attr_key a = (r, k)"
  by (simp add: attr_is_def attr_key_def)

lemma new_rse_key [simp]: "rse_id (new_rse row) = rse_id row" "rse_name (new_rse row) = rse_name row" "rse_vo (new_rse row) = rse_vo row"
  "deleted (new_rse row) = False"
  by (simp_all add: new_rse_def)

lemma add_rse_attribute_frame [simp]:
  "rses (add_rse_attribute r k v db) = rses db"
  "rse_limits (add_rse_attribute r k v db) = rse_limits db"
  "counters (add_rse_attribute r k v db) = counters db"
  by (simp_all add: add_rse_attribute_def)

lemma setting_step_frame [simp]:
  "rses (setting_step r k db) = rses db"
  "rse_limits (setting_step r k db) = rse_limits db"
  "counters (setting_step r k db) = counters db"
  by (simp_all add: setting_step_def split: option.split)

lemma fold_setting_frame [simp]:
  "rses (fold (setting_step r) ks db) = rses db"
  "rse_limits (fold (setting_step r) ks db) = rse_limits db"
  "counters (fold (setting_step r) ks db) = counters db"
  by (induction ks arbitrary: db) simp_all

lemma set_deleted_frame [simp]:
  "rse_attrs (set_deleted i d db) = rse_attrs db"
  "rse_limits (set_deleted i d db) = rse_limits db"
  "counters (set_deleted i d db) = counters db"
  by (simp_all add: set_deleted_def)

lemma attr_key_upd:
  "map attr_key (upd_where P (\<lambda>a. a\<lparr>at_value := f a\<rparr>) rows) = map attr_key rows"
  by (rule map_upd_where) (simp add: attr_key_def)

lemma distinct_attrs_add:
  "distinct (map attr_key (rse_attrs db)) \<Longrightarrow>
   distinct (map attr_key (rse_attrs (add_rse_attribute r k v db)))"
  by (auto simp: add_rse_attribute_def attr_key_upd attr_is_key attr_key_def)

lemma rse_wf_add_rse_attribute: "rse_wf db \<Longrightarrow> rse_wf (add_rse_attribute r k v db)"
  by (simp add: rse_wf_def distinct_attrs_add)

lemma rse_wf_settings: "rse_wf db \<Longrightarrow> rse_wf (fold (setting_step r) ks db)"
  by (induction ks arbitrary: db)
    (auto simp: setting_step_def rse_wf_add_rse_attribute split: option.split)

lemma set_deleted_keys:
  "map rse_id (rses (set_deleted i d db)) = map rse_id (rses db)"
  "map (\<lambda>r. (rse_name r, rse_vo r)) (rses (set_deleted i d db))
     = map (\<lambda>r. (rse_name r, rse_vo r)) (rses db)"
  by (simp_all add: set_deleted_def map_upd_where)

lemma rse_wf_set_deleted: "rse_wf db \<Longrightarrow> rse_wf (set_deleted i d db)"
  by (simp add: rse_wf_def set_deleted_keys)

lemma rse_wf_del_rse_attribute: "rse_wf db \<Longrightarrow> del_rse_attribute r k db = Inr db' \<Longrightarrow> rse_wf db'"
  by (auto simp: rse_wf_def del_rse_attribute_def distinct_map_filter split: if_splits)

lemma rse_wf_add_rse: "rse_wf db \<Longrightarrow> add_rse row db = Inr db' \<Longrightarrow> rse_wf db'"
proof -
  assume wf: "rse_wf db" and add: "add_rse row db = Inr db'"
  let ?db1 = "db\<lparr>rses := rses db @ [new_rse row]\<rparr>"
  let ?db3 = "fold (setting_step row) RSE_SETTINGS
    (add_rse_attribute (rse_id row) (rse_name row) (ABool True) ?db1)"
  from add obtain c where c: "add_counter (rse_id row) (counters ?db3) = Inr c"
    and db': "db' = ?db3\<lparr>counters := c\<rparr>"
    and fresh: "rse_id row \<notin> set (map rse_id (rses db))"
      "\<not> rse_exists db (rse_name row) (rse_vo row) True"
    by (auto simp: add_rse_def Let_def split: if_splits sum.splits)
  have "rse_wf ?db1"
    using wf fresh by (auto simp: rse_wf_def rse_exists_def)
  then have "rse_wf ?db3" by (simp add: rse_wf_settings rse_wf_add_rse_attribute)
  moreover have "rse_counter_inv c"
    using c wf by (auto simp: rse_wf_def add_counter_def save_rse_usage_def rse_counter_inv_def
        split: if_splits)
  ultimately show "rse_wf db'" by (simp add: db' rse_wf_def)
qed

section \<open>Attributes and limits are keyed stores\<close>

text \<open>Reads below go to the database: the region answers \<^verbatim>\<open>NoValue\<close>.\<close>

abbreviation no_cache :: "string \<Rightarrow> string \<Rightarrow> attr_value option option" where
  "no_cache \<equiv> \<lambda>_ _. None"

definition attr_of :: "rse_db \<Rightarrow> string \<times> string \<Rightarrow> attr_value option" where
  "attr_of db k = get_rse_attribute no_cache db (fst k) (snd k)"

definition put_attr :: "string \<times> string \<Rightarrow> attr_value \<Rightarrow> rse_db \<Rightarrow> rse_db" where
  "put_attr k v db = add_rse_attribute (fst k) (snd k) v db"

definition drop_attr :: "string \<times> string \<Rightarrow> rse_db \<Rightarrow> rse_db" where
  "drop_attr k db = (case del_rse_attribute (fst k) (snd k) db of Inl _ \<Rightarrow> db | Inr db' \<Rightarrow> db')"

lemma attr_of_add:
  "attr_of (add_rse_attribute r k v db) rk =
     (if (r, k) = rk then Some (process_result_value (process_bind_param v)) else attr_of db rk)"
proof (cases "\<exists>a \<in> set (rse_attrs db). attr_is r k a")
  case True
  then have ne: "filter (attr_is r k) (rse_attrs db) \<noteq> []" by (auto simp: filter_empty_conv)
  have same: "filter (attr_is r k) (upd_where (attr_is r k) (\<lambda>a. a\<lparr>at_value := process_bind_param v\<rparr>)
      (rse_attrs db)) = map (\<lambda>a. a\<lparr>at_value := process_bind_param v\<rparr>) (filter (attr_is r k) (rse_attrs db))"
    by (rule filter_upd_where_same) (simp add: attr_is_def)
  have other: "(r, k) \<noteq> (r', k') \<Longrightarrow> filter (attr_is r' k') (upd_where (attr_is r k)
      (\<lambda>a. a\<lparr>at_value := process_bind_param v\<rparr>) (rse_attrs db)) = filter (attr_is r' k') (rse_attrs db)" for r' k'
    by (rule filter_upd_where_other) (auto simp: attr_is_def)
  show ?thesis
    using True ne same other [of "fst rk" "snd rk"]
    by (cases rk) (auto simp: attr_of_def get_rse_attribute_def add_rse_attribute_def neq_Nil_conv
        split: list.split)
next
  case False
  then have "filter (attr_is r k) (rse_attrs db) = []" by (auto simp: filter_empty_conv)
  with False show ?thesis
    by (cases rk) (auto simp: attr_of_def get_rse_attribute_def add_rse_attribute_def attr_is_def)
qed

lemma filter_not_attr_is:
  "filter (\<lambda>a. \<not> attr_is r k a \<and> attr_is r' k' a) rows =
     (if (r, k) = (r', k') then [] else filter (attr_is r' k') rows)"
  by (cases "(r, k) = (r', k')") (auto simp: filter_empty_conv, auto simp: attr_is_def intro!: filter_cong)

lemma attr_of_del:
  "del_rse_attribute r k db = Inr db' \<Longrightarrow> attr_of db' rk = (if (r, k) = rk then None else attr_of db rk)"
  by (cases rk) (auto simp: attr_of_def get_rse_attribute_def del_rse_attribute_def filter_not_attr_is
      split: if_splits)

lemma attr_of_del_missing:
  "del_rse_attribute r k db = Inl e \<Longrightarrow> attr_of db (r, k) = None"
  by (auto simp: attr_of_def get_rse_attribute_def del_rse_attribute_def split: if_splits list.split)

interpretation attr_store: keyed_store attr_of put_attr drop_attr
  "\<lambda>v. process_result_value (process_bind_param v)"
proof
  show "attr_of (put_attr k v s) k' =
      (if k = k' then Some (process_result_value (process_bind_param v)) else attr_of s k')" for k v s k'
    by (simp add: put_attr_def attr_of_add)
  show "attr_of (drop_attr k s) k' = (if k = k' then None else attr_of s k')" for k s k'
    by (cases "del_rse_attribute (fst k) (snd k) s")
      (auto simp: drop_attr_def attr_of_del dest: attr_of_del_missing)
qed

definition limit_of :: "rse_db \<Rightarrow> string \<times> string \<Rightarrow> int option" where
  "limit_of db k = map_of (get_rse_limits db (fst k) (Some (snd k))) (snd k)"

definition put_limit :: "string \<times> string \<Rightarrow> int \<Rightarrow> rse_db \<Rightarrow> rse_db" where
  "put_limit k v db = set_rse_limits (fst k) (snd k) v db"

definition drop_limit :: "string \<times> string \<Rightarrow> rse_db \<Rightarrow> rse_db" where
  "drop_limit k db = delete_rse_limits (fst k) (Some (snd k)) db"

lemma limit_of_find:
  "limit_of db k = map_of (map (\<lambda>l. ((fst l, fst (snd l)), snd (snd l))) (rse_limits db)) k"
proof -
  have "map_of (map snd (filter (\<lambda>l. fst l = fst k \<and> (snd k = [] \<or> fst (snd l) = snd k)) ls)) (snd k)
      = map_of (map (\<lambda>l. ((fst l, fst (snd l)), snd (snd l))) ls) k" for ls :: "(string \<times> string \<times> int) list"
    by (induction ls) (auto simp: prod_eq_iff)
  then show ?thesis by (simp add: limit_of_def get_rse_limits_def)
qed

lemma map_of_upd_limit:
  "\<exists>l \<in> set ls. limit_is r n l \<Longrightarrow>
   map_of (map (\<lambda>l. ((fst l, fst (snd l)), snd (snd l))) (upd_where (limit_is r n) (\<lambda>l. (r, n, v)) ls))
     (r, n) = Some v"
  "k \<noteq> (r, n) \<Longrightarrow>
   map_of (map (\<lambda>l. ((fst l, fst (snd l)), snd (snd l))) (upd_where (limit_is r n) (\<lambda>l. (r, n, v)) ls)) k
     = map_of (map (\<lambda>l. ((fst l, fst (snd l)), snd (snd l))) ls) k"
  by (induction ls) (auto simp: limit_is_def)

lemma map_of_del_limit:
  "map_of (map (\<lambda>l. ((fst l, fst (snd l)), snd (snd l))) (filter (\<lambda>l. fst l = r \<longrightarrow> fst (snd l) \<noteq> n) ls)) k
   = (if k = (r, n) then None else map_of (map (\<lambda>l. ((fst l, fst (snd l)), snd (snd l))) ls) k)"
  by (induction ls) auto

lemma map_of_no_limit:
  "\<forall>l \<in> set ls. \<not> limit_is r n l \<Longrightarrow>
   map_of (map (\<lambda>l. ((fst l, fst (snd l)), snd (snd l))) ls) (r, n) = None"
  by (induction ls) (auto simp: limit_is_def)

interpretation limit_store: keyed_store limit_of put_limit drop_limit "\<lambda>v. v"
proof
  show "limit_of (put_limit k v s) k' = (if k = k' then Some v else limit_of s k')" for k v s k'
    by (cases k; cases "k = k'")
      (auto simp: limit_of_find put_limit_def set_rse_limits_def map_of_upd_limit map_add_def
        map_of_no_limit split: option.split)
  show "limit_of (drop_limit k s) k' = (if k = k' then None else limit_of s k')" for k s k'
    by (simp add: limit_of_find drop_limit_def delete_rse_limits_def map_of_del_limit)
qed

section \<open>Properties\<close>

text \<open>The operations that change the registry, as a step relation.\<close>

inductive rse_step :: "rse_db \<Rightarrow> rse_db \<Rightarrow> bool" where
  step_add: "add_rse row db = Inr db' \<Longrightarrow> rse_step db db'"
| step_del: "del_rse i db = Inr db' \<Longrightarrow> rse_step db db'"
| step_restore: "restore_rse i db = Inr db' \<Longrightarrow> rse_step db db'"
| step_add_attr: "rse_step db (add_rse_attribute r k v db)"
| step_del_attr: "del_rse_attribute r k db = Inr db' \<Longrightarrow> rse_step db db'"
| step_set_limit: "rse_step db (set_rse_limits r n v db)"
| step_del_limit: "rse_step db (delete_rse_limits r m db)"
| step_increase: "rse_step db (db\<lparr>counters := increase r d (counters db)\<rparr>)"
| step_update_counter: "rse_step db (db\<lparr>counters := update_rse_counter r (counters db)\<rparr>)"

lemma rse_wf_del_rse: "rse_wf db \<Longrightarrow> del_rse i db = Inr db' \<Longrightarrow> rse_wf db'"
  by (auto simp: del_rse_def Let_def rbind_eq_Inr rse_wf_set_deleted
      dest: rse_wf_del_rse_attribute [OF rse_wf_set_deleted] split: list.splits if_splits sum.splits)

lemma rse_wf_restore_rse: "rse_wf db \<Longrightarrow> restore_rse i db = Inr db' \<Longrightarrow> rse_wf db'"
  by (auto simp: restore_rse_def rse_wf_set_deleted rse_wf_add_rse_attribute split: list.splits)

lemma rse_step_wf: "rse_step db db' \<Longrightarrow> rse_wf db \<Longrightarrow> rse_wf db'"
proof (induction rule: rse_step.induct)
  case (step_increase db r d)
  then show ?case by (simp add: rse_wf_def rse_bytes.inv_inc)
next
  case (step_update_counter db r)
  then show ?case by (simp add: rse_wf_def rse_counter_inv_update)
next
  case (step_set_limit db r n v)
  then show ?case by (simp add: rse_wf_def set_rse_limits_def)
next
  case (step_del_limit db r m)
  then show ?case by (simp add: rse_wf_def delete_rse_limits_def)
qed (blast intro: rse_wf_add_rse rse_wf_del_rse rse_wf_restore_rse rse_wf_add_rse_attribute
    rse_wf_del_rse_attribute)+

definition empty_rse_db :: rse_db where
  "empty_rse_db = \<lparr>rses = [], rse_attrs = [], rse_limits = [],
     counters = \<lparr>rse_usages = [], updated_rse_counters = [], rse_usage_history = []\<rparr>\<rparr>"

definition sample_rse :: "string \<Rightarrow> string \<Rightarrow> rse_row" where
  "sample_rse i n = \<lparr>rse_id = i, rse_name = n, rse_vo = ''def'', rse_type = DISK, deterministic = True,
     volatile = False, staging_area = False, availability_read = Some True,
     availability_write = Some True, availability_delete = Some True, settings = (\<lambda>_. None),
     deleted = False\<rparr>"

lemma add_sample_rse:
  "add_rse (sample_rse ''1'' ''CERN'') empty_rse_db =
     Inr (empty_rse_db\<lparr>rses := [new_rse (sample_rse ''1'' ''CERN'')],
       rse_attrs := [\<lparr>at_rse_id = ''1'', at_key = ''CERN'', at_value = ''true''\<rparr>],
       counters := \<lparr>rse_usages = [\<lparr>ru_rse_id = ''1'', ru_source = ''rucio'', ru_used = Some 0,
           ru_free = None, ru_files = Some 0\<rparr>], updated_rse_counters = [], rse_usage_history = []\<rparr>\<rparr>)"
  by (simp add: add_rse_def empty_rse_db_def sample_rse_def Let_def rse_exists_def RSE_SETTINGS_def
      setting_step_def add_rse_attribute_def add_counter_def save_rse_usage_def)

text \<open>A value written to an attribute is read back unchanged, except that a string spelled
  like a boolean (in any case) comes back as that boolean.\<close>

theorem boolean_string_roundtrip:
  "process_result_value (process_bind_param v) =
     (case v of
        ABool b \<Rightarrow> ABool b
      | AStr s \<Rightarrow> if lower s = ''true'' then ABool True
                  else if lower s = ''false'' then ABool False else AStr s)"
  by (cases v) (simp_all add: process_result_value_def lower_def lower_char_def)

lemma in_attr_join:
  "r \<in> set (attr_join db k s) \<longleftrightarrow> r \<in> set (rses db) \<and> \<not> deleted r \<and>
     (\<exists>a \<in> set (rse_attrs db). attr_is (rse_id r) k a \<and> at_value a = s)"
  by (auto simp: attr_join_def list_rses_all_def)

definition stored :: "rse_db \<Rightarrow> string \<Rightarrow> string \<Rightarrow> string \<Rightarrow> bool" where
  "stored db i k s \<longleftrightarrow> (\<exists>a \<in> set (rse_attrs db). attr_is i k a \<and> at_value a = s)"

lemma stored_add_same: "stored (add_rse_attribute i k v db) i k (process_bind_param v)"
  by (auto simp: stored_def add_rse_attribute_def set_upd_where attr_is_def bex_Un)

lemma stored_add_other: "k \<noteq> k' \<Longrightarrow> stored (add_rse_attribute i k' v db) j k s = stored db j k s"
  by (auto simp: stored_def add_rse_attribute_def set_upd_where attr_is_def bex_Un)

lemma stored_setting_step: "k \<noteq> k' \<Longrightarrow> stored (setting_step r k' db) i k s = stored db i k s"
  by (simp add: setting_step_def stored_add_other split: option.split)

lemma stored_settings: "k \<notin> set ks \<Longrightarrow> stored (fold (setting_step r) ks db) i k s = stored db i k s"
  by (induction ks arbitrary: db) (simp_all add: stored_setting_step)

lemma add_rse_name_attr:
  assumes "add_rse row db = Inr db'" and "rse_name row \<notin> set RSE_SETTINGS"
  shows "stored db' (rse_id row) (rse_name row) ''true''"
    and "new_rse row \<in> set (rses db')"
proof -
  let ?db1 = "db\<lparr>rses := rses db @ [new_rse row]\<rparr>"
  let ?db2 = "fold (setting_step row) RSE_SETTINGS
    (add_rse_attribute (rse_id row) (rse_name row) (ABool True) ?db1)"
  obtain c where db': "db' = ?db2\<lparr>counters := c\<rparr>"
    using assms(1) by (auto simp: add_rse_def Let_def split: if_splits sum.splits)
  have "stored ?db2 (rse_id row) (rse_name row) ''true''"
    using assms(2) stored_add_same [of "rse_id row" "rse_name row" "ABool True" ?db1]
    by (simp add: stored_settings)
  then show "stored db' (rse_id row) (rse_name row) ''true''"
    by (simp add: db' stored_def)
  show "new_rse row \<in> set (rses db')"
    by (simp add: db')
qed

text \<open>A newly added RSE is found by the filter on its own name, which is how an RSE expression
  that names it resolves. The name must not be one of the class attributes of the model, for
  which the filter reads the column instead of the attribute table.\<close>

theorem add_rse_listed_by_name:
  assumes "add_rse row db = Inr db'"
    and "rse_name row \<notin> set column_names" and "rse_name row \<notin> set relationships" and "\<not> orm_attr env (rse_name row)"
  shows "\<exists>rs. list_rses env db' (rse_name row) (ABool True) = Inr rs \<and> new_rse row \<in> set rs"
proof -
  have "rse_name row \<notin> set RSE_SETTINGS"
    using assms(2) by (auto simp: column_names_def text_columns_def RSE_SETTINGS_def)
  note add_rse_name_attr [OF assms(1) this]
  moreover have "rse_name row \<noteq> ''availability''"
    using assms(2) by (auto simp: column_names_def text_columns_def)
  ultimately show ?thesis
    using assms(2-4) by (simp add: list_rses_def in_attr_join stored_def)
qed

theorem add_rse_listed_by_name_witness:
  "\<exists>rs. list_rses \<lparr>sql_eq = (\<lambda>_ _. False), orm_attr = (\<lambda>_. False), region = no_cache\<rparr>
      (empty_rse_db\<lparr>rses := [new_rse (sample_rse ''1'' ''CERN'')],
       rse_attrs := [\<lparr>at_rse_id = ''1'', at_key = ''CERN'', at_value = ''true''\<rparr>],
       counters := \<lparr>rse_usages = [\<lparr>ru_rse_id = ''1'', ru_source = ''rucio'', ru_used = Some 0,
           ru_free = None, ru_files = Some 0\<rparr>], updated_rse_counters = [], rse_usage_history = []\<rparr>\<rparr>)
      ''CERN'' (ABool True) = Inr rs \<and> new_rse (sample_rse ''1'' ''CERN'') \<in> set rs"
  using add_rse_listed_by_name [OF add_sample_rse,
      of "\<lparr>sql_eq = (\<lambda>_ _. False), orm_attr = (\<lambda>_. False), region = no_cache\<rparr>"]
  by (simp add: sample_rse_def column_names_def text_columns_def relationships_def)

text \<open>Deleting an RSE.\<close>

lemma del_rse_cases:
  assumes "rse_wf db" and "del_rse i db = Inr db'"
  obtains r where "r \<in> set (rses db)" "rse_id r = i" "\<not> deleted r"
    "rses db' = rses (set_deleted i True db)"
    "\<And>k. attr_of db' k = (if k = (i, rse_name r) then None else attr_of db k)"
proof -
  obtain r rs where r: "filter (\<lambda>r. rse_id r = i \<and> \<not> deleted r) (rses db) = r # rs"
    using assms(2) by (auto simp: del_rse_def split: list.splits)
  have "r \<in> set (filter (\<lambda>r. rse_id r = i \<and> \<not> deleted r) (rses db))"
    unfolding r by simp
  then have r': "r \<in> set (rses db)" "rse_id r = i" "\<not> deleted r" by simp_all
  let ?db1 = "set_deleted i True db"
  have attrs: "attr_of ?db1 k = attr_of db k" for k
    by (simp add: attr_of_def get_rse_attribute_def)
  from assms(2) r have "(\<exists>e. del_rse_attribute i (rse_name r) ?db1 = Inl e \<and> db' = ?db1)
      \<or> del_rse_attribute i (rse_name r) ?db1 = Inr db'"
    by (simp add: del_rse_def Let_def rbind_eq_Inr split: if_splits sum.splits)
  then consider e where "del_rse_attribute i (rse_name r) ?db1 = Inl e" "db' = ?db1"
    | "del_rse_attribute i (rse_name r) ?db1 = Inr db'"
    by blast
  then have "rses db' = rses ?db1 \<and> (\<forall>k. attr_of db' k = (if k = (i, rse_name r) then None else attr_of db k))"
  proof cases
    case 1
    then show ?thesis using attr_of_del_missing [OF 1(1)] attrs by auto
  next
    case 2
    then show ?thesis using attr_of_del [OF 2] attrs
      by (auto simp: del_rse_attribute_def split: if_splits)
  qed
  then show ?thesis using r' that by auto
qed

lemma rse_id_unique:
  "rse_wf db \<Longrightarrow> r \<in> set (rses db) \<Longrightarrow> s \<in> set (rses db) \<Longrightarrow> rse_id r = rse_id s \<Longrightarrow> r = s"
  by (simp add: rse_wf_def) (meson distinct_map inj_onD)

lemma set_deleted_back:
  assumes "rse_wf db" and "r \<in> set (rses db)" and "\<not> deleted r"
  shows "rses (set_deleted (rse_id r) False (set_deleted (rse_id r) True db)) = rses db"
proof -
  have "s\<lparr>deleted := False\<rparr> = s" if "s \<in> set (rses db)" and "rse_id s = rse_id r" for s
    using rse_id_unique [OF assms(1,2) that(1)] that(2) assms(3) by simp
  then show ?thesis
    by (auto simp: set_deleted_def upd_where_def o_def intro!: map_idI)
qed

lemma listed_live: "list_rses env db k v = Inr rs \<Longrightarrow> set rs \<subseteq> set (list_rses_all db)"
  by (auto simp: list_rses_def list_by_availability_def list_rses_all_def attr_join_def Let_def
      split: if_splits attr_value.splits option.splits)


definition one_rse_db :: rse_db where
  "one_rse_db = empty_rse_db\<lparr>rses := [sample_rse ''1'' ''CERN''],
     rse_attrs := [\<lparr>at_rse_id = ''1'', at_key = ''CERN'', at_value = ''true''\<rparr>,
                   \<lparr>at_rse_id = ''1'', at_key = ''tier'', at_value = ''0''\<rparr>]\<rparr>"

lemma del_one_rse:
  "del_rse ''1'' one_rse_db = Inr (one_rse_db\<lparr>rses := [(sample_rse ''1'' ''CERN'')\<lparr>deleted := True\<rparr>],
     rse_attrs := [\<lparr>at_rse_id = ''1'', at_key = ''tier'', at_value = ''0''\<rparr>]\<rparr>)"
  by (simp add: del_rse_def one_rse_db_def empty_rse_db_def sample_rse_def rse_is_empty_def
      get_counter_def Let_def set_deleted_def del_rse_attribute_def attr_is_def)


lemma av_bit_mod: "av_bit (Some (x mod 2 = 1)) = x mod 2"
  by (cases "x mod 2 = 1") (simp_all add: av_bit_def)

lemma av_bit_01: "av_bit b = 0 \<and> b = Some False \<or> av_bit b = 1 \<and> b \<noteq> Some False"
  by (simp add: av_bit_def)

text \<open>The integer coding of the availability flags: reading the code of a triple gives the triple
  back with missing values read as available, and coding what an integer decodes to gives its
  three low bits.\<close>

theorem availability_roundtrip:
  "from_integer (Some (availability_integer a)) =
      \<lparr>av_read = Some (av_read a \<noteq> Some False), av_write = Some (av_write a \<noteq> Some False),
       av_delete = Some (av_delete a \<noteq> Some False)\<rparr>
   \<and> availability_integer (from_integer (Some n)) = n mod 8"
proof
  show "from_integer (Some (availability_integer a)) =
      \<lparr>av_read = Some (av_read a \<noteq> Some False), av_write = Some (av_write a \<noteq> Some False),
       av_delete = Some (av_delete a \<noteq> Some False)\<rparr>"
    unfolding from_integer_def availability_integer_def
    using av_bit_01 [of "av_read a"] av_bit_01 [of "av_write a"] av_bit_01 [of "av_delete a"]
    by (elim disjE conjE) simp_all
  have "n mod 8 = (n div 4) mod 2 * 4 + (n div 2) mod 2 * 2 + n mod 2"
    using zmod_zmult2_eq [of 4 n 2] zmod_zmult2_eq [of 2 "n div 2" 2] zdiv_zmult2_eq [of 2 n 2]
    by simp
  then show "availability_integer (from_integer (Some n)) = n mod 8"
    by (simp only: from_integer_def availability_integer_def option.case availability.simps av_bit_mod)
qed

end
