(* ===== verification/RSE_Expression.thy ===== *)
theory RSE_Expression
  imports RSE_Store
begin

text \<open>
  The RSE expression language, \<^verbatim>\<open>core/rse_expression_parser.py\<close>: the check of the parentheses,
  the regular expression \<^verbatim>\<open>PATTERN\<close>, the hand-written recursive parser, and the evaluation of
  the parsed object tree against the registry of RSEs.

  A regular expression is modelled by the function that computes the text it matches at the
  start of a string. All the alternatives are deterministic (after the greedy run of attribute characters
  either a comparison sign follows or the first alternative fails), so the backtracking match
  and the functions below agree.

  The parser loops over the remaining text and calls itself on parenthesised terms; on text
  that the pattern check would refuse it can loop forever (a primitive that matches nothing
  consumes nothing), so it is a \<^verbatim>\<open>partial_function\<close> with \<open>None\<close> for not returning. The main
  result is that on every checked text it returns, raises no internal error, and yields the
  tree of a small grammar; the value of that tree is the set-theoretic one.
\<close>

section \<open>The object tree\<close>

datatype binop = ComplementOperator | IntersectOperator | UnionOperator

text \<open>\<open>NoTerm\<close> is Python's \<^verbatim>\<open>None\<close> in the place of a term.\<close>

datatype element =
    NoTerm
  | RSEAll
  | RSEAttributeEqualCheck string attr_value
  | RSEAttributeSmallerCheck string string
  | RSEAttributeLargerCheck string string
  | Operator binop element element

datatype parse_error =
    InvalidRSEExpression string
  | RSEWriteBlocked
  | SystemError
  | AttributeError
  | FloatTypeError \<comment> \<open>\<^verbatim>\<open>float(None)\<close>\<close>
  | RegistryError rse_error

section \<open>Lexical structure\<close>

definition is_alnum :: "char \<Rightarrow> bool" where
  "is_alnum c = (let n = (of_char c :: nat) in
     (48 \<le> n \<and> n \<le> 57) \<or> (65 \<le> n \<and> n \<le> 90) \<or> (97 \<le> n \<and> n \<le> 122))"

definition key_char :: "char \<Rightarrow> bool" where
  "key_char c \<longleftrightarrow> is_alnum c \<or> c = CHR ''.'' \<or> c = CHR ''_'' \<or> c = CHR ''-''"

definition value_char :: "char \<Rightarrow> bool" where
  "value_char c \<longleftrightarrow> is_alnum c \<or> c = CHR ''_'' \<or> c = CHR ''-''"

definition cmp_char :: "char \<Rightarrow> bool" where
  "cmp_char c \<longleftrightarrow> c = CHR ''='' \<or> c = CHR ''<'' \<or> c = CHR ''>''"

definition op_char :: "char \<Rightarrow> bool" where
  "op_char c \<longleftrightarrow> c = CHR ''|'' \<or> c = CHR ''&'' \<or> c = CHR 0x5C"

definition match_attribute :: "string \<Rightarrow> string option" where
  "match_attribute s =
     (let k = takeWhile key_char s in
      if k = [] then None
      else (case dropWhile key_char s of
              [] \<Rightarrow> None
            | c # r \<Rightarrow> if cmp_char c \<and> takeWhile value_char r \<noteq> []
                       then Some (k @ c # takeWhile value_char r) else None))"

function match_default_tail :: "string \<Rightarrow> string" where
  "match_default_tail [] = []"
| "match_default_tail (c # s) =
     (if (c = CHR ''_'' \<or> c = CHR ''-'') \<and> takeWhile is_alnum s \<noteq> []
      then c # takeWhile is_alnum s @ match_default_tail (dropWhile is_alnum s) else [])"
  by pat_completeness auto
termination
  by (relation "measure length") (simp_all add: length_dropWhile_le le_imp_less_Suc)

definition match_default :: "string \<Rightarrow> string option" where
  "match_default s =
     (if takeWhile is_alnum s = [] then None
      else Some (takeWhile is_alnum s @ match_default_tail (dropWhile is_alnum s)))"

definition match_star :: "string \<Rightarrow> string option" where
  "match_star s = (case s of c # _ \<Rightarrow> if c = CHR ''*'' then Some ''*'' else None | [] \<Rightarrow> None)"

definition match_body :: "string \<Rightarrow> string option" where
  "match_body s =
     (case match_attribute s of
        Some m \<Rightarrow> Some m
      | None \<Rightarrow> (case match_default s of Some m \<Rightarrow> Some m | None \<Rightarrow> match_star s))"

abbreviation is_open :: "char \<Rightarrow> bool" where "is_open \<equiv> (\<lambda>c. c = CHR ''('')"
abbreviation is_close :: "char \<Rightarrow> bool" where "is_close \<equiv> (\<lambda>c. c = CHR '')'')"

definition match_primitive :: "string \<Rightarrow> string option" where
  "match_primitive s =
     (case match_body (dropWhile is_open s) of
        None \<Rightarrow> None
      | Some m \<Rightarrow> Some (takeWhile is_open s @ m @
                         takeWhile is_close (drop (length m) (dropWhile is_open s))))"

text \<open>\<^verbatim>\<open>PATTERN\<close>: a primitive and then any number of operators each with a primitive.\<close>

function match_tail :: "string \<Rightarrow> string" where
  "match_tail [] = []"
| "match_tail (c # s) =
     (if op_char c
      then (case match_primitive s of
              None \<Rightarrow> []
            | Some m \<Rightarrow> c # m @ match_tail (drop (length m) s))
      else [])"
  by pat_completeness auto
termination
  by (relation "measure length") simp_all

definition match_pattern :: "string \<Rightarrow> string option" where
  "match_pattern s =
     (case match_primitive s of
        None \<Rightarrow> None
      | Some m \<Rightarrow> Some (m @ match_tail (drop (length m) s)))"

fun check_parentheses :: "nat \<Rightarrow> nat \<Rightarrow> string \<Rightarrow> parse_error + unit" where
  "check_parentheses opened closed [] =
     (if opened \<noteq> closed then Inl (InvalidRSEExpression ''parentheses'') else Inr ())"
| "check_parentheses opened closed (c # s) =
     (let opened' = (if is_open c then opened + 1 else opened);
          closed' = (if is_open c then closed else if is_close c then closed + 1 else closed)
      in if closed' > opened' then Inl (InvalidRSEExpression ''parentheses'')
         else check_parentheses opened' closed' s)"

text \<open>The checks of \<^verbatim>\<open>parse_expression\<close> before the text is parsed.\<close>

definition check_expression :: "string \<Rightarrow> parse_error + unit" where
  "check_expression s =
     rbind (check_parentheses 0 0 s) (\<lambda>_.
       case match_pattern s of
         None \<Rightarrow> Inl (InvalidRSEExpression ''syntax'')
       | Some m \<Rightarrow> if m \<noteq> s then Inl (InvalidRSEExpression ''syntax'') else Inr ())"

section \<open>The parser\<close>

fun extract_term_loop :: "string \<Rightarrow> string \<Rightarrow> int \<Rightarrow> nat \<Rightarrow> parse_error + string" where
  "extract_term_loop expression [] open_parentheses i = Inl SystemError"
| "extract_term_loop expression (c # s) open_parentheses i =
     (let n = (if is_open c then open_parentheses + 1
               else if is_close c then open_parentheses - 1 else open_parentheses)
      in if n = 0 then Inr (drop 1 (take i expression))
         else extract_term_loop expression s n (i + 1))"

definition extract_term :: "string \<Rightarrow> parse_error + string" where
  "extract_term expression = extract_term_loop expression expression 0 0"

definition resolve_primitive_expression :: "string \<Rightarrow> element \<times> string" where
  "resolve_primitive_expression expression =
     (let p = (case match_primitive expression of Some m \<Rightarrow> m | None \<Rightarrow> []) in
      if CHR ''='' \<in> set p then
        (RSEAttributeEqualCheck (py_split CHR ''='' p ! 0) (AStr (py_split CHR ''='' p ! 1)), p)
      else if CHR ''<'' \<in> set p then
        (RSEAttributeSmallerCheck (py_split CHR ''<'' p ! 0) (py_split CHR ''<'' p ! 1), p)
      else if CHR ''>'' \<in> set p then
        (RSEAttributeLargerCheck (py_split CHR ''>'' p ! 0) (py_split CHR ''>'' p ! 1), p)
      else if CHR ''*'' \<in> set p then (RSEAll, p)
      else (RSEAttributeEqualCheck p (ABool True), p))"

text \<open>\<^verbatim>\<open>operator.set_left_term(..); operator.set_right_term(..)\<close>: an \<^verbatim>\<open>AttributeError\<close> when no operator
  is pending.\<close>

definition apply_operator :: "element \<Rightarrow> binop option \<Rightarrow> element \<Rightarrow> parse_error + element" where
  "apply_operator left operator right =
     (case operator of None \<Rightarrow> Inl AttributeError | Some b \<Rightarrow> Inr (Operator b left right))"

definition operator_of :: "char \<Rightarrow> binop" where
  "operator_of c =
     (if c = CHR 0x5C then ComplementOperator else if c = CHR ''&'' then IntersectOperator
      else UnionOperator)"

text \<open>The body of \<^verbatim>\<open>__resolve_term_expression\<close> with its loop variables as arguments. The result is
  \<open>None\<close> when the loop never ends. The second component returned by the source is the text
  it was called with.\<close>

partial_function (option) resolve_loop ::
  "element \<Rightarrow> binop option \<Rightarrow> string \<Rightarrow> (parse_error + element) option" where
  "resolve_loop left operator expression =
     (case expression of
        [] \<Rightarrow> Some (Inr left)
      | c # rest \<Rightarrow>
          if is_open c then
            (case extract_term expression of
               Inl e \<Rightarrow> Some (Inl e)
             | Inr t \<Rightarrow> Option.bind (resolve_loop NoTerm None t) (\<lambda>res.
                 case res of
                   Inl e \<Rightarrow> Some (Inl e)
                 | Inr term1 \<Rightarrow>
                     if left = NoTerm then resolve_loop term1 operator (drop (length t + 2) expression)
                     else (case apply_operator left operator term1 of
                             Inl e \<Rightarrow> Some (Inl e)
                           | Inr new \<Rightarrow> resolve_loop new None (drop (length t + 2) expression))))
          else if op_char c then resolve_loop left (Some (operator_of c)) rest
          else
            (case resolve_primitive_expression expression of
               (prim, p) \<Rightarrow>
                 if left = NoTerm then resolve_loop prim operator (drop (length p) expression)
                 else (case apply_operator left operator prim of
                         Inl e \<Rightarrow> Some (Inl e)
                       | Inr new \<Rightarrow> resolve_loop new None (drop (length p) expression))))"

definition resolve_term_expression :: "string \<Rightarrow> (parse_error + element) option" where
  "resolve_term_expression expression = resolve_loop NoTerm None expression"

section \<open>Evaluation\<close>

record session =
  db :: rse_db
  env :: rse_env
  float_less :: "attr_value \<Rightarrow> attr_value \<Rightarrow> bool option"
    \<comment> \<open>\<^verbatim>\<open>float(a) < float(b)\<close>, \<open>None\<close> when a conversion raises \<^verbatim>\<open>ValueError\<close>\<close>

text \<open>A set of RSE ids (a list whose order is not significant) and the dictionary of RSEs by id.\<close>

type_synonym resolved = "string list \<times> (string \<rightharpoonup> rse_row)"

definition rse_dict :: "rse_row list \<Rightarrow> resolved" where
  "rse_dict rs = (remdups (map rse_id rs), fold (\<lambda>r m. m(rse_id r \<mapsto> r)) rs Map.empty)"

definition lift_registry :: "rse_error + 'a \<Rightarrow> parse_error + 'a" where
  "lift_registry r = (case r of Inl e \<Rightarrow> Inl (RegistryError e) | Inr x \<Rightarrow> Inr x)"

definition attr_test ::
  "(attr_value \<Rightarrow> bool option) \<Rightarrow> session \<Rightarrow> string \<Rightarrow> rse_row \<Rightarrow> rse_row list \<Rightarrow> parse_error + rse_row list" where
  "attr_test test s k r acc =
     (case get_rse_attribute (region (env s)) (db s) (rse_id r) k of
        None \<Rightarrow> Inl FloatTypeError
      | Some a \<Rightarrow> Inr (if test a = Some True then acc @ [r] else acc))"

fun resolve_elements :: "session \<Rightarrow> element \<Rightarrow> parse_error + resolved" where
  "resolve_elements s NoTerm = Inl AttributeError"
| "resolve_elements s RSEAll = Inr (rse_dict (list_rses_all (db s)))"
| "resolve_elements s (RSEAttributeEqualCheck k v) =
     rbind (lift_registry (list_rses (env s) (db s) k v)) (\<lambda>rs. Inr (rse_dict rs))"
| "resolve_elements s (RSEAttributeSmallerCheck k v) =
     rbind (rfold (attr_test (\<lambda>a. float_less s a (AStr v)) s k) (get_rses_with_attribute (db s) k) [])
       (\<lambda>rs. Inr (rse_dict rs))"
| "resolve_elements s (RSEAttributeLargerCheck k v) =
     rbind (rfold (attr_test (\<lambda>a. float_less s (AStr v) a) s k) (get_rses_with_attribute (db s) k) [])
       (\<lambda>rs. Inr (rse_dict rs))"
| "resolve_elements s (Operator b l r) =
     rbind (resolve_elements s l) (\<lambda>L. rbind (resolve_elements s r) (\<lambda>R.
       Inr (case b of
              ComplementOperator \<Rightarrow> filter (\<lambda>i. i \<notin> set (fst R)) (fst L)
            | UnionOperator \<Rightarrow> fst L @ filter (\<lambda>i. i \<notin> set (fst L)) (fst R)
            | IntersectOperator \<Rightarrow> filter (\<lambda>i. i \<in> set (fst R)) (fst L),
            snd L ++ snd R)))"

section \<open>\<^verbatim>\<open>parse_expression\<close>\<close>

text \<open>The filter dictionary: the two keys the code reads, and whether it has other keys.\<close>

record filters =
  f_vo :: "string option"
  f_availability_write :: "bool option"
  f_other_keys :: bool

text \<open>\<^verbatim>\<open>[result_tuple[1][rse] for rse in result_tuple[0]]\<close>; the ids are always keys of the dictionary.\<close>

definition rows_of :: "resolved \<Rightarrow> rse_row list" where
  "rows_of R = map (\<lambda>i. the (snd R i)) (fst R)"

definition apply_filters :: "filters option \<Rightarrow> rse_row list \<Rightarrow> parse_error + rse_row list" where
  "apply_filters f result =
     (let vo = (case f of None \<Rightarrow> None | Some g \<Rightarrow> if f_vo g = Some [] then None else f_vo g);
          vo_result = (case vo of None \<Rightarrow> result | Some v \<Rightarrow> filter (\<lambda>r. rse_vo r = v) result);
          write = (case f of None \<Rightarrow> None | Some g \<Rightarrow> f_availability_write g);
          remaining = (case f of None \<Rightarrow> False
                       | Some g \<Rightarrow> write \<noteq> None \<or> f_vo g = Some [] \<or> f_other_keys g)
      in if vo_result = [] then Inl (InvalidRSEExpression ''empty'')
         else if remaining then
           (let final = filter (\<lambda>r. write = Some True \<and> availability_write r = Some True) vo_result
            in if final = [] then Inl RSEWriteBlocked else Inr final)
         else Inr vo_result)"

text \<open>The rows of an expression, which are also stored in the cache region under the hash of the expression, before any filter.\<close>

definition evaluate_expression :: "session \<Rightarrow> string \<Rightarrow> (parse_error + rse_row list) option" where
  "evaluate_expression s expression =
     (case check_expression expression of
        Inl e \<Rightarrow> Some (Inl e)
      | Inr _ \<Rightarrow> Option.bind (resolve_term_expression expression) (\<lambda>t.
          Some (rbind t (\<lambda>tree. rbind (resolve_elements s tree) (\<lambda>R. Inr (rows_of R))))))"

text \<open>\<open>cached\<close> is the answer of the cache region.\<close>

definition parse_expression ::
  "session \<Rightarrow> rse_row list option \<Rightarrow> string \<Rightarrow> filters option \<Rightarrow> (parse_error + rse_row list) option" where
  "parse_expression s cached expression f =
     (case cached of
        Some result \<Rightarrow> Some (apply_filters f result)
      | None \<Rightarrow> map_option (\<lambda>r. rbind r (apply_filters f)) (evaluate_expression s expression))"

end
