(* ===== verification/Priority_Queue.thy ===== *)
theory Priority_Queue
  imports Prelude
begin

text \<open>
  The priority queue of \<^verbatim>\<open>common/utils.py\<close>: a binary heap in a list, with a dictionary that gives for every
  key its position in the heap and its priority, so that the priority of a key can be changed in place.

  The class is modelled method by method. The invariant \<open>pq_wf\<close> ties the dictionary to the list and orders
  the heap; the abstraction \<open>pq_prio\<close> forgets the positions. The locale \<open>priority_map\<close> is what a client
  may rely on: the queue is a finite map from keys to priorities and \<^verbatim>\<open>pop\<close> takes a key of least priority. Its
  interpretation \<open>pq\<close> is the proof that the heap implements it.
\<close>

section \<open>The class\<close>

record 'p slot =
  pos :: nat
  prio :: 'p

record ('k, 'p) pqueue =
  heap :: "'k list"
  container :: "'k \<rightharpoonup> 'p slot"

definition pq_init :: "('k, 'p) pqueue" where
  "pq_init = \<lparr>heap = [], container = Map.empty\<rparr>"

definition pq_len :: "('k, 'p) pqueue \<Rightarrow> nat" where
  "pq_len q = length (heap q)"

definition pq_contains :: "('k, 'p) pqueue \<Rightarrow> 'k \<Rightarrow> bool" where
  "pq_contains q k \<longleftrightarrow> container q k \<noteq> None"

text \<open>\<open>None\<close> is the \<^verbatim>\<open>KeyError\<close> of \<^verbatim>\<open>__getitem__\<close> and the \<^verbatim>\<open>IndexError\<close> of \<^verbatim>\<open>top\<close> on an empty queue.\<close>

definition pq_getitem :: "('k, 'p) pqueue \<Rightarrow> 'k \<Rightarrow> 'p option" where
  "pq_getitem q k = map_option prio (container q k)"

definition pq_top :: "('k, 'p) pqueue \<Rightarrow> 'k option" where
  "pq_top q = (case heap q of [] \<Rightarrow> None | k # _ \<Rightarrow> Some k)"

text \<open>\<^verbatim>\<open>self.container[k]\<close> for a key of the heap, which always has a slot (\<open>pq_wf\<close>).\<close>

definition slot_of :: "('k, 'p) pqueue \<Rightarrow> 'k \<Rightarrow> 'p slot" where
  "slot_of q k = the (container q k)"

definition prio_at :: "('k, 'p) pqueue \<Rightarrow> nat \<Rightarrow> 'p" where
  "prio_at q i = prio (slot_of q (heap q ! i))"

definition set_pos :: "'k \<Rightarrow> nat \<Rightarrow> ('k, 'p) pqueue \<Rightarrow> ('k, 'p) pqueue" where
  "set_pos k p q = q\<lparr>container := (container q)(k \<mapsto> (slot_of q k)\<lparr>pos := p\<rparr>)\<rparr>"

definition set_prio :: "'k \<Rightarrow> 'p \<Rightarrow> ('k, 'p) pqueue \<Rightarrow> ('k, 'p) pqueue" where
  "set_prio k v q = q\<lparr>container := (container q)(k \<mapsto> (slot_of q k)\<lparr>prio := v\<rparr>)\<rparr>"

definition swap_at :: "nat \<Rightarrow> nat \<Rightarrow> 'a list \<Rightarrow> 'a list" where
  "swap_at i j xs = xs[i := xs ! j, j := xs ! i]"

text \<open>The body of the loop of \<^verbatim>\<open>_priority_decreased\<close>: the item moves up, both positions are exchanged.\<close>

definition swap_up :: "nat \<Rightarrow> nat \<Rightarrow> ('k, 'p) pqueue \<Rightarrow> ('k, 'p) pqueue" where
  "swap_up i j q =
     (let tmp_item = heap q ! j; parent = heap q ! i;
          q1 = q\<lparr>heap := swap_at i j (heap q)\<rparr>
      in set_pos parent (pos (slot_of q1 tmp_item)) (set_pos tmp_item (pos (slot_of q1 parent)) q1))"

definition pos_parent :: "nat \<Rightarrow> nat" where
  "pos_parent i = (i - 1) div 2"

lemma pos_parent_less: "0 < i \<Longrightarrow> pos_parent i < i"
  by (auto simp: pos_parent_def)

function decreased_loop :: "nat \<Rightarrow> bool \<Rightarrow> ('k, 'p::linorder) pqueue \<Rightarrow> bool \<times> ('k, 'p) pqueue" where
  "decreased_loop i changed q =
     (let j = pos_parent i
      in if 0 < i \<and> prio_at q i < prio_at q j then decreased_loop j True (swap_up i j q) else (changed, q))"
  by pat_completeness auto
termination by (relation "measure (\<lambda>(i, _, _). i)") (auto simp: pos_parent_less)

definition priority_decreased :: "'k \<Rightarrow> ('k, 'p::linorder) pqueue \<Rightarrow> bool \<times> ('k, 'p) pqueue" where
  "priority_decreased k q = decreased_loop (pos (slot_of q k)) False q"

text \<open>The position with the least priority among an item and its two children.\<close>

definition pos_min :: "nat \<Rightarrow> nat \<Rightarrow> ('k, 'p::linorder) pqueue \<Rightarrow> nat" where
  "pos_min n i q =
     (let c1 = 2 * i + 1; c2 = 2 * i + 2;
          m = (if c1 < n \<and> prio_at q c1 < prio_at q i then c1 else i)
      in if c2 < n \<and> prio_at q c2 < prio_at q m then c2 else m)"

text \<open>The body of the loop of \<^verbatim>\<open>_priority_increased\<close>: the child moves up; the position of the item itself is
  only written after the loop.\<close>

definition swap_down :: "nat \<Rightarrow> nat \<Rightarrow> ('k, 'p) pqueue \<Rightarrow> ('k, 'p) pqueue" where
  "swap_down i m q = set_pos (heap q ! m) i (q\<lparr>heap := swap_at m i (heap q)\<rparr>)"

lemma pos_min_range: "pos_min n i q \<noteq> i \<Longrightarrow> i < pos_min n i q \<and> pos_min n i q < n"
  by (auto simp: pos_min_def Let_def split: if_splits)

function increased_loop :: "nat \<Rightarrow> nat \<Rightarrow> bool \<Rightarrow> ('k, 'p::linorder) pqueue \<Rightarrow> bool \<times> ('k, 'p) pqueue" where
  "increased_loop n i changed q =
     (let m = pos_min n i q
      in if m \<noteq> i then increased_loop n m True (swap_down i m q)
         else (changed, set_pos (heap q ! i) i q))"
  by pat_completeness auto
termination
proof (relation "measure (\<lambda>(n, i, _, _). n - i)", simp)
  fix n i :: nat and changed :: bool and q :: "('k, 'p::linorder) pqueue" and m
  assume "m = pos_min n i q" and "m \<noteq> i"
  with pos_min_range [of n i q] have "i < m" and "m < n" by simp_all
  then show "((n, m, True, swap_down i m q), n, i, changed, q) \<in> measure (\<lambda>(n, i, _, _). n - i)"
    by simp
qed

definition priority_increased :: "'k \<Rightarrow> ('k, 'p::linorder) pqueue \<Rightarrow> bool \<times> ('k, 'p) pqueue" where
  "priority_increased k q = increased_loop (length (heap q)) (pos (slot_of q k)) False q"

definition pq_setitem :: "'k \<Rightarrow> 'p \<Rightarrow> ('k, 'p::linorder) pqueue \<Rightarrow> ('k, 'p) pqueue" where
  "pq_setitem k v q =
     (if pq_contains q k then
        (let existing_prio = prio (slot_of q k); q1 = set_prio k v q
         in if v < existing_prio then snd (priority_decreased k q1)
            else if existing_prio < v then snd (priority_increased k q1)
            else q1)
      else
        (let h = heap q @ [k];
             q1 = q\<lparr>heap := h, container := (container q)(k \<mapsto> \<lparr>pos = length h - 1, prio = v\<rparr>)\<rparr>
         in snd (priority_decreased k q1)))"

text \<open>\<open>None\<close> is the \<^verbatim>\<open>IndexError\<close> of \<^verbatim>\<open>pop\<close> on an empty queue.\<close>

definition pq_pop :: "('k, 'p::linorder) pqueue \<Rightarrow> ('k \<times> ('k, 'p) pqueue) option" where
  "pq_pop q =
     (case heap q of
        [] \<Rightarrow> None
      | item # _ \<Rightarrow>
          let tmp_item = last (heap q);
              q1 = q\<lparr>heap := butlast (heap q), container := (container q)(item := None)\<rparr>
          in if heap q1 \<noteq> [] then
               Some (item, snd (priority_increased tmp_item
                 (set_pos tmp_item 0 (q1\<lparr>heap := (heap q1)[0 := tmp_item]\<rparr>))))
             else Some (item, q1))"

declare decreased_loop.simps [simp del] increased_loop.simps [simp del]

section \<open>Heap order on lists of priorities\<close>

definition heap_ord :: "'p::linorder list \<Rightarrow> bool" where
  "heap_ord ps \<longleftrightarrow> (\<forall>i < length ps. 0 < i \<longrightarrow> ps ! pos_parent i \<le> ps ! i)"

text \<open>Heap order with one item too small for its place (\<open>hole_up\<close>) or too large (\<open>hole_down\<close>).\<close>

definition hole_up :: "nat \<Rightarrow> 'p::linorder list \<Rightarrow> bool" where
  "hole_up e ps \<longleftrightarrow> (\<forall>i < length ps. 0 < i \<longrightarrow>
     (i \<noteq> e \<longrightarrow> ps ! pos_parent i \<le> ps ! i) \<and> (pos_parent i = e \<and> 0 < e \<longrightarrow> ps ! pos_parent e \<le> ps ! i))"

definition hole_down :: "nat \<Rightarrow> 'p::linorder list \<Rightarrow> bool" where
  "hole_down e ps \<longleftrightarrow> (\<forall>i < length ps. 0 < i \<longrightarrow>
     (pos_parent i \<noteq> e \<longrightarrow> ps ! pos_parent i \<le> ps ! i) \<and> (pos_parent i = e \<and> 0 < e \<longrightarrow> ps ! pos_parent e \<le> ps ! i))"

lemma length_swap_at [simp]: "length (swap_at i j xs) = length xs"
  by (simp add: swap_at_def)

lemma swap_at_nth:
  "i < length xs \<Longrightarrow> j < length xs \<Longrightarrow> k < length xs \<Longrightarrow>
     swap_at i j xs ! k = xs ! (if k = i then j else if k = j then i else k)"
  by (auto simp: swap_at_def nth_list_update)

lemma set_swap_at [simp]: "i < length xs \<Longrightarrow> j < length xs \<Longrightarrow> set (swap_at i j xs) = set xs"
  by (simp add: swap_at_def)

lemma distinct_swap_at [simp]: "i < length xs \<Longrightarrow> j < length xs \<Longrightarrow> distinct (swap_at i j xs) = distinct xs"
  by (simp add: swap_at_def)

lemma map_swap_at: "i < length xs \<Longrightarrow> j < length xs \<Longrightarrow> map f (swap_at i j xs) = swap_at i j (map f xs)"
  by (simp add: swap_at_def map_update)

lemma hole_up_swap:
  assumes h: "hole_up e ps" and e: "0 < e" "e < length ps" and less: "ps ! e < ps ! pos_parent e"
  shows "hole_up (pos_parent e) (swap_at e (pos_parent e) ps)"
  unfolding hole_up_def
proof (intro allI impI)
  let ?qs = "swap_at e (pos_parent e) ps"
  fix i assume i: "i < length ?qs" "0 < i"
  have pe: "pos_parent e < length ps" "pos_parent e < e"
    using e pos_parent_less [OF e(1)] by simp_all
  have pi: "pos_parent i < length ps" "pos_parent i < i"
    using i pos_parent_less [OF i(2)] by simp_all
  have nth: "?qs ! k = ps ! (if k = e then pos_parent e else if k = pos_parent e then e else k)" if "k < length ps" for k
    using swap_at_nth [OF e(2) pe(1) that] .
  have *: "\<And>k. k < length ps \<Longrightarrow> 0 < k \<Longrightarrow> k \<noteq> e \<Longrightarrow> ps ! pos_parent k \<le> ps ! k"
    and **: "\<And>k. k < length ps \<Longrightarrow> 0 < k \<Longrightarrow> pos_parent k = e \<Longrightarrow> ps ! pos_parent e \<le> ps ! k"
    using h e by (auto simp: hole_up_def)
  have i': "i < length ps" using i by simp
  have c1: "?qs ! pos_parent i \<le> ?qs ! i" if "i \<noteq> pos_parent e"
  proof (cases "i = e")
    case True
    then show ?thesis using less pe e by (simp add: nth)
  next
    case False
    have le: "ps ! pos_parent i \<le> ps ! i" using * [OF i' i(2) False] .
    consider "pos_parent i = e" | "pos_parent i = pos_parent e" | "pos_parent i \<noteq> e" "pos_parent i \<noteq> pos_parent e" by blast
    then show ?thesis
    proof cases
      case 1
      then show ?thesis using ** [OF i' i(2) 1] False that nth [OF pi(1)] nth [OF i'] by simp
    next
      case 2
      then show ?thesis using le less False that nth [OF pi(1)] nth [OF i'] pe by auto
    next
      case 3
      then show ?thesis using le False that nth [OF pi(1)] nth [OF i'] by simp
    qed
  qed
  have c2: "?qs ! pos_parent (pos_parent e) \<le> ?qs ! i" if "pos_parent i = pos_parent e" "0 < pos_parent e"
  proof -
    have gp: "pos_parent (pos_parent e) < length ps" "pos_parent (pos_parent e) < pos_parent e"
      using that pe pos_parent_less [OF that(2)] by simp_all
    have up: "ps ! pos_parent (pos_parent e) \<le> ps ! pos_parent e" using * [of "pos_parent e"] pe that by simp
    show ?thesis
    proof (cases "i = e")
      case True
      then show ?thesis using up nth [OF gp(1)] nth [OF i'] gp pe by simp
    next
      case False
      have "ps ! pos_parent e \<le> ps ! i" using * [OF i' i(2) False] that(1) by simp
      moreover have "i \<noteq> pos_parent e" using that pi by auto
      ultimately show ?thesis using up False nth [OF gp(1)] nth [OF i'] gp pe by auto
    qed
  qed
  show "(i \<noteq> pos_parent e \<longrightarrow> ?qs ! pos_parent i \<le> ?qs ! i) \<and>
     (pos_parent i = pos_parent e \<and> 0 < pos_parent e \<longrightarrow> ?qs ! pos_parent (pos_parent e) \<le> ?qs ! i)"
    using c1 c2 by blast
qed

lemma hole_up_done: "hole_up e ps \<Longrightarrow> e = 0 \<or> ps ! pos_parent e \<le> ps ! e \<Longrightarrow> heap_ord ps"
  by (auto simp: hole_up_def heap_ord_def)

lemma hole_down_swap:
  assumes h: "hole_down e ps" and m: "m < length ps" "0 < m" "pos_parent m = e"
    and less: "ps ! m < ps ! e" and least: "\<And>i. i < length ps \<Longrightarrow> 0 < i \<Longrightarrow> pos_parent i = e \<Longrightarrow> ps ! m \<le> ps ! i"
  shows "hole_down m (swap_at m e ps)"
  unfolding hole_down_def
proof (intro allI impI)
  let ?qs = "swap_at m e ps"
  fix i assume i: "i < length ?qs" "0 < i"
  have em: "e < m" "e < length ps" using m pos_parent_less [OF m(2)] by simp_all
  have i': "i < length ps" using i by simp
  have pi: "pos_parent i < length ps" "pos_parent i < i"
    using i pos_parent_less [OF i(2)] by simp_all
  have nth: "?qs ! k = ps ! (if k = m then e else if k = e then m else k)" if "k < length ps" for k
    using swap_at_nth [OF m(1) em(2) that] .
  have *: "\<And>k. k < length ps \<Longrightarrow> 0 < k \<Longrightarrow> pos_parent k \<noteq> e \<Longrightarrow> ps ! pos_parent k \<le> ps ! k"
    and **: "\<And>k. k < length ps \<Longrightarrow> 0 < k \<Longrightarrow> pos_parent k = e \<Longrightarrow> 0 < e \<Longrightarrow> ps ! pos_parent e \<le> ps ! k"
    using h by (auto simp: hole_down_def)
  have c1: "?qs ! pos_parent i \<le> ?qs ! i" if "pos_parent i \<noteq> m"
  proof (cases "pos_parent i = e")
    case True
    have "i \<noteq> e" using True pi by auto
    then show ?thesis using least [OF i' i(2) True] less True that nth [OF pi(1)] nth [OF i'] by (cases "i = m") auto
  next
    case False
    have le: "ps ! pos_parent i \<le> ps ! i" using * [OF i' i(2) False] .
    have "i \<noteq> m" using False m by auto
    moreover have "ps ! pos_parent e \<le> ps ! m" if "i = e" using ** [OF m] i that by simp
    ultimately show ?thesis using le False that nth [OF pi(1)] nth [OF i'] by auto
  qed
  have c2: "?qs ! pos_parent m \<le> ?qs ! i" if "pos_parent i = m"
  proof -
    have "i \<noteq> m" "i \<noteq> e" using that pi em by auto
    moreover have "ps ! m \<le> ps ! i" using * [OF i' i(2)] that em by auto
    ultimately show ?thesis using m(3) nth [OF em(2)] nth [OF i'] em by simp
  qed
  show "(pos_parent i \<noteq> m \<longrightarrow> ?qs ! pos_parent i \<le> ?qs ! i) \<and> (pos_parent i = m \<and> 0 < m \<longrightarrow> ?qs ! pos_parent m \<le> ?qs ! i)"
    using c1 c2 by blast
qed

lemma hole_down_done:
  assumes "hole_down e ps" and "\<And>i. i < length ps \<Longrightarrow> 0 < i \<Longrightarrow> pos_parent i = e \<Longrightarrow> ps ! e \<le> ps ! i"
  shows "heap_ord ps"
  using assms by (auto simp: hole_down_def heap_ord_def)

lemma heap_ord_least: "heap_ord ps \<Longrightarrow> i < length ps \<Longrightarrow> ps ! 0 \<le> ps ! i"
proof (induction i rule: less_induct)
  case (less i)
  show ?case
  proof (cases "i = 0")
    case False
    have "pos_parent i < i" "pos_parent i < length ps"
      using False less.prems(2) pos_parent_less [of i] by simp_all
    from less.IH [OF this(1) less.prems(1) this(2)] show ?thesis
      using less.prems False by (auto simp: heap_ord_def intro: order_trans)
  qed simp
qed

section \<open>The invariant\<close>

definition prios :: "('k, 'p) pqueue \<Rightarrow> 'p list" where
  "prios q = map (\<lambda>k. the (pq_getitem q k)) (heap q)"

definition keys_ok :: "('k, 'p) pqueue \<Rightarrow> bool" where
  "keys_ok q \<longleftrightarrow> distinct (heap q) \<and> dom (container q) = set (heap q)"

text \<open>Every key of the heap but the one at \<open>e\<close> knows its position.\<close>

definition pos_but :: "nat \<Rightarrow> ('k, 'p) pqueue \<Rightarrow> bool" where
  "pos_but e q \<longleftrightarrow> (\<forall>i < length (heap q). i \<noteq> e \<longrightarrow> pos (slot_of q (heap q ! i)) = i)"

definition pos_ok :: "('k, 'p) pqueue \<Rightarrow> bool" where
  "pos_ok q \<longleftrightarrow> (\<forall>i < length (heap q). pos (slot_of q (heap q ! i)) = i)"

definition pq_wf :: "('k, 'p::linorder) pqueue \<Rightarrow> bool" where
  "pq_wf q \<longleftrightarrow> keys_ok q \<and> pos_ok q \<and> heap_ord (prios q)"

lemma length_prios [simp]: "length (prios q) = length (heap q)"
  by (simp add: prios_def)

lemma keys_ok_slot: "keys_ok q \<Longrightarrow> k \<in> set (heap q) \<Longrightarrow> container q k = Some (slot_of q k)"
  by (metis domD keys_ok_def option.sel slot_of_def)

lemma prio_at_prios: "keys_ok q \<Longrightarrow> i < length (heap q) \<Longrightarrow> prio_at q i = prios q ! i"
  by (simp add: prio_at_def prios_def pq_getitem_def keys_ok_slot)

lemma getitem_set_pos [simp]: "container q k \<noteq> None \<Longrightarrow> pq_getitem (set_pos k p q) = pq_getitem q"
  by (auto simp: pq_getitem_def set_pos_def slot_of_def fun_eq_iff)

lemma heap_set_pos [simp]: "heap (set_pos k p q) = heap q"
  by (simp add: set_pos_def)

lemma keys_ok_set_pos: "keys_ok q \<Longrightarrow> k \<in> set (heap q) \<Longrightarrow> keys_ok (set_pos k p q)"
  by (auto simp: keys_ok_def set_pos_def)

lemma slot_set_pos:
  "pos (slot_of (set_pos k p q) k') = (if k' = k then p else pos (slot_of q k'))"
  by (simp add: slot_of_def set_pos_def)

lemma keys_ok_heap: "keys_ok q \<Longrightarrow> set h = set (heap q) \<Longrightarrow> distinct h \<Longrightarrow> keys_ok (q\<lparr>heap := h\<rparr>)"
  by (simp add: keys_ok_def)

lemma getitem_heap [simp]: "pq_getitem (q\<lparr>heap := h\<rparr>) = pq_getitem q"
  by (simp add: pq_getitem_def fun_eq_iff)

lemma slot_of_heap [simp]: "slot_of (q\<lparr>heap := h\<rparr>) = slot_of q"
  by (simp add: slot_of_def fun_eq_iff)

lemma swap_up_effect:
  assumes k: "keys_ok q" and p: "pos_ok q" and ij: "i < length (heap q)" "j < length (heap q)" "i \<noteq> j"
  shows "heap (swap_up i j q) = swap_at i j (heap q)" and "keys_ok (swap_up i j q)" and "pos_ok (swap_up i j q)"
    and "pq_getitem (swap_up i j q) = pq_getitem q" and "prios (swap_up i j q) = swap_at i j (prios q)"
proof -
  let ?q1 = "q\<lparr>heap := swap_at i j (heap q)\<rparr>"
  let ?q2 = "set_pos (heap q ! j) i ?q1"
  have dist: "distinct (heap q)" using k by (simp add: keys_ok_def)
  have ne: "heap q ! i \<noteq> heap q ! j" using ij dist by (simp add: nth_eq_iff_index_eq)
  have mem: "heap q ! i \<in> set (heap q)" "heap q ! j \<in> set (heap q)" using ij by simp_all
  have k1: "keys_ok ?q1" using k ij dist by (intro keys_ok_heap) simp_all
  have k2: "keys_ok ?q2" using keys_ok_set_pos [OF k1] mem ij by simp
  have up: "swap_up i j q = set_pos (heap q ! i) j ?q2"
    using p ij by (simp add: swap_up_def Let_def pos_ok_def)
  show h: "heap (swap_up i j q) = swap_at i j (heap q)" by (simp add: up)
  show "keys_ok (swap_up i j q)" unfolding up using keys_ok_set_pos [OF k2] mem ij by simp
  show "pos_ok (swap_up i j q)"
    unfolding pos_ok_def h length_swap_at
  proof (intro allI impI)
    fix n assume n: "n < length (heap q)"
    have "pos (slot_of q (heap q ! n)) = n" using p n by (simp add: pos_ok_def)
    then show "pos (slot_of (swap_up i j q) (swap_at i j (heap q) ! n)) = n"
      using ij n ne dist by (auto simp: up slot_set_pos swap_at_nth nth_eq_iff_index_eq)
  qed
  have "container ?q2 (heap q ! i) \<noteq> None" "container ?q1 (heap q ! j) \<noteq> None"
    using k k2 mem ij by (simp_all add: keys_ok_slot)
  then show g: "pq_getitem (swap_up i j q) = pq_getitem q" by (simp add: up)
  show "prios (swap_up i j q) = swap_at i j (prios q)" unfolding prios_def g h using ij by (simp add: map_swap_at)
qed

lemma decreased_loop_wf:
  assumes "keys_ok q" and "pos_ok q" and "i < length (heap q)" and "hole_up i (prios q)"
  shows "pq_wf (snd (decreased_loop i c q)) \<and> pq_getitem (snd (decreased_loop i c q)) = pq_getitem q"
  using assms
proof (induction i c q rule: decreased_loop.induct)
  case (1 i c q)
  show ?case
  proof (cases "0 < i \<and> prio_at q i < prio_at q (pos_parent i)")
    case True
    have j: "pos_parent i < length (heap q)" "i \<noteq> pos_parent i"
      using pos_parent_less [of i] True "1.prems"(3) by simp_all
    note sw = swap_up_effect [OF "1.prems"(1,2,3) j]
    have less: "prios q ! i < prios q ! pos_parent i"
      using True "1.prems"(1,3) j by (simp add: prio_at_prios)
    from hole_up_swap [OF "1.prems"(4) _ _ this] True "1.prems"(3)
    have "hole_up (pos_parent i) (prios (swap_up i (pos_parent i) q))" by (simp add: sw)
    with "1.IH" [OF refl True sw(2,3)] j
    have "pq_wf (snd (decreased_loop (pos_parent i) True (swap_up i (pos_parent i) q))) \<and>
        pq_getitem (snd (decreased_loop (pos_parent i) True (swap_up i (pos_parent i) q))) = pq_getitem q"
      by (simp add: sw)
    then show ?thesis using True by (subst (1 2) decreased_loop.simps) (simp add: Let_def)
  next
    case False
    have "0 < i \<Longrightarrow> pos_parent i < length (heap q)" using pos_parent_less [of i] "1.prems"(3) by simp
    with False have "i = 0 \<or> prios q ! pos_parent i \<le> prios q ! i"
      using "1.prems"(1,3) by (cases "i = 0") (simp_all add: prio_at_prios not_less)
    from hole_up_done [OF "1.prems"(4) this] have "pq_wf q" using "1.prems" by (simp add: pq_wf_def)
    then show ?thesis using False by (subst (1 2) decreased_loop.simps) (auto simp: Let_def)
  qed
qed

lemma swap_down_effect:
  assumes k: "keys_ok q" and p: "pos_but i q" and ij: "i < length (heap q)" "m < length (heap q)" "i \<noteq> m"
  shows "heap (swap_down i m q) = swap_at m i (heap q)" and "keys_ok (swap_down i m q)" and "pos_but m (swap_down i m q)"
    and "pq_getitem (swap_down i m q) = pq_getitem q" and "prios (swap_down i m q) = swap_at m i (prios q)"
proof -
  let ?q1 = "q\<lparr>heap := swap_at m i (heap q)\<rparr>"
  have dist: "distinct (heap q)" using k by (simp add: keys_ok_def)
  have mem: "heap q ! m \<in> set (heap q)" using ij by simp
  have k1: "keys_ok ?q1" using k ij dist by (intro keys_ok_heap) simp_all
  show h: "heap (swap_down i m q) = swap_at m i (heap q)" by (simp add: swap_down_def)
  show "keys_ok (swap_down i m q)" unfolding swap_down_def using keys_ok_set_pos [OF k1] mem ij by simp
  show "pos_but m (swap_down i m q)"
    unfolding pos_but_def h length_swap_at
  proof (intro allI impI)
    fix n assume n: "n < length (heap q)" "n \<noteq> m"
    then have "n = i \<or> pos (slot_of q (heap q ! n)) = n" using p by (auto simp: pos_but_def)
    then show "pos (slot_of (swap_down i m q) (swap_at m i (heap q) ! n)) = n"
      using ij n dist by (auto simp: swap_down_def slot_set_pos swap_at_nth nth_eq_iff_index_eq)
  qed
  have "container ?q1 (heap q ! m) \<noteq> None" using k mem by (simp add: keys_ok_slot)
  then show g: "pq_getitem (swap_down i m q) = pq_getitem q" by (simp add: swap_down_def)
  show "prios (swap_down i m q) = swap_at m i (prios q)" unfolding prios_def g h using ij by (simp add: map_swap_at)
qed

lemma child_cases: "0 < c \<Longrightarrow> pos_parent c = i \<Longrightarrow> c = 2 * i + 1 \<or> c = 2 * i + 2"
  unfolding pos_parent_def by presburger

lemma pos_parent_child: "pos_parent (Suc (2 * i)) = i" "pos_parent (Suc (Suc (2 * i))) = i"
  by (simp_all add: pos_parent_def)

text \<open>\<open>pos_min\<close> is the item itself, when no child is smaller, or its least child.\<close>

lemma pos_min_least:
  assumes "keys_ok q" and "i < length (heap q)"
  shows "(let m = pos_min (length (heap q)) i q in
     m < length (heap q) \<and> (m \<noteq> i \<longrightarrow> 0 < m \<and> pos_parent m = i \<and> prios q ! m < prios q ! i) \<and>
     (\<forall>c < length (heap q). 0 < c \<longrightarrow> pos_parent c = i \<longrightarrow> prios q ! m \<le> prios q ! c))"
  using assms
  by (auto simp: pos_min_def Let_def prio_at_prios not_less pos_parent_child dest!: child_cases)

lemma increased_loop_wf:
  assumes "n = length (heap q)" and "keys_ok q" and "pos_but i q" and "i < length (heap q)" and "hole_down i (prios q)"
  shows "pq_wf (snd (increased_loop n i c q)) \<and> pq_getitem (snd (increased_loop n i c q)) = pq_getitem q"
  using assms
proof (induction n i c q rule: increased_loop.induct)
  case (1 n i c q)
  note prems = "1.prems"
  let ?m = "pos_min n i q"
  have m: "?m < length (heap q)" "?m \<noteq> i \<Longrightarrow> 0 < ?m \<and> pos_parent ?m = i \<and> prios q ! ?m < prios q ! i"
    "\<And>c. c < length (heap q) \<Longrightarrow> 0 < c \<Longrightarrow> pos_parent c = i \<Longrightarrow> prios q ! ?m \<le> prios q ! c"
    using pos_min_least [OF prems(2,4)] prems(1) by (simp_all add: Let_def)
  show ?case
  proof (cases "?m = i")
    case False
    note sw = swap_down_effect [OF prems(2,3,4) m(1)] and m2 = m(2) [OF False]
    have "hole_down ?m (swap_at ?m i (prios q))"
      using hole_down_swap [OF prems(5) _ conjunct1 [OF m2]] m2 m(1,3) by simp
    with "1.IH" [OF refl False] sw False prems(1) m(1)
    have "pq_wf (snd (increased_loop n ?m True (swap_down i ?m q))) \<and>
        pq_getitem (snd (increased_loop n ?m True (swap_down i ?m q))) = pq_getitem q" by simp
    then show ?thesis using False by (subst (1 2) increased_loop.simps) (simp add: Let_def)
  next
    case True
    have mem: "heap q ! i \<in> set (heap q)" using prems(4) by simp
    have dist: "distinct (heap q)" using prems(2) by (simp add: keys_ok_def)
    have ord: "heap_ord (prios q)" using hole_down_done [OF prems(5)] m(3) True by simp
    have g: "pq_getitem (set_pos (heap q ! i) i q) = pq_getitem q"
      using prems(2) mem by (simp add: keys_ok_slot)
    have "pos_ok (set_pos (heap q ! i) i q)"
      using prems(3,4) dist by (auto simp: pos_ok_def pos_but_def slot_set_pos nth_eq_iff_index_eq)
    then have "pq_wf (set_pos (heap q ! i) i q)"
      using keys_ok_set_pos [OF prems(2) mem] ord g by (simp add: pq_wf_def prios_def)
    then show ?thesis using True g by (subst (1 2) increased_loop.simps) (simp add: Let_def)
  qed
qed

section \<open>The methods keep the invariant and implement a map\<close>

lemma pq_wf_key: "pq_wf q \<Longrightarrow> container q k \<noteq> None \<Longrightarrow>
    pos (slot_of q k) < length (heap q) \<and> heap q ! pos (slot_of q k) = k"
proof -
  assume wf: "pq_wf q" and "container q k \<noteq> None"
  then have "k \<in> set (heap q)" by (auto simp: pq_wf_def keys_ok_def)
  then obtain i where i: "i < length (heap q)" "heap q ! i = k" by (auto simp: in_set_conv_nth)
  with wf have "pos (slot_of q k) = i" by (auto simp: pq_wf_def pos_ok_def)
  with i show ?thesis by simp
qed

lemma getitem_set_prio [simp]: "container q k \<noteq> None \<Longrightarrow> pq_getitem (set_prio k v q) = (pq_getitem q)(k \<mapsto> v)"
  by (auto simp: pq_getitem_def set_prio_def slot_of_def fun_eq_iff)

lemma set_prio_effect:
  assumes wf: "pq_wf q" and k: "container q k \<noteq> None"
  defines "e \<equiv> pos (slot_of q k)"
  shows "keys_ok (set_prio k v q)" and "pos_ok (set_prio k v q)" and "pos (slot_of (set_prio k v q) k) = e"
    and "heap (set_prio k v q) = heap q" and "prios (set_prio k v q) = (prios q)[e := v]"
proof -
  have key: "e < length (heap q)" "heap q ! e = k" using pq_wf_key [OF wf k] by (simp_all add: e_def)
  have ok: "keys_ok q" "pos_ok q" using wf by (simp_all add: pq_wf_def)
  show h: "heap (set_prio k v q) = heap q" by (simp add: set_prio_def)
  have slot: "pos (slot_of (set_prio k v q) k') = pos (slot_of q k')" for k'
    by (simp add: set_prio_def slot_of_def)
  show "keys_ok (set_prio k v q)" using ok(1) k by (auto simp: keys_ok_def set_prio_def)
  show "pos_ok (set_prio k v q)" using ok(2) by (simp add: pos_ok_def slot h)
  show "pos (slot_of (set_prio k v q) k) = e" by (simp add: slot e_def)
  have dist: "distinct (heap q)" using ok(1) by (simp add: keys_ok_def)
  show "prios (set_prio k v q) = (prios q)[e := v]"
    by (rule nth_equalityI) (use k key dist in \<open>auto simp: prios_def h nth_list_update nth_eq_iff_index_eq\<close>)
qed

lemma heap_ord_grand:
  assumes "heap_ord ps" and "i < length ps" and "0 < i" and "pos_parent i = e" and "0 < e"
  shows "ps ! pos_parent e \<le> ps ! e" and "ps ! e \<le> ps ! i" and "ps ! pos_parent e \<le> ps ! i"
proof -
  have "e < length ps" using assms pos_parent_less [OF assms(3)] by simp
  then show 1: "ps ! pos_parent e \<le> ps ! e" and 2: "ps ! e \<le> ps ! i" using assms by (auto simp: heap_ord_def)
  from 1 2 show "ps ! pos_parent e \<le> ps ! i" by simp
qed

lemma heap_ord_lower:
  assumes "heap_ord ps" and "e < length ps" and "v \<le> ps ! e"
  shows "hole_up e (ps[e := v])"
  unfolding hole_up_def
proof (intro allI impI conjI)
  fix i assume i: "i < length (ps[e := v])" "0 < i"
  have le: "ps ! pos_parent i \<le> ps ! i" using assms(1) i by (simp add: heap_ord_def)
  show "ps[e := v] ! pos_parent i \<le> ps[e := v] ! i" if "i \<noteq> e"
    using le assms(2,3) that by (cases "pos_parent i = e") auto
  show "ps[e := v] ! pos_parent e \<le> ps[e := v] ! i" if "pos_parent i = e \<and> 0 < e"
  proof -
    have "pos_parent e < e" "e < i" using that pos_parent_less [of e] pos_parent_less [OF i(2)] by auto
    then show ?thesis using heap_ord_grand(3) [OF assms(1) _ i(2)] that i by simp
  qed
qed

lemma heap_ord_raise:
  assumes "heap_ord ps" and "e < length ps" and "ps ! e \<le> v"
  shows "hole_down e (ps[e := v])"
  unfolding hole_down_def
proof (intro allI impI conjI)
  fix i assume i: "i < length (ps[e := v])" "0 < i"
  have le: "ps ! pos_parent i \<le> ps ! i" using assms(1) i by (simp add: heap_ord_def)
  show "ps[e := v] ! pos_parent i \<le> ps[e := v] ! i" if "pos_parent i \<noteq> e"
    using le assms(2,3) that by (cases "i = e") auto
  show "ps[e := v] ! pos_parent e \<le> ps[e := v] ! i" if "pos_parent i = e \<and> 0 < e"
  proof -
    have "pos_parent e < e" "e < i" using that pos_parent_less [of e] pos_parent_less [OF i(2)] by auto
    then show ?thesis using heap_ord_grand(3) [OF assms(1) _ i(2)] that i by simp
  qed
qed

lemma heap_ord_append: "heap_ord ps \<Longrightarrow> hole_up (length ps) (ps @ [v])"
  unfolding hole_up_def
proof (intro allI impI conjI)
  fix i assume ord: "heap_ord ps" and i: "i < length (ps @ [v])" "0 < i"
  have lt: "pos_parent i < i" using pos_parent_less [OF i(2)] .
  show "(ps @ [v]) ! pos_parent i \<le> (ps @ [v]) ! i" if "i \<noteq> length ps"
    using ord i lt that by (simp add: heap_ord_def nth_append)
  show "(ps @ [v]) ! pos_parent (length ps) \<le> (ps @ [v]) ! i" if "pos_parent i = length ps \<and> 0 < length ps"
    using i lt that by simp
qed

lemma pos_ok_but: "pos_ok q \<Longrightarrow> pos_but e q"
  by (simp add: pos_ok_def pos_but_def)

lemma setitem_old:
  assumes wf: "pq_wf q" and k: "container q k \<noteq> None"
  shows "pq_wf (pq_setitem k v q) \<and> pq_getitem (pq_setitem k v q) = (pq_getitem q)(k \<mapsto> v)"
proof -
  let ?q1 = "set_prio k v q" and ?e = "pos (slot_of q k)"
  have key: "?e < length (heap q)" "heap q ! ?e = k" using pq_wf_key [OF wf k] by simp_all
  have ord: "heap_ord (prios q)" and ok: "keys_ok q" using wf by (simp_all add: pq_wf_def)
  have old: "prios q ! ?e = prio (slot_of q k)"
    using key k by (auto simp: prios_def pq_getitem_def slot_of_def)
  note q1 = set_prio_effect [OF wf k, of v]
  consider "v < prio (slot_of q k)" | "prio (slot_of q k) < v" | "v = prio (slot_of q k)" by fastforce
  then show ?thesis
  proof cases
    case 1
    have "hole_up ?e (prios ?q1)" unfolding q1 using heap_ord_lower [OF ord] key old 1 by simp
    with decreased_loop_wf [OF q1(1,2), of ?e False] key 1 k show ?thesis
      by (simp add: pq_setitem_def pq_contains_def Let_def priority_decreased_def q1)
  next
    case 2
    have "hole_down ?e (prios ?q1)" unfolding q1 using heap_ord_raise [OF ord] key old 2 by simp
    with increased_loop_wf [OF refl q1(1) pos_ok_but [OF q1(2)], of ?e False] key 2 less_not_sym [OF 2] k show ?thesis
      by (simp add: pq_setitem_def pq_contains_def Let_def priority_increased_def q1)
  next
    case 3
    have "prios ?q1 = prios q" unfolding q1 using 3 old list_update_id [of "prios q" ?e] by simp
    with q1 ord have "pq_wf ?q1" by (simp add: pq_wf_def)
    with 3 k show ?thesis by (simp add: pq_setitem_def pq_contains_def Let_def)
  qed
qed

lemma setitem_new:
  assumes wf: "pq_wf q" and k: "container q k = None"
  shows "pq_wf (pq_setitem k v q) \<and> pq_getitem (pq_setitem k v q) = (pq_getitem q)(k \<mapsto> v)"
proof -
  let ?n = "length (heap q)"
  let ?q1 = "q\<lparr>heap := heap q @ [k], container := (container q)(k \<mapsto> \<lparr>pos = ?n, prio = v\<rparr>)\<rparr>"
  have ok: "keys_ok q" "pos_ok q" "heap_ord (prios q)" using wf by (simp_all add: pq_wf_def)
  have new: "k \<notin> set (heap q)" using ok(1) k by (auto simp: keys_ok_def)
  have g: "pq_getitem ?q1 = (pq_getitem q)(k \<mapsto> v)" by (auto simp: pq_getitem_def fun_eq_iff)
  have ps: "prios ?q1 = prios q @ [v]" using new by (auto simp: prios_def g)
  have k1: "keys_ok ?q1" using ok(1) new by (auto simp: keys_ok_def)
  have p1: "pos_ok ?q1" using ok(2) new by (auto simp: pos_ok_def slot_of_def nth_append less_Suc_eq)
  have "hole_up ?n (prios ?q1)" unfolding ps using heap_ord_append [OF ok(3), of v] by simp
  from decreased_loop_wf [OF k1 p1 _ this, of False]
  have "pq_wf (snd (decreased_loop ?n False ?q1)) \<and> pq_getitem (snd (decreased_loop ?n False ?q1)) = pq_getitem ?q1"
    by simp
  moreover have "pq_setitem k v q = snd (decreased_loop ?n False ?q1)"
    using k by (simp add: pq_setitem_def pq_contains_def Let_def priority_decreased_def slot_of_def)
  ultimately show ?thesis using g by simp
qed

lemma pq_top_least:
  assumes wf: "pq_wf q" and h: "heap q = item # rest"
  shows "\<exists>p. pq_getitem q item = Some p \<and> (\<forall>k p'. pq_getitem q k = Some p' \<longrightarrow> p \<le> p')"
proof -
  have ok: "keys_ok q" and ord: "heap_ord (prios q)" using wf by (simp_all add: pq_wf_def)
  have p: "pq_getitem q item = Some (prios q ! 0)"
    using keys_ok_slot [OF ok, of item] by (simp add: prios_def h pq_getitem_def)
  have "prios q ! 0 \<le> p'" if "pq_getitem q k = Some p'" for k p'
  proof -
    have "container q k \<noteq> None" using that by (auto simp: pq_getitem_def)
    from pq_wf_key [OF wf this] that
    have "pos (slot_of q k) < length (prios q)" "prios q ! pos (slot_of q k) = p'" by (simp_all add: prios_def)
    with heap_ord_least [OF ord] show ?thesis by blast
  qed
  with p show ?thesis by blast
qed

lemma hole_down_root: "heap_ord (p # ps @ [v]) \<Longrightarrow> hole_down 0 (v # ps)"
  unfolding hole_down_def
proof (intro allI impI conjI)
  fix i assume ord: "heap_ord (p # ps @ [v])" and i: "i < length (v # ps)" "0 < i"
  have lt: "pos_parent i < i" using pos_parent_less [OF i(2)] .
  have "(p # ps @ [v]) ! pos_parent i \<le> (p # ps @ [v]) ! i" using ord i by (simp add: heap_ord_def)
  then show "(v # ps) ! pos_parent i \<le> (v # ps) ! i" if "pos_parent i \<noteq> 0"
    using i lt that by (auto simp: nth_Cons nth_append split: nat.splits)
qed simp

lemma container_then_heap: "q\<lparr>container := c, heap := h\<rparr> = q\<lparr>heap := h, container := c\<rparr>"
  by (cases q) simp

lemma pop_effect:
  assumes wf: "pq_wf q" and h: "heap q = item # rest"
  shows "\<exists>q'. pq_pop q = Some (item, q') \<and> pq_wf q' \<and> pq_getitem q' = (pq_getitem q)(item := None)"
proof (cases rest rule: rev_cases)
  case Nil
  let ?q1 = "q\<lparr>heap := butlast (heap q), container := (container q)(item := None)\<rparr>"
  have "dom (container q) = {item}" using wf h Nil by (simp add: pq_wf_def keys_ok_def)
  then have "pq_wf ?q1" using h Nil by (auto simp: pq_wf_def keys_ok_def pos_ok_def heap_ord_def)
  moreover have "pq_getitem ?q1 = (pq_getitem q)(item := None)" by (auto simp: pq_getitem_def fun_eq_iff)
  moreover have "pq_pop q = Some (item, ?q1)" using h Nil by (simp add: pq_pop_def Let_def)
  ultimately show ?thesis by blast
next
  case (snoc mid tmp)
  have ok: "keys_ok q" "pos_ok q" "heap_ord (prios q)" using wf by (simp_all add: pq_wf_def)
  let ?q1 = "q\<lparr>heap := tmp # mid, container := (container q)(item := None)\<rparr>"
  let ?q2 = "set_pos tmp 0 ?q1"
  have hq: "heap q = item # mid @ [tmp]" using h snoc by simp
  have dist: "item \<noteq> tmp" "item \<notin> set mid" "tmp \<notin> set mid" "distinct mid" and dom: "dom (container q) = set (heap q)"
    using ok(1) hq by (auto simp: keys_ok_def)
  have k1: "keys_ok ?q1" using dist dom hq by (auto simp: keys_ok_def)
  have k2: "keys_ok ?q2" using keys_ok_set_pos [OF k1] by simp
  have g1: "pq_getitem ?q1 = (pq_getitem q)(item := None)" by (auto simp: pq_getitem_def fun_eq_iff)
  have g2: "pq_getitem ?q2 = (pq_getitem q)(item := None)"
    using getitem_set_pos [of ?q1 tmp 0] keys_ok_slot [OF k1, of tmp] g1 by simp
  have "pos (slot_of q (mid ! i)) = Suc i" if "i < length mid" for i
    using ok(2) that spec [OF ok(2) [unfolded pos_ok_def], of "Suc i"] by (simp add: hq nth_append)
  then have p2: "pos_but 0 ?q2"
    using dist by (auto simp: pos_but_def slot_set_pos slot_of_def set_pos_def nth_Cons split: nat.splits)
  have ps: "prios ?q2 = the (pq_getitem q tmp) # map (\<lambda>k. the (pq_getitem q k)) mid"
    using dist by (auto simp: prios_def g2)
  have "hole_down 0 (prios ?q2)"
    unfolding ps by (rule hole_down_root) (use ok(3) in \<open>simp add: prios_def hq\<close>)
  from increased_loop_wf [OF refl k2 p2 _ this, of False]
  have res: "pq_wf (snd (priority_increased tmp ?q2)) \<and>
      pq_getitem (snd (priority_increased tmp ?q2)) = (pq_getitem q)(item := None)"
    by (simp add: priority_increased_def slot_set_pos g2)
  have "pq_pop q = Some (item, snd (priority_increased tmp ?q2))"
    using hq by (simp add: pq_pop_def Let_def butlast_append container_then_heap)
  with res show ?thesis by blast
qed

section \<open>The interface\<close>

locale priority_map =
  fixes none :: 'q
    and lookup :: "'q \<Rightarrow> 'k \<Rightarrow> ('p::linorder) option"
    and put :: "'k \<Rightarrow> 'p \<Rightarrow> 'q \<Rightarrow> 'q"
    and pop :: "'q \<Rightarrow> ('k \<times> 'q) option"
    and inv :: "'q \<Rightarrow> bool"
  assumes inv_none: "inv none"
    and lookup_none: "lookup none = Map.empty"
    and inv_put: "inv q \<Longrightarrow> inv (put k p q)"
    and lookup_put: "inv q \<Longrightarrow> lookup (put k p q) = (lookup q)(k \<mapsto> p)"
    and pop_none: "inv q \<Longrightarrow> pop q = None \<Longrightarrow> lookup q = Map.empty"
    and pop_some: "inv q \<Longrightarrow> pop q = Some (k, q') \<Longrightarrow>
      inv q' \<and> lookup q' = (lookup q)(k := None) \<and>
      (\<exists>p. lookup q k = Some p \<and> (\<forall>k' p'. lookup q k' = Some p' \<longrightarrow> p \<le> p'))"
begin

lemma pop_least:
  assumes "inv q" and "pop q = Some (k, q')" and "lookup q k' = Some p'"
  obtains p where "lookup q k = Some p" and "p \<le> p'"
  using pop_some [OF assms(1,2)] assms(3) by blast

text \<open>What remains after a \<^verbatim>\<open>pop\<close> is not smaller than what was taken.\<close>

lemma pop_sorted:
  assumes "inv q" and "pop q = Some (k, q')" and "pop q' = Some (k', q'')"
    and "lookup q k = Some p" and "lookup q k' = Some p'"
  shows "p \<le> p'"
  using pop_least [OF assms(1,2,5)] assms(4) by auto

lemma pop_dom: "inv q \<Longrightarrow> pop q = Some (k, q') \<Longrightarrow> dom (lookup q') = dom (lookup q) - {k} \<and> k \<in> dom (lookup q)"
  using pop_some [of q k q'] by auto

lemma inv_puts: "inv q \<Longrightarrow> inv (fold (\<lambda>(k, p). put k p) kps q)"
  by (induction kps arbitrary: q) (auto simp: inv_put)

lemma lookup_puts: "inv q \<Longrightarrow> lookup (fold (\<lambda>(k, p). put k p) kps q) = lookup q ++ map_of (rev kps)"
  by (induction kps arbitrary: q) (auto simp: inv_put lookup_put map_add_def fun_eq_iff split: option.splits)

end

lemma pq_wf_init: "pq_wf pq_init" and pq_getitem_init: "pq_getitem pq_init = Map.empty"
  by (simp_all add: pq_wf_def pq_init_def keys_ok_def pos_ok_def heap_ord_def pq_getitem_def fun_eq_iff)

lemma pq_setitem_effect:
  "pq_wf q \<Longrightarrow> pq_wf (pq_setitem k v q) \<and> pq_getitem (pq_setitem k v q) = (pq_getitem q)(k \<mapsto> v)"
  by (cases "container q k") (simp_all add: setitem_new setitem_old)

lemma pq_pop_None: "pq_wf q \<Longrightarrow> pq_pop q = None \<longleftrightarrow> pq_getitem q = Map.empty"
proof (cases "heap q")
  case Nil
  assume "pq_wf q"
  then have "container q = Map.empty" using Nil by (simp add: pq_wf_def keys_ok_def)
  then show ?thesis using Nil by (simp add: pq_pop_def pq_getitem_def fun_eq_iff)
next
  case (Cons k ks)
  assume wf: "pq_wf q"
  from pop_effect [OF wf Cons] pq_top_least [OF wf Cons] show ?thesis by auto
qed

lemma pq_pop_Some:
  assumes wf: "pq_wf q" and pop: "pq_pop q = Some (k, q')"
  shows "pq_wf q' \<and> pq_getitem q' = (pq_getitem q)(k := None) \<and>
    (\<exists>p. pq_getitem q k = Some p \<and> (\<forall>k' p'. pq_getitem q k' = Some p' \<longrightarrow> p \<le> p'))"
proof (cases "heap q")
  case Nil
  then show ?thesis using pop by (simp add: pq_pop_def)
next
  case (Cons x xs)
  from pop_effect [OF wf Cons] pop have "x = k" "pq_wf q'" "pq_getitem q' = (pq_getitem q)(k := None)" by auto
  with pq_top_least [OF wf Cons] show ?thesis by simp
qed

interpretation pq: priority_map pq_init pq_getitem pq_setitem pq_pop pq_wf
  by unfold_locales (simp_all add: pq_wf_init pq_getitem_init pq_setitem_effect pq_pop_None pq_pop_Some)

lemma pq_len_card: "pq_wf q \<Longrightarrow> pq_len q = card (dom (pq_getitem q))"
  by (simp add: pq_len_def pq_wf_def keys_ok_def distinct_card pq_getitem_def dom_def flip: not_None_eq)

lemma pq_top_pop: "pq_wf q \<Longrightarrow> pq_top q = map_option fst (pq_pop q)"
  by (cases "heap q") (use pop_effect [of q] in \<open>auto simp: pq_top_def pq_pop_def Let_def\<close>)

text \<open>C28: The binary heap implements a priority map. On every well-formed queue (the empty one is, and all
  methods keep it so), \<^verbatim>\<open>q[k] = v\<close> sets the priority of \<open>k\<close>, whether it was present and in
  whichever direction it changes, and leaves all others; \<^verbatim>\<open>pop\<close> fails only on the empty queue, otherwise it
  removes exactly one key, and one of least priority; \<^verbatim>\<open>top\<close> names that key and \<^verbatim>\<open>len\<close> counts the keys.\<close>

theorem priority_queue_refines_map:
  assumes "pq_wf q"
  shows "pq_wf (pq_setitem k v q) \<and> pq_getitem (pq_setitem k v q) = (pq_getitem q)(k \<mapsto> v) \<and>
    (case pq_pop q of
       None \<Rightarrow> pq_getitem q = Map.empty
     | Some (x, q') \<Rightarrow> pq_wf q' \<and> pq_getitem q' = (pq_getitem q)(x := None) \<and>
         (\<exists>p. pq_getitem q x = Some p \<and> (\<forall>y p'. pq_getitem q y = Some p' \<longrightarrow> p \<le> p'))) \<and>
    pq_top q = map_option fst (pq_pop q) \<and> pq_len q = card (dom (pq_getitem q))"
  using pq.inv_put [OF assms] pq.lookup_put [OF assms] pq.pop_none [OF assms] pq.pop_some [OF assms]
    pq_top_pop [OF assms] pq_len_card [OF assms]
  by (auto split: option.split prod.split)

definition demo_queue :: "(string, int) pqueue" where
  "demo_queue = fold (\<lambda>(k, p). pq_setitem k p) [(''a'', 5), (''b'', 3), (''c'', 4), (''a'', 1), (''b'', 9)] pq_init"

theorem priority_queue_refines_map_witness:
  "pq_getitem (pq_setitem ''c'' 0 demo_queue) = (pq_getitem demo_queue)(''c'' \<mapsto> 0) \<and>
   pq_top demo_queue = Some ''a'' \<and> map_option fst (pq_pop (pq_setitem ''c'' 0 demo_queue)) = Some ''c''"
proof -
  have wf: "pq_wf demo_queue" unfolding demo_queue_def by (rule pq.inv_puts [OF pq.inv_none])
  have "pq_top demo_queue = Some ''a''" "pq_top (pq_setitem ''c'' 0 demo_queue) = Some ''c''" by code_simp+
  with priority_queue_refines_map [OF wf, of "''c''" 0] pq_top_pop [of "pq_setitem ''c'' 0 demo_queue"]
  show ?thesis by simp
qed

end
