(* ===== verification/Protocols.thy ===== *)
theory Protocols
  imports Prelude "HOL-Library.Multiset"
begin

text \<open>
  The choice of transfer protocols in \<^verbatim>\<open>rse/rsemanager.py\<close>: which protocols of an RSE support an operation, and
  which pair of schemes two RSEs use for a transfer between them.

  The priorities of a protocol are a dictionary of dictionaries, domain to operation to priority, where a
  missing entry (\<open>None\<close> of \<open>map_of\<close>) and the stored value \<^verbatim>\<open>None\<close> (\<open>Some None\<close>) are different. The random
  shuffles that balance the load over equal priorities are parameters of the model; all that is used of
  them is that they permute.
\<close>

record protocol =
  pr_hostname :: string
  pr_port :: int
  pr_scheme :: string
  pr_impl :: string
  pr_domains :: "(string \<times> (string \<times> int option) list) list"

datatype protocol_error =
    RSEProtocolNotSupported
  | RSEOperationNotSupported
  | RSEProtocolDomainNotSupported
  | ProtocolKeyError
  | ProtocolTypeError

definition SCHEME_MAP :: "string \<Rightarrow> string list" where
  "SCHEME_MAP s =
     (if s \<in> {''https'', ''davs'', ''srm+https'', ''cs3s''} then [''https'', ''davs'', ''srm+https'', ''cs3s'']
      else if s \<in> {''root'', ''scp'', ''rsync'', ''rclone''} then [s] else [])"

definition check_compatible_scheme :: "string \<Rightarrow> string \<Rightarrow> bool" where
  "check_compatible_scheme dest_scheme src_scheme \<longleftrightarrow>
     dest_scheme = src_scheme \<or> src_scheme \<in> set (SCHEME_MAP dest_scheme)"

definition RSE_ALL_SUPPORTED_PROTOCOL_OPERATIONS :: "string list" where
  "RSE_ALL_SUPPORTED_PROTOCOL_OPERATIONS =
     [''read'', ''write'', ''delete'', ''third_party_copy_read'', ''third_party_copy_write'']"

definition rse_supported_protocol_domains :: "string list" where
  "rse_supported_protocol_domains = [''lan'', ''wan'']"

text \<open>\<^verbatim>\<open>k['domains'][domain][operation]\<close>\<close>

definition domain_prio :: "string \<Rightarrow> string \<Rightarrow> protocol \<Rightarrow> protocol_error + int option" where
  "domain_prio domain op p =
     (case map_of (pr_domains p) domain of
        None \<Rightarrow> Inl ProtocolKeyError
      | Some ops \<Rightarrow> (case map_of ops op of None \<Rightarrow> Inl ProtocolKeyError | Some v \<Rightarrow> Inr v))"

text \<open>The same as the key of a sort: \<^verbatim>\<open>None\<close> cannot be compared with a number.\<close>

definition prio_key :: "string \<Rightarrow> string \<Rightarrow> protocol \<Rightarrow> protocol_error + int" where
  "prio_key domain op p =
     rbind (domain_prio domain op p) (\<lambda>v. case v of None \<Rightarrow> Inl ProtocolTypeError | Some n \<Rightarrow> Inr n)"

definition the_prio :: "string \<Rightarrow> string \<Rightarrow> protocol \<Rightarrow> int" where
  "the_prio domain op p = (case prio_key domain op p of Inr n \<Rightarrow> n | Inl _ \<Rightarrow> 0)"

definition sort_by_prio :: "string \<Rightarrow> string \<Rightarrow> protocol list \<Rightarrow> protocol_error + protocol list" where
  "sort_by_prio domain op ps =
     rbind (rmapM (prio_key domain op) ps) (\<lambda>_. Inr (sort_key (the_prio domain op) ps))"

section \<open>Protocols for an operation\<close>

text \<open>\<^verbatim>\<open>impl\<close> and \<^verbatim>\<open>domain\<close> are missing when \<open>None\<close> or empty, \<^verbatim>\<open>scheme\<close> when it is the empty list.\<close>

definition given :: "string option \<Rightarrow> bool" where
  "given s \<longleftrightarrow> (case s of None \<Rightarrow> False | Some t \<Rightarrow> t \<noteq> [])"

definition protocol_possible ::
  "string \<Rightarrow> string list \<Rightarrow> string option \<Rightarrow> string option \<Rightarrow> protocol \<Rightarrow> protocol_error + bool" where
  "protocol_possible op scheme domain impl p =
     (if given impl \<and> impl \<noteq> Some (pr_impl p) then Inr False
      else if scheme \<noteq> [] \<and> pr_scheme p \<notin> set scheme then Inr False
      else if \<not> given domain then
        rbind (rmapM (\<lambda>d. domain_prio d op p) (map fst (pr_domains p))) (\<lambda>vs. Inr (\<exists>v \<in> set vs. v \<noteq> None))
      else Inr (case map_of (pr_domains p) (the domain) of
                  None \<Rightarrow> False | Some ops \<Rightarrow> map_of ops op \<notin> {None, Some None}))"

definition get_possible_protocols ::
  "protocol list \<Rightarrow> string \<Rightarrow> string list \<Rightarrow> string option \<Rightarrow> string option \<Rightarrow> protocol_error + protocol list" where
  "get_possible_protocols candidates operation scheme domain impl =
     rbind (rmapM (protocol_possible (lower operation) scheme domain impl) candidates) (\<lambda>bs.
       let tbr = map fst (filter (\<lambda>(p, b). \<not> b) (zip candidates bs))
       in if length candidates \<le> length tbr then Inl RSEProtocolNotSupported
          else Inr (filter (\<lambda>c. c \<notin> set tbr) candidates))"

definition check_operation :: "string \<Rightarrow> string option \<Rightarrow> protocol_error + unit" where
  "check_operation operation domain =
     (if operation \<notin> set RSE_ALL_SUPPORTED_PROTOCOL_OPERATIONS then Inl RSEOperationNotSupported
      else if given domain \<and> the domain \<notin> set rse_supported_protocol_domains then Inl RSEProtocolDomainNotSupported
      else Inr ())"

text \<open>\<^verbatim>\<open>k['domains'][domain]\<close> with \<^verbatim>\<open>domain\<close> possibly \<^verbatim>\<open>None\<close>, which no dictionary has as a key.\<close>

definition prio_key_opt :: "string option \<Rightarrow> string \<Rightarrow> protocol \<Rightarrow> protocol_error + int" where
  "prio_key_opt domain op p = (case domain of None \<Rightarrow> Inl ProtocolKeyError | Some d \<Rightarrow> prio_key d op p)"

definition get_protocols_ordered ::
  "protocol list \<Rightarrow> string \<Rightarrow> string list \<Rightarrow> string option \<Rightarrow> string option \<Rightarrow> protocol_error + protocol list" where
  "get_protocols_ordered settings operation scheme domain impl =
     rbind (check_operation operation domain) (\<lambda>_.
     rbind (get_possible_protocols settings operation scheme domain impl) (\<lambda>candidates.
     rbind (rmapM (prio_key_opt domain operation) candidates) (\<lambda>_.
       Inr (sort_key (\<lambda>p. case prio_key_opt domain operation p of Inr n \<Rightarrow> n | Inl _ \<Rightarrow> 0) candidates))))"

text \<open>\<^verbatim>\<open>min\<close> returns the first of the least elements, here of a non-empty list.\<close>

definition select_protocol ::
  "(protocol list \<Rightarrow> protocol list) \<Rightarrow> protocol list \<Rightarrow> string \<Rightarrow> string list \<Rightarrow> string option
     \<Rightarrow> protocol_error + protocol" where
  "select_protocol shuffle settings operation scheme domain =
     rbind (check_operation operation domain) (\<lambda>_.
     rbind (get_possible_protocols settings operation scheme domain None) (\<lambda>candidates.
     let candidates' = shuffle candidates in
     rbind (rmapM (prio_key_opt domain operation) candidates') (\<lambda>_.
       case sort_key (\<lambda>p. case prio_key_opt domain operation p of Inr n \<Rightarrow> n | Inl _ \<Rightarrow> 0) candidates' of
         p # _ \<Rightarrow> Inr p | [] \<Rightarrow> Inl RSEProtocolNotSupported)))"

section \<open>Matching schemes of two RSEs\<close>

text \<open>\<^verbatim>\<open>protocol['domains'].get(domain, {}).get(operation, 1) is None\<close>, or a scheme that is not asked for.\<close>

definition scheme_candidate :: "string list \<Rightarrow> string \<Rightarrow> string \<Rightarrow> protocol \<Rightarrow> bool" where
  "scheme_candidate scheme domain op p \<longleftrightarrow>
     (scheme \<noteq> [] \<longrightarrow> pr_scheme p \<in> set scheme) \<and>
     (case map_of (pr_domains p) domain of None \<Rightarrow> True | Some ops \<Rightarrow> map_of ops op \<noteq> Some None)"

text \<open>The arguments \<open>shuffle_dest\<close> and \<open>shuffle_src\<close> are the outcomes of the two calls of \<^verbatim>\<open>random.shuffle\<close>. The
  result is (dest scheme, source scheme, dest priority, source priority).\<close>

definition find_matching_scheme ::
  "(protocol list \<Rightarrow> protocol list) \<Rightarrow> (protocol list \<Rightarrow> protocol list) \<Rightarrow> protocol list \<Rightarrow> protocol list
     \<Rightarrow> string \<Rightarrow> string \<Rightarrow> string \<Rightarrow> string list \<Rightarrow> protocol_error + string \<times> string \<times> int \<times> int" where
  "find_matching_scheme shuffle_dest shuffle_src settings_dest settings_src operation_src operation_dest domain scheme =
     (let op_src = lower operation_src; op_dest = lower operation_dest;
          src_candidates = filter (scheme_candidate scheme domain op_src) settings_src;
          dest_candidates = filter (scheme_candidate scheme domain op_dest) settings_dest
      in if src_candidates = [] \<or> dest_candidates = [] then Inl RSEProtocolNotSupported
         else rbind (sort_by_prio domain op_dest (shuffle_dest dest_candidates)) (\<lambda>ds.
              rbind (sort_by_prio domain op_src (shuffle_src src_candidates)) (\<lambda>ss.
                case find (\<lambda>(d, s). check_compatible_scheme (pr_scheme d) (pr_scheme s)) [(d, s). d \<leftarrow> ds, s \<leftarrow> ss] of
                  None \<Rightarrow> Inl RSEProtocolNotSupported
                | Some (d, s) \<Rightarrow>
                    Inr (pr_scheme d, pr_scheme s, the_prio domain op_dest d, the_prio domain op_src s))))"

section \<open>The best matching pair\<close>

text \<open>The pairs of protocols a transfer may use, and when a pair is at least as good as another: by the
  priority at the destination first, then by the priority at the source.\<close>

definition usable :: "string list \<Rightarrow> string \<Rightarrow> string \<Rightarrow> string \<Rightarrow> protocol list \<Rightarrow> protocol list \<Rightarrow> (protocol \<times> protocol) set" where
  "usable scheme domain op_src op_dest settings_dest settings_src =
     {(d, s). d \<in> set settings_dest \<and> s \<in> set settings_src \<and> scheme_candidate scheme domain op_dest d \<and>
        scheme_candidate scheme domain op_src s \<and> check_compatible_scheme (pr_scheme d) (pr_scheme s)}"

text \<open>Every protocol has an entry for the operation in the domain, as \<^verbatim>\<open>get_rse_info\<close> builds them.\<close>

definition has_entry :: "string \<Rightarrow> string \<Rightarrow> protocol \<Rightarrow> bool" where
  "has_entry domain op p \<longleftrightarrow> (\<exists>v. domain_prio domain op p = Inr v)"

lemma prio_key_candidate:
  "scheme_candidate scheme domain op p \<Longrightarrow> has_entry domain op p \<Longrightarrow> prio_key domain op p = Inr (the_prio domain op p)"
  by (auto simp: scheme_candidate_def has_entry_def the_prio_def prio_key_def domain_prio_def split: option.splits)

lemma rmapM_all: "\<forall>x \<in> set xs. f x = Inr (g x) \<Longrightarrow> rmapM f xs = Inr (map g xs)"
  by (induction xs) simp_all

lemma sort_by_prio_candidates:
  assumes "mset (shuffle (filter (scheme_candidate scheme domain op) ps)) = mset (filter (scheme_candidate scheme domain op) ps)"
    and "\<forall>p \<in> set ps. has_entry domain op p"
  shows "\<exists>ds. sort_by_prio domain op (shuffle (filter (scheme_candidate scheme domain op) ps)) = Inr ds \<and>
    set ds = set (filter (scheme_candidate scheme domain op) ps) \<and> sorted (map (the_prio domain op) ds)"
proof -
  let ?c = "filter (scheme_candidate scheme domain op) ps"
  have set: "set (shuffle ?c) = set ?c" using assms(1) by (rule mset_eq_setD)
  then have "\<forall>p \<in> set (shuffle ?c). prio_key domain op p = Inr (the_prio domain op p)"
    using assms(2) by (auto intro: prio_key_candidate)
  from rmapM_all [OF this] set show ?thesis by (simp add: sort_by_prio_def)
qed

text \<open>The first hit in the product of two sorted lists has the least first component of all hits and the
  least second one of those with the same first.\<close>

lemma find_first:
  assumes "find P xs = Some x" shows "\<exists>ys zs. xs = ys @ x # zs \<and> P x \<and> (\<forall>y \<in> set ys. \<not> P y)"
proof -
  from assms obtain i where i: "i < length xs" "P (xs ! i)" "x = xs ! i" "\<forall>j < i. \<not> P (xs ! j)"
    by (auto simp: find_Some_iff)
  have "xs = take i xs @ x # drop (Suc i) xs" using i by (simp add: id_take_nth_drop)
  moreover have "\<forall>y \<in> set (take i xs). \<not> P y" using i by (auto simp: in_set_conv_nth)
  ultimately show ?thesis using i by blast
qed

lemma find_append: "find P (xs @ ys) = (case find P xs of None \<Rightarrow> find P ys | Some x \<Rightarrow> Some x)"
  by (induction xs) simp_all

lemma find_product_least:
  assumes "find P [(d, s). d \<leftarrow> ds, s \<leftarrow> ss] = Some (d, s)"
    and "sorted (map f ds)" and "sorted (map g ss)"
  shows "P (d, s) \<and> d \<in> set ds \<and> s \<in> set ss \<and>
    (\<forall>d' s'. d' \<in> set ds \<and> s' \<in> set ss \<and> P (d', s') \<longrightarrow> f d \<le> f d') \<and>
    (\<forall>s' \<in> set ss. P (d, s') \<longrightarrow> g s \<le> g s')"
  using assms(1,2)
proof (induction ds)
  case Nil
  then show ?case by simp
next
  case (Cons e es)
  show ?case
  proof (cases "find P (map (Pair e) ss)")
    case None
    then have no: "\<not> P (e, s')" if "s' \<in> set ss" for s' using that by (auto simp: find_None_iff)
    with None Cons.prems have "find P [(d, s). d \<leftarrow> es, s \<leftarrow> ss] = Some (d, s)"
      by (auto simp: find_append split: option.splits)
    from Cons.IH [OF this] Cons.prems(2) no show ?thesis by auto
  next
    case (Some x)
    with Cons.prems have x: "x = (d, s)" by (auto simp: find_append split: option.splits)
    from find_first [OF Some] obtain ys zs where
      split: "map (Pair e) ss = ys @ (d, s) # zs" and hit: "P (d, s)" and before: "\<forall>y \<in> set ys. \<not> P y"
      by (auto simp: x)
    from split obtain us vs where ss: "ss = us @ s # vs" "ys = map (Pair e) us" and d: "d = e"
      by (auto simp: map_eq_append_conv map_eq_Cons_conv)
    have "g s \<le> g s'" if "s' \<in> set ss" "P (d, s')" for s'
      using that assms(3) before d ss by (auto simp: sorted_append)
    then show ?thesis using hit d ss Cons.prems(2) by auto
  qed
qed

lemma matching_scheme_effect:
  fixes scheme :: "string list"
  assumes "\<And>c. mset (sd c) = mset c" and "\<And>c. mset (ss c) = mset c"
    and "\<forall>p \<in> set dests. has_entry domain (lower op_dest) p" and "\<forall>p \<in> set srcs. has_entry domain (lower op_src) p"
  defines "pairs \<equiv> usable scheme domain (lower op_src) (lower op_dest) dests srcs"
  shows "(case find_matching_scheme sd ss dests srcs op_src op_dest domain scheme of
      Inl e \<Rightarrow> e = RSEProtocolNotSupported \<and> pairs = {}
    | Inr (a, b, m, n) \<Rightarrow> \<exists>d s. (d, s) \<in> pairs \<and> a = pr_scheme d \<and> b = pr_scheme s \<and>
        m = the_prio domain (lower op_dest) d \<and> n = the_prio domain (lower op_src) s \<and>
        (\<forall>(d', s') \<in> pairs. m \<le> the_prio domain (lower op_dest) d') \<and>
        (\<forall>s'. (d, s') \<in> pairs \<longrightarrow> n \<le> the_prio domain (lower op_src) s'))"
proof -
  let ?D = "filter (scheme_candidate scheme domain (lower op_dest)) dests"
  let ?S = "filter (scheme_candidate scheme domain (lower op_src)) srcs"
  let ?P = "\<lambda>(d, s). check_compatible_scheme (pr_scheme d) (pr_scheme s)"
  obtain ds where ds: "sort_by_prio domain (lower op_dest) (sd ?D) = Inr ds" "set ds = set ?D"
    "sorted (map (the_prio domain (lower op_dest)) ds)"
    using sort_by_prio_candidates [where shuffle = sd and ps = dests, OF assms(1) assms(3)] by blast
  obtain us where us: "sort_by_prio domain (lower op_src) (ss ?S) = Inr us" "set us = set ?S"
    "sorted (map (the_prio domain (lower op_src)) us)"
    using sort_by_prio_candidates [where shuffle = ss and ps = srcs, OF assms(2) assms(4)] by blast
  have pairs: "pairs = {(d, s). d \<in> set ds \<and> s \<in> set us \<and> ?P (d, s)}"
    by (auto simp: pairs_def usable_def ds us)
  show ?thesis
  proof (cases "?S = [] \<or> ?D = []")
    case True
    then have "pairs = {}" by (auto simp: pairs ds us filter_empty_conv)
    moreover have "find_matching_scheme sd ss dests srcs op_src op_dest domain scheme = Inl RSEProtocolNotSupported"
      using True unfolding find_matching_scheme_def Let_def by (simp only: if_True)
    ultimately show ?thesis by simp
  next
    case False
    then have run: "find_matching_scheme sd ss dests srcs op_src op_dest domain scheme =
      (case find ?P [(d, s). d \<leftarrow> ds, s \<leftarrow> us] of
         None \<Rightarrow> Inl RSEProtocolNotSupported
       | Some (d, s) \<Rightarrow> Inr (pr_scheme d, pr_scheme s, the_prio domain (lower op_dest) d, the_prio domain (lower op_src) s))"
      unfolding find_matching_scheme_def Let_def by (simp only: if_False ds us rbind_Inr)
    show ?thesis
    proof (cases "find ?P [(d, s). d \<leftarrow> ds, s \<leftarrow> us]")
      case None
      then have "pairs = {}" by (auto simp: pairs find_None_iff)
      with None run show ?thesis by simp
    next
      case (Some x)
      obtain d s where x: "x = (d, s)" by (cases x)
      from find_product_least [OF Some [unfolded x] ds(3) us(3)] run Some x show ?thesis
        by (auto simp: pairs)
    qed
  qed
qed

text \<open>\<^verbatim>\<open>find_matching_scheme\<close> finds a pair of schemes exactly when the two RSEs have compatible
  protocols for the operations, whatever the shuffles do; the destination protocol it takes has the best
  (lowest) priority of all that can be matched, the source protocol the best of those that match it.\<close>

theorem matching_scheme_best:
  fixes scheme :: "string list"
  assumes "\<And>c. mset (sd c) = mset c" and "\<And>c. mset (ss c) = mset c"
    and "\<forall>p \<in> set dests. has_entry domain (lower op_dest) p" and "\<forall>p \<in> set srcs. has_entry domain (lower op_src) p"
  defines "pairs \<equiv> usable scheme domain (lower op_src) (lower op_dest) dests srcs"
  shows "(case find_matching_scheme sd ss dests srcs op_src op_dest domain scheme of
      Inl e \<Rightarrow> e = RSEProtocolNotSupported \<and> pairs = {}
    | Inr (a, b, m, n) \<Rightarrow> \<exists>d s. (d, s) \<in> pairs \<and> a = pr_scheme d \<and> b = pr_scheme s \<and>
        m = the_prio domain (lower op_dest) d \<and> n = the_prio domain (lower op_src) s \<and>
        (\<forall>(d', s') \<in> pairs. m \<le> the_prio domain (lower op_dest) d') \<and>
        (\<forall>s'. (d, s') \<in> pairs \<longrightarrow> n \<le> the_prio domain (lower op_src) s'))"
  unfolding pairs_def by (rule matching_scheme_effect [OF assms(1-4)])

definition demo_protocol :: "string \<Rightarrow> int option \<Rightarrow> int option \<Rightarrow> protocol" where
  "demo_protocol scheme tpc_read tpc_write =
     \<lparr>pr_hostname = ''host'', pr_port = 1094, pr_scheme = scheme, pr_impl = ''impl'',
      pr_domains = [(''wan'', [(''third_party_copy_read'', tpc_read), (''third_party_copy_write'', tpc_write)])]\<rparr>"

theorem matching_scheme_best_witness:
  "find_matching_scheme rev id [demo_protocol ''root'' (Some 1) (Some 2), demo_protocol ''davs'' (Some 1) (Some 1)]
     [demo_protocol ''root'' (Some 1) None, demo_protocol ''https'' (Some 2) None]
     ''third_party_copy_read'' ''third_party_copy_write'' ''wan'' [] = Inr (''davs'', ''https'', 1, 2) \<and>
   usable [] ''wan'' (lower ''third_party_copy_read'') (lower ''third_party_copy_write'')
     [demo_protocol ''root'' (Some 1) (Some 2), demo_protocol ''davs'' (Some 1) (Some 1)]
     [demo_protocol ''root'' (Some 1) None, demo_protocol ''https'' (Some 2) None] \<noteq> {}"
proof -
  let ?D = "[demo_protocol ''root'' (Some 1) (Some 2), demo_protocol ''davs'' (Some 1) (Some 1)]"
  let ?S = "[demo_protocol ''root'' (Some 1) None, demo_protocol ''https'' (Some 2) None]"
  have l: "lower ''third_party_copy_read'' = ''third_party_copy_read''"
    "lower ''third_party_copy_write'' = ''third_party_copy_write''" by code_simp+
  have e: "\<forall>p \<in> set ?D. has_entry ''wan'' (lower ''third_party_copy_write'') p"
    "\<forall>p \<in> set ?S. has_entry ''wan'' (lower ''third_party_copy_read'') p"
    by (simp_all add: l has_entry_def domain_prio_def demo_protocol_def)
  have run: "find_matching_scheme rev id ?D ?S ''third_party_copy_read'' ''third_party_copy_write'' ''wan'' []
     = Inr (''davs'', ''https'', 1, 2)" by code_simp
  from matching_scheme_best [of rev id ?D "''wan''" "''third_party_copy_write''" ?S "''third_party_copy_read''" "[]", OF _ _ e]
  show ?thesis unfolding run by auto
qed

end
