(* ===== verification/Topology.thy ===== *)
theory Topology
  imports RSE_Expression Priority_Queue Protocols
begin

text \<open>
  The topology of RSEs in \<^verbatim>\<open>core/topology.py\<close>: nodes, edges with their distances, the RSEs that may be used as
  intermediate hops, and the search for shortest paths towards a destination.

  Nodes are identified by the id of their RSE, as \<^verbatim>\<open>RseData.__eq__\<close> and \<^verbatim>\<open>__hash__\<close> do. An edge lives in three
  dictionaries: \<^verbatim>\<open>_edges\<close> of the topology, \<^verbatim>\<open>out_edges\<close> of its source and \<^verbatim>\<open>in_edges\<close> of its destination. The
  generator \<^verbatim>\<open>dijkstra_spf\<close> is modelled together with its consumer \<^verbatim>\<open>search_shortest_paths\<close>, which changes the
  set of nodes to find while the generator is suspended and may stop it early. With a
  negative hop penalty the loop need not end, so it is a partial function, \<open>None\<close> standing for a loop that
  never returns.
\<close>

section \<open>The graph\<close>

record topology =
  t_nodes :: "string list"
  t_edges :: "((string \<times> string) \<times> int) list"
  t_in :: "string \<Rightarrow> string list"
  t_out :: "string \<Rightarrow> string list"
  t_edges_loaded :: bool
  t_multihop :: "string list"
  t_hop_penalty :: int
  t_ignore_availability :: bool

datatype topology_error =
    TopologyRegistry rse_error
  | TopologyExpression parse_error
  | TopologyProtocol protocol_error
  | TopologyKeyError
  | NoDistance

text \<open>\<^verbatim>\<open>d[k] = ..\<close> on the keys of a dictionary: a new key comes last, an old one keeps its place.\<close>

definition add_key :: "'a \<Rightarrow> 'a list \<Rightarrow> 'a list" where
  "add_key k ks = (if k \<in> set ks then ks else ks @ [k])"

definition DEFAULT_HOP_PENALTY :: int where
  "DEFAULT_HOP_PENALTY = 10"

definition topology_init :: "string list \<Rightarrow> bool \<Rightarrow> topology" where
  "topology_init rse_ids ignore_availability =
     \<lparr>t_nodes = fold add_key rse_ids [], t_edges = [], t_in = (\<lambda>_. []), t_out = (\<lambda>_. []), t_edges_loaded = False,
      t_multihop = [], t_hop_penalty = DEFAULT_HOP_PENALTY, t_ignore_availability = ignore_availability\<rparr>"

definition get_or_create :: "string \<Rightarrow> topology \<Rightarrow> topology" where
  "get_or_create rse t =
     (if rse \<in> set (t_nodes t) then t else t\<lparr>t_nodes := t_nodes t @ [rse], t_edges_loaded := False\<rparr>)"

definition add_to_nodes :: "string \<Rightarrow> string \<Rightarrow> topology \<Rightarrow> topology" where
  "add_to_nodes u v t =
     t\<lparr>t_out := (t_out t)(u := add_key v (t_out t u)), t_in := (t_in t)(v := add_key u (t_in t v))\<rparr>"

definition remove_from_nodes :: "string \<Rightarrow> string \<Rightarrow> topology \<Rightarrow> topology" where
  "remove_from_nodes u v t =
     t\<lparr>t_out := (t_out t)(u := removeAll v (t_out t u)), t_in := (t_in t)(v := removeAll u (t_in t v))\<rparr>"

text \<open>A new edge has cost 1.\<close>

definition get_or_create_edge :: "string \<Rightarrow> string \<Rightarrow> topology \<Rightarrow> topology" where
  "get_or_create_edge u v t =
     (if map_of (t_edges t) (u, v) \<noteq> None then t
      else (add_to_nodes u v t)\<lparr>t_edges := t_edges t @ [((u, v), 1)]\<rparr>)"

definition delete_edge :: "string \<Rightarrow> string \<Rightarrow> topology \<Rightarrow> topology_error + topology" where
  "delete_edge u v t =
     (if map_of (t_edges t) (u, v) = None then Inl TopologyKeyError else Inr (remove_from_nodes u v t))"

definition set_cost :: "string \<Rightarrow> string \<Rightarrow> int \<Rightarrow> topology \<Rightarrow> topology" where
  "set_cost u v c t = t\<lparr>t_edges := map (\<lambda>(e, d). (e, if e = (u, v) then c else d)) (t_edges t)\<rparr>"

definition edge_cost :: "topology \<Rightarrow> string \<Rightarrow> string \<Rightarrow> int" where
  "edge_cost t u v = (case map_of (t_edges t) (u, v) of Some c \<Rightarrow> c | None \<Rightarrow> 1)"

section \<open>Loading the edges\<close>

text \<open>A row of the table \<^verbatim>\<open>distances\<close>: source, destination, distance.\<close>

type_synonym distance_row = "string \<times> string \<times> int option"

definition relevant_distances :: "distance_row list \<Rightarrow> topology \<Rightarrow> (string \<times> string \<times> int) list" where
  "relevant_distances rows t =
     [(u, v, d). (u, v, x) \<leftarrow> rows, u \<in> set (t_nodes t) \<and> v \<in> set (t_nodes t), d \<leftarrow> (case x of None \<Rightarrow> [] | Some d \<Rightarrow> [d])]"

definition load_edge :: "string \<times> string \<times> int \<Rightarrow> topology \<Rightarrow> topology" where
  "load_edge = (\<lambda>(u, v, d) t. set_cost u v (if d \<ge> 0 then d else 0) (get_or_create_edge u v t))"

definition load_edges :: "distance_row list \<Rightarrow> topology \<Rightarrow> topology_error + topology" where
  "load_edges rows t =
     (let ds = relevant_distances rows t;
          t1 = fold load_edge ds t;
          loaded = remdups (map (\<lambda>(u, v, _). (u, v)) ds);
          to_remove = filter (\<lambda>e. e \<notin> set loaded) (map fst (t_edges t1))
      in rbind (if length loaded \<noteq> length (t_edges t1) then rfold (\<lambda>(u, v). delete_edge u v) to_remove t1 else Inr t1)
           (\<lambda>t2. Inr (t2\<lparr>t_edges_loaded := True\<rparr>)))"

definition ensure_edges_loaded :: "distance_row list \<Rightarrow> topology \<Rightarrow> topology_error + topology" where
  "ensure_edges_loaded rows t = (if t_edges_loaded t then Inr t else load_edges rows t)"

section \<open>Intermediate hops\<close>

text \<open>The RSEs that the configured expression selects; an invalid or empty expression selects none.\<close>

definition multihop_rse_ids :: "session \<Rightarrow> string \<Rightarrow> (topology_error + string list) option" where
  "multihop_rse_ids s expression =
     (if strip expression = [] then Some (Inr [])
      else case parse_expression s None expression None of
        None \<Rightarrow> None
      | Some (Inr rows) \<Rightarrow> Some (Inr (remdups (map rse_id rows)))
      | Some (Inl (InvalidRSEExpression _)) \<Rightarrow> Some (Inr [])
      | Some (Inl e) \<Rightarrow> Some (Inl (TopologyExpression e)))"

definition add_multihop :: "rse_db \<Rightarrow> string \<Rightarrow> topology \<Rightarrow> topology_error + topology" where
  "add_multihop reg rse t =
     (let t1 = get_or_create rse t
      in case filter (\<lambda>r. rse_id r = rse \<and> \<not> deleted r) (rses reg) of
           [] \<Rightarrow> Inl (TopologyRegistry RSENotFound)
         | r # _ \<Rightarrow> Inr (if t_ignore_availability t1 \<or> availability_read r = Some True \<and> availability_write r = Some True
                        then t1\<lparr>t_multihop := add_key rse (t_multihop t1)\<rparr> else t1))"

text \<open>\<open>expression\<close> and \<open>penalty\<close> are the configuration values \<^verbatim>\<open>multihop_rse_expression\<close> and \<^verbatim>\<open>hop_penalty\<close>.\<close>

definition configure_multihop ::
  "session \<Rightarrow> string \<Rightarrow> int \<Rightarrow> string list option \<Rightarrow> topology \<Rightarrow> (topology_error + topology) option" where
  "configure_multihop s expression penalty given_ids t =
     map_option (\<lambda>ids. rbind ids (\<lambda>xs.
         rbind (rfold (add_multihop (db s)) xs (t\<lparr>t_multihop := []\<rparr>)) (\<lambda>t1. Inr (t1\<lparr>t_hop_penalty := penalty\<rparr>))))
       (case given_ids of Some xs \<Rightarrow> Some (Inr xs) | None \<Rightarrow> multihop_rse_ids s expression)"

section \<open>Shortest paths\<close>

text \<open>What the search reads of the nodes (attributes, protocols), its arguments, and the outcomes of the
  random shuffles, the \<open>n\<close>-th call of \<^verbatim>\<open>find_matching_scheme\<close> using numbers \<open>2 * n\<close> and \<open>2 * n + 1\<close>.\<close>

record search =
  node_attr :: "string \<Rightarrow> string \<Rightarrow> attr_value option"
  node_protocols :: "string \<Rightarrow> protocol list"
  operation_src :: string
  operation_dest :: string
  domain :: string
  limit_dest_schemes :: "string list"
  shuffles :: "nat \<Rightarrow> protocol list \<Rightarrow> protocol list"

type_synonym scheme_choice = "string \<times> string \<times> int \<times> int"

record hop =
  hop_source :: string
  hop_dest :: string
  hop_distance :: int
  hop_cumulated :: int
  hop_scheme :: scheme_choice

text \<open>An entry of \<^verbatim>\<open>next_hops\<close>: the distance, the cost of the node, and of the edge to the next hop its
  destination, its cost and the chosen schemes.\<close>

record next_hop =
  nh_dist :: int
  nh_cost :: int
  nh_edge :: "(string \<times> int \<times> scheme_choice) option"

record spf =
  s_queue :: "(string, int) pqueue"
  s_hops :: "string \<rightharpoonup> next_hop"
  s_missmatch :: "string list"
  s_calls :: nat

definition node_cost :: "search \<Rightarrow> topology \<Rightarrow> string \<Rightarrow> string \<Rightarrow> int" where
  "node_cost e t dst n =
     (if n = dst then 0
      else case node_attr e n ''hop_penalty'' of
        None \<Rightarrow> t_hop_penalty t
      | Some (AStr s) \<Rightarrow> (case py_int s of Some i \<Rightarrow> i | None \<Rightarrow> t_hop_penalty t)
      | Some (ABool b) \<Rightarrow> (if b then 1 else 0))"

definition edge_scheme :: "search \<Rightarrow> nat \<Rightarrow> string \<Rightarrow> string \<Rightarrow> string \<Rightarrow> protocol_error + scheme_choice" where
  "edge_scheme e n dst u v =
     find_matching_scheme (shuffles e (2 * n)) (shuffles e (2 * n + 1)) (node_protocols e v) (node_protocols e u)
       (operation_src e) (operation_dest e) (domain e) (if v = dst then limit_dest_schemes e else [])"

definition spf_init :: "search \<Rightarrow> topology \<Rightarrow> string \<Rightarrow> spf" where
  "spf_init e t dst =
     \<lparr>s_queue = pq_setitem dst 0 pq_init,
      s_hops = [dst \<mapsto> \<lparr>nh_dist = 0, nh_cost = node_cost e t dst dst, nh_edge = None\<rparr>],
      s_missmatch = [], s_calls = 0\<rparr>"

text \<open>One iteration of the loop over \<^verbatim>\<open>node.in_edges\<close>. The schemes are only looked up when the new distance
  is an improvement, and a mismatch is noted then.\<close>

definition relax_edge ::
  "search \<Rightarrow> topology \<Rightarrow> string \<Rightarrow> string list \<Rightarrow> string \<Rightarrow> next_hop \<Rightarrow> string \<Rightarrow> spf \<Rightarrow> topology_error + spf" where
  "relax_edge e t dst nodes_to_find node nh u s =
     (if u \<in> set nodes_to_find \<or> u \<in> set (t_multihop t) then
        (let new_dist = nh_dist nh + nh_cost nh + edge_cost t u node
         in if (case s_hops s u of None \<Rightarrow> True | Some h \<Rightarrow> new_dist < nh_dist h) then
              (case edge_scheme e (s_calls s) dst u node of
                 Inr sch \<Rightarrow> Inr (s\<lparr>
                   s_queue := pq_setitem u new_dist (s_queue s),
                   s_hops := (s_hops s)(u \<mapsto> \<lparr>nh_dist = new_dist, nh_cost = node_cost e t dst u,
                                            nh_edge = Some (node, edge_cost t u node, sch)\<rparr>),
                   s_calls := Suc (s_calls s)\<rparr>)
               | Inl err \<Rightarrow>
                   if err = RSEProtocolNotSupported
                   then Inr (s\<lparr>s_missmatch := add_key u (s_missmatch s), s_calls := Suc (s_calls s)\<rparr>)
                   else Inl (TopologyProtocol err))
            else Inr s)
      else Inr s)"

text \<open>The generator with the body of the consumer at its \<^verbatim>\<open>yield\<close>: the consumer records the path of the node,
  discards the node from the nodes to find and stops the generator when none is left.\<close>

partial_function (option) search_loop ::
  "search \<Rightarrow> topology \<Rightarrow> string \<Rightarrow> string list \<Rightarrow> (string \<rightharpoonup> hop list) \<Rightarrow> spf
     \<Rightarrow> (topology_error + (string \<rightharpoonup> hop list) \<times> spf) option" where
  "search_loop e t dst nodes_to_find paths s =
     (case pq_pop (s_queue s) of
        None \<Rightarrow> Some (Inr (paths, s))
      | Some (node, q) \<Rightarrow>
          (case s_hops s node of
             None \<Rightarrow> Some (Inl TopologyKeyError)
           | Some nh \<Rightarrow>
               (case nh_edge nh of
                  None \<Rightarrow>
                    (case rfold (relax_edge e t dst nodes_to_find node nh) (t_in t node) (s\<lparr>s_queue := q\<rparr>) of
                       Inl err \<Rightarrow> Some (Inl err)
                     | Inr s' \<Rightarrow> search_loop e t dst nodes_to_find paths s')
                | Some (v, c, sch) \<Rightarrow>
                    (case paths v of
                       None \<Rightarrow> Some (Inl TopologyKeyError)
                     | Some rest \<Rightarrow>
                         (let paths' = paths(node \<mapsto> \<lparr>hop_source = node, hop_dest = v, hop_distance = c,
                                               hop_cumulated = nh_dist nh, hop_scheme = sch\<rparr> # rest);
                              remaining = removeAll node nodes_to_find
                          in if remaining = [] then Some (Inr (paths', s\<lparr>s_queue := q\<rparr>))
                             else
                               (case (if t_multihop t \<noteq> []
                                      then rfold (relax_edge e t dst remaining node nh) (t_in t node) (s\<lparr>s_queue := q\<rparr>)
                                      else Inr (s\<lparr>s_queue := q\<rparr>)) of
                                  Inl err \<Rightarrow> Some (Inl err)
                                | Inr s' \<Rightarrow> search_loop e t dst remaining paths' s'))))))"

declare search_loop.simps [code]

definition nodes_to_search :: "topology \<Rightarrow> string list \<Rightarrow> string list" where
  "nodes_to_search t src_nodes =
     remdups (if t_multihop t \<noteq> [] then filter (\<lambda>n. t_out t n \<noteq> []) src_nodes else src_nodes)"

text \<open>\<^verbatim>\<open>search_shortest_paths\<close> on a topology with loaded edges, and with the loading.\<close>

definition search_result :: "string list \<Rightarrow> (string \<rightharpoonup> hop list) \<times> spf \<Rightarrow> (string \<rightharpoonup> hop list)" where
  "search_result src_nodes = (\<lambda>(paths, s) n.
     if n \<in> set src_nodes then
       (case paths n of Some p \<Rightarrow> Some p | None \<Rightarrow> if n \<in> set (s_missmatch s) then Some [] else None)
     else None)"

definition search_paths ::
  "search \<Rightarrow> topology \<Rightarrow> string list \<Rightarrow> string \<Rightarrow> (topology_error + (string \<rightharpoonup> hop list)) option" where
  "search_paths e t src_nodes dst =
     map_option (\<lambda>r. rbind r (\<lambda>ps. Inr (search_result src_nodes ps)))
       (search_loop e t dst (nodes_to_search t src_nodes) [dst \<mapsto> []] (spf_init e t dst))"

definition search_shortest_paths ::
  "search \<Rightarrow> distance_row list \<Rightarrow> topology \<Rightarrow> string list \<Rightarrow> string
     \<Rightarrow> (topology_error + topology \<times> (string \<rightharpoonup> hop list)) option" where
  "search_shortest_paths e rows t src_nodes dst =
     (case ensure_edges_loaded rows t of
        Inl err \<Rightarrow> Some (Inl err)
      | Inr t1 \<Rightarrow> map_option (\<lambda>r. rbind r (\<lambda>p. Inr (t1, p))) (search_paths e t1 src_nodes dst))"

text \<open>\<^verbatim>\<open>get_hops\<close>\<close>

definition get_hops ::
  "session \<Rightarrow> search \<Rightarrow> distance_row list \<Rightarrow> string \<Rightarrow> int \<Rightarrow> string \<Rightarrow> string \<Rightarrow> string list option
     \<Rightarrow> (topology_error + hop list) option" where
  "get_hops s e rows expression penalty source_rse_id dest_rse_id multihop_ids =
     (case configure_multihop s expression penalty multihop_ids (topology_init [] False) of
        None \<Rightarrow> None
      | Some (Inl err) \<Rightarrow> Some (Inl err)
      | Some (Inr t) \<Rightarrow>
          map_option (\<lambda>r. rbind r (\<lambda>(_, paths).
              case paths source_rse_id of
                None \<Rightarrow> Inl NoDistance
              | Some [] \<Rightarrow> Inl (TopologyProtocol RSEProtocolNotSupported)
              | Some p \<Rightarrow> Inr p))
            (search_shortest_paths
              (e\<lparr>operation_src := ''third_party_copy_read'', operation_dest := ''third_party_copy_write'', domain := ''wan''\<rparr>)
              rows (get_or_create dest_rse_id (get_or_create source_rse_id t)) [source_rse_id] dest_rse_id))"

end
