(* ===== verification/Shortest_Paths.thy ===== *)
theory Shortest_Paths
  imports Prelude
begin

text \<open>
  Shortest distances towards a destination in a directed graph with non-negative weights, and the invariant
  of a backwards search for them. Nothing here depends on the data structures of the program.

  The state of a search is \<open>D\<close>, the distances found so far, and \<open>Q\<close>, those of them that are still queued; \<open>F\<close>
  is the set of finished nodes, \<open>x\<close> the node that was finished last and \<open>done\<close> the predecessors of \<open>x\<close>
  whose edge to \<open>x\<close> has been looked at.
\<close>

text \<open>\<open>route E W dst u d\<close>: there is a walk from \<open>u\<close> to \<open>dst\<close> along edges of \<open>E\<close> of total weight \<open>d\<close>.\<close>

inductive route :: "('v \<Rightarrow> 'v \<Rightarrow> bool) \<Rightarrow> ('v \<Rightarrow> 'v \<Rightarrow> int) \<Rightarrow> 'v \<Rightarrow> 'v \<Rightarrow> int \<Rightarrow> bool" for E W dst where
  arrived: "route E W dst dst 0"
| via: "route E W dst v d \<Longrightarrow> E u v \<Longrightarrow> route E W dst u (d + W u v)"

definition shortest :: "('v \<Rightarrow> 'v \<Rightarrow> bool) \<Rightarrow> ('v \<Rightarrow> 'v \<Rightarrow> int) \<Rightarrow> 'v \<Rightarrow> 'v \<Rightarrow> int \<Rightarrow> bool" where
  "shortest E W dst u d \<longleftrightarrow> route E W dst u d \<and> (\<forall>d'. route E W dst u d' \<longrightarrow> d \<le> d')"

lemma shortest_unique: "shortest E W dst u d \<Longrightarrow> shortest E W dst u d' \<Longrightarrow> d = d'"
  by (meson antisym shortest_def)

locale weighted_graph =
  fixes E :: "'v \<Rightarrow> 'v \<Rightarrow> bool" and W :: "'v \<Rightarrow> 'v \<Rightarrow> int" and dst :: 'v
  assumes W_nonneg: "E u v \<Longrightarrow> 0 \<le> W u v"
begin

text \<open>Every edge into a finished node has been used, except those into \<open>x\<close> that are still to be looked at.\<close>

definition relaxed :: "'v set \<Rightarrow> 'v \<Rightarrow> 'v set \<Rightarrow> ('v \<rightharpoonup> int) \<Rightarrow> bool" where
  "relaxed F x done D \<longleftrightarrow> (\<forall>u v dv. v \<in> F \<longrightarrow> D v = Some dv \<longrightarrow> E u v \<longrightarrow> (v = x \<longrightarrow> u \<in> done) \<longrightarrow>
     (\<exists>du. D u = Some du \<and> du \<le> dv + W u v))"

definition search_inv :: "'v set \<Rightarrow> 'v \<Rightarrow> 'v set \<Rightarrow> ('v \<rightharpoonup> int) \<Rightarrow> ('v \<rightharpoonup> int) \<Rightarrow> bool" where
  "search_inv F x done D Q \<longleftrightarrow>
     D dst = Some 0 \<and> dom D = F \<union> dom Q \<and> F \<inter> dom Q = {} \<and>
     (\<forall>n d. Q n = Some d \<longrightarrow> D n = Some d) \<and>
     (\<forall>n d. D n = Some d \<longrightarrow> route E W dst n d) \<and>
     (\<forall>n d. n \<in> F \<longrightarrow> D n = Some d \<longrightarrow> shortest E W dst n d) \<and>
     (F \<noteq> {} \<longrightarrow> x \<in> F) \<and>
     (\<forall>n d dx. n \<in> F \<longrightarrow> D n = Some d \<longrightarrow> D x = Some dx \<longrightarrow> d \<le> dx) \<and>
     (\<forall>n d dx. Q n = Some d \<longrightarrow> F \<noteq> {} \<longrightarrow> D x = Some dx \<longrightarrow> dx \<le> d) \<and>
     relaxed F x done D"

lemma search_inv_init: "search_inv {} x UNIV [dst \<mapsto> 0] [dst \<mapsto> 0]"
  by (auto simp: search_inv_def relaxed_def intro: arrived split: if_splits)

lemma search_inv_known:
  assumes "search_inv F x done D Q"
  shows "D n = Some d \<Longrightarrow> n \<in> F \<or> Q n = Some d" and "n \<in> F \<Longrightarrow> \<exists>d. D n = Some d" and "n \<in> F \<Longrightarrow> Q n = None"
proof -
  have dom: "dom D = F \<union> dom Q" and disj: "F \<inter> dom Q = {}" and Q: "\<And>n d. Q n = Some d \<Longrightarrow> D n = Some d"
    using assms by (simp_all add: search_inv_def)
  show "n \<in> F \<Longrightarrow> \<exists>d. D n = Some d" using dom by (metis UnI1 domD)
  show "n \<in> F \<Longrightarrow> Q n = None" using disj by (metis disjoint_iff domIff)
  show "n \<in> F \<or> Q n = Some d" if "D n = Some d"
  proof -
    have "n \<in> F \<union> dom Q" using dom that by (metis domI)
    then show ?thesis using Q that by fastforce
  qed
qed

text \<open>A walk from an unfinished node is at least as long as some queued distance.\<close>

lemma frontier:
  assumes inv: "search_inv F x UNIV D Q" and "route E W dst n d"
  shows "(n \<in> F \<and> (\<exists>dn. D n = Some dn \<and> dn \<le> d)) \<or> (\<exists>m dm. Q m = Some dm \<and> dm \<le> d)"
  using assms(2)
proof induction
  case arrived
  from inv have "D dst = Some 0" "dst \<in> F \<or> (\<exists>d. Q dst = Some d)" by (auto simp: search_inv_def)
  moreover have "d = 0" if "Q dst = Some d" for d using inv that by (auto simp: search_inv_def)
  ultimately show ?case by auto
next
  case (via v d u)
  note w = W_nonneg [OF via.hyps(2)]
  from via.IH show ?case
  proof
    assume "v \<in> F \<and> (\<exists>dn. D v = Some dn \<and> dn \<le> d)"
    then obtain dv where "v \<in> F" "D v = Some dv" "dv \<le> d" by blast
    with inv via.hyps(2) obtain du where du: "D u = Some du" "du \<le> dv + W u v"
      unfolding search_inv_def relaxed_def by blast
    then have "u \<in> F \<or> Q u = Some du" using search_inv_known(1) [OF inv] by blast
    with du \<open>dv \<le> d\<close> show ?thesis by force
  next
    assume "\<exists>m dm. Q m = Some dm \<and> dm \<le> d"
    with w show ?thesis by force
  qed
qed

text \<open>Taking a node with the least queued distance finishes it.\<close>

lemma search_inv_pop:
  assumes inv: "search_inv F x UNIV D Q" and y: "Q y = Some d" and least: "\<And>m dm. Q m = Some dm \<Longrightarrow> d \<le> dm"
  shows "search_inv (insert y F) y {} D (Q(y := None))"
proof -
  have Dy: "D y = Some d" using inv y by (simp add: search_inv_def)
  have "y \<notin> F" using inv y by (auto simp: search_inv_def)
  have short: "shortest E W dst y d"
    unfolding shortest_def
  proof (intro conjI allI impI)
    show "route E W dst y d" using inv Dy by (simp add: search_inv_def)
    fix d' assume "route E W dst y d'"
    from frontier [OF inv this] \<open>y \<notin> F\<close> obtain m dm where "Q m = Some dm" "dm \<le> d'" by blast
    with least show "d \<le> d'" by fastforce
  qed
  have before: "dn \<le> d" if "n \<in> F" "D n = Some dn" for n dn
  proof -
    from that(1) inv have xF: "x \<in> F" by (auto simp: search_inv_def)
    then obtain dx where "D x = Some dx" using search_inv_known(2) [OF inv] by blast
    with inv that y show ?thesis unfolding search_inv_def by force
  qed
  have relaxed: "relaxed (insert y F) y {} D"
    using inv unfolding search_inv_def relaxed_def by blast
  show ?thesis
    unfolding search_inv_def
    using inv y Dy short before relaxed least \<open>y \<notin> F\<close>
    by (intro conjI) (auto simp: search_inv_def)
qed

lemma search_inv_skip:
  assumes "search_inv F x done D Q" and "E u x \<Longrightarrow> D x = Some dx \<Longrightarrow> \<exists>du. D u = Some du \<and> du \<le> dx + W u x"
    and "D x = Some dx"
  shows "search_inv F x (insert u done) D Q"
proof -
  have "\<exists>du. D u' = Some du \<and> du \<le> dv + W u' v"
    if "v \<in> F" "D v = Some dv" "E u' v" "v = x \<longrightarrow> u' \<in> insert u done" for u' v dv
  proof (cases "v = x \<and> u' = u")
    case True
    with assms(2,3) that show ?thesis by auto
  next
    case False
    with assms(1) that show ?thesis unfolding search_inv_def relaxed_def by blast
  qed
  then have "relaxed F x (insert u done) D" unfolding relaxed_def by blast
  with assms(1) show ?thesis by (simp add: search_inv_def)
qed

text \<open>A finished node cannot be improved.\<close>

lemma finished_not_improved:
  assumes inv: "search_inv F x done D Q" and "u \<in> F" and "E u x" and "D x = Some dx"
  shows "\<exists>du. D u = Some du \<and> du \<le> dx + W u x"
proof -
  from search_inv_known(2) [OF inv \<open>u \<in> F\<close>] obtain du where du: "D u = Some du" by blast
  with inv assms(2,4) have "du \<le> dx" unfolding search_inv_def by blast
  with W_nonneg [OF assms(3)] du show ?thesis by auto
qed

lemma search_inv_improve:
  assumes inv: "search_inv F x done D Q" and x: "D x = Some dx" "x \<in> F" and e: "E u x"
    and better: "case D u of None \<Rightarrow> True | Some du \<Rightarrow> dx + W u x < du"
  shows "search_inv F x (insert u done) (D(u \<mapsto> dx + W u x)) (Q(u \<mapsto> dx + W u x))"
proof -
  let ?d = "dx + W u x"
  have w: "0 \<le> W u x" using W_nonneg [OF e] .
  have uF: "u \<notin> F"
  proof
    assume "u \<in> F"
    from finished_not_improved [OF inv this e x(1)] better show False by auto
  qed
  have route: "route E W dst u ?d" using inv x(1) e by (auto simp: search_inv_def intro: via)
  have ne: "u \<noteq> dst"
  proof
    assume "u = dst"
    with inv better have "?d < 0" by (simp add: search_inv_def)
    moreover have "dx \<ge> 0"
    proof -
      have "shortest E W dst x dx" using inv x by (simp add: search_inv_def)
      then have "route E W dst x dx" by (simp add: shortest_def)
      then show ?thesis by induction (use W_nonneg in force)+
    qed
    ultimately show False using w by simp
  qed
  have step: "\<exists>du. (D(u \<mapsto> ?d)) u' = Some du \<and> du \<le> dv + W u' v"
    if "v \<in> F" "(D(u \<mapsto> ?d)) v = Some dv" "E u' v" "v = x \<longrightarrow> u' \<in> insert u done" for u' v dv
  proof (cases "u' = u")
    case False
    then have "\<exists>du. D u' = Some du \<and> du \<le> dv + W u' v"
      using that uF inv unfolding search_inv_def relaxed_def by (metis fun_upd_apply insertE)
    with False show ?thesis by simp
  next
    case True
    show ?thesis
    proof (cases "v = x")
      case True
      with \<open>u' = u\<close> that x uF show ?thesis by (auto split: if_splits)
    next
      case vx: False
      have Dv: "D v = Some dv" using that uF by (auto split: if_splits)
      from inv that(1,3) Dv vx \<open>u' = u\<close> obtain du where "D u = Some du" "du \<le> dv + W u v"
        unfolding search_inv_def relaxed_def by blast
      with better \<open>u' = u\<close> show ?thesis by auto
    qed
  qed
  then have relaxed: "relaxed F x (insert u done) (D(u \<mapsto> ?d))" unfolding relaxed_def by blast
  show ?thesis
    unfolding search_inv_def
    using inv uF ne route relaxed x w
    by (intro conjI) (auto simp: search_inv_def)
qed

lemma search_inv_all:
  assumes "search_inv F x done D Q" and "\<And>u. E u x \<Longrightarrow> u \<in> done"
  shows "search_inv F x UNIV D Q"
proof -
  have "relaxed F x UNIV D" using assms unfolding search_inv_def relaxed_def by blast
  with assms(1) show ?thesis by (simp add: search_inv_def)
qed

text \<open>What is known when the queue is empty, and what is known of finished nodes at any time.\<close>

lemma search_inv_exhausted:
  assumes inv: "search_inv F x UNIV D Map.empty" and "route E W dst n d"
  shows "n \<in> F"
  using frontier [OF assms] by auto

lemma search_inv_finished: "search_inv F x done D Q \<Longrightarrow> n \<in> F \<Longrightarrow> \<exists>d. D n = Some d \<and> shortest E W dst n d"
  using search_inv_known(2) [of F x "done" D Q n] by (auto simp: search_inv_def)

text \<open>The distance of a finished node never changes.\<close>

lemma search_inv_same:
  assumes "search_inv F x done D Q" and "search_inv F x' done' D' Q'" and "n \<in> insert dst F"
  shows "D' n = D n"
proof (cases "n \<in> F")
  case True
  from search_inv_finished [OF assms(1) this] search_inv_finished [OF assms(2) True] show ?thesis
    using shortest_unique by metis
next
  case False
  with assms show ?thesis by (simp add: search_inv_def)
qed

end

end
