(* ===== verification/Topology_Search.thy ===== *)
theory Topology_Search
  imports Topology Shortest_Paths
begin

text \<open>
  The search of \<^verbatim>\<open>core/topology.py\<close> finds shortest paths. The graph that counts for a search has an edge for every
  pair of nodes that the code may connect (\<open>usable_edge\<close>); its weight is the distance of the edge plus the
  penalty of the node it leads to (\<open>edge_weight\<close>). The interpretation \<open>topo\<close> puts this graph into the theory of
  \<open>Shortest_Paths\<close>, whose invariant is kept by every step of the generator.
\<close>

section \<open>The graph of a search\<close>

definition schemes_match :: "search \<Rightarrow> string \<Rightarrow> string \<Rightarrow> string \<Rightarrow> bool" where
  "schemes_match e dst u v \<longleftrightarrow>
     usable (if v = dst then limit_dest_schemes e else []) (domain e) (lower (operation_src e)) (lower (operation_dest e))
       (node_protocols e v) (node_protocols e u) \<noteq> {}"

definition usable_edge :: "search \<Rightarrow> topology \<Rightarrow> string \<Rightarrow> string list \<Rightarrow> string \<Rightarrow> string \<Rightarrow> bool" where
  "usable_edge e t dst fs u v \<longleftrightarrow>
     u \<in> set (t_in t v) \<and> (u \<in> set fs \<or> u \<in> set (t_multihop t)) \<and> (v = dst \<or> t_multihop t \<noteq> []) \<and> schemes_match e dst u v"

definition edge_weight :: "search \<Rightarrow> topology \<Rightarrow> string \<Rightarrow> string \<Rightarrow> string \<Rightarrow> int" where
  "edge_weight e t dst u v = node_cost e t dst v + edge_cost t u v"

text \<open>What a search relies on: no negative penalty or distance, protocols with an entry for each operation (as
  \<^verbatim>\<open>get_rse_info\<close> builds them), and shuffles that permute.\<close>

definition search_ok :: "search \<Rightarrow> topology \<Rightarrow> string \<Rightarrow> bool" where
  "search_ok e t dst \<longleftrightarrow>
     (\<forall>n. 0 \<le> node_cost e t dst n) \<and> (\<forall>(_, c) \<in> set (t_edges t). 0 \<le> c) \<and>
     (\<forall>n. \<forall>p \<in> set (node_protocols e n). has_entry (domain e) (lower (operation_src e)) p \<and>
                                        has_entry (domain e) (lower (operation_dest e)) p) \<and>
     (\<forall>i c. mset (shuffles e i c) = mset c)"

lemma search_ok_weight: "search_ok e t dst \<Longrightarrow> 0 \<le> edge_weight e t dst u v"
proof -
  assume ok: "search_ok e t dst"
  have "0 \<le> edge_cost t u v"
    using ok map_of_SomeD [of "t_edges t" "(u, v)"] by (force simp: search_ok_def edge_cost_def split: option.splits)
  with ok show ?thesis by (simp add: edge_weight_def search_ok_def)
qed

text \<open>Whether an edge is enabled does not depend on the shuffles, and no error but a mismatch is raised.\<close>

lemma edge_scheme_enabled:
  assumes ok: "search_ok e t dst"
  shows "(case edge_scheme e n dst u v of Inr _ \<Rightarrow> schemes_match e dst u v
    | Inl err \<Rightarrow> err = RSEProtocolNotSupported \<and> \<not> schemes_match e dst u v)"
proof -
  have h: "\<And>c. mset (shuffles e (2 * n) c) = mset c" "\<And>c. mset (shuffles e (2 * n + 1) c) = mset c"
    "\<forall>p \<in> set (node_protocols e v). has_entry (domain e) (lower (operation_dest e)) p"
    "\<forall>p \<in> set (node_protocols e u). has_entry (domain e) (lower (operation_src e)) p"
    using ok by (auto simp: search_ok_def)
  from matching_scheme_effect [OF h, of "if v = dst then limit_dest_schemes e else []"] show ?thesis
    by (auto simp: edge_scheme_def schemes_match_def split: sum.splits)
qed

interpretation topo: weighted_graph "\<lambda>u v. usable_edge e t dst fs u v \<and> 0 \<le> edge_weight e t dst u v"
    "edge_weight e t dst" dst for e t dst fs
  by unfold_locales simp

abbreviation link :: "search \<Rightarrow> topology \<Rightarrow> string \<Rightarrow> string list \<Rightarrow> string \<Rightarrow> string \<Rightarrow> bool" where
  "link e t dst fs \<equiv> (\<lambda>u v. usable_edge e t dst fs u v \<and> 0 \<le> edge_weight e t dst u v)"

lemma link_usable: "search_ok e t dst \<Longrightarrow> link e t dst fs = usable_edge e t dst fs"
  using search_ok_weight by (auto simp: fun_eq_iff)

section \<open>The invariant of the loop\<close>

text \<open>A list of hops from \<open>n\<close> to the destination with total distance \<open>d\<close>.\<close>

fun hops_ok :: "search \<Rightarrow> topology \<Rightarrow> string \<Rightarrow> string list \<Rightarrow> string \<Rightarrow> hop list \<Rightarrow> int \<Rightarrow> bool" where
  "hops_ok e t dst fs n [] d \<longleftrightarrow> n = dst \<and> d = 0"
| "hops_ok e t dst fs n (h # hs) d \<longleftrightarrow>
     hop_source h = n \<and> usable_edge e t dst fs n (hop_dest h) \<and> hop_distance h = edge_cost t n (hop_dest h) \<and>
     hop_cumulated h = d \<and> hops_ok e t dst fs (hop_dest h) hs (d - edge_weight e t dst n (hop_dest h))"

definition dists :: "spf \<Rightarrow> string \<rightharpoonup> int" where
  "dists s = (\<lambda>n. map_option nh_dist (s_hops s n))"

definition hop_entry_ok :: "search \<Rightarrow> topology \<Rightarrow> string \<Rightarrow> string list \<Rightarrow> string set \<Rightarrow> spf \<Rightarrow> string \<Rightarrow> next_hop \<Rightarrow> bool" where
  "hop_entry_ok e t dst fs F s n h \<longleftrightarrow> nh_cost h = node_cost e t dst n \<and>
     (case nh_edge h of
        None \<Rightarrow> n = dst
      | Some (v, c, _) \<Rightarrow> n \<noteq> dst \<and> v \<in> F \<and> usable_edge e t dst fs n v \<and> c = edge_cost t n v \<and>
          dists s v = Some (nh_dist h - edge_weight e t dst n v))"

definition spf_inv :: "search \<Rightarrow> topology \<Rightarrow> string \<Rightarrow> string list \<Rightarrow> string set \<Rightarrow> string \<Rightarrow> string set \<Rightarrow> spf \<Rightarrow> bool" where
  "spf_inv e t dst fs F x done s \<longleftrightarrow>
     pq_wf (s_queue s) \<and> topo.search_inv e t dst fs F x done (dists s) (pq_getitem (s_queue s)) \<and>
     (\<forall>n h. s_hops s n = Some h \<longrightarrow> hop_entry_ok e t dst fs F s n h)"

lemma spf_inv_init: "spf_inv e t dst fs {} x UNIV (spf_init e t dst)"
proof -
  let ?q = "pq_setitem dst 0 (pq_init :: (string, int) pqueue)"
  have wf: "pq_wf ?q" and get: "pq_getitem ?q = [dst \<mapsto> 0]"
    using pq.inv_put [OF pq.inv_none] pq.lookup_put [OF pq.inv_none] by (simp_all add: pq.lookup_none)
  have "dists (spf_init e t dst) = [dst \<mapsto> 0]" by (auto simp: dists_def spf_init_def fun_eq_iff)
  with wf get topo.search_inv_init show ?thesis
    by (auto simp: spf_inv_def spf_init_def hop_entry_ok_def split: if_splits)
qed

section \<open>Relaxing the edges of a finished node\<close>

lemma dists_upd: "dists (s\<lparr>s_hops := (s_hops s)(u \<mapsto> h)\<rparr>) = (dists s)(u \<mapsto> nh_dist h)"
  by (auto simp: dists_def fun_eq_iff)

lemma dists_other [simp]: "dists (s\<lparr>s_queue := q\<rparr>) = dists s" "dists (s\<lparr>s_missmatch := m\<rparr>) = dists s"
    "dists (s\<lparr>s_calls := n\<rparr>) = dists s"
  by (simp_all add: dists_def)

lemma hop_entry_cong:
  "(\<And>v. v \<in> F \<Longrightarrow> dists s' v = dists s v) \<Longrightarrow> hop_entry_ok e t dst fs F s' n h = hop_entry_ok e t dst fs F s n h"
  by (auto simp: hop_entry_ok_def split: option.splits)

text \<open>A step that changes neither distances nor queue.\<close>

lemma spf_inv_skip:
  assumes inv: "spf_inv e t dst fs F x done s" and x: "dists s x = Some dx"
    and skip: "link e t dst fs u x \<Longrightarrow> \<exists>du. dists s u = Some du \<and> du \<le> dx + edge_weight e t dst u x"
    and same: "s_queue s' = s_queue s" "s_hops s' = s_hops s"
  shows "spf_inv e t dst fs F x (insert u done) s'"
proof -
  have D: "dists s' = dists s" by (simp add: dists_def same)
  have "topo.search_inv e t dst fs F x (insert u done) (dists s) (pq_getitem (s_queue s))"
    by (rule topo.search_inv_skip [OF _ skip x]) (use inv in \<open>auto simp: spf_inv_def\<close>)
  then show ?thesis using inv hop_entry_cong [of F s' s] D by (simp add: spf_inv_def same)
qed

lemma spf_inv_improve:
  assumes inv: "spf_inv e t dst fs F x done s" and x: "dists s x = Some dx" "x \<in> F"
    and l: "link e t dst fs u x"
    and better: "case dists s u of None \<Rightarrow> True | Some du \<Rightarrow> dx + edge_weight e t dst u x < du"
    and h: "nh_dist h = dx + edge_weight e t dst u x" "nh_cost h = node_cost e t dst u"
      "nh_edge h = Some (x, edge_cost t u x, sch)"
    and s': "s_queue s' = pq_setitem u (nh_dist h) (s_queue s)" "s_hops s' = (s_hops s)(u \<mapsto> h)"
  shows "spf_inv e t dst fs F x (insert u done) s'"
proof -
  let ?D = "dists s" and ?nd = "dx + edge_weight e t dst u x"
  have search: "topo.search_inv e t dst fs F x done ?D (pq_getitem (s_queue s))" and wf: "pq_wf (s_queue s)"
    using inv by (simp_all add: spf_inv_def)
  have D': "dists s' = ?D(u \<mapsto> ?nd)" by (auto simp: dists_def s' h fun_eq_iff)
  have new: "topo.search_inv e t dst fs F x (insert u done) (dists s') (pq_getitem (s_queue s'))"
    using topo.search_inv_improve [OF search x l better] pq.lookup_put [OF wf] by (simp add: D' s' h)
  have uF: "u \<notin> F" using topo.finished_not_improved [OF search _ l x(1)] better by fastforce
  have "dists s' dst = Some 0" "?D dst = Some 0" using new search by (simp_all add: topo.search_inv_def)
  with better D' have "u \<noteq> dst" by auto
  have "hop_entry_ok e t dst fs F s' n k" if "s_hops s' n = Some k" for n k
  proof (cases "n = u")
    case True
    then have "k = h" using that s' by simp
    moreover have "x \<noteq> u" using uF x by auto
    ultimately show ?thesis using True h l x \<open>u \<noteq> dst\<close> D' by (simp add: hop_entry_ok_def)
  next
    case False
    then have "hop_entry_ok e t dst fs F s n k" using inv that s' by (simp add: spf_inv_def)
    with uF D' show ?thesis by (auto simp: hop_entry_ok_def split: option.splits)
  qed
  with new pq.inv_put [OF wf] show ?thesis by (simp add: spf_inv_def s')
qed

text \<open>One predecessor. The nodes to find are those of the beginning without the finished ones.\<close>

lemma relax_edge_inv:
  assumes ok: "search_ok e t dst" and inv: "spf_inv e t dst fs F x done s"
    and x: "s_hops s x = Some nh" "x \<in> F" and hop: "x = dst \<or> t_multihop t \<noteq> []" and u: "u \<in> set (t_in t x)"
    and rest: "set remaining = set fs - (F - {dst})"
  shows "\<exists>s'. relax_edge e t dst remaining x nh u s = Inr s' \<and> spf_inv e t dst fs F x (insert u done) s' \<and>
    s_hops s' x = Some nh"
proof -
  have dx: "dists s x = Some (nh_dist nh)" using x by (simp add: dists_def)
  have search: "topo.search_inv e t dst fs F x done (dists s) (pq_getitem (s_queue s))" using inv by (simp add: spf_inv_def)
  have cost: "nh_cost nh = node_cost e t dst x" using inv x by (simp add: spf_inv_def hop_entry_ok_def)
  have W: "nh_dist nh + nh_cost nh + edge_cost t u x = nh_dist nh + edge_weight e t dst u x"
    by (simp add: edge_weight_def cost)
  note skip = spf_inv_skip [OF inv dx]
  show ?thesis
  proof (cases "u \<in> set remaining \<or> u \<in> set (t_multihop t)")
    case False
    then have "link e t dst fs u x \<Longrightarrow> u \<in> F" using rest by (auto simp: usable_edge_def)
    with topo.finished_not_improved [OF search _ _ dx] have "spf_inv e t dst fs F x (insert u done) s"
      by (intro skip) auto
    with False x show ?thesis by (auto simp: relax_edge_def)
  next
    case allowed: True
    show ?thesis
    proof (cases "case s_hops s u of None \<Rightarrow> True | Some h \<Rightarrow> nh_dist nh + edge_weight e t dst u x < nh_dist h")
      case False
      then have "\<exists>du. dists s u = Some du \<and> du \<le> nh_dist nh + edge_weight e t dst u x"
        by (auto simp: dists_def split: option.splits)
      then have "spf_inv e t dst fs F x (insert u done) s" by (intro skip) auto
      with allowed False x show ?thesis by (auto simp: relax_edge_def W Let_def)
    next
      case better: True
      show ?thesis
      proof (cases "edge_scheme e (s_calls s) dst u x")
        case (Inl err)
        then have err: "err = RSEProtocolNotSupported" and no: "\<not> schemes_match e dst u x"
          using edge_scheme_enabled [OF ok, where n = "s_calls s" and u = u and v = x] by auto
        let ?s = "s\<lparr>s_missmatch := add_key u (s_missmatch s), s_calls := Suc (s_calls s)\<rparr>"
        have "spf_inv e t dst fs F x (insert u done) ?s" by (intro skip) (use no in \<open>auto simp: usable_edge_def\<close>)
        moreover have "relax_edge e t dst remaining x nh u s = Inr ?s"
          using allowed better Inl err by (simp add: relax_edge_def W Let_def)
        ultimately show ?thesis using x by auto
      next
        case (Inr sch)
        then have "schemes_match e dst u x" using edge_scheme_enabled [OF ok, where n = "s_calls s" and u = u and v = x] by simp
        then have l: "link e t dst fs u x"
          using allowed hop u rest search_ok_weight [OF ok] by (auto simp: usable_edge_def)
        let ?h = "\<lparr>nh_dist = nh_dist nh + edge_weight e t dst u x, nh_cost = node_cost e t dst u,
                   nh_edge = Some (x, edge_cost t u x, sch)\<rparr>"
        let ?s = "s\<lparr>s_queue := pq_setitem u (nh_dist ?h) (s_queue s), s_hops := (s_hops s)(u \<mapsto> ?h), s_calls := Suc (s_calls s)\<rparr>"
        have b: "case dists s u of None \<Rightarrow> True | Some du \<Rightarrow> nh_dist nh + edge_weight e t dst u x < du"
          using better by (auto simp: dists_def split: option.splits)
        have "spf_inv e t dst fs F x (insert u done) ?s"
          by (rule spf_inv_improve [OF inv dx x(2) l b, where h = ?h and sch = sch]) simp_all
        moreover have "relax_edge e t dst remaining x nh u s = Inr ?s"
          using allowed better Inr by (simp add: relax_edge_def W Let_def)
        moreover have "u \<noteq> x" using topo.finished_not_improved [OF search x(2) _ dx] l b by fastforce
        ultimately show ?thesis using x by auto
      qed
    qed
  qed
qed

lemma relax_all:
  assumes ok: "search_ok e t dst" and hop: "x = dst \<or> t_multihop t \<noteq> []" and "x \<in> F"
    and rest: "set remaining = set fs - (F - {dst})"
  shows "set us \<subseteq> set (t_in t x) \<Longrightarrow> spf_inv e t dst fs F x done s \<Longrightarrow> s_hops s x = Some nh \<Longrightarrow>
    \<exists>s'. rfold (relax_edge e t dst remaining x nh) us s = Inr s' \<and> spf_inv e t dst fs F x (done \<union> set us) s'"
proof (induction us arbitrary: "done" s)
  case Nil
  then show ?case by auto
next
  case (Cons u us)
  have "u \<in> set (t_in t x)" using Cons.prems(1) by simp
  from relax_edge_inv [OF ok Cons.prems(2,3) \<open>x \<in> F\<close> hop this rest] obtain s1 where
    s1: "relax_edge e t dst remaining x nh u s = Inr s1" "spf_inv e t dst fs F x (insert u done) s1"
      "s_hops s1 x = Some nh" by blast
  from Cons.IH [OF _ s1(2,3)] Cons.prems(1) obtain s2 where
    "rfold (relax_edge e t dst remaining x nh) us s1 = Inr s2" "spf_inv e t dst fs F x (insert u done \<union> set us) s2"
    by auto
  with s1(1) show ?case by simp
qed

section \<open>The loop\<close>

definition loop_inv ::
  "search \<Rightarrow> topology \<Rightarrow> string \<Rightarrow> string list \<Rightarrow> string list \<Rightarrow> string set \<Rightarrow> string \<Rightarrow> (string \<rightharpoonup> hop list) \<Rightarrow> spf \<Rightarrow> bool" where
  "loop_inv e t dst fs remaining F x paths s \<longleftrightarrow>
     spf_inv e t dst fs F x UNIV s \<and> set remaining = set fs - (F - {dst}) \<and>
     dom paths = insert dst F \<and>
     (\<forall>n p. paths n = Some p \<longrightarrow> (\<exists>d. dists s n = Some d \<and> hops_ok e t dst fs n p d))"

text \<open>What the loop returns: paths of shortest length for the finished nodes \<open>F\<close>, and every node that was
  asked for and has a route is finished.\<close>

definition search_done ::
  "search \<Rightarrow> topology \<Rightarrow> string \<Rightarrow> string list \<Rightarrow> (string \<rightharpoonup> hop list) \<Rightarrow> bool" where
  "search_done e t dst fs paths \<longleftrightarrow>
     (\<forall>n p. paths n = Some p \<longrightarrow> n \<noteq> dst \<longrightarrow>
        (\<exists>d. hops_ok e t dst fs n p d \<and> shortest (usable_edge e t dst fs) (edge_weight e t dst) dst n d)) \<and>
     (\<forall>n d. n \<in> set fs \<longrightarrow> n \<noteq> dst \<longrightarrow> route (usable_edge e t dst fs) (edge_weight e t dst) dst n d \<longrightarrow> paths n \<noteq> None)"

lemma search_doneI:
  assumes ok: "search_ok e t dst" and inv: "topo.search_inv e t dst fs F x done D Q"
    and paths: "dom paths = insert dst F" "\<And>n p. paths n = Some p \<Longrightarrow> \<exists>d. D n = Some d \<and> hops_ok e t dst fs n p d"
    and found: "\<And>n d. n \<in> set fs \<Longrightarrow> n \<noteq> dst \<Longrightarrow> route (link e t dst fs) (edge_weight e t dst) dst n d \<Longrightarrow> n \<in> F"
  shows "search_done e t dst fs paths"
  unfolding search_done_def
proof (intro conjI allI impI)
  fix n p assume p: "paths n = Some p" and "n \<noteq> dst"
  with paths(1) have "n \<in> F" by (metis domI insertE)
  from topo.search_inv_finished [OF inv this] paths(2) [OF p]
  show "\<exists>d. hops_ok e t dst fs n p d \<and> shortest (usable_edge e t dst fs) (edge_weight e t dst) dst n d"
    by (auto simp: link_usable [OF ok])
next
  fix n d assume "n \<in> set fs" "n \<noteq> dst" "route (usable_edge e t dst fs) (edge_weight e t dst) dst n d"
  then have "n \<in> F" using found by (simp add: link_usable [OF ok])
  with paths(1) have "n \<in> dom paths" by simp
  then show "paths n \<noteq> None" by (simp add: domIff)
qed

lemma spf_inv_pop:
  assumes inv: "spf_inv e t dst fs F x UNIV s" and pop: "pq_pop (s_queue s) = Some (y, q)"
  obtains nh where "s_hops s y = Some nh" and "y \<notin> F" and "spf_inv e t dst fs (insert y F) y {} (s\<lparr>s_queue := q\<rparr>)"
proof -
  have wf: "pq_wf (s_queue s)" and search: "topo.search_inv e t dst fs F x UNIV (dists s) (pq_getitem (s_queue s))"
    and entries: "\<And>n h. s_hops s n = Some h \<Longrightarrow> hop_entry_ok e t dst fs F s n h"
    using inv by (simp_all add: spf_inv_def)
  from pq.pop_some [OF wf pop] obtain d where q: "pq_wf q" "pq_getitem q = (pq_getitem (s_queue s))(y := None)"
    "pq_getitem (s_queue s) y = Some d" and least: "\<And>m dm. pq_getitem (s_queue s) m = Some dm \<Longrightarrow> d \<le> dm" by blast
  have "dists s y = Some d" using search q(3) by (simp add: topo.search_inv_def)
  then obtain nh where nh: "s_hops s y = Some nh" by (auto simp: dists_def)
  have yF: "y \<notin> F" using topo.search_inv_known(3) [OF search, of y] q(3) by auto
  have "hop_entry_ok e t dst fs (insert y F) (s\<lparr>s_queue := q\<rparr>) n h" if "s_hops s n = Some h" for n h
    using entries [OF that] by (auto simp: hop_entry_ok_def split: option.splits)
  with topo.search_inv_pop [OF search q(3) least] q
  have "spf_inv e t dst fs (insert y F) y {} (s\<lparr>s_queue := q\<rparr>)" by (simp add: spf_inv_def)
  with nh yF that show thesis by blast
qed

text \<open>After the edges into the node that was taken have been looked at, the invariant holds again.\<close>

lemma loop_inv_relaxed:
  assumes ok: "search_ok e t dst" and inv: "spf_inv e t dst fs (insert y F) y {} s" and nh: "s_hops s y = Some nh"
    and rest: "set remaining = set fs - (insert y F - {dst})"
    and paths: "dom paths = insert dst (insert y F)" "\<And>n p. paths n = Some p \<Longrightarrow> \<exists>d. dists s n = Some d \<and> hops_ok e t dst fs n p d"
  shows "\<exists>s'. (if y = dst \<or> t_multihop t \<noteq> [] then rfold (relax_edge e t dst remaining y nh) (t_in t y) s else Inr s) = Inr s'
    \<and> loop_inv e t dst fs remaining (insert y F) y paths s'"
proof (cases "y = dst \<or> t_multihop t \<noteq> []")
  case False
  have "spf_inv e t dst fs (insert y F) y UNIV s"
    using inv topo.search_inv_all [of e t dst fs "insert y F" y "{}"] False by (simp add: spf_inv_def usable_edge_def)
  with False rest paths show ?thesis by (auto simp: loop_inv_def)
next
  case True
  from relax_all [OF ok True _ rest subset_refl inv nh] obtain s' where
    s': "rfold (relax_edge e t dst remaining y nh) (t_in t y) s = Inr s'"
      "spf_inv e t dst fs (insert y F) y ({} \<union> set (t_in t y)) s'" by blast
  have old: "topo.search_inv e t dst fs (insert y F) y {} (dists s) (pq_getitem (s_queue s))"
    and new: "topo.search_inv e t dst fs (insert y F) y (set (t_in t y)) (dists s') (pq_getitem (s_queue s'))"
    using inv s'(2) by (simp_all add: spf_inv_def)
  have "topo.search_inv e t dst fs (insert y F) y UNIV (dists s') (pq_getitem (s_queue s'))"
    by (rule topo.search_inv_all [OF new]) (simp add: usable_edge_def)
  with s'(2) have full: "spf_inv e t dst fs (insert y F) y UNIV s'" by (simp add: spf_inv_def)
  have same: "dists s' n = dists s n" if "n \<in> insert dst (insert y F)" for n
    using that topo.search_inv_same [OF old new] by auto
  have "\<exists>d. dists s' n = Some d \<and> hops_ok e t dst fs n p d" if "paths n = Some p" for n p
    using paths(2) [OF that] same paths(1) that by (metis domI)
  with full s'(1) True rest paths(1) show ?thesis by (auto simp: loop_inv_def)
qed

lemma spf_inv_dom: "spf_inv e t dst fs F x done s \<Longrightarrow> dom (s_hops s) \<subseteq> insert dst (set fs \<union> set (t_multihop t))"
  by (fastforce simp: spf_inv_def hop_entry_ok_def usable_edge_def split: option.splits)

text \<open>The new path of the node that was taken.\<close>

lemma new_path_ok:
  assumes inv: "spf_inv e t dst fs F x UNIV s" and nh: "s_hops s y = Some nh" and e: "nh_edge nh = Some (v, c, sch)"
    and paths: "dom paths = insert dst F" "\<And>n p. paths n = Some p \<Longrightarrow> \<exists>d. dists s n = Some d \<and> hops_ok e t dst fs n p d"
  shows "\<exists>rest. paths v = Some rest \<and> hops_ok e t dst fs y (\<lparr>hop_source = y, hop_dest = v, hop_distance = c,
      hop_cumulated = nh_dist nh, hop_scheme = sch\<rparr> # rest) (nh_dist nh) \<and> y \<noteq> dst"
proof -
  have entry: "hop_entry_ok e t dst fs F s y nh" using inv nh by (simp add: spf_inv_def)
  then have v: "y \<noteq> dst" "v \<in> F" "usable_edge e t dst fs y v" "c = edge_cost t y v"
    "dists s v = Some (nh_dist nh - edge_weight e t dst y v)" by (simp_all add: hop_entry_ok_def e)
  from v(2) paths(1) obtain rest where "paths v = Some rest" by (metis domD insertI2)
  with paths(2) v show ?thesis by fastforce
qed

lemma search_loop_finds:
  assumes ok: "search_ok e t dst"
  shows "loop_inv e t dst fs remaining F x paths s \<Longrightarrow>
    \<exists>paths' s'. search_loop e t dst remaining paths s = Some (Inr (paths', s')) \<and> search_done e t dst fs paths'"
proof (induction "card (insert dst (set fs \<union> set (t_multihop t)) - F)" arbitrary: F x remaining paths s rule: less_induct)
  case less
  note inv = less.prems
  have spf: "spf_inv e t dst fs F x UNIV s" and rest: "set remaining = set fs - (F - {dst})"
    and paths: "dom paths = insert dst F" "\<And>n p. paths n = Some p \<Longrightarrow> \<exists>d. dists s n = Some d \<and> hops_ok e t dst fs n p d"
    using inv by (auto simp: loop_inv_def)
  have search: "topo.search_inv e t dst fs F x UNIV (dists s) (pq_getitem (s_queue s))" and wf: "pq_wf (s_queue s)"
    using spf by (simp_all add: spf_inv_def)
  show ?case
  proof (cases "pq_pop (s_queue s)")
    case None
    then have "pq_getitem (s_queue s) = Map.empty" using pq.pop_none [OF wf] by simp
    with search have empty: "topo.search_inv e t dst fs F x UNIV (dists s) Map.empty" by simp
    have "search_done e t dst fs paths"
      by (rule search_doneI [OF ok empty paths]) (assumption, rule topo.search_inv_exhausted [OF empty])
    with None show ?thesis by (subst search_loop.simps) simp
  next
    case (Some yq)
    obtain y q where pop: "pq_pop (s_queue s) = Some (y, q)" using Some by (cases yq) simp
    from spf_inv_pop [OF spf pop] obtain nh where nh: "s_hops s y = Some nh" and yF: "y \<notin> F"
      and spf1: "spf_inv e t dst fs (insert y F) y {} (s\<lparr>s_queue := q\<rparr>)" .
    let ?s1 = "s\<lparr>s_queue := q\<rparr>"
    have "y \<in> dom (s_hops s)" using nh by (rule domI)
    then have "y \<in> insert dst (set fs \<union> set (t_multihop t))" using spf_inv_dom [OF spf] by blast
    then have smaller: "card (insert dst (set fs \<union> set (t_multihop t)) - insert y F) < card (insert dst (set fs \<union> set (t_multihop t)) - F)"
      using yF by (intro psubset_card_mono) auto
    note IH = less.hyps [OF smaller]
    show ?thesis
    proof (cases "nh_edge nh")
      case None
      have "hop_entry_ok e t dst fs F s y nh" using spf nh by (simp add: spf_inv_def)
      then have "y = dst" by (simp add: hop_entry_ok_def None)
      have "set remaining = set fs - (insert y F - {dst})" "dom paths = insert dst (insert y F)"
        using rest paths(1) \<open>y = dst\<close> by auto
      from loop_inv_relaxed [OF ok spf1 _ this, of nh] paths(2) nh \<open>y = dst\<close> obtain s' where
        s': "rfold (relax_edge e t dst remaining y nh) (t_in t y) ?s1 = Inr s'"
          "loop_inv e t dst fs remaining (insert y F) y paths s'" by auto
      from IH [OF s'(2)] pop nh None s'(1) show ?thesis by (subst search_loop.simps) simp
    next
      case (Some vcs)
      obtain v c sch where e: "nh_edge nh = Some (v, c, sch)" using Some by (cases vcs) auto
      let ?hop = "\<lparr>hop_source = y, hop_dest = v, hop_distance = c, hop_cumulated = nh_dist nh, hop_scheme = sch\<rparr>"
      from new_path_ok [OF spf nh e paths] obtain old where
        old: "paths v = Some old" "hops_ok e t dst fs y (?hop # old) (nh_dist nh)" "y \<noteq> dst" by blast
      let ?paths = "paths(y \<mapsto> ?hop # old)" and ?rem = "removeAll y remaining"
      have rem: "set ?rem = set fs - (insert y F - {dst})" using rest old(3) by auto
      have dom1: "dom ?paths = insert dst (insert y F)" using paths(1) by auto
      have ok1: "\<exists>d. dists ?s1 n = Some d \<and> hops_ok e t dst fs n p d" if "?paths n = Some p" for n p
        using that paths(2) old(2) nh by (auto simp: dists_def split: if_splits)
      have search1: "topo.search_inv e t dst fs (insert y F) y {} (dists ?s1) (pq_getitem (s_queue ?s1))"
        using spf1 by (simp add: spf_inv_def)
      show ?thesis
      proof (cases "?rem = []")
        case True
        then have "search_done e t dst fs ?paths"
          using search_doneI [OF ok search1 dom1 ok1] rem by auto
        with True pop nh e old(1) show ?thesis by (subst search_loop.simps) (simp add: Let_def)
      next
        case False
        from loop_inv_relaxed [OF ok spf1 _ rem dom1 ok1, of nh] nh old(3) obtain s' where
          s': "(if t_multihop t \<noteq> [] then rfold (relax_edge e t dst ?rem y nh) (t_in t y) ?s1 else Inr ?s1) = Inr s'"
            "loop_inv e t dst fs ?rem (insert y F) y ?paths s'" by auto
        from IH [OF s'(2)] pop nh e old(1) False s'(1) show ?thesis
          by (subst search_loop.simps) (simp add: Let_def)
      qed
    qed
  qed
qed

section \<open>The edges of the topology\<close>

text \<open>The dictionaries agree: one entry per pair in \<^verbatim>\<open>_edges\<close>, none negative, \<^verbatim>\<open>in_edges\<close> and \<^verbatim>\<open>out_edges\<close> are
  converse to each other and have only edges of \<^verbatim>\<open>_edges\<close>.\<close>

definition topology_wf :: "topology \<Rightarrow> bool" where
  "topology_wf t \<longleftrightarrow> distinct (map fst (t_edges t)) \<and> (\<forall>(_, c) \<in> set (t_edges t). 0 \<le> c) \<and>
     (\<forall>u v. u \<in> set (t_in t v) \<longleftrightarrow> v \<in> set (t_out t u)) \<and>
     (\<forall>u v. u \<in> set (t_in t v) \<longrightarrow> (u, v) \<in> fst ` set (t_edges t))"

lemma search_paths_effect:
  fixes src_nodes :: "string list"
  assumes ok: "search_ok e t dst" and wf: "topology_wf t"
  defines "fs \<equiv> nodes_to_search t src_nodes"
  shows "\<exists>res. search_paths e t src_nodes dst = Some (Inr res) \<and> (\<forall>n \<in> set src_nodes. n \<noteq> dst \<longrightarrow>
    (case res n of
       Some (h # hs) \<Rightarrow> hops_ok e t dst fs n (h # hs) (hop_cumulated h) \<and>
         shortest (usable_edge e t dst fs) (edge_weight e t dst) dst n (hop_cumulated h)
     | _ \<Rightarrow> \<not> (\<exists>d. route (usable_edge e t dst fs) (edge_weight e t dst) dst n d)))"
proof -
  have "loop_inv e t dst fs fs {} dst [dst \<mapsto> []] (spf_init e t dst)"
    using spf_inv_init by (auto simp: loop_inv_def dists_def spf_init_def)
  from search_loop_finds [OF ok this] obtain paths s where
    run: "search_loop e t dst fs [dst \<mapsto> []] (spf_init e t dst) = Some (Inr (paths, s))"
    and fin: "search_done e t dst fs paths" by blast
  have found: "n \<in> set fs" if "n \<in> set src_nodes" "n \<noteq> dst" "route (usable_edge e t dst fs) (edge_weight e t dst) dst n d" for n d
    using that(3)
  proof cases
    case arrived
    with that(2) show ?thesis by simp
  next
    case (via v d')
    then have "n \<in> set (t_in t v)" by (simp add: usable_edge_def)
    then have "t_out t n \<noteq> []" using wf by (auto simp: topology_wf_def)
    with that(1) show ?thesis by (auto simp: fs_def nodes_to_search_def)
  qed
  have "case search_result src_nodes (paths, s) n of
       Some (h # hs) \<Rightarrow> hops_ok e t dst fs n (h # hs) (hop_cumulated h) \<and>
         shortest (usable_edge e t dst fs) (edge_weight e t dst) dst n (hop_cumulated h)
     | _ \<Rightarrow> \<not> (\<exists>d. route (usable_edge e t dst fs) (edge_weight e t dst) dst n d)"
    if n: "n \<in> set src_nodes" "n \<noteq> dst" for n
  proof (cases "paths n")
    case None
    then have "\<not> (\<exists>d. route (usable_edge e t dst fs) (edge_weight e t dst) dst n d)"
      using fin found [OF n] n unfolding search_done_def by blast
    with None show ?thesis by (simp add: search_result_def)
  next
    case (Some p)
    with fin n obtain d where d: "hops_ok e t dst fs n p d" "shortest (usable_edge e t dst fs) (edge_weight e t dst) dst n d"
      unfolding search_done_def by blast
    with n(2) obtain h hs where "p = h # hs" "hop_cumulated h = d" by (cases p) auto
    with d Some n show ?thesis by (simp add: search_result_def)
  qed
  then show ?thesis using run by (auto simp: search_paths_def fs_def)
qed

text \<open>C29: With non-negative distances and penalties, \<^verbatim>\<open>search_shortest_paths\<close> always returns, and for every source
  node it gives a connected list of enabled hops to the destination, with the right distances, whose total is
  the least of all walks through nodes that were asked for or may be used for multihop (through no
  intermediate node at all when multihop is off). A source without such a list of hops has no walk at
  all. So stopping as soon as the last source is found, and forgetting sources that were found while the
  search still runs, loses nothing.\<close>

theorem search_finds_shortest_paths:
  assumes "search_ok e t dst" and "topology_wf t"
  shows "\<exists>res. search_paths e t src_nodes dst = Some (Inr res) \<and> (\<forall>n \<in> set src_nodes. n \<noteq> dst \<longrightarrow>
    (case res n of
       Some (h # hs) \<Rightarrow> hops_ok e t dst (nodes_to_search t src_nodes) n (h # hs) (hop_cumulated h) \<and>
         shortest (usable_edge e t dst (nodes_to_search t src_nodes)) (edge_weight e t dst) dst n (hop_cumulated h)
     | _ \<Rightarrow> \<not> (\<exists>d. route (usable_edge e t dst (nodes_to_search t src_nodes)) (edge_weight e t dst) dst n d)))"
  by (rule search_paths_effect [OF assms])

text \<open>An example: the direct connection from \<open>A\<close> to \<open>B\<close> is longer than the two hops through \<open>M\<close>.\<close>

definition demo_topology :: topology where
  "demo_topology = \<lparr>t_nodes = [''A'', ''M'', ''B''],
     t_edges = [((''A'', ''B''), 50), ((''A'', ''M''), 1), ((''M'', ''B''), 1)],
     t_in = (\<lambda>n. if n = ''B'' then [''A'', ''M''] else if n = ''M'' then [''A''] else []),
     t_out = (\<lambda>n. if n = ''A'' then [''B'', ''M''] else if n = ''M'' then [''B''] else []),
     t_edges_loaded = True, t_multihop = [''M''], t_hop_penalty = 10, t_ignore_availability = False\<rparr>"

definition demo_search :: search where
  "demo_search = \<lparr>node_attr = (\<lambda>_ _. None), node_protocols = (\<lambda>_. [demo_protocol ''root'' (Some 1) (Some 1)]),
     operation_src = ''third_party_copy_read'', operation_dest = ''third_party_copy_write'', domain = ''wan'',
     limit_dest_schemes = [], shuffles = (\<lambda>_ c. c)\<rparr>"

lemma demo_search_ok: "search_ok demo_search demo_topology ''B''" "topology_wf demo_topology"
proof -
  have "lower ''third_party_copy_read'' = ''third_party_copy_read''"
    "lower ''third_party_copy_write'' = ''third_party_copy_write''" by code_simp+
  then show "search_ok demo_search demo_topology ''B''"
    by (simp add: search_ok_def demo_search_def demo_topology_def node_cost_def has_entry_def domain_prio_def demo_protocol_def)
  show "topology_wf demo_topology" by (simp add: topology_wf_def demo_topology_def)
qed

theorem search_finds_shortest_paths_witness:
  "\<exists>res h hs. search_paths demo_search demo_topology [''A''] ''B'' = Some (Inr res) \<and> res ''A'' = Some (h # hs) \<and>
     hop_cumulated h = 12 \<and> map hop_dest (h # hs) = [''M'', ''B''] \<and>
     shortest (usable_edge demo_search demo_topology ''B'' (nodes_to_search demo_topology [''A'']))
       (edge_weight demo_search demo_topology ''B'') ''B'' ''A'' 12"
proof -
  let ?fs = "nodes_to_search demo_topology [''A'']"
  let ?E = "usable_edge demo_search demo_topology ''B'' ?fs" and ?W = "edge_weight demo_search demo_topology ''B''"
  from search_finds_shortest_paths [OF demo_search_ok, of "[''A'']"] obtain res where
    run: "search_paths demo_search demo_topology [''A''] ''B'' = Some (Inr res)" and
    all: "\<forall>n \<in> set [''A'']. n \<noteq> ''B'' \<longrightarrow> (case res n of
       Some (h # hs) \<Rightarrow> hops_ok demo_search demo_topology ''B'' ?fs n (h # hs) (hop_cumulated h) \<and>
         shortest ?E ?W ''B'' n (hop_cumulated h)
     | _ \<Rightarrow> \<not> (\<exists>d. route ?E ?W ''B'' n d))" by blast
  have "map_option (\<lambda>r. case r of Inr f \<Rightarrow> map_option (map (\<lambda>h. (hop_dest h, hop_cumulated h))) (f ''A'') | Inl _ \<Rightarrow> None)
      (search_paths demo_search demo_topology [''A''] ''B'') = Some (Some [(''M'', 12), (''B'', 1)])"
    by code_simp
  then have "map_option (map (\<lambda>h. (hop_dest h, hop_cumulated h))) (res ''A'') = Some [(''M'', 12), (''B'', 1)]"
    unfolding run by simp
  then obtain h hs where r: "res ''A'' = Some (h # hs)" "hop_cumulated h = 12" "map hop_dest (h # hs) = [''M'', ''B'']"
    by (auto simp: map_eq_Cons_conv)
  from bspec [OF all, of "''A''"] have "shortest ?E ?W ''B'' ''A'' 12" by (simp add: r(1,2))
  with run r show ?thesis by (intro exI [of _ res] exI [of _ h] exI [of _ hs]) simp
qed

section \<open>Loading the edges\<close>

abbreviation keys :: "topology \<Rightarrow> (string \<times> string) set" where
  "keys t \<equiv> fst ` set (t_edges t)"

lemma map_of_keys: "map_of (t_edges t) k \<noteq> None \<longleftrightarrow> k \<in> keys t"
  by (simp add: map_of_eq_None_iff)

lemma set_add_key [simp]: "set (add_key k ks) = insert k (set ks)"
  by (auto simp: add_key_def)

lemma topology_wf_init: "topology_wf (topology_init ids b)"
  by (simp add: topology_wf_def topology_init_def)

lemma topology_wf_edges:
  assumes "topology_wf t" and "t_in t' = t_in t" and "t_out t' = t_out t" and "map fst (t_edges t') = map fst (t_edges t)"
    and "\<forall>(_, c) \<in> set (t_edges t'). 0 \<le> c"
  shows "topology_wf t'"
  using assms by (simp add: topology_wf_def flip: set_map)

lemma get_or_create_edge_effect:
  assumes wf: "topology_wf t"
  shows "topology_wf (get_or_create_edge a b t)" and "keys (get_or_create_edge a b t) = insert (a, b) (keys t)"
    and "u \<in> set (t_in (get_or_create_edge a b t) v) \<longleftrightarrow> u \<in> set (t_in t v) \<or> ((u, v) = (a, b) \<and> (a, b) \<notin> keys t)"
proof -
  show k: "keys (get_or_create_edge a b t) = insert (a, b) (keys t)"
    using map_of_keys [of t "(a, b)"] by (auto simp: get_or_create_edge_def add_to_nodes_def)
  show i: "u \<in> set (t_in (get_or_create_edge a b t) v) \<longleftrightarrow> u \<in> set (t_in t v) \<or> ((u, v) = (a, b) \<and> (a, b) \<notin> keys t)" for u v
    using map_of_keys [of t "(a, b)"] by (auto simp: get_or_create_edge_def add_to_nodes_def)
  have o: "v \<in> set (t_out (get_or_create_edge a b t) u) \<longleftrightarrow> v \<in> set (t_out t u) \<or> ((u, v) = (a, b) \<and> (a, b) \<notin> keys t)" for u v
    using map_of_keys [of t "(a, b)"] by (auto simp: get_or_create_edge_def add_to_nodes_def)
  have "distinct (map fst (t_edges (get_or_create_edge a b t)))" "\<forall>(_, c) \<in> set (t_edges (get_or_create_edge a b t)). 0 \<le> c"
    using wf map_of_keys [of t "(a, b)"] by (auto simp: get_or_create_edge_def add_to_nodes_def topology_wf_def)
  with wf show "topology_wf (get_or_create_edge a b t)"
    unfolding topology_wf_def i o k by auto
qed

lemma set_cost_effect:
  shows "map fst (t_edges (set_cost a b c t)) = map fst (t_edges t)" and "t_in (set_cost a b c t) = t_in t"
    and "t_out (set_cost a b c t) = t_out t"
  by (auto simp: set_cost_def)

lemma load_edge_effect:
  assumes wf: "topology_wf t"
  shows "topology_wf (load_edge (a, b, d) t)" and "keys (load_edge (a, b, d) t) = insert (a, b) (keys t)"
    and "u \<in> set (t_in (load_edge (a, b, d) t) v) \<longleftrightarrow> u \<in> set (t_in t v) \<or> ((u, v) = (a, b) \<and> (a, b) \<notin> keys t)"
proof -
  let ?t = "get_or_create_edge a b t" and ?c = "if d \<ge> 0 then d else 0"
  have l: "load_edge (a, b, d) t = set_cost a b ?c ?t" by (simp add: load_edge_def)
  note sc = set_cost_effect [of a b ?c ?t]
  have "\<forall>(_, c) \<in> set (t_edges (set_cost a b ?c ?t)). 0 \<le> c"
    using get_or_create_edge_effect(1) [OF wf, of a b] by (auto simp: set_cost_def topology_wf_def)
  with topology_wf_edges [OF get_or_create_edge_effect(1) [OF wf]] sc show "topology_wf (load_edge (a, b, d) t)"
    unfolding l by blast
  show "keys (load_edge (a, b, d) t) = insert (a, b) (keys t)"
    unfolding l using sc(1) get_or_create_edge_effect(2) [OF wf, of a b] by (metis set_map)
  show "u \<in> set (t_in (load_edge (a, b, d) t) v) \<longleftrightarrow> u \<in> set (t_in t v) \<or> ((u, v) = (a, b) \<and> (a, b) \<notin> keys t)"
    unfolding l sc(2) by (rule get_or_create_edge_effect(3) [OF wf])
qed

definition pairs :: "(string \<times> string \<times> int) list \<Rightarrow> (string \<times> string) list" where
  "pairs ds = map (\<lambda>(u, v, _). (u, v)) ds"

lemma pairs_simps [simp]: "pairs [] = []" "pairs ((a, b, d) # ds) = (a, b) # pairs ds"
  by (simp_all add: pairs_def)

lemma pairs_mem: "(u, v, d) \<in> set ds \<Longrightarrow> (u, v) \<in> set (pairs ds)"
  by (force simp: pairs_def)

lemma load_fold:
  assumes "topology_wf t"
  shows "topology_wf (fold load_edge ds t) \<and> keys (fold load_edge ds t) = keys t \<union> set (pairs ds) \<and>
    (\<forall>u v. u \<in> set (t_in (fold load_edge ds t) v) \<longleftrightarrow> u \<in> set (t_in t v) \<or> ((u, v) \<in> set (pairs ds) \<and> (u, v) \<notin> keys t))"
  using assms
proof (induction ds arbitrary: t)
  case Nil
  then show ?case by simp
next
  case (Cons x ds)
  obtain a b d where x: "x = (a, b, d)" by (cases x)
  note e = load_edge_effect [OF Cons.prems, where a = a and b = b and d = d]
  show ?case using Cons.IH [OF e(1)] by (auto simp: x e)
qed

lemma edge_cost_load: "(u, v) \<noteq> (a, b) \<Longrightarrow> edge_cost (load_edge (a, b, d) t) u v = edge_cost t u v"
    "edge_cost (load_edge (a, b, d) t) a b = max 0 d"
proof -
  have m: "map_of (map (\<lambda>(e, x). (e, if e = k then c else x)) es) k' = (if k' = k then map_option (\<lambda>_. c) (map_of es k) else map_of es k')"
    for es :: "((string \<times> string) \<times> int) list" and k k' c by (induction es) auto
  show "(u, v) \<noteq> (a, b) \<Longrightarrow> edge_cost (load_edge (a, b, d) t) u v = edge_cost t u v"
    by (auto simp: edge_cost_def load_edge_def set_cost_def m get_or_create_edge_def add_to_nodes_def map_add_def split: option.splits)
  show "edge_cost (load_edge (a, b, d) t) a b = max 0 d"
    by (auto simp: edge_cost_def load_edge_def set_cost_def m get_or_create_edge_def add_to_nodes_def map_add_def max_def split: option.splits)
qed

lemma load_fold_cost:
  assumes "(u, v, d) \<in> set ds" and "distinct (pairs ds)"
  shows "edge_cost (fold load_edge ds t) u v = max 0 d"
proof -
  have keep: "edge_cost (fold load_edge xs t) u v = edge_cost t u v" if "(u, v) \<notin> set (pairs xs)" for xs t
    using that
  proof (induction xs arbitrary: t)
    case (Cons x xs)
    then show ?case by (cases x) (simp add: edge_cost_load)
  qed simp
  from assms show ?thesis
  proof (induction ds arbitrary: t)
    case (Cons x ds)
    obtain a b c where x: "x = (a, b, c)" by (cases x)
    show ?case
    proof (cases "x = (u, v, d)")
      case True
      with Cons.prems show ?thesis using keep [of ds] by (simp add: edge_cost_load)
    next
      case False
      with Cons x show ?thesis by auto
    qed
  qed simp
qed

lemma delete_edges:
  assumes "topology_wf t" and "set es \<subseteq> keys t"
  shows "\<exists>t'. rfold (\<lambda>(u, v). delete_edge u v) es t = Inr t' \<and> topology_wf t' \<and> t_edges t' = t_edges t \<and>
    (\<forall>u v. u \<in> set (t_in t' v) \<longleftrightarrow> u \<in> set (t_in t v) \<and> (u, v) \<notin> set es)"
  using assms
proof (induction es arbitrary: t)
  case Nil
  then show ?case by simp
next
  case (Cons x es)
  obtain a b where x: "x = (a, b)" by (cases x)
  let ?t = "remove_from_nodes a b t"
  have d: "delete_edge a b t = Inr ?t" using Cons.prems(2) map_of_keys [of t "(a, b)"] by (auto simp: delete_edge_def x)
  have e: "t_edges ?t = t_edges t" by (simp add: remove_from_nodes_def)
  have i: "u \<in> set (t_in ?t v) \<longleftrightarrow> u \<in> set (t_in t v) \<and> (u, v) \<noteq> (a, b)"
    and o: "v \<in> set (t_out ?t u) \<longleftrightarrow> v \<in> set (t_out t u) \<and> (u, v) \<noteq> (a, b)" for u v
    by (auto simp: remove_from_nodes_def)
  have "topology_wf ?t" using Cons.prems(1) unfolding topology_wf_def i o e by auto
  from Cons.IH [OF this] Cons.prems(2) obtain t' where
    "rfold (\<lambda>(u, v). delete_edge u v) es ?t = Inr t'" "topology_wf t'" "t_edges t' = t_edges t"
    "\<forall>u v. u \<in> set (t_in t' v) \<longleftrightarrow> u \<in> set (t_in ?t v) \<and> (u, v) \<notin> set es" by (auto simp: e)
  then show ?case using d by (auto simp: x i)
qed

lemma load_edges_effect:
  fixes rows :: "distance_row list"
  assumes wf: "topology_wf t"
  defines "ds \<equiv> relevant_distances rows t"
  shows "\<exists>t'. load_edges rows t = Inr t' \<and> topology_wf t' \<and> t_edges_loaded t' \<and>
    (\<forall>u v. u \<in> set (t_in t' v) \<longleftrightarrow> (u, v) \<in> set (pairs ds) \<and> ((u, v) \<notin> keys t \<or> u \<in> set (t_in t v))) \<and>
    (distinct (pairs ds) \<longrightarrow> (\<forall>(u, v, d) \<in> set ds. edge_cost t' u v = max 0 d))"
proof -
  let ?t1 = "fold load_edge ds t" and ?L = "remdups (pairs ds)"
  let ?R = "filter (\<lambda>e. e \<notin> set ?L) (map fst (t_edges ?t1))"
  have wf1: "topology_wf ?t1" and k1: "keys ?t1 = keys t \<union> set (pairs ds)"
    and i1: "\<And>u v. u \<in> set (t_in ?t1 v) \<longleftrightarrow> u \<in> set (t_in t v) \<or> ((u, v) \<in> set (pairs ds) \<and> (u, v) \<notin> keys t)"
    using load_fold [OF wf, of ds] by auto
  have sub: "set ?R \<subseteq> keys ?t1" by auto
  from delete_edges [OF wf1 sub] obtain t2 where t2: "rfold (\<lambda>(u, v). delete_edge u v) ?R ?t1 = Inr t2" "topology_wf t2"
    "t_edges t2 = t_edges ?t1" "\<And>u v. u \<in> set (t_in t2 v) \<longleftrightarrow> u \<in> set (t_in ?t1 v) \<and> (u, v) \<notin> set ?R" by blast
  have same: "rfold (\<lambda>(u, v). delete_edge u v) ?R ?t1 = Inr ?t1" if "length ?L = length (t_edges ?t1)"
  proof -
    have "card (set (pairs ds)) = card (keys ?t1)"
      using that wf1 distinct_card [of "map fst (t_edges ?t1)"] distinct_card [of ?L] by (simp add: topology_wf_def)
    moreover have "set (pairs ds) \<subseteq> keys ?t1" using k1 by blast
    ultimately have "set (pairs ds) = keys ?t1" by (intro card_subset_eq) auto
    then have "?R = []" by (auto simp: filter_empty_conv)
    then show ?thesis by simp
  qed
  have run: "load_edges rows t = Inr (t2\<lparr>t_edges_loaded := True\<rparr>)"
    using same t2(1) by (auto simp: load_edges_def Let_def ds_def pairs_def)
  have "u \<in> set (t_in t2 v) \<longleftrightarrow> (u, v) \<in> set (pairs ds) \<and> ((u, v) \<notin> keys t \<or> u \<in> set (t_in t v))" for u v
  proof -
    have "(u, v) \<in> keys ?t1" if "u \<in> set (t_in ?t1 v)" using wf1 that by (auto simp: topology_wf_def)
    then have "u \<in> set (t_in t2 v) \<longleftrightarrow> u \<in> set (t_in ?t1 v) \<and> (u, v) \<in> set (pairs ds)" using t2(4) [of u v] by auto
    then show ?thesis using i1 [of u v] by auto
  qed
  moreover have "edge_cost t2 u v = edge_cost ?t1 u v" for u v by (simp add: edge_cost_def t2(3))
  ultimately show ?thesis
    using run t2(2) load_fold_cost [of _ _ _ ds t] by (auto simp: topology_wf_def edge_cost_def)
qed

text \<open>Loading the edges never fails and keeps the dictionaries consistent. Afterwards the edges the search can use
  are the distances between known nodes, with negative distances read as 0, except for those pairs that
  had been loaded before and were removed since: \<^verbatim>\<open>delete_edge\<close> leaves the edge in \<^verbatim>\<open>_edges\<close>, so
  \<^verbatim>\<open>get_or_create_edge\<close> finds it there and does not connect it to its nodes again. On a new topology the
  exception is empty and the load is exact.\<close>

theorem loaded_edges_exact:
  assumes "topology_wf t"
  shows "\<exists>t'. load_edges rows t = Inr t' \<and> topology_wf t' \<and>
    (\<forall>u v. u \<in> set (t_in t' v) \<longleftrightarrow> (u, v) \<in> set (map (\<lambda>(a, b, _). (a, b)) (relevant_distances rows t)) \<and>
       \<not> ((u, v) \<in> fst ` set (t_edges t) \<and> u \<notin> set (t_in t v))) \<and>
    (distinct (map (\<lambda>(a, b, _). (a, b)) (relevant_distances rows t)) \<longrightarrow>
       (\<forall>(u, v, d) \<in> set (relevant_distances rows t). edge_cost t' u v = max 0 d))"
  using load_edges_effect [OF assms, of rows] unfolding pairs_def by blast

theorem loaded_edges_exact_witness:
  "\<exists>t1 t2 t3. load_edges [(''A'', ''B'', Some 3)] (topology_init [''A'', ''B''] False) = Inr t1 \<and> ''A'' \<in> set (t_in t1 ''B'') \<and>
     load_edges [] t1 = Inr t2 \<and> load_edges [(''A'', ''B'', Some 3)] t2 = Inr t3 \<and> ''A'' \<notin> set (t_in t3 ''B'')"
proof -
  let ?rows = "[(''A'', ''B'', Some (3 :: int))]"
  from loaded_edges_exact [OF topology_wf_init, of ?rows "[''A'', ''B'']" False] obtain t1 where
    t1: "load_edges ?rows (topology_init [''A'', ''B''] False) = Inr t1" "topology_wf t1" by blast
  from loaded_edges_exact [OF t1(2), of "[]"] obtain t2 where t2: "load_edges [] t1 = Inr t2" "topology_wf t2" by blast
  from loaded_edges_exact [OF t2(2), of ?rows] obtain t3 where t3: "load_edges ?rows t2 = Inr t3" by blast
  have "(case load_edges ?rows (topology_init [''A'', ''B''] False) of Inr a \<Rightarrow> (''A'' \<in> set (t_in a ''B'') \<and>
      (case load_edges [] a of Inr b \<Rightarrow> (case load_edges ?rows b of Inr c \<Rightarrow> ''A'' \<notin> set (t_in c ''B'') | _ \<Rightarrow> False) | _ \<Rightarrow> False)) | _ \<Rightarrow> False)"
    by code_simp
  then have "''A'' \<in> set (t_in t1 ''B'') \<and> ''A'' \<notin> set (t_in t3 ''B'')" by (simp add: t1(1) t2(1) t3)
  with t1(1) t2(1) t3 show ?thesis by blast
qed

end
