(* ===== verification/Roles.thy ===== *)
theory Roles
  imports RSE_Expression "HOL-Library.List_Lexorder" "HOL-Library.Char_ord" "HOL-Library.Product_Lexorder"
begin

text \<open>
  Roles and their assignment to accounts, from \<^verbatim>\<open>core/role.py\<close>: the tables of role-based access control, creation,
  update and deletion of roles, the assignment of roles to accounts and its dates, and the cleaning of
  expired assignments.

  The state is the record \<open>rbac_db\<close> of the tables. An operation that raises leaves the database as it was
  (the session is rolled back), so the result carries the new database only on success. Constraints of the
  database are checked where the code commits. The time, the two date parsers and the constraint
  that the text of an integrity error names are parameters.
\<close>

section \<open>Values\<close>

text \<open>Accounts and scopes are given by their internal representation, \<^verbatim>\<open>external@vo\<close>, which is what they are
  compared and stored by; the part after the first \<^verbatim>\<open>@\<close> is the VO.\<close>

type_synonym internal = string

definition calc_external :: "internal \<Rightarrow> string \<times> string" where
  "calc_external i =
     (case dropWhile (\<lambda>c. c \<noteq> CHR ''@'') i of
        [] \<Rightarrow> (DEFAULT_VO, i)
      | _ # vo \<Rightarrow> (vo, takeWhile (\<lambda>c. c \<noteq> CHR ''@'') i))"

definition calc_internal :: "string \<Rightarrow> string \<Rightarrow> internal" where
  "calc_internal external vo = (if vo = DEFAULT_VO then external else external @ ''@'' @ vo)"

definition i_external :: "internal \<Rightarrow> string" where
  "i_external i = snd (calc_external i)"

definition i_vo :: "internal \<Rightarrow> string" where
  "i_vo i = fst (calc_external i)"

text \<open>A datetime without and with a UTC offset: the local time and, for the second, the offset.\<close>

datatype date = Naive int | Aware int int

text \<open>Values of unknown type that the functions validate.\<close>

datatype did_operation = READ | WRITE | DELETE

datatype py_value = VNone | VBool bool | VInt int | VStr string | VDate date | VOperation did_operation | VOther

datatype role_error =
    RoleReserved | RoleDuplicate | RoleNotFound | RoleLocked | RoleInUse
  | RoleAssignmentDisabled | RoleAssignmentNotFound | RolePermissionNotFound | RoleAccountNotFound
  | RoleInputValidationError | RoleTypeError | RoleIntegrityError
  | RoleExpressionError parse_error

text \<open>\<^verbatim>\<open>x <= y\<close> for datetimes: one with and one without an offset cannot be compared.\<close>

fun date_le :: "date \<Rightarrow> date \<Rightarrow> role_error + bool" where
  "date_le (Naive x) (Naive y) = Inr (x \<le> y)"
| "date_le (Aware x o1) (Aware y o2) = Inr (x - o1 \<le> y - o2)"
| "date_le _ _ = Inl RoleTypeError"

text \<open>A column of type \<^verbatim>\<open>DateTime\<close> keeps the local time and drops the offset.\<close>

fun date_stored :: "date \<Rightarrow> int" where
  "date_stored (Naive x) = x"
| "date_stored (Aware x _) = x"

section \<open>Tables\<close>

record role_row =
  ro_role :: string
  ro_description :: "string option"
  ro_assignable :: bool
  ro_locked :: bool

record assignment =
  ra_account :: internal
  ra_role :: string
  ra_activates_at :: int
  ra_expires_at :: "int option"

record did_permission =
  dp_role :: string
  dp_did_pattern :: string
  can_read :: bool
  can_write :: bool
  can_delete :: bool

record local_limit =
  ll_role :: string
  ll_rse_id :: string
  ll_bytes :: int

record global_limit =
  gl_role :: string
  gl_rse_expression :: string
  gl_bytes :: int

record rbac_db =
  accounts :: "internal list"
  roles :: "role_row list"
  account_role_map :: "assignment list"
  role_did_permission_map :: "did_permission list"
  role_local_limit_permission_map :: "local_limit list"
  role_global_limit_permission_map :: "global_limit list"

datatype role_constraint = ROLE_MAP_ACCOUNT_FK | ROLE_MAP_ROLE_FK | ROLE_MAP_PK | ROLE_MAP_EXPIRES_CHK
  | ROLE_PERMISSION_ROLE_FK

record rbac_env =
  str_to_date :: "string \<Rightarrow> date option"
  fromisoformat :: "string \<Rightarrow> date option"
  error_names :: "role_constraint list \<Rightarrow> role_constraint option"
    \<comment> \<open>which of the violated constraints the text of the error names, \<open>None\<close> when the database names none\<close>
  scope_length :: nat
  name_length :: nat
    \<comment> \<open>\<^verbatim>\<open>SCOPE_LENGTH\<close> and \<^verbatim>\<open>NAME_LENGTH\<close> of the configured schema\<close>
  rse_session :: session
    \<comment> \<open>the registry that RSE expressions are resolved against\<close>

definition ADMIN_ROLE :: string where
  "ADMIN_ROLE = ''admin''"

definition RESERVED_ROLES :: "(string \<times> string) list" where
  "RESERVED_ROLES = [(ADMIN_ROLE, ''Rucio administrator.'')]"

definition is_reserved_role :: "string \<Rightarrow> bool" where
  "is_reserved_role role \<longleftrightarrow> role \<in> set (map fst RESERVED_ROLES)"

section \<open>Helpers\<close>

fun normalize_description :: "py_value \<Rightarrow> role_error + string option" where
  "normalize_description VNone = Inr None"
| "normalize_description (VStr s) = Inr (if strip s = [] then None else Some (strip s))"
| "normalize_description _ = Inl RoleInputValidationError"

fun normalize_date :: "rbac_env \<Rightarrow> py_value \<Rightarrow> role_error + date option" where
  "normalize_date e VNone = Inr None"
| "normalize_date e (VDate d) = Inr (Some d)"
| "normalize_date e (VStr s) =
     (if strip s = [] then Inr None
      else case str_to_date e (strip s) of
             Some d \<Rightarrow> Inr (Some d)
           | None \<Rightarrow> (case fromisoformat e (strip s) of Some d \<Rightarrow> Inr (Some d) | None \<Rightarrow> Inl RoleInputValidationError))"
| "normalize_date e _ = Inl RoleInputValidationError"

definition ensure_expires_after_activation :: "date \<Rightarrow> date option \<Rightarrow> role_error + unit" where
  "ensure_expires_after_activation activates_at expires_at =
     (case expires_at of
        None \<Rightarrow> Inr ()
      | Some x \<Rightarrow> rbind (date_le x activates_at) (\<lambda>b. if b then Inl RoleInputValidationError else Inr ()))"

definition assignment_active :: "int \<Rightarrow> assignment \<Rightarrow> bool" where
  "assignment_active now a \<longleftrightarrow>
     ra_activates_at a \<le> now \<and> (case ra_expires_at a of None \<Rightarrow> True | Some x \<Rightarrow> now < x)"

definition find_role :: "rbac_db \<Rightarrow> string \<Rightarrow> role_row option" where
  "find_role d role = find (\<lambda>r. ro_role r = role) (roles d)"

definition ensure_role_exists :: "rbac_db \<Rightarrow> string \<Rightarrow> role_error + unit" where
  "ensure_role_exists d role = (if find_role d role = None then Inl RoleNotFound else Inr ())"

definition ensure_account_exists :: "rbac_db \<Rightarrow> internal \<Rightarrow> role_error + unit" where
  "ensure_account_exists d account = (if account \<in> set (accounts d) then Inr () else Inl RoleAccountNotFound)"

definition ensure_unlocked :: "rbac_db \<Rightarrow> string \<Rightarrow> bool \<Rightarrow> role_error + unit" where
  "ensure_unlocked d role force =
     (if force then Inr ()
      else case find_role d role of
             None \<Rightarrow> Inr ()
           | Some r \<Rightarrow> if ro_locked r then Inl RoleLocked else Inr ())"

definition role_not_assignable :: "rbac_db \<Rightarrow> string \<Rightarrow> bool" where
  "role_not_assignable d role \<longleftrightarrow> (case find_role d role of None \<Rightarrow> False | Some r \<Rightarrow> \<not> ro_assignable r)"

section \<open>Roles\<close>

text \<open>The listings are ordered by the database; each row comes with whether the role is reserved.\<close>

definition list_roles :: "rbac_db \<Rightarrow> (role_row \<times> bool) list" where
  "list_roles d = map (\<lambda>r. (r, is_reserved_role (ro_role r))) (sort_key ro_role (roles d))"

definition add_role :: "string \<Rightarrow> py_value \<Rightarrow> bool \<Rightarrow> bool \<Rightarrow> rbac_db \<Rightarrow> role_error + rbac_db" where
  "add_role role description assignable locked d =
     (if is_reserved_role role then Inl RoleReserved
      else rbind (normalize_description description) (\<lambda>t.
        if role \<in> set (map ro_role (roles d)) then Inl RoleDuplicate
        else Inr (d\<lparr>roles := roles d @ [\<lparr>ro_role = role, ro_description = t, ro_assignable = assignable, ro_locked = locked\<rparr>]\<rparr>)))"

text \<open>Only the arguments that are given (not \<open>VNone\<close>, not \<open>None\<close>) change the role.\<close>

definition update_role ::
  "string \<Rightarrow> py_value \<Rightarrow> bool option \<Rightarrow> bool option \<Rightarrow> bool \<Rightarrow> rbac_db \<Rightarrow> role_error + role_row \<times> rbac_db" where
  "update_role role description assignable locked force d =
     (case find_role d role of
        None \<Rightarrow> Inl RoleNotFound
      | Some r \<Rightarrow>
          rbind (if is_reserved_role role then
                   (if description \<noteq> VNone \<or> locked \<noteq> None then Inl RoleReserved else Inr ())
                 else if description \<noteq> VNone \<or> assignable \<noteq> None then ensure_unlocked d role force
                 else Inr ()) (\<lambda>_.
          rbind (if description \<noteq> VNone then normalize_description description else Inr (ro_description r)) (\<lambda>t.
            let r' = r\<lparr>ro_description := t,
                       ro_assignable := (case assignable of Some b \<Rightarrow> b | None \<Rightarrow> ro_assignable r),
                       ro_locked := (case locked of Some b \<Rightarrow> b | None \<Rightarrow> ro_locked r)\<rparr>
            in Inr (r', d\<lparr>roles := upd_where (\<lambda>x. ro_role x = role) (\<lambda>_. r') (roles d)\<rparr>))))"

text \<open>Deleting a row of \<^verbatim>\<open>roles\<close> deletes the permissions of the role with it (\<^verbatim>\<open>ON DELETE CASCADE\<close>).\<close>

definition delete_role_row :: "string \<Rightarrow> rbac_db \<Rightarrow> rbac_db" where
  "delete_role_row role d =
     d\<lparr>roles := filter (\<lambda>r. ro_role r \<noteq> role) (roles d),
       role_did_permission_map := filter (\<lambda>p. dp_role p \<noteq> role) (role_did_permission_map d),
       role_local_limit_permission_map := filter (\<lambda>l. ll_role l \<noteq> role) (role_local_limit_permission_map d),
       role_global_limit_permission_map := filter (\<lambda>l. gl_role l \<noteq> role) (role_global_limit_permission_map d)\<rparr>"

definition remove_accounts_from_role :: "string \<Rightarrow> rbac_db \<Rightarrow> nat \<times> rbac_db" where
  "remove_accounts_from_role role d =
     (count_where (\<lambda>a. ra_role a = role) (account_role_map d),
      delete_role_row role (d\<lparr>account_role_map := filter (\<lambda>a. ra_role a \<noteq> role) (account_role_map d)\<rparr>))"

definition delete_role :: "string \<Rightarrow> bool \<Rightarrow> rbac_db \<Rightarrow> role_error + rbac_db" where
  "delete_role role force d =
     (if find_role d role = None then Inl RoleNotFound
      else if is_reserved_role role then Inl RoleReserved
      else rbind (ensure_unlocked d role force) (\<lambda>_.
        if force then Inr (snd (remove_accounts_from_role role d))
        else if \<exists>a \<in> set (account_role_map d). ra_role a = role then Inl RoleInUse
        else Inr (delete_role_row role d)))"

definition setup_reserved_roles :: "rbac_db \<Rightarrow> string list \<times> rbac_db" where
  "setup_reserved_roles d =
     (let missing = filter (\<lambda>(role, _). role \<notin> set (map ro_role (roles d))) (sort_key fst RESERVED_ROLES)
      in (map fst missing,
          d\<lparr>roles := roles d @ map (\<lambda>(role, description).
             \<lparr>ro_role = role, ro_description = Some description, ro_assignable = False, ro_locked = True\<rparr>) missing\<rparr>))"

section \<open>Assignments\<close>

definition assignment_key :: "assignment \<Rightarrow> internal \<times> string" where
  "assignment_key a = (ra_account a, ra_role a)"

definition find_assignment :: "rbac_db \<Rightarrow> internal \<Rightarrow> string \<Rightarrow> assignment option" where
  "find_assignment d account role = find (\<lambda>a. assignment_key a = (account, role)) (account_role_map d)"

text \<open>The rows of an account joined with their role, in the order of the roles, and those of a role.\<close>

definition list_account_roles :: "rbac_db \<Rightarrow> internal \<Rightarrow> (assignment \<times> string option \<times> bool) list" where
  "list_account_roles d account =
     [(a, ro_description r, is_reserved_role (ra_role a)).
        a \<leftarrow> sort_key ra_role (filter (\<lambda>a. ra_account a = account) (account_role_map d)),
        r \<leftarrow> roles d, ro_role r = ra_role a]"

definition list_role_accounts :: "rbac_db \<Rightarrow> string \<Rightarrow> role_error + assignment list" where
  "list_role_accounts d role =
     rbind (ensure_role_exists d role) (\<lambda>_.
       Inr (sort_key ra_account (filter (\<lambda>a. ra_role a = role) (account_role_map d))))"

definition has_account_valid_role :: "int \<Rightarrow> rbac_db \<Rightarrow> internal \<Rightarrow> string \<Rightarrow> bool" where
  "has_account_valid_role now d account role \<longleftrightarrow>
     (\<exists>a \<in> set (account_role_map d). ra_account a = account \<and> ra_role a = role \<and> assignment_active now a)"

definition has_admin_role :: "int \<Rightarrow> rbac_db \<Rightarrow> internal \<Rightarrow> bool" where
  "has_admin_role now d account \<longleftrightarrow> has_account_valid_role now d account ADMIN_ROLE"

text \<open>The constraints of \<^verbatim>\<open>account_role_map\<close> that a new row violates.\<close>

definition assignment_violates :: "rbac_db \<Rightarrow> assignment \<Rightarrow> role_constraint list" where
  "assignment_violates d a =
     (if ra_account a \<in> set (accounts d) then [] else [ROLE_MAP_ACCOUNT_FK]) @
     (if ra_role a \<in> set (map ro_role (roles d)) then [] else [ROLE_MAP_ROLE_FK]) @
     (if assignment_key a \<in> set (map assignment_key (account_role_map d)) then [ROLE_MAP_PK] else []) @
     (case ra_expires_at a of None \<Rightarrow> [] | Some x \<Rightarrow> if ra_activates_at a < x then [] else [ROLE_MAP_EXPIRES_CHK])"

definition add_account_role ::
  "rbac_env \<Rightarrow> int \<Rightarrow> internal \<Rightarrow> string \<Rightarrow> py_value \<Rightarrow> bool \<Rightarrow> py_value \<Rightarrow> rbac_db \<Rightarrow> role_error + rbac_db" where
  "add_account_role e now account role expires_at force activates_at d =
     (if \<not> force \<and> role_not_assignable d role then Inl RoleAssignmentDisabled
      else rbind (normalize_date e expires_at) (\<lambda>x.
           rbind (normalize_date e activates_at) (\<lambda>y.
             let act = (case y of Some t \<Rightarrow> t | None \<Rightarrow> Naive now) in
           rbind (ensure_expires_after_activation act x) (\<lambda>_.
             let a = \<lparr>ra_account = account, ra_role = role, ra_activates_at = date_stored act,
                      ra_expires_at = map_option date_stored x\<rparr>;
                 violated = assignment_violates d a
             in if violated = [] then Inr (d\<lparr>account_role_map := account_role_map d @ [a]\<rparr>)
                else Inl (case error_names e violated of
                            Some ROLE_MAP_ACCOUNT_FK \<Rightarrow> RoleAccountNotFound
                          | Some ROLE_MAP_ROLE_FK \<Rightarrow> RoleNotFound
                          | _ \<Rightarrow> RoleDuplicate)))))"

definition delete_assignment :: "internal \<Rightarrow> string \<Rightarrow> rbac_db \<Rightarrow> rbac_db" where
  "delete_assignment account role d =
     d\<lparr>account_role_map := filter (\<lambda>a. assignment_key a \<noteq> (account, role)) (account_role_map d)\<rparr>"

definition delete_account_role :: "internal \<Rightarrow> string \<Rightarrow> bool \<Rightarrow> rbac_db \<Rightarrow> role_error + rbac_db" where
  "delete_account_role account role force d =
     (if find_assignment d account role = None then Inl RoleAssignmentNotFound
      else if \<not> force \<and> role_not_assignable d role then Inl RoleAssignmentDisabled
      else Inr (delete_assignment account role d))"

text \<open>\<open>None\<close> is \<^verbatim>\<open>KEEP\<close>. The dates are checked as they were given; the check of the database, on the dates as
  they are stored, raises an error that is not caught.\<close>

definition set_account_role_dates ::
  "rbac_env \<Rightarrow> int \<Rightarrow> internal \<Rightarrow> string \<Rightarrow> py_value option \<Rightarrow> py_value option \<Rightarrow> rbac_db
     \<Rightarrow> role_error + (date \<times> date option) \<times> rbac_db" where
  "set_account_role_dates e now account role activates_at expires_at d =
     (case find_assignment d account role of
        None \<Rightarrow> Inl RoleAssignmentNotFound
      | Some a \<Rightarrow>
          rbind (case activates_at of
                   None \<Rightarrow> Inr (Naive (ra_activates_at a))
                 | Some v \<Rightarrow> rbind (normalize_date e v) (\<lambda>y. Inr (case y of Some t \<Rightarrow> t | None \<Rightarrow> Naive now))) (\<lambda>act.
          rbind (case expires_at of
                   None \<Rightarrow> Inr (map_option Naive (ra_expires_at a))
                 | Some v \<Rightarrow> normalize_date e v) (\<lambda>ex.
          rbind (ensure_expires_after_activation act ex) (\<lambda>_.
            if (case ex of None \<Rightarrow> True | Some x \<Rightarrow> date_stored act < date_stored x) then
              Inr ((act, ex),
                   d\<lparr>account_role_map := upd_where (\<lambda>b. assignment_key b = (account, role))
                      (\<lambda>b. b\<lparr>ra_activates_at := date_stored act, ra_expires_at := map_option date_stored ex\<rparr>)
                      (account_role_map d)\<rparr>)
            else Inl RoleIntegrityError))))"

definition set_account_role_expires_at ::
  "rbac_env \<Rightarrow> int \<Rightarrow> internal \<Rightarrow> string \<Rightarrow> py_value \<Rightarrow> rbac_db \<Rightarrow> role_error + date option \<times> rbac_db" where
  "set_account_role_expires_at e now account role expires_at d =
     rbind (set_account_role_dates e now account role None (Some expires_at) d) (\<lambda>((_, x), d'). Inr (x, d'))"

definition set_account_role_activates_at ::
  "rbac_env \<Rightarrow> int \<Rightarrow> internal \<Rightarrow> string \<Rightarrow> py_value \<Rightarrow> rbac_db \<Rightarrow> role_error + date \<times> rbac_db" where
  "set_account_role_activates_at e now account role activates_at d =
     rbind (set_account_role_dates e now account role (Some activates_at) None d) (\<lambda>((t, _), d'). Inr (t, d'))"

section \<open>Cleaning\<close>

definition assignment_expired :: "int \<Rightarrow> assignment \<Rightarrow> bool" where
  "assignment_expired now a \<longleftrightarrow> (case ra_expires_at a of None \<Rightarrow> False | Some x \<Rightarrow> x < now)"

text \<open>The report lists the removed rows.\<close>

definition clean_expired_account_roles :: "int \<Rightarrow> string \<Rightarrow> bool \<Rightarrow> rbac_db \<Rightarrow> assignment list \<times> rbac_db" where
  "clean_expired_account_roles now vo dry_run d =
     (let expired = filter (\<lambda>a. i_vo (ra_account a) = vo)
                      (sort_key assignment_key (filter (assignment_expired now) (account_role_map d)))
      in (expired, if dry_run then d else fold (\<lambda>a. delete_assignment (ra_account a) (ra_role a)) expired d))"

end
