(* ===== verification/Role_Permissions.thy ===== *)
theory Role_Permissions
  imports Roles
begin

text \<open>
  The permissions of roles, from \<^verbatim>\<open>core/role.py\<close>: DID patterns, the handlers of the two permission types (operations
  on DIDs and limits on RSEs), granting and removing permissions, and the check of a request.

  A handler is a group of definitions, one per method. The parameters of a permission are the dictionary that
  the caller gives, a list of keys and values; an unknown permission type, key or value is refused as in the
  code. Functions that resolve an RSE expression return an option, because the parser is a
  partial function; it is total on every string that passes its own check.
\<close>

section \<open>DID patterns\<close>

definition DID_WILDCARD :: char where
  "DID_WILDCARD = CHR ''*''"

definition DID_SEPARATOR :: char where
  "DID_SEPARATOR = CHR '':''"

text \<open>\<^verbatim>\<open>p.partition(':')\<close>: what precedes the first separator, whether there is one, and what follows it.\<close>

definition did_partition :: "string \<Rightarrow> string \<times> bool \<times> string" where
  "did_partition p =
     (case dropWhile (\<lambda>c. c \<noteq> DID_SEPARATOR) p of
        [] \<Rightarrow> (p, False, [])
      | _ # r \<Rightarrow> (takeWhile (\<lambda>c. c \<noteq> DID_SEPARATOR) p, True, r))"

definition ends_with_wildcard :: "string \<Rightarrow> bool" where
  "ends_with_wildcard p \<longleftrightarrow> p \<noteq> [] \<and> last p = DID_WILDCARD"

definition bad_part :: "string \<Rightarrow> bool" where
  "bad_part p \<longleftrightarrow> count_list p DID_WILDCARD > 1 \<or> DID_WILDCARD \<in> set p \<and> \<not> ends_with_wildcard p"

fun validate_did_pattern :: "rbac_env \<Rightarrow> py_value \<Rightarrow> role_error + string" where
  "validate_did_pattern e (VStr s) =
     (let did_pattern = strip s in
      if did_pattern = [] then Inl RoleInputValidationError
      else
        (let (scope_pattern, separator, n) = did_partition did_pattern;
             name_pattern = (if separator then n else [DID_WILDCARD])
         in if scope_pattern = [] \<or> name_pattern = [] \<or> DID_SEPARATOR \<in> set name_pattern then Inl RoleInputValidationError
            else if bad_part scope_pattern \<or> bad_part name_pattern then Inl RoleInputValidationError
            else if DID_WILDCARD \<in> set scope_pattern \<and> name_pattern \<noteq> [DID_WILDCARD] then Inl RoleInputValidationError
            else if length scope_pattern > scope_length e \<or> length name_pattern > name_length e
            then Inl RoleInputValidationError
            else Inr (scope_pattern @ DID_SEPARATOR # name_pattern)))"
| "validate_did_pattern e _ = Inl RoleInputValidationError"

definition prefix_pattern_matches :: "string \<Rightarrow> string \<Rightarrow> bool" where
  "prefix_pattern_matches v pattern \<longleftrightarrow>
     (if ends_with_wildcard pattern then take (length pattern - 1) v = butlast pattern else v = pattern)"

definition did_pattern_matches :: "internal \<Rightarrow> string option \<Rightarrow> string \<Rightarrow> bool" where
  "did_pattern_matches scope name did_pattern \<longleftrightarrow>
     (let external = i_external scope; (scope_pattern, _, name_pattern) = did_partition did_pattern
      in if name_pattern = [DID_WILDCARD] then prefix_pattern_matches external scope_pattern
         else (case name of None \<Rightarrow> False | Some n \<Rightarrow> external = scope_pattern \<and> prefix_pattern_matches n name_pattern))"

section \<open>Operations on DIDs\<close>

definition op_value :: "did_operation \<Rightarrow> string" where
  "op_value op = (case op of READ \<Rightarrow> ''read'' | WRITE \<Rightarrow> ''write'' | DELETE \<Rightarrow> ''delete'')"

definition grants_op :: "did_operation \<Rightarrow> did_permission \<Rightarrow> bool" where
  "grants_op op p = (case op of READ \<Rightarrow> can_read p | WRITE \<Rightarrow> can_write p | DELETE \<Rightarrow> can_delete p)"

definition set_op :: "did_operation \<Rightarrow> bool \<Rightarrow> did_permission \<Rightarrow> did_permission" where
  "set_op op b p = (case op of READ \<Rightarrow> p\<lparr>can_read := b\<rparr> | WRITE \<Rightarrow> p\<lparr>can_write := b\<rparr> | DELETE \<Rightarrow> p\<lparr>can_delete := b\<rparr>)"

fun normalize_operation :: "py_value \<Rightarrow> role_error + did_operation" where
  "normalize_operation (VOperation op) = Inr op"
| "normalize_operation (VStr s) =
     (case find (\<lambda>op. op_value op = s) [READ, WRITE, DELETE] of Some op \<Rightarrow> Inr op | None \<Rightarrow> Inl RoleInputValidationError)"
| "normalize_operation _ = Inl RoleInputValidationError"

type_synonym parameters = "(string \<times> py_value) list"

definition did_parameters :: "parameters \<Rightarrow> role_error + did_operation" where
  "did_parameters ps =
     (if \<not> set (map fst ps) \<subseteq> {''operation''} then Inl RoleInputValidationError
      else case map_of ps ''operation'' of
             None \<Rightarrow> Inl RoleInputValidationError
           | Some VNone \<Rightarrow> Inl RoleInputValidationError
           | Some v \<Rightarrow> normalize_operation v)"

definition did_key :: "did_permission \<Rightarrow> string \<times> string" where
  "did_key p = (dp_role p, dp_did_pattern p)"

definition permission_row :: "rbac_db \<Rightarrow> string \<Rightarrow> string \<Rightarrow> did_permission option" where
  "permission_row d role target = find (\<lambda>p. did_key p = (role, target)) (role_did_permission_map d)"

text \<open>The error that a new permission of a missing role gives.\<close>

definition missing_role_error :: "rbac_env \<Rightarrow> role_error" where
  "missing_role_error e = (if error_names e [ROLE_PERMISSION_ROLE_FK] = Some ROLE_PERMISSION_ROLE_FK then RoleNotFound else RoleDuplicate)"

definition did_add :: "rbac_env \<Rightarrow> string \<Rightarrow> string \<Rightarrow> did_operation \<Rightarrow> rbac_db \<Rightarrow> role_error + rbac_db" where
  "did_add e role target op d =
     (case permission_row d role target of
        None \<Rightarrow>
          if role \<in> set (map ro_role (roles d)) then
            Inr (d\<lparr>role_did_permission_map := role_did_permission_map d @
                    [set_op op True \<lparr>dp_role = role, dp_did_pattern = target, can_read = False, can_write = False, can_delete = False\<rparr>]\<rparr>)
          else Inl (missing_role_error e)
      | Some p \<Rightarrow>
          if grants_op op p then Inl RoleDuplicate
          else Inr (d\<lparr>role_did_permission_map :=
                       upd_where (\<lambda>q. did_key q = (role, target)) (set_op op True) (role_did_permission_map d)\<rparr>))"

definition did_remove :: "string \<Rightarrow> string \<Rightarrow> did_operation \<Rightarrow> rbac_db \<Rightarrow> nat \<times> rbac_db" where
  "did_remove role target op d =
     (case permission_row d role target of
        None \<Rightarrow> (0, d)
      | Some p \<Rightarrow>
          if \<not> grants_op op p then (0, d)
          else if \<exists>other \<in> {READ, WRITE, DELETE}. grants_op other (set_op op False p)
          then (1, d\<lparr>role_did_permission_map :=
                      upd_where (\<lambda>q. did_key q = (role, target)) (set_op op False) (role_did_permission_map d)\<rparr>)
          else (1, d\<lparr>role_did_permission_map := filter (\<lambda>q. did_key q \<noteq> (role, target)) (role_did_permission_map d)\<rparr>))"

definition granted_targets :: "int \<Rightarrow> rbac_db \<Rightarrow> internal \<Rightarrow> did_operation \<Rightarrow> string list" where
  "granted_targets now d account op =
     [dp_did_pattern p. a \<leftarrow> account_role_map d, ra_account a = account \<and> assignment_active now a,
                        p \<leftarrow> role_did_permission_map d, dp_role p = ra_role a \<and> grants_op op p]"

section \<open>Limits on RSEs\<close>

datatype locality = LOCAL | GLOBAL

definition RSE_EXPRESSION_LENGTH :: nat where
  "RSE_EXPRESSION_LENGTH = 3000"

definition ROLE_QUOTA_NOCAP :: int where
  "ROLE_QUOTA_NOCAP = -1"

fun validate_rse_expression :: "rbac_env \<Rightarrow> py_value \<Rightarrow> (role_error + string) option" where
  "validate_rse_expression e (VStr s) =
     (let x = strip s in
      if x = [] \<or> length x > RSE_EXPRESSION_LENGTH then Some (Inl RoleInputValidationError)
      else case parse_expression (rse_session e) None x None of
             None \<Rightarrow> None
           | Some (Inl (InvalidRSEExpression m)) \<Rightarrow> Some (if m = ''empty'' then Inr x else Inl RoleInputValidationError)
           | Some (Inl err) \<Rightarrow> Some (Inl (RoleExpressionError err))
           | Some (Inr _) \<Rightarrow> Some (Inr x))"
| "validate_rse_expression e _ = Some (Inl RoleInputValidationError)"

definition resolve_rse_ids :: "rbac_env \<Rightarrow> string \<Rightarrow> (role_error + string list) option" where
  "resolve_rse_ids e x =
     (case parse_expression (rse_session e) None x None of
        None \<Rightarrow> None
      | Some (Inl (InvalidRSEExpression _)) \<Rightarrow> Some (Inr [])
      | Some (Inl err) \<Rightarrow> Some (Inl (RoleExpressionError err))
      | Some (Inr rows) \<Rightarrow> Some (Inr (remdups (map rse_id rows))))"

fun normalize_bytes :: "py_value \<Rightarrow> role_error + int" where
  "normalize_bytes (VInt n) = (if n < 0 \<and> n \<noteq> ROLE_QUOTA_NOCAP then Inl RoleInputValidationError else Inr n)"
| "normalize_bytes _ = Inl RoleInputValidationError"

definition limit_add_parameters :: "parameters \<Rightarrow> role_error + locality \<times> int" where
  "limit_add_parameters ps =
     (case ps of
        [(k, v)] \<Rightarrow>
          if k = ''local'' then rbind (normalize_bytes v) (\<lambda>n. Inr (LOCAL, n))
          else if k = ''global'' then rbind (normalize_bytes v) (\<lambda>n. Inr (GLOBAL, n))
          else Inl RoleInputValidationError
      | _ \<Rightarrow> Inl RoleInputValidationError)"

text \<open>The localities to remove, each with whether it was asked for explicitly.\<close>

definition limit_remove_parameters :: "parameters \<Rightarrow> role_error + (locality \<times> bool) list" where
  "limit_remove_parameters ps =
     (if \<not> set (map fst ps) \<subseteq> {''local'', ''global''} then Inl RoleInputValidationError
      else if \<not> (\<forall>v \<in> set (map snd ps). v \<in> {VBool True, VBool False}) then Inl RoleInputValidationError
      else if ps \<noteq> [] \<and> VBool True \<notin> set (map snd ps) then Inl RoleInputValidationError
      else Inr (if ps = [] then [(LOCAL, False), (GLOBAL, False)]
                else (if map_of ps ''local'' = Some (VBool True) then [(LOCAL, True)] else []) @
                     (if map_of ps ''global'' = Some (VBool True) then [(GLOBAL, True)] else [])))"

definition ll_key :: "local_limit \<Rightarrow> string \<times> string" where
  "ll_key l = (ll_role l, ll_rse_id l)"

definition gl_key :: "global_limit \<Rightarrow> string \<times> string" where
  "gl_key l = (gl_role l, gl_rse_expression l)"

text \<open>\<^verbatim>\<open>session.merge\<close>: update the row with the key or insert one.\<close>

definition merge_row :: "('r \<Rightarrow> 'k) \<Rightarrow> 'r \<Rightarrow> 'r list \<Rightarrow> 'r list" where
  "merge_row key r rows =
     (if key r \<in> set (map key rows) then upd_where (\<lambda>x. key x = key r) (\<lambda>_. r) rows else rows @ [r])"

definition limit_add :: "rbac_env \<Rightarrow> string \<Rightarrow> string \<Rightarrow> locality \<times> int \<Rightarrow> rbac_db \<Rightarrow> (role_error + rbac_db) option" where
  "limit_add e role target ps d =
     map_option (\<lambda>r. rbind r (\<lambda>rse_ids.
       (case ps of
          (LOCAL, n) \<Rightarrow>
            (case rse_ids of
               [rse] \<Rightarrow>
                 if role \<in> set (map ro_role (roles d)) then
                   Inr (d\<lparr>role_local_limit_permission_map := merge_row ll_key \<lparr>ll_role = role, ll_rse_id = rse, ll_bytes = n\<rparr>
                           (role_local_limit_permission_map d)\<rparr>)
                 else Inl (missing_role_error e)
             | _ \<Rightarrow> Inl RoleInputValidationError)
        | (GLOBAL, n) \<Rightarrow>
            if length rse_ids < 2 then Inl RoleInputValidationError
            else if role \<in> set (map ro_role (roles d)) then
              Inr (d\<lparr>role_global_limit_permission_map := merge_row gl_key \<lparr>gl_role = role, gl_rse_expression = target, gl_bytes = n\<rparr>
                      (role_global_limit_permission_map d)\<rparr>)
            else Inl (missing_role_error e))))
       (resolve_rse_ids e target)"

definition remove_local :: "string \<Rightarrow> string \<Rightarrow> rbac_db \<Rightarrow> nat \<times> rbac_db" where
  "remove_local role rse d =
     (count_where (\<lambda>l. ll_key l = (role, rse)) (role_local_limit_permission_map d),
      d\<lparr>role_local_limit_permission_map := filter (\<lambda>l. ll_key l \<noteq> (role, rse)) (role_local_limit_permission_map d)\<rparr>)"

definition remove_global :: "string \<Rightarrow> string \<Rightarrow> rbac_db \<Rightarrow> nat \<times> rbac_db" where
  "remove_global role target d =
     (count_where (\<lambda>l. gl_key l = (role, target)) (role_global_limit_permission_map d),
      d\<lparr>role_global_limit_permission_map := filter (\<lambda>l. gl_key l \<noteq> (role, target)) (role_global_limit_permission_map d)\<rparr>)"

definition limit_remove ::
  "rbac_env \<Rightarrow> string \<Rightarrow> string \<Rightarrow> (locality \<times> bool) list \<Rightarrow> rbac_db \<Rightarrow> (role_error + nat \<times> rbac_db) option" where
  "limit_remove e role target ps d =
     map_option (\<lambda>r. rbind r (\<lambda>(n, d1).
         if GLOBAL \<in> set (map fst ps) then (let (m, d2) = remove_global role target d1 in Inr (n + m, d2)) else Inr (n, d1)))
       (case map_of ps LOCAL of
          None \<Rightarrow> Some (Inr (0, d))
        | Some asked \<Rightarrow> map_option (\<lambda>r. rbind r (\<lambda>rse_ids.
            case rse_ids of [rse] \<Rightarrow> Inr (remove_local role rse d)
                          | _ \<Rightarrow> if asked then Inl RoleInputValidationError else Inr (0, d))) (resolve_rse_ids e target))"

section \<open>Permissions of a role\<close>

datatype permission_type = PermissionDID | PermissionLIMIT

fun permission_handler :: "py_value \<Rightarrow> role_error + permission_type" where
  "permission_handler (VStr s) =
     (if s = ''did'' then Inr PermissionDID else if s = ''limit'' then Inr PermissionLIMIT else Inl RoleInputValidationError)"
| "permission_handler _ = Inl RoleInputValidationError"

definition target_attribute :: "permission_type \<Rightarrow> string" where
  "target_attribute t = (case t of PermissionDID \<Rightarrow> ''did_pattern'' | PermissionLIMIT \<Rightarrow> ''rse_expression'')"

definition split_target :: "permission_type \<Rightarrow> parameters \<Rightarrow> role_error + py_value \<times> parameters" where
  "split_target t ps =
     (case map_of ps (target_attribute t) of
        None \<Rightarrow> Inl RoleInputValidationError
      | Some v \<Rightarrow> Inr (v, filter (\<lambda>(k, _). k \<noteq> target_attribute t) ps))"

text \<open>A sequence of two steps that may fail, where the second may also not return.\<close>

definition obind :: "'e + 'a \<Rightarrow> ('a \<Rightarrow> ('e + 'b) option) \<Rightarrow> ('e + 'b) option" where
  "obind r f = (case r of Inl err \<Rightarrow> Some (Inl err) | Inr x \<Rightarrow> f x)"

lemma obind_eq_Inr: "obind r f = Some (Inr y) \<longleftrightarrow> (\<exists>x. r = Inr x \<and> f x = Some (Inr y))"
  by (cases r) (simp_all add: obind_def)

definition reserved_or_locked :: "rbac_db \<Rightarrow> string \<Rightarrow> bool \<Rightarrow> role_error + unit" where
  "reserved_or_locked d role force = (if is_reserved_role role then Inl RoleReserved else ensure_unlocked d role force)"

definition add_role_permission ::
  "rbac_env \<Rightarrow> string \<Rightarrow> py_value \<Rightarrow> parameters \<Rightarrow> bool \<Rightarrow> rbac_db \<Rightarrow> (role_error + rbac_db) option" where
  "add_role_permission e role ptype ps force d =
     obind (permission_handler ptype) (\<lambda>t.
     obind (split_target t ps) (\<lambda>(v, rest).
       case t of
         PermissionDID \<Rightarrow>
           Some (rbind (validate_did_pattern e v) (\<lambda>target.
                 rbind (did_parameters rest) (\<lambda>op.
                 rbind (reserved_or_locked d role force) (\<lambda>_. did_add e role target op d))))
       | PermissionLIMIT \<Rightarrow>
           Option.bind (validate_rse_expression e v) (\<lambda>x.
           obind x (\<lambda>target.
           obind (limit_add_parameters rest) (\<lambda>params.
           obind (reserved_or_locked d role force) (\<lambda>_. limit_add e role target params d))))))"

definition removed_or_error :: "nat \<times> rbac_db \<Rightarrow> role_error + nat \<times> rbac_db" where
  "removed_or_error = (\<lambda>(n, d). if n = 0 then Inl RolePermissionNotFound else Inr (n, d))"

definition delete_role_permission ::
  "rbac_env \<Rightarrow> string \<Rightarrow> py_value \<Rightarrow> parameters \<Rightarrow> bool \<Rightarrow> rbac_db \<Rightarrow> (role_error + nat \<times> rbac_db) option" where
  "delete_role_permission e role ptype ps force d =
     obind (permission_handler ptype) (\<lambda>t.
     obind (split_target t ps) (\<lambda>(v, rest).
       case t of
         PermissionDID \<Rightarrow>
           Some (rbind (validate_did_pattern e v) (\<lambda>target.
                 rbind (did_parameters rest) (\<lambda>op.
                 rbind (reserved_or_locked d role force) (\<lambda>_. removed_or_error (did_remove role target op d)))))
       | PermissionLIMIT \<Rightarrow>
           Option.bind (validate_rse_expression e v) (\<lambda>x.
           obind x (\<lambda>target.
           obind (limit_remove_parameters rest) (\<lambda>params.
           obind (reserved_or_locked d role force) (\<lambda>_.
             map_option (\<lambda>r. rbind r removed_or_error) (limit_remove e role target params d)))))))"

text \<open>A listed permission: its target with an operation, or with the bytes of a local or global limit.\<close>

datatype listed_permission =
    ListedDid string did_operation
  | ListedLimit string locality int

definition did_list_permissions :: "rbac_db \<Rightarrow> string \<Rightarrow> listed_permission list" where
  "did_list_permissions d role =
     [ListedDid (dp_did_pattern p) op.
        p \<leftarrow> sort_key dp_did_pattern (filter (\<lambda>p. dp_role p = role) (role_did_permission_map d)),
        op \<leftarrow> [READ, WRITE, DELETE], grants_op op p]"

definition limit_list_permissions :: "rbac_env \<Rightarrow> rbac_db \<Rightarrow> string \<Rightarrow> listed_permission list" where
  "limit_list_permissions e d role =
     sort_key (\<lambda>l. case l of ListedLimit x _ _ \<Rightarrow> x | ListedDid x _ \<Rightarrow> x)
       ([ListedLimit (rse_name r) LOCAL (ll_bytes l).
           l \<leftarrow> role_local_limit_permission_map d, r \<leftarrow> rses (db (rse_session e)), ll_role l = role \<and> rse_id r = ll_rse_id l] @
        [ListedLimit (gl_rse_expression l) GLOBAL (gl_bytes l). l \<leftarrow> role_global_limit_permission_map d, gl_role l = role])"

definition list_role_permissions :: "rbac_env \<Rightarrow> rbac_db \<Rightarrow> string \<Rightarrow> role_error + listed_permission list" where
  "list_role_permissions e d role =
     rbind (ensure_role_exists d role) (\<lambda>_. Inr (did_list_permissions d role @ limit_list_permissions e d role))"

section \<open>Checks\<close>

record did_request =
  dr_operation :: did_operation
  dr_scope :: internal
  dr_name :: "string option"

definition has_permission :: "int \<Rightarrow> rbac_db \<Rightarrow> internal \<Rightarrow> did_request \<Rightarrow> bool" where
  "has_permission now d account r \<longleftrightarrow>
     (\<exists>t \<in> set (granted_targets now d account (dr_operation r)). did_pattern_matches (dr_scope r) (dr_name r) t)"

definition has_any_scope_prefix_access :: "int \<Rightarrow> rbac_db \<Rightarrow> internal \<Rightarrow> internal \<Rightarrow> did_operation \<Rightarrow> bool" where
  "has_any_scope_prefix_access now d account scope op \<longleftrightarrow>
     (\<exists>t \<in> set (granted_targets now d account op). prefix_pattern_matches (i_external scope) (fst (did_partition t)))"

section \<open>The meaning of a DID pattern\<close>

text \<open>The four forms of a pattern, how each is stored, which ways to write it are accepted, and what it covers:
  a DID of a scope given by its external name, or the whole scope when there is no name.\<close>

datatype pattern =
    ScopePrefix string
  | WholeScope string
  | NamePrefix string string
  | ExactDid string string

fun show_pattern :: "pattern \<Rightarrow> string" where
  "show_pattern (ScopePrefix s) = s @ ''*:*''"
| "show_pattern (WholeScope s) = s @ '':*''"
| "show_pattern (NamePrefix s n) = s @ '':'' @ n @ ''*''"
| "show_pattern (ExactDid s n) = s @ '':'' @ n"

fun written_forms :: "pattern \<Rightarrow> string list" where
  "written_forms (ScopePrefix s) = [s @ ''*:*'', s @ ''*'']"
| "written_forms (WholeScope s) = [s @ '':*'', s]"
| "written_forms p = [show_pattern p]"

definition plain :: "string \<Rightarrow> bool" where
  "plain s \<longleftrightarrow> CHR '':'' \<notin> set s \<and> CHR ''*'' \<notin> set s"

fun parts_fit :: "rbac_env \<Rightarrow> pattern \<Rightarrow> bool" where
  "parts_fit e (ScopePrefix s) \<longleftrightarrow> plain s \<and> Suc (length s) \<le> scope_length e \<and> 1 \<le> name_length e"
| "parts_fit e (WholeScope s) \<longleftrightarrow> plain s \<and> s \<noteq> [] \<and> length s \<le> scope_length e \<and> 1 \<le> name_length e"
| "parts_fit e (NamePrefix s n) \<longleftrightarrow>
     plain s \<and> s \<noteq> [] \<and> plain n \<and> n \<noteq> [] \<and> length s \<le> scope_length e \<and> Suc (length n) \<le> name_length e"
| "parts_fit e (ExactDid s n) \<longleftrightarrow>
     plain s \<and> s \<noteq> [] \<and> plain n \<and> n \<noteq> [] \<and> length s \<le> scope_length e \<and> length n \<le> name_length e"

definition pattern_ok :: "rbac_env \<Rightarrow> pattern \<Rightarrow> bool" where
  "pattern_ok e p \<longleftrightarrow> parts_fit e p \<and> strip (show_pattern p) = show_pattern p"

fun covers :: "pattern \<Rightarrow> string \<Rightarrow> string option \<Rightarrow> bool" where
  "covers (ScopePrefix s) scope name \<longleftrightarrow> (\<exists>r. scope = s @ r)"
| "covers (WholeScope s) scope name \<longleftrightarrow> scope = s"
| "covers (NamePrefix s n) scope name \<longleftrightarrow> scope = s \<and> (\<exists>r. name = Some (n @ r))"
| "covers (ExactDid s n) scope name \<longleftrightarrow> scope = s \<and> name = Some n"

definition parts_ok :: "rbac_env \<Rightarrow> string \<Rightarrow> string \<Rightarrow> bool" where
  "parts_ok e sp np \<longleftrightarrow>
     sp \<noteq> [] \<and> np \<noteq> [] \<and> CHR '':'' \<notin> set np \<and> \<not> bad_part sp \<and> \<not> bad_part np \<and>
     (CHR ''*'' \<in> set sp \<longrightarrow> np = ''*'') \<and> length sp \<le> scope_length e \<and> length np \<le> name_length e"

lemma did_partition_sep [simp]: "CHR '':'' \<notin> set a \<Longrightarrow> did_partition (a @ CHR '':'' # b) = (a, True, b)"
  by (simp add: did_partition_def DID_SEPARATOR_def dropWhile_append1 takeWhile_append1
      dropWhile_append takeWhile_append)

lemma did_partition_plain [simp]: "CHR '':'' \<notin> set a \<Longrightarrow> did_partition a = (a, False, [])"
proof -
  assume "CHR '':'' \<notin> set a"
  then have "dropWhile (\<lambda>c. c \<noteq> DID_SEPARATOR) a = []" by (auto simp: DID_SEPARATOR_def dropWhile_eq_Nil_conv)
  then show ?thesis by (simp only: did_partition_def list.case)
qed

lemma colon_cases:
  obtains (plain) "CHR '':'' \<notin> set x" | (parts) a b where "x = a @ CHR '':'' # b" and "CHR '':'' \<notin> set a"
  by (metis split_list_first)

lemma not_bad_part: "\<not> bad_part p \<longleftrightarrow> CHR ''*'' \<notin> set p \<or> (\<exists>q. p = q @ ''*'' \<and> CHR ''*'' \<notin> set q)"
  by (cases p rule: rev_cases)
    (auto simp: bad_part_def ends_with_wildcard_def DID_WILDCARD_def count_list_0_iff)

lemma strip_fixed: "u \<noteq> [] \<Longrightarrow> \<not> is_space (hd u) \<Longrightarrow> \<not> is_space (last u) \<Longrightarrow> strip u = u"
proof -
  assume "u \<noteq> []" and "\<not> is_space (hd u)" and "\<not> is_space (last u)"
  then have "dropWhile is_space u = u" and "rev (dropWhile is_space (rev u)) = u"
    by (simp add: dropWhile_eq_self_iff, blast intro: rev_dropWhile_fixed)
  then show ?thesis by (simp only: strip_def)
qed

lemma validate_sep:
  "strip s = a @ CHR '':'' # b \<Longrightarrow> CHR '':'' \<notin> set a \<Longrightarrow>
     validate_did_pattern e (VStr s) = (if parts_ok e a b then Inr (a @ CHR '':'' # b) else Inl RoleInputValidationError)"
  by (simp add: parts_ok_def DID_SEPARATOR_def DID_WILDCARD_def not_less)

lemma validate_plain:
  "CHR '':'' \<notin> set (strip s) \<Longrightarrow>
     validate_did_pattern e (VStr s) = (if parts_ok e (strip s) ''*'' then Inr (strip s @ '':*'') else Inl RoleInputValidationError)"
  by (auto simp: parts_ok_def DID_SEPARATOR_def DID_WILDCARD_def not_less Let_def)

lemma separator_inject:
  "x @ CHR '':'' # y = a @ CHR '':'' # b \<Longrightarrow> CHR '':'' \<notin> set x \<Longrightarrow> CHR '':'' \<notin> set a \<Longrightarrow> x = a \<and> y = b"
  by (metis did_partition_sep prod.inject)

lemma parts_ok_pattern:
  assumes "CHR '':'' \<notin> set a"
  shows "parts_ok e a b \<longleftrightarrow> (\<exists>p. parts_fit e p \<and> show_pattern p = a @ CHR '':'' # b)"
proof
  assume ok: "parts_ok e a b"
  then consider (sp) q where "a = q @ ''*''" "CHR ''*'' \<notin> set q" "b = ''*''"
    | (ws) "CHR ''*'' \<notin> set a" "b = ''*''"
    | (np) q where "CHR ''*'' \<notin> set a" "b = q @ ''*''" "CHR ''*'' \<notin> set q" "q \<noteq> []"
    | (ex) "CHR ''*'' \<notin> set a" "CHR ''*'' \<notin> set b"
    unfolding parts_ok_def not_bad_part by (metis append_Nil in_set_conv_decomp)
  then show "\<exists>p. parts_fit e p \<and> show_pattern p = a @ CHR '':'' # b"
  proof cases
    case sp
    then have "parts_fit e (ScopePrefix q) \<and> show_pattern (ScopePrefix q) = a @ CHR '':'' # b"
      using ok assms by (auto simp: parts_ok_def plain_def)
    then show ?thesis by blast
  next
    case ws
    then have "parts_fit e (WholeScope a) \<and> show_pattern (WholeScope a) = a @ CHR '':'' # b"
      using ok assms by (auto simp: parts_ok_def plain_def)
    then show ?thesis by blast
  next
    case np
    then have "parts_fit e (NamePrefix a q) \<and> show_pattern (NamePrefix a q) = a @ CHR '':'' # b"
      using ok assms by (auto simp: parts_ok_def plain_def)
    then show ?thesis by blast
  next
    case ex
    then have "parts_fit e (ExactDid a b) \<and> show_pattern (ExactDid a b) = a @ CHR '':'' # b"
      using ok assms by (auto simp: parts_ok_def plain_def)
    then show ?thesis by blast
  qed
next
  assume "\<exists>p. parts_fit e p \<and> show_pattern p = a @ CHR '':'' # b"
  then obtain p where fit: "parts_fit e p" and eq: "show_pattern p = a @ CHR '':'' # b" by blast
  show "parts_ok e a b"
  proof (cases p)
    case (ScopePrefix x)
    then have "x @ ''*'' = a \<and> ''*'' = b" using fit eq by (intro separator_inject assms) (auto simp: plain_def)
    then show ?thesis using fit ScopePrefix by (auto simp: parts_ok_def plain_def not_bad_part)
  next
    case (WholeScope x)
    then have "x = a \<and> ''*'' = b" using fit eq by (intro separator_inject assms) (auto simp: plain_def)
    then show ?thesis using fit WholeScope by (auto simp: parts_ok_def plain_def not_bad_part)
  next
    case (NamePrefix x y)
    then have "x = a \<and> y @ ''*'' = b" using fit eq by (intro separator_inject assms) (auto simp: plain_def)
    then show ?thesis using fit NamePrefix by (auto simp: parts_ok_def plain_def not_bad_part)
  next
    case (ExactDid x y)
    then have "x = a \<and> y = b" using fit eq by (intro separator_inject assms) (auto simp: plain_def)
    then show ?thesis using fit ExactDid by (auto simp: parts_ok_def plain_def not_bad_part)
  qed
qed

lemma show_pattern_hd: "parts_fit e p \<Longrightarrow> show_pattern p \<noteq> []"
  by (cases p) auto

lemma prefix_wild: "prefix_pattern_matches v (q @ ''*'') \<longleftrightarrow> (\<exists>r. v = q @ r)"
  by (auto simp: prefix_pattern_matches_def ends_with_wildcard_def DID_WILDCARD_def)
    (metis append_take_drop_id)

lemma prefix_plain: "CHR ''*'' \<notin> set q \<Longrightarrow> prefix_pattern_matches v q \<longleftrightarrow> v = q"
  by (cases q rule: rev_cases) (auto simp: prefix_pattern_matches_def ends_with_wildcard_def DID_WILDCARD_def)

lemma pattern_matches_covers:
  assumes "parts_fit e p"
  shows "did_pattern_matches scope name (show_pattern p) \<longleftrightarrow> covers p (i_external scope) name"
proof (cases p)
  case (ScopePrefix s)
  then have "did_partition (show_pattern p) = (s @ ''*'', True, ''*'')"
    using assms did_partition_sep [of "s @ ''*''" "''*''"] by (simp add: plain_def)
  then show ?thesis using ScopePrefix by (simp add: did_pattern_matches_def DID_WILDCARD_def prefix_wild)
next
  case (WholeScope s)
  then show ?thesis
    using assms by (simp add: did_pattern_matches_def DID_WILDCARD_def plain_def prefix_plain)
next
  case (NamePrefix s n)
  then show ?thesis
    using assms
    by (cases name) (auto simp: did_pattern_matches_def DID_WILDCARD_def plain_def prefix_wild)
next
  case (ExactDid s n)
  then have "n \<noteq> ''*''" using assms by (auto simp: plain_def)
  then show ?thesis
    using assms ExactDid
    by (cases name) (auto simp: did_pattern_matches_def DID_WILDCARD_def plain_def prefix_plain)
qed

lemma show_pattern_parts:
  assumes "parts_fit e p"
  obtains a b where "show_pattern p = a @ CHR '':'' # b" and "CHR '':'' \<notin> set a" and "parts_ok e a b"
proof (cases "show_pattern p" rule: colon_cases)
  case plain
  then show ?thesis by (cases p) auto
next
  case (parts a b)
  then show ?thesis using that parts_ok_pattern [of a e b] assms by blast
qed

lemma validate_pattern_ok:
  assumes "pattern_ok e p"
  shows "validate_did_pattern e (VStr (show_pattern p)) = Inr (show_pattern p)"
proof -
  obtain a b where eq: "show_pattern p = a @ CHR '':'' # b" and a: "CHR '':'' \<notin> set a" and "parts_ok e a b"
    using assms show_pattern_parts unfolding pattern_ok_def by blast
  moreover have "strip (show_pattern p) = a @ CHR '':'' # b"
    using assms eq by (simp add: pattern_ok_def)
  ultimately show ?thesis using validate_sep by metis
qed

lemma written_form_cases:
  assumes "parts_fit e p" and "x \<in> set (written_forms p)"
  obtains (full) "x = show_pattern p" | (short) "show_pattern p = x @ '':*''" and "CHR '':'' \<notin> set x"
  using assms by (cases p) (auto simp: plain_def)

lemma short_form_written:
  assumes "parts_fit e p" and "show_pattern p = x @ '':*''" and "CHR '':'' \<notin> set x"
  shows "x \<in> set (written_forms p)"
proof (cases p)
  case (NamePrefix s n)
  then have "n @ ''*'' = ''*''" using assms separator_inject [of s "n @ ''*''" x "''*''"] by (simp add: plain_def)
  then show ?thesis using NamePrefix assms(1) by simp
next
  case (ExactDid s n)
  then have "n = ''*''" using assms separator_inject [of s n x "''*''"] by (simp add: plain_def)
  then show ?thesis using ExactDid assms(1) by (simp add: plain_def)
qed (use assms(2) in auto)

lemma validated_forms:
  assumes "validate_did_pattern e (VStr s) = Inr t"
  shows "\<exists>p. pattern_ok e p \<and> strip s \<in> set (written_forms p) \<and> t = show_pattern p"
proof (cases "strip s" rule: colon_cases)
  case plain
  then have ok: "parts_ok e (strip s) ''*''" and t: "t = strip s @ '':*''"
    using assms validate_plain [OF plain] by (auto split: if_splits)
  then obtain p where p: "parts_fit e p" and eq: "show_pattern p = strip s @ '':*''"
    using parts_ok_pattern [OF plain] by auto
  have "strip s \<noteq> []" using ok by (simp add: parts_ok_def)
  then have "strip (strip s @ '':*'') = strip s @ '':*''"
    using hd_strip by (intro strip_fixed) (auto simp: is_space_def)
  moreover have "strip s \<in> set (written_forms p)" using p eq plain by (rule short_form_written)
  ultimately show ?thesis using p eq t by (auto simp: pattern_ok_def)
next
  case (parts a b)
  then have ok: "parts_ok e a b" and t: "t = a @ CHR '':'' # b"
    using assms validate_sep [OF parts] by (auto split: if_splits)
  then obtain p where p: "parts_fit e p" and eq: "show_pattern p = strip s"
    using parts_ok_pattern [OF parts(2)] parts(1) by auto
  have "strip s \<in> set (written_forms p)" unfolding eq [symmetric] by (cases p) simp_all
  moreover have "pattern_ok e p" using p unfolding pattern_ok_def eq by simp
  ultimately show ?thesis using eq t parts(1) by auto
qed

lemma written_forms_validated:
  assumes "pattern_ok e p" and "strip s \<in> set (written_forms p)"
  shows "validate_did_pattern e (VStr s) = Inr (show_pattern p)"
proof -
  have fit: "parts_fit e p" using assms(1) by (simp add: pattern_ok_def)
  from fit assms(2) show ?thesis
  proof (cases rule: written_form_cases)
    case full
    obtain a b where "show_pattern p = a @ CHR '':'' # b" and "CHR '':'' \<notin> set a" and "parts_ok e a b"
      using fit by (rule show_pattern_parts)
    then show ?thesis using validate_sep [of s a b e] full by simp
  next
    case short
    then have "parts_ok e (strip s) ''*''" using parts_ok_pattern [OF short(2), of e "''*''"] fit by auto
    then show ?thesis using validate_plain [OF short(2)] short(1) by simp
  qed
qed

text \<open>A DID pattern is accepted if and only if, without the white space around it, it is one of the accepted
  ways to write a pattern of one of the four forms whose parts fit the schema; it is stored in the form with
  both parts, which is accepted again unchanged, and the stored string matches exactly the DIDs and whole
  scopes that the form covers.\<close>

theorem did_pattern_denotes:
  "validate_did_pattern e (VStr s) = Inr t \<longleftrightarrow>
     (\<exists>p. pattern_ok e p \<and> strip s \<in> set (written_forms p) \<and> t = show_pattern p \<and>
        validate_did_pattern e (VStr t) = Inr t \<and>
        (\<forall>scope name. did_pattern_matches scope name t \<longleftrightarrow> covers p (i_external scope) name))"
  using validated_forms [of e s t] written_forms_validated [of e _ s] validate_pattern_ok [of e]
    pattern_matches_covers [of e] unfolding pattern_ok_def by blast

end
