(* ===== verification/Role_Access.thy ===== *)
theory Role_Access
  imports Role_Permissions
begin

text \<open>
  The access checkers of \<^verbatim>\<open>core/role.py\<close> that filter listings: callables that keep, for their lifetime, the privileges of
  the account, the targets its roles grant, and the decisions already taken.

  A callable is a record of what it was built with and of its dictionaries; a call takes the time of the
  call and returns the answer with the updated record. The locale \<open>memo_table\<close> is the contract of such a
  dictionary: an entry is computed at most once and an answer from the dictionary is the answer that a
  computation would give. It is interpreted for each dictionary of the code.
\<close>

section \<open>Memoised functions\<close>

text \<open>\<^verbatim>\<open>if k not in m: m[k] = f(k)\<close> and then \<^verbatim>\<open>m[k]\<close>, where \<open>f\<close> may change further state.\<close>

definition memo :: "('k \<Rightarrow> 's \<Rightarrow> 'v \<times> 's) \<Rightarrow> 'k \<Rightarrow> ('k \<rightharpoonup> 'v) \<times> 's \<Rightarrow> 'v \<times> ('k \<rightharpoonup> 'v) \<times> 's" where
  "memo f k = (\<lambda>(m, s). case m k of Some v \<Rightarrow> (v, m, s) | None \<Rightarrow> let (v, s') = f k s in (v, m(k \<mapsto> v), s'))"

definition cached :: "('k \<Rightarrow> 'v) \<Rightarrow> ('k \<rightharpoonup> 'v) \<Rightarrow> bool" where
  "cached f m \<longleftrightarrow> (\<forall>k v. m k = Some v \<longrightarrow> v = f k)"

lemma cached_empty [simp]: "cached f Map.empty"
  by (simp add: cached_def)

locale memo_table =
  fixes compute :: "'k \<Rightarrow> 's \<Rightarrow> 'v \<times> 's"
    and answer :: "'k \<Rightarrow> 'v"
    and valid :: "'s \<Rightarrow> bool"
  assumes compute_answer: "valid s \<Longrightarrow> fst (compute k s) = answer k"
    and compute_valid: "valid s \<Longrightarrow> valid (snd (compute k s))"
begin

lemma memo_answer: "cached answer m \<Longrightarrow> valid s \<Longrightarrow> fst (memo compute k (m, s)) = answer k"
  by (auto simp: memo_def cached_def compute_answer [symmetric] split: option.splits prod.splits)

lemma memo_valid:
  "cached answer m \<Longrightarrow> valid s \<Longrightarrow>
     cached answer (fst (snd (memo compute k (m, s)))) \<and> valid (snd (snd (memo compute k (m, s))))"
  using compute_answer [of s k] compute_valid [of s k]
  by (auto simp: memo_def cached_def split: option.splits prod.splits)

end

section \<open>Requests\<close>

type_synonym decisions = "(did_request \<rightharpoonup> bool) \<times> (did_operation \<rightharpoonup> string list)"

definition is_privileged :: "int \<Rightarrow> rbac_db \<Rightarrow> internal \<Rightarrow> bool" where
  "is_privileged now d account \<longleftrightarrow> i_external account = ''root'' \<or> has_admin_role now d account"

definition look_up_targets ::
  "int \<Rightarrow> rbac_db \<Rightarrow> internal \<Rightarrow> did_operation \<Rightarrow> unit \<Rightarrow> string list \<times> unit" where
  "look_up_targets now d account op u = (granted_targets now d account op, u)"

definition decide ::
  "int \<Rightarrow> rbac_db \<Rightarrow> internal \<Rightarrow> bool \<Rightarrow> did_request \<Rightarrow> (did_operation \<rightharpoonup> string list)
     \<Rightarrow> bool \<times> (did_operation \<rightharpoonup> string list)" where
  "decide now d account privileged r granted =
     (if privileged then (True, granted)
      else let (ts, granted', _) = memo (look_up_targets now d account) (dr_operation r) (granted, ())
           in (\<exists>t \<in> set ts. did_pattern_matches (dr_scope r) (dr_name r) t, granted'))"

definition permission_check ::
  "int \<Rightarrow> rbac_db \<Rightarrow> internal \<Rightarrow> bool \<Rightarrow> did_request \<Rightarrow> decisions \<Rightarrow> bool \<times> decisions" where
  "permission_check now d account privileged = memo (decide now d account privileged)"

section \<open>Filters\<close>

text \<open>What the policy package and the configuration say about filters.\<close>

record filter_policy =
  rbac_enabled :: bool
  disabled_for_all_accounts :: "string list"
  disabled_for_all_roles :: "string list"
  role_disable_filters :: "(string \<times> string list) list"

definition is_filter_disabled :: "int \<Rightarrow> rbac_db \<Rightarrow> filter_policy \<Rightarrow> internal \<Rightarrow> string \<Rightarrow> bool" where
  "is_filter_disabled now d p account filter_name \<longleftrightarrow>
     \<not> rbac_enabled p \<or>
     filter_name \<in> set (disabled_for_all_accounts p) \<or>
     (let role_disables =
        (if filter_name \<in> set (disabled_for_all_roles p) then (\<lambda>role. \<not> is_reserved_role role)
         else (\<lambda>role. role \<in> set [r. (r, fs) \<leftarrow> role_disable_filters p, filter_name \<in> set fs \<and> \<not> is_reserved_role r]))
      in \<exists>a \<in> set (account_role_map d). ra_account a = account \<and> role_disables (ra_role a) \<and> assignment_active now a)"

section \<open>Scopes\<close>

text \<open>The rows of \<^verbatim>\<open>scopes\<close> and \<^verbatim>\<open>dids\<close> as far as ownership goes: scope and account, DID and account.\<close>

record ownership =
  scope_accounts :: "(internal \<times> internal) list"
  did_accounts :: "((internal \<times> string) \<times> internal) list"

definition is_scope_owner :: "ownership \<Rightarrow> internal \<Rightarrow> internal \<Rightarrow> bool" where
  "is_scope_owner own scope account \<longleftrightarrow> (scope, account) \<in> set (scope_accounts own)"

definition did_owner :: "ownership \<Rightarrow> internal \<Rightarrow> string \<Rightarrow> internal option" where
  "did_owner own scope name = map_of (did_accounts own) (scope, name)"

definition look_up_owner :: "ownership \<Rightarrow> internal \<Rightarrow> internal \<Rightarrow> unit \<Rightarrow> bool \<times> unit" where
  "look_up_owner own account scope u = (is_scope_owner own scope account, u)"

record scope_checker =
  sc_skip :: bool
  sc_privileged :: bool
  sc_operation :: did_operation
  sc_parts :: "string list"
  sc_decisions :: decisions
  sc_owned :: "internal \<rightharpoonup> bool"

definition scope_access_checker :: "int \<Rightarrow> rbac_db \<Rightarrow> internal \<Rightarrow> did_operation \<Rightarrow> bool \<Rightarrow> bool \<Rightarrow> scope_checker" where
  "scope_access_checker now d account op skip_filtering any_did =
     \<lparr>sc_skip = skip_filtering, sc_privileged = is_privileged now d account, sc_operation = op,
      sc_parts = (if any_did then map (\<lambda>t. fst (did_partition t)) (granted_targets now d account op) else []),
      sc_decisions = (Map.empty, Map.empty), sc_owned = Map.empty\<rparr>"

text \<open>A scope is \<open>None\<close> when it is missing or not a scope.\<close>

definition can_access_scope ::
  "int \<Rightarrow> rbac_db \<Rightarrow> ownership \<Rightarrow> internal \<Rightarrow> internal option \<Rightarrow> scope_checker \<Rightarrow> bool \<times> scope_checker" where
  "can_access_scope now d own account scope c =
     (if sc_skip c then (True, c)
      else case scope of
        None \<Rightarrow> (False, c)
      | Some s \<Rightarrow>
          let (granted, ds) = permission_check now d account (sc_privileged c)
                                \<lparr>dr_operation = sc_operation c, dr_scope = s, dr_name = None\<rparr> (sc_decisions c);
              c1 = c\<lparr>sc_decisions := ds\<rparr>
          in if granted then (True, c1)
             else let (owner, owned, _) = memo (look_up_owner own account) s (sc_owned c1, ());
                      c2 = c1\<lparr>sc_owned := owned\<rparr>
                  in if owner then (True, c2)
                     else (\<exists>p \<in> set (sc_parts c2). prefix_pattern_matches (i_external s) p, c2))"

section \<open>DIDs\<close>

record did_checker =
  dc_skip :: bool
  dc_whole_scope :: scope_checker
  dc_reads_in_scope :: scope_checker
  dc_name_patterns :: "string list"
  dc_scopes_read :: "internal \<rightharpoonup> bool"

definition did_access_checker :: "int \<Rightarrow> rbac_db \<Rightarrow> internal \<Rightarrow> did_operation \<Rightarrow> bool \<Rightarrow> did_checker" where
  "did_access_checker now d account op skip_filtering =
     \<lparr>dc_skip = skip_filtering,
      dc_whole_scope = scope_access_checker now d account op False False,
      dc_reads_in_scope = scope_access_checker now d account READ False True,
      dc_name_patterns = filter (\<lambda>t. snd (snd (did_partition t)) \<noteq> [DID_WILDCARD]) (granted_targets now d account op),
      dc_scopes_read = Map.empty\<rparr>"

definition read_in_scope ::
  "int \<Rightarrow> rbac_db \<Rightarrow> ownership \<Rightarrow> internal \<Rightarrow> internal \<Rightarrow> scope_checker \<Rightarrow> bool \<times> scope_checker" where
  "read_in_scope now d own account s = can_access_scope now d own account (Some s)"

definition can_access_did ::
  "int \<Rightarrow> rbac_db \<Rightarrow> ownership \<Rightarrow> internal \<Rightarrow> internal option \<Rightarrow> string option \<Rightarrow> did_checker \<Rightarrow> bool \<times> did_checker" where
  "can_access_did now d own account scope name c =
     (if dc_skip c then (True, c)
      else
        (let (whole, w) = can_access_scope now d own account scope (dc_whole_scope c);
             c1 = c\<lparr>dc_whole_scope := w\<rparr>
         in if whole then (True, c1)
            else case (scope, name) of
                   (Some s, Some n) \<Rightarrow>
                     if \<exists>t \<in> set (dc_name_patterns c1). did_pattern_matches s (Some n) t then (True, c1)
                     else let (reads, m, r) = memo (read_in_scope now d own account) s (dc_scopes_read c1, dc_reads_in_scope c1)
                          in (reads \<and> did_owner own s n = Some account, c1\<lparr>dc_scopes_read := m, dc_reads_in_scope := r\<rparr>)
                 | _ \<Rightarrow> (False, c1)))"

section \<open>Listings\<close>

text \<open>An item of a listing: the time at which it is looked at, its scope, its name, and the rest of it.\<close>

type_synonym 'a item = "int \<times> internal option \<times> string option \<times> 'a"

fun scope_filter_loop ::
  "rbac_db \<Rightarrow> ownership \<Rightarrow> internal \<Rightarrow> 'a item list \<Rightarrow> scope_checker \<Rightarrow> 'a item list" where
  "scope_filter_loop d own account [] c = []"
| "scope_filter_loop d own account ((now, scope, name, x) # items) c =
     (let (ok, c') = can_access_scope now d own account scope c; rest = scope_filter_loop d own account items c'
      in if ok then (now, scope, name, x) # rest else rest)"

definition filter_iterable_by_scope_access ::
  "int \<Rightarrow> rbac_db \<Rightarrow> ownership \<Rightarrow> internal \<Rightarrow> did_operation \<Rightarrow> bool \<Rightarrow> bool \<Rightarrow> 'a item list \<Rightarrow> 'a item list" where
  "filter_iterable_by_scope_access now d own account op skip_filtering any_did items =
     scope_filter_loop d own account items (scope_access_checker now d account op skip_filtering any_did)"

fun did_filter_loop ::
  "rbac_db \<Rightarrow> ownership \<Rightarrow> internal \<Rightarrow> 'a item list \<Rightarrow> did_checker \<Rightarrow> 'a item list" where
  "did_filter_loop d own account [] c = []"
| "did_filter_loop d own account ((now, scope, name, x) # items) c =
     (let (ok, c') = can_access_did now d own account scope name c; rest = did_filter_loop d own account items c'
      in if ok then (now, scope, name, x) # rest else rest)"

definition filter_iterable_by_did_access ::
  "int \<Rightarrow> rbac_db \<Rightarrow> ownership \<Rightarrow> internal \<Rightarrow> did_operation \<Rightarrow> bool \<Rightarrow> 'a item list \<Rightarrow> 'a item list" where
  "filter_iterable_by_did_access now d own account op skip_filtering items =
     did_filter_loop d own account items (did_access_checker now d account op skip_filtering)"

section \<open>What the checkers decide\<close>

text \<open>Between two instants no assignment of the account starts or stops being active.\<close>

definition steady :: "rbac_db \<Rightarrow> internal \<Rightarrow> int \<Rightarrow> int \<Rightarrow> bool" where
  "steady d account t0 t \<longleftrightarrow>
     (\<forall>a \<in> set (account_role_map d). ra_account a = account \<longrightarrow> assignment_active t a = assignment_active t0 a)"

text \<open>The rules of the policy, stated without dictionaries, at one instant.\<close>

definition may_access_scope :: "int \<Rightarrow> rbac_db \<Rightarrow> ownership \<Rightarrow> internal \<Rightarrow> did_operation \<Rightarrow> bool \<Rightarrow> internal \<Rightarrow> bool" where
  "may_access_scope now d own account op any_did s \<longleftrightarrow>
     is_privileged now d account \<or> is_scope_owner own s account \<or>
     has_permission now d account \<lparr>dr_operation = op, dr_scope = s, dr_name = None\<rparr> \<or>
     any_did \<and> has_any_scope_prefix_access now d account s op"

definition may_access_did :: "int \<Rightarrow> rbac_db \<Rightarrow> ownership \<Rightarrow> internal \<Rightarrow> did_operation \<Rightarrow> internal \<Rightarrow> string option \<Rightarrow> bool" where
  "may_access_did now d own account op s name \<longleftrightarrow>
     is_privileged now d account \<or> is_scope_owner own s account \<or>
     has_permission now d account \<lparr>dr_operation = op, dr_scope = s, dr_name = name\<rparr> \<or>
     (case name of None \<Rightarrow> False
                 | Some n \<Rightarrow> has_any_scope_prefix_access now d account s READ \<and> did_owner own s n = Some account)"

lemma granted_targets_steady:
  assumes "steady d account t0 t"
  shows "granted_targets t d account op = granted_targets t0 d account op"
  unfolding granted_targets_def using assms
  by (intro arg_cong [where f = concat] map_cong) (auto simp: steady_def)

interpretation targets: memo_table "look_up_targets t d account" "granted_targets t0 d account" "\<lambda>_. steady d account t0 t"
  by unfold_locales (auto simp: look_up_targets_def granted_targets_steady)

interpretation owners: memo_table "look_up_owner own account" "\<lambda>s. is_scope_owner own s account" "\<lambda>_. True"
  by unfold_locales (auto simp: look_up_owner_def)

lemma decide_answer:
  assumes "steady d account t0 t" and "cached (granted_targets t0 d account) g"
  shows "fst (decide t d account p r g) \<longleftrightarrow> p \<or> has_permission t0 d account r"
    and "cached (granted_targets t0 d account) (snd (decide t d account p r g))"
  using targets.memo_answer [where k = "dr_operation r", OF assms(2) assms(1)]
    targets.memo_valid [where k = "dr_operation r", OF assms(2) assms(1)] assms(2)
  by (auto simp: decide_def has_permission_def split: prod.splits)

interpretation requests: memo_table "decide t d account p" "\<lambda>r. p \<or> has_permission t0 d account r"
    "\<lambda>g. steady d account t0 t \<and> cached (granted_targets t0 d account) g"
  by unfold_locales (auto simp: decide_answer)

text \<open>A checker built at \<open>t0\<close> whose dictionaries hold answers of \<open>t0\<close>.\<close>

definition scope_checker_ok :: "int \<Rightarrow> rbac_db \<Rightarrow> ownership \<Rightarrow> internal \<Rightarrow> did_operation \<Rightarrow> bool \<Rightarrow> scope_checker \<Rightarrow> bool" where
  "scope_checker_ok t0 d own account op any_did c \<longleftrightarrow>
     \<not> sc_skip c \<and> sc_privileged c = is_privileged t0 d account \<and> sc_operation c = op \<and>
     sc_parts c = (if any_did then map (\<lambda>t. fst (did_partition t)) (granted_targets t0 d account op) else []) \<and>
     cached (\<lambda>r. is_privileged t0 d account \<or> has_permission t0 d account r) (fst (sc_decisions c)) \<and>
     cached (granted_targets t0 d account) (snd (sc_decisions c)) \<and>
     cached (\<lambda>s. is_scope_owner own s account) (sc_owned c)"

lemma scope_checker_ok_new: "scope_checker_ok t0 d own account op any_did (scope_access_checker t0 d account op False any_did)"
  by (simp add: scope_checker_ok_def scope_access_checker_def)

lemma permission_check_answer:
  assumes "steady d account t0 t" and "scope_checker_ok t0 d own account op any_did c"
  shows "fst (permission_check t d account (sc_privileged c) r (sc_decisions c))
           \<longleftrightarrow> is_privileged t0 d account \<or> has_permission t0 d account r"
    and "scope_checker_ok t0 d own account op any_did
           (c\<lparr>sc_decisions := snd (permission_check t d account (sc_privileged c) r (sc_decisions c))\<rparr>)"
  using requests.memo_answer [where k = r and m = "fst (sc_decisions c)" and s = "snd (sc_decisions c)"
      and t = t and ?t0.0 = t0 and d = d and account = account and p = "is_privileged t0 d account"]
    requests.memo_valid [where k = r and m = "fst (sc_decisions c)" and s = "snd (sc_decisions c)"
      and t = t and ?t0.0 = t0 and d = d and account = account and p = "is_privileged t0 d account"] assms
  by (simp_all add: scope_checker_ok_def permission_check_def)

lemma owner_answer:
  assumes "scope_checker_ok t0 d own account op any_did c"
  shows "fst (memo (look_up_owner own account) s (sc_owned c, ())) = is_scope_owner own s account"
    and "scope_checker_ok t0 d own account op any_did (c\<lparr>sc_owned := fst (snd (memo (look_up_owner own account) s (sc_owned c, ())))\<rparr>)"
  using owners.memo_answer [where own = own and account = account and m = "sc_owned c" and k = s]
    owners.memo_valid [where own = own and account = account and m = "sc_owned c" and k = s] assms
  by (simp_all add: scope_checker_ok_def)

lemma can_access_scope_answer:
  assumes "steady d account t0 t" and "scope_checker_ok t0 d own account op any_did c"
  shows "fst (can_access_scope t d own account scope c)
           \<longleftrightarrow> (case scope of None \<Rightarrow> False | Some s \<Rightarrow> may_access_scope t0 d own account op any_did s)"
    and "scope_checker_ok t0 d own account op any_did (snd (can_access_scope t d own account scope c))"
proof -
  note check = permission_check_answer [OF assms]
  have c: "\<not> sc_skip c" "sc_operation c = op"
    and parts: "sc_parts c = (if any_did then map (\<lambda>t. fst (did_partition t)) (granted_targets t0 d account op) else [])"
    using assms(2) by (simp_all add: scope_checker_ok_def)
  have "(fst (can_access_scope t d own account scope c)
           \<longleftrightarrow> (case scope of None \<Rightarrow> False | Some s \<Rightarrow> may_access_scope t0 d own account op any_did s)) \<and>
        scope_checker_ok t0 d own account op any_did (snd (can_access_scope t d own account scope c))"
  proof (cases scope)
    case None
    then show ?thesis using c assms(2) by (simp add: can_access_scope_def)
  next
    case (Some s)
    let ?r = "\<lparr>dr_operation = op, dr_scope = s, dr_name = None\<rparr>"
    obtain g ds where g: "permission_check t d account (sc_privileged c) ?r (sc_decisions c) = (g, ds)" by (metis prod.exhaust)
    let ?c = "c\<lparr>sc_decisions := ds\<rparr>"
    obtain w m u where w: "memo (look_up_owner own account) s (sc_owned ?c, ()) = (w, m, u)" by (metis prod_cases3)
    have ok1: "scope_checker_ok t0 d own account op any_did ?c"
      and g_iff: "g \<longleftrightarrow> is_privileged t0 d account \<or> has_permission t0 d account ?r"
      using check [of ?r] g by simp_all
    have ok2: "scope_checker_ok t0 d own account op any_did (?c\<lparr>sc_owned := m\<rparr>)"
      and w_iff: "w \<longleftrightarrow> is_scope_owner own s account"
      using owner_answer [OF ok1, of s] w by simp_all
    show ?thesis
      using Some c parts g w ok1 ok2 g_iff w_iff
      by (auto simp: can_access_scope_def Let_def may_access_scope_def has_any_scope_prefix_access_def)
  qed
  then show "fst (can_access_scope t d own account scope c)
           \<longleftrightarrow> (case scope of None \<Rightarrow> False | Some s \<Rightarrow> may_access_scope t0 d own account op any_did s)"
    and "scope_checker_ok t0 d own account op any_did (snd (can_access_scope t d own account scope c))"
    by blast+
qed

interpretation readers: memo_table "read_in_scope t d own account" "may_access_scope t0 d own account READ True"
    "\<lambda>c. steady d account t0 t \<and> scope_checker_ok t0 d own account READ True c"
  by unfold_locales (auto simp: read_in_scope_def can_access_scope_answer)

definition did_checker_ok :: "int \<Rightarrow> rbac_db \<Rightarrow> ownership \<Rightarrow> internal \<Rightarrow> did_operation \<Rightarrow> did_checker \<Rightarrow> bool" where
  "did_checker_ok t0 d own account op c \<longleftrightarrow>
     \<not> dc_skip c \<and> scope_checker_ok t0 d own account op False (dc_whole_scope c) \<and>
     scope_checker_ok t0 d own account READ True (dc_reads_in_scope c) \<and>
     dc_name_patterns c = filter (\<lambda>t. snd (snd (did_partition t)) \<noteq> [DID_WILDCARD]) (granted_targets t0 d account op) \<and>
     cached (may_access_scope t0 d own account READ True) (dc_scopes_read c)"

lemma did_checker_ok_new: "did_checker_ok t0 d own account op (did_access_checker t0 d account op False)"
  by (simp add: did_checker_ok_def did_access_checker_def scope_checker_ok_new)

lemma did_pattern_matches_parts:
  "did_pattern_matches s name t \<longleftrightarrow>
     (if snd (snd (did_partition t)) = [DID_WILDCARD] then prefix_pattern_matches (i_external s) (fst (did_partition t))
      else (case name of None \<Rightarrow> False
            | Some n \<Rightarrow> i_external s = fst (did_partition t) \<and> prefix_pattern_matches n (snd (snd (did_partition t)))))"
  by (simp add: did_pattern_matches_def Let_def case_prod_beta)

text \<open>A pattern matches a DID through its scope part alone, or it is one of the patterns with a proper name part.\<close>

lemma has_permission_split:
  "has_permission now d account \<lparr>dr_operation = op, dr_scope = s, dr_name = Some n\<rparr> \<longleftrightarrow>
     has_permission now d account \<lparr>dr_operation = op, dr_scope = s, dr_name = None\<rparr> \<or>
     (\<exists>t \<in> set (filter (\<lambda>t. snd (snd (did_partition t)) \<noteq> [DID_WILDCARD]) (granted_targets now d account op)).
        did_pattern_matches s (Some n) t)"
  by (auto simp: has_permission_def did_pattern_matches_parts split: if_splits)

lemma whole_scope_reads:
  "has_permission now d account \<lparr>dr_operation = op, dr_scope = s, dr_name = None\<rparr>
     \<Longrightarrow> has_any_scope_prefix_access now d account s op"
  by (auto simp: has_permission_def has_any_scope_prefix_access_def did_pattern_matches_parts split: if_splits)

lemma reads_answer:
  assumes "steady d account t0 t" and "did_checker_ok t0 d own account op c"
    and eq: "memo (read_in_scope t d own account) s (dc_scopes_read c, dc_reads_in_scope c) = (b, m, r)"
  shows "b \<longleftrightarrow> may_access_scope t0 d own account READ True s"
    and "did_checker_ok t0 d own account op (c\<lparr>dc_scopes_read := m, dc_reads_in_scope := r\<rparr>)"
proof -
  have valid: "steady d account t0 t \<and> scope_checker_ok t0 d own account READ True (dc_reads_in_scope c)"
    and table: "cached (may_access_scope t0 d own account READ True) (dc_scopes_read c)"
    using assms(1,2) by (simp_all add: did_checker_ok_def)
  show "b \<longleftrightarrow> may_access_scope t0 d own account READ True s"
    using readers.memo_answer [OF table valid, of s] eq by simp
  show "did_checker_ok t0 d own account op (c\<lparr>dc_scopes_read := m, dc_reads_in_scope := r\<rparr>)"
    using readers.memo_valid [OF table valid, of s] eq assms(2) by (simp add: did_checker_ok_def)
qed

lemma can_access_did_answer:
  assumes "steady d account t0 t" and ok: "did_checker_ok t0 d own account op c"
  shows "(fst (can_access_did t d own account scope name c)
            \<longleftrightarrow> (case scope of None \<Rightarrow> False | Some s \<Rightarrow> may_access_did t0 d own account op s name)) \<and>
         did_checker_ok t0 d own account op (snd (can_access_did t d own account scope name c))"
proof -
  have whole_ok: "scope_checker_ok t0 d own account op False (dc_whole_scope c)" and skip: "\<not> dc_skip c"
    using ok by (simp_all add: did_checker_ok_def)
  obtain b w where w: "can_access_scope t d own account scope (dc_whole_scope c) = (b, w)" by (metis prod.exhaust)
  let ?c = "c\<lparr>dc_whole_scope := w\<rparr>"
  have b: "b \<longleftrightarrow> (case scope of None \<Rightarrow> False | Some s \<Rightarrow> may_access_scope t0 d own account op False s)"
    and ok1: "did_checker_ok t0 d own account op ?c"
    using can_access_scope_answer [OF assms(1) whole_ok, of scope] w ok by (simp_all add: did_checker_ok_def)
  show ?thesis
  proof (cases "b \<or> scope = None \<or> name = None")
    case True
    then show ?thesis using skip w b ok1
      by (cases scope; cases name)
        (auto simp: can_access_did_def may_access_scope_def may_access_did_def has_permission_split)
  next
    case False
    then obtain s n where sn: "scope = Some s" "name = Some n" and "\<not> b" by auto
    obtain reads m r where memo: "memo (read_in_scope t d own account) s (dc_scopes_read ?c, dc_reads_in_scope ?c) = (reads, m, r)"
      by (metis prod_cases3)
    have patterns: "dc_name_patterns ?c = filter (\<lambda>t. snd (snd (did_partition t)) \<noteq> [DID_WILDCARD]) (granted_targets t0 d account op)"
      using ok1 by (simp add: did_checker_ok_def)
    note answers = reads_answer [OF assms(1) ok1 memo]
    have denied: "\<not> may_access_scope t0 d own account op False s" using b sn \<open>\<not> b\<close> by simp
    have "can_access_did t d own account scope name c =
       (if \<exists>t \<in> set (dc_name_patterns ?c). did_pattern_matches s (Some n) t then (True, ?c)
        else (reads \<and> did_owner own s n = Some account, ?c\<lparr>dc_scopes_read := m, dc_reads_in_scope := r\<rparr>))"
      using sn \<open>\<not> b\<close> skip w memo by (simp add: can_access_did_def)
    moreover have "may_access_did t0 d own account op s (Some n) \<longleftrightarrow>
       (\<exists>t \<in> set (dc_name_patterns ?c). did_pattern_matches s (Some n) t) \<or> reads \<and> did_owner own s n = Some account"
      using denied answers(1) whole_scope_reads [of t0 d account READ s]
      unfolding patterns may_access_scope_def may_access_did_def has_permission_split by auto
    ultimately show ?thesis using sn ok1 answers(2) by simp
  qed
qed

lemma did_filter_loop_exact:
  assumes "\<And>t scope name x. (t, scope, name, x) \<in> set items \<Longrightarrow> steady d account t0 t"
    and "did_checker_ok t0 d own account op c"
  shows "did_filter_loop d own account items c =
     filter (\<lambda>(t, scope, name, x). case scope of None \<Rightarrow> False | Some s \<Rightarrow> may_access_did t0 d own account op s name) items"
  using assms
proof (induction items arbitrary: c)
  case Nil
  then show ?case by simp
next
  case (Cons i items)
  obtain t scope name x where i: "i = (t, scope, name, x)" by (metis prod_cases4)
  have "steady d account t0 t" using Cons.prems(1) i by auto
  note step = can_access_did_answer [OF this Cons.prems(2), of scope name]
  obtain b c' where bc: "can_access_did t d own account scope name c = (b, c')" by (metis prod.exhaust)
  have "did_filter_loop d own account items c' =
     filter (\<lambda>(t, scope, name, x). case scope of None \<Rightarrow> False | Some s \<Rightarrow> may_access_did t0 d own account op s name) items"
    using step bc by (intro Cons.IH) (auto intro: Cons.prems(1))
  then show ?case using step bc by (simp add: i)
qed

lemma did_filter_skip: "dc_skip c \<Longrightarrow> did_filter_loop d own account items c = items"
  by (induction d own account items c rule: did_filter_loop.induct) (auto simp: can_access_did_def)

text \<open>C31: The filter of a listing of DIDs, which keeps the granted patterns, the decisions per scope and the owned scopes
  in dictionaries, yields exactly the items that the rules of the policy allow when they are evaluated item by
  item without any dictionary: root and the holders of the admin role see every DID; otherwise the account owns
  the scope, or one of its active roles grants the operation on a pattern that matches the DID, or the account
  owns the DID and an active role grants it some read in the scope. An item without a scope is refused. The
  instants at which the items are looked at may differ as long as no assignment of the account starts or
  ends in between.\<close>

theorem did_filter_exact:
  assumes "\<And>t scope name x. (t, scope, name, x) \<in> set items \<Longrightarrow> steady d account t0 t"
  shows "filter_iterable_by_did_access t0 d own account op skip items =
     filter (\<lambda>(t, scope, name, x).
       skip \<or> (case scope of None \<Rightarrow> False | Some s \<Rightarrow> may_access_did t0 d own account op s name)) items"
proof (cases skip)
  case True
  then show ?thesis
    by (simp add: filter_iterable_by_did_access_def did_filter_skip did_access_checker_def case_prod_unfold)
next
  case False
  then show ?thesis
    using did_filter_loop_exact [OF assms did_checker_ok_new] by (simp add: filter_iterable_by_did_access_def)
qed

definition demo_rbac :: rbac_db where
  "demo_rbac =
     \<lparr>accounts = [''alice'', ''bob''],
      roles = [\<lparr>ro_role = ''reader'', ro_description = None, ro_assignable = True, ro_locked = False\<rparr>],
      account_role_map = [\<lparr>ra_account = ''alice'', ra_role = ''reader'', ra_activates_at = 0, ra_expires_at = Some 100\<rparr>],
      role_did_permission_map = [\<lparr>dp_role = ''reader'', dp_did_pattern = ''data:raw*'', can_read = True, can_write = False, can_delete = False\<rparr>],
      role_local_limit_permission_map = [], role_global_limit_permission_map = []\<rparr>"

definition demo_owners :: ownership where
  "demo_owners = \<lparr>scope_accounts = [(''user.alice'', ''alice'')], did_accounts = [((''data'', ''own''), ''alice'')]\<rparr>"

definition demo_items :: "nat item list" where
  "demo_items = [(10, Some ''data'', Some ''raw1'', 0), (20, Some ''data'', Some ''derived'', 1),
                 (30, Some ''data'', Some ''own'', 2), (40, Some ''user.alice'', Some ''x'', 3), (50, None, None, 4)]"

theorem did_filter_exact_witness:
  "filter_iterable_by_did_access 5 demo_rbac demo_owners ''alice'' READ False demo_items
     = [(10, Some ''data'', Some ''raw1'', 0), (30, Some ''data'', Some ''own'', 2), (40, Some ''user.alice'', Some ''x'', 3)]"
proof -
  have "steady demo_rbac ''alice'' 5 t" if "(t, scope, name, x) \<in> set demo_items" for t scope name x
    using that by (auto simp: demo_items_def steady_def demo_rbac_def assignment_active_def)
  then have "filter_iterable_by_did_access 5 demo_rbac demo_owners ''alice'' READ False demo_items =
     filter (\<lambda>(t, scope, name, x).
       False \<or> (case scope of None \<Rightarrow> False | Some s \<Rightarrow> may_access_did 5 demo_rbac demo_owners ''alice'' READ s name)) demo_items"
    by (rule did_filter_exact)
  also have "\<dots> = [(10, Some ''data'', Some ''raw1'', 0), (30, Some ''data'', Some ''own'', 2), (40, Some ''user.alice'', Some ''x'', 3)]"
    by code_simp
  finally show ?thesis .
qed

end
