(* ===== verification/Role_Quotas.thy ===== *)
theory Role_Quotas
  imports Role_Permissions "HOL-Library.AList"
begin

text \<open>
  The RSE quotas that the roles of an account grant, from \<^verbatim>\<open>core/role.py\<close>: the list of grants and the space that they leave
  on an RSE. The space is a number of bytes or infinite (\<^verbatim>\<open>float('inf')\<close>), ordered as Python orders them.
\<close>

section \<open>Space\<close>

datatype space = Bytes int | Unlimited

instantiation space :: linorder
begin

fun less_eq_space :: "space \<Rightarrow> space \<Rightarrow> bool" where
  "less_eq_space (Bytes a) (Bytes b) \<longleftrightarrow> a \<le> b"
| "less_eq_space _ Unlimited \<longleftrightarrow> True"
| "less_eq_space Unlimited (Bytes _) \<longleftrightarrow> False"

definition less_space :: "space \<Rightarrow> space \<Rightarrow> bool" where
  "less_space a b \<longleftrightarrow> a \<le> b \<and> \<not> b \<le> (a :: space)"

instance
proof
  fix x y z :: space
  show "x < y \<longleftrightarrow> x \<le> y \<and> \<not> y \<le> x" by (simp add: less_space_def)
  show "x \<le> x" by (cases x) simp_all
  show "x \<le> y \<Longrightarrow> y \<le> z \<Longrightarrow> x \<le> z" by (cases x; cases y; cases z) simp_all
  show "x \<le> y \<Longrightarrow> y \<le> x \<Longrightarrow> x = y" by (cases x; cases y) simp_all
  show "x \<le> y \<or> y \<le> x" by (cases x; cases y) auto
qed

end

lemma Unlimited_top [simp]: "x \<le> Unlimited"
  by (cases x) simp_all

section \<open>Grants\<close>

record quota_grant =
  qg_role :: string
  qg_locality :: locality
  qg_rse_expression :: "string option"
  qg_rse_ids :: "string list"
  qg_bytes :: int

definition held :: "int \<Rightarrow> internal \<Rightarrow> string \<Rightarrow> assignment \<Rightarrow> bool" where
  "held now account role a \<longleftrightarrow> ra_role a = role \<and> ra_account a = account \<and> assignment_active now a"

definition local_grant :: "local_limit \<Rightarrow> quota_grant" where
  "local_grant l = \<lparr>qg_role = ll_role l, qg_locality = LOCAL, qg_rse_expression = None, qg_rse_ids = [ll_rse_id l], qg_bytes = ll_bytes l\<rparr>"

definition local_grants :: "int \<Rightarrow> rbac_db \<Rightarrow> internal \<Rightarrow> quota_grant list" where
  "local_grants now d account =
     [local_grant l. l \<leftarrow> sort_key ll_key (role_local_limit_permission_map d), a \<leftarrow> account_role_map d, held now account (ll_role l) a]"

definition global_rows :: "int \<Rightarrow> rbac_db \<Rightarrow> internal \<Rightarrow> global_limit list" where
  "global_rows now d account =
     [l. l \<leftarrow> sort_key gl_key (role_global_limit_permission_map d), a \<leftarrow> account_role_map d, held now account (gl_role l) a]"

text \<open>A global limit whose expression matches no RSE is left out.\<close>

fun global_grants :: "rbac_env \<Rightarrow> global_limit list \<Rightarrow> (role_error + quota_grant list) option" where
  "global_grants e [] = Some (Inr [])"
| "global_grants e (l # ls) =
     Option.bind (resolve_rse_ids e (gl_rse_expression l)) (\<lambda>r. obind r (\<lambda>rse_ids.
       map_option (\<lambda>rest. rbind rest (\<lambda>gs.
         Inr (if rse_ids = [] then gs
              else \<lparr>qg_role = gl_role l, qg_locality = GLOBAL, qg_rse_expression = Some (gl_rse_expression l),
                    qg_rse_ids = rse_ids, qg_bytes = gl_bytes l\<rparr> # gs))) (global_grants e ls)))"

definition list_account_rse_quota_grants ::
  "rbac_env \<Rightarrow> int \<Rightarrow> rbac_db \<Rightarrow> internal \<Rightarrow> (role_error + quota_grant list) option" where
  "list_account_rse_quota_grants e now d account =
     map_option (\<lambda>r. rbind r (\<lambda>gs. Inr (local_grants now d account @ gs))) (global_grants e (global_rows now d account))"

section \<open>The space left\<close>

type_synonym usage = "(string \<times> int) list"

definition used :: "usage \<Rightarrow> string \<Rightarrow> int" where
  "used u rse = (case map_of u rse of None \<Rightarrow> 0 | Some n \<Rightarrow> n)"

text \<open>What one role leaves: by its local limit, and by each of its global limits under its expression. \<open>None\<close>
  when no local limit of the role covers the RSE.\<close>

definition role_left :: "usage \<Rightarrow> string \<Rightarrow> quota_grant list \<Rightarrow> (space \<times> (string \<times> int) list) option" where
  "role_left u rse role_grants =
     (case find (\<lambda>g. qg_locality g = LOCAL) role_grants of
        None \<Rightarrow> None
      | Some g \<Rightarrow>
          Some (if qg_bytes g = ROLE_QUOTA_NOCAP then Unlimited else Bytes (qg_bytes g - used u rse),
                fold (\<lambda>g. AList.update (the (qg_rse_expression g)) (qg_bytes g - (\<Sum>r \<leftarrow> qg_rse_ids g. used u r)))
                  (filter (\<lambda>g. qg_locality g = GLOBAL \<and> qg_bytes g \<noteq> ROLE_QUOTA_NOCAP) role_grants) []))"

definition space_left :: "space \<times> (string \<times> int) list \<Rightarrow> space" where
  "space_left = (\<lambda>(local_left, global_left). fold (\<lambda>(_, n). min (Bytes n)) global_left local_left)"

definition better ::
  "(space \<times> (string \<times> int) list) option \<Rightarrow> (space \<times> (string \<times> int) list) option \<Rightarrow> (space \<times> (string \<times> int) list) option" where
  "better candidate best =
     (case candidate of
        None \<Rightarrow> best
      | Some c \<Rightarrow> (case best of None \<Rightarrow> Some c | Some b \<Rightarrow> if space_left b < space_left c then Some c else best))"

text \<open>The roles in the order of their first grant that covers the RSE.\<close>

definition rse_quota_left :: "quota_grant list \<Rightarrow> string \<Rightarrow> usage \<Rightarrow> (space \<times> (string \<times> int) list) option" where
  "rse_quota_left grants rse u =
     (let covering = filter (\<lambda>g. rse \<in> set (qg_rse_ids g)) grants;
          roles = rev (remdups (rev (map qg_role covering)))
      in fold (\<lambda>role. better (role_left u rse (filter (\<lambda>g. qg_role g = role) covering))) roles None)"

section \<open>The most generous role\<close>

text \<open>What a single limit leaves, the limits of a role that cover an RSE, and what the role leaves altogether.\<close>

definition grant_left :: "usage \<Rightarrow> quota_grant \<Rightarrow> space" where
  "grant_left u g =
     (if qg_bytes g = ROLE_QUOTA_NOCAP then Unlimited else Bytes (qg_bytes g - (\<Sum>r \<leftarrow> qg_rse_ids g. used u r)))"

definition covering :: "quota_grant list \<Rightarrow> string \<Rightarrow> string \<Rightarrow> quota_grant set" where
  "covering grants rse role = {g \<in> set grants. rse \<in> set (qg_rse_ids g) \<and> qg_role g = role}"

definition has_local :: "quota_grant list \<Rightarrow> string \<Rightarrow> string \<Rightarrow> bool" where
  "has_local grants rse role \<longleftrightarrow> (\<exists>g \<in> covering grants rse role. qg_locality g = LOCAL)"

definition role_space :: "quota_grant list \<Rightarrow> string \<Rightarrow> usage \<Rightarrow> string \<Rightarrow> space" where
  "role_space grants rse u role = Min (grant_left u ` covering grants rse role)"

text \<open>Grants as they come out of the tables: a local limit is on one RSE, a global one has an expression, and no
  two grants of a role have the same RSE or expression.\<close>

definition grant_key :: "quota_grant \<Rightarrow> string \<times> string option \<times> string list" where
  "grant_key g = (qg_role g, qg_rse_expression g, if qg_locality g = LOCAL then qg_rse_ids g else [])"

definition grants_wf :: "quota_grant list \<Rightarrow> bool" where
  "grants_wf gs \<longleftrightarrow>
     distinct (map grant_key gs) \<and>
     (\<forall>g \<in> set gs. if qg_locality g = LOCAL then qg_rse_expression g = None \<and> (\<exists>r. qg_rse_ids g = [r])
                   else qg_rse_expression g \<noteq> None)"

lemma update_new_key: "k \<notin> set (map fst m) \<Longrightarrow> AList.update k v m = m @ [(k, v)]"
  by (induction m) auto

lemma fold_update_distinct:
  "distinct (map fst m @ map k gs) \<Longrightarrow> fold (\<lambda>g. AList.update (k g) (v g)) gs m = m @ map (\<lambda>g. (k g, v g)) gs"
proof (induction gs arbitrary: m)
  case Nil
  then show ?case by simp
next
  case (Cons g gs)
  then have "AList.update (k g) (v g) m = m @ [(k g, v g)]" by (intro update_new_key) auto
  moreover have "fold (\<lambda>g. AList.update (k g) (v g)) gs (m @ [(k g, v g)]) = (m @ [(k g, v g)]) @ map (\<lambda>g. (k g, v g)) gs"
    using Cons.prems by (intro Cons.IH) auto
  ultimately show ?case by simp
qed

lemma space_left_Min: "space_left (l, gl) = Min (insert l (Bytes ` snd ` set gl))"
proof (induction gl arbitrary: l)
  case Nil
  then show ?case by (simp add: space_left_def)
next
  case (Cons p gl)
  obtain x n where p: "p = (x, n)" by force
  have "space_left (l, p # gl) = space_left (min (Bytes n) l, gl)" by (simp add: space_left_def p)
  also have "\<dots> = Min (insert (min (Bytes n) l) (Bytes ` snd ` set gl))" by (rule Cons.IH)
  also have "\<dots> = Min (insert l (insert (Bytes n) (Bytes ` snd ` set gl)))"
    by (cases "gl = []") (simp_all add: min.assoc min.commute min.left_commute)
  finally show ?case by (simp add: p)
qed

lemma better_simps [simp]:
  "better None best = best"
  "better (Some c) None = Some c"
  "better (Some c) (Some b) = (if space_left b < space_left c then Some c else Some b)"
  by (simp_all add: better_def)

lemma fold_better:
  "case fold (\<lambda>r. better (f r)) rs None of
     None \<Rightarrow> \<forall>r \<in> set rs. f r = None
   | Some b \<Rightarrow> (\<exists>r \<in> set rs. f r = Some b) \<and> (\<forall>r \<in> set rs. \<forall>c. f r = Some c \<longrightarrow> space_left c \<le> space_left b)"
proof (induction rs rule: rev_induct)
  case Nil
  then show ?case by simp
next
  case (snoc r rs)
  let ?best = "fold (\<lambda>r. better (f r)) rs None"
  have step: "fold (\<lambda>r. better (f r)) (rs @ [r]) None = better (f r) ?best" by simp
  show ?case
  proof (cases "f r")
    case None
    then show ?thesis using snoc.IH unfolding step by simp (auto split: option.splits)
  next
    case (Some c)
    then show ?thesis
    proof (cases ?best)
      case None
      then show ?thesis using snoc.IH Some unfolding step by auto
    next
      case best: (Some b)
      then show ?thesis
        using snoc.IH Some unfolding step
        by (cases "space_left b < space_left c") (auto simp: not_less dest: order_trans order.strict_implies_order)
    qed
  qed
qed

lemma grant_key_inj:
  "grants_wf gs \<Longrightarrow> g \<in> set gs \<Longrightarrow> h \<in> set gs \<Longrightarrow> grant_key g = grant_key h \<Longrightarrow> g = h"
  by (auto simp: grants_wf_def distinct_map dest: inj_onD)

lemma covering_local_unique:
  assumes "grants_wf gs" and "g \<in> covering gs rse role" "qg_locality g = LOCAL"
    and "h \<in> covering gs rse role" "qg_locality h = LOCAL"
  shows "g = h"
proof -
  have "qg_rse_ids g = [rse]" "qg_rse_ids h = [rse]" "qg_rse_expression g = None" "qg_rse_expression h = None"
    using assms unfolding grants_wf_def covering_def by fastforce+
  then show ?thesis
    using assms by (intro grant_key_inj [OF assms(1)]) (auto simp: covering_def grant_key_def)
qed

definition role_grants :: "quota_grant list \<Rightarrow> string \<Rightarrow> string \<Rightarrow> quota_grant list" where
  "role_grants gs rse role = filter (\<lambda>g. qg_role g = role) (filter (\<lambda>g. rse \<in> set (qg_rse_ids g)) gs)"

lemma set_role_grants: "set (role_grants gs rse role) = covering gs rse role"
  by (auto simp: role_grants_def covering_def)

lemma global_keys_distinct:
  assumes "grants_wf gs"
  shows "distinct (map (\<lambda>g. the (qg_rse_expression g)) (filter (\<lambda>g. qg_locality g = GLOBAL \<and> qg_bytes g \<noteq> ROLE_QUOTA_NOCAP) (role_grants gs rse role)))"
  (is "distinct (map ?k ?gs)")
proof -
  have "distinct ?gs" using assms by (auto simp: grants_wf_def role_grants_def distinct_map)
  moreover have "inj_on ?k (set ?gs)"
  proof (rule inj_onI)
    fix g h assume g: "g \<in> set ?gs" and h: "h \<in> set ?gs" and eq: "?k g = ?k h"
    have "qg_rse_expression g \<noteq> None" "qg_rse_expression h \<noteq> None"
      using g h assms by (auto simp: grants_wf_def role_grants_def)
    then show "g = h"
      using g h eq by (intro grant_key_inj [OF assms]) (auto simp: role_grants_def grant_key_def)
  qed
  ultimately show ?thesis by (simp add: distinct_map)
qed

text \<open>The capped global limits of a role, by expression.\<close>

definition global_space :: "quota_grant list \<Rightarrow> string \<Rightarrow> usage \<Rightarrow> string \<Rightarrow> (string \<times> int) set" where
  "global_space gs rse u role =
     {(x, n). \<exists>g \<in> covering gs rse role. qg_locality g = GLOBAL \<and> qg_rse_expression g = Some x \<and> grant_left u g = Bytes n}"

lemma role_left_None: "role_left u rse (role_grants gs rse role) = None \<longleftrightarrow> \<not> has_local gs rse role"
proof -
  have "role_left u rse (role_grants gs rse role) = None \<longleftrightarrow> find (\<lambda>g. qg_locality g = LOCAL) (role_grants gs rse role) = None"
    by (auto simp: role_left_def split: option.splits)
  then show ?thesis by (auto simp: find_None_iff has_local_def set_role_grants)
qed

lemma role_left_Some:
  assumes wf: "grants_wf gs" and eq: "role_left u rse (role_grants gs rse role) = Some (l, gl)"
  shows "\<exists>g \<in> covering gs rse role. qg_locality g = LOCAL \<and> l = grant_left u g"
    and "set gl = global_space gs rse u role"
    and "space_left (l, gl) = role_space gs rse u role"
proof -
  let ?globals = "filter (\<lambda>g. qg_locality g = GLOBAL \<and> qg_bytes g \<noteq> ROLE_QUOTA_NOCAP) (role_grants gs rse role)"
  obtain g where g: "find (\<lambda>g. qg_locality g = LOCAL) (role_grants gs rse role) = Some g"
    using eq by (auto simp: role_left_def split: option.splits)
  then have cov: "g \<in> covering gs rse role" and loc: "qg_locality g = LOCAL"
    by (auto simp: find_Some_iff set_role_grants [symmetric])
  have "qg_rse_ids g = [rse]" using cov loc wf by (fastforce simp: covering_def grants_wf_def)
  then have l: "l = grant_left u g" using eq g by (auto simp: role_left_def grant_left_def)
  have gl: "gl = map (\<lambda>g. (the (qg_rse_expression g), qg_bytes g - (\<Sum>r \<leftarrow> qg_rse_ids g. used u r))) ?globals"
  proof -
    have "fold (\<lambda>g. AList.update (the (qg_rse_expression g)) (qg_bytes g - (\<Sum>r \<leftarrow> qg_rse_ids g. used u r))) ?globals []
            = [] @ map (\<lambda>g. (the (qg_rse_expression g), qg_bytes g - (\<Sum>r \<leftarrow> qg_rse_ids g. used u r))) ?globals"
      using global_keys_distinct [OF wf, of rse role] by (intro fold_update_distinct) simp
    then show ?thesis using eq g by (auto simp: role_left_def)
  qed
  show "\<exists>g \<in> covering gs rse role. qg_locality g = LOCAL \<and> l = grant_left u g" using cov loc l by blast
  show set_gl: "set gl = global_space gs rse u role"
  proof (rule set_eqI, rule prod.induct)
    fix x n
    have "qg_rse_expression h \<noteq> None" if "h \<in> covering gs rse role" "qg_locality h = GLOBAL" for h
      using that wf by (fastforce simp: covering_def grants_wf_def)
    then show "(x, n) \<in> set gl \<longleftrightarrow> (x, n) \<in> global_space gs rse u role"
      unfolding gl global_space_def by (force simp: set_role_grants grant_left_def split: if_splits)
  qed
  have fin: "finite (covering gs rse role)" by (simp add: covering_def)
  have bytes: "Bytes ` snd ` set gl = grant_left u ` {h \<in> covering gs rse role. qg_locality h = GLOBAL \<and> qg_bytes h \<noteq> ROLE_QUOTA_NOCAP}"
    unfolding gl by (auto simp: set_role_grants grant_left_def image_iff)
  have "Min (grant_left u ` covering gs rse role) = Min (insert l (Bytes ` snd ` set gl))"
  proof (rule Min_eqI)
    fix y assume "y \<in> grant_left u ` covering gs rse role"
    then obtain h where h: "h \<in> covering gs rse role" "y = grant_left u h" by blast
    show "Min (insert l (Bytes ` snd ` set gl)) \<le> y"
    proof (cases "qg_locality h = LOCAL")
      case True
      then have "h = g" using covering_local_unique [OF wf] h cov loc by blast
      then show ?thesis using h l by simp
    next
      case False
      then have "qg_locality h = GLOBAL" by (cases "qg_locality h") simp_all
      show ?thesis
      proof (cases "qg_bytes h = ROLE_QUOTA_NOCAP")
        case True
        then show ?thesis using h by (simp add: grant_left_def)
      next
        case False
        then have "y \<in> Bytes ` snd ` set gl" using bytes h \<open>qg_locality h = GLOBAL\<close> by blast
        then show ?thesis by (intro Min_le) auto
      qed
    qed
  next
    have "Min (insert l (Bytes ` snd ` set gl)) \<in> insert l (Bytes ` snd ` set gl)" by (intro Min_in) auto
    then show "Min (insert l (Bytes ` snd ` set gl)) \<in> grant_left u ` covering gs rse role"
      using bytes l cov by auto
  qed (use fin in simp)
  then show "space_left (l, gl) = role_space gs rse u role" by (simp add: space_left_Min role_space_def)
qed

text \<open>A role is held at most once by an account, so the joins do not repeat rows.\<close>

lemma join_held:
  assumes "distinct (map assignment_key rows)"
  shows "[f l. l \<leftarrow> ls, a \<leftarrow> rows, held now account (role l) a]
           = map f (filter (\<lambda>l. \<exists>a \<in> set rows. held now account (role l) a) ls)"
proof -
  have "[f l. a \<leftarrow> rows, held now account (role l) a] = (if \<exists>a \<in> set rows. held now account (role l) a then [f l] else [])" for l
  proof -
    let ?hs = "filter (held now account (role l)) rows"
    have eq: "[f l. a \<leftarrow> rows, held now account (role l) a] = map (\<lambda>_. f l) ?hs" by (induction rows) auto
    show ?thesis
    proof (cases "\<exists>a \<in> set rows. held now account (role l) a")
      case True
      then obtain a where a: "a \<in> set rows" "held now account (role l) a" by blast
      have "filter (\<lambda>b. assignment_key b = (account, role l)) rows = [a]"
        using assms a by (intro filter_unique_key [where key = assignment_key]) (auto simp: assignment_key_def held_def)
      moreover have "?hs = filter (held now account (role l)) (filter (\<lambda>b. assignment_key b = (account, role l)) rows)"
        unfolding filter_filter by (intro filter_cong) (auto simp: assignment_key_def held_def)
      ultimately have "?hs = [a]" using a(2) by simp
      then show ?thesis using True eq by simp
    next
      case False
      then have "?hs = []" by (simp add: filter_empty_conv)
      then show ?thesis using False eq by simp
    qed
  qed
  then show ?thesis by (induction ls) auto
qed

definition keys_unique :: "rbac_db \<Rightarrow> bool" where
  "keys_unique d \<longleftrightarrow>
     distinct (map assignment_key (account_role_map d)) \<and>
     distinct (map ll_key (role_local_limit_permission_map d)) \<and>
     distinct (map gl_key (role_global_limit_permission_map d))"

lemma held_valid_role: "(\<exists>a \<in> set (account_role_map d). held now account role a) \<longleftrightarrow> has_account_valid_role now d account role"
  by (auto simp: held_def has_account_valid_role_def)

lemma local_grants_filter:
  "keys_unique d \<Longrightarrow> local_grants now d account =
     map local_grant (filter (\<lambda>l. has_account_valid_role now d account (ll_role l)) (sort_key ll_key (role_local_limit_permission_map d)))"
  unfolding local_grants_def by (subst join_held) (simp_all add: keys_unique_def held_valid_role)

lemma global_rows_filter:
  "keys_unique d \<Longrightarrow> global_rows now d account =
     filter (\<lambda>l. has_account_valid_role now d account (gl_role l)) (sort_key gl_key (role_global_limit_permission_map d))"
  unfolding global_rows_def by (subst join_held [where f = "\<lambda>l. l"]) (simp_all add: keys_unique_def held_valid_role)

lemma distinct_sort_keys: "distinct (map key (sort_key k rows)) = distinct (map key rows)"
  by (simp add: distinct_map)

lemma global_grants_Inr:
  "global_grants e ls = Some (Inr gs) \<Longrightarrow> distinct (map gl_key ls) \<Longrightarrow>
     grants_wf gs \<and> (\<forall>g \<in> set gs. qg_locality g = GLOBAL \<and> (\<exists>l \<in> set ls. (qg_role g, qg_rse_expression g) = (gl_role l, Some (gl_rse_expression l))))"
proof (induction ls arbitrary: gs)
  case Nil
  then show ?case by (simp add: grants_wf_def)
next
  case (Cons l ls)
  from Cons.prems(1) obtain ids rest where rest: "global_grants e ls = Some (Inr rest)"
    and gs: "gs = (if ids = [] then rest
              else \<lparr>qg_role = gl_role l, qg_locality = GLOBAL, qg_rse_expression = Some (gl_rse_expression l),
                    qg_rse_ids = ids, qg_bytes = gl_bytes l\<rparr> # rest)"
    by (auto simp: bind_eq_Some_conv obind_eq_Inr rbind_eq_Inr)
  have IH: "grants_wf rest \<and> (\<forall>g \<in> set rest. qg_locality g = GLOBAL \<and>
     (\<exists>l \<in> set ls. (qg_role g, qg_rse_expression g) = (gl_role l, Some (gl_rse_expression l))))"
    using Cons.prems(2) by (intro Cons.IH [OF rest]) simp
  have "grant_key g \<noteq> (gl_role l, Some (gl_rse_expression l), [])" if g: "g \<in> set rest" for g
  proof -
    obtain k where "k \<in> set ls" and k: "qg_role g = gl_role k" "qg_rse_expression g = Some (gl_rse_expression k)"
      using IH g by blast
    then have "gl_key k \<noteq> gl_key l" using Cons.prems(2) by (metis distinct.simps(2) image_eqI list.set_map list.simps(9))
    then show ?thesis using k by (auto simp: grant_key_def gl_key_def)
  qed
  then show ?case using IH Cons.prems(2) unfolding gs grants_wf_def by (auto simp: grant_key_def image_iff)
qed

lemma local_grants_wf:
  assumes "distinct (map ll_key ls)"
  shows "grants_wf (map local_grant ls)"
proof -
  have "inj_on (grant_key \<circ> local_grant) (set ls)"
  proof (rule inj_onI)
    fix k l assume "k \<in> set ls" "l \<in> set ls" and "(grant_key \<circ> local_grant) k = (grant_key \<circ> local_grant) l"
    moreover from this have "ll_key k = ll_key l" by (simp add: grant_key_def local_grant_def ll_key_def)
    ultimately show "k = l" using assms by (auto simp: distinct_map dest: inj_onD)
  qed
  moreover have "distinct ls" using assms by (simp add: distinct_map)
  ultimately show ?thesis by (auto simp: grants_wf_def distinct_map local_grant_def)
qed

lemma grants_wf_append:
  assumes "grants_wf gs" and "grants_wf hs" and "\<forall>g \<in> set gs. qg_locality g = LOCAL" and "\<forall>h \<in> set hs. qg_locality h = GLOBAL"
  shows "grants_wf (gs @ hs)"
proof -
  have "grant_key g \<noteq> grant_key h" if "g \<in> set gs" "h \<in> set hs" for g h
    using that assms by (fastforce simp: grants_wf_def grant_key_def)
  then have "set (map grant_key gs) \<inter> set (map grant_key hs) = {}" by (auto 0 0) (metis (full_types))
  then show ?thesis using assms(1,2) unfolding grants_wf_def by (auto simp del: set_map)
qed

lemma listed_grants:
  assumes keys: "keys_unique d" and "list_account_rse_quota_grants e now d account = Some (Inr grants)"
  shows "grants_wf grants"
    and "has_local grants rse role \<longleftrightarrow>
           has_account_valid_role now d account role \<and> (role, rse) \<in> ll_key ` set (role_local_limit_permission_map d)"
proof -
  obtain gs where gs: "global_grants e (global_rows now d account) = Some (Inr gs)"
    and grants: "grants = local_grants now d account @ gs"
    using assms(2) by (auto simp: list_account_rse_quota_grants_def rbind_eq_Inr)
  have "distinct (map gl_key (global_rows now d account))"
    using keys by (simp add: global_rows_filter keys_unique_def distinct_map_filter_key distinct_sort_keys)
  then have glob: "grants_wf gs \<and> (\<forall>g \<in> set gs. qg_locality g = GLOBAL)" using global_grants_Inr [OF gs] by blast
  have "grants_wf (local_grants now d account)"
    unfolding local_grants_filter [OF keys]
    using keys by (intro local_grants_wf) (simp add: keys_unique_def distinct_map_filter_key distinct_sort_keys)
  then show "grants_wf grants"
    unfolding grants using glob by (intro grants_wf_append) (auto simp: local_grants_filter [OF keys] local_grant_def)
  have "has_local grants rse role \<longleftrightarrow> (\<exists>g \<in> set (local_grants now d account). rse \<in> set (qg_rse_ids g) \<and> qg_role g = role)"
    using glob unfolding has_local_def covering_def grants
    by (auto simp: local_grants_filter [OF keys] local_grant_def)
  then show "has_local grants rse role \<longleftrightarrow>
           has_account_valid_role now d account role \<and> (role, rse) \<in> ll_key ` set (role_local_limit_permission_map d)"
    by (auto simp: local_grants_filter [OF keys] local_grant_def ll_key_def image_iff)
qed

lemma rse_quota_left_grants:
  "rse_quota_left grants rse u =
     fold (\<lambda>role. better (role_left u rse (role_grants grants rse role)))
       (rev (remdups (rev (map qg_role (filter (\<lambda>g. rse \<in> set (qg_rse_ids g)) grants))))) None"
  by (simp add: rse_quota_left_def Let_def role_grants_def)

lemma quota_best_role:
  assumes wf: "grants_wf grants"
  shows "case rse_quota_left grants rse u of
     None \<Rightarrow> \<forall>role. \<not> has_local grants rse role
   | Some (l, gl) \<Rightarrow>
       \<exists>role. has_local grants rse role \<and>
         (\<exists>g \<in> covering grants rse role. qg_locality g = LOCAL \<and> l = grant_left u g) \<and>
         set gl = global_space grants rse u role \<and> space_left (l, gl) = role_space grants rse u role \<and>
         (\<forall>role'. has_local grants rse role' \<longrightarrow> role_space grants rse u role' \<le> role_space grants rse u role)"
proof -
  let ?f = "\<lambda>role. role_left u rse (role_grants grants rse role)"
  let ?roles = "rev (remdups (rev (map qg_role (filter (\<lambda>g. rse \<in> set (qg_rse_ids g)) grants))))"
  have all: "role \<in> set ?roles" if "has_local grants rse role" for role
    using that by (auto simp: has_local_def covering_def)
  note best = fold_better [where f = ?f and rs = ?roles, folded rse_quota_left_grants]
  show ?thesis
  proof (cases "rse_quota_left grants rse u")
    case None
    then show ?thesis using best all role_left_None [of u rse grants] by fastforce
  next
    case (Some p)
    obtain l gl where p: "p = (l, gl)" by (metis prod.exhaust)
    obtain role where role: "?f role = Some (l, gl)"
      and max: "\<And>r c. r \<in> set ?roles \<Longrightarrow> ?f r = Some c \<Longrightarrow> space_left c \<le> space_left (l, gl)"
      using best Some p by auto
    note left = role_left_Some [OF wf role]
    have "role_space grants rse u role' \<le> role_space grants rse u role" if local: "has_local grants rse role'" for role'
    proof -
      obtain l' gl' where eq: "?f role' = Some (l', gl')" using local role_left_None [of u rse grants role'] by fastforce
      then show ?thesis using max [OF all [OF local] eq] role_left_Some(3) [OF wf eq] left(3) by simp
    qed
    moreover have "has_local grants rse role" using role role_left_None [of u rse grants role] by auto
    ultimately show ?thesis using Some p left by auto
  qed
qed

text \<open>The space that the roles of an account leave on an RSE. The account limits apply (\<open>None\<close>) exactly when no role
  that the account holds through an active assignment has a local limit on the RSE. Otherwise the result is that
  of one such role: what its local limit leaves and what each of its capped global limits that cover the
  RSE leaves, by expression; the least of these is the space the role leaves, and no other role with a local limit
  on the RSE leaves more.\<close>

theorem role_quota_best:
  assumes "keys_unique d" and "list_account_rse_quota_grants e now d account = Some (Inr grants)"
  shows "(\<forall>role. has_local grants rse role \<longleftrightarrow>
            has_account_valid_role now d account role \<and> (role, rse) \<in> ll_key ` set (role_local_limit_permission_map d)) \<and>
         (case rse_quota_left grants rse u of
            None \<Rightarrow> \<forall>role. \<not> has_local grants rse role
          | Some (l, gl) \<Rightarrow>
              \<exists>role. has_local grants rse role \<and>
                (\<exists>g \<in> covering grants rse role. qg_locality g = LOCAL \<and> l = grant_left u g) \<and>
                set gl = global_space grants rse u role \<and> space_left (l, gl) = role_space grants rse u role \<and>
                (\<forall>role'. has_local grants rse role' \<longrightarrow> role_space grants rse u role' \<le> role_space grants rse u role))"
  using listed_grants [OF assms] quota_best_role by blast

definition demo_limits :: rbac_db where
  "demo_limits =
     \<lparr>accounts = [''alice''],
      roles = [\<lparr>ro_role = ''small'', ro_description = None, ro_assignable = True, ro_locked = False\<rparr>,
               \<lparr>ro_role = ''big'', ro_description = None, ro_assignable = True, ro_locked = False\<rparr>],
      account_role_map = [\<lparr>ra_account = ''alice'', ra_role = ''small'', ra_activates_at = 0, ra_expires_at = None\<rparr>,
                          \<lparr>ra_account = ''alice'', ra_role = ''big'', ra_activates_at = 0, ra_expires_at = Some 50\<rparr>],
      role_did_permission_map = [],
      role_local_limit_permission_map = [\<lparr>ll_role = ''small'', ll_rse_id = ''r1'', ll_bytes = 10\<rparr>,
                                         \<lparr>ll_role = ''big'', ll_rse_id = ''r1'', ll_bytes = 100\<rparr>],
      role_global_limit_permission_map = []\<rparr>"

theorem role_quota_best_witness:
  "keys_unique demo_limits \<and>
   rse_quota_left (local_grants 5 demo_limits ''alice'') ''r1'' [(''r1'', 7)] = Some (Bytes 93, []) \<and>
   (\<exists>role. has_local (local_grants 5 demo_limits ''alice'') ''r1'' role \<and>
      role_space (local_grants 5 demo_limits ''alice'') ''r1'' [(''r1'', 7)] role = Bytes 93 \<and>
      role_space (local_grants 5 demo_limits ''alice'') ''r1'' [(''r1'', 7)] ''small'' \<le> Bytes 93)"
proof -
  let ?gs = "local_grants 5 demo_limits ''alice''"
  have keys: "keys_unique demo_limits" by code_simp
  have "global_rows 5 demo_limits ''alice'' = []" by code_simp
  then have gs: "list_account_rse_quota_grants e 5 demo_limits ''alice'' = Some (Inr ?gs)" for e
    by (simp add: list_account_rse_quota_grants_def)
  have eval: "rse_quota_left ?gs ''r1'' [(''r1'', 7)] = Some (Bytes 93, [])" by code_simp
  have small: "has_account_valid_role 5 demo_limits ''alice'' ''small''" by code_simp
  have key: "(''small'', ''r1'') \<in> ll_key ` set (role_local_limit_permission_map demo_limits)"
    by (simp add: demo_limits_def ll_key_def)
  have "space_left (Bytes 93, []) = Bytes 93" by (simp add: space_left_def)
  then show ?thesis
    using role_quota_best [OF keys gs, where rse = "''r1''" and u = "[(''r1'', 7)]"] keys eval small key by auto
qed

end
