(* ===== verification/Role_Sync.thy ===== *)
theory Role_Sync
  imports Roles "HOL-Library.AList"
begin

text \<open>
  Synchronisation of roles, from \<^verbatim>\<open>core/role.py\<close>: of the table of roles with the roles that the policy package defines, and
  of the assignments of an account with the roles that an identity provider supplies, each with its dry run.

  The printed lines and the text of the reports are left out; the lists and counters that the reports carry are
  part of the model. A synchronisation is one transaction: an exception leaves the database as it was.
\<close>

section \<open>The policy package\<close>

text \<open>The roles of the policy package are a dictionary from the name to the description it gives.\<close>

type_synonym policy_roles = "(string \<times> py_value) list"

record policy_report =
  pr_created :: nat
  pr_updated :: nat
  pr_unchanged :: nat
  pr_skipped_locked :: nat
  pr_skipped_reserved :: nat
  pr_deleted :: nat
  pr_unassigned :: nat

definition empty_policy_report :: policy_report where
  "empty_policy_report = \<lparr>pr_created = 0, pr_updated = 0, pr_unchanged = 0, pr_skipped_locked = 0,
     pr_skipped_reserved = 0, pr_deleted = 0, pr_unassigned = 0\<rparr>"

text \<open>The roles known to Rucio, by name, in the order of the names.\<close>

definition known_roles :: "rbac_db \<Rightarrow> (string \<times> role_row) list" where
  "known_roles d = map (\<lambda>(r, _). (ro_role r, r)) (list_roles d)"

definition policy_step ::
  "(string \<times> role_row) list \<Rightarrow> string \<times> py_value \<Rightarrow> policy_report \<times> rbac_db \<Rightarrow> role_error + policy_report \<times> rbac_db" where
  "policy_step current = (\<lambda>(role, v) (rep, d).
     rbind (normalize_description v) (\<lambda>description.
       if is_reserved_role role then Inr (rep\<lparr>pr_skipped_reserved := Suc (pr_skipped_reserved rep)\<rparr>, d)
       else case map_of current role of
         None \<Rightarrow> Inr (rep\<lparr>pr_created := Suc (pr_created rep)\<rparr>,
                      d\<lparr>roles := roles d @ [\<lparr>ro_role = role, ro_description = description, ro_assignable = True, ro_locked = False\<rparr>]\<rparr>)
       | Some r \<Rightarrow>
           if ro_locked r then Inr (rep\<lparr>pr_skipped_locked := Suc (pr_skipped_locked rep)\<rparr>, d)
           else if ro_description r \<noteq> description then
             Inr (rep\<lparr>pr_updated := Suc (pr_updated rep)\<rparr>,
                  d\<lparr>roles := upd_where (\<lambda>x. ro_role x = role) (\<lambda>x. x\<lparr>ro_description := description\<rparr>) (roles d)\<rparr>)
           else Inr (rep\<lparr>pr_unchanged := Suc (pr_unchanged rep)\<rparr>, d)))"

definition policy_delete_step :: "string \<times> role_row \<Rightarrow> policy_report \<times> rbac_db \<Rightarrow> policy_report \<times> rbac_db" where
  "policy_delete_step = (\<lambda>(role, r) (rep, d).
     if is_reserved_role role then (rep\<lparr>pr_skipped_reserved := Suc (pr_skipped_reserved rep)\<rparr>, d)
     else if ro_locked r then (rep\<lparr>pr_skipped_locked := Suc (pr_skipped_locked rep)\<rparr>, d)
     else let (n, d') = remove_accounts_from_role role d
          in (rep\<lparr>pr_deleted := Suc (pr_deleted rep), pr_unassigned := pr_unassigned rep + n\<rparr>, d'))"

definition sync_roles_from_policy_package :: "policy_roles \<Rightarrow> rbac_db \<Rightarrow> role_error + policy_report \<times> rbac_db" where
  "sync_roles_from_policy_package policy d =
     (let current = known_roles d in
      rbind (rfold (policy_step current) (sort_key fst policy) (empty_policy_report, d)) (\<lambda>s.
        Inr (fold policy_delete_step (filter (\<lambda>(role, _). role \<notin> set (map fst policy)) current) s)))"

text \<open>The dry run counts what the synchronisation would do.\<close>

definition policy_dry_step ::
  "(string \<times> role_row) list \<Rightarrow> string \<times> py_value \<Rightarrow> policy_report \<Rightarrow> role_error + policy_report" where
  "policy_dry_step current = (\<lambda>(role, v) rep.
     rbind (normalize_description v) (\<lambda>description.
       if is_reserved_role role then Inr (rep\<lparr>pr_skipped_reserved := Suc (pr_skipped_reserved rep)\<rparr>)
       else case map_of current role of
         None \<Rightarrow> Inr (rep\<lparr>pr_created := Suc (pr_created rep)\<rparr>)
       | Some r \<Rightarrow>
           if ro_locked r then Inr (rep\<lparr>pr_skipped_locked := Suc (pr_skipped_locked rep)\<rparr>)
           else if ro_description r \<noteq> description then Inr (rep\<lparr>pr_updated := Suc (pr_updated rep)\<rparr>)
           else Inr (rep\<lparr>pr_unchanged := Suc (pr_unchanged rep)\<rparr>)))"

definition policy_dry_delete_step :: "string \<times> role_row \<Rightarrow> policy_report \<Rightarrow> policy_report" where
  "policy_dry_delete_step = (\<lambda>(role, r) rep.
     if is_reserved_role role then rep\<lparr>pr_skipped_reserved := Suc (pr_skipped_reserved rep)\<rparr>
     else if ro_locked r then rep\<lparr>pr_skipped_locked := Suc (pr_skipped_locked rep)\<rparr>
     else rep\<lparr>pr_deleted := Suc (pr_deleted rep)\<rparr>)"

definition sync_roles_from_policy_package_dry_run :: "policy_roles \<Rightarrow> rbac_db \<Rightarrow> role_error + policy_report" where
  "sync_roles_from_policy_package_dry_run policy d =
     (let current = known_roles d in
      rbind (rfold (policy_dry_step current) (sort_key fst policy) empty_policy_report) (\<lambda>rep.
        Inr (fold policy_dry_delete_step (filter (\<lambda>(role, _). role \<notin> set (map fst policy)) current) rep)))"

section \<open>Roles supplied by an identity provider\<close>

datatype idp_entry = EntryName string | EntryMapping "(string \<times> py_value) list" | EntryOther

datatype idp_roles = IdpNone | IdpMapping "(string \<times> py_value) list" | IdpList "idp_entry list" | IdpOther

type_synonym desired = "(string \<times> date option) list"

text \<open>\<^verbatim>\<open>entry.get("role", entry.get("name"))\<close>, which must be a string that is not blank.\<close>

definition entry_role :: "(string \<times> py_value) list \<Rightarrow> role_error + string" where
  "entry_role m =
     (case (case map_of m ''role'' of Some v \<Rightarrow> Some v | None \<Rightarrow> map_of m ''name'') of
        Some (VStr s) \<Rightarrow> if strip s = [] then Inl RoleInputValidationError else Inr (strip s)
      | _ \<Rightarrow> Inl RoleInputValidationError)"

definition parse_idp_entry :: "rbac_env \<Rightarrow> idp_entry \<Rightarrow> desired \<Rightarrow> role_error + desired" where
  "parse_idp_entry e entry parsed =
     (case entry of
        EntryName s \<Rightarrow> Inr (AList.update (strip s) None parsed)
      | EntryMapping m \<Rightarrow>
          rbind (entry_role m) (\<lambda>role.
          rbind (normalize_date e (case map_of m ''expires_at'' of Some v \<Rightarrow> v | None \<Rightarrow> VNone)) (\<lambda>x.
            Inr (AList.update role x parsed)))
      | EntryOther \<Rightarrow> Inl RoleInputValidationError)"

fun parse_idp_roles :: "rbac_env \<Rightarrow> idp_roles \<Rightarrow> role_error + desired" where
  "parse_idp_roles e IdpNone = Inr []"
| "parse_idp_roles e (IdpMapping m) =
     rfold (\<lambda>(role, v) parsed. rbind (normalize_date e v) (\<lambda>x. Inr (AList.update role x parsed))) m []"
| "parse_idp_roles e (IdpList es) = rfold (parse_idp_entry e) es []"
| "parse_idp_roles e IdpOther = Inl RoleInputValidationError"

definition not_assignable :: "(string \<times> role_row) list \<Rightarrow> string \<Rightarrow> bool" where
  "not_assignable known role \<longleftrightarrow> (case map_of known role of None \<Rightarrow> False | Some r \<Rightarrow> \<not> ro_assignable r)"

record sync_report =
  sr_dry_run :: bool
  sr_supplied :: "(string \<times> date option \<times> bool option) list"
  sr_current :: "(string \<times> int \<times> int option \<times> bool option) list"
  sr_removed_expired :: "(string \<times> int option) list"
  sr_removed_unsupplied :: "(string \<times> int option) list"
  sr_added :: "(string \<times> date option) list"
  sr_updated :: "(string \<times> int option \<times> date option) list"
  sr_unchanged :: "(string \<times> int option) list"
  sr_held_back :: "string list"
  sr_ignored_expired :: "(string \<times> date option) list"
  sr_unknown :: "string list"

definition report_assignable :: "(string \<times> role_row) list \<Rightarrow> string \<Rightarrow> bool option" where
  "report_assignable known role = (if role \<in> set (map fst known) then Some (\<not> not_assignable known role) else None)"

definition new_sync_report ::
  "bool \<Rightarrow> desired \<Rightarrow> (string \<times> assignment) list \<Rightarrow> (string \<times> role_row) list \<Rightarrow> sync_report" where
  "new_sync_report dry_run desired current known =
     \<lparr>sr_dry_run = dry_run,
      sr_supplied = map (\<lambda>(role, x). (role, x, report_assignable known role)) (sort_key fst desired),
      sr_current = map (\<lambda>(role, a). (role, ra_activates_at a, ra_expires_at a, report_assignable known role)) (sort_key fst current),
      sr_removed_expired = [], sr_removed_unsupplied = [], sr_added = [], sr_updated = [], sr_unchanged = [],
      sr_held_back = [], sr_ignored_expired = [], sr_unknown = []\<rparr>"

definition hold_back :: "string \<Rightarrow> sync_report \<Rightarrow> sync_report" where
  "hold_back role rep = (if role \<in> set (sr_held_back rep) then rep else rep\<lparr>sr_held_back := sr_held_back rep @ [role]\<rparr>)"

text \<open>\<^verbatim>\<open>x is not None and x <= t\<close>\<close>

definition date_passed :: "date option \<Rightarrow> int \<Rightarrow> role_error + bool" where
  "date_passed x t = (case x of None \<Rightarrow> Inr False | Some y \<Rightarrow> date_le y (Naive t))"

section \<open>Synchronisation of an account\<close>

record sync_state =
  ss_report :: sync_report
  ss_expired :: "string list"
  ss_db :: rbac_db

text \<open>Step 1: remove the expired assignments.\<close>

definition sync_expired ::
  "int \<Rightarrow> internal \<Rightarrow> (string \<times> role_row) list \<Rightarrow> string \<times> assignment \<Rightarrow> sync_state \<Rightarrow> sync_state" where
  "sync_expired now account known = (\<lambda>(role, a) s.
     if \<not> assignment_expired now a then s
     else if not_assignable known role then s\<lparr>ss_report := hold_back role (ss_report s)\<rparr>
     else let rep = ss_report s
          in s\<lparr>ss_report := rep\<lparr>sr_removed_expired := sr_removed_expired rep @ [(role, ra_expires_at a)]\<rparr>,
               ss_expired := ss_expired s @ [role],
               ss_db := delete_assignment account role (ss_db s)\<rparr>)"

text \<open>Step 2: remove the roles that are not supplied.\<close>

definition sync_unsupplied ::
  "internal \<Rightarrow> (string \<times> role_row) list \<Rightarrow> string \<times> assignment \<Rightarrow> sync_state \<Rightarrow> sync_state" where
  "sync_unsupplied account known = (\<lambda>(role, a) s.
     if not_assignable known role then s\<lparr>ss_report := hold_back role (ss_report s)\<rparr>
     else let rep = ss_report s
          in s\<lparr>ss_report := rep\<lparr>sr_removed_unsupplied := sr_removed_unsupplied rep @ [(role, ra_expires_at a)]\<rparr>,
               ss_db := delete_assignment account role (ss_db s)\<rparr>)"

text \<open>Step 3: assign the supplied roles that the account does not hold.\<close>

definition sync_add ::
  "int \<Rightarrow> internal \<Rightarrow> (string \<times> role_row) list \<Rightarrow> string \<times> date option \<Rightarrow> sync_state \<Rightarrow> role_error + sync_state" where
  "sync_add now account known = (\<lambda>(role, x) s.
     let rep = ss_report s in
     if role \<notin> set (map fst known) then Inr (s\<lparr>ss_report := rep\<lparr>sr_unknown := sr_unknown rep @ [role]\<rparr>\<rparr>)
     else if not_assignable known role then Inr (s\<lparr>ss_report := hold_back role rep\<rparr>)
     else rbind (date_passed x now) (\<lambda>passed.
       if passed then Inr (s\<lparr>ss_report := rep\<lparr>sr_ignored_expired := sr_ignored_expired rep @ [(role, x)]\<rparr>\<rparr>)
       else Inr (s\<lparr>ss_report := rep\<lparr>sr_added := sr_added rep @ [(role, x)]\<rparr>,
                   ss_db := (ss_db s)\<lparr>account_role_map := account_role_map (ss_db s) @
                     [\<lparr>ra_account = account, ra_role = role, ra_activates_at = now, ra_expires_at = map_option date_stored x\<rparr>]\<rparr>\<rparr>)))"

text \<open>Step 4: update the expiry date of the supplied roles that the account holds. A date with an offset is never equal
  to a stored date.\<close>

definition sync_update ::
  "int \<Rightarrow> internal \<Rightarrow> (string \<times> role_row) list \<Rightarrow> string \<times> assignment \<times> date option \<Rightarrow> sync_state \<Rightarrow> role_error + sync_state" where
  "sync_update now account known = (\<lambda>(role, a, x) s.
     let rep = ss_report s; ignored = s\<lparr>ss_report := rep\<lparr>sr_ignored_expired := sr_ignored_expired rep @ [(role, x)]\<rparr>\<rparr> in
     if x = map_option Naive (ra_expires_at a) then
       Inr (s\<lparr>ss_report := rep\<lparr>sr_unchanged := sr_unchanged rep @ [(role, ra_expires_at a)]\<rparr>\<rparr>)
     else if not_assignable known role then Inr (s\<lparr>ss_report := hold_back role rep\<rparr>)
     else rbind (date_passed x now) (\<lambda>passed.
       if passed then Inr ignored
       else rbind (date_passed x (ra_activates_at a)) (\<lambda>early.
         if early then Inr ignored
         else Inr (s\<lparr>ss_report := rep\<lparr>sr_updated := sr_updated rep @ [(role, ra_expires_at a, x)]\<rparr>,
                     ss_db := (ss_db s)\<lparr>account_role_map :=
                       upd_where (\<lambda>b. assignment_key b = (account, role)) (\<lambda>b. b\<lparr>ra_expires_at := map_option date_stored x\<rparr>)
                         (account_role_map (ss_db s))\<rparr>\<rparr>))))"

definition account_roles :: "rbac_db \<Rightarrow> internal \<Rightarrow> (string \<times> assignment) list" where
  "account_roles d account = map (\<lambda>(a, _). (ra_role a, a)) (list_account_roles d account)"

definition without :: "('k \<times> 'a) list \<Rightarrow> 'k list \<Rightarrow> ('k \<times> 'a) list" where
  "without m ks = filter (\<lambda>(k, _). k \<notin> set ks) m"

definition both :: "('k \<times> 'a) list \<Rightarrow> ('k \<times> 'b) list \<Rightarrow> ('k \<times> 'a \<times> 'b) list" where
  "both m n = [(k, a, b). (k, a) \<leftarrow> m, b \<leftarrow> (case map_of n k of None \<Rightarrow> [] | Some b \<Rightarrow> [b])]"

definition sync_account_roles_from_idp ::
  "rbac_env \<Rightarrow> int \<Rightarrow> internal \<Rightarrow> idp_roles \<Rightarrow> rbac_db \<Rightarrow> role_error + sync_report \<times> rbac_db" where
  "sync_account_roles_from_idp e now account supplied d =
     rbind (ensure_account_exists d account) (\<lambda>_.
     rbind (parse_idp_roles e supplied) (\<lambda>desired.
       let known = known_roles d; current = account_roles d account;
           s0 = \<lparr>ss_report = new_sync_report False desired current known, ss_expired = [], ss_db = d\<rparr>;
           s1 = fold (sync_expired now account known) (sort_key fst current) s0;
           remaining = without current (ss_expired s1);
           s2 = fold (sync_unsupplied account known) (sort_key fst (without remaining (map fst desired))) s1
       in rbind (rfold (sync_add now account known) (sort_key fst (without desired (map fst remaining))) s2) (\<lambda>s3.
          rbind (rfold (sync_update now account known) (sort_key fst (both remaining desired)) s3) (\<lambda>s4.
            Inr (ss_report s4, ss_db s4)))))"

section \<open>Dry run\<close>

definition dry_expired ::
  "int \<Rightarrow> (string \<times> role_row) list \<Rightarrow> string \<times> assignment \<Rightarrow> sync_report \<times> string list \<Rightarrow> sync_report \<times> string list" where
  "dry_expired now known = (\<lambda>(role, a) (rep, expired).
     if \<not> assignment_expired now a then (rep, expired)
     else if not_assignable known role then (hold_back role rep, expired)
     else (rep\<lparr>sr_removed_expired := sr_removed_expired rep @ [(role, ra_expires_at a)]\<rparr>, expired @ [role]))"

definition dry_unsupplied :: "(string \<times> role_row) list \<Rightarrow> string \<times> assignment \<Rightarrow> sync_report \<Rightarrow> sync_report" where
  "dry_unsupplied known = (\<lambda>(role, a) rep.
     if not_assignable known role then hold_back role rep
     else rep\<lparr>sr_removed_unsupplied := sr_removed_unsupplied rep @ [(role, ra_expires_at a)]\<rparr>)"

definition dry_add :: "int \<Rightarrow> (string \<times> role_row) list \<Rightarrow> string \<times> date option \<Rightarrow> sync_report \<Rightarrow> role_error + sync_report" where
  "dry_add now known = (\<lambda>(role, x) rep.
     if role \<notin> set (map fst known) then Inr (rep\<lparr>sr_unknown := sr_unknown rep @ [role]\<rparr>)
     else if not_assignable known role then Inr (hold_back role rep)
     else rbind (date_passed x now) (\<lambda>passed.
       if passed then Inr (rep\<lparr>sr_ignored_expired := sr_ignored_expired rep @ [(role, x)]\<rparr>)
       else Inr (rep\<lparr>sr_added := sr_added rep @ [(role, x)]\<rparr>)))"

definition dry_update ::
  "int \<Rightarrow> (string \<times> role_row) list \<Rightarrow> string \<times> assignment \<times> date option \<Rightarrow> sync_report \<Rightarrow> role_error + sync_report" where
  "dry_update now known = (\<lambda>(role, a, x) rep.
     if x = map_option Naive (ra_expires_at a) then
       Inr (rep\<lparr>sr_unchanged := sr_unchanged rep @ [(role, ra_expires_at a)]\<rparr>)
     else if not_assignable known role then Inr (hold_back role rep)
     else rbind (date_passed x now) (\<lambda>passed.
       if passed then Inr (rep\<lparr>sr_ignored_expired := sr_ignored_expired rep @ [(role, x)]\<rparr>)
       else rbind (date_passed x (ra_activates_at a)) (\<lambda>early.
         if early then Inr (rep\<lparr>sr_ignored_expired := sr_ignored_expired rep @ [(role, x)]\<rparr>)
         else Inr (rep\<lparr>sr_updated := sr_updated rep @ [(role, ra_expires_at a, x)]\<rparr>))))"

definition sync_account_roles_from_idp_dry_run ::
  "rbac_env \<Rightarrow> int \<Rightarrow> internal \<Rightarrow> idp_roles \<Rightarrow> rbac_db \<Rightarrow> role_error + sync_report" where
  "sync_account_roles_from_idp_dry_run e now account supplied d =
     rbind (ensure_account_exists d account) (\<lambda>_.
     rbind (parse_idp_roles e supplied) (\<lambda>desired.
       let known = known_roles d; current = account_roles d account;
           (rep1, expired) = fold (dry_expired now known) (sort_key fst current) (new_sync_report True desired current known, []);
           remaining = without current expired;
           rep2 = fold (dry_unsupplied known) (sort_key fst (without remaining (map fst desired))) rep1
       in rbind (rfold (dry_add now known) (sort_key fst (without desired (map fst remaining))) rep2) (\<lambda>rep3.
          rfold (dry_update now known) (sort_key fst (both remaining desired)) rep3)))"

section \<open>The dry runs predict the synchronisation\<close>

text \<open>A loop whose state projects to that of another loop.\<close>

lemma rfold_project:
  assumes "\<And>x s. map_sum id h (f x s) = g x (h s)"
  shows "map_sum id h (rfold f xs s) = rfold g xs (h s)"
proof (induction xs arbitrary: s)
  case Nil
  then show ?case by simp
next
  case (Cons x xs)
  have "g x (h s) = map_sum id h (f x s)" using assms by simp
  then show ?case using Cons.IH by (cases "f x s") (simp_all add: rbind_def)
qed

lemma fold_project:
  assumes "\<And>x s. h (f x s) = g x (h s)"
  shows "h (fold f xs s) = fold g xs (h s)"
  using assms by (induction xs arbitrary: s) simp_all

definition as_dry :: "sync_report \<Rightarrow> sync_report" where
  "as_dry rep = rep\<lparr>sr_dry_run := True\<rparr>"

lemma as_dry_hold_back: "as_dry (hold_back role rep) = hold_back role (as_dry rep)"
  by (simp add: as_dry_def hold_back_def)

lemma project_sync_expired:
  "(\<lambda>s. (as_dry (ss_report s), ss_expired s)) (sync_expired now account known p s) =
     dry_expired now known p (as_dry (ss_report s), ss_expired s)"
  by (cases p) (simp add: sync_expired_def dry_expired_def as_dry_hold_back, simp add: as_dry_def Let_def)

lemma project_sync_unsupplied:
  "as_dry (ss_report (sync_unsupplied account known p s)) = dry_unsupplied known p (as_dry (ss_report s))"
  by (cases p) (simp add: sync_unsupplied_def dry_unsupplied_def as_dry_hold_back, simp add: as_dry_def Let_def)

lemma project_sync_add:
  "map_sum id (\<lambda>s. as_dry (ss_report s)) (sync_add now account known p s) = dry_add now known p (as_dry (ss_report s))"
  by (cases p; cases "date_passed (snd p) now")
    (simp_all add: sync_add_def dry_add_def as_dry_hold_back Let_def, simp_all add: as_dry_def)

lemma project_sync_update:
  "map_sum id (\<lambda>s. as_dry (ss_report s)) (sync_update now account known p s) = dry_update now known p (as_dry (ss_report s))"
  by (cases p; cases "date_passed (snd (snd p)) now"; cases "date_passed (snd (snd p)) (ra_activates_at (fst (snd p)))")
    (simp_all add: sync_update_def dry_update_def as_dry_hold_back Let_def, simp_all add: as_dry_def)

lemma expired_unsupplied [simp]: "ss_expired (sync_unsupplied account known p s) = ss_expired s"
  by (cases p) (simp add: sync_unsupplied_def Let_def)

lemma idp_dry_run_agrees:
  "sync_account_roles_from_idp_dry_run e now account supplied d =
     map_sum id (\<lambda>(rep, _). as_dry rep) (sync_account_roles_from_idp e now account supplied d)"
proof (cases "ensure_account_exists d account")
  case (Inl err)
  then show ?thesis by (simp add: sync_account_roles_from_idp_def sync_account_roles_from_idp_dry_run_def)
next
  case exists: (Inr u)
  show ?thesis
  proof (cases "parse_idp_roles e supplied")
    case (Inl err)
    then show ?thesis using exists
      by (simp add: sync_account_roles_from_idp_def sync_account_roles_from_idp_dry_run_def)
  next
    case (Inr desired)
    let ?known = "known_roles d" and ?current = "account_roles d account"
    define s0 where "s0 = \<lparr>ss_report = new_sync_report False desired ?current ?known, ss_expired = [], ss_db = d\<rparr>"
    define s1 where "s1 = fold (sync_expired now account ?known) (sort_key fst ?current) s0"
    define remaining where "remaining = without ?current (ss_expired s1)"
    define s2 where "s2 = fold (sync_unsupplied account ?known) (sort_key fst (without remaining (map fst desired))) s1"
    have "(as_dry (ss_report s1), ss_expired s1) =
        fold (dry_expired now ?known) (sort_key fst ?current) (as_dry (ss_report s0), ss_expired s0)"
      unfolding s1_def
      by (rule fold_project [where h = "\<lambda>s. (as_dry (ss_report s), ss_expired s)"]) (rule project_sync_expired)
    then have d1: "fold (dry_expired now ?known) (sort_key fst ?current) (new_sync_report True desired ?current ?known, [])
        = (as_dry (ss_report s1), ss_expired s1)"
      by (simp add: s0_def as_dry_def new_sync_report_def)
    have d2: "fold (dry_unsupplied ?known) (sort_key fst (without remaining (map fst desired))) (as_dry (ss_report s1)) = as_dry (ss_report s2)"
      unfolding s2_def
      by (rule fold_project [where h = "\<lambda>s. as_dry (ss_report s)", symmetric]) (rule project_sync_unsupplied)
    have d3: "rfold (dry_add now ?known) xs (as_dry (ss_report s)) =
        map_sum id (\<lambda>s. as_dry (ss_report s)) (rfold (sync_add now account ?known) xs s)" for xs s
      by (rule rfold_project [symmetric]) (rule project_sync_add)
    have d4: "rfold (dry_update now ?known) xs (as_dry (ss_report s)) =
        map_sum id (\<lambda>s. as_dry (ss_report s)) (rfold (sync_update now account ?known) xs s)" for xs s
      by (rule rfold_project [symmetric]) (rule project_sync_update)
    let ?adds = "rfold (sync_add now account ?known) (sort_key fst (without desired (map fst remaining))) s2"
    have real: "sync_account_roles_from_idp e now account supplied d =
        rbind ?adds (\<lambda>s3. rbind (rfold (sync_update now account ?known) (sort_key fst (both remaining desired)) s3) (\<lambda>s4. Inr (ss_report s4, ss_db s4)))"
      using exists Inr by (simp add: sync_account_roles_from_idp_def Let_def s0_def s1_def s2_def remaining_def)
    have dry: "sync_account_roles_from_idp_dry_run e now account supplied d =
        rbind (map_sum id (\<lambda>s. as_dry (ss_report s)) ?adds) (rfold (dry_update now ?known) (sort_key fst (both remaining desired)))"
      using exists Inr d1 d2 d3
      by (simp add: sync_account_roles_from_idp_dry_run_def Let_def remaining_def [symmetric])
    show ?thesis
      unfolding real dry by (cases ?adds) (simp_all add: d4 rbind_def split: sum.splits)
  qed
qed

section \<open>The assignments after a synchronisation\<close>

text \<open>Keys, references and dates of the tables of roles and assignments.\<close>

definition period_ok :: "assignment \<Rightarrow> bool" where
  "period_ok a \<longleftrightarrow> (case ra_expires_at a of None \<Rightarrow> True | Some x \<Rightarrow> ra_activates_at a < x)"

definition assignments_wf :: "rbac_db \<Rightarrow> bool" where
  "assignments_wf d \<longleftrightarrow>
     distinct (map ro_role (roles d)) \<and> distinct (map assignment_key (account_role_map d)) \<and>
     (\<forall>a \<in> set (account_role_map d). ra_role a \<in> set (map ro_role (roles d)) \<and> ra_account a \<in> set (accounts d) \<and> period_ok a)"

text \<open>What the assignment of one role becomes, decided for the role alone.\<close>

definition synced_assignment :: "int \<Rightarrow> internal \<Rightarrow> rbac_db \<Rightarrow> desired \<Rightarrow> string \<Rightarrow> assignment option" where
  "synced_assignment now account d desired role =
     (let old = find_assignment d account role
      in case find_role d role of
           None \<Rightarrow> None
         | Some r \<Rightarrow>
             if \<not> ro_assignable r then old
             else
               (case map_of desired role of
                  None \<Rightarrow> None
                | Some x \<Rightarrow>
                    (let y = map_option date_stored x in
                     case (case old of Some a \<Rightarrow> if assignment_expired now a then None else Some a | None \<Rightarrow> None) of
                       None \<Rightarrow>
                         if (case y of None \<Rightarrow> True | Some t \<Rightarrow> now < t)
                         then Some \<lparr>ra_account = account, ra_role = role, ra_activates_at = now, ra_expires_at = y\<rparr> else None
                     | Some a \<Rightarrow>
                         if (case y of None \<Rightarrow> True | Some t \<Rightarrow> now < t \<and> ra_activates_at a < t)
                         then Some (a\<lparr>ra_expires_at := y\<rparr>) else Some a)))"

lemma map_of_sort: "distinct (map fst m) \<Longrightarrow> map_of (sort_key fst m) = map_of m"
  by (intro map_of_inject_set [THEN iffD2]) (simp_all add: distinct_map)

lemma map_of_rows:
  "map_of (map (\<lambda>r. (key r, r)) rows) k = find (\<lambda>r. key r = k) rows"
  by (induction rows) auto

lemma find_sort:
  assumes "distinct (map key rows)"
  shows "find (\<lambda>r. key r = k) (sort_key key rows) = find (\<lambda>r. key r = k) rows"
proof -
  let ?m = "map (\<lambda>r. (key r, r)) rows"
  have "map_of (map (\<lambda>r. (key r, r)) (sort_key key rows)) = map_of ?m"
    using assms by (intro map_of_inject_set [THEN iffD2]) (simp_all add: comp_def distinct_map)
  then show ?thesis using map_of_rows [of key "sort_key key rows" k] map_of_rows [of key rows k] by simp
qed

lemma find_filter: "find P (filter Q xs) = find (\<lambda>x. Q x \<and> P x) xs"
  by (induction xs) auto

lemma find_key: "distinct (map key rows) \<Longrightarrow> r \<in> set rows \<Longrightarrow> key r = k \<Longrightarrow> find (\<lambda>x. key x = k) rows = Some r"
  by (induction rows) (auto simp: image_iff)

lemma known_roles_find: "distinct (map ro_role (roles d)) \<Longrightarrow> map_of (known_roles d) role = find_role d role"
  by (simp add: known_roles_def list_roles_def comp_def map_of_rows find_sort find_role_def)

lemma known_roles_names: "set (map fst (known_roles d)) = set (map ro_role (roles d))"
  by (force simp: known_roles_def list_roles_def)

lemma find_role_None: "find_role d role = None \<longleftrightarrow> role \<notin> set (map ro_role (roles d))"
  by (auto simp: find_role_def find_None_iff)

lemma not_assignable_iff:
  "distinct (map ro_role (roles d)) \<Longrightarrow>
     not_assignable (known_roles d) role \<longleftrightarrow> (case find_role d role of None \<Rightarrow> False | Some r \<Rightarrow> \<not> ro_assignable r)"
  by (simp add: not_assignable_def known_roles_find)

lemma account_roles_rows:
  assumes "assignments_wf d"
  shows "account_roles d account = map (\<lambda>a. (ra_role a, a)) (sort_key ra_role (filter (\<lambda>a. ra_account a = account) (account_role_map d)))"
proof -
  have one: "[(a, ro_description r, is_reserved_role (ra_role a)). r \<leftarrow> roles d, ro_role r = ra_role a] =
      [(a, ro_description (the (find_role d (ra_role a))), is_reserved_role (ra_role a))]" if "a \<in> set (account_role_map d)" for a
  proof -
    have "ra_role a \<in> ro_role ` set (roles d)" using assms that by (simp add: assignments_wf_def)
    then obtain r where r: "r \<in> set (roles d)" "ro_role r = ra_role a" by (metis imageE)
    have "filter (\<lambda>x. ro_role x = ra_role a) (roles d) = [r]"
      using assms r by (intro filter_unique_key [where key = ro_role]) (auto simp: assignments_wf_def)
    moreover have "find_role d (ra_role a) = Some r"
      using assms r by (auto simp: find_role_def assignments_wf_def intro: find_key)
    moreover have "[(a, ro_description r, is_reserved_role (ra_role a)). r \<leftarrow> rs, ro_role r = ra_role a] =
        map (\<lambda>r. (a, ro_description r, is_reserved_role (ra_role a))) (filter (\<lambda>r. ro_role r = ra_role a) rs)" for rs :: "role_row list"
      by (induction rs) auto
    ultimately show ?thesis by simp
  qed
  have "map (\<lambda>(a, _). (ra_role a, a)) (concat (map (\<lambda>a. [(a, ro_description r, is_reserved_role (ra_role a)). r \<leftarrow> roles d, ro_role r = ra_role a]) as))
      = map (\<lambda>a. (ra_role a, a)) as" if "set as \<subseteq> set (account_role_map d)" for as
    using that by (induction as) (simp_all add: one)
  then show ?thesis by (simp add: account_roles_def list_account_roles_def)
qed

lemma account_roles_distinct: "assignments_wf d \<Longrightarrow> distinct (map fst (account_roles d account))"
proof -
  assume wf: "assignments_wf d"
  have "inj_on ra_role (set (filter (\<lambda>a. ra_account a = account) (account_role_map d)))"
  proof (rule inj_onI)
    fix a b assume "a \<in> set (filter (\<lambda>a. ra_account a = account) (account_role_map d))"
      and "b \<in> set (filter (\<lambda>a. ra_account a = account) (account_role_map d))" and "ra_role a = ra_role b"
    then have "a \<in> set (account_role_map d)" "b \<in> set (account_role_map d)" "assignment_key a = assignment_key b"
      by (simp_all add: assignment_key_def)
    moreover have "inj_on assignment_key (set (account_role_map d))" using wf by (simp add: assignments_wf_def distinct_map)
    ultimately show "a = b" by (simp add: inj_on_eq_iff)
  qed
  moreover have "distinct (account_role_map d)" using wf by (simp add: assignments_wf_def distinct_map)
  ultimately show ?thesis by (simp add: account_roles_rows [OF wf] distinct_map comp_def)
qed

lemma account_roles_find: "assignments_wf d \<Longrightarrow> map_of (account_roles d account) role = find_assignment d account role"
proof -
  assume wf: "assignments_wf d"
  let ?rows = "filter (\<lambda>a. ra_account a = account) (account_role_map d)"
  have "distinct (map ra_role ?rows)"
    using account_roles_distinct [OF wf, of account] by (simp add: account_roles_rows [OF wf] distinct_map comp_def)
  then have "map_of (account_roles d account) role = find (\<lambda>a. ra_role a = role) ?rows"
    by (simp add: account_roles_rows [OF wf] map_of_rows find_sort)
  also have "\<dots> = find_assignment d account role"
    unfolding find_assignment_def find_filter by (simp add: assignment_key_def)
  finally show ?thesis .
qed

text \<open>A loop over distinct keys in which the step for a key changes the view of that key alone.\<close>

lemma rfold_pointwise:
  assumes "\<And>k a s. (k, a) \<in> set xs \<Longrightarrow> ok s \<Longrightarrow> P k a (view s k) \<Longrightarrow>
       \<exists>s'. f (k, a) s = Inr s' \<and> ok s' \<and> (\<forall>r. view s' r = (if r = k then G k a (view s r) else view s r))"
    and "distinct (map fst xs)" and "ok s" and "\<And>k a. (k, a) \<in> set xs \<Longrightarrow> P k a (view s k)"
  shows "\<exists>s'. rfold f xs s = Inr s' \<and> ok s' \<and>
     (\<forall>r. view s' r = (case map_of xs r of None \<Rightarrow> view s r | Some a \<Rightarrow> G r a (view s r)))"
  using assms
proof (induction xs arbitrary: s)
  case Nil
  then show ?case by simp
next
  case (Cons x xs)
  obtain k a where x: "x = (k, a)" by force
  have k: "k \<notin> fst ` set xs" using Cons.prems(2) x by simp
  obtain s1 where s1: "f (k, a) s = Inr s1" "ok s1" "\<And>r. view s1 r = (if r = k then G k a (view s r) else view s r)"
    using Cons.prems(1) [of k a s] Cons.prems(3) Cons.prems(4) [of k a] x by auto
  have "P j b (view s1 j)" if "(j, b) \<in> set xs" for j b
    using that s1(3) k Cons.prems(4) [of j b] by force
  then have "\<exists>s'. rfold f xs s1 = Inr s' \<and> ok s' \<and>
     (\<forall>r. view s' r = (case map_of xs r of None \<Rightarrow> view s1 r | Some a \<Rightarrow> G r a (view s1 r)))"
    using Cons.prems(2) s1(2) by (intro Cons.IH) (blast intro: Cons.prems(1) list.set_intros(2), simp_all)
  moreover have "map_of xs k = None" using k by (simp add: map_of_eq_None_iff)
  ultimately show ?case using s1 x by (fastforce split: option.splits)
qed

lemma rfold_Inr: "rfold (\<lambda>x s. Inr (f x s)) xs s = Inr (fold f xs s)"
  by (induction xs arbitrary: s) simp_all

lemma fold_pointwise:
  assumes "\<And>k a s. (k, a) \<in> set xs \<Longrightarrow> ok s \<Longrightarrow>
       ok (f (k, a) s) \<and> (\<forall>r. view (f (k, a) s) r = (if r = k then G k a (view s r) else view s r))"
    and "distinct (map fst xs)" and "ok s"
  shows "ok (fold f xs s) \<and>
     (\<forall>r. view (fold f xs s) r = (case map_of xs r of None \<Rightarrow> view s r | Some a \<Rightarrow> G r a (view s r)))"
  using rfold_pointwise [where f = "\<lambda>x s. Inr (f x s)" and xs = xs and ok = ok and view = view and G = G and s = s
      and P = "\<lambda>_ _ _. True"] assms
  by (auto simp: rfold_Inr)

text \<open>During the synchronisation of an account only its own assignments change, and the table stays well-formed.\<close>

definition sync_ok :: "internal \<Rightarrow> rbac_db \<Rightarrow> sync_state \<Rightarrow> bool" where
  "sync_ok account d s \<longleftrightarrow>
     (\<exists>rows. ss_db s = d\<lparr>account_role_map := rows\<rparr> \<and> assignments_wf (d\<lparr>account_role_map := rows\<rparr>) \<and>
        filter (\<lambda>a. ra_account a \<noteq> account) rows = filter (\<lambda>a. ra_account a \<noteq> account) (account_role_map d))"

lemma sync_okI:
  "ss_db s = d\<lparr>account_role_map := rows\<rparr> \<Longrightarrow> assignments_wf (d\<lparr>account_role_map := rows\<rparr>) \<Longrightarrow>
   filter (\<lambda>a. ra_account a \<noteq> account) rows = filter (\<lambda>a. ra_account a \<noteq> account) (account_role_map d) \<Longrightarrow> sync_ok account d s"
  by (auto simp: sync_ok_def)

lemma sync_okE:
  assumes "sync_ok account d s"
  obtains rows where "ss_db s = d\<lparr>account_role_map := rows\<rparr>" and "assignments_wf (d\<lparr>account_role_map := rows\<rparr>)"
    and "filter (\<lambda>a. ra_account a \<noteq> account) rows = filter (\<lambda>a. ra_account a \<noteq> account) (account_role_map d)"
  using assms by (auto simp: sync_ok_def)

abbreviation held_view :: "internal \<Rightarrow> sync_state \<Rightarrow> string \<Rightarrow> assignment option" where
  "held_view account s \<equiv> find_assignment (ss_db s) account"

lemma find_cong: "(\<And>x. x \<in> set xs \<Longrightarrow> P x = Q x) \<Longrightarrow> find P xs = find Q xs"
  by (induction xs) auto

lemma find_assignment_delete:
  "find_assignment (delete_assignment account role d) account r = (if r = role then None else find_assignment d account r)"
  unfolding find_assignment_def delete_assignment_def
  by (cases "r = role") (auto simp: find_filter find_None_iff intro: find_cong)

lemma sync_ok_delete:
  assumes "sync_ok account d s"
  shows "sync_ok account d (s\<lparr>ss_db := delete_assignment account role (ss_db s)\<rparr>)"
proof -
  have "filter (\<lambda>a. ra_account a \<noteq> account) (filter (\<lambda>a. assignment_key a \<noteq> (account, role)) rows) = filter (\<lambda>a. ra_account a \<noteq> account) rows" for rows
    unfolding filter_filter by (intro filter_cong) (auto simp: assignment_key_def)
  moreover obtain rows where "ss_db s = d\<lparr>account_role_map := rows\<rparr>" and "assignments_wf (d\<lparr>account_role_map := rows\<rparr>)"
    and "filter (\<lambda>a. ra_account a \<noteq> account) rows = filter (\<lambda>a. ra_account a \<noteq> account) (account_role_map d)"
    using assms by (rule sync_okE)
  ultimately show ?thesis
    by (intro sync_okI [where rows = "filter (\<lambda>a. assignment_key a \<noteq> (account, role)) rows"])
      (auto simp: delete_assignment_def assignments_wf_def distinct_map_filter_key)
qed

lemma sync_ok_report [simp]:
  "sync_ok account d (s\<lparr>ss_report := rep\<rparr>) = sync_ok account d s"
  "sync_ok account d (s\<lparr>ss_expired := xs\<rparr>) = sync_ok account d s"
  by (simp_all add: sync_ok_def)

lemma sync_ok_append:
  assumes ok: "sync_ok account d s" and "find_assignment (ss_db s) account role = None"
    and "role \<in> set (map ro_role (roles d))" and "account \<in> set (accounts d)" and "period_ok a"
    and a: "ra_account a = account" "ra_role a = role"
  defines "s' \<equiv> s\<lparr>ss_db := (ss_db s)\<lparr>account_role_map := account_role_map (ss_db s) @ [a]\<rparr>\<rparr>"
  shows "sync_ok account d s'" and "held_view account s' r = (if r = role then Some a else held_view account s r)"
proof -
  obtain rows where rows: "ss_db s = d\<lparr>account_role_map := rows\<rparr>" and wf: "assignments_wf (d\<lparr>account_role_map := rows\<rparr>)"
    and others: "filter (\<lambda>a. ra_account a \<noteq> account) rows = filter (\<lambda>a. ra_account a \<noteq> account) (account_role_map d)"
    using ok by (rule sync_okE)
  have new: "assignment_key a \<notin> assignment_key ` set rows"
    using assms(2) a rows by (auto simp: find_assignment_def find_None_iff assignment_key_def)
  show "sync_ok account d s'"
    using wf new assms(3-5) a others
    by (intro sync_okI [where rows = "rows @ [a]"]) (auto simp: s'_def rows assignments_wf_def)
  have append: "find P (xs @ [a]) = (case find P xs of Some y \<Rightarrow> Some y | None \<Rightarrow> if P a then Some a else None)" for P xs
    by (induction xs) auto
  show "held_view account s' r = (if r = role then Some a else held_view account s r)"
    using assms(2) a by (auto simp: s'_def find_assignment_def append assignment_key_def split: option.splits)
qed

lemma find_upd_where:
  "find (\<lambda>x. key x = k) (upd_where (\<lambda>x. key x = k') f rows) =
     (if k = k' then map_option f (find (\<lambda>x. key x = k) rows) else find (\<lambda>x. key x = k) rows)"
  if "\<And>x. key (f x) = key x"
  using that by (induction rows) (auto simp: upd_where_def)

lemma sync_ok_update:
  assumes ok: "sync_ok account d s" and "find_assignment (ss_db s) account role = Some a" and "period_ok (a\<lparr>ra_expires_at := y\<rparr>)"
  defines "s' \<equiv> s\<lparr>ss_db := (ss_db s)\<lparr>account_role_map :=
     upd_where (\<lambda>b. assignment_key b = (account, role)) (\<lambda>b. b\<lparr>ra_expires_at := y\<rparr>) (account_role_map (ss_db s))\<rparr>\<rparr>"
  shows "sync_ok account d s'" and "held_view account s' r = (if r = role then Some (a\<lparr>ra_expires_at := y\<rparr>) else held_view account s r)"
proof -
  let ?f = "\<lambda>b. b\<lparr>ra_expires_at := y\<rparr>" and ?upd = "upd_where (\<lambda>b. assignment_key b = (account, role)) (\<lambda>b. b\<lparr>ra_expires_at := y\<rparr>)"
  obtain rows where rows: "ss_db s = d\<lparr>account_role_map := rows\<rparr>" and wf: "assignments_wf (d\<lparr>account_role_map := rows\<rparr>)"
    and others: "filter (\<lambda>a. ra_account a \<noteq> account) rows = filter (\<lambda>a. ra_account a \<noteq> account) (account_role_map d)"
    using ok by (rule sync_okE)
  have key [simp]: "assignment_key (?f b) = assignment_key b" for b by (simp add: assignment_key_def)
  have inj: "inj_on assignment_key (set rows)" using wf by (simp add: assignments_wf_def distinct_map)
  have a: "a \<in> set rows" "assignment_key a = (account, role)"
    using assms(2) rows by (auto simp: find_assignment_def find_Some_iff)
  have "map assignment_key (?upd rows) = map assignment_key rows" by (induction rows) (auto simp: upd_where_def)
  moreover have "filter (\<lambda>a. ra_account a \<noteq> account) (?upd rows) = filter (\<lambda>a. ra_account a \<noteq> account) rows"
    by (induction rows) (auto simp: upd_where_def assignment_key_def)
  moreover have "ra_role b \<in> set (map ro_role (roles d)) \<and> ra_account b \<in> set (accounts d) \<and> period_ok b" if b: "b \<in> set (?upd rows)" for b
  proof -
    obtain c where c: "c \<in> set rows" "b = (if assignment_key c = (account, role) then ?f c else c)"
      using b by (auto simp: upd_where_def)
    have "c = a" if "assignment_key c = (account, role)"
      using that a c(1) inj_onD [OF inj, of c a] by simp
    then show ?thesis using c wf assms(3) by (auto simp: assignments_wf_def)
  qed
  ultimately show "sync_ok account d s'"
    using wf others by (intro sync_okI [where rows = "?upd rows"]) (simp_all add: s'_def rows assignments_wf_def)
  show "held_view account s' r = (if r = role then Some (?f a) else held_view account s r)"
    using assms(2) find_upd_where [where key = assignment_key and f = ?f and k = "(account, r)" and k' = "(account, role)"]
    by (simp add: s'_def find_assignment_def)
qed

lemma sync_expired_effect:
  assumes "sync_ok account d s"
  shows "sync_ok account d (sync_expired now account known (role, a) s) \<and>
    (\<forall>r. held_view account (sync_expired now account known (role, a) s) r =
       (if r = role then (if assignment_expired now a \<and> \<not> not_assignable known role then None else held_view account s r) else held_view account s r))"
  using assms sync_ok_delete [OF assms, of role]
  by (auto simp: sync_expired_def Let_def find_assignment_delete) (simp_all add: sync_ok_def)

lemma sync_unsupplied_effect:
  assumes "sync_ok account d s"
  shows "sync_ok account d (sync_unsupplied account known (role, a) s) \<and>
    (\<forall>r. held_view account (sync_unsupplied account known (role, a) s) r =
       (if r = role then (if \<not> not_assignable known role then None else held_view account s r) else held_view account s r))"
  using assms sync_ok_delete [OF assms, of role]
  by (auto simp: sync_unsupplied_def Let_def find_assignment_delete) (simp_all add: sync_ok_def)

definition naive :: "date option \<Rightarrow> bool" where
  "naive x \<longleftrightarrow> (case x of Some (Aware _ _) \<Rightarrow> False | _ \<Rightarrow> True)"

lemma date_passed_naive:
  "naive x \<Longrightarrow> date_passed x t = Inr (case map_option date_stored x of None \<Rightarrow> False | Some y \<Rightarrow> y \<le> t)"
  by (auto simp: naive_def date_passed_def split: option.splits date.splits)

lemma naive_stored: "naive x \<Longrightarrow> x = map_option Naive y \<longleftrightarrow> map_option date_stored x = y"
  by (cases x; cases y) (auto simp: naive_def split: date.splits)

definition added_role :: "int \<Rightarrow> internal \<Rightarrow> (string \<times> role_row) list \<Rightarrow> string \<Rightarrow> date option \<Rightarrow> assignment option \<Rightarrow> assignment option" where
  "added_role now account known role x v =
     (if role \<notin> set (map fst known) \<or> not_assignable known role \<or> (case map_option date_stored x of None \<Rightarrow> False | Some y \<Rightarrow> y \<le> now)
      then v else Some \<lparr>ra_account = account, ra_role = role, ra_activates_at = now, ra_expires_at = map_option date_stored x\<rparr>)"

lemma sync_add_effect:
  assumes ok: "sync_ok account d s" and "naive x" and "held_view account s role = None" and "account \<in> set (accounts d)"
    and known: "set (map fst known) = set (map ro_role (roles d))"
  shows "\<exists>s'. sync_add now account known (role, x) s = Inr s' \<and> sync_ok account d s' \<and>
    (\<forall>r. held_view account s' r = (if r = role then added_role now account known role x (held_view account s r) else held_view account s r))"
proof (cases "role \<notin> set (map fst known) \<or> not_assignable known role \<or> (case map_option date_stored x of None \<Rightarrow> False | Some y \<Rightarrow> y \<le> now)")
  case True
  then show ?thesis using ok assms(3) by (auto simp: sync_add_def added_role_def Let_def date_passed_naive [OF assms(2)])
next
  case False
  let ?a = "\<lparr>ra_account = account, ra_role = role, ra_activates_at = now, ra_expires_at = map_option date_stored x\<rparr>"
  let ?s = "s\<lparr>ss_report := (ss_report s)\<lparr>sr_added := sr_added (ss_report s) @ [(role, x)]\<rparr>\<rparr>"
  have ok1: "sync_ok account d ?s" using ok by simp
  have "period_ok ?a" using False by (auto simp: period_ok_def split: option.splits)
  moreover have "role \<in> set (map ro_role (roles d))" using False known by blast
  moreover have "find_assignment (ss_db ?s) account role = None" using assms(3) by simp
  ultimately have "sync_ok account d (?s\<lparr>ss_db := (ss_db ?s)\<lparr>account_role_map := account_role_map (ss_db ?s) @ [?a]\<rparr>\<rparr>)"
    and "held_view account (?s\<lparr>ss_db := (ss_db ?s)\<lparr>account_role_map := account_role_map (ss_db ?s) @ [?a]\<rparr>\<rparr>) r
      = (if r = role then Some ?a else held_view account ?s r)" for r
    using sync_ok_append [OF ok1] assms(4) by simp_all
  moreover have "sync_add now account known (role, x) s = Inr (?s\<lparr>ss_db := (ss_db ?s)\<lparr>account_role_map := account_role_map (ss_db ?s) @ [?a]\<rparr>\<rparr>)"
    using False by (auto simp: sync_add_def Let_def date_passed_naive [OF assms(2)])
  ultimately show ?thesis using False by (auto simp: added_role_def)
qed

definition updated_role :: "int \<Rightarrow> (string \<times> role_row) list \<Rightarrow> string \<Rightarrow> assignment \<times> date option \<Rightarrow> assignment option \<Rightarrow> assignment option" where
  "updated_role now known role = (\<lambda>(a, x) v.
     if not_assignable known role \<or> (case map_option date_stored x of None \<Rightarrow> False | Some y \<Rightarrow> y \<le> now \<or> y \<le> ra_activates_at a)
     then v else Some (a\<lparr>ra_expires_at := map_option date_stored x\<rparr>))"

lemma sync_update_effect:
  assumes ok: "sync_ok account d s" and "naive x" and held: "held_view account s role = Some a"
  shows "\<exists>s'. sync_update now account known (role, a, x) s = Inr s' \<and> sync_ok account d s' \<and>
    (\<forall>r. held_view account s' r = (if r = role then updated_role now known role (a, x) (held_view account s r) else held_view account s r))"
proof -
  let ?y = "map_option date_stored x"
  consider (same) "?y = ra_expires_at a"
    | (kept) "?y \<noteq> ra_expires_at a" "not_assignable known role \<or> (case ?y of None \<Rightarrow> False | Some y \<Rightarrow> y \<le> now \<or> y \<le> ra_activates_at a)"
    | (changed) "?y \<noteq> ra_expires_at a" "\<not> not_assignable known role" "\<not> (case ?y of None \<Rightarrow> False | Some y \<Rightarrow> y \<le> now \<or> y \<le> ra_activates_at a)"
    by blast
  then show ?thesis
  proof cases
    case same
    then have "a\<lparr>ra_expires_at := ?y\<rparr> = a" by simp
    then show ?thesis using ok held same
      by (auto simp: sync_update_def updated_role_def Let_def naive_stored [OF assms(2)])
  next
    case kept
    then show ?thesis using ok held
      by (auto simp: sync_update_def updated_role_def Let_def naive_stored [OF assms(2)] date_passed_naive [OF assms(2)] split: option.splits)
  next
    case changed
    let ?s = "s\<lparr>ss_report := (ss_report s)\<lparr>sr_updated := sr_updated (ss_report s) @ [(role, ra_expires_at a, x)]\<rparr>\<rparr>"
    let ?s' = "?s\<lparr>ss_db := (ss_db ?s)\<lparr>account_role_map :=
       upd_where (\<lambda>b. assignment_key b = (account, role)) (\<lambda>b. b\<lparr>ra_expires_at := ?y\<rparr>) (account_role_map (ss_db ?s))\<rparr>\<rparr>"
    have ok1: "sync_ok account d ?s" and held1: "find_assignment (ss_db ?s) account role = Some a" using ok held by simp_all
    have period: "period_ok (a\<lparr>ra_expires_at := ?y\<rparr>)" using changed(3) by (auto simp: period_ok_def split: option.splits)
    have "sync_update now account known (role, a, x) s = Inr ?s'"
      using changed by (auto simp: sync_update_def Let_def naive_stored [OF assms(2)] date_passed_naive [OF assms(2)] split: option.splits)
    then show ?thesis
      using sync_ok_update [OF ok1 held1 period] changed by (auto simp: updated_role_def)
  qed
qed

lemma expired_step:
  "ss_expired (sync_expired now account known (k, a) s) =
     (if assignment_expired now a \<and> \<not> not_assignable known k then ss_expired s @ [k] else ss_expired s)"
  by (simp add: sync_expired_def Let_def)

lemma expired_roles:
  "set (ss_expired (fold (sync_expired now account known) xs s)) =
     set (ss_expired s) \<union> {k. \<exists>a. (k, a) \<in> set xs \<and> assignment_expired now a \<and> \<not> not_assignable known k}"
  by (induction xs arbitrary: s) (auto simp: expired_step split: if_splits)

lemma parsed_distinct: "parse_idp_roles e supplied = Inr desired \<Longrightarrow> distinct (map fst desired)"
proof (cases supplied)
  case (IdpMapping m)
  assume "parse_idp_roles e supplied = Inr desired"
  then have run: "rfold (\<lambda>(role, v) parsed. rbind (normalize_date e v) (\<lambda>x. Inr (AList.update role x parsed))) m [] = Inr desired"
    using IdpMapping by simp
  show ?thesis
    by (rule rfold_invariant [where I = "\<lambda>m. distinct (map fst m)", OF run])
      (auto simp: rbind_eq_Inr distinct_update)
next
  case (IdpList es)
  assume "parse_idp_roles e supplied = Inr desired"
  then have run: "rfold (parse_idp_entry e) es [] = Inr desired" using IdpList by simp
  show ?thesis
    by (rule rfold_invariant [where I = "\<lambda>m. distinct (map fst m)", OF run])
      (auto simp: parse_idp_entry_def rbind_eq_Inr distinct_update split: idp_entry.splits)
qed simp_all

lemma map_of_without: "map_of (without m ks) r = (if r \<in> set ks then None else map_of m r)"
  by (induction m) (auto simp: without_def)

lemma map_of_both: "map_of (both m n) r = (case map_of m r of None \<Rightarrow> None | Some a \<Rightarrow> map_option (Pair a) (map_of n r))"
  by (induction m) (auto simp: both_def split: option.splits)

lemma keys_without: "distinct (map fst m) \<Longrightarrow> distinct (map fst (without m ks))"
  by (simp add: without_def distinct_map_filter_key)

lemma keys_both: "distinct (map fst m) \<Longrightarrow> distinct (map fst (both m n))"
proof -
  have "map fst (both m n) = filter (\<lambda>k. map_of n k \<noteq> None) (map fst m)"
    by (induction m) (auto simp: both_def split: option.splits)
  then show "distinct (map fst m) \<Longrightarrow> distinct (map fst (both m n))" by simp
qed

lemma keys_sort: "distinct (map fst m) \<Longrightarrow> distinct (map fst (sort_key fst m))"
  by (simp add: distinct_map)

lemma idp_sync_effect:
  assumes wf: "assignments_wf d" and account: "account \<in> set (accounts d)"
    and parsed: "parse_idp_roles e supplied = Inr desired" and naive: "\<forall>p \<in> set desired. naive (snd p)"
  shows "\<exists>rep s. sync_account_roles_from_idp e now account supplied d = Inr (rep, ss_db s) \<and> sync_ok account d s \<and>
     (\<forall>role. held_view account s role = synced_assignment now account d desired role)"
proof -
  let ?known = "known_roles d" and ?current = "account_roles d account" and ?v = "find_assignment d account"
  let ?na = "not_assignable (known_roles d)"
  have dd: "distinct (map fst desired)" using parsed by (rule parsed_distinct)
  have dc: "distinct (map fst ?current)" using wf by (rule account_roles_distinct)
  define s0 where "s0 = \<lparr>ss_report = new_sync_report False desired ?current ?known, ss_expired = [], ss_db = d\<rparr>"
  define s1 where "s1 = fold (sync_expired now account ?known) (sort_key fst ?current) s0"
  define remaining where "remaining = without ?current (ss_expired s1)"
  define s2 where "s2 = fold (sync_unsupplied account ?known) (sort_key fst (without remaining (map fst desired))) s1"
  have dr: "distinct (map fst remaining)" using dc by (simp add: remaining_def keys_without)
  note find_sorted = map_of_sort [OF keys_without [OF dd]] map_of_sort [OF keys_without [OF dr]] map_of_sort [OF keys_both [OF dr]]
  have ok0: "sync_ok account d s0"
    using wf by (intro sync_okI [where rows = "account_role_map d"]) (simp_all add: s0_def)
  have v0: "held_view account s0 = ?v" by (simp add: s0_def)
  have "sync_ok account d s1 \<and> (\<forall>r. held_view account s1 r =
      (case map_of (sort_key fst ?current) r of None \<Rightarrow> held_view account s0 r
       | Some a \<Rightarrow> if assignment_expired now a \<and> \<not> ?na r then None else held_view account s0 r))"
    unfolding s1_def
    using sync_expired_effect [where known = ?known and now = now] keys_sort [OF dc] ok0
    by (intro fold_pointwise [where G = "\<lambda>k a v. if assignment_expired now a \<and> \<not> ?na k then None else v"]) blast+
  then have ok1: "sync_ok account d s1"
    and v1: "held_view account s1 r = (case ?v r of None \<Rightarrow> None | Some a \<Rightarrow> if assignment_expired now a \<and> \<not> ?na r then None else Some a)" for r
    by (simp_all add: map_of_sort [OF dc] account_roles_find [OF wf] v0 split: option.splits)
  have member: "(r, a) \<in> set ?current \<longleftrightarrow> ?v r = Some a" for r a
    using dc account_roles_find [OF wf, of account r] by (metis map_of_eq_Some_iff)
  have "r \<in> set (ss_expired s1) \<longleftrightarrow> (\<exists>a. ?v r = Some a \<and> assignment_expired now a \<and> \<not> ?na r)" for r
    unfolding s1_def expired_roles by (simp add: s0_def member)
  then have rem: "map_of remaining r = held_view account s1 r" for r
    unfolding remaining_def map_of_without account_roles_find [OF wf] v1 by (auto split: option.splits)
  have "sync_ok account d s2 \<and> (\<forall>r. held_view account s2 r =
      (case map_of (sort_key fst (without remaining (map fst desired))) r of None \<Rightarrow> held_view account s1 r
       | Some a \<Rightarrow> if \<not> ?na r then None else held_view account s1 r))"
    unfolding s2_def
    using sync_unsupplied_effect [where known = ?known] keys_sort [OF keys_without [OF dr]] ok1
    by (intro fold_pointwise [where G = "\<lambda>k a v. if \<not> ?na k then None else v"]) blast+
  then have ok2: "sync_ok account d s2"
    and v2: "held_view account s2 r = (if r \<in> fst ` set desired \<or> ?na r then held_view account s1 r else None)" for r
    using rem [of r] by (simp_all add: find_sorted map_of_without split: option.splits)
  have "\<exists>s3. rfold (sync_add now account ?known) (sort_key fst (without desired (map fst remaining))) s2 = Inr s3 \<and> sync_ok account d s3 \<and>
     (\<forall>r. held_view account s3 r = (case map_of (sort_key fst (without desired (map fst remaining))) r of None \<Rightarrow> held_view account s2 r
       | Some x \<Rightarrow> added_role now account ?known r x (held_view account s2 r)))"
  proof (rule rfold_pointwise [where P = "\<lambda>_ _ v. v = None"])
    fix role x s assume "(role, x) \<in> set (sort_key fst (without desired (map fst remaining)))" "sync_ok account d s" "held_view account s role = None"
    then show "\<exists>s'. sync_add now account ?known (role, x) s = Inr s' \<and> sync_ok account d s' \<and>
        (\<forall>r. held_view account s' r = (if r = role then added_role now account ?known role x (held_view account s r) else held_view account s r))"
      using account known_roles_names naive by (intro sync_add_effect) (auto simp: without_def)
  next
    fix role x assume "(role, x) \<in> set (sort_key fst (without desired (map fst remaining)))"
    then have "role \<in> fst ` set desired" and "map_of remaining role = None"
      by (force simp: without_def map_of_eq_None_iff)+
    then show "held_view account s2 role = None" by (simp add: v2 rem)
  qed (use keys_sort [OF keys_without [OF dd]] ok2 in simp_all)
  then obtain s3 where s3: "rfold (sync_add now account ?known) (sort_key fst (without desired (map fst remaining))) s2 = Inr s3"
    and ok3: "sync_ok account d s3"
    and raw3: "\<forall>r. held_view account s3 r = (case map_of (sort_key fst (without desired (map fst remaining))) r of None \<Rightarrow> held_view account s2 r
       | Some x \<Rightarrow> added_role now account ?known r x (held_view account s2 r))"
    by blast
  have in_rem: "r \<in> set (map fst remaining) \<longleftrightarrow> held_view account s1 r \<noteq> None" for r
    unfolding rem [of r, symmetric] by (simp add: map_of_eq_None_iff)
  have v3: "held_view account s3 r = (case map_of desired r of None \<Rightarrow> held_view account s2 r
       | Some x \<Rightarrow> if held_view account s1 r = None then added_role now account ?known r x (held_view account s2 r) else held_view account s2 r)" for r
    using raw3 in_rem [of r] by (simp add: find_sorted map_of_without split: option.splits)
  have "\<exists>s4. rfold (sync_update now account ?known) (sort_key fst (both remaining desired)) s3 = Inr s4 \<and> sync_ok account d s4 \<and>
     (\<forall>r. held_view account s4 r = (case map_of (sort_key fst (both remaining desired)) r of None \<Rightarrow> held_view account s3 r
       | Some ax \<Rightarrow> updated_role now ?known r ax (held_view account s3 r)))"
  proof (rule rfold_pointwise [where P = "\<lambda>_ ax v. v = Some (fst ax) \<and> naive (snd ax)"])
    fix role ax s assume s: "sync_ok account d s" "held_view account s role = Some (fst ax) \<and> naive (snd ax)"
    obtain a x where ax: "ax = (a, x)" by (metis prod.exhaust)
    show "\<exists>s'. sync_update now account ?known (role, ax) s = Inr s' \<and> sync_ok account d s' \<and>
        (\<forall>r. held_view account s' r = (if r = role then updated_role now ?known role ax (held_view account s r) else held_view account s r))"
      unfolding ax using s by (intro sync_update_effect) (simp_all add: ax)
  next
    fix role ax assume "(role, ax) \<in> set (sort_key fst (both remaining desired))"
    then have "map_of (both remaining desired) role = Some ax"
      using keys_both [OF dr] by (metis map_of_eq_Some_iff set_sort)
    then obtain a x where ax: "ax = (a, x)" and a: "held_view account s1 role = Some a" and x: "map_of desired role = Some x"
      by (auto simp: map_of_both rem split: option.splits)
    then show "held_view account s3 role = Some (fst ax) \<and> naive (snd ax)"
      using naive map_of_SomeD [OF x] by (force simp: v3 v2)
  qed (use keys_sort [OF keys_both [OF dr]] ok3 in simp_all)
  then obtain s4 where s4: "rfold (sync_update now account ?known) (sort_key fst (both remaining desired)) s3 = Inr s4"
    and ok4: "sync_ok account d s4"
    and raw4: "\<forall>r. held_view account s4 r = (case map_of (sort_key fst (both remaining desired)) r of None \<Rightarrow> held_view account s3 r
       | Some ax \<Rightarrow> updated_role now ?known r ax (held_view account s3 r))"
    by blast
  have v4: "held_view account s4 r = (case held_view account s1 r of
       None \<Rightarrow> held_view account s3 r
     | Some a \<Rightarrow> (case map_of desired r of None \<Rightarrow> held_view account s3 r
         | Some x \<Rightarrow> updated_role now ?known r (a, x) (held_view account s3 r)))" for r
    using raw4 by (simp add: find_sorted map_of_both rem split: option.splits)
  have "sync_account_roles_from_idp e now account supplied d = Inr (ss_report s4, ss_db s4)"
    using account parsed s3 s4
    by (simp add: sync_account_roles_from_idp_def ensure_account_exists_def Let_def s0_def [symmetric] s1_def [symmetric]
        remaining_def [symmetric] s2_def [symmetric])
  moreover have "held_view account s4 role = synced_assignment now account d desired role" for role
  proof -
    have roles: "distinct (map ro_role (roles d))" using wf by (simp add: assignments_wf_def)
    have na: "?na role \<longleftrightarrow> (case find_role d role of None \<Rightarrow> False | Some r \<Rightarrow> \<not> ro_assignable r)"
      by (rule not_assignable_iff [OF roles])
    have unknown: "role \<notin> set (map fst ?known) \<longleftrightarrow> find_role d role = None"
      unfolding known_roles_names find_role_None ..
    have desired: "role \<in> fst ` set desired \<longleftrightarrow> map_of desired role \<noteq> None"
      by (simp add: map_of_eq_None_iff)
    have fk: "?v role = None" if "find_role d role = None"
      using that wf by (auto simp: find_role_None find_assignment_def find_None_iff assignments_wf_def assignment_key_def)
    show ?thesis
      unfolding v4 v3 v2 v1 desired added_role_def updated_role_def unknown na synced_assignment_def
      using fk by (auto simp: Let_def not_less not_le split: option.splits)
  qed
  ultimately show ?thesis using ok4 by blast
qed

lemma synced_again:
  assumes "\<And>r. find_assignment d' account r = synced_assignment now account d desired r" and "roles d' = roles d"
  shows "synced_assignment now account d' desired role = synced_assignment now account d desired role"
proof -
  have "find_role d' role = find_role d role" using assms(2) by (simp add: find_role_def)
  then show ?thesis
    unfolding synced_assignment_def [of now account d' desired role] assms(1)
    by (auto simp: synced_assignment_def Let_def assignment_expired_def split: option.splits)
qed

text \<open>C32: A synchronisation of an account with an identity provider that supplies readable dates without a UTC offset always
  succeeds. It changes nothing but the assignments of the account, each of which is decided role by role: an
  assignment of a role that is not assignable stays as it is; otherwise an unsupplied role is taken away, a
  supplied role that the account does not hold (or holds expired) is assigned from now on if its date has not
  passed, and a role that it holds gets the supplied date unless that date has passed or does not lie
  after the activation. Keys, references and periods stay well-formed, the dry run reports exactly what is
  done, and a second synchronisation at the same instant changes no assignment.\<close>

theorem idp_sync_exact:
  assumes "assignments_wf d" and "account \<in> set (accounts d)"
    and "parse_idp_roles e supplied = Inr desired" and "\<forall>p \<in> set desired. naive (snd p)"
  shows "\<exists>rep rows. sync_account_roles_from_idp e now account supplied d = Inr (rep, d\<lparr>account_role_map := rows\<rparr>) \<and>
     sync_account_roles_from_idp_dry_run e now account supplied d = Inr (as_dry rep) \<and>
     (\<forall>role. find_assignment (d\<lparr>account_role_map := rows\<rparr>) account role = synced_assignment now account d desired role) \<and>
     filter (\<lambda>a. ra_account a \<noteq> account) rows = filter (\<lambda>a. ra_account a \<noteq> account) (account_role_map d) \<and>
     assignments_wf (d\<lparr>account_role_map := rows\<rparr>) \<and>
     (\<exists>rep' d'. sync_account_roles_from_idp e now account supplied (d\<lparr>account_role_map := rows\<rparr>) = Inr (rep', d') \<and>
        (\<forall>role. find_assignment d' account role = find_assignment (d\<lparr>account_role_map := rows\<rparr>) account role))"
proof -
  obtain rep s where run: "sync_account_roles_from_idp e now account supplied d = Inr (rep, ss_db s)" and ok: "sync_ok account d s"
    and view: "\<And>role. held_view account s role = synced_assignment now account d desired role"
    using idp_sync_effect [OF assms] by blast
  obtain rows where rows: "ss_db s = d\<lparr>account_role_map := rows\<rparr>" and wf: "assignments_wf (d\<lparr>account_role_map := rows\<rparr>)"
    and others: "filter (\<lambda>a. ra_account a \<noteq> account) rows = filter (\<lambda>a. ra_account a \<noteq> account) (account_role_map d)"
    using ok by (rule sync_okE)
  let ?d = "d\<lparr>account_role_map := rows\<rparr>"
  obtain rep' s' where run': "sync_account_roles_from_idp e now account supplied ?d = Inr (rep', ss_db s')"
    and view': "\<And>role. held_view account s' role = synced_assignment now account ?d desired role"
  proof -
    have "account \<in> set (accounts ?d)" using assms(2) by simp
    then show thesis using idp_sync_effect [OF wf _ assms(3,4), where now = now] that by blast
  qed
  have "held_view account s' role = find_assignment ?d account role" for role
    using view view' synced_again [of ?d account now d desired role] by (simp add: rows)
  moreover have "sync_account_roles_from_idp_dry_run e now account supplied d = Inr (as_dry rep)"
    by (simp add: idp_dry_run_agrees run)
  ultimately show ?thesis using run run' view rows others wf by auto
qed

definition demo_roles :: rbac_db where
  "demo_roles =
     \<lparr>accounts = [''alice''],
      roles = [\<lparr>ro_role = ''reader'', ro_description = None, ro_assignable = True, ro_locked = False\<rparr>,
               \<lparr>ro_role = ''writer'', ro_description = None, ro_assignable = True, ro_locked = False\<rparr>,
               \<lparr>ro_role = ''admin'', ro_description = None, ro_assignable = False, ro_locked = True\<rparr>],
      account_role_map = [\<lparr>ra_account = ''alice'', ra_role = ''reader'', ra_activates_at = 0, ra_expires_at = Some 5\<rparr>,
                          \<lparr>ra_account = ''alice'', ra_role = ''admin'', ra_activates_at = 0, ra_expires_at = Some 6\<rparr>],
      role_did_permission_map = [], role_local_limit_permission_map = [], role_global_limit_permission_map = []\<rparr>"

definition demo_rbac_env :: rbac_env where
  "demo_rbac_env = \<lparr>str_to_date = (\<lambda>_. None), fromisoformat = (\<lambda>_. None), error_names = (\<lambda>_. None), scope_length = 25,
     name_length = 250,
     rse_session = \<lparr>db = \<lparr>rses = [], rse_attrs = [], rse_limits = [],
         counters = \<lparr>rse_usages = [], updated_rse_counters = [], rse_usage_history = []\<rparr>\<rparr>,
       env = \<lparr>sql_eq = (=), orm_attr = (\<lambda>_. False), region = (\<lambda>_ _. None)\<rparr>, float_less = (\<lambda>_ _. None)\<rparr>\<rparr>"

theorem idp_sync_exact_witness:
  "\<exists>rep rows. sync_account_roles_from_idp demo_rbac_env 10 ''alice'' (IdpMapping [(''writer'', VDate (Naive 20)), (''guest'', VNone)]) demo_roles
       = Inr (rep, demo_roles\<lparr>account_role_map := rows\<rparr>) \<and>
     find_assignment (demo_roles\<lparr>account_role_map := rows\<rparr>) ''alice'' ''reader'' = None \<and>
     find_assignment (demo_roles\<lparr>account_role_map := rows\<rparr>) ''alice'' ''guest'' = None \<and>
     find_assignment (demo_roles\<lparr>account_role_map := rows\<rparr>) ''alice'' ''writer''
       = Some \<lparr>ra_account = ''alice'', ra_role = ''writer'', ra_activates_at = 10, ra_expires_at = Some 20\<rparr>"
proof -
  let ?desired = "[(''writer'', Some (Naive 20)), (''guest'', None)]"
  have wf: "assignments_wf demo_roles" by code_simp
  have acc: "''alice'' \<in> set (accounts demo_roles)" by code_simp
  have parse: "parse_idp_roles demo_rbac_env (IdpMapping [(''writer'', VDate (Naive 20)), (''guest'', VNone)]) = Inr ?desired"
    by simp
  have naive: "\<forall>p \<in> set ?desired. naive (snd p)" by (simp add: naive_def)
  have "synced_assignment 10 ''alice'' demo_roles ?desired ''reader'' = None"
    and "synced_assignment 10 ''alice'' demo_roles ?desired ''guest'' = None"
    and "synced_assignment 10 ''alice'' demo_roles ?desired ''writer'' =
       Some \<lparr>ra_account = ''alice'', ra_role = ''writer'', ra_activates_at = 10, ra_expires_at = Some 20\<rparr>"
    by code_simp+
  then show ?thesis using idp_sync_exact [OF wf acc parse naive, where now = 10] by metis
qed

section \<open>The roles after a synchronisation with the policy package\<close>

text \<open>Role names are unique and every row that refers to a role refers to an existing one.\<close>

definition role_refs_ok :: "rbac_db \<Rightarrow> bool" where
  "role_refs_ok d \<longleftrightarrow>
     distinct (map ro_role (roles d)) \<and>
     (\<forall>a \<in> set (account_role_map d). find_role d (ra_role a) \<noteq> None) \<and>
     (\<forall>p \<in> set (role_did_permission_map d). find_role d (dp_role p) \<noteq> None) \<and>
     (\<forall>l \<in> set (role_local_limit_permission_map d). find_role d (ll_role l) \<noteq> None) \<and>
     (\<forall>l \<in> set (role_global_limit_permission_map d). find_role d (gl_role l) \<noteq> None)"

text \<open>What becomes of one role.\<close>

definition normalized :: "py_value \<Rightarrow> string option" where
  "normalized v = (case normalize_description v of Inr t \<Rightarrow> t | Inl _ \<Rightarrow> None)"

definition synced_role :: "rbac_db \<Rightarrow> policy_roles \<Rightarrow> string \<Rightarrow> role_row option" where
  "synced_role d policy role =
     (case find_role d role of
        Some r \<Rightarrow>
          if is_reserved_role role \<or> ro_locked r then Some r
          else (case map_of policy role of None \<Rightarrow> None | Some v \<Rightarrow> Some (r\<lparr>ro_description := normalized v\<rparr>))
      | None \<Rightarrow>
          if is_reserved_role role then None
          else (case map_of policy role of
                  None \<Rightarrow> None
                | Some v \<Rightarrow> Some \<lparr>ro_role = role, ro_description = normalized v, ro_assignable = True, ro_locked = False\<rparr>))"

text \<open>The other tables keep exactly the rows of the roles that are left.\<close>

definition kept_rows :: "rbac_db \<Rightarrow> rbac_db \<Rightarrow> bool" where
  "kept_rows d d' \<longleftrightarrow>
     accounts d' = accounts d \<and>
     account_role_map d' = filter (\<lambda>a. find_role d' (ra_role a) \<noteq> None) (account_role_map d) \<and>
     role_did_permission_map d' = filter (\<lambda>p. find_role d' (dp_role p) \<noteq> None) (role_did_permission_map d) \<and>
     role_local_limit_permission_map d' = filter (\<lambda>l. find_role d' (ll_role l) \<noteq> None) (role_local_limit_permission_map d) \<and>
     role_global_limit_permission_map d' = filter (\<lambda>l. find_role d' (gl_role l) \<noteq> None) (role_global_limit_permission_map d)"

lemma kept_rows_refl: "role_refs_ok d \<Longrightarrow> kept_rows d d"
  by (simp add: kept_rows_def role_refs_ok_def)

lemma find_delete_role_row: "find_role (delete_role_row role d) r = (if r = role then None else find_role d r)"
  unfolding find_role_def delete_role_row_def
  by (cases "r = role") (auto simp: find_filter find_None_iff intro: find_cong)

lemma find_role_other [simp]: "find_role (d\<lparr>account_role_map := rows\<rparr>) = find_role d"
  by (rule ext) (simp add: find_role_def)

lemma find_remove_accounts: "find_role (snd (remove_accounts_from_role role d)) r = (if r = role then None else find_role d r)"
  by (simp add: remove_accounts_from_role_def find_delete_role_row)

lemma filter_kept:
  "filter (\<lambda>x. k x \<noteq> role) (filter (\<lambda>x. v (k x) \<noteq> None) xs) = filter (\<lambda>x. (if k x = role then None else v (k x)) \<noteq> None) xs"
  unfolding filter_filter by (intro filter_cong) auto

lemma kept_rows_delete:
  assumes "kept_rows d d'"
  shows "kept_rows d (snd (remove_accounts_from_role role d'))"
proof -
  let ?d = "snd (remove_accounts_from_role role d')"
  have "accounts ?d = accounts d'" "account_role_map ?d = filter (\<lambda>a. ra_role a \<noteq> role) (account_role_map d')"
    "role_did_permission_map ?d = filter (\<lambda>p. dp_role p \<noteq> role) (role_did_permission_map d')"
    "role_local_limit_permission_map ?d = filter (\<lambda>l. ll_role l \<noteq> role) (role_local_limit_permission_map d')"
    "role_global_limit_permission_map ?d = filter (\<lambda>l. gl_role l \<noteq> role) (role_global_limit_permission_map d')"
    by (simp_all add: remove_accounts_from_role_def delete_role_row_def)
  then show ?thesis
    using assms unfolding kept_rows_def find_remove_accounts
    by (metis (no_types) filter_kept [where v = "find_role d'"])
qed

lemma find_role_append:
  "find_role (d\<lparr>roles := roles d @ [x]\<rparr>) r = (case find_role d r of Some y \<Rightarrow> Some y | None \<Rightarrow> if ro_role x = r then Some x else None)"
proof -
  have "find P (xs @ [x]) = (case find P xs of Some y \<Rightarrow> Some y | None \<Rightarrow> if P x then Some x else None)" for P xs
    by (induction xs) auto
  then show ?thesis by (simp add: find_role_def)
qed

lemma find_role_upd:
  "find_role (d\<lparr>roles := upd_where (\<lambda>x. ro_role x = role) f (roles d)\<rparr>) r = (if r = role then map_option f (find_role d r) else find_role d r)"
  if "\<And>x. ro_role (f x) = ro_role x"
  using that find_upd_where [where key = ro_role and f = f] by (simp add: find_role_def)

text \<open>The state of the first loop: unique names, no role lost, the other tables untouched.\<close>

definition policy_ok :: "rbac_db \<Rightarrow> policy_report \<times> rbac_db \<Rightarrow> bool" where
  "policy_ok d s \<longleftrightarrow> distinct (map ro_role (roles (snd s))) \<and> (\<exists>rs. snd s = d\<lparr>roles := rs\<rparr>) \<and>
     (\<forall>r. find_role d r \<noteq> None \<longrightarrow> find_role (snd s) r \<noteq> None)"

definition policy_role :: "string \<Rightarrow> py_value \<Rightarrow> role_row option \<Rightarrow> role_row option" where
  "policy_role role v w =
     (if is_reserved_role role then w
      else case w of
        None \<Rightarrow> Some \<lparr>ro_role = role, ro_description = normalized v, ro_assignable = True, ro_locked = False\<rparr>
      | Some r \<Rightarrow> if ro_locked r then Some r else Some (r\<lparr>ro_description := normalized v\<rparr>))"

lemma policy_step_effect:
  assumes roles: "distinct (map ro_role (roles d))" and ok: "policy_ok d s" and w: "find_role (snd s) role = find_role d role"
    and v: "normalize_description v = Inr t"
  shows "\<exists>s'. policy_step (known_roles d) (role, v) s = Inr s' \<and> policy_ok d s' \<and>
     (\<forall>r. find_role (snd s') r = (if r = role then policy_role role v (find_role (snd s) r) else find_role (snd s) r))"
proof -
  obtain rep d1 where s: "s = (rep, d1)" by (metis prod.exhaust)
  have n: "normalized v = t" by (simp add: normalized_def v)
  have cur: "map_of (known_roles d) role = find_role d role" by (rule known_roles_find [OF roles])
  have w1: "find_role d1 role = find_role d role" using w s by simp
  consider (reserved) "is_reserved_role role" | (new) "\<not> is_reserved_role role" "find_role d role = None"
    | (old) r where "\<not> is_reserved_role role" "find_role d role = Some r"
    by blast
  then show ?thesis
  proof cases
    case reserved
    then show ?thesis using ok s v by (auto simp: policy_step_def policy_role_def policy_ok_def)
  next
    case new
    let ?x = "\<lparr>ro_role = role, ro_description = t, ro_assignable = True, ro_locked = False\<rparr>"
    have "role \<notin> set (map ro_role (roles d1))" using new w1 find_role_None by metis
    then have "policy_ok d (rep', d1\<lparr>roles := roles d1 @ [?x]\<rparr>)" for rep'
      using ok s by (auto simp: policy_ok_def find_role_append split: option.splits)
    then show ?thesis
      using new s v w1 by (auto simp: policy_step_def policy_role_def cur n find_role_append split: option.splits)
  next
    case old
    let ?f = "\<lambda>x. x\<lparr>ro_description := t\<rparr>"
    have key: "ro_role (?f x) = ro_role x" for x by simp
    have "map ro_role (upd_where (\<lambda>x. ro_role x = role) ?f rs) = map ro_role rs" for rs :: "role_row list"
      by (induction rs) (auto simp: upd_where_def)
    then have "policy_ok d (rep', d1\<lparr>roles := upd_where (\<lambda>x. ro_role x = role) ?f (roles d1)\<rparr>)" for rep'
      using ok s by (auto simp: policy_ok_def find_role_upd [OF key])
    moreover have "r\<lparr>ro_description := t\<rparr> = r" if "ro_description r = t" using that by simp
    moreover have "policy_ok d (rep', d1)" for rep' using ok s by (simp add: policy_ok_def)
    ultimately show ?thesis
      using old s v w1 by (auto simp: policy_step_def policy_role_def cur n find_role_upd [OF key])
  qed
qed

lemma policy_delete_effect:
  assumes "kept_rows d (snd s)" and "distinct (map ro_role (roles (snd s)))"
  shows "(kept_rows d (snd (policy_delete_step (role, r) s)) \<and> distinct (map ro_role (roles (snd (policy_delete_step (role, r) s))))) \<and>
    (\<forall>q. find_role (snd (policy_delete_step (role, r) s)) q =
       (if q = role then (if is_reserved_role role \<or> ro_locked r then find_role (snd s) q else None) else find_role (snd s) q))"
proof (cases "is_reserved_role role \<or> ro_locked r")
  case True
  then show ?thesis using assms by (cases s) (auto simp: policy_delete_step_def)
next
  case False
  have "snd (policy_delete_step (role, r) s) = snd (remove_accounts_from_role role (snd s))"
    using False by (cases s) (simp add: policy_delete_step_def split: prod.splits)
  moreover have "distinct (map ro_role (roles (snd (remove_accounts_from_role role (snd s)))))"
    using assms(2) by (simp add: remove_accounts_from_role_def delete_role_row_def distinct_map_filter_key)
  ultimately show ?thesis using kept_rows_delete [OF assms(1), of role] False by (simp add: find_remove_accounts)
qed

lemma policy_sync_effect:
  assumes refs: "role_refs_ok d" and keys: "distinct (map fst policy)"
    and texts: "\<forall>p \<in> set policy. \<exists>t. normalize_description (snd p) = Inr t"
  shows "\<exists>rep d'. sync_roles_from_policy_package policy d = Inr (rep, d') \<and> kept_rows d d' \<and>
     distinct (map ro_role (roles d')) \<and> (\<forall>role. find_role d' role = synced_role d policy role)"
proof -
  have roles: "distinct (map ro_role (roles d))" using refs by (simp add: role_refs_ok_def)
  let ?current = "known_roles d"
  have "\<exists>s1. rfold (policy_step ?current) (sort_key fst policy) (empty_policy_report, d) = Inr s1 \<and> policy_ok d s1 \<and>
     (\<forall>r. find_role (snd s1) r = (case map_of (sort_key fst policy) r of None \<Rightarrow> find_role (snd (empty_policy_report, d)) r
       | Some v \<Rightarrow> policy_role r v (find_role (snd (empty_policy_report, d)) r)))"
  proof (rule rfold_pointwise [where P = "\<lambda>k v w. w = find_role d k" and view = "\<lambda>s. find_role (snd s)"])
    fix role v s assume "(role, v) \<in> set (sort_key fst policy)" "policy_ok d s" "find_role (snd s) role = find_role d role"
    moreover from this obtain t where "normalize_description v = Inr t" using texts by force
    ultimately show "\<exists>s'. policy_step ?current (role, v) s = Inr s' \<and> policy_ok d s' \<and>
        (\<forall>r. find_role (snd s') r = (if r = role then policy_role role v (find_role (snd s) r) else find_role (snd s) r))"
      using policy_step_effect [OF roles] by blast
  qed (use keys_sort [OF keys] roles in \<open>auto simp: policy_ok_def intro: exI [where x = "roles d"]\<close>)
  then obtain s1 where s1: "rfold (policy_step ?current) (sort_key fst policy) (empty_policy_report, d) = Inr s1" and ok1: "policy_ok d s1"
    and v1: "\<And>r. find_role (snd s1) r = (case map_of policy r of None \<Rightarrow> find_role d r | Some v \<Rightarrow> policy_role r v (find_role d r))"
    unfolding snd_conv map_of_sort [OF keys] by blast
  obtain rs where rs: "snd s1 = d\<lparr>roles := rs\<rparr>" using ok1 by (auto simp: policy_ok_def)
  have kept1: "kept_rows d (snd s1)"
  proof -
    have "find_role (snd s1) r \<noteq> None" if "find_role d r \<noteq> None" for r using ok1 that by (auto simp: policy_ok_def)
    then show ?thesis
      using refs rs unfolding kept_rows_def role_refs_ok_def by (auto intro: filter_True [symmetric])
  qed
  let ?gone = "filter (\<lambda>(role, _). role \<notin> set (map fst policy)) ?current"
  have dc: "distinct (map fst ?current)"
    using roles by (simp add: known_roles_def list_roles_def comp_def case_prod_unfold distinct_map)
  have gone: "?gone = without ?current (map fst policy)" by (simp add: without_def)
  define s2 where "s2 = fold policy_delete_step ?gone s1"
  have "(kept_rows d (snd s2) \<and> distinct (map ro_role (roles (snd s2)))) \<and>
     (\<forall>q. find_role (snd s2) q = (case map_of ?gone q of None \<Rightarrow> find_role (snd s1) q
       | Some r \<Rightarrow> if is_reserved_role q \<or> ro_locked r then find_role (snd s1) q else None))"
    unfolding s2_def
    using policy_delete_effect [of d] keys_without [OF dc, of "map fst policy", folded gone] kept1 ok1
    by (intro fold_pointwise [where view = "\<lambda>s. find_role (snd s)" and G = "\<lambda>q r w. if is_reserved_role q \<or> ro_locked r then w else None"])
      (blast, simp, simp add: policy_ok_def)
  then have kept2: "kept_rows d (snd s2)" and dist2: "distinct (map ro_role (roles (snd s2)))"
    and raw2: "\<And>q. find_role (snd s2) q = (case map_of ?gone q of None \<Rightarrow> find_role (snd s1) q
       | Some r \<Rightarrow> if is_reserved_role q \<or> ro_locked r then find_role (snd s1) q else None)"
    by blast+
  have "find_role (snd s2) role = synced_role d policy role" for role
    using map_of_eq_None_iff [of policy role] unfolding raw2 gone map_of_without known_roles_find [OF roles] v1 synced_role_def policy_role_def
    by (auto split: option.splits)
  moreover have "sync_roles_from_policy_package policy d = Inr (fst s2, snd s2)"
    by (simp add: sync_roles_from_policy_package_def s1 s2_def)
  ultimately show ?thesis using kept2 dist2 by blast
qed

lemma policy_dry_run_agrees:
  "sync_roles_from_policy_package_dry_run policy d =
     map_sum id (\<lambda>(rep, _). rep\<lparr>pr_unassigned := 0\<rparr>) (sync_roles_from_policy_package policy d)"
proof -
  let ?h = "\<lambda>s :: policy_report \<times> rbac_db. (fst s)\<lparr>pr_unassigned := 0\<rparr>"
  have step: "map_sum id ?h (policy_step current p s) = policy_dry_step current p (?h s)" for current p s
    by (cases p; cases s; cases "normalize_description (snd p)")
      (auto simp: policy_step_def policy_dry_step_def split: option.splits)
  have del: "?h (policy_delete_step p s) = policy_dry_delete_step p (?h s)" for p s
    by (cases p; cases s) (auto simp: policy_delete_step_def policy_dry_delete_step_def split: prod.splits)
  have loop: "rfold (policy_dry_step (known_roles d)) (sort_key fst policy) empty_policy_report =
      map_sum id ?h (rfold (policy_step (known_roles d)) (sort_key fst policy) (empty_policy_report, d))"
    using rfold_project [where h = ?h and f = "policy_step (known_roles d)" and g = "policy_dry_step (known_roles d)", OF step,
        of "sort_key fst policy" "(empty_policy_report, d)"]
    by (simp add: empty_policy_report_def)
  have dels: "fold policy_dry_delete_step xs (?h s) = ?h (fold policy_delete_step xs s)" for xs s
    by (rule fold_project [where h = ?h, symmetric]) (rule del)
  show ?thesis
    unfolding sync_roles_from_policy_package_dry_run_def sync_roles_from_policy_package_def Let_def loop
    by (cases "rfold (policy_step (known_roles d)) (sort_key fst policy) (empty_policy_report, d)")
      (simp_all add: dels case_prod_unfold)
qed

lemma synced_role_again:
  assumes "\<And>r. find_role d' r = synced_role d policy r"
  shows "synced_role d' policy role = synced_role d policy role"
  unfolding synced_role_def [of d'] assms by (auto simp: synced_role_def split: option.splits)

text \<open>A synchronisation with a policy package whose descriptions are readable always succeeds and decides every role alone:
  a reserved or locked role stays as it is; any other role stays exactly if the package defines it, with the description of the
  package and its other properties unchanged; a role that the package defines and that did not exist is
  created assignable and unlocked, unless it is reserved. Assignments and permissions are kept exactly
  for the roles that are left. The dry run counts what the synchronisation does, and a second
  synchronisation leaves the roles as they are.\<close>

theorem policy_sync_exact:
  assumes "role_refs_ok d" and "distinct (map fst policy)" and "\<forall>p \<in> set policy. \<exists>t. normalize_description (snd p) = Inr t"
  shows "\<exists>rep d'. sync_roles_from_policy_package policy d = Inr (rep, d') \<and>
     sync_roles_from_policy_package_dry_run policy d = Inr (rep\<lparr>pr_unassigned := 0\<rparr>) \<and>
     (\<forall>role. find_role d' role = synced_role d policy role) \<and> kept_rows d d' \<and> role_refs_ok d' \<and>
     (\<exists>rep' d''. sync_roles_from_policy_package policy d' = Inr (rep', d'') \<and> (\<forall>role. find_role d'' role = find_role d' role))"
proof -
  obtain rep d' where run: "sync_roles_from_policy_package policy d = Inr (rep, d')" and kept: "kept_rows d d'"
    and dist: "distinct (map ro_role (roles d'))" and view: "\<And>role. find_role d' role = synced_role d policy role"
    using policy_sync_effect [OF assms] by blast
  have refs: "role_refs_ok d'" using kept dist by (auto simp: role_refs_ok_def kept_rows_def)
  obtain rep' d'' where "sync_roles_from_policy_package policy d' = Inr (rep', d'')"
    and "\<And>role. find_role d'' role = synced_role d' policy role"
    using policy_sync_effect [OF refs assms(2,3)] by blast
  then have "sync_roles_from_policy_package policy d' = Inr (rep', d'') \<and> (\<forall>role. find_role d'' role = find_role d' role)"
    using synced_role_again [OF view] view by simp
  then show ?thesis using run kept view refs by (auto simp: policy_dry_run_agrees)
qed

theorem policy_sync_exact_witness:
  "\<exists>rep d'. sync_roles_from_policy_package [(''writer'', VStr '' Writes. ''), (''admin'', VNone)] demo_roles = Inr (rep, d') \<and>
     find_role d' ''reader'' = None \<and> find_role d' ''admin'' = find_role demo_roles ''admin'' \<and>
     map_option ro_description (find_role d' ''writer'') = Some (Some ''Writes.'')"
proof -
  let ?policy = "[(''writer'', VStr '' Writes. ''), (''admin'', VNone)]"
  have refs: "role_refs_ok demo_roles" by code_simp
  have keys: "distinct (map fst ?policy)" by simp
  have texts: "\<forall>p \<in> set ?policy. \<exists>t. normalize_description (snd p) = Inr t" by simp
  have "synced_role demo_roles ?policy ''reader'' = None"
    and "synced_role demo_roles ?policy ''admin'' = find_role demo_roles ''admin''"
    and "map_option ro_description (synced_role demo_roles ?policy ''writer'') = Some (Some ''Writes.'')"
    by code_simp+
  then show ?thesis using policy_sync_exact [OF refs keys texts] by metis
qed

section \<open>Dates with an offset\<close>

text \<open>A date that is read with a UTC offset, which the ISO 8601 form allows, cannot be compared with the
  current time: assigning a role until such a date raises a \<^verbatim>\<open>TypeError\<close>.\<close>

lemma offset_date_raises:
  assumes "normalize_date e x = Inr (Some (Aware t offset))" and "force \<or> \<not> role_not_assignable d role"
  shows "add_account_role e now account role x force VNone d = Inl RoleTypeError"
  using assms by (auto simp: add_account_role_def ensure_expires_after_activation_def)

end
