(* ===== verification/Role_Invariant.thy ===== *)
theory Role_Invariant
  imports Role_Access Role_Quotas Role_Sync
begin

text \<open>
  The invariant of role-based access control: every operation of \<^verbatim>\<open>core/role.py\<close> that writes to the database keeps the keys of
  the tables unique, their references intact, the periods of assignments non-empty, the stored patterns valid, the
  limits in range, and the reserved roles locked and without permissions.
\<close>

section \<open>The invariant\<close>

definition roles_ok :: "rbac_db \<Rightarrow> bool" where
  "roles_ok d \<longleftrightarrow>
     distinct (map ro_role (roles d)) \<and>
     (\<forall>r \<in> set (roles d). is_reserved_role (ro_role r) \<longrightarrow> ro_locked r \<and> ro_description r = map_of RESERVED_ROLES (ro_role r))"

definition did_rows_ok :: "rbac_env \<Rightarrow> rbac_db \<Rightarrow> bool" where
  "did_rows_ok e d \<longleftrightarrow>
     distinct (map did_key (role_did_permission_map d)) \<and>
     (\<forall>p \<in> set (role_did_permission_map d).
        dp_role p \<in> set (map ro_role (roles d)) \<and> \<not> is_reserved_role (dp_role p) \<and>
        validate_did_pattern e (VStr (dp_did_pattern p)) = Inr (dp_did_pattern p) \<and> (\<exists>op. grants_op op p))"

definition limits_ok :: "rbac_db \<Rightarrow> bool" where
  "limits_ok d \<longleftrightarrow>
     distinct (map ll_key (role_local_limit_permission_map d)) \<and> distinct (map gl_key (role_global_limit_permission_map d)) \<and>
     (\<forall>l \<in> set (role_local_limit_permission_map d).
        ll_role l \<in> set (map ro_role (roles d)) \<and> \<not> is_reserved_role (ll_role l) \<and> ROLE_QUOTA_NOCAP \<le> ll_bytes l) \<and>
     (\<forall>l \<in> set (role_global_limit_permission_map d).
        gl_role l \<in> set (map ro_role (roles d)) \<and> \<not> is_reserved_role (gl_role l) \<and> ROLE_QUOTA_NOCAP \<le> gl_bytes l)"

definition rbac_wf :: "rbac_env \<Rightarrow> rbac_db \<Rightarrow> bool" where
  "rbac_wf e d \<longleftrightarrow> roles_ok d \<and> assignments_wf d \<and> did_rows_ok e d \<and> limits_ok d"

declare validate_did_pattern.simps [simp del]

lemmas rbac_defs = rbac_wf_def roles_ok_def assignments_wf_def did_rows_ok_def limits_ok_def

section \<open>Steps\<close>

text \<open>One step of the system: an operation that returns.\<close>

inductive rbac_step :: "rbac_env \<Rightarrow> rbac_db \<Rightarrow> rbac_db \<Rightarrow> bool" for e where
  add_role: "add_role role description assignable locked d = Inr d' \<Longrightarrow> rbac_step e d d'"
| update_role: "update_role role description assign lock force d = Inr (r, d') \<Longrightarrow> rbac_step e d d'"
| delete_role: "delete_role role force d = Inr d' \<Longrightarrow> rbac_step e d d'"
| setup_reserved_roles: "setup_reserved_roles d = (created, d') \<Longrightarrow> rbac_step e d d'"
| add_account_role: "add_account_role e now account role expires_at force activates_at d = Inr d' \<Longrightarrow> rbac_step e d d'"
| delete_account_role: "delete_account_role account role force d = Inr d' \<Longrightarrow> rbac_step e d d'"
| set_account_role_dates: "set_account_role_dates e now account role act ex d = Inr (dates, d') \<Longrightarrow> rbac_step e d d'"
| clean_expired: "clean_expired_account_roles now vo dry_run d = (removed, d') \<Longrightarrow> rbac_step e d d'"
| add_role_permission: "add_role_permission e role ptype params force d = Some (Inr d') \<Longrightarrow> rbac_step e d d'"
| delete_role_permission: "delete_role_permission e role ptype params force d = Some (Inr (n, d')) \<Longrightarrow> rbac_step e d d'"
| sync_policy: "distinct (map fst policy) \<Longrightarrow> sync_roles_from_policy_package policy d = Inr (rep, d') \<Longrightarrow> rbac_step e d d'"
| sync_idp: "parse_idp_roles e supplied = Inr desired \<Longrightarrow> \<forall>p \<in> set desired. naive (snd p) \<Longrightarrow>
    sync_account_roles_from_idp e now account supplied d = Inr (rep, d') \<Longrightarrow> rbac_step e d d'"

section \<open>Roles\<close>

lemma find_role_Some: "find_role d role = Some r \<Longrightarrow> r \<in> set (roles d) \<and> ro_role r = role"
  by (auto simp: find_role_def find_Some_iff)

lemma find_role_exists: "find_role d role \<noteq> None \<longleftrightarrow> role \<in> set (map ro_role (roles d))"
  unfolding find_role_None by simp

text \<open>Permissions and limits only look at the names of the roles.\<close>

lemma rbac_wf_more_roles:
  assumes "rbac_wf e d" and "roles_ok (d\<lparr>roles := rs\<rparr>)" and "set (map ro_role (roles d)) \<subseteq> set (map ro_role rs)"
  shows "rbac_wf e (d\<lparr>roles := rs\<rparr>)"
proof -
  have sub: "x \<in> ro_role ` set rs" if "x \<in> ro_role ` set (roles d)" for x using that assms(3) by auto
  have "assignments_wf (d\<lparr>roles := rs\<rparr>)" "did_rows_ok e (d\<lparr>roles := rs\<rparr>)" "limits_ok (d\<lparr>roles := rs\<rparr>)"
    using assms(1,2) sub by (simp_all add: rbac_defs)
  then show ?thesis using assms(2) by (simp add: rbac_wf_def)
qed

lemma add_role_wf: "add_role role description assignable locked d = Inr d' \<Longrightarrow> rbac_wf e d \<Longrightarrow> rbac_wf e d'"
proof -
  assume run: "add_role role description assignable locked d = Inr d'" and wf: "rbac_wf e d"
  then obtain t where "\<not> is_reserved_role role" and new: "role \<notin> set (map ro_role (roles d))"
    and d': "d' = d\<lparr>roles := roles d @ [\<lparr>ro_role = role, ro_description = t, ro_assignable = assignable, ro_locked = locked\<rparr>]\<rparr>"
    by (auto simp: add_role_def rbind_eq_Inr split: if_splits)
  then show ?thesis
    unfolding d' using wf by (intro rbac_wf_more_roles) (auto simp: rbac_wf_def roles_ok_def)
qed

lemma update_role_wf:
  assumes run: "update_role role description assignable locked force d = Inr (r', d')" and wf: "rbac_wf e d"
  shows "rbac_wf e d'"
proof -
  obtain r where r: "find_role d role = Some r" using run by (auto simp: update_role_def split: option.splits)
  then have role: "ro_role r = role" "r \<in> set (roles d)" using find_role_Some by blast+
  have d': "d' = d\<lparr>roles := upd_where (\<lambda>x. ro_role x = role) (\<lambda>_. r') (roles d)\<rparr>" and r': "ro_role r' = role"
    using run r role by (auto simp: update_role_def rbind_eq_Inr Let_def split: if_splits)
  have reserved: "ro_locked r' = ro_locked r \<and> ro_description r' = ro_description r" if "is_reserved_role role"
    using that run r by (auto simp: update_role_def rbind_eq_Inr Let_def split: if_splits)
  have names: "map ro_role (upd_where (\<lambda>x. ro_role x = role) (\<lambda>_. r') rs) = map ro_role rs" for rs :: "role_row list"
    using r' by (induction rs) (auto simp: upd_where_def)
  have "roles_ok d'"
    unfolding roles_ok_def d'
  proof (intro conjI ballI impI)
    show "distinct (map ro_role (roles (d\<lparr>roles := upd_where (\<lambda>x. ro_role x = role) (\<lambda>_. r') (roles d)\<rparr>)))"
      using wf names [of "roles d"] by (simp add: rbac_wf_def roles_ok_def)
    fix x assume x: "x \<in> set (roles (d\<lparr>roles := upd_where (\<lambda>x. ro_role x = role) (\<lambda>_. r') (roles d)\<rparr>))" "is_reserved_role (ro_role x)"
    then consider "x = r'" | "x \<in> set (roles d)" by (auto simp: upd_where_def split: if_splits)
    then show "ro_locked x" and "ro_description x = map_of RESERVED_ROLES (ro_role x)"
      using x(2) wf reserved r' role by (cases, auto simp: rbac_wf_def roles_ok_def)+
  qed
  then show ?thesis unfolding d' using names [of "roles d"] by (intro rbac_wf_more_roles [OF wf]) simp_all
qed

lemma delete_role_row_wf:
  assumes wf: "rbac_wf e d" and "\<forall>a \<in> set (account_role_map d). ra_role a \<noteq> role"
  shows "rbac_wf e (delete_role_row role d)"
proof -
  have "x \<in> set (map ro_role (filter (\<lambda>r. ro_role r \<noteq> role) rs)) \<longleftrightarrow> x \<in> set (map ro_role rs) \<and> x \<noteq> role" for x and rs :: "role_row list"
    by auto
  then show ?thesis
    using assms unfolding rbac_defs delete_role_row_def by (simp add: distinct_map_filter_key)
qed

lemma rbac_wf_fewer_assignments:
  "rbac_wf e d \<Longrightarrow> rbac_wf e (d\<lparr>account_role_map := filter P (account_role_map d)\<rparr>)"
  unfolding rbac_defs by (simp add: distinct_map_filter_key)

lemma remove_accounts_wf: "rbac_wf e d \<Longrightarrow> rbac_wf e (snd (remove_accounts_from_role role d))"
  unfolding remove_accounts_from_role_def snd_conv
  by (rule delete_role_row_wf) (simp_all add: rbac_wf_fewer_assignments)

lemma delete_role_wf: "delete_role role force d = Inr d' \<Longrightarrow> rbac_wf e d \<Longrightarrow> rbac_wf e d'"
  by (auto simp: delete_role_def rbind_eq_Inr remove_accounts_wf delete_role_row_wf split: if_splits)

lemma setup_reserved_wf: "setup_reserved_roles d = (created, d') \<Longrightarrow> rbac_wf e d \<Longrightarrow> rbac_wf e d'"
proof -
  assume run: "setup_reserved_roles d = (created, d')" and wf: "rbac_wf e d"
  let ?x = "\<lparr>ro_role = ADMIN_ROLE, ro_description = Some ''Rucio administrator.'', ro_assignable = False, ro_locked = True\<rparr>"
  have "d' = (if ADMIN_ROLE \<in> set (map ro_role (roles d)) then d else d\<lparr>roles := roles d @ [?x]\<rparr>)"
    using run by (auto simp: setup_reserved_roles_def RESERVED_ROLES_def Let_def)
  then show ?thesis
    using wf rbac_wf_more_roles [OF wf, of "roles d @ [?x]"]
    by (auto simp: rbac_wf_def roles_ok_def RESERVED_ROLES_def)
qed

section \<open>Assignments\<close>

lemma rbac_wf_assignments:
  "rbac_wf e d \<Longrightarrow> assignments_wf (d\<lparr>account_role_map := rows\<rparr>) \<Longrightarrow> rbac_wf e (d\<lparr>account_role_map := rows\<rparr>)"
  by (simp add: rbac_defs)

lemma add_account_role_wf:
  assumes run: "add_account_role e now account role expires_at force activates_at d = Inr d'" and wf: "rbac_wf e d"
  shows "rbac_wf e d'"
proof -
  obtain a where d': "d' = d\<lparr>account_role_map := account_role_map d @ [a]\<rparr>" and "assignment_violates d a = []"
    using run by (auto simp: add_account_role_def rbind_eq_Inr Let_def split: if_splits)
  then have "assignments_wf d'"
    using wf by (auto simp: rbac_wf_def assignments_wf_def assignment_violates_def period_ok_def split: if_splits option.splits)
  then show ?thesis using wf d' by (simp add: rbac_wf_assignments)
qed

lemma delete_assignment_wf: "rbac_wf e d \<Longrightarrow> rbac_wf e (delete_assignment account role d)"
  by (simp add: delete_assignment_def rbac_wf_fewer_assignments)

lemma set_account_role_dates_wf:
  assumes run: "set_account_role_dates e now account role act ex d = Inr (dates, d')" and wf: "rbac_wf e d"
  shows "rbac_wf e d'"
proof -
  obtain t y where d': "d' = d\<lparr>account_role_map := upd_where (\<lambda>b. assignment_key b = (account, role))
      (\<lambda>b. b\<lparr>ra_activates_at := t, ra_expires_at := y\<rparr>) (account_role_map d)\<rparr>"
    and period: "case y of None \<Rightarrow> True | Some x \<Rightarrow> t < x"
  proof -
    obtain u x where "d' = d\<lparr>account_role_map := upd_where (\<lambda>b. assignment_key b = (account, role))
        (\<lambda>b. b\<lparr>ra_activates_at := date_stored u, ra_expires_at := map_option date_stored x\<rparr>) (account_role_map d)\<rparr>"
      and "case x of None \<Rightarrow> True | Some z \<Rightarrow> date_stored u < date_stored z"
      using run unfolding set_account_role_dates_def
      by (cases "find_assignment d account role") (auto simp: rbind_eq_Inr split: if_splits)
    then show thesis by (intro that [of "map_option date_stored x" "date_stored u"]) (auto split: option.splits)
  qed
  let ?f = "\<lambda>b. b\<lparr>ra_activates_at := t, ra_expires_at := y\<rparr>"
  have "map assignment_key (upd_where (\<lambda>b. assignment_key b = (account, role)) ?f rows) = map assignment_key rows" for rows :: "assignment list"
    by (induction rows) (auto simp: upd_where_def assignment_key_def)
  moreover have "ra_role b \<in> ro_role ` set (roles d) \<and> ra_account b \<in> set (accounts d) \<and> period_ok b"
    if b: "b \<in> set (upd_where (\<lambda>b. assignment_key b = (account, role)) ?f (account_role_map d))" for b
  proof -
    obtain c where "c \<in> set (account_role_map d)" and "b = ?f c \<or> b = c" using b by (auto simp: upd_where_def split: if_splits)
    moreover have "period_ok (?f c)" using period by (cases y) (simp_all add: period_ok_def)
    ultimately show ?thesis using wf by (auto simp: rbac_wf_def assignments_wf_def)
  qed
  ultimately have "assignments_wf d'" using wf by (simp add: d' rbac_wf_def assignments_wf_def)
  then show ?thesis using wf d' by (simp add: rbac_wf_assignments)
qed

lemma clean_expired_wf: "clean_expired_account_roles now vo dry_run d = (removed, d') \<Longrightarrow> rbac_wf e d \<Longrightarrow> rbac_wf e d'"
proof -
  assume run: "clean_expired_account_roles now vo dry_run d = (removed, d')" and wf: "rbac_wf e d"
  have "rbac_wf e (fold (\<lambda>a. delete_assignment (ra_account a) (ra_role a)) xs d)" for xs
    using wf by (induction xs arbitrary: d) (simp_all add: delete_assignment_wf)
  then show ?thesis using run wf by (auto simp: clean_expired_account_roles_def Let_def)
qed

section \<open>Permissions\<close>

lemma grants_set_op [simp]: "grants_op op (set_op op True p)"
  by (cases op) (simp_all add: grants_op_def set_op_def)

lemma set_op_key [simp]: "dp_role (set_op op b p) = dp_role p" "dp_did_pattern (set_op op b p) = dp_did_pattern p"
    "did_key (set_op op b p) = did_key p"
  by (cases op; simp add: set_op_def did_key_def)+

lemma did_update_wf:
  assumes wf: "rbac_wf e d" and grants: "\<And>p. p \<in> set (role_did_permission_map d) \<Longrightarrow> did_key p = k \<Longrightarrow> \<exists>op'. grants_op op' (set_op op b p)"
  shows "rbac_wf e (d\<lparr>role_did_permission_map := upd_where (\<lambda>q. did_key q = k) (set_op op b) (role_did_permission_map d)\<rparr>)"
proof -
  have keys: "map did_key (upd_where (\<lambda>q. did_key q = k) (set_op op b) rows) = map did_key rows" for rows :: "did_permission list"
    by (induction rows) (auto simp: upd_where_def)
  have "did_rows_ok e (d\<lparr>role_did_permission_map := upd_where (\<lambda>q. did_key q = k) (set_op op b) (role_did_permission_map d)\<rparr>)"
    using wf grants keys [of "role_did_permission_map d"] unfolding did_rows_ok_def rbac_wf_def
    by (auto elim!: mem_upd_whereE)
  then show ?thesis using wf by (simp add: rbac_defs)
qed

lemma did_add_wf:
  assumes run: "did_add e role target op d = Inr d'" and wf: "rbac_wf e d" and "\<not> is_reserved_role role"
    and "validate_did_pattern e (VStr target) = Inr target"
  shows "rbac_wf e d'"
proof (cases "permission_row d role target")
  case None
  let ?p = "set_op op True \<lparr>dp_role = role, dp_did_pattern = target, can_read = False, can_write = False, can_delete = False\<rparr>"
  have d': "d' = d\<lparr>role_did_permission_map := role_did_permission_map d @ [?p]\<rparr>" and "role \<in> set (map ro_role (roles d))"
    using run None by (auto simp: did_add_def split: if_splits)
  moreover have "did_key ?p \<notin> did_key ` set (role_did_permission_map d)"
    using None by (auto simp: permission_row_def find_None_iff did_key_def)
  moreover have "\<exists>op'. grants_op op' ?p" using grants_set_op by blast
  ultimately have "did_rows_ok e d'" using wf assms(3,4) by (auto simp: did_rows_ok_def rbac_wf_def)
  then show ?thesis using wf d' by (simp add: rbac_defs)
next
  case (Some p)
  then have "d' = d\<lparr>role_did_permission_map := upd_where (\<lambda>q. did_key q = (role, target)) (set_op op True) (role_did_permission_map d)\<rparr>"
    using run by (auto simp: did_add_def split: if_splits)
  then show ?thesis using wf did_update_wf [OF wf] grants_set_op by blast
qed

lemma did_remove_wf:
  assumes run: "did_remove role target op d = (n, d')" and wf: "rbac_wf e d"
  shows "rbac_wf e d'"
proof -
  consider "d' = d"
    | p where "permission_row d role target = Some p" "\<exists>other. grants_op other (set_op op False p)"
        "d' = d\<lparr>role_did_permission_map := upd_where (\<lambda>q. did_key q = (role, target)) (set_op op False) (role_did_permission_map d)\<rparr>"
    | "d' = d\<lparr>role_did_permission_map := filter (\<lambda>q. did_key q \<noteq> (role, target)) (role_did_permission_map d)\<rparr>"
    using run by (auto simp: did_remove_def split: option.splits if_splits)
  then show ?thesis
  proof cases
    case 1
    then show ?thesis using wf by simp
  next
    case (2 p)
    have "q = p" if "q \<in> set (role_did_permission_map d)" "did_key q = (role, target)" for q
    proof -
      have "p \<in> set (role_did_permission_map d)" "did_key p = (role, target)"
        using 2(1) by (auto simp: permission_row_def find_Some_iff)
      moreover have "inj_on did_key (set (role_did_permission_map d))" using wf by (simp add: rbac_wf_def did_rows_ok_def distinct_map)
      ultimately show ?thesis using that by (metis inj_onD)
    qed
    then show ?thesis unfolding 2(3) using wf 2(2) by (intro did_update_wf) auto
  next
    case 3
    then show ?thesis using wf by (simp add: rbac_defs distinct_map_filter_key)
  qed
qed

lemma merge_row_keys: "distinct (map key rows) \<Longrightarrow> distinct (map key (merge_row key r rows))"
proof -
  have "map key (upd_where (\<lambda>x. key x = key r) (\<lambda>_. r) rows) = map key rows" by (induction rows) (auto simp: upd_where_def)
  then show "distinct (map key rows) \<Longrightarrow> distinct (map key (merge_row key r rows))" by (auto simp: merge_row_def)
qed

lemma merge_row_set: "x \<in> set (merge_row key r rows) \<Longrightarrow> x = r \<or> x \<in> set rows"
  by (auto simp: merge_row_def upd_where_def split: if_splits)

lemma case_single:
  "(case xs of [] \<Rightarrow> g | [x] \<Rightarrow> f x | x # y # ys \<Rightarrow> g) = (if length xs = 1 then f (hd xs) else g)"
  by (simp split: list.splits)

lemma limit_add_cases:
  assumes "limit_add e role target params d = Some (Inr d')"
  obtains (local) rse where "role \<in> set (map ro_role (roles d))"
      "d' = d\<lparr>role_local_limit_permission_map := merge_row ll_key \<lparr>ll_role = role, ll_rse_id = rse, ll_bytes = snd params\<rparr> (role_local_limit_permission_map d)\<rparr>"
    | (global) "role \<in> set (map ro_role (roles d))"
      "d' = d\<lparr>role_global_limit_permission_map := merge_row gl_key \<lparr>gl_role = role, gl_rse_expression = target, gl_bytes = snd params\<rparr> (role_global_limit_permission_map d)\<rparr>"
proof -
  obtain loc n where params: "params = (loc, n)" by (metis prod.exhaust)
  show thesis
  proof (cases loc)
    case LOCAL
    then show ?thesis
      using assms params local by (auto simp: limit_add_def rbind_eq_Inr case_single split: if_splits)
  next
    case GLOBAL
    then show ?thesis using assms params global by (auto simp: limit_add_def rbind_eq_Inr split: if_splits)
  qed
qed

lemma limit_add_wf:
  assumes run: "limit_add e role target params d = Some (Inr d')" and wf: "rbac_wf e d" and "\<not> is_reserved_role role"
    and bytes: "ROLE_QUOTA_NOCAP \<le> snd params"
  shows "rbac_wf e d'"
  using run
proof (cases rule: limit_add_cases)
  case (local rse)
  have "limits_ok d'"
    unfolding local(2) using wf assms(3) bytes local(1)
    by (auto simp: rbac_wf_def limits_ok_def merge_row_keys dest!: merge_row_set)
  then show ?thesis using wf local(2) by (simp add: rbac_defs)
next
  case global
  have "limits_ok d'"
    unfolding global(2) using wf assms(3) bytes global(1)
    by (auto simp: rbac_wf_def limits_ok_def merge_row_keys dest!: merge_row_set)
  then show ?thesis using wf global(2) by (simp add: rbac_defs)
qed

definition limit_local_part where
  "limit_local_part e role target params d =
     (case map_of params LOCAL of
        None \<Rightarrow> Some (Inr (0, d))
      | Some asked \<Rightarrow> map_option (\<lambda>r. rbind r (\<lambda>rse_ids.
          case rse_ids of [rse] \<Rightarrow> Inr (remove_local role rse d)
                        | _ \<Rightarrow> if asked then Inl RoleInputValidationError else Inr (0, d))) (resolve_rse_ids e target))"

lemma limit_remove_parts:
  "limit_remove e role target params d =
     map_option (\<lambda>r. rbind r (\<lambda>(n, d1).
         if GLOBAL \<in> set (map fst params) then (let (m, d2) = remove_global role target d1 in Inr (n + m, d2)) else Inr (n, d1)))
       (limit_local_part e role target params d)"
  by (simp add: limit_remove_def limit_local_part_def)

lemma limit_remove_wf:
  assumes run: "limit_remove e role target params d = Some (Inr (n, d'))" and wf: "rbac_wf e d"
  shows "rbac_wf e d'"
proof -
  have local: "rbac_wf e d1" if "remove_local role rse d = (m, d1)" for rse m d1
    using wf that by (auto simp: remove_local_def rbac_defs distinct_map_filter_key)
  have global: "rbac_wf e (snd (remove_global role target d0))" if "rbac_wf e d0" for d0
    using that by (simp add: remove_global_def rbac_defs distinct_map_filter_key)
  have first: "rbac_wf e d1" if "limit_local_part e role target params d = Some (Inr (m, d1))" for m d1
    using that wf local
    by (auto simp: limit_local_part_def rbind_eq_Inr case_single split: option.splits if_splits)
  obtain m d1 where "limit_local_part e role target params d = Some (Inr (m, d1))"
    and rest: "d' = d1 \<or> d' = snd (remove_global role target d1)"
    using run unfolding limit_remove_parts by (auto simp: rbind_eq_Inr split: if_splits prod.splits)
  then show ?thesis using first global by blast
qed

lemma limit_parameters_bytes:
  assumes "limit_add_parameters params = Inr p"
  shows "ROLE_QUOTA_NOCAP \<le> snd p"
proof -
  have bytes: "ROLE_QUOTA_NOCAP \<le> n" if "normalize_bytes v = Inr n" for v n
    using that by (cases v) (auto simp: ROLE_QUOTA_NOCAP_def split: if_splits)
  obtain k v where "params = [(k, v)]" using assms by (auto simp: limit_add_parameters_def split: list.splits)
  then obtain n loc where "normalize_bytes v = Inr n" and "p = (loc, n)"
    using assms by (auto simp: limit_add_parameters_def rbind_eq_Inr split: if_splits)
  then show ?thesis using bytes by simp
qed

lemma add_role_permission_cases:
  assumes run: "add_role_permission e role ptype params force d = Some (Inr d')"
  obtains (did) target op where "validate_did_pattern e (VStr target) = Inr target" and "\<not> is_reserved_role role"
      and "did_add e role target op d = Inr d'"
    | (limit) target ps where "ROLE_QUOTA_NOCAP \<le> snd ps" and "\<not> is_reserved_role role" and "limit_add e role target ps d = Some (Inr d')"
proof -
  obtain t v rest where t: "permission_handler ptype = Inr t" and split: "split_target t params = Inr (v, rest)"
    using run by (auto simp: add_role_permission_def obind_eq_Inr)
  have unreserved: "\<not> is_reserved_role role" if "reserved_or_locked d role force = Inr u" for u
    using that by (auto simp: reserved_or_locked_def split: if_splits)
  show thesis
  proof (cases t)
    case PermissionDID
    then obtain target op where target: "validate_did_pattern e v = Inr target" and "reserved_or_locked d role force = Inr ()"
      and add: "did_add e role target op d = Inr d'"
      using run t split by (auto simp: add_role_permission_def obind_eq_Inr rbind_eq_Inr)
    moreover obtain s where "v = VStr s" using target by (cases v) (auto simp: validate_did_pattern.simps)
    moreover from this have "validate_did_pattern e (VStr target) = Inr target"
      using target validated_forms validate_pattern_ok by blast
    ultimately show ?thesis using did unreserved by blast
  next
    case PermissionLIMIT
    then obtain target ps where "limit_add_parameters rest = Inr ps" and "reserved_or_locked d role force = Inr ()"
      and "limit_add e role target ps d = Some (Inr d')"
      using run t split by (auto simp: add_role_permission_def obind_eq_Inr bind_eq_Some_conv)
    then show ?thesis using limit unreserved limit_parameters_bytes by blast
  qed
qed

lemma add_role_permission_wf:
  "add_role_permission e role ptype params force d = Some (Inr d') \<Longrightarrow> rbac_wf e d \<Longrightarrow> rbac_wf e d'"
  by (elim add_role_permission_cases) (blast intro: did_add_wf limit_add_wf)+

lemma removed_or_error_Inr: "removed_or_error p = Inr (n, d) \<longleftrightarrow> p = (n, d) \<and> n \<noteq> 0"
  by (cases p) (auto simp: removed_or_error_def)

lemma delete_role_permission_cases:
  assumes run: "delete_role_permission e role ptype params force d = Some (Inr (n, d'))"
  obtains (did) target op where "did_remove role target op d = (n, d')"
    | (limit) target ps where "limit_remove e role target ps d = Some (Inr (n, d'))"
proof -
  obtain t v rest where t: "permission_handler ptype = Inr t" and split: "split_target t params = Inr (v, rest)"
    using run by (auto simp: delete_role_permission_def obind_eq_Inr)
  show thesis
  proof (cases t)
    case PermissionDID
    then show ?thesis
      using run t split did by (auto simp: delete_role_permission_def obind_eq_Inr rbind_eq_Inr removed_or_error_Inr)
  next
    case PermissionLIMIT
    then show ?thesis
      using run t split limit
      by (auto simp: delete_role_permission_def obind_eq_Inr bind_eq_Some_conv rbind_eq_Inr removed_or_error_Inr)
  qed
qed

lemma delete_role_permission_wf:
  "delete_role_permission e role ptype params force d = Some (Inr (n, d')) \<Longrightarrow> rbac_wf e d \<Longrightarrow> rbac_wf e d'"
  by (elim delete_role_permission_cases) (blast intro: did_remove_wf limit_remove_wf)+

section \<open>Synchronisations\<close>

lemma sync_policy_wf:
  assumes keys: "distinct (map fst policy)" and run: "sync_roles_from_policy_package policy d = Inr (rep, d')" and wf: "rbac_wf e d"
  shows "rbac_wf e d'" and "is_reserved_role role \<Longrightarrow> find_role d' role = find_role d role"
proof -
  have refs: "role_refs_ok d"
    using wf unfolding role_refs_ok_def find_role_exists by (auto simp: rbac_defs)
  have "\<exists>t. normalize_description (snd p) = Inr t" if p: "p \<in> set policy" for p
  proof -
    obtain s where s: "rfold (policy_step (known_roles d)) (sort_key fst policy) (empty_policy_report, d) = Inr s"
      using run by (auto simp: sync_roles_from_policy_package_def Let_def rbind_eq_Inr)
    obtain xs ys where "sort_key fst policy = xs @ p # ys" using p by (metis set_sort split_list)
    then obtain s1 s2 where "policy_step (known_roles d) p s1 = Inr s2"
      using s by (auto simp: rfold_append rbind_eq_Inr)
    then show ?thesis by (cases p; cases s1) (auto simp: policy_step_def rbind_eq_Inr)
  qed
  then obtain rep0 d0 where "sync_roles_from_policy_package policy d = Inr (rep0, d0)" "kept_rows d d0"
    "distinct (map ro_role (roles d0))" "\<And>role. find_role d0 role = synced_role d policy role"
    using policy_sync_effect [OF refs keys] by blast
  then have kept: "kept_rows d d'" and dist: "distinct (map ro_role (roles d'))"
    and view: "\<And>role. find_role d' role = synced_role d policy role"
    using run by auto
  have reserved: "find_role d' role = find_role d role" if "is_reserved_role role" for role
    using that by (simp add: view synced_role_def split: option.splits)
  have "roles_ok d'"
    unfolding roles_ok_def
  proof (intro conjI ballI impI dist)
    fix r assume r: "r \<in> set (roles d')" and res: "is_reserved_role (ro_role r)"
    have "find_role d' (ro_role r) = Some r" using find_key [OF dist r refl] by (simp add: find_role_def)
    then have "r \<in> set (roles d)" using reserved [OF res] find_role_Some by metis
    then show "ro_locked r" and "ro_description r = map_of RESERVED_ROLES (ro_role r)"
      using wf res by (auto simp: rbac_wf_def roles_ok_def)
  qed
  moreover have "assignments_wf d'" "did_rows_ok e d'" "limits_ok d'"
    using wf kept dist unfolding kept_rows_def find_role_exists by (simp_all add: rbac_defs distinct_map_filter_key)
  ultimately show "rbac_wf e d'" by (simp add: rbac_wf_def)
  show "is_reserved_role role \<Longrightarrow> find_role d' role = find_role d role" by (rule reserved)
qed

lemma sync_idp_wf:
  assumes "parse_idp_roles e supplied = Inr desired" and "\<forall>p \<in> set desired. naive (snd p)"
    and run: "sync_account_roles_from_idp e now account supplied d = Inr (rep, d')" and wf: "rbac_wf e d"
  shows "rbac_wf e d'" and "roles d' = roles d"
proof -
  have account: "account \<in> set (accounts d)"
    using run by (auto simp: sync_account_roles_from_idp_def ensure_account_exists_def rbind_eq_Inr split: if_splits)
  have "assignments_wf d" using wf by (simp add: rbac_wf_def)
  from idp_sync_effect [OF this account assms(1,2), of now] obtain s where "sync_ok account d s" and "d' = ss_db s"
    using run by auto
  then obtain rows where "d' = d\<lparr>account_role_map := rows\<rparr>" and "assignments_wf (d\<lparr>account_role_map := rows\<rparr>)"
    using sync_okE by metis
  then show "rbac_wf e d'" and "roles d' = roles d" using wf by (simp_all add: rbac_wf_assignments)
qed

section \<open>Every operation keeps the invariant\<close>

lemma rbac_step_wf: "rbac_step e d d' \<Longrightarrow> rbac_wf e d \<Longrightarrow> rbac_wf e d'"
proof (induction rule: rbac_step.induct)
  case (delete_account_role account role force d d')
  then show ?case by (auto simp: delete_account_role_def delete_assignment_wf split: if_splits)
qed (blast intro: add_role_wf update_role_wf delete_role_wf setup_reserved_wf add_account_role_wf set_account_role_dates_wf
      clean_expired_wf add_role_permission_wf delete_role_permission_wf sync_policy_wf(1) sync_idp_wf(1))+

lemma permission_roles:
  assumes "add_role_permission e role ptype params force d = Some (Inr d')"
  shows "roles d' = roles d"
  using assms
proof (cases rule: add_role_permission_cases)
  case (did target op)
  then show ?thesis by (auto simp: did_add_def split: option.splits if_splits)
next
  case (limit target ps)
  from limit(3) show ?thesis by (cases rule: limit_add_cases) simp_all
qed

lemma removal_roles:
  assumes "delete_role_permission e role ptype params force d = Some (Inr (n, d'))"
  shows "roles d' = roles d"
  using assms
proof (cases rule: delete_role_permission_cases)
  case (did target op)
  then show ?thesis by (auto simp: did_remove_def split: option.splits if_splits)
next
  case (limit target ps)
  have "roles d1 = roles d" if "limit_local_part e role target ps d = Some (Inr (m, d1))" for m d1
    using that by (auto simp: limit_local_part_def rbind_eq_Inr case_single remove_local_def split: option.splits if_splits)
  then show ?thesis
    using limit unfolding limit_remove_parts by (auto simp: rbind_eq_Inr remove_global_def split: if_splits)
qed

lemma clean_expired_roles: "roles (snd (clean_expired_account_roles now vo dry_run d)) = roles d"
proof -
  have "roles (fold (\<lambda>a. delete_assignment (ra_account a) (ra_role a)) xs d) = roles d" for xs :: "assignment list"
    by (induction xs arbitrary: d) (simp_all add: delete_assignment_def)
  then show ?thesis by (simp add: clean_expired_account_roles_def Let_def)
qed

lemma dates_roles: "set_account_role_dates e now account role act ex d = Inr (dates, d') \<Longrightarrow> roles d' = roles d"
  unfolding set_account_role_dates_def
  by (cases "find_assignment d account role") (auto simp: rbind_eq_Inr split: if_splits)

lemma update_role_names:
  assumes "update_role role description assignable locked force d = Inr (r', d')"
  shows "map ro_role (roles d') = map ro_role (roles d)"
proof -
  obtain r where r: "find_role d role = Some r" using assms by (auto simp: update_role_def split: option.splits)
  then have "d' = d\<lparr>roles := upd_where (\<lambda>x. ro_role x = role) (\<lambda>_. r') (roles d)\<rparr>" and "ro_role r' = role"
    using assms find_role_Some [OF r] by (auto simp: update_role_def rbind_eq_Inr Let_def split: if_splits)
  then show ?thesis by (auto simp: upd_where_def)
qed

lemma reserved_role_stays:
  "rbac_step e d d' \<Longrightarrow> rbac_wf e d \<Longrightarrow> is_reserved_role x \<Longrightarrow> x \<in> set (map ro_role (roles d)) \<Longrightarrow> x \<in> set (map ro_role (roles d'))"
proof (induction rule: rbac_step.induct)
  case (add_role role description assignable locked d d')
  then show ?case by (auto simp: add_role_def rbind_eq_Inr split: if_splits)
next
  case (update_role role description assign lock force d r d')
  then show ?case using update_role_names by metis
next
  case (delete_role role force d d')
  then show ?case
    by (auto simp: delete_role_def remove_accounts_from_role_def delete_role_row_def rbind_eq_Inr split: if_splits)
next
  case (setup_reserved_roles d created d')
  then show ?case by (auto simp: setup_reserved_roles_def Let_def)
next
  case (add_account_role now account role expires_at force activates_at d d')
  then show ?case by (auto simp: add_account_role_def rbind_eq_Inr Let_def split: if_splits)
next
  case (delete_account_role account role force d d')
  then show ?case by (auto simp: delete_account_role_def delete_assignment_def split: if_splits)
next
  case (set_account_role_dates now account role act ex d dates d')
  then show ?case using dates_roles by metis
next
  case (clean_expired now vo dry_run d removed d')
  then show ?case using clean_expired_roles [of now vo dry_run d] by simp
next
  case (add_role_permission role ptype params force d d')
  then show ?case using permission_roles by metis
next
  case (delete_role_permission role ptype params force d n d')
  then show ?case using removal_roles by metis
next
  case (sync_policy policy d rep d')
  then show ?case using sync_policy_wf(2) [OF sync_policy(1,2)] find_role_None by metis
next
  case (sync_idp supplied desired now account d rep d')
  then show ?case using sync_idp_wf(2) by metis
qed

text \<open>C30: Whatever sequence of operations runs on the tables of role-based access control (creating, changing, deleting roles,
  setting up the reserved ones, assigning and removing roles, moving dates, cleaning, granting and removing
  permissions, both synchronisations), the tables stay well-formed: keys are unique, every row refers to an
  existing role and account, an assignment expires only after it starts, stored DID patterns are valid and grant something,
  limits are a size or uncapped, and no permission belongs to a reserved role. A reserved role that exists
  is never removed, unlocked or given another description.\<close>

theorem rbac_invariant:
  assumes "(rbac_step e)\<^sup>*\<^sup>* d d'" and "rbac_wf e d"
  shows "rbac_wf e d' \<and>
     (\<forall>role. is_reserved_role role \<and> find_role d role \<noteq> None \<longrightarrow>
        (\<exists>r. find_role d' role = Some r \<and> ro_locked r \<and> ro_description r = map_of RESERVED_ROLES role))"
proof -
  have run: "rbac_wf e d' \<and> (\<forall>x. is_reserved_role x \<and> x \<in> set (map ro_role (roles d)) \<longrightarrow> x \<in> set (map ro_role (roles d')))"
    using assms by (induction rule: rtranclp_induct) (auto dest: rbac_step_wf reserved_role_stays)
  have "\<exists>r. find_role d' role = Some r \<and> ro_locked r \<and> ro_description r = map_of RESERVED_ROLES role"
    if reserved: "is_reserved_role role" and "find_role d role \<noteq> None" for role
  proof -
    have "role \<in> set (map ro_role (roles d'))" using that run unfolding find_role_exists by blast
    then obtain r where r: "find_role d' role = Some r" unfolding find_role_exists [symmetric] by blast
    then show ?thesis using run reserved find_role_Some [OF r] by (auto simp: rbac_wf_def roles_ok_def)
  qed
  then show ?thesis using run by blast
qed

definition empty_rbac :: rbac_db where
  "empty_rbac = \<lparr>accounts = [''alice''], roles = [], account_role_map = [], role_did_permission_map = [],
     role_local_limit_permission_map = [], role_global_limit_permission_map = []\<rparr>"

theorem rbac_invariant_witness:
  "rbac_wf demo_rbac_env (snd (setup_reserved_roles empty_rbac)) \<and>
   (\<exists>d'. add_account_role demo_rbac_env 5 ''alice'' ''admin'' VNone True VNone (snd (setup_reserved_roles empty_rbac)) = Inr d' \<and> rbac_wf demo_rbac_env d')"
proof -
  have wf: "rbac_wf demo_rbac_env empty_rbac" by (simp add: rbac_defs empty_rbac_def)
  let ?d1 = "snd (setup_reserved_roles empty_rbac)"
  have s1: "rbac_step demo_rbac_env empty_rbac ?d1" by (rule rbac_step.setup_reserved_roles [where created = "fst (setup_reserved_roles empty_rbac)"]) simp
  obtain d2 where d2: "add_account_role demo_rbac_env 5 ''alice'' ''admin'' VNone True VNone ?d1 = Inr d2"
    by (simp add: add_account_role_def ensure_expires_after_activation_def assignment_violates_def setup_reserved_roles_def
        RESERVED_ROLES_def ADMIN_ROLE_def empty_rbac_def Let_def)
  have s2: "rbac_step demo_rbac_env ?d1 d2" using d2 by (rule rbac_step.add_account_role)
  have "rbac_wf demo_rbac_env ?d1" using rbac_invariant [OF r_into_rtranclp [of "rbac_step demo_rbac_env", OF s1] wf] by simp
  moreover have "rbac_wf demo_rbac_env d2"
    using rbac_invariant [OF rtranclp.rtrancl_into_rtrancl [of "rbac_step demo_rbac_env", OF r_into_rtranclp [of "rbac_step demo_rbac_env", OF s1] s2] wf] by simp
  ultimately show ?thesis using d2 by blast
qed

section \<open>The permissions on DIDs as a set\<close>

text \<open>The abstract view of the table: which role grants which operation on which pattern.\<close>

definition did_grants :: "rbac_db \<Rightarrow> (string \<times> string \<times> did_operation) set" where
  "did_grants d = {(role, pattern, op). \<exists>p \<in> set (role_did_permission_map d). did_key p = (role, pattern) \<and> grants_op op p}"

lemma grants_op_set: "grants_op op' (set_op op b p) \<longleftrightarrow> (if op' = op then b else grants_op op' p)"
  by (cases op; cases op') (simp_all add: grants_op_def set_op_def)

lemma rbac_wf_did_keys: "rbac_wf e d \<Longrightarrow> distinct (map did_key (role_did_permission_map d))"
  by (simp add: rbac_wf_def did_rows_ok_def)

lemma permission_row_Some:
  assumes "distinct (map did_key (role_did_permission_map d))" and "permission_row d role target = Some p"
  shows "p \<in> set (role_did_permission_map d) \<and> did_key p = (role, target)"
    and "q \<in> set (role_did_permission_map d) \<Longrightarrow> did_key q = (role, target) \<Longrightarrow> q = p"
    and "(role, target, op) \<in> did_grants d \<longleftrightarrow> grants_op op p"
proof -
  show row: "p \<in> set (role_did_permission_map d) \<and> did_key p = (role, target)"
    using assms(2) by (auto simp: permission_row_def find_Some_iff)
  show unique: "q = p" if "q \<in> set (role_did_permission_map d)" "did_key q = (role, target)" for q
    using that row assms(1) by (metis distinct_map inj_onD)
  show "(role, target, op) \<in> did_grants d \<longleftrightarrow> grants_op op p"
    using row unique by (auto simp: did_grants_def)
qed

lemma permission_row_None: "permission_row d role target = None \<Longrightarrow> (role, target, op) \<notin> did_grants d"
  by (auto simp: permission_row_def find_None_iff did_grants_def)

lemma did_grants_update:
  assumes "distinct (map did_key (role_did_permission_map d))" and row: "permission_row d role target = Some p"
  shows "did_grants (d\<lparr>role_did_permission_map := upd_where (\<lambda>q. did_key q = (role, target)) (set_op op b) (role_did_permission_map d)\<rparr>) =
     (if b then insert (role, target, op) (did_grants d) else did_grants d - {(role, target, op)})"
proof -
  let ?rows = "role_did_permission_map d"
  let ?d = "d\<lparr>role_did_permission_map := upd_where (\<lambda>q. did_key q = (role, target)) (set_op op b) ?rows\<rparr>"
  note p = permission_row_Some [OF assms]
  have "{q \<in> set ?rows. did_key q = (role, target)} = {p}" using p(1,2) by blast
  then have rows: "set (role_did_permission_map ?d) = insert (set_op op b p) {q \<in> set ?rows. did_key q \<noteq> (role, target)}"
    by (simp add: set_upd_where)
  have mem: "(r, t, op') \<in> did_grants ?d \<longleftrightarrow> (if (r, t) = (role, target) then grants_op op' (set_op op b p) else (r, t, op') \<in> did_grants d)" for r t op'
    unfolding did_grants_def mem_Collect_eq prod.case rows using p(1) by auto
  show ?thesis
  proof (rule set_eqI)
    fix x :: "string \<times> string \<times> did_operation"
    obtain r t op' where x: "x = (r, t, op')" by (metis prod_cases3)
    show "x \<in> did_grants ?d \<longleftrightarrow> x \<in> (if b then insert (role, target, op) (did_grants d) else did_grants d - {(role, target, op)})"
      unfolding x mem using p(3) by (auto simp: grants_op_set)
  qed
qed

lemma did_grants_remove_row:
  assumes "distinct (map did_key (role_did_permission_map d))" and row: "permission_row d role target = Some p"
    and last: "\<forall>other \<in> {READ, WRITE, DELETE}. \<not> grants_op other (set_op op False p)"
  shows "did_grants (d\<lparr>role_did_permission_map := filter (\<lambda>q. did_key q \<noteq> (role, target)) (role_did_permission_map d)\<rparr>)
    = did_grants d - {(role, target, op)}" (is "did_grants ?d = _")
proof (rule set_eqI)
  fix x :: "string \<times> string \<times> did_operation"
  obtain r t op' where x: "x = (r, t, op')" by (metis prod_cases3)
  note p = permission_row_Some [OF assms(1,2)]
  have only: "op' = op" if "grants_op op' p"
    using last that by (cases op') (auto simp: grants_op_set split: if_splits)
  have mem: "(r, t, op') \<in> did_grants ?d \<longleftrightarrow> (r, t) \<noteq> (role, target) \<and> (r, t, op') \<in> did_grants d"
    unfolding did_grants_def mem_Collect_eq prod.case by auto
  show "x \<in> did_grants ?d \<longleftrightarrow> x \<in> did_grants d - {(role, target, op)}"
  proof (cases "(r, t) = (role, target)")
    case True
    then show ?thesis unfolding x mem using p(3) [of op'] only by auto
  next
    case False
    then show ?thesis unfolding x mem by auto
  qed
qed

lemma granted_targets_grants:
  "t \<in> set (granted_targets now d account op) \<longleftrightarrow> (\<exists>role. has_account_valid_role now d account role \<and> (role, t, op) \<in> did_grants d)"
proof -
  have "t \<in> set (granted_targets now d account op) \<longleftrightarrow>
      (\<exists>a \<in> set (account_role_map d). ra_account a = account \<and> assignment_active now a \<and>
        (\<exists>p \<in> set (role_did_permission_map d). dp_role p = ra_role a \<and> grants_op op p \<and> dp_did_pattern p = t))"
    by (auto simp: granted_targets_def)
  then show ?thesis unfolding has_account_valid_role_def did_grants_def did_key_def mem_Collect_eq prod.case prod.inject by metis
qed

text \<open>C33: The table of DID permissions implements a set of grants (role, pattern, operation), although a row holds all operations of
  a role on a pattern. Granting adds exactly one element and is refused exactly when the element is there or the
  role does not exist; removing takes out exactly one element and reports whether it was there. A request is
  permitted exactly when some grant of a role that the account holds through an active assignment has the
  requested operation and a pattern that matches.\<close>

theorem did_permissions_refine_set:
  assumes "rbac_wf e d"
  shows "(case did_add e role target op d of
        Inl _ \<Rightarrow> (role, target, op) \<in> did_grants d \<or> role \<notin> set (map ro_role (roles d))
      | Inr d' \<Rightarrow> (role, target, op) \<notin> did_grants d \<and> did_grants d' = insert (role, target, op) (did_grants d)) \<and>
    (case did_remove role target op d of
        (n, d') \<Rightarrow> n = (if (role, target, op) \<in> did_grants d then 1 else 0) \<and> did_grants d' = did_grants d - {(role, target, op)}) \<and>
    (has_permission now d account r \<longleftrightarrow>
       (\<exists>role pattern. has_account_valid_role now d account role \<and> (role, pattern, dr_operation r) \<in> did_grants d \<and>
          did_pattern_matches (dr_scope r) (dr_name r) pattern))"
proof (intro conjI)
  note keys = rbac_wf_did_keys [OF assms]
  show "case did_add e role target op d of
       Inl _ \<Rightarrow> (role, target, op) \<in> did_grants d \<or> role \<notin> set (map ro_role (roles d))
     | Inr d' \<Rightarrow> (role, target, op) \<notin> did_grants d \<and> did_grants d' = insert (role, target, op) (did_grants d)"
  proof (cases "permission_row d role target")
    case None
    let ?p = "set_op op True \<lparr>dp_role = role, dp_did_pattern = target, can_read = False, can_write = False, can_delete = False\<rparr>"
    have "grants_op op' ?p \<longleftrightarrow> op' = op" for op' by (cases op; cases op') (simp_all add: grants_op_def set_op_def)
    moreover have "did_key ?p = (role, target)" by (simp add: did_key_def)
    ultimately have "did_grants (d\<lparr>role_did_permission_map := role_did_permission_map d @ [?p]\<rparr>) = insert (role, target, op) (did_grants d)"
      by (auto simp: did_grants_def)
    then show ?thesis using None permission_row_None [OF None, of op] by (simp add: did_add_def)
  next
    case (Some p)
    then show ?thesis
      using permission_row_Some(3) [OF keys Some, of op] did_grants_update [OF keys Some, of op True] by (simp add: did_add_def)
  qed
  show "case did_remove role target op d of
       (n, d') \<Rightarrow> n = (if (role, target, op) \<in> did_grants d then 1 else 0) \<and> did_grants d' = did_grants d - {(role, target, op)}"
  proof (cases "permission_row d role target")
    case None
    then show ?thesis using permission_row_None [OF None, of op] by (simp add: did_remove_def)
  next
    case (Some p)
    note p = permission_row_Some [OF keys Some]
    show ?thesis
    proof (cases "grants_op op p")
      case False
      then show ?thesis using Some p(3) [of op] by (simp add: did_remove_def)
    next
      case True
      note grants = p(3) [of op, simplified True]
      show ?thesis
      proof (cases "\<exists>other \<in> {READ, WRITE, DELETE}. grants_op other (set_op op False p)")
        case True
        then show ?thesis
          unfolding did_remove_def Some option.case using \<open>grants_op op p\<close> grants did_grants_update [OF keys Some, of op False]
          by (simp only: if_True if_False not_True_eq_False prod.case HOL.simp_thms)
      next
        case False
        then have "\<forall>other \<in> {READ, WRITE, DELETE}. \<not> grants_op other (set_op op False p)" by blast
        from did_grants_remove_row [OF keys Some this] False show ?thesis
          unfolding did_remove_def Some option.case using \<open>grants_op op p\<close> grants
          by (simp only: if_True if_False not_True_eq_False prod.case HOL.simp_thms)
      qed
    qed
  qed
  show "has_permission now d account r \<longleftrightarrow>
       (\<exists>role pattern. has_account_valid_role now d account role \<and> (role, pattern, dr_operation r) \<in> did_grants d \<and>
          did_pattern_matches (dr_scope r) (dr_name r) pattern)"
    unfolding has_permission_def using granted_targets_grants by blast
qed

theorem did_permissions_refine_set_witness:
  "did_grants (snd (did_remove ''reader'' ''data:raw*'' READ demo_rbac)) = {} \<and> did_grants demo_rbac \<noteq> {}"
proof -
  have "validate_did_pattern demo_rbac_env (VStr ''data:raw*'') = Inr ''data:raw*''" by code_simp
  then have wf: "rbac_wf demo_rbac_env demo_rbac"
    by (auto simp: rbac_defs demo_rbac_def did_key_def grants_op_def is_reserved_role_def RESERVED_ROLES_def ADMIN_ROLE_def
        assignment_key_def period_ok_def intro: exI [where x = READ])
  have all: "did_grants demo_rbac = {(''reader'', ''data:raw*'', READ)}"
  proof -
    have "grants_op op (the (permission_row demo_rbac ''reader'' ''data:raw*'')) \<longleftrightarrow> op = READ" for op
      by (cases op) (simp_all add: permission_row_def demo_rbac_def did_key_def grants_op_def)
    then show ?thesis by (auto simp: did_grants_def demo_rbac_def did_key_def permission_row_def)
  qed
  obtain n d' where removed: "did_remove ''reader'' ''data:raw*'' READ demo_rbac = (n, d')" by (metis surj_pair)
  have "did_grants d' = did_grants demo_rbac - {(''reader'', ''data:raw*'', READ)}"
    using did_permissions_refine_set [OF wf, of "''reader''" "''data:raw*''" READ] unfolding removed prod.case by blast
  with all show ?thesis by (simp add: removed)
qed

end
