(* ===== verification/DIDs.thy ===== *)
theory DIDs
  imports Prelude
begin

text \<open>
  Data identifiers (\<^verbatim>\<open>core/did.py\<close>) and the outgoing messages (\<^verbatim>\<open>core/message.py\<close>).

  A DID is a file, a dataset or a container; the table \<^verbatim>\<open>contents\<close> holds the parent/child rows.
  Modelled here are the recursive query for the datasets below a container, the list of parents of
  a DID, \<^verbatim>\<open>get_did\<close> and \<^verbatim>\<open>detach_dids\<close>, with the messages it emits. The rule engine uses all of them.
  A scope is its external name with its VO (\<^verbatim>\<open>InternalScope\<close>); a date is a number of seconds
  since 1970.
\<close>

section \<open>Names, messages and errors\<close>

type_synonym iscope = "string \<times> string"
type_synonym did = "iscope \<times> string"
type_synonym iaccount = "string \<times> string"

datatype rucio_error =
    DataIdentifierNotFound
  | UnsupportedOperation
  | RuleNotFound
  | RequestNotFound
  | NoResultFound
  | KeyError
  | ValueError
  | RucioException
  | InvalidHermesService
  | TypeError
  | RecursionError
  | DatabaseException
  | DataIdentifierAlreadyExists
  | ScopeNotFound
  | FileAlreadyExists
  | DuplicateContent
  | FileConsistencyMismatch
  | UnsupportedStatus
  | ReplicaNotFound
  | ReplicaIsLocked
  | UnsupportedValueType
  | RSENotFoundError
  | ResourceTemporaryUnavailable
  | InvalidPath
  | InvalidMetadata
  | InvalidValueForKey
  | Duplicate

datatype did_type =
  FILE | DATASET | CONTAINER | ARCHIVE | DELETED_FILE | DELETED_DATASET | DELETED_CONTAINER

text \<open>\<^verbatim>\<open>payload['vo']\<close> is set only outside the default VO.\<close>

definition vo_entry :: "iscope \<Rightarrow> string option" where
  "vo_entry sc = (if snd sc \<noteq> DEFAULT_VO then Some (snd sc) else None)"

text \<open>The events that the modelled code emits, each with its payload (\<^verbatim>\<open>scope.external\<close>, the \<^verbatim>\<open>vo\<close>
  entry, the name and the rest in the order of the code).\<close>

datatype message =
    RULE_OK string "string option" string string
  | RULE_PROGRESS string "string option" string string int
  | DATASETLOCK_OK string "string option" string string string string
  | LOST string "string option" string string string
  | ERASE_CNT string "string option" string string string string
  | DETACH string "string option" string did_type string string did_type
  | TRANSFER_EVENT string string string string string string "int option" "string option" "string option"
      "int option" "string option" "string option" int
  | EMAIL string string string
  | CREATE_CNT string "string option" string string "int option"
  | CREATE_DTS string "string option" string string "int option"
  | REGISTER_CNT string "string option" string string string string did_type
  | CLOSE_DID string "string option" string int int int
  | OPEN_DID string "string option" string
  | INCOMPLETE iscope string did_type
  | ERASE_DTS string string

fun is_email :: "message \<Rightarrow> bool" where
  "is_email (EMAIL _ _ _) = True"
| "is_email _ = False"

definition HermesService :: "string list" where
  "HermesService = [''influx'', ''elastic'', ''email'', ''activemq'', ''syslog'']"

text \<open>\<^verbatim>\<open>HermesService(service.upper())\<close> accepts the names of the enumeration in any case.\<close>

definition known_service :: "string \<Rightarrow> bool" where
  "known_service s \<longleftrightarrow> lower s \<in> set HermesService"

text \<open>One row per message and service. The JSON encoding of the payload and its overflow column are
  the same row here.\<close>

definition message_rows :: "string list \<Rightarrow> message list \<Rightarrow> (string \<times> message) list" where
  "message_rows services msgs =
     [(s, m). m \<leftarrow> msgs, s \<leftarrow> services,
        \<not> (is_email m \<and> s \<noteq> ''email''), \<not> (s = ''email'' \<and> \<not> is_email m)]"

definition add_messages ::
  "string list \<Rightarrow> message list \<Rightarrow> (string \<times> message) list \<Rightarrow> rucio_error + (string \<times> message) list" where
  "add_messages services msgs table =
     (if \<exists>s \<in> set services. \<not> known_service s then Inl InvalidHermesService
      else Inr (table @ message_rows services msgs))"

section \<open>The tables\<close>

record did_row =
  d_scope :: iscope
  d_name :: string
  d_type :: did_type
  d_open :: "bool option"
  d_length :: "int option"
  d_bytes :: "int option"
  d_events :: "int option"
  d_lost :: bool
  d_md5 :: "string option"
  d_adler32 :: "string option"
  d_created_at :: int
  d_account :: iaccount
  d_monotonic :: bool
  d_expired_at :: "int option"
  d_is_new :: "bool option"
  d_guid :: "string option"
  d_is_archive :: "bool option"
  d_constituent :: "bool option"
  d_purge_replicas :: bool
  d_closed_at :: "int option"
  d_accessed_at :: "int option"
  d_access_cnt :: "int option"

record content_row =
  c_scope :: iscope
  c_name :: string
  c_child_scope :: iscope
  c_child_name :: string
  c_did_type :: did_type
  c_child_type :: did_type
  c_bytes :: "int option"
  c_events :: "int option"
  c_adler32 :: "string option"
  c_md5 :: "string option"
  c_guid :: "string option"
  c_rule_evaluation :: "bool option"

record archive_row =
  ac_parent :: did
  ac_child :: did
  ac_bytes :: "int option"
  ac_adler32 :: "string option"
  ac_md5 :: "string option"
  ac_guid :: "string option"
  ac_length :: "int option"

datatype re_evaluation = ReEvalATTACH | ReEvalDETACH

text \<open>\<open>contents_history\<close> keeps the detached row with the creation date of its parent and the date of
  the detachment; \<open>archive_contents\<close> are the files in an archive file; \<open>deleted_dids\<close> keeps the rows of deleted DIDs;
  \<open>dids_followed\<close> the accounts that follow a DID.\<close>

record did_db =
  dids :: "did_row list"
  contents :: "content_row list"
  archive_contents :: "archive_row list"
  deleted_dids :: "did_row list"
  dids_followed :: "(did \<times> iaccount \<times> did_type) list"
  contents_history :: "(content_row \<times> int \<times> int) list"
  updated_dids :: "(did \<times> re_evaluation) list"
  messages :: "(string \<times> message) list"

definition did_of :: "did_row \<Rightarrow> did" where
  "did_of d = (d_scope d, d_name d)"

definition c_parent :: "content_row \<Rightarrow> did" where
  "c_parent c = (c_scope c, c_name c)"

definition c_child :: "content_row \<Rightarrow> did" where
  "c_child c = (c_child_scope c, c_child_name c)"

definition c_key :: "content_row \<Rightarrow> did \<times> did" where
  "c_key c = (c_parent c, c_child c)"

section \<open>Queries\<close>

definition get_did_row :: "'z did_db_scheme \<Rightarrow> did \<Rightarrow> rucio_error + did_row" where
  "get_did_row db k =
     (case filter (\<lambda>d. did_of d = k) (dids db) of
        d # _ \<Rightarrow> Inr d
      | [] \<Rightarrow> Inl DataIdentifierNotFound)"

text \<open>The dictionary that \<^verbatim>\<open>get_did\<close> returns has the key \<^verbatim>\<open>open\<close> only when the DID is not a file, and
  the length of a file is 1.\<close>

record did_info =
  i_open :: "rucio_error + bool option"
  i_length :: "int option"

definition get_did :: "'z did_db_scheme \<Rightarrow> did \<Rightarrow> rucio_error + did_info" where
  "get_did db k = rbind (get_did_row db k) (\<lambda>d. Inr
     (if d_type d = FILE then \<lparr>i_open = Inl KeyError, i_length = Some 1\<rparr>
      else \<lparr>i_open = Inr (d_open d), i_length = d_length d\<rparr>))"

definition list_parent_dids :: "'z did_db_scheme \<Rightarrow> did \<Rightarrow> (did \<times> did_type) list" where
  "list_parent_dids db k =
     [(c_parent c, c_did_type c). c \<leftarrow> contents db, c_child c = k, d \<leftarrow> dids db, did_of d = c_parent c]"

text \<open>The recursive CTE. A level holds the content rows below the rows of the level before; \<open>resolve\<close>
  are the types that are opened (\<^verbatim>\<open>dids_to_resolve\<close>). The database stops at an empty level; here the
  number of levels is bounded by the number of content rows, which an acyclic hierarchy cannot
  exceed.\<close>

definition dids_to_resolve :: "did_type \<Rightarrow> did_type list" where
  "dids_to_resolve t = (if t = DATASET then [CONTAINER] else [CONTAINER, DATASET])"

definition child_rows :: "content_row list \<Rightarrow> did_type list \<Rightarrow> did \<Rightarrow> content_row list" where
  "child_rows cs resolve k = filter (\<lambda>c. c_parent c = k \<and> c_did_type c \<in> set resolve) cs"

fun cte_levels :: "nat \<Rightarrow> content_row list \<Rightarrow> did_type list \<Rightarrow> content_row list \<Rightarrow> content_row list" where
  "cte_levels 0 cs resolve level = []"
| "cte_levels (Suc n) cs resolve level =
     level @ cte_levels n cs resolve (concat (map (\<lambda>c. child_rows cs resolve (c_child c)) level))"

definition list_one_did_childs :: "'z did_db_scheme \<Rightarrow> did \<Rightarrow> did_type \<Rightarrow> did list" where
  "list_one_did_childs db k t =
     (let cs = contents db; resolve = dids_to_resolve t
      in remdups (map c_child (filter (\<lambda>c. c_child_type c = t)
           (cte_levels (length cs) cs resolve (child_rows cs resolve k)))))"

definition list_child_datasets :: "'z did_db_scheme \<Rightarrow> did \<Rightarrow> did list" where
  "list_child_datasets db k = list_one_did_childs db k DATASET"

text \<open>\<^verbatim>\<open>__resolve_bytes_length_events_did\<close>: the size of a collection counted on the DIDs below it. A sum over no
  value is null, which \<^verbatim>\<open>or 0\<close> makes 0.\<close>

definition column_sum :: "int option list \<Rightarrow> int" where
  "column_sum vs = sum_list (map (\<lambda>v. case v of Some n \<Rightarrow> n | None \<Rightarrow> 0) vs)"

definition resolve_bytes_length_events :: "'z did_db_scheme \<Rightarrow> did_row \<Rightarrow> did_type \<Rightarrow> int \<times> int \<times> int" where
  "resolve_bytes_length_events db d depth =
     (let files = (\<lambda>ds. concat (map (\<lambda>k. filter (\<lambda>c. c_parent c = k) (contents db)) ds));
          of_files = (\<lambda>cs. (column_sum (map c_bytes cs), int (length cs), column_sum (map c_events cs)))
      in if d_type d = DATASET \<and> depth = FILE then of_files (files [did_of d])
         else if d_type d = CONTAINER \<and> depth = DATASET then
           (let rows = [x. k \<leftarrow> list_child_datasets db (did_of d), x \<leftarrow> dids db, did_of x = k]
            in (column_sum (map d_bytes rows), column_sum (map d_length rows), column_sum (map d_events rows)))
         else if d_type d = CONTAINER \<and> depth = FILE then of_files (files (list_child_datasets db (did_of d)))
         else if d_type d = FILE then (column_sum [d_bytes d], 1, column_sum [d_events d])
         else (column_sum [d_bytes d], column_sum [d_length d], column_sum [d_events d]))"

text \<open>\<^verbatim>\<open>get_did\<close> with \<^verbatim>\<open>dynamic_depth\<close>, as the row with the bytes and the length of the answer.\<close>

definition get_did_resolved :: "'z did_db_scheme \<Rightarrow> did \<Rightarrow> did_type \<Rightarrow> rucio_error + did_row \<times> int \<times> int" where
  "get_did_resolved db k depth = rbind (get_did_row db k) (\<lambda>d.
     let (b, n, _) = resolve_bytes_length_events db d depth
     in Inr (d, b, if d_type d = FILE then 1 else n))"

section \<open>Detaching\<close>

definition generate_did_detach_messages ::
  "did \<Rightarrow> did_type \<Rightarrow> did \<Rightarrow> did_type \<Rightarrow> message list" where
  "generate_did_detach_messages p pt c ct =
     (if pt = CONTAINER then
        [ERASE_CNT (fst (fst p)) (vo_entry (fst p)) (snd p) (fst (fst c)) (snd c)
           (if ct = CONTAINER then ''CONTAINER'' else if ct = DATASET then ''DATASET'' else ''UNKNOWN'')]
      else []) @
     [DETACH (fst (fst p)) (vo_entry (fst p)) (snd p) pt (fst (fst c)) (snd c) ct]"

text \<open>\<^verbatim>\<open>if did.length: did.length -= 1\<close> and the like: a null or zero column stays as it is.\<close>

definition minus_one :: "int option \<Rightarrow> int option" where
  "minus_one x = (case x of Some n \<Rightarrow> (if n \<noteq> 0 then Some (n - 1) else Some n) | None \<Rightarrow> None)"

definition minus_col :: "int option \<Rightarrow> int option \<Rightarrow> int option" where
  "minus_col x y =
     (case (x, y) of (Some n, Some m) \<Rightarrow> (if n \<noteq> 0 \<and> m \<noteq> 0 then Some (n - m) else Some n) | _ \<Rightarrow> x)"

definition detach_one :: "int \<Rightarrow> did \<Rightarrow> did_row \<Rightarrow> did \<Rightarrow> 'z did_db_scheme \<times> message list
    \<Rightarrow> rucio_error + 'z did_db_scheme \<times> message list" where
  "detach_one now p parent child acc =
     (let db = fst acc in
      if p = child then Inl UnsupportedOperation
      else case filter (\<lambda>c. c_key c = (p, child)) (contents db) of
        [] \<Rightarrow> Inl DataIdentifierNotFound
      | a # _ \<Rightarrow> Inr
          (db\<lparr>dids := upd_where (\<lambda>d. did_of d = p)
                (\<lambda>d. d\<lparr>d_length := minus_one (d_length d), d_bytes := minus_col (d_bytes d) (c_bytes a),
                       d_events := minus_col (d_events d) (c_events a)\<rparr>) (dids db),
              contents := filter (\<lambda>c. c_key c \<noteq> (p, child)) (contents db),
              contents_history := contents_history db @ [(a, d_created_at parent, now)]\<rparr>,
           snd acc @ generate_did_detach_messages p (d_type parent) child (c_child_type a)))"

definition detach_dids :: "string list \<Rightarrow> int \<Rightarrow> did \<Rightarrow> did list \<Rightarrow> 'z did_db_scheme \<Rightarrow> rucio_error + 'z did_db_scheme" where
  "detach_dids services now p children db =
     (case filter (\<lambda>d. did_of d = p \<and> (d_type d = CONTAINER \<or> d_type d = DATASET)) (dids db) of
        [] \<Rightarrow> Inl DataIdentifierNotFound
      | parent # _ \<Rightarrow>
          (let db1 = db\<lparr>updated_dids := updated_dids db @ [(p, ReEvalDETACH)]\<rparr>
           in if \<forall>c \<in> set (contents db). c_parent c \<noteq> p then Inl DataIdentifierNotFound
              else rbind (rfold (detach_one now p parent) children (db1, []))
                (\<lambda>(db2, msgs). rbind (add_messages services msgs (messages db2))
                  (\<lambda>ms. Inr (db2\<lparr>messages := ms\<rparr>)))))"

section \<open>The recursive query returns the reachable datasets\<close>

inductive below :: "content_row list \<Rightarrow> did_type list \<Rightarrow> did \<Rightarrow> content_row \<Rightarrow> bool" for cs resolve k where
  direct: "c \<in> set (child_rows cs resolve k) \<Longrightarrow> below cs resolve k c"
| deeper: "below cs resolve k c \<Longrightarrow> c' \<in> set (child_rows cs resolve (c_child c)) \<Longrightarrow> below cs resolve k c'"

definition next_level :: "content_row list \<Rightarrow> did_type list \<Rightarrow> content_row list \<Rightarrow> content_row list" where
  "next_level cs resolve level = concat (map (\<lambda>c. child_rows cs resolve (c_child c)) level)"

lemma set_next_level:
  "set (next_level cs resolve level) = (\<Union>c \<in> set level. set (child_rows cs resolve (c_child c)))"
  by (simp add: next_level_def)

lemma cte_levels_next:
  "cte_levels (Suc n) cs resolve level = level @ cte_levels n cs resolve (next_level cs resolve level)"
  by (simp add: next_level_def)

declare cte_levels.simps(2) [simp del]

lemma set_cte_levels:
  "set (cte_levels n cs resolve level) = (\<Union>i < n. set ((next_level cs resolve ^^ i) level))"
proof (induction n arbitrary: level)
  case 0
  then show ?case by simp
next
  case (Suc n)
  have "set (cte_levels (Suc n) cs resolve level)
      = set level \<union> (\<Union>i < n. set ((next_level cs resolve ^^ i) (next_level cs resolve level)))"
    using Suc [of "next_level cs resolve level"] by (simp add: cte_levels_next)
  then show ?case
    by (simp add: funpow_swap1 lessThan_Suc_eq_insert_0)
qed

lemma below_level:
  "below cs resolve k c \<longleftrightarrow> (\<exists>i. c \<in> set ((next_level cs resolve ^^ i) (child_rows cs resolve k)))"
proof
  assume "below cs resolve k c"
  then show "\<exists>i. c \<in> set ((next_level cs resolve ^^ i) (child_rows cs resolve k))"
  proof induction
    case (direct c)
    then show ?case by (intro exI [of _ 0]) simp
  next
    case (deeper c c')
    then obtain i where "c \<in> set ((next_level cs resolve ^^ i) (child_rows cs resolve k))" by blast
    with deeper.hyps(2) show ?case
      by (intro exI [of _ "Suc i"]) (auto simp: set_next_level)
  qed
next
  have "c \<in> set ((next_level cs resolve ^^ i) (child_rows cs resolve k)) \<Longrightarrow> below cs resolve k c" for i
    by (induction i arbitrary: c) (auto simp: set_next_level intro: below.intros)
  then show "\<exists>i. c \<in> set ((next_level cs resolve ^^ i) (child_rows cs resolve k)) \<Longrightarrow> below cs resolve k c"
    by blast
qed

text \<open>In an acyclic hierarchy the rows at or under a DID shrink with every level.\<close>

definition acyclic_contents :: "content_row list \<Rightarrow> bool" where
  "acyclic_contents cs \<longleftrightarrow> (\<exists>rank :: did \<Rightarrow> nat. \<forall>c \<in> set cs. rank (c_child c) < rank (c_parent c))"

lemma level_bound:
  assumes rank: "\<forall>c \<in> set cs. rank (c_child c) < (rank (c_parent c) :: nat)"
    and mem: "c \<in> set ((next_level cs resolve ^^ i) (child_rows cs resolve k))"
  shows "i < length cs"
proof -
  define under where "under d = {c \<in> set cs. rank (c_parent c) \<le> rank d}" for d
  have fin: "finite (under d)" for d by (simp add: under_def)
  have step: "card (under (c_child c)) < card (under (c_parent c))" if "c \<in> set cs" for c
  proof (rule psubset_card_mono [OF fin])
    have "rank (c_child c) < rank (c_parent c)" using that rank by blast
    then have "under (c_child c) \<subseteq> under (c_parent c)" and "c \<notin> under (c_child c)"
      by (auto simp: under_def)
    moreover have "c \<in> under (c_parent c)" using that by (simp add: under_def)
    ultimately show "under (c_child c) \<subset> under (c_parent c)" by blast
  qed
  have "c \<in> set cs \<and> card (under (c_parent c)) + i \<le> card (under k)"
    using mem
  proof (induction i arbitrary: c)
    case 0
    then show ?case by (auto simp: child_rows_def)
  next
    case (Suc i)
    then obtain b where "b \<in> set ((next_level cs resolve ^^ i) (child_rows cs resolve k))"
      and "c \<in> set (child_rows cs resolve (c_child b))"
      by (auto simp: set_next_level)
    with Suc.IH [of b] step [of b] show ?case
      by (auto simp: child_rows_def)
  qed
  moreover have "card (under k) \<le> length cs"
    by (rule order_trans [OF card_mono card_length]) (auto simp: under_def)
  moreover have "0 < card (under (c_parent c))" if "c \<in> set cs"
    using that fin by (auto simp: card_gt_0_iff under_def)
  ultimately show ?thesis by linarith
qed

text \<open>C20: On an acyclic hierarchy \<^verbatim>\<open>list_child_datasets\<close> returns, without duplicates, exactly the
  datasets that can be reached from the given container through containers.\<close>

theorem list_child_datasets_reachable:
  assumes "acyclic_contents (contents db)"
  shows "distinct (list_child_datasets db k) \<and> set (list_child_datasets db k) =
    {c_child c |c. below (contents db) [CONTAINER] k c \<and> c_child_type c = DATASET}"
proof -
  let ?cs = "contents db"
  from assms obtain rank :: "did \<Rightarrow> nat"
    where rank: "\<forall>c \<in> set ?cs. rank (c_child c) < rank (c_parent c)"
    by (auto simp: acyclic_contents_def)
  have "set (cte_levels (length ?cs) ?cs [CONTAINER] (child_rows ?cs [CONTAINER] k))
      = {c. below ?cs [CONTAINER] k c}"
    unfolding set_cte_levels below_level using level_bound [OF rank] by blast
  then show ?thesis
    by (auto simp: list_child_datasets_def list_one_did_childs_def Let_def dids_to_resolve_def)
qed

definition atlas :: iscope where
  "atlas = (''atlas'', ''def'')"

definition content :: "string \<Rightarrow> did_type \<Rightarrow> string \<Rightarrow> did_type \<Rightarrow> int option \<Rightarrow> content_row" where
  "content p pt c ct b = \<lparr>c_scope = atlas, c_name = p, c_child_scope = atlas, c_child_name = c,
     c_did_type = pt, c_child_type = ct, c_bytes = b, c_events = None, c_adler32 = None, c_md5 = None,
     c_guid = None, c_rule_evaluation = None\<rparr>"

definition demo_dids :: did_db where
  "demo_dids = \<lparr>
     dids = [\<lparr>d_scope = atlas, d_name = ''D'', d_type = DATASET, d_open = Some False, d_length = Some 2,
              d_bytes = Some 7, d_events = None, d_lost = False, d_md5 = None, d_adler32 = None, d_created_at = 5,
              d_account = (''root'', ''def''), d_monotonic = False, d_expired_at = None, d_is_new = None, d_guid = None, d_is_archive = None,
              d_constituent = None, d_purge_replicas = True, d_closed_at = None, d_accessed_at = None, d_access_cnt = None\<rparr>],
     contents = [content ''C'' CONTAINER ''C2'' CONTAINER None, content ''C2'' CONTAINER ''D'' DATASET None,
                 content ''C'' CONTAINER ''D'' DATASET None, content ''D'' DATASET ''f'' FILE (Some 3),
                 content ''D'' DATASET ''g'' FILE (Some 4)],
     archive_contents = [], deleted_dids = [], dids_followed = [], contents_history = [], updated_dids = [], messages = []\<rparr>"

lemma demo_dids_acyclic: "acyclic_contents (contents demo_dids)"
  unfolding acyclic_contents_def
  by (rule exI [of _ "\<lambda>d. if snd d = ''C'' then 3 else if snd d = ''C2'' then 2 else if snd d = ''D'' then 1 else 0"])
    (simp add: demo_dids_def content_def c_child_def c_parent_def)

theorem list_child_datasets_reachable_witness:
  "list_child_datasets demo_dids (atlas, ''C'') = [(atlas, ''D'')] \<and>
   {c_child c |c. below (contents demo_dids) [CONTAINER] (atlas, ''C'') c \<and> c_child_type c = DATASET}
     = {(atlas, ''D'')}"
proof -
  have "list_child_datasets demo_dids (atlas, ''C'') = [(atlas, ''D'')]"
    by code_simp
  with list_child_datasets_reachable [OF demo_dids_acyclic, of "(atlas, ''C'')"] show ?thesis
    by simp
qed

section \<open>Detaching keeps the size of the parent exact\<close>

definition did_db_wf :: "'z did_db_scheme \<Rightarrow> bool" where
  "did_db_wf db \<longleftrightarrow> distinct (map did_of (dids db)) \<and> distinct (map c_key (contents db))"

text \<open>The length and the bytes of a collection are the number and the total size of its contents.\<close>

definition sized :: "'z did_db_scheme \<Rightarrow> did \<Rightarrow> bool" where
  "sized db p \<longleftrightarrow>
     (\<forall>c \<in> set (contents db). c_parent c = p \<longrightarrow> (\<exists>b \<ge> 0. c_bytes c = Some b)) \<and>
     (\<forall>d \<in> set (dids db). did_of d = p \<longrightarrow>
        d_length d = Some (int (count_where (\<lambda>c. c_parent c = p) (contents db))) \<and>
        d_bytes d = Some (sum_where (\<lambda>c. c_parent c = p) (\<lambda>c. the (c_bytes c)) (contents db)))"

lemma did_of_upd:
  "did_of (d\<lparr>d_length := l, d_bytes := b, d_events := e\<rparr>) = did_of d"
  by (simp add: did_of_def)

lemma detach_one_contents:
  "detach_one now p parent child acc = Inr acc' \<Longrightarrow>
     contents (fst acc') = filter (\<lambda>c. c_key c \<noteq> (p, child)) (contents (fst acc))"
  by (auto simp: detach_one_def Let_def split: if_splits list.splits)

lemma detach_one_wf:
  assumes "detach_one now p parent child acc = Inr acc'" and "did_db_wf (fst acc)"
  shows "did_db_wf (fst acc')"
  using assms
  by (auto simp: detach_one_def Let_def did_db_wf_def map_upd_where did_of_upd
      intro: distinct_map_filter_key split: if_splits list.splits)

lemma sum_nonneg_member:
  assumes "\<forall>c \<in> set rows. P c \<longrightarrow> 0 \<le> g c" and "a \<in> set rows" and "P a"
  shows "g a \<le> sum_where P g rows"
proof -
  have "\<forall>c \<in> set rows. P c \<longrightarrow> 0 \<le> g c \<Longrightarrow> 0 \<le> sum_where P g rows" for rows
    by (induction rows) auto
  with assms show ?thesis by (induction rows) fastforce+
qed

lemma detach_one_sized:
  assumes step: "detach_one now p parent child acc = Inr acc'"
    and wf: "did_db_wf (fst acc)" and sized: "sized (fst acc) p"
  shows "sized (fst acc') p"
proof -
  let ?db = "fst acc" and ?P = "\<lambda>c. c_parent c = p" and ?g = "\<lambda>c. the (c_bytes c)"
  from step obtain a as where a: "filter (\<lambda>c. c_key c = (p, child)) (contents ?db) = a # as"
    by (auto simp: detach_one_def Let_def split: if_splits list.splits)
  then have "a \<in> set (filter (\<lambda>c. c_key c = (p, child)) (contents ?db))" by simp
  then have mem: "a \<in> set (contents ?db)" and key: "c_key a = (p, child)" by simp_all
  then have par: "?P a" by (simp add: c_key_def)
  have dist: "distinct (map c_key (contents ?db))" using wf by (simp add: did_db_wf_def)
  have rows: "contents (fst acc') = filter (\<lambda>c. c_key c \<noteq> c_key a) (contents ?db)"
    using detach_one_contents [OF step] key by simp
  have dids': "dids (fst acc') = upd_where (\<lambda>d. did_of d = p)
      (\<lambda>d. d\<lparr>d_length := minus_one (d_length d), d_bytes := minus_col (d_bytes d) (c_bytes a),
             d_events := minus_col (d_events d) (c_events a)\<rparr>) (dids ?db)"
    using step a by (auto simp: detach_one_def Let_def split: if_splits)
  from sized mem par obtain b where b: "c_bytes a = Some b" "0 \<le> b"
    unfolding sized_def by blast
  have pos: "?g a \<le> sum_where ?P ?g (contents ?db)"
    using sized mem par by (intro sum_nonneg_member) (auto simp: sized_def)
  have "count_where ?P (contents ?db) \<noteq> 0"
    using mem par by auto
  then have len: "minus_one (Some (int (count_where ?P (contents ?db))))
      = Some (int (count_where ?P (contents (fst acc'))))"
    using count_where_delete_key [OF dist mem, of ?P] par rows
    by (simp add: minus_one_def del: count_where_0_iff)
  have bytes: "minus_col (Some (sum_where ?P ?g (contents ?db))) (Some b)
      = Some (sum_where ?P ?g (contents (fst acc')))"
    using sum_where_delete_key [OF dist mem, of ?P ?g] par rows b pos by (simp add: minus_col_def)
  have "d_length d = Some (int (count_where ?P (contents (fst acc')))) \<and>
      d_bytes d = Some (sum_where ?P ?g (contents (fst acc')))"
    if d: "d \<in> set (dids (fst acc'))" and p: "did_of d = p" for d
  proof -
    from d obtain x where x: "x \<in> set (dids ?db)" "did_of x = p"
      and dx: "d_length d = minus_one (d_length x)" "d_bytes d = minus_col (d_bytes x) (Some b)"
      unfolding dids' by (cases rule: mem_upd_whereE) (simp_all add: p b)
    from x sized have "d_length x = Some (int (count_where ?P (contents ?db)))"
      and "d_bytes x = Some (sum_where ?P ?g (contents ?db))"
      by (simp_all add: sized_def)
    with dx len bytes show ?thesis by simp
  qed
  moreover have "\<forall>c \<in> set (contents (fst acc')). ?P c \<longrightarrow> (\<exists>b \<ge> 0. c_bytes c = Some b)"
    using sized by (simp add: sized_def rows)
  ultimately show ?thesis by (simp add: sized_def)
qed

lemma detach_fold:
  assumes "rfold (detach_one now p parent) children acc = Inr acc'"
    and "did_db_wf (fst acc)" and "sized (fst acc) p"
  shows "did_db_wf (fst acc') \<and> sized (fst acc') p \<and>
    contents (fst acc') = filter (\<lambda>c. \<not> (c_parent c = p \<and> c_child c \<in> set children)) (contents (fst acc))"
  using assms
proof (induction children arbitrary: acc)
  case Nil
  then show ?case by (simp cong: filter_cong)
next
  case (Cons child children)
  from Cons.prems(1) obtain acc1 where s: "detach_one now p parent child acc = Inr acc1"
    and rest: "rfold (detach_one now p parent) children acc1 = Inr acc'"
    by auto
  from Cons.IH [OF rest detach_one_wf [OF s Cons.prems(2)] detach_one_sized [OF s Cons.prems(2,3)]]
  show ?case
    by (auto simp: detach_one_contents [OF s] c_key_def intro!: filter_cong)
qed

text \<open>C21: When the recorded length and bytes of a dataset are the number and the total size of its
  contents, a successful \<^verbatim>\<open>detach_dids\<close> removes exactly the given children, leaves every other row of
  \<^verbatim>\<open>contents\<close>, keeps the recorded length and bytes exact, and queues the dataset for the
  re-evaluation of its rules.\<close>

theorem detach_dids_exact:
  assumes "detach_dids services now p children db = Inr db'"
    and "did_db_wf db" and "sized db p"
  shows "contents db' = filter (\<lambda>c. \<not> (c_parent c = p \<and> c_child c \<in> set children)) (contents db) \<and>
    sized db' p \<and> did_db_wf db' \<and> (p, ReEvalDETACH) \<in> set (updated_dids db')"
proof -
  let ?db1 = "db\<lparr>updated_dids := updated_dids db @ [(p, ReEvalDETACH)]\<rparr>"
  from assms(1) obtain parent db2 msgs ms where
    fold: "rfold (detach_one now p parent) children (?db1, []) = Inr (db2, msgs)"
    and db': "db' = db2\<lparr>messages := ms\<rparr>"
    by (auto simp: detach_dids_def Let_def rbind_eq_Inr split: list.splits if_splits)
  have start: "did_db_wf (fst (?db1, [])) \<and> sized (fst (?db1, [])) p"
    using assms(2,3) by (simp add: did_db_wf_def sized_def)
  have "(p, ReEvalDETACH) \<in> set (updated_dids (fst (db2, msgs)))"
    by (rule rfold_invariant [OF fold, of "\<lambda>acc. (p, ReEvalDETACH) \<in> set (updated_dids (fst acc))"])
      (auto simp: detach_one_def Let_def split: if_splits list.splits)
  with detach_fold [OF fold] start show ?thesis
    by (simp add: db' did_db_wf_def sized_def distinct_map_filter_key)
qed

theorem detach_dids_exact_witness:
  "\<exists>db'. detach_dids [''activemq''] 9 (atlas, ''D'') [(atlas, ''f'')] demo_dids = Inr db' \<and>
     contents db' = [content ''C'' CONTAINER ''C2'' CONTAINER None, content ''C2'' CONTAINER ''D'' DATASET None,
       content ''C'' CONTAINER ''D'' DATASET None, content ''D'' DATASET ''g'' FILE (Some 4)] \<and>
     sized db' (atlas, ''D'')"
proof -
  have "\<not> isl (detach_dids [''activemq''] 9 (atlas, ''D'') [(atlas, ''f'')] demo_dids)"
    by code_simp
  then obtain db' where db': "detach_dids [''activemq''] 9 (atlas, ''D'') [(atlas, ''f'')] demo_dids = Inr db'"
    by (rule returnsE)
  have wf: "did_db_wf demo_dids" and sz: "sized demo_dids (atlas, ''D'')"
    by (simp_all add: did_db_wf_def sized_def demo_dids_def did_of_def c_key_def c_parent_def c_child_def content_def)
  from detach_dids_exact [OF db' wf sz] db' show ?thesis
    by (simp add: demo_dids_def content_def c_parent_def c_child_def)
qed

end
