(* ===== verification/Requests.thy ===== *)
theory Requests
  imports DIDs
begin

text \<open>
  Transfer requests (\<^verbatim>\<open>core/request.py\<close>): queueing, state transitions, retries, archiving and
  cancellation.

  The table \<^verbatim>\<open>requests\<close> holds the live requests, \<^verbatim>\<open>requests_history\<close> the archived ones; \<^verbatim>\<open>sources\<close> and
  \<^verbatim>\<open>transfer_hops\<close> belong to live requests only. The database record extends the one of the DIDs,
  so that the rule engine can extend both. Parameters (\<open>request_env\<close>) are the clock, the configured
  message services, the preparer switch, the generated identifiers and the RSE names. The JSON column
  \<^verbatim>\<open>attributes\<close> is the record of its entries.
\<close>

section \<open>Data\<close>

datatype request_type = TRANSFER | UPLOAD | DOWNLOAD | STAGEIN | STAGEOUT

datatype request_state =
    QUEUED | SUBMITTING | SUBMITTED | FAILED | DONE | REQUEST_LOST | NO_SOURCES | ONLY_TAPE_SOURCES
  | SUBMISSION_FAILED | MISMATCH_SCHEME | SUSPEND | WAITING | PREPARING

text \<open>A lifetime is a number of seconds or, where it comes from an RSE attribute, the value of the attribute.\<close>

datatype lifetime = Seconds int | LifetimeText string | LifetimeBool bool

record request_attributes =
  ra_activity :: "string option"
  ra_source_replica_expression :: "string option"
  ra_lifetime :: "lifetime option"
  ra_ds :: "did option"
  ra_bytes :: "int option"
  ra_md5 :: "string option"
  ra_adler32 :: "string option"
  ra_priority :: "int option"
  ra_is_intermediate_hop :: bool

record request =
  rq_id :: string
  rq_type :: request_type
  rq_scope :: iscope
  rq_name :: string
  rq_dest_rse_id :: string
  rq_source_rse_id :: "string option"
  rq_attributes :: request_attributes
  rq_state :: request_state
  rq_external_id :: "string option"
  rq_external_host :: "string option"
  rq_retry_count :: "int option"
  rq_err_msg :: "string option"
  rq_previous_attempt_id :: "string option"
  rq_rule_id :: "string option"
  rq_activity :: "string option"
  rq_bytes :: "int option"
  rq_md5 :: "string option"
  rq_adler32 :: "string option"
  rq_started_at :: "int option"
  rq_transferred_at :: "int option"
  rq_staging_started_at :: "int option"
  rq_staging_finished_at :: "int option"
  rq_account :: "string option"
  rq_requested_at :: "int option"
  rq_priority :: "int option"
  rq_transfertool :: "string option"
  rq_updated_at :: int

record source =
  so_request_id :: string
  so_did :: did
  so_rse_id :: string
  so_dest_rse_id :: string
  so_url :: "string option"
  so_bytes :: "int option"
  so_ranking :: "int option"
  so_is_using :: bool

text \<open>\<^verbatim>\<open>transfer_hops\<close>: \<^verbatim>\<open>(request_id, next_hop_request_id, initial_request_id)\<close>.\<close>

record request_db = did_db +
  requests :: "request list"
  requests_history :: "request list"
  sources :: "source list"
  transfer_hops :: "(string \<times> string \<times> string) list"
  uuid_count :: nat

record request_env =
  services :: "string list"
  now :: int
  preparer_enabled :: bool
  uuid :: "nat \<Rightarrow> string"
  known_rse :: "string \<Rightarrow> bool"
  name_of_rse :: "string \<Rightarrow> string"

text \<open>The argument of \<^verbatim>\<open>queue_requests\<close>. \<open>q_retry\<close> is present when the dictionary has both
  \<^verbatim>\<open>previous_attempt_id\<close> and \<^verbatim>\<open>retry_count\<close>: the new identifier with the previous one.\<close>

record request_dict =
  q_type :: request_type
  q_scope :: iscope
  q_name :: string
  q_dest_rse_id :: string
  q_source_rse_id :: "string option"
  q_attributes :: request_attributes
  q_state :: "request_state option"
  q_rule_id :: "string option"
  q_account :: "string option"
  q_requested_at :: "int option"
  q_retry_count :: "int option"
  q_transfertool :: "string option"
  q_retry :: "(string \<times> string option) option"
  q_sources :: "source list"

section \<open>Queueing\<close>

definition rq_key :: "request \<Rightarrow> did \<times> string" where
  "rq_key r = ((rq_scope r, rq_name r), rq_dest_rse_id r)"

definition q_key :: "request_dict \<Rightarrow> did \<times> string" where
  "q_key q = ((q_scope q, q_name q), q_dest_rse_id q)"

fun type_name :: "request_type \<Rightarrow> string" where
  "type_name TRANSFER = ''transfer''"
| "type_name UPLOAD = ''upload''"
| "type_name DOWNLOAD = ''download''"
| "type_name STAGEIN = ''stagein''"
| "type_name STAGEOUT = ''stageout''"

fun state_name :: "request_state \<Rightarrow> string" where
  "state_name QUEUED = ''queued''"
| "state_name SUBMITTING = ''submitting''"
| "state_name SUBMITTED = ''submitted''"
| "state_name FAILED = ''failed''"
| "state_name DONE = ''done''"
| "state_name REQUEST_LOST = ''lost''"
| "state_name NO_SOURCES = ''no_sources''"
| "state_name ONLY_TAPE_SOURCES = ''only_tape_sources''"
| "state_name SUBMISSION_FAILED = ''submission_failed''"
| "state_name MISMATCH_SCHEME = ''mismatch_scheme''"
| "state_name SUSPEND = ''suspend''"
| "state_name WAITING = ''waiting''"
| "state_name PREPARING = ''preparing''"

definition initial_state :: "request_env \<Rightarrow> request_dict \<Rightarrow> request_state" where
  "initial_state env q =
     (case q_state q of Some s \<Rightarrow> s | None \<Rightarrow> if preparer_enabled env then PREPARING else QUEUED)"

text \<open>The inserted row. Columns that the insert does not mention are null.\<close>

definition new_request :: "request_env \<Rightarrow> nat \<Rightarrow> request_dict \<Rightarrow> request" where
  "new_request env n q = \<lparr>
     rq_id = (case q_retry q of Some (i, _) \<Rightarrow> i | None \<Rightarrow> uuid env n),
     rq_type = q_type q, rq_scope = q_scope q, rq_name = q_name q, rq_dest_rse_id = q_dest_rse_id q,
     rq_source_rse_id = q_source_rse_id q, rq_attributes = q_attributes q, rq_state = initial_state env q,
     rq_external_id = None, rq_external_host = None, rq_retry_count = q_retry_count q, rq_err_msg = None,
     rq_previous_attempt_id = (case q_retry q of Some (_, p) \<Rightarrow> p | None \<Rightarrow> None),
     rq_rule_id = q_rule_id q, rq_activity = ra_activity (q_attributes q),
     rq_bytes = ra_bytes (q_attributes q), rq_md5 = ra_md5 (q_attributes q),
     rq_adler32 = ra_adler32 (q_attributes q), rq_started_at = None, rq_transferred_at = None,
     rq_staging_started_at = None, rq_staging_finished_at = None, rq_account = q_account q,
     rq_requested_at = q_requested_at q, rq_priority = ra_priority (q_attributes q),
     rq_transfertool = q_transfertool q, rq_updated_at = now env\<rparr>"

definition new_sources :: "request \<Rightarrow> source list \<Rightarrow> source list" where
  "new_sources r ss = map (\<lambda>s. s\<lparr>so_request_id := rq_id r, so_did := (rq_scope r, rq_name r),
     so_dest_rse_id := rq_dest_rse_id r\<rparr>) ss"

definition queued_message :: "request_env \<Rightarrow> request \<Rightarrow> message" where
  "queued_message env r = TRANSFER_EVENT
     (type_name (rq_type r) @ ''-'' @ state_name (rq_state r)) (rq_id r) (fst (rq_scope r)) (rq_name r)
     (rq_dest_rse_id r) (name_of_rse env (rq_dest_rse_id r)) (rq_retry_count r) (rq_rule_id r) (rq_activity r)
     (rq_bytes r) (rq_md5 r) (rq_adler32 r) (now env)"

definition existing_requests :: "request list \<Rightarrow> (did \<times> string) list" where
  "existing_requests rs = map rq_key (filter (\<lambda>r. rq_type r = TRANSFER) rs)"

text \<open>\<^verbatim>\<open>queue_requests\<close> looks the names of the destinations and the existing transfers up once, before its loop.\<close>

fun queue_loop ::
  "request_env \<Rightarrow> (did \<times> string) list \<Rightarrow> nat \<Rightarrow> request_dict list \<Rightarrow> request list \<times> source list \<times> nat" where
  "queue_loop env existing n [] = ([], [], n)"
| "queue_loop env existing n (q # qs) =
     (if q_type q = TRANSFER \<and> q_key q \<in> set existing then queue_loop env existing n qs
      else let r = new_request env n q;
               (rs, ss, m) = queue_loop env existing (if q_retry q = None then Suc n else n) qs
           in (r # rs, new_sources r (q_sources q) @ ss, m))"

definition queue_requests ::
  "request_env \<Rightarrow> request_dict list \<Rightarrow> 'z request_db_scheme
     \<Rightarrow> rucio_error + request list \<times> 'z request_db_scheme" where
  "queue_requests env qs db =
     (if \<exists>q \<in> set qs. \<not> known_rse env (q_dest_rse_id q) then Inl RSENotFoundError
      else let (rs, ss, n) = queue_loop env (existing_requests (requests db)) (uuid_count db) qs
      in rbind (add_messages (services env) (map (queued_message env) rs) (messages db))
        (\<lambda>ms. Inr (rs, db\<lparr>requests := requests db @ rs, sources := sources db @ ss,
                          messages := ms, uuid_count := n\<rparr>)))"

section \<open>Lookup\<close>

definition get_request :: "'z request_db_scheme \<Rightarrow> string \<Rightarrow> request option" where
  "get_request db i = (case filter (\<lambda>r. rq_id r = i) (requests db) of [] \<Rightarrow> None | r # _ \<Rightarrow> Some r)"

definition get_request_by_did ::
  "'z request_db_scheme \<Rightarrow> did \<Rightarrow> string \<Rightarrow> request_type option \<Rightarrow> rucio_error + request" where
  "get_request_by_did db k rse t =
     (case filter (\<lambda>r. rq_key r = (k, rse) \<and> (case t of Some t' \<Rightarrow> rq_type r = t' | None \<Rightarrow> True)) (requests db) of
        [] \<Rightarrow> Inl RequestNotFound | r # _ \<Rightarrow> Inr r)"

definition get_sources :: "'z request_db_scheme \<Rightarrow> string \<Rightarrow> string option \<Rightarrow> source list" where
  "get_sources db i rse =
     filter (\<lambda>s. so_request_id s = i \<and> (case rse of Some r \<Rightarrow> so_rse_id s = r | None \<Rightarrow> True)) (sources db)"

section \<open>Archiving, retries and cancellation\<close>

text \<open>The history table has no priority column.\<close>

definition archive_request :: "string \<Rightarrow> 'z request_db_scheme \<Rightarrow> 'z request_db_scheme" where
  "archive_request i db =
     (case get_request db i of
        None \<Rightarrow> db
      | Some r \<Rightarrow> db\<lparr>
          requests_history := requests_history db @ [r\<lparr>rq_priority := None\<rparr>],
          sources := filter (\<lambda>s. so_request_id s \<noteq> i) (sources db),
          transfer_hops := filter (\<lambda>(a, b, c). \<not> (a = i \<or> b = i \<or> c = i)) (transfer_hops db),
          requests := filter (\<lambda>r. rq_id r \<noteq> i) (requests db)\<rparr>)"

text \<open>\<^verbatim>\<open>transfers_to_cancel\<close>: the external identifiers, each with its host, that the transfer tool has to
  cancel.\<close>

definition cancel_request_did ::
  "did \<Rightarrow> string \<Rightarrow> request_type \<Rightarrow> 'z request_db_scheme
     \<Rightarrow> (string option \<times> string) list \<times> 'z request_db_scheme" where
  "cancel_request_did k rse t db =
     (let reqs = filter (\<lambda>r. rq_key r = (k, rse) \<and> rq_type r = t) (requests db)
      in (remdups [(rq_external_host r, e). r \<leftarrow> reqs, e \<leftarrow> case rq_external_id r of Some e \<Rightarrow> [e] | None \<Rightarrow> []],
          fold (\<lambda>r. archive_request (rq_id r)) reqs db))"

definition is_intermediate_hop :: "request \<Rightarrow> bool" where
  "is_intermediate_hop r = ra_is_intermediate_hop (rq_attributes r)"

definition should_retry_request :: "request \<Rightarrow> bool \<Rightarrow> bool" where
  "should_retry_request r retry_protocol_mismatches =
     (if is_intermediate_hop r then False
      else if rq_state r = SUBMITTING then True
      else if rq_state r = NO_SOURCES \<or> rq_state r = ONLY_TAPE_SOURCES then False
      else if (case rq_retry_count r of None \<Rightarrow> True | Some n \<Rightarrow> n < 3) then
        (if rq_state r = MISMATCH_SCHEME then retry_protocol_mismatches else True)
      else False)"

definition next_retry_count :: "request \<Rightarrow> int option" where
  "next_retry_count r =
     (case rq_retry_count r of
        None \<Rightarrow> Some 1
      | Some n \<Rightarrow> Some (if rq_state r \<noteq> SUBMITTING then n + 1 else n))"

definition rank_down :: "source \<Rightarrow> source" where
  "rank_down s =
     (if so_is_using s then
        s\<lparr>so_ranking := Some (case so_ranking s of None \<Rightarrow> -1 | Some n \<Rightarrow> n - 1), so_is_using := False\<rparr>
      else s)"

definition retry_dict :: "request_env \<Rightarrow> nat \<Rightarrow> bool \<Rightarrow> request \<Rightarrow> source list \<Rightarrow> request_dict" where
  "retry_dict env n source_ranking_update r ss = \<lparr>
     q_type = rq_type r, q_scope = rq_scope r, q_name = rq_name r, q_dest_rse_id = rq_dest_rse_id r,
     q_source_rse_id = rq_source_rse_id r, q_attributes = rq_attributes r, q_state = None,
     q_rule_id = rq_rule_id r, q_account = rq_account r, q_requested_at = rq_requested_at r,
     q_retry_count = next_retry_count r, q_transfertool = rq_transfertool r,
     q_retry = Some (uuid env n, Some (rq_id r)),
     q_sources = (if source_ranking_update then map rank_down ss else ss)\<rparr>"

definition requeue_and_archive ::
  "request_env \<Rightarrow> string \<Rightarrow> bool \<Rightarrow> bool \<Rightarrow> 'z request_db_scheme
     \<Rightarrow> rucio_error + request_dict option \<times> 'z request_db_scheme" where
  "requeue_and_archive env i source_ranking_update retry_protocol_mismatches db =
     (case get_request db i of
        None \<Rightarrow> Inl RequestNotFound
      | Some r \<Rightarrow>
          (let ss = get_sources db i None; db1 = archive_request i db
           in if should_retry_request r retry_protocol_mismatches then
                (let q = retry_dict env (uuid_count db1) source_ranking_update r ss
                 in rbind (queue_requests env [q] (db1\<lparr>uuid_count := Suc (uuid_count db1)\<rparr>))
                      (\<lambda>(_, db2). Inr (Some q, db2)))
              else Inr (None, db1)))"

section \<open>State transitions\<close>

text \<open>The columns that an update can set; \<open>None\<close> leaves a column.\<close>

record request_update =
  u_state :: "request_state option"
  u_transferred_at :: "int option"
  u_started_at :: "int option"
  u_staging_started_at :: "int option"
  u_staging_finished_at :: "int option"
  u_source_rse_id :: "string option"
  u_err_msg :: "string option"
  u_attributes :: "request_attributes option"
  u_priority :: "int option"
  u_transfertool :: "string option"

definition or_else :: "'a option \<Rightarrow> 'a option \<Rightarrow> 'a option" where
  "or_else x y = (case x of Some a \<Rightarrow> Some a | None \<Rightarrow> y)"

definition apply_update :: "int \<Rightarrow> request_update \<Rightarrow> request \<Rightarrow> request" where
  "apply_update t u r = r\<lparr>
     rq_updated_at := t,
     rq_state := (case u_state u of Some s \<Rightarrow> s | None \<Rightarrow> rq_state r),
     rq_transferred_at := or_else (u_transferred_at u) (rq_transferred_at r),
     rq_started_at := or_else (u_started_at u) (rq_started_at r),
     rq_staging_started_at := or_else (u_staging_started_at u) (rq_staging_started_at r),
     rq_staging_finished_at := or_else (u_staging_finished_at u) (rq_staging_finished_at r),
     rq_source_rse_id := or_else (u_source_rse_id u) (rq_source_rse_id r),
     rq_err_msg := or_else (u_err_msg u) (rq_err_msg r),
     rq_attributes := (case u_attributes u of Some a \<Rightarrow> a | None \<Rightarrow> rq_attributes r),
     rq_priority := or_else (u_priority u) (rq_priority r),
     rq_transfertool := or_else (u_transfertool u) (rq_transfertool r)\<rparr>"

definition update_request ::
  "request_env \<Rightarrow> string \<Rightarrow> request_update \<Rightarrow> bool \<Rightarrow> 'z request_db_scheme
     \<Rightarrow> rucio_error + bool \<times> 'z request_db_scheme" where
  "update_request env i u raise_on_missing db =
     (let found = (\<exists>r \<in> set (requests db). rq_id r = i)
      in if \<not> found \<and> raise_on_missing then Inl UnsupportedOperation
         else Inr (found, db\<lparr>requests := upd_where (\<lambda>r. rq_id r = i) (apply_update (now env) u) (requests db)\<rparr>))"

text \<open>\<open>given\<close> is the optional argument \<^verbatim>\<open>request\<close>, the caller's copy of the row.\<close>

definition transition_request_state ::
  "request_env \<Rightarrow> string \<Rightarrow> string option \<Rightarrow> request_update \<Rightarrow> request option \<Rightarrow> 'z request_db_scheme
     \<Rightarrow> rucio_error + bool \<times> 'z request_db_scheme" where
  "transition_request_state env i external_id u given db =
     (case (case given of Some r \<Rightarrow> Some r | None \<Rightarrow> get_request db i) of
        None \<Rightarrow> Inr (False, db)
      | Some r \<Rightarrow>
          if u_state u = Some (rq_state r) then Inr (False, db)
          else if u_state u \<in> {Some FAILED, Some DONE, Some REQUEST_LOST} \<and> rq_external_id r \<noteq> external_id
          then Inr (False, db)
          else rbind (update_request env i (u\<lparr>u_priority := None, u_transfertool := None\<rparr>) True db)
            (\<lambda>(_, db'). Inr (True, db')))"

definition only_state :: "request_state \<Rightarrow> request_update" where
  "only_state s = \<lparr>u_state = Some s, u_transferred_at = None, u_started_at = None,
     u_staging_started_at = None, u_staging_finished_at = None, u_source_rse_id = None, u_err_msg = None,
     u_attributes = None, u_priority = None, u_transfertool = None\<rparr>"

fun transition_requests_state_if_possible ::
  "request_env \<Rightarrow> string list \<Rightarrow> request_state \<Rightarrow> 'z request_db_scheme \<Rightarrow> 'z request_db_scheme" where
  "transition_requests_state_if_possible env [] s db = db"
| "transition_requests_state_if_possible env (i # is) s db =
     transition_requests_state_if_possible env is s
       (case transition_request_state env i None (only_state s) None db of Inr (_, db') \<Rightarrow> db' | Inl _ \<Rightarrow> db)"

definition touch_requests_by_rule ::
  "request_env \<Rightarrow> string \<Rightarrow> 'z request_db_scheme \<Rightarrow> 'z request_db_scheme" where
  "touch_requests_by_rule env rule db =
     db\<lparr>requests := upd_where
        (\<lambda>r. rq_rule_id r = Some rule \<and>
             rq_state r \<in> {FAILED, DONE, REQUEST_LOST, NO_SOURCES, ONLY_TAPE_SOURCES} \<and> rq_updated_at r < now env)
        (\<lambda>r. r\<lparr>rq_updated_at := now env + 20 * 60\<rparr>) (requests db)\<rparr>"

section \<open>Lemmas\<close>

lemma get_request_Some:
  "get_request db i = Some r \<Longrightarrow> r \<in> set (requests db) \<and> rq_id r = i"
  by (auto simp: get_request_def dest: filter_ConsD split: list.splits)

lemma get_request_None: "get_request db i = None \<longleftrightarrow> (\<forall>r \<in> set (requests db). rq_id r \<noteq> i)"
  by (auto simp: get_request_def filter_empty_conv dest: filter_ConsD split: list.splits)

lemma get_request_unique:
  assumes "distinct (map rq_id (requests db))" and "r \<in> set (requests db)"
  shows "get_request db (rq_id r) = Some r"
proof -
  have "filter (\<lambda>x. rq_id x = rq_id r) (requests db) = [r]"
    by (rule filter_unique_key [OF assms(1) _ assms(2)]) simp_all
  then show ?thesis by (simp add: get_request_def)
qed

text \<open>The tables after archiving.\<close>

lemma archive_request_tables:
  shows requests_archive: "requests (archive_request i db) = filter (\<lambda>r. rq_id r \<noteq> i) (requests db)"
    and messages_archive: "messages (archive_request i db) = messages db"
    and uuid_archive: "uuid_count (archive_request i db) = uuid_count db"
  by (auto simp: archive_request_def get_request_None intro!: filter_True [symmetric] split: option.splits)

text \<open>Live requests have distinct identifiers, and the sources and hops are those of live requests.\<close>

definition request_wf :: "'z request_db_scheme \<Rightarrow> bool" where
  "request_wf db \<longleftrightarrow>
     distinct (map rq_id (requests db)) \<and>
     (\<forall>s \<in> set (sources db). so_request_id s \<in> rq_id ` set (requests db)) \<and>
     (\<forall>(a, b, c) \<in> set (transfer_hops db). {a, b, c} \<subseteq> rq_id ` set (requests db))"

lemma request_wf_archive:
  assumes "request_wf db"
  shows "request_wf (archive_request i db)"
proof (cases "get_request db i")
  case None
  with assms show ?thesis by (simp add: archive_request_def)
next
  case (Some r)
  with assms show ?thesis
    by (auto simp: request_wf_def archive_request_def intro: distinct_map_filter_key)
qed

lemma queue_loop_spec:
  assumes "queue_loop env ex n qs = (rs, ss, m)"
  shows "(\<forall>r \<in> set rs. rq_type r = TRANSFER \<longrightarrow> rq_key r \<notin> set ex) \<and>
    map rq_key (filter (\<lambda>r. rq_type r = TRANSFER) rs) =
      map q_key (filter (\<lambda>q. q_type q = TRANSFER \<and> q_key q \<notin> set ex) qs) \<and>
    (\<forall>s \<in> set ss. so_request_id s \<in> rq_id ` set rs)"
  using assms
  by (induction qs arbitrary: n rs ss m)
    (auto simp: Let_def new_request_def rq_key_def q_key_def new_sources_def split: prod.splits if_splits)

text \<open>What a row of the queue takes over from the request that was asked for.\<close>

definition asked :: "request_env \<Rightarrow> request_dict \<Rightarrow> (request_type \<times> did \<times> string) \<times> string option \<times> request_attributes \<times> int option \<times> request_state" where
  "asked env q = ((q_type q, q_key q), q_rule_id q, q_attributes q, q_retry_count q, initial_state env q)"

definition queued :: "request \<Rightarrow> (request_type \<times> did \<times> string) \<times> string option \<times> request_attributes \<times> int option \<times> request_state" where
  "queued r = ((rq_type r, rq_key r), rq_rule_id r, rq_attributes r, rq_retry_count r, rq_state r)"

lemma queue_loop_rows:
  "queue_loop env ex n qs = (rs, ss, m) \<Longrightarrow>
   map queued rs = map (asked env) (filter (\<lambda>q. \<not> (q_type q = TRANSFER \<and> q_key q \<in> set ex)) qs) \<and>
   ss = concat (map2 (\<lambda>r q. new_sources r (q_sources q)) rs (filter (\<lambda>q. \<not> (q_type q = TRANSFER \<and> q_key q \<in> set ex)) qs))"
  by (induction qs arbitrary: n rs ss m)
    (auto simp: Let_def new_request_def rq_key_def q_key_def queued_def asked_def split: prod.splits if_splits)

text \<open>C18: The queue never holds two live transfers of one file to one RSE: when the transfers of the
  table are unique per file and destination and those of the batch are as well, they are still unique
  after \<^verbatim>\<open>queue_requests\<close>. A transfer that already exists is skipped. Every other request of
  the batch, of whatever type, is appended to the table in the order of the batch, with its rule, attributes, retry count and
  initial state, and its sources are appended to the sources; the rows that were there are left as they are.\<close>

theorem queue_requests_unique_transfers:
  assumes "queue_requests env qs db = Inr (rs, db')"
    and "distinct (existing_requests (requests db))"
    and "distinct (map q_key (filter (\<lambda>q. q_type q = TRANSFER) qs))"
  shows "distinct (existing_requests (requests db')) \<and> requests db' = requests db @ rs \<and>
    map queued rs = map (asked env) (filter (\<lambda>q. \<not> (q_type q = TRANSFER \<and> q_key q \<in> set (existing_requests (requests db)))) qs) \<and>
    sources db' = sources db @ concat (map2 (\<lambda>r q. new_sources r (q_sources q)) rs
      (filter (\<lambda>q. \<not> (q_type q = TRANSFER \<and> q_key q \<in> set (existing_requests (requests db)))) qs))"
proof -
  from assms(1) obtain ss m ms
    where loop: "queue_loop env (existing_requests (requests db)) (uuid_count db) qs = (rs, ss, m)"
      and db': "db' = db\<lparr>requests := requests db @ rs, sources := sources db @ ss,
          messages := ms, uuid_count := m\<rparr>"
    by (auto simp: queue_requests_def Let_def rbind_eq_Inr split: prod.splits if_splits)
  note spec = queue_loop_spec [OF loop]
  have new: "existing_requests rs = map q_key (filter (\<lambda>q. q_type q = TRANSFER \<and>
      q_key q \<notin> set (existing_requests (requests db))) qs)"
    using spec by (simp add: existing_requests_def)
  have "distinct (map q_key (filter (\<lambda>q. q_key q \<notin> set (existing_requests (requests db)))
      (filter (\<lambda>q. q_type q = TRANSFER) qs)))"
    by (rule distinct_map_filter_key [OF assms(3)])
  then have "distinct (existing_requests rs)"
    by (simp add: new conj_commute)
  moreover have "set (existing_requests rs) \<inter> set (existing_requests (requests db)) = {}"
    by (auto simp: new)
  ultimately show ?thesis
    using assms(2) queue_loop_rows [OF loop] by (simp add: db' existing_requests_def Int_commute)
qed

section \<open>Retries\<close>

lemma rq_new_request [simp]:
  shows "rq_retry_count (new_request env n q) = q_retry_count q"
    and "rq_state (new_request env n q) = initial_state env q"
    and "rq_previous_attempt_id (new_request env n q) = (case q_retry q of Some (_, p) \<Rightarrow> p | None \<Rightarrow> None)"
    and "rq_id (new_request env n q) = (case q_retry q of Some (i, _) \<Rightarrow> i | None \<Rightarrow> uuid env n)"
    and "rq_key (new_request env n q) = q_key q"
    and "rq_type (new_request env n q) = q_type q"
  by (simp_all add: new_request_def rq_key_def q_key_def)

lemma retry_dict_sel [simp]:
  shows "q_retry_count (retry_dict env n upd r ss) = next_retry_count r"
    and "q_state (retry_dict env n upd r ss) = None"
    and "q_retry (retry_dict env n upd r ss) = Some (uuid env n, Some (rq_id r))"
    and "q_key (retry_dict env n upd r ss) = rq_key r"
    and "q_type (retry_dict env n upd r ss) = rq_type r"
    and "q_sources (retry_dict env n upd r ss) = (if upd then map rank_down ss else ss)"
  by (simp_all add: retry_dict_def q_key_def rq_key_def)

text \<open>What a granted retry does to the tables.\<close>

lemma requeue_cases:
  assumes "requeue_and_archive env i upd mismatch db = Inr (res, db')"
  obtains (final) r where "get_request db i = Some r" and "\<not> should_retry_request r mismatch"
      and "res = None" and "db' = archive_request i db"
    | (retry) r q rs ms where "get_request db i = Some r" and "should_retry_request r mismatch"
      and "q = retry_dict env (uuid_count db) upd r (get_sources db i None)" and "res = Some q"
      and "rs = (if rq_type r = TRANSFER \<and> rq_key r \<in> set (existing_requests (requests (archive_request i db)))
                 then [] else [new_request env (Suc (uuid_count db)) q])"
      and "db' = (archive_request i db)\<lparr>requests := requests (archive_request i db) @ rs,
             sources := sources (archive_request i db) @ concat (map (\<lambda>r. new_sources r (q_sources q)) rs),
             messages := ms, uuid_count := Suc (uuid_count db)\<rparr>"
proof (cases "get_request db i")
  case None
  with assms show thesis by (simp add: requeue_and_archive_def)
next
  case (Some r)
  show thesis
  proof (cases "should_retry_request r mismatch")
    case False
    with Some assms show thesis
      by (intro final) (simp_all add: requeue_and_archive_def Let_def)
  next
    case True
    with Some assms show thesis
      by (auto simp: requeue_and_archive_def queue_requests_def Let_def rbind_eq_Inr uuid_archive
          intro!: retry split: if_splits prod.splits)
  qed
qed

text \<open>\<open>r'\<close> is the next attempt after \<open>r\<close>: \<^verbatim>\<open>requeue_and_archive\<close> on \<open>r\<close> inserted a row whose retry count \<open>r'\<close>
  still has (state changes do not touch that column).\<close>

inductive retried :: "bool \<Rightarrow> request \<Rightarrow> request \<Rightarrow> bool" for mismatch where
  "requeue_and_archive env (rq_id r) upd mismatch (db :: request_db) = Inr (res, db') \<Longrightarrow>
   get_request db (rq_id r) = Some r \<Longrightarrow> new \<in> set (requests db') \<Longrightarrow> new \<notin> set (requests db) \<Longrightarrow>
   rq_retry_count r' = rq_retry_count new \<Longrightarrow> retried mismatch r r'"

lemma retried_count:
  assumes "retried mismatch r r'"
  shows "should_retry_request r mismatch \<and> rq_retry_count r' = next_retry_count r"
  using assms
proof cases
  case (1 env upd db res db' new)
  from 1(1) show ?thesis
  proof (cases rule: requeue_cases)
    case (final r)
    with 1 show ?thesis by (simp add: requests_archive)
  next
    case (retry s q rs ms)
    with 1 show ?thesis by (auto simp: requests_archive split: if_splits)
  qed
qed

fun attempts :: "bool \<Rightarrow> request list \<Rightarrow> bool" where
  "attempts mismatch (r # r' # rs) \<longleftrightarrow>
     rq_state r \<noteq> SUBMITTING \<and> retried mismatch r r' \<and> attempts mismatch (r' # rs)"
| "attempts mismatch _ \<longleftrightarrow> True"

lemma attempts_bound:
  "attempts mismatch (r # rs) \<Longrightarrow> rq_retry_count r = Some n \<Longrightarrow> rs \<noteq> [] \<Longrightarrow> int (length rs) + n \<le> 3"
proof (induction rs arbitrary: r n)
  case Nil
  then show ?case by simp
next
  case (Cons r' rs)
  then have "n < 3" and "rq_retry_count r' = Some (n + 1)"
    using retried_count [of mismatch r r']
    by (auto simp: should_retry_request_def next_retry_count_def split: if_splits)
  with Cons.IH [of r' "n + 1"] Cons.prems(1) show ?case by (cases rs) auto
qed

text \<open>C19: A failing transfer is not retried for ever: in any sequence of attempts in which each next
  one was inserted by \<^verbatim>\<open>requeue_and_archive\<close> for a request that had left the \<^verbatim>\<open>SUBMITTING\<close> state, there
  are at most three retries after the first attempt.\<close>

theorem retries_bounded:
  assumes "attempts mismatch (r # rs)"
    and "case rq_retry_count r of None \<Rightarrow> True | Some n \<Rightarrow> 0 \<le> n"
  shows "length rs \<le> 3"
proof (cases "rq_retry_count r")
  case (Some n)
  with assms attempts_bound [of mismatch r rs n] show ?thesis by (cases rs) auto
next
  case None
  show ?thesis
  proof (cases rs)
    case (Cons r' rs')
    with assms(1) None have "rq_retry_count r' = Some 1" and "attempts mismatch (r' # rs')"
      using retried_count [of mismatch r r'] by (simp_all add: next_retry_count_def)
    with attempts_bound [of mismatch r' rs' 1] Cons show ?thesis by (cases rs') auto
  qed simp
qed

definition demo_request :: "string \<Rightarrow> int option \<Rightarrow> request_state \<Rightarrow> request" where
  "demo_request i n s = \<lparr>rq_id = i, rq_type = TRANSFER, rq_scope = atlas, rq_name = ''f'', rq_dest_rse_id = ''A'',
     rq_source_rse_id = None, rq_attributes = \<lparr>ra_activity = Some ''user'', ra_source_replica_expression = None,
       ra_lifetime = None, ra_ds = None, ra_bytes = Some 3, ra_md5 = None, ra_adler32 = None,
       ra_priority = Some 3, ra_is_intermediate_hop = False\<rparr>,
     rq_state = s, rq_external_id = Some ''x1'', rq_external_host = Some ''fts'', rq_retry_count = n,
     rq_err_msg = None, rq_previous_attempt_id = None, rq_rule_id = Some ''R'', rq_activity = Some ''user'',
     rq_bytes = Some 3, rq_md5 = None, rq_adler32 = None, rq_started_at = None, rq_transferred_at = None,
     rq_staging_started_at = None, rq_staging_finished_at = None, rq_account = Some ''alice'',
     rq_requested_at = Some 1, rq_priority = Some 3, rq_transfertool = None, rq_updated_at = 2\<rparr>"

definition demo_requests :: "request list \<Rightarrow> request_db" where
  "demo_requests rs = \<lparr>dids = [], contents = [], archive_contents = [], deleted_dids = [], dids_followed = [], contents_history = [], updated_dids = [], messages = [],
     requests = rs, requests_history = [], sources = [], transfer_hops = [], uuid_count = 0\<rparr>"

definition demo_env :: request_env where
  "demo_env = \<lparr>services = [''activemq''], now = 10, preparer_enabled = False,
     uuid = (\<lambda>n. replicate n (CHR ''u'')), known_rse = (\<lambda>_. True), name_of_rse = (\<lambda>r. r)\<rparr>"

definition demo_retry :: request where
  "demo_retry = new_request demo_env 1 (retry_dict demo_env 0 True (demo_request ''q1'' None FAILED) [])"

lemma demo_requeue:
  "\<exists>q db'. requeue_and_archive demo_env ''q1'' True False (demo_requests [demo_request ''q1'' None FAILED])
     = Inr (Some q, db') \<and> requests db' = [demo_retry]"
proof -
  have "case requeue_and_archive demo_env ''q1'' True False (demo_requests [demo_request ''q1'' None FAILED]) of
      Inr (Some q, db') \<Rightarrow> requests db' = [demo_retry] | _ \<Rightarrow> False"
    by code_simp
  then show ?thesis by (auto split: sum.splits prod.splits option.splits)
qed

theorem queue_requests_unique_transfers_witness:
  "\<exists>rs db'. queue_requests demo_env
      [retry_dict demo_env 0 True (demo_request ''q2'' None FAILED) [],
       retry_dict demo_env 1 True ((demo_request ''q3'' None FAILED)\<lparr>rq_name := ''g''\<rparr>) []]
      (demo_requests [demo_request ''q1'' None SUBMITTED]) = Inr (rs, db') \<and>
    map (\<lambda>r. fst (queued r)) rs = [(TRANSFER, (atlas, ''g''), ''A'')] \<and>
    distinct (existing_requests (requests db'))"
proof -
  let ?qs = "[retry_dict demo_env 0 True (demo_request ''q2'' None FAILED) [],
       retry_dict demo_env 1 True ((demo_request ''q3'' None FAILED)\<lparr>rq_name := ''g''\<rparr>) []]"
  let ?db = "demo_requests [demo_request ''q1'' None SUBMITTED]"
  have "\<not> isl (queue_requests demo_env ?qs ?db)" by code_simp
  then obtain x where x: "queue_requests demo_env ?qs ?db = Inr x" by (rule returnsE)
  obtain rs db' where eq: "queue_requests demo_env ?qs ?db = Inr (rs, db')"
    using x by (cases x) simp
  have pre: "distinct (existing_requests (requests ?db))"
    "distinct (map q_key (filter (\<lambda>q. q_type q = TRANSFER) ?qs))"
    by (simp_all add: existing_requests_def demo_requests_def demo_request_def rq_key_def)
  note res = queue_requests_unique_transfers [OF eq pre]
  then have "map fst (map queued rs) = [(TRANSFER, (atlas, ''g''), ''A'')]"
    by (simp add: existing_requests_def demo_requests_def demo_request_def rq_key_def asked_def)
  with res eq show ?thesis by (auto simp: comp_def)
qed

theorem retries_bounded_witness:
  "length [demo_retry] \<le> 3 \<and> attempts False [demo_request ''q1'' None FAILED, demo_retry]"
proof -
  obtain q db' where run: "requeue_and_archive demo_env ''q1'' True False
      (demo_requests [demo_request ''q1'' None FAILED]) = Inr (Some q, db')" and "requests db' = [demo_retry]"
    using demo_requeue by blast
  then have "retried False (demo_request ''q1'' None FAILED) demo_retry"
    by (intro retried.intros [where env = demo_env and upd = True and new = demo_retry
          and db = "demo_requests [demo_request ''q1'' None FAILED]" and db' = db'])
      (simp_all add: demo_request_def get_request_def demo_requests_def demo_retry_def new_request_def
        retry_dict_def demo_env_def)
  then have "attempts False [demo_request ''q1'' None FAILED, demo_retry]"
    by (simp add: demo_request_def)
  with retries_bounded [OF this] show ?thesis by (simp add: demo_request_def)
qed

section \<open>Requeueing moves a request to the history once\<close>

lemma request_wf_append:
  assumes "request_wf db" and "distinct (map rq_id rs)"
    and "set (map rq_id rs) \<inter> set (map rq_id (requests db)) = {}"
    and "\<forall>s \<in> set ss. so_request_id s \<in> rq_id ` set rs"
  shows "request_wf (db\<lparr>requests := requests db @ rs, sources := sources db @ ss,
    messages := ms, uuid_count := n\<rparr>)"
  using assms unfolding request_wf_def by (auto simp: ball_Un)

lemma get_request_append:
  "j \<notin> rq_id ` set rs \<Longrightarrow>
   get_request (db\<lparr>requests := requests db @ rs, sources := ss, messages := ms, uuid_count := n\<rparr>) j
     = get_request db j"
proof -
  assume "j \<notin> rq_id ` set rs"
  then have "filter (\<lambda>r. rq_id r = j) rs = []" by (auto simp: filter_empty_conv)
  then show ?thesis by (simp add: get_request_def)
qed

lemma get_request_archive_other: "j \<noteq> i \<Longrightarrow> get_request (archive_request i db) j = get_request db j"
proof -
  assume "j \<noteq> i"
  then have "filter (\<lambda>r. rq_id r = j) (filter (\<lambda>r. rq_id r \<noteq> i) (requests db)) = filter (\<lambda>r. rq_id r = j) (requests db)"
    by (induction "requests db") (auto intro: filter_cong)
  then show ?thesis by (simp only: get_request_def requests_archive)
qed

text \<open>\<^verbatim>\<open>requeue_and_archive\<close> moves the request from the queue to the history exactly once and
  touches no other request: afterwards the request is not live, its row is the newest of
  the history, the tables are still well-formed (so no source or hop of it is left),
  and the only other difference is the row of the retry, under the fresh identifier.\<close>

theorem requeue_moves_once:
  assumes "requeue_and_archive env i upd mismatch db = Inr (res, db')"
    and "request_wf db" and "uuid env (uuid_count db) \<notin> rq_id ` set (requests db)"
  shows "get_request db' i = None \<and>
    (\<exists>r. get_request db i = Some r \<and> requests_history db' = requests_history db @ [r\<lparr>rq_priority := None\<rparr>]) \<and>
    request_wf db' \<and>
    (\<forall>j. j \<notin> {i, uuid env (uuid_count db)} \<longrightarrow> get_request db' j = get_request db j)"
  using assms(1)
proof (cases rule: requeue_cases)
  case (final r)
  then show ?thesis
    using request_wf_archive [OF assms(2), of i]
    by (auto simp: get_request_None requests_archive get_request_archive_other)
      (simp add: archive_request_def)
next
  case (retry r q rs ms)
  have i: "i \<in> rq_id ` set (requests db)" using get_request_Some [OF retry(1)] by blast
  have ids: "rq_id ` set rs \<subseteq> {uuid env (uuid_count db)}"
    using retry(3,5) by simp
  have wf: "request_wf db'"
    unfolding retry(6)
    by (rule request_wf_append [OF request_wf_archive [OF assms(2)]])
      (use assms(3) retry(3,5) in \<open>auto simp: requests_archive new_sources_def\<close>)
  have "get_request db' j = get_request db j" if "j \<notin> {i, uuid env (uuid_count db)}" for j
  proof -
    from that ids have "j \<notin> rq_id ` set rs" by blast
    with that show ?thesis
      unfolding retry(6) by (intro trans [OF get_request_append get_request_archive_other]) auto
  qed
  moreover have "get_request db' i = None"
    using ids i assms(3) unfolding retry(6) get_request_None by (auto simp: requests_archive)
  moreover have "requests_history db' = requests_history db @ [r\<lparr>rq_priority := None\<rparr>]"
    using retry(1) unfolding retry(6) by (simp add: archive_request_def)
  ultimately show ?thesis using wf retry(1) by blast
qed

theorem requeue_moves_once_witness:
  "\<exists>res db'. requeue_and_archive demo_env ''q1'' True False (demo_requests [demo_request ''q1'' None FAILED])
      = Inr (res, db') \<and> get_request db' ''q1'' = None \<and>
    requests_history db' = [(demo_request ''q1'' None FAILED)\<lparr>rq_priority := None\<rparr>] \<and> request_wf db'"
proof -
  obtain q db' where run: "requeue_and_archive demo_env ''q1'' True False
      (demo_requests [demo_request ''q1'' None FAILED]) = Inr (Some q, db')"
    using demo_requeue by blast
  have pre: "request_wf (demo_requests [demo_request ''q1'' None FAILED])"
    "uuid demo_env (uuid_count (demo_requests [demo_request ''q1'' None FAILED]))
       \<notin> rq_id ` set (requests (demo_requests [demo_request ''q1'' None FAILED]))"
    by (simp_all add: request_wf_def demo_requests_def demo_request_def demo_env_def)
  from requeue_moves_once [OF run pre] run show ?thesis
    by (auto simp: get_request_def demo_requests_def demo_request_def)
qed

text \<open>\<^verbatim>\<open>transition_request_state\<close> reports a change exactly when it made one. It changes only the given
  request, never to the state it already has, and sets \<^verbatim>\<open>FAILED\<close>, \<^verbatim>\<open>DONE\<close> or \<^verbatim>\<open>LOST\<close> only when the
  external identifier of the report is the one of the request.\<close>

theorem transition_guarded:
  assumes "transition_request_state env i external_id u None db = Inr (changed, db')"
    and "distinct (map rq_id (requests db))"
  shows "(if changed then
      (\<exists>r. get_request db i = Some r \<and> u_state u \<noteq> Some (rq_state r) \<and>
        (u_state u \<in> {Some FAILED, Some DONE, Some REQUEST_LOST} \<longrightarrow> rq_external_id r = external_id) \<and>
        get_request db' i = Some (apply_update (now env) (u\<lparr>u_priority := None, u_transfertool := None\<rparr>) r))
     else db' = db) \<and> (\<forall>j. j \<noteq> i \<longrightarrow> get_request db' j = get_request db j)"
proof (cases changed)
  case False
  with assms(1) show ?thesis
    by (auto simp: transition_request_state_def rbind_eq_Inr split: option.splits if_splits)
next
  case True
  let ?u = "u\<lparr>u_priority := None, u_transfertool := None\<rparr>"
  from True assms(1) obtain r where r: "get_request db i = Some r" "u_state u \<noteq> Some (rq_state r)"
    and guard: "u_state u \<in> {Some FAILED, Some DONE, Some REQUEST_LOST} \<longrightarrow> rq_external_id r = external_id"
    and db': "db' = db\<lparr>requests := upd_where (\<lambda>r. rq_id r = i) (apply_update (now env) ?u) (requests db)\<rparr>"
    by (auto simp: transition_request_state_def update_request_def Let_def rbind_eq_Inr
        split: option.splits if_splits)
  have id: "rq_id (apply_update t v x) = rq_id x" for t v x by (simp add: apply_update_def)
  have "filter (\<lambda>r. rq_id r = i) (requests db) = [r]"
    using get_request_Some [OF r(1)] by (intro filter_unique_key [OF assms(2)]) auto
  then have "get_request db' i = Some (apply_update (now env) ?u r)"
    by (simp add: db' get_request_def filter_upd_where_same id)
  moreover have "get_request db' j = get_request db j" if "j \<noteq> i" for j
  proof -
    have "filter (\<lambda>r. rq_id r = j) (requests db') = filter (\<lambda>r. rq_id r = j) (requests db)"
      unfolding db' using that by (simp, intro filter_upd_where_other) (simp_all add: id)
    then show ?thesis by (simp add: get_request_def)
  qed
  ultimately show ?thesis using True r guard by auto
qed

theorem transition_guarded_witness:
  "\<exists>db'. transition_request_state demo_env ''q1'' (Some ''x1'') (only_state DONE) None
      (demo_requests [demo_request ''q1'' None SUBMITTED, demo_request ''q2'' None SUBMITTED]) = Inr (True, db') \<and>
    map_option rq_state (get_request db' ''q1'') = Some DONE \<and>
    get_request db' ''q2'' = Some (demo_request ''q2'' None SUBMITTED)"
proof -
  let ?db = "demo_requests [demo_request ''q1'' None SUBMITTED, demo_request ''q2'' None SUBMITTED]"
  have "case transition_request_state demo_env ''q1'' (Some ''x1'') (only_state DONE) None ?db of
      Inr (c, _) \<Rightarrow> c | Inl _ \<Rightarrow> False"
    by code_simp
  then obtain db' where run: "transition_request_state demo_env ''q1'' (Some ''x1'') (only_state DONE) None ?db
      = Inr (True, db')"
    by (auto split: sum.splits prod.splits)
  have dist: "distinct (map rq_id (requests ?db))"
    by (simp add: demo_requests_def demo_request_def)
  from transition_guarded [OF run dist] run show ?thesis
    by (auto simp: get_request_def demo_requests_def demo_request_def only_state_def apply_update_def)
qed

end
