(* ===== verification/Rule_State.thy ===== *)
theory Rule_State
  imports Requests RSE_Store
begin

text \<open>
  The state of the rule engine: replication rules, replica locks, dataset locks and replicas
  (\<^verbatim>\<open>db/sqla/models.py\<close>), and the operations on them that \<^verbatim>\<open>core/lock.py\<close> and \<^verbatim>\<open>core/rule.py\<close> share
  (history, release of parent rules, notifications).

  A rule asks for copies of a DID; every file it covers has one replica lock per copy. A rule
  keeps the number of its locks per lock state in three counters, and a replica the number of locks
  on it in \<^verbatim>\<open>lock_cnt\<close>. The section on the ledger states when these redundant counters are exact, and
  the locale \<open>lock_mover\<close> what a loop over locks has to do to keep them so.
\<close>

section \<open>Data\<close>

datatype lock_state = LockREPLICATING | LockOK | LockSTUCK

datatype rule_state =
  RuleREPLICATING | RuleOK | RuleSTUCK | RuleSUSPENDED | RuleWAITING_APPROVAL | RuleINJECT

datatype rule_grouping = GroupALL | GroupDATASET | GroupNONE

datatype rule_notification = NotifyYES | NotifyNO | NotifyCLOSE | NotifyPROGRESS

datatype replica_state = AVAILABLE | UNAVAILABLE | COPYING | BEING_DELETED | BAD | TEMPORARY_UNAVAILABLE

datatype bad_status = BadBAD | BadDELETED | BadLOST | BadRECOVERED | BadSUSPICIOUS | BadTEMPORARY_UNAVAILABLE

record rule =
  r_id :: string
  r_subscription_id :: "string option"
  r_account :: string
  r_scope :: iscope
  r_name :: string
  r_did_type :: did_type
  r_state :: rule_state
  r_error :: "string option"
  r_rse_expression :: string
  r_copies :: int
  r_expires_at :: "int option"
  r_weight :: "string option"
  r_locked :: bool
  r_locks_ok_cnt :: int
  r_locks_replicating_cnt :: int
  r_locks_stuck_cnt :: int
  r_source_replica_expression :: "string option"
  r_activity :: "string option"
  r_grouping :: rule_grouping
  r_notification :: rule_notification
  r_stuck_at :: "int option"
  r_purge_replicas :: bool
  r_ignore_availability :: bool
  r_ignore_account_limit :: bool
  r_priority :: "int option"
  r_comments :: "string option"
  r_child_rule_id :: "string option"
  r_eol_at :: "int option"
  r_split_container :: bool
  r_meta :: "string option"
  r_created_at :: int

record replica_lock =
  l_scope :: iscope
  l_name :: string
  l_rule_id :: string
  l_rse_id :: string
  l_account :: string
  l_bytes :: "int option"
  l_state :: lock_state
  l_created_at :: int

record dataset_lock =
  dl_scope :: iscope
  dl_name :: string
  dl_rule_id :: string
  dl_rse_id :: string
  dl_account :: string
  dl_state :: lock_state
  dl_length :: "int option"
  dl_bytes :: "int option"
  dl_accessed_at :: "int option"

record replica =
  p_scope :: iscope
  p_name :: string
  p_rse_id :: string
  p_bytes :: int
  p_md5 :: "string option"
  p_adler32 :: "string option"
  p_state :: replica_state
  p_lock_cnt :: int
  p_accessed_at :: "int option"
  p_tombstone :: "int option"
  p_created_at :: int
  p_path :: "string option"

record rule_db = request_db +
  rules :: "rule list"
  locks :: "replica_lock list"
  dataset_locks :: "dataset_lock list"
  replicas :: "replica list"
  updated_col_rep :: "(did \<times> did_type \<times> string option) list"
  rules_hist_recent :: "rule list"
  rules_history :: "rule list"
  bad_replicas :: "(did \<times> string \<times> bad_status) list"
  account_counters :: account_counter_db

text \<open>The environment adds the RSE registry with its cache, and the mail that the templates give for a
  rule (recipient, subject and body), if any.\<close>

record rule_env = request_env +
  registry :: rse_db
  attr_region :: "string \<Rightarrow> string \<Rightarrow> attr_value option option"
  ok_mail :: "rule \<Rightarrow> (string \<times> string \<times> string) option"

text \<open>\<^verbatim>\<open>OBSOLETE = datetime(year=1970, month=1, day=1)\<close>.\<close>

definition OBSOLETE :: int where
  "OBSOLETE = 0"

definition l_did :: "replica_lock \<Rightarrow> did" where
  "l_did l = (l_scope l, l_name l)"

definition l_key :: "replica_lock \<Rightarrow> did \<times> string \<times> string" where
  "l_key l = (l_did l, l_rule_id l, l_rse_id l)"

definition l_replica :: "replica_lock \<Rightarrow> did \<times> string" where
  "l_replica l = (l_did l, l_rse_id l)"

definition p_key :: "replica \<Rightarrow> did \<times> string" where
  "p_key p = ((p_scope p, p_name p), p_rse_id p)"

definition r_did :: "rule \<Rightarrow> did" where
  "r_did r = (r_scope r, r_name r)"

section \<open>Rows\<close>

text \<open>\<^verbatim>\<open>session.execute(select(..).where(id == rule_id)).scalar_one()\<close>. The session keeps one object per
  row, so an attribute that is set on \<^verbatim>\<open>rule\<close> is an update of the row.\<close>

definition get_rule :: "rule_db \<Rightarrow> string \<Rightarrow> rucio_error + rule" where
  "get_rule db i = (case filter (\<lambda>r. r_id r = i) (rules db) of r # _ \<Rightarrow> Inr r | [] \<Rightarrow> Inl NoResultFound)"

definition upd_rule :: "string \<Rightarrow> (rule \<Rightarrow> rule) \<Rightarrow> rule_db \<Rightarrow> rule_db" where
  "upd_rule i f db = db\<lparr>rules := upd_where (\<lambda>r. r_id r = i) f (rules db)\<rparr>"

definition set_lock_state :: "replica_lock \<Rightarrow> lock_state \<Rightarrow> rule_db \<Rightarrow> rule_db" where
  "set_lock_state l s db =
     db\<lparr>locks := upd_where (\<lambda>k. l_key k = l_key l) (\<lambda>k. k\<lparr>l_state := s\<rparr>) (locks db)\<rparr>"

definition delete_lock :: "replica_lock \<Rightarrow> rule_db \<Rightarrow> rule_db" where
  "delete_lock l db = db\<lparr>locks := filter (\<lambda>k. l_key k \<noteq> l_key l) (locks db)\<rparr>"

definition set_dataset_locks :: "string \<Rightarrow> lock_state \<Rightarrow> rule_db \<Rightarrow> rule_db" where
  "set_dataset_locks i s db =
     db\<lparr>dataset_locks := upd_where (\<lambda>k. dl_rule_id k = i) (\<lambda>k. k\<lparr>dl_state := s\<rparr>) (dataset_locks db)\<rparr>"

definition replica_locks_at :: "rule_db \<Rightarrow> did \<Rightarrow> string \<Rightarrow> replica_lock list" where
  "replica_locks_at db k rse = filter (\<lambda>l. l_replica l = (k, rse)) (locks db)"

text \<open>The counter of a rule for a lock state.\<close>

fun lock_cnt_of :: "lock_state \<Rightarrow> rule \<Rightarrow> int" where
  "lock_cnt_of LockOK r = r_locks_ok_cnt r"
| "lock_cnt_of LockREPLICATING r = r_locks_replicating_cnt r"
| "lock_cnt_of LockSTUCK r = r_locks_stuck_cnt r"

fun add_cnt :: "lock_state \<Rightarrow> int \<Rightarrow> rule \<Rightarrow> rule" where
  "add_cnt LockOK d r = r\<lparr>r_locks_ok_cnt := r_locks_ok_cnt r + d\<rparr>"
| "add_cnt LockREPLICATING d r = r\<lparr>r_locks_replicating_cnt := r_locks_replicating_cnt r + d\<rparr>"
| "add_cnt LockSTUCK d r = r\<lparr>r_locks_stuck_cnt := r_locks_stuck_cnt r + d\<rparr>"

section \<open>History and parent rules\<close>

text \<open>A history row is a copy of the rule; the history tables have no priority column.\<close>

definition insert_rule_history :: "string \<Rightarrow> bool \<Rightarrow> bool \<Rightarrow> rule_db \<Rightarrow> rule_db" where
  "insert_rule_history i recent longterm db =
     (let rows = map (\<lambda>r. r\<lparr>r_priority := None\<rparr>) (filter (\<lambda>r. r_id r = i) (rules db))
      in db\<lparr>rules_hist_recent := rules_hist_recent db @ (if recent then rows else []),
            rules_history := rules_history db @ (if longterm then rows else [])\<rparr>)"

definition release_one :: "bool \<Rightarrow> rule \<Rightarrow> rule_db \<Rightarrow> rule_db" where
  "release_one remove_parent_expiration p db =
     insert_rule_history (r_id p) True False
       (upd_rule (r_id p)
          (\<lambda>r. (if remove_parent_expiration then r\<lparr>r_expires_at := None\<rparr> else r)\<lparr>r_child_rule_id := None\<rparr>) db)"

definition release_parent_rule :: "string \<Rightarrow> bool \<Rightarrow> rule_db \<Rightarrow> rule_db" where
  "release_parent_rule child remove_parent_expiration db =
     fold (release_one remove_parent_expiration) (filter (\<lambda>r. r_child_rule_id r = Some child) (rules db)) db"

section \<open>Notifications\<close>

text \<open>\<^verbatim>\<open>int(float(total - replicating) / float(total) * 10) * 10\<close>: the quotient truncated to a tenth; a
  division by zero is caught and gives 0. Counters stay far below the sizes at which the binary
  quotient could round across a tenth.\<close>

definition progress_class :: "int \<Rightarrow> int \<Rightarrow> int" where
  "progress_class replicating total_locks =
     (if total_locks = 0 then 0
      else let q = 10 * (total_locks - replicating)
           in sgn q * sgn total_locks * (\<bar>q\<bar> div \<bar>total_locks\<bar>) * 10)"

definition rule_ok_message :: "rule \<Rightarrow> message" where
  "rule_ok_message r = RULE_OK (fst (r_scope r)) (vo_entry (r_scope r)) (r_name r) (r_id r)"

definition rule_progress_message :: "rule \<Rightarrow> message" where
  "rule_progress_message r = RULE_PROGRESS (fst (r_scope r)) (vo_entry (r_scope r)) (r_name r) (r_id r)
     (progress_class (r_locks_replicating_cnt r) (r_locks_replicating_cnt r + r_locks_ok_cnt r))"

definition datasetlock_ok_message :: "rule_env \<Rightarrow> rule \<Rightarrow> dataset_lock \<Rightarrow> message" where
  "datasetlock_ok_message env r l = DATASETLOCK_OK (fst (dl_scope l)) (vo_entry (dl_scope l)) (dl_name l)
     (name_of_rse env (dl_rse_id l)) (dl_rse_id l) (r_id r)"

text \<open>\<^verbatim>\<open>did = get_did(..); if not did['open']: ..\<close>, with \<^verbatim>\<open>DataIdentifierNotFound\<close> passed over. A file has
  no key \<^verbatim>\<open>open\<close>.\<close>

definition when_closed :: "rule_db \<Rightarrow> did \<Rightarrow> (did_info \<Rightarrow> rucio_error + 'a) \<Rightarrow> 'a \<Rightarrow> rucio_error + 'a" where
  "when_closed db k act skip =
     (case get_did db k of
        Inl _ \<Rightarrow> Inr skip
      | Inr i \<Rightarrow> rbind (i_open i) (\<lambda>op. if op = Some True then Inr skip else act i))"

text \<open>The loop over the dataset locks of a rule with notification \<^verbatim>\<open>CLOSE\<close>: a DID without a length ends
  the whole function.\<close>

fun close_messages :: "rule_env \<Rightarrow> rule_db \<Rightarrow> rule \<Rightarrow> dataset_lock list \<Rightarrow> rucio_error + message list" where
  "close_messages env db r [] = Inr []"
| "close_messages env db r (l # ls) =
     (case get_did db (dl_scope l, dl_name l) of
        Inl _ \<Rightarrow> close_messages env db r ls
      | Inr i \<Rightarrow> rbind (i_open i) (\<lambda>op.
          if op = Some True then close_messages env db r ls
          else case i_length i of
            None \<Rightarrow> Inr []
          | Some n \<Rightarrow> rbind (close_messages env db r ls) (\<lambda>ms.
              Inr (if n * r_copies r = r_locks_ok_cnt r then datasetlock_ok_message env r l # ms else ms))))"

definition rule_messages :: "rule_env \<Rightarrow> rule_db \<Rightarrow> rule \<Rightarrow> int option \<Rightarrow> rucio_error + message list" where
  "rule_messages env db r replicating_locks_before =
     (let total_locks = r_locks_replicating_cnt r + r_locks_ok_cnt r;
          ds = filter (\<lambda>l. dl_rule_id l = r_id r) (dataset_locks db)
      in if r_state r = RuleOK then
           rbind
             (case r_notification r of
                NotifyYES \<Rightarrow> Inr [rule_ok_message r]
              | NotifyCLOSE \<Rightarrow> when_closed db (r_did r) (\<lambda>_. Inr [rule_ok_message r]) []
              | NotifyPROGRESS \<Rightarrow>
                  when_closed db (r_did r) (\<lambda>_. Inr [rule_ok_message r, rule_progress_message r]) []
              | NotifyNO \<Rightarrow> Inr [])
             (\<lambda>ms. if r_grouping r = GroupNONE then Inr ms
               else case r_notification r of
                 NotifyYES \<Rightarrow> Inr (ms @ map (datasetlock_ok_message env r) ds)
               | NotifyCLOSE \<Rightarrow> rbind (close_messages env db r ds) (\<lambda>ms'. Inr (ms @ ms'))
               | _ \<Rightarrow> Inr ms)
         else if r_state r = RuleREPLICATING \<and> r_notification r = NotifyPROGRESS \<and>
           (case replicating_locks_before of Some n \<Rightarrow> n \<noteq> 0 | None \<Rightarrow> False)
         then (if progress_class (the replicating_locks_before) total_locks
                  \<noteq> progress_class (r_locks_replicating_cnt r) total_locks
               then when_closed db (r_did r) (\<lambda>_. Inr [rule_progress_message r]) []
               else Inr [])
         else Inr [])"

definition add_message :: "rule_env \<Rightarrow> message \<Rightarrow> rule_db \<Rightarrow> rucio_error + rule_db" where
  "add_message env m db =
     rbind (add_messages (services env) [m] (messages db)) (\<lambda>ms. Inr (db\<lparr>messages := ms\<rparr>))"

definition generate_rule_notifications ::
  "rule_env \<Rightarrow> string \<Rightarrow> int option \<Rightarrow> rule_db \<Rightarrow> rucio_error + rule_db" where
  "generate_rule_notifications env i replicating_locks_before db =
     rbind (get_rule db i) (\<lambda>r. rbind (rule_messages env db r replicating_locks_before)
       (\<lambda>ms. rfold (add_message env) ms db))"

definition generate_email_for_rule_ok_notification ::
  "rule_env \<Rightarrow> string \<Rightarrow> rule_db \<Rightarrow> rucio_error + rule_db" where
  "generate_email_for_rule_ok_notification env i db =
     rbind (get_rule db i) (\<lambda>r.
       if r_state r = RuleOK \<and> r_notification r = NotifyYES then
         (case ok_mail env r of
            None \<Rightarrow> Inr db
          | Some (to, subject, body) \<Rightarrow> add_message env (EMAIL to subject body) db)
       else Inr db)"

section \<open>The ledger: locks and their counters\<close>

text \<open>The counters are redundant: what a rule and a replica count is determined by the locks. Only these
  views of the rows matter for that.\<close>

definition cnt_view :: "rule \<Rightarrow> string \<times> (lock_state \<Rightarrow> int)" where
  "cnt_view r = (r_id r, \<lambda>s. lock_cnt_of s r)"

definition rep_view :: "replica \<Rightarrow> (did \<times> string) \<times> int" where
  "rep_view p = (p_key p, p_lock_cnt p)"

definition cnt_views :: "rule_db \<Rightarrow> (string \<times> (lock_state \<Rightarrow> int)) list" where
  "cnt_views db = map cnt_view (rules db)"

definition rep_views :: "rule_db \<Rightarrow> ((did \<times> string) \<times> int) list" where
  "rep_views db = map rep_view (replicas db)"

definition lock_total :: "replica_lock list \<Rightarrow> string \<Rightarrow> lock_state \<Rightarrow> int" where
  "lock_total ls i s = int (count_where (\<lambda>l. l_rule_id l = i \<and> l_state l = s) ls)"

definition replica_total :: "replica_lock list \<Rightarrow> did \<times> string \<Rightarrow> int" where
  "replica_total ls k = int (count_where (\<lambda>l. l_replica l = k) ls)"

text \<open>Primary keys are unique, every lock belongs to a rule, and all counters are exact.\<close>

definition ledger_ok :: "rule_db \<Rightarrow> bool" where
  "ledger_ok db \<longleftrightarrow>
     distinct (map fst (cnt_views db)) \<and> distinct (map l_key (locks db)) \<and> distinct (map fst (rep_views db)) \<and>
     (\<forall>l \<in> set (locks db). l_rule_id l \<in> fst ` set (cnt_views db)) \<and>
     (\<forall>(i, c) \<in> set (cnt_views db). \<forall>s. c s = lock_total (locks db) i s) \<and>
     (\<forall>(k, n) \<in> set (rep_views db). n = replica_total (locks db) k)"

lemma fst_cnt_view [simp]: "fst (cnt_view r) = r_id r"
  by (simp add: cnt_view_def)

lemma fst_rep_view [simp]: "fst (rep_view p) = p_key p"
  by (simp add: rep_view_def)

lemma ledger_ok_rule:
  assumes "ledger_ok db" and "r \<in> set (rules db)"
  shows "lock_cnt_of s r = lock_total (locks db) (r_id r) s"
  using assms by (force simp: ledger_ok_def cnt_views_def cnt_view_def)

lemma ledger_ok_replica:
  assumes "ledger_ok db" and "p \<in> set (replicas db)"
  shows "p_lock_cnt p = replica_total (locks db) (p_key p)"
  using assms by (force simp: ledger_ok_def rep_views_def rep_view_def)

lemma ledger_ok_rule_ids: "ledger_ok db \<Longrightarrow> distinct (map r_id (rules db))"
  by (simp add: ledger_ok_def cnt_views_def comp_def)

lemma ledger_ok_lock_keys: "ledger_ok db \<Longrightarrow> distinct (map l_key (locks db))"
  by (simp add: ledger_ok_def)

text \<open>Two states with the same ledger.\<close>

definition state_view :: "rule \<Rightarrow> (string \<times> (lock_state \<Rightarrow> int)) \<times> rule_state" where
  "state_view r = (cnt_view r, r_state r)"

definition same_ledger :: "rule_db \<Rightarrow> rule_db \<Rightarrow> bool" where
  "same_ledger db db' \<longleftrightarrow>
     locks db' = locks db \<and> map state_view (rules db') = map state_view (rules db) \<and>
     rep_views db' = rep_views db"

lemma same_ledger_cnt_views: "same_ledger db db' \<Longrightarrow> cnt_views db' = cnt_views db"
proof -
  assume "same_ledger db db'"
  then have "map fst (map state_view (rules db')) = map fst (map state_view (rules db))"
    by (simp add: same_ledger_def)
  then show ?thesis by (simp add: cnt_views_def state_view_def comp_def)
qed

lemma same_ledger_refl [simp, intro]: "same_ledger db db"
  by (simp add: same_ledger_def)

lemma same_ledger_trans [trans]: "same_ledger a b \<Longrightarrow> same_ledger b c \<Longrightarrow> same_ledger a c"
  by (simp add: same_ledger_def)

lemma same_ledger_ok: "same_ledger db db' \<Longrightarrow> ledger_ok db' = ledger_ok db"
  using same_ledger_cnt_views [of db db'] by (simp add: same_ledger_def ledger_ok_def)

text \<open>A rule state that agrees with the counters: an \<^verbatim>\<open>OK\<close> rule has only \<^verbatim>\<open>OK\<close> locks, a
  \<^verbatim>\<open>REPLICATING\<close> one has a replicating lock and no stuck one, and a rule that waits for approval or for the
  injector has no locks. Nothing is said of \<^verbatim>\<open>STUCK\<close> and \<^verbatim>\<open>SUSPENDED\<close> rules.\<close>

definition coherent_view :: "(string \<times> (lock_state \<Rightarrow> int)) \<times> rule_state \<Rightarrow> bool" where
  "coherent_view v = (let c = snd (fst v) in
     case snd v of
       RuleOK \<Rightarrow> c LockREPLICATING = 0 \<and> c LockSTUCK = 0
     | RuleREPLICATING \<Rightarrow> 0 < c LockREPLICATING \<and> c LockSTUCK = 0
     | RuleWAITING_APPROVAL \<Rightarrow> c LockOK = 0 \<and> c LockREPLICATING = 0 \<and> c LockSTUCK = 0
     | RuleINJECT \<Rightarrow> c LockOK = 0 \<and> c LockREPLICATING = 0 \<and> c LockSTUCK = 0
     | _ \<Rightarrow> True)"

definition coherent :: "rule_db \<Rightarrow> bool" where
  "coherent db \<longleftrightarrow> (\<forall>r \<in> set (rules db). coherent_view (state_view r))"

lemma coherent_alt: "coherent db \<longleftrightarrow> (\<forall>v \<in> set (map state_view (rules db)). coherent_view v)"
  by (simp add: coherent_def)

lemma same_ledger_coherent: "same_ledger db db' \<Longrightarrow> coherent db' = coherent db"
  unfolding coherent_alt same_ledger_def by simp

lemma same_ledger_fold:
  "(\<And>x db. same_ledger db (f x db)) \<Longrightarrow> same_ledger db (fold f xs db)"
  by (induction xs arbitrary: db) (simp_all, blast intro: same_ledger_trans)

lemma same_ledger_rfold:
  assumes "\<And>x db db'. f x db = Inr db' \<Longrightarrow> same_ledger db db'" and "rfold f xs db = Inr db'"
  shows "same_ledger db db'"
  by (rule rfold_invariant [OF assms(2), of "same_ledger db"])
    (simp, blast intro: same_ledger_trans assms(1))

text \<open>Moving one lock to another state (\<open>Some s\<close>) or deleting it (\<open>None\<close>), with the counters it changes.\<close>

definition move_lock :: "replica_lock \<Rightarrow> lock_state option \<Rightarrow> replica_lock list \<Rightarrow> replica_lock list" where
  "move_lock l t ls =
     (case t of
        Some s \<Rightarrow> upd_where (\<lambda>k. l_key k = l_key l) (\<lambda>k. k\<lparr>l_state := s\<rparr>) ls
      | None \<Rightarrow> filter (\<lambda>k. l_key k \<noteq> l_key l) ls)"

definition move_cnt ::
  "replica_lock \<Rightarrow> lock_state option \<Rightarrow> string \<times> (lock_state \<Rightarrow> int) \<Rightarrow> string \<times> (lock_state \<Rightarrow> int)" where
  "move_cnt l t v = (fst v, \<lambda>s. snd v s +
     (if fst v = l_rule_id l then (if t = Some s then 1 else 0) - (if l_state l = s then 1 else 0) else 0))"

definition move_rep :: "replica_lock \<Rightarrow> lock_state option \<Rightarrow> (did \<times> string) \<times> int \<Rightarrow> (did \<times> string) \<times> int" where
  "move_rep l t v = (fst v, snd v - (if t = None \<and> fst v = l_replica l then 1 else 0))"

definition lock_moved :: "replica_lock \<Rightarrow> lock_state option \<Rightarrow> rule_db \<Rightarrow> rule_db \<Rightarrow> bool" where
  "lock_moved l t db db' \<longleftrightarrow>
     locks db' = move_lock l t (locks db) \<and> cnt_views db' = map (move_cnt l t) (cnt_views db) \<and>
     rep_views db' = map (move_rep l t) (rep_views db)"

lemma lock_moved_trans_same:
  "lock_moved l t a b \<Longrightarrow> same_ledger b c \<Longrightarrow> lock_moved l t a c"
  using same_ledger_cnt_views [of b c] by (simp add: lock_moved_def same_ledger_def)

lemma lock_sel_upd [simp]:
  shows "l_key (k\<lparr>l_state := s\<rparr>) = l_key k" and "l_replica (k\<lparr>l_state := s\<rparr>) = l_replica k"
  by (simp_all add: l_key_def l_replica_def l_did_def)

lemma l_key_eq: "l_key a = l_key b \<longleftrightarrow> l_replica a = l_replica b \<and> l_rule_id a = l_rule_id b"
  by (auto simp: l_key_def l_replica_def)

lemma fst_move_cnt [simp]: "fst (move_cnt l t v) = fst v"
  by (simp add: move_cnt_def)

lemma fst_move_rep [simp]: "fst (move_rep l t v) = fst v"
  by (simp add: move_rep_def)

lemma lock_total_move:
  assumes "distinct (map l_key ls)" and "l \<in> set ls"
  shows "lock_total (move_lock l t ls) i s = lock_total ls i s +
    (if i = l_rule_id l then (if t = Some s then 1 else 0) - (if l_state l = s then 1 else 0) else 0)"
  by (cases t)
    (simp_all add: lock_total_def move_lock_def count_where_update_key [OF assms] count_where_delete_key [OF assms])

lemma replica_total_move:
  assumes "distinct (map l_key ls)" and "l \<in> set ls"
  shows "replica_total (move_lock l t ls) k = replica_total ls k - (if t = None \<and> k = l_replica l then 1 else 0)"
  by (cases t)
    (simp_all add: replica_total_def move_lock_def count_where_update_key [OF assms] count_where_delete_key [OF assms])

lemma move_lock_keys:
  "distinct (map l_key ls) \<Longrightarrow> distinct (map l_key (move_lock l t ls))"
  by (cases t) (simp_all add: move_lock_def map_upd_where distinct_map_filter_key)

lemma move_lock_rule_ids: "l_rule_id ` set (move_lock l t ls) \<subseteq> l_rule_id ` set ls"
  by (cases t) (auto simp: move_lock_def set_upd_where)

lemma move_lock_other: "k \<in> set ls \<Longrightarrow> l_key k \<noteq> l_key l \<Longrightarrow> k \<in> set (move_lock l t ls)"
  by (cases t) (auto simp: move_lock_def set_upd_where)

text \<open>A lock that is moved with its counters keeps the ledger exact.\<close>

lemma ledger_ok_moved:
  assumes ok: "ledger_ok db" and mem: "l \<in> set (locks db)" and moved: "lock_moved l t db db'"
  shows "ledger_ok db'"
proof -
  have keys: "distinct (map l_key (locks db))" using ok by (simp add: ledger_ok_def)
  have ids: "map fst (cnt_views db') = map fst (cnt_views db)" "map fst (rep_views db') = map fst (rep_views db)"
    using moved by (simp_all add: lock_moved_def comp_def)
  then have fk: "fst ` set (cnt_views db') = fst ` set (cnt_views db)"
    by (metis list.set_map)
  have "l_rule_id k \<in> fst ` set (cnt_views db')" if "k \<in> set (locks db')" for k
  proof -
    have "l_rule_id k \<in> l_rule_id ` set (move_lock l t (locks db))"
      using that moved by (simp add: lock_moved_def)
    then obtain m where "m \<in> set (locks db)" and "l_rule_id k = l_rule_id m"
      using move_lock_rule_ids by blast
    with ok show ?thesis unfolding fk by (simp add: ledger_ok_def)
  qed
  moreover have "c s = lock_total (locks db') i s" if "(i, c) \<in> set (cnt_views db')" for i c s
    using that moved ok by (auto simp: lock_moved_def ledger_ok_def lock_total_move [OF keys mem] move_cnt_def)
  moreover have "n = replica_total (locks db') k" if "(k, n) \<in> set (rep_views db')" for k n
    using that moved ok by (auto simp: lock_moved_def ledger_ok_def replica_total_move [OF keys mem] move_rep_def)
  moreover have "distinct (map l_key (locks db'))"
    using moved move_lock_keys [OF keys] by (simp add: lock_moved_def)
  moreover have "distinct (map fst (cnt_views db')) \<and> distinct (map fst (rep_views db'))"
    using ok unfolding ids by (simp add: ledger_ok_def)
  ultimately show ?thesis
    unfolding ledger_ok_def by blast
qed

section \<open>What leaves the ledger alone\<close>

lemma state_view_upd [simp]:
  shows "state_view (r\<lparr>r_expires_at := a\<rparr>) = state_view r"
    and "state_view (r\<lparr>r_child_rule_id := b\<rparr>) = state_view r"
    and "state_view (r\<lparr>r_error := c\<rparr>) = state_view r"
    and "state_view (r\<lparr>r_source_replica_expression := e\<rparr>) = state_view r"
    and "state_view (r\<lparr>r_purge_replicas := f\<rparr>) = state_view r"
    and "state_view (r\<lparr>r_eol_at := g\<rparr>) = state_view r"
proof -
  have "lock_cnt_of s (r\<lparr>r_expires_at := a\<rparr>) = lock_cnt_of s r"
    and "lock_cnt_of s (r\<lparr>r_child_rule_id := b\<rparr>) = lock_cnt_of s r"
    and "lock_cnt_of s (r\<lparr>r_error := c\<rparr>) = lock_cnt_of s r"
    and "lock_cnt_of s (r\<lparr>r_source_replica_expression := e\<rparr>) = lock_cnt_of s r"
    and "lock_cnt_of s (r\<lparr>r_purge_replicas := f\<rparr>) = lock_cnt_of s r"
    and "lock_cnt_of s (r\<lparr>r_eol_at := g\<rparr>) = lock_cnt_of s r" for s
    by (cases s; simp)+
  then show "state_view (r\<lparr>r_expires_at := a\<rparr>) = state_view r"
    and "state_view (r\<lparr>r_child_rule_id := b\<rparr>) = state_view r"
    and "state_view (r\<lparr>r_error := c\<rparr>) = state_view r"
    and "state_view (r\<lparr>r_source_replica_expression := e\<rparr>) = state_view r"
    and "state_view (r\<lparr>r_purge_replicas := f\<rparr>) = state_view r"
    and "state_view (r\<lparr>r_eol_at := g\<rparr>) = state_view r"
    by (simp_all add: state_view_def cnt_view_def)
qed

lemma same_ledger_tables:
  assumes "rules db' = rules db" and "locks db' = locks db" and "replicas db' = replicas db"
  shows "same_ledger db db'"
  using assms by (simp add: same_ledger_def rep_views_def)

lemma same_ledger_upd_rule:
  "(\<And>r. state_view (f r) = state_view r) \<Longrightarrow> same_ledger db (upd_rule i f db)"
  by (simp add: same_ledger_def upd_rule_def map_upd_where rep_views_def)

lemma same_ledger_history [simp]: "same_ledger db (insert_rule_history i recent longterm db)"
  by (rule same_ledger_tables) (simp_all add: insert_rule_history_def Let_def)

lemma same_ledger_dataset_locks [simp]: "same_ledger db (set_dataset_locks i s db)"
  by (rule same_ledger_tables) (simp_all add: set_dataset_locks_def)

lemma same_ledger_release [simp]: "same_ledger db (release_parent_rule c e db)"
proof -
  have "same_ledger db (release_one e p db)" for p db
    unfolding release_one_def by (rule same_ledger_trans [OF same_ledger_upd_rule same_ledger_history]) simp
  then show ?thesis unfolding release_parent_rule_def by (rule same_ledger_fold)
qed

lemma add_message_ledger: "add_message env m db = Inr db' \<Longrightarrow> same_ledger db db'"
  by (rule same_ledger_tables) (auto simp: add_message_def rbind_eq_Inr)

lemma notifications_ledger:
  "generate_rule_notifications env i n db = Inr db' \<Longrightarrow> same_ledger db db'"
  by (auto simp: generate_rule_notifications_def rbind_eq_Inr intro: same_ledger_rfold add_message_ledger)

lemma email_ledger:
  "generate_email_for_rule_ok_notification env i db = Inr db' \<Longrightarrow> same_ledger db db'"
  by (auto simp: generate_email_for_rule_ok_notification_def rbind_eq_Inr
      intro: add_message_ledger split: if_splits option.splits)

lemmas frame_ledger = same_ledger_history same_ledger_dataset_locks same_ledger_release
  add_message_ledger notifications_ledger email_ledger

section \<open>Moving a lock\<close>

lemma get_rule_Inr: "get_rule db i = Inr r \<Longrightarrow> r \<in> set (rules db) \<and> r_id r = i"
  by (auto simp: get_rule_def dest: filter_ConsD split: list.splits)

lemma get_rule_exists: "ledger_ok db \<Longrightarrow> l \<in> set (locks db) \<Longrightarrow> \<exists>r. get_rule db (l_rule_id l) = Inr r"
proof -
  assume "ledger_ok db" and "l \<in> set (locks db)"
  then have "l_rule_id l \<in> fst ` set (cnt_views db)" by (simp add: ledger_ok_def)
  then have "filter (\<lambda>r. r_id r = l_rule_id l) (rules db) \<noteq> []"
    by (auto simp: cnt_views_def cnt_view_def filter_empty_conv)
  then show ?thesis by (auto simp: get_rule_def split: list.splits)
qed

lemma cnt_view_add:
  "cnt_view (add_cnt s d r) = (r_id r, \<lambda>s'. lock_cnt_of s' r + (if s' = s then d else 0))"
proof -
  have "r_id (add_cnt s d r) = r_id r" by (cases s) simp_all
  moreover have "lock_cnt_of s' (add_cnt s d r) = lock_cnt_of s' r + (if s' = s then d else 0)" for s'
    by (cases s; cases s') simp_all
  ultimately show ?thesis by (simp add: cnt_view_def)
qed

lemma add_cnt_sel [simp]:
  shows "r_id (add_cnt s d r) = r_id r" and "r_state (add_cnt s d r) = r_state r"
    and "r_grouping (add_cnt s d r) = r_grouping r" and "r_notification (add_cnt s d r) = r_notification r"
    and "r_error (add_cnt s d r) = r_error r" and "r_account (add_cnt s d r) = r_account r"
  by (cases s; simp)+

lemma cnt_of_add: "lock_cnt_of s' (add_cnt s d r) = lock_cnt_of s' r + (if s' = s then d else 0)"
  by (cases s; cases s') simp_all

text \<open>A lock changes its state together with the two counters of its rule.\<close>

definition shift_rule :: "replica_lock \<Rightarrow> lock_state \<Rightarrow> rule \<Rightarrow> rule" where
  "shift_rule l s r = add_cnt s 1 (add_cnt (l_state l) (-1) r)"

definition shift_lock :: "replica_lock \<Rightarrow> lock_state \<Rightarrow> rule \<Rightarrow> rule_db \<Rightarrow> rule_db" where
  "shift_lock l s r db = set_lock_state l s (upd_rule (r_id r) (\<lambda>_. shift_rule l s r) db)"

lemma shift_rule_sel [simp]:
  shows "r_id (shift_rule l s r) = r_id r" and "r_state (shift_rule l s r) = r_state r"
    and "r_grouping (shift_rule l s r) = r_grouping r" and "r_notification (shift_rule l s r) = r_notification r"
    and "r_error (shift_rule l s r) = r_error r"
  by (simp_all add: shift_rule_def)

lemma shift_lock_moved:
  assumes ok: "ledger_ok db" and r: "get_rule db (l_rule_id l) = Inr r" and l: "l \<in> set (locks db)"
  shows "lock_moved l (Some s) db (shift_lock l s r db)"
proof -
  have mem: "r \<in> set (rules db)" and id: "r_id r = l_rule_id l" using get_rule_Inr [OF r] by simp_all
  have one: "x = r" if "x \<in> set (rules db)" and "r_id x = r_id r" for x
    using key_unique [OF ledger_ok_rule_ids [OF ok] that(1) mem that(2)] .
  have "cnt_view (if r_id x = r_id r then shift_rule l s r else x) = move_cnt l (Some s) (cnt_view x)"
    if "x \<in> set (rules db)" for x
    using one [OF that] id
    by (auto simp: shift_rule_def cnt_view_def move_cnt_def cnt_of_add fun_eq_iff)
  then have "cnt_views (shift_lock l s r db) = map (move_cnt l (Some s)) (cnt_views db)"
    by (simp add: cnt_views_def shift_lock_def set_lock_state_def upd_rule_def upd_where_def)
  then show ?thesis
    by (simp add: lock_moved_def move_lock_def shift_lock_def set_lock_state_def upd_rule_def rep_views_def
        rep_view_def move_rep_def)
qed

lemma rule_counts_lock:
  assumes ok: "ledger_ok db" and r: "get_rule db (l_rule_id l) = Inr r" and l: "l \<in> set (locks db)"
  shows "0 \<le> lock_cnt_of s r" and "1 \<le> lock_cnt_of (l_state l) r"
proof -
  have mem: "r \<in> set (rules db)" and id: "r_id r = l_rule_id l" using get_rule_Inr [OF r] by simp_all
  show "0 \<le> lock_cnt_of s r"
    by (simp add: ledger_ok_rule [OF ok mem] lock_total_def)
  have "count_where (\<lambda>k. l_rule_id k = l_rule_id l \<and> l_state k = l_state l) (locks db) \<noteq> 0"
    using l by auto
  then show "1 \<le> lock_cnt_of (l_state l) r"
    by (simp add: ledger_ok_rule [OF ok mem] lock_total_def id del: count_where_0_iff)
qed

text \<open>Changing the state of one rule: coherence is a matter of that rule.\<close>

lemma coherent_shift:
  assumes "coherent db" and "coherent_view (state_view (g (shift_rule l s r)))"
  shows "coherent (upd_rule (r_id r) g (shift_lock l s r db))"
  using assms
  by (auto simp: coherent_def upd_rule_def shift_lock_def set_lock_state_def upd_where_def)

section \<open>Loops over locks\<close>

text \<open>The contract of the body of a \<^verbatim>\<open>for lock in locks\<close> loop that moves every lock it meets to one state,
  or deletes it. \<open>sel\<close> describes the locks that the loop selects, \<open>good\<close> is what else the body may rely on and
  keeps.\<close>

locale lock_mover =
  fixes body :: "replica_lock \<Rightarrow> rule_db \<Rightarrow> rucio_error + rule_db"
    and target :: "lock_state option"
    and sel :: "replica_lock \<Rightarrow> bool"
    and good :: "rule_db \<Rightarrow> bool"
  assumes body_moves:
      "ledger_ok db \<Longrightarrow> good db \<Longrightarrow> l \<in> set (locks db) \<Longrightarrow> sel l \<Longrightarrow> body l db = Inr db' \<Longrightarrow>
       lock_moved l target db db'"
    and body_good:
      "ledger_ok db \<Longrightarrow> good db \<Longrightarrow> l \<in> set (locks db) \<Longrightarrow> sel l \<Longrightarrow> body l db = Inr db' \<Longrightarrow> good db'"
begin

lemma others_stay:
  assumes "set (l # ls) \<subseteq> set ks" and "distinct (map l_key (l # ls))"
  shows "set ls \<subseteq> set (move_lock l target ks)"
proof
  fix k assume k: "k \<in> set ls"
  then have "l_key k \<noteq> l_key l" using assms(2) by (metis distinct.simps(2) imageI list.set_map list.simps(9))
  with k assms(1) show "k \<in> set (move_lock l target ks)" by (auto intro: move_lock_other)
qed

lemma loop:
  assumes "rfold body ls db = Inr db'" and "ledger_ok db" and "good db"
    and "set ls \<subseteq> set (locks db)" and "distinct (map l_key ls)" and "\<forall>l \<in> set ls. sel l"
  shows "ledger_ok db' \<and> good db' \<and> locks db' = fold (\<lambda>l. move_lock l target) ls (locks db)"
  using assms
proof (induction ls arbitrary: db)
  case Nil
  then show ?case by simp
next
  case (Cons l ls)
  from Cons.prems(1) obtain db1 where step: "body l db = Inr db1" and rest: "rfold body ls db1 = Inr db'"
    by auto
  have l: "l \<in> set (locks db)" "sel l" using Cons.prems(4,6) by simp_all
  have moved: "lock_moved l target db db1"
    by (rule body_moves [OF Cons.prems(2,3) l step])
  then have sub: "set ls \<subseteq> set (locks db1)"
    using others_stay [OF Cons.prems(4,5)] by (simp add: lock_moved_def)
  from Cons.IH [OF rest ledger_ok_moved [OF Cons.prems(2) l(1) moved] body_good [OF Cons.prems(2,3) l step] sub]
    Cons.prems(5,6) moved
  show ?case by (simp add: lock_moved_def)
qed

lemma loop_keys:
  assumes "rfold body ls db = Inr db'" and "ledger_ok db" and "good db"
    and "set ls \<subseteq> set (locks db)" and "distinct (map l_key ls)" and "\<forall>l \<in> set ls. sel l"
  shows "map fst (rep_views db') = map fst (rep_views db)"
  using assms
proof (induction ls arbitrary: db)
  case Nil
  then show ?case by simp
next
  case (Cons l ls)
  from Cons.prems(1) obtain db1 where step: "body l db = Inr db1" and rest: "rfold body ls db1 = Inr db'"
    by auto
  have l: "l \<in> set (locks db)" "sel l" using Cons.prems(4,6) by simp_all
  have moved: "lock_moved l target db db1"
    by (rule body_moves [OF Cons.prems(2,3) l step])
  then have sub: "set ls \<subseteq> set (locks db1)" and keys: "map fst (rep_views db1) = map fst (rep_views db)"
    using others_stay [OF Cons.prems(4,5)] by (simp_all add: lock_moved_def comp_def)
  from Cons.IH [OF rest ledger_ok_moved [OF Cons.prems(2) l(1) moved] body_good [OF Cons.prems(2,3) l step] sub]
    Cons.prems(5,6) keys
  show ?case by simp
qed

text \<open>The loop over all locks of one replica.\<close>

lemma loop_replica_keys:
  assumes "rfold body (replica_locks_at db k rse) db = Inr db'" and "ledger_ok db" and "good db"
    and "\<And>l. l_replica l = (k, rse) \<Longrightarrow> sel l"
  shows "map fst (rep_views db') = map fst (rep_views db)"
  by (rule loop_keys [OF assms(1-3)])
    (use ledger_ok_lock_keys [OF assms(2)] assms(4) in \<open>auto simp: replica_locks_at_def intro: distinct_map_filter_key\<close>)

lemma loop_replica:
  assumes "rfold body (replica_locks_at db k rse) db = Inr db'" and "ledger_ok db" and "good db"
    and "\<And>l. l_replica l = (k, rse) \<Longrightarrow> sel l"
  shows "ledger_ok db' \<and> good db' \<and>
    locks db' = fold (\<lambda>l. move_lock l target) (replica_locks_at db k rse) (locks db)"
  by (rule loop [OF assms(1-3)])
    (use ledger_ok_lock_keys [OF assms(2)] assms(4) in \<open>auto simp: replica_locks_at_def intro: distinct_map_filter_key\<close>)

end

text \<open>A body that never raises on a consistent state: the loop returns.\<close>

locale lock_mover_total = lock_mover +
  assumes body_returns:
    "ledger_ok db \<Longrightarrow> good db \<Longrightarrow> l \<in> set (locks db) \<Longrightarrow> sel l \<Longrightarrow> \<exists>db'. body l db = Inr db'"
begin

lemma loop_returns:
  assumes "ledger_ok db" and "good db" and "set ls \<subseteq> set (locks db)" and "distinct (map l_key ls)"
    and "\<forall>l \<in> set ls. sel l"
  shows "\<exists>db'. rfold body ls db = Inr db'"
  using assms
proof (induction ls arbitrary: db)
  case Nil
  then show ?case by simp
next
  case (Cons l ls)
  have l: "l \<in> set (locks db)" "sel l" using Cons.prems(3,5) by simp_all
  from body_returns [OF Cons.prems(1,2) l] obtain db1 where step: "body l db = Inr db1" by blast
  have one: "rfold body [l] db = Inr db1" by (simp add: step)
  have "ledger_ok db1 \<and> good db1 \<and> locks db1 = move_lock l target (locks db)"
    using loop [OF one Cons.prems(1,2)] l by simp
  with others_stay [OF Cons.prems(3,4)] show ?case
    using Cons.IH [of db1] Cons.prems(4,5) by (simp add: step)
qed

end

section \<open>A small catalogue\<close>

text \<open>Rule \<open>R\<close> of alice asks for one copy of dataset \<open>D\<close> (files \<open>f\<close> and \<open>g\<close>) at \<open>A\<close>; both transfers are under
  way.\<close>

definition demo_rule :: "string \<Rightarrow> rule_state \<Rightarrow> int \<Rightarrow> int \<Rightarrow> int \<Rightarrow> rule" where
  "demo_rule i st ok rep stuck = \<lparr>r_id = i, r_subscription_id = None, r_account = ''alice'', r_scope = atlas,
     r_name = ''D'', r_did_type = DATASET, r_state = st, r_error = None, r_rse_expression = ''A'', r_copies = 1,
     r_expires_at = None, r_weight = None, r_locked = False, r_locks_ok_cnt = ok, r_locks_replicating_cnt = rep,
     r_locks_stuck_cnt = stuck, r_source_replica_expression = None, r_activity = None, r_grouping = GroupDATASET,
     r_notification = NotifyYES, r_stuck_at = None, r_purge_replicas = False, r_ignore_availability = False,
     r_ignore_account_limit = False, r_priority = Some 3, r_comments = None, r_child_rule_id = None, r_eol_at = None,
     r_split_container = False, r_meta = None, r_created_at = 1\<rparr>"

definition demo_lock :: "string \<Rightarrow> string \<Rightarrow> lock_state \<Rightarrow> replica_lock" where
  "demo_lock i f s = \<lparr>l_scope = atlas, l_name = f, l_rule_id = i, l_rse_id = ''A'', l_account = ''alice'',
     l_bytes = Some 3, l_state = s, l_created_at = 1\<rparr>"

definition demo_replica :: "string \<Rightarrow> int \<Rightarrow> replica" where
  "demo_replica f n = \<lparr>p_scope = atlas, p_name = f, p_rse_id = ''A'', p_bytes = 3, p_md5 = None, p_adler32 = None,
     p_state = COPYING, p_lock_cnt = n, p_accessed_at = None, p_tombstone = None, p_created_at = 1, p_path = None\<rparr>"

definition demo_rule_db :: "rule list \<Rightarrow> replica_lock list \<Rightarrow> replica list \<Rightarrow> rule_db" where
  "demo_rule_db rs ls ps = \<lparr>
     dids = [\<lparr>d_scope = atlas, d_name = ''D'', d_type = DATASET, d_open = Some False, d_length = Some 2,
              d_bytes = Some 6, d_events = None, d_lost = False, d_md5 = None, d_adler32 = None, d_created_at = 1,
              d_account = (''root'', ''def''), d_monotonic = False, d_expired_at = None, d_is_new = None, d_guid = None, d_is_archive = None,
              d_constituent = None, d_purge_replicas = True, d_closed_at = None, d_accessed_at = None, d_access_cnt = None\<rparr>,
             \<lparr>d_scope = atlas, d_name = ''f'', d_type = FILE, d_open = None, d_length = None,
              d_bytes = Some 3, d_events = None, d_lost = False, d_md5 = None, d_adler32 = None, d_created_at = 1,
              d_account = (''root'', ''def''), d_monotonic = False, d_expired_at = None, d_is_new = None, d_guid = None, d_is_archive = None,
              d_constituent = None, d_purge_replicas = True, d_closed_at = None, d_accessed_at = None, d_access_cnt = None\<rparr>],
     contents = [content ''D'' DATASET ''f'' FILE (Some 3), content ''D'' DATASET ''g'' FILE (Some 3)],
     archive_contents = [], deleted_dids = [], dids_followed = [], contents_history = [], updated_dids = [], messages = [], requests = [], requests_history = [], sources = [],
     transfer_hops = [], uuid_count = 0, rules = rs, locks = ls, dataset_locks = [], replicas = ps,
     updated_col_rep = [], rules_hist_recent = [], rules_history = [], bad_replicas = [],
     account_counters = \<lparr>account_usages = [], updated_account_counters = [], account_usage_history = []\<rparr>\<rparr>"

definition two_files :: rule_db where
  "two_files = demo_rule_db [demo_rule ''R'' RuleREPLICATING 1 1 0]
     [demo_lock ''R'' ''f'' LockREPLICATING, demo_lock ''R'' ''g'' LockOK] [demo_replica ''f'' 1, demo_replica ''g'' 1]"

definition demo_rule_env :: rule_env where
  "demo_rule_env = \<lparr>services = [''activemq'', ''email''], now = 10, preparer_enabled = False,
     uuid = (\<lambda>n. replicate n (CHR ''u'')), known_rse = (\<lambda>_. True), name_of_rse = (\<lambda>r. r), registry = empty_rse_db,
     attr_region = no_cache, ok_mail = (\<lambda>r. Some (''alice'', ''done'', r_id r))\<rparr>"

lemmas demo_defs = two_files_def demo_rule_db_def demo_rule_def demo_lock_def demo_replica_def

lemma two_files_ok: "ledger_ok two_files" "coherent two_files"
proof -
  have keys: "distinct (map fst (cnt_views two_files)) \<and> distinct (map l_key (locks two_files)) \<and>
      distinct (map fst (rep_views two_files)) \<and>
      (\<forall>l \<in> set (locks two_files). l_rule_id l \<in> fst ` set (cnt_views two_files))"
    by (simp add: cnt_views_def rep_views_def demo_defs cnt_view_def rep_view_def p_key_def l_key_def l_did_def)
  have cnt: "\<forall>(i, c) \<in> set (cnt_views two_files). \<forall>s. c s = lock_total (locks two_files) i s"
  proof -
    have "lock_cnt_of s (demo_rule ''R'' RuleREPLICATING 1 1 0) = lock_total (locks two_files) ''R'' s" for s
      by (cases s) (simp_all add: lock_total_def demo_defs)
    then show ?thesis by (simp add: cnt_views_def two_files_def demo_rule_db_def cnt_view_def) (simp add: demo_rule_def)
  qed
  have "\<forall>(k, n) \<in> set (rep_views two_files). n = replica_total (locks two_files) k"
    by (simp add: rep_views_def demo_defs rep_view_def replica_total_def p_key_def l_replica_def l_did_def)
  with keys cnt show "ledger_ok two_files" unfolding ledger_ok_def by blast
  show "coherent two_files"
    by (simp add: coherent_def demo_defs coherent_view_def state_view_def cnt_view_def)
qed

end
