(* ===== verification/Locks.thy ===== *)
theory Locks
  imports Rule_State
begin

text \<open>
  The effect of transfers on locks (\<^verbatim>\<open>core/lock.py\<close>): \<^verbatim>\<open>successful_transfer\<close> and \<^verbatim>\<open>failed_transfer\<close> move
  every lock of one replica to \<^verbatim>\<open>OK\<close> or \<^verbatim>\<open>STUCK\<close>, with the counters and the state of the rules the locks
  belong to, the dataset locks, the notifications and the history.

  Both loops are interpretations of \<open>lock_mover\<close>, so the counters stay exact and the rule states stay
  coherent with them.
\<close>

section \<open>Queries\<close>

definition get_dataset_locks :: "rule_env \<Rightarrow> rule_db \<Rightarrow> did \<Rightarrow> (dataset_lock \<times> string) list" where
  "get_dataset_locks env db k =
     map (\<lambda>l. (l, name_of_rse env (dl_rse_id l))) (filter (\<lambda>l. (dl_scope l, dl_name l) = k) (dataset_locks db))"

definition get_dataset_locks_by_rse_id :: "rule_env \<Rightarrow> rule_db \<Rightarrow> string \<Rightarrow> (dataset_lock \<times> string) list" where
  "get_dataset_locks_by_rse_id env db rse =
     map (\<lambda>l. (l, name_of_rse env (dl_rse_id l))) (filter (\<lambda>l. dl_rse_id l = rse) (dataset_locks db))"

text \<open>The generator yields up to the first error; its result is the list of all it yields.\<close>

fun get_dataset_locks_bulk ::
  "rule_env \<Rightarrow> rule_db \<Rightarrow> (did \<times> did_type option) list \<Rightarrow> rucio_error + (dataset_lock \<times> string) list" where
  "get_dataset_locks_bulk env db [] = Inr []"
| "get_dataset_locks_bulk env db ((k, t) # ks) =
     (case (case t of Some t' \<Rightarrow> Inr t' | None \<Rightarrow> rbind (get_did_row db k) (\<lambda>d. Inr (d_type d))) of
        Inl _ \<Rightarrow> get_dataset_locks_bulk env db ks
      | Inr t' \<Rightarrow>
          (if t' = DATASET then
             rbind (get_dataset_locks_bulk env db ks) (\<lambda>ls. Inr (get_dataset_locks env db k @ ls))
           else if t' = CONTAINER then
             rbind (get_dataset_locks_bulk env db ks)
               (\<lambda>ls. Inr (concat (map (get_dataset_locks env db) (list_child_datasets db k)) @ ls))
           else Inl ValueError))"

text \<open>An empty list of RSEs adds no clause.\<close>

definition rse_clause :: "string list option \<Rightarrow> replica_lock \<Rightarrow> bool" where
  "rse_clause restrict l = (case restrict of None \<Rightarrow> True | Some rs \<Rightarrow> rs = [] \<or> l_rse_id l \<in> set rs)"

definition get_replica_locks :: "rule_db \<Rightarrow> did \<Rightarrow> string list option \<Rightarrow> replica_lock list" where
  "get_replica_locks db k restrict = filter (\<lambda>l. l_did l = k \<and> rse_clause restrict l) (locks db)"

definition get_replica_locks_for_rule_id :: "rule_env \<Rightarrow> rule_db \<Rightarrow> string \<Rightarrow> (replica_lock \<times> string) list" where
  "get_replica_locks_for_rule_id env db i =
     map (\<lambda>l. (l, name_of_rse env (l_rse_id l))) (filter (\<lambda>l. l_rule_id l = i) (locks db))"

definition get_replica_locks_for_rule_id_per_rse :: "rule_env \<Rightarrow> rule_db \<Rightarrow> string \<Rightarrow> (string \<times> string) list" where
  "get_replica_locks_for_rule_id_per_rse env db i =
     map (\<lambda>rse. (rse, name_of_rse env rse)) (remdups (map l_rse_id (filter (\<lambda>l. l_rule_id l = i) (locks db))))"

text \<open>The files of a dataset with their locks. PostgreSQL reads the files first and joins the locks, the
  other databases use one outer join; \<open>mine\<close> is \<^verbatim>\<open>filter_thread_work\<close> on the name of the file. A null
  lock is the only row of its file.\<close>

definition dataset_files :: "rule_db \<Rightarrow> did \<Rightarrow> (string \<Rightarrow> bool) \<Rightarrow> did list" where
  "dataset_files db k mine = filter (\<lambda>c. mine (snd c)) (map c_child (filter (\<lambda>c. c_parent c = k) (contents db)))"

definition inner_join ::
  "rule_db \<Rightarrow> string list option \<Rightarrow> did list \<Rightarrow> (did \<times> replica_lock option) list" where
  "inner_join db restrict files = [(c, Some l). c \<leftarrow> files, l \<leftarrow> get_replica_locks db c restrict]"

definition outer_join ::
  "rule_db \<Rightarrow> string list option \<Rightarrow> did list \<Rightarrow> (did \<times> replica_lock option) list" where
  "outer_join db restrict files =
     [(c, x). c \<leftarrow> files,
        x \<leftarrow> (case get_replica_locks db c restrict of [] \<Rightarrow> [None] | l # ls \<Rightarrow> map Some (l # ls))]"

definition add_lock_row ::
  "did \<times> replica_lock option \<Rightarrow> (did \<rightharpoonup> replica_lock list) \<Rightarrow> (did \<rightharpoonup> replica_lock list)" where
  "add_lock_row row m =
     (let new = (case snd row of None \<Rightarrow> [] | Some l \<Rightarrow> [l])
      in m(fst row \<mapsto> (case m (fst row) of None \<Rightarrow> new | Some ls \<Rightarrow> ls @ new)))"

definition get_files_and_replica_locks_of_dataset ::
  "bool \<Rightarrow> rule_db \<Rightarrow> did \<Rightarrow> string list option \<Rightarrow> bool \<Rightarrow> (string \<Rightarrow> bool) \<Rightarrow> (did \<rightharpoonup> replica_lock list)" where
  "get_files_and_replica_locks_of_dataset postgresql db k restrict only_stuck mine =
     (let files = dataset_files db k mine;
          start = (if postgresql then map_of (map (\<lambda>c. (c, [])) files) else Map.empty);
          rows = (if postgresql then inner_join db restrict files else outer_join db restrict files);
          rows' = (if only_stuck then filter (\<lambda>(c, x). map_option l_state x = Some LockSTUCK) rows else rows)
      in fold add_lock_row rows' start)"

text \<open>\<open>eol\<close> is \<^verbatim>\<open>define_eol\<close>, which asks the policy package of the experiment.\<close>

definition touch_dataset_locks ::
  "rule_env \<Rightarrow> (did \<Rightarrow> string \<Rightarrow> int option) \<Rightarrow> (did \<times> string \<times> int option) list \<Rightarrow> rule_db \<Rightarrow> rule_db" where
  "touch_dataset_locks env eol ds db =
     fold (\<lambda>(k, rse, accessed_at) db.
       let hit = (\<lambda>l. (dl_scope l, dl_name l) = k \<and> dl_rse_id l = rse);
           db1 = db\<lparr>dataset_locks := upd_where hit
             (\<lambda>l. l\<lparr>dl_accessed_at := Some (case accessed_at of Some t \<Rightarrow> t | None \<Rightarrow> now env)\<rparr>) (dataset_locks db)\<rparr>;
           ids = map dl_rule_id (filter hit (dataset_locks db1))
       in db1\<lparr>rules := upd_where (\<lambda>r. r_id r \<in> set ids) (\<lambda>r. r\<lparr>r_eol_at := eol k rse\<rparr>) (rules db1)\<rparr>) ds db"

section \<open>Successful transfers\<close>

definition touch_collections :: "rule \<Rightarrow> string \<Rightarrow> rule_db \<Rightarrow> rule_db" where
  "touch_collections r rse db = db\<lparr>updated_col_rep := updated_col_rep db @
     (if r_did_type r = DATASET then [(r_did r, DATASET, Some rse)]
      else if r_did_type r = CONTAINER then map (\<lambda>d. (d, DATASET, Some rse)) (list_child_datasets db (r_did r))
      else [])\<rparr>"

definition rule_becomes_ok :: "rule_env \<Rightarrow> rule \<Rightarrow> rule_db \<Rightarrow> rucio_error + rule_db" where
  "rule_becomes_ok env r db =
     (let db1 = upd_rule (r_id r) (\<lambda>x. x\<lparr>r_state := RuleOK\<rparr>) db;
          db2 = (if r_grouping r \<noteq> GroupNONE then set_dataset_locks (r_id r) LockOK db1 else db1)
      in rbind (generate_rule_notifications env (r_id r) (Some (r_locks_replicating_cnt r + 1)) db2)
        (\<lambda>db3. rbind (if r_notification r = NotifyYES
                        then generate_email_for_rule_ok_notification env (r_id r) db3 else Inr db3)
          (\<lambda>db4. Inr (release_parent_rule (r_id r) False db4))))"

definition ok_rule_state :: "rule_env \<Rightarrow> rule \<Rightarrow> rule_db \<Rightarrow> rucio_error + rule_db" where
  "ok_rule_state env r db =
     (if r_state r = RuleSUSPENDED then Inr db
      else if 0 < r_locks_stuck_cnt r then Inr db
      else if r_locks_replicating_cnt r = 0 \<and> r_state r = RuleREPLICATING then rule_becomes_ok env r db
      else if 0 < r_locks_replicating_cnt r \<and> r_state r = RuleREPLICATING \<and> r_notification r = NotifyPROGRESS
      then generate_rule_notifications env (r_id r) (Some (r_locks_replicating_cnt r + 1)) db
      else Inr db)"

definition ok_body :: "rule_env \<Rightarrow> string \<Rightarrow> replica_lock \<Rightarrow> rule_db \<Rightarrow> rucio_error + rule_db" where
  "ok_body env rse l db =
     (if l_state l = LockOK then Inr db
      else rbind (get_rule db (l_rule_id l)) (\<lambda>r.
        let r1 = shift_rule l LockOK r;
            db1 = touch_collections r1 rse (shift_lock l LockOK r db)
        in rbind (ok_rule_state env r1 db1) (\<lambda>db2. Inr (insert_rule_history (r_id r) True False db2))))"

definition successful_transfer :: "rule_env \<Rightarrow> did \<Rightarrow> string \<Rightarrow> rule_db \<Rightarrow> rucio_error + rule_db" where
  "successful_transfer env k rse db = rfold (ok_body env rse) (replica_locks_at db k rse) db"

section \<open>Failed transfers\<close>

text \<open>\<^verbatim>\<open>message[:245] + '...'\<close> for a longer message.\<close>

definition clip_message :: "string option \<Rightarrow> string option" where
  "clip_message m = map_option (\<lambda>s. if 245 < length s then take 245 s @ ''...'' else s) m"

definition stuck_dataset_locks :: "rule \<Rightarrow> rule_db \<Rightarrow> rule_db" where
  "stuck_dataset_locks r db = (if r_grouping r \<noteq> GroupNONE then set_dataset_locks (r_id r) LockSTUCK db else db)"

definition failed_rule_state ::
  "string option \<Rightarrow> string option \<Rightarrow> string option \<Rightarrow> rule \<Rightarrow> rule_db \<Rightarrow> rule_db" where
  "failed_rule_state error_message broken_rule_id broken_message r db =
     (if r_state r = RuleSUSPENDED then db
      else if Some (r_id r) = broken_rule_id then
        stuck_dataset_locks r
          (upd_rule (r_id r) (\<lambda>x. x\<lparr>r_state := RuleSUSPENDED, r_error := clip_message broken_message\<rparr>) db)
      else if 0 < r_locks_stuck_cnt r then
        (let db1 = (if r_state r \<noteq> RuleSTUCK
                    then stuck_dataset_locks r (upd_rule (r_id r) (\<lambda>x. x\<lparr>r_state := RuleSTUCK\<rparr>) db) else db)
         in if r_error r \<noteq> error_message
            then upd_rule (r_id r) (\<lambda>x. x\<lparr>r_error := clip_message error_message\<rparr>) db1 else db1)
      else db)"

definition failed_body ::
  "string option \<Rightarrow> string option \<Rightarrow> string option \<Rightarrow> replica_lock \<Rightarrow> rule_db \<Rightarrow> rucio_error + rule_db" where
  "failed_body error_message broken_rule_id broken_message l db =
     (if l_state l = LockSTUCK then Inr db
      else rbind (get_rule db (l_rule_id l)) (\<lambda>r.
        let r1 = shift_rule l LockSTUCK r;
            db1 = shift_lock l LockSTUCK r db
        in Inr (insert_rule_history (r_id r) True False
             (failed_rule_state error_message broken_rule_id broken_message r1 db1))))"

definition staging_required :: "rule_env \<Rightarrow> string \<Rightarrow> bool" where
  "staging_required env rse =
     (case get_rse_attribute (attr_region env) (registry env) rse ''staging_required'' of
        None \<Rightarrow> False | Some v \<Rightarrow> truthy v)"

definition failed_locks :: "rule_env \<Rightarrow> rule_db \<Rightarrow> did \<Rightarrow> string \<Rightarrow> replica_lock list" where
  "failed_locks env db k rse =
     (if staging_required env rse then filter (\<lambda>l. l_state l = LockREPLICATING) (replica_locks_at db k rse)
      else replica_locks_at db k rse)"

definition failed_transfer ::
  "rule_env \<Rightarrow> did \<Rightarrow> string \<Rightarrow> string option \<Rightarrow> string option \<Rightarrow> string option \<Rightarrow> rule_db
     \<Rightarrow> rucio_error + rule_db" where
  "failed_transfer env k rse error_message broken_rule_id broken_message db =
     rfold (failed_body error_message broken_rule_id broken_message) (failed_locks env db k rse) db"

section \<open>The loops keep the ledger\<close>

lemma move_lock_id:
  assumes "distinct (map l_key ls)" and "l \<in> set ls"
  shows "move_lock l (Some (l_state l)) ls = ls"
proof -
  have "(if l_key k = l_key l then k\<lparr>l_state := l_state l\<rparr> else k) = k" if "k \<in> set ls" for k
    using key_unique [OF assms(1) that assms(2)] by auto
  then show ?thesis by (simp add: move_lock_def upd_where_def map_idI)
qed

lemma lock_moved_id:
  assumes "ledger_ok db" and "l \<in> set (locks db)"
  shows "lock_moved l (Some (l_state l)) db db"
  using move_lock_id [OF ledger_ok_lock_keys [OF assms(1)] assms(2)]
  by (auto simp: lock_moved_def move_cnt_def move_rep_def fun_eq_iff
      intro!: map_idI [symmetric])

lemma touch_collections_ledger [simp]: "same_ledger db (touch_collections r rse db)"
  by (rule same_ledger_tables) (simp_all add: touch_collections_def)

lemma state_view_state: "state_view (r\<lparr>r_state := s\<rparr>) = (cnt_view r, s)"
proof -
  have "lock_cnt_of t (r\<lparr>r_state := s\<rparr>) = lock_cnt_of t r" for t by (cases t) simp_all
  then show ?thesis by (simp add: state_view_def cnt_view_def)
qed

lemma lock_moved_upd_state:
  "lock_moved l t a b \<Longrightarrow> lock_moved l t a (upd_rule i (\<lambda>x. x\<lparr>r_state := s\<rparr>) b)"
proof -
  assume "lock_moved l t a b"
  moreover have "cnt_views (upd_rule i (\<lambda>x. x\<lparr>r_state := s\<rparr>) b) = cnt_views b"
    using state_view_state by (simp add: cnt_views_def upd_rule_def state_view_def map_upd_where)
  ultimately show ?thesis by (simp add: lock_moved_def upd_rule_def rep_views_def)
qed

lemma rule_becomes_ok_ledger:
  assumes "rule_becomes_ok env r db = Inr db'"
  shows "same_ledger (upd_rule (r_id r) (\<lambda>x. x\<lparr>r_state := RuleOK\<rparr>) db) db'"
proof -
  let ?db1 = "upd_rule (r_id r) (\<lambda>x. x\<lparr>r_state := RuleOK\<rparr>) db"
  let ?db2 = "if r_grouping r \<noteq> GroupNONE then set_dataset_locks (r_id r) LockOK ?db1 else ?db1"
  from assms obtain db3 db4 where
    n: "generate_rule_notifications env (r_id r) (Some (r_locks_replicating_cnt r + 1)) ?db2 = Inr db3"
    and m: "(if r_notification r = NotifyYES
        then generate_email_for_rule_ok_notification env (r_id r) db3 else Inr db3) = Inr db4"
    and db': "db' = release_parent_rule (r_id r) False db4"
    by (auto simp: rule_becomes_ok_def Let_def rbind_eq_Inr)
  have "same_ledger ?db1 ?db2" by simp
  also have "same_ledger ?db2 db3" by (rule notifications_ledger [OF n])
  also have "same_ledger db3 db4" using m by (auto dest: email_ledger split: if_splits)
  also have "same_ledger db4 db'" by (simp add: db')
  finally show ?thesis .
qed

definition becomes_ok :: "rule \<Rightarrow> bool" where
  "becomes_ok r \<longleftrightarrow>
     r_state r = RuleREPLICATING \<and> \<not> 0 < r_locks_stuck_cnt r \<and> r_locks_replicating_cnt r = 0"

lemma ok_rule_state_ledger:
  assumes "ok_rule_state env r db = Inr db'"
  shows "same_ledger (if becomes_ok r then upd_rule (r_id r) (\<lambda>x. x\<lparr>r_state := RuleOK\<rparr>) db else db) db'"
  using assms
  by (auto simp: ok_rule_state_def becomes_ok_def dest: rule_becomes_ok_ledger notifications_ledger
      split: if_splits)

text \<open>The body of the loop, up to what does not touch the ledger.\<close>

lemma ok_body_ledger:
  assumes "ok_body env rse l db = Inr db'" and "l_state l \<noteq> LockOK"
  obtains r where "get_rule db (l_rule_id l) = Inr r"
    and "same_ledger (upd_rule (r_id r)
      (\<lambda>x. if becomes_ok (shift_rule l LockOK r) then x\<lparr>r_state := RuleOK\<rparr> else x) (shift_lock l LockOK r db)) db'"
proof -
  from assms obtain r db2 where r: "get_rule db (l_rule_id l) = Inr r"
    and s: "ok_rule_state env (shift_rule l LockOK r)
      (touch_collections (shift_rule l LockOK r) rse (shift_lock l LockOK r db)) = Inr db2"
    and db': "db' = insert_rule_history (r_id r) True False db2"
    by (auto simp: ok_body_def Let_def rbind_eq_Inr)
  let ?sh = "shift_lock l LockOK r db" and ?r1 = "shift_rule l LockOK r"
  let ?t = "touch_collections ?r1 rse ?sh" and ?g = "\<lambda>x. x\<lparr>r_state := RuleOK\<rparr>"
  have tables: "rules ?t = rules ?sh" "locks ?t = locks ?sh" "replicas ?t = replicas ?sh"
    by (simp_all add: touch_collections_def)
  have "same_ledger (upd_rule (r_id r) (\<lambda>x. if becomes_ok ?r1 then ?g x else x) ?sh)
      (if becomes_ok ?r1 then upd_rule (r_id r) ?g ?t else ?t)"
    by (cases "becomes_ok ?r1"; rule same_ledger_tables) (simp_all add: upd_rule_def tables upd_where_def)
  also have "same_ledger (if becomes_ok ?r1 then upd_rule (r_id r) ?g ?t else ?t) db2"
    using ok_rule_state_ledger [OF s] by (simp only: shift_rule_sel)
  also have "same_ledger db2 db'" by (simp add: db')
  finally show thesis using r that by blast
qed

lemma lock_moved_upd_cond:
  "lock_moved l t a b \<Longrightarrow> lock_moved l t a (upd_rule i (\<lambda>x. if c then x\<lparr>r_state := s\<rparr> else x) b)"
  using lock_moved_upd_state [of l t a b i s]
  by (cases c) (simp_all add: lock_moved_def upd_rule_def upd_where_def cnt_views_def rep_views_def)

lemma ok_body_moves:
  assumes ok: "ledger_ok db" and l: "l \<in> set (locks db)" and run: "ok_body env rse l db = Inr db'"
  shows "lock_moved l (Some LockOK) db db'"
proof (cases "l_state l = LockOK")
  case True
  then show ?thesis using run lock_moved_id [OF ok l] by (simp add: ok_body_def)
next
  case False
  with run obtain r where r: "get_rule db (l_rule_id l) = Inr r"
    and s: "same_ledger (upd_rule (r_id r)
      (\<lambda>x. if becomes_ok (shift_rule l LockOK r) then x\<lparr>r_state := RuleOK\<rparr> else x) (shift_lock l LockOK r db)) db'"
    by (rule ok_body_ledger)
  show ?thesis
    by (rule lock_moved_trans_same [OF lock_moved_upd_cond [OF shift_lock_moved [OF ok r l]] s])
qed

lemma ok_body_coherent:
  assumes ok: "ledger_ok db" and co: "coherent db" and l: "l \<in> set (locks db)"
    and run: "ok_body env rse l db = Inr db'"
  shows "coherent db'"
proof (cases "l_state l = LockOK")
  case True
  then show ?thesis using run co by (simp add: ok_body_def)
next
  case False
  with run obtain r where r: "get_rule db (l_rule_id l) = Inr r"
    and s: "same_ledger (upd_rule (r_id r)
      (\<lambda>x. if becomes_ok (shift_rule l LockOK r) then x\<lparr>r_state := RuleOK\<rparr> else x) (shift_lock l LockOK r db)) db'"
    by (rule ok_body_ledger)
  have "coherent_view (state_view r)" using co get_rule_Inr [OF r] by (simp add: coherent_def)
  moreover note rule_counts_lock [OF ok r l]
  ultimately have new: "coherent_view (state_view
      ((\<lambda>x. if becomes_ok (shift_rule l LockOK r) then x\<lparr>r_state := RuleOK\<rparr> else x) (shift_rule l LockOK r)))"
    using False
    by (cases "l_state l"; cases "r_state r")
      (auto simp: coherent_view_def Let_def state_view_state becomes_ok_def,
       auto simp: state_view_def cnt_view_def shift_rule_def cnt_of_add)
  show ?thesis
    unfolding same_ledger_coherent [OF s] by (rule coherent_shift [OF co]) (use new in simp)
qed

interpretation ok_mover: lock_mover "ok_body env rse" "Some LockOK" "\<lambda>_. True" coherent
  by unfold_locales (simp_all add: ok_body_moves ok_body_coherent)

text \<open>The state that a failure gives a rule \<open>r\<close> that was in state \<open>s\<close>.\<close>

definition failed_state :: "string option \<Rightarrow> rule \<Rightarrow> rule_state \<Rightarrow> rule_state" where
  "failed_state broken_rule_id r s =
     (if r_state r = RuleSUSPENDED then s
      else if Some (r_id r) = broken_rule_id then RuleSUSPENDED
      else if 0 < r_locks_stuck_cnt r \<and> r_state r \<noteq> RuleSTUCK then RuleSTUCK
      else s)"

lemma failed_rule_state_tables:
  shows "locks (failed_rule_state em bi bm r db) = locks db"
    and "replicas (failed_rule_state em bi bm r db) = replicas db"
    and "map state_view (rules (failed_rule_state em bi bm r db)) =
      map (\<lambda>x. (cnt_view x, if r_id x = r_id r then failed_state bi r (r_state x) else r_state x)) (rules db)"
proof -
  have sv: "state_view x = (cnt_view x, r_state x)" for x by (simp add: state_view_def)
  have cv: "cnt_view (x\<lparr>r_error := e\<rparr>) = cnt_view x" for x e
    using state_view_upd(3) [where r = x and c = e] by (simp add: state_view_def)
  have cs: "cnt_view (x\<lparr>r_state := s\<rparr>) = cnt_view x" for x s
    using state_view_state [where r = x and s = s] by (simp add: state_view_def)
  note defs = failed_rule_state_def Let_def stuck_dataset_locks_def set_dataset_locks_def upd_rule_def
  show "locks (failed_rule_state em bi bm r db) = locks db"
    and "replicas (failed_rule_state em bi bm r db) = replicas db"
    by (simp_all add: defs)
  show "map state_view (rules (failed_rule_state em bi bm r db)) =
      map (\<lambda>x. (cnt_view x, if r_id x = r_id r then failed_state bi r (r_state x) else r_state x)) (rules db)"
    by (auto simp: defs failed_state_def upd_where_def sv cv cs)
qed

lemma failed_body_tables:
  assumes "failed_body em bi bm l db = Inr db'" and "l_state l \<noteq> LockSTUCK"
  obtains r where "get_rule db (l_rule_id l) = Inr r"
    and "locks db' = locks (shift_lock l LockSTUCK r db)"
    and "rep_views db' = rep_views (shift_lock l LockSTUCK r db)"
    and "map state_view (rules db') = map (\<lambda>x. (cnt_view x, if r_id x = r_id r
      then failed_state bi (shift_rule l LockSTUCK r) (r_state x) else r_state x)) (rules (shift_lock l LockSTUCK r db))"
proof -
  from assms obtain r where r: "get_rule db (l_rule_id l) = Inr r"
    and db': "db' = insert_rule_history (r_id r) True False
      (failed_rule_state em bi bm (shift_rule l LockSTUCK r) (shift_lock l LockSTUCK r db))"
    by (auto simp: failed_body_def Let_def rbind_eq_Inr)
  let ?f = "failed_rule_state em bi bm (shift_rule l LockSTUCK r) (shift_lock l LockSTUCK r db)"
  have "locks db' = locks ?f" "rep_views db' = rep_views ?f" "rules db' = rules ?f"
    by (simp_all add: db' insert_rule_history_def Let_def rep_views_def)
  then show thesis
    by (intro that [OF r]) (simp_all only: failed_rule_state_tables shift_rule_sel rep_views_def)
qed

lemma failed_body_moves:
  assumes ok: "ledger_ok db" and l: "l \<in> set (locks db)" and run: "failed_body em bi bm l db = Inr db'"
  shows "lock_moved l (Some LockSTUCK) db db'"
proof (cases "l_state l = LockSTUCK")
  case True
  then show ?thesis using run lock_moved_id [OF ok l] by (simp add: failed_body_def)
next
  case False
  with run obtain r where r: "get_rule db (l_rule_id l) = Inr r"
    and tables: "locks db' = locks (shift_lock l LockSTUCK r db)"
      "rep_views db' = rep_views (shift_lock l LockSTUCK r db)"
    and views: "map state_view (rules db') = map (\<lambda>x. (cnt_view x, if r_id x = r_id r
      then failed_state bi (shift_rule l LockSTUCK r) (r_state x) else r_state x)) (rules (shift_lock l LockSTUCK r db))"
    by (rule failed_body_tables)
  from arg_cong [OF views, of "map fst"] have "cnt_views db' = cnt_views (shift_lock l LockSTUCK r db)"
    by (simp add: cnt_views_def state_view_def comp_def)
  with tables shift_lock_moved [OF ok r l, of LockSTUCK] show ?thesis
    by (simp add: lock_moved_def)
qed

lemma failed_body_coherent:
  assumes ok: "ledger_ok db" and co: "coherent db" and l: "l \<in> set (locks db)"
    and run: "failed_body em bi bm l db = Inr db'"
  shows "coherent db'"
proof (cases "l_state l = LockSTUCK")
  case True
  then show ?thesis using run co by (simp add: failed_body_def)
next
  case False
  with run obtain r where r: "get_rule db (l_rule_id l) = Inr r"
    and views: "map state_view (rules db') = map (\<lambda>x. (cnt_view x, if r_id x = r_id r
      then failed_state bi (shift_rule l LockSTUCK r) (r_state x) else r_state x)) (rules (shift_lock l LockSTUCK r db))"
    by (rule failed_body_tables)
  let ?r1 = "shift_rule l LockSTUCK r"
  have "0 < lock_cnt_of LockSTUCK ?r1"
    using rule_counts_lock(1) [OF ok r l, of LockSTUCK] False
    by (cases "l_state l") (simp_all add: shift_rule_def)
  then have new: "failed_state bi ?r1 (r_state ?r1) \<in> {RuleSUSPENDED, RuleSTUCK}"
    by (auto simp: failed_state_def)
  have "coherent_view (cnt_view x, if r_id x = r_id r then failed_state bi ?r1 (r_state x) else r_state x)"
    if "x \<in> set (rules (shift_lock l LockSTUCK r db))" for x
  proof -
    from that consider "x = ?r1" | "x \<in> set (rules db)" and "r_id x \<noteq> r_id r"
      by (auto simp: shift_lock_def set_lock_state_def upd_rule_def elim: mem_upd_whereE)
    then show ?thesis
      using new co by cases (auto simp: coherent_view_def coherent_def state_view_def Let_def)
  qed
  then show ?thesis unfolding coherent_alt views by (simp add: shift_lock_def)
qed

lemma failed_body_returns:
  "ledger_ok db \<Longrightarrow> l \<in> set (locks db) \<Longrightarrow> \<exists>db'. failed_body em bi bm l db = Inr db'"
  using get_rule_exists [of db l] by (auto simp: failed_body_def Let_def)

interpretation failed_mover: lock_mover_total "failed_body em bi bm" "Some LockSTUCK" "\<lambda>_. True" coherent
  by unfold_locales (simp_all add: failed_body_moves failed_body_coherent failed_body_returns)

section \<open>What the loops do to the locks\<close>

lemma fold_move_lock:
  "fold (\<lambda>l. move_lock l (Some s)) ls ks =
     upd_where (\<lambda>k. l_key k \<in> l_key ` set ls) (\<lambda>k. k\<lparr>l_state := s\<rparr>) ks"
proof (induction ls arbitrary: ks)
  case Nil
  then show ?case by (simp add: upd_where_def)
next
  case (Cons l ls)
  then show ?case by (auto simp: move_lock_def upd_where_def)
qed

lemma upd_where_selected:
  assumes "distinct (map l_key ls)"
  shows "upd_where (\<lambda>k. l_key k \<in> l_key ` set (filter Q ls)) f ls = upd_where Q f ls"
proof -
  have "l_key k \<in> l_key ` set (filter Q ls) \<longleftrightarrow> Q k" if k: "k \<in> set ls" for k
  proof
    assume "l_key k \<in> l_key ` set (filter Q ls)"
    then obtain m where "m \<in> set (filter Q ls)" and "l_key k = l_key m" by blast
    with key_unique [OF assms k, of m] show "Q k" by simp
  next
    assume "Q k"
    with k show "l_key k \<in> l_key ` set (filter Q ls)" by (intro imageI) simp
  qed
  then show ?thesis unfolding upd_where_def by (intro map_cong) simp_all
qed

lemma coherent_lock:
  assumes ok: "ledger_ok db" and co: "coherent db" and r: "r \<in> set (rules db)"
    and l: "l \<in> set (locks db)" "l_rule_id l = r_id r"
  shows "case l_state l of
      LockOK \<Rightarrow> r_state r \<notin> {RuleWAITING_APPROVAL, RuleINJECT}
    | LockREPLICATING \<Rightarrow> r_state r \<in> {RuleREPLICATING, RuleSTUCK, RuleSUSPENDED}
    | LockSTUCK \<Rightarrow> r_state r \<in> {RuleSTUCK, RuleSUSPENDED}"
proof -
  have "count_where (\<lambda>k. l_rule_id k = r_id r \<and> l_state k = l_state l) (locks db) \<noteq> 0"
    using l by auto
  then have "0 < lock_cnt_of (l_state l) r"
    by (simp add: ledger_ok_rule [OF ok r] lock_total_def del: count_where_0_iff)
  moreover have "coherent_view (state_view r)" using co r by (simp add: coherent_def)
  ultimately show ?thesis
    by (cases "l_state l"; cases "r_state r") (auto simp: coherent_view_def state_view_def cnt_view_def Let_def)
qed

lemma successful_transfer_settles_effect:
  assumes "successful_transfer env k rse db = Inr db'" and "ledger_ok db" and "coherent db"
  shows "locks db' = upd_where (\<lambda>l. l_replica l = (k, rse)) (\<lambda>l. l\<lparr>l_state := LockOK\<rparr>) (locks db) \<and>
    ledger_ok db' \<and> coherent db'"
proof -
  have "locks db' = upd_where (\<lambda>k'. l_key k' \<in> l_key ` set (replica_locks_at db k rse))
      (\<lambda>l. l\<lparr>l_state := LockOK\<rparr>) (locks db) \<and> ledger_ok db' \<and> coherent db'"
    using ok_mover.loop_replica [OF assms(1) [unfolded successful_transfer_def] assms(2,3)]
    by (simp add: fold_move_lock)
  then show ?thesis
    unfolding replica_locks_at_def upd_where_selected [OF ledger_ok_lock_keys [OF assms(2)]] .
qed

text \<open>C8: When \<^verbatim>\<open>successful_transfer\<close> returns, every lock on the transferred replica is \<^verbatim>\<open>OK\<close> and no other
  lock has changed; the lock counters of all rules and replicas are still exact, and the state of every
  rule still agrees with them: in particular a rule whose last missing lock arrived is no longer
  \<^verbatim>\<open>REPLICATING\<close>, and none is \<^verbatim>\<open>OK\<close> with an open lock.\<close>

theorem successful_transfer_settles:
  assumes "successful_transfer env k rse db = Inr db'" and "ledger_ok db" and "coherent db"
  shows "locks db' = upd_where (\<lambda>l. l_replica l = (k, rse)) (\<lambda>l. l\<lparr>l_state := LockOK\<rparr>) (locks db) \<and>
    ledger_ok db' \<and> coherent db'"
  by (rule successful_transfer_settles_effect [OF assms])

theorem successful_transfer_settles_witness:
  "\<exists>db'. successful_transfer demo_rule_env (atlas, ''f'') ''A'' two_files = Inr db' \<and>
     map l_state (locks db') = [LockOK, LockOK] \<and> ledger_ok db' \<and> coherent db'"
proof -
  have "\<not> isl (successful_transfer demo_rule_env (atlas, ''f'') ''A'' two_files)"
    by code_simp
  then obtain db' where run: "successful_transfer demo_rule_env (atlas, ''f'') ''A'' two_files = Inr db'"
    by (rule returnsE)
  from successful_transfer_settles [OF run two_files_ok] run show ?thesis
    by (simp add: demo_defs l_replica_def l_did_def)
qed

lemma failed_locks_filter:
  "failed_locks env db k rse = filter (\<lambda>l. l_replica l = (k, rse) \<and>
     (staging_required env rse \<longrightarrow> l_state l = LockREPLICATING)) (locks db)"
  by (simp add: failed_locks_def replica_locks_at_def conj_commute)

lemma failed_transfer_runs:
  assumes "ledger_ok db" and "coherent db"
  shows "\<exists>db'. failed_transfer env k rse em bi bm db = Inr db'"
  unfolding failed_transfer_def failed_locks_filter
  by (rule failed_mover.loop_returns [OF assms])
    (auto intro: distinct_map_filter_key [OF ledger_ok_lock_keys [OF assms(1)]])

lemma failed_transfer_settles_effect:
  assumes "ledger_ok db" and "coherent db"
  shows "\<exists>db'. failed_transfer env k rse em bi bm db = Inr db' \<and>
    locks db' = upd_where (\<lambda>l. l_replica l = (k, rse) \<and> (staging_required env rse \<longrightarrow> l_state l = LockREPLICATING))
      (\<lambda>l. l\<lparr>l_state := LockSTUCK\<rparr>) (locks db) \<and>
    ledger_ok db' \<and> coherent db' \<and>
    (\<forall>l \<in> set (locks db'). \<forall>r \<in> set (rules db'). l_state l = LockSTUCK \<and> l_rule_id l = r_id r \<longrightarrow>
       r_state r \<in> {RuleSTUCK, RuleSUSPENDED})"
proof -
  let ?Q = "\<lambda>l. l_replica l = (k, rse) \<and> (staging_required env rse \<longrightarrow> l_state l = LockREPLICATING)"
  note keys = ledger_ok_lock_keys [OF assms(1)]
  have sub: "set (filter ?Q (locks db)) \<subseteq> set (locks db)" "distinct (map l_key (filter ?Q (locks db)))"
    "\<forall>l \<in> set (filter ?Q (locks db)). True"
    by (auto intro: distinct_map_filter_key [OF keys])
  obtain db' where run: "rfold (failed_body em bi bm) (filter ?Q (locks db)) db = Inr db'"
    using failed_transfer_runs [OF assms] unfolding failed_transfer_def failed_locks_filter by blast
  have res: "ledger_ok db'" "coherent db'"
    "locks db' = upd_where ?Q (\<lambda>l. l\<lparr>l_state := LockSTUCK\<rparr>) (locks db)"
    using failed_mover.loop [OF run assms sub] by (simp_all only: fold_move_lock upd_where_selected [OF keys])
  have "r_state r \<in> {RuleSTUCK, RuleSUSPENDED}"
    if "l \<in> set (locks db')" "r \<in> set (rules db')" "l_state l = LockSTUCK" "l_rule_id l = r_id r" for l r
    using coherent_lock [OF res(1,2) that(2,1,4)] that(3) by simp
  with run res show ?thesis by (auto simp: failed_transfer_def failed_locks_filter)
qed

text \<open>C9: \<^verbatim>\<open>failed_transfer\<close> always returns. Afterwards the selected locks of the replica (on an RSE that
  requires staging only those that were replicating, elsewhere all) are \<^verbatim>\<open>STUCK\<close> and no other lock
  has changed, counters and rule states are exact and coherent, and so every rule that owns a stuck
  lock is \<^verbatim>\<open>STUCK\<close> or \<^verbatim>\<open>SUSPENDED\<close>.\<close>

theorem failed_transfer_settles:
  assumes "ledger_ok db" and "coherent db"
  shows "\<exists>db'. failed_transfer env k rse em bi bm db = Inr db' \<and>
    locks db' = upd_where (\<lambda>l. l_replica l = (k, rse) \<and> (staging_required env rse \<longrightarrow> l_state l = LockREPLICATING))
      (\<lambda>l. l\<lparr>l_state := LockSTUCK\<rparr>) (locks db) \<and>
    ledger_ok db' \<and> coherent db' \<and>
    (\<forall>l \<in> set (locks db'). \<forall>r \<in> set (rules db'). l_state l = LockSTUCK \<and> l_rule_id l = r_id r \<longrightarrow>
       r_state r \<in> {RuleSTUCK, RuleSUSPENDED})"
  by (rule failed_transfer_settles_effect [OF assms])

theorem failed_transfer_settles_witness:
  "\<exists>db'. failed_transfer demo_rule_env (atlas, ''f'') ''A'' (Some ''no route'') None None two_files = Inr db' \<and>
     map l_state (locks db') = [LockSTUCK, LockOK] \<and> ledger_ok db'"
proof -
  have "\<not> staging_required demo_rule_env ''A''"
    by (simp add: staging_required_def get_rse_attribute_def demo_rule_env_def empty_rse_db_def)
  with failed_transfer_settles [OF two_files_ok, of demo_rule_env "(atlas, ''f'')" "''A''" "Some ''no route''" None None]
  show ?thesis
    by (auto simp: demo_defs l_replica_def l_did_def)
qed

section \<open>The files of a dataset with their locks\<close>

lemma fold_add_lock_row:
  "fold add_lock_row rows m c =
     (if \<exists>x. (c, x) \<in> set rows then
        Some ((case m c of None \<Rightarrow> [] | Some ls \<Rightarrow> ls) @
          concat (map (\<lambda>(c', x). if c' = c then (case x of None \<Rightarrow> [] | Some l \<Rightarrow> [l]) else []) rows))
      else m c)"
proof (induction rows arbitrary: m)
  case Nil
  then show ?case by simp
next
  case (Cons row rows)
  obtain c' x where row: "row = (c', x)" by (cases row)
  show ?case
    unfolding fold_simps comp_def Cons.IH [of "add_lock_row row m"]
    by (cases "m c") (auto simp: row add_lock_row_def Let_def concat_eq_Nil_conv split: option.splits if_splits)
qed

lemma concat_one_key:
  "distinct files \<Longrightarrow> concat (map (\<lambda>c'. if c' = c then g c' else []) files) = (if c \<in> set files then g c else [])"
  by (induction files) (auto simp: concat_eq_Nil_conv)

abbreviation locks_of_rows :: "did \<Rightarrow> (did \<times> replica_lock option) list \<Rightarrow> replica_lock list" where
  "locks_of_rows c rows \<equiv>
     concat (map (\<lambda>(c', x). if c' = c then (case x of None \<Rightarrow> [] | Some l \<Rightarrow> [l]) else []) rows)"

lemma locks_of_rows_same: "locks_of_rows c (map (\<lambda>l. (c', Some l)) ls) = (if c' = c then ls else [])"
  by (induction ls) auto

lemma locks_of_rows_concat:
  "locks_of_rows c (concat (map g files)) = concat (map (\<lambda>c'. locks_of_rows c (g c')) files)"
  by (induction files) simp_all

lemma locks_of_rows_inner:
  "distinct files \<Longrightarrow> locks_of_rows c (inner_join db restrict files)
     = (if c \<in> set files then get_replica_locks db c restrict else [])"
  unfolding inner_join_def locks_of_rows_concat locks_of_rows_same by (rule concat_one_key)

lemma locks_of_rows_outer:
  assumes "distinct files"
  shows "locks_of_rows c (outer_join db restrict files)
    = (if c \<in> set files then get_replica_locks db c restrict else [])"
proof -
  have one: "locks_of_rows c (map (Pair c') (case ls of [] \<Rightarrow> [None] | l # ls' \<Rightarrow> map Some (l # ls')))
      = (if c' = c then ls else [])" for c' ls
  proof (cases ls)
    case (Cons l ls')
    have "map (Pair c') (map Some (l # ls')) = map (\<lambda>l. (c', Some l)) (l # ls')" by simp
    then show ?thesis unfolding Cons list.case using locks_of_rows_same by metis
  qed simp
  show ?thesis
    unfolding outer_join_def locks_of_rows_concat one by (rule concat_one_key [OF assms])
qed

lemma outer_join_keys: "(\<exists>x. (c, x) \<in> set (outer_join db restrict files)) \<longleftrightarrow> c \<in> set files"
proof (induction files)
  case Nil
  then show ?case by (simp add: outer_join_def)
next
  case (Cons c' files)
  let ?xs = "case get_replica_locks db c' restrict of [] \<Rightarrow> [None] | l # ls \<Rightarrow> map Some (l # ls)"
  obtain y ys where xs: "?xs = y # ys" by (cases "get_replica_locks db c' restrict") auto
  have "outer_join db restrict (c' # files) = map (Pair c') ?xs @ outer_join db restrict files"
    by (simp add: outer_join_def)
  then have "outer_join db restrict (c' # files) = map (Pair c') (y # ys) @ outer_join db restrict files"
    by (simp only: xs)
  with Cons show ?case by auto
qed

lemma map_of_Nil_lists: "map_of (map (\<lambda>c. (c, [])) files) c = (if c \<in> set files then Some [] else None)"
  by (induction files) auto

text \<open>Without \<^verbatim>\<open>only_stuck\<close>, the PostgreSQL branch and the outer-join branch of
  \<^verbatim>\<open>get_files_and_replica_locks_of_dataset\<close> return the same dictionary: its keys are the files of the
  dataset that fall on this worker, each with exactly its locks on the RSEs asked for, in table order, and
  a file without locks has the empty list.\<close>

theorem files_and_locks_dialects_agree:
  assumes "distinct (map c_key (contents db))"
  shows "get_files_and_replica_locks_of_dataset postgresql db k restrict False mine c =
    (if c \<in> set (dataset_files db k mine) then Some (get_replica_locks db c restrict) else None)"
proof -
  let ?files = "dataset_files db k mine"
  have "distinct (map c_key (filter (\<lambda>c. c_parent c = k) (contents db)))"
    by (rule distinct_map_filter_key [OF assms])
  then have "distinct (map c_child (filter (\<lambda>c. c_parent c = k) (contents db)))"
    by (auto simp: distinct_map inj_on_def c_key_def)
  then have dist: "distinct ?files" by (simp add: dataset_files_def)
  show ?thesis
  proof (cases postgresql)
    case True
    have "(c, x) \<in> set (inner_join db restrict ?files) \<Longrightarrow> c \<in> set ?files" for x
      by (auto simp: inner_join_def)
    moreover have "c \<in> set ?files \<Longrightarrow> get_replica_locks db c restrict \<noteq> [] \<Longrightarrow>
        \<exists>x. (c, x) \<in> set (inner_join db restrict ?files)"
      by (force simp: inner_join_def neq_Nil_conv)
    ultimately show ?thesis
      using True
      by (cases "get_replica_locks db c restrict = []") (auto simp: get_files_and_replica_locks_of_dataset_def Let_def fold_add_lock_row
          locks_of_rows_inner [OF dist] map_of_Nil_lists)
  next
    case False
    have "(\<exists>x. (c, x) \<in> set (outer_join db restrict ?files)) \<longleftrightarrow> c \<in> set ?files"
      by (rule outer_join_keys)
    then show ?thesis
      using False
      by (simp add: get_files_and_replica_locks_of_dataset_def Let_def fold_add_lock_row
          locks_of_rows_outer [OF dist])
  qed
qed

theorem files_and_locks_dialects_agree_witness:
  "get_files_and_replica_locks_of_dataset True two_files (atlas, ''D'') (Some [''B'']) False (\<lambda>_. True) (atlas, ''f'')
     = Some []"
  using files_and_locks_dialects_agree [of two_files True "(atlas, ''D'')" "Some [''B'']" "\<lambda>_. True" "(atlas, ''f'')"]
  by (simp add: demo_defs c_key_def c_parent_def c_child_def content_def dataset_files_def get_replica_locks_def
      rse_clause_def)

section \<open>Broken rules\<close>

definition suspended :: "string \<Rightarrow> rule_db \<Rightarrow> bool" where
  "suspended b db \<longleftrightarrow> (\<forall>r \<in> set (rules db). r_id r = b \<longrightarrow> r_state r = RuleSUSPENDED)"

lemma failed_body_suspends:
  assumes run: "failed_body em (Some b) bm l db = Inr db'"
    and pre: "suspended b db \<or> l_rule_id l = b \<and> l_state l \<noteq> LockSTUCK"
  shows "suspended b db'"
proof (cases "l_state l = LockSTUCK")
  case True
  then show ?thesis using run pre by (simp add: failed_body_def)
next
  case False
  with run obtain r where r: "get_rule db (l_rule_id l) = Inr r"
    and views: "map state_view (rules db') = map (\<lambda>x. (cnt_view x, if r_id x = r_id r
      then failed_state (Some b) (shift_rule l LockSTUCK r) (r_state x) else r_state x)) (rules (shift_lock l LockSTUCK r db))"
    by (rule failed_body_tables)
  let ?r1 = "shift_rule l LockSTUCK r"
  have mem: "r \<in> set (rules db)" "r_id r = l_rule_id l" using get_rule_Inr [OF r] by simp_all
  have "r_state y = RuleSUSPENDED" if y: "y \<in> set (rules db')" "r_id y = b" for y
  proof -
    have "state_view y \<in> set (map state_view (rules db'))" using y(1) by simp
    then obtain x where x: "x \<in> set (rules (shift_lock l LockSTUCK r db))" "cnt_view y = cnt_view x"
      and st: "r_state y = (if r_id x = r_id r then failed_state (Some b) ?r1 (r_state x) else r_state x)"
      unfolding views by (auto simp: state_view_def)
    have idx: "r_id x = b" using arg_cong [OF x(2), of fst] y(2) by simp
    from x(1) consider "x = ?r1" | "x \<in> set (rules db)" and "r_id x \<noteq> r_id r"
      by (auto simp: shift_lock_def set_lock_state_def upd_rule_def elim: mem_upd_whereE)
    then show ?thesis
      using st idx pre mem by cases (auto simp: failed_state_def suspended_def)
  qed
  then show ?thesis by (simp add: suspended_def)
qed

text \<open>A rule that is reported as broken is \<^verbatim>\<open>SUSPENDED\<close> after \<^verbatim>\<open>failed_transfer\<close> has marked one of its
  locks, whatever state it had and whatever the other locks of the loop do.\<close>

theorem failed_transfer_suspends_broken:
  assumes "failed_transfer env k rse em (Some b) bm db = Inr db'"
    and "l \<in> set (failed_locks env db k rse)" and "l_rule_id l = b" and "l_state l \<noteq> LockSTUCK"
  shows "\<forall>r \<in> set (rules db'). r_id r = b \<longrightarrow> r_state r = RuleSUSPENDED"
proof -
  obtain xs ys where split: "failed_locks env db k rse = xs @ l # ys"
    using assms(2) by (meson split_list)
  with assms(1) obtain db1 db2 where step: "failed_body em (Some b) bm l db1 = Inr db2"
    and rest: "rfold (failed_body em (Some b) bm) ys db2 = Inr db'"
    by (auto simp: failed_transfer_def rfold_append rbind_eq_Inr)
  have "suspended b db2" using failed_body_suspends [OF step] assms(3,4) by blast
  then have "suspended b db'"
    by (rule rfold_invariant [OF rest]) (blast intro: failed_body_suspends)
  then show ?thesis by (simp add: suspended_def)
qed

theorem failed_transfer_suspends_broken_witness:
  "\<exists>db'. failed_transfer demo_rule_env (atlas, ''f'') ''A'' None (Some ''R'') (Some ''bad link'') two_files = Inr db' \<and>
     (\<forall>r \<in> set (rules db'). r_id r = ''R'' \<longrightarrow> r_state r = RuleSUSPENDED)"
proof -
  have "\<not> isl (failed_transfer demo_rule_env (atlas, ''f'') ''A'' None (Some ''R'') (Some ''bad link'') two_files)"
    by code_simp
  then obtain db' where run:
    "failed_transfer demo_rule_env (atlas, ''f'') ''A'' None (Some ''R'') (Some ''bad link'') two_files = Inr db'"
    by (rule returnsE)
  have "demo_lock ''R'' ''f'' LockREPLICATING \<in> set (failed_locks demo_rule_env two_files (atlas, ''f'') ''A'')"
    by (simp add: failed_locks_def replica_locks_at_def demo_defs l_replica_def l_did_def)
  from failed_transfer_suspends_broken [OF run this] run show ?thesis by (simp add: demo_lock_def)
qed

text \<open>The error column has 255 characters; \<open>error_fits\<close> says that no row overflows it.\<close>

definition error_fits :: "rule_db \<Rightarrow> bool" where
  "error_fits db \<longleftrightarrow> (\<forall>r \<in> set (rules db). case r_error r of None \<Rightarrow> True | Some s \<Rightarrow> length s \<le> 255)"

lemma clip_message_fits: "case clip_message m of None \<Rightarrow> True | Some s \<Rightarrow> length s \<le> 255"
  by (cases m) (auto simp: clip_message_def)

lemma error_fits_upd:
  assumes "error_fits db"
    and "\<And>r. case r_error (f r) of None \<Rightarrow> True | Some s \<Rightarrow> length s \<le> 255 \<or> r_error (f r) = r_error r"
  shows "error_fits (upd_rule i f db)"
  unfolding error_fits_def
proof
  fix x assume "x \<in> set (rules (upd_rule i f db))"
  then have "x \<in> set (upd_where (\<lambda>r. r_id r = i) f (rules db))" by (simp add: upd_rule_def)
  then show "case r_error x of None \<Rightarrow> True | Some s \<Rightarrow> length s \<le> 255"
  proof (cases rule: mem_upd_whereE)
    case (updated y)
    with assms(1) assms(2) [of y] show ?thesis
      by (cases "r_error (f y)") (auto simp: error_fits_def split: option.splits)
  next
    case kept
    with assms(1) show ?thesis by (simp add: error_fits_def)
  qed
qed

lemma error_fits_other: "rules db' = rules db \<Longrightarrow> error_fits db \<Longrightarrow> error_fits db'"
  by (simp add: error_fits_def)

text \<open>\<^verbatim>\<open>failed_transfer\<close> never writes an error text that overflows the 255 characters of the column,
  however long the messages are.\<close>

theorem failed_transfer_error_fits:
  assumes "failed_transfer env k rse em bi bm db = Inr db'" and "error_fits db"
  shows "error_fits db'"
proof (rule rfold_invariant [where I = error_fits, OF assms(1) [unfolded failed_transfer_def] assms(2)])
  fix l db1 db2
  assume fits: "error_fits db1" and run: "failed_body em bi bm l db1 = Inr db2"
  show "error_fits db2"
  proof (cases "l_state l = LockSTUCK")
    case True
    then show ?thesis using run fits by (simp add: failed_body_def)
  next
    case False
    with run obtain r where r: "get_rule db1 (l_rule_id l) = Inr r"
      and db2: "db2 = insert_rule_history (r_id r) True False
        (failed_rule_state em bi bm (shift_rule l LockSTUCK r) (shift_lock l LockSTUCK r db1))"
      by (auto simp: failed_body_def Let_def rbind_eq_Inr)
    have "case r_error r of None \<Rightarrow> True | Some s \<Rightarrow> length s \<le> 255"
      using fits get_rule_Inr [OF r] by (simp add: error_fits_def)
    then have sh: "error_fits (shift_lock l LockSTUCK r db1)"
      unfolding shift_lock_def
      by (intro error_fits_other [OF _ error_fits_upd [OF fits]]) (auto simp: set_lock_state_def split: option.splits)
    have ds: "error_fits (stuck_dataset_locks r' d) = error_fits d" for r' d
      by (simp add: stuck_dataset_locks_def set_dataset_locks_def error_fits_def)
    have hist: "error_fits (insert_rule_history i a b d) = error_fits d" for i a b d
      by (simp add: insert_rule_history_def Let_def error_fits_def)
    show ?thesis
      unfolding db2 hist failed_rule_state_def
      using clip_message_fits [of em] clip_message_fits [of bm] sh
      by (auto simp: Let_def ds intro!: error_fits_upd split: option.splits)
  qed
qed

theorem failed_transfer_error_fits_witness:
  "\<exists>db'. failed_transfer demo_rule_env (atlas, ''f'') ''A'' (Some (replicate 4000 CHR ''x'')) None None two_files
     = Inr db' \<and> error_fits db'"
proof -
  obtain db' where run: "failed_transfer demo_rule_env (atlas, ''f'') ''A'' (Some (replicate 4000 CHR ''x'')) None None
      two_files = Inr db'"
    using failed_transfer_runs [OF two_files_ok] by blast
  moreover have "error_fits two_files" by (simp add: error_fits_def demo_defs)
  ultimately show ?thesis using failed_transfer_error_fits [OF run] by blast
qed

section \<open>When notifications raise\<close>

definition is_file :: "rule_db \<Rightarrow> did \<Rightarrow> bool" where
  "is_file db k = (case get_did_row db k of Inr d \<Rightarrow> d_type d = FILE | Inl _ \<Rightarrow> False)"

text \<open>C22: The dictionary of a file has no key \<^verbatim>\<open>open\<close>, so the notification of a rule on a file with mode
  \<^verbatim>\<open>CLOSE\<close> or \<^verbatim>\<open>PROGRESS\<close> raises \<^verbatim>\<open>KeyError\<close> when the rule turns \<^verbatim>\<open>OK\<close>.\<close>

theorem close_notification_on_file_raises:
  assumes "get_rule db i = Inr r" and "r_state r = RuleOK"
    and "r_notification r \<in> {NotifyCLOSE, NotifyPROGRESS}" and "is_file db (r_did r)"
  shows "generate_rule_notifications env i n db = Inl KeyError"
proof -
  obtain d where d: "get_did_row db (r_did r) = Inr d" and ft: "d_type d = FILE"
    using assms(4) by (auto simp: is_file_def split: sum.splits)
  have "when_closed db (r_did r) act skip = Inl KeyError" for act and skip :: "message list"
    by (simp add: when_closed_def get_did_def d ft)
  with assms show ?thesis
    by (auto simp: generate_rule_notifications_def rule_messages_def Let_def)
qed

theorem close_notification_on_file_raises_witness:
  "generate_rule_notifications demo_rule_env ''R'' None
     (demo_rule_db [(demo_rule ''R'' RuleOK 1 0 0)\<lparr>r_name := ''f'', r_notification := NotifyCLOSE\<rparr>] [] []) = Inl KeyError"
  by (rule close_notification_on_file_raises
      [where r = "(demo_rule ''R'' RuleOK 1 0 0)\<lparr>r_name := ''f'', r_notification := NotifyCLOSE\<rparr>"])
    (simp_all add: get_rule_def is_file_def get_did_row_def did_of_def r_did_def demo_rule_db_def demo_rule_def)

text \<open>What the notifications read, apart from states and counters.\<close>

definition static_view :: "rule \<Rightarrow> string \<times> did \<times> rule_notification" where
  "static_view r = (r_id r, r_did r, r_notification r)"

definition same_static :: "rule_db \<Rightarrow> rule_db \<Rightarrow> bool" where
  "same_static db db' \<longleftrightarrow> dids db' = dids db \<and> map static_view (rules db') = map static_view (rules db) \<and>
     map (\<lambda>l. (dl_scope l, dl_name l)) (dataset_locks db') = map (\<lambda>l. (dl_scope l, dl_name l)) (dataset_locks db)"

lemma same_static_refl [simp, intro]: "same_static db db"
  by (simp add: same_static_def)

lemma same_static_trans [trans]: "same_static a b \<Longrightarrow> same_static b c \<Longrightarrow> same_static a c"
  by (simp add: same_static_def)

lemma same_static_upd_rule:
  "(\<And>r. static_view (f r) = static_view r) \<Longrightarrow> same_static db (upd_rule i f db)"
  by (simp add: same_static_def upd_rule_def map_upd_where)

lemma same_static_history [simp]: "same_static db (insert_rule_history i a b db)"
  by (simp add: same_static_def insert_rule_history_def Let_def)

lemma same_static_dataset_locks [simp]: "same_static db (set_dataset_locks i s db)"
  by (simp add: same_static_def set_dataset_locks_def map_upd_where)

lemma same_static_release [simp]: "same_static db (release_parent_rule c e db)"
proof -
  have one: "same_static db (release_one e p db)" for p db
    unfolding release_one_def
    by (rule same_static_trans [OF same_static_upd_rule same_static_history]) (simp add: static_view_def r_did_def)
  have "same_static db (fold (release_one e) ps db)" for ps
    by (induction ps arbitrary: db) (simp_all, blast intro: same_static_trans one)
  then show ?thesis by (simp add: release_parent_rule_def)
qed

lemma add_message_static: "add_message env m db = Inr db' \<Longrightarrow> same_static db db'"
  by (auto simp: add_message_def rbind_eq_Inr same_static_def)

lemma notifications_static:
  assumes "generate_rule_notifications env i n db = Inr db'"
  shows "same_static db db'"
proof -
  from assms obtain ms where "rfold (add_message env) ms db = Inr db'"
    by (auto simp: generate_rule_notifications_def rbind_eq_Inr)
  then show ?thesis
    by (rule rfold_invariant [where I = "same_static db"]) (simp, blast intro: same_static_trans add_message_static)
qed

lemma email_static:
  "generate_email_for_rule_ok_notification env i db = Inr db' \<Longrightarrow> same_static db db'"
  by (auto simp: generate_email_for_rule_ok_notification_def rbind_eq_Inr
      intro: add_message_static split: if_splits option.splits)

definition notifiable :: "rule_db \<Rightarrow> bool" where
  "notifiable db \<longleftrightarrow>
     (\<forall>(i, k, n) \<in> set (map static_view (rules db)). n \<in> {NotifyCLOSE, NotifyPROGRESS} \<longrightarrow> \<not> is_file db k) \<and>
     (\<forall>k \<in> set (map (\<lambda>l. (dl_scope l, dl_name l)) (dataset_locks db)). \<not> is_file db k)"

lemma notifiable_static: "same_static db db' \<Longrightarrow> notifiable db' = notifiable db"
proof -
  assume s: "same_static db db'"
  then have "is_file db' = is_file db" by (simp add: fun_eq_iff is_file_def get_did_row_def same_static_def)
  with s show ?thesis unfolding notifiable_def same_static_def by simp
qed

lemma when_closed_returns:
  assumes "\<not> is_file db k" and "\<And>i. \<exists>x. act i = Inr x"
  shows "\<exists>x. when_closed db k act skip = Inr x"
  using assms by (auto simp: when_closed_def get_did_def is_file_def rbind_def split: sum.splits)

lemma close_messages_returns:
  "\<forall>l \<in> set ls. \<not> is_file db (dl_scope l, dl_name l) \<Longrightarrow> \<exists>ms. close_messages env db r ls = Inr ms"
  by (induction ls) (auto simp: get_did_def is_file_def rbind_def split: sum.splits option.splits)

lemma rule_messages_returns:
  assumes "notifiable db" and "r \<in> set (rules db)"
  shows "\<exists>ms. rule_messages env db r n = Inr ms"
proof -
  let ?ds = "filter (\<lambda>l. dl_rule_id l = r_id r) (dataset_locks db)"
  have closed: "r_notification r \<in> {NotifyCLOSE, NotifyPROGRESS} \<Longrightarrow>
      \<exists>x. when_closed db (r_did r) (\<lambda>_. Inr ms) [] = Inr x" for ms :: "message list"
    using assms by (intro when_closed_returns) (auto simp: notifiable_def static_view_def)
  obtain cs where cs: "close_messages env db r ?ds = Inr cs"
    using close_messages_returns [of ?ds db env r] assms(1) by (auto simp: notifiable_def)
  show ?thesis
    using closed [of "[rule_ok_message r]"] closed [of "[rule_ok_message r, rule_progress_message r]"]
      closed [of "[rule_progress_message r]"]
    by (cases "r_notification r") (auto simp: rule_messages_def Let_def cs)
qed

definition services_known :: "rule_env \<Rightarrow> bool" where
  "services_known env \<longleftrightarrow> (\<forall>s \<in> set (services env). known_service s)"

lemma add_message_returns: "services_known env \<Longrightarrow> \<exists>db'. add_message env m db = Inr db'"
  by (auto simp: add_message_def add_messages_def services_known_def)

lemma notifications_return:
  assumes "services_known env" and "notifiable db" and "get_rule db i = Inr r"
  shows "\<exists>db'. generate_rule_notifications env i n db = Inr db'"
proof -
  obtain ms where "rule_messages env db r n = Inr ms"
    using rule_messages_returns [OF assms(2)] get_rule_Inr [OF assms(3)] by blast
  moreover have "\<exists>db'. rfold (add_message env) ms db = Inr db'"
    using rfold_total [of "\<lambda>_. True" db ms "add_message env"] add_message_returns [OF assms(1)] by blast
  ultimately show ?thesis by (simp add: generate_rule_notifications_def assms(3))
qed

lemma email_returns:
  "services_known env \<Longrightarrow> get_rule db i = Inr r \<Longrightarrow> \<exists>db'. generate_email_for_rule_ok_notification env i db = Inr db'"
  using add_message_returns
  by (auto simp: generate_email_for_rule_ok_notification_def split: option.splits)

text \<open>The body of the success loop: what it reads stays, and it returns.\<close>

lemma get_rule_iff: "(\<exists>r. get_rule db i = Inr r) \<longleftrightarrow> i \<in> fst ` set (map static_view (rules db))"
proof -
  have "(\<exists>r. get_rule db i = Inr r) \<longleftrightarrow> filter (\<lambda>r. r_id r = i) (rules db) \<noteq> []"
    by (auto simp: get_rule_def split: list.splits)
  also have "\<dots> \<longleftrightarrow> i \<in> fst ` set (map static_view (rules db))"
    by (auto simp: filter_empty_conv static_view_def image_iff)
  finally show ?thesis .
qed

lemma get_rule_static: "same_static db db' \<Longrightarrow> get_rule db i = Inr r \<Longrightarrow> \<exists>r'. get_rule db' i = Inr r'"
  using get_rule_iff [of db i] get_rule_iff [of db' i] by (simp add: same_static_def)

lemma static_view_cnt [simp]: "static_view (add_cnt s d r) = static_view r"
  by (cases s) (simp_all add: static_view_def r_did_def)

lemma static_view_upd [simp]:
  shows "static_view (r\<lparr>r_state := s\<rparr>) = static_view r" and "static_view (shift_rule l t r) = static_view r"
proof -
  show "static_view (r\<lparr>r_state := s\<rparr>) = static_view r" by (simp add: static_view_def r_did_def)
  show "static_view (shift_rule l t r) = static_view r" by (simp add: shift_rule_def)
qed

lemma touch_collections_static [simp]: "same_static db (touch_collections r rse db)"
  by (simp add: same_static_def touch_collections_def)

lemma shift_lock_static:
  assumes "ledger_ok db" and "get_rule db i = Inr r"
  shows "same_static db (shift_lock l s r db)"
proof -
  have "static_view (if r_id x = r_id r then shift_rule l s r else x) = static_view x" if "x \<in> set (rules db)" for x
    using key_unique [OF ledger_ok_rule_ids [OF assms(1)] that, of r] get_rule_Inr [OF assms(2)] by auto
  then show ?thesis
    by (simp add: same_static_def shift_lock_def set_lock_state_def upd_rule_def upd_where_def)
qed

lemma rule_becomes_ok_static:
  assumes "services_known env" and "notifiable db" and "get_rule db (r_id r) = Inr x"
  shows "\<exists>db'. rule_becomes_ok env r db = Inr db' \<and> same_static db db'"
proof -
  let ?db1 = "upd_rule (r_id r) (\<lambda>x. x\<lparr>r_state := RuleOK\<rparr>) db"
  let ?db2 = "if r_grouping r \<noteq> GroupNONE then set_dataset_locks (r_id r) LockOK ?db1 else ?db1"
  have "same_static db ?db1" by (rule same_static_upd_rule) simp
  also have "same_static ?db1 ?db2" by simp
  finally have s2: "same_static db ?db2" .
  obtain x2 where x2: "get_rule ?db2 (r_id r) = Inr x2" using get_rule_static [OF s2 assms(3)] by blast
  have n2: "notifiable ?db2" using assms(2) by (simp only: notifiable_static [OF s2])
  obtain db3 where n: "generate_rule_notifications env (r_id r) (Some (r_locks_replicating_cnt r + 1)) ?db2 = Inr db3"
    using notifications_return [OF assms(1) n2 x2] by blast
  have s3: "same_static db db3" by (rule same_static_trans [OF s2 notifications_static [OF n]])
  obtain db4 where m: "(if r_notification r = NotifyYES
      then generate_email_for_rule_ok_notification env (r_id r) db3 else Inr db3) = Inr db4"
    using email_returns [OF assms(1), of db3 "r_id r"] get_rule_static [OF s3 assms(3)]
    by (cases "r_notification r = NotifyYES") auto
  have s4: "same_static db db4"
    using s3 m by (auto intro: same_static_trans dest: email_static split: if_splits)
  then have "same_static db (release_parent_rule (r_id r) False db4)"
    by (rule same_static_trans) simp
  with n m show ?thesis by (simp add: rule_becomes_ok_def Let_def)
qed

lemma ok_rule_state_static:
  assumes "services_known env" and "notifiable db" and "get_rule db (r_id r) = Inr x"
  shows "\<exists>db'. ok_rule_state env r db = Inr db' \<and> same_static db db'"
proof -
  obtain db' where "generate_rule_notifications env (r_id r) (Some (r_locks_replicating_cnt r + 1)) db = Inr db'"
    using notifications_return [OF assms] by blast
  then show ?thesis
    using rule_becomes_ok_static [OF assms] by (auto simp: ok_rule_state_def dest: notifications_static)
qed

lemma ok_body_static:
  assumes env: "services_known env" and ok: "ledger_ok db" and n: "notifiable db" and l: "l \<in> set (locks db)"
  shows "\<exists>db'. ok_body env rse l db = Inr db' \<and> notifiable db'"
proof (cases "l_state l = LockOK")
  case True
  with n show ?thesis by (simp add: ok_body_def)
next
  case False
  obtain r where r: "get_rule db (l_rule_id l) = Inr r" using get_rule_exists [OF ok l] by blast
  let ?r1 = "shift_rule l LockOK r"
  let ?db1 = "touch_collections ?r1 rse (shift_lock l LockOK r db)"
  have s1: "same_static db ?db1"
    by (rule same_static_trans [OF shift_lock_static [OF ok r] touch_collections_static])
  obtain x where x: "get_rule ?db1 (r_id ?r1) = Inr x"
    using get_rule_static [OF s1 r] get_rule_Inr [OF r] by auto
  have n1: "notifiable ?db1" using n by (simp only: notifiable_static [OF s1])
  obtain db2 where run: "ok_rule_state env ?r1 ?db1 = Inr db2" and s2: "same_static ?db1 db2"
    using ok_rule_state_static [OF env n1 x] by blast
  have "notifiable (insert_rule_history (r_id r) True False db2)"
    using n1 by (simp only: notifiable_static [OF same_static_history] notifiable_static [OF s2])
  with r run False show ?thesis by (simp add: ok_body_def Let_def)
qed

interpretation ok_mover_total: lock_mover_total "ok_body env rse" "Some LockOK" "\<lambda>_. True"
  "\<lambda>db. coherent db \<and> notifiable db \<and> services_known env"
proof unfold_locales
  fix db l db'
  assume ok: "ledger_ok db" and good: "coherent db \<and> notifiable db \<and> services_known env" and l: "l \<in> set (locks db)"
  have total: "\<exists>db'. ok_body env rse l db = Inr db' \<and> notifiable db'"
    using ok_body_static [OF _ ok _ l] good by blast
  then show "\<exists>db'. ok_body env rse l db = Inr db'" by blast
  assume run: "ok_body env rse l db = Inr db'"
  show "lock_moved l (Some LockOK) db db'" by (rule ok_body_moves [OF ok l run])
  show "coherent db' \<and> notifiable db' \<and> services_known env"
    using ok_body_coherent [OF ok _ l run] good total run by auto
qed

text \<open>\<^verbatim>\<open>successful_transfer\<close> returns when the configured message services exist and no rule with
  notification \<^verbatim>\<open>CLOSE\<close> or \<^verbatim>\<open>PROGRESS\<close> (and no dataset lock) is on a file: together with the theorem on raised
  notifications this is the only way in which a transfer report can fail on consistent tables.\<close>

theorem successful_transfer_returns:
  assumes "ledger_ok db" and "coherent db" and "notifiable db" and "services_known env"
  shows "\<exists>db'. successful_transfer env k rse db = Inr db'"
proof -
  note keys = ledger_ok_lock_keys [OF assms(1)]
  have "set (replica_locks_at db k rse) \<subseteq> set (locks db)" "distinct (map l_key (replica_locks_at db k rse))"
    by (auto simp: replica_locks_at_def intro: distinct_map_filter_key [OF keys])
  with ok_mover_total.loop_returns [OF assms(1), of env "replica_locks_at db k rse" rse] assms(2-4)
  show ?thesis by (simp add: successful_transfer_def)
qed

theorem successful_transfer_returns_witness:
  "\<exists>db'. successful_transfer demo_rule_env (atlas, ''g'') ''A'' two_files = Inr db'"
proof -
  have "notifiable two_files"
    by (simp add: notifiable_def static_view_def demo_defs)
  moreover have "services_known demo_rule_env"
    unfolding services_known_def by code_simp
  ultimately show ?thesis by (rule successful_transfer_returns [OF two_files_ok])
qed

end
