(* ===== verification/Rules.thy ===== *)
theory Rules
  imports Locks
begin

text \<open>
  The operations of \<^verbatim>\<open>core/rule.py\<close> that change existing rules: deletion, recovery from a bad replica, and the
  loss of a replica.

  \<^verbatim>\<open>update_rules_for_bad_replica\<close> sends the locks of a replica back to \<^verbatim>\<open>REPLICATING\<close> and queues a transfer
  (\<^verbatim>\<open>create_transfer_dict\<close> of \<^verbatim>\<open>core/rule_grouping.py\<close>); \<^verbatim>\<open>update_rules_for_lost_replica\<close> removes the locks and
  detaches the file from its datasets; \<^verbatim>\<open>delete_rule\<close> removes a rule with all its locks. The last section puts
  them and the transfer reports of \<open>Locks\<close> into one step relation and shows that every reachable
  catalogue has exact counters and coherent rule states.
\<close>

section \<open>Bad replicas\<close>

definition truthy_text :: "string option \<Rightarrow> bool" where
  "truthy_text s = (case s of None \<Rightarrow> False | Some t \<Rightarrow> t \<noteq> '''')"

definition create_transfer_dict ::
  "string \<Rightarrow> request_type \<Rightarrow> did \<Rightarrow> rule \<Rightarrow> replica_lock option \<Rightarrow> int option \<Rightarrow> string option \<Rightarrow> string option
     \<Rightarrow> did option \<Rightarrow> lifetime option \<Rightarrow> string option \<Rightarrow> int option \<Rightarrow> request_dict" where
  "create_transfer_dict dest_rse_id t k r l bytes md5 adler32 ds copy_pin_lifetime activity retry_count = \<lparr>
     q_type = t, q_scope = fst k, q_name = snd k, q_dest_rse_id = dest_rse_id, q_source_rse_id = None,
     q_attributes = \<lparr>
       ra_activity = (if truthy_text activity then activity
         else if truthy_text (r_activity r) then r_activity r else Some ''default''),
       ra_source_replica_expression = r_source_replica_expression r, ra_lifetime = copy_pin_lifetime, ra_ds = ds,
       ra_bytes = bytes, ra_md5 = md5, ra_adler32 = adler32, ra_priority = r_priority r,
       ra_is_intermediate_hop = False\<rparr>,
     q_state = None, q_rule_id = Some (r_id r), q_account = Some (r_account r),
     q_requested_at = Some (case l of Some l' \<Rightarrow> l_created_at l' | None \<Rightarrow> r_created_at r),
     q_retry_count = retry_count, q_transfertool = None, q_retry = None, q_sources = []\<rparr>"

definition get_replica :: "rule_db \<Rightarrow> did \<times> string \<Rightarrow> rucio_error + replica" where
  "get_replica db k = (case filter (\<lambda>p. p_key p = k) (replicas db) of p # _ \<Rightarrow> Inr p | [] \<Rightarrow> Inl NoResultFound)"

text \<open>The rule after \<^verbatim>\<open>rule.source_replica_expression = None\<close> and the counter updates.\<close>

definition bad_rule :: "replica_lock \<Rightarrow> rule \<Rightarrow> rule" where
  "bad_rule l r = shift_rule l LockREPLICATING
     (if truthy_text (r_source_replica_expression r) then r\<lparr>r_source_replica_expression := None\<rparr> else r)"

definition recovery_request :: "rule_env \<Rightarrow> did \<Rightarrow> string \<Rightarrow> replica \<Rightarrow> replica_lock \<Rightarrow> rule \<Rightarrow> rule_db
    \<Rightarrow> rucio_error + rule_db" where
  "recovery_request env k rse p l r db =
     (case get_request_by_did db k rse None of
        Inr _ \<Rightarrow> Inr db
      | Inl _ \<Rightarrow> rbind (queue_requests (request_env.truncate env)
          [create_transfer_dict rse TRANSFER k r (Some l) (Some (p_bytes p)) (p_md5 p) (p_adler32 p)
             (Some (r_did r)) None (Some ''Recovery'') None] db) (\<lambda>(_, db'). Inr db'))"

definition bad_body :: "rule_env \<Rightarrow> did \<Rightarrow> string \<Rightarrow> replica \<Rightarrow> replica_lock \<Rightarrow> rule_db \<Rightarrow> rucio_error + rule_db" where
  "bad_body env k rse p l db =
     rbind (get_rule db (l_rule_id l)) (\<lambda>r.
       let r1 = bad_rule l r;
           db1 = upd_rule (r_id r) (\<lambda>_. r1) db;
           db2 = db1\<lparr>updated_col_rep := updated_col_rep db1 @ [(r_did r, r_did_type r, Some (l_rse_id l))]\<rparr>
       in rbind (recovery_request env k rse p l r1 db2) (\<lambda>db3.
         let db4 = set_lock_state l LockREPLICATING db3;
             db5 = (if r_state r1 = RuleSUSPENDED \<or> r_state r1 = RuleSTUCK then db4
                    else let d = upd_rule (r_id r) (\<lambda>x. x\<lparr>r_state := RuleREPLICATING\<rparr>) db4
                         in if r_grouping r1 \<noteq> GroupNONE then set_dataset_locks (r_id r) LockREPLICATING d else d)
         in Inr (insert_rule_history (r_id r) True False db5)))"

definition update_rules_for_bad_replica :: "rule_env \<Rightarrow> did \<Rightarrow> string \<Rightarrow> rule_db \<Rightarrow> rucio_error + rule_db" where
  "update_rules_for_bad_replica env k rse db =
     rbind (get_replica db (k, rse)) (\<lambda>p.
       let ls = replica_locks_at db k rse
       in rbind (rfold (bad_body env k rse p) ls db) (\<lambda>db'. Inr
         (if ls \<noteq> [] then
            db'\<lparr>replicas := upd_where (\<lambda>p. p_key p = (k, rse)) (\<lambda>p. p\<lparr>p_state := COPYING\<rparr>) (replicas db')\<rparr>
          else
            db'\<lparr>replicas := upd_where (\<lambda>p. p_key p = (k, rse))
               (\<lambda>p. p\<lparr>p_state := UNAVAILABLE, p_tombstone := Some OBSOLETE\<rparr>) (replicas db')\<rparr>)))"

section \<open>Lost replicas\<close>

definition lost_rule_state :: "rule_env \<Rightarrow> rule_state \<Rightarrow> rule \<Rightarrow> rule_db \<Rightarrow> rucio_error + rule_db" where
  "lost_rule_state env before r db =
     (if r_state r = RuleSUSPENDED \<or> r_state r = RuleSTUCK then Inr db
      else if r_locks_replicating_cnt r = 0 \<and> r_locks_stuck_cnt r = 0 then
        (let db1 = upd_rule (r_id r) (\<lambda>x. x\<lparr>r_state := RuleOK\<rparr>) db;
             db2 = (if r_grouping r \<noteq> GroupNONE then set_dataset_locks (r_id r) LockOK db1 else db1)
         in rbind (if before \<noteq> RuleOK
                   then rbind (generate_rule_notifications env (r_id r) None db2)
                          (generate_email_for_rule_ok_notification env (r_id r))
                   else Inr db2)
              (\<lambda>db3. Inr (release_parent_rule (r_id r) False db3)))
      else Inr db)"

definition lost_body :: "rule_env \<Rightarrow> did \<Rightarrow> string \<Rightarrow> replica_lock \<Rightarrow> rule_db \<Rightarrow> rucio_error + rule_db" where
  "lost_body env k rse l db =
     rbind (get_rule db (l_rule_id l)) (\<lambda>r.
       let r1 = add_cnt (l_state l) (-1) r;
           db1 = (upd_rule (r_id r) (\<lambda>_. r1) db)\<lparr>replicas :=
             upd_where (\<lambda>p. p_key p = (k, rse)) (\<lambda>p. p\<lparr>p_lock_cnt := p_lock_cnt p - 1\<rparr>) (replicas db)\<rparr>
       in case l_bytes l of
            None \<Rightarrow> Inl ValueError
          | Some b \<Rightarrow>
              if b = 0 then Inl ValueError
              else let db2 = db1\<lparr>account_counters := account_decrease (r_account r, rse) (1, b) (account_counters db1)\<rparr>
                   in rbind (lost_rule_state env (r_state r) r1 db2) (\<lambda>db3.
                        Inr (delete_lock l (insert_rule_history (r_id r) True False db3))))"

definition lost_parents :: "rule_db \<Rightarrow> did \<Rightarrow> did list" where
  "lost_parents db k = remdups (map fst (list_parent_dids db k))"

definition lost_dataset :: "rule_env \<Rightarrow> did \<Rightarrow> did \<Rightarrow> rule_db \<Rightarrow> rucio_error + rule_db" where
  "lost_dataset env k ds db =
     rbind (detach_dids (services env) (now env) ds [k] db)
       (add_message env (LOST (fst (fst k)) (vo_entry (fst k)) (snd k) (snd ds) (fst (fst ds))))"

text \<open>\<^verbatim>\<open>update_rules_for_lost_replica\<close>, with the final correction of \<^verbatim>\<open>lock_cnt\<close>.\<close>

definition lost_replica_row :: "replica \<Rightarrow> replica" where
  "lost_replica_row p =
     (if p_lock_cnt p \<noteq> 0 then p\<lparr>p_lock_cnt := 0\<rparr> else p)\<lparr>p_tombstone := Some OBSOLETE, p_state := UNAVAILABLE\<rparr>"

definition update_rules_for_lost_replica :: "rule_env \<Rightarrow> did \<Rightarrow> string \<Rightarrow> rule_db \<Rightarrow> rucio_error + rule_db" where
  "update_rules_for_lost_replica env k rse db =
     rbind (get_replica db (k, rse)) (\<lambda>p.
       let ls = replica_locks_at db k rse;
           datasets = lost_parents db k;
           db1 = db\<lparr>requests := filter (\<lambda>q. rq_key q \<noteq> (k, rse)) (requests db)\<rparr>
       in if \<not> known_rse env rse then Inl RSENotFoundError
          else rbind (rfold (lost_body env k rse) ls db1) (\<lambda>db2.
         let db3 = db2\<lparr>replicas := upd_where (\<lambda>p. p_key p = (k, rse)) lost_replica_row (replicas db2),
               dids := upd_where (\<lambda>d. did_of d = k) (\<lambda>d. d\<lparr>d_lost := True\<rparr>) (dids db2),
               bad_replicas := map (\<lambda>(k', rse', s). if k' = k \<and> rse' = rse \<and> s = BadBAD
                 then (k', rse', BadLOST) else (k', rse', s)) (bad_replicas db2)\<rparr>
         in rfold (lost_dataset env k) datasets db3))"

section \<open>Deleting a rule\<close>

definition replica_after_unlock :: "bool \<Rightarrow> lock_state \<Rightarrow> replica \<Rightarrow> replica" where
  "replica_after_unlock purge s p =
     (let p1 = p\<lparr>p_lock_cnt := p_lock_cnt p - 1\<rparr>
      in if p_lock_cnt p1 = 0 then
           (let p2 = p1\<lparr>p_tombstone := Some
                (if purge then OBSOLETE
                 else if p_state p1 = UNAVAILABLE then OBSOLETE
                 else case p_accessed_at p1 of Some t \<Rightarrow> t | None \<Rightarrow> p_created_at p1)\<rparr>
            in if s = LockREPLICATING then p2\<lparr>p_state := UNAVAILABLE, p_tombstone := Some OBSOLETE\<rparr> else p2)
         else p1)"

definition delete_lock_and_update_replica :: "bool \<Rightarrow> replica_lock \<Rightarrow> rule_db \<Rightarrow> bool \<times> rule_db" where
  "delete_lock_and_update_replica purge l db =
     (let db1 = delete_lock l db
      in case get_replica db1 (l_replica l) of
           Inl _ \<Rightarrow> (False, db1)
         | Inr p \<Rightarrow> (p_lock_cnt p - 1 = 0 \<and> l_state l = LockREPLICATING,
             db1\<lparr>replicas := upd_where (\<lambda>p. p_key p = l_replica l) (replica_after_unlock purge (l_state l))
               (replicas db1)\<rparr>))"

text \<open>The loop collects the transfers to cancel.\<close>

fun unlock_loop :: "bool \<Rightarrow> replica_lock list \<Rightarrow> rule_db \<Rightarrow> (did \<times> string) list \<times> rule_db" where
  "unlock_loop purge [] db = ([], db)"
| "unlock_loop purge (l # ls) db =
     (let (cancel, db1) = delete_lock_and_update_replica purge l db;
          (ts, db2) = unlock_loop purge ls db1
      in (if cancel then l_replica l # ts else ts, db2))"

text \<open>\<^verbatim>\<open>account_counter_decreases\<close>: per RSE, the sizes of the locked files. A lock
  without a size makes \<^verbatim>\<open>sum\<close> raise.\<close>

definition decrease_counters :: "string \<Rightarrow> replica_lock list \<Rightarrow> account_counter_db \<Rightarrow> rucio_error + account_counter_db" where
  "decrease_counters account ls c =
     (if \<exists>l \<in> set ls. l_bytes l = None then Inl rucio_error.TypeError
      else Inr (fold (\<lambda>rse. let sizes = map (\<lambda>l. the (l_bytes l)) (filter (\<lambda>l. l_rse_id l = rse) ls)
                            in account_decrease (account, rse) (int (length sizes), sum_list sizes))
             (remdups (map l_rse_id ls)) c))"

definition cancel_transfers_of :: "(did \<times> string) list \<Rightarrow> rule_db \<Rightarrow> (string option \<times> string) list \<times> rule_db" where
  "cancel_transfers_of ts db =
     fold (\<lambda>(k, rse) (es, db). let (es', db') = cancel_request_did k rse TRANSFER db in (es @ es', db')) ts ([], db)"

definition soft_delete :: "rule_env \<Rightarrow> rule \<Rightarrow> bool \<Rightarrow> rule_db \<Rightarrow> rule_db" where
  "soft_delete env r delete_parent db =
     insert_rule_history (r_id r) True False
       (upd_rule (r_id r) (\<lambda>x. x\<lparr>
          r_expires_at := Some (case r_expires_at x of Some e \<Rightarrow> min (now env + 3600) e | None \<Rightarrow> now env + 3600),
          r_child_rule_id := (if r_child_rule_id x \<noteq> None \<and> delete_parent then None else r_child_rule_id x)\<rparr>) db)"

text \<open>Returned with the state are the transfers, each with its host, that the transfer tool has to cancel.\<close>

definition delete_rule ::
  "rule_env \<Rightarrow> string \<Rightarrow> bool option \<Rightarrow> bool \<Rightarrow> bool \<Rightarrow> bool \<Rightarrow> rule_db
     \<Rightarrow> rucio_error + (string option \<times> string) list \<times> rule_db" where
  "delete_rule env i purge_replicas soft delete_parent ignore_rule_lock db =
     (case get_rule db i of
        Inl _ \<Rightarrow> Inl RuleNotFound
      | Inr r \<Rightarrow>
          if r_locked r \<and> \<not> ignore_rule_lock then Inl UnsupportedOperation
          else if r_child_rule_id r \<noteq> None \<and> \<not> delete_parent then Inl UnsupportedOperation
          else let purge = (case purge_replicas of Some b \<Rightarrow> b | None \<Rightarrow> r_purge_replicas r);
                   db1 = upd_rule i (\<lambda>x. x\<lparr>r_purge_replicas := purge\<rparr>) db
               in if soft then Inr ([], soft_delete env r delete_parent db1)
                  else let ls = filter (\<lambda>l. l_rule_id l = i) (locks db1);
                           (ts, db2) = unlock_loop purge ls db1;
                           db3 = db2\<lparr>dataset_locks := filter (\<lambda>l. dl_rule_id l \<noteq> i) (dataset_locks db2)\<rparr>
                       in rbind (decrease_counters (r_account r) ls (account_counters db3)) (\<lambda>c.
                         let db4 = release_parent_rule i True (db3\<lparr>account_counters := c\<rparr>);
                             db5 = insert_rule_history i False True db4;
                             db6 = db5\<lparr>rules := filter (\<lambda>r. r_id r \<noteq> i) (rules db5)\<rparr>
                         in Inr (cancel_transfers_of ts db6)))"

section \<open>The loops keep the ledger\<close>

text \<open>A body that leaves the row \<open>g\<close> in place of its rule \<open>r\<close>.\<close>

lemma rule_row_moved:
  assumes ok: "ledger_ok db" and r: "get_rule db (l_rule_id l) = Inr r"
    and rows: "rules db' = upd_where (\<lambda>x. r_id x = r_id r) (\<lambda>_. g) (rules db)"
    and g: "cnt_view g = move_cnt l t (cnt_view r)"
    and locks: "locks db' = move_lock l t (locks db)"
    and reps: "rep_views db' = map (move_rep l t) (rep_views db)"
  shows "lock_moved l t db db'"
proof -
  have mem: "r \<in> set (rules db)" and id: "r_id r = l_rule_id l" using get_rule_Inr [OF r] by simp_all
  have one: "x = r" if "x \<in> set (rules db)" and "r_id x = r_id r" for x
    using key_unique [OF ledger_ok_rule_ids [OF ok] that(1) mem that(2)] .
  have "cnt_view (if r_id x = r_id r then g else x) = move_cnt l t (cnt_view x)" if "x \<in> set (rules db)" for x
    using one [OF that] id g by (auto simp: move_cnt_def cnt_view_def)
  then have "cnt_views db' = map (move_cnt l t) (cnt_views db)"
    by (simp add: cnt_views_def rows upd_where_def)
  with locks reps show ?thesis by (simp add: lock_moved_def)
qed

lemma rule_row_coherent:
  assumes "coherent db" and "rules db' = upd_where (\<lambda>x. r_id x = i) (\<lambda>_. g) (rules db)"
    and "coherent_view (state_view g)"
  shows "coherent db'"
  using assms by (auto simp: coherent_def set_upd_where)

lemma upd_where_const:
  "P r1 \<Longrightarrow> upd_where P f (upd_where P (\<lambda>_. r1) rows) = upd_where P (\<lambda>_. f r1) rows"
  by (auto simp: upd_where_def)

lemma move_rep_Some [simp]: "move_rep l (Some s) v = v"
  by (simp add: move_rep_def)

lemma bad_rule_sel [simp]:
  shows "r_id (bad_rule l r) = r_id r" and "r_state (bad_rule l r) = r_state r"
    and "r_grouping (bad_rule l r) = r_grouping r"
  by (simp_all add: bad_rule_def)

lemma cnt_view_shift: "cnt_view (shift_rule l s r) = move_cnt l (Some s) (cnt_view r)" if "r_id r = l_rule_id l"
  using that by (auto simp: shift_rule_def cnt_view_def move_cnt_def cnt_of_add fun_eq_iff)

lemma cnt_view_bad: "r_id r = l_rule_id l \<Longrightarrow> cnt_view (bad_rule l r) = move_cnt l (Some LockREPLICATING) (cnt_view r)"
proof -
  assume id: "r_id r = l_rule_id l"
  have "cnt_view (r\<lparr>r_source_replica_expression := None\<rparr>) = cnt_view r"
    using state_view_upd(4) [where r = r and e = None] by (simp add: state_view_def)
  then show ?thesis using cnt_view_shift id by (simp add: bad_rule_def)
qed

lemma recovery_request_tables:
  assumes "recovery_request env k rse p l r db = Inr db'"
  shows "rules db' = rules db" and "locks db' = locks db" and "replicas db' = replicas db"
  using assms
  by (auto simp: recovery_request_def queue_requests_def Let_def rbind_eq_Inr split: sum.splits prod.splits if_splits)

text \<open>The row of the rule after the body.\<close>

definition bad_row :: "replica_lock \<Rightarrow> rule \<Rightarrow> rule" where
  "bad_row l r = (if r_state r = RuleSUSPENDED \<or> r_state r = RuleSTUCK then bad_rule l r
     else (bad_rule l r)\<lparr>r_state := RuleREPLICATING\<rparr>)"

lemma bad_body_tables:
  assumes "bad_body env k rse p l db = Inr db'"
  obtains r where "get_rule db (l_rule_id l) = Inr r"
    and "rules db' = upd_where (\<lambda>x. r_id x = r_id r) (\<lambda>_. bad_row l r) (rules db)"
    and "locks db' = move_lock l (Some LockREPLICATING) (locks db)" and "replicas db' = replicas db"
proof -
  from assms obtain r where r: "get_rule db (l_rule_id l) = Inr r"
    by (auto simp: bad_body_def rbind_eq_Inr)
  let ?db1 = "upd_rule (r_id r) (\<lambda>_. bad_rule l r) db"
  let ?db2 = "?db1\<lparr>updated_col_rep := updated_col_rep ?db1 @ [(r_did r, r_did_type r, Some (l_rse_id l))]\<rparr>"
  from assms r obtain db3 where q: "recovery_request env k rse p l (bad_rule l r) ?db2 = Inr db3"
    and db': "db' = insert_rule_history (r_id r) True False
      (let db4 = set_lock_state l LockREPLICATING db3
       in if r_state (bad_rule l r) = RuleSUSPENDED \<or> r_state (bad_rule l r) = RuleSTUCK then db4
          else let d = upd_rule (r_id r) (\<lambda>x. x\<lparr>r_state := RuleREPLICATING\<rparr>) db4
               in if r_grouping (bad_rule l r) \<noteq> GroupNONE then set_dataset_locks (r_id r) LockREPLICATING d else d)"
    by (auto simp: bad_body_def rbind_eq_Inr Let_def)
  note defs = insert_rule_history_def Let_def set_lock_state_def set_dataset_locks_def upd_rule_def
  have t3: "rules db3 = upd_where (\<lambda>x. r_id x = r_id r) (\<lambda>_. bad_rule l r) (rules db)"
    "locks db3 = locks db" "replicas db3 = replicas db"
    using recovery_request_tables [OF q] by (simp_all add: upd_rule_def)
  have "rules db' = upd_where (\<lambda>x. r_id x = r_id r) (\<lambda>_. bad_row l r) (rules db)"
    by (simp add: db' defs t3 bad_row_def upd_where_const)
  moreover have "locks db' = move_lock l (Some LockREPLICATING) (locks db)" and "replicas db' = replicas db"
    by (simp_all add: db' defs t3 move_lock_def)
  ultimately show thesis using r that by blast
qed

lemma state_view_bad_row:
  "r_id r = l_rule_id l \<Longrightarrow> state_view (bad_row l r) = (move_cnt l (Some LockREPLICATING) (cnt_view r),
     if r_state r = RuleSUSPENDED \<or> r_state r = RuleSTUCK then r_state r else RuleREPLICATING)"
  by (simp add: bad_row_def state_view_state cnt_view_bad) (simp add: state_view_def cnt_view_bad)

lemma bad_body_moves:
  assumes ok: "ledger_ok db" and run: "bad_body env k rse p l db = Inr db'"
  shows "lock_moved l (Some LockREPLICATING) db db'"
proof -
  from run obtain r where r: "get_rule db (l_rule_id l) = Inr r"
    and t: "rules db' = upd_where (\<lambda>x. r_id x = r_id r) (\<lambda>_. bad_row l r) (rules db)"
      "locks db' = move_lock l (Some LockREPLICATING) (locks db)" "replicas db' = replicas db"
    by (rule bad_body_tables)
  have "r_id r = l_rule_id l" using get_rule_Inr [OF r] by simp
  from arg_cong [OF state_view_bad_row [OF this], of fst]
  have "cnt_view (bad_row l r) = move_cnt l (Some LockREPLICATING) (cnt_view r)" by (simp add: state_view_def)
  then show ?thesis
    by (rule rule_row_moved [OF ok r t(1) _ t(2)]) (simp add: rep_views_def t(3))
qed

lemma bad_body_coherent:
  assumes ok: "ledger_ok db" and co: "coherent db" and l: "l \<in> set (locks db)"
    and run: "bad_body env k rse p l db = Inr db'"
  shows "coherent db'"
proof -
  from run obtain r where r: "get_rule db (l_rule_id l) = Inr r"
    and t: "rules db' = upd_where (\<lambda>x. r_id x = r_id r) (\<lambda>_. bad_row l r) (rules db)"
    by (rule bad_body_tables)
  have id: "r_id r = l_rule_id l" and "coherent_view (state_view r)"
    using co get_rule_Inr [OF r] by (simp_all add: coherent_def)
  with rule_counts_lock [OF ok r l] have "coherent_view (state_view (bad_row l r))"
    unfolding state_view_bad_row [OF id]
    by (cases "l_state l"; cases "r_state r")
      (auto simp: coherent_view_def Let_def state_view_def cnt_view_def move_cnt_def)
  then show ?thesis by (rule rule_row_coherent [OF co t])
qed

interpretation bad_mover: lock_mover "bad_body env k rse p" "Some LockREPLICATING" "\<lambda>_. True" coherent
  by unfold_locales (simp_all add: bad_body_moves bad_body_coherent)

text \<open>The same for the loss of a replica. The lock goes, its counter goes down and so does \<^verbatim>\<open>lock_cnt\<close>.\<close>

definition lost_row :: "replica_lock \<Rightarrow> rule \<Rightarrow> rule" where
  "lost_row l r = (let r1 = add_cnt (l_state l) (-1) r in
     if \<not> (r_state r = RuleSUSPENDED \<or> r_state r = RuleSTUCK) \<and>
        r_locks_replicating_cnt r1 = 0 \<and> r_locks_stuck_cnt r1 = 0
     then r1\<lparr>r_state := RuleOK\<rparr> else r1)"

lemma lost_rule_state_ledger:
  assumes "lost_rule_state env before r db = Inr db'"
  shows "same_ledger (if \<not> (r_state r = RuleSUSPENDED \<or> r_state r = RuleSTUCK) \<and>
      r_locks_replicating_cnt r = 0 \<and> r_locks_stuck_cnt r = 0
    then upd_rule (r_id r) (\<lambda>x. x\<lparr>r_state := RuleOK\<rparr>) db else db) db'"
    (is "same_ledger (if ?c then ?db1 else db) db'")
proof (cases ?c)
  case False
  with assms show ?thesis by (auto simp: lost_rule_state_def split: if_splits)
next
  case True
  let ?db2 = "if r_grouping r \<noteq> GroupNONE then set_dataset_locks (r_id r) LockOK ?db1 else ?db1"
  from True assms obtain db3 where db3: "(if before \<noteq> RuleOK
       then rbind (generate_rule_notifications env (r_id r) None ?db2)
              (generate_email_for_rule_ok_notification env (r_id r)) else Inr ?db2) = Inr db3"
    and db': "db' = release_parent_rule (r_id r) False db3"
    by (auto simp: lost_rule_state_def Let_def rbind_eq_Inr)
  have "same_ledger ?db1 ?db2" by simp
  also have "same_ledger ?db2 db3"
    using db3 by (auto simp: rbind_eq_Inr split: if_splits
        intro: same_ledger_trans dest!: notifications_ledger email_ledger)
  also have "same_ledger db3 db'" by (simp add: db')
  finally show ?thesis using True by simp
qed

lemma lost_body_tables:
  assumes run: "lost_body env k rse l db = Inr db'"
  obtains r db1 b where "get_rule db (l_rule_id l) = Inr r" and "l_bytes l = Some b" and "b \<noteq> 0"
    and "rules db1 = upd_where (\<lambda>x. r_id x = r_id r) (\<lambda>_. lost_row l r) (rules db)"
    and "locks db1 = locks db"
    and "replicas db1 = upd_where (\<lambda>p. p_key p = (k, rse)) (\<lambda>p. p\<lparr>p_lock_cnt := p_lock_cnt p - 1\<rparr>) (replicas db)"
    and "same_ledger (delete_lock l db1) db'"
proof -
  from run obtain r where r: "get_rule db (l_rule_id l) = Inr r" by (auto simp: lost_body_def rbind_eq_Inr)
  let ?r1 = "add_cnt (l_state l) (-1) r"
  let ?db1 = "(upd_rule (r_id r) (\<lambda>_. ?r1) db)\<lparr>replicas :=
     upd_where (\<lambda>p. p_key p = (k, rse)) (\<lambda>p. p\<lparr>p_lock_cnt := p_lock_cnt p - 1\<rparr>) (replicas db)\<rparr>"
  from run r obtain b where b: "l_bytes l = Some b" "b \<noteq> 0"
    by (cases "l_bytes l") (auto simp: lost_body_def Let_def split: if_splits)
  let ?db2 = "?db1\<lparr>account_counters := account_decrease (r_account r, rse) (1, b) (account_counters ?db1)\<rparr>"
  from run r b obtain db3 where s: "lost_rule_state env (r_state r) ?r1 ?db2 = Inr db3"
    and db': "db' = delete_lock l (insert_rule_history (r_id r) True False db3)"
    by (auto simp: lost_body_def Let_def rbind_eq_Inr)
  define e where "e = (if \<not> (r_state ?r1 = RuleSUSPENDED \<or> r_state ?r1 = RuleSTUCK) \<and>
      r_locks_replicating_cnt ?r1 = 0 \<and> r_locks_stuck_cnt ?r1 = 0
    then upd_rule (r_id ?r1) (\<lambda>x. x\<lparr>r_state := RuleOK\<rparr>) ?db2 else ?db2)"
  have e: "rules e = upd_where (\<lambda>x. r_id x = r_id r) (\<lambda>_. lost_row l r) (rules db)" "locks e = locks db"
    "replicas e = replicas ?db1"
    by (simp_all add: e_def upd_rule_def upd_where_const lost_row_def Let_def)
  have "same_ledger e db3" using lost_rule_state_ledger [OF s] by (simp only: e_def)
  then have "same_ledger e (insert_rule_history (r_id r) True False db3)"
    by (rule same_ledger_trans) simp
  then have "same_ledger (delete_lock l e) db'"
    by (simp add: same_ledger_def delete_lock_def db' rep_views_def)
  with r b e show thesis using that [of r b e] by simp
qed

lemma cnt_view_drop: "r_id r = l_rule_id l \<Longrightarrow> cnt_view (add_cnt (l_state l) (-1) r) = move_cnt l None (cnt_view r)"
  by (auto simp: cnt_view_def move_cnt_def cnt_of_add fun_eq_iff)

lemma state_view_lost_row:
  assumes "r_id r = l_rule_id l"
  shows "state_view (lost_row l r) = (move_cnt l None (cnt_view r),
     if \<not> (r_state r = RuleSUSPENDED \<or> r_state r = RuleSTUCK) \<and>
        snd (move_cnt l None (cnt_view r)) LockREPLICATING = 0 \<and> snd (move_cnt l None (cnt_view r)) LockSTUCK = 0
     then RuleOK else r_state r)"
proof -
  let ?r1 = "add_cnt (l_state l) (-1) r"
  have c: "lock_cnt_of s ?r1 = snd (move_cnt l None (cnt_view r)) s" for s
    using arg_cong [OF cnt_view_drop [OF assms], of snd] by (simp add: cnt_view_def fun_eq_iff)
  have v: "cnt_view ?r1 = move_cnt l None (cnt_view r)" by (rule cnt_view_drop [OF assms])
  have "state_view ?r1 = (move_cnt l None (cnt_view r), r_state r)" by (simp add: state_view_def v)
  then show ?thesis
    using c [of LockREPLICATING] c [of LockSTUCK] by (simp add: lost_row_def Let_def state_view_state v)
qed

lemma lost_body_moves:
  assumes ok: "ledger_ok db" and at: "l_replica l = (k, rse)" and run: "lost_body env k rse l db = Inr db'"
  shows "lock_moved l None db db'"
proof -
  from run obtain r db1 where r: "get_rule db (l_rule_id l) = Inr r"
    and t: "rules db1 = upd_where (\<lambda>x. r_id x = r_id r) (\<lambda>_. lost_row l r) (rules db)" "locks db1 = locks db"
      "replicas db1 = upd_where (\<lambda>p. p_key p = (k, rse)) (\<lambda>p. p\<lparr>p_lock_cnt := p_lock_cnt p - 1\<rparr>) (replicas db)"
    and s: "same_ledger (delete_lock l db1) db'"
    by (rule lost_body_tables)
  have id: "r_id r = l_rule_id l" using get_rule_Inr [OF r] by simp
  have "cnt_view (lost_row l r) = move_cnt l None (cnt_view r)"
    using arg_cong [OF state_view_lost_row [OF id], of fst] by (simp add: state_view_def)
  then have "lock_moved l None db (delete_lock l db1)"
    by (intro rule_row_moved [OF ok r])
      (simp_all add: t delete_lock_def move_lock_def rep_views_def upd_where_def move_rep_def rep_view_def p_key_def at)
  then show ?thesis using s by (rule lock_moved_trans_same)
qed

lemma lost_body_coherent:
  assumes ok: "ledger_ok db" and co: "coherent db" and l: "l \<in> set (locks db)"
    and run: "lost_body env k rse l db = Inr db'"
  shows "coherent db'"
proof -
  from run obtain r db1 where r: "get_rule db (l_rule_id l) = Inr r"
    and t: "rules db1 = upd_where (\<lambda>x. r_id x = r_id r) (\<lambda>_. lost_row l r) (rules db)"
    and s: "same_ledger (delete_lock l db1) db'"
    by (rule lost_body_tables)
  have id: "r_id r = l_rule_id l" and "coherent_view (state_view r)"
    using co get_rule_Inr [OF r] by (simp_all add: coherent_def)
  with rule_counts_lock(1) [OF ok r l, of LockREPLICATING] rule_counts_lock(1) [OF ok r l, of LockSTUCK]
    rule_counts_lock(2) [OF ok r l]
  have "coherent_view (state_view (lost_row l r))"
    unfolding state_view_lost_row [OF id]
    by (cases "l_state l"; cases "r_state r")
      (auto simp: coherent_view_def Let_def state_view_def cnt_view_def move_cnt_def)
  then have "coherent (delete_lock l db1)"
    by (intro rule_row_coherent [OF co]) (simp_all add: t delete_lock_def)
  then show ?thesis by (simp add: same_ledger_coherent [OF s])
qed

interpretation lost_mover: lock_mover "lost_body env k rse" None "\<lambda>l. l_replica l = (k, rse)" coherent
  by unfold_locales (simp_all add: lost_body_moves lost_body_coherent)

section \<open>Recovery of a bad replica\<close>

lemma fold_move_lock_None:
  "fold (\<lambda>l. move_lock l None) ls ks = filter (\<lambda>k. l_key k \<notin> l_key ` set ls) ks"
proof (induction ls arbitrary: ks)
  case Nil
  then show ?case by simp
next
  case (Cons l ls)
  have "filter (\<lambda>k. l_key k \<notin> l_key ` set ls) (filter (\<lambda>k. l_key k \<noteq> l_key l) ks)
      = filter (\<lambda>k. l_key k \<notin> l_key ` set (l # ls)) ks"
    by (simp add: conj_commute)
  with Cons show ?case by (simp add: move_lock_def)
qed

lemma filter_selected:
  assumes "distinct (map l_key ls)"
  shows "filter (\<lambda>k. l_key k \<notin> l_key ` set (filter Q ls)) ls = filter (\<lambda>k. \<not> Q k) ls"
proof (rule filter_cong [OF refl])
  fix k assume k: "k \<in> set ls"
  show "(l_key k \<notin> l_key ` set (filter Q ls)) = (\<not> Q k)"
  proof
    assume "\<not> Q k"
    show "l_key k \<notin> l_key ` set (filter Q ls)"
    proof
      assume "l_key k \<in> l_key ` set (filter Q ls)"
      then obtain m where "m \<in> set (filter Q ls)" and "l_key k = l_key m" by blast
      with key_unique [OF assms k, of m] \<open>\<not> Q k\<close> show False by simp
    qed
  qed (use k in auto)
qed

lemma same_ledger_replicas:
  assumes "\<And>p. rep_view (f p) = rep_view p"
  shows "same_ledger db (db\<lparr>replicas := upd_where P f (replicas db)\<rparr>)"
  using assms by (simp add: same_ledger_def rep_views_def map_upd_where)

lemma rep_view_upd [simp]:
  shows "rep_view (p\<lparr>p_state := s\<rparr>) = rep_view p" and "rep_view (p\<lparr>p_tombstone := t\<rparr>) = rep_view p"
  by (simp_all add: rep_view_def p_key_def)

text \<open>A body of the loop leaves a request for the replica in the queue.\<close>

definition requested :: "did \<Rightarrow> string \<Rightarrow> rule_db \<Rightarrow> bool" where
  "requested k rse db \<longleftrightarrow> (\<exists>q \<in> set (requests db). rq_key q = (k, rse))"

lemma recovery_request_requested:
  assumes "recovery_request env k rse p l r db = Inr db'"
  shows "requested k rse db'"
proof (cases "get_request_by_did db k rse None")
  case (Inr q)
  with assms show ?thesis
    by (auto simp: recovery_request_def requested_def get_request_by_did_def dest: filter_ConsD split: list.splits)
next
  case (Inl e)
  let ?q = "create_transfer_dict rse TRANSFER k r (Some l) (Some (p_bytes p)) (p_md5 p) (p_adler32 p)
     (Some (r_did r)) None (Some ''Recovery'') None"
  have key: "q_key ?q = (k, rse)" by (simp add: create_transfer_dict_def q_key_def)
  have "\<forall>x \<in> set (requests db). rq_key x \<noteq> (k, rse)"
    using Inl by (auto simp: get_request_by_did_def filter_empty_conv split: list.splits)
  then have "(k, rse) \<notin> set (existing_requests (requests db))"
    by (auto simp: existing_requests_def)
  with assms Inl key show ?thesis
    by (auto simp: recovery_request_def queue_requests_def Let_def rbind_eq_Inr requested_def
        split: prod.splits if_splits)
qed

lemma bad_body_requested: "bad_body env k rse p l db = Inr db' \<Longrightarrow> requested k rse db'"
proof -
  assume "bad_body env k rse p l db = Inr db'"
  then obtain r db2 db3 where q: "recovery_request env k rse p l r db2 = Inr db3" and eq: "requests db' = requests db3"
    by (auto simp: bad_body_def rbind_eq_Inr Let_def insert_rule_history_def set_lock_state_def
        set_dataset_locks_def upd_rule_def)
  from recovery_request_requested [OF q] eq show ?thesis by (simp add: requested_def)
qed

lemma bad_replica_recovers_effect:
  assumes "update_rules_for_bad_replica env k rse db = Inr db'" and "ledger_ok db" and "coherent db"
  shows "locks db' = upd_where (\<lambda>l. l_replica l = (k, rse)) (\<lambda>l. l\<lparr>l_state := LockREPLICATING\<rparr>) (locks db) \<and>
    ledger_ok db' \<and> coherent db' \<and>
    ((\<exists>l \<in> set (locks db). l_replica l = (k, rse)) \<longrightarrow> (\<exists>q \<in> set (requests db'). rq_key q = (k, rse)))"
proof -
  let ?ls = "replica_locks_at db k rse"
  from assms(1) obtain p db1 where loop: "rfold (bad_body env k rse p) ?ls db = Inr db1"
    and db': "db' = (if ?ls \<noteq> [] then
        db1\<lparr>replicas := upd_where (\<lambda>p. p_key p = (k, rse)) (\<lambda>p. p\<lparr>p_state := COPYING\<rparr>) (replicas db1)\<rparr>
      else db1\<lparr>replicas := upd_where (\<lambda>p. p_key p = (k, rse))
        (\<lambda>p. p\<lparr>p_state := UNAVAILABLE, p_tombstone := Some OBSOLETE\<rparr>) (replicas db1)\<rparr>)"
    by (auto simp: update_rules_for_bad_replica_def rbind_eq_Inr Let_def)
  have same: "same_ledger db1 db'" "requests db' = requests db1"
    unfolding db' by (auto intro!: same_ledger_replicas)
  have moved: "ledger_ok db1 \<and> coherent db1 \<and> locks db1 = fold (\<lambda>l. move_lock l (Some LockREPLICATING)) ?ls (locks db)"
    by (rule bad_mover.loop_replica [OF loop assms(2,3)]) simp
  have "locks db' = upd_where (\<lambda>l. l_replica l = (k, rse)) (\<lambda>l. l\<lparr>l_state := LockREPLICATING\<rparr>) (locks db)"
    using moved same(1)
    unfolding same_ledger_def fold_move_lock replica_locks_at_def
      upd_where_selected [OF ledger_ok_lock_keys [OF assms(2)]] by simp
  moreover have "requested k rse db1" if "?ls \<noteq> []"
  proof -
    from that obtain l ls where ls: "?ls = l # ls" by (cases ?ls) auto
    with loop obtain d where d: "bad_body env k rse p l db = Inr d" and rest: "rfold (bad_body env k rse p) ls d = Inr db1"
      by auto
    show ?thesis
      by (rule rfold_invariant [OF rest, of "requested k rse"]) (blast intro: bad_body_requested d)+
  qed
  moreover have "?ls \<noteq> [] \<longleftrightarrow> (\<exists>l \<in> set (locks db). l_replica l = (k, rse))"
    by (simp add: replica_locks_at_def filter_empty_conv)
  ultimately show ?thesis
    using moved same_ledger_ok [OF same(1)] same_ledger_coherent [OF same(1)] same(2)
    by (simp add: requested_def)
qed

text \<open>C11: When a bad replica is declared, \<^verbatim>\<open>update_rules_for_bad_replica\<close> sends exactly the locks of that
  replica back to \<^verbatim>\<open>REPLICATING\<close>, keeps all counters exact and all rule states coherent, and leaves a
  request for the file at that RSE in the queue unless the replica has no lock at all.\<close>

theorem bad_replica_recovers:
  assumes "update_rules_for_bad_replica env k rse db = Inr db'" and "ledger_ok db" and "coherent db"
  shows "locks db' = upd_where (\<lambda>l. l_replica l = (k, rse)) (\<lambda>l. l\<lparr>l_state := LockREPLICATING\<rparr>) (locks db) \<and>
    ledger_ok db' \<and> coherent db' \<and>
    ((\<exists>l \<in> set (locks db). l_replica l = (k, rse)) \<longrightarrow> (\<exists>q \<in> set (requests db'). rq_key q = (k, rse)))"
  by (rule bad_replica_recovers_effect [OF assms])

theorem bad_replica_recovers_witness:
  "\<exists>db'. update_rules_for_bad_replica demo_rule_env (atlas, ''g'') ''A'' two_files = Inr db' \<and>
     map l_state (locks db') = [LockREPLICATING, LockREPLICATING] \<and>
     (\<exists>q \<in> set (requests db'). rq_key q = ((atlas, ''g''), ''A'')) \<and> ledger_ok db'"
proof -
  have "\<not> isl (update_rules_for_bad_replica demo_rule_env (atlas, ''g'') ''A'' two_files)"
    by code_simp
  then obtain db' where run: "update_rules_for_bad_replica demo_rule_env (atlas, ''g'') ''A'' two_files = Inr db'"
    by (rule returnsE)
  from bad_replica_recovers [OF run two_files_ok] run show ?thesis
    by (simp add: demo_defs l_replica_def l_did_def)
qed

section \<open>Loss of a replica\<close>

lemma detach_one_rules:
  assumes "detach_one t ds parent k acc = Inr (acc' :: rule_db \<times> message list)"
  shows "rules (fst acc') = rules (fst acc) \<and> locks (fst acc') = locks (fst acc) \<and> replicas (fst acc') = replicas (fst acc)"
  using assms by (auto simp: detach_one_def Let_def split: if_splits list.splits)

lemma detach_dids_rules:
  assumes "detach_dids sv t ds ks db = Inr (db' :: rule_db)"
  shows "rules db' = rules db \<and> locks db' = locks db \<and> replicas db' = replicas db"
proof -
  let ?db1 = "db\<lparr>updated_dids := updated_dids db @ [(ds, ReEvalDETACH)]\<rparr>"
  from assms obtain parent acc ms where fold: "rfold (detach_one t ds parent) ks (?db1, []) = Inr acc"
    and db': "db' = (fst acc)\<lparr>messages := ms\<rparr>"
    by (auto simp: detach_dids_def Let_def rbind_eq_Inr split: list.splits if_splits prod.splits)
  have "rules (fst acc) = rules db \<and> locks (fst acc) = locks db \<and> replicas (fst acc) = replicas db"
    by (rule rfold_invariant [OF fold, of "\<lambda>a. rules (fst a) = rules db \<and> locks (fst a) = locks db \<and>
          replicas (fst a) = replicas db"]) (simp, metis detach_one_rules)
  then show ?thesis by (simp add: db')
qed

lemma lost_dataset_tables:
  assumes "lost_dataset env k ds db = Inr db'"
  shows "rules db' = rules db \<and> locks db' = locks db \<and> replicas db' = replicas db"
  using assms detach_dids_rules [of "services env" "now env" ds "[k]" db]
  by (auto simp: lost_dataset_def rbind_eq_Inr add_message_def)

lemma rep_view_lost: "p_lock_cnt p = 0 \<Longrightarrow> rep_view (lost_replica_row p) = rep_view p"
  by (simp add: lost_replica_row_def rep_view_def p_key_def)

lemma lost_replica_unlocked_effect:
  assumes "update_rules_for_lost_replica env k rse db = Inr db'" and "ledger_ok db" and "coherent db"
  shows "locks db' = filter (\<lambda>l. l_replica l \<noteq> (k, rse)) (locks db) \<and> ledger_ok db' \<and> coherent db' \<and>
    (\<forall>p \<in> set (replicas db'). p_key p = (k, rse) \<longrightarrow>
       p_lock_cnt p = 0 \<and> p_state p = UNAVAILABLE \<and> p_tombstone p = Some OBSOLETE) \<and>
    (\<exists>db2. rfold (lost_body env k rse) (replica_locks_at db k rse)
        (db\<lparr>requests := filter (\<lambda>q. rq_key q \<noteq> (k, rse)) (requests db)\<rparr>) = Inr db2 \<and>
      (\<forall>p \<in> set (replicas db2). p_key p = (k, rse) \<longrightarrow> p_lock_cnt p = 0))"
proof -
  let ?ls = "replica_locks_at db k rse"
  define db1 where "db1 = db\<lparr>requests := filter (\<lambda>q. rq_key q \<noteq> (k, rse)) (requests db)\<rparr>"
  from assms(1) obtain db2 where loop: "rfold (lost_body env k rse) ?ls db1 = Inr db2"
    and rest: "rfold (lost_dataset env k) (lost_parents db k)
      (db2\<lparr>replicas := upd_where (\<lambda>p. p_key p = (k, rse)) lost_replica_row (replicas db2),
         dids := upd_where (\<lambda>d. did_of d = k) (\<lambda>d. d\<lparr>d_lost := True\<rparr>) (dids db2),
         bad_replicas := map (\<lambda>(k', rse', s). if k' = k \<and> rse' = rse \<and> s = BadBAD
           then (k', rse', BadLOST) else (k', rse', s)) (bad_replicas db2)\<rparr>) = Inr db'"
      (is "rfold _ _ ?db3 = _")
    by (auto simp: update_rules_for_lost_replica_def rbind_eq_Inr Let_def db1_def split: if_splits)
  have s1: "same_ledger db db1" by (rule same_ledger_tables) (simp_all add: db1_def)
  have ls: "?ls = replica_locks_at db1 k rse" by (simp add: replica_locks_at_def db1_def)
  have "ledger_ok db2 \<and> coherent db2 \<and> locks db2 = fold (\<lambda>l. move_lock l None) (replica_locks_at db1 k rse) (locks db1)"
    using loop assms(2,3) unfolding ls
    by (intro lost_mover.loop_replica) (simp_all add: same_ledger_ok [OF s1] same_ledger_coherent [OF s1])
  then have ok2: "ledger_ok db2" "coherent db2"
    and locks2: "locks db2 = filter (\<lambda>l. l_replica l \<noteq> (k, rse)) (locks db)"
    unfolding fold_move_lock_None replica_locks_at_def
    using filter_selected [OF ledger_ok_lock_keys [OF assms(2)]] by (simp_all add: db1_def)
  have zero: "p_lock_cnt p = 0" if "p \<in> set (replicas db2)" "p_key p = (k, rse)" for p
    using ledger_ok_replica [OF ok2(1) that(1)] that(2) by (simp add: locks2 replica_total_def)
  have tail: "rules db' = rules db2 \<and> locks db' = locks db2 \<and> replicas db' = replicas ?db3"
    by (rule rfold_invariant [OF rest, of "\<lambda>d. rules d = rules db2 \<and> locks d = locks db2 \<and> replicas d = replicas ?db3"])
      (simp, metis lost_dataset_tables)
  have "rep_view (if p_key p = (k, rse) then lost_replica_row p else p) = rep_view p" if "p \<in> set (replicas db2)" for p
    using zero [OF that] by (auto simp: rep_view_lost)
  then have "same_ledger db2 db'"
    using tail by (simp add: same_ledger_def rep_views_def upd_where_def)
  then have "ledger_ok db' \<and> coherent db'"
    using ok2 by (simp add: same_ledger_ok same_ledger_coherent)
  moreover have "p_lock_cnt p = 0 \<and> p_state p = UNAVAILABLE \<and> p_tombstone p = Some OBSOLETE"
    if p: "p \<in> set (replicas db')" "p_key p = (k, rse)" for p
  proof -
    from p(1) tail have "p \<in> set (upd_where (\<lambda>p. p_key p = (k, rse)) lost_replica_row (replicas db2))" by simp
    then show ?thesis
    proof (cases rule: mem_upd_whereE)
      case (updated x)
      with zero [of x] show ?thesis by (simp add: lost_replica_row_def)
    qed (use p in simp)
  qed
  moreover have "\<exists>db2. rfold (lost_body env k rse) ?ls (db\<lparr>requests := filter (\<lambda>q. rq_key q \<noteq> (k, rse)) (requests db)\<rparr>) = Inr db2 \<and>
      (\<forall>p \<in> set (replicas db2). p_key p = (k, rse) \<longrightarrow> p_lock_cnt p = 0)"
    by (rule exI [of _ db2]) (use loop zero in \<open>simp add: db1_def\<close>)
  ultimately show ?thesis using tail locks2 by auto
qed

text \<open>C12: When a replica is declared lost and \<^verbatim>\<open>update_rules_for_lost_replica\<close> returns, exactly the locks of
  that replica are gone, all counters are exact and all rule states coherent, the replica counts no locks, and it is marked
  \<^verbatim>\<open>UNAVAILABLE\<close> and obsolete. The loop over the locks alone brings \<^verbatim>\<open>lock_cnt\<close> down to zero, so that the correction
  after it, which the code calls impossible, is never needed.\<close>

theorem lost_replica_unlocked:
  assumes "update_rules_for_lost_replica env k rse db = Inr db'" and "ledger_ok db" and "coherent db"
  shows "locks db' = filter (\<lambda>l. l_replica l \<noteq> (k, rse)) (locks db) \<and> ledger_ok db' \<and> coherent db' \<and>
    (\<forall>p \<in> set (replicas db'). p_key p = (k, rse) \<longrightarrow>
       p_lock_cnt p = 0 \<and> p_state p = UNAVAILABLE \<and> p_tombstone p = Some OBSOLETE) \<and>
    (\<exists>db2. rfold (lost_body env k rse) (replica_locks_at db k rse)
        (db\<lparr>requests := filter (\<lambda>q. rq_key q \<noteq> (k, rse)) (requests db)\<rparr>) = Inr db2 \<and>
      (\<forall>p \<in> set (replicas db2). p_key p = (k, rse) \<longrightarrow> p_lock_cnt p = 0))"
  by (rule lost_replica_unlocked_effect [OF assms])

text \<open>C23: The loss of a file of size zero (or without a size) cannot be handled: as long as a lock of the
  replica has no bytes, \<^verbatim>\<open>update_rules_for_lost_replica\<close> raises and nothing is committed.\<close>

theorem lost_empty_file_raises:
  assumes "l \<in> set (locks db)" and "l_replica l = (k, rse)" and "l_bytes l \<in> {None, Some 0}"
  shows "\<exists>e. update_rules_for_lost_replica env k rse db = Inl e"
proof (cases "update_rules_for_lost_replica env k rse db")
  case (Inr db')
  let ?db1 = "db\<lparr>requests := filter (\<lambda>q. rq_key q \<noteq> (k, rse)) (requests db)\<rparr>"
  from Inr obtain db2 where loop: "rfold (lost_body env k rse) (replica_locks_at db k rse) ?db1 = Inr db2"
    by (auto simp: update_rules_for_lost_replica_def rbind_eq_Inr Let_def split: if_splits)
  have "l \<in> set (replica_locks_at db k rse)" using assms(1,2) by (simp add: replica_locks_at_def)
  then obtain xs ys where "replica_locks_at db k rse = xs @ l # ys" by (meson split_list)
  with loop obtain d d' where "lost_body env k rse l d = Inr d'" by (auto simp: rfold_append rbind_eq_Inr)
  then have False using assms(3) by (cases rule: lost_body_tables) simp
  then show ?thesis ..
qed simp

theorem lost_replica_unlocked_witness:
  "\<exists>db'. update_rules_for_lost_replica demo_rule_env (atlas, ''f'') ''A'' two_files = Inr db' \<and>
     locks db' = [demo_lock ''R'' ''g'' LockOK] \<and> coherent db'"
proof -
  have "\<not> isl (update_rules_for_lost_replica demo_rule_env (atlas, ''f'') ''A'' two_files)"
    by code_simp
  then obtain db' where run: "update_rules_for_lost_replica demo_rule_env (atlas, ''f'') ''A'' two_files = Inr db'"
    by (rule returnsE)
  from lost_replica_unlocked [OF run two_files_ok] run show ?thesis
    by (simp add: demo_defs l_replica_def l_did_def)
qed

theorem lost_empty_file_raises_witness:
  "\<exists>e. update_rules_for_lost_replica demo_rule_env (atlas, ''f'') ''A''
     (demo_rule_db [demo_rule ''R'' RuleOK 1 0 0] [(demo_lock ''R'' ''f'' LockOK)\<lparr>l_bytes := Some 0\<rparr>] [demo_replica ''f'' 1])
     = Inl e"
  by (rule lost_empty_file_raises [where l = "(demo_lock ''R'' ''f'' LockOK)\<lparr>l_bytes := Some 0\<rparr>"])
    (simp_all add: demo_rule_db_def demo_lock_def l_replica_def l_did_def)

section \<open>Deletion of a rule\<close>

text \<open>While the locks of the rule go one by one only the counters of the replicas are exact.\<close>

definition replicas_ok :: "rule_db \<Rightarrow> bool" where
  "replicas_ok db \<longleftrightarrow> distinct (map l_key (locks db)) \<and> distinct (map fst (rep_views db)) \<and>
     (\<forall>(k, n) \<in> set (rep_views db). n = replica_total (locks db) k)"

lemma rep_view_unlock: "rep_view (replica_after_unlock purge s p) = (p_key p, p_lock_cnt p - 1)"
  by (simp add: replica_after_unlock_def rep_view_def p_key_def Let_def)

lemma get_replica_Inl: "get_replica db k = Inl e \<Longrightarrow> \<forall>p \<in> set (replicas db). p_key p \<noteq> k"
  by (auto simp: get_replica_def filter_empty_conv split: list.splits)

lemma unlock_tables:
  assumes "delete_lock_and_update_replica purge l db = (c, db')"
  shows "locks db' = move_lock l None (locks db)" and "rep_views db' = map (move_rep l None) (rep_views db)"
    and "rules db' = rules db" and "dataset_locks db' = dataset_locks db" and "account_counters db' = account_counters db"
    and "requests db' = requests db"
proof -
  show "locks db' = move_lock l None (locks db)" and "rules db' = rules db"
    and "dataset_locks db' = dataset_locks db" and "account_counters db' = account_counters db"
    and "requests db' = requests db"
    using assms by (auto simp: delete_lock_and_update_replica_def Let_def delete_lock_def move_lock_def split: sum.splits)
  show "rep_views db' = map (move_rep l None) (rep_views db)"
  proof (cases "get_replica (delete_lock l db) (l_replica l)")
    case (Inl e)
    then have none: "\<forall>p \<in> set (replicas db). p_key p \<noteq> l_replica l"
      using get_replica_Inl [OF Inl] by (simp add: delete_lock_def)
    then have "map (move_rep l None) (rep_views db) = rep_views db"
      by (auto simp: rep_views_def move_rep_def rep_view_def)
    moreover have "replicas db' = replicas db"
      using Inl assms by (auto simp: delete_lock_and_update_replica_def Let_def delete_lock_def)
    ultimately show ?thesis by (simp add: rep_views_def)
  next
    case (Inr p)
    with assms have "replicas db' = upd_where (\<lambda>p. p_key p = l_replica l) (replica_after_unlock purge (l_state l)) (replicas db)"
      by (auto simp: delete_lock_and_update_replica_def Let_def delete_lock_def)
    then show ?thesis
      by (simp add: rep_views_def upd_where_def rep_view_unlock move_rep_def) (simp add: rep_view_def)
  qed
qed

lemma unlock_replicas_ok:
  assumes "delete_lock_and_update_replica purge l db = (c, db')" and "replicas_ok db" and "l \<in> set (locks db)"
  shows "replicas_ok db'"
proof -
  have keys: "distinct (map l_key (locks db))" using assms(2) by (simp add: replicas_ok_def)
  have "n = replica_total (locks db') k" if "(k, n) \<in> set (rep_views db')" for k n
    using that assms(2) by (auto simp: unlock_tables [OF assms(1)] replica_total_move [OF keys assms(3)] replicas_ok_def move_rep_def)
  moreover have "map fst (rep_views db') = map fst (rep_views db)"
    by (simp add: unlock_tables [OF assms(1)])
  ultimately show ?thesis
    using assms(2) move_lock_keys [OF keys] by (auto simp: replicas_ok_def unlock_tables(1) [OF assms(1)])
qed

lemma unlock_loop_tables:
  assumes "unlock_loop purge ls db = (ts, db')" and "replicas_ok db" and "set ls \<subseteq> set (locks db)"
    and "distinct (map l_key ls)"
  shows "replicas_ok db' \<and> locks db' = fold (\<lambda>l. move_lock l None) ls (locks db) \<and> rules db' = rules db \<and>
    dataset_locks db' = dataset_locks db \<and> account_counters db' = account_counters db \<and>
    map fst (rep_views db') = map fst (rep_views db)"
  using assms
proof (induction ls arbitrary: db ts)
  case Nil
  then show ?case by simp
next
  case (Cons l ls)
  obtain c db1 where step: "delete_lock_and_update_replica purge l db = (c, db1)" by (cases "delete_lock_and_update_replica purge l db")
  obtain ts' where rest: "unlock_loop purge ls db1 = (ts', db')"
    using Cons.prems(1) by (auto simp: step split: prod.splits)
  have l: "l \<in> set (locks db)" using Cons.prems(3) by simp
  have "set ls \<subseteq> set (locks db1)"
    unfolding unlock_tables(1) [OF step]
    using lost_mover.others_stay Cons.prems(3,4) by blast
  from Cons.IH [OF rest unlock_replicas_ok [OF step Cons.prems(2) l] this] Cons.prems(4)
  show ?case by (simp add: unlock_tables [OF step])
qed

lemma archive_rules:
  "rules (archive_request i db) = rules db \<and> locks (archive_request i db) = locks db \<and>
   replicas (archive_request i db) = replicas db \<and> dataset_locks (archive_request i db) = dataset_locks db \<and>
   account_counters (archive_request i db) = account_counters db"
  by (auto simp: archive_request_def split: option.splits)

lemma cancel_rules:
  assumes "cancel_transfers_of ts db = (es, db')"
  shows "rules db' = rules db \<and> locks db' = locks db \<and> replicas db' = replicas db \<and>
    dataset_locks db' = dataset_locks db \<and> account_counters db' = account_counters db"
proof -
  have fold: "rules (fold (\<lambda>r. archive_request (rq_id r)) qs db) = rules db \<and>
      locks (fold (\<lambda>r. archive_request (rq_id r)) qs db) = locks db \<and>
      replicas (fold (\<lambda>r. archive_request (rq_id r)) qs db) = replicas db \<and>
      dataset_locks (fold (\<lambda>r. archive_request (rq_id r)) qs db) = dataset_locks db \<and>
      account_counters (fold (\<lambda>r. archive_request (rq_id r)) qs db) = account_counters db" for qs and db :: rule_db
    by (induction qs arbitrary: db) (simp_all add: archive_rules)
  have "fold (\<lambda>(k, rse) (es, db). let (es', db') = cancel_request_did k rse TRANSFER db in (es @ es', db')) ts (es0, db)
      = (es, db') \<Longrightarrow> rules db' = rules db \<and> locks db' = locks db \<and> replicas db' = replicas db \<and>
    dataset_locks db' = dataset_locks db \<and> account_counters db' = account_counters db" for es0
    by (induction ts arbitrary: es0 db) (auto simp: cancel_request_did_def Let_def fold)
  then show ?thesis using assms by (simp add: cancel_transfers_of_def)
qed

text \<open>The account counters: each RSE of the locks is charged once, with all its files and bytes.\<close>

lemma pending_fold_decrease:
  assumes "distinct xs"
  shows "account_pending au_bytes (fold (\<lambda>rse. account_decrease (a, rse) (n rse, b rse)) xs c) (a', x)
    = account_pending au_bytes c (a', x) - (if a' = a \<and> x \<in> set xs then b x else 0)"
  using assms
proof (induction xs arbitrary: c)
  case Nil
  then show ?case by simp
next
  case (Cons rse xs)
  then show ?case
    by (auto simp: account_decrease_def account_bytes.pending_inc)
qed

lemma decrease_counters_pending:
  assumes "decrease_counters a ls c = Inr c'"
  shows "account_pending au_bytes c' (a', x) = account_pending au_bytes c (a', x)
    - (if a' = a then sum_where (\<lambda>l. l_rse_id l = x) (\<lambda>l. the (l_bytes l)) ls else 0)"
proof -
  let ?n = "\<lambda>rse. int (length (filter (\<lambda>l. l_rse_id l = rse) ls))"
  let ?b = "\<lambda>rse. sum_where (\<lambda>l. l_rse_id l = rse) (\<lambda>l. the (l_bytes l)) ls"
  have c': "c' = fold (\<lambda>rse. account_decrease (a, rse) (?n rse, ?b rse)) (remdups (map l_rse_id ls)) c"
    using assms by (simp add: decrease_counters_def Let_def sum_where_def split: if_splits)
  have "?b x = 0" if "x \<notin> set (remdups (map l_rse_id ls))"
    using that by (intro sum_where_none) auto
  then show ?thesis unfolding c' pending_fold_decrease [OF distinct_remdups] by auto
qed

text \<open>The same ledger up to the rule that goes.\<close>

lemma ledger_ok_without:
  assumes ok: "ledger_ok db" and reps: "replicas_ok db'"
    and locks: "locks db' = filter (\<lambda>l. l_rule_id l \<noteq> i) (locks db)"
    and views: "cnt_views db' = filter (\<lambda>v. fst v \<noteq> i) (cnt_views db)"
  shows "ledger_ok db'"
proof -
  have "distinct (map fst (cnt_views db'))"
    unfolding views using ok by (intro distinct_map_filter_key) (simp add: ledger_ok_def)
  moreover have "l_rule_id l \<in> fst ` set (cnt_views db')" if l: "l \<in> set (locks db')" for l
  proof -
    from l locks have "l \<in> set (locks db)" and "l_rule_id l \<noteq> i" by simp_all
    moreover from this ok obtain v where "v \<in> set (cnt_views db)" and "l_rule_id l = fst v"
      by (auto simp: ledger_ok_def)
    ultimately show ?thesis by (simp add: views)
  qed
  moreover have "c s = lock_total (locks db') j s" if v: "(j, c) \<in> set (cnt_views db')" for j c s
  proof -
    from v have "j \<noteq> i" and "c s = lock_total (locks db) j s" using ok by (auto simp: views ledger_ok_def)
    moreover have "filter (\<lambda>l. l_rule_id l = j \<and> l_state l = s) (locks db')
        = filter (\<lambda>l. l_rule_id l = j \<and> l_state l = s) (locks db)"
      using \<open>j \<noteq> i\<close> unfolding locks filter_filter by (intro filter_cong) auto
    ultimately show ?thesis by (simp add: lock_total_def count_where_def)
  qed
  ultimately show ?thesis
    using reps unfolding ledger_ok_def replicas_ok_def by blast
qed

lemma ledger_ok_replicas: "ledger_ok db \<Longrightarrow> replicas_ok db"
  by (simp add: ledger_ok_def replicas_ok_def)

lemma release_tables:
  shows "dataset_locks (release_parent_rule i e db) = dataset_locks db"
    and "account_counters (release_parent_rule i e db) = account_counters db"
proof -
  have "dataset_locks (fold (release_one e) ps db) = dataset_locks db \<and>
      account_counters (fold (release_one e) ps db) = account_counters db" for ps db
    by (induction ps arbitrary: db) (simp_all add: release_one_def insert_rule_history_def upd_rule_def Let_def)
  then show "dataset_locks (release_parent_rule i e db) = dataset_locks db"
    and "account_counters (release_parent_rule i e db) = account_counters db"
    by (simp_all add: release_parent_rule_def)
qed

lemma state_views_filter:
  assumes "map state_view rs = map state_view rs'"
  shows "map state_view (filter (\<lambda>r. r_id r \<noteq> i) rs) = map state_view (filter (\<lambda>r. r_id r \<noteq> i) rs')"
proof -
  have "map state_view (filter (\<lambda>r. r_id r \<noteq> i) xs) = filter (\<lambda>v. fst (fst v) \<noteq> i) (map state_view xs)" for xs
    by (induction xs) (simp_all add: state_view_def)
  with assms show ?thesis by simp
qed

text \<open>The tables after a hard deletion.\<close>

lemma delete_rule_tables:
  assumes run: "delete_rule env i purge False delete_parent ignore_lock db = Inr (es, db')" and ok: "ledger_ok db"
  obtains r where "get_rule db i = Inr r"
    and "decrease_counters (r_account r) (filter (\<lambda>l. l_rule_id l = i) (locks db)) (account_counters db)
      = Inr (account_counters db')"
    and "map state_view (rules db') = map state_view (filter (\<lambda>r. r_id r \<noteq> i) (rules db))"
    and "locks db' = filter (\<lambda>l. l_rule_id l \<noteq> i) (locks db)"
    and "dataset_locks db' = filter (\<lambda>l. dl_rule_id l \<noteq> i) (dataset_locks db)" and "replicas_ok db'"
proof -
  from run obtain r where r: "get_rule db i = Inr r"
    by (cases "get_rule db i") (auto simp: delete_rule_def)
  define pr where "pr = (case purge of Some b \<Rightarrow> b | None \<Rightarrow> r_purge_replicas r)"
  define db1 where "db1 = upd_rule i (\<lambda>x. x\<lparr>r_purge_replicas := pr\<rparr>) db"
  define ls where "ls = filter (\<lambda>l. l_rule_id l = i) (locks db1)"
  obtain ts db2 where loop: "unlock_loop pr ls db1 = (ts, db2)" by (cases "unlock_loop pr ls db1")
  define db3 where "db3 = db2\<lparr>dataset_locks := filter (\<lambda>l. dl_rule_id l \<noteq> i) (dataset_locks db2)\<rparr>"
  from run r obtain c where c: "decrease_counters (r_account r) ls (account_counters db3) = Inr c"
    and fin: "cancel_transfers_of ts ((insert_rule_history i False True (release_parent_rule i True
        (db3\<lparr>account_counters := c\<rparr>)))\<lparr>rules := filter (\<lambda>r. r_id r \<noteq> i)
        (rules (insert_rule_history i False True (release_parent_rule i True (db3\<lparr>account_counters := c\<rparr>))))\<rparr>) = (es, db')"
    by (auto simp: delete_rule_def Let_def rbind_eq_Inr loop [unfolded ls_def db1_def pr_def]
        ls_def db1_def pr_def db3_def split: if_splits)
  have s1: "same_ledger db db1" unfolding db1_def by (rule same_ledger_upd_rule) simp
  then have locks1: "locks db1 = locks db" and ok1: "ledger_ok db1"
    using ok by (simp_all add: same_ledger_def same_ledger_ok [OF s1])
  note keys = ledger_ok_lock_keys [OF ok1]
  have sub: "set ls \<subseteq> set (locks db1)" "distinct (map l_key ls)"
    unfolding ls_def by (auto intro: distinct_map_filter_key [OF keys])
  note t2 = unlock_loop_tables [OF loop ledger_ok_replicas [OF ok1] sub]
  let ?db4 = "release_parent_rule i True (db3\<lparr>account_counters := c\<rparr>)"
  have s4: "same_ledger db2 ?db4"
    by (rule same_ledger_trans [OF same_ledger_tables same_ledger_release]) (simp_all add: db3_def)
  have t': "rules db' = filter (\<lambda>r. r_id r \<noteq> i) (rules ?db4)" "locks db' = locks db2" "rep_views db' = rep_views db2"
    "dataset_locks db' = dataset_locks db3" "account_counters db' = c"
    using cancel_rules [OF fin] s4 by (simp_all add: insert_rule_history_def Let_def same_ledger_def rep_views_def release_tables)
  have "locks db' = filter (\<lambda>l. l_rule_id l \<noteq> i) (locks db)"
    using t2 t'(2) filter_selected [OF keys, of "\<lambda>l. l_rule_id l = i"]
    unfolding fold_move_lock_None ls_def locks1 by simp
  moreover have "map state_view (rules db') = map state_view (filter (\<lambda>r. r_id r \<noteq> i) (rules db))"
    unfolding t'(1) by (rule state_views_filter) (use s4 t2 s1 in \<open>simp add: same_ledger_def\<close>)
  moreover have "replicas_ok db'"
  proof -
    have "replicas_ok db2" using t2 by blast
    then show ?thesis unfolding replicas_ok_def t'(2,3) .
  qed
  moreover have "dataset_locks db' = filter (\<lambda>l. dl_rule_id l \<noteq> i) (dataset_locks db)"
    and "account_counters db3 = account_counters db"
    using t2 t'(4) by (simp_all add: db3_def db1_def upd_rule_def)
  ultimately show thesis using that r c t'(5) by (simp add: ls_def locks1)
qed

lemma delete_rule_exact_effect:
  assumes run: "delete_rule env i purge False delete_parent ignore_lock db = Inr (es, db')"
    and ok: "ledger_ok db" and co: "coherent db"
  shows "(\<forall>r \<in> set (rules db'). r_id r \<noteq> i) \<and> locks db' = filter (\<lambda>l. l_rule_id l \<noteq> i) (locks db) \<and>
    dataset_locks db' = filter (\<lambda>l. dl_rule_id l \<noteq> i) (dataset_locks db) \<and> ledger_ok db' \<and> coherent db' \<and>
    (\<exists>r \<in> set (rules db). r_id r = i \<and> (\<forall>a x.
       account_pending au_bytes (account_counters db') (a, x) = account_pending au_bytes (account_counters db) (a, x)
         - (if a = r_account r then sum_where (\<lambda>l. l_rule_id l = i \<and> l_rse_id l = x) (\<lambda>l. the (l_bytes l)) (locks db)
            else 0)))"
proof -
  from run ok obtain r where r: "get_rule db i = Inr r"
    and c: "decrease_counters (r_account r) (filter (\<lambda>l. l_rule_id l = i) (locks db)) (account_counters db)
      = Inr (account_counters db')"
    and views: "map state_view (rules db') = map state_view (filter (\<lambda>r. r_id r \<noteq> i) (rules db))"
    and locks: "locks db' = filter (\<lambda>l. l_rule_id l \<noteq> i) (locks db)"
    and dl: "dataset_locks db' = filter (\<lambda>l. dl_rule_id l \<noteq> i) (dataset_locks db)" and reps: "replicas_ok db'"
    by (rule delete_rule_tables)
  have "map cnt_view (filter (\<lambda>r. r_id r \<noteq> i) rs) = filter (\<lambda>v. fst v \<noteq> i) (map cnt_view rs)" for rs
    by (induction rs) simp_all
  then have cv: "cnt_views db' = filter (\<lambda>v. fst v \<noteq> i) (cnt_views db)"
    using arg_cong [OF views, of "map fst"] by (simp add: cnt_views_def state_view_def comp_def)
  have "i \<notin> fst ` set (cnt_views db')" by (auto simp: cv)
  then have gone: "\<forall>r \<in> set (rules db'). r_id r \<noteq> i" by (simp add: cnt_views_def image_image) blast
  have "ledger_ok db'" by (rule ledger_ok_without [OF ok reps locks cv])
  moreover have "coherent db'" using co unfolding coherent_alt views by (auto simp: coherent_def)
  moreover have "sum_where (\<lambda>l. l_rse_id l = x) g (filter (\<lambda>l. l_rule_id l = i) (locks db))
      = sum_where (\<lambda>l. l_rule_id l = i \<and> l_rse_id l = x) g (locks db)" for x and g :: "replica_lock \<Rightarrow> int"
    by (simp add: sum_where_def conj_commute)
  ultimately show ?thesis
    using gone locks dl decrease_counters_pending [OF c] get_rule_Inr [OF r] by auto
qed

text \<open>C10: A hard \<^verbatim>\<open>delete_rule\<close> that returns removes the rule, exactly its replica locks and its dataset
  locks; the counters of every remaining rule and of every replica are exact and the remaining rules coherent;
  and the account of the rule is credited, per RSE, with exactly the bytes that its locks held, no other
  account or RSE changes.\<close>

theorem delete_rule_exact:
  assumes run: "delete_rule env i purge False delete_parent ignore_lock db = Inr (es, db')"
    and ok: "ledger_ok db" and co: "coherent db"
  shows "(\<forall>r \<in> set (rules db'). r_id r \<noteq> i) \<and> locks db' = filter (\<lambda>l. l_rule_id l \<noteq> i) (locks db) \<and>
    dataset_locks db' = filter (\<lambda>l. dl_rule_id l \<noteq> i) (dataset_locks db) \<and> ledger_ok db' \<and> coherent db' \<and>
    (\<exists>r \<in> set (rules db). r_id r = i \<and> (\<forall>a x.
       account_pending au_bytes (account_counters db') (a, x) = account_pending au_bytes (account_counters db) (a, x)
         - (if a = r_account r then sum_where (\<lambda>l. l_rule_id l = i \<and> l_rse_id l = x) (\<lambda>l. the (l_bytes l)) (locks db)
            else 0)))"
  by (rule delete_rule_exact_effect [OF run ok co])

theorem delete_rule_exact_witness:
  "\<exists>es db'. delete_rule demo_rule_env ''R'' None False False False two_files = Inr (es, db') \<and>
     locks db' = [] \<and> ledger_ok db' \<and> account_pending au_bytes (account_counters db') (''alice'', ''A'') = -6"
proof -
  have "\<not> isl (delete_rule demo_rule_env ''R'' None False False False two_files)"
    by code_simp
  then obtain x where x: "delete_rule demo_rule_env ''R'' None False False False two_files = Inr x"
    by (rule returnsE)
  obtain es db' where run: "delete_rule demo_rule_env ''R'' None False False False two_files = Inr (es, db')"
    using x by (cases x) simp
  from delete_rule_exact [OF run two_files_ok] have
    "locks db' = filter (\<lambda>l. l_rule_id l \<noteq> ''R'') (locks two_files)" "ledger_ok db'"
    "account_pending au_bytes (account_counters db') (''alice'', ''A'') = account_pending au_bytes (account_counters two_files) (''alice'', ''A'')
      - sum_where (\<lambda>l. l_rule_id l = ''R'' \<and> l_rse_id l = ''A'') (\<lambda>l. the (l_bytes l)) (locks two_files)"
    by (auto simp: demo_defs)
  with run show ?thesis
    by (auto simp: demo_defs account_pending_def)
qed

lemma soft_delete_ledger: "same_ledger db (soft_delete env r delete_parent db)"
  unfolding soft_delete_def
  by (rule same_ledger_trans [OF same_ledger_upd_rule same_ledger_history]) simp

lemma delete_rule_softE:
  assumes "delete_rule env i purge True delete_parent ignore_lock db = Inr (es, db')"
  obtains r pr where "get_rule db i = Inr r" and "es = []"
    and "db' = soft_delete env r delete_parent (upd_rule i (\<lambda>x. x\<lparr>r_purge_replicas := pr\<rparr>) db)"
  using assms by (cases "get_rule db i") (auto simp: delete_rule_def Let_def split: if_splits)

lemma delete_rule_soft_effect:
  assumes "delete_rule env i purge True delete_parent ignore_lock db = Inr (es, db')"
  shows "same_ledger db db'"
  using assms
proof (cases rule: delete_rule_softE)
  case (1 r pr)
  have "same_ledger db (upd_rule i (\<lambda>x. x\<lparr>r_purge_replicas := pr\<rparr>) db)"
    by (rule same_ledger_upd_rule) simp
  then show ?thesis unfolding 1(3) by (rule same_ledger_trans [OF _ soft_delete_ledger])
qed

text \<open>A soft \<^verbatim>\<open>delete_rule\<close> cancels nothing and leaves all locks and counters; it makes the rule
  expire within the hour, and never later than it would have expired before.\<close>

theorem soft_delete_expires:
  assumes "delete_rule env i purge True delete_parent ignore_lock db = Inr (es, db')"
    and "distinct (map r_id (rules db))"
  shows "es = [] \<and> same_ledger db db' \<and> (\<exists>r r' t. get_rule db i = Inr r \<and> get_rule db' i = Inr r' \<and>
    r_expires_at r' = Some t \<and> t \<le> now env + 3600 \<and> (case r_expires_at r of None \<Rightarrow> True | Some e \<Rightarrow> t \<le> e))"
  using assms(1)
proof (cases rule: delete_rule_softE)
  case (1 r pr)
  let ?f = "\<lambda>x. x\<lparr>r_purge_replicas := pr\<rparr>"
  let ?g = "\<lambda>x. x\<lparr>
      r_expires_at := Some (case r_expires_at x of Some e \<Rightarrow> min (now env + 3600) e | None \<Rightarrow> now env + 3600),
      r_child_rule_id := (if r_child_rule_id x \<noteq> None \<and> delete_parent then None else r_child_rule_id x)\<rparr>"
  have id: "r_id r = i" and mem: "r \<in> set (rules db)" using get_rule_Inr [OF 1(1)] by simp_all
  have "filter (\<lambda>x. r_id x = i) (rules db) = [r]"
    by (rule filter_unique_key [OF assms(2) _ mem]) (simp_all add: id)
  then have "filter (\<lambda>x. r_id x = i) (rules db') = [?g (?f r)]"
    unfolding 1(3) soft_delete_def insert_rule_history_def upd_rule_def Let_def
    by (simp add: id filter_upd_where_same)
  then have "get_rule db' i = Inr (?g (?f r))" by (simp add: get_rule_def)
  then show ?thesis
    using 1(1,2) delete_rule_soft_effect [OF assms(1)] by (cases "r_expires_at r") auto
qed

theorem soft_delete_expires_witness:
  "\<exists>es db'. delete_rule demo_rule_env ''R'' None True False False two_files = Inr (es, db') \<and> same_ledger two_files db'"
proof -
  have "\<not> isl (delete_rule demo_rule_env ''R'' None True False False two_files)" by code_simp
  then obtain x where x: "delete_rule demo_rule_env ''R'' None True False False two_files = Inr x" by (rule returnsE)
  obtain es db' where run: "delete_rule demo_rule_env ''R'' None True False False two_files = Inr (es, db')"
    using x by (cases x) simp
  from soft_delete_expires [OF run] show ?thesis using run by (simp add: demo_defs)
qed

section \<open>The rule engine as a transition system\<close>

text \<open>One step is one call that a daemon or a user makes; a call that raises is rolled back and is no step.\<close>

inductive rule_step :: "rule_env \<Rightarrow> rule_db \<Rightarrow> rule_db \<Rightarrow> bool" for env where
  success: "successful_transfer env k rse db = Inr db' \<Longrightarrow> rule_step env db db'"
| failure: "failed_transfer env k rse em bi bm db = Inr db' \<Longrightarrow> rule_step env db db'"
| bad: "update_rules_for_bad_replica env k rse db = Inr db' \<Longrightarrow> rule_step env db db'"
| lost: "update_rules_for_lost_replica env k rse db = Inr db' \<Longrightarrow> rule_step env db db'"
| delete: "delete_rule env i purge soft delete_parent ignore_lock db = Inr (es, db') \<Longrightarrow> rule_step env db db'"

inductive_cases rule_stepE: "rule_step env db db'"

lemma rule_step_invariant:
  assumes "rule_step env db db'" and "ledger_ok db" and "coherent db"
  shows "ledger_ok db' \<and> coherent db'"
  using assms(1)
proof cases
  case (success k rse)
  from successful_transfer_settles_effect [OF this assms(2,3)] show ?thesis by blast
next
  case (failure k rse em bi bm)
  from failed_transfer_settles_effect [OF assms(2,3), of env k rse em bi bm] failure show ?thesis by auto
next
  case (bad k rse)
  from bad_replica_recovers_effect [OF this assms(2,3)] show ?thesis by blast
next
  case (lost k rse)
  from lost_replica_unlocked_effect [OF this assms(2,3)] show ?thesis by blast
next
  case (delete i purge soft delete_parent ignore_lock es)
  show ?thesis
  proof (cases soft)
    case True
    with delete delete_rule_soft_effect assms(2,3) show ?thesis
      by (metis same_ledger_coherent same_ledger_ok)
  next
    case False
    with delete have "delete_rule env i purge False delete_parent ignore_lock db = Inr (es, db')" by simp
    from delete_rule_exact_effect [OF this assms(2,3)] show ?thesis by blast
  qed
qed

text \<open>The invariant of the rule engine. Whatever sequence of transfer reports (successful or failed, with
  or without a broken rule), bad-replica recoveries, replica losses and rule deletions is run, in whatever
  order: every rule counts exactly its \<^verbatim>\<open>OK\<close>, \<^verbatim>\<open>REPLICATING\<close> and \<^verbatim>\<open>STUCK\<close> locks, every replica exactly the locks
  on it, every lock belongs to an existing rule, an \<^verbatim>\<open>OK\<close> rule has no open lock, and a \<^verbatim>\<open>REPLICATING\<close> rule has a
  replicating and no stuck lock.\<close>

theorem rule_engine_invariant:
  assumes "(rule_step env)\<^sup>*\<^sup>* db db'" and "ledger_ok db" and "coherent db"
  shows "ledger_ok db' \<and> coherent db'"
  using assms(1)
proof (induction rule: rtranclp_induct)
  case base
  with assms(2,3) show ?case by simp
next
  case (step a b)
  then show ?case using rule_step_invariant by blast
qed

theorem rule_engine_invariant_witness:
  "\<exists>db'. (rule_step demo_rule_env)\<^sup>*\<^sup>* two_files db' \<and> map l_state (locks db') = [LockSTUCK, LockOK] \<and>
     ledger_ok db' \<and> coherent db'"
proof -
  obtain db' where run: "failed_transfer demo_rule_env (atlas, ''f'') ''A'' None None None two_files = Inr db'"
    and locks: "locks db' = upd_where (\<lambda>l. l_replica l = ((atlas, ''f''), ''A'') \<and>
        (staging_required demo_rule_env ''A'' \<longrightarrow> l_state l = LockREPLICATING))
      (\<lambda>l. l\<lparr>l_state := LockSTUCK\<rparr>) (locks two_files)"
    using failed_transfer_settles_effect [OF two_files_ok] by blast
  have "\<not> staging_required demo_rule_env ''A''"
    by (simp add: staging_required_def get_rse_attribute_def demo_rule_env_def empty_rse_db_def)
  then have states: "map l_state (locks db') = [LockSTUCK, LockOK]"
    unfolding locks by (simp add: demo_defs l_replica_def l_did_def)
  have steps: "(rule_step demo_rule_env)\<^sup>*\<^sup>* two_files db'"
    by (rule r_into_rtranclp) (rule rule_step.failure [OF run])
  have inv: "ledger_ok db' \<and> coherent db'" by (rule rule_engine_invariant [OF steps two_files_ok])
  show ?thesis by (rule exI [of _ db']) (intro conjI steps states inv [THEN conjunct1] inv [THEN conjunct2])
qed

end
