(* ===== verification/RSE_Grammar.thy ===== *)
theory RSE_Grammar
  imports RSE_Expression
begin

text \<open>
  The grammar that RSE expressions follow, and the proof that the checks and the parser of
  \<^verbatim>\<open>core/rse_expression_parser.py\<close> implement it.

  A sequence is a primary followed by any number of operators with a primary, all of the same
  precedence and associating to the left; a primary is an atom or a sequence in parentheses.
  \<open>show_seq\<close> is the text of a sequence and \<open>tree_seq\<close> the object tree it means. The text
  passes \<^verbatim>\<open>check_expression\<close> exactly when it is the text of a sequence of the grammar, and the parser
  then returns the tree of that sequence.
\<close>

section \<open>Grammar\<close>

datatype primary = Atom string | Paren seq
  and seq = Single primary | Snoc seq char primary

definition is_atom :: "string \<Rightarrow> bool" where
  "is_atom a \<longleftrightarrow> match_body a = Some a"

fun valid_primary :: "primary \<Rightarrow> bool" and valid_seq :: "seq \<Rightarrow> bool" where
  "valid_primary (Atom a) = is_atom a"
| "valid_primary (Paren e) = valid_seq e"
| "valid_seq (Single p) = valid_primary p"
| "valid_seq (Snoc e c p) = (valid_seq e \<and> op_char c \<and> valid_primary p)"

fun show_primary :: "primary \<Rightarrow> string" and show_seq :: "seq \<Rightarrow> string" where
  "show_primary (Atom a) = a"
| "show_primary (Paren e) = CHR ''('' # show_seq e @ [CHR '')'']"
| "show_seq (Single p) = show_primary p"
| "show_seq (Snoc e c p) = show_seq e @ c # show_primary p"

fun tree_primary :: "primary \<Rightarrow> element" and tree_seq :: "seq \<Rightarrow> element" where
  "tree_primary (Atom a) = fst (resolve_primitive_expression a)"
| "tree_primary (Paren e) = tree_seq e"
| "tree_seq (Single p) = tree_primary p"
| "tree_seq (Snoc e c p) = Operator (operator_of c) (tree_seq e) (tree_primary p)"

section \<open>Characters\<close>

text \<open>Text that may follow an atom: nothing, a closing parenthesis or an operator.\<close>

definition follow :: "string \<Rightarrow> bool" where
  "follow r \<longleftrightarrow> r = [] \<or> op_char (hd r) \<or> is_close (hd r)"

lemmas char_defs = op_char_def key_char_def value_char_def cmp_char_def is_alnum_def Let_def

lemma op_char_classes:
  assumes "op_char c"
  shows "\<not> key_char c" "\<not> value_char c" "\<not> is_alnum c" "\<not> cmp_char c" "\<not> is_open c" "\<not> is_close c"
    "c \<noteq> CHR ''_''" "c \<noteq> CHR ''-''" "c \<noteq> CHR ''*''"
  using assms by (auto simp: char_defs)

lemma paren_classes:
  "\<not> key_char CHR ''(''" "\<not> key_char CHR '')''" "\<not> value_char CHR '')''" "\<not> is_alnum CHR '')''"
  "\<not> is_alnum CHR ''(''" "\<not> cmp_char CHR '')''" "\<not> op_char CHR ''(''" "\<not> op_char CHR '')''"
  "\<not> key_char CHR ''*''" "\<not> is_alnum CHR ''*''" "\<not> op_char CHR ''*''"
  by (simp_all add: char_defs)

lemma alnum_key: "is_alnum c \<Longrightarrow> key_char c"
  by (simp add: key_char_def)

lemma cmp_not_key: "cmp_char c \<Longrightarrow> \<not> key_char c"
  by (auto simp: char_defs)

lemma followD:
  assumes "follow r"
  shows "r = [] \<or> \<not> key_char (hd r)" "r = [] \<or> \<not> value_char (hd r)" "r = [] \<or> \<not> is_alnum (hd r)"
    "r = [] \<or> \<not> cmp_char (hd r)"
  using assms op_char_classes [of "hd r"] by (auto simp: follow_def paren_classes)

lemma follow_simps [simp]:
  "follow []" "follow (c # r) \<longleftrightarrow> op_char c \<or> is_close c"
  by (simp_all add: follow_def)

section \<open>Atoms\<close>

inductive_set default_atoms :: "string set" where
  "w \<noteq> [] \<Longrightarrow> \<forall>c \<in> set w. is_alnum c \<Longrightarrow> match_default_tail t = t \<Longrightarrow> t = [] \<or> \<not> is_alnum (hd t) \<Longrightarrow>
     w @ t \<in> default_atoms"

lemma match_default_tail_chars: "\<forall>c \<in> set (match_default_tail s). key_char c"
proof (induction s rule: match_default_tail.induct)
  case (2 c s)
  then show ?case
    by (auto simp: alnum_key key_char_def dest: set_takeWhileD)
qed simp

lemma match_default_tail_append:
  "match_default_tail t = t \<Longrightarrow> follow r \<Longrightarrow> match_default_tail (t @ r) = t"
proof (induction t rule: match_default_tail.induct)
  case 1
  then show ?case
    by (cases r) (auto simp: op_char_def)
next
  case (2 c s)
  then have c: "(c = CHR ''_'' \<or> c = CHR ''-'') \<and> takeWhile is_alnum s \<noteq> []"
    by (auto split: if_splits)
  with 2(2) have "takeWhile is_alnum s @ match_default_tail (dropWhile is_alnum s) = s"
    by (simp split: if_splits)
  then have tail: "match_default_tail (dropWhile is_alnum s) = dropWhile is_alnum s"
    by (metis append_same_eq same_append_eq takeWhile_dropWhile_id)
  show ?case
  proof (cases "dropWhile is_alnum s = []")
    case True
    then have "\<forall>x \<in> set s. is_alnum x" by simp
    with followD(3) [OF 2(3)] have "takeWhile is_alnum (s @ r) = s" "dropWhile is_alnum (s @ r) = r"
      using takeWhile_boundary [of s is_alnum r] by auto
    with c 2(1) [OF c] 2(3) True show ?thesis by auto
  next
    case False
    then have "takeWhile is_alnum (s @ r) = takeWhile is_alnum s"
      "dropWhile is_alnum (s @ r) = dropWhile is_alnum s @ r"
      by (auto simp: takeWhile_append dropWhile_append)
    with c 2(1) [OF c tail 2(3)] tail show ?thesis by auto
  qed
qed

lemma match_attribute_shape:
  "match_attribute a = Some a \<longleftrightarrow>
     (\<exists>k c v. a = k @ c # v \<and> k \<noteq> [] \<and> v \<noteq> [] \<and> cmp_char c \<and> (\<forall>x \<in> set k. key_char x) \<and> (\<forall>x \<in> set v. value_char x))"
proof
  assume m: "match_attribute a = Some a"
  then obtain c r where r: "dropWhile key_char a = c # r" and c: "cmp_char c"
    and k: "takeWhile key_char a \<noteq> []" and v: "takeWhile value_char r \<noteq> []"
    and a: "takeWhile key_char a @ c # takeWhile value_char r = a"
    by (auto simp: match_attribute_def Let_def split: if_splits list.splits)
  then show "\<exists>k c v. a = k @ c # v \<and> k \<noteq> [] \<and> v \<noteq> [] \<and> cmp_char c \<and> (\<forall>x \<in> set k. key_char x)
      \<and> (\<forall>x \<in> set v. value_char x)"
    by (intro exI [of _ "takeWhile key_char a"] exI [of _ c] exI [of _ "takeWhile value_char r"])
      (auto dest: set_takeWhileD)
next
  assume "\<exists>k c v. a = k @ c # v \<and> k \<noteq> [] \<and> v \<noteq> [] \<and> cmp_char c \<and> (\<forall>x \<in> set k. key_char x)
      \<and> (\<forall>x \<in> set v. value_char x)"
  then obtain k c v where a: "a = k @ c # v" and *: "k \<noteq> []" "v \<noteq> []" "cmp_char c"
    "\<forall>x \<in> set k. key_char x" "\<forall>x \<in> set v. value_char x" by blast
  moreover have "takeWhile value_char v \<noteq> []" using *(2,5) by (cases v) auto
  ultimately show "match_attribute a = Some a"
    using takeWhile_boundary [of k key_char "c # v"]
    by (simp add: match_attribute_def Let_def cmp_not_key)
qed

lemma match_attribute_append:
  assumes "match_attribute a = Some a" and "follow r"
  shows "match_attribute (a @ r) = Some a"
proof -
  obtain k c v where a: "a = k @ c # v" and *: "k \<noteq> []" "v \<noteq> []" "cmp_char c"
    "\<forall>x \<in> set k. key_char x" "\<forall>x \<in> set v. value_char x"
    using assms(1) match_attribute_shape by blast
  with takeWhile_boundary [of k key_char "c # v @ r"] takeWhile_boundary [of v value_char r]
    followD(2) [OF assms(2)]
  show ?thesis by (simp add: match_attribute_def Let_def cmp_not_key)
qed

lemma match_default_shape: "match_default a = Some a \<longleftrightarrow> a \<in> default_atoms"
proof
  assume "match_default a = Some a"
  then have "takeWhile is_alnum a \<noteq> []" and "takeWhile is_alnum a @ match_default_tail (dropWhile is_alnum a) = a"
    by (auto simp: match_default_def split: if_splits)
  moreover from this(2) have "match_default_tail (dropWhile is_alnum a) = dropWhile is_alnum a"
    by (metis same_append_eq takeWhile_dropWhile_id)
  moreover have "dropWhile is_alnum a = [] \<or> \<not> is_alnum (hd (dropWhile is_alnum a))"
    using hd_dropWhile by blast
  moreover have "\<forall>c \<in> set (takeWhile is_alnum a). is_alnum c"
    by (auto dest: set_takeWhileD)
  ultimately have "takeWhile is_alnum a @ dropWhile is_alnum a \<in> default_atoms"
    by (intro default_atoms.intros)
  then show "a \<in> default_atoms" by simp
next
  assume "a \<in> default_atoms"
  then show "match_default a = Some a"
  proof (cases rule: default_atoms.cases)
    case (1 w t)
    with takeWhile_boundary [of w is_alnum t] show ?thesis by (simp add: match_default_def)
  qed
qed

lemma default_atom_chars: "a \<in> default_atoms \<Longrightarrow> a \<noteq> [] \<and> (\<forall>c \<in> set a. key_char c)"
  by (cases rule: default_atoms.cases) (auto simp: alnum_key, metis match_default_tail_chars)

lemma match_default_append:
  assumes "a \<in> default_atoms" and "follow r"
  shows "match_default (a @ r) = Some a"
  using assms(1)
proof (cases rule: default_atoms.cases)
  case (1 w t)
  have "t @ r = [] \<or> \<not> is_alnum (hd (t @ r))"
    using 1(5) followD(3) [OF assms(2)] by (cases t) auto
  with takeWhile_boundary [of w is_alnum "t @ r"] 1 match_default_tail_append [OF 1(4) assms(2)]
  show ?thesis by (simp add: match_default_def)
qed

lemma match_attribute_None_append:
  assumes "\<forall>c \<in> set a. key_char c" and "follow r"
  shows "match_attribute (a @ r) = None"
  using takeWhile_boundary [OF assms(1) followD(1) [OF assms(2)]] followD(4) [OF assms(2)]
  by (auto simp: match_attribute_def Let_def split: list.split)

lemma match_star_append: "match_body (''*'' @ r) = Some ''*''"
  by (simp add: match_body_def match_attribute_def match_default_def match_star_def paren_classes)

lemma atom_cases:
  "is_atom a \<longleftrightarrow> match_attribute a = Some a \<or> a \<in> default_atoms \<or> a = ''*''"
proof
  assume "is_atom a"
  then show "match_attribute a = Some a \<or> a \<in> default_atoms \<or> a = ''*''"
    by (auto simp: is_atom_def match_body_def match_star_def match_default_shape [symmetric]
        split: option.splits list.splits if_splits)
next
  assume "match_attribute a = Some a \<or> a \<in> default_atoms \<or> a = ''*''"
  then show "is_atom a"
    using match_attribute_None_append [of a "[]"] default_atom_chars [of a]
      match_default_shape [of a, THEN iffD2] match_star_append [of "[]"]
    by (auto simp: is_atom_def) (auto simp: match_body_def)
qed

lemma match_body_append:
  assumes "is_atom a" and "follow r"
  shows "match_body (a @ r) = Some a"
  using assms(1) match_attribute_append [OF _ assms(2), of a] match_default_append [OF _ assms(2), of a]
    match_attribute_None_append [OF _ assms(2), of a] default_atom_chars [of a] match_star_append [of r]
  by (auto simp: atom_cases) (auto simp: match_body_def)

text \<open>The first character of an atom starts neither a term nor an operator.\<close>

lemma atom_first:
  assumes "is_atom a"
  obtains c s where "a = c # s" "\<not> is_open c" "\<not> op_char c"
proof -
  from assms consider "match_attribute a = Some a" | "a \<in> default_atoms" | "a = ''*''"
    using atom_cases by blast
  then have "\<exists>c s. a = c # s \<and> (key_char c \<or> c = CHR ''*'')"
  proof cases
    case 1
    then show ?thesis using match_attribute_shape [of a] by (auto simp: neq_Nil_conv)
  next
    case 2
    then show ?thesis using default_atom_chars [of a] by (auto simp: neq_Nil_conv)
  qed auto
  then obtain c s where cs: "a = c # s" and c: "key_char c \<or> c = CHR ''*''" by blast
  from c have "\<not> is_open c" "\<not> op_char c"
    using op_char_classes [of c] paren_classes by auto
  with cs show ?thesis by (rule that)
qed

lemma atom_no_parens: "is_atom a \<Longrightarrow> \<forall>c \<in> set a. \<not> is_open c \<and> \<not> is_close c"
proof -
  assume "is_atom a"
  then have "\<forall>c \<in> set a. key_char c \<or> cmp_char c \<or> value_char c \<or> c = CHR ''*''"
    using match_attribute_shape [of a] default_atom_chars [of a] by (auto simp: atom_cases)
  moreover have "\<not> (key_char c \<or> cmp_char c \<or> value_char c \<or> c = CHR ''*'')" if "is_open c \<or> is_close c" for c
    using that by (elim disjE) (simp_all add: char_defs)
  ultimately show ?thesis by blast
qed

section \<open>Primitives and the pattern\<close>

text \<open>The text of a primitive: opening parentheses, an atom, closing parentheses.\<close>

definition prim_text :: "nat \<Rightarrow> string \<Rightarrow> nat \<Rightarrow> string" where
  "prim_text i a j = replicate i CHR ''('' @ a @ replicate j CHR '')''"

lemma takeWhile_replicate_append:
  "P x \<Longrightarrow> r = [] \<or> \<not> P (hd r) \<Longrightarrow> takeWhile P (replicate n x @ r) = replicate n x"
  "P x \<Longrightarrow> r = [] \<or> \<not> P (hd r) \<Longrightarrow> dropWhile P (replicate n x @ r) = r"
  by (rule takeWhile_boundary; simp)+

lemma match_primitive_text:
  assumes "is_atom a" and "r = [] \<or> op_char (hd r)"
  shows "match_primitive (prim_text i a j @ r) = Some (prim_text i a j)"
proof -
  obtain c s where a: "a = c # s" and c: "\<not> is_open c" using assms(1) by (rule atom_first)
  have fol: "follow (replicate j CHR '')'' @ r)"
    using assms(2) by (cases j) (auto simp: follow_def)
  have body: "match_body (a @ replicate j CHR '')'' @ r) = Some a"
    using match_body_append [OF assms(1) fol] .
  have op: "takeWhile is_open (replicate i CHR ''('' @ a @ replicate j CHR '')'' @ r) = replicate i CHR ''(''"
    "dropWhile is_open (replicate i CHR ''('' @ a @ replicate j CHR '')'' @ r) = a @ replicate j CHR '')'' @ r"
    by (rule takeWhile_replicate_append; simp add: a c)+
  have cl: "takeWhile is_close (replicate j CHR '')'' @ r) = replicate j CHR '')''"
    using assms(2) op_char_classes(6) by (intro takeWhile_replicate_append) auto
  show ?thesis
    by (simp add: match_primitive_def prim_text_def op body cl)
qed

lemma match_default_tail_hd:
  "match_default_tail u = [] \<or> \<not> is_alnum (hd (match_default_tail u))"
  by (cases u) (auto simp: is_alnum_def)

lemma match_default_tail_prefix: "\<exists>r. u = match_default_tail u @ r"
proof (induction u rule: match_default_tail.induct)
  case (2 c s)
  then show ?case
    by (cases "(c = CHR ''_'' \<or> c = CHR ''-'') \<and> takeWhile is_alnum s \<noteq> []")
      (auto, (metis append_assoc takeWhile_dropWhile_id)+)
qed simp

lemma match_default_tail_idem:
  "match_default_tail (match_default_tail u) = match_default_tail u"
proof (induction u rule: match_default_tail.induct)
  case (2 c s)
  let ?t = "match_default_tail (dropWhile is_alnum s)"
  have "\<forall>x \<in> set (takeWhile is_alnum s). is_alnum x" by (auto dest: set_takeWhileD)
  note takeWhile_boundary [OF this match_default_tail_hd [of "dropWhile is_alnum s"]]
  with 2 show ?case by auto
qed simp

lemma match_body_prefix: "match_body s = Some m \<Longrightarrow> is_atom m \<and> (\<exists>r. s = m @ r)"
proof -
  assume m: "match_body s = Some m"
  from m consider "match_attribute s = Some m" | "match_attribute s = None" "match_default s = Some m"
    | "match_star s = Some m"
    by (auto simp: match_body_def split: option.splits)
  then show ?thesis
  proof cases
    case 1
    then obtain c r where r: "dropWhile key_char s = c # r" "cmp_char c" "takeWhile key_char s \<noteq> []"
      "takeWhile value_char r \<noteq> []" and m: "m = takeWhile key_char s @ c # takeWhile value_char r"
      by (auto simp: match_attribute_def Let_def split: if_splits list.splits)
    then have "s = m @ dropWhile value_char r"
      by (metis Cons_eq_appendI append_assoc takeWhile_dropWhile_id)
    moreover have "match_attribute m = Some m"
      using r unfolding match_attribute_shape m by (blast dest: set_takeWhileD)
    ultimately show ?thesis by (auto simp: atom_cases)
  next
    case 2
    let ?t = "match_default_tail (dropWhile is_alnum s)"
    from 2 have m: "m = takeWhile is_alnum s @ ?t" and ne: "takeWhile is_alnum s \<noteq> []"
      by (auto simp: match_default_def split: if_splits)
    obtain r where r: "dropWhile is_alnum s = ?t @ r" using match_default_tail_prefix by blast
    then have "s = m @ r" by (metis append_assoc m takeWhile_dropWhile_id)
    moreover have "m \<in> default_atoms"
      unfolding m
      by (rule default_atoms.intros [OF ne _ match_default_tail_idem match_default_tail_hd])
        (auto dest: set_takeWhileD)
    ultimately show ?thesis by (auto simp: atom_cases)
  next
    case 3
    then show ?thesis
      by (auto simp: match_star_def atom_cases split: list.splits if_splits)
  qed
qed

lemma match_primitive_prefix:
  assumes "match_primitive s = Some m"
  obtains i a j r where "m = prim_text i a j" "is_atom a" "s = m @ r"
proof -
  obtain a where a: "match_body (dropWhile is_open s) = Some a"
    and m: "m = takeWhile is_open s @ a @ takeWhile is_close (drop (length a) (dropWhile is_open s))"
    using assms by (auto simp: match_primitive_def split: option.splits)
  obtain r where r: "dropWhile is_open s = a @ r" and at: "is_atom a"
    using match_body_prefix [OF a] by blast
  have rep: "takeWhile (\<lambda>c. c = x) u = replicate (length (takeWhile (\<lambda>c. c = x) u)) x" for x :: char and u
    by (rule replicate_eqI) (auto dest: set_takeWhileD)
  have "m = prim_text (length (takeWhile is_open s)) a (length (takeWhile is_close r))"
    unfolding m prim_text_def r using rep by auto
  moreover have "s = m @ dropWhile is_close r"
    unfolding m r by (metis append_assoc drop_length_append r takeWhile_dropWhile_id)
  ultimately show ?thesis using that at by blast
qed

section \<open>Parentheses\<close>

lemma check_parentheses_atom:
  "\<forall>c \<in> set a. \<not> is_open c \<and> \<not> is_close c \<Longrightarrow> n \<le> m \<Longrightarrow>
   check_parentheses m n (a @ r) = check_parentheses m n r"
  by (induction a) auto

lemma check_parentheses_opens:
  "n \<le> m \<Longrightarrow> check_parentheses m n (replicate i CHR ''('' @ r) = check_parentheses (m + i) n r"
  by (induction i arbitrary: m) auto

lemma check_parentheses_closes:
  "check_parentheses m n (replicate j CHR '')'' @ r) = Inr () \<Longrightarrow> n \<le> m \<Longrightarrow>
   n + j \<le> m \<and> check_parentheses m (n + j) r = Inr ()"
proof (induction j arbitrary: n)
  case (Suc j)
  then have "Suc n \<le> m" and "check_parentheses m (Suc n) (replicate j CHR '')'' @ r) = Inr ()"
    by (simp_all split: if_splits)
  with Suc.IH [of "Suc n"] show ?case by simp
qed simp

lemma check_parentheses_op:
  "op_char c \<Longrightarrow> n \<le> m \<Longrightarrow> check_parentheses m n (c # r) = check_parentheses m n r"
  using op_char_classes(5,6) [of c] by simp

lemma check_parentheses_open:
  "n \<le> m \<Longrightarrow> check_parentheses m n (CHR ''('' # r) = check_parentheses (Suc m) n r"
  by simp

lemma check_parentheses_close:
  "n < m \<Longrightarrow> check_parentheses m n (CHR '')'' # r) = check_parentheses m (Suc n) r"
  by simp

declare check_parentheses.simps(2) [simp del]

lemma check_parentheses_prim:
  assumes "check_parentheses m n (prim_text i a j @ r) = Inr ()" and "is_atom a" and "n \<le> m"
  shows "n + j \<le> m + i" and "check_parentheses (m + i) (n + j) r = Inr ()"
  using assms check_parentheses_closes [of "m + i" n j r]
    check_parentheses_atom [OF atom_no_parens [OF assms(2)], of n "m + i"]
  by (simp_all add: prim_text_def check_parentheses_opens)

text \<open>The text of a grammar sequence is balanced, and no prefix closes more than it opens.\<close>

lemma check_parentheses_show:
  "valid_primary p \<Longrightarrow> n \<le> m \<Longrightarrow>
     \<exists>k. check_parentheses m n (show_primary p @ r) = check_parentheses (m + k) (n + k) r"
  "valid_seq e \<Longrightarrow> n \<le> m \<Longrightarrow>
     \<exists>k. check_parentheses m n (show_seq e @ r) = check_parentheses (m + k) (n + k) r"
proof (induction p and e arbitrary: m n r and m n r)
  case (Atom a)
  then show ?case
    using check_parentheses_atom [OF atom_no_parens, of a n m r] by (intro exI [of _ 0]) simp
next
  case (Paren e)
  obtain k where "check_parentheses (Suc m) n (show_seq e @ CHR '')'' # r)
      = check_parentheses (Suc m + k) (n + k) (CHR '')'' # r)"
    using Paren.IH [of n "Suc m" "CHR '')'' # r"] Paren.prems by auto
  with Paren.prems(2) show ?case
    by (intro exI [of _ "Suc k"]) (simp add: check_parentheses_open check_parentheses_close)
next
  case (Single p)
  then show ?case by simp
next
  case (Snoc e c p)
  obtain k where k: "check_parentheses m n (show_seq e @ c # show_primary p @ r)
      = check_parentheses (m + k) (n + k) (c # show_primary p @ r)"
    using Snoc.IH(1) [of n m "c # show_primary p @ r"] Snoc.prems by auto
  obtain l where "check_parentheses (m + k) (n + k) (show_primary p @ r)
      = check_parentheses (m + k + l) (n + k + l) r"
    using Snoc.IH(2) [of "n + k" "m + k" r] Snoc.prems by auto
  with k Snoc.prems show ?case
    by (intro exI [of _ "k + l"]) (simp add: check_parentheses_op add.assoc)
qed

section \<open>Every checked text is in the grammar\<close>

text \<open>\<open>part d w\<close>: \<open>w\<close> is text read so far with \<open>d\<close> parentheses still open. Each open level is a
  (possibly empty) complete sequence with its operator before the parenthesis; the innermost
  level is a complete sequence.\<close>

inductive part :: "nat \<Rightarrow> string \<Rightarrow> bool" where
  part_seq: "valid_seq e \<Longrightarrow> part 0 (show_seq e)"
| part_open: "part d w \<Longrightarrow> part (Suc d) (CHR ''('' # w)"
| part_op_open: "valid_seq e \<Longrightarrow> op_char c \<Longrightarrow> part d w \<Longrightarrow> part (Suc d) (show_seq e @ c # CHR ''('' # w)"

inductive_cases part_0E: "part 0 w"

lemma part_opens: "is_atom a \<Longrightarrow> part i (replicate i CHR ''('' @ a)"
  by (induction i) (use part_seq [of "Single (Atom a)"] in \<open>auto intro: part_open\<close>)

lemma part_step: "part d w \<Longrightarrow> op_char c \<Longrightarrow> is_atom a \<Longrightarrow> part (d + i) (w @ c # replicate i CHR ''('' @ a)"
proof (induction rule: part.induct)
  case (part_seq e)
  show ?case
  proof (cases i)
    case 0
    then show ?thesis using part.part_seq [of "Snoc e c (Atom a)"] part_seq by simp
  next
    case (Suc k)
    then show ?thesis
      using part_op_open [OF part_seq(1,2) part_opens [OF part_seq(3), of k]] by simp
  qed
next
  case (part_open d w)
  then show ?case using part.part_open by fastforce
next
  case (part_op_open e b d w)
  then show ?case using part.part_op_open by fastforce
qed

lemma part_close: "part (Suc d) w \<Longrightarrow> part d (w @ [CHR '')''])"
proof (induction "Suc d" w arbitrary: d rule: part.induct)
  case (part_open d w)
  show ?case
  proof (cases d)
    case 0
    then obtain e where "w = show_seq e" "valid_seq e" using part_open(1) by (auto elim: part_0E)
    then show ?thesis using 0 part_seq [of "Single (Paren e)"] by simp
  next
    case (Suc k)
    then show ?thesis using part_open(2) [OF Suc] part.part_open by fastforce
  qed
next
  case (part_op_open e c d w)
  show ?case
  proof (cases d)
    case 0
    then obtain e' where "w = show_seq e'" "valid_seq e'" using part_op_open(3) by (auto elim: part_0E)
    then show ?thesis using 0 part_seq [of "Snoc e c (Paren e')"] part_op_open(1,2) by simp
  next
    case (Suc k)
    then show ?thesis using part_op_open(4) [OF Suc] part.part_op_open part_op_open(1,2) by fastforce
  qed
qed

lemma part_closes: "part (d + j) w \<Longrightarrow> part d (w @ replicate j CHR '')'')"
proof (induction j arbitrary: w)
  case (Suc j)
  then have "part (d + j) (w @ [CHR '')''])" by (intro part_close) simp
  then show ?case using Suc.IH by fastforce
qed simp

lemma part_tail:
  assumes "part d w" and "check_parentheses (n + d) n s = Inr ()" and "match_tail s = s"
  shows "part 0 (w @ s)"
  using assms
proof (induction s arbitrary: d w n rule: match_tail.induct)
  case 1
  then show ?case by (auto split: if_splits)
next
  case (2 c s)
  then obtain m where c: "op_char c" and m: "match_primitive s = Some m"
    and rest: "m @ match_tail (drop (length m) s) = s"
    by (auto split: if_splits option.splits)
  obtain i a j r where p: "m = prim_text i a j" "is_atom a" "s = m @ r"
    using match_primitive_prefix [OF m] .
  with rest have tail: "match_tail r = r" by simp
  have "check_parentheses (n + d) n (prim_text i a j @ r) = Inr ()"
    using 2(3) c p by (simp add: check_parentheses_op)
  from check_parentheses_prim [OF this p(2)]
  have j: "j \<le> d + i" and chk: "check_parentheses (n + j + (d + i - j)) (n + j) r = Inr ()"
    by (simp_all add: add.assoc)
  have "part (d + i - j) (w @ c # prim_text i a j)"
    using part_closes [of "d + i - j" j "w @ c # replicate i CHR ''('' @ a"]
      part_step [OF 2(2) c p(2), of i] j
    by (simp add: prim_text_def)
  from 2(1) [OF c m this, of "n + j"] chk tail p(1,3)
  show ?case by simp
qed

lemma check_expression_grammar:
  assumes "check_expression s = Inr ()"
  obtains e where "valid_seq e" "s = show_seq e"
proof -
  from assms obtain m where par: "check_parentheses 0 0 s = Inr ()" and m: "match_primitive s = Some m"
    and s: "m @ match_tail (drop (length m) s) = s"
    by (auto simp: check_expression_def match_pattern_def rbind_def split: sum.splits option.splits if_splits)
  obtain i a j r where p: "m = prim_text i a j" "is_atom a" "s = m @ r"
    using match_primitive_prefix [OF m] .
  from check_parentheses_prim [of 0 0 i a j r] par p
  have j: "j \<le> i" and chk: "check_parentheses (j + (i - j)) j r = Inr ()" by auto
  have "part (i - j) m"
    using part_closes [of "i - j" j "replicate i CHR ''('' @ a"] part_opens [OF p(2), of i] j p(1)
    by (simp add: prim_text_def)
  from part_tail [OF this chk] s p(3) have "part 0 s" by simp
  then show ?thesis using that by (auto elim: part_0E)
qed

section \<open>Every text of the grammar is accepted\<close>

text \<open>\<open>prims w\<close>: primitives separated by operators, without regard to how the parentheses pair up.\<close>

inductive prims :: "string \<Rightarrow> bool" where
  prims_one: "is_atom a \<Longrightarrow> prims (prim_text i a j)"
| prims_cons: "is_atom a \<Longrightarrow> op_char c \<Longrightarrow> prims w \<Longrightarrow> prims (prim_text i a j @ c # w)"

lemma prim_text_open: "CHR ''('' # prim_text i a j = prim_text (Suc i) a j"
  and prim_text_close: "prim_text i a j @ [CHR '')''] = prim_text i a (Suc j)"
  by (simp_all add: prim_text_def replicate_append_same)

lemma prims_open:
  assumes "prims w"
  shows "prims (CHR ''('' # w)"
  using assms
proof (cases rule: prims.cases)
  case (prims_one a i j)
  then show ?thesis using prims.prims_one [of a "Suc i" j] by (simp add: prim_text_open)
next
  case (prims_cons a c v i j)
  then show ?thesis using prims.prims_cons [of a c v "Suc i" j] by (simp add: prim_text_open [symmetric])
qed

lemma prims_close: "prims w \<Longrightarrow> prims (w @ [CHR '')''])"
proof (induction rule: prims.induct)
  case (prims_one a i j)
  then show ?case using prims.prims_one [of a i "Suc j"] by (simp add: prim_text_close)
next
  case (prims_cons a c w i j)
  then show ?case using prims.prims_cons [of a c "w @ [CHR '')'']" i j] by simp
qed

lemma prims_append: "prims w \<Longrightarrow> op_char c \<Longrightarrow> prims v \<Longrightarrow> prims (w @ c # v)"
proof (induction rule: prims.induct)
  case (prims_one a i j)
  then show ?case by (simp add: prims.prims_cons)
next
  case (prims_cons a b w i j)
  then show ?case using prims.prims_cons [of a b "w @ c # v" i j] by simp
qed

lemma prims_show:
  "valid_primary p \<Longrightarrow> prims (show_primary p)"
  "valid_seq e \<Longrightarrow> prims (show_seq e)"
proof (induction p and e)
  case (Atom a)
  then show ?case using prims_one [of a 0 0] by (simp add: prim_text_def)
next
  case (Paren e)
  then have "prims (show_seq e)" by simp
  then have "prims ((CHR ''('' # show_seq e) @ [CHR '')''])" by (intro prims_close prims_open)
  then show ?case by simp
next
  case (Snoc e c p)
  then show ?case by (simp add: prims_append)
qed simp

lemma match_tail_prims: "prims w \<Longrightarrow> op_char c \<Longrightarrow> match_tail (c # w) = c # w"
proof (induction arbitrary: c rule: prims.induct)
  case (prims_one a i j)
  then show ?case using match_primitive_text [of a "[]" i j] by simp
next
  case (prims_cons a b w i j)
  then show ?case using match_primitive_text [of a "b # w" i j] by simp
qed

lemma match_pattern_prims:
  assumes "prims w"
  shows "match_pattern w = Some w"
  using assms
proof (cases rule: prims.cases)
  case (prims_one a i j)
  then show ?thesis using match_primitive_text [of a "[]" i j] by (simp add: match_pattern_def)
next
  case (prims_cons a c v i j)
  then show ?thesis
    using match_primitive_text [of a "c # v" i j] match_tail_prims [of v c]
    by (simp add: match_pattern_def)
qed

lemma check_expression_show: "valid_seq e \<Longrightarrow> check_expression (show_seq e) = Inr ()"
  using check_parentheses_show(2) [of e 0 0 "[]"] match_pattern_prims [OF prims_show(2), of e]
  by (auto simp: check_expression_def)

section \<open>The parser returns the tree\<close>

lemma extract_term_loop_step:
  "\<not> is_open c \<Longrightarrow> \<not> is_close c \<Longrightarrow> k \<noteq> 0 \<Longrightarrow>
     extract_term_loop ex (c # r) k i = extract_term_loop ex r k (Suc i)"
  "0 \<le> k \<Longrightarrow> extract_term_loop ex (CHR ''('' # r) k i = extract_term_loop ex r (k + 1) (Suc i)"
  "1 < k \<Longrightarrow> extract_term_loop ex (CHR '')'' # r) k i = extract_term_loop ex r (k - 1) (Suc i)"
  "extract_term_loop ex (CHR '')'' # r) 1 i = Inr (drop 1 (take i ex))"
  by simp_all

declare extract_term_loop.simps(2) [simp del]

lemma extract_term_loop_atom:
  "\<forall>c \<in> set a. \<not> is_open c \<and> \<not> is_close c \<Longrightarrow> 0 < k \<Longrightarrow>
   extract_term_loop ex (a @ r) k i = extract_term_loop ex r k (i + length a)"
  by (induction a arbitrary: i) (simp_all add: extract_term_loop_step)

lemma extract_term_loop_show:
  "valid_primary p \<Longrightarrow> 0 < k \<Longrightarrow> extract_term_loop ex (show_primary p @ r) k i
     = extract_term_loop ex r k (i + length (show_primary p))"
  "valid_seq e \<Longrightarrow> 0 < k \<Longrightarrow> extract_term_loop ex (show_seq e @ r) k i
     = extract_term_loop ex r k (i + length (show_seq e))"
proof (induction p and e arbitrary: k r i and k r i)
  case (Atom a)
  then show ?case by (simp add: extract_term_loop_atom atom_no_parens)
next
  case (Paren e)
  then show ?case by (simp add: extract_term_loop_step)
next
  case (Single p)
  then show ?case by simp
next
  case (Snoc e c p)
  then show ?case using op_char_classes [of c] by (simp add: extract_term_loop_step add.assoc)
qed

lemma extract_term_show:
  "valid_seq e \<Longrightarrow> extract_term (CHR ''('' # show_seq e @ CHR '')'' # r) = Inr (show_seq e)"
  using extract_term_loop_show(2) [of e 1]
  by (simp add: extract_term_def extract_term_loop_step)

lemma resolve_primitive_append:
  assumes "is_atom a" and "r = [] \<or> op_char (hd r)"
  shows "resolve_primitive_expression (a @ r) = (tree_primary (Atom a), a)"
  using match_primitive_text [OF assms, of 0 0] match_primitive_text [OF assms(1), of "[]" 0 0]
  by (simp add: resolve_primitive_expression_def prim_text_def Let_def)

lemma tree_not_NoTerm: "tree_primary p \<noteq> NoTerm" "tree_seq e \<noteq> NoTerm"
  by (induction p and e) (simp_all add: resolve_primitive_expression_def Let_def)

text \<open>One primary consumed: as the first term, or as the right operand of the pending operator.\<close>

lemma resolve_loop_atom:
  assumes "is_atom a" and "r = [] \<or> op_char (hd r)"
  shows "resolve_loop NoTerm b (a @ r) = resolve_loop (tree_primary (Atom a)) b r"
    and "left \<noteq> NoTerm \<Longrightarrow> resolve_loop left (Some c) (a @ r)
      = resolve_loop (Operator c left (tree_primary (Atom a))) None r"
proof -
  obtain x s where a: "a = x # s" "\<not> is_open x" "\<not> op_char x" using assms(1) by (rule atom_first)
  note prim = resolve_primitive_append [OF assms]
  have dr: "drop (length a) (a @ r) = r" by simp
  show "resolve_loop NoTerm b (a @ r) = resolve_loop (tree_primary (Atom a)) b r"
    using prim dr a by (subst resolve_loop.simps) simp
  show "left \<noteq> NoTerm \<Longrightarrow> resolve_loop left (Some c) (a @ r)
      = resolve_loop (Operator c left (tree_primary (Atom a))) None r"
    using prim dr a by (subst resolve_loop.simps) (simp add: apply_operator_def)
qed

lemma resolve_loop_paren:
  assumes "valid_seq e" and "resolve_loop NoTerm None (show_seq e) = Some (Inr (tree_seq e))"
  shows "resolve_loop NoTerm b (show_primary (Paren e) @ r) = resolve_loop (tree_seq e) b r"
    and "left \<noteq> NoTerm \<Longrightarrow> resolve_loop left (Some c) (show_primary (Paren e) @ r)
      = resolve_loop (Operator c left (tree_seq e)) None r"
  using extract_term_show [OF assms(1), of r] assms(2)
  by (subst resolve_loop.simps, simp add: apply_operator_def)+

lemma resolve_loop_operator:
  "op_char c \<Longrightarrow> resolve_loop left b (c # r) = resolve_loop left (Some (operator_of c)) r"
  by (subst resolve_loop.simps) (simp add: op_char_classes)

lemma resolve_loop_nil: "resolve_loop left b [] = Some (Inr left)"
  by (subst resolve_loop.simps) simp

lemma resolve_loop_show:
  "valid_primary p \<Longrightarrow> r = [] \<or> op_char (hd r) \<Longrightarrow>
     resolve_loop NoTerm b (show_primary p @ r) = resolve_loop (tree_primary p) b r \<and>
     (left \<noteq> NoTerm \<longrightarrow> resolve_loop left (Some c) (show_primary p @ r)
        = resolve_loop (Operator c left (tree_primary p)) None r)"
  "valid_seq e \<Longrightarrow> r = [] \<or> op_char (hd r) \<Longrightarrow>
     resolve_loop NoTerm None (show_seq e @ r) = resolve_loop (tree_seq e) None r"
proof (induction p and e arbitrary: r b left c and r)
  case (Atom a)
  then show ?case using resolve_loop_atom [of a r] by simp
next
  case (Paren e)
  then have "resolve_loop NoTerm None (show_seq e) = Some (Inr (tree_seq e))"
    using Paren.IH [of "[]"] by (simp add: resolve_loop_nil)
  with Paren.prems show ?case
    using resolve_loop_paren [of e] by simp
next
  case (Single p)
  then show ?case by simp
next
  case (Snoc e c p)
  have "resolve_loop NoTerm None (show_seq e @ c # show_primary p @ r)
      = resolve_loop (tree_seq e) None (c # show_primary p @ r)"
    using Snoc.IH(1) Snoc.prems by simp
  then show ?case
    using Snoc.IH(2) [of r] Snoc.prems tree_not_NoTerm(2) [of e] by (simp add: resolve_loop_operator)
qed

lemma resolve_term_show:
  "valid_seq e \<Longrightarrow> resolve_term_expression (show_seq e) = Some (Inr (tree_seq e))"
  using resolve_loop_show(2) [of e "[]"] by (simp add: resolve_term_expression_def resolve_loop_nil)

end
