(* ===== verification/RSE_Semantics.thy ===== *)
theory RSE_Semantics
  imports RSE_Grammar
begin

text \<open>
  What an RSE expression means: \<open>denotes\<close> says of one registered RSE whether it belongs to
  the value of an object tree, operators read as set operations. The evaluation of the parser, which computes
  sets of ids and dictionaries of rows, refines it; \<^verbatim>\<open>parse_expression\<close> returns exactly the
  live RSEs the expression denotes that pass the filter.
\<close>

section \<open>Abstract meaning\<close>

definition equal_check :: "session \<Rightarrow> string \<Rightarrow> attr_value \<Rightarrow> rse_row \<Rightarrow> bool" where
  "equal_check s k v r = (\<exists>rs. list_rses (env s) (db s) k v = Inr rs \<and> r \<in> set rs)"

definition has_key :: "session \<Rightarrow> string \<Rightarrow> rse_row \<Rightarrow> bool" where
  "has_key s k r = (\<exists>a \<in> set (rse_attrs (db s)). attr_is (rse_id r) k a)"

definition attr_value_of :: "session \<Rightarrow> rse_row \<Rightarrow> string \<Rightarrow> attr_value option" where
  "attr_value_of s r k = get_rse_attribute (region (env s)) (db s) (rse_id r) k"

fun denotes :: "session \<Rightarrow> element \<Rightarrow> rse_row \<Rightarrow> bool" where
  "denotes s NoTerm r = False"
| "denotes s RSEAll r = True"
| "denotes s (RSEAttributeEqualCheck k v) r = equal_check s k v r"
| "denotes s (RSEAttributeSmallerCheck k v) r =
     (has_key s k r \<and> (\<exists>a. attr_value_of s r k = Some a \<and> float_less s a (AStr v) = Some True))"
| "denotes s (RSEAttributeLargerCheck k v) r =
     (has_key s k r \<and> (\<exists>a. attr_value_of s r k = Some a \<and> float_less s (AStr v) a = Some True))"
| "denotes s (Operator ComplementOperator x y) r = (denotes s x r \<and> \<not> denotes s y r)"
| "denotes s (Operator UnionOperator x y) r = (denotes s x r \<or> denotes s y r)"
| "denotes s (Operator IntersectOperator x y) r = (denotes s x r \<and> denotes s y r)"

definition live :: "session \<Rightarrow> rse_row \<Rightarrow> bool" where
  "live s r \<longleftrightarrow> r \<in> set (rses (db s)) \<and> \<not> deleted r"

section \<open>The evaluation refines the meaning\<close>

text \<open>A result stands for the rows \<open>P\<close>: its ids are theirs, once each, and the dictionary holds them.\<close>

definition stands_for :: "session \<Rightarrow> resolved \<Rightarrow> (rse_row \<Rightarrow> bool) \<Rightarrow> bool" where
  "stands_for s R P \<longleftrightarrow> distinct (fst R)
     \<and> (\<forall>r. live s r \<longrightarrow> (rse_id r \<in> set (fst R) \<longleftrightarrow> P r))
     \<and> (\<forall>i \<in> set (fst R). i \<in> dom (snd R))
     \<and> (\<forall>i r. snd R i = Some r \<longrightarrow> live s r \<and> rse_id r = i)"

lemma live_unique: "rse_wf (db s) \<Longrightarrow> live s r \<Longrightarrow> live s r' \<Longrightarrow> rse_id r = rse_id r' \<Longrightarrow> r = r'"
  by (auto simp: live_def intro: rse_id_unique)

lemma fold_dict: "fold (\<lambda>r m. m(rse_id r \<mapsto> r)) rs m i =
   (case map_of (rev (map (\<lambda>r. (rse_id r, r)) rs)) i of Some r \<Rightarrow> Some r | None \<Rightarrow> m i)"
  by (induction rs arbitrary: m) (auto simp: map_add_def split: option.split)

lemma rse_dict_stands_for:
  assumes "rse_wf (db s)" and "\<forall>r \<in> set rs. live s r"
  shows "stands_for s (rse_dict rs) (\<lambda>r. r \<in> set rs)"
proof -
  have some: "snd (rse_dict rs) i = Some r \<Longrightarrow> r \<in> set rs \<and> rse_id r = i" for i r
    by (auto simp: rse_dict_def fold_dict split: option.splits dest!: map_of_SomeD)
  have "i \<in> dom (snd (rse_dict rs))" if "i \<in> rse_id ` set rs" for i
  proof -
    have "map_of (rev (map (\<lambda>r. (rse_id r, r)) rs)) i \<noteq> None"
      using that by (auto simp: map_of_eq_None_iff image_image)
    then show ?thesis by (auto simp: rse_dict_def fold_dict)
  qed
  moreover have "live s r \<Longrightarrow> rse_id r \<in> rse_id ` set rs \<longleftrightarrow> r \<in> set rs" for r
    using live_unique [OF assms(1)] assms(2) by blast
  ultimately show ?thesis
    using some assms(2) by (simp add: stands_for_def) (simp add: rse_dict_def)
qed

lemma stands_for_cong:
  "(\<And>r. live s r \<Longrightarrow> P r = Q r) \<Longrightarrow> stands_for s R P = stands_for s R Q"
  by (auto simp: stands_for_def)

lemma list_rses_live: "list_rses e d k v = Inr rs \<Longrightarrow> r \<in> set rs \<Longrightarrow> r \<in> set (rses d) \<and> \<not> deleted r"
  by (auto simp: list_rses_def list_by_availability_def list_rses_all_def attr_join_def Let_def
      split: if_splits attr_value.splits option.splits)

lemma get_rses_with_attribute_iff:
  "r \<in> set (get_rses_with_attribute (db s) k) \<longleftrightarrow> live s r \<and> has_key s k r"
  by (auto simp: get_rses_with_attribute_def live_def has_key_def)

lemma rfold_attr_test:
  "rfold (attr_test test s k) rs acc = Inr out \<Longrightarrow>
     out = acc @ filter (\<lambda>r. \<exists>a. attr_value_of s r k = Some a \<and> test a = Some True) rs"
proof (induction rs arbitrary: acc)
  case (Cons r rs)
  from Cons.prems obtain acc' where acc': "attr_test test s k r acc = Inr acc'"
    and "rfold (attr_test test s k) rs acc' = Inr out" by auto
  from Cons.IH [OF this(2)] acc' show ?case
    by (auto simp: attr_test_def attr_value_of_def split: option.splits)
qed simp

lemma stands_for_operator:
  assumes "stands_for s L P" and "stands_for s R Q"
  shows "stands_for s (filter (\<lambda>i. i \<notin> set (fst R)) (fst L), snd L ++ snd R) (\<lambda>r. P r \<and> \<not> Q r)"
    and "stands_for s (fst L @ filter (\<lambda>i. i \<notin> set (fst L)) (fst R), snd L ++ snd R) (\<lambda>r. P r \<or> Q r)"
    and "stands_for s (filter (\<lambda>i. i \<in> set (fst R)) (fst L), snd L ++ snd R) (\<lambda>r. P r \<and> Q r)"
  using assms by (auto simp: stands_for_def map_add_Some_iff)

lemma resolve_elements_stands_for:
  assumes "rse_wf (db s)"
  shows "resolve_elements s t = Inr R \<Longrightarrow> stands_for s R (denotes s t)"
proof (induction t arbitrary: R)
  case RSEAll
  have "stands_for s (rse_dict (list_rses_all (db s))) (\<lambda>r. r \<in> set (list_rses_all (db s)))"
    by (rule rse_dict_stands_for [OF assms]) (simp add: live_def list_rses_all_def)
  moreover have "live s r \<Longrightarrow> r \<in> set (list_rses_all (db s))" for r
    by (simp add: live_def list_rses_all_def)
  ultimately show ?case
    using RSEAll by (simp add: stands_for_def)
next
  case (RSEAttributeEqualCheck k v)
  then obtain rs where rs: "list_rses (env s) (db s) k v = Inr rs" and R: "R = rse_dict rs"
    by (auto simp: lift_registry_def split: sum.splits)
  have "stands_for s (rse_dict rs) (\<lambda>r. r \<in> set rs)"
    by (rule rse_dict_stands_for [OF assms]) (simp add: live_def list_rses_live [OF rs])
  then show ?case by (simp add: R equal_check_def rs)
next
  case (RSEAttributeSmallerCheck k v)
  then obtain rs where rs: "rfold (attr_test (\<lambda>a. float_less s a (AStr v)) s k)
      (get_rses_with_attribute (db s) k) [] = Inr rs" and R: "R = rse_dict rs" by auto
  have "stands_for s (rse_dict rs) (\<lambda>r. r \<in> set rs)"
    by (rule rse_dict_stands_for [OF assms]) (simp add: rfold_attr_test [OF rs] get_rses_with_attribute_iff)
  then show ?case
    by (simp add: R, subst stands_for_cong [where Q = "\<lambda>r. r \<in> set rs"])
      (simp_all add: rfold_attr_test [OF rs] get_rses_with_attribute_iff)
next
  case (RSEAttributeLargerCheck k v)
  then obtain rs where rs: "rfold (attr_test (\<lambda>a. float_less s (AStr v) a) s k)
      (get_rses_with_attribute (db s) k) [] = Inr rs" and R: "R = rse_dict rs" by auto
  have "stands_for s (rse_dict rs) (\<lambda>r. r \<in> set rs)"
    by (rule rse_dict_stands_for [OF assms]) (simp add: rfold_attr_test [OF rs] get_rses_with_attribute_iff)
  then show ?case
    by (simp add: R, subst stands_for_cong [where Q = "\<lambda>r. r \<in> set rs"])
      (simp_all add: rfold_attr_test [OF rs] get_rses_with_attribute_iff)
next
  case (Operator b x y)
  obtain L R' where L: "resolve_elements s x = Inr L" and R': "resolve_elements s y = Inr R'"
    using Operator.prems by (cases "resolve_elements s x"; cases "resolve_elements s y") auto
  note stands_for_operator [OF Operator.IH(1) [OF L] Operator.IH(2) [OF R']]
  with Operator.prems L R' show ?case by (cases b) (auto cong: stands_for_cong)
qed simp

lemma rows_of_stands_for:
  assumes "rse_wf (db s)" and "stands_for s R P"
  shows "set (rows_of R) = {r. live s r \<and> P r}" and "distinct (rows_of R)"
proof -
  have row: "i \<in> set (fst R) \<Longrightarrow> live s (the (snd R i)) \<and> rse_id (the (snd R i)) = i" for i
    using assms(2) by (auto simp: stands_for_def)
  show "set (rows_of R) = {r. live s r \<and> P r}"
  proof (intro set_eqI iffI)
    fix r assume "r \<in> set (rows_of R)"
    then obtain i where "i \<in> set (fst R)" "r = the (snd R i)" by (auto simp: rows_of_def)
    then have "live s r" "rse_id r \<in> set (fst R)" using row by auto
    then show "r \<in> {r. live s r \<and> P r}" using assms(2) by (simp add: stands_for_def)
  next
    fix r assume "r \<in> {r. live s r \<and> P r}"
    then have r: "live s r" "rse_id r \<in> set (fst R)" using assms(2) by (auto simp: stands_for_def)
    then have "the (snd R (rse_id r)) = r" using row live_unique [OF assms(1)] by blast
    with r(2) show "r \<in> set (rows_of R)" by (force simp: rows_of_def)
  qed
  show "distinct (rows_of R)"
    using assms(2) row by (auto simp: rows_of_def distinct_map stands_for_def inj_on_def) metis
qed

section \<open>Properties\<close>

lemma apply_filters_Inr:
  "apply_filters f result = Inr rows \<Longrightarrow> set rows = {r \<in> set result.
     (case f of None \<Rightarrow> True
      | Some g \<Rightarrow> (\<forall>v. f_vo g = Some v \<longrightarrow> v \<noteq> [] \<longrightarrow> rse_vo r = v) \<and>
                   (f_availability_write g \<noteq> None \<longrightarrow> availability_write r = Some True))}"
  by (auto simp: apply_filters_def Let_def filter_empty_conv split: option.splits if_splits)

lemma apply_filters_distinct: "apply_filters f result = Inr rows \<Longrightarrow> distinct result \<Longrightarrow> distinct rows \<and> rows \<noteq> []"
  by (auto simp: apply_filters_def Let_def split: option.splits if_splits)

lemma evaluate_expression_checked:
  "valid_seq e \<Longrightarrow> evaluate_expression s (show_seq e) = Some (rbind (resolve_elements s (tree_seq e)) (\<lambda>R. Inr (rows_of R)))"
  by (simp add: evaluate_expression_def check_expression_show resolve_term_show)

lemma evaluate_expression_resolved:
  assumes "evaluate_expression s x = Some (Inr result)"
  obtains e R where "valid_seq e" and "x = show_seq e" and "resolve_elements s (tree_seq e) = Inr R" and "result = rows_of R"
proof -
  have "check_expression x = Inr ()"
    using assms by (auto simp: evaluate_expression_def split: sum.splits)
  then obtain e where e: "valid_seq e" "x = show_seq e" by (rule check_expression_grammar)
  then show thesis using assms that by (auto simp: evaluate_expression_checked rbind_eq_Inr)
qed

lemma parse_expression_checked:
  "valid_seq e \<Longrightarrow> parse_expression s None (show_seq e) f =
     Some (rbind (resolve_elements s (tree_seq e)) (\<lambda>R. apply_filters f (rows_of R)))"
  by (cases "resolve_elements s (tree_seq e)") (simp_all add: parse_expression_def evaluate_expression_checked)

lemma parse_expression_resolved:
  assumes "parse_expression s None x f = Some (Inr rows)"
  obtains e R where "valid_seq e" and "x = show_seq e" and "resolve_elements s (tree_seq e) = Inr R"
    and "apply_filters f (rows_of R) = Inr rows"
proof -
  from assms obtain result where "evaluate_expression s x = Some (Inr result)" and "apply_filters f result = Inr rows"
    by (auto simp: parse_expression_def rbind_eq_Inr)
  then show thesis using that by (auto elim: evaluate_expression_resolved)
qed

text \<open>What the clients of the parser rely on: the rows are live and their ids are distinct.\<close>

lemma parse_expression_rows:
  assumes "rse_wf (db s)" and "parse_expression s None x f = Some (Inr rows)"
  shows "distinct (map rse_id rows)" and "\<forall>r \<in> set rows. live s r" and "rows \<noteq> []"
proof -
  obtain e R where R: "resolve_elements s (tree_seq e) = Inr R" and rows: "apply_filters f (rows_of R) = Inr rows"
    using assms(2) by (rule parse_expression_resolved)
  note st = rows_of_stands_for [OF assms(1) resolve_elements_stands_for [OF assms(1) R]]
  show live: "\<forall>r \<in> set rows. live s r" and "rows \<noteq> []"
    using apply_filters_Inr [OF rows] apply_filters_distinct [OF rows st(2)] st(1) by auto
  have "inj_on rse_id (set rows)" using live live_unique [OF assms(1)] by (auto intro: inj_onI)
  then show "distinct (map rse_id rows)" using apply_filters_distinct [OF rows st(2)] by (simp add: distinct_map)
qed

definition demo_seq :: seq where
  "demo_seq = Snoc (Single (Paren (Snoc (Single (Atom ''tier=1'')) CHR ''|'' (Atom ''CERN''))))
                CHR 0x5C (Atom ''BNL-OSG2'')"

lemma demo_valid: "valid_seq demo_seq"
  by (simp add: demo_seq_def is_atom_def) code_simp

lemma demo_show: "show_seq demo_seq = ''(tier=1|CERN)'' @ [CHR 0x5C] @ ''BNL-OSG2''"
  by (simp add: demo_seq_def)

text \<open>C17: The checks before parsing accept exactly the grammar: the count of parentheses and the
  regular expression together let a text through if and only if it is the text of a
  sequence of primaries separated by operators, with properly nested parentheses.\<close>

theorem check_expression_iff_grammar:
  "check_expression x = Inr () \<longleftrightarrow> (\<exists>e. valid_seq e \<and> x = show_seq e)"
  using check_expression_show check_expression_grammar by metis

text \<open>C16: The parser is correct on every text that passes the checks: its loop ends, it raises no
  internal error (no missing operator, no unbalanced term), and the tree it returns is that
  of the grammar, with all operators of one precedence associating to the left.\<close>

theorem parser_returns_tree:
  assumes "check_expression x = Inr ()"
  shows "\<exists>e. valid_seq e \<and> x = show_seq e \<and> resolve_term_expression x = Some (Inr (tree_seq e))"
  using check_expression_grammar [OF assms] resolve_term_show by metis

theorem parser_returns_tree_witness:
  "\<exists>e. valid_seq e \<and> ''(tier=1|CERN)'' @ [CHR 0x5C] @ ''BNL-OSG2'' = show_seq e \<and>
     resolve_term_expression (''(tier=1|CERN)'' @ [CHR 0x5C] @ ''BNL-OSG2'') = Some (Inr (tree_seq e))"
  using parser_returns_tree [of "show_seq demo_seq"] check_expression_show [OF demo_valid]
  unfolding demo_show by blast

text \<open>C15: Let \<open>s0\<close> be the session in which the result was computed: the current one when the cache has no entry for the expression, else the
  earlier one whose rows the cache still holds. If the registry was well formed in \<open>s0\<close> and \<^verbatim>\<open>parse_expression\<close> returns rows, the
  expression is in the grammar and the rows are exactly the RSEs that were live in \<open>s0\<close> and in the
  set-theoretic value of its tree there, that belong to the requested VO and, when the write filter is
  given, were available for writing; no RSE is returned twice and the result is not empty. (A cached result can thus hold
  RSEs that have been deleted since.)\<close>

theorem parse_expression_denotes:
  assumes "rse_wf (db s0)" and "case cached of None \<Rightarrow> s0 = s | Some result \<Rightarrow> evaluate_expression s0 x = Some (Inr result)"
    and "parse_expression s cached x f = Some (Inr rows)"
  shows "\<exists>e. valid_seq e \<and> x = show_seq e \<and> distinct rows \<and> rows \<noteq> [] \<and>
    set rows = {r. live s0 r \<and> denotes s0 (tree_seq e) r \<and>
      (case f of None \<Rightarrow> True
       | Some g \<Rightarrow> (\<forall>v. f_vo g = Some v \<longrightarrow> v \<noteq> [] \<longrightarrow> rse_vo r = v) \<and>
                    (f_availability_write g \<noteq> None \<longrightarrow> availability_write r = Some True))}"
proof -
  obtain result where result: "evaluate_expression s0 x = Some (Inr result)" "apply_filters f result = Inr rows"
    using assms(2,3) by (cases cached) (auto simp: parse_expression_def rbind_eq_Inr)
  obtain e R where e: "valid_seq e" "x = show_seq e" and R: "resolve_elements s0 (tree_seq e) = Inr R" and "result = rows_of R"
    using result(1) by (rule evaluate_expression_resolved)
  with result(2) have rows: "apply_filters f (rows_of R) = Inr rows" by simp
  note st = resolve_elements_stands_for [OF assms(1) R]
  show ?thesis
    using e rows_of_stands_for [OF assms(1) st] apply_filters_Inr [OF rows] apply_filters_distinct [OF rows]
    by auto
qed

definition demo_session :: session where
  "demo_session = \<lparr>db = one_rse_db,
     env = \<lparr>sql_eq = (\<lambda>_ _. False), orm_attr = (\<lambda>_. False), region = no_cache\<rparr>,
     float_less = (\<lambda>_ _. None)\<rparr>"

lemma demo_session_wf: "rse_wf (db demo_session)"
  by (simp add: demo_session_def one_rse_db_def empty_rse_db_def rse_wf_def rse_counter_inv_def attr_key_def)

lemma demo_parse_filters: "parse_expression demo_session None (show_seq demo_seq) f = Some (apply_filters f [sample_rse ''1'' ''CERN''])"
proof -
  have tree: "tree_seq demo_seq = Operator ComplementOperator
       (Operator UnionOperator (RSEAttributeEqualCheck ''tier'' (AStr ''1''))
          (RSEAttributeEqualCheck ''CERN'' (ABool True)))
       (RSEAttributeEqualCheck ''BNL-OSG2'' (ABool True))"
    unfolding demo_seq_def by code_simp
  show ?thesis
    by (simp add: parse_expression_checked [OF demo_valid] tree demo_session_def list_rses_def
        column_names_def text_columns_def relationships_def lift_registry_def attr_join_def list_rses_all_def one_rse_db_def
        empty_rse_db_def sample_rse_def attr_is_def rse_dict_def rows_of_def Let_def lower_def lower_char_def)
qed

lemma demo_parse: "parse_expression demo_session None (show_seq demo_seq) None = Some (Inr [sample_rse ''1'' ''CERN''])"
  by (simp add: demo_parse_filters apply_filters_def)

text \<open>The result is read from the cache in a session whose registry has lost the RSE.\<close>

theorem parse_expression_denotes_witness:
  "\<exists>e. valid_seq e \<and> show_seq demo_seq = show_seq e \<and>
     parse_expression (demo_session\<lparr>db := empty_rse_db\<rparr>) (Some [sample_rse ''1'' ''CERN'']) (show_seq demo_seq) None
       = Some (Inr [sample_rse ''1'' ''CERN'']) \<and>
     set [sample_rse ''1'' ''CERN''] = {r. live demo_session r \<and> denotes demo_session (tree_seq e) r}"
proof -
  let ?s = "demo_session\<lparr>db := empty_rse_db\<rparr>" and ?rows = "[sample_rse ''1'' ''CERN'']"
  have run: "parse_expression ?s (Some ?rows) (show_seq demo_seq) None = Some (Inr ?rows)"
    by (simp add: parse_expression_def apply_filters_def)
  have "evaluate_expression demo_session (show_seq demo_seq) = Some (Inr ?rows)"
    using demo_parse by (auto simp: parse_expression_def rbind_eq_Inr apply_filters_def Let_def split: if_splits)
  then have "case Some ?rows of None \<Rightarrow> demo_session = ?s | Some result \<Rightarrow> evaluate_expression demo_session (show_seq demo_seq) = Some (Inr result)"
    by simp
  from parse_expression_denotes [OF demo_session_wf this run] run show ?thesis by simp
qed

end
