(* ===== verification/Account_Limits.thy ===== *)
theory Account_Limits
  imports Role_Quotas RSE_Semantics
begin

text \<open>
  Accounts (\<^verbatim>\<open>core/account.py\<close>: creation, deletion, update, attributes, usage) and their limits on RSEs
  (\<^verbatim>\<open>core/account_limit.py\<close>).

  A limit is local, on one RSE, or global, on the RSEs of an expression; the stored value \<open>-1\<close> stands for no limit
  and \<^verbatim>\<open>NULL\<close> for a limit that was never given. Whatever resolves an expression returns an option, as the parser
  does. Integrity errors of the database are raised where the code saves a row.
\<close>

section \<open>Accounts\<close>

datatype account_status = AccountACTIVE | AccountSUSPENDED | AccountDELETED

datatype account_type = AccountUSER | AccountGROUP | AccountSERVICE

record account_row =
  ac_account :: internal
  ac_type :: account_type
  ac_status :: account_status
  ac_email :: "string option"
  ac_suspended_at :: "int option"
  ac_deleted_at :: "int option"

record accounts_db =
  vos :: "string list"
  account_rows :: "account_row list"
  account_attr_map :: "(internal \<times> string \<times> string) list"
  account_limits :: "(internal \<times> string \<times> int option) list"
  account_glob_limits :: "(internal \<times> string \<times> int option) list"
  account_usage_rows :: "account_usage list"

datatype account_error =
    AccountNotFound
  | AccountDuplicate
  | AccountVONotFound
  | UnsupportedAccountName
  | AccountKeyError
  | AccountTypeError
  | AccountIntegrityError
  | AccountExpressionError parse_error

definition add_account ::
  "bool \<Rightarrow> internal \<Rightarrow> account_type \<Rightarrow> string option \<Rightarrow> accounts_db \<Rightarrow> account_error + accounts_db" where
  "add_account multi_vo account t email d =
     (if i_vo account \<notin> set (vos d) then Inl AccountVONotFound
      else if i_external account = ''super_root'' \<and> \<not> (i_vo account = DEFAULT_VO \<and> multi_vo) then Inl UnsupportedAccountName
      else if \<exists>r \<in> set (account_rows d). ac_account r = account then Inl AccountDuplicate
      else Inr (d\<lparr>account_rows := account_rows d @
              [\<lparr>ac_account = account, ac_type = t, ac_status = AccountACTIVE, ac_email = email, ac_suspended_at = None,
                ac_deleted_at = None\<rparr>]\<rparr>))"

definition account_exists :: "accounts_db \<Rightarrow> internal \<Rightarrow> bool" where
  "account_exists d account \<longleftrightarrow> (\<exists>r \<in> set (account_rows d). ac_account r = account \<and> ac_status r = AccountACTIVE)"

definition get_account :: "accounts_db \<Rightarrow> internal \<Rightarrow> account_error + account_row" where
  "get_account d account = (case find (\<lambda>r. ac_account r = account) (account_rows d) of Some r \<Rightarrow> Inr r | None \<Rightarrow> Inl AccountNotFound)"

definition upd_account :: "internal \<Rightarrow> (account_row \<Rightarrow> account_row) \<Rightarrow> accounts_db \<Rightarrow> accounts_db" where
  "upd_account account f d = d\<lparr>account_rows := upd_where (\<lambda>r. ac_account r = account) f (account_rows d)\<rparr>"

definition del_account :: "int \<Rightarrow> internal \<Rightarrow> accounts_db \<Rightarrow> account_error + accounts_db" where
  "del_account now account d =
     (if account_exists d account
      then Inr (upd_account account (\<lambda>r. r\<lparr>ac_status := AccountDELETED, ac_deleted_at := Some now\<rparr>) d)
      else Inl AccountNotFound)"

text \<open>The value of an update: the name of a status, a status, or something else. Other keys than \<^verbatim>\<open>status\<close> go to the
  attribute of that name; how the object-relational layer stores it is a parameter.\<close>

datatype account_value = StatusName string | StatusMember account_status | OtherValue attr_value

definition status_names :: "(string \<times> account_status) list" where
  "status_names = [(''ACTIVE'', AccountACTIVE), (''SUSPENDED'', AccountSUSPENDED), (''DELETED'', AccountDELETED)]"

fun set_status :: "int \<Rightarrow> account_status \<Rightarrow> account_row \<Rightarrow> account_row" where
  "set_status now AccountSUSPENDED r = r\<lparr>ac_status := AccountSUSPENDED, ac_suspended_at := Some now\<rparr>"
| "set_status now AccountACTIVE r = r\<lparr>ac_status := AccountACTIVE, ac_suspended_at := None\<rparr>"
| "set_status now AccountDELETED r = r"

definition update_account ::
  "(string \<Rightarrow> account_value \<Rightarrow> account_row \<Rightarrow> account_row) \<Rightarrow> int \<Rightarrow> internal \<Rightarrow> string \<Rightarrow> account_value \<Rightarrow> accounts_db
     \<Rightarrow> account_error + accounts_db" where
  "update_account store now account key v d =
     rbind (get_account d account) (\<lambda>_.
       if key = ''status'' then
         (case v of
            StatusName s \<Rightarrow> (case map_of status_names s of
                Some st \<Rightarrow> Inr (upd_account account (set_status now st) d)
              | None \<Rightarrow> Inl AccountKeyError)
          | StatusMember st \<Rightarrow> Inr (upd_account account (set_status now st) d)
          | OtherValue _ \<Rightarrow> Inr d)
       else Inr (upd_account account (store key v) d))"

definition list_account_attributes :: "accounts_db \<Rightarrow> internal \<Rightarrow> account_error + (string \<times> attr_value) list" where
  "list_account_attributes d account =
     (if account_exists d account
      then Inr [(k, process_result_value v). (a, k, v) \<leftarrow> account_attr_map d, a = account]
      else Inl AccountNotFound)"

definition has_account_attribute :: "accounts_db \<Rightarrow> internal \<Rightarrow> string \<Rightarrow> bool" where
  "has_account_attribute d account key \<longleftrightarrow> (\<exists>(a, k, v) \<in> set (account_attr_map d). a = account \<and> k = key)"

definition add_account_attribute :: "internal \<Rightarrow> string \<Rightarrow> attr_value \<Rightarrow> accounts_db \<Rightarrow> account_error + accounts_db" where
  "add_account_attribute account key v d =
     (if \<not> account_exists d account then Inl AccountNotFound
      else if has_account_attribute d account key then Inl AccountDuplicate
      else Inr (d\<lparr>account_attr_map := account_attr_map d @ [(account, key, process_bind_param v)]\<rparr>))"

definition del_account_attribute :: "internal \<Rightarrow> string \<Rightarrow> accounts_db \<Rightarrow> account_error + accounts_db" where
  "del_account_attribute account key d =
     (if has_account_attribute d account key
      then Inr (d\<lparr>account_attr_map := filter (\<lambda>(a, k, _). \<not> (a = account \<and> k = key)) (account_attr_map d)\<rparr>)
      else Inl AccountNotFound)"

text \<open>The usage as \<^verbatim>\<open>(bytes, files)\<close>; \<^verbatim>\<open>(rse_id, account)\<close> is the key of the table.\<close>

definition get_usage :: "accounts_db \<Rightarrow> string \<Rightarrow> internal \<Rightarrow> int \<times> int" where
  "get_usage d rse account =
     (case find (\<lambda>u. au_rse_id u = rse \<and> au_account u = account) (account_usage_rows d) of
        Some u \<Rightarrow> (au_bytes u, au_files u)
      | None \<Rightarrow> (0, 0))"

definition get_all_rse_usages_per_account :: "accounts_db \<Rightarrow> internal \<Rightarrow> account_usage list" where
  "get_all_rse_usages_per_account d account = filter (\<lambda>u. au_account u = account) (account_usage_rows d)"

section \<open>Limits\<close>

text \<open>\<^verbatim>\<open>float("inf") if bytes == -1 else bytes\<close>\<close>

definition limit_value :: "int option \<Rightarrow> space option" where
  "limit_value b = map_option (\<lambda>n. if n = -1 then Unlimited else Bytes n) b"

definition minus_bytes :: "space \<Rightarrow> int \<Rightarrow> space" where
  "minus_bytes s n = (case s of Unlimited \<Rightarrow> Unlimited | Bytes m \<Rightarrow> Bytes (m - n))"

definition limit_key :: "internal \<times> string \<times> int option \<Rightarrow> internal \<times> string" where
  "limit_key l = (fst l, fst (snd l))"

definition find_limit :: "(internal \<times> string \<times> int option) list \<Rightarrow> internal \<Rightarrow> string \<Rightarrow> int option option" where
  "find_limit rows account key = map_option (\<lambda>l. snd (snd l)) (find (\<lambda>l. limit_key l = (account, key)) rows)"

text \<open>\<^verbatim>\<open>get_global_account_limit\<close> for one expression, and the dictionary for all of them: by expression the RSEs it
  resolves to and the limit. Without an account the rows of all accounts share the dictionary.\<close>

definition get_global_account_limit_of :: "accounts_db \<Rightarrow> internal \<Rightarrow> string \<Rightarrow> account_error + space option" where
  "get_global_account_limit_of d account rse_expression =
     (if account_exists d account
      then Inr (Option.bind (find_limit (account_glob_limits d) account rse_expression) limit_value)
      else Inl AccountNotFound)"

type_synonym resolved_limits = "(string \<times> rse_row list \<times> space option) list"

definition vo_filter :: "internal \<Rightarrow> filters" where
  "vo_filter account = \<lparr>f_vo = Some (i_vo account), f_availability_write = None, f_other_keys = False\<rparr>"

definition resolve_rses :: "session \<Rightarrow> string \<Rightarrow> internal option \<Rightarrow> (account_error + rse_row list) option" where
  "resolve_rses s rse_expression account =
     map_option (\<lambda>r. case r of Inl e \<Rightarrow> Inl (AccountExpressionError e) | Inr rows \<Rightarrow> Inr rows)
       (parse_expression s None rse_expression (map_option vo_filter account))"

fun resolve_limits ::
  "session \<Rightarrow> internal option \<Rightarrow> (internal \<times> string \<times> int option) list \<Rightarrow> resolved_limits \<Rightarrow> (account_error + resolved_limits) option" where
  "resolve_limits s account [] res = Some (Inr res)"
| "resolve_limits s account ((_, x, b) # ls) res =
     Option.bind (resolve_rses s x account) (\<lambda>r. obind r (\<lambda>rows.
       resolve_limits s account ls (AList.update x (rows, limit_value b) res)))"

definition get_global_account_limit ::
  "session \<Rightarrow> accounts_db \<Rightarrow> internal option \<Rightarrow> (account_error + resolved_limits) option" where
  "get_global_account_limit s d account =
     (case account of
        None \<Rightarrow> resolve_limits s None (account_glob_limits d) []
      | Some a \<Rightarrow> if account_exists d a
                   then resolve_limits s (Some a) (filter (\<lambda>l. fst l = a) (account_glob_limits d)) []
                   else Some (Inl AccountNotFound))"

text \<open>\<^verbatim>\<open>get_local_account_limit\<close> for one RSE, and for a list of RSEs, which is queried in chunks of ten; an empty list
  counts as no list.\<close>

definition get_local_account_limit :: "accounts_db \<Rightarrow> internal \<Rightarrow> string \<Rightarrow> account_error + space option" where
  "get_local_account_limit d account rse =
     (if account_exists d account
      then Inr (Option.bind (find_limit (account_limits d) account rse) limit_value)
      else Inl AccountNotFound)"

fun chunks :: "nat \<Rightarrow> 'a list \<Rightarrow> 'a list list" where
  "chunks n [] = []"
| "chunks n (x # xs) = take (Suc n) (x # xs) # chunks n (drop n xs)"

definition limit_dict :: "(internal \<times> string \<times> int option) list \<Rightarrow> (string \<times> space option) list \<Rightarrow> (string \<times> space option) list" where
  "limit_dict rows res = fold (\<lambda>(_, rse, b). AList.update rse (limit_value b)) rows res"

definition get_local_account_limits ::
  "accounts_db \<Rightarrow> internal \<Rightarrow> string list option \<Rightarrow> account_error + (string \<times> space option) list" where
  "get_local_account_limits d account rse_ids =
     (if account_exists d account then
        (let own = filter (\<lambda>l. fst l = account) (account_limits d)
         in Inr (case rse_ids of
              Some (x # xs) \<Rightarrow>
                fold (\<lambda>chunk. limit_dict (filter (\<lambda>l. fst (snd l) \<in> set chunk) own)) (chunks 9 (x # xs)) []
            | _ \<Rightarrow> limit_dict own []))
      else Inl AccountNotFound)"

definition put_row :: "internal \<Rightarrow> string \<Rightarrow> int option \<Rightarrow> (internal \<times> string \<times> int option) list \<Rightarrow> (internal \<times> string \<times> int option) list" where
  "put_row account key b rows =
     (if (account, key) \<in> limit_key ` set rows
      then upd_where (\<lambda>l. limit_key l = (account, key)) (\<lambda>_. (account, key, b)) rows
      else rows @ [(account, key, b)])"

definition set_local_account_limit :: "rse_db \<Rightarrow> internal \<Rightarrow> string \<Rightarrow> int option \<Rightarrow> accounts_db \<Rightarrow> account_error + accounts_db" where
  "set_local_account_limit reg account rse b d =
     (if find_limit (account_limits d) account rse = None \<and>
         \<not> ((\<exists>r \<in> set (account_rows d). ac_account r = account) \<and> rse \<in> rse_id ` set (rses reg))
      then Inl AccountIntegrityError
      else Inr (d\<lparr>account_limits := put_row account rse b (account_limits d)\<rparr>))"

definition set_global_account_limit :: "internal \<Rightarrow> string \<Rightarrow> int option \<Rightarrow> accounts_db \<Rightarrow> account_error + accounts_db" where
  "set_global_account_limit account rse_expression b d =
     (if find_limit (account_glob_limits d) account rse_expression = None \<and>
         \<not> (\<exists>r \<in> set (account_rows d). ac_account r = account)
      then Inl AccountIntegrityError
      else Inr (d\<lparr>account_glob_limits := put_row account rse_expression b (account_glob_limits d)\<rparr>))"

definition drop_row :: "internal \<Rightarrow> string \<Rightarrow> (internal \<times> string \<times> int option) list \<Rightarrow> (internal \<times> string \<times> int option) list" where
  "drop_row account key rows = filter (\<lambda>l. limit_key l \<noteq> (account, key)) rows"

definition delete_local_account_limit :: "internal \<Rightarrow> string \<Rightarrow> accounts_db \<Rightarrow> bool \<times> accounts_db" where
  "delete_local_account_limit account rse d =
     (if find_limit (account_limits d) account rse = None then (False, d)
      else (True, d\<lparr>account_limits := drop_row account rse (account_limits d)\<rparr>))"

definition delete_global_account_limit :: "internal \<Rightarrow> string \<Rightarrow> accounts_db \<Rightarrow> bool \<times> accounts_db" where
  "delete_global_account_limit account rse_expression d =
     (if find_limit (account_glob_limits d) account rse_expression = None then (False, d)
      else (True, d\<lparr>account_glob_limits := drop_row account rse_expression (account_glob_limits d)\<rparr>))"

section \<open>Usage against the limits\<close>

text \<open>The entries of a usage report. The key is an RSE or an expression; the name of the RSE is left out. The local report runs
  over a set, whose order is not significant.\<close>

record usage_entry =
  ue_key :: string
  ue_bytes :: int
  ue_files :: int
  ue_limit :: space
  ue_remaining :: space

text \<open>\<^verbatim>\<open>limits.get(rse_id, 0) - counter_bytes\<close> raises when the stored limit is \<^verbatim>\<open>NULL\<close>.\<close>

definition local_entry ::
  "(string \<times> space option) list \<Rightarrow> account_usage list \<Rightarrow> string \<Rightarrow> account_error + usage_entry list" where
  "local_entry limits cs rse =
     (let (b, f) = (case find (\<lambda>u. au_rse_id u = rse) cs of Some u \<Rightarrow> (au_bytes u, au_files u) | None \<Rightarrow> (0, 0))
      in if b > 0 \<or> f > 0 \<or> rse \<in> fst ` set limits then
           (case map_of limits rse of
              None \<Rightarrow> Inr [\<lparr>ue_key = rse, ue_bytes = b, ue_files = f, ue_limit = Bytes 0, ue_remaining = Bytes (0 - b)\<rparr>]
            | Some None \<Rightarrow> Inl AccountTypeError
            | Some (Some l) \<Rightarrow> Inr [\<lparr>ue_key = rse, ue_bytes = b, ue_files = f, ue_limit = l, ue_remaining = minus_bytes l b\<rparr>])
         else Inr [])"

definition get_local_account_usage :: "accounts_db \<Rightarrow> internal \<Rightarrow> string option \<Rightarrow> account_error + usage_entry list" where
  "get_local_account_usage d account rse =
     (let one = (case rse of None \<Rightarrow> None | Some r \<Rightarrow> if r = [] then None else Some r)
      in rbind (get_local_account_limits d account (map_option (\<lambda>r. [r]) one)) (\<lambda>limits.
           let cs = filter (\<lambda>u. au_account u = account \<and> (case one of None \<Rightarrow> True | Some r \<Rightarrow> au_rse_id u = r)) (account_usage_rows d);
               keys = remdups (map fst limits @ map au_rse_id cs)
           in rbind (rmapM (local_entry limits cs) keys) (\<lambda>es. Inr (concat es))))"

definition usage_dict :: "accounts_db \<Rightarrow> internal \<Rightarrow> (string \<times> int \<times> int) list" where
  "usage_dict d account =
     map (\<lambda>u. (au_rse_id u, au_bytes u, au_files u)) (rev (get_all_rse_usages_per_account d account))"

definition used_by :: "(string \<times> int \<times> int) list \<Rightarrow> string \<Rightarrow> int \<times> int" where
  "used_by u rse = (case map_of u rse of None \<Rightarrow> (0, 0) | Some p \<Rightarrow> p)"

definition global_entry :: "(string \<times> int \<times> int) list \<Rightarrow> string \<times> rse_row list \<times> space option \<Rightarrow> account_error + usage_entry" where
  "global_entry u = (\<lambda>(x, rows, l).
     let b = (\<Sum>r \<leftarrow> rows. fst (used_by u (rse_id r))); f = (\<Sum>r \<leftarrow> rows. snd (used_by u (rse_id r)))
     in case l of
          None \<Rightarrow> Inl AccountTypeError
        | Some s \<Rightarrow> Inr \<lparr>ue_key = x, ue_bytes = b, ue_files = f, ue_limit = s, ue_remaining = minus_bytes s b\<rparr>)"

definition get_all_global_account_usage :: "session \<Rightarrow> accounts_db \<Rightarrow> internal \<Rightarrow> (account_error + usage_entry list) option" where
  "get_all_global_account_usage s d account =
     map_option (\<lambda>r. rbind r (rmapM (global_entry (usage_dict d account)))) (get_global_account_limit s d (Some account))"

definition get_global_account_usage :: "session \<Rightarrow> accounts_db \<Rightarrow> internal \<Rightarrow> string \<Rightarrow> (account_error + usage_entry) option" where
  "get_global_account_usage s d account x =
     obind (get_global_account_limit_of d account x) (\<lambda>limit.
     Option.bind (resolve_rses s x (Some account)) (\<lambda>r. obind r (\<lambda>rows.
       let us = filter (\<lambda>u. au_account u = account \<and> au_rse_id u \<in> set (map rse_id rows)) (account_usage_rows d);
           b = sum_list (map au_bytes us);
           l = (case limit of None \<Rightarrow> Bytes 0 | Some l \<Rightarrow> l)
       in Some (Inr \<lparr>ue_key = x, ue_bytes = b, ue_files = sum_list (map au_files us), ue_limit = l,
            ue_remaining = minus_bytes l b\<rparr>))))"

text \<open>\<^verbatim>\<open>get_rse_account_usage\<close>: per account of the VO of the RSE its usage and its stored limit. The query compares the
  text of the account with \<^verbatim>\<open>LIKE\<close>; the loop then keeps the accounts whose VO is that of the RSE.\<close>

definition account_of_vo :: "string \<Rightarrow> internal \<Rightarrow> bool" where
  "account_of_vo vo account \<longleftrightarrow>
     (if vo = DEFAULT_VO then CHR ''@'' \<notin> set account
      else \<exists>n \<le> length account. drop n account = CHR ''@'' # vo)"

definition get_rse_account_usage :: "rse_db \<Rightarrow> accounts_db \<Rightarrow> string \<Rightarrow> (internal \<times> (int \<times> int) \<times> int option) list" where
  "get_rse_account_usage reg d rse =
     [(ac_account a, get_usage d rse (ac_account a), Option.bind (find_limit (account_limits d) (ac_account a) rse) (\<lambda>b. b)).
        r \<leftarrow> rses reg, rse_id r = rse, a \<leftarrow> account_rows d, account_of_vo (rse_vo r) (ac_account a) \<and> i_vo (ac_account a) = rse_vo r]"

section \<open>The tables of limits\<close>

lemma find_limit_Some_iff: "find_limit rows account key = None \<longleftrightarrow> (account, key) \<notin> limit_key ` set rows"
  by (induction rows) (auto simp: find_limit_def)

lemma find_limit_Cons [simp]:
  "find_limit (l # rows) a k = (if limit_key l = (a, k) then Some (snd (snd l)) else find_limit rows a k)"
  by (simp add: find_limit_def)

lemma find_limit_Nil [simp]: "find_limit [] a k = None"
  by (simp add: find_limit_def)

lemma find_limit_append [simp]:
  "find_limit (rows @ rows') a k = (case find_limit rows a k of Some b \<Rightarrow> Some b | None \<Rightarrow> find_limit rows' a k)"
  by (induction rows) auto

lemma find_limit_upd:
  "find_limit (upd_where (\<lambda>l. limit_key l = (account, key)) (\<lambda>_. (account, key, b)) rows) a k =
     (if (account, key) = (a, k) then map_option (\<lambda>_. b) (find_limit rows a k) else find_limit rows a k)"
  by (induction rows) (auto simp: limit_key_def)

lemma find_limit_put:
  "find_limit (put_row account key b rows) a k = (if (account, key) = (a, k) then Some b else find_limit rows a k)"
proof (cases "(account, key) \<in> limit_key ` set rows")
  case True
  then show ?thesis using find_limit_Some_iff [of rows account key] by (auto simp: put_row_def find_limit_upd)
next
  case False
  then have "limit_key (account, key, b) = (account, key)" and "find_limit rows account key = None"
    by (simp_all add: limit_key_def find_limit_Some_iff)
  with False show ?thesis by (auto simp: put_row_def split: option.splits)
qed

lemma find_limit_drop: "find_limit (drop_row account key rows) a k = (if (account, key) = (a, k) then None else find_limit rows a k)"
  unfolding drop_row_def by (induction rows) auto

text \<open>Both tables of limits are stores keyed by account and RSE, or account and expression.\<close>

interpretation limit_rows: keyed_store "\<lambda>rows (a, k). find_limit rows a k" "\<lambda>(a, k). put_row a k" "\<lambda>(a, k). drop_row a k" "\<lambda>b. b"
  by unfold_locales (simp_all add: find_limit_put find_limit_drop split: prod.split)

lemma local_limit_after_set:
  assumes "set_local_account_limit reg account rse b d = Inr d'" and "account_exists d account"
  shows "get_local_account_limit d' account rse = Inr (limit_value b)"
    and "(a, r) \<noteq> (account, rse) \<Longrightarrow> get_local_account_limit d' a r = get_local_account_limit d a r"
proof -
  have d': "d' = d\<lparr>account_limits := put_row account rse b (account_limits d)\<rparr>"
    using assms(1) by (auto simp: set_local_account_limit_def split: if_splits)
  have "account_exists d' a = account_exists d a" for a by (simp add: d' account_exists_def)
  then show "get_local_account_limit d' account rse = Inr (limit_value b)"
    and "(a, r) \<noteq> (account, rse) \<Longrightarrow> get_local_account_limit d' a r = get_local_account_limit d a r"
    using assms(2) by (auto simp: get_local_account_limit_def d' find_limit_put)
qed

lemma find_limit_mem:
  "l \<in> set rows \<Longrightarrow> fst l = account \<Longrightarrow> distinct (map limit_key rows) \<Longrightarrow> find_limit rows account (fst (snd l)) = Some (snd (snd l))"
proof (induction rows)
  case (Cons a rows)
  show ?case
  proof (cases "l = a")
    case True
    then show ?thesis using Cons.prems(2) by (simp add: limit_key_def)
  next
    case False
    then have l: "l \<in> set rows" using Cons.prems(1) by simp
    then have "limit_key a \<noteq> limit_key l" using Cons.prems(3) by (metis distinct.simps(2) imageI list.set_map list.simps(9))
    then have "limit_key a \<noteq> (account, fst (snd l))" using Cons.prems(2) by (simp add: limit_key_def)
    then show ?thesis using Cons.IH [OF l Cons.prems(2)] Cons.prems(3) by simp
  qed
qed simp

text \<open>The dictionary of local limits has the limit of every requested RSE, whatever the chunks.\<close>

lemma concat_chunks [simp]: "concat (chunks n xs) = xs"
  by (induction n xs rule: chunks.induct) simp_all

lemma map_of_limit_dict:
  assumes "distinct (map limit_key rows)" and "\<forall>l \<in> set rows. fst l = account"
  shows "map_of (limit_dict rows res) rse =
    (case find_limit rows account rse of Some b \<Rightarrow> Some (limit_value b) | None \<Rightarrow> map_of res rse)"
  using assms
proof (induction rows arbitrary: res)
  case Nil
  then show ?case by (simp add: limit_dict_def find_limit_def)
next
  case (Cons l rows)
  obtain k b where l: "l = (account, k, b)" using Cons.prems(2) by (metis list.set_intros(1) prod.collapse)
  have step: "limit_dict (l # rows) res = limit_dict rows (AList.update k (limit_value b) res)"
    by (simp add: limit_dict_def l)
  have new: "find_limit rows account k = None"
    using Cons.prems(1) by (auto simp: l find_limit_Some_iff limit_key_def)
  have "find_limit (l # rows) account rse = (if k = rse then Some b else find_limit rows account rse)"
    by (simp add: l limit_key_def)
  with Cons.IH [of "AList.update k (limit_value b) res"] Cons.prems new show ?case
    unfolding step by (auto simp: update_conv split: option.splits)
qed

lemma find_limit_filter:
  "find_limit (filter (\<lambda>l. Q (limit_key l)) rows) a k = (if Q (a, k) then find_limit rows a k else None)"
  by (induction rows) auto

lemma chunked_limits:
  assumes "distinct (map limit_key rows)" and "\<forall>l \<in> set rows. fst l = account"
  shows "map_of (fold (\<lambda>chunk. limit_dict (filter (\<lambda>l. fst (snd l) \<in> set chunk) rows)) cs res) rse =
    (if rse \<in> set (concat cs) \<and> find_limit rows account rse \<noteq> None
     then map_option limit_value (find_limit rows account rse) else map_of res rse)"
proof (induction cs arbitrary: res)
  case Nil
  then show ?case by simp
next
  case (Cons c cs)
  let ?rows = "filter (\<lambda>l. fst (snd l) \<in> set c) rows"
  have "distinct (map limit_key ?rows)" using assms(1) by (rule distinct_map_filter)
  moreover have "\<forall>l \<in> set ?rows. fst l = account" using assms(2) by auto
  ultimately have "map_of (limit_dict ?rows res) rse =
      (case find_limit ?rows account rse of Some b \<Rightarrow> Some (limit_value b) | None \<Rightarrow> map_of res rse)"
    by (rule map_of_limit_dict)
  moreover have "find_limit ?rows account rse = (if rse \<in> set c then find_limit rows account rse else None)"
    using find_limit_filter [of "\<lambda>p. snd p \<in> set c" rows] by (simp add: limit_key_def)
  ultimately show ?case using Cons.IH [of "limit_dict ?rows res"] by (auto split: option.splits)
qed

lemma local_limits_lookup:
  assumes "distinct (map limit_key (account_limits d))"
    and "get_local_account_limits d account (Some rse_ids) = Inr limits" and "rse_ids \<noteq> []"
  shows "map_of limits rse = (if rse \<in> set rse_ids then map_option limit_value (find_limit (account_limits d) account rse) else None)"
proof -
  let ?own = "filter (\<lambda>l. fst l = account) (account_limits d)"
  obtain x xs where ids: "rse_ids = x # xs" using assms(3) by (cases rse_ids) auto
  have limits: "limits = fold (\<lambda>chunk. limit_dict (filter (\<lambda>l. fst (snd l) \<in> set chunk) ?own)) (chunks 9 (x # xs)) []"
    using assms(2) by (auto simp: get_local_account_limits_def ids Let_def split: if_splits)
  have own: "find_limit ?own account rse = find_limit (account_limits d) account rse"
    using find_limit_filter [of "\<lambda>p. fst p = account" "account_limits d"] by (simp add: limit_key_def)
  have "distinct (map limit_key ?own)" using assms(1) by (rule distinct_map_filter)
  from chunked_limits [OF this, of account "chunks 9 (x # xs)" "[]" rse] show ?thesis
    unfolding limits own ids by (cases "find_limit (account_limits d) account rse") (auto simp del: chunks.simps)
qed

section \<open>The two reports on global limits\<close>

lemma update_fresh: "k \<notin> fst ` set al \<Longrightarrow> AList.update k v al = al @ [(k, v)]"
  by (induction al) auto

text \<open>A dictionary that is read for each of several keys gives the sum over its entries with such a key.\<close>

lemma sum_over_keys:
  fixes g :: "'v \<Rightarrow> int"
  assumes "distinct ids" and "distinct (map fst kv)"
  shows "(\<Sum>i \<leftarrow> ids. case map_of kv i of None \<Rightarrow> 0 | Some v \<Rightarrow> g v) = (\<Sum>p \<leftarrow> filter (\<lambda>p. fst p \<in> set ids) kv. g (snd p))"
  using assms(2)
proof (induction kv)
  case Nil
  then show ?case by simp
next
  case (Cons p kv)
  let ?h = "\<lambda>i. case map_of kv i of None \<Rightarrow> 0 | Some v \<Rightarrow> g v"
  have "map_of kv (fst p) = None" using Cons.prems by (simp add: map_of_eq_None_iff)
  then have none: "?h (fst p) = 0" by simp
  have "(\<Sum>i \<in> set ids. if i = fst p then g (snd p) else ?h i) = (\<Sum>i \<in> set ids. ?h i + (if i = fst p then g (snd p) else 0))"
    using none by (intro sum.cong) auto
  then have "(\<Sum>i \<in> set ids. if i = fst p then g (snd p) else ?h i) = (\<Sum>i \<in> set ids. ?h i) + (if fst p \<in> set ids then g (snd p) else 0)"
    by (simp add: sum.distrib)
  moreover have "(case map_of (p # kv) i of None \<Rightarrow> 0 | Some v \<Rightarrow> g v) = (if i = fst p then g (snd p) else ?h i)" for i
    by (cases p) auto
  ultimately show ?case
    using Cons assms(1) by (simp add: sum_list_distinct_conv_sum_set)
qed

lemma rmapM_all2: "rmapM f xs = Inr ys \<Longrightarrow> list_all2 (\<lambda>x y. f x = Inr y) xs ys"
  by (induction xs arbitrary: ys) (auto simp: rbind_eq_Inr)

lemma all2_partner: "list_all2 P xs ys \<Longrightarrow> y \<in> set ys \<Longrightarrow> \<exists>x \<in> set xs. P x y"
  by (induction rule: list_all2_induct) auto

lemma resolve_rses_Inr:
  "resolve_rses s x account = Some (Inr rows) \<Longrightarrow> parse_expression s None x (map_option vo_filter account) = Some (Inr rows)"
  by (cases "parse_expression s None x (map_option vo_filter account)") (auto simp: resolve_rses_def split: sum.split_asm)

lemma resolve_limits_Inr:
  assumes "resolve_limits s account ls res = Some (Inr out)" and "distinct (map fst res @ map (\<lambda>l. fst (snd l)) ls)"
  shows "\<exists>rows. out = res @ map2 (\<lambda>l rs. (fst (snd l), rs, limit_value (snd (snd l)))) ls rows \<and> length rows = length ls \<and>
    (\<forall>(l, rs) \<in> set (zip ls rows). resolve_rses s (fst (snd l)) account = Some (Inr rs))"
  using assms
proof (induction ls arbitrary: res)
  case Nil
  then show ?case by simp
next
  case (Cons l ls)
  obtain a x b where l: "l = (a, x, b)" by (metis prod_cases3)
  obtain rs where rs: "resolve_rses s x account = Some (Inr rs)"
    and rest: "resolve_limits s account ls (AList.update x (rs, limit_value b) res) = Some (Inr out)"
    using Cons.prems(1) by (auto simp: l obind_def split: Option.bind_splits sum.splits)
  have upd: "AList.update x (rs, limit_value b) res = res @ [(x, rs, limit_value b)]"
    using Cons.prems(2) by (intro update_fresh) (auto simp: l)
  have "distinct (map fst (res @ [(x, rs, limit_value b)]) @ map (\<lambda>l. fst (snd l)) ls)"
    using Cons.prems(2) by (simp add: l)
  from Cons.IH [OF rest [unfolded upd] this] obtain rows
    where "out = (res @ [(x, rs, limit_value b)]) @ map2 (\<lambda>l rs. (fst (snd l), rs, limit_value (snd (snd l)))) ls rows"
      and "length rows = length ls"
      and "\<forall>(l, rs) \<in> set (zip ls rows). resolve_rses s (fst (snd l)) account = Some (Inr rs)" by blast
  then have "out = res @ map2 (\<lambda>l rs. (fst (snd l), rs, limit_value (snd (snd l)))) (l # ls) (rs # rows) \<and>
      length (rs # rows) = length (l # ls) \<and>
      (\<forall>(l, rs) \<in> set (zip (l # ls) (rs # rows)). resolve_rses s (fst (snd l)) account = Some (Inr rs))"
    using rs by (simp add: l)
  then show ?case by blast
qed

definition usage_key :: "account_usage \<Rightarrow> string \<times> string" where
  "usage_key u = (au_account u, au_rse_id u)"

lemma usage_sums:
  assumes "distinct (map usage_key (account_usage_rows d))" and "distinct (map rse_id rows)"
  shows "(\<Sum>r \<leftarrow> rows. fst (used_by (usage_dict d account) (rse_id r))) =
      sum_list (map au_bytes (filter (\<lambda>u. au_account u = account \<and> au_rse_id u \<in> set (map rse_id rows)) (account_usage_rows d)))"
    and "(\<Sum>r \<leftarrow> rows. snd (used_by (usage_dict d account) (rse_id r))) =
      sum_list (map au_files (filter (\<lambda>u. au_account u = account \<and> au_rse_id u \<in> set (map rse_id rows)) (account_usage_rows d)))"
proof -
  let ?own = "get_all_rse_usages_per_account d account"
  have "inj_on usage_key (set (account_usage_rows d))" "distinct (account_usage_rows d)"
    using assms(1) by (simp_all add: distinct_map)
  then have keys: "distinct (map fst (usage_dict d account))"
    by (auto simp: usage_dict_def comp_def distinct_map get_all_rse_usages_per_account_def usage_key_def inj_on_def)
  have "filter (\<lambda>p. fst p \<in> set (map rse_id rows)) (usage_dict d account) =
      rev (map (\<lambda>u. (au_rse_id u, au_bytes u, au_files u))
        (filter (\<lambda>u. au_account u = account \<and> au_rse_id u \<in> set (map rse_id rows)) (account_usage_rows d)))"
    by (simp add: usage_dict_def get_all_rse_usages_per_account_def rev_map rev_filter filter_map comp_def conj_commute)
  then have entries: "(\<Sum>p \<leftarrow> filter (\<lambda>p. fst p \<in> set (map rse_id rows)) (usage_dict d account). g (snd p)) =
      (\<Sum>u \<leftarrow> filter (\<lambda>u. au_account u = account \<and> au_rse_id u \<in> set (map rse_id rows)) (account_usage_rows d). g (au_bytes u, au_files u))"
    for g :: "int \<times> int \<Rightarrow> int"
    by (simp add: comp_def rev_map [symmetric] sum_list.rev)
  have read: "fst (used_by u i) = (case map_of u i of None \<Rightarrow> 0 | Some v \<Rightarrow> fst v)"
    "snd (used_by u i) = (case map_of u i of None \<Rightarrow> 0 | Some v \<Rightarrow> snd v)" for u i
    by (simp_all add: used_by_def split: option.split)
  from sum_over_keys [OF assms(2) keys, of fst] sum_over_keys [OF assms(2) keys, of snd]
  show "(\<Sum>r \<leftarrow> rows. fst (used_by (usage_dict d account) (rse_id r))) =
      sum_list (map au_bytes (filter (\<lambda>u. au_account u = account \<and> au_rse_id u \<in> set (map rse_id rows)) (account_usage_rows d)))"
    and "(\<Sum>r \<leftarrow> rows. snd (used_by (usage_dict d account) (rse_id r))) =
      sum_list (map au_files (filter (\<lambda>u. au_account u = account \<and> au_rse_id u \<in> set (map rse_id rows)) (account_usage_rows d)))"
    unfolding entries by (simp_all add: read comp_def)
qed

text \<open>The report on all global limits of an account and the report on a single expression agree: the first has one entry per
  stored limit, and for each of them the second returns the same entry, although one adds up the usage of each RSE that the
  expression resolves to and the other asks the database for the sum.\<close>

theorem global_usage_reports_agree:
  assumes "rse_wf (db s)" and "distinct (map usage_key (account_usage_rows d))" and "distinct (map limit_key (account_glob_limits d))"
    and "get_all_global_account_usage s d account = Some (Inr entries)"
  shows "map ue_key entries = map (\<lambda>l. fst (snd l)) (filter (\<lambda>l. fst l = account) (account_glob_limits d)) \<and>
    (\<forall>e \<in> set entries. get_global_account_usage s d account (ue_key e) = Some (Inr e))"
proof -
  let ?own = "filter (\<lambda>l. fst l = account) (account_glob_limits d)"
  let ?u = "usage_dict d account"
  have exists: "account_exists d account"
    using assms(4) by (auto simp: get_all_global_account_usage_def get_global_account_limit_def split: if_splits)
  obtain out where out: "resolve_limits s (Some account) ?own [] = Some (Inr out)" and es: "rmapM (global_entry ?u) out = Inr entries"
    using assms(4) exists by (auto simp: get_all_global_account_usage_def get_global_account_limit_def rbind_eq_Inr)
  have inj: "inj_on limit_key (set (account_glob_limits d))" and "distinct (account_glob_limits d)"
    using assms(3) by (simp_all add: distinct_map)
  then have "distinct (map fst ([] :: resolved_limits) @ map (\<lambda>l. fst (snd l)) ?own)"
    by (auto simp: distinct_map inj_on_def limit_key_def)
  from resolve_limits_Inr [OF out this] obtain rows
    where rows: "out = map2 (\<lambda>l rs. (fst (snd l), rs, limit_value (snd (snd l)))) ?own rows" "length rows = length ?own"
      "\<forall>(l, rs) \<in> set (zip ?own rows). resolve_rses s (fst (snd l)) (Some account) = Some (Inr rs)" by auto
  have entry: "list_all2 (\<lambda>p e. global_entry ?u p = Inr e) out entries" by (rule rmapM_all2 [OF es])
  then have "list_all2 (\<lambda>p e. ue_key e = fst p) out entries"
    by (rule list_all2_mono) (auto simp: global_entry_def Let_def split: option.splits)
  then have "map ue_key entries = map fst out" by (induction rule: list_all2_induct) auto
  moreover have "map fst out = map (\<lambda>l. fst (snd l)) ?own" 
  proof -
    have "map fst out = map (\<lambda>l. fst (snd l)) (map fst (zip ?own rows))" by (simp add: rows(1) case_prod_beta')
    also have "map fst (zip ?own rows) = ?own" by (rule map_fst_zip) (simp add: rows(2))
    finally show ?thesis .
  qed
  moreover have "get_global_account_usage s d account (ue_key e) = Some (Inr e)" if e: "e \<in> set entries" for e
  proof -
    obtain p where p: "p \<in> set out" "global_entry ?u p = Inr e"
      using all2_partner [OF entry e] by blast
    then obtain l rs where l: "(l, rs) \<in> set (zip ?own rows)" and p_def: "p = (fst (snd l), rs, limit_value (snd (snd l)))"
      using rows(1) by auto
    have own: "l \<in> set (account_glob_limits d)" "fst l = account" using set_zip_leftD [OF l] by simp_all
    have rs: "resolve_rses s (fst (snd l)) (Some account) = Some (Inr rs)" using rows(3) l by auto
    have "distinct (map rse_id rs)" by (rule parse_expression_rows(1) [OF assms(1) resolve_rses_Inr [OF rs]])
    note sums = usage_sums [OF assms(2) this, of account]
    have "find_limit (account_glob_limits d) account (fst (snd l)) = Some (snd (snd l))"
      using own assms(3) by (rule find_limit_mem)
    with p(2) exists rs show ?thesis
      by (auto simp: p_def global_entry_def get_global_account_usage_def get_global_account_limit_of_def obind_def sums Let_def
          split: option.splits)
  qed
  ultimately show ?thesis by simp
qed

text \<open>An account with one global limit on all RSEs of a registry with one RSE.\<close>

definition demo_accounts :: accounts_db where
  "demo_accounts = \<lparr>vos = [''def''],
     account_rows = [\<lparr>ac_account = ''alice'', ac_type = AccountUSER, ac_status = AccountACTIVE, ac_email = None,
       ac_suspended_at = None, ac_deleted_at = None\<rparr>],
     account_attr_map = [], account_limits = [(''alice'', ''1'', Some 50)], account_glob_limits = [(''alice'', show_seq demo_seq, Some 100)],
     account_usage_rows = [\<lparr>au_account = ''alice'', au_rse_id = ''1'', au_files = 2, au_bytes = 30\<rparr>]\<rparr>"

theorem global_usage_reports_agree_witness:
  "get_all_global_account_usage demo_session demo_accounts ''alice'' =
     Some (Inr [\<lparr>ue_key = show_seq demo_seq, ue_bytes = 30, ue_files = 2, ue_limit = Bytes 100, ue_remaining = Bytes 70\<rparr>]) \<and>
   get_global_account_usage demo_session demo_accounts ''alice'' (show_seq demo_seq) =
     Some (Inr \<lparr>ue_key = show_seq demo_seq, ue_bytes = 30, ue_files = 2, ue_limit = Bytes 100, ue_remaining = Bytes 70\<rparr>)"
proof -
  have vo: "i_vo ''alice'' = ''def''" by code_simp
  have rses: "resolve_rses demo_session (show_seq demo_seq) (Some ''alice'') = Some (Inr [sample_rse ''1'' ''CERN''])"
    by (simp add: resolve_rses_def demo_parse_filters apply_filters_def vo_filter_def vo sample_rse_def)
  have all: "get_all_global_account_usage demo_session demo_accounts ''alice'' =
      Some (Inr [\<lparr>ue_key = show_seq demo_seq, ue_bytes = 30, ue_files = 2, ue_limit = Bytes 100, ue_remaining = Bytes 70\<rparr>])"
    by (simp add: get_all_global_account_usage_def get_global_account_limit_def demo_accounts_def account_exists_def rses obind_def
        usage_dict_def get_all_rse_usages_per_account_def global_entry_def used_by_def limit_value_def minus_bytes_def sample_rse_def)
  have "distinct (map usage_key (account_usage_rows demo_accounts))" "distinct (map limit_key (account_glob_limits demo_accounts))"
    by (simp_all add: demo_accounts_def)
  from global_usage_reports_agree [OF demo_session_wf this all] show ?thesis by (simp add: all)
qed

end
