(* ===== verification/RSE_Selector.thy ===== *)
theory RSE_Selector
  imports Complex_Main Account_Limits "HOL-Library.Multiset" "HOL-Library.Sublist"
begin

text \<open>
  The choice of the RSEs for the files of a rule (\<^verbatim>\<open>core/rse_selector.py\<close>).

  A selector is built for the RSEs that an expression gave: it keeps those on which the account has quota left, from its
  roles or its account limits, with the space left on each. Every selection takes RSEs that have room for the data,
  preferred ones first, the others by weight, and books the data on the quota of the chosen RSEs.

  The random generator is a parameter: the \<open>n\<close>-th draw shuffles a list and gives a fraction of the total weight. Weights are
  exact numbers; the rounding of floating point sums and the values \<^verbatim>\<open>inf\<close> and \<^verbatim>\<open>nan\<close> are not modelled. RSEs as they
  come from the parser always have the key \<^verbatim>\<open>availability_write\<close>.
\<close>

section \<open>Building a selector\<close>

record candidate =
  c_rse_id :: string
  c_weight :: rat
  c_mock :: bool
  c_write :: bool
  c_staging :: bool

record target =
  t_rse :: candidate
  t_quota_left :: space
  t_space_left :: space
  t_global_left :: "(string \<times> space) list"

record selector_env =
  s_rbac :: rbac_env
  s_rbac_enabled :: bool
  s_now :: int
  to_float :: "attr_value \<Rightarrow> rat option"
  shuffled :: "nat \<Rightarrow> target list \<Rightarrow> target list"
  fraction :: "nat \<Rightarrow> rat"

record selector =
  sel_copies :: int
  sel_targets :: "target list"
  sel_draws :: nat

datatype selector_error =
    InsufficientTargetRSEs
  | InvalidRuleWeight
  | InsufficientAccountLimit
  | RSEOverQuota
  | NoRSEChosen \<comment> \<open>\<^verbatim>\<open>None[0]\<close> raises \<^verbatim>\<open>TypeError\<close>\<close>
  | SpaceTypeError
  | SelectorCounterError counter_error
  | SelectorAccountError account_error
  | SelectorRoleError role_error

definition s_registry :: "selector_env \<Rightarrow> rse_db" where
  "s_registry e = db (rse_session (s_rbac e))"

definition new_candidate :: "rse_row \<Rightarrow> rat \<Rightarrow> bool \<Rightarrow> candidate" where
  "new_candidate r w mock = \<lparr>c_rse_id = rse_id r, c_weight = w, c_mock = mock, c_write = (availability_write r = Some True),
     c_staging = staging_area r\<rparr>"

text \<open>With a weight only the RSEs that have the attribute take part.\<close>

fun weighted_candidates :: "selector_env \<Rightarrow> string \<Rightarrow> rse_row list \<Rightarrow> selector_error + candidate list" where
  "weighted_candidates e weight [] = Inr []"
| "weighted_candidates e weight (r # rs) =
     (let attributes = list_rse_attributes (s_registry e) (rse_id r)
      in case attributes weight of
           None \<Rightarrow> weighted_candidates e weight rs
         | Some v \<Rightarrow> (case to_float e v of
             None \<Rightarrow> Inl InvalidRuleWeight
           | Some w \<Rightarrow> rbind (weighted_candidates e weight rs) (\<lambda>cs.
               Inr (new_candidate r w (case attributes ''mock'' of None \<Rightarrow> False | Some m \<Rightarrow> truthy m) # cs))))"

definition candidates :: "selector_env \<Rightarrow> string option \<Rightarrow> rse_row list \<Rightarrow> selector_error + candidate list" where
  "candidates e weight rs =
     (case weight of
        Some w \<Rightarrow> weighted_candidates e w rs
      | None \<Rightarrow> Inr (map (\<lambda>r. new_candidate r 1 (has_rse_attribute (s_registry e) (rse_id r) ''mock'')) rs))"

definition is_quota_admin :: "selector_env \<Rightarrow> accounts_db \<Rightarrow> rbac_db \<Rightarrow> internal \<Rightarrow> bool" where
  "is_quota_admin e d rb account \<longleftrightarrow>
     (if s_rbac_enabled e then i_external account = ''root'' \<or> has_admin_role (s_now e) rb account
      else has_account_attribute d account ''admin'')"

definition unlimited_target :: "candidate \<Rightarrow> target" where
  "unlimited_target c = \<lparr>t_rse = c, t_quota_left = Unlimited, t_space_left = Unlimited, t_global_left = []\<rparr>"

text \<open>What the global limits of the account leave on an RSE; \<open>None\<close> as soon as one of them is used up.\<close>

fun account_global_left :: "usage \<Rightarrow> string \<Rightarrow> resolved_limits \<Rightarrow> (string \<times> space) list \<Rightarrow> (string \<times> space) list option" where
  "account_global_left u rse [] res = Some res"
| "account_global_left u rse ((x, rows, limit) # ls) res =
     (if rse \<in> set (map rse_id rows) then
        (let left = (case limit of None \<Rightarrow> Bytes 0 | Some l \<Rightarrow> minus_bytes l (\<Sum>r \<leftarrow> rows. used u (rse_id r)))
         in if left \<le> Bytes 0 then None else account_global_left u rse ls (AList.update x left res))
      else account_global_left u rse ls res)"

text \<open>The quota on an RSE: from the roles of the account where one of them has a limit there, else from its account limits.
  \<open>None\<close> when nothing may be written.\<close>

definition quota_on ::
  "accounts_db \<Rightarrow> internal \<Rightarrow> quota_grant list \<Rightarrow> resolved_limits \<Rightarrow> usage \<Rightarrow> string \<Rightarrow> selector_error + (space \<times> (string \<times> space) list) option" where
  "quota_on d account grants global_limits u rse =
     (case rse_quota_left grants rse u of
        Some (local_left, global_left) \<Rightarrow>
          Inr (if Bytes 0 < local_left \<and> (\<forall>(_, n) \<in> set global_left. 0 < n)
               then Some (local_left, map (\<lambda>(x, n). (x, Bytes n)) global_left) else None)
      | None \<Rightarrow> (case get_local_account_limit d account rse of
            Inl e \<Rightarrow> Inl (SelectorAccountError e)
          | Inr limit \<Rightarrow>
              let local_left = (case limit of None \<Rightarrow> Bytes 0 | Some l \<Rightarrow> minus_bytes l (fst (get_usage d rse account)))
              in Inr (case account_global_left u rse global_limits [] of
                   None \<Rightarrow> None
                 | Some g \<Rightarrow> if Bytes 0 < local_left then Some (local_left, g) else None)))"

definition space_on :: "rse_db \<Rightarrow> string \<Rightarrow> selector_error + space" where
  "space_on reg rse =
     (case map_of (get_rse_limits reg rse (Some ''MaxSpaceAvailable'')) ''MaxSpaceAvailable'' of
        None \<Rightarrow> Inr Unlimited
      | Some limit \<Rightarrow>
          if limit < 0 then Inr Unlimited
          else case get_counter rse (counters reg) of
            Inl e \<Rightarrow> Inl (SelectorCounterError e)
          | Inr (None, _) \<Rightarrow> Inl SpaceTypeError
          | Inr (Some b, _) \<Rightarrow> Inr (Bytes (limit - b)))"

fun quota_targets ::
  "selector_env \<Rightarrow> accounts_db \<Rightarrow> internal \<Rightarrow> quota_grant list \<Rightarrow> resolved_limits \<Rightarrow> usage \<Rightarrow> candidate list \<Rightarrow> selector_error + target list" where
  "quota_targets e d account grants global_limits u [] = Inr []"
| "quota_targets e d account grants global_limits u (c # cs) =
     (if c_mock c then rbind (quota_targets e d account grants global_limits u cs) (\<lambda>ts. Inr (unlimited_target c # ts))
      else rbind (quota_on d account grants global_limits u (c_rse_id c)) (\<lambda>q.
        case q of
          None \<Rightarrow> quota_targets e d account grants global_limits u cs
        | Some (l, g) \<Rightarrow> rbind (space_on (s_registry e) (c_rse_id c)) (\<lambda>space.
            rbind (quota_targets e d account grants global_limits u cs) (\<lambda>ts.
              Inr (\<lparr>t_rse = c, t_quota_left = l, t_space_left = space, t_global_left = g\<rparr> # ts)))))"

text \<open>The usage dictionary of the account, the last row for an RSE winning.\<close>

definition usage_of :: "accounts_db \<Rightarrow> internal \<Rightarrow> usage" where
  "usage_of d account = map (\<lambda>u. (au_rse_id u, au_bytes u)) (rev (get_all_rse_usages_per_account d account))"

definition limited_targets ::
  "selector_env \<Rightarrow> accounts_db \<Rightarrow> rbac_db \<Rightarrow> internal \<Rightarrow> candidate list \<Rightarrow> (selector_error + target list) option" where
  "limited_targets e d rb account cs =
     Option.bind (get_global_account_limit (rse_session (s_rbac e)) d (Some account)) (\<lambda>r. case r of
       Inl err \<Rightarrow> Some (Inl (SelectorAccountError err))
     | Inr global_limits \<Rightarrow>
         Option.bind (if s_rbac_enabled e then list_account_rse_quota_grants (s_rbac e) (s_now e) rb account else Some (Inr [])) (\<lambda>g. case g of
           Inl err \<Rightarrow> Some (Inl (SelectorRoleError err))
         | Inr grants \<Rightarrow> Some (quota_targets e d account grants global_limits (usage_of d account) cs)))"

definition RSESelector ::
  "selector_env \<Rightarrow> accounts_db \<Rightarrow> rbac_db \<Rightarrow> internal \<Rightarrow> rse_row list \<Rightarrow> string option \<Rightarrow> int \<Rightarrow> bool \<Rightarrow> (selector_error + selector) option" where
  "RSESelector e d rb account rs weight copies ignore_account_limit =
     obind (candidates e weight rs) (\<lambda>cs.
       if int (length cs) < copies then Some (Inl InsufficientTargetRSEs)
       else map_option (\<lambda>r. rbind r (\<lambda>ts.
              if int (length ts) < copies then Inl InsufficientAccountLimit
              else Inr \<lparr>sel_copies = copies, sel_targets = ts, sel_draws = 0\<rparr>))
         (if is_quota_admin e d rb account \<or> ignore_account_limit then Some (Inr (map unlimited_target cs))
          else limited_targets e d rb account cs))"

section \<open>Selecting\<close>

abbreviation t_id :: "target \<Rightarrow> string" where
  "t_id t \<equiv> c_rse_id (t_rse t)"

abbreviation t_weight :: "target \<Rightarrow> rat" where
  "t_weight t \<equiv> c_weight (t_rse t)"

definition rse_tuple :: "target \<Rightarrow> string \<times> bool \<times> bool" where
  "rse_tuple t = (t_id t, c_staging (t_rse t), c_write (t_rse t))"

text \<open>\<^verbatim>\<open>__choose_rse\<close>: the first RSE at which the weights add up to the pick. The list is shuffled in place.\<close>

fun pick_target :: "rat \<Rightarrow> rat \<Rightarrow> target list \<Rightarrow> target option" where
  "pick_target pick weight [] = None"
| "pick_target pick weight (t # ts) =
     (if pick \<le> weight + t_weight t then Some t else pick_target pick (weight + t_weight t) ts)"

definition choose_rse :: "selector_env \<Rightarrow> nat \<Rightarrow> target list \<Rightarrow> target option \<times> target list" where
  "choose_rse e n ts =
     (let ts' = shuffled e n ts
      in (pick_target (fraction e n * sum_list (map t_weight ts')) 0 ts', ts'))"

definition charge :: "int \<Rightarrow> target \<Rightarrow> target" where
  "charge nbytes t = t\<lparr>t_quota_left := minus_bytes (t_quota_left t) nbytes,
     t_global_left := map (\<lambda>(x, s). (x, minus_bytes s nbytes)) (t_global_left t)\<rparr>"

fun update_quota :: "string \<Rightarrow> int \<Rightarrow> target list \<Rightarrow> target list" where
  "update_quota rse nbytes [] = []"
| "update_quota rse nbytes (t # ts) = (if t_id t = rse then charge nbytes t # ts else t # update_quota rse nbytes ts)"

text \<open>The loop over the copies. \<open>ts\<close> are the RSEs that are still to choose from, \<open>res\<close> the result so far; the dictionary by RSE id holds the last
  entry of an id.\<close>

fun select_loop ::
  "selector_env \<Rightarrow> int \<Rightarrow> string list \<Rightarrow> bool \<Rightarrow> nat \<Rightarrow> target list \<Rightarrow> (string \<times> bool \<times> bool) list \<Rightarrow> selector
     \<Rightarrow> selector_error + (string \<times> bool \<times> bool) list \<times> selector" where
  "select_loop e nbytes preferred prioritize 0 ts res sel = Inr (res, sel)"
| "select_loop e nbytes preferred prioritize (Suc n) ts res sel =
     (let ts1 = filter (\<lambda>t. t_id t \<notin> set (map fst res)) ts;
          preferred_targets = List.map_filter (map_of (rev (map (\<lambda>t. (t_id t, t)) ts1))) preferred
      in if prioritize \<and> preferred_targets \<noteq> [] then
           (let t = hd preferred_targets
            in select_loop e nbytes preferred prioritize n ts1 (res @ [rse_tuple t])
                 (sel\<lparr>sel_targets := update_quota (t_id t) nbytes (sel_targets sel)\<rparr>))
         else
           (let (choice, ts2) = choose_rse e (sel_draws sel) (if preferred_targets \<noteq> [] then preferred_targets else ts1)
            in case choice of
                 None \<Rightarrow> Inl NoRSEChosen
               | Some t \<Rightarrow> select_loop e nbytes preferred prioritize n (if preferred_targets \<noteq> [] then ts1 else ts2) (res @ [rse_tuple t])
                   (sel\<lparr>sel_targets := update_quota (t_id t) nbytes (sel_targets sel), sel_draws := sel_draws sel + 1\<rparr>)))"

definition has_space :: "int \<Rightarrow> usage \<Rightarrow> target \<Rightarrow> bool" where
  "has_space nbytes existing t \<longleftrightarrow> Bytes (nbytes - used existing (t_id t)) \<le> t_space_left t"

definition has_global_quota :: "int \<Rightarrow> target \<Rightarrow> bool" where
  "has_global_quota nbytes t \<longleftrightarrow> (\<forall>(_, left) \<in> set (t_global_left t). \<not> left < Bytes nbytes)"

definition select_rse ::
  "selector_env \<Rightarrow> int \<Rightarrow> string list \<Rightarrow> int \<Rightarrow> string list \<Rightarrow> bool \<Rightarrow> usage \<Rightarrow> selector
     \<Rightarrow> selector_error + (string \<times> bool \<times> bool) list \<times> selector" where
  "select_rse e nbytes preferred copies blocklist prioritize existing sel =
     (let wanted = (if copies = 0 then sel_copies sel else copies);
          ts1 = filter (\<lambda>t. t_id t \<notin> set blocklist) (sel_targets sel);
          ts2 = filter (has_space nbytes existing) ts1;
          ts3 = filter (\<lambda>t. Bytes nbytes < t_quota_left t) ts2;
          ts4 = filter (has_global_quota nbytes) ts3
      in if int (length ts1) < wanted then Inl InsufficientTargetRSEs
         else if int (length ts2) < wanted then Inl RSEOverQuota
         else if int (length ts3) < wanted then Inl InsufficientAccountLimit
         else if int (length ts4) < wanted then Inl InsufficientAccountLimit
         else select_loop e nbytes preferred prioritize (nat wanted) ts4 [] sel)"

definition get_rse_dictionary :: "selector \<Rightarrow> string \<rightharpoonup> target" where
  "get_rse_dictionary sel = map_of (rev (map (\<lambda>t. (t_id t, t)) (sel_targets sel)))"

text \<open>\<^verbatim>\<open>resolve_rse_expression\<close>: the names of the chosen RSEs, and the preferred names that the expression does not give.\<close>

definition resolve_rse_expression ::
  "selector_env \<Rightarrow> accounts_db \<Rightarrow> rbac_db \<Rightarrow> string \<Rightarrow> internal \<Rightarrow> string option \<Rightarrow> int \<Rightarrow> bool \<Rightarrow> int \<Rightarrow> string list \<Rightarrow> string list \<Rightarrow> bool \<Rightarrow> usage
     \<Rightarrow> (selector_error + string list \<times> string list) option" where
  "resolve_rse_expression e d rb x account weight copies ignore_account_limit nbytes preferred blocklist prioritize existing =
     Option.bind (resolve_rses (rse_session (s_rbac e)) x (Some account)) (\<lambda>r. case r of
       Inl err \<Rightarrow> Some (Inl (SelectorAccountError err))
     | Inr rows \<Rightarrow>
         (let to_id = map_of (rev (map (\<lambda>r. (rse_name r, rse_id r)) rows));
              to_name = map_of (rev (map (\<lambda>r. (rse_id r, rse_name r)) rows))
          in Option.bind (RSESelector e d rb account rows weight copies ignore_account_limit) (\<lambda>s. obind s (\<lambda>sel.
               Some (rbind (select_rse e nbytes (List.map_filter to_id preferred) 0 blocklist prioritize existing sel) (\<lambda>(res, _).
                 Inr (map (\<lambda>t. the (to_name (fst t))) res,
                      filter (\<lambda>n. n \<notin> rse_name ` set rows) (remdups preferred))))))))"

section \<open>A selection\<close>

text \<open>What is relied on of the random generator: a shuffle permutes, and the pick is a fraction of the total.\<close>

definition fair :: "selector_env \<Rightarrow> bool" where
  "fair e \<longleftrightarrow> (\<forall>n ts. mset (shuffled e n ts) = mset ts) \<and> (\<forall>n. 0 \<le> fraction e n \<and> fraction e n \<le> 1)"

lemma pick_target_Some: "ts \<noteq> [] \<Longrightarrow> pick \<le> w + sum_list (map t_weight ts) \<Longrightarrow> \<exists>t \<in> set ts. pick_target pick w ts = Some t"
proof (induction ts arbitrary: w)
  case (Cons t ts)
  show ?case
  proof (cases "pick \<le> w + t_weight t")
    case False
    then have "ts \<noteq> []" using Cons.prems(2) by auto
    from Cons.IH [OF this, of "w + t_weight t"] Cons.prems(2) False show ?thesis by (auto simp: add.assoc)
  qed simp
qed simp

lemma pick_target_in: "pick_target pick w ts = Some t \<Longrightarrow> t \<in> set ts"
  by (induction ts arbitrary: w) (auto split: if_splits)

lemma choose_rse_cases:
  assumes "fair e" and "ts \<noteq> []"
  obtains (chosen) t ts' where "choose_rse e n ts = (Some t, ts')" and "t \<in> set ts" and "mset ts' = mset ts"
  | (fell_through) ts' where "choose_rse e n ts = (None, ts')" and "\<exists>t \<in> set ts. t_weight t < 0"
proof -
  let ?ts = "shuffled e n ts" and ?pick = "fraction e n * sum_list (map t_weight (shuffled e n ts))"
  have perm: "mset ?ts = mset ts" and f: "0 \<le> fraction e n" "fraction e n \<le> 1" using assms(1) by (auto simp: fair_def)
  have set: "set ?ts = set ts" using perm by (metis set_mset_mset)
  show thesis
  proof (cases "pick_target ?pick 0 ?ts")
    case (Some t)
    then have "t \<in> set ?ts" by (rule pick_target_in)
    with Some chosen [of t ?ts] perm set show thesis by (simp add: choose_rse_def Let_def)
  next
    case None
    have "\<exists>t \<in> set ?ts. t_weight t < 0"
    proof (rule ccontr)
      assume "\<not> ?thesis"
      then have "0 \<le> sum_list (map t_weight ?ts)" by (intro sum_list_nonneg) (auto simp: not_less)
      then have "?pick \<le> 0 + sum_list (map t_weight ?ts)" using f by (simp add: mult_left_le_one_le)
      moreover have "?ts \<noteq> []" using set assms(2) by auto
      ultimately show False using pick_target_Some [of ?ts ?pick 0] None by auto
    qed
    with None fell_through [of ?ts] set show thesis by (simp add: choose_rse_def Let_def)
  qed
qed

lemma preferred_targets_set:
  assumes "distinct (map t_id ts)"
  shows "set (List.map_filter (map_of (rev (map (\<lambda>t. (t_id t, t)) ts))) preferred) = {t \<in> set ts. t_id t \<in> set preferred}"
proof -
  have "map_of (rev (map (\<lambda>t. (t_id t, t)) ts)) x = Some t \<longleftrightarrow> t \<in> set ts \<and> t_id t = x" for x t
  proof -
    have "distinct (map fst (rev (map (\<lambda>t. (t_id t, t)) ts)))" using assms by (simp add: comp_def rev_map [symmetric])
    from map_of_eq_Some_iff [OF this] show ?thesis by auto
  qed
  note entry = this
  show ?thesis
  proof (rule set_eqI)
    fix t
    let ?m = "map_of (rev (map (\<lambda>t. (t_id t, t)) ts))"
    have "t \<in> set (List.map_filter m preferred) \<longleftrightarrow> (\<exists>x \<in> set preferred. m x = Some t)" for m :: "string \<Rightarrow> target option"
      by (induction preferred) (auto simp: map_filter_simps split: option.splits)
    then have "t \<in> set (List.map_filter ?m preferred) \<longleftrightarrow> (\<exists>x \<in> set preferred. t \<in> set ts \<and> t_id t = x)"
      unfolding entry [symmetric] .
    then show "t \<in> set (List.map_filter ?m preferred) \<longleftrightarrow> t \<in> {t \<in> set ts. t_id t \<in> set preferred}" by simp
  qed
qed

lemma distinct_ids_mset: "mset ts' = mset ts \<Longrightarrow> distinct (map t_id ts) \<Longrightarrow> distinct (map t_id ts')"
  by (metis mset_eq_imp_distinct_iff mset_map)

text \<open>The targets that are still to choose from.\<close>

definition remaining :: "target list \<Rightarrow> (string \<times> bool \<times> bool) list \<Rightarrow> target set" where
  "remaining ts res = {t \<in> set ts. t_id t \<notin> set (map fst res)}"

lemma fst_rse_tuple [simp]: "fst (rse_tuple t) = t_id t"
  by (simp add: rse_tuple_def)

lemma remaining_Suc:
  assumes "distinct (map t_id ts)" and "t \<in> remaining ts res" and "set ts' = remaining ts res"
  shows "remaining ts' (res @ [rse_tuple t]) = remaining ts res - {t}"
proof -
  have "t_id t' \<noteq> t_id t" if "t' \<in> remaining ts res" "t' \<noteq> t" for t'
    using that assms(1,2) by (auto simp: remaining_def distinct_map inj_on_def)
  then show ?thesis using assms(2,3) by (auto simp: remaining_def)
qed

text \<open>A preferred RSE is left out only when no other one was chosen instead.\<close>

definition preferred_first :: "string list \<Rightarrow> target set \<Rightarrow> target list \<Rightarrow> bool" where
  "preferred_first preferred avail chosen \<longleftrightarrow>
     (\<exists>t \<in> set chosen. t_id t \<notin> set preferred) \<longrightarrow> {t \<in> avail. t_id t \<in> set preferred} \<subseteq> set chosen"

lemma select_loop_exact:
  assumes "fair e" and "distinct (map t_id ts)" and "n \<le> card (remaining ts res)"
    and "select_loop e nbytes preferred prioritize n ts res sel \<noteq> Inl NoRSEChosen \<or> (\<forall>t \<in> remaining ts res. 0 \<le> t_weight t)"
  shows "\<exists>chosen sel'. select_loop e nbytes preferred prioritize n ts res sel = Inr (res @ map rse_tuple chosen, sel') \<and>
    length chosen = n \<and> set chosen \<subseteq> remaining ts res \<and> distinct (map t_id chosen) \<and>
    preferred_first preferred (remaining ts res) chosen \<and> sel_copies sel' = sel_copies sel \<and>
    sel_targets sel' = fold (\<lambda>t. update_quota (t_id t) nbytes) chosen (sel_targets sel)"
  using assms(2-)
proof (induction n arbitrary: ts res sel)
  case 0
  have "select_loop e nbytes preferred prioritize 0 ts res sel = Inr (res @ map rse_tuple [], sel)" by simp
  then show ?case by (intro exI [of _ "[]"] exI [of _ sel]) (simp add: preferred_first_def)
next
  case (Suc n)
  let ?ts1 = "filter (\<lambda>t. t_id t \<notin> set (map fst res)) ts"
  let ?pref = "List.map_filter (map_of (rev (map (\<lambda>t. (t_id t, t)) ?ts1))) preferred"
  have ts1: "set ?ts1 = remaining ts res" by (auto simp: remaining_def)
  have dist1: "distinct (map t_id ?ts1)" using Suc.prems(1) by (rule distinct_map_filter)
  have pref: "set ?pref = {t \<in> remaining ts res. t_id t \<in> set preferred}"
    using preferred_targets_set [OF dist1] ts1 by blast
  have avail: "remaining ts res \<noteq> {}" using Suc.prems(2) by auto
  obtain t ts2 sel1 where step: "select_loop e nbytes preferred prioritize (Suc n) ts res sel =
        select_loop e nbytes preferred prioritize n ts2 (res @ [rse_tuple t]) sel1"
    and t: "t \<in> remaining ts res" "?pref \<noteq> [] \<Longrightarrow> t \<in> set ?pref" and ts2: "mset ts2 = mset ?ts1"
    and sel1: "sel_copies sel1 = sel_copies sel" "sel_targets sel1 = update_quota (t_id t) nbytes (sel_targets sel)"
  proof (cases "prioritize \<and> ?pref \<noteq> []")
    case True
    then have "hd ?pref \<in> set ?pref" by simp
    then have "hd ?pref \<in> remaining ts res" using pref by blast
    with True \<open>hd ?pref \<in> set ?pref\<close> show thesis
      by (intro that [of ?ts1 "hd ?pref" "sel\<lparr>sel_targets := update_quota (t_id (hd ?pref)) nbytes (sel_targets sel)\<rparr>"])
        (simp_all add: Let_def)
  next
    case False
    let ?from = "if ?pref \<noteq> [] then ?pref else ?ts1"
    have from_sub: "set ?from \<subseteq> remaining ts res" using pref ts1 by auto
    have "?ts1 \<noteq> []" using avail ts1 by (metis empty_set)
    then have nonempty: "?from \<noteq> []" by simp
    obtain t ts' where t: "choose_rse e (sel_draws sel) ?from = (Some t, ts')" "t \<in> set ?from" "mset ts' = mset ?from"
      using assms(1) nonempty
    proof (cases rule: choose_rse_cases [consumes 2, where n = "sel_draws sel"])
      case (fell_through ts')
      then have "select_loop e nbytes preferred prioritize (Suc n) ts res sel = Inl NoRSEChosen"
        unfolding select_loop.simps Let_def using False by (simp only: if_False prod.case option.case)
      with Suc.prems(3) fell_through(2) from_sub show thesis by (fastforce simp: not_le)
    qed
    have run: "select_loop e nbytes preferred prioritize (Suc n) ts res sel =
        select_loop e nbytes preferred prioritize n (if ?pref \<noteq> [] then ?ts1 else ts') (res @ [rse_tuple t])
          (sel\<lparr>sel_targets := update_quota (t_id t) nbytes (sel_targets sel), sel_draws := sel_draws sel + 1\<rparr>)"
      unfolding select_loop.simps Let_def using False t(1) by (simp only: if_False prod.case option.case)
    have in_pref: "t \<in> set ?pref" if "?pref \<noteq> []" using t(2) that by simp
    have "mset (if ?pref \<noteq> [] then ?ts1 else ts') = mset ?ts1" using t(3) by (cases "?pref = []") simp_all
    from that [OF run _ in_pref this] from_sub t(2) show thesis by (simp add: subset_iff)
  qed
  have set2: "set ts2 = remaining ts res" using ts2 ts1 by (metis set_mset_mset)
  have dist2: "distinct (map t_id ts2)" by (rule distinct_ids_mset [OF ts2 dist1])
  have rest: "remaining ts2 (res @ [rse_tuple t]) = remaining ts res - {t}"
    by (rule remaining_Suc [OF Suc.prems(1) t(1) set2])
  have "n \<le> card (remaining ts2 (res @ [rse_tuple t]))"
    using Suc.prems(2) t(1) unfolding rest by (simp add: card_Diff_singleton)
  moreover have "select_loop e nbytes preferred prioritize n ts2 (res @ [rse_tuple t]) sel1 \<noteq> Inl NoRSEChosen \<or>
      (\<forall>t \<in> remaining ts2 (res @ [rse_tuple t]). 0 \<le> t_weight t)" using Suc.prems(3) unfolding rest step by blast
  ultimately obtain chosen sel' where IH: "select_loop e nbytes preferred prioritize n ts2 (res @ [rse_tuple t]) sel1 =
        Inr ((res @ [rse_tuple t]) @ map rse_tuple chosen, sel')"
      "length chosen = n" "set chosen \<subseteq> remaining ts res - {t}" "distinct (map t_id chosen)"
      "preferred_first preferred (remaining ts res - {t}) chosen" "sel_copies sel' = sel_copies sel1"
      "sel_targets sel' = fold (\<lambda>t. update_quota (t_id t) nbytes) chosen (sel_targets sel1)"
    using Suc.IH [OF dist2, of "res @ [rse_tuple t]" sel1] unfolding rest by blast
  have "t_id t \<notin> t_id ` set chosen"
  proof
    assume "t_id t \<in> t_id ` set chosen"
    then obtain t' where t': "t' \<in> set chosen" "t_id t' = t_id t" by force
    then have "t' \<in> set ts" "t \<in> set ts" "t' \<noteq> t" using IH(3) t(1) by (auto simp: remaining_def)
    with t'(2) Suc.prems(1) show False by (metis key_unique)
  qed
  moreover have "preferred_first preferred (remaining ts res) (t # chosen)"
  proof (cases "t_id t \<in> set preferred")
    case True
    then show ?thesis using IH(5) by (auto simp: preferred_first_def)
  next
    case False
    then have "?pref = []" using t(2) pref by auto
    then show ?thesis using pref by (auto simp: preferred_first_def)
  qed
  ultimately have "select_loop e nbytes preferred prioritize (Suc n) ts res sel = Inr (res @ map rse_tuple (t # chosen), sel') \<and>
    length (t # chosen) = Suc n \<and> set (t # chosen) \<subseteq> remaining ts res \<and> distinct (map t_id (t # chosen)) \<and>
    preferred_first preferred (remaining ts res) (t # chosen) \<and> sel_copies sel' = sel_copies sel \<and>
    sel_targets sel' = fold (\<lambda>t. update_quota (t_id t) nbytes) (t # chosen) (sel_targets sel)"
    using step IH t(1) sel1 by auto
  then show ?case by blast
qed

lemma t_id_charge [simp]: "t_id (charge b t) = t_id t" "t_weight (charge b t) = t_weight t"
  by (simp_all add: charge_def)

lemma update_quota_map:
  "distinct (map t_id ts) \<Longrightarrow> update_quota r b ts = map (\<lambda>t. if t_id t = r then charge b t else t) ts"
proof (induction ts)
  case (Cons t ts)
  show ?case
  proof (cases "t_id t = r")
    case True
    then have "\<forall>t' \<in> set ts. t_id t' \<noteq> r" using Cons.prems by (auto simp: image_iff)
    then have "map (\<lambda>t. if t_id t = r then charge b t else t) ts = ts" by (induction ts) auto
    with True show ?thesis by simp
  next
    case False
    then show ?thesis using Cons by simp
  qed
qed simp

lemma map_t_id [simp]: "map t_id (map (\<lambda>t. if Q t then charge b t else t) ts) = map t_id ts"
  by (induction ts) simp_all

lemma fold_update_quota:
  "distinct (map t_id ts) \<Longrightarrow> distinct (map t_id chosen) \<Longrightarrow>
   fold (\<lambda>t. update_quota (t_id t) b) chosen ts = map (\<lambda>t. if t_id t \<in> t_id ` set chosen then charge b t else t) ts"
proof (induction chosen arbitrary: ts)
  case Nil
  then show ?case by simp
next
  case (Cons c chosen)
  have "fold (\<lambda>t. update_quota (t_id t) b) (c # chosen) ts =
      map (\<lambda>t. if t_id t \<in> t_id ` set chosen then charge b t else t) (map (\<lambda>t. if t_id t = t_id c then charge b t else t) ts)"
    using Cons by (simp add: update_quota_map del: map_map)
  also have "\<dots> = map (\<lambda>t. if t_id t \<in> t_id ` set (c # chosen) then charge b t else t) ts"
    using Cons.prems(2) by (auto simp: comp_def)
  finally show ?case .
qed

text \<open>A selector as it is built: the RSEs are distinct and no weight is negative.\<close>

definition selector_wf :: "selector \<Rightarrow> bool" where
  "selector_wf sel \<longleftrightarrow> distinct (map t_id (sel_targets sel)) \<and> (\<forall>t \<in> set (sel_targets sel). 0 \<le> t_weight t)"

definition eligible :: "int \<Rightarrow> string list \<Rightarrow> usage \<Rightarrow> target \<Rightarrow> bool" where
  "eligible nbytes blocklist existing t \<longleftrightarrow>
     t_id t \<notin> set blocklist \<and> has_space nbytes existing t \<and> Bytes nbytes < t_quota_left t \<and> has_global_quota nbytes t"

definition eligible_targets :: "int \<Rightarrow> string list \<Rightarrow> usage \<Rightarrow> selector \<Rightarrow> target set" where
  "eligible_targets nbytes blocklist existing sel = {t \<in> set (sel_targets sel). eligible nbytes blocklist existing t}"

lemma selector_wf_distinct: "selector_wf sel \<Longrightarrow> distinct (map t_id (sel_targets sel))"
  by (simp add: selector_wf_def)

lemma select_loop_error: "select_loop e nbytes preferred prioritize n ts res sel = Inl err \<Longrightarrow> err = NoRSEChosen"
  by (induction n arbitrary: ts res sel) (auto simp: Let_def split: if_splits prod.splits option.splits)

lemma select_rse_cases:
  assumes "fair e" and dist: "distinct (map t_id (sel_targets sel))"
    and wanted: "wanted = (if copies = 0 then sel_copies sel else copies)"
  shows "int (card (eligible_targets nbytes blocklist existing sel)) < wanted \<longleftrightarrow>
      (\<exists>err. select_rse e nbytes preferred copies blocklist prioritize existing sel = Inl err \<and> err \<noteq> NoRSEChosen)"
    and "select_rse e nbytes preferred copies blocklist prioritize existing sel = Inl NoRSEChosen \<Longrightarrow>
      \<exists>t \<in> eligible_targets nbytes blocklist existing sel. t_weight t < 0"
    and "select_rse e nbytes preferred copies blocklist prioritize existing sel = Inr (res, sel') \<Longrightarrow>
      \<exists>chosen. res = map rse_tuple chosen \<and> length chosen = nat wanted \<and> distinct (map t_id chosen) \<and>
        set chosen \<subseteq> eligible_targets nbytes blocklist existing sel \<and>
        preferred_first preferred (eligible_targets nbytes blocklist existing sel) chosen \<and> sel_copies sel' = sel_copies sel \<and>
        sel_targets sel' = map (\<lambda>t. if t_id t \<in> t_id ` set chosen then charge nbytes t else t) (sel_targets sel)"
proof -
  let ?ts1 = "filter (\<lambda>t. t_id t \<notin> set blocklist) (sel_targets sel)"
  let ?ts2 = "filter (has_space nbytes existing) ?ts1"
  let ?ts3 = "filter (\<lambda>t. Bytes nbytes < t_quota_left t) ?ts2"
  let ?ts4 = "filter (has_global_quota nbytes) ?ts3"
  have set4: "set ?ts4 = eligible_targets nbytes blocklist existing sel"
    by (auto simp: eligible_targets_def eligible_def)
  have dist4: "distinct (map t_id ?ts4)" by (intro distinct_map_filter dist)
  then have len4: "card (eligible_targets nbytes blocklist existing sel) = length ?ts4"
    using set4 by (metis distinct_card distinct_map)
  have lens: "length ?ts4 \<le> length ?ts3" "length ?ts3 \<le> length ?ts2" "length ?ts2 \<le> length ?ts1"
    by (rule length_filter_le)+
  have rem: "remaining ?ts4 [] = eligible_targets nbytes blocklist existing sel" using set4 by (simp add: remaining_def)
  have loop: "\<exists>chosen sel'. select_loop e nbytes preferred prioritize (nat wanted) ?ts4 [] sel = Inr (map rse_tuple chosen, sel') \<and>
      length chosen = nat wanted \<and> distinct (map t_id chosen) \<and> set chosen \<subseteq> eligible_targets nbytes blocklist existing sel \<and>
      preferred_first preferred (eligible_targets nbytes blocklist existing sel) chosen \<and> sel_copies sel' = sel_copies sel \<and>
      sel_targets sel' = map (\<lambda>t. if t_id t \<in> t_id ` set chosen then charge nbytes t else t) (sel_targets sel)"
    if "\<not> int (length ?ts4) < wanted" and "select_loop e nbytes preferred prioritize (nat wanted) ?ts4 [] sel \<noteq> Inl NoRSEChosen \<or>
      (\<forall>t \<in> eligible_targets nbytes blocklist existing sel. 0 \<le> t_weight t)"
  proof -
    have "nat wanted \<le> card (remaining ?ts4 [])" using that(1) unfolding rem len4 by linarith
    from select_loop_exact [OF assms(1) dist4 this, of nbytes preferred prioritize sel, unfolded rem append_Nil, OF that(2)] obtain chosen sel'
      where run: "select_loop e nbytes preferred prioritize (nat wanted) ?ts4 [] sel = Inr (map rse_tuple chosen, sel')"
        "length chosen = nat wanted" "set chosen \<subseteq> eligible_targets nbytes blocklist existing sel" "distinct (map t_id chosen)"
        "preferred_first preferred (eligible_targets nbytes blocklist existing sel) chosen" "sel_copies sel' = sel_copies sel"
        "sel_targets sel' = fold (\<lambda>t. update_quota (t_id t) nbytes) chosen (sel_targets sel)" by blast
    show ?thesis
      by (intro exI [of _ chosen] exI [of _ sel'] conjI run(1-6)) (simp only: run(7) fold_update_quota [OF dist run(4)])
  qed
  have select: "select_rse e nbytes preferred copies blocklist prioritize existing sel =
      (if int (length ?ts1) < wanted then Inl InsufficientTargetRSEs
       else if int (length ?ts2) < wanted then Inl RSEOverQuota
       else if int (length ?ts3) < wanted then Inl InsufficientAccountLimit
       else if int (length ?ts4) < wanted then Inl InsufficientAccountLimit
       else select_loop e nbytes preferred prioritize (nat wanted) ?ts4 [] sel)"
    unfolding select_rse_def Let_def wanted ..
  have short: "\<exists>err. select_rse e nbytes preferred copies blocklist prioritize existing sel = Inl err \<and> err \<noteq> NoRSEChosen"
    if "int (length ?ts4) < wanted" using that unfolding select by simp
  have enough: "select_rse e nbytes preferred copies blocklist prioritize existing sel =
      select_loop e nbytes preferred prioritize (nat wanted) ?ts4 [] sel" if "\<not> int (length ?ts4) < wanted"
    using that lens unfolding select by simp
  show "int (card (eligible_targets nbytes blocklist existing sel)) < wanted \<longleftrightarrow>
      (\<exists>err. select_rse e nbytes preferred copies blocklist prioritize existing sel = Inl err \<and> err \<noteq> NoRSEChosen)"
    using short enough select_loop_error unfolding len4 by metis
  show "\<exists>t \<in> eligible_targets nbytes blocklist existing sel. t_weight t < 0"
    if none: "select_rse e nbytes preferred copies blocklist prioritize existing sel = Inl NoRSEChosen"
  proof (rule ccontr)
    assume "\<not> ?thesis"
    then have "\<forall>t \<in> eligible_targets nbytes blocklist existing sel. 0 \<le> t_weight t" by (simp add: not_less)
    moreover have "\<not> int (length ?ts4) < wanted" using short none by auto
    ultimately show False using loop none enough by fastforce
  qed
  show "\<exists>chosen. res = map rse_tuple chosen \<and> length chosen = nat wanted \<and> distinct (map t_id chosen) \<and>
        set chosen \<subseteq> eligible_targets nbytes blocklist existing sel \<and>
        preferred_first preferred (eligible_targets nbytes blocklist existing sel) chosen \<and> sel_copies sel' = sel_copies sel \<and>
        sel_targets sel' = map (\<lambda>t. if t_id t \<in> t_id ` set chosen then charge nbytes t else t) (sel_targets sel)"
    if run: "select_rse e nbytes preferred copies blocklist prioritize existing sel = Inr (res, sel')"
  proof -
    have len: "\<not> int (length ?ts4) < wanted" using run short by auto
    with enough run have "select_loop e nbytes preferred prioritize (nat wanted) ?ts4 [] sel = Inr (res, sel')" by simp
    with loop [OF len] show ?thesis by auto
  qed
qed

section \<open>Bookings\<close>

text \<open>The arguments of one selection, the selections of one selector in a row, and the bytes that they book on an RSE.\<close>

record selection =
  n_bytes :: int
  n_preferred :: "string list"
  n_copies :: int
  n_blocklist :: "string list"
  n_prioritize :: bool
  n_existing :: usage

fun select_each :: "selector_env \<Rightarrow> selection list \<Rightarrow> selector \<Rightarrow> selector_error + (int \<times> string list) list \<times> selector" where
  "select_each e [] sel = Inr ([], sel)"
| "select_each e (c # cs) sel =
     rbind (select_rse e (n_bytes c) (n_preferred c) (n_copies c) (n_blocklist c) (n_prioritize c) (n_existing c) sel) (\<lambda>(res, sel1).
     rbind (select_each e cs sel1) (\<lambda>(bookings, sel2). Inr ((n_bytes c, map fst res) # bookings, sel2)))"

definition booked :: "(int \<times> string list) list \<Rightarrow> string \<Rightarrow> int" where
  "booked bookings rse = (\<Sum>b \<leftarrow> filter (\<lambda>b. rse \<in> set (snd b)) bookings. fst b)"

text \<open>The quota of a target is positive, and no global limit is overdrawn.\<close>

definition in_quota :: "target \<Rightarrow> bool" where
  "in_quota t \<longleftrightarrow> Bytes 0 < t_quota_left t \<and> (\<forall>(_, left) \<in> set (t_global_left t). Bytes 0 \<le> left)"

lemma space_less [simp]: "Bytes a < Bytes b \<longleftrightarrow> a < b" "Bytes a < Unlimited" "\<not> Unlimited < s"
  by (cases s; auto simp: less_space_def)+

lemma minus_bytes_simps [simp]: "minus_bytes (Bytes m) n = Bytes (m - n)" "minus_bytes Unlimited n = Unlimited"
  by (simp_all add: minus_bytes_def)

lemma charge_in_quota:
  assumes "Bytes b < t_quota_left t" and "has_global_quota b t"
  shows "in_quota (charge b t)"
proof -
  have "Bytes 0 < minus_bytes (t_quota_left t) b" using assms(1) by (cases "t_quota_left t") simp_all
  moreover have "Bytes 0 \<le> minus_bytes left b" if "(x, left) \<in> set (t_global_left t)" for x left
    using assms(2) that by (cases left) (auto simp: has_global_quota_def)
  ultimately show ?thesis by (auto simp: in_quota_def charge_def)
qed

lemma select_rse_wf:
  assumes "fair e" and wf: "selector_wf sel" and "\<forall>t \<in> set (sel_targets sel). in_quota t"
    and run: "select_rse e b preferred copies blocklist prioritize existing sel = Inr (res, sel')"
  shows "selector_wf sel'" and "\<forall>t \<in> set (sel_targets sel'). in_quota t"
    and "sel_targets sel' = map (\<lambda>t. if t_id t \<in> set (map fst res) then charge b t else t) (sel_targets sel)"
proof -
  obtain chosen where res: "res = map rse_tuple chosen" and sub: "set chosen \<subseteq> eligible_targets b blocklist existing sel"
    and upd: "sel_targets sel' = map (\<lambda>t. if t_id t \<in> t_id ` set chosen then charge b t else t) (sel_targets sel)"
    using select_rse_cases(3) [OF assms(1) selector_wf_distinct [OF wf] refl run] by blast
  have ids: "set (map fst res) = t_id ` set chosen" by (auto simp: res)
  then show "sel_targets sel' = map (\<lambda>t. if t_id t \<in> set (map fst res) then charge b t else t) (sel_targets sel)"
    using upd by simp
  have "map t_id (sel_targets sel') = map t_id (sel_targets sel)" unfolding upd by (rule map_t_id)
  then have "distinct (map t_id (sel_targets sel'))" using wf by (simp add: selector_wf_def)
  moreover have "\<forall>t \<in> set (sel_targets sel'). 0 \<le> t_weight t" using wf unfolding upd by (auto simp: selector_wf_def)
  ultimately show "selector_wf sel'" by (simp add: selector_wf_def)
  show "\<forall>t \<in> set (sel_targets sel'). in_quota t"
  proof
    fix t' assume "t' \<in> set (sel_targets sel')"
    then obtain t where t: "t \<in> set (sel_targets sel)" "t' = (if t_id t \<in> t_id ` set chosen then charge b t else t)"
      unfolding upd by auto
    show "in_quota t'"
    proof (cases "t_id t \<in> t_id ` set chosen")
      case True
      then obtain c where c: "c \<in> set chosen" "t_id c = t_id t" by force
      then have "c = t" using sub t(1) wf key_unique by (fastforce simp: eligible_targets_def selector_wf_def)
      with c sub have "eligible b blocklist existing t" by (auto simp: eligible_targets_def)
      then show ?thesis using True t(2) charge_in_quota by (simp add: eligible_def)
    next
      case False
      then show ?thesis using t assms(3) by simp
    qed
  qed
qed

lemma bookings_left:
  assumes "fair e" and "selector_wf sel" and "\<forall>t \<in> set (sel_targets sel). in_quota t"
    and "select_each e cs sel = Inr (bookings, sel')" and "t \<in> set (sel_targets sel)"
  shows "Bytes (booked bookings (t_id t)) < t_quota_left t \<and>
    (\<forall>(_, left) \<in> set (t_global_left t). Bytes (booked bookings (t_id t)) \<le> left)"
  using assms(2-)
proof (induction cs arbitrary: sel bookings t)
  case Nil
  then show ?case by (auto simp: booked_def in_quota_def)
next
  case (Cons c cs)
  obtain res sel1 bookings1 where sel1: "select_rse e (n_bytes c) (n_preferred c) (n_copies c) (n_blocklist c) (n_prioritize c) (n_existing c) sel
        = Inr (res, sel1)"
    and rest: "select_each e cs sel1 = Inr (bookings1, sel')" and bookings: "bookings = (n_bytes c, map fst res) # bookings1"
    using Cons.prems(3) by (auto simp: rbind_eq_Inr)
  note wf1 = select_rse_wf [OF assms(1) Cons.prems(1,2) sel1]
  let ?t = "if t_id t \<in> set (map fst res) then charge (n_bytes c) t else t"
  have "?t \<in> set (sel_targets sel1)" using Cons.prems(4) unfolding wf1(3) by auto
  from Cons.IH [OF wf1(1,2) rest this] have IH: "Bytes (booked bookings1 (t_id t)) < t_quota_left ?t"
    "\<forall>(_, left) \<in> set (t_global_left ?t). Bytes (booked bookings1 (t_id t)) \<le> left" by (auto split: if_splits)
  show ?case
  proof (cases "t_id t \<in> set (map fst res)")
    case False
    then show ?thesis using IH by (simp add: bookings booked_def)
  next
    case True
    have now: "booked bookings (t_id t) = n_bytes c + booked bookings1 (t_id t)" using True by (simp add: bookings booked_def)
    have "Bytes (booked bookings (t_id t)) < t_quota_left t"
      using IH(1) True unfolding now by (cases "t_quota_left t") (simp_all add: charge_def)
    moreover have "Bytes (booked bookings (t_id t)) \<le> left" if "(x, left) \<in> set (t_global_left t)" for x left
    proof -
      have "(x, minus_bytes left (n_bytes c)) \<in> set (t_global_left ?t)" using True that by (force simp: charge_def)
      then show ?thesis using IH(2) unfolding now by (cases left) auto
    qed
    ultimately show ?thesis by blast
  qed
qed

section \<open>What the constructor gives\<close>

definition nonneg_weights :: "selector_env \<Rightarrow> bool" where
  "nonneg_weights e \<longleftrightarrow> (\<forall>v w. to_float e v = Some w \<longrightarrow> 0 \<le> w)"

lemma weighted_candidates_Inr:
  assumes "weighted_candidates e weight rs = Inr cs" and "distinct (map rse_id rs)" and "nonneg_weights e"
  shows "distinct (map c_rse_id cs) \<and> set (map c_rse_id cs) \<subseteq> set (map rse_id rs) \<and> (\<forall>c \<in> set cs. 0 \<le> c_weight c)"
  using assms(1,2)
proof (induction rs arbitrary: cs)
  case Nil
  then show ?case by simp
next
  case (Cons r rs)
  show ?case
  proof (cases "list_rse_attributes (s_registry e) (rse_id r) weight")
    case None
    then show ?thesis using Cons by auto
  next
    case (Some v)
    then obtain w cs' mock where "to_float e v = Some w" "weighted_candidates e weight rs = Inr cs'" "cs = new_candidate r w mock # cs'"
      using Cons.prems(1) by (auto simp: Let_def rbind_eq_Inr split: option.splits)
    then show ?thesis using Cons.IH [of cs'] Cons.prems(2) assms(3) by (auto simp: new_candidate_def nonneg_weights_def)
  qed
qed

lemma candidates_Inr:
  assumes "candidates e weight rs = Inr cs" and "distinct (map rse_id rs)" and "nonneg_weights e"
  shows "distinct (map c_rse_id cs) \<and> set (map c_rse_id cs) \<subseteq> set (map rse_id rs) \<and> (\<forall>c \<in> set cs. 0 \<le> c_weight c)"
proof (cases weight)
  case None
  then have "cs = map (\<lambda>r. new_candidate r 1 (has_rse_attribute (s_registry e) (rse_id r) ''mock'')) rs"
    using assms(1) by (simp add: candidates_def)
  then show ?thesis using assms(2) by (auto simp: new_candidate_def comp_def)
next
  case (Some w)
  then show ?thesis using weighted_candidates_Inr [OF _ assms(2,3)] assms(1) by (simp add: candidates_def)
qed

lemma account_global_left_pos:
  "account_global_left u rse ls res = Some g \<Longrightarrow> \<forall>p \<in> set res. Bytes 0 \<le> snd p \<Longrightarrow> \<forall>p \<in> set g. Bytes 0 \<le> snd p"
proof (induction ls arbitrary: res)
  case (Cons l ls)
  obtain x rows limit where l: "l = (x, rows, limit)" by (metis prod_cases3)
  let ?left = "case limit of None \<Rightarrow> Bytes 0 | Some l \<Rightarrow> minus_bytes l (\<Sum>r \<leftarrow> rows. used u (rse_id r))"
  show ?case
  proof (cases "rse \<in> set (map rse_id rows)")
    case True
    then have left: "\<not> ?left \<le> Bytes 0" and rest: "account_global_left u rse ls (AList.update x ?left res) = Some g"
      using Cons.prems(1) by (auto simp: l Let_def split: if_splits)
    have "\<forall>p \<in> set (AList.update x ?left res). Bytes 0 \<le> snd p"
    proof
      fix p assume "p \<in> set (AList.update x ?left res)"
      then have "p = (x, ?left) \<or> p \<in> set res" 
        by (induction res) (auto split: if_splits)
      then show "Bytes 0 \<le> snd p" using left Cons.prems(2) by (auto simp: less_imp_le not_le)
    qed
    with Cons.IH rest show ?thesis by blast
  next
    case False
    then show ?thesis using Cons by (simp add: l)
  qed
qed simp

lemma quota_on_in_quota:
  assumes "quota_on d account grants limits u rse = Inr (Some (l, g))"
  shows "in_quota \<lparr>t_rse = c, t_quota_left = l, t_space_left = s, t_global_left = g\<rparr>"
proof (cases "rse_quota_left grants rse u")
  case None
  then have "Bytes 0 < l" and "account_global_left u rse limits [] = Some g"
    using assms by (auto simp: quota_on_def Let_def split: sum.splits option.splits if_splits)
  then show ?thesis using account_global_left_pos [of u rse limits "[]" g] by (auto simp: in_quota_def)
next
  case (Some p)
  then show ?thesis using assms by (cases p) (fastforce simp: quota_on_def in_quota_def split: if_splits)
qed

lemma quota_targets_Inr:
  assumes "quota_targets e d account grants limits u cs = Inr ts"
  shows "subseq (map t_rse ts) cs \<and> (\<forall>t \<in> set ts. in_quota t)"
  using assms
proof (induction cs arbitrary: ts)
  case Nil
  then show ?case by simp
next
  case (Cons c cs)
  let ?rest = "quota_targets e d account grants limits u cs"
  consider (mock) ts' where "?rest = Inr ts'" "ts = unlimited_target c # ts'"
    | (none) "?rest = Inr ts"
    | (quota) l g s ts' where "quota_on d account grants limits u (c_rse_id c) = Inr (Some (l, g))" "?rest = Inr ts'"
        "ts = \<lparr>t_rse = c, t_quota_left = l, t_space_left = s, t_global_left = g\<rparr> # ts'"
    using Cons.prems by (auto simp: rbind_eq_Inr split: if_splits option.splits)
  then show ?case
  proof cases
    case mock
    then show ?thesis using Cons.IH [of ts'] by (auto simp: unlimited_target_def in_quota_def)
  next
    case none
    then show ?thesis using Cons.IH [of ts] by (auto intro: list_emb_Cons)
  next
    case quota
    then show ?thesis using Cons.IH [of ts'] quota_on_in_quota by auto
  qed
qed

lemma RSESelector_wf:
  assumes "RSESelector e d rb account rs weight copies ignore = Some (Inr sel)" and "distinct (map rse_id rs)"
    and "nonneg_weights e"
  shows "selector_wf sel" and "\<forall>t \<in> set (sel_targets sel). in_quota t" and "set (map t_id (sel_targets sel)) \<subseteq> set (map rse_id rs)"
    and "sel_copies sel = copies" and "copies \<le> int (length (sel_targets sel))"
proof -
  obtain cs where cs: "candidates e weight rs = Inr cs" using assms(1) by (auto simp: RSESelector_def obind_def split: sum.splits)
  note wf = candidates_Inr [OF cs assms(2,3)]
  obtain ts where ts: "subseq (map t_rse ts) cs" "\<forall>t \<in> set ts. in_quota t" and sel: "sel = \<lparr>sel_copies = copies, sel_targets = ts, sel_draws = 0\<rparr>"
    and len: "copies \<le> int (length ts)"
  proof (cases "is_quota_admin e d rb account \<or> ignore")
    case True
    have "map t_rse (map unlimited_target cs) = cs" by (simp add: unlimited_target_def comp_def)
    then have "subseq (map t_rse (map unlimited_target cs)) cs" by simp
    moreover have "\<forall>t \<in> set (map unlimited_target cs). in_quota t" by (auto simp: unlimited_target_def in_quota_def)
    moreover have "sel = \<lparr>sel_copies = copies, sel_targets = map unlimited_target cs, sel_draws = 0\<rparr>"
      and "copies \<le> int (length (map unlimited_target cs))"
      using assms(1) True cs by (auto simp: RSESelector_def obind_def split: if_splits)
    ultimately show thesis by (rule that)
  next
    case False
    then obtain ts where "limited_targets e d rb account cs = Some (Inr ts)"
      and "copies \<le> int (length ts)" and "sel = \<lparr>sel_copies = copies, sel_targets = ts, sel_draws = 0\<rparr>"
      using assms(1) cs by (auto simp: RSESelector_def obind_def rbind_eq_Inr split: if_splits)
    moreover from this(1) obtain grants limits where "quota_targets e d account grants limits (usage_of d account) cs = Inr ts"
      by (auto simp: limited_targets_def split: Option.bind_splits sum.splits)
    ultimately show thesis using quota_targets_Inr that by blast
  qed
  have "subseq (map t_id ts) (map c_rse_id cs)" using subseq_map [OF ts(1), of c_rse_id] by (simp add: comp_def)
  then obtain N where nths: "map t_id ts = nths (map c_rse_id cs) N" by (auto simp: subseq_conv_nths)
  have "distinct (map t_id ts)" unfolding nths by (rule distinct_nthsI) (simp add: wf)
  moreover have "set (map t_id ts) \<subseteq> set (map c_rse_id cs)" unfolding nths by (rule set_nths_subset)
  moreover from this have "set (map t_id ts) \<subseteq> set (map rse_id rs)" using wf by (blast dest: subset_trans)
  moreover have "\<forall>t \<in> set ts. 0 \<le> t_weight t" using wf list_emb_set [OF ts(1)] by fastforce
  ultimately show "selector_wf sel" and "\<forall>t \<in> set (sel_targets sel). in_quota t" and "set (map t_id (sel_targets sel)) \<subseteq> set (map rse_id rs)"
    and "sel_copies sel = copies" and "copies \<le> int (length (sel_targets sel))"
    using wf ts(2) len by (auto simp: sel selector_wf_def)
qed

section \<open>Properties\<close>

text \<open>C4: For a selector that lists every RSE once and a random generator that shuffles and draws fractions of the total: a selection fails for want of RSEs, space or quota
  exactly when fewer RSEs are eligible than are wanted, an RSE being eligible if it is not blocked, has space for what is not there yet,
  more local quota than the data and global quotas at least as large. It fails otherwise only when an eligible RSE has a
  negative weight, since then the weighted draw can end without a choice. A selection that returns gives the requested number of
  different eligible RSEs, takes one that is not preferred only if all eligible preferred ones are taken, and charges
  the data to the quotas of the chosen RSEs and of no other.\<close>

theorem select_rse_exact:
  assumes "fair e" and "distinct (map t_id (sel_targets sel))" and "wanted = (if copies = 0 then sel_copies sel else copies)"
  shows "case select_rse e nbytes preferred copies blocklist prioritize existing sel of
      Inl err \<Rightarrow>
        if err = NoRSEChosen then wanted \<le> int (card (eligible_targets nbytes blocklist existing sel)) \<and>
          (\<exists>t \<in> eligible_targets nbytes blocklist existing sel. t_weight t < 0)
        else int (card (eligible_targets nbytes blocklist existing sel)) < wanted
    | Inr (res, sel') \<Rightarrow> wanted \<le> int (card (eligible_targets nbytes blocklist existing sel)) \<and>
        (\<exists>chosen. res = map rse_tuple chosen \<and> length chosen = nat wanted \<and> distinct (map t_id chosen) \<and>
          set chosen \<subseteq> eligible_targets nbytes blocklist existing sel \<and>
          ((\<exists>t \<in> set chosen. t_id t \<notin> set preferred) \<longrightarrow>
            {t \<in> eligible_targets nbytes blocklist existing sel. t_id t \<in> set preferred} \<subseteq> set chosen) \<and>
          sel_targets sel' = map (\<lambda>t. if t_id t \<in> t_id ` set chosen then charge nbytes t else t) (sel_targets sel))"
proof (cases "select_rse e nbytes preferred copies blocklist prioritize existing sel")
  case (Inl err)
  with select_rse_cases(1) [OF assms, of nbytes blocklist existing preferred prioritize]
    select_rse_cases(2) [OF assms, of nbytes preferred blocklist prioritize existing] show ?thesis
    by (cases "err = NoRSEChosen") (simp_all add: not_less [symmetric])
next
  case (Inr p)
  obtain res sel' where p: "p = (res, sel')" by (cases p)
  have "\<not> int (card (eligible_targets nbytes blocklist existing sel)) < wanted"
    using select_rse_cases(1) [OF assms, of nbytes blocklist existing preferred prioritize] Inr by simp
  then show ?thesis
    using select_rse_cases(3) [OF assms Inr [unfolded p]] unfolding Inr p sum.case prod.case preferred_first_def by (simp add: not_less) blast
qed


text \<open>A selector over two RSEs without shuffling, for the witnesses: alice has local limits on both and a global limit on both together.\<close>

definition demo_row :: "string \<Rightarrow> rse_row" where
  "demo_row i = \<lparr>rse_id = i, rse_name = i, rse_vo = ''def'', rse_type = DISK, deterministic = True, volatile = False, staging_area = False,
     availability_read = Some True, availability_write = Some True, availability_delete = Some True, settings = (\<lambda>_. None), deleted = False\<rparr>"

definition demo_selector_env :: selector_env where
  "demo_selector_env = \<lparr>s_rbac = \<lparr>str_to_date = (\<lambda>_. None), fromisoformat = (\<lambda>_. None), error_names = (\<lambda>_. None), scope_length = 25,
       name_length = 250, rse_session = demo_session\<rparr>,
     s_rbac_enabled = False, s_now = 0, to_float = (\<lambda>_. None), shuffled = (\<lambda>_ ts. ts), fraction = (\<lambda>_. 0)\<rparr>"

definition demo_target :: "string \<Rightarrow> int \<Rightarrow> target" where
  "demo_target i left = \<lparr>t_rse = \<lparr>c_rse_id = i, c_weight = 1, c_mock = False, c_write = True, c_staging = False\<rparr>,
     t_quota_left = Bytes left, t_space_left = Unlimited, t_global_left = [(''A|B'', Bytes 10)]\<rparr>"

definition demo_selector :: selector where
  "demo_selector = \<lparr>sel_copies = 2, sel_targets = [demo_target ''A'' 20, demo_target ''B'' 20], sel_draws = 0\<rparr>"

lemma demo_fair: "fair demo_selector_env" "nonneg_weights demo_selector_env"
  by (simp_all add: fair_def nonneg_weights_def demo_selector_env_def)

lemma demo_selector_wf: "selector_wf demo_selector"
  by (simp add: selector_wf_def demo_selector_def demo_target_def)

theorem select_rse_exact_witness:
  "\<exists>sel'. select_rse demo_selector_env 6 [''B''] 0 [] False [] demo_selector = Inr ([(''B'', False, True), (''A'', False, True)], sel') \<and>
     2 \<le> int (card (eligible_targets 6 [] [] demo_selector))"
proof -
  obtain sel' where run: "select_rse demo_selector_env 6 [''B''] 0 [] False [] demo_selector = Inr ([(''B'', False, True), (''A'', False, True)], sel')"
    by (simp add: select_rse_def demo_selector_def demo_target_def demo_selector_env_def has_space_def has_global_quota_def Let_def numeral_2_eq_2
        choose_rse_def rse_tuple_def map_filter_simps)
  have "2 = (if (0::int) = 0 then sel_copies demo_selector else 0)" by (simp add: demo_selector_def)
  from select_rse_exact [OF demo_fair(1) selector_wf_distinct [OF demo_selector_wf] this, where nbytes = 6 and preferred = "[''B'']" and blocklist = "[]" and prioritize = False and existing = "[]"] run show ?thesis by simp
qed

definition demo_limited :: accounts_db where
  "demo_limited = demo_accounts\<lparr>account_glob_limits := []\<rparr>"

definition no_roles :: rbac_db where
  "no_roles = \<lparr>accounts = [''alice''], roles = [], account_role_map = [], role_did_permission_map = [],
     role_local_limit_permission_map = [], role_global_limit_permission_map = []\<rparr>"

definition demo_call :: "int \<Rightarrow> selection" where
  "demo_call b = \<lparr>n_bytes = b, n_preferred = [], n_copies = 0, n_blocklist = [], n_prioritize = False, n_existing = []\<rparr>"


text \<open>The quota of a global limit is shared by the RSEs that it covers, but a selection charges only the chosen RSE: one
  rule with two copies can book more than the limit leaves.\<close>

lemma global_limit_overbooked:
  "\<exists>sel'. select_rse demo_selector_env 6 [] 0 [] False [] demo_selector = Inr ([(''A'', False, True), (''B'', False, True)], sel') \<and>
     t_global_left (hd (sel_targets demo_selector)) = [(''A|B'', Bytes 10)] \<and> (6::int) + 6 > 10"
  by (simp add: select_rse_def demo_selector_def demo_target_def demo_selector_env_def has_space_def has_global_quota_def Let_def numeral_2_eq_2
        choose_rse_def rse_tuple_def map_filter_simps)

end
