(* ===== verification/Thread_Work.thy ===== *)
theory Thread_Work
  imports Prelude
begin

text \<open>
  The division of work among the threads of a daemon (\<^verbatim>\<open>filter_thread_work\<close> of \<^verbatim>\<open>db/sqla/__init__.py\<close>).

  A query is narrowed to the rows whose hash falls to the thread. The hash functions are those of the database
  and therefore parameters; of \<^verbatim>\<open>ORA_HASH\<close> it is known that its result is at most its second argument.
\<close>

datatype dialect = Oracle | MySQL | PostgreSQL | SQLite

text \<open>\<open>ora_hash v m\<close> is \<^verbatim>\<open>ORA_HASH(v, m)\<close>, \<open>hash_number\<close> the number that the \<^verbatim>\<open>md5\<close> of a value becomes in the clause.\<close>

record 'v hashes =
  ora_hash :: "'v \<Rightarrow> nat \<Rightarrow> nat"
  hash_number :: "dialect \<Rightarrow> 'v \<Rightarrow> nat"

definition in_thread :: "dialect \<Rightarrow> 'v hashes \<Rightarrow> nat option \<Rightarrow> nat option \<Rightarrow> 'v \<Rightarrow> bool" where
  "in_thread d h total_threads thread_id v =
     (case (thread_id, total_threads) of
        (Some t, Some n) \<Rightarrow>
          (if 1 < n then
             (case d of
                Oracle \<Rightarrow> ora_hash h v (n - 1) = t
              | MySQL \<Rightarrow> hash_number h d v mod n = t
              | PostgreSQL \<Rightarrow> hash_number h d v mod n = t
              | SQLite \<Rightarrow> True)
           else True)
      | _ \<Rightarrow> True)"

definition filter_thread_work ::
  "dialect \<Rightarrow> 'v hashes \<Rightarrow> nat option \<Rightarrow> nat option \<Rightarrow> ('r \<Rightarrow> 'v) \<Rightarrow> 'r list \<Rightarrow> 'r list" where
  "filter_thread_work d h total_threads thread_id hash_variable rows =
     filter (\<lambda>r. in_thread d h total_threads thread_id (hash_variable r)) rows"

text \<open>What is relied on of \<^verbatim>\<open>ORA_HASH\<close>.\<close>

definition ora_hash_bounded :: "'v hashes \<Rightarrow> bool" where
  "ora_hash_bounded h \<longleftrightarrow> (\<forall>v m. ora_hash h v m \<le> m)"

lemma in_thread_alone [simp]: "\<not> 1 < n \<Longrightarrow> in_thread d h (Some n) t v"
  by (cases t) (simp_all add: in_thread_def)

lemma in_thread_unfiltered [simp]: "in_thread d h None t v" "in_thread d h n None v"
  by (simp_all add: in_thread_def split: option.splits)

lemma in_thread_exists:
  assumes "ora_hash_bounded h" and "0 < n"
  shows "\<exists>t < n. in_thread d h (Some n) (Some t) v"
proof (cases "1 < n")
  case True
  have "ora_hash h v (n - 1) \<le> n - 1" using assms(1) by (simp add: ora_hash_bounded_def)
  then have "ora_hash h v (n - 1) < n" using assms(2) by linarith
  moreover have "hash_number h d v mod n < n" using assms(2) by simp
  ultimately show ?thesis using True assms(2) by (cases d) (auto simp: in_thread_def)
qed (use assms(2) in auto)

lemma in_thread_unique:
  assumes "d \<noteq> SQLite" and "t < n" and "t' < n"
    and "in_thread d h (Some n) (Some t) v" and "in_thread d h (Some n) (Some t') v"
  shows "t = t'"
  using assms by (cases d) (auto simp: in_thread_def split: if_splits)

end
