(* ===== verification/Rule_Grouping.thy ===== *)
theory Rule_Grouping
  imports Rules RSE_Selector Thread_Work
begin

text \<open>
  The application of a rule to the files of a DID (\<^verbatim>\<open>core/rule_grouping.py\<close>, with the replica queries of
  \<^verbatim>\<open>core/replica.py\<close> that it starts from).

  The replicas and the rule that a query returned are objects of the session: what is set on them is set on their
  rows. New replicas and locks are kept in lists until they are added to the session. A \<open>work\<close> state holds both, with
  the dictionaries of the locks and the replicas by file; a replica in such a dictionary is a reference, to a row or to a new
  object. The selector is an object of the caller. \<open>flush\<close> inserts the new objects and fails with \<^verbatim>\<open>IntegrityError\<close> where a primary key exists already.
\<close>

section \<open>Errors, files and the environment\<close>

datatype apply_error =
    Selection selector_error
  | Core rucio_error
  | IntegrityError

definition selected :: "selector_error + 'a \<Rightarrow> apply_error + 'a" where
  "selected r = (case r of Inl e \<Rightarrow> Inl (Selection e) | Inr x \<Rightarrow> Inr x)"

definition core :: "rucio_error + 'a \<Rightarrow> apply_error + 'a" where
  "core r = (case r of Inl e \<Rightarrow> Inl (Core e) | Inr x \<Rightarrow> Inr x)"

lemma selected_eq_Inr [simp]: "selected r = Inr x \<longleftrightarrow> r = Inr x"
  by (cases r) (simp_all add: selected_def)

lemma core_eq_Inr [simp]: "core r = Inr x \<longleftrightarrow> r = Inr x"
  by (cases r) (simp_all add: core_def)

record file_entry =
  f_did :: did
  f_bytes :: "int option"
  f_md5 :: "string option"
  f_adler32 :: "string option"

record apply_env = rule_env +
  selecting :: selector_env
  db_dialect :: dialect
  name_hashes :: "string hashes"
  max_partition_size :: nat

abbreviation r_env :: "apply_env \<Rightarrow> rule_env" where
  "r_env e \<equiv> rule_env.truncate e"

section \<open>Replica queries\<close>

text \<open>A list of ten or more RSEs, and an empty one, restrict nothing.\<close>

definition few_rses :: "string list option \<Rightarrow> string \<Rightarrow> bool" where
  "few_rses restrict rse = (case restrict of None \<Rightarrow> True | Some rs \<Rightarrow> 10 \<le> length rs \<or> rs = [] \<or> rse \<in> set rs)"

definition get_and_lock_file_replicas :: "rule_db \<Rightarrow> did \<Rightarrow> string list option \<Rightarrow> replica list" where
  "get_and_lock_file_replicas d k restrict =
     filter (\<lambda>p. fst (p_key p) = k \<and> p_state p \<noteq> BEING_DELETED \<and> few_rses restrict (p_rse_id p)) (replicas d)"

definition get_source_replicas :: "rule_db \<Rightarrow> did \<Rightarrow> string list option \<Rightarrow> string list" where
  "get_source_replicas d k source_rses =
     map p_rse_id (filter (\<lambda>p. fst (p_key p) = k \<and> p_state p = AVAILABLE \<and> few_rses source_rses (p_rse_id p)) (replicas d))"

definition content_file :: "content_row \<Rightarrow> file_entry" where
  "content_file c = \<lparr>f_did = c_child c, f_bytes = c_bytes c, f_md5 = c_md5 c, f_adler32 = c_adler32 c\<rparr>"

text \<open>The files of a dataset with their replicas: on PostgreSQL the files first and then an inner join, elsewhere one outer join. With
  an empty list of RSEs the clause \<^verbatim>\<open>or_()\<close> is no clause. A child appears once under a dataset, so that a file is read once.\<close>

definition add_replica_row :: "did \<times> string option \<Rightarrow> (did \<rightharpoonup> string list) \<Rightarrow> (did \<rightharpoonup> string list)" where
  "add_replica_row row m =
     (let new = (case snd row of None \<Rightarrow> [] | Some rse \<Rightarrow> [rse])
      in m(fst row \<mapsto> (case m (fst row) of None \<Rightarrow> new | Some rs \<Rightarrow> rs @ new)))"

definition get_and_lock_file_replicas_for_dataset ::
  "bool \<Rightarrow> rule_db \<Rightarrow> did \<Rightarrow> string list option \<Rightarrow> (string \<Rightarrow> bool) \<Rightarrow> file_entry list \<times> (did \<rightharpoonup> string list)" where
  "get_and_lock_file_replicas_for_dataset postgresql d k restrict mine =
     (let rows = filter (\<lambda>c. mine (c_child_name c)) (filter (\<lambda>c. c_parent c = k) (contents d));
          reps = (\<lambda>c. map p_rse_id (get_and_lock_file_replicas d (c_child c) restrict));
          start = (if postgresql then map_of (map (\<lambda>c. (c_child c, [])) rows) else Map.empty);
          joined = (if postgresql then [(c_child c, Some rse). c \<leftarrow> rows, rse \<leftarrow> reps c]
            else [(c_child c, x). c \<leftarrow> rows, x \<leftarrow> (case reps c of [] \<Rightarrow> [None] | rse # rs \<Rightarrow> map Some (rse # rs))])
      in (map content_file rows, fold add_replica_row joined start))"

definition get_source_replicas_for_dataset ::
  "rule_db \<Rightarrow> did \<Rightarrow> string list option \<Rightarrow> (string \<Rightarrow> bool) \<Rightarrow> (did \<rightharpoonup> string list)" where
  "get_source_replicas_for_dataset d k source_rses mine =
     (let rows = filter (\<lambda>c. mine (c_child_name c)) (filter (\<lambda>c. c_parent c = k) (contents d))
      in fold add_replica_row
           [(c_child c, x). c \<leftarrow> rows,
              x \<leftarrow> (case get_source_replicas d (c_child c) source_rses of [] \<Rightarrow> [None] | rse # rs \<Rightarrow> map Some (rse # rs))]
           Map.empty)"

definition get_rse_coverage_of_dataset :: "rule_db \<Rightarrow> did \<Rightarrow> usage" where
  "get_rse_coverage_of_dataset d k =
     (let joined = [(p_rse_id p, c_bytes c). c \<leftarrow> contents d, c_parent c = k, p \<leftarrow> replicas d,
            fst (p_key p) = c_child c \<and> p_state p \<noteq> BEING_DELETED];
          total = (\<lambda>rse. column_sum (map snd (filter (\<lambda>x. fst x = rse) joined)))
      in filter (\<lambda>(_, n). n \<noteq> 0) (map (\<lambda>rse. (rse, total rse)) (remdups (map fst joined))))"

section \<open>New locks and replicas\<close>

datatype replica_ref = Row string | New string

fun ref_rse :: "replica_ref \<Rightarrow> string" where
  "ref_rse (Row rse) = rse"
| "ref_rse (New rse) = rse"

record col_replica =
  cr_scope :: iscope
  cr_name :: string
  cr_did_type :: did_type
  cr_rse_id :: string
  cr_bytes :: int
  cr_length :: int
  cr_available_bytes :: "int option"
  cr_available_replicas_cnt :: "int option"
  cr_state :: replica_state

record work =
  w_db :: rule_db
  w_col_replicas :: "col_replica list"
  w_rse_counters :: rse_counter_db
  w_selector :: selector
  w_new_replicas :: "replica list"
  w_new_locks :: "replica_lock list"
  w_transfers :: "request_dict list"
  w_locks :: "did \<rightharpoonup> replica_lock list"
  w_replicas :: "did \<rightharpoonup> replica_ref list"
  w_saved_replicas :: "replica list"
  w_saved_locks :: "replica_lock list"

fun ref_replica :: "work \<Rightarrow> did \<Rightarrow> replica_ref \<Rightarrow> replica option" where
  "ref_replica w k (Row rse) = find (\<lambda>p. p_key p = (k, rse)) (replicas (w_db w))"
| "ref_replica w k (New rse) = find (\<lambda>p. p_key p = (k, rse)) (w_new_replicas w)"

fun set_replica :: "did \<Rightarrow> replica_ref \<Rightarrow> (replica \<Rightarrow> replica) \<Rightarrow> work \<Rightarrow> work" where
  "set_replica k (Row rse) g w =
     w\<lparr>w_db := (w_db w)\<lparr>replicas := upd_where (\<lambda>p. p_key p = (k, rse)) g (replicas (w_db w))\<rparr>\<rparr>"
| "set_replica k (New rse) g w = w\<lparr>w_new_replicas := upd_where (\<lambda>p. p_key p = (k, rse)) g (w_new_replicas w)\<rparr>"

definition locked_replica :: "lock_state \<Rightarrow> replica \<Rightarrow> replica" where
  "locked_replica s p = (if s = LockREPLICATING then p\<lparr>p_state := COPYING\<rparr> else p)
     \<lparr>p_lock_cnt := p_lock_cnt p + 1, p_tombstone := None\<rparr>"

definition new_lock :: "apply_env \<Rightarrow> rule \<Rightarrow> string \<Rightarrow> did \<Rightarrow> int option \<Rightarrow> lock_state \<Rightarrow> replica_lock" where
  "new_lock e r rse k b s = \<lparr>l_scope = fst k, l_name = snd k, l_rule_id = r_id r, l_rse_id = rse, l_account = r_account r,
     l_bytes = b, l_state = s, l_created_at = now e\<rparr>"

text \<open>\<^verbatim>\<open>__create_lock\<close>, and the two lists that every caller appends the lock to.\<close>

definition create_lock :: "apply_env \<Rightarrow> rule \<Rightarrow> did \<Rightarrow> int option \<Rightarrow> lock_state \<Rightarrow> replica_ref \<Rightarrow> work \<Rightarrow> work" where
  "create_lock e r k b s ref w =
     (let l = new_lock e r (ref_rse ref) k b s;
          w1 = set_replica k ref (locked_replica s) w
      in w1\<lparr>w_db := upd_rule (r_id r) (add_cnt s 1) (w_db w1), w_new_locks := w_new_locks w1 @ [l],
            w_locks := (w_locks w1)(k \<mapsto> (case w_locks w1 k of None \<Rightarrow> [l] | Some ls \<Rightarrow> ls @ [l]))\<rparr>)"

definition create_replica :: "apply_env \<Rightarrow> string \<Rightarrow> file_entry \<Rightarrow> int \<Rightarrow> replica_state \<Rightarrow> replica" where
  "create_replica e rse f b s = \<lparr>p_scope = fst (f_did f), p_name = snd (f_did f), p_rse_id = rse, p_bytes = b, p_md5 = f_md5 f,
     p_adler32 = f_adler32 f, p_state = s, p_lock_cnt = 0, p_accessed_at = None, p_tombstone = None, p_created_at = now e, p_path = None\<rparr>"

definition add_replica :: "did \<Rightarrow> replica \<Rightarrow> work \<Rightarrow> work" where
  "add_replica k p w = w\<lparr>w_new_replicas := w_new_replicas w @ [p],
     w_replicas := (w_replicas w)(k \<mapsto> (case w_replicas w k of None \<Rightarrow> [New (p_rse_id p)] | Some rs \<Rightarrow> rs @ [New (p_rse_id p)]))\<rparr>"

section \<open>The lifetime of a staged copy\<close>

fun attr_int :: "attr_value \<Rightarrow> int option" where
  "attr_int (AStr s) = py_int s"
| "attr_int (ABool b) = Some (if b then 1 else 0)"

fun attr_lifetime :: "attr_value \<Rightarrow> lifetime" where
  "attr_lifetime (AStr s) = LifetimeText s"
| "attr_lifetime (ABool b) = LifetimeBool b"

definition rule_pin :: "apply_env \<Rightarrow> rule \<Rightarrow> int option" where
  "rule_pin e r = map_option (\<lambda>t. t - now e) (r_expires_at r)"

definition staging_pin :: "apply_env \<Rightarrow> string \<Rightarrow> int option \<Rightarrow> rucio_error + lifetime option" where
  "staging_pin e rse pin =
     (case get_rse_attribute (attr_region e) (registry e) rse ''maximum_pin_lifetime'' of
        None \<Rightarrow> Inr (map_option Seconds pin)
      | Some m \<Rightarrow>
          if \<not> truthy m then Inr (map_option Seconds pin)
          else case pin of
            None \<Rightarrow> Inr (Some (attr_lifetime m))
          | Some n \<Rightarrow>
              if n = 0 then Inr (Some (attr_lifetime m))
              else case attr_int m of
                None \<Rightarrow> Inl ValueError
              | Some k \<Rightarrow> Inr (Some (if n < k then attr_lifetime m else Seconds n)))"

section \<open>One lock on one RSE\<close>

text \<open>A lock that is not in the database yet has no creation date, so the request has no \<^verbatim>\<open>requested_at\<close>.\<close>

definition file_transfer ::
  "string \<Rightarrow> request_type \<Rightarrow> file_entry \<Rightarrow> did option \<Rightarrow> rule \<Rightarrow> bool \<Rightarrow> lifetime option \<Rightarrow> request_dict" where
  "file_transfer rse t f ds r with_lock pin =
     (let q = create_transfer_dict rse t (f_did f) r None (f_bytes f) (f_md5 f) (f_adler32 f) ds pin None None
      in if with_lock then q\<lparr>q_requested_at := None\<rparr> else q)"

definition add_transfers :: "request_dict list \<Rightarrow> work \<Rightarrow> work" where
  "add_transfers qs w = w\<lparr>w_transfers := w_transfers w @ qs\<rparr>"

definition source_available :: "string list \<Rightarrow> (did \<rightharpoonup> string list) \<Rightarrow> did \<Rightarrow> bool" where
  "source_available source_rses source_replicas k \<longleftrightarrow>
     source_rses = [] \<or> (\<exists>rse \<in> set (case source_replicas k of None \<Rightarrow> [] | Some rs \<Rightarrow> rs). rse \<in> set source_rses)"

definition lock_existing ::
  "apply_env \<Rightarrow> rule \<Rightarrow> did option \<Rightarrow> bool \<Rightarrow> bool \<Rightarrow> bool \<Rightarrow> lifetime option \<Rightarrow> file_entry \<Rightarrow> replica_ref \<Rightarrow> replica
     \<Rightarrow> work \<Rightarrow> work" where
  "lock_existing e r ds staging required feasible pin f ref p w =
     (let rse = ref_rse ref;
          lock = (\<lambda>s. create_lock e r (f_did f) (f_bytes f) s ref w)
      in if p_state p = AVAILABLE \<or> p_state p = TEMPORARY_UNAVAILABLE then
           add_transfers (if required then [file_transfer rse STAGEIN f ds r True pin] else [])
             (lock (if required then LockREPLICATING else LockOK))
         else if p_state p = UNAVAILABLE then
           add_transfers (if \<not> staging \<and> \<not> required \<and> feasible then [file_transfer rse TRANSFER f ds r True None] else [])
             (lock (if feasible then LockREPLICATING else LockSTUCK))
         else lock LockREPLICATING)"

text \<open>A replica without a size violates \<^verbatim>\<open>REPLICAS_SIZE_NN\<close> when it is inserted.\<close>

definition lock_new ::
  "apply_env \<Rightarrow> rule \<Rightarrow> did option \<Rightarrow> bool \<Rightarrow> bool \<Rightarrow> bool \<Rightarrow> file_entry \<Rightarrow> string \<Rightarrow> work \<Rightarrow> apply_error + work" where
  "lock_new e r ds staging required feasible f rse w =
     (case f_bytes f of
        None \<Rightarrow> Inl IntegrityError
      | Some b \<Rightarrow> Inr
          (add_transfers (if \<not> staging \<and> \<not> required \<and> feasible \<or> required
                          then [file_transfer rse TRANSFER f ds r True None] else [])
            (create_lock e r (f_did f) (Some b) (if feasible then LockREPLICATING else LockSTUCK) (New rse)
              (add_replica (f_did f) (create_replica e rse f b (if feasible then COPYING else UNAVAILABLE)) w))))"

text \<open>\<^verbatim>\<open>__create_lock_and_replica\<close>. Every reference in the dictionary has its object.\<close>

definition create_lock_and_replica ::
  "apply_env \<Rightarrow> rule \<Rightarrow> did option \<Rightarrow> string list \<Rightarrow> (did \<rightharpoonup> string list) \<Rightarrow> file_entry \<Rightarrow> string \<times> bool \<times> bool \<Rightarrow> work
     \<Rightarrow> apply_error + work" where
  "create_lock_and_replica e r ds source_rses source_replicas f t w =
     (let (rse, staging, writable) = t;
          k = f_did f;
          w1 = add_transfers (if staging
                 then [file_transfer rse STAGEIN f ds r False (map_option Seconds (rule_pin e r))] else []) w;
          required = staging_required (r_env e) rse;
          feasible = (source_available source_rses source_replicas k \<and> writable)
      in rbind (core (if required then staging_pin e rse (rule_pin e r) else Inr (map_option Seconds (rule_pin e r)))) (\<lambda>pin.
           case w_replicas w1 k of
             None \<Rightarrow> Inl (Core KeyError)
           | Some refs \<Rightarrow>
               (case filter (\<lambda>ref. ref_rse ref = rse) refs of
                  ref # _ \<Rightarrow> (case ref_replica w1 k ref of
                      None \<Rightarrow> Inl (Core KeyError)
                    | Some p \<Rightarrow> Inr (lock_existing e r ds staging required feasible pin f ref p w1))
                | [] \<Rightarrow> lock_new e r ds staging required feasible f rse w1)))"

section \<open>The steps that the groupings share\<close>

definition rule_locks_of :: "work \<Rightarrow> rule \<Rightarrow> did \<Rightarrow> apply_error + replica_lock list" where
  "rule_locks_of w r k =
     (case w_locks w k of None \<Rightarrow> Inl (Core KeyError) | Some ls \<Rightarrow> Inr (filter (\<lambda>l. l_rule_id l = r_id r) ls))"

definition replicas_of :: "work \<Rightarrow> did \<Rightarrow> apply_error + replica list" where
  "replicas_of w k =
     (case w_replicas w k of None \<Rightarrow> Inl (Core KeyError) | Some refs \<Rightarrow> Inr (List.map_filter (ref_replica w k) refs))"

text \<open>A selection with the selector of the rule. A file without a size fails in the first comparison, if there is an RSE to compare.\<close>

definition select_targets ::
  "apply_env \<Rightarrow> int option \<Rightarrow> string list \<Rightarrow> string list \<Rightarrow> bool \<Rightarrow> (int \<Rightarrow> usage) \<Rightarrow> work
     \<Rightarrow> apply_error + (string \<times> bool \<times> bool) list \<times> work" where
  "select_targets e nbytes preferred blocklist prioritize existing w =
     (let sel = w_selector w
      in case nbytes of
           Some b \<Rightarrow> rbind (selected (select_rse (selecting e) b preferred 0 blocklist prioritize (existing b) sel))
             (\<lambda>(ts, sel'). Inr (ts, w\<lparr>w_selector := sel'\<rparr>))
         | None \<Rightarrow>
             (let rest = filter (\<lambda>t. t_id t \<notin> set blocklist) (sel_targets sel)
              in if int (length rest) < sel_copies sel then Inl (Selection InsufficientTargetRSEs)
                 else if rest = [] then Inr ([], w)
                 else Inl (Core rucio_error.TypeError)))"

text \<open>The targets of one file in turn; one on which the rule has a lock already is passed over. Returned with the state are the RSEs
  that got a lock.\<close>

fun lock_targets ::
  "apply_env \<Rightarrow> rule \<Rightarrow> did option \<Rightarrow> string list \<Rightarrow> (did \<rightharpoonup> string list) \<Rightarrow> file_entry \<Rightarrow> (string \<times> bool \<times> bool) list \<Rightarrow> work
     \<Rightarrow> apply_error + string list \<times> work" where
  "lock_targets e r ds source_rses source_replicas f [] w = Inr ([], w)"
| "lock_targets e r ds source_rses source_replicas f (t # ts) w =
     rbind (rule_locks_of w r (f_did f)) (\<lambda>ls.
       if length (filter (\<lambda>l. l_rse_id l = fst t) ls) = 1 then lock_targets e r ds source_rses source_replicas f ts w
       else rbind (create_lock_and_replica e r ds source_rses source_replicas f t w) (\<lambda>w1.
         rbind (lock_targets e r ds source_rses source_replicas f ts w1) (\<lambda>(used, w2). Inr (fst t # used, w2))))"

definition ensure_dataset_replica :: "did \<Rightarrow> string \<Rightarrow> work \<Rightarrow> work" where
  "ensure_dataset_replica k rse w =
     (if \<exists>c \<in> set (w_col_replicas w). (cr_scope c, cr_name c) = k \<and> cr_rse_id c = rse then w
      else w\<lparr>w_col_replicas := w_col_replicas w @
               [\<lparr>cr_scope = fst k, cr_name = snd k, cr_did_type = DATASET, cr_rse_id = rse, cr_bytes = 0, cr_length = 0,
                 cr_available_bytes = Some 0, cr_available_replicas_cnt = Some 0, cr_state = UNAVAILABLE\<rparr>],
             w_db := (w_db w)\<lparr>updated_col_rep := updated_col_rep (w_db w) @ [(k, DATASET, None)]\<rparr>\<rparr>)"

definition new_dataset_lock :: "rule \<Rightarrow> did \<Rightarrow> string \<Rightarrow> int option \<Rightarrow> int option \<Rightarrow> dataset_lock" where
  "new_dataset_lock r k rse len b = \<lparr>dl_scope = fst k, dl_name = snd k, dl_rule_id = r_id r, dl_rse_id = rse,
     dl_account = r_account r, dl_state = LockREPLICATING, dl_length = len, dl_bytes = b, dl_accessed_at = None\<rparr>"

definition dataset_locked :: "rule_db \<Rightarrow> rule \<Rightarrow> did \<Rightarrow> string \<Rightarrow> bool" where
  "dataset_locked d r k rse \<longleftrightarrow>
     (\<exists>l \<in> set (dataset_locks d). (dl_scope l, dl_name l) = k \<and> dl_rule_id l = r_id r \<and> dl_rse_id l = rse)"

definition ensure_dataset_lock :: "rule \<Rightarrow> did \<Rightarrow> string \<Rightarrow> work \<Rightarrow> work" where
  "ensure_dataset_lock r k rse w =
     (if dataset_locked (w_db w) r k rse then w
      else let size = (case get_did_row (w_db w) k of
                  Inl _ \<Rightarrow> (None, None)
                | Inr d \<Rightarrow> if d_open d = Some True then (None, None) else (d_length d, d_bytes d))
           in w\<lparr>w_db := (w_db w)\<lparr>dataset_locks := dataset_locks (w_db w) @
                  [new_dataset_lock r k rse (fst size) (snd size)]\<rparr>\<rparr>)"

text \<open>\<^verbatim>\<open>session.add_all(..); session.flush()\<close>.\<close>

definition flush :: "work \<Rightarrow> apply_error + work" where
  "flush w =
     (let ps = replicas (w_db w) @ w_new_replicas w;
          ls = locks (w_db w) @ w_new_locks w
      in if distinct (map p_key ps) \<and> distinct (map l_key ls)
         then Inr (w\<lparr>w_db := (w_db w)\<lparr>replicas := ps, locks := ls\<rparr>, w_new_replicas := [], w_new_locks := [],
           w_saved_replicas := w_saved_replicas w @ w_new_replicas w, w_saved_locks := w_saved_locks w @ w_new_locks w\<rparr>)
         else Inl IntegrityError)"

definition queue_transfers :: "apply_env \<Rightarrow> work \<Rightarrow> apply_error + work" where
  "queue_transfers e w =
     rbind (core (queue_requests (request_env.truncate e) (w_transfers w) (w_db w))) (\<lambda>(_, d).
       Inr (w\<lparr>w_db := d, w_transfers := []\<rparr>))"

text \<open>The counters grow by what was created, RSE by RSE in the order in which the RSEs came up.\<close>

definition book_counters :: "rule \<Rightarrow> work \<Rightarrow> apply_error + work" where
  "book_counters r w =
     (let ps = w_saved_replicas w;
          ls = w_saved_locks w;
          count_replicas = (\<lambda>rse. let bs = map p_bytes (filter (\<lambda>p. p_rse_id p = rse) ps)
            in increase rse (int (length bs), sum_list bs));
          count_locks = (\<lambda>rse. let bs = map (\<lambda>l. the (l_bytes l)) (filter (\<lambda>l. l_rse_id l = rse) ls)
            in account_increase (r_account r, rse) (int (length bs), sum_list bs))
      in if \<exists>l \<in> set ls. l_bytes l = None then Inl (Core rucio_error.TypeError)
         else Inr (w\<lparr>w_rse_counters := fold count_replicas (in_order (map p_rse_id ps)) (w_rse_counters w),
           w_db := (w_db w)\<lparr>account_counters := fold count_locks (in_order (map l_rse_id ls)) (account_counters (w_db w))\<rparr>,
           w_saved_replicas := [], w_saved_locks := []\<rparr>))"

section \<open>Applying a rule to files that were read before\<close>

record dataset_entry =
  ds_did :: "did option"
  ds_files :: "file_entry list"

definition is_present :: "replica \<Rightarrow> bool" where
  "is_present p \<longleftrightarrow> p_state p = AVAILABLE \<or> p_state p = COPYING \<or> p_state p = TEMPORARY_UNAVAILABLE"

definition being_deleted :: "replica list \<Rightarrow> string list" where
  "being_deleted ps = map p_rse_id (filter (\<lambda>p. p_state p = BEING_DELETED) ps)"

text \<open>Grouping \<^verbatim>\<open>NONE\<close>: a selection for every file.\<close>

definition file_none ::
  "apply_env \<Rightarrow> rule \<Rightarrow> did option \<Rightarrow> string list \<Rightarrow> string list \<Rightarrow> (did \<rightharpoonup> string list) \<Rightarrow> file_entry \<Rightarrow> string list \<times> work
     \<Rightarrow> apply_error + string list \<times> work" where
  "file_none e r ds preferred source_rses source_replicas f acc =
     (let (used, w) = acc
      in rbind (rule_locks_of w r (f_did f)) (\<lambda>ls.
           if int (length ls) = r_copies r then Inr acc
           else rbind (replicas_of w (f_did f)) (\<lambda>ps.
             let present = in_order (map p_rse_id (filter is_present ps))
             in rbind (select_targets e (f_bytes f) (if preferred = [] then present else preferred) (being_deleted ps) False
                    (\<lambda>b. map (\<lambda>rse. (rse, b)) present) w) (\<lambda>(ts, w1).
                  rbind (lock_targets e r ds source_rses source_replicas f ts w1) (\<lambda>(new, w2). Inr (used @ new, w2))))))"

definition dataset_none ::
  "apply_env \<Rightarrow> rule \<Rightarrow> string list \<Rightarrow> string list \<Rightarrow> (did \<rightharpoonup> string list) \<Rightarrow> dataset_entry \<Rightarrow> work \<Rightarrow> apply_error + work" where
  "dataset_none e r preferred source_rses source_replicas x w =
     rbind (rfold (file_none e r (ds_did x) preferred source_rses source_replicas) (ds_files x) ([], w)) (\<lambda>(used, w1).
       Inr (case ds_did x of None \<Rightarrow> w1 | Some k \<Rightarrow> fold (ensure_dataset_replica k) (remdups used) w1))"

text \<open>Groupings \<^verbatim>\<open>ALL\<close> and \<^verbatim>\<open>DATASET\<close>: the size of a group of files, what the RSEs hold of it, and the RSEs on which one of its
  replicas is being deleted.\<close>

fun coverage :: "work \<Rightarrow> file_entry list \<Rightarrow> int \<times> usage \<times> string list \<Rightarrow> apply_error + int \<times> usage \<times> string list" where
  "coverage w [] acc = Inr acc"
| "coverage w (f # fs) (n, covered, blocked) =
     (case f_bytes f of
        None \<Rightarrow> Inl (Core rucio_error.TypeError)
      | Some b \<Rightarrow> rbind (replicas_of w (f_did f)) (\<lambda>ps. coverage w fs
          (n + b, fold (\<lambda>p m. AList.update (p_rse_id p) (used m (p_rse_id p) + b) m) (filter is_present ps) covered,
           blocked @ being_deleted ps)))"

text \<open>\<^verbatim>\<open>sorted(rse_coverage.items(), key=lambda tup: tup[1], reverse=True)\<close> keeps the order of equal entries.\<close>

definition best_covered :: "usage \<Rightarrow> string list" where
  "best_covered covered = map fst (sort_key (\<lambda>x. - snd x) covered)"

definition select_group ::
  "apply_env \<Rightarrow> string list \<Rightarrow> file_entry list \<Rightarrow> work \<Rightarrow> apply_error + (string \<times> bool \<times> bool) list \<times> work" where
  "select_group e preferred fs w =
     rbind (coverage w fs (0, [], [])) (\<lambda>(n, covered, blocked).
       if preferred = [] then select_targets e (Some n) (best_covered covered) blocked True (\<lambda>_. covered) w
       else select_targets e (Some n) preferred blocked False (\<lambda>_. covered) w)"

definition group_file ::
  "apply_env \<Rightarrow> rule \<Rightarrow> did option \<Rightarrow> string list \<Rightarrow> (did \<rightharpoonup> string list) \<Rightarrow> string \<times> bool \<times> bool \<Rightarrow> file_entry \<Rightarrow> work
     \<Rightarrow> apply_error + work" where
  "group_file e r ds source_rses source_replicas t f w =
     rbind (rule_locks_of w r (f_did f)) (\<lambda>ls.
       if int (length ls) = r_copies r then Inr w
       else rbind (lock_targets e r ds source_rses source_replicas f [t] w) (\<lambda>(_, w1). Inr w1))"

definition group_dataset ::
  "apply_env \<Rightarrow> rule \<Rightarrow> string list \<Rightarrow> (did \<rightharpoonup> string list) \<Rightarrow> string \<times> bool \<times> bool \<Rightarrow> dataset_entry \<Rightarrow> work \<Rightarrow> apply_error + work" where
  "group_dataset e r source_rses source_replicas t x w =
     rbind (rfold (group_file e r (ds_did x) source_rses source_replicas t) (ds_files x) w) (\<lambda>w1.
       Inr (case ds_did x of None \<Rightarrow> w1 | Some k \<Rightarrow> ensure_dataset_replica k (fst t) (ensure_dataset_lock r k (fst t) w1)))"

definition apply_rule_to_files_none_grouping ::
  "apply_env \<Rightarrow> rule \<Rightarrow> dataset_entry list \<Rightarrow> string list \<Rightarrow> string list \<Rightarrow> (did \<rightharpoonup> string list) \<Rightarrow> work \<Rightarrow> apply_error + work" where
  "apply_rule_to_files_none_grouping e r xs preferred source_rses source_replicas w =
     rfold (dataset_none e r preferred source_rses source_replicas) xs w"

definition apply_rule_to_files_all_grouping ::
  "apply_env \<Rightarrow> rule \<Rightarrow> dataset_entry list \<Rightarrow> string list \<Rightarrow> string list \<Rightarrow> (did \<rightharpoonup> string list) \<Rightarrow> work \<Rightarrow> apply_error + work" where
  "apply_rule_to_files_all_grouping e r xs preferred source_rses source_replicas w =
     rbind (select_group e preferred (concat (map ds_files xs)) w) (\<lambda>(ts, w1).
       rfold (\<lambda>t. rfold (group_dataset e r source_rses source_replicas t) xs) ts w1)"

definition apply_rule_to_files_dataset_grouping ::
  "apply_env \<Rightarrow> rule \<Rightarrow> dataset_entry list \<Rightarrow> string list \<Rightarrow> string list \<Rightarrow> (did \<rightharpoonup> string list) \<Rightarrow> work \<Rightarrow> apply_error + work" where
  "apply_rule_to_files_dataset_grouping e r xs preferred source_rses source_replicas w =
     rfold (\<lambda>x w. rbind (select_group e preferred (ds_files x) w) (\<lambda>(ts, w1).
       rfold (\<lambda>t. group_dataset e r source_rses source_replicas t x) ts w1)) xs w"

definition apply_rule_grouping ::
  "apply_env \<Rightarrow> rule \<Rightarrow> dataset_entry list \<Rightarrow> string list \<Rightarrow> string list \<Rightarrow> (did \<rightharpoonup> string list) \<Rightarrow> work \<Rightarrow> apply_error + work" where
  "apply_rule_grouping e r xs preferred source_rses source_replicas w =
     (case r_grouping r of
        GroupNONE \<Rightarrow> apply_rule_to_files_none_grouping e r xs preferred source_rses source_replicas w
      | GroupALL \<Rightarrow> apply_rule_to_files_all_grouping e r xs preferred source_rses source_replicas w
      | GroupDATASET \<Rightarrow> apply_rule_to_files_dataset_grouping e r xs preferred source_rses source_replicas w)"

text \<open>\<^verbatim>\<open>__create_locks_replicas_transfers\<close> of \<^verbatim>\<open>core/rule.py\<close>.\<close>

definition create_locks_replicas_transfers ::
  "apply_env \<Rightarrow> rule \<Rightarrow> dataset_entry list \<Rightarrow> string list \<Rightarrow> string list \<Rightarrow> (did \<rightharpoonup> string list) \<Rightarrow> work \<Rightarrow> apply_error + work" where
  "create_locks_replicas_transfers e r xs preferred source_rses source_replicas w =
     rbind (apply_rule_grouping e r xs preferred source_rses source_replicas w) (\<lambda>w1.
       rbind (flush w1) (\<lambda>w2. rbind (book_counters r w2) (queue_transfers e)))"

section \<open>Applying a new rule to a DID\<close>

text \<open>\<^verbatim>\<open>apply_rule\<close>. The dictionaries are read again for every part of a dataset.\<close>

definition read_files :: "(did \<rightharpoonup> replica_lock list) \<Rightarrow> (did \<rightharpoonup> string list) \<Rightarrow> work \<Rightarrow> work" where
  "read_files ls reps w = w\<lparr>w_locks := ls, w_replicas := (\<lambda>k. map_option (map Row) (reps k))\<rparr>"

definition save_files :: "apply_env \<Rightarrow> work \<Rightarrow> apply_error + work" where
  "save_files e w = rbind (flush w) (queue_transfers e)"

definition apply_rule_file ::
  "apply_env \<Rightarrow> rule \<Rightarrow> did_row \<Rightarrow> string list \<Rightarrow> string list \<Rightarrow> work \<Rightarrow> apply_error + work" where
  "apply_rule_file e r d rs source_rses w =
     (let k = did_of d;
          f = \<lparr>f_did = k, f_bytes = d_bytes d, f_md5 = d_md5 d, f_adler32 = d_adler32 d\<rparr>;
          covered = map p_rse_id (get_and_lock_file_replicas (w_db w) k (Some rs));
          w1 = read_files [k \<mapsto> get_replica_locks (w_db w) k (Some rs)] [k \<mapsto> covered] w;
          source_replicas = (if source_rses = [] then Map.empty else [k \<mapsto> get_source_replicas (w_db w) k (Some source_rses)])
      in rbind (select_targets e (f_bytes f) (in_order covered) [] True (\<lambda>b. map (\<lambda>rse. (rse, b)) covered) w1) (\<lambda>(ts, w2).
           rbind (lock_targets e r None source_rses source_replicas f ts w2) (\<lambda>(_, w3). save_files e w3)))"

text \<open>One file of a dataset. \<open>used_rses\<close> are the RSEs used so far under grouping \<^verbatim>\<open>NONE\<close>, \<open>ts\<close> the targets of the last selection.\<close>

definition apply_file ::
  "apply_env \<Rightarrow> rule \<Rightarrow> did \<Rightarrow> string list \<Rightarrow> (did \<rightharpoonup> string list) \<Rightarrow> file_entry \<Rightarrow> (string \<times> bool \<times> bool) list \<times> string list \<times> work
     \<Rightarrow> apply_error + (string \<times> bool \<times> bool) list \<times> string list \<times> work" where
  "apply_file e r k source_rses source_replicas f acc =
     (let (ts, used_rses, w) = acc
      in rbind (rule_locks_of w r (f_did f)) (\<lambda>ls.
           if int (length ls) = r_copies r then Inr acc
           else rbind
             (if r_grouping r = GroupNONE then
                rbind (replicas_of w (f_did f)) (\<lambda>ps.
                  rbind (select_targets e (f_bytes f) (in_order (map p_rse_id ps)) [] True (\<lambda>b. map (\<lambda>p. (p_rse_id p, b)) ps) w) (\<lambda>(ts', w').
                    Inr (ts', in_order (used_rses @ map fst ts'), w')))
              else Inr (ts, used_rses, w)) (\<lambda>(ts1, used1, w1).
             rbind (lock_targets e r (Some k) source_rses source_replicas f ts1 w1) (\<lambda>(_, w2). Inr (ts1, used1, w2)))))"

definition apply_partition ::
  "apply_env \<Rightarrow> rule \<Rightarrow> did \<Rightarrow> string list \<Rightarrow> string list \<Rightarrow> nat \<Rightarrow> nat \<Rightarrow> (string \<times> bool \<times> bool) list \<times> string list \<times> work
     \<Rightarrow> apply_error + (string \<times> bool \<times> bool) list \<times> string list \<times> work" where
  "apply_partition e r k rs source_rses npartitions p acc =
     (let (ts, used_rses, w) = acc;
          d = w_db w;
          mine = in_thread (db_dialect e) (name_hashes e) (Some npartitions) (Some p);
          pg = (db_dialect e = PostgreSQL);
          (files, reps) = get_and_lock_file_replicas_for_dataset pg d k (Some rs) mine;
          ls = get_files_and_replica_locks_of_dataset pg d k (Some rs) False mine;
          source_replicas = (if source_rses = [] then Map.empty else get_source_replicas_for_dataset d k (Some source_rses) mine)
      in rbind (rfold (apply_file e r k source_rses source_replicas) files (ts, used_rses, read_files ls reps w)) (\<lambda>(ts1, used1, w1).
           rbind (save_files e w1) (\<lambda>w2. Inr (ts1, used1, w2))))"

definition add_dataset_lock :: "rule \<Rightarrow> did \<Rightarrow> int option \<Rightarrow> int option \<Rightarrow> string \<Rightarrow> work \<Rightarrow> apply_error + work" where
  "add_dataset_lock r k len b rse w =
     (if dataset_locked (w_db w) r k rse then Inl IntegrityError
      else Inr (w\<lparr>w_db := (w_db w)\<lparr>dataset_locks := dataset_locks (w_db w) @ [new_dataset_lock r k rse len b]\<rparr>\<rparr>))"

definition get_dataset :: "rule_db \<Rightarrow> did \<Rightarrow> apply_error + bool option \<times> int \<times> int" where
  "get_dataset d k = rbind (core (get_did_resolved d k FILE)) (\<lambda>(x, b, n).
     if d_type x = FILE then Inl (Core KeyError) else Inr (d_open x, b, n))"

definition apply_dataset ::
  "apply_env \<Rightarrow> rule \<Rightarrow> string list \<Rightarrow> string list \<Rightarrow> did \<Rightarrow> (string \<times> bool \<times> bool) list \<times> string list \<times> work
     \<Rightarrow> apply_error + (string \<times> bool \<times> bool) list \<times> string list \<times> work" where
  "apply_dataset e r rs source_rses k acc =
     (let (ts, used_rses, w) = acc
      in rbind (get_dataset (w_db w) k) (\<lambda>(is_open, ds_bytes, ds_length).
           let npartitions = nat ds_length div max_partition_size e + 1;
               (len, b) = (if is_open = Some True then (None, None) else (Some ds_length, Some ds_bytes))
           in rbind
             (if r_grouping r = GroupDATASET then
                (let covered = get_rse_coverage_of_dataset (w_db w) k
                 in rbind (select_targets e (Some ds_bytes) (best_covered covered) [] True (\<lambda>_. covered) w) (\<lambda>(ts', w'). Inr (ts', used_rses, w')))
              else Inr acc) (\<lambda>acc1.
             rbind (rfold (apply_partition e r k rs source_rses npartitions) [0..<npartitions] acc1) (\<lambda>(ts2, used2, w2).
               rbind (rfold (\<lambda>rse w. rbind (if r_grouping r = GroupNONE then Inr w else add_dataset_lock r k len b rse w)
                   (\<lambda>w'. Inr (ensure_dataset_replica k rse w')))
                 (if r_grouping r = GroupNONE then used2 else map fst ts2) w2) (\<lambda>w3. Inr (ts2, used2, w3))))))"

text \<open>Grouping \<^verbatim>\<open>ALL\<close>: the datasets are summed up one by one, files that they share counted again.\<close>

fun container_coverage :: "rule_db \<Rightarrow> did list \<Rightarrow> int \<times> usage \<Rightarrow> apply_error + int \<times> usage" where
  "container_coverage d [] acc = Inr acc"
| "container_coverage d (k # ks) (n, covered) =
     rbind (core (get_did_resolved d k FILE)) (\<lambda>(_, b, _). container_coverage d ks
       (n + b, fold (\<lambda>(rse, m) h. AList.update rse (m + used h rse) h) (get_rse_coverage_of_dataset d k) covered))"

definition apply_datasets ::
  "apply_env \<Rightarrow> rule \<Rightarrow> did list \<Rightarrow> string list \<Rightarrow> string list \<Rightarrow> work \<Rightarrow> apply_error + work" where
  "apply_datasets e r ks rs source_rses w =
     rbind
       (if r_grouping r = GroupALL then
          rbind (container_coverage (w_db w) ks (0, [])) (\<lambda>(n, covered).
            select_targets e (Some n) (best_covered covered) [] True (\<lambda>_. covered) w)
        else Inr ([], w)) (\<lambda>(ts, w1).
       rbind (rfold (apply_dataset e r rs source_rses) ks (ts, [], w1)) (\<lambda>(_, _, w2). Inr w2))"

definition datasets_of :: "rule_db \<Rightarrow> did_row \<Rightarrow> did list" where
  "datasets_of d x =
     (let ks = (if d_type x = DATASET then [did_of x]
                else if d_type x = CONTAINER then in_order (list_child_datasets d (did_of x)) else [])
      in sort_key (\<lambda>k. (fst (fst k), snd k)) ks)"

definition apply_rule :: "apply_env \<Rightarrow> rule \<Rightarrow> did_row \<Rightarrow> string list \<Rightarrow> string list \<Rightarrow> work \<Rightarrow> apply_error + work" where
  "apply_rule e r d rs source_rses w =
     rbind
       (if d_type d = FILE then apply_rule_file e r d rs source_rses w
        else apply_datasets e r (datasets_of (w_db w) d) rs source_rses w)
       (book_counters r)"

end
