(* ===== verification/Rule_Application.thy ===== *)
theory Rule_Application
  imports Rule_Grouping
begin

text \<open>
  What the application of a rule keeps. The first section proves once, for every relation that the single steps respect, that the
  loops over files, parts, datasets and targets respect it; the next ones interpret it: the counters of rules and replicas
  stay exact, and the selector stays well formed.
\<close>

section \<open>Relations that all steps respect\<close>

lemma lock_targets_ConsE:
  assumes "lock_targets e r ds source_rses source_replicas f (t # ts) w = Inr (u, w')"
  obtains (present) ls where "rule_locks_of w r (f_did f) = Inr ls" and "length (filter (\<lambda>l. l_rse_id l = fst t) ls) = 1"
      and "lock_targets e r ds source_rses source_replicas f ts w = Inr (u, w')"
    | (created) ls w1 u' where "rule_locks_of w r (f_did f) = Inr ls" and "length (filter (\<lambda>l. l_rse_id l = fst t) ls) \<noteq> 1"
      and "create_lock_and_replica e r ds source_rses source_replicas f t w = Inr w1"
      and "lock_targets e r ds source_rses source_replicas f ts w1 = Inr (u', w')" and "u = fst t # u'"
proof -
  from assms obtain ls where ls: "rule_locks_of w r (f_did f) = Inr ls" by (auto simp: rbind_eq_Inr)
  show thesis
  proof (cases "length (filter (\<lambda>l. l_rse_id l = fst t) ls) = 1")
    case True
    with assms ls present show thesis by simp
  next
    case False
    with assms ls obtain w1 u' where "create_lock_and_replica e r ds source_rses source_replicas f t w = Inr w1"
      and "lock_targets e r ds source_rses source_replicas f ts w1 = Inr (u', w')" and "u = fst t # u'"
      by (auto simp: rbind_eq_Inr)
    with ls False created show thesis by blast
  qed
qed

locale work_steps =
  fixes R :: "work \<Rightarrow> work \<Rightarrow> bool" and e :: apply_env and r :: rule
  assumes refl: "R w w"
    and trans: "R w w' \<Longrightarrow> R w' w'' \<Longrightarrow> R w w''"
    and lock: "create_lock_and_replica e r ds source_rses source_replicas f t w = Inr w' \<Longrightarrow> R w w'"
    and select: "select_targets e n preferred blocklist prioritize existing w = Inr (ts, w') \<Longrightarrow> R w w'"
    and dataset_replica: "R w (ensure_dataset_replica k rse w)"
    and dataset_lock: "R w (ensure_dataset_lock r k rse w)"
    and new_lock_row: "add_dataset_lock r k len b rse w = Inr w' \<Longrightarrow> R w w'"
    and read: "R w (read_files ls reps w)"
    and flushed: "flush w = Inr w' \<Longrightarrow> R w w'"
    and queued: "queue_transfers e w = Inr w' \<Longrightarrow> R w w'"
    and booked: "book_counters r w = Inr w' \<Longrightarrow> R w w'"
begin

lemma loop:
  assumes "rfold f xs w = Inr w'" and "\<And>x w w'. x \<in> set xs \<Longrightarrow> f x w = Inr w' \<Longrightarrow> R w w'"
  shows "R w w'"
  by (rule rfold_invariant [OF assms(1), of "R w"]) (blast intro: refl trans assms(2))+

text \<open>A loop whose state carries the work state at its end.\<close>

lemma loop_in:
  assumes "rfold f xs s = Inr s'" and "\<And>x s s'. x \<in> set xs \<Longrightarrow> f x s = Inr s' \<Longrightarrow> R (g s) (g s')"
  shows "R (g s) (g s')"
  by (rule rfold_invariant [OF assms(1), of "\<lambda>t. R (g s) (g t)"]) (blast intro: refl trans assms(2))+

lemma folded: "(\<And>x w. R w (f x w)) \<Longrightarrow> R w (fold f xs w)"
  by (induction xs arbitrary: w) (auto intro: refl trans)

lemma targets: "lock_targets e r ds source_rses source_replicas f ts w = Inr (used_rses, w') \<Longrightarrow> R w w'"
proof (induction ts arbitrary: w used_rses)
  case Nil
  then show ?case by (simp add: refl)
next
  case (Cons t ts)
  from Cons.prems show ?case
    by (cases rule: lock_targets_ConsE) (blast intro: lock Cons.IH trans)+
qed

lemma none_file:
  assumes "file_none e r ds preferred source_rses source_replicas f (u, w) = Inr (u', w')"
  shows "R w w'"
proof -
  from assms obtain ls where "rule_locks_of w r (f_did f) = Inr ls"
    by (auto simp: file_none_def)
  show ?thesis
  proof (cases "int (length ls) = r_copies r")
    case True
    with assms \<open>rule_locks_of w r (f_did f) = Inr ls\<close> show ?thesis by (simp add: file_none_def refl)
  next
    case False
    with assms \<open>rule_locks_of w r (f_did f) = Inr ls\<close> obtain ps ts w1 new where
      "select_targets e (f_bytes f) (if preferred = [] then in_order (map p_rse_id (filter is_present ps)) else preferred)
         (being_deleted ps) False (\<lambda>b. map (\<lambda>rse. (rse, b)) (in_order (map p_rse_id (filter is_present ps)))) w = Inr (ts, w1)"
      and "lock_targets e r ds source_rses source_replicas f ts w1 = Inr (new, w')"
      by (auto simp: file_none_def rbind_eq_Inr Let_def split: prod.splits)
    then show ?thesis by (blast intro: select targets trans)
  qed
qed

lemma none_dataset: "dataset_none e r preferred source_rses source_replicas x w = Inr w' \<Longrightarrow> R w w'"
proof -
  assume "dataset_none e r preferred source_rses source_replicas x w = Inr w'"
  then obtain u w1 where run: "rfold (file_none e r (ds_did x) preferred source_rses source_replicas) (ds_files x) ([], w) = Inr (u, w1)"
    and w': "w' = (case ds_did x of None \<Rightarrow> w1 | Some k \<Rightarrow> fold (ensure_dataset_replica k) (remdups u) w1)"
    by (auto simp: dataset_none_def rbind_eq_Inr)
  have "R w w1"
    by (rule loop_in [OF run, where g = snd, simplified]) (auto elim: none_file)
  moreover have "R w1 w'" unfolding w' by (cases "ds_did x") (auto intro: refl folded dataset_replica)
  ultimately show ?thesis by (auto intro: trans)
qed

lemma group_select: "select_group e preferred fs w = Inr (ts, w') \<Longrightarrow> R w w'"
  by (auto simp: select_group_def rbind_eq_Inr split: if_splits intro: select)

lemma file_in_group: "group_file e r ds source_rses source_replicas t f w = Inr w' \<Longrightarrow> R w w'"
  by (force simp: group_file_def rbind_eq_Inr simp del: lock_targets.simps split: if_splits intro: refl targets)

lemma dataset_in_group: "group_dataset e r source_rses source_replicas t x w = Inr w' \<Longrightarrow> R w w'"
proof -
  assume "group_dataset e r source_rses source_replicas t x w = Inr w'"
  then obtain w1 where run: "rfold (group_file e r (ds_did x) source_rses source_replicas t) (ds_files x) w = Inr w1"
    and w': "w' = (case ds_did x of None \<Rightarrow> w1 | Some k \<Rightarrow> ensure_dataset_replica k (fst t) (ensure_dataset_lock r k (fst t) w1))"
    by (auto simp: group_dataset_def rbind_eq_Inr)
  have "R w w1" by (rule loop [OF run]) (rule file_in_group)
  moreover have "R w1 w'" unfolding w'
    by (cases "ds_did x") (auto intro: refl trans [OF dataset_lock dataset_replica])
  ultimately show ?thesis by (rule trans)
qed

lemma grouping: "apply_rule_grouping e r xs preferred source_rses source_replicas w = Inr w' \<Longrightarrow> R w w'"
proof (cases "r_grouping r")
  case GroupNONE
  assume "apply_rule_grouping e r xs preferred source_rses source_replicas w = Inr w'"
  with GroupNONE have run: "rfold (dataset_none e r preferred source_rses source_replicas) xs w = Inr w'"
    by (simp add: apply_rule_grouping_def apply_rule_to_files_none_grouping_def)
  show ?thesis by (rule loop [OF run]) (rule none_dataset)
next
  case GroupALL
  assume "apply_rule_grouping e r xs preferred source_rses source_replicas w = Inr w'"
  with GroupALL obtain ts w1 where s: "select_group e preferred (concat (map ds_files xs)) w = Inr (ts, w1)"
    and run: "rfold (\<lambda>t. rfold (group_dataset e r source_rses source_replicas t) xs) ts w1 = Inr w'"
    by (auto simp: apply_rule_grouping_def apply_rule_to_files_all_grouping_def rbind_eq_Inr)
  have "R w1 w'" by (rule loop [OF run]) (blast intro: loop dataset_in_group)
  with group_select [OF s] show ?thesis by (rule trans)
next
  case GroupDATASET
  assume "apply_rule_grouping e r xs preferred source_rses source_replicas w = Inr w'"
  with GroupDATASET have run: "rfold (\<lambda>x w. rbind (select_group e preferred (ds_files x) w) (\<lambda>(ts, w1).
       rfold (\<lambda>t. group_dataset e r source_rses source_replicas t x) ts w1)) xs w = Inr w'"
    by (simp add: apply_rule_grouping_def apply_rule_to_files_dataset_grouping_def)
  show ?thesis
    by (rule loop [OF run]) (auto simp: rbind_eq_Inr intro: trans [OF group_select loop] dataset_in_group)
qed

lemma created: "create_locks_replicas_transfers e r xs preferred source_rses source_replicas w = Inr w' \<Longrightarrow> R w w'"
  by (auto simp: create_locks_replicas_transfers_def rbind_eq_Inr intro: trans [OF grouping trans [OF flushed trans [OF booked queued]]])

lemma saved: "save_files e w = Inr w' \<Longrightarrow> R w w'"
  by (auto simp: save_files_def rbind_eq_Inr intro: trans [OF flushed queued])

lemma applied_file: "apply_rule_file e r d rs source_rses w = Inr w' \<Longrightarrow> R w w'"
  by (auto simp: apply_rule_file_def Let_def rbind_eq_Inr simp del: lock_targets.simps
      intro: trans [OF read trans [OF select trans [OF targets saved]]])

lemma applied_dataset_file:
  assumes "apply_file e r k source_rses source_replicas f (ts, u, w) = Inr (ts', u', w')"
  shows "R w w'"
proof -
  from assms obtain ls where ls: "rule_locks_of w r (f_did f) = Inr ls" by (auto simp: apply_file_def rbind_eq_Inr)
  show ?thesis
  proof (cases "int (length ls) = r_copies r")
    case True
    with assms ls show ?thesis by (simp add: apply_file_def refl)
  next
    case False
    with assms ls obtain ts1 u1 w1 u2 where
      sel: "(if r_grouping r = GroupNONE then
          rbind (replicas_of w (f_did f)) (\<lambda>ps.
            rbind (select_targets e (f_bytes f) (in_order (map p_rse_id ps)) [] True (\<lambda>b. map (\<lambda>p. (p_rse_id p, b)) ps) w) (\<lambda>(ts', w').
              Inr (ts', in_order (u @ map fst ts'), w')))
        else Inr (ts, u, w)) = Inr (ts1, u1, w1)"
      and t: "lock_targets e r (Some k) source_rses source_replicas f ts1 w1 = Inr (u2, w')"
      by (auto simp: apply_file_def rbind_eq_Inr simp del: lock_targets.simps)
    have "R w w1" using sel by (auto simp: rbind_eq_Inr split: if_splits intro: refl select)
    then show ?thesis using t by (blast intro: targets trans)
  qed
qed

lemma applied_partition:
  assumes "apply_partition e r k rs source_rses n p (ts, u, w) = Inr (ts', u', w')"
  shows "R w w'"
proof -
  let ?mine = "in_thread (db_dialect e) (name_hashes e) (Some n) (Some p)"
  let ?ls = "get_files_and_replica_locks_of_dataset (db_dialect e = PostgreSQL) (w_db w) k (Some rs) False ?mine"
  obtain files reps where q: "get_and_lock_file_replicas_for_dataset (db_dialect e = PostgreSQL) (w_db w) k (Some rs) ?mine = (files, reps)"
    by (cases "get_and_lock_file_replicas_for_dataset (db_dialect e = PostgreSQL) (w_db w) k (Some rs) ?mine")
  from assms obtain source_replicas w2 where
    run: "rfold (apply_file e r k source_rses source_replicas) files (ts, u, read_files ?ls reps w) = Inr (ts', u', w2)"
    and save: "save_files e w2 = Inr w'"
    by (auto simp: apply_partition_def Let_def rbind_eq_Inr q)
  have "R (read_files ?ls reps w) w2"
    by (rule loop_in [OF run, where g = "\<lambda>s. snd (snd s)", simplified]) (auto elim: applied_dataset_file)
  then show ?thesis using read saved [OF save] by (blast intro: trans)
qed

lemma applied_dataset:
  assumes "apply_dataset e r rs source_rses k (ts, u, w) = Inr (ts', u', w')"
  shows "R w w'"
proof -
  from assms obtain n len b acc1 w2 where
    sel: "(if r_grouping r = GroupDATASET then
         rbind (select_targets e (Some b) (best_covered (get_rse_coverage_of_dataset (w_db w) k)) [] True (\<lambda>_. get_rse_coverage_of_dataset (w_db w) k) w)
           (\<lambda>(ts', w'). Inr (ts', u, w'))
       else Inr (ts, u, w)) = Inr acc1"
    and parts: "rfold (apply_partition e r k rs source_rses n) [0..<n] acc1 = Inr (ts', u', w2)"
    and rows: "rfold (\<lambda>rse w. rbind (if r_grouping r = GroupNONE then Inr w else add_dataset_lock r k (fst len) (snd len) rse w)
        (\<lambda>w'. Inr (ensure_dataset_replica k rse w'))) (if r_grouping r = GroupNONE then u' else map fst ts') w2 = Inr w'"
    by (auto simp: apply_dataset_def Let_def rbind_eq_Inr simp del: upt_Suc split: prod.splits if_splits)
  have "R w (snd (snd acc1))" using sel by (auto simp: rbind_eq_Inr split: if_splits intro: refl select)
  moreover have "R (snd (snd acc1)) (snd (snd (ts', u', w2)))"
    by (rule loop_in [OF parts]) (auto elim: applied_partition)
  moreover have "R w2 w'"
    by (rule loop [OF rows]) (auto simp: rbind_eq_Inr split: if_splits intro: dataset_replica trans [OF new_lock_row dataset_replica])
  ultimately show ?thesis by (auto intro: trans)
qed

lemma applied_datasets: "apply_datasets e r ks rs source_rses w = Inr w' \<Longrightarrow> R w w'"
proof -
  assume "apply_datasets e r ks rs source_rses w = Inr w'"
  then obtain ts w1 ts' u' where sel: "(if r_grouping r = GroupALL then
        rbind (container_coverage (w_db w) ks (0, [])) (\<lambda>(n, covered).
          select_targets e (Some n) (best_covered covered) [] True (\<lambda>_. covered) w)
      else Inr ([], w)) = Inr (ts, w1)"
    and run: "rfold (apply_dataset e r rs source_rses) ks (ts, [], w1) = Inr (ts', u', w')"
    by (auto simp: apply_datasets_def rbind_eq_Inr split: prod.splits)
  have "R w w1" using sel by (auto simp: rbind_eq_Inr split: if_splits intro: refl select)
  moreover have "R (snd (snd (ts, [] :: string list, w1))) (snd (snd (ts', u', w')))"
    by (rule loop_in [OF run]) (auto elim: applied_dataset)
  ultimately show ?thesis by (auto intro: trans)
qed

lemma applied: "apply_rule e r d rs source_rses w = Inr w' \<Longrightarrow> R w w'"
  by (auto simp: apply_rule_def rbind_eq_Inr split: if_splits
      intro: trans [OF applied_file booked] trans [OF applied_datasets booked])

end

section \<open>Exact counters\<close>

text \<open>The catalogue with the new objects in it, and the locks of which every one has its replica.\<close>

definition pending :: "work \<Rightarrow> rule_db" where
  "pending w = (w_db w)\<lparr>replicas := replicas (w_db w) @ w_new_replicas w, locks := locks (w_db w) @ w_new_locks w\<rparr>"

definition keys_ok :: "work \<Rightarrow> bool" where
  "keys_ok w \<longleftrightarrow> distinct (map p_key (replicas (pending w))) \<and> distinct (map l_key (locks (pending w)))"

definition backed :: "rule_db \<Rightarrow> bool" where
  "backed d \<longleftrightarrow> (\<forall>l \<in> set (locks d). l_replica l \<in> p_key ` set (replicas d))"

definition exact :: "rule_db \<Rightarrow> bool" where
  "exact d \<longleftrightarrow> ledger_ok d \<and> backed d"

lemma pending_sel [simp]:
  "rules (pending w) = rules (w_db w)" "replicas (pending w) = replicas (w_db w) @ w_new_replicas w"
  "locks (pending w) = locks (w_db w) @ w_new_locks w"
  by (simp_all add: pending_def)

definition bump :: "did \<times> string \<Rightarrow> (did \<times> string) \<times> int \<Rightarrow> (did \<times> string) \<times> int" where
  "bump k v = (fst v, snd v + (if fst v = k then 1 else 0))"

lemma ledger_ok_lock_added:
  assumes ok: "ledger_ok d" and id: "l_rule_id l \<in> r_id ` set (rules d)"
    and rules: "rules d' = upd_where (\<lambda>x. r_id x = l_rule_id l) (add_cnt (l_state l) 1) (rules d)"
    and locks: "locks d' = locks d @ [l]" and keys: "distinct (map l_key (locks d'))"
    and reps: "rep_views d' = map (bump (l_replica l)) (rep_views d)"
  shows "ledger_ok d'"
proof -
  have ids: "map fst (cnt_views d') = map fst (cnt_views d)"
    by (auto simp: cnt_views_def rules upd_where_def)
  have "\<forall>(i, c) \<in> set (cnt_views d'). \<forall>s. c s = lock_total (locks d') i s"
  proof (clarify)
    fix i c s assume "(i, c) \<in> set (cnt_views d')"
    then obtain x where x: "x \<in> set (rules d)" and v: "(i, c) = cnt_view (if r_id x = l_rule_id l then add_cnt (l_state l) 1 x else x)"
      by (auto simp: cnt_views_def rules upd_where_def)
    have "lock_cnt_of s x = lock_total (locks d) (r_id x) s" by (rule ledger_ok_rule [OF ok x])
    then show "c s = lock_total (locks d') i s"
      using v by (auto simp: cnt_view_def locks lock_total_def cnt_of_add split: if_splits)
  qed
  moreover have "\<forall>(k, n) \<in> set (rep_views d'). n = replica_total (locks d') k"
    using ok by (auto simp: reps bump_def ledger_ok_def replica_total_def locks)
  moreover have "map fst (rep_views d') = map fst (rep_views d)" by (simp add: reps bump_def)
  moreover have "\<forall>k \<in> set (locks d'). l_rule_id k \<in> fst ` set (cnt_views d')"
  proof -
    have "fst ` set (cnt_views d') = r_id ` set (rules d)"
      using arg_cong [OF ids, of set] by (auto simp: cnt_views_def image_image)
    moreover have "fst ` set (cnt_views d) = r_id ` set (rules d)" by (auto simp: cnt_views_def image_image)
    ultimately show ?thesis using ok id by (auto simp: ledger_ok_def locks)
  qed
  ultimately show ?thesis using ok keys ids by (simp add: ledger_ok_def)
qed

lemma exact_replica_added:
  assumes ex: "exact d" and p: "p_key p \<notin> p_key ` set (replicas d)" "p_lock_cnt p = 0"
    and d': "rules d' = rules d" "locks d' = locks d" "replicas d' = replicas d @ [p]"
  shows "exact d'"
proof -
  have "replica_total (locks d) (p_key p) = 0"
    using ex p(1) by (simp add: exact_def backed_def replica_total_def) metis
  then have "ledger_ok d'"
    using ex p by (auto simp: exact_def ledger_ok_def cnt_views_def rep_views_def d' rep_view_def)
  then show ?thesis using ex by (auto simp: exact_def backed_def d')
qed

text \<open>A reference to an object of the session hits one row.\<close>

lemma find_new_key: "find (\<lambda>p. p_key p = x) ps = Some p \<Longrightarrow> x \<in> p_key ` set ps"
  by (auto simp: find_Some_iff)

lemma locked_replica_sel [simp]:
  "p_key (locked_replica s p) = p_key p" "p_lock_cnt (locked_replica s p) = p_lock_cnt p + 1"
  by (simp_all add: locked_replica_def p_key_def)

lemma upd_where_no_key: "x \<notin> p_key ` set ps \<Longrightarrow> upd_where (\<lambda>p. p_key p = x) g ps = ps"
  by (rule upd_where_none) auto

lemma set_replica_pending:
  assumes "ref_replica w k ref = Some p" and "distinct (map p_key (replicas (pending w)))"
  shows "replicas (pending (set_replica k ref g w)) = upd_where (\<lambda>p. p_key p = (k, ref_rse ref)) g (replicas (pending w))"
    and "rules (pending (set_replica k ref g w)) = rules (pending w)"
    and "locks (pending (set_replica k ref g w)) = locks (pending w)"
proof -
  have "replicas (pending (set_replica k ref g w)) = upd_where (\<lambda>p. p_key p = (k, ref_rse ref)) g (replicas (pending w)) \<and>
      rules (pending (set_replica k ref g w)) = rules (pending w) \<and> locks (pending (set_replica k ref g w)) = locks (pending w)"
  proof (cases ref)
    case (Row rse)
    with assms(1) have "(k, rse) \<in> p_key ` set (replicas (w_db w))" by (simp add: find_new_key)
    then have "(k, rse) \<notin> p_key ` set (w_new_replicas w)" using assms(2) by auto
    then show ?thesis using Row by (simp add: upd_where_no_key)
  next
    case (New rse)
    with assms(1) have "(k, rse) \<in> p_key ` set (w_new_replicas w)" by (simp add: find_new_key)
    then have "(k, rse) \<notin> p_key ` set (replicas (w_db w))" using assms(2) by auto
    then show ?thesis using New by (simp add: upd_where_no_key)
  qed
  then show "replicas (pending (set_replica k ref g w)) = upd_where (\<lambda>p. p_key p = (k, ref_rse ref)) g (replicas (pending w))"
    and "rules (pending (set_replica k ref g w)) = rules (pending w)"
    and "locks (pending (set_replica k ref g w)) = locks (pending w)" by simp_all
qed

lemma p_keys_locked: "map p_key (upd_where P (locked_replica s) ps) = map p_key ps"
  by (rule map_upd_where) simp

lemma set_replica_frame [simp]:
  "w_new_locks (set_replica k ref g w) = w_new_locks w" "w_locks (set_replica k ref g w) = w_locks w"
  "w_replicas (set_replica k ref g w) = w_replicas w" "w_selector (set_replica k ref g w) = w_selector w"
  "w_transfers (set_replica k ref g w) = w_transfers w"
  "locks (w_db (set_replica k ref g w)) = locks (w_db w)" "rules (w_db (set_replica k ref g w)) = rules (w_db w)"
  by (cases ref; simp)+

lemma set_replica_keys [simp]:
  "map p_key (replicas (w_db (set_replica k ref (locked_replica s) w))) = map p_key (replicas (w_db w))"
  "map p_key (w_new_replicas (set_replica k ref (locked_replica s) w)) = map p_key (w_new_replicas w)"
  by (cases ref; simp add: p_keys_locked)+

lemma create_lock_pending:
  shows "rules (pending (create_lock e r k b s ref w)) = upd_where (\<lambda>x. r_id x = r_id r) (add_cnt s 1) (rules (pending w))"
    and "locks (pending (create_lock e r k b s ref w)) = locks (pending w) @ [new_lock e r (ref_rse ref) k b s]"
    and "map p_key (replicas (pending (create_lock e r k b s ref w))) = map p_key (replicas (pending w))"
    and "ref_replica w k ref = Some p \<Longrightarrow> distinct (map p_key (replicas (pending w))) \<Longrightarrow>
      replicas (pending (create_lock e r k b s ref w)) = upd_where (\<lambda>p. p_key p = (k, ref_rse ref)) (locked_replica s) (replicas (pending w))"
proof -
  show "rules (pending (create_lock e r k b s ref w)) = upd_where (\<lambda>x. r_id x = r_id r) (add_cnt s 1) (rules (pending w))"
    and "locks (pending (create_lock e r k b s ref w)) = locks (pending w) @ [new_lock e r (ref_rse ref) k b s]"
    and "map p_key (replicas (pending (create_lock e r k b s ref w))) = map p_key (replicas (pending w))"
    by (simp_all add: create_lock_def Let_def upd_rule_def)
  assume "ref_replica w k ref = Some p" and "distinct (map p_key (replicas (pending w)))"
  from set_replica_pending(1) [OF this, of "locked_replica s"]
  show "replicas (pending (create_lock e r k b s ref w)) = upd_where (\<lambda>p. p_key p = (k, ref_rse ref)) (locked_replica s) (replicas (pending w))"
    by (simp add: create_lock_def Let_def upd_rule_def)
qed

lemma rep_views_locked: "map rep_view (upd_where (\<lambda>p. p_key p = x) (locked_replica s) ps) = map (bump x) (map rep_view ps)"
  by (auto simp: upd_where_def rep_view_def bump_def)

lemma new_lock_sel [simp]:
  "l_rule_id (new_lock e r rse k b s) = r_id r" "l_state (new_lock e r rse k b s) = s"
  "l_replica (new_lock e r rse k b s) = (k, rse)" "l_did (new_lock e r rse k b s) = k" "l_rse_id (new_lock e r rse k b s) = rse"
  by (simp_all add: new_lock_def l_replica_def l_did_def)

text \<open>One step of the ledger: as long as the keys can be inserted, exact counters stay exact.\<close>

definition ledger_step :: "string \<Rightarrow> work \<Rightarrow> work \<Rightarrow> bool" where
  "ledger_step i w w' \<longleftrightarrow>
     r_id ` set (rules (w_db w')) = r_id ` set (rules (w_db w)) \<and> (keys_ok w' \<longrightarrow> keys_ok w) \<and>
     (keys_ok w' \<longrightarrow> i \<in> r_id ` set (rules (w_db w)) \<longrightarrow> exact (pending w) \<longrightarrow> exact (pending w'))"

lemma create_lock_step:
  assumes "ref_replica w k ref = Some p"
  shows "ledger_step (r_id r) w (create_lock e r k b s ref w)"
proof -
  let ?w' = "create_lock e r k b s ref w" and ?l = "new_lock e r (ref_rse ref) k b s"
  note eff = create_lock_pending [where e = e and r = r and k = k and b = b and s = s and ref = ref and w = w]
  have ids: "r_id ` set (rules (w_db ?w')) = r_id ` set (rules (w_db w))"
  proof -
    have "map r_id (rules (pending ?w')) = map r_id (rules (pending w))"
      unfolding eff(1) by (rule map_upd_where) simp
    from arg_cong [OF this, of set] show ?thesis by simp
  qed
  have keys: "keys_ok ?w' \<Longrightarrow> keys_ok w" unfolding keys_ok_def eff(2,3) by (simp del: pending_sel)
  have "exact (pending ?w')" if ok: "keys_ok ?w'" and i: "r_id r \<in> r_id ` set (rules (w_db w))" and ex: "exact (pending w)"
  proof -
    have reps: "replicas (pending ?w') = upd_where (\<lambda>p. p_key p = (k, ref_rse ref)) (locked_replica s) (replicas (pending w))"
      by (rule eff(4) [OF assms]) (use keys [OF ok] in \<open>simp add: keys_ok_def\<close>)
    have "ledger_ok (pending ?w')"
    proof (rule ledger_ok_lock_added)
      show "ledger_ok (pending w)" using ex by (simp add: exact_def)
      show "l_rule_id ?l \<in> r_id ` set (rules (pending w))" using i by simp
      show "rules (pending ?w') = upd_where (\<lambda>x. r_id x = l_rule_id ?l) (add_cnt (l_state ?l) 1) (rules (pending w))" using eff(1) by simp
      show "locks (pending ?w') = locks (pending w) @ [?l]" using eff(2) .
      show "distinct (map l_key (locks (pending ?w')))" using ok by (simp add: keys_ok_def)
      show "rep_views (pending ?w') = map (bump (l_replica ?l)) (rep_views (pending w))"
        unfolding rep_views_def reps rep_views_locked by simp
    qed
    moreover have "backed (pending ?w')"
    proof -
      have "p_key ` set (replicas (pending ?w')) = p_key ` set (replicas (pending w))"
        using arg_cong [OF eff(3), of set] by (simp add: image_Un)
      moreover have "(k, ref_rse ref) \<in> p_key ` set (replicas (pending w))"
        using assms by (cases ref) (simp_all add: find_new_key image_Un)
      ultimately show ?thesis using ex unfolding exact_def backed_def eff(2) by auto
    qed
    ultimately show ?thesis by (simp add: exact_def)
  qed
  with ids keys show ?thesis by (simp add: ledger_step_def)
qed

lemma ledger_step_refl [simp]: "ledger_step i w w"
  by (simp add: ledger_step_def)

lemma ledger_step_trans: "ledger_step i w w' \<Longrightarrow> ledger_step i w' w'' \<Longrightarrow> ledger_step i w w''"
  by (auto simp: ledger_step_def)

lemma exact_cong: "rules d' = rules d \<Longrightarrow> locks d' = locks d \<Longrightarrow> replicas d' = replicas d \<Longrightarrow> exact d' = exact d"
  by (simp add: exact_def ledger_ok_def backed_def cnt_views_def rep_views_def)

lemma ledger_step_frame:
  assumes "rules (pending w') = rules (pending w)" and "locks (pending w') = locks (pending w)"
    and "replicas (pending w') = replicas (pending w)"
  shows "ledger_step i w w'"
  using assms exact_cong [OF assms] by (simp add: ledger_step_def keys_ok_def)

lemma add_transfers_step: "ledger_step i w (add_transfers qs w)"
  by (rule ledger_step_frame) (simp_all add: add_transfers_def)

lemma lock_existing_step:
  assumes "ref_replica w (f_did f) ref = Some p"
  shows "ledger_step (r_id r) w (lock_existing e r ds staging required feasible pin f ref p w)"
proof -
  have "ledger_step (r_id r) w (create_lock e r (f_did f) (f_bytes f) s ref w)" for s
    by (rule create_lock_step [OF assms])
  then show ?thesis
    by (auto simp: lock_existing_def Let_def intro: ledger_step_trans add_transfers_step)
qed

lemma p_key_create_replica [simp]: "p_key (create_replica e rse f b s) = (f_did f, rse)"
  by (simp add: create_replica_def p_key_def)

lemma add_replica_step:
  assumes "p_lock_cnt p = 0"
  shows "ledger_step i w (add_replica k p w)"
proof -
  let ?w' = "add_replica k p w"
  have pend: "rules (pending ?w') = rules (pending w)" "locks (pending ?w') = locks (pending w)"
    "replicas (pending ?w') = replicas (pending w) @ [p]"
    by (simp_all add: add_replica_def)
  have "exact (pending ?w')" if "keys_ok ?w'" and "exact (pending w)"
    by (rule exact_replica_added [OF that(2) _ assms pend])
      (use that(1) in \<open>auto simp: keys_ok_def pend simp del: pending_sel\<close>)
  then show ?thesis by (auto simp: ledger_step_def keys_ok_def add_replica_def)
qed

lemma add_replica_found: "\<exists>q. ref_replica (add_replica (f_did f) (create_replica e rse f b s) w) (f_did f) (New rse) = Some q"
proof -
  have "find (\<lambda>p. p_key p = (f_did f, rse)) (w_new_replicas w @ [create_replica e rse f b s]) \<noteq> None"
    by (auto simp: find_None_iff intro: exI [of _ "create_replica e rse f b s"])
  then show ?thesis by (simp add: add_replica_def)
qed

lemma lock_new_step:
  assumes "lock_new e r ds staging required feasible f rse w = Inr w'"
  shows "ledger_step (r_id r) w w'"
proof -
  from assms obtain b where b: "f_bytes f = Some b" by (auto simp: lock_new_def split: option.splits)
  define s where "s = (if feasible then COPYING else UNAVAILABLE)"
  let ?w1 = "add_replica (f_did f) (create_replica e rse f b s) w"
  obtain q where "ref_replica ?w1 (f_did f) (New rse) = Some q" using add_replica_found by blast
  from create_lock_step [OF this] have
    "ledger_step (r_id r) ?w1 (create_lock e r (f_did f) (Some b) (if feasible then LockREPLICATING else LockSTUCK) (New rse) ?w1)" .
  moreover have "ledger_step (r_id r) w ?w1" by (rule add_replica_step) (simp add: create_replica_def)
  ultimately show ?thesis
    using assms by (auto simp: lock_new_def b s_def intro: ledger_step_trans add_transfers_step)
qed

lemma create_lock_and_replica_step:
  assumes "create_lock_and_replica e r ds source_rses source_replicas f t w = Inr w'"
  shows "ledger_step (r_id r) w w'"
proof -
  obtain rse staging writable where t: "t = (rse, staging, writable)" by (cases t)
  define w1 where "w1 = add_transfers (if staging
     then [file_transfer rse STAGEIN f ds r False (map_option Seconds (rule_pin e r))] else []) w"
  let ?required = "staging_required (r_env e) rse" and ?feasible = "source_available source_rses source_replicas (f_did f) \<and> writable"
  from assms obtain pin refs where refs: "w_replicas w1 (f_did f) = Some refs"
    and run: "(case filter (\<lambda>ref. ref_rse ref = rse) refs of
        ref # _ \<Rightarrow> (case ref_replica w1 (f_did f) ref of
            None \<Rightarrow> Inl (Core KeyError)
          | Some p \<Rightarrow> Inr (lock_existing e r ds staging ?required ?feasible pin f ref p w1))
      | [] \<Rightarrow> lock_new e r ds staging ?required ?feasible f rse w1) = Inr w'"
    unfolding create_lock_and_replica_def t Let_def prod.case w1_def [symmetric]
    by (auto simp: rbind_eq_Inr split: option.splits)
  have "ledger_step (r_id r) w1 w'"
  proof (cases "filter (\<lambda>ref. ref_rse ref = rse) refs")
    case Nil
    with run show ?thesis by (auto intro: lock_new_step)
  next
    case (Cons ref rest)
    with run show ?thesis by (auto split: option.splits intro: lock_existing_step)
  qed
  moreover have "ledger_step (r_id r) w w1" unfolding w1_def by (rule add_transfers_step)
  ultimately show ?thesis by (blast intro: ledger_step_trans)
qed

lemma select_targets_frame:
  assumes "select_targets e n preferred blocklist prioritize existing w = Inr (ts, w')"
  obtains sel' where "w' = w\<lparr>w_selector := sel'\<rparr>"
proof (cases n)
  case None
  with assms have "w' = w\<lparr>w_selector := w_selector w\<rparr>"
    by (auto simp: select_targets_def Let_def split: if_splits)
  then show thesis by (rule that)
next
  case (Some b)
  with assms that show thesis by (auto simp: select_targets_def Let_def rbind_eq_Inr)
qed

lemma queue_transfers_tables:
  assumes "queue_transfers e w = Inr w'"
  shows "rules (w_db w') = rules (w_db w)" "locks (w_db w') = locks (w_db w)" "replicas (w_db w') = replicas (w_db w)"
    and "w_new_replicas w' = w_new_replicas w" "w_new_locks w' = w_new_locks w" "w_selector w' = w_selector w"
    and "w_locks w' = w_locks w" "w_replicas w' = w_replicas w" "contents (w_db w') = contents (w_db w)"
  using assms by (auto simp: queue_transfers_def queue_requests_def Let_def rbind_eq_Inr split: prod.splits if_splits)

interpretation ledger: work_steps "ledger_step (r_id r)" e r for e r
proof (unfold_locales, goal_cases)
  case (4 n preferred blocklist prioritize existing w ts w')
  then obtain sel' where "w' = w\<lparr>w_selector := sel'\<rparr>" by (rule select_targets_frame)
  then show ?case by (intro ledger_step_frame) simp_all
next
  case (9 w w')
  then show ?case
    by (intro ledger_step_frame) (auto simp: flush_def Let_def split: if_splits)
next
  case (10 w w')
  then show ?case by (intro ledger_step_frame) (simp_all add: queue_transfers_tables)
next
  case (11 w w')
  then show ?case
    by (intro ledger_step_frame) (auto simp: book_counters_def Let_def split: if_splits)
qed (auto intro: ledger_step_trans create_lock_and_replica_step ledger_step_frame
  simp: ensure_dataset_replica_def ensure_dataset_lock_def add_dataset_lock_def read_files_def Let_def split: if_splits)

end
