(* ===== verification/Rule_Placement.thy ===== *)
theory Rule_Placement
  imports Rule_Application
begin

text \<open>
  Where a rule puts its locks. A rule that has no locks yet, applied to a DID, gets on every file of the DID as many locks as it has copies,
  on different RSEs of its selector, and no lock anywhere else; under the grouping \<^verbatim>\<open>ALL\<close>, and on a single dataset under the
  grouping \<^verbatim>\<open>DATASET\<close>, all files lie on the same RSEs.
\<close>

section \<open>The locks of a rule on a file\<close>

definition rule_locks :: "string \<Rightarrow> replica_lock list \<Rightarrow> did \<Rightarrow> replica_lock list" where
  "rule_locks i ls k = filter (\<lambda>l. l_rule_id l = i \<and> l_did l = k) ls"

definition placed :: "rule \<Rightarrow> work \<Rightarrow> did \<Rightarrow> string list" where
  "placed r w k = map l_rse_id (rule_locks (r_id r) (locks (pending w)) k)"

text \<open>The effect of one new lock.\<close>

lemma create_lock_effect:
  "locks (pending (create_lock e r k b s ref w)) = locks (pending w) @ [new_lock e r (ref_rse ref) k b s]"
  "w_locks (create_lock e r k b s ref w) = (w_locks w)(k \<mapsto> (case w_locks w k of None \<Rightarrow> [] | Some ls \<Rightarrow> ls) @ [new_lock e r (ref_rse ref) k b s])"
  "w_selector (create_lock e r k b s ref w) = w_selector w" "contents (w_db (create_lock e r k b s ref w)) = contents (w_db w)"
  by (simp_all add: create_lock_pending(2) del: pending_sel)
    (cases ref; simp add: create_lock_def Let_def upd_rule_def split: option.splits)+

lemma add_transfers_frame [simp]:
  "pending (add_transfers qs w) = pending w" "w_locks (add_transfers qs w) = w_locks w"
  "w_selector (add_transfers qs w) = w_selector w" "w_db (add_transfers qs w) = w_db w"
  by (simp_all add: add_transfers_def pending_def)

lemma add_replica_frame [simp]:
  "locks (pending (add_replica k p w)) = locks (pending w)" "w_locks (add_replica k p w) = w_locks w"
  "w_selector (add_replica k p w) = w_selector w" "w_db (add_replica k p w) = w_db w"
  by (simp_all add: add_replica_def)

definition lock_effect :: "apply_env \<Rightarrow> rule \<Rightarrow> did \<Rightarrow> string \<Rightarrow> work \<Rightarrow> work \<Rightarrow> bool" where
  "lock_effect e r k rse w w' \<longleftrightarrow>
     (\<exists>b s. let l = new_lock e r rse k b s in
        locks (pending w') = locks (pending w) @ [l] \<and>
        w_locks w' = (w_locks w)(k \<mapsto> (case w_locks w k of None \<Rightarrow> [] | Some ls \<Rightarrow> ls) @ [l])) \<and>
     w_selector w' = w_selector w \<and> contents (w_db w') = contents (w_db w)"

lemma lock_new_shape:
  assumes "lock_new e r ds staging required feasible f rse w = Inr w'"
  obtains b qs s s' where "w' = add_transfers qs (create_lock e r (f_did f) (Some b) s (New rse)
    (add_replica (f_did f) (create_replica e rse f b s') w))"
proof (cases "f_bytes f")
  case None
  with assms show thesis by (simp add: lock_new_def)
next
  case (Some b)
  from assms [unfolded lock_new_def Some option.case sum.inject, symmetric] show thesis by (rule that)
qed

lemma lock_existing_shape:
  obtains qs s where "lock_existing e r ds staging required feasible pin f ref p w
    = add_transfers qs (create_lock e r (f_did f) (f_bytes f) s ref w)"
proof -
  consider "p_state p = AVAILABLE \<or> p_state p = TEMPORARY_UNAVAILABLE"
    | "\<not> (p_state p = AVAILABLE \<or> p_state p = TEMPORARY_UNAVAILABLE)" "p_state p = UNAVAILABLE"
    | "\<not> (p_state p = AVAILABLE \<or> p_state p = TEMPORARY_UNAVAILABLE)" "p_state p \<noteq> UNAVAILABLE"
    by blast
  then show thesis
  proof cases
    case 1
    show thesis by (rule that) (simp only: lock_existing_def Let_def if_P [OF 1])
  next
    case 2
    show thesis by (rule that) (simp only: lock_existing_def Let_def if_not_P [OF 2(1)] if_P [OF 2(2)])
  next
    case 3
    show thesis
      by (rule that [of "[]"]) (simp only: lock_existing_def Let_def if_not_P [OF 3(1)] if_not_P [OF 3(2)], simp add: add_transfers_def)
  qed
qed

lemma create_lock_and_replica_effect:
  assumes "create_lock_and_replica e r ds source_rses source_replicas f t w = Inr w'"
  shows "lock_effect e r (f_did f) (fst t) w w'"
proof -
  obtain rse staging writable where t: "t = (rse, staging, writable)" by (cases t)
  define w1 where "w1 = add_transfers (if staging
     then [file_transfer rse STAGEIN f ds r False (map_option Seconds (rule_pin e r))] else []) w"
  let ?required = "staging_required (r_env e) rse" and ?feasible = "source_available source_rses source_replicas (f_did f) \<and> writable"
  from assms obtain pin refs where refs: "w_replicas w1 (f_did f) = Some refs"
    and run: "(case filter (\<lambda>ref. ref_rse ref = rse) refs of
        ref # _ \<Rightarrow> (case ref_replica w1 (f_did f) ref of
            None \<Rightarrow> Inl (Core KeyError)
          | Some p \<Rightarrow> Inr (lock_existing e r ds staging ?required ?feasible pin f ref p w1))
      | [] \<Rightarrow> lock_new e r ds staging ?required ?feasible f rse w1) = Inr w'"
    unfolding create_lock_and_replica_def t Let_def prod.case w1_def [symmetric]
    by (auto simp: rbind_eq_Inr split: option.splits)
  have frame: "locks (pending w1) = locks (pending w)" "w_locks w1 = w_locks w" "w_selector w1 = w_selector w"
    "contents (w_db w1) = contents (w_db w)"
    by (simp_all only: w1_def add_transfers_frame)
  have "lock_effect e r (f_did f) rse w1 w'"
  proof (cases "filter (\<lambda>ref. ref_rse ref = rse) refs")
    case Nil
    with run have "lock_new e r ds staging ?required ?feasible f rse w1 = Inr w'" by simp
    then obtain b qs s s' where w': "w' = add_transfers qs (create_lock e r (f_did f) (Some b) s (New rse)
        (add_replica (f_did f) (create_replica e rse f b s') w1))" by (rule lock_new_shape)
    show ?thesis
      unfolding lock_effect_def w' add_transfers_frame create_lock_effect add_replica_frame ref_rse.simps Let_def by blast
  next
    case (Cons ref rest)
    then have ref: "ref_rse ref = rse" using filter_ConsD [OF Cons] by simp
    from run Cons obtain p where "w' = lock_existing e r ds staging ?required ?feasible pin f ref p w1"
      by (auto split: option.splits)
    then obtain qs s where w': "w' = add_transfers qs (create_lock e r (f_did f) (f_bytes f) s ref w1)"
      using lock_existing_shape [of e r ds staging ?required ?feasible pin f ref p w1] by auto
    show ?thesis
      unfolding lock_effect_def w' add_transfers_frame create_lock_effect ref Let_def by blast
  qed
  then show ?thesis unfolding lock_effect_def frame t fst_conv .
qed

text \<open>The dictionary of the locks agrees with the locks of the rule.\<close>

definition dict_ok :: "rule \<Rightarrow> work \<Rightarrow> bool" where
  "dict_ok r w \<longleftrightarrow> (\<forall>k ls. w_locks w k = Some ls \<longrightarrow>
     filter (\<lambda>l. l_rule_id l = r_id r) ls = rule_locks (r_id r) (locks (pending w)) k)"

lemma dict_okD: "dict_ok r w \<Longrightarrow> w_locks w k = Some ls \<Longrightarrow>
    filter (\<lambda>l. l_rule_id l = r_id r) ls = rule_locks (r_id r) (locks (pending w)) k"
  unfolding dict_ok_def by blast

lemma rule_locks_ofE:
  assumes "rule_locks_of w r k = Inr ls" and "dict_ok r w"
  shows "map l_rse_id ls = placed r w k" and "k \<in> dom (w_locks w)"
proof -
  from assms(1) obtain ls' where ls': "w_locks w k = Some ls'" "ls = filter (\<lambda>l. l_rule_id l = r_id r) ls'"
    by (auto simp: rule_locks_of_def split: option.splits)
  with dict_okD [OF assms(2) ls'(1)] show "map l_rse_id ls = placed r w k" by (simp only: placed_def)
  from ls' show "k \<in> dom (w_locks w)" by blast
qed

lemma lock_effect_placed:
  assumes "lock_effect e r k rse w w'"
  shows "placed r w' x = (if x = k then placed r w k @ [rse] else placed r w x)"
  using assms by (auto simp: lock_effect_def placed_def rule_locks_def Let_def simp del: pending_sel)

lemma lock_effect_dict:
  assumes "lock_effect e r k rse w w'" and "dict_ok r w" and "k \<in> dom (w_locks w)"
  shows "dict_ok r w'"
proof -
  from assms(3) obtain ls where ls: "w_locks w k = Some ls" by blast
  from assms(1) obtain b s where eff: "locks (pending w') = locks (pending w) @ [new_lock e r rse k b s]"
    "w_locks w' = (w_locks w)(k \<mapsto> ls @ [new_lock e r rse k b s])"
    by (auto simp: lock_effect_def Let_def ls simp del: pending_sel)
  have "filter (\<lambda>l. l_rule_id l = r_id r) ls' = rule_locks (r_id r) (locks (pending w')) x" if "w_locks w' x = Some ls'" for x ls'
  proof (cases "x = k")
    case True
    then show ?thesis using that dict_okD [OF assms(2) ls] unfolding eff by (auto simp: rule_locks_def)
  next
    case False
    then show ?thesis using that dict_okD [OF assms(2), of x ls'] unfolding eff by (simp add: rule_locks_def)
  qed
  then show ?thesis unfolding dict_ok_def by blast
qed

lemma lock_targets_placed:
  assumes "lock_targets e r ds source_rses source_replicas f ts w = Inr (u, w')" and "dict_ok r w"
    and "distinct (map fst ts)" and "set (map fst ts) \<inter> set (placed r w (f_did f)) = {}"
  shows "placed r w' (f_did f) = placed r w (f_did f) @ map fst ts \<and> (\<forall>x. x \<noteq> f_did f \<longrightarrow> placed r w' x = placed r w x) \<and>
    dict_ok r w' \<and> w_selector w' = w_selector w \<and> contents (w_db w') = contents (w_db w)"
  using assms
proof (induction ts arbitrary: w u)
  case Nil
  then show ?case by simp
next
  case (Cons t ts)
  from Cons.prems(1) show ?case
  proof (cases rule: lock_targets_ConsE)
    case (present ls)
    have "fst t \<in> set (map l_rse_id ls)"
    proof -
      from present(2) have "filter (\<lambda>l. l_rse_id l = fst t) ls \<noteq> []" by auto
      then show ?thesis unfolding filter_empty_conv by (metis image_eqI list.set_map)
    qed
    with rule_locks_ofE(1) [OF present(1) Cons.prems(2)] Cons.prems(4) show ?thesis by auto
  next
    case (created ls w1 u')
    note eff = create_lock_and_replica_effect [OF created(3)]
    have k: "f_did f \<in> dom (w_locks w)" using rule_locks_ofE(2) [OF created(1) Cons.prems(2)] .
    note p1 = lock_effect_placed [OF eff]
    have "set (map fst ts) \<inter> set (placed r w1 (f_did f)) = {}"
      using Cons.prems(3,4) by (auto simp: p1)
    moreover have "distinct (map fst ts)" using Cons.prems(3) by simp
    ultimately have "placed r w' (f_did f) = placed r w1 (f_did f) @ map fst ts \<and>
        (\<forall>x. x \<noteq> f_did f \<longrightarrow> placed r w' x = placed r w1 x) \<and>
        dict_ok r w' \<and> w_selector w' = w_selector w1 \<and> contents (w_db w') = contents (w_db w1)"
      using Cons.IH [OF created(4) lock_effect_dict [OF eff Cons.prems(2) k]] by blast
    moreover have "w_selector w1 = w_selector w" "contents (w_db w1) = contents (w_db w)"
      using eff by (simp_all add: lock_effect_def)
    ultimately show ?thesis by (simp add: p1)
  qed
qed

section \<open>Selections\<close>

definition targets_ok :: "string set \<Rightarrow> int \<Rightarrow> string list \<Rightarrow> bool" where
  "targets_ok T c rs \<longleftrightarrow> int (length rs) = c \<and> distinct rs \<and> set rs \<subseteq> T"

definition sel_ok :: "string set \<Rightarrow> int \<Rightarrow> work \<Rightarrow> bool" where
  "sel_ok T c w \<longleftrightarrow> selector_wf (w_selector w) \<and> sel_copies (w_selector w) = c \<and> set (map t_id (sel_targets (w_selector w))) = T"

lemma select_targets_ok:
  assumes fair: "fair (selecting e)" and ok: "sel_ok T c w" and c: "0 < c"
    and run: "select_targets e n preferred blocklist prioritize existing w = Inr (ts, w')"
  shows "targets_ok T c (map fst ts)" and "sel_ok T c w'"
proof -
  let ?sel = "w_selector w"
  have wf: "selector_wf ?sel" "sel_copies ?sel = c" "set (map t_id (sel_targets ?sel)) = T" using ok by (simp_all add: sel_ok_def)
  obtain b where n: "n = Some b"
    using run wf(2) c by (cases n) (auto simp: select_targets_def Let_def split: if_splits)
  from run obtain sel' where s: "select_rse (selecting e) b preferred 0 blocklist prioritize (existing b) ?sel = Inr (ts, sel')"
    and w': "w' = w\<lparr>w_selector := sel'\<rparr>"
    by (auto simp: select_targets_def n rbind_eq_Inr)
  have "c = (if (0::int) = 0 then sel_copies ?sel else 0)" using wf(2) by simp
  from select_rse_cases(3) [OF fair selector_wf_distinct [OF wf(1)] this s] obtain chosen where
    ts: "ts = map rse_tuple chosen" and len: "length chosen = nat c" and dist: "distinct (map t_id chosen)"
    and sub: "set chosen \<subseteq> eligible_targets b blocklist (existing b) ?sel" and copies: "sel_copies sel' = sel_copies ?sel"
    and upd: "sel_targets sel' = map (\<lambda>t. if t_id t \<in> t_id ` set chosen then charge b t else t) (sel_targets ?sel)"
    by blast
  have fst: "map fst ts = map t_id chosen" by (simp add: ts comp_def)
  have "set chosen \<subseteq> set (sel_targets ?sel)" using sub by (auto simp: eligible_targets_def)
  then show "targets_ok T c (map fst ts)" using len dist c wf(3) unfolding targets_ok_def fst by auto
  have ids: "map t_id (sel_targets sel') = map t_id (sel_targets ?sel)" unfolding upd by (rule map_t_id)
  have "\<forall>t \<in> set (sel_targets sel'). 0 \<le> t_weight t" using wf(1) unfolding upd by (auto simp: selector_wf_def)
  then have "selector_wf sel'" using wf(1) ids by (simp add: selector_wf_def)
  then show "sel_ok T c w'" using copies wf(2,3) ids by (simp add: sel_ok_def w' del: set_map)
qed

section \<open>Files\<close>

text \<open>\<open>Q\<close> is what is wanted of the RSEs of a file. Every file has no lock of the rule yet or RSEs as wanted.\<close>

definition well_placed :: "(string list \<Rightarrow> bool) \<Rightarrow> rule \<Rightarrow> work \<Rightarrow> bool" where
  "well_placed Q r w \<longleftrightarrow> (\<forall>k. placed r w k = [] \<or> Q (placed r w k))"

definition wanted :: "(string list \<Rightarrow> bool) \<Rightarrow> string set \<Rightarrow> rule \<Rightarrow> (string \<times> bool \<times> bool) list \<Rightarrow> bool" where
  "wanted Q T r ts \<longleftrightarrow> (\<forall>rs. Q rs \<longrightarrow> targets_ok T (r_copies r) rs) \<and>
     (if r_grouping r = GroupNONE then \<forall>rs. targets_ok T (r_copies r) rs \<longrightarrow> Q rs else Q (map fst ts))"

definition fills :: "rule \<Rightarrow> did set \<Rightarrow> work \<Rightarrow> work \<Rightarrow> bool" where
  "fills r K w w' \<longleftrightarrow> (\<forall>k \<in> K. placed r w' k \<noteq> []) \<and> (\<forall>k. k \<notin> K \<longrightarrow> placed r w' k = placed r w k) \<and>
     (\<forall>k. placed r w k \<noteq> [] \<longrightarrow> placed r w' k \<noteq> [])"

lemma fillsD:
  "fills r K w w' \<Longrightarrow> k \<in> K \<Longrightarrow> placed r w' k \<noteq> []" "fills r K w w' \<Longrightarrow> k \<notin> K \<Longrightarrow> placed r w' k = placed r w k"
  "fills r K w w' \<Longrightarrow> placed r w k \<noteq> [] \<Longrightarrow> placed r w' k \<noteq> []"
  unfolding fills_def by blast+

lemma fills_trans: "fills r K w w' \<Longrightarrow> fills r L w' w'' \<Longrightarrow> fills r (K \<union> L) w w''"
  unfolding fills_def by (metis Un_iff)

lemma fills_cong:
  assumes "\<And>k. placed r w1 k = placed r w k" and "\<And>k. placed r w1' k = placed r w' k"
  shows "fills r K w1 w1' = fills r K w w'"
  unfolding fills_def assms ..

lemma fills_same: "(\<And>k. placed r w' k = placed r w k) \<Longrightarrow> fills r {} w w'"
  unfolding fills_def by simp

text \<open>The state of the loops over files.\<close>

definition file_state :: "(string list \<Rightarrow> bool) \<Rightarrow> string set \<Rightarrow> rule \<Rightarrow> (string \<times> bool \<times> bool) list \<times> string list \<times> work \<Rightarrow> bool" where
  "file_state Q T r s \<longleftrightarrow> wanted Q T r (fst s) \<and> well_placed Q r (snd (snd s)) \<and> sel_ok T (r_copies r) (snd (snd s))"

lemma apply_file_placed:
  assumes fair: "fair (selecting e)" and c: "0 < r_copies r" and st: "file_state Q T r (ts, u, w)" and dict: "dict_ok r w"
    and run: "apply_file e r k source_rses source_replicas f (ts, u, w) = Inr (ts', u', w')"
  shows "file_state Q T r (ts', u', w') \<and> dict_ok r w' \<and> fills r {f_did f} w w' \<and> contents (w_db w') = contents (w_db w) \<and>
    (r_grouping r \<noteq> GroupNONE \<longrightarrow> ts' = ts)"
proof -
  have Q: "\<And>rs. Q rs \<Longrightarrow> targets_ok T (r_copies r) rs" and well: "well_placed Q r w" and sel: "sel_ok T (r_copies r) w"
    and want: "wanted Q T r ts"
    using st by (simp_all add: file_state_def wanted_def)
  from run obtain ls where ls: "rule_locks_of w r (f_did f) = Inr ls" by (auto simp: apply_file_def rbind_eq_Inr)
  note placed_ls = rule_locks_ofE(1) [OF ls dict]
  show ?thesis
  proof (cases "int (length ls) = r_copies r")
    case True
    with run ls have s': "ts' = ts" "u' = u" "w' = w" by (simp_all add: apply_file_def)
    have "placed r w (f_did f) \<noteq> []" unfolding placed_ls [symmetric] using True c by auto
    then have "fills r {f_did f} w w" by (simp add: fills_def)
    with st dict show ?thesis by (simp add: s')
  next
    case False
    have empty: "placed r w (f_did f) = []"
    proof (rule ccontr)
      assume "placed r w (f_did f) \<noteq> []"
      then have "Q (placed r w (f_did f))" using well unfolding well_placed_def by blast
      from Q [OF this] have "int (length (map l_rse_id ls)) = r_copies r" unfolding targets_ok_def placed_ls by blast
      with False show False by simp
    qed
    from run ls False obtain ts1 u1 w1 u2 where
      sel1: "(if r_grouping r = GroupNONE then
          rbind (replicas_of w (f_did f)) (\<lambda>ps.
            rbind (select_targets e (f_bytes f) (in_order (map p_rse_id ps)) [] True (\<lambda>b. map (\<lambda>p. (p_rse_id p, b)) ps) w) (\<lambda>(ts', w').
              Inr (ts', in_order (u @ map fst ts'), w')))
        else Inr (ts, u, w)) = Inr (ts1, u1, w1)"
      and t: "lock_targets e r (Some k) source_rses source_replicas f ts1 w1 = Inr (u2, w')" and s': "ts' = ts1" "u' = u1"
      by (auto simp: apply_file_def rbind_eq_Inr simp del: lock_targets.simps)
    have w1: "\<exists>sel'. w1 = w\<lparr>w_selector := sel'\<rparr>" and ok1: "sel_ok T (r_copies r) w1" and Q1: "Q (map fst ts1)"
      and same: "r_grouping r \<noteq> GroupNONE \<Longrightarrow> ts1 = ts"
    proof -
      have "(\<exists>sel'. w1 = w\<lparr>w_selector := sel'\<rparr>) \<and> sel_ok T (r_copies r) w1 \<and> Q (map fst ts1) \<and> (r_grouping r \<noteq> GroupNONE \<longrightarrow> ts1 = ts)"
      proof (cases "r_grouping r = GroupNONE")
        case True
        with sel1 obtain preferred existing where s: "select_targets e (f_bytes f) preferred [] True existing w = Inr (ts1, w1)"
          by (auto simp: rbind_eq_Inr)
        obtain sel' where "w1 = w\<lparr>w_selector := sel'\<rparr>" by (rule select_targets_frame [OF s])
        then show ?thesis using select_targets_ok [OF fair sel c s] want True by (auto simp: wanted_def)
      next
        case False
        have "w = w\<lparr>w_selector := w_selector w\<rparr>" by simp
        then show ?thesis using False sel1 sel want by (auto simp: wanted_def intro: exI [of _ "w_selector w"])
      qed
      then show "\<exists>sel'. w1 = w\<lparr>w_selector := sel'\<rparr>" "sel_ok T (r_copies r) w1" "Q (map fst ts1)"
        "r_grouping r \<noteq> GroupNONE \<Longrightarrow> ts1 = ts" by blast+
    qed
    from w1 obtain sel' where w1: "w1 = w\<lparr>w_selector := sel'\<rparr>" ..
    have pl: "placed r w1 x = placed r w x" for x by (simp add: placed_def w1)
    have d1: "dict_ok r w1" using dict by (simp add: dict_ok_def w1)
    have dist: "distinct (map fst ts1)" using Q [OF Q1] by (simp add: targets_ok_def)
    have "set (map fst ts1) \<inter> set (placed r w1 (f_did f)) = {}" by (simp add: pl empty)
    note new = lock_targets_placed [OF t d1 dist this, unfolded pl empty append_Nil]
    then have eff: "placed r w' (f_did f) = map fst ts1" "\<And>x. x \<noteq> f_did f \<Longrightarrow> placed r w' x = placed r w x"
      "dict_ok r w'" "w_selector w' = w_selector w1" by blast+
    have "contents (w_db w') = contents (w_db w1)" using new by blast
    then have contents: "contents (w_db w') = contents (w_db w)" unfolding w1 by simp
    have "map fst ts1 \<noteq> []" using Q [OF Q1] c by (auto simp: targets_ok_def)
    then have "fills r {f_did f} w w'" using eff(1,2) empty unfolding fills_def by (metis singleton_iff)
    moreover have "well_placed Q r w'" using well Q1 eff(1,2) unfolding well_placed_def by metis
    moreover have "sel_ok T (r_copies r) w'" using ok1 by (simp add: sel_ok_def eff(4))
    moreover have "wanted Q T r ts1" using want Q1 by (simp add: wanted_def)
    ultimately show ?thesis using eff(3) contents same unfolding file_state_def s' fst_conv snd_conv by blast
  qed
qed

lemma apply_files_placed:
  assumes fair: "fair (selecting e)" and c: "0 < r_copies r" and st: "file_state Q T r (ts, u, w)" and dict: "dict_ok r w"
    and run: "rfold (apply_file e r k source_rses source_replicas) fs (ts, u, w) = Inr (ts', u', w')"
  shows "file_state Q T r (ts', u', w') \<and> fills r (f_did ` set fs) w w' \<and> contents (w_db w') = contents (w_db w) \<and>
    (r_grouping r \<noteq> GroupNONE \<longrightarrow> ts' = ts)"
  using st dict run
proof (induction fs arbitrary: ts u w)
  case Nil
  then show ?case by (simp add: fills_same)
next
  case (Cons f fs)
  from Cons.prems(3) obtain ts1 u1 w1 where one: "apply_file e r k source_rses source_replicas f (ts, u, w) = Inr (ts1, u1, w1)"
    and rest: "rfold (apply_file e r k source_rses source_replicas) fs (ts1, u1, w1) = Inr (ts', u', w')"
    by (auto simp: rbind_eq_Inr)
  note step = apply_file_placed [OF fair c Cons.prems(1,2) one]
  then have ih: "file_state Q T r (ts', u', w') \<and> fills r (f_did ` set fs) w1 w' \<and> contents (w_db w') = contents (w_db w1) \<and>
      (r_grouping r \<noteq> GroupNONE \<longrightarrow> ts' = ts1)"
    using Cons.IH [OF _ _ rest] by blast
  have "fills r ({f_did f} \<union> f_did ` set fs) w w'" using step ih by (blast intro: fills_trans)
  then show ?case using step ih by simp
qed

section \<open>Reading the locks of a dataset\<close>

lemma fold_lock_rows:
  "fold add_lock_row rows m c =
     (if c \<in> fst ` set rows \<or> m c \<noteq> None
      then Some ((case m c of None \<Rightarrow> [] | Some ls \<Rightarrow> ls) @ List.map_filter snd (filter (\<lambda>row. fst row = c) rows))
      else None)"
proof (induction rows arbitrary: m)
  case Nil
  show ?case by (cases "m c") (simp_all add: map_filter_simps)
next
  case (Cons row rows)
  have one: "add_lock_row row m c = (if fst row = c
      then Some ((case m c of None \<Rightarrow> [] | Some ls \<Rightarrow> ls) @ (case snd row of None \<Rightarrow> [] | Some l \<Rightarrow> [l])) else m c)"
    by (simp add: add_lock_row_def Let_def split: option.split)
  have "fold add_lock_row (row # rows) m c = fold add_lock_row rows (add_lock_row row m) c" by simp
  also note Cons
  finally show ?case unfolding one
    by (cases "fst row = c"; cases "m c"; cases "snd row") (auto simp: map_filter_simps)
qed

lemma filter_joined:
  "distinct xs \<Longrightarrow> filter (\<lambda>row. fst row = c) (concat (map (\<lambda>x. map (Pair x) (g x)) xs)) = (if c \<in> set xs then map (Pair c) (g c) else [])"
proof (induction xs)
  case (Cons x xs)
  have one: "filter (\<lambda>row. fst row = c) (map (Pair x) (g x)) = (if x = c then map (Pair c) (g c) else [])"
    by (simp add: filter_map comp_def)
  have "distinct xs" "x \<notin> set xs" using Cons.prems by simp_all
  then show ?case using Cons.IH by (cases "x = c") (auto simp: one simp del: filter_concat map_concat)
qed simp

lemma joined_keys: "fst ` set (concat (map (\<lambda>x. map (Pair x) (g x)) xs)) = {x \<in> set xs. g x \<noteq> []}"
proof (induction xs)
  case (Cons x xs)
  have "fst ` set (map (Pair x) (g x)) = (if g x = [] then {} else {x})"
    by (cases "g x") (auto simp: image_image)
  then show ?case using Cons by (auto simp: image_Un simp del: set_map)
qed simp

lemma map_filter_Some: "List.map_filter snd (map (Pair c) (map Some ls)) = ls"
  by (induction ls) (simp_all add: map_filter_simps)

definition files_wf :: "rule_db \<Rightarrow> bool" where
  "files_wf d \<longleftrightarrow> distinct (map c_key (contents d))"

lemma dataset_files_distinct: "files_wf d \<Longrightarrow> distinct (dataset_files d k mine)"
proof -
  assume "files_wf d"
  then have "distinct (map c_key (filter (\<lambda>c. c_parent c = k) (contents d)))"
    unfolding files_wf_def by (rule distinct_map_filter_key)
  moreover have "map c_key (filter (\<lambda>c. c_parent c = k) (contents d)) = map (Pair k) (map c_child (filter (\<lambda>c. c_parent c = k) (contents d)))"
    by (simp add: c_key_def)
  ultimately have "distinct (map c_child (filter (\<lambda>c. c_parent c = k) (contents d)))" by (metis distinct_map)
  then show ?thesis by (simp add: dataset_files_def)
qed

lemma locks_read:
  assumes "files_wf d"
  shows "get_files_and_replica_locks_of_dataset pg d k restrict False mine c
    = (if c \<in> set (dataset_files d k mine) then Some (get_replica_locks d c restrict) else None)"
proof -
  let ?fs = "dataset_files d k mine" and ?L = "\<lambda>c. get_replica_locks d c restrict"
  note dist = dataset_files_distinct [OF assms, of k mine]
  show ?thesis
  proof (cases pg)
    case True
    have rows: "inner_join d restrict ?fs = concat (map (\<lambda>x. map (Pair x) (map Some (?L x))) ?fs)"
      by (simp add: inner_join_def comp_def)
    have "map_of (map (\<lambda>c. (c, [] :: replica_lock list)) ?fs) c = (if c \<in> set ?fs then Some [] else None)"
      by (simp add: map_of_map_restrict restrict_map_def)
    then show ?thesis
      using True by (simp add: get_files_and_replica_locks_of_dataset_def Let_def rows fold_lock_rows filter_joined [OF dist] joined_keys
          map_filter_Some del: map_map set_concat map_concat)
  next
    case False
    let ?g = "\<lambda>c. case ?L c of [] \<Rightarrow> [None] | l # ls \<Rightarrow> map Some (l # ls)"
    have rows: "outer_join d restrict ?fs = concat (map (\<lambda>x. map (Pair x) (?g x)) ?fs)"
      by (simp add: outer_join_def)
    have ne: "?g x \<noteq> []" for x by (cases "?L x") simp_all
    have "List.map_filter snd (map (Pair c) (?g c)) = ?L c"
      using map_filter_Some [of c "?L c"] by (cases "?L c") (simp_all add: map_filter_simps)
    then show ?thesis
      using False ne by (simp add: get_files_and_replica_locks_of_dataset_def Let_def rows fold_lock_rows filter_joined [OF dist] joined_keys
          del: map_map set_concat map_concat)
  qed
qed

definition settled :: "work \<Rightarrow> bool" where
  "settled w \<longleftrightarrow> w_new_replicas w = [] \<and> w_new_locks w = [] \<and> keys_ok w"

lemma dict_ok_read:
  assumes "files_wf (w_db w)" and "settled w" and "well_placed Q r w" and Q: "\<And>rs. Q rs \<Longrightarrow> set rs \<subseteq> T" and "T \<subseteq> set rs"
  shows "dict_ok r (read_files (get_files_and_replica_locks_of_dataset pg (w_db w) k (Some rs) False mine) reps w)"
  unfolding dict_ok_def
proof (intro allI impI)
  fix c ls
  let ?w' = "read_files (get_files_and_replica_locks_of_dataset pg (w_db w) k (Some rs) False mine) reps w"
  assume "w_locks ?w' c = Some ls"
  then have ls: "ls = get_replica_locks (w_db w) c (Some rs)"
    by (simp add: read_files_def locks_read [OF assms(1)] split: if_splits)
  have pend: "locks (pending w) = locks (w_db w)" using assms(2) by (simp add: settled_def)
  have "l_rse_id l \<in> set rs" if "l \<in> set (locks (w_db w))" "l_rule_id l = r_id r" "l_did l = c" for l
  proof -
    have "l_rse_id l \<in> set (placed r w c)" using that unfolding placed_def rule_locks_def pend by auto
    then have "Q (placed r w c)" using assms(3) unfolding well_placed_def by (metis empty_iff empty_set)
    then show ?thesis using Q assms(5) \<open>l_rse_id l \<in> set (placed r w c)\<close> by blast
  qed
  then have "filter (\<lambda>l. l_rule_id l = r_id r) ls = rule_locks (r_id r) (locks (pending w)) c"
    unfolding ls get_replica_locks_def rule_locks_def pend rse_clause_def by (auto intro!: filter_cong)
  then show "filter (\<lambda>l. l_rule_id l = r_id r) ls = rule_locks (r_id r) (locks (pending ?w')) c"
    by (simp add: read_files_def)
qed

section \<open>Parts and datasets\<close>

lemma save_files_frame:
  assumes "save_files e w = Inr w'"
  shows "settled w'" and "locks (pending w') = locks (pending w)" and "w_selector w' = w_selector w" and "contents (w_db w') = contents (w_db w)"
proof -
  from assms obtain w1 where f: "flush w = Inr w1" and q: "queue_transfers e w1 = Inr w'"
    by (auto simp: save_files_def rbind_eq_Inr)
  from f have keys: "keys_ok w" and w1: "w1 = w\<lparr>w_db := (w_db w)\<lparr>replicas := replicas (w_db w) @ w_new_replicas w, locks := locks (w_db w) @ w_new_locks w\<rparr>,
      w_new_replicas := [], w_new_locks := [], w_saved_replicas := w_saved_replicas w @ w_new_replicas w,
      w_saved_locks := w_saved_locks w @ w_new_locks w\<rparr>"
    unfolding keys_ok_def pending_sel flush_def Let_def by (simp_all split: if_splits)
  note t = queue_transfers_tables [OF q]
  show "settled w'" using keys unfolding settled_def keys_ok_def pending_sel t w1 by simp
  show "locks (pending w') = locks (pending w)" unfolding pending_sel t w1 by simp
  show "w_selector w' = w_selector w" "contents (w_db w') = contents (w_db w)" unfolding t w1 by simp_all
qed

lemma file_state_cong:
  assumes "locks (pending w') = locks (pending w)" and "w_selector w' = w_selector w"
  shows "file_state Q T r (ts, u, w') = file_state Q T r (ts, u', w)" and "placed r w' k = placed r w k"
  using assms by (simp_all add: file_state_def well_placed_def sel_ok_def placed_def del: pending_sel)

definition part_files :: "apply_env \<Rightarrow> rule_db \<Rightarrow> did \<Rightarrow> nat \<Rightarrow> nat \<Rightarrow> did set" where
  "part_files e d k n p = set (dataset_files d k (in_thread (db_dialect e) (name_hashes e) (Some n) (Some p)))"

definition children :: "rule_db \<Rightarrow> did \<Rightarrow> did set" where
  "children d k = c_child ` set (filter (\<lambda>c. c_parent c = k) (contents d))"

lemma parts_cover:
  assumes "ora_hash_bounded (name_hashes e)" and "0 < n"
  shows "(\<Union>p \<in> set [0..<n]. part_files e d k n p) = children d k"
proof
  show "(\<Union>p \<in> set [0..<n]. part_files e d k n p) \<subseteq> children d k"
    by (auto simp: part_files_def dataset_files_def children_def)
  show "children d k \<subseteq> (\<Union>p \<in> set [0..<n]. part_files e d k n p)"
  proof
    fix x assume "x \<in> children d k"
    moreover obtain p where "p < n" "in_thread (db_dialect e) (name_hashes e) (Some n) (Some p) (snd x)"
      using in_thread_exists [OF assms] by blast
    ultimately show "x \<in> (\<Union>p \<in> set [0..<n]. part_files e d k n p)"
      by (auto simp: part_files_def dataset_files_def children_def intro!: bexI [of _ p])
  qed
qed

text \<open>The facts that hold before and after each part.\<close>

definition run_ok :: "(string list \<Rightarrow> bool) \<Rightarrow> string set \<Rightarrow> rule \<Rightarrow> content_row list \<Rightarrow> (string \<times> bool \<times> bool) list \<times> string list \<times> work \<Rightarrow> bool" where
  "run_ok Q T r cs s \<longleftrightarrow> file_state Q T r s \<and> settled (snd (snd s)) \<and> contents (w_db (snd (snd s))) = cs \<and> distinct (map c_key cs)"

lemma apply_partition_placed:
  assumes fair: "fair (selecting e)" and c: "0 < r_copies r" and ok: "run_ok Q T r cs (ts, u, w)" and sub: "T \<subseteq> set rs"
    and run: "apply_partition e r k rs source_rses n p (ts, u, w) = Inr (ts', u', w')"
  shows "run_ok Q T r cs (ts', u', w') \<and> fills r (part_files e (w_db w) k n p) w w' \<and> (r_grouping r \<noteq> GroupNONE \<longrightarrow> ts' = ts)"
proof -
  let ?mine = "in_thread (db_dialect e) (name_hashes e) (Some n) (Some p)"
  let ?ls = "get_files_and_replica_locks_of_dataset (db_dialect e = PostgreSQL) (w_db w) k (Some rs) False ?mine"
  have st: "file_state Q T r (ts, u, w)" and set: "settled w" and cs: "contents (w_db w) = cs" and wf: "files_wf (w_db w)" and dist: "distinct (map c_key cs)"
    using ok by (simp_all add: run_ok_def files_wf_def)
  obtain files reps where q: "get_and_lock_file_replicas_for_dataset (db_dialect e = PostgreSQL) (w_db w) k (Some rs) ?mine = (files, reps)"
    by (cases "get_and_lock_file_replicas_for_dataset (db_dialect e = PostgreSQL) (w_db w) k (Some rs) ?mine")
  have files: "f_did ` set files = part_files e (w_db w) k n p"
  proof -
    have "files = map content_file (filter (\<lambda>c. ?mine (c_child_name c)) (filter (\<lambda>c. c_parent c = k) (contents (w_db w))))"
      using q by (simp add: get_and_lock_file_replicas_for_dataset_def Let_def)
    then show ?thesis
      by (auto simp: part_files_def dataset_files_def content_file_def c_child_def image_image)
  qed
  let ?w1 = "read_files ?ls reps w"
  from run obtain source_replicas w2 where
    loop: "rfold (apply_file e r k source_rses source_replicas) files (ts, u, ?w1) = Inr (ts', u', w2)"
    and save: "save_files e w2 = Inr w'"
    by (auto simp: apply_partition_def Let_def rbind_eq_Inr q)
  have well: "well_placed Q r w" and Q: "\<And>rs. Q rs \<Longrightarrow> set rs \<subseteq> T"
    using st by (auto simp: file_state_def wanted_def targets_ok_def)
  have read: "locks (pending ?w1) = locks (pending w)" "w_selector ?w1 = w_selector w" "contents (w_db ?w1) = contents (w_db w)"
    by (simp_all add: read_files_def)
  have st1: "file_state Q T r (ts, u, ?w1)" using st file_state_cong(1) [OF read(1,2)] by blast
  note sf = save_files_frame [OF save]
  from apply_files_placed [OF fair c st1 dict_ok_read [OF wf set well Q sub] loop]
  have "file_state Q T r (ts', u', w2)" and fill: "fills r (f_did ` set files) ?w1 w2" and "contents (w_db w2) = contents (w_db ?w1)"
    and same: "r_grouping r \<noteq> GroupNONE \<longrightarrow> ts' = ts" by simp_all
  then have "run_ok Q T r cs (ts', u', w')"
    using sf cs dist file_state_cong(1) [OF sf(2,3), of Q T r ts' u' u'] by (simp add: run_ok_def read(3) del: pending_sel)
  moreover have "fills r (part_files e (w_db w) k n p) w w'"
    using fill file_state_cong(2) [OF sf(2,3), where r = r] file_state_cong(2) [OF read(1,2), where r = r] unfolding fills_def files by presburger
  ultimately show ?thesis using same by blast
qed

lemma part_files_cong: "contents d' = contents d \<Longrightarrow> part_files e d' k n p = part_files e d k n p"
  by (simp add: part_files_def dataset_files_def)

lemma apply_partitions_placed:
  assumes fair: "fair (selecting e)" and c: "0 < r_copies r" and ok: "run_ok Q T r cs (ts, u, w)" and sub: "T \<subseteq> set rs"
    and run: "rfold (apply_partition e r k rs source_rses n) ps (ts, u, w) = Inr (ts', u', w')"
  shows "run_ok Q T r cs (ts', u', w') \<and> fills r (\<Union>p \<in> set ps. part_files e (w_db w) k n p) w w' \<and> (r_grouping r \<noteq> GroupNONE \<longrightarrow> ts' = ts)"
  using ok run
proof (induction ps arbitrary: ts u w)
  case Nil
  then show ?case by (simp add: fills_same)
next
  case (Cons p ps)
  from Cons.prems(2) obtain ts1 u1 w1 where one: "apply_partition e r k rs source_rses n p (ts, u, w) = Inr (ts1, u1, w1)"
    and rest: "rfold (apply_partition e r k rs source_rses n) ps (ts1, u1, w1) = Inr (ts', u', w')"
    by (auto simp: rbind_eq_Inr)
  note step = apply_partition_placed [OF fair c Cons.prems(1) sub one]
  then have ih: "run_ok Q T r cs (ts', u', w') \<and> fills r (\<Union>p \<in> set ps. part_files e (w_db w1) k n p) w1 w' \<and> (r_grouping r \<noteq> GroupNONE \<longrightarrow> ts' = ts1)"
    using Cons.IH [OF _ rest] by blast
  have "contents (w_db w1) = contents (w_db w)" using step Cons.prems(1) by (simp add: run_ok_def)
  note pf = part_files_cong [OF this, of e]
  from step ih have "fills r (part_files e (w_db w) k n p \<union> (\<Union>p \<in> set ps. part_files e (w_db w) k n p)) w w'"
    unfolding pf by (blast intro: fills_trans)
  then show ?case using step ih by simp
qed

text \<open>The rows for the datasets leave the locks of the files alone.\<close>

definition same_files :: "work \<Rightarrow> work \<Rightarrow> bool" where
  "same_files w w' \<longleftrightarrow> locks (w_db w') = locks (w_db w) \<and> replicas (w_db w') = replicas (w_db w) \<and> contents (w_db w') = contents (w_db w) \<and>
     w_new_replicas w' = w_new_replicas w \<and> w_new_locks w' = w_new_locks w \<and> w_selector w' = w_selector w"

lemma same_files_refl: "same_files w w"
  by (simp add: same_files_def)

lemma same_files_trans: "same_files w w' \<Longrightarrow> same_files w' w'' \<Longrightarrow> same_files w w''"
  by (simp add: same_files_def)

lemma same_files_rows:
  "same_files w (ensure_dataset_replica k rse w)" "add_dataset_lock r k len b rse w = Inr w' \<Longrightarrow> same_files w w'"
  by (auto simp: same_files_def ensure_dataset_replica_def add_dataset_lock_def split: if_splits)

lemma same_filesD:
  assumes "same_files w w'"
  shows "locks (pending w') = locks (pending w)" "w_selector w' = w_selector w" "settled w' = settled w" "contents (w_db w') = contents (w_db w)"
  using assms by (simp_all add: same_files_def settled_def keys_ok_def)

lemma run_ok_cong:
  assumes "same_files w w'"
  shows "run_ok Q T r cs (ts, u, w') = run_ok Q T r cs (ts, u, w)" and "placed r w' k = placed r w k"
  using same_filesD [OF assms] file_state_cong(1) [OF same_filesD(1,2) [OF assms], of Q T r ts u u] file_state_cong(2) [OF same_filesD(1,2) [OF assms]]
  by (simp_all add: run_ok_def del: pending_sel)

text \<open>One dataset, after its RSEs are selected.\<close>

lemma apply_datasetE:
  assumes "apply_dataset e r rs source_rses k (ts, u, w) = Inr (ts', u', w')"
  obtains n ts1 w1 w2 where "0 < n"
    and "if r_grouping r = GroupDATASET then \<exists>m preferred existing. select_targets e m preferred [] True existing w = Inr (ts1, w1)
      else ts1 = ts \<and> w1 = w"
    and "rfold (apply_partition e r k rs source_rses n) [0..<n] (ts1, u, w1) = Inr (ts', u', w2)"
    and "same_files w2 w'"
proof -
  from assms obtain is_open b len where ds: "get_dataset (w_db w) k = Inr (is_open, b, len)" by (auto simp: apply_dataset_def rbind_eq_Inr)
  define n where "n = nat len div max_partition_size e + 1"
  define size where "size = (if is_open = Some True then (None, None) else (Some len, Some b))"
  note run = assms [unfolded apply_dataset_def ds rbind_Inr prod.case Let_def n_def [symmetric] size_def [symmetric] case_prod_unfold fst_conv snd_conv]
  from run obtain acc1 where
    sel: "(if r_grouping r = GroupDATASET then
         rbind (select_targets e (Some b) (best_covered (get_rse_coverage_of_dataset (w_db w) k)) [] True (\<lambda>_. get_rse_coverage_of_dataset (w_db w) k) w)
           (\<lambda>x. Inr (fst x, u, snd x))
       else Inr (ts, u, w)) = Inr acc1"
    and rest: "rbind (rfold (apply_partition e r k rs source_rses n) [0..<n] acc1) (\<lambda>x.
      rbind (rfold (\<lambda>rse w. rbind (if r_grouping r = GroupNONE then Inr w else add_dataset_lock r k (fst size) (snd size) rse w)
          (\<lambda>w'. Inr (ensure_dataset_replica k rse w'))) (if r_grouping r = GroupNONE then fst (snd x) else map fst (fst x)) (snd (snd x)))
        (\<lambda>w3. Inr (fst x, fst (snd x), w3))) = Inr (ts', u', w')"
    by (rule rbind_InrE)
  from rest obtain w2 where parts: "rfold (apply_partition e r k rs source_rses n) [0..<n] acc1 = Inr (ts', u', w2)"
    and rows: "rfold (\<lambda>rse w. rbind (if r_grouping r = GroupNONE then Inr w else add_dataset_lock r k (fst size) (snd size) rse w)
        (\<lambda>w'. Inr (ensure_dataset_replica k rse w'))) (if r_grouping r = GroupNONE then u' else map fst ts') w2 = Inr w'"
    by (auto simp: rbind_eq_Inr cong: if_cong)
  have n: "0 < n" by (simp add: n_def)
  obtain ts1 w1 where acc1: "acc1 = (ts1, u, w1)"
    and s: "if r_grouping r = GroupDATASET then \<exists>m preferred existing. select_targets e m preferred [] True existing w = Inr (ts1, w1)
      else ts1 = ts \<and> w1 = w"
  proof (cases "r_grouping r = GroupDATASET")
    case True
    with sel obtain ts1 w1 where acc1: "acc1 = (ts1, u, w1)"
      and s: "select_targets e (Some b) (best_covered (get_rse_coverage_of_dataset (w_db w) k)) [] True (\<lambda>_. get_rse_coverage_of_dataset (w_db w) k) w
        = Inr (ts1, w1)" by (auto simp: rbind_eq_Inr)
    have "\<exists>m preferred existing. select_targets e m preferred [] True existing w = Inr (ts1, w1)" by (intro exI) (rule s)
    with True acc1 that show thesis by simp
  next
    case False
    with sel that show thesis by simp
  qed
  have "same_files w2 w'"
  proof (rule rfold_invariant [OF rows, of "same_files w2"])
    show "same_files w2 w2" by (rule same_files_refl)
    fix rse s t
    assume I: "same_files w2 s" and body: "rbind (if r_grouping r = GroupNONE then Inr s else add_dataset_lock r k (fst size) (snd size) rse s)
      (\<lambda>w'. Inr (ensure_dataset_replica k rse w')) = Inr t"
    from body obtain s1 where x: "(if r_grouping r = GroupNONE then Inr s else add_dataset_lock r k (fst size) (snd size) rse s) = Inr s1"
      and t: "t = ensure_dataset_replica k rse s1" by (auto simp: rbind_eq_Inr)
    have s1: "same_files s s1" using x by (auto split: if_splits intro: same_files_refl same_files_rows(2))
    show "same_files w2 t" unfolding t by (rule same_files_trans [OF same_files_trans [OF I s1] same_files_rows(1)])
  qed
  with that n s parts show thesis unfolding acc1 by blast
qed

lemma apply_dataset_placed:
  assumes fair: "fair (selecting e)" and hash: "ora_hash_bounded (name_hashes e)" and c: "0 < r_copies r" and sub: "T \<subseteq> set rs"
    and run: "rfold (apply_partition e r k rs source_rses n) [0..<n] (ts1, u, w1) = Inr (ts', u', w2)" and n: "0 < n"
    and rows: "same_files w2 w'" and ok: "run_ok Q T r cs (ts1, u, w1)"
  shows "run_ok Q T r cs (ts', u', w') \<and> fills r (children (w_db w1) k) w1 w' \<and> (r_grouping r \<noteq> GroupNONE \<longrightarrow> ts' = ts1)"
proof -
  have "fills r (children (w_db w1) k) w1 w2" and rest: "run_ok Q T r cs (ts', u', w2)" "r_grouping r \<noteq> GroupNONE \<longrightarrow> ts' = ts1"
    using apply_partitions_placed [OF fair c ok sub run] unfolding parts_cover [OF hash n] by blast+
  then show ?thesis using run_ok_cong [OF rows] unfolding fills_def by presburger
qed

section \<open>The whole DID\<close>

definition files_of :: "rule_db \<Rightarrow> did_row \<Rightarrow> did set" where
  "files_of d x = (if d_type x = FILE then {did_of x} else \<Union>k \<in> set (datasets_of d x). children d k)"

definition on_rses :: "rule \<Rightarrow> rule_db \<Rightarrow> did \<Rightarrow> string list" where
  "on_rses r d k = map l_rse_id (rule_locks (r_id r) (locks d) k)"

lemma run_ok_select:
  assumes fair: "fair (selecting e)" and c: "0 < r_copies r" and Q: "\<And>rs. Q rs \<longleftrightarrow> targets_ok T (r_copies r) rs"
    and well: "well_placed Q r w" "sel_ok T (r_copies r) w" "settled w" "contents (w_db w) = cs" "distinct (map c_key cs)"
    and s: "select_targets e m preferred [] True existing w = Inr (ts, w')"
  shows "run_ok Q T r cs (ts, u, w') \<and> (\<forall>k. placed r w' k = placed r w k) \<and> w_db w' = w_db w"
proof -
  obtain sel' where w': "w' = w\<lparr>w_selector := sel'\<rparr>" by (rule select_targets_frame [OF s])
  have pl: "\<forall>k. placed r w' k = placed r w k" by (simp add: placed_def w')
  have "settled w'" using well(3) by (simp add: settled_def keys_ok_def w')
  moreover have "well_placed Q r w'" using well(1) pl unfolding well_placed_def by simp
  moreover have "wanted Q T r ts" using select_targets_ok(1) [OF fair well(2) c s] by (simp add: wanted_def Q)
  ultimately show ?thesis
    using pl select_targets_ok(2) [OF fair well(2) c s] well(4,5) by (simp add: run_ok_def file_state_def w')
qed

text \<open>The datasets one after the other: each file gets locks as the copies ask.\<close>

lemma apply_datasets_placed:
  assumes fair: "fair (selecting e)" and hash: "ora_hash_bounded (name_hashes e)" and c: "0 < r_copies r" and sub: "T \<subseteq> set rs"
    and Q: "r_grouping r \<noteq> GroupALL \<Longrightarrow> (\<And>x. Q x \<longleftrightarrow> targets_ok T (r_copies r) x)"
    and ok: "if r_grouping r = GroupDATASET then well_placed Q r w \<and> sel_ok T (r_copies r) w \<and> settled w \<and> contents (w_db w) = cs \<and> distinct (map c_key cs)
      else run_ok Q T r cs (ts, u, w)"
    and run: "rfold (apply_dataset e r rs source_rses) ks (ts, u, w) = Inr (ts', u', w')"
  shows "well_placed Q r w' \<and> settled w' \<and> contents (w_db w') = cs \<and> fills r (\<Union>k \<in> set ks. children (w_db w) k) w w'"
  using ok run
proof (induction ks arbitrary: ts u w)
  case Nil
  then show ?case by (auto simp: fills_same run_ok_def file_state_def split: if_splits)
next
  case (Cons k ks)
  from Cons.prems(2) obtain ts3 u3 w3 where one: "apply_dataset e r rs source_rses k (ts, u, w) = Inr (ts3, u3, w3)"
    and rest: "rfold (apply_dataset e r rs source_rses) ks (ts3, u3, w3) = Inr (ts', u', w')"
    by (auto simp: rbind_eq_Inr)
  from one obtain n ts1 w1 w2 where n: "0 < n"
    and sel: "if r_grouping r = GroupDATASET then \<exists>m preferred existing. select_targets e m preferred [] True existing w = Inr (ts1, w1)
      else ts1 = ts \<and> w1 = w"
    and parts: "rfold (apply_partition e r k rs source_rses n) [0..<n] (ts1, u, w1) = Inr (ts3, u3, w2)"
    and rows: "same_files w2 w3"
    by (rule apply_datasetE)
  have st1: "run_ok Q T r cs (ts1, u, w1) \<and> (\<forall>k. placed r w1 k = placed r w k) \<and> contents (w_db w1) = contents (w_db w)"
  proof (cases "r_grouping r = GroupDATASET")
    case True
    with sel obtain m preferred existing where s: "select_targets e m preferred [] True existing w = Inr (ts1, w1)" by auto
    have "\<And>x. Q x \<longleftrightarrow> targets_ok T (r_copies r) x" using Q True by simp
    from run_ok_select [OF fair c this _ _ _ _ _ s, of cs u] Cons.prems(1) True show ?thesis by simp
  next
    case False
    with sel Cons.prems(1) show ?thesis by simp
  qed
  note step = apply_dataset_placed [OF fair hash c sub parts n rows conjunct1 [OF st1]]
  have fill: "fills r (children (w_db w) k) w w3"
  proof -
    have "children (w_db w1) k = children (w_db w) k" using st1 by (simp add: children_def)
    moreover have "fills r (children (w_db w1) k) w w3 = fills r (children (w_db w1) k) w1 w3" using st1 by (intro fills_cong) auto
    ultimately show ?thesis using step by simp
  qed
  have "if r_grouping r = GroupDATASET then well_placed Q r w3 \<and> sel_ok T (r_copies r) w3 \<and> settled w3 \<and> contents (w_db w3) = cs \<and> distinct (map c_key cs)
      else run_ok Q T r cs (ts3, u3, w3)"
    using step by (simp add: run_ok_def file_state_def)
  from Cons.IH [OF this rest] have ih: "well_placed Q r w' \<and> settled w' \<and> contents (w_db w') = cs \<and> fills r (\<Union>k \<in> set ks. children (w_db w3) k) w3 w'" .
  have "contents (w_db w3) = contents (w_db w)" using step st1 by (auto simp: run_ok_def)
  then have ch: "children (w_db w3) x = children (w_db w) x" for x by (simp add: children_def)
  from fills_trans [OF fill, of "\<Union>k \<in> set ks. children (w_db w) k" w'] ih have "fills r (\<Union>k \<in> set (k # ks). children (w_db w) k) w w'"
    unfolding ch by simp
  with ih show ?case by blast
qed

lemma apply_rule_file_placed:
  assumes fair: "fair (selecting e)" and c: "0 < r_copies r" and sel: "sel_ok T (r_copies r) w"
    and fresh: "\<And>k. placed r w k = []" and set: "settled w"
    and run: "apply_rule_file e r d rs source_rses w = Inr w'"
  shows "targets_ok T (r_copies r) (placed r w' (did_of d)) \<and> (\<forall>k. k \<noteq> did_of d \<longrightarrow> placed r w' k = []) \<and> settled w'"
proof -
  let ?k = "did_of d" and ?ls = "get_replica_locks (w_db w) (did_of d) (Some rs)"
  let ?f = "\<lparr>f_did = ?k, f_bytes = d_bytes d, f_md5 = d_md5 d, f_adler32 = d_adler32 d\<rparr>"
  define w1 where "w1 = read_files [?k \<mapsto> ?ls] [?k \<mapsto> map p_rse_id (get_and_lock_file_replicas (w_db w) ?k (Some rs))] w"
  from run obtain m preferred existing ts w2 source_replicas u w3 where
    s: "select_targets e m preferred [] True existing w1 = Inr (ts, w2)"
    and t: "lock_targets e r None source_rses source_replicas ?f ts w2 = Inr (u, w3)" and save: "save_files e w3 = Inr w'"
    unfolding apply_rule_file_def Let_def w1_def [symmetric] by (auto simp: rbind_eq_Inr simp del: lock_targets.simps)
  obtain sel' where w2: "w2 = w1\<lparr>w_selector := sel'\<rparr>" by (rule select_targets_frame [OF s])
  have "placed r w1 k = placed r w k" for k by (simp add: w1_def read_files_def placed_def)
  then have pl: "placed r w2 k = []" for k using fresh by (simp add: w2 placed_def)
  have "dict_ok r w2"
    unfolding dict_ok_def
  proof (intro allI impI)
    fix k ls assume "w_locks w2 k = Some ls"
    then have k: "k = ?k" and ls: "ls = ?ls" by (simp_all add: w2 w1_def read_files_def split: if_splits)
    have none: "rule_locks (r_id r) (locks (pending w2)) k' = []" for k' using pl [of k'] by (simp add: placed_def)
    have "locks (pending w2) = locks (w_db w)" using set by (simp add: w2 w1_def read_files_def settled_def)
    then have "filter (\<lambda>l. l_rule_id l = r_id r \<and> l_did l = ?k) (locks (w_db w)) = []" using none [of ?k] by (simp add: rule_locks_def)
    then show "filter (\<lambda>l. l_rule_id l = r_id r) ls = rule_locks (r_id r) (locks (pending w2)) k"
      unfolding none ls get_replica_locks_def by (auto simp: filter_empty_conv)
  qed
  moreover have "sel_ok T (r_copies r) w1" using sel by (simp add: sel_ok_def w1_def read_files_def)
  note ok = select_targets_ok(1) [OF fair this c s]
  moreover have "distinct (map fst ts)" using ok by (simp add: targets_ok_def)
  moreover have "set (map fst ts) \<inter> set (placed r w2 (f_did ?f)) = {}" by (simp add: pl)
  ultimately have "placed r w3 ?k = map fst ts \<and> (\<forall>x. x \<noteq> ?k \<longrightarrow> placed r w3 x = [])"
    using lock_targets_placed [OF t] unfolding pl append_Nil file_entry.select_convs by blast
  then show ?thesis
    using ok save_files_frame [OF save] unfolding placed_def by (simp del: pending_sel)
qed

text \<open>The state before the first dataset.\<close>

lemma fresh_placed: "settled w \<Longrightarrow> \<forall>l \<in> set (locks (w_db w)). l_rule_id l \<noteq> r_id r \<Longrightarrow> placed r w k = []"
  by (auto simp: placed_def rule_locks_def settled_def)

lemma apply_datasets_copies:
  assumes fair: "fair (selecting e)" and hash: "ora_hash_bounded (name_hashes e)" and c: "0 < r_copies r" and sub: "T \<subseteq> set rs"
    and sel: "sel_ok T (r_copies r) w" and fresh: "\<And>k. placed r w k = []" and set: "settled w" and wf: "distinct (map c_key (contents (w_db w)))"
    and run: "apply_datasets e r ks rs source_rses w = Inr w'"
  obtains Q where "well_placed Q r w'" and "settled w'" and "fills r (\<Union>k \<in> set ks. children (w_db w) k) w w'"
    and "\<And>x. Q x \<Longrightarrow> targets_ok T (r_copies r) x" and "r_grouping r = GroupALL \<or> r_grouping r = GroupDATASET \<and> length ks = 1 \<Longrightarrow> \<exists>rses. \<forall>x. Q x \<longrightarrow> x = rses"
proof -
  from run obtain ts w1 ts' u' where s: "(if r_grouping r = GroupALL then
        rbind (container_coverage (w_db w) ks (0, [])) (\<lambda>(n, covered).
          select_targets e (Some n) (best_covered covered) [] True (\<lambda>_. covered) w)
      else Inr ([], w)) = Inr (ts, w1)"
    and loop: "rfold (apply_dataset e r rs source_rses) ks (ts, [], w1) = Inr (ts', u', w')"
    by (auto simp: apply_datasets_def rbind_eq_Inr split: prod.splits)
  let ?cs = "contents (w_db w)" and ?P = "targets_ok T (r_copies r)"
  have well: "well_placed Q r w" for Q by (simp add: well_placed_def fresh)
  show thesis
  proof (cases "r_grouping r = GroupALL")
    case True
    with s obtain n covered where sel1: "select_targets e (Some n) (best_covered covered) [] True (\<lambda>_. covered) w = Inr (ts, w1)"
      by (auto simp: rbind_eq_Inr)
    let ?Q = "\<lambda>x. x = map fst ts"
    note good = select_targets_ok [OF fair sel c sel1]
    obtain sel' where w1: "w1 = w\<lparr>w_selector := sel'\<rparr>" by (rule select_targets_frame [OF sel1])
    have pl: "placed r w1 k = placed r w k" for k by (simp add: placed_def w1)
    have "run_ok ?Q T r ?cs (ts, [], w1)"
      using good True wf set fresh pl by (auto simp: run_ok_def file_state_def wanted_def well_placed_def settled_def keys_ok_def w1)
    from apply_datasets_placed [OF fair hash c sub _ _ loop, where Q = ?Q and cs = ?cs] this True
    have "well_placed ?Q r w'" "settled w'" "fills r (\<Union>k \<in> set ks. children (w_db w) k) w1 w'" by (simp_all add: w1)
    moreover have "fills r K w1 w' = fills r K w w'" for K by (rule fills_cong) (simp_all add: pl)
    ultimately show thesis using good(1) by (intro that [of ?Q]) auto
  next
    case notall: False
    with s have w1: "ts = []" "w1 = w" by simp_all
    show thesis
    proof (cases "r_grouping r = GroupDATASET \<and> length ks = 1")
      case True
      then obtain k where ks: "ks = [k]" by (auto simp: length_Suc_conv)
      from loop have one: "apply_dataset e r rs source_rses k ([], [], w) = Inr (ts', u', w')"
        by (auto simp: ks w1 rbind_eq_Inr)
      from one obtain n ts1 w2 w3 where n: "0 < n"
        and "if r_grouping r = GroupDATASET then \<exists>m preferred existing. select_targets e m preferred [] True existing w = Inr (ts1, w2)
          else ts1 = [] \<and> w2 = w"
        and parts: "rfold (apply_partition e r k rs source_rses n) [0..<n] (ts1, [], w2) = Inr (ts', u', w3)" and rows: "same_files w3 w'"
        by (rule apply_datasetE)
      then obtain m preferred existing where sel1: "select_targets e m preferred [] True existing w = Inr (ts1, w2)" using True by auto
      let ?Q = "\<lambda>x. x = map fst ts1"
      note good = select_targets_ok [OF fair sel c sel1]
      obtain sel' where w2: "w2 = w\<lparr>w_selector := sel'\<rparr>" by (rule select_targets_frame [OF sel1])
      have pl: "placed r w2 k = placed r w k" for k by (simp add: placed_def w2)
      have "run_ok ?Q T r ?cs (ts1, [], w2)"
        using good True wf set fresh pl by (auto simp: run_ok_def file_state_def wanted_def well_placed_def settled_def keys_ok_def w2)
      from apply_dataset_placed [OF fair hash c sub parts n rows this]
      have "well_placed ?Q r w'" "settled w'" "fills r (children (w_db w) k) w2 w'" by (simp_all add: run_ok_def file_state_def w2)
      moreover have "fills r K w2 w' = fills r K w w'" for K by (rule fills_cong) (simp_all add: pl)
      ultimately show thesis using good(1) by (intro that [of ?Q]) (auto simp: ks)
    next
      case False
      have "if r_grouping r = GroupDATASET then well_placed ?P r w \<and> sel_ok T (r_copies r) w \<and> settled w \<and> contents (w_db w) = ?cs \<and> distinct (map c_key ?cs)
          else run_ok ?P T r ?cs ([], [], w)"
        using sel set wf well notall by (cases "r_grouping r") (auto simp: run_ok_def file_state_def wanted_def)
      from apply_datasets_placed [OF fair hash c sub _ this loop [unfolded w1]]
      have "well_placed ?P r w'" "settled w'" "fills r (\<Union>k \<in> set ks. children (w_db w) k) w w'" by simp_all
      then show thesis using False notall by (intro that [of ?P]) auto
    qed
  qed
qed

lemma on_rses_placed: "settled w \<Longrightarrow> on_rses r (w_db w) k = placed r w k"
  by (simp add: on_rses_def placed_def settled_def)

lemma book_counters_frame:
  assumes "book_counters r w = Inr w'"
  shows "locks (w_db w') = locks (w_db w)" "replicas (w_db w') = replicas (w_db w)" "w_new_replicas w' = w_new_replicas w" "w_new_locks w' = w_new_locks w"
  using assms by (auto simp: book_counters_def Let_def split: if_splits)

lemma book_counters_settled: "book_counters r w = Inr w' \<Longrightarrow> settled w' = settled w"
  using book_counters_frame [of r w w'] by (simp add: settled_def keys_ok_def)

lemma well_placedD: "well_placed Q r w \<Longrightarrow> placed r w k \<noteq> [] \<Longrightarrow> Q (placed r w k)"
  unfolding well_placed_def by blast

text \<open>What the application of a rule without locks leaves: \<open>Q\<close> says which RSEs a file can have.\<close>

lemma apply_rule_placed:
  assumes fair: "fair (selecting e)" and hash: "ora_hash_bounded (name_hashes e)" and c: "0 < r_copies r" and sub: "T \<subseteq> set rs"
    and sel: "sel_ok T (r_copies r) w" and fresh: "\<forall>l \<in> set (locks (w_db w)). l_rule_id l \<noteq> r_id r" and set: "settled w"
    and wf: "distinct (map c_key (contents (w_db w)))" and run: "apply_rule e r d rs source_rses w = Inr w'"
  obtains Q where "\<And>k. k \<in> files_of (w_db w) d \<Longrightarrow> Q (on_rses r (w_db w') k)" and "\<And>k. k \<notin> files_of (w_db w) d \<Longrightarrow> on_rses r (w_db w') k = []"
    and "\<And>x. Q x \<Longrightarrow> targets_ok T (r_copies r) x"
    and "r_grouping r = GroupALL \<or> r_grouping r = GroupDATASET \<and> d_type d = DATASET \<Longrightarrow> \<exists>rses. \<forall>x. Q x \<longrightarrow> x = rses"
proof -
  have none: "placed r w k = []" for k using fresh_placed [OF set fresh] .
  from run obtain w1 where w1: "(if d_type d = FILE then apply_rule_file e r d rs source_rses w
      else apply_datasets e r (datasets_of (w_db w) d) rs source_rses w) = Inr w1" and b: "book_counters r w1 = Inr w'"
    by (auto simp: apply_rule_def rbind_eq_Inr)
  have on: "on_rses r (w_db w') k = on_rses r (w_db w1) k" for k using book_counters_frame(1) [OF b] by (simp add: on_rses_def)
  show thesis
  proof (cases "d_type d = FILE")
    case True
    with w1 have "apply_rule_file e r d rs source_rses w = Inr w1" by simp
    from apply_rule_file_placed [OF fair c sel none set this]
    have p: "targets_ok T (r_copies r) (placed r w1 (did_of d))" "\<And>k. k \<noteq> did_of d \<Longrightarrow> placed r w1 k = []" and "settled w1" by blast+
    note on1 = on [unfolded on_rses_placed [OF \<open>settled w1\<close>]]
    show thesis by (rule that [of "\<lambda>x. x = placed r w1 (did_of d)"]) (use True p in \<open>auto simp: files_of_def on1\<close>)
  next
    case False
    with w1 have "apply_datasets e r (datasets_of (w_db w) d) rs source_rses w = Inr w1" by simp
    from apply_datasets_copies [OF fair hash c sub sel none set wf this] obtain Q where well: "well_placed Q r w1" and "settled w1"
      and fill: "fills r (\<Union>k \<in> set (datasets_of (w_db w) d). children (w_db w) k) w w1" and Q: "\<And>x. Q x \<Longrightarrow> targets_ok T (r_copies r) x"
      and one: "r_grouping r = GroupALL \<or> r_grouping r = GroupDATASET \<and> length (datasets_of (w_db w) d) = 1 \<Longrightarrow> \<exists>rses. \<forall>x. Q x \<longrightarrow> x = rses"
      by metis
    have F: "(\<Union>k \<in> set (datasets_of (w_db w) d). children (w_db w) k) = files_of (w_db w) d" using False by (simp add: files_of_def)
    have len: "d_type d = DATASET \<Longrightarrow> length (datasets_of (w_db w) d) = 1" by (simp add: datasets_of_def)
    note on1 = on [unfolded on_rses_placed [OF \<open>settled w1\<close>]]
    show thesis
    proof (rule that [of Q])
      show "Q (on_rses r (w_db w') k)" if "k \<in> files_of (w_db w) d" for k
        unfolding on1 by (rule well_placedD [OF well]) (rule fillsD(1) [OF fill [unfolded F] that])
      show "on_rses r (w_db w') k = []" if "k \<notin> files_of (w_db w) d" for k
        unfolding on1 fillsD(2) [OF fill [unfolded F] that] by (rule none)
    qed (use Q one len in blast)+
  qed
qed

text \<open>C2: A rule without locks, applied to a DID, gets on every file of the DID exactly as many locks as it has copies, on pairwise different
  RSEs of its selector, and none on any other file.\<close>

theorem apply_rule_places_copies:
  assumes "fair (selecting e)" and "ora_hash_bounded (name_hashes e)" and "selector_wf (w_selector w)"
    and "sel_copies (w_selector w) = r_copies r" and "0 < r_copies r" and "set (map t_id (sel_targets (w_selector w))) \<subseteq> set rs"
    and "settled w" and "distinct (map c_key (contents (w_db w)))" and "\<forall>l \<in> set (locks (w_db w)). l_rule_id l \<noteq> r_id r"
    and "apply_rule e r d rs source_rses w = Inr w'"
  shows "(\<forall>k \<in> files_of (w_db w) d. int (length (on_rses r (w_db w') k)) = r_copies r \<and> distinct (on_rses r (w_db w') k) \<and>
      set (on_rses r (w_db w') k) \<subseteq> set (map t_id (sel_targets (w_selector w)))) \<and>
    (\<forall>k. k \<notin> files_of (w_db w) d \<longrightarrow> on_rses r (w_db w') k = [])"
proof -
  let ?T = "set (map t_id (sel_targets (w_selector w)))"
  have "sel_ok ?T (r_copies r) w" using assms(3,4) by (simp add: sel_ok_def)
  from apply_rule_placed [OF assms(1,2,5,6) this assms(9,7,8,10)] obtain Q where
    "\<And>k. k \<in> files_of (w_db w) d \<Longrightarrow> Q (on_rses r (w_db w') k)" and "\<And>k. k \<notin> files_of (w_db w) d \<Longrightarrow> on_rses r (w_db w') k = []"
    and "\<And>x. Q x \<Longrightarrow> targets_ok ?T (r_copies r) x" by metis
  then show ?thesis unfolding targets_ok_def by blast
qed

text \<open>C3: Under the grouping \<^verbatim>\<open>ALL\<close>, and for a dataset under the grouping \<^verbatim>\<open>DATASET\<close>, a new rule puts all files of the DID on the same RSEs,
  in whatever parts the dataset is processed.\<close>

theorem grouped_files_together:
  assumes "fair (selecting e)" and "ora_hash_bounded (name_hashes e)" and "selector_wf (w_selector w)"
    and "sel_copies (w_selector w) = r_copies r" and "0 < r_copies r" and "set (map t_id (sel_targets (w_selector w))) \<subseteq> set rs"
    and "settled w" and "distinct (map c_key (contents (w_db w)))" and "\<forall>l \<in> set (locks (w_db w)). l_rule_id l \<noteq> r_id r"
    and "apply_rule e r d rs source_rses w = Inr w'"
    and "r_grouping r = GroupALL \<or> r_grouping r = GroupDATASET \<and> d_type d = DATASET"
    and "j \<in> files_of (w_db w) d" and "k \<in> files_of (w_db w) d"
  shows "on_rses r (w_db w') j = on_rses r (w_db w') k"
proof -
  let ?T = "set (map t_id (sel_targets (w_selector w)))"
  have "sel_ok ?T (r_copies r) w" using assms(3,4) by (simp add: sel_ok_def)
  from apply_rule_placed [OF assms(1,2,5,6) this assms(9,7,8,10)] obtain Q where
    Q: "\<And>k. k \<in> files_of (w_db w) d \<Longrightarrow> Q (on_rses r (w_db w') k)" and "\<exists>rses. \<forall>x. Q x \<longrightarrow> x = rses" using assms(11) by metis
  then obtain rses where "\<And>x. Q x \<Longrightarrow> x = rses" by blast
  with Q [OF assms(12)] Q [OF assms(13)] show ?thesis by metis
qed

section \<open>Exact counters\<close>

lemma apply_partition_settled: "apply_partition e r k rs source_rses n p (ts, u, w) = Inr (ts', u', w') \<Longrightarrow> settled w'"
  by (auto simp: apply_partition_def Let_def rbind_eq_Inr split: prod.splits intro: save_files_frame(1))

lemma apply_dataset_settled:
  assumes "apply_dataset e r rs source_rses k (ts, u, w) = Inr (ts', u', w')" and "settled w"
  shows "settled w'"
proof -
  from assms(1) obtain n ts1 w1 w2 where n: "0 < n"
    and parts: "rfold (apply_partition e r k rs source_rses n) [0..<n] (ts1, u, w1) = Inr (ts', u', w2)" and rows: "same_files w2 w'"
    by (rule apply_datasetE)
  obtain m where "n = Suc m" using n by (cases n) auto
  with parts obtain s where s: "rfold (apply_partition e r k rs source_rses n) [0..<m] (ts1, u, w1) = Inr s"
    and last: "apply_partition e r k rs source_rses n m s = Inr (ts', u', w2)"
    by (auto simp: rfold_append rbind_eq_Inr)
  have "settled w2" using last by (cases s) (auto dest: apply_partition_settled)
  then show ?thesis using same_filesD(3) [OF rows] by simp
qed

lemma apply_rule_settled:
  assumes "apply_rule e r d rs source_rses w = Inr w'" and "settled w"
  shows "settled w'"
proof -
  from assms(1) obtain w1 where w1: "(if d_type d = FILE then apply_rule_file e r d rs source_rses w
      else apply_datasets e r (datasets_of (w_db w) d) rs source_rses w) = Inr w1" and b: "book_counters r w1 = Inr w'"
    by (auto simp: apply_rule_def rbind_eq_Inr)
  have "settled w1"
  proof (cases "d_type d = FILE")
    case True
    with w1 show ?thesis by (auto simp: apply_rule_file_def Let_def rbind_eq_Inr simp del: lock_targets.simps intro: save_files_frame(1))
  next
    case False
    with w1 obtain ts w2 ts' u' where sel: "(if r_grouping r = GroupALL then
          rbind (container_coverage (w_db w) (datasets_of (w_db w) d) (0, [])) (\<lambda>(n, covered).
            select_targets e (Some n) (best_covered covered) [] True (\<lambda>_. covered) w)
        else Inr ([], w)) = Inr (ts, w2)"
      and loop: "rfold (apply_dataset e r rs source_rses) (datasets_of (w_db w) d) (ts, [], w2) = Inr (ts', u', w1)"
      by (auto simp: apply_datasets_def rbind_eq_Inr split: prod.splits)
    have "settled w2"
      using sel assms(2) by (auto simp: rbind_eq_Inr settled_def keys_ok_def split: if_splits elim: select_targets_frame)
    then have "settled (snd (snd (ts', u', w1)))"
      by (intro rfold_invariant [OF loop, of "\<lambda>s. settled (snd (snd s))"]) (auto dest: apply_dataset_settled)
    then show ?thesis by simp
  qed
  then show ?thesis using book_counters_settled [OF b] by simp
qed

lemma create_settled:
  assumes "create_locks_replicas_transfers e r xs preferred source_rses source_replicas w = Inr w'"
  shows "settled w'"
proof -
  from assms obtain w1 w2 w3 where f: "flush w1 = Inr w2" and b: "book_counters r w2 = Inr w3" and q: "queue_transfers e w3 = Inr w'"
    by (auto simp: create_locks_replicas_transfers_def rbind_eq_Inr)
  have "settled w2" using f by (auto simp: flush_def Let_def settled_def keys_ok_def split: if_splits)
  then show ?thesis
    using book_counters_settled [OF b] queue_transfers_tables [OF q] by (simp add: settled_def keys_ok_def)
qed

text \<open>C7: Applying a rule, to a new DID or to files that were read before, keeps the ledger exact: the counters of every rule and of every
  replica are the numbers of their locks, and every lock has its replica.\<close>

theorem application_keeps_counters:
  assumes "ledger_ok (w_db w)" and "backed (w_db w)" and "w_new_replicas w = []" and "w_new_locks w = []"
    and "r_id r \<in> r_id ` set (rules (w_db w))"
    and "apply_rule e r d rs source_rses w = Inr w' \<or> create_locks_replicas_transfers e r xs preferred source_rses source_replicas w = Inr w'"
  shows "ledger_ok (w_db w') \<and> backed (w_db w')"
proof -
  have w: "pending w = w_db w" using assms(3,4) by (simp add: pending_def)
  have ex: "exact (pending w)" using assms(1,2) by (simp add: exact_def w)
  have "settled w"
    using assms(1,3,4) by (simp add: settled_def keys_ok_def ledger_ok_def rep_views_def comp_def)
  with assms(6) have "settled w'" by (blast intro: apply_rule_settled create_settled)
  moreover have "ledger_step (r_id r) w w'" using assms(6) by (blast intro: ledger.applied ledger.created)
  ultimately have "exact (pending w')" using ex assms(5) by (simp add: ledger_step_def settled_def)
  moreover have "pending w' = w_db w'" using \<open>settled w'\<close> by (simp add: pending_def settled_def)
  ultimately show ?thesis by (simp add: exact_def)
qed

section \<open>A rule on a dataset of two files\<close>

text \<open>The rule \<open>R\<close> asks for one copy of the dataset \<open>D\<close>, which is processed in three parts; nothing is replicated yet.\<close>

definition demo_targets :: selector where
  "demo_targets = \<lparr>sel_copies = 1, sel_targets = [demo_target ''A'' 100, demo_target ''B'' 100], sel_draws = 0\<rparr>"

definition demo_apply_env :: apply_env where
  "demo_apply_env = \<lparr>services = [''activemq'', ''email''], now = 10, preparer_enabled = False,
     uuid = (\<lambda>n. replicate n (CHR ''u'')), known_rse = (\<lambda>_. True), name_of_rse = (\<lambda>r. r), registry = empty_rse_db,
     attr_region = no_cache, ok_mail = (\<lambda>r. Some (''alice'', ''done'', r_id r)), selecting = demo_selector_env,
     db_dialect = PostgreSQL, name_hashes = \<lparr>ora_hash = (\<lambda>_ _. 0), hash_number = (\<lambda>_. length)\<rparr>, max_partition_size = 1\<rparr>"

definition new_rule_R :: rule where
  "new_rule_R = demo_rule ''R'' RuleREPLICATING 0 0 0"

definition demo_work :: work where
  "demo_work = \<lparr>w_db = demo_rule_db [new_rule_R] [] [], w_col_replicas = [],
     w_rse_counters = \<lparr>rse_usages = [], updated_rse_counters = [], rse_usage_history = []\<rparr>, w_selector = demo_targets,
     w_new_replicas = [], w_new_locks = [], w_transfers = [], w_locks = Map.empty, w_replicas = Map.empty,
     w_saved_replicas = [], w_saved_locks = []\<rparr>"

definition demo_dataset :: did_row where
  "demo_dataset = hd (dids (w_db demo_work))"

definition demo_applied :: "apply_error + work" where
  "demo_applied = apply_rule demo_apply_env new_rule_R demo_dataset [''A'', ''B''] [] demo_work"

lemma demo_applied_runs: "map_sum id (\<lambda>w. (on_rses new_rule_R (w_db w) (atlas, ''f''), map r_locks_replicating_cnt (rules (w_db w)))) demo_applied
    = Inr ([''A''], [2])"
  by code_simp

lemma demo_applied_Inr:
  obtains w' where "apply_rule demo_apply_env new_rule_R demo_dataset [''A'', ''B''] [] demo_work = Inr w'"
    and "on_rses new_rule_R (w_db w') (atlas, ''f'') = [''A'']" and "map r_locks_replicating_cnt (rules (w_db w')) = [2]"
  using demo_applied_runs by (cases demo_applied) (auto simp: demo_applied_def)

lemma demo_work_wf:
  "fair (selecting demo_apply_env)" "ora_hash_bounded (name_hashes demo_apply_env)" "selector_wf (w_selector demo_work)"
  "sel_copies (w_selector demo_work) = r_copies new_rule_R" "0 < r_copies new_rule_R"
  "set (map t_id (sel_targets (w_selector demo_work))) \<subseteq> set [''A'', ''B'']" "settled demo_work"
  "distinct (map c_key (contents (w_db demo_work)))" "\<forall>l \<in> set (locks (w_db demo_work)). l_rule_id l \<noteq> r_id new_rule_R"
  using demo_fair
  by (simp_all add: demo_apply_env_def ora_hash_bounded_def selector_wf_def demo_work_def demo_targets_def demo_target_def new_rule_R_def demo_rule_def
      settled_def keys_ok_def demo_rule_db_def c_key_def c_parent_def c_child_def content_def)

lemma demo_files: "(atlas, ''f'') \<in> files_of (w_db demo_work) demo_dataset" "(atlas, ''g'') \<in> files_of (w_db demo_work) demo_dataset"
  by (simp_all add: files_of_def demo_dataset_def demo_work_def demo_rule_db_def datasets_of_def did_of_def children_def c_child_def c_parent_def content_def)

theorem apply_rule_places_copies_witness:
  "\<exists>w'. apply_rule demo_apply_env new_rule_R demo_dataset [''A'', ''B''] [] demo_work = Inr w' \<and>
     int (length (on_rses new_rule_R (w_db w') (atlas, ''g''))) = 1"
proof -
  obtain w' where run: "apply_rule demo_apply_env new_rule_R demo_dataset [''A'', ''B''] [] demo_work = Inr w'" by (rule demo_applied_Inr)
  have "r_copies new_rule_R = 1" by (simp add: new_rule_R_def demo_rule_def)
  with apply_rule_places_copies [OF demo_work_wf run] demo_files(2) run show ?thesis by auto
qed

theorem grouped_files_together_witness:
  "\<exists>w'. apply_rule demo_apply_env new_rule_R demo_dataset [''A'', ''B''] [] demo_work = Inr w' \<and>
     on_rses new_rule_R (w_db w') (atlas, ''g'') = [''A'']"
proof -
  obtain w' where run: "apply_rule demo_apply_env new_rule_R demo_dataset [''A'', ''B''] [] demo_work = Inr w'"
    and f: "on_rses new_rule_R (w_db w') (atlas, ''f'') = [''A'']" by (rule demo_applied_Inr)
  have "r_grouping new_rule_R = GroupALL \<or> r_grouping new_rule_R = GroupDATASET \<and> d_type demo_dataset = DATASET"
    by (simp add: new_rule_R_def demo_rule_def demo_dataset_def demo_work_def demo_rule_db_def)
  from grouped_files_together [OF demo_work_wf run this demo_files] f run show ?thesis by auto
qed

theorem application_keeps_counters_witness:
  "\<exists>w'. apply_rule demo_apply_env new_rule_R demo_dataset [''A'', ''B''] [] demo_work = Inr w' \<and> ledger_ok (w_db w') \<and>
     map r_locks_replicating_cnt (rules (w_db w')) = [2]"
proof -
  obtain w' where run: "apply_rule demo_apply_env new_rule_R demo_dataset [''A'', ''B''] [] demo_work = Inr w'"
    and cnt: "map r_locks_replicating_cnt (rules (w_db w')) = [2]" by (rule demo_applied_Inr)
  have "lock_cnt_of s new_rule_R = 0" for s by (cases s) (simp_all add: new_rule_R_def demo_rule_def)
  then have ok: "ledger_ok (w_db demo_work)"
    by (simp add: ledger_ok_def demo_work_def demo_rule_db_def cnt_views_def rep_views_def cnt_view_def lock_total_def)
  have start: "backed (w_db demo_work)" "w_new_replicas demo_work = []" "w_new_locks demo_work = []"
    "r_id new_rule_R \<in> r_id ` set (rules (w_db demo_work))"
    by (simp_all add: backed_def demo_work_def demo_rule_db_def)
  have ran: "apply_rule demo_apply_env new_rule_R demo_dataset [''A'', ''B''] [] demo_work = Inr w' \<or>
      create_locks_replicas_transfers demo_apply_env new_rule_R [] [] [] Map.empty demo_work = Inr w'" using run by (rule disjI1)
  have "ledger_ok (w_db w') \<and> backed (w_db w')" by (rule application_keeps_counters [OF ok start ran])
  with run cnt show ?thesis by (intro exI [of _ w'] conjI) simp_all
qed

end
