(* ===== verification/Rule_Creation.thy ===== *)
theory Rule_Creation
  imports Rule_Placement
begin

text \<open>
  The creation of rules (\<^verbatim>\<open>core/rule.py\<close>): \<^verbatim>\<open>add_rule\<close> for a list of DIDs, the approval of rules that wait for it, and the
  injection of rules that are created in the background.

  A rule passes from \<^verbatim>\<open>WAITING_APPROVAL\<close> or \<^verbatim>\<open>INJECT\<close>, in which it has no locks, to the state that its locks give. Parameters
  are the texts of the mails (templates in files), the end of life that the experiment's policy gives, and the accounts and roles,
  which are only read. The auto-approval algorithm is the default one. Foreign keys of the tables are not modelled.
\<close>

section \<open>Environment and errors\<close>

datatype mail_template =
  RULE_APPROVED_USER | RULE_APPROVED_ADMIN | RULE_DENIED_USER | RULE_DENIED_ADMIN | RULE_APPROVAL_REQUEST

text \<open>\<open>mail_text\<close> gets the template, the rule, the approver and the reason of a denial. \<open>scratchdisk_lifetime\<close> is in days and \<open>None\<close> where
  the policy is not the one of ATLAS. A pair of \<open>constituents\<close> is an archive with a file in it.\<close>

record creation_env = apply_env +
  accounts_of :: accounts_db
  roles_of :: rbac_db
  scratchdisk_lifetime :: "int option"
  eol :: "did \<Rightarrow> rse_row list \<Rightarrow> int option"
  mail_text :: "mail_template \<Rightarrow> rule \<Rightarrow> string \<Rightarrow> string option \<Rightarrow> string"
  default_mail_from :: "string option"
  constituents :: "(did \<times> did) list"
  is_constituent :: "did \<Rightarrow> bool"

datatype creation_error =
    InvalidValueForKey
  | StagingAreaRuleRequiresLifetime
  | ManualRuleApprovalBlocked
  | InvalidSourceReplicaExpression
  | DuplicateRule
  | InvalidReplicationRule
  | ReplicationRuleCreationTemporaryFailed
  | MultipleResultsFound
  | AttributeValueError
  | AttributeTypeError
  | CreationExpression parse_error
  | CreationSelector selector_error
  | CreationAccount account_error
  | CreationCore rucio_error
  | CreationSelection selector_error

abbreviation a_env :: "creation_env \<Rightarrow> apply_env" where
  "a_env e \<equiv> apply_env.truncate e"

abbreviation rse_reg :: "creation_env \<Rightarrow> session" where
  "rse_reg e \<equiv> rse_session (s_rbac (selecting e))"

definition attributes_of :: "creation_env \<Rightarrow> rse_row \<Rightarrow> string \<rightharpoonup> attr_value" where
  "attributes_of e x = list_rse_attributes (s_registry (selecting e)) (rse_id x)"

definition ccore :: "rucio_error + 'a \<Rightarrow> creation_error + 'a" where
  "ccore r = (case r of Inl x \<Rightarrow> Inl (CreationCore x) | Inr y \<Rightarrow> Inr y)"

lemma ccore_eq_Inr [simp]: "ccore r = Inr x \<longleftrightarrow> r = Inr x"
  by (cases r) (simp_all add: ccore_def)

definition caccount :: "account_error + 'a \<Rightarrow> creation_error + 'a" where
  "caccount r = (case r of Inl x \<Rightarrow> Inl (CreationAccount x) | Inr y \<Rightarrow> Inr y)"

lemma caccount_eq_Inr [simp]: "caccount r = Inr x \<longleftrightarrow> r = Inr x"
  by (cases r) (simp_all add: caccount_def)

text \<open>\<^verbatim>\<open>parse_expression\<close> with the VO of the account; a result that never comes is \<open>None\<close>.\<close>

definition expression_rses :: "creation_env \<Rightarrow> internal \<Rightarrow> bool \<Rightarrow> string \<Rightarrow> (creation_error + rse_row list) option" where
  "expression_rses e account only_writable x =
     map_option (\<lambda>r. case r of Inl err \<Rightarrow> Inl (CreationExpression err) | Inr rows \<Rightarrow> Inr rows)
       (parse_expression (rse_reg e) None x
         (Some (if only_writable then (vo_filter account)\<lparr>f_availability_write := Some True\<rparr> else vo_filter account)))"

section \<open>Mails about approvals\<close>

definition send_mail :: "creation_env \<Rightarrow> string \<Rightarrow> string \<Rightarrow> string \<Rightarrow> work \<Rightarrow> creation_error + work" where
  "send_mail e to subject body w =
     rbind (ccore (add_message (r_env (a_env e)) (EMAIL to subject body) (w_db w))) (\<lambda>d. Inr (w\<lparr>w_db := d\<rparr>))"

definition account_mail :: "creation_env \<Rightarrow> internal \<Rightarrow> creation_error + string option" where
  "account_mail e account = rbind (caccount (get_account (accounts_of e) account)) (\<lambda>a. Inr (ac_email a))"

definition mails_of :: "creation_env \<Rightarrow> internal list \<Rightarrow> (string \<times> string) list" where
  "mails_of e as = List.map_filter (\<lambda>a. case account_mail e a of
     Inr (Some m) \<Rightarrow> (if m = [] then None else Some (m, a)) | _ \<Rightarrow> None) as"

fun shown :: "attr_value option \<Rightarrow> string" where
  "shown None = ''''"
| "shown (Some (AStr s)) = s"
| "shown (Some (ABool b)) = (if b then ''True'' else ''False'')"

fun approvers :: "creation_env \<Rightarrow> rse_row list \<Rightarrow> creation_error + (string \<times> string) list" where
  "approvers e [] = Inr []"
| "approvers e (x # xs) =
     (case attributes_of e x ''rule_approvers'' of
        None \<Rightarrow> approvers e xs
      | Some v \<Rightarrow>
          if \<not> truthy v then approvers e xs
          else (case v of
              ABool _ \<Rightarrow> Inl AttributeTypeError
            | AStr s \<Rightarrow> rbind (approvers e xs) (\<lambda>rest. Inr (mails_of e (py_split (CHR '','') s) @ rest))))"

definition attribute_admins :: "creation_env \<Rightarrow> string \<Rightarrow> (string \<times> string) list" where
  "attribute_admins e key = mails_of e [a. (a, k, v) \<leftarrow> account_attr_map (accounts_of e), k = key \<and> v = ''admin'']"

definition typed_admins :: "creation_env \<Rightarrow> string list \<Rightarrow> string \<Rightarrow> string \<Rightarrow> rse_row list \<Rightarrow> (string \<times> string) list" where
  "typed_admins e types pre attribute rows =
     concat (map (\<lambda>x. if \<exists>t \<in> set types. attributes_of e x ''type'' = Some (AStr t)
                      then attribute_admins e (pre @ shown (attributes_of e x attribute)) else []) rows)"

text \<open>\<^verbatim>\<open>_create_recipients_list\<close>.\<close>

definition create_recipients_list :: "creation_env \<Rightarrow> rse_row list \<Rightarrow> creation_error + (string \<times> string) list" where
  "create_recipients_list e rows =
     rbind (approvers e rows) (\<lambda>r1.
       let r2 = (if r1 = [] then typed_admins e [''LOCALGROUPDISK'', ''LOCALGROUPTAPE''] ''country-'' ''country'' rows else r1);
           r3 = (if r2 = [] then typed_admins e [''GROUPDISK''] ''group-'' ''physgroup'' rows else r2);
           r4 = (if r3 = [] then (case default_mail_from e of
                    Some m \<Rightarrow> (if m = [] then [] else [(m, ''ddmadmin'')]) | None \<Rightarrow> []) else r3)
       in Inr (remdups r4))"

definition rule_recipients :: "creation_env \<Rightarrow> rule \<Rightarrow> (creation_error + (string \<times> string) list) option" where
  "rule_recipients e r =
     Option.bind (expression_rses e (r_account r) False (r_rse_expression r)) (\<lambda>x. obind x (\<lambda>rows. Some (create_recipients_list e rows)))"

definition approver_name :: "creation_env \<Rightarrow> string \<Rightarrow> creation_error + string" where
  "approver_name e approver =
     (if approver = [] then Inr ''AUTOMATIC''
      else rbind (account_mail e approver) (\<lambda>m. Inr (case m of
        Some t \<Rightarrow> (if t = [] then approver else approver @ '' ('' @ t @ '')'') | None \<Rightarrow> approver)))"

definition mail_owner :: "creation_env \<Rightarrow> mail_template \<Rightarrow> rule \<Rightarrow> string \<Rightarrow> string option \<Rightarrow> string \<Rightarrow> work \<Rightarrow> creation_error + work" where
  "mail_owner e t r approver reason verb w =
     rbind (account_mail e (r_account r)) (\<lambda>m. case m of
       Some to \<Rightarrow> (if to = [] then Inr w
         else send_mail e to (''[RUCIO] Replication rule '' @ r_id r @ '' has been '' @ verb) (mail_text e t r approver reason) w)
     | None \<Rightarrow> Inr w)"

definition mail_approvers :: "creation_env \<Rightarrow> mail_template \<Rightarrow> rule \<Rightarrow> string \<Rightarrow> string option \<Rightarrow> (string \<times> string) list \<Rightarrow> work \<Rightarrow> creation_error + work" where
  "mail_approvers e t r approver reason recipients w =
     rfold (\<lambda>(to, _). send_mail e to (''Re: [RUCIO] Request to approve replication rule '' @ r_id r) (mail_text e t r approver reason)) recipients w"

text \<open>\<^verbatim>\<open>__create_rule_approval_email\<close>: one request for each approver.\<close>

definition create_rule_approval_email :: "creation_env \<Rightarrow> rule \<Rightarrow> work \<Rightarrow> (creation_error + work) option" where
  "create_rule_approval_email e r w =
     obind (ccore (get_did_row (w_db w) (r_did r))) (\<lambda>_.
       Option.bind (rule_recipients e r) (\<lambda>x. obind x (\<lambda>recipients.
         Some (rfold (\<lambda>(to, approver) w. rbind (account_mail e (r_account r)) (\<lambda>_.
           send_mail e to (''[RUCIO] Request to approve replication rule '' @ r_id r) (mail_text e RULE_APPROVAL_REQUEST r approver None) w))
           recipients w))))"

section \<open>Approval\<close>

definition get_rule_or :: "work \<Rightarrow> string \<Rightarrow> creation_error + rule" where
  "get_rule_or w i = (case get_rule (w_db w) i of Inl _ \<Rightarrow> Inl (CreationCore RuleNotFound) | Inr r \<Rightarrow> Inr r)"

definition set_rule :: "string \<Rightarrow> (rule \<Rightarrow> rule) \<Rightarrow> work \<Rightarrow> work" where
  "set_rule i f w = w\<lparr>w_db := upd_rule i f (w_db w)\<rparr>"

definition approved :: "rule \<Rightarrow> rule" where
  "approved r = r\<lparr>r_ignore_account_limit := True, r_state := RuleINJECT\<rparr>"

definition approve_rule :: "creation_env \<Rightarrow> string \<Rightarrow> string \<Rightarrow> bool \<Rightarrow> work \<Rightarrow> (creation_error + work) option" where
  "approve_rule e i approver notify_approvers w =
     obind (get_rule_or w i) (\<lambda>r.
       if r_state r = RuleWAITING_APPROVAL then
         obind (approver_name e approver) (\<lambda>name.
           obind (mail_owner e RULE_APPROVED_USER (approved r) name None ''approved'' (set_rule i approved w)) (\<lambda>w1.
             if notify_approvers then
               Option.bind (rule_recipients e r) (\<lambda>x. obind x (\<lambda>recipients.
                 Some (mail_approvers e RULE_APPROVED_ADMIN (approved r) name None recipients w1)))
             else Some (Inr w1)))
       else Some (Inr w))"

text \<open>\<^verbatim>\<open>deny_rule\<close> deletes the rule; a rule that waits has no transfers to cancel.\<close>

definition deny_rule :: "creation_env \<Rightarrow> string \<Rightarrow> string \<Rightarrow> string option \<Rightarrow> work \<Rightarrow> (creation_error + work) option" where
  "deny_rule e i approver reason w =
     obind (get_rule_or w i) (\<lambda>r.
       if r_state r = RuleWAITING_APPROVAL then
         obind (approver_name e approver) (\<lambda>name.
           obind (mail_owner e RULE_DENIED_USER r name reason ''denied'' w) (\<lambda>w1.
             obind (ccore (delete_rule (r_env (a_env e)) i None False False True (w_db w1))) (\<lambda>(_, d).
               Option.bind (rule_recipients e r) (\<lambda>x. obind x (\<lambda>recipients.
                 Some (mail_approvers e RULE_DENIED_ADMIN r name reason recipients (w1\<lparr>w_db := d\<rparr>)))))))
       else Some (Inr w))"

section \<open>The state that the locks give\<close>

text \<open>The end of \<^verbatim>\<open>add_rule\<close> and of \<^verbatim>\<open>inject_rule\<close>; the latter also releases the parent of a rule that is \<^verbatim>\<open>OK\<close>.\<close>

definition rule_db_step :: "(rule_db \<Rightarrow> rucio_error + rule_db) \<Rightarrow> work \<Rightarrow> creation_error + work" where
  "rule_db_step f w = rbind (ccore (f (w_db w))) (\<lambda>d. Inr (w\<lparr>w_db := d\<rparr>))"

definition set_outcome :: "rule \<Rightarrow> rule_state \<Rightarrow> lock_state \<Rightarrow> (rule \<Rightarrow> rule) \<Rightarrow> rule_db \<Rightarrow> rule_db" where
  "set_outcome r s ls f d =
     (let d1 = upd_rule (r_id r) (\<lambda>x. f (x\<lparr>r_state := s\<rparr>)) d
      in if r_grouping r \<noteq> GroupNONE then set_dataset_locks (r_id r) ls d1 else d1)"

definition rule_outcome :: "rule_env \<Rightarrow> bool \<Rightarrow> string \<Rightarrow> rule_db \<Rightarrow> rucio_error + rule_db" where
  "rule_outcome e release i d =
     rbind (get_rule d i) (\<lambda>r.
       rbind
         (if 0 < r_locks_stuck_cnt r then
            Inr (set_outcome r RuleSTUCK LockSTUCK (\<lambda>x. x\<lparr>r_error := Some ''MissingSourceReplica''\<rparr>) d)
          else if r_locks_replicating_cnt r = 0 then
            (let d1 = set_outcome r RuleOK LockOK id d
             in rbind (if r_notification r = NotifyYES then generate_email_for_rule_ok_notification e i d1 else Inr d1) (\<lambda>d2.
                  rbind (generate_rule_notifications e i (Some 0) d2) (\<lambda>d3.
                    Inr (if release then release_parent_rule i False d3 else d3))))
          else Inr (set_outcome r RuleREPLICATING LockREPLICATING id d))
         (\<lambda>d'. Inr (insert_rule_history i True True d')))"

section \<open>Adding rules\<close>

record rule_args =
  g_account :: internal
  g_copies :: int
  g_rse_expression :: string
  g_grouping :: string
  g_weight :: "string option"
  g_lifetime :: "int option"
  g_locked :: bool
  g_subscription_id :: "string option"
  g_source_replica_expression :: "string option"
  g_activity :: "string option"
  g_notify :: "string option"
  g_purge_replicas :: bool
  g_ignore_availability :: bool
  g_comment :: "string option"
  g_ask_approval :: bool
  g_asynchronous :: bool
  g_ignore_account_limit :: bool
  g_priority :: "int option"
  g_delay_injection :: "int option"
  g_split_container :: bool
  g_meta :: "string option"

definition DEFAULT_ACTIVITY :: string where
  "DEFAULT_ACTIVITY = ''User Subscriptions''"

definition grouping_value :: "string \<Rightarrow> rule_grouping" where
  "grouping_value g = (if g = ''ALL'' then GroupALL else if g = ''NONE'' then GroupNONE else GroupDATASET)"

definition notify_value :: "string option \<Rightarrow> rule_notification" where
  "notify_value n = (if n = Some ''Y'' then NotifyYES else if n = Some ''C'' then NotifyCLOSE
     else if n = Some ''P'' then NotifyPROGRESS else NotifyNO)"

definition get_scratch_policy :: "creation_env \<Rightarrow> internal \<Rightarrow> rse_row list \<Rightarrow> int option \<Rightarrow> int option" where
  "get_scratch_policy e account rows lifetime =
     (case scratchdisk_lifetime e of
        None \<Rightarrow> lifetime
      | Some days \<Rightarrow>
          if \<not> has_account_attribute (accounts_of e) account ''admin'' \<and>
             (case lifetime of None \<Rightarrow> True | Some n \<Rightarrow> 60 * 60 * 24 * days < n) \<and>
             (\<exists>x \<in> set rows. attributes_of e x ''type'' = Some (AStr ''SCRATCHDISK''))
          then Some (60 * 60 * 24 * days - 1) else lifetime)"

text \<open>Step 3.1: a rule on a file of an archive goes to the archive where no disk has the file itself.\<close>

definition disk_copies :: "creation_env \<Rightarrow> rule_db \<Rightarrow> did \<Rightarrow> nat" where
  "disk_copies e d k = length [p. p \<leftarrow> replicas d, fst (p_key p) = k \<and> p_state p = AVAILABLE,
     x \<leftarrow> rses (s_registry (selecting e)), rse_id x = p_rse_id p \<and> rse_type x \<noteq> TAPE]"

definition archive_of :: "creation_env \<Rightarrow> rule_db \<Rightarrow> did \<Rightarrow> did option" where
  "archive_of e d k = map_option fst (find (\<lambda>(a, c). c = k \<and> (\<exists>p \<in> set (replicas d). fst (p_key p) = a)) (constituents e))"

definition rule_target :: "creation_env \<Rightarrow> rule_db \<Rightarrow> did \<Rightarrow> creation_error + did_row" where
  "rule_target e d k = rbind (ccore (get_did_row d k)) (\<lambda>x.
     if d_type x = FILE \<and> is_constituent e k \<and> disk_copies e d k = 0 then
       (case archive_of e d k of None \<Rightarrow> Inr x | Some a \<Rightarrow> ccore (get_did_row d a))
     else Inr x)"

definition new_rule :: "creation_env \<Rightarrow> rule_args \<Rightarrow> bool \<Rightarrow> int option \<Rightarrow> rse_row list \<Rightarrow> string \<Rightarrow> did_row \<Rightarrow> rule" where
  "new_rule e g locked lifetime rows i x = \<lparr>r_id = i, r_subscription_id = g_subscription_id g, r_account = g_account g,
     r_scope = d_scope x, r_name = d_name x, r_did_type = d_type x, r_state = RuleREPLICATING, r_error = None,
     r_rse_expression = g_rse_expression g, r_copies = g_copies g, r_expires_at = map_option (\<lambda>n. now e + n) lifetime, r_weight = g_weight g,
     r_locked = locked, r_locks_ok_cnt = 0, r_locks_replicating_cnt = 0, r_locks_stuck_cnt = 0,
     r_source_replica_expression = g_source_replica_expression g,
     r_activity = (if truthy_text (g_activity g) then g_activity g else Some DEFAULT_ACTIVITY),
     r_grouping = grouping_value (g_grouping g), r_notification = notify_value (g_notify g), r_stuck_at = None,
     r_purge_replicas = g_purge_replicas g, r_ignore_availability = g_ignore_availability g,
     r_ignore_account_limit = g_ignore_account_limit g, r_priority = g_priority g, r_comments = g_comment g, r_child_rule_id = None,
     r_eol_at = eol e (did_of x) rows, r_split_container = g_split_container g, r_meta = g_meta g, r_created_at = now e\<rparr>"

text \<open>The unique index of the table besides its primary key.\<close>

definition rule_unique :: "rule \<Rightarrow> did \<times> string \<times> string \<times> int" where
  "rule_unique r = (r_did r, r_account r, r_rse_expression r, r_copies r)"

definition save_rule :: "rule \<Rightarrow> work \<Rightarrow> creation_error + work" where
  "save_rule r w =
     (if \<exists>x \<in> set (rules (w_db w)). r_id x = r_id r \<or> rule_unique x = rule_unique r then Inl DuplicateRule
      else Inr (w\<lparr>w_db := (w_db w)\<lparr>rules := rules (w_db w) @ [r], uuid_count := uuid_count (w_db w) + 1\<rparr>\<rparr>))"

text \<open>The default auto-approval algorithm.\<close>

definition approve_bound :: "creation_env \<Rightarrow> rse_row \<Rightarrow> string \<Rightarrow> creation_error + int" where
  "approve_bound e x key = (case attributes_of e x key of
     None \<Rightarrow> Inr (-1) | Some v \<Rightarrow> (case attr_int v of None \<Rightarrow> Inl AttributeValueError | Some n \<Rightarrow> Inr n))"

definition auto_approve_rse :: "creation_env \<Rightarrow> rse_row \<Rightarrow> int \<Rightarrow> int \<Rightarrow> creation_error + bool" where
  "auto_approve_rse e x b n =
     (if attributes_of e x ''auto_approve_bytes'' \<noteq> None \<and> attributes_of e x ''auto_approve_files'' \<noteq> None then
        rbind (approve_bound e x ''auto_approve_bytes'') (\<lambda>mb.
          if b < mb then rbind (approve_bound e x ''auto_approve_files'') (\<lambda>mn. Inr (n < mn)) else Inr False)
      else rbind (approve_bound e x ''auto_approve_bytes'') (\<lambda>mb.
          if b < mb then Inr True else rbind (approve_bound e x ''auto_approve_files'') (\<lambda>mn. Inr (n < mn))))"

definition auto_approve :: "creation_env \<Rightarrow> rule \<Rightarrow> did_row \<Rightarrow> (creation_error + bool) option" where
  "auto_approve e r x =
     Option.bind (expression_rses e (r_account r) False (r_rse_expression r)) (\<lambda>res. obind res (\<lambda>rows.
       if 1 < length rows then Some (Inl InvalidReplicationRule)
       else Some (case (rows, d_bytes x, d_length x) of
         ([row], Some b, Some n) \<Rightarrow> if d_open x = Some True then Inr False else auto_approve_rse e row b n
       | _ \<Rightarrow> Inr False)))"

definition ask_for_approval :: "creation_env \<Rightarrow> rule \<Rightarrow> did_row \<Rightarrow> work \<Rightarrow> (creation_error + work) option" where
  "ask_for_approval e r x w =
     (let waiting = (\<lambda>r. r\<lparr>r_state := RuleWAITING_APPROVAL\<rparr>);
          w1 = set_rule (r_id r) waiting w
      in Option.bind (auto_approve e (waiting r) x) (\<lambda>a. obind a (\<lambda>ok.
           if ok then approve_rule e (r_id r) [] False w1
           else create_rule_approval_email e (waiting r) w1)))"

definition apply_error_of :: "apply_error \<Rightarrow> creation_error" where
  "apply_error_of x = (case x of
     Selection s \<Rightarrow> CreationSelection s | Core c \<Rightarrow> CreationCore c | IntegrityError \<Rightarrow> ReplicationRuleCreationTemporaryFailed)"

definition apply_new_rule :: "creation_env \<Rightarrow> bool \<Rightarrow> rule \<Rightarrow> did_row \<Rightarrow> rse_row list \<Rightarrow> rse_row list \<Rightarrow> work \<Rightarrow> creation_error + work" where
  "apply_new_rule e release r x rows source_rows w =
     rbind (case apply_rule (a_env e) r x (map rse_id rows) (map rse_id source_rows) w of Inl err \<Rightarrow> Inl (apply_error_of err) | Inr w' \<Rightarrow> Inr w')
       (rule_db_step (rule_outcome (r_env (a_env e)) release (r_id r)))"

text \<open>One DID of \<^verbatim>\<open>add_rule\<close>. \<open>async\<close> is the variable \<^verbatim>\<open>asynchronous\<close> of the function, which a DID with many files sets for the DIDs after
  it too.\<close>

definition add_rule_did ::
  "creation_env \<Rightarrow> rule_args \<Rightarrow> bool \<Rightarrow> int option \<Rightarrow> rse_row list \<Rightarrow> rse_row list \<Rightarrow> did \<Rightarrow> string list \<times> bool \<times> work
     \<Rightarrow> (creation_error + string list \<times> bool \<times> work) option" where
  "add_rule_did e g locked lifetime rows source_rows k s =
     (let (ids, async, w) = s
      in obind (rule_target e (w_db w) k) (\<lambda>x.
           let r = new_rule e g locked lifetime rows (uuid e (uuid_count (w_db w))) x
           in obind (save_rule r w) (\<lambda>w1.
                let done = (\<lambda>async w'. Some (Inr (ids @ [r_id r], async, w')));
                    big = (case d_length x of None \<Rightarrow> False | Some n \<Rightarrow> 10000 \<le> n * g_copies g);
                    async' = (async \<or> big);
                    delay = (case g_delay_injection g of None \<Rightarrow> 0 | Some n \<Rightarrow> n)
                in if g_ask_approval g then Option.bind (ask_for_approval e r x w1) (\<lambda>y. obind y (done async))
                   else if async' \<or> delay \<noteq> 0 then
                     done async' (set_rule (r_id r) (\<lambda>x. x\<lparr>r_state := RuleINJECT,
                       r_created_at := (if delay \<noteq> 0 then now e + delay else r_created_at x)\<rparr>) w1)
                   else if g_split_container g \<and> d_type x = CONTAINER then
                     done async' (set_rule (r_id r) (\<lambda>x. x\<lparr>r_state := RuleINJECT\<rparr>) w1)
                   else obind (apply_new_rule e False r x rows source_rows w1) (done async'))))"

fun add_rule_dids ::
  "creation_env \<Rightarrow> rule_args \<Rightarrow> bool \<Rightarrow> int option \<Rightarrow> rse_row list \<Rightarrow> rse_row list \<Rightarrow> did list \<Rightarrow> string list \<times> bool \<times> work
     \<Rightarrow> (creation_error + string list \<times> bool \<times> work) option" where
  "add_rule_dids e g locked lifetime rows source_rows [] s = Some (Inr s)"
| "add_rule_dids e g locked lifetime rows source_rows (k # ks) s =
     Option.bind (add_rule_did e g locked lifetime rows source_rows k s) (\<lambda>x.
       obind x (add_rule_dids e g locked lifetime rows source_rows ks))"

definition source_rses_of :: "creation_env \<Rightarrow> internal \<Rightarrow> string option \<Rightarrow> (creation_error + rse_row list) option" where
  "source_rses_of e account x =
     (case x of
        None \<Rightarrow> Some (Inr [])
      | Some t \<Rightarrow> if t = [] then Some (Inr []) else expression_rses e account False t)"

definition invalid_source :: "creation_error + 'a \<Rightarrow> creation_error + 'a" where
  "invalid_source r = (case r of Inl (CreationExpression (InvalidRSEExpression _)) \<Rightarrow> Inl InvalidSourceReplicaExpression | _ \<Rightarrow> r)"

definition new_selector ::
  "creation_env \<Rightarrow> internal \<Rightarrow> rse_row list \<Rightarrow> string option \<Rightarrow> int \<Rightarrow> bool \<Rightarrow> work \<Rightarrow> (creation_error + work) option" where
  "new_selector e account rows weight copies ignore_limit w =
     map_option (\<lambda>r. case r of Inl err \<Rightarrow> Inl (CreationSelector err) | Inr sel \<Rightarrow> Inr (w\<lparr>w_selector := sel\<rparr>))
       (RSESelector (selecting e) (accounts_of e) (roles_of e) account rows weight copies ignore_limit)"

definition add_rule :: "creation_env \<Rightarrow> rule_args \<Rightarrow> did list \<Rightarrow> work \<Rightarrow> (creation_error + string list \<times> work) option" where
  "add_rule e g ks w =
     (if g_copies g \<le> 0 then Some (Inl InvalidValueForKey)
      else Option.bind (expression_rses e (g_account g) (\<not> g_ignore_availability g) (g_rse_expression g)) (\<lambda>res. obind res (\<lambda>rows.
        if g_lifetime g = None \<and> (\<exists>x \<in> set rows. staging_area x) then Some (Inl StagingAreaRuleRequiresLifetime)
        else let lifetime = get_scratch_policy e (g_account g) rows (g_lifetime g);
                 locked = (g_locked g \<or> lifetime = None \<and> (\<exists>x \<in> set rows. rse_type x = TAPE))
             in if g_ask_approval g \<and> (\<exists>x \<in> set rows. case attributes_of e x ''block_manual_approval'' of None \<Rightarrow> False | Some v \<Rightarrow> truthy v)
                then Some (Inl ManualRuleApprovalBlocked)
                else Option.bind (source_rses_of e (g_account g) (g_source_replica_expression g)) (\<lambda>src. obind (invalid_source src) (\<lambda>source_rows.
                  Option.bind (new_selector e (g_account g) rows (g_weight g) (g_copies g) (g_ask_approval g \<or> g_ignore_account_limit g) w) (\<lambda>sel.
                    obind sel (\<lambda>w1.
                      map_option (\<lambda>y. rbind y (\<lambda>(ids, _, w2). Inr (ids, w2)))
                        (add_rule_dids e g locked lifetime rows source_rows ks ([], g_asynchronous g, w1)))))))))"

section \<open>Injection\<close>

definition contains :: "string \<Rightarrow> string \<Rightarrow> bool" where
  "contains t s \<longleftrightarrow> (\<exists>i \<in> {0..length s}. take (length t) (drop i s) = t)"

definition notify_letter :: "rule_notification \<Rightarrow> string" where
  "notify_letter n = (case n of NotifyYES \<Rightarrow> ''Y'' | NotifyCLOSE \<Rightarrow> ''C'' | NotifyPROGRESS \<Rightarrow> ''P'' | NotifyNO \<Rightarrow> ''N'')"

text \<open>The rules for the datasets of a container rule that is to be split.\<close>

definition split_args :: "creation_env \<Rightarrow> rule \<Rightarrow> rule_args" where
  "split_args e r = \<lparr>g_account = r_account r, g_copies = r_copies r, g_rse_expression = r_rse_expression r, g_grouping = ''DATASET'',
     g_weight = None, g_lifetime = map_option (\<lambda>t. t - now e) (r_expires_at r), g_locked = False, g_subscription_id = None,
     g_source_replica_expression = None, g_activity = r_activity r, g_notify = Some (notify_letter (r_notification r)),
     g_purge_replicas = False, g_ignore_availability = r_ignore_availability r, g_comment = r_comments r, g_ask_approval = False,
     g_asynchronous = True, g_ignore_account_limit = True, g_priority = r_priority r, g_delay_injection = None,
     g_split_container = r_split_container r, g_meta = None\<rparr>"

definition similar_rules :: "rule \<Rightarrow> rule_db \<Rightarrow> did \<Rightarrow> rule list" where
  "similar_rules r d k = filter (\<lambda>x. r_account x = r_account r \<and> r_rse_expression x = r_rse_expression r \<and> r_did x = k) (rules d)"

definition split_rule :: "creation_env \<Rightarrow> rule \<Rightarrow> work \<Rightarrow> (creation_error + work) option" where
  "split_rule e r w =
     (let ks = list_child_datasets (w_db w) (r_did r)
      in if \<exists>k \<in> set ks. 1 < length (similar_rules r (w_db w) k) then Some (Inl MultipleResultsFound)
         else map_option (\<lambda>x. rbind x (\<lambda>(_, w1).
                Inr (w1\<lparr>w_db := (w_db w1)\<lparr>rules := filter (\<lambda>x. r_id x \<noteq> r_id r) (rules (w_db w1))\<rparr>\<rparr>)))
           (add_rule e (split_args e r) (filter (\<lambda>k. similar_rules r (w_db w) k = []) ks) w))"

definition inject_rule :: "creation_env \<Rightarrow> string \<Rightarrow> work \<Rightarrow> (creation_error + work) option" where
  "inject_rule e i w =
     obind (get_rule_or w i) (\<lambda>r.
       if r_child_rule_id r = None \<and> (case r_expires_at r of None \<Rightarrow> False | Some t \<Rightarrow> t < now e + 300) then Some (Inr w)
       else if r_did_type r = CONTAINER \<and> (contains ''.r2d2_request.'' (r_name r) \<or> r_split_container r) then split_rule e r w
       else Option.bind (expression_rses e (r_account r) (\<not> r_ignore_availability r) (r_rse_expression r)) (\<lambda>res. obind res (\<lambda>rows.
         Option.bind (source_rses_of e (r_account r) (r_source_replica_expression r)) (\<lambda>src. obind src (\<lambda>source_rows.
           Option.bind (new_selector e (r_account r) rows (r_weight r) (r_copies r) (r_ignore_account_limit r) w) (\<lambda>sel. obind sel (\<lambda>w1.
             obind (ccore (get_did_row (w_db w1) (r_did r))) (\<lambda>x.
               Some (apply_new_rule e True r x rows source_rows w1)))))))))"

end
