(* ===== verification/Rule_Lifecycle.thy ===== *)
theory Rule_Lifecycle
  imports Rule_Creation
begin

text \<open>
  The invariant of the rule engine over the whole life of rules: creation, approval and denial, injection, transfer reports, bad and
  lost replicas, and deletion. In every reachable catalogue the counters of rules and replicas are exact, every lock has its rule and its
  replica, and the states of the rules agree with their counters.
\<close>

section \<open>Every lock keeps its replica\<close>

lemma backed_kept:
  assumes "backed d" and "map fst (rep_views d') = map fst (rep_views d)" and "l_replica ` set (locks d') \<subseteq> l_replica ` set (locks d)"
  shows "backed d'"
proof -
  have keys: "fst ` set (rep_views x) = p_key ` set (replicas x)" for x by (simp add: rep_views_def image_image)
  have "p_key ` set (replicas d') = p_key ` set (replicas d)"
    using arg_cong [OF assms(2), of set] by (simp add: keys)
  moreover have "l_replica ` set (locks d) \<subseteq> p_key ` set (replicas d)" using assms(1) by (simp add: backed_def image_subset_iff)
  ultimately have "l_replica ` set (locks d') \<subseteq> p_key ` set (replicas d')" using assms(3) by simp
  then show ?thesis by (simp add: backed_def image_subset_iff)
qed

lemma l_replica_upd [simp]: "l_replica ` set (upd_where P (\<lambda>l. l\<lparr>l_state := s\<rparr>) ls) = l_replica ` set ls"
proof -
  have "l_replica (l\<lparr>l_state := s\<rparr>) = l_replica l" for l by (simp add: l_replica_def l_did_def)
  then have "map l_replica (upd_where P (\<lambda>l. l\<lparr>l_state := s\<rparr>) ls) = map l_replica ls" by (rule map_upd_where)
  from arg_cong [OF this, of set] show ?thesis by simp
qed

lemma p_key_unlock [simp]: "p_key (replica_after_unlock purge s p) = p_key p"
  by (simp add: replica_after_unlock_def Let_def p_key_def)

lemma p_key_sel:
  "p_key (p\<lparr>p_state := s\<rparr>) = p_key p" "p_key (p\<lparr>p_tombstone := t\<rparr>) = p_key p" "p_key (lost_replica_row p) = p_key p"
  by (simp_all add: p_key_def lost_replica_row_def)

lemma unlock_loop_keys: "unlock_loop purge ls d = (ts, d') \<Longrightarrow> map p_key (replicas d') = map p_key (replicas d)"
proof (induction ls arbitrary: d ts)
  case Nil
  then show ?case by simp
next
  case (Cons l ls)
  obtain c d1 where one: "delete_lock_and_update_replica purge l d = (c, d1)" by (cases "delete_lock_and_update_replica purge l d")
  obtain ts1 where rest: "unlock_loop purge ls d1 = (ts1, d')"
    using Cons.prems by (cases "unlock_loop purge ls d1") (auto simp: one)
  have "map p_key (replicas d1) = map p_key (replicas d)"
    using one by (auto simp: delete_lock_and_update_replica_def delete_lock_def Let_def map_upd_where split: sum.splits)
  with Cons.IH [OF rest] show ?case by simp
qed

lemma same_ledger_rep_keys: "same_ledger d d' \<Longrightarrow> map fst (rep_views d') = map fst (rep_views d)"
  by (simp add: same_ledger_def)

lemma release_replicas: "replicas (release_parent_rule i b d) = replicas d"
proof -
  have "replicas (fold (release_one b) ps d) = replicas d" for ps d
    by (induction ps arbitrary: d) (simp_all add: release_one_def insert_rule_history_def upd_rule_def Let_def)
  then show ?thesis by (simp add: release_parent_rule_def)
qed

lemma delete_rule_keys:
  assumes "delete_rule v i purge False delete_parent ignore_lock d = Inr (es, d')"
  shows "map fst (rep_views d') = map fst (rep_views d)"
proof -
  from assms obtain r where r: "get_rule d i = Inr r"
    by (cases "get_rule d i") (auto simp: delete_rule_def)
  define pr where "pr = (case purge of Some b \<Rightarrow> b | None \<Rightarrow> r_purge_replicas r)"
  define d1 where "d1 = upd_rule i (\<lambda>x. x\<lparr>r_purge_replicas := pr\<rparr>) d"
  define ls where "ls = filter (\<lambda>l. l_rule_id l = i) (locks d1)"
  obtain ts d2 where loop: "unlock_loop pr ls d1 = (ts, d2)" by (cases "unlock_loop pr ls d1")
  define d3 where "d3 = d2\<lparr>dataset_locks := filter (\<lambda>l. dl_rule_id l \<noteq> i) (dataset_locks d2)\<rparr>"
  from assms r obtain c where fin: "cancel_transfers_of ts ((insert_rule_history i False True (release_parent_rule i True
        (d3\<lparr>account_counters := c\<rparr>)))\<lparr>rules := filter (\<lambda>r. r_id r \<noteq> i)
        (rules (insert_rule_history i False True (release_parent_rule i True (d3\<lparr>account_counters := c\<rparr>))))\<rparr>) = (es, d')"
    by (auto simp: delete_rule_def Let_def rbind_eq_Inr loop [unfolded ls_def d1_def pr_def]
        ls_def d1_def pr_def d3_def split: if_splits)
  have "map p_key (replicas d') = map p_key (replicas d)"
    using cancel_rules [OF fin] unlock_loop_keys [OF loop]
    by (simp add: d1_def d3_def upd_rule_def insert_rule_history_def release_replicas Let_def)
  then show ?thesis by (simp add: rep_views_def comp_def)
qed

lemma rule_step_backed:
  assumes "rule_step v d d'" and ok: "ledger_ok d" and co: "coherent d" and b: "backed d"
  shows "backed d'"
  using assms(1)
proof cases
  case (success k rse)
  have "map fst (rep_views d') = map fst (rep_views d)"
    using ok_mover.loop_replica_keys [OF success [unfolded successful_transfer_def] ok co] by simp
  with successful_transfer_settles_effect [OF success ok co] show ?thesis by (intro backed_kept [OF b]) simp_all
next
  case (failure k rse em bi bm)
  have sub: "set (failed_locks v d k rse) \<subseteq> set (locks d)" "distinct (map l_key (failed_locks v d k rse))"
    using ledger_ok_lock_keys [OF ok]
    by (auto simp: failed_locks_def replica_locks_at_def intro!: distinct_map_filter_key split: if_splits)
  have "map fst (rep_views d') = map fst (rep_views d)"
    using failed_mover.loop_keys [OF failure [unfolded failed_transfer_def] ok co sub] by simp
  with failed_transfer_settles_effect [OF ok co, of v k rse em bi bm] failure show ?thesis by (intro backed_kept [OF b]) auto
next
  case (bad k rse)
  from bad obtain p d1 where loop: "rfold (bad_body v k rse p) (replica_locks_at d k rse) d = Inr d1"
    and reps: "map p_key (replicas d') = map p_key (replicas d1)"
    using that by (fastforce simp: update_rules_for_bad_replica_def rbind_eq_Inr Let_def map_upd_where p_key_sel split: if_splits)
  have "map fst (rep_views d') = map fst (rep_views d)"
    using bad_mover.loop_replica_keys [OF loop ok co] reps by (simp add: rep_views_def comp_def)
  with bad_replica_recovers_effect [OF bad ok co] show ?thesis by (intro backed_kept [OF b]) simp_all
next
  case (lost k rse)
  define d1 where "d1 = d\<lparr>requests := filter (\<lambda>q. rq_key q \<noteq> (k, rse)) (requests d)\<rparr>"
  from lost obtain d2 d3 where loop: "rfold (lost_body v k rse) (replica_locks_at d k rse) d1 = Inr d2"
    and rest: "rfold (lost_dataset v k) (lost_parents d k) d3 = Inr d'" and reps: "map p_key (replicas d3) = map p_key (replicas d2)"
    by (auto simp: update_rules_for_lost_replica_def rbind_eq_Inr Let_def d1_def map_upd_where p_key_sel split: if_splits)
  have s1: "same_ledger d d1" by (rule same_ledger_tables) (simp_all add: d1_def)
  have ls: "replica_locks_at d k rse = replica_locks_at d1 k rse" by (simp add: replica_locks_at_def d1_def)
  have "map fst (rep_views d2) = map fst (rep_views d1)"
    by (rule lost_mover.loop_replica_keys [OF loop [unfolded ls]]) (use ok co same_ledger_ok [OF s1] same_ledger_coherent [OF s1] in auto)
  moreover have "replicas d' = replicas d3"
    by (rule rfold_invariant [OF rest, of "\<lambda>x. replicas x = replicas d3"]) (simp, metis lost_dataset_tables)
  ultimately have "map fst (rep_views d') = map fst (rep_views d)"
    using reps same_ledger_rep_keys [OF s1] by (simp add: rep_views_def comp_def)
  with lost_replica_unlocked_effect [OF lost ok co] show ?thesis by (intro backed_kept [OF b]) auto
next
  case (delete i purge soft delete_parent ignore_lock es)
  show ?thesis
  proof (cases soft)
    case True
    with delete have "same_ledger d d'" using delete_rule_soft_effect by metis
    then show ?thesis by (intro backed_kept [OF b same_ledger_rep_keys]) (simp_all add: same_ledger_def)
  next
    case False
    with delete have run: "delete_rule v i purge False delete_parent ignore_lock d = Inr (es, d')" by simp
    from delete_rule_exact_effect [OF this ok co] show ?thesis by (intro backed_kept [OF b delete_rule_keys [OF run]]) auto
  qed
qed

section \<open>The rows of the other rules\<close>

text \<open>Applying a rule changes the row of that rule only.\<close>

definition row_but :: "string \<Rightarrow> rule \<Rightarrow> string \<times> rule option" where
  "row_but i x = (r_id x, if r_id x = i then None else Some x)"

definition others_kept :: "string \<Rightarrow> work \<Rightarrow> work \<Rightarrow> bool" where
  "others_kept i w w' \<longleftrightarrow> map (row_but i) (rules (w_db w')) = map (row_but i) (rules (w_db w))"

lemma others_kept_frame: "rules (w_db w') = rules (w_db w) \<Longrightarrow> others_kept i w w'"
  by (simp add: others_kept_def)

lemma others_kept_trans: "others_kept i w w' \<Longrightarrow> others_kept i w' w'' \<Longrightarrow> others_kept i w w''"
  by (simp add: others_kept_def)

lemma row_but_upd: "(\<And>x. r_id (f x) = r_id x) \<Longrightarrow> map (row_but i) (upd_where (\<lambda>x. r_id x = i) f xs) = map (row_but i) xs"
  by (simp add: upd_where_def row_but_def)

lemma create_lock_others: "others_kept (r_id r) w (create_lock e r k b s ref w)"
proof -
  have "rules (w_db (create_lock e r k b s ref w)) = upd_where (\<lambda>x. r_id x = r_id r) (add_cnt s 1) (rules (w_db w))"
    using create_lock_pending(1) [of e r k b s ref w] by simp
  then show ?thesis unfolding others_kept_def by (simp only: row_but_upd add_cnt_sel)
qed

lemma create_lock_and_replica_others:
  assumes "create_lock_and_replica e r ds source_rses source_replicas f t w = Inr w'"
  shows "others_kept (r_id r) w w'"
proof -
  obtain rse staging writable where t: "t = (rse, staging, writable)" by (cases t)
  define w1 where "w1 = add_transfers (if staging
     then [file_transfer rse STAGEIN f ds r False (map_option Seconds (rule_pin e r))] else []) w"
  let ?required = "staging_required (r_env e) rse" and ?feasible = "source_available source_rses source_replicas (f_did f) \<and> writable"
  from assms obtain pin refs where
    run: "(case filter (\<lambda>ref. ref_rse ref = rse) refs of
        ref # _ \<Rightarrow> (case ref_replica w1 (f_did f) ref of
            None \<Rightarrow> Inl (Core KeyError)
          | Some p \<Rightarrow> Inr (lock_existing e r ds staging ?required ?feasible pin f ref p w1))
      | [] \<Rightarrow> lock_new e r ds staging ?required ?feasible f rse w1) = Inr w'"
    unfolding create_lock_and_replica_def t Let_def prod.case w1_def [symmetric]
    by (auto simp: rbind_eq_Inr split: option.splits)
  have w1: "w_db w1 = w_db w" by (simp add: w1_def)
  have "others_kept (r_id r) w1 w'"
  proof (cases "filter (\<lambda>ref. ref_rse ref = rse) refs")
    case Nil
    with run have "lock_new e r ds staging ?required ?feasible f rse w1 = Inr w'" by simp
    then obtain b qs s s' where w': "w' = add_transfers qs (create_lock e r (f_did f) (Some b) s (New rse)
        (add_replica (f_did f) (create_replica e rse f b s') w1))" by (rule lock_new_shape)
    show ?thesis unfolding w'
      by (rule others_kept_trans [OF others_kept_frame others_kept_trans [OF create_lock_others others_kept_frame]]) simp_all
  next
    case (Cons ref rest)
    from run Cons obtain p where "w' = lock_existing e r ds staging ?required ?feasible pin f ref p w1"
      by (auto split: option.splits)
    then obtain qs s where w': "w' = add_transfers qs (create_lock e r (f_did f) (f_bytes f) s ref w1)"
      using lock_existing_shape [of e r ds staging ?required ?feasible pin f ref p w1] by auto
    show ?thesis unfolding w'
      by (rule others_kept_trans [OF create_lock_others others_kept_frame]) simp
  qed
  then show ?thesis by (simp add: others_kept_def w1)
qed

interpretation others: work_steps "others_kept (r_id r)" e r for e r
proof (unfold_locales, goal_cases)
  case (4 n preferred blocklist prioritize existing w ts w')
  then obtain sel' where "w' = w\<lparr>w_selector := sel'\<rparr>" by (rule select_targets_frame)
  then show ?case by (intro others_kept_frame) simp
next
  case (9 w w')
  then show ?case by (intro others_kept_frame) (auto simp: flush_def Let_def split: if_splits)
next
  case (10 w w')
  then show ?case by (intro others_kept_frame) (simp add: queue_transfers_tables)
next
  case (11 w w')
  then show ?case by (intro others_kept_frame) (auto simp: book_counters_def Let_def split: if_splits)
qed (auto intro: others_kept_trans create_lock_and_replica_others others_kept_frame
  simp: ensure_dataset_replica_def ensure_dataset_lock_def add_dataset_lock_def read_files_def Let_def split: if_splits)

section \<open>Coherent states but for one rule\<close>

definition coherent_but :: "string \<Rightarrow> rule_db \<Rightarrow> bool" where
  "coherent_but i d \<longleftrightarrow> (\<forall>r \<in> set (rules d). r_id r \<noteq> i \<longrightarrow> coherent_view (state_view r))"

lemma coherent_but_kept:
  assumes "others_kept i w w'" and "coherent_but i (w_db w)"
  shows "coherent_but i (w_db w')"
  unfolding coherent_but_def
proof (intro ballI impI)
  fix r assume r: "r \<in> set (rules (w_db w'))" "r_id r \<noteq> i"
  then have "row_but i r \<in> set (map (row_but i) (rules (w_db w)))"
    using assms(1) unfolding others_kept_def by (metis image_eqI set_map)
  with r(2) have "r \<in> set (rules (w_db w))" by (auto simp: row_but_def split: if_splits)
  with assms(2) r(2) show "coherent_view (state_view r)" by (simp add: coherent_but_def)
qed

lemma coherent_but_weaken: "coherent d \<Longrightarrow> coherent_but i d"
  by (simp add: coherent_def coherent_but_def)

lemma coherent_upd:
  assumes "coherent_but i d" and "\<And>x. x \<in> set (rules d) \<Longrightarrow> r_id x = i \<Longrightarrow> coherent_view (state_view (f x))"
  shows "coherent (upd_rule i f d)"
  using assms by (auto simp: coherent_def coherent_but_def upd_rule_def upd_where_def)

text \<open>A consistent session between two requests.\<close>

definition sound_but :: "string option \<Rightarrow> work \<Rightarrow> bool" where
  "sound_but but w \<longleftrightarrow> w_new_replicas w = [] \<and> w_new_locks w = [] \<and> exact (w_db w) \<and>
     (case but of None \<Rightarrow> coherent (w_db w) | Some i \<Rightarrow> coherent_but i (w_db w))"

abbreviation sound :: "work \<Rightarrow> bool" where
  "sound \<equiv> sound_but None"

definition same_work :: "work \<Rightarrow> work \<Rightarrow> bool" where
  "same_work w w' \<longleftrightarrow> same_ledger (w_db w) (w_db w') \<and> w_new_replicas w' = w_new_replicas w \<and> w_new_locks w' = w_new_locks w"

lemma same_ledger_exact:
  assumes "same_ledger d d'"
  shows "exact d' = exact d"
proof -
  have "p_key ` set (replicas x) = fst ` set (rep_views x)" for x by (simp add: rep_views_def image_image)
  then show ?thesis using assms same_ledger_ok [OF assms] by (simp add: exact_def backed_def same_ledger_def)
qed

lemma same_work_sound: "same_work w w' \<Longrightarrow> sound w' = sound w"
  by (auto simp: same_work_def sound_but_def dest: same_ledger_exact same_ledger_coherent)

lemma same_work_refl [simp]: "same_work w w"
  by (simp add: same_work_def)

lemma same_work_trans: "same_work w w' \<Longrightarrow> same_work w' w'' \<Longrightarrow> same_work w w''"
  by (auto simp: same_work_def intro: same_ledger_trans)

lemma same_work_db: "same_ledger (w_db w) d \<Longrightarrow> same_work w (w\<lparr>w_db := d\<rparr>)"
  by (simp add: same_work_def)

section \<open>Mails\<close>

lemma obind_eq_Some: "obind x f = Some (Inr y) \<longleftrightarrow> (\<exists>z. x = Inr z \<and> f z = Some (Inr y))"
  by (cases x) (simp_all add: obind_def)

lemma cnt_view_cong:
  "r_id r' = r_id r \<Longrightarrow> r_locks_ok_cnt r' = r_locks_ok_cnt r \<Longrightarrow> r_locks_replicating_cnt r' = r_locks_replicating_cnt r \<Longrightarrow>
    r_locks_stuck_cnt r' = r_locks_stuck_cnt r \<Longrightarrow> cnt_view r' = cnt_view r"
  unfolding cnt_view_def by (intro prod_eqI ext) (simp, case_tac x, simp_all)

lemma cnt_view_state [simp]: "cnt_view (approved x) = cnt_view x" "cnt_view (x\<lparr>r_state := s\<rparr>) = cnt_view x"
  by (rule cnt_view_cong; simp add: approved_def)+

lemma send_mail_same: "send_mail e to subject body w = Inr w' \<Longrightarrow> same_work w w'"
  by (auto simp: send_mail_def rbind_eq_Inr intro: same_work_db add_message_ledger)

lemma mail_owner_same: "mail_owner e t r approver reason verb w = Inr w' \<Longrightarrow> same_work w w'"
  by (auto simp: mail_owner_def rbind_eq_Inr intro: send_mail_same split: option.splits if_splits)

lemma same_work_rfold:
  assumes "rfold f xs w = Inr w'" and "\<And>x w w'. f x w = Inr w' \<Longrightarrow> same_work w w'"
  shows "same_work w w'"
  by (rule rfold_invariant [OF assms(1), of "same_work w"]) (simp, blast intro: same_work_trans assms(2))

lemma mail_approvers_same: "mail_approvers e t r approver reason recipients w = Inr w' \<Longrightarrow> same_work w w'"
  unfolding mail_approvers_def by (erule same_work_rfold) (auto intro: send_mail_same)

lemma approval_email_same: "create_rule_approval_email e r w = Some (Inr w') \<Longrightarrow> same_work w w'"
  by (auto simp: create_rule_approval_email_def obind_eq_Some rbind_eq_Inr Option.bind_eq_Some_conv elim!: same_work_rfold intro: send_mail_same)

lemma mailing_ids:
  "mail_owner e t r approver reason verb w = Inr w' \<Longrightarrow> rules (w_db w') = rules (w_db w)"
  by (auto simp: mail_owner_def send_mail_def add_message_def rbind_eq_Inr split: option.splits if_splits)

section \<open>Approval and denial\<close>

lemma upd_rule_exact:
  assumes "\<And>x. cnt_view (f x) = cnt_view x"
  shows "exact (upd_rule i f d) = exact d"
  by (simp add: exact_def backed_def ledger_ok_def cnt_views_def rep_views_def upd_rule_def map_upd_where [of cnt_view, OF assms])

lemma unlocked_view: "coherent_view (v, s) \<Longrightarrow> s = RuleWAITING_APPROVAL \<or> s = RuleINJECT \<Longrightarrow> s' = RuleWAITING_APPROVAL \<or> s' = RuleINJECT \<Longrightarrow>
    coherent_view (v, s')"
  by (auto simp: coherent_view_def Let_def)

lemma get_rule_only:
  assumes "ledger_ok d" and "get_rule d i = Inr r" and "x \<in> set (rules d)" and "r_id x = i"
  shows "x = r"
  using get_rule_Inr [OF assms(2)] assms(3,4) ledger_ok_rule_ids [OF assms(1)] by (metis distinct_map inj_onD)

lemma sound_set:
  assumes "sound_but (Some i) w" and "\<And>x. cnt_view (f x) = cnt_view x"
    and "\<And>x. x \<in> set (rules (w_db w)) \<Longrightarrow> r_id x = i \<Longrightarrow> coherent_view (state_view (f x))"
  shows "sound (set_rule i f w)"
  using assms(1) coherent_upd [OF _ assms(3)] by (simp add: sound_but_def set_rule_def upd_rule_exact [OF assms(2)])

lemma sound_weaken: "sound w \<Longrightarrow> sound_but (Some i) w"
  by (simp add: sound_but_def coherent_but_weaken)

lemma sound_approved:
  assumes "sound w" and r: "get_rule (w_db w) i = Inr r" and "r_state r = RuleWAITING_APPROVAL"
  shows "sound (set_rule i approved w)"
proof (rule sound_set [OF sound_weaken [OF assms(1)]])
  have ok: "ledger_ok (w_db w)" and co: "coherent (w_db w)" using assms(1) by (simp_all add: sound_but_def exact_def)
  fix x assume x: "x \<in> set (rules (w_db w))" "r_id x = i"
  then have "coherent_view (cnt_view x, RuleWAITING_APPROVAL)"
    using co get_rule_only [OF ok r x] assms(3) by (auto simp: coherent_def state_view_def)
  from unlocked_view [OF this, of RuleINJECT] show "coherent_view (state_view (approved x))"
    unfolding state_view_def cnt_view_state by (simp add: approved_def)
qed simp

lemma get_rule_or_Inr [simp]: "get_rule_or w i = Inr r \<longleftrightarrow> get_rule (w_db w) i = Inr r"
  by (simp add: get_rule_or_def split: sum.splits)

lemma approve_rule_sound:
  assumes "approve_rule e i approver n w = Some (Inr w')" and "sound w"
  shows "sound w'"
proof -
  from assms(1) obtain r where r: "get_rule (w_db w) i = Inr r" by (auto simp: approve_rule_def obind_eq_Some)
  show ?thesis
  proof (cases "r_state r = RuleWAITING_APPROVAL")
    case True
    from assms(1) r True have "same_work (set_rule i approved w) w'"
      by (auto simp: approve_rule_def obind_eq_Some Option.bind_eq_Some_conv split: if_splits
          intro: mail_owner_same same_work_trans [OF mail_owner_same mail_approvers_same])
    with sound_approved [OF assms(2) r True] show ?thesis by (simp add: same_work_sound)
  next
    case False
    with assms r show ?thesis by (auto simp: approve_rule_def obind_eq_Some)
  qed
qed

lemma rule_step_sound:
  assumes "rule_step v (w_db w) d" and "sound w"
  shows "sound (w\<lparr>w_db := d\<rparr>)"
  using rule_step_invariant [OF assms(1)] rule_step_backed [OF assms(1)] assms(2) by (simp add: sound_but_def exact_def)

lemma deny_rule_sound:
  assumes "deny_rule e i approver reason w = Some (Inr w')" and "sound w"
  shows "sound w'"
proof -
  from assms(1) obtain r where r: "get_rule (w_db w) i = Inr r" by (auto simp: deny_rule_def obind_eq_Some)
  show ?thesis
  proof (cases "r_state r = RuleWAITING_APPROVAL")
    case True
    with assms(1) r obtain name w1 es d recipients where
      own: "mail_owner e RULE_DENIED_USER r name reason ''denied'' w = Inr w1"
      and del: "delete_rule (r_env (a_env e)) i None False False True (w_db w1) = Inr (es, d)"
      and rest: "mail_approvers e RULE_DENIED_ADMIN r name reason recipients (w1\<lparr>w_db := d\<rparr>) = Inr w'"
      by (auto simp: deny_rule_def obind_eq_Some Option.bind_eq_Some_conv)
    have "sound w1" using same_work_sound [OF mail_owner_same [OF own]] assms(2) by simp
    from rule_step_sound [OF rule_step.delete [OF del] this] same_work_sound [OF mail_approvers_same [OF rest]] show ?thesis by simp
  next
    case False
    with assms r show ?thesis by (auto simp: deny_rule_def obind_eq_Some)
  qed
qed

section \<open>New rules\<close>

definition unlocked :: "rule \<Rightarrow> bool" where
  "unlocked r \<longleftrightarrow> (\<forall>s. lock_cnt_of s r = 0)"

lemma new_rule_unlocked: "unlocked (new_rule e g locked lifetime rows i x)"
  unfolding unlocked_def by (rule allI, case_tac s) (simp_all add: new_rule_def)

lemma lock_total_zero: "lock_total ls i s = 0" if "\<forall>l \<in> set ls. l_rule_id l \<noteq> i"
  using that by (simp add: lock_total_def count_where_def)

lemma exact_rule_added:
  assumes "exact d" and fresh: "r_id r \<notin> r_id ` set (rules d)" and "unlocked r"
    and d': "rules d' = rules d @ [r]" "locks d' = locks d" "replicas d' = replicas d"
  shows "exact d'"
proof -
  have views: "cnt_views d' = cnt_views d @ [cnt_view r]" "rep_views d' = rep_views d"
    by (simp_all add: cnt_views_def rep_views_def d')
  have ids: "fst ` set (cnt_views d) = r_id ` set (rules d)" by (simp add: cnt_views_def image_image)
  have ok: "ledger_ok d" and b: "backed d" using assms(1) by (simp_all add: exact_def)
  then have "\<forall>l \<in> set (locks d). l_rule_id l \<in> r_id ` set (rules d)" by (simp add: ledger_ok_def ids)
  with fresh have none: "\<forall>l \<in> set (locks d). l_rule_id l \<noteq> r_id r" by metis
  have "ledger_ok d'"
    using ok fresh assms(3) lock_total_zero [OF none]
    by (simp add: ledger_ok_def views d' ids unlocked_def cnt_view_def distinct_map)
  with b show ?thesis by (simp add: exact_def backed_def d')
qed

lemma save_rule_effect:
  assumes "save_rule r w = Inr w'" and "sound w" and "unlocked r"
  shows "sound_but (Some (r_id r)) w'" and "r_id r \<in> r_id ` set (rules (w_db w'))"
    and "x \<in> set (rules (w_db w')) \<Longrightarrow> r_id x = r_id r \<Longrightarrow> x = r" and "locks (w_db w') = locks (w_db w)"
proof -
  from assms(1) have fresh: "r_id r \<notin> r_id ` set (rules (w_db w))"
    and w': "w' = w\<lparr>w_db := (w_db w)\<lparr>rules := rules (w_db w) @ [r], uuid_count := uuid_count (w_db w) + 1\<rparr>\<rparr>"
    unfolding save_rule_def by (auto split: if_splits)
  have "exact (w_db w')" by (rule exact_rule_added [OF _ fresh assms(3)]) (use assms(2) in \<open>simp_all add: w' sound_but_def\<close>)
  then show "sound_but (Some (r_id r)) w'"
    using assms(2) by (simp add: sound_but_def w' coherent_def coherent_but_def)
  show "r_id r \<in> r_id ` set (rules (w_db w'))" "locks (w_db w') = locks (w_db w)" by (simp_all add: w')
  show "x \<in> set (rules (w_db w')) \<Longrightarrow> r_id x = r_id r \<Longrightarrow> x = r" using fresh by (auto simp: w') (metis imageI)
qed

lemma unlocked_coherent: "unlocked r \<Longrightarrow> s = RuleWAITING_APPROVAL \<or> s = RuleINJECT \<Longrightarrow> coherent_view (cnt_view r, s)"
  by (auto simp: unlocked_def coherent_view_def cnt_view_def)

lemma saved_rule_set:
  assumes "save_rule r w = Inr w'" and "sound w" and "unlocked r" and "\<And>x. cnt_view (f x) = cnt_view x"
    and "r_state (f r) = RuleWAITING_APPROVAL \<or> r_state (f r) = RuleINJECT"
  shows "sound (set_rule (r_id r) f w')"
proof (rule sound_set [OF save_rule_effect(1) [OF assms(1-3)] assms(4)])
  fix x assume "x \<in> set (rules (w_db w'))" "r_id x = r_id r"
  then have "x = r" by (rule save_rule_effect(3) [OF assms(1-3)])
  with unlocked_coherent [OF assms(3,5)] show "coherent_view (state_view (f x))" by (simp add: state_view_def assms(4))
qed

section \<open>The state that the locks give is coherent\<close>

lemma counts_nonneg:
  assumes "ledger_ok d" and "r \<in> set (rules d)"
  shows "0 \<le> r_locks_stuck_cnt r" and "0 \<le> r_locks_replicating_cnt r"
  using ledger_ok_rule [OF assms, of LockSTUCK] ledger_ok_rule [OF assms, of LockREPLICATING]
  by (simp_all add: lock_total_def)

lemma set_outcome_sound:
  assumes "exact d" and "coherent_but (r_id r) d" and "\<And>x. cnt_view (f x) = cnt_view x" and "\<And>x. r_state (f x) = r_state x"
    and "\<And>x. x \<in> set (rules d) \<Longrightarrow> r_id x = r_id r \<Longrightarrow> coherent_view (cnt_view x, s)"
  shows "exact (set_outcome r s ls f d) \<and> coherent (set_outcome r s ls f d)"
proof -
  let ?d1 = "upd_rule (r_id r) (\<lambda>x. f (x\<lparr>r_state := s\<rparr>)) d"
  have "exact ?d1" using assms(1) by (simp add: upd_rule_exact assms(3))
  moreover have "coherent ?d1" by (rule coherent_upd [OF assms(2)]) (simp add: state_view_def assms(3,4,5))
  moreover have "same_ledger ?d1 (set_outcome r s ls f d)" by (simp add: set_outcome_def Let_def)
  ultimately show ?thesis using same_ledger_exact same_ledger_coherent by blast
qed

lemma rule_outcome_sound:
  assumes "rule_outcome v release i d = Inr d'" and ex: "exact d" and co: "coherent_but i d"
  shows "exact d' \<and> coherent d'"
proof -
  from assms(1) obtain r d1 where r: "get_rule d i = Inr r" and d': "d' = insert_rule_history i True True d1"
    and run: "(if 0 < r_locks_stuck_cnt r then
            Inr (set_outcome r RuleSTUCK LockSTUCK (\<lambda>x. x\<lparr>r_error := Some ''MissingSourceReplica''\<rparr>) d)
          else if r_locks_replicating_cnt r = 0 then
            (let d1 = set_outcome r RuleOK LockOK id d
             in rbind (if r_notification r = NotifyYES then generate_email_for_rule_ok_notification v i d1 else Inr d1) (\<lambda>d2.
                  rbind (generate_rule_notifications v i (Some 0) d2) (\<lambda>d3.
                    Inr (if release then release_parent_rule i False d3 else d3))))
          else Inr (set_outcome r RuleREPLICATING LockREPLICATING id d)) = Inr d1"
    by (auto simp: rule_outcome_def rbind_eq_Inr)
  have ok: "ledger_ok d" using ex by (simp add: exact_def)
  have id: "r_id r = i" and mem: "r \<in> set (rules d)" using get_rule_Inr [OF r] by simp_all
  note only = get_rule_only [OF ok r]
  note nonneg = counts_nonneg [OF ok mem]
  have set_ok: "exact (set_outcome r s ls f d) \<and> coherent (set_outcome r s ls f d)"
    if "coherent_view (cnt_view r, s)" "\<And>x. cnt_view (f x) = cnt_view x" "\<And>x. r_state (f x) = r_state x" for s ls f
    by (rule set_outcome_sound [OF ex]) (use co that only in \<open>simp_all add: id\<close>)
  have err: "cnt_view (x\<lparr>r_error := m\<rparr>) = cnt_view x" for x m by (rule cnt_view_cong) simp_all
  have "exact d1 \<and> coherent d1"
  proof (cases "0 < r_locks_stuck_cnt r")
    case True
    with run have "d1 = set_outcome r RuleSTUCK LockSTUCK (\<lambda>x. x\<lparr>r_error := Some ''MissingSourceReplica''\<rparr>) d" by simp
    then show ?thesis by (simp only:) (rule set_ok, simp_all add: coherent_view_def err)
  next
    case stuck: False
    show ?thesis
    proof (cases "r_locks_replicating_cnt r = 0")
      case True
      with run stuck obtain d2 d3 where mail: "(if r_notification r = NotifyYES
            then generate_email_for_rule_ok_notification v i (set_outcome r RuleOK LockOK id d) else Inr (set_outcome r RuleOK LockOK id d)) = Inr d2"
        and notify: "generate_rule_notifications v i (Some 0) d2 = Inr d3" and d1: "d1 = (if release then release_parent_rule i False d3 else d3)"
        by (auto simp: Let_def rbind_eq_Inr)
      have "same_ledger (set_outcome r RuleOK LockOK id d) d2" using mail by (auto intro: email_ledger split: if_splits)
      from same_ledger_trans [OF this notifications_ledger [OF notify]] have "same_ledger (set_outcome r RuleOK LockOK id d) d1"
        by (auto simp: d1 intro: same_ledger_trans)
      moreover have "exact (set_outcome r RuleOK LockOK id d) \<and> coherent (set_outcome r RuleOK LockOK id d)"
        by (rule set_ok) (use True stuck nonneg in \<open>simp_all add: coherent_view_def cnt_view_def\<close>)
      ultimately show ?thesis using same_ledger_exact same_ledger_coherent by blast
    next
      case False
      with run stuck have "d1 = set_outcome r RuleREPLICATING LockREPLICATING id d" by simp
      then show ?thesis by (simp only:) (rule set_ok, use stuck False nonneg in \<open>simp_all add: coherent_view_def cnt_view_def\<close>)
    qed
  qed
  then show ?thesis unfolding d' using same_ledger_exact [OF same_ledger_history] same_ledger_coherent [OF same_ledger_history] by simp
qed

section \<open>Creation and injection\<close>

lemma apply_new_rule_sound:
  assumes "apply_new_rule e release r x rows source_rows w = Inr w'" and s: "sound_but (Some (r_id r)) w"
    and i: "r_id r \<in> r_id ` set (rules (w_db w))"
  shows "sound w'"
proof -
  from assms(1) obtain w1 d where run: "apply_rule (a_env e) r x (map rse_id rows) (map rse_id source_rows) w = Inr w1"
    and out: "rule_outcome (r_env (a_env e)) release (r_id r) (w_db w1) = Inr d" and w': "w' = w1\<lparr>w_db := d\<rparr>"
    by (auto simp: apply_new_rule_def rule_db_step_def rbind_eq_Inr split: sum.splits)
  have new: "w_new_replicas w = []" "w_new_locks w = []" and ex: "exact (w_db w)" and co: "coherent_but (r_id r) (w_db w)"
    using s by (simp_all add: sound_but_def)
  have "settled w"
    using ex new by (simp add: settled_def keys_ok_def exact_def ledger_ok_def rep_views_def comp_def)
  then have set: "settled w1" by (rule apply_rule_settled [OF run])
  have pend: "pending w = w_db w" "pending w1 = w_db w1"
    using new set by (simp_all add: pending_def settled_def)
  have "exact (w_db w1)"
    using ledger.applied [OF run] ex i set by (simp add: ledger_step_def settled_def pend)
  moreover have "coherent_but (r_id r) (w_db w1)" by (rule coherent_but_kept [OF others.applied [OF run] co])
  ultimately have "exact d \<and> coherent d" by (rule rule_outcome_sound [OF out])
  with set show ?thesis by (simp add: sound_but_def w' settled_def)
qed

lemma ask_for_approval_sound:
  assumes "ask_for_approval e r x w' = Some (Inr w'')" and "save_rule r w = Inr w'" and "sound w" and "unlocked r"
  shows "sound w''"
proof -
  let ?w1 = "set_rule (r_id r) (\<lambda>r. r\<lparr>r_state := RuleWAITING_APPROVAL\<rparr>) w'"
  have s1: "sound ?w1" by (rule saved_rule_set [OF assms(2-4)]) simp_all
  from assms(1) obtain ok where "(if ok then approve_rule e (r_id r) [] False ?w1
      else create_rule_approval_email e (r\<lparr>r_state := RuleWAITING_APPROVAL\<rparr>) ?w1) = Some (Inr w'')"
    by (auto simp: ask_for_approval_def Let_def obind_eq_Some Option.bind_eq_Some_conv)
  then show ?thesis
    by (cases ok) (auto intro: approve_rule_sound [OF _ s1] simp: same_work_sound [OF approval_email_same] s1)
qed

lemma add_rule_didE:
  assumes "add_rule_did e g locked lifetime rows source_rows k (ids, async, w) = Some (Inr (ids', async', w'))"
  obtains x r w1 where "r = new_rule e g locked lifetime rows (uuid e (uuid_count (w_db w))) x" and "save_rule r w = Inr w1"
    and "(g_ask_approval g \<and> ask_for_approval e r x w1 = Some (Inr w') \<and> async' = async) \<or>
      (\<not> g_ask_approval g \<and> (async \<longrightarrow> async') \<and> (\<exists>t. w' = set_rule (r_id r) (\<lambda>x. x\<lparr>r_state := RuleINJECT, r_created_at := t x\<rparr>) w1)) \<or>
      (\<not> g_ask_approval g \<and> \<not> async \<and> apply_new_rule e False r x rows source_rows w1 = Inr w')"
proof -
  from assms obtain x where x: "rule_target e (w_db w) k = Inr x" by (auto simp: add_rule_did_def obind_eq_Some)
  define r where "r = new_rule e g locked lifetime rows (uuid e (uuid_count (w_db w))) x"
  from assms x obtain w1 where w1: "save_rule r w = Inr w1" by (auto simp: add_rule_did_def obind_eq_Some Let_def r_def)
  define big where "big = (case d_length x of None \<Rightarrow> False | Some n \<Rightarrow> 10000 \<le> n * g_copies g)"
  define delay where "delay = (case g_delay_injection g of None \<Rightarrow> 0 | Some n \<Rightarrow> n)"
  consider (ask) "g_ask_approval g" | (inject) "\<not> g_ask_approval g" "async \<or> big \<or> delay \<noteq> 0"
    | (split) "\<not> g_ask_approval g" "\<not> (async \<or> big \<or> delay \<noteq> 0)" "g_split_container g \<and> d_type x = CONTAINER"
    | (now) "\<not> g_ask_approval g" "\<not> (async \<or> big \<or> delay \<noteq> 0)" "\<not> (g_split_container g \<and> d_type x = CONTAINER)" by blast
  then show thesis
  proof cases
    case ask
    with assms x w1 show thesis
      by (intro that [OF r_def w1]) (auto simp: add_rule_did_def obind_eq_Some Let_def r_def Option.bind_eq_Some_conv)
  next
    case inject
    with assms x w1 have "async' = (async \<or> big)" and w': "w' = set_rule (r_id r) (\<lambda>x. x\<lparr>r_state := RuleINJECT,
        r_created_at := (if delay \<noteq> 0 then now e + delay else r_created_at x)\<rparr>) w1"
      by (auto simp: add_rule_did_def obind_eq_Some Let_def r_def big_def delay_def cong: if_cong split: if_splits)
    have "\<exists>t. w' = set_rule (r_id r) (\<lambda>x. x\<lparr>r_state := RuleINJECT, r_created_at := t x\<rparr>) w1" unfolding w'
      by (rule exI [of _ "\<lambda>x. if delay \<noteq> 0 then now e + delay else r_created_at x"]) (rule refl)
    with inject \<open>async' = (async \<or> big)\<close> show thesis by (intro that [OF r_def w1]) blast
  next
    case split
    with assms x w1 have "w' = set_rule (r_id r) (\<lambda>x. x\<lparr>r_state := RuleINJECT\<rparr>) w1"
      by (auto simp: add_rule_did_def obind_eq_Some Let_def r_def big_def delay_def)
    then have "w' = set_rule (r_id r) (\<lambda>x. x\<lparr>r_state := RuleINJECT, r_created_at := r_created_at x\<rparr>) w1" by simp
    with split show thesis by (intro that [OF r_def w1]) blast
  next
    case now
    with assms x w1 show thesis
      by (intro that [OF r_def w1]) (auto simp: add_rule_did_def obind_eq_Some Let_def r_def big_def delay_def)
  qed
qed

lemma add_rule_did_sound:
  assumes "add_rule_did e g locked lifetime rows source_rows k s = Some (Inr s')" and "sound (snd (snd s))"
  shows "sound (snd (snd s'))"
proof -
  obtain ids async w ids' async' w' where s: "s = (ids, async, w)" "s' = (ids', async', w')" by (cases s, cases s')
  have w: "sound w" using assms(2) by (simp add: s)
  from assms(1) [unfolded s] obtain x r w1 where r: "r = new_rule e g locked lifetime rows (uuid e (uuid_count (w_db w))) x"
    and save: "save_rule r w = Inr w1"
    and "(g_ask_approval g \<and> ask_for_approval e r x w1 = Some (Inr w') \<and> async' = async) \<or>
      (\<not> g_ask_approval g \<and> (async \<longrightarrow> async') \<and> (\<exists>t. w' = set_rule (r_id r) (\<lambda>x. x\<lparr>r_state := RuleINJECT, r_created_at := t x\<rparr>) w1)) \<or>
      (\<not> g_ask_approval g \<and> \<not> async \<and> apply_new_rule e False r x rows source_rows w1 = Inr w')" by (rule add_rule_didE)
  then consider (ask) "ask_for_approval e r x w1 = Some (Inr w')"
    | (inject) t where "w' = set_rule (r_id r) (\<lambda>x. x\<lparr>r_state := RuleINJECT, r_created_at := t x\<rparr>) w1"
    | (now) "apply_new_rule e False r x rows source_rows w1 = Inr w'" by blast
  then have "sound w'"
  proof cases
    case ask
    then show ?thesis by (rule ask_for_approval_sound [OF _ save w]) (simp add: r new_rule_unlocked)
  next
    case inject
    have "cnt_view (x\<lparr>r_state := RuleINJECT, r_created_at := t x\<rparr>) = cnt_view x" for x by (rule cnt_view_cong) simp_all
    then show ?thesis unfolding inject by (intro saved_rule_set [OF save w]) (simp_all add: r new_rule_unlocked)
  next
    case now
    have "unlocked r" by (simp add: r new_rule_unlocked)
    then show ?thesis by (intro apply_new_rule_sound [OF now]) (auto intro: save_rule_effect(1,2) [OF save w])
  qed
  then show ?thesis by (simp add: s)
qed

lemma add_rule_dids_sound:
  assumes "add_rule_dids e g locked lifetime rows source_rows ks s = Some (Inr s')" and "sound (snd (snd s))"
  shows "sound (snd (snd s'))"
  using assms
proof (induction ks arbitrary: s)
  case (Cons k ks)
  then obtain s1 where "add_rule_did e g locked lifetime rows source_rows k s = Some (Inr s1)"
    and "add_rule_dids e g locked lifetime rows source_rows ks s1 = Some (Inr s')"
    by (auto simp: Option.bind_eq_Some_conv obind_eq_Some)
  with Cons.IH add_rule_did_sound Cons.prems(2) show ?case by blast
qed simp

lemma new_selector_frame:
  assumes "new_selector e account rows weight copies ignore w = Some (Inr w')"
  obtains sel where "w' = w\<lparr>w_selector := sel\<rparr>"
proof -
  from assms obtain x where "RSESelector (selecting e) (accounts_of e) (roles_of e) account rows weight copies ignore = Some x"
    and "(case x of Inl err \<Rightarrow> Inl (CreationSelector err) | Inr sel \<Rightarrow> Inr (w\<lparr>w_selector := sel\<rparr>)) = Inr w'"
    by (auto simp: new_selector_def)
  then show thesis by (cases x) (auto intro: that)
qed

lemma sound_selector [simp]: "sound_but b (w\<lparr>w_selector := sel\<rparr>) = sound_but b w"
  by (simp add: sound_but_def split: option.split)

lemma add_ruleE:
  assumes "add_rule e g ks w = Some (Inr (ids, w'))"
  obtains locked lifetime rows source_rows sel async' where
    "add_rule_dids e g locked lifetime rows source_rows ks ([], g_asynchronous g, w\<lparr>w_selector := sel\<rparr>) = Some (Inr (ids, async', w'))"
proof -
  from assms obtain rows src where rows: "expression_rses e (g_account g) (\<not> g_ignore_availability g) (g_rse_expression g) = Some (Inr rows)"
    and src: "source_rses_of e (g_account g) (g_source_replica_expression g) = Some src"
    by (auto simp: add_rule_def Let_def Option.bind_eq_Some_conv obind_eq_Some split: if_splits)
  define lifetime where "lifetime = get_scratch_policy e (g_account g) rows (g_lifetime g)"
  define locked where "locked = (g_locked g \<or> lifetime = None \<and> (\<exists>x \<in> set rows. rse_type x = TAPE))"
  from assms rows src have "obind (invalid_source src) (\<lambda>source_rows.
      Option.bind (new_selector e (g_account g) rows (g_weight g) (g_copies g) (g_ask_approval g \<or> g_ignore_account_limit g) w) (\<lambda>sel.
        obind sel (\<lambda>w1. map_option (\<lambda>y. rbind y (\<lambda>(ids, _, w2). Inr (ids, w2)))
          (add_rule_dids e g locked lifetime rows source_rows ks ([], g_asynchronous g, w1))))) = Some (Inr (ids, w'))"
    unfolding add_rule_def Let_def lifetime_def locked_def
    by (simp only: obind_eq_Some Option.bind_eq_Some_conv split: if_splits) (auto simp: obind_def)
  then obtain source_rows w1 where
    sel: "new_selector e (g_account g) rows (g_weight g) (g_copies g) (g_ask_approval g \<or> g_ignore_account_limit g) w = Some (Inr w1)"
    and run: "map_option (\<lambda>y. rbind y (\<lambda>(ids, _, w2). Inr (ids, w2)))
      (add_rule_dids e g locked lifetime rows source_rows ks ([], g_asynchronous g, w1)) = Some (Inr (ids, w'))"
    unfolding obind_eq_Some Option.bind_eq_Some_conv by blast
  obtain sel' where "w1 = w\<lparr>w_selector := sel'\<rparr>" by (rule new_selector_frame [OF sel])
  moreover from run obtain async' where
    "add_rule_dids e g locked lifetime rows source_rows ks ([], g_asynchronous g, w1) = Some (Inr (ids, async', w'))"
    by (auto simp: rbind_eq_Inr)
  ultimately show thesis using that by simp
qed

lemma add_rule_sound:
  assumes "add_rule e g ks w = Some (Inr (ids, w'))" and "sound w"
  shows "sound w'"
proof -
  from assms(1) obtain locked lifetime rows source_rows sel async' where
    "add_rule_dids e g locked lifetime rows source_rows ks ([], g_asynchronous g, w\<lparr>w_selector := sel\<rparr>) = Some (Inr (ids, async', w'))"
    by (rule add_ruleE)
  from add_rule_dids_sound [OF this] assms(2) show ?thesis by simp
qed

text \<open>Rules that are added for the injector bring no locks.\<close>

lemma add_rule_dids_locks:
  assumes "add_rule_dids e g locked lifetime rows source_rows ks (ids, async, w) = Some (Inr (ids', async', w'))"
    and "\<not> g_ask_approval g" and "async" and "sound w"
  shows "locks (w_db w') = locks (w_db w)"
  using assms
proof (induction ks arbitrary: ids async w)
  case (Cons k ks)
  then obtain ids1 async1 w1 where one: "add_rule_did e g locked lifetime rows source_rows k (ids, async, w) = Some (Inr (ids1, async1, w1))"
    and rest: "add_rule_dids e g locked lifetime rows source_rows ks (ids1, async1, w1) = Some (Inr (ids', async', w'))"
    by (auto simp: Option.bind_eq_Some_conv obind_eq_Some)
  from one obtain x r w2 t where r: "r = new_rule e g locked lifetime rows (uuid e (uuid_count (w_db w))) x"
    and save: "save_rule r w = Inr w2" and "async1" and w1: "w1 = set_rule (r_id r) (\<lambda>x. x\<lparr>r_state := RuleINJECT, r_created_at := t x\<rparr>) w2"
    using Cons.prems(2,3) by (cases rule: add_rule_didE) blast
  have "locks (w_db w2) = locks (w_db w)" using save by (auto simp: save_rule_def split: if_splits)
  then have "locks (w_db w1) = locks (w_db w)" by (simp add: w1 set_rule_def upd_rule_def)
  moreover have "sound w1" using add_rule_did_sound [OF one] Cons.prems(4) by simp
  ultimately show ?case using Cons.IH [OF rest Cons.prems(2) \<open>async1\<close>] by simp
qed simp

lemma waiting_has_no_locks:
  assumes "sound w" and r: "get_rule (w_db w) i = Inr r" and "r_state r = RuleINJECT"
  shows "\<forall>l \<in> set (locks (w_db w)). l_rule_id l \<noteq> i"
proof
  fix l assume l: "l \<in> set (locks (w_db w))"
  have ok: "ledger_ok (w_db w)" and co: "coherent (w_db w)" using assms(1) by (simp_all add: sound_but_def exact_def)
  have mem: "r \<in> set (rules (w_db w))" "r_id r = i" using get_rule_Inr [OF r] by simp_all
  have "lock_cnt_of (l_state l) r = 0"
    using co mem(1) assms(3) by (cases "l_state l") (auto simp: coherent_def coherent_view_def state_view_def cnt_view_def)
  then have "lock_total (locks (w_db w)) i (l_state l) = 0" using ledger_ok_rule [OF ok mem(1), of "l_state l"] mem(2) by simp
  with l show "l_rule_id l \<noteq> i" by (auto simp: lock_total_def count_where_def filter_empty_conv)
qed

lemma exact_rule_dropped:
  assumes "exact d" and "\<forall>l \<in> set (locks d). l_rule_id l \<noteq> i"
  shows "exact (d\<lparr>rules := filter (\<lambda>x. r_id x \<noteq> i) (rules d)\<rparr>)"
proof -
  let ?d = "d\<lparr>rules := filter (\<lambda>x. r_id x \<noteq> i) (rules d)\<rparr>"
  have views: "cnt_views ?d = filter (\<lambda>v. fst v \<noteq> i) (cnt_views d)" "rep_views ?d = rep_views d"
    by (simp_all add: cnt_views_def rep_views_def filter_map comp_def)
  have ok: "ledger_ok d" using assms(1) by (simp add: exact_def)
  then have "distinct (map fst (cnt_views ?d))" unfolding views ledger_ok_def by (auto intro: distinct_map_filter_key)
  moreover have "l_rule_id l \<in> fst ` set (cnt_views ?d)" if "l \<in> set (locks d)" for l
  proof -
    from ok that obtain v where "v \<in> set (cnt_views d)" "fst v = l_rule_id l" unfolding ledger_ok_def by force
    with assms(2) that show ?thesis unfolding views by (intro image_eqI [of _ _ v]) auto
  qed
  moreover have "\<forall>(j, c) \<in> set (cnt_views ?d). \<forall>s. c s = lock_total (locks d) j s" using ok unfolding views ledger_ok_def by simp
  ultimately have "ledger_ok ?d" using ok unfolding ledger_ok_def views(2) by simp
  with assms(1) show ?thesis by (simp add: exact_def backed_def)
qed

lemma split_rule_sound:
  assumes "split_rule e r w = Some (Inr w')" and s: "sound w" and "get_rule (w_db w) i = Inr r" and "r_state r = RuleINJECT"
  shows "sound w'"
proof -
  from assms(1) obtain ks ids w1 where run: "add_rule e (split_args e r) ks w = Some (Inr (ids, w1))"
    and w': "w' = w1\<lparr>w_db := (w_db w1)\<lparr>rules := filter (\<lambda>x. r_id x \<noteq> r_id r) (rules (w_db w1))\<rparr>\<rparr>"
    by (auto simp: split_rule_def Let_def rbind_eq_Inr split: if_splits)
  have s1: "sound w1" by (rule add_rule_sound [OF run s])
  from run obtain locked lifetime rows source_rows sel async' where
    "add_rule_dids e (split_args e r) locked lifetime rows source_rows ks ([], g_asynchronous (split_args e r), w\<lparr>w_selector := sel\<rparr>) = Some (Inr (ids, async', w1))"
    by (rule add_ruleE)
  from add_rule_dids_locks [OF this] s have "locks (w_db w1) = locks (w_db w)" by (simp add: split_args_def)
  then have "\<forall>l \<in> set (locks (w_db w1)). l_rule_id l \<noteq> r_id r"
    using waiting_has_no_locks [OF s assms(3,4)] get_rule_Inr [OF assms(3)] by simp
  with s1 show ?thesis by (simp add: sound_but_def w' exact_rule_dropped coherent_def)
qed

lemma inject_rule_sound:
  assumes run: "inject_rule e i w = Some (Inr w')" and s: "sound w" and r: "get_rule (w_db w) i = Inr r" and st: "r_state r = RuleINJECT"
  shows "sound w'"
proof -
  let ?expires = "r_child_rule_id r = None \<and> (case r_expires_at r of None \<Rightarrow> False | Some t \<Rightarrow> t < now e + 300)"
  let ?split = "r_did_type r = CONTAINER \<and> (contains ''.r2d2_request.'' (r_name r) \<or> r_split_container r)"
  have or: "get_rule_or w i = Inr r" using r by simp
  have id: "r_id r = i" and mem: "r \<in> set (rules (w_db w))" using get_rule_Inr [OF r] by simp_all
  consider "?expires" | "\<not> ?expires" "?split" | "\<not> ?expires" "\<not> ?split" by blast
  then show ?thesis
  proof cases
    case 1
    with run or have "w' = w" by (simp add: inject_rule_def obind_def)
    with s show ?thesis by simp
  next
    case 2
    with run or have "split_rule e r w = Some (Inr w')" by (simp add: inject_rule_def obind_def)
    then show ?thesis by (rule split_rule_sound [OF _ s r st])
  next
    case 3
    with run or have "Option.bind (expression_rses e (r_account r) (\<not> r_ignore_availability r) (r_rse_expression r)) (\<lambda>res. obind res (\<lambda>rows.
         Option.bind (source_rses_of e (r_account r) (r_source_replica_expression r)) (\<lambda>src. obind src (\<lambda>source_rows.
           Option.bind (new_selector e (r_account r) rows (r_weight r) (r_copies r) (r_ignore_account_limit r) w) (\<lambda>sel. obind sel (\<lambda>w1.
             obind (ccore (get_did_row (w_db w1) (r_did r))) (\<lambda>x.
               Some (apply_new_rule e True r x rows source_rows w1)))))))) = Some (Inr w')"
      by (simp only: inject_rule_def obind_def [of "Inr r"] sum.case if_False)
    then obtain rows source_rows w1 x where
      sel: "new_selector e (r_account r) rows (r_weight r) (r_copies r) (r_ignore_account_limit r) w = Some (Inr w1)"
      and app: "apply_new_rule e True r x rows source_rows w1 = Inr w'"
      unfolding obind_eq_Some Option.bind_eq_Some_conv option.inject by blast
    obtain sel' where w1: "w1 = w\<lparr>w_selector := sel'\<rparr>" by (rule new_selector_frame [OF sel])
    from mem have "r_id r \<in> r_id ` set (rules (w_db w1))" by (simp add: w1)
    then show ?thesis by (intro apply_new_rule_sound [OF app]) (simp_all add: w1 sound_weaken [OF s])
  qed
qed

section \<open>The engine\<close>

text \<open>The requests that change the tables of the rules. The injector works on the rules in state \<^verbatim>\<open>INJECT\<close>.\<close>

inductive engine_step :: "creation_env \<Rightarrow> work \<Rightarrow> work \<Rightarrow> bool" for e where
  create: "add_rule e g ks w = Some (Inr (ids, w')) \<Longrightarrow> engine_step e w w'"
| approve: "approve_rule e i approver notify w = Some (Inr w') \<Longrightarrow> engine_step e w w'"
| deny: "deny_rule e i approver reason w = Some (Inr w') \<Longrightarrow> engine_step e w w'"
| inject: "get_rule (w_db w) i = Inr r \<Longrightarrow> r_state r = RuleINJECT \<Longrightarrow> inject_rule e i w = Some (Inr w') \<Longrightarrow> engine_step e w w'"
| update: "rule_step (r_env (a_env e)) (w_db w) d \<Longrightarrow> engine_step e w (w\<lparr>w_db := d\<rparr>)"

lemma engine_step_sound: "engine_step e w w' \<Longrightarrow> sound w \<Longrightarrow> sound w'"
  by (induction rule: engine_step.induct)
    (auto intro: add_rule_sound approve_rule_sound deny_rule_sound inject_rule_sound rule_step_sound)

text \<open>C1: Through any sequence of rule creations (with and without approval, background injection and splitting), approvals, denials, injections,
  transfer reports, bad and lost replicas and deletions, the catalogue stays consistent: the counters of every rule and
  replica are the numbers of their locks, every lock has its rule and its replica, and the state of every rule agrees with its locks;
  a rule that waits for approval or injection has none.\<close>

theorem rule_lifecycle_invariant:
  assumes "(engine_step e)\<^sup>*\<^sup>* w w'" and "w_new_replicas w = []" and "w_new_locks w = []"
    and "ledger_ok (w_db w)" and "backed (w_db w)" and "coherent (w_db w)"
  shows "ledger_ok (w_db w') \<and> backed (w_db w') \<and> coherent (w_db w')"
proof -
  have "sound w" using assms(2-6) by (simp add: sound_but_def exact_def)
  with assms(1) have "sound w'" by (induction rule: rtranclp_induct) (blast intro: engine_step_sound)+
  then show ?thesis by (simp add: sound_but_def exact_def)
qed

text \<open>A rule of alice on the dataset \<open>D\<close>, which gets its two locks when it is created.\<close>

definition demo_creation_env :: creation_env where
  "demo_creation_env = apply_env.extend demo_apply_env \<lparr>accounts_of = demo_accounts, roles_of = no_roles, scratchdisk_lifetime = None,
     eol = (\<lambda>_ _. None), mail_text = (\<lambda>_ _ _ _. ''text''), default_mail_from = Some ''admin'', constituents = [], is_constituent = (\<lambda>_. False)\<rparr>"

definition demo_args :: rule_args where
  "demo_args = \<lparr>g_account = ''alice'', g_copies = 1, g_rse_expression = show_seq demo_seq, g_grouping = ''DATASET'', g_weight = None, g_lifetime = None,
     g_locked = False, g_subscription_id = None, g_source_replica_expression = None, g_activity = None, g_notify = None, g_purge_replicas = False,
     g_ignore_availability = False, g_comment = None, g_ask_approval = False, g_asynchronous = False, g_ignore_account_limit = True,
     g_priority = None, g_delay_injection = None, g_split_container = False, g_meta = None\<rparr>"

definition demo_start :: work where
  "demo_start = demo_work\<lparr>w_db := demo_rule_db [] [] []\<rparr>"

definition demo_rows :: "rse_row list" where
  "demo_rows = [sample_rse ''1'' ''CERN'']"

definition demo_added :: "(creation_error + string list \<times> bool \<times> work) option" where
  "demo_added = Option.bind (new_selector demo_creation_env ''alice'' demo_rows None 1 True demo_start) (\<lambda>s. obind s (\<lambda>w.
     add_rule_dids demo_creation_env demo_args False None demo_rows [] [(atlas, ''D'')] ([], False, w)))"

lemma demo_added_runs: "map_option (map_sum id (\<lambda>(ids, _, w). (map r_state (rules (w_db w)), length (locks (w_db w))))) demo_added
    = Some (Inr ([RuleREPLICATING], 2))"
  by code_simp

lemma demo_expression: "expression_rses demo_creation_env ''alice'' True (show_seq demo_seq) = Some (Inr demo_rows)"
proof -
  have vo: "i_vo ''alice'' = ''def''" by code_simp
  have "rse_reg demo_creation_env = demo_session"
    by (simp add: demo_creation_env_def apply_env.defs demo_apply_env_def demo_selector_env_def)
  then show ?thesis
    by (simp add: expression_rses_def demo_parse_filters apply_filters_def vo_filter_def vo sample_rse_def demo_rows_def Let_def)
qed

lemma demo_add_rule: "add_rule demo_creation_env demo_args [(atlas, ''D'')] demo_start
    = map_option (\<lambda>y. rbind y (\<lambda>(ids, _, w). Inr (ids, w))) demo_added"
proof -
  have row: "\<not> (\<exists>x \<in> set demo_rows. staging_area x)" "\<not> (\<exists>x \<in> set demo_rows. rse_type x = TAPE)"
    by (simp_all add: demo_rows_def sample_rse_def)
  have scratch: "get_scratch_policy demo_creation_env a rows l = l" for a rows l
    by (simp add: get_scratch_policy_def demo_creation_env_def apply_env.defs demo_apply_env_def)
  have args: "g_copies demo_args = 1" "g_account demo_args = ''alice''" "g_rse_expression demo_args = show_seq demo_seq" "g_weight demo_args = None"
    "g_ask_approval demo_args = False" "g_ignore_account_limit demo_args = True" "g_lifetime demo_args = None" "g_locked demo_args = False"
    "g_source_replica_expression demo_args = None" "g_asynchronous demo_args = False" "g_ignore_availability demo_args = False"
    by (simp_all add: demo_args_def)
  obtain s where sel: "new_selector demo_creation_env ''alice'' demo_rows None 1 True demo_start = Some s"
    using demo_added_runs by (auto simp: demo_added_def Option.bind_eq_Some_conv)
  show ?thesis
    unfolding add_rule_def demo_added_def args
    by (cases s) (simp_all add: demo_expression obind_def row scratch source_rses_of_def invalid_source_def sel del: add_rule_dids.simps)
qed

theorem rule_lifecycle_invariant_witness:
  "\<exists>w'. (engine_step demo_creation_env)\<^sup>*\<^sup>* demo_start w' \<and> map r_state (rules (w_db w')) = [RuleREPLICATING] \<and> length (locks (w_db w')) = 2 \<and>
     ledger_ok (w_db w') \<and> backed (w_db w') \<and> coherent (w_db w')"
proof -
  obtain ids b w' where added: "demo_added = Some (Inr (ids, b, w'))"
    and res: "map r_state (rules (w_db w')) = [RuleREPLICATING]" "length (locks (w_db w')) = 2"
  proof (cases demo_added)
    case None
    with demo_added_runs show thesis by simp
  next
    case (Some x)
    from demo_added_runs [unfolded this] have "map_sum id (\<lambda>(ids, _, w). (map r_state (rules (w_db w)), length (locks (w_db w)))) x
      = Inr ([RuleREPLICATING], 2)" by simp
    with Some that show thesis by (cases x) auto
  qed
  have "add_rule demo_creation_env demo_args [(atlas, ''D'')] demo_start = Some (Inr (ids, w'))"
    unfolding demo_add_rule added by simp
  then have steps: "(engine_step demo_creation_env)\<^sup>*\<^sup>* demo_start w'"
    by (intro r_into_rtranclp engine_step.create)
  have start: "w_new_replicas demo_start = []" "w_new_locks demo_start = []" "ledger_ok (w_db demo_start)" "backed (w_db demo_start)" "coherent (w_db demo_start)"
    by (simp_all add: demo_start_def demo_work_def demo_rule_db_def ledger_ok_def cnt_views_def rep_views_def backed_def coherent_def)
  from rule_lifecycle_invariant [OF steps start] steps res show ?thesis by (intro exI [of _ w'] conjI) simp_all
qed

end
