(* ===== verification/DID_Metadata.thy ===== *)
theory DID_Metadata
  imports Rule_Lifecycle
begin

text \<open>
  The metadata of data identifiers: the dispatch to plugins (\<^verbatim>\<open>core/did_meta_plugins/__init__.py\<close>) and the plugin for the columns of
  the table of DIDs (\<^verbatim>\<open>DidColumnMeta\<close> of \<^verbatim>\<open>core/did_meta_plugins/did_column_meta.py\<close>), which comes before all others. It changes
  more than the row of the DID: the size of a file is stored with its contents, requests, locks and replicas, and counted for accounts and RSEs.

  The other plugins are those that the configuration names. They keep the values in a store of their own (the table \<^verbatim>\<open>did_meta\<close>, a document
  database), which is not part of the catalogue; which keys they manage and whether they raise are parameters. So are the reading
  of a text as a number of seconds, the error that reports a violated constraint of the table of DIDs, and whether a table that is not
  modelled refers to a DID. Metadata are plain values; one that does not fit the type of its column is refused, which is \<open>DatabaseException\<close> here whatever the database reports.
\<close>

section \<open>The catalogue\<close>

record catalogue =
  cat_db :: rule_db
  cat_rse_counters :: rse_counter_db

datatype meta_value = MNone | MBool bool | MInt int | MText string | MDate int

type_synonym meta = "(string \<times> meta_value) list"

record meta_env = rule_env +
  did_conflict :: rucio_error
  text_seconds :: "string \<Rightarrow> int option"
  custom_manages_key :: "string \<Rightarrow> bool"
  custom_set_metadata_bulk :: "did \<Rightarrow> meta \<Rightarrow> rucio_error + unit"
  referenced_elsewhere :: "did \<Rightarrow> bool"

definition upd_dids :: "(did_row \<Rightarrow> bool) \<Rightarrow> (did_row \<Rightarrow> did_row) \<Rightarrow> rule_db \<Rightarrow> rule_db" where
  "upd_dids P f d = d\<lparr>dids := upd_where P f (dids d)\<rparr>"

definition upd_replicas :: "(replica \<Rightarrow> bool) \<Rightarrow> (replica \<Rightarrow> replica) \<Rightarrow> rule_db \<Rightarrow> rule_db" where
  "upd_replicas P f d = d\<lparr>replicas := upd_where P f (replicas d)\<rparr>"

definition upd_contents :: "(content_row \<Rightarrow> bool) \<Rightarrow> (content_row \<Rightarrow> content_row) \<Rightarrow> rule_db \<Rightarrow> rule_db" where
  "upd_contents P f d = d\<lparr>contents := upd_where P f (contents d)\<rparr>"

definition upd_requests :: "(request \<Rightarrow> bool) \<Rightarrow> (request \<Rightarrow> request) \<Rightarrow> rule_db \<Rightarrow> rule_db" where
  "upd_requests P f d = d\<lparr>requests := upd_where P f (requests d)\<rparr>"

definition has_did :: "'z did_db_scheme \<Rightarrow> did \<Rightarrow> bool" where
  "has_did d k \<longleftrightarrow> (\<exists>x \<in> set (dids d). did_of x = k)"

section \<open>Columns\<close>

definition did_columns :: "string list" where
  "did_columns = [''scope'', ''name'', ''account'', ''did_type'', ''is_open'', ''monotonic'', ''hidden'', ''obsolete'', ''complete'', ''is_new'',
     ''availability'', ''suppressed'', ''bytes'', ''length'', ''md5'', ''adler32'', ''expired_at'', ''purge_replicas'', ''deleted_at'', ''events'',
     ''guid'', ''project'', ''datatype'', ''run_number'', ''stream_name'', ''prod_step'', ''version'', ''campaign'', ''task_id'', ''panda_id'',
     ''lumiblocknr'', ''provenance'', ''phys_group'', ''transient'', ''accessed_at'', ''closed_at'', ''eol_at'', ''is_archive'', ''constituent'',
     ''access_cnt'', ''created_at'', ''updated_at'']"

definition exclude_did_table_columns :: "string list" where
  "exclude_did_table_columns = [''account'', ''availability'', ''complete'', ''created_at'', ''did_type'', ''is_open'', ''monotonic'', ''obsolete'',
     ''scope'', ''suppressed'', ''updated_at'']"

definition additional_keys :: "string list" where
  "additional_keys = [''lifetime'', ''created_before'', ''created_after'', ''length.gt'', ''length.lt'', ''length.gte'', ''length.lte'', ''type'']"

definition manages_key :: "string \<Rightarrow> bool" where
  "manages_key key \<longleftrightarrow> key \<in> set did_columns \<and> key \<notin> set exclude_did_table_columns \<or> key \<in> set additional_keys"

fun text_value :: "meta_value \<Rightarrow> rucio_error + string option" where
  "text_value MNone = Inr None"
| "text_value (MText s) = Inr (Some s)"
| "text_value _ = Inl DatabaseException"

fun int_value :: "meta_value \<Rightarrow> rucio_error + int option" where
  "int_value MNone = Inr None"
| "int_value (MInt n) = Inr (Some n)"
| "int_value (MBool b) = Inr (Some (if b then 1 else 0))"
| "int_value _ = Inl DatabaseException"

fun bool_value :: "meta_value \<Rightarrow> rucio_error + bool option" where
  "bool_value MNone = Inr None"
| "bool_value (MBool b) = Inr (Some b)"
| "bool_value (MInt n) = (if n = 0 then Inr (Some False) else if n = 1 then Inr (Some True) else Inl DatabaseException)"
| "bool_value _ = Inl DatabaseException"

fun date_value :: "meta_value \<Rightarrow> rucio_error + int option" where
  "date_value MNone = Inr None"
| "date_value (MDate t) = Inr (Some t)"
| "date_value _ = Inl DatabaseException"

definition required :: "rucio_error + 'a option \<Rightarrow> rucio_error + 'a" where
  "required r = rbind r (\<lambda>v. case v of None \<Rightarrow> Inl DatabaseException | Some x \<Rightarrow> Inr x)"

text \<open>A value for a column of a row. The columns that the rows here do not have take any value; those of scopes, accounts and enumerations
  take no plain value.\<close>

definition set_column :: "string \<Rightarrow> meta_value \<Rightarrow> did_row \<Rightarrow> rucio_error + did_row" where
  "set_column key v x =
     (if key = ''name'' then rbind (required (text_value v)) (\<lambda>s. Inr (x\<lparr>d_name := s\<rparr>))
      else if key = ''is_open'' then rbind (bool_value v) (\<lambda>b. Inr (x\<lparr>d_open := b\<rparr>))
      else if key = ''monotonic'' then rbind (required (bool_value v)) (\<lambda>b. Inr (x\<lparr>d_monotonic := b\<rparr>))
      else if key = ''length'' then rbind (int_value v) (\<lambda>n. Inr (x\<lparr>d_length := n\<rparr>))
      else if key = ''bytes'' then rbind (int_value v) (\<lambda>n. Inr (x\<lparr>d_bytes := n\<rparr>))
      else if key = ''events'' then rbind (int_value v) (\<lambda>n. Inr (x\<lparr>d_events := n\<rparr>))
      else if key = ''access_cnt'' then rbind (int_value v) (\<lambda>n. Inr (x\<lparr>d_access_cnt := n\<rparr>))
      else if key = ''md5'' then rbind (text_value v) (\<lambda>s. Inr (x\<lparr>d_md5 := s\<rparr>))
      else if key = ''adler32'' then rbind (text_value v) (\<lambda>s. Inr (x\<lparr>d_adler32 := s\<rparr>))
      else if key = ''guid'' then rbind (text_value v) (\<lambda>s. Inr (x\<lparr>d_guid := s\<rparr>))
      else if key = ''expired_at'' then rbind (date_value v) (\<lambda>t. Inr (x\<lparr>d_expired_at := t\<rparr>))
      else if key = ''closed_at'' then rbind (date_value v) (\<lambda>t. Inr (x\<lparr>d_closed_at := t\<rparr>))
      else if key = ''accessed_at'' then rbind (date_value v) (\<lambda>t. Inr (x\<lparr>d_accessed_at := t\<rparr>))
      else if key = ''created_at'' then rbind (required (date_value v)) (\<lambda>t. Inr (x\<lparr>d_created_at := t\<rparr>))
      else if key = ''is_new'' then rbind (bool_value v) (\<lambda>b. Inr (x\<lparr>d_is_new := b\<rparr>))
      else if key = ''is_archive'' then rbind (bool_value v) (\<lambda>b. Inr (x\<lparr>d_is_archive := b\<rparr>))
      else if key = ''constituent'' then rbind (bool_value v) (\<lambda>b. Inr (x\<lparr>d_constituent := b\<rparr>))
      else if key = ''purge_replicas'' then rbind (required (bool_value v)) (\<lambda>b. Inr (x\<lparr>d_purge_replicas := b\<rparr>))
      else if key \<in> set [''scope'', ''account'', ''did_type'', ''availability''] then Inl DatabaseException
      else Inr x)"

definition set_columns :: "meta \<Rightarrow> did_row \<Rightarrow> rucio_error + did_row" where
  "set_columns m x = rfold (\<lambda>(key, v). set_column key v) m x"

definition update_dids :: "(did_row \<Rightarrow> bool) \<Rightarrow> meta \<Rightarrow> rule_db \<Rightarrow> rucio_error + rule_db" where
  "update_dids P m d = rbind (rmapM (\<lambda>x. if P x then set_columns m x else Inr x) (dids d)) (\<lambda>xs. Inr (d\<lparr>dids := xs\<rparr>))"

definition update_file :: "did \<Rightarrow> meta \<Rightarrow> rule_db \<Rightarrow> rucio_error + rule_db" where
  "update_file k m d =
     (let hit = (\<lambda>x. did_of x = k \<and> d_type x = FILE)
      in if \<exists>x \<in> set (dids d). hit x then update_dids hit m d else Inl UnsupportedOperation)"

section \<open>The keys that the plugin treats on their own\<close>

definition is_digit :: "char \<Rightarrow> bool" where
  "is_digit c \<longleftrightarrow> c \<in> set ''0123456789''"

text \<open>The texts that \<^verbatim>\<open>strptime(value, '%Y-%M-%d')\<close> accepts: the second number is one of minutes.\<close>

definition eol_text :: "string \<Rightarrow> bool" where
  "eol_text s = (case py_split CHR ''-'' s of
     [y, m, d] \<Rightarrow> length y = 4 \<and> list_all is_digit y \<and> y \<noteq> ''0000'' \<and>
       (case m of [c] \<Rightarrow> is_digit c | [b, c] \<Rightarrow> b \<in> set ''012345'' \<and> is_digit c | _ \<Rightarrow> False) \<and>
       (case d of [c] \<Rightarrow> is_digit c \<and> c \<noteq> CHR ''0''
        | [b, c] \<Rightarrow> b = CHR ''3'' \<and> c \<in> set ''01'' \<or> b \<in> set ''12'' \<and> is_digit c \<or> b \<in> set ''0 '' \<and> is_digit c \<and> c \<noteq> CHR ''0''
        | _ \<Rightarrow> False)
   | _ \<Rightarrow> False)"

fun expiry_of :: "meta_env \<Rightarrow> meta_value \<Rightarrow> rucio_error + int option" where
  "expiry_of e MNone = Inr None"
| "expiry_of e (MInt n) = Inr (Some (now e + n))"
| "expiry_of e (MBool b) = Inr (Some (now e + (if b then 1 else 0)))"
| "expiry_of e (MText s) = (case text_seconds e s of None \<Rightarrow> Inl ValueError | Some n \<Rightarrow> Inr (Some (now e + n)))"
| "expiry_of e (MDate _) = Inl rucio_error.InvalidValueForKey"

definition file_child :: "did \<Rightarrow> content_row \<Rightarrow> bool" where
  "file_child k r \<longleftrightarrow> c_child r = k \<and> c_child_type r = FILE"

definition parents_of :: "rule_db \<Rightarrow> did \<Rightarrow> did list" where
  "parents_of d k = map c_parent (filter (\<lambda>r. c_child r = k) (contents d))"

text \<open>\<^verbatim>\<open>func.sum\<close>: nulls do not count, and the sum of no value is null.\<close>

definition sql_sum :: "int option list \<Rightarrow> int option" where
  "sql_sum xs = (case List.map_filter id xs of [] \<Rightarrow> None | ys \<Rightarrow> Some (sum_list ys))"

abbreviation rows_of_parent :: "rule_db \<Rightarrow> did \<Rightarrow> content_row list" where
  "rows_of_parent d p \<equiv> filter (\<lambda>r. c_parent r = p) (contents d)"

definition set_guid :: "did \<Rightarrow> meta_value \<Rightarrow> rule_db \<Rightarrow> rucio_error + rule_db" where
  "set_guid k v d =
     rbind (update_file k [(''guid'', v)] d) (\<lambda>d1. rbind (text_value v) (\<lambda>s. Inr (upd_contents (file_child k) (\<lambda>r. r\<lparr>c_guid := s\<rparr>) d1)))"

definition sum_events :: "did \<Rightarrow> rule_db \<Rightarrow> rule_db" where
  "sum_events p d = upd_dids (\<lambda>x. did_of x = p) (\<lambda>x. x\<lparr>d_events := sql_sum (map c_events (rows_of_parent d p))\<rparr>) d"

definition set_events :: "did \<Rightarrow> meta_value \<Rightarrow> rule_db \<Rightarrow> rucio_error + rule_db" where
  "set_events k v d =
     rbind (update_file k [(''events'', v)] d) (\<lambda>d1. rbind (int_value v) (\<lambda>n.
       Inr (fold sum_events (parents_of d1 k) (upd_contents (file_child k) (\<lambda>r. r\<lparr>c_events := n\<rparr>) d1))))"

definition set_adler32 :: "did \<Rightarrow> meta_value \<Rightarrow> rule_db \<Rightarrow> rucio_error + rule_db" where
  "set_adler32 k v d =
     rbind (update_file k [(''adler32'', v)] d) (\<lambda>d1. rbind (text_value v) (\<lambda>s.
       Inr (upd_replicas (\<lambda>p. fst (p_key p) = k) (\<lambda>p. p\<lparr>p_adler32 := s\<rparr>)
         (upd_requests (\<lambda>q. fst (rq_key q) = k) (\<lambda>q. q\<lparr>rq_adler32 := s\<rparr>)
           (upd_contents (file_child k) (\<lambda>r. r\<lparr>c_adler32 := s\<rparr>) d1)))))"

text \<open>The size of a file. Every lock on it moves the usage of its account, every replica that of its RSE. A null size is not accepted for
  locks and replicas.\<close>

definition lock_bytes :: "int option \<Rightarrow> replica_lock \<Rightarrow> rule_db \<Rightarrow> rucio_error + rule_db" where
  "lock_bytes n l d = (case (l_bytes l, n) of
     (None, _) \<Rightarrow> Inl rucio_error.TypeError
   | (Some _, None) \<Rightarrow> Inl DatabaseException
   | (Some old, Some new) \<Rightarrow>
       Inr (d\<lparr>locks := upd_where (\<lambda>x. l_key x = l_key l) (\<lambda>x. x\<lparr>l_bytes := Some new\<rparr>) (locks d),
         account_counters := account_increase (l_account l, l_rse_id l) (1, new)
           (account_decrease (l_account l, l_rse_id l) (1, old) (account_counters d))\<rparr>))"

definition replica_bytes :: "int option \<Rightarrow> replica \<Rightarrow> catalogue \<Rightarrow> rucio_error + catalogue" where
  "replica_bytes n p c = (case n of
     None \<Rightarrow> Inl DatabaseException
   | Some new \<Rightarrow>
       Inr (c\<lparr>cat_db := upd_replicas (\<lambda>x. p_key x = p_key p) (\<lambda>x. x\<lparr>p_bytes := new\<rparr>) (cat_db c),
         cat_rse_counters := increase (p_rse_id p) (1, new) (decrease (p_rse_id p) (1, p_bytes p) (cat_rse_counters c))\<rparr>))"

definition sum_bytes :: "did \<Rightarrow> rule_db \<Rightarrow> rule_db" where
  "sum_bytes p d =
     (let rows = rows_of_parent d p; n = int (length rows); b = sql_sum (map c_bytes rows); ev = sql_sum (map c_events rows);
          d1 = upd_dids (\<lambda>x. did_of x = p) (\<lambda>x. x\<lparr>d_length := Some n, d_bytes := b, d_events := ev\<rparr>) d
      in d1\<lparr>dataset_locks := upd_where (\<lambda>l. (dl_scope l, dl_name l) = p) (\<lambda>l. l\<lparr>dl_length := Some n, dl_bytes := b\<rparr>) (dataset_locks d1)\<rparr>)"

definition set_bytes :: "did \<Rightarrow> meta_value \<Rightarrow> catalogue \<Rightarrow> rucio_error + catalogue" where
  "set_bytes k v c =
     rbind (update_file k [(''bytes'', v)] (cat_db c)) (\<lambda>d1. rbind (int_value v) (\<lambda>n.
       let d2 = upd_requests (\<lambda>q. fst (rq_key q) = k) (\<lambda>q. q\<lparr>rq_bytes := n\<rparr>) (upd_contents (file_child k) (\<lambda>r. r\<lparr>c_bytes := n\<rparr>) d1)
       in rbind (rfold (lock_bytes n) (filter (\<lambda>l. l_did l = k) (locks d2)) d2) (\<lambda>d3.
         rbind (rfold (replica_bytes n) (filter (\<lambda>p. fst (p_key p) = k) (replicas d3)) (c\<lparr>cat_db := d3\<rparr>)) (\<lambda>c4.
           Inr (c4\<lparr>cat_db := fold sum_bytes (parents_of (cat_db c4) k) (cat_db c4)\<rparr>)))))"

section \<open>All other keys\<close>

text \<open>The tables whose rows refer to a DID. A name can be a value too: a row that is renamed must not be referred to, and the names stay unique.\<close>

definition referenced :: "rule_db \<Rightarrow> did \<Rightarrow> bool" where
  "referenced d k \<longleftrightarrow> (\<exists>c \<in> set (contents d). c_parent c = k \<or> c_child c = k) \<or>
     (\<exists>a \<in> set (archive_contents d). ac_parent a = k \<or> ac_child a = k) \<or> (\<exists>p \<in> set (replicas d). fst (p_key p) = k) \<or>
     (\<exists>r \<in> set (rules d). r_did r = k) \<or> (\<exists>l \<in> set (dataset_locks d). (dl_scope l, dl_name l) = k) \<or>
     (\<exists>q \<in> set (requests d). fst (rq_key q) = k) \<or> (\<exists>f \<in> set (dids_followed d). fst f = k)"

definition write_columns :: "meta_env \<Rightarrow> meta \<Rightarrow> did \<Rightarrow> rule_db \<Rightarrow> rucio_error + rule_db" where
  "write_columns e m k d =
     rbind (update_dids (\<lambda>x. did_of x = k) m d) (\<lambda>d1.
       if \<not> distinct (map did_of (dids d1)) \<or> has_did d k \<and> \<not> has_did d1 k \<and> (referenced d k \<or> referenced_elsewhere e k)
       then Inl (did_conflict e) else Inr d1)"

definition write_remainder :: "meta_env \<Rightarrow> did \<Rightarrow> meta \<Rightarrow> bool \<Rightarrow> rule_db \<Rightarrow> rucio_error + rule_db" where
  "write_remainder e k m recursive d =
     (if m = [] then Inr d
      else if \<exists>(key, _) \<in> set m. key \<notin> set did_columns then Inl InvalidMetadata
      else rbind (write_columns e m k d) (\<lambda>d1.
        if recursive then rfold (write_columns e m) (map c_child (rows_of_parent d1 k)) d1 else Inr d1))"

definition meta_step :: "meta_env \<Rightarrow> did \<Rightarrow> string \<times> meta_value \<Rightarrow> catalogue \<times> meta \<Rightarrow> rucio_error + catalogue \<times> meta" where
  "meta_step e k kv s =
     (case (kv, s) of ((key, v), (c, remainder)) \<Rightarrow>
       let on_db = (\<lambda>r. rbind r (\<lambda>d. Inr (c\<lparr>cat_db := d\<rparr>, remainder)))
       in if key = ''eol_at'' \<and> (case v of MText _ \<Rightarrow> True | _ \<Rightarrow> False) then
            (case v of MText t \<Rightarrow> if eol_text t then Inr s else Inl ValueError | _ \<Rightarrow> Inr s)
          else if key = ''lifetime'' then
            on_db (rbind (expiry_of e v) (\<lambda>t. Inr (upd_dids (\<lambda>x. did_of x = k) (\<lambda>x. x\<lparr>d_expired_at := t\<rparr>) (cat_db c))))
          else if key = ''guid'' then on_db (set_guid k v (cat_db c))
          else if key = ''events'' then on_db (set_events k v (cat_db c))
          else if key = ''adler32'' then on_db (set_adler32 k v (cat_db c))
          else if key = ''bytes'' then rbind (set_bytes k v c) (\<lambda>c'. Inr (c', remainder))
          else Inr (c, remainder @ [(key, v)]))"

definition DidColumnMeta_set_metadata_bulk :: "meta_env \<Rightarrow> did \<Rightarrow> meta \<Rightarrow> bool \<Rightarrow> catalogue \<Rightarrow> rucio_error + catalogue" where
  "DidColumnMeta_set_metadata_bulk e k m recursive c =
     (if \<not> has_did (cat_db c) k then Inl DataIdentifierNotFound
      else rbind (rfold (meta_step e k) m (c, [])) (\<lambda>(c1, remainder).
        rbind (write_remainder e k remainder recursive (cat_db c1)) (\<lambda>d. Inr (c1\<lparr>cat_db := d\<rparr>))))"

section \<open>The plugins\<close>

definition RESTRICTED_CHARACTERS :: "char list" where
  "RESTRICTED_CHARACTERS = ''.''"

definition restricted :: "string \<Rightarrow> bool" where
  "restricted key \<longleftrightarrow> (\<exists>c \<in> set RESTRICTED_CHARACTERS. c \<in> set key)"

definition set_metadata :: "meta_env \<Rightarrow> did \<Rightarrow> string \<Rightarrow> meta_value \<Rightarrow> bool \<Rightarrow> catalogue \<Rightarrow> rucio_error + catalogue" where
  "set_metadata e k key v recursive c =
     (if restricted key then Inl InvalidMetadata
      else if manages_key key then DidColumnMeta_set_metadata_bulk e k [(key, v)] recursive c
      else if custom_manages_key e key then rbind (custom_set_metadata_bulk e k [(key, v)]) (\<lambda>_. Inr c)
      else Inl InvalidMetadata)"

definition set_metadata_bulk :: "meta_env \<Rightarrow> did \<Rightarrow> meta \<Rightarrow> bool \<Rightarrow> catalogue \<Rightarrow> rucio_error + catalogue" where
  "set_metadata_bulk e k m recursive c =
     (if \<exists>(key, _) \<in> set m. restricted key \<or> \<not> manages_key key \<and> \<not> custom_manages_key e key then Inl InvalidMetadata
      else let base = filter (\<lambda>(key, _). manages_key key) m; custom = filter (\<lambda>(key, _). \<not> manages_key key) m
           in rbind (if base = [] then Inr c else DidColumnMeta_set_metadata_bulk e k base recursive c) (\<lambda>c1.
                if custom = [] then Inr c1 else rbind (custom_set_metadata_bulk e k custom) (\<lambda>_. Inr c1)))"

definition set_dids_metadata_bulk :: "meta_env \<Rightarrow> (did \<times> meta) list \<Rightarrow> bool \<Rightarrow> catalogue \<Rightarrow> rucio_error + catalogue" where
  "set_dids_metadata_bulk e ds recursive c = rfold (\<lambda>(k, m). set_metadata_bulk e k m recursive) ds c"

section \<open>What the operations leave alone\<close>

lemma has_did_iff: "has_did d k \<longleftrightarrow> k \<in> did_of ` set (dids d)"
  by (auto simp: has_did_def)

lemma map_view_upd_where: "(\<And>p. v (f p) = v p) \<Longrightarrow> map v (upd_where P f ps) = map v ps"
  by (simp add: upd_where_def)

lemma upd_replicas_sel [simp]:
  "locks (upd_replicas P f d) = locks d" "rules (upd_replicas P f d) = rules d" "dids (upd_replicas P f d) = dids d"
  "contents (upd_replicas P f d) = contents d" "archive_contents (upd_replicas P f d) = archive_contents d"
  "replicas (upd_replicas P f d) = upd_where P f (replicas d)" "requests (upd_replicas P f d) = requests d"
  "sources (upd_replicas P f d) = sources d" "dataset_locks (upd_replicas P f d) = dataset_locks d"
  "account_counters (upd_replicas P f d) = account_counters d"
  by (simp_all add: upd_replicas_def)

lemma upd_dids_sel [simp]:
  "dids (upd_dids P f d) = upd_where P f (dids d)" "contents (upd_dids P f d) = contents d"
  "archive_contents (upd_dids P f d) = archive_contents d" "locks (upd_dids P f d) = locks d" "rules (upd_dids P f d) = rules d"
  "replicas (upd_dids P f d) = replicas d" "requests (upd_dids P f d) = requests d" "account_counters (upd_dids P f d) = account_counters d"
  "dataset_locks (upd_dids P f d) = dataset_locks d"
  by (simp_all add: upd_dids_def)

lemma upd_contents_sel [simp]:
  "contents (upd_contents P f d) = upd_where P f (contents d)" "dids (upd_contents P f d) = dids d"
  "archive_contents (upd_contents P f d) = archive_contents d" "locks (upd_contents P f d) = locks d" "rules (upd_contents P f d) = rules d"
  "replicas (upd_contents P f d) = replicas d" "requests (upd_contents P f d) = requests d" "account_counters (upd_contents P f d) = account_counters d"
  by (simp_all add: upd_contents_def)

lemma upd_requests_sel [simp]:
  "requests (upd_requests P f d) = upd_where P f (requests d)" "dids (upd_requests P f d) = dids d" "contents (upd_requests P f d) = contents d"
  "archive_contents (upd_requests P f d) = archive_contents d" "locks (upd_requests P f d) = locks d" "rules (upd_requests P f d) = rules d"
  "replicas (upd_requests P f d) = replicas d" "account_counters (upd_requests P f d) = account_counters d"
  by (simp_all add: upd_requests_def)

lemma same_ledger_upd_replicas: "(\<And>p. rep_view (f p) = rep_view p) \<Longrightarrow> same_ledger d (upd_replicas P f d)"
  unfolding upd_replicas_def by (rule same_ledger_replicas)

text \<open>Updates of the table of DIDs touch no other table.\<close>

lemma update_dids_rows:
  assumes "update_dids P m d = Inr d'"
  shows "d' = d\<lparr>dids := dids d'\<rparr>" and "list_all2 (\<lambda>x y. if P x then set_columns m x = Inr y else y = x) (dids d) (dids d')"
proof -
  have rows: "rmapM f xs = Inr ys \<Longrightarrow> list_all2 (\<lambda>x y. f x = Inr y) xs ys" for f :: "did_row \<Rightarrow> rucio_error + did_row" and xs ys
    by (induction xs arbitrary: ys) (auto simp: rbind_eq_Inr)
  from assms obtain xs where xs: "rmapM (\<lambda>x. if P x then set_columns m x else Inr x) (dids d) = Inr xs" and d': "d' = d\<lparr>dids := xs\<rparr>"
    by (auto simp: update_dids_def rbind_eq_Inr)
  show "d' = d\<lparr>dids := dids d'\<rparr>" by (simp add: d')
  show "list_all2 (\<lambda>x y. if P x then set_columns m x = Inr y else y = x) (dids d) (dids d')"
    using rows [OF xs] by (auto simp: d' elim!: list_all2_mono)
qed

lemma update_file_rows:
  assumes "update_file k m d = Inr d'"
  shows "d' = d\<lparr>dids := dids d'\<rparr>"
    and "list_all2 (\<lambda>x y. if did_of x = k \<and> d_type x = FILE then set_columns m x = Inr y else y = x) (dids d) (dids d')"
proof -
  from assms have "update_dids (\<lambda>x. did_of x = k \<and> d_type x = FILE) m d = Inr d'" by (simp add: update_file_def Let_def split: if_splits)
  note rows = update_dids_rows [OF this]
  show "d' = d\<lparr>dids := dids d'\<rparr>" by (rule rows(1))
  show "list_all2 (\<lambda>x y. if did_of x = k \<and> d_type x = FILE then set_columns m x = Inr y else y = x) (dids d) (dids d')" by (rule rows(2))
qed

lemma set_column_kept:
  assumes "set_column key v x = Inr y"
  shows "d_scope y = d_scope x \<and> d_type y = d_type x \<and> (key = ''name'' \<or> d_name y = d_name x)"
  using assms unfolding set_column_def by (auto simp: rbind_eq_Inr split: if_splits)

lemma set_columns_kept:
  assumes "set_columns m x = Inr y"
  shows "d_scope y = d_scope x \<and> d_type y = d_type x" and "''name'' \<notin> fst ` set m \<Longrightarrow> did_of y = did_of x"
proof -
  have "d_scope y = d_scope x \<and> d_type y = d_type x \<and> (''name'' \<notin> fst ` set m \<longrightarrow> d_name y = d_name x)"
    using assms unfolding set_columns_def
  proof (induction m arbitrary: x)
    case (Cons kv m)
    obtain key v where kv: "kv = (key, v)" by (cases kv)
    with Cons.prems obtain z where z: "set_column key v x = Inr z" "rfold (\<lambda>(key, v). set_column key v) m z = Inr y" by (auto simp: rbind_eq_Inr)
    from Cons.IH [OF z(2)] set_column_kept [OF z(1)] show ?case by (auto simp: kv)
  qed simp
  then show "d_scope y = d_scope x \<and> d_type y = d_type x" "''name'' \<notin> fst ` set m \<Longrightarrow> did_of y = did_of x" by (simp_all add: did_of_def)
qed

lemma write_columns_rows: "write_columns e m k d = Inr d' \<Longrightarrow> d' = d\<lparr>dids := dids d'\<rparr>"
  using update_dids_rows(1) by (auto simp: write_columns_def rbind_eq_Inr split: if_splits)

lemma rfold_dids_only:
  assumes "\<And>x d d'. f x d = Inr d' \<Longrightarrow> d' = d\<lparr>dids := dids d'\<rparr>" and "rfold f xs d = Inr d'"
  shows "d' = d\<lparr>dids := dids d'\<rparr>"
proof (rule rfold_invariant [OF assms(2), of "\<lambda>x. x = d\<lparr>dids := dids x\<rparr>"])
  fix y a b assume a: "a = d\<lparr>dids := dids a\<rparr>" and "f y a = Inr b"
  then have "b = a\<lparr>dids := dids b\<rparr>" by (intro assms(1))
  also have "\<dots> = d\<lparr>dids := dids b\<rparr>" by (subst a) simp
  finally show "b = d\<lparr>dids := dids b\<rparr>" .
qed simp

lemma write_remainder_rows:
  assumes "write_remainder e k m recursive d = Inr d'"
  shows "d' = d\<lparr>dids := dids d'\<rparr>"
proof (cases "m = []")
  case False
  with assms obtain d1 where d1: "write_columns e m k d = Inr d1"
    and d': "(if recursive then rfold (write_columns e m) (map c_child (rows_of_parent d1 k)) d1 else Inr d1) = Inr d'"
    by (auto simp: write_remainder_def rbind_eq_Inr split: if_splits)
  have "d' = d1\<lparr>dids := dids d'\<rparr>" using d' rfold_dids_only [of "write_columns e m", OF write_columns_rows] by (cases recursive) auto
  also have "\<dots> = d\<lparr>dids := dids d'\<rparr>" by (subst write_columns_rows [OF d1]) simp
  finally show ?thesis .
qed (use assms in \<open>simp add: write_remainder_def\<close>)

section \<open>Sizes and usage\<close>

text \<open>What the usage of the RSEs depends on.\<close>

definition size_view :: "replica \<Rightarrow> string \<times> int" where
  "size_view p = (p_rse_id p, p_bytes p)"

text \<open>The counter of an RSE, with the deltas that wait for the abacus, gives the number and the size of its replicas.\<close>

definition usage_exact :: "catalogue \<Rightarrow> bool" where
  "usage_exact c \<longleftrightarrow> (\<forall>rse.
     rse_counted ru_files (cat_rse_counters c) rse + rse_pending uc_files (cat_rse_counters c) rse =
       int (count_where (\<lambda>p. p_rse_id p = rse) (replicas (cat_db c))) \<and>
     rse_counted ru_used (cat_rse_counters c) rse + rse_pending uc_bytes (cat_rse_counters c) rse =
       sum_where (\<lambda>p. p_rse_id p = rse) p_bytes (replicas (cat_db c)))"

lemma usage_exact_same:
  assumes "map size_view (replicas d) = map size_view (replicas (cat_db c))"
  shows "usage_exact (c\<lparr>cat_db := d\<rparr>) = usage_exact c"
proof -
  have count: "count_where (\<lambda>p. p_rse_id p = rse) ps = count_where (\<lambda>v. fst v = rse) (map size_view ps)" for rse ps
    by (induction ps) (simp_all add: size_view_def)
  have sum: "sum_where (\<lambda>p. p_rse_id p = rse) p_bytes ps = sum_where (\<lambda>v. fst v = rse) snd (map size_view ps)" for rse ps
    by (induction ps) (simp_all add: size_view_def)
  show ?thesis unfolding usage_exact_def count sum by (simp add: assms)
qed

lemma pending_increase [simp]:
  "rse_pending col (increase r n x) r' = rse_pending col x r' + (if r = r' then col \<lparr>uc_rse_id = r, uc_files = fst n, uc_bytes = snd n\<rparr> else 0)"
  "rse_counted ucol (increase r n x) r' = rse_counted ucol x r'"
  by (simp_all add: increase_def rse_pending_def rse_counted_def)

definition consistent :: "rule_db \<Rightarrow> bool" where
  "consistent d \<longleftrightarrow> ledger_ok d \<and> backed d \<and> coherent d"

lemma backed_views: "backed d \<longleftrightarrow> (\<forall>l \<in> set (locks d). l_replica l \<in> set (map fst (rep_views d)))"
  by (simp add: backed_def rep_views_def comp_def)

lemma consistent_same: "same_ledger d d' \<Longrightarrow> consistent d' = consistent d"
  unfolding consistent_def backed_views using same_ledger_ok [of d d'] same_ledger_coherent [of d d'] by (simp add: same_ledger_def)

text \<open>What the ledger reads of a lock.\<close>

definition lock_view :: "replica_lock \<Rightarrow> (did \<times> string \<times> string) \<times> lock_state" where
  "lock_view l = (l_key l, l_state l)"

lemma lock_view_totals:
  assumes "map lock_view ls' = map lock_view ls"
  shows "map l_key ls' = map l_key ls" and "lock_total ls' i s = lock_total ls i s" and "replica_total ls' k = replica_total ls k"
    and "l_rule_id ` set ls' = l_rule_id ` set ls" and "l_replica ` set ls' = l_replica ` set ls"
proof -
  have key: "map l_key xs = map fst (map lock_view xs)" for xs by (simp add: lock_view_def)
  have rid: "l_rule_id l = fst (snd (fst (lock_view l)))" "l_state l = snd (lock_view l)"
      "l_replica l = (fst (fst (lock_view l)), snd (snd (fst (lock_view l))))" for l
    by (simp_all add: lock_view_def l_key_def l_replica_def)
  have cnt: "count_where (\<lambda>l. P (lock_view l)) xs = count_where P (map lock_view xs)" for P xs by (induction xs) simp_all
  have img: "(\<lambda>l. f (lock_view l)) ` set xs = f ` set (map lock_view xs)" for f :: "_ \<Rightarrow> 'b" and xs by (simp add: image_image)
  show "map l_key ls' = map l_key ls" unfolding key assms ..
  show "lock_total ls' i s = lock_total ls i s" unfolding lock_total_def rid cnt [of "\<lambda>v. fst (snd (fst v)) = i \<and> snd v = s"] assms ..
  show "replica_total ls' k = replica_total ls k"
    unfolding replica_total_def rid cnt [of "\<lambda>v. (fst (fst v), snd (snd (fst v))) = k"] assms ..
  show "l_rule_id ` set ls' = l_rule_id ` set ls" unfolding rid img [of "\<lambda>v. fst (snd (fst v))"] assms ..
  show "l_replica ` set ls' = l_replica ` set ls" unfolding rid img [of "\<lambda>v. (fst (fst v), snd (snd (fst v)))"] assms ..
qed

lemma consistent_views:
  assumes "consistent d" and "map lock_view (locks d') = map lock_view (locks d)" and "map state_view (rules d') = map state_view (rules d)"
    and "rep_views d' = rep_views d"
  shows "consistent d'"
proof -
  note t = lock_view_totals [OF assms(2)]
  have cv: "cnt_views x = map fst (map state_view (rules x))" for x :: rule_db by (simp add: cnt_views_def state_view_def comp_def)
  have cnt: "cnt_views d' = cnt_views d" unfolding cv assms(3) ..
  have "\<forall>l \<in> set (locks d'). l_rule_id l \<in> fst ` set (cnt_views d')"
  proof
    fix l assume "l \<in> set (locks d')"
    then have "l_rule_id l \<in> l_rule_id ` set (locks d)" unfolding t(4) [symmetric] by (rule imageI)
    then obtain l' where "l' \<in> set (locks d)" "l_rule_id l = l_rule_id l'" by (elim imageE)
    moreover have "\<forall>l \<in> set (locks d). l_rule_id l \<in> fst ` set (cnt_views d)" using assms(1) by (simp add: consistent_def ledger_ok_def)
    ultimately show "l_rule_id l \<in> fst ` set (cnt_views d')" by (simp add: cnt)
  qed
  moreover have "\<forall>l \<in> set (locks d'). l_replica l \<in> set (map fst (rep_views d'))"
  proof
    fix l assume "l \<in> set (locks d')"
    then have "l_replica l \<in> l_replica ` set (locks d)" unfolding t(5) [symmetric] by (rule imageI)
    then obtain l' where "l' \<in> set (locks d)" "l_replica l = l_replica l'" by (elim imageE)
    moreover have "\<forall>l \<in> set (locks d). l_replica l \<in> set (map fst (rep_views d))" using assms(1) unfolding consistent_def backed_views by simp
    ultimately show "l_replica l \<in> set (map fst (rep_views d'))" by (simp add: assms(4))
  qed
  moreover have "coherent d'" using assms(1) unfolding consistent_def coherent_alt assms(3) by simp
  ultimately show ?thesis using assms(1) unfolding consistent_def backed_views ledger_ok_def t(1-3) cnt assms(4) by simp
qed

text \<open>The size of the locks of an account on an RSE, and how its usage moves with it.\<close>

definition locked_bytes :: "rule_db \<Rightarrow> string \<times> string \<Rightarrow> int" where
  "locked_bytes d a = sum_where (\<lambda>l. (l_account l, l_rse_id l) = a) (\<lambda>l. the (l_bytes l)) (locks d)"

definition charged :: "rule_db \<Rightarrow> rule_db \<Rightarrow> bool" where
  "charged d d' \<longleftrightarrow> (\<forall>a. account_pending au_files (account_counters d') a = account_pending au_files (account_counters d) a \<and>
     account_pending au_bytes (account_counters d') a - account_pending au_bytes (account_counters d) a = locked_bytes d' a - locked_bytes d a)"

definition accounted :: "catalogue \<Rightarrow> catalogue \<Rightarrow> bool" where
  "accounted c c' \<longleftrightarrow> map lock_view (locks (cat_db c')) = map lock_view (locks (cat_db c)) \<and>
     map state_view (rules (cat_db c')) = map state_view (rules (cat_db c)) \<and> rep_views (cat_db c') = rep_views (cat_db c) \<and>
     (usage_exact c \<longrightarrow> usage_exact c') \<and> charged (cat_db c) (cat_db c')"

lemma accounted_refl [simp, intro]: "accounted c c"
  by (simp add: accounted_def charged_def)

lemma charged_trans: "charged a b \<Longrightarrow> charged b c \<Longrightarrow> charged a c"
  unfolding charged_def by (intro allI conjI; erule_tac x = aa in allE; erule_tac x = aa in allE) simp_all

lemma accounted_trans [trans]: "accounted a b \<Longrightarrow> accounted b c \<Longrightarrow> accounted a c"
  unfolding accounted_def by (auto intro: charged_trans)

lemma accounted_consistent: "accounted c c' \<Longrightarrow> consistent (cat_db c) \<Longrightarrow> consistent (cat_db c')"
  unfolding accounted_def by (blast intro: consistent_views)

lemma accounted_rfold:
  assumes "\<And>x c c'. f x c = Inr c' \<Longrightarrow> accounted c c'" and "rfold f xs c = Inr c'"
  shows "accounted c c'"
  by (rule rfold_invariant [OF assms(2), of "accounted c"]) (simp, blast intro: accounted_trans assms(1))

lemma accounted_tables:
  assumes "locks d = locks (cat_db c)" and "rules d = rules (cat_db c)" and "account_counters d = account_counters (cat_db c)"
    and "map (\<lambda>p. (rep_view p, size_view p)) (replicas d) = map (\<lambda>p. (rep_view p, size_view p)) (replicas (cat_db c))"
  shows "accounted c (c\<lparr>cat_db := d\<rparr>)"
proof -
  have split: "map rep_view ps = map fst (map (\<lambda>p. (rep_view p, size_view p)) ps)" "map size_view ps = map snd (map (\<lambda>p. (rep_view p, size_view p)) ps)" for ps
    by simp_all
  have "map rep_view (replicas d) = map rep_view (replicas (cat_db c))" "map size_view (replicas d) = map size_view (replicas (cat_db c))"
    unfolding split assms(4) by simp_all
  then show ?thesis by (simp add: accounted_def charged_def locked_bytes_def rep_views_def usage_exact_same assms(1-3))
qed

section \<open>The size of a file\<close>

lemma sum_where_upd_value:
  assumes "\<And>x. P (f x) = P x" and "\<And>x. g (f x) = n"
  shows "sum_where P g (upd_where Q f xs) = sum_where P g xs + sum_where P (\<lambda>x. n - g x) (filter Q xs)"
  by (induction xs) (simp_all add: assms)

lemma upd_where_twice:
  assumes "\<And>x. P (f x) = P x" and "\<And>x. f (f x) = f x"
  shows "upd_where P f (upd_where Q f xs) = upd_where (\<lambda>x. P x \<or> Q x) f xs"
  by (induction xs) (simp_all add: assms)

lemma upd_where_cong: "(\<And>x. x \<in> set xs \<Longrightarrow> P x = Q x) \<Longrightarrow> upd_where P f xs = upd_where Q f xs"
  by (simp add: upd_where_def)

lemma rfold_lock_bytes:
  assumes "rfold (lock_bytes (Some n)) ls d = Inr d'"
  shows "d' = d\<lparr>locks := upd_where (\<lambda>x. l_key x \<in> l_key ` set ls) (\<lambda>x. x\<lparr>l_bytes := Some n\<rparr>) (locks d), account_counters := account_counters d'\<rparr> \<and>
    (\<forall>a. account_pending au_files (account_counters d') a = account_pending au_files (account_counters d) a \<and>
      account_pending au_bytes (account_counters d') a = account_pending au_bytes (account_counters d) a +
        sum_where (\<lambda>l. (l_account l, l_rse_id l) = a) (\<lambda>l. n - the (l_bytes l)) ls)"
  using assms
proof (induction ls arbitrary: d)
  case Nil
  then show ?case by (simp add: upd_where_def)
next
  case (Cons l ls)
  let ?f = "\<lambda>x. x\<lparr>l_bytes := Some n\<rparr>"
  from Cons.prems obtain d1 where one: "lock_bytes (Some n) l d = Inr d1" and rest: "rfold (lock_bytes (Some n)) ls d1 = Inr d'"
    by (auto simp: rbind_eq_Inr)
  from one obtain old where old: "l_bytes l = Some old"
    and d1: "d1 = d\<lparr>locks := upd_where (\<lambda>x. l_key x = l_key l) ?f (locks d),
         account_counters := account_increase (l_account l, l_rse_id l) (1, n) (account_decrease (l_account l, l_rse_id l) (1, old) (account_counters d))\<rparr>"
    by (auto simp: lock_bytes_def split: option.splits)
  note IH = Cons.IH [OF rest]
  have key: "l_key (?f x) = l_key x" for x by (simp add: l_key_def l_did_def)
  have "upd_where (\<lambda>x. l_key x \<in> l_key ` set ls) ?f (upd_where (\<lambda>x. l_key x = l_key l) ?f (locks d)) =
      upd_where (\<lambda>x. l_key x \<in> l_key ` set (l # ls)) ?f (locks d)"
    by (subst upd_where_twice) (simp_all add: key disj_commute)
  with IH show ?case
    by (simp add: d1 account_decrease_def account_files.pending_inc account_bytes.pending_inc old)
qed

lemma rfold_replica_bytes:
  assumes "rfold (replica_bytes (Some n)) ps c = Inr c'"
  shows "cat_db c' = upd_replicas (\<lambda>x. p_key x \<in> p_key ` set ps) (\<lambda>x. x\<lparr>p_bytes := n\<rparr>) (cat_db c) \<and>
    (\<forall>r col. rse_counted col (cat_rse_counters c') r = rse_counted col (cat_rse_counters c) r \<and>
      rse_pending uc_files (cat_rse_counters c') r = rse_pending uc_files (cat_rse_counters c) r \<and>
      rse_pending uc_bytes (cat_rse_counters c') r = rse_pending uc_bytes (cat_rse_counters c) r + sum_where (\<lambda>p. p_rse_id p = r) (\<lambda>p. n - p_bytes p) ps)"
  using assms
proof (induction ps arbitrary: c)
  case Nil
  then show ?case by (simp add: upd_replicas_def upd_where_def)
next
  case (Cons p ps)
  let ?f = "\<lambda>x. x\<lparr>p_bytes := n\<rparr>"
  from Cons.prems obtain c1 where one: "replica_bytes (Some n) p c = Inr c1" and rest: "rfold (replica_bytes (Some n)) ps c1 = Inr c'"
    by (auto simp: rbind_eq_Inr)
  from one have c1: "c1 = c\<lparr>cat_db := upd_replicas (\<lambda>x. p_key x = p_key p) ?f (cat_db c),
         cat_rse_counters := increase (p_rse_id p) (1, n) (decrease (p_rse_id p) (1, p_bytes p) (cat_rse_counters c))\<rparr>"
    by (simp add: replica_bytes_def)
  note IH = Cons.IH [OF rest]
  have key: "p_key (?f x) = p_key x" for x by (simp add: p_key_def)
  have "upd_where (\<lambda>x. p_key x \<in> p_key ` set ps) ?f (upd_where (\<lambda>x. p_key x = p_key p) ?f (replicas (cat_db c))) =
      upd_where (\<lambda>x. p_key x \<in> p_key ` set (p # ps)) ?f (replicas (cat_db c))"
    by (subst upd_where_twice) (simp_all add: key disj_commute)
  with IH show ?case by (simp add: c1 upd_replicas_def decrease_def)
qed

lemma lock_bytes_all:
  assumes "rfold (lock_bytes n) (filter (\<lambda>l. l_did l = k) (locks d)) d = Inr d'"
  shows "d' = d\<lparr>locks := locks d', account_counters := account_counters d'\<rparr>" and "accounted (c\<lparr>cat_db := d\<rparr>) (c\<lparr>cat_db := d'\<rparr>)"
    and "n = Some b \<Longrightarrow> locks d' = upd_where (\<lambda>l. l_did l = k) (\<lambda>l. l\<lparr>l_bytes := Some b\<rparr>) (locks d)"
proof -
  let ?ls = "filter (\<lambda>l. l_did l = k) (locks d)"
  have "d' = d\<lparr>locks := locks d', account_counters := account_counters d'\<rparr> \<and> accounted (c\<lparr>cat_db := d\<rparr>) (c\<lparr>cat_db := d'\<rparr>) \<and>
      (n = Some b \<longrightarrow> locks d' = upd_where (\<lambda>l. l_did l = k) (\<lambda>l. l\<lparr>l_bytes := Some b\<rparr>) (locks d))"
  proof (cases n)
    case None
    with assms have "d' = d" by (cases ?ls) (auto simp: lock_bytes_def rbind_eq_Inr split: option.splits)
    with None show ?thesis by simp
  next
    case (Some m)
    let ?f = "\<lambda>l. l\<lparr>l_bytes := Some m\<rparr>"
    note run = rfold_lock_bytes [OF assms [unfolded Some]]
    have "upd_where (\<lambda>x. l_key x \<in> l_key ` set ?ls) ?f (locks d) = upd_where (\<lambda>l. l_did l = k) ?f (locks d)"
      by (rule upd_where_cong) (auto simp: l_key_def)
    with run have d': "d' = d\<lparr>locks := upd_where (\<lambda>l. l_did l = k) ?f (locks d), account_counters := account_counters d'\<rparr>" by simp
    have locks: "locks d' = upd_where (\<lambda>l. l_did l = k) ?f (locks d)" using arg_cong [OF d', of locks] by simp
    have "map lock_view (locks d') = map lock_view (locks d)"
      unfolding locks by (rule map_view_upd_where) (simp add: lock_view_def l_key_def l_did_def)
    moreover have "locked_bytes d' a - locked_bytes d a = sum_where (\<lambda>l. (l_account l, l_rse_id l) = a) (\<lambda>l. m - the (l_bytes l)) ?ls" for a
      unfolding locked_bytes_def locks by (subst sum_where_upd_value [where n = m]) simp_all
    moreover have "rules d' = rules d" "replicas d' = replicas d" using arg_cong [OF d', of rules] arg_cong [OF d', of replicas] by simp_all
    moreover have "usage_exact (c\<lparr>cat_db := d'\<rparr>) = usage_exact (c\<lparr>cat_db := d\<rparr>)"
      using usage_exact_same [of d' "c\<lparr>cat_db := d\<rparr>"] \<open>replicas d' = replicas d\<close> by simp
    ultimately have "accounted (c\<lparr>cat_db := d\<rparr>) (c\<lparr>cat_db := d'\<rparr>)" using conjunct2 [OF run]
      by (simp add: accounted_def charged_def rep_views_def)
    with d' locks Some show ?thesis by simp
  qed
  then show "d' = d\<lparr>locks := locks d', account_counters := account_counters d'\<rparr>" "accounted (c\<lparr>cat_db := d\<rparr>) (c\<lparr>cat_db := d'\<rparr>)"
    "n = Some b \<Longrightarrow> locks d' = upd_where (\<lambda>l. l_did l = k) (\<lambda>l. l\<lparr>l_bytes := Some b\<rparr>) (locks d)" by blast+
qed

lemma replica_bytes_all:
  assumes "rfold (replica_bytes n) (filter (\<lambda>p. fst (p_key p) = k) (replicas (cat_db c))) c = Inr c'"
  shows "cat_db c' = (cat_db c)\<lparr>replicas := replicas (cat_db c')\<rparr>" and "accounted c c'"
    and "n = Some b \<Longrightarrow> replicas (cat_db c') = upd_where (\<lambda>p. fst (p_key p) = k) (\<lambda>p. p\<lparr>p_bytes := b\<rparr>) (replicas (cat_db c))"
proof -
  let ?ps = "filter (\<lambda>p. fst (p_key p) = k) (replicas (cat_db c))"
  have "cat_db c' = (cat_db c)\<lparr>replicas := replicas (cat_db c')\<rparr> \<and> accounted c c' \<and>
      (n = Some b \<longrightarrow> replicas (cat_db c') = upd_where (\<lambda>p. fst (p_key p) = k) (\<lambda>p. p\<lparr>p_bytes := b\<rparr>) (replicas (cat_db c)))"
  proof (cases n)
    case None
    with assms have "c' = c" by (cases ?ps) (auto simp: replica_bytes_def rbind_eq_Inr)
    with None show ?thesis by simp
  next
    case (Some m)
    let ?f = "\<lambda>p. p\<lparr>p_bytes := m\<rparr>"
    note run = rfold_replica_bytes [OF assms [unfolded Some]]
    have "upd_where (\<lambda>x. p_key x \<in> p_key ` set ?ps) ?f (replicas (cat_db c)) = upd_where (\<lambda>p. fst (p_key p) = k) ?f (replicas (cat_db c))"
      by (rule upd_where_cong) auto
    with run have db: "cat_db c' = upd_replicas (\<lambda>p. fst (p_key p) = k) ?f (cat_db c)" by (simp add: upd_replicas_def)
    have reps: "rep_views (cat_db c') = rep_views (cat_db c)"
      unfolding rep_views_def db upd_replicas_sel by (rule map_view_upd_where) (simp add: rep_view_def p_key_def)
    have cnt: "count_where (\<lambda>p. p_rse_id p = r) (upd_where P ?f ps) = count_where (\<lambda>p. p_rse_id p = r) ps" for r P ps
      by (induction ps) simp_all
    have sum: "sum_where (\<lambda>p. p_rse_id p = r) p_bytes (upd_where P ?f ps) =
        sum_where (\<lambda>p. p_rse_id p = r) p_bytes ps + sum_where (\<lambda>p. p_rse_id p = r) (\<lambda>p. m - p_bytes p) (filter P ps)" for r P ps
      by (rule sum_where_upd_value) simp_all
    have "usage_exact c \<longrightarrow> usage_exact c'" using run unfolding usage_exact_def db upd_replicas_sel cnt sum by simp
    with reps have "accounted c c'" by (simp add: accounted_def charged_def db locked_bytes_def)
    with Some show ?thesis unfolding db by (simp add: upd_replicas_def)
  qed
  then show "cat_db c' = (cat_db c)\<lparr>replicas := replicas (cat_db c')\<rparr>" "accounted c c'"
    "n = Some b \<Longrightarrow> replicas (cat_db c') = upd_where (\<lambda>p. fst (p_key p) = k) (\<lambda>p. p\<lparr>p_bytes := b\<rparr>) (replicas (cat_db c))" by blast+
qed

text \<open>The sums of the collections above.\<close>

lemma sum_bytes_sel [simp]:
  "contents (sum_bytes p d) = contents d" "archive_contents (sum_bytes p d) = archive_contents d" "locks (sum_bytes p d) = locks d"
  "rules (sum_bytes p d) = rules d" "replicas (sum_bytes p d) = replicas d" "requests (sum_bytes p d) = requests d"
  "account_counters (sum_bytes p d) = account_counters d" "map did_of (dids (sum_bytes p d)) = map did_of (dids d)"
  "map d_type (dids (sum_bytes p d)) = map d_type (dids d)"
  by (simp_all add: sum_bytes_def Let_def map_view_upd_where did_of_def)

lemma fold_sum_bytes_sel [simp]:
  "contents (fold sum_bytes ps d) = contents d" "archive_contents (fold sum_bytes ps d) = archive_contents d" "locks (fold sum_bytes ps d) = locks d"
  "rules (fold sum_bytes ps d) = rules d" "replicas (fold sum_bytes ps d) = replicas d" "requests (fold sum_bytes ps d) = requests d"
  "account_counters (fold sum_bytes ps d) = account_counters d" "map did_of (dids (fold sum_bytes ps d)) = map did_of (dids d)"
  "map d_type (dids (fold sum_bytes ps d)) = map d_type (dids d)"
  by (induction ps arbitrary: d) simp_all

lemma sum_bytes_row:
  assumes "x \<in> set (dids (sum_bytes p d))"
  shows "did_of x = p \<and> d_bytes x = sql_sum (map c_bytes (rows_of_parent d p)) \<or> did_of x \<noteq> p \<and> x \<in> set (dids d)"
proof -
  from assms obtain y where y: "y \<in> set (dids d)" "x = y \<and> did_of y \<noteq> p \<or> did_of y = p \<and>
      x = y\<lparr>d_length := Some (int (length (rows_of_parent d p))), d_bytes := sql_sum (map c_bytes (rows_of_parent d p)),
        d_events := sql_sum (map c_events (rows_of_parent d p))\<rparr>"
    by (auto simp: sum_bytes_def Let_def elim!: mem_upd_whereE)
  from y(2) show ?thesis
  proof
    assume "did_of y = p \<and> x = y\<lparr>d_length := Some (int (length (rows_of_parent d p))), d_bytes := sql_sum (map c_bytes (rows_of_parent d p)),
        d_events := sql_sum (map c_events (rows_of_parent d p))\<rparr>"
    then show ?thesis by (simp add: did_of_def)
  qed (use y(1) in simp)
qed

lemma fold_sum_bytes_rows:
  assumes "x \<in> set (dids (fold sum_bytes ps d))"
  shows "did_of x \<in> set ps \<Longrightarrow> d_bytes x = sql_sum (map c_bytes (rows_of_parent d (did_of x)))" and "did_of x \<notin> set ps \<Longrightarrow> x \<in> set (dids d)"
proof -
  have "(did_of x \<in> set ps \<longrightarrow> d_bytes x = sql_sum (map c_bytes (rows_of_parent d (did_of x)))) \<and> (did_of x \<notin> set ps \<longrightarrow> x \<in> set (dids d))"
    using assms
  proof (induction ps arbitrary: x rule: rev_induct)
    case (snoc p ps)
    let ?d = "fold sum_bytes ps d"
    from snoc.prems have "x \<in> set (dids (sum_bytes p ?d))" by simp
    from sum_bytes_row [OF this] snoc.IH [of x] show ?case by auto
  qed simp
  then show "did_of x \<in> set ps \<Longrightarrow> d_bytes x = sql_sum (map c_bytes (rows_of_parent d (did_of x)))" "did_of x \<notin> set ps \<Longrightarrow> x \<in> set (dids d)" by simp_all
qed

lemma set_bytes_run:
  assumes "set_bytes k v c = Inr c'"
  obtains n d1 d2 d3 c4 where "int_value v = Inr n" and "update_file k [(''bytes'', v)] (cat_db c) = Inr d1"
    and "d2 = upd_requests (\<lambda>q. fst (rq_key q) = k) (\<lambda>q. q\<lparr>rq_bytes := n\<rparr>) (upd_contents (file_child k) (\<lambda>r. r\<lparr>c_bytes := n\<rparr>) d1)"
    and "rfold (lock_bytes n) (filter (\<lambda>l. l_did l = k) (locks d2)) d2 = Inr d3"
    and "rfold (replica_bytes n) (filter (\<lambda>p. fst (p_key p) = k) (replicas d3)) (c\<lparr>cat_db := d3\<rparr>) = Inr c4"
    and "c' = c4\<lparr>cat_db := fold sum_bytes (parents_of (cat_db c4) k) (cat_db c4)\<rparr>"
  using assms that unfolding set_bytes_def Let_def rbind_eq_Inr by auto

lemma set_bytes_accounted:
  assumes "set_bytes k v c = Inr c'"
  shows "accounted c c'"
  using assms
proof (rule set_bytes_run)
  fix n d1 d2 d3 c4
  assume d1: "update_file k [(''bytes'', v)] (cat_db c) = Inr d1"
    and d2: "d2 = upd_requests (\<lambda>q. fst (rq_key q) = k) (\<lambda>q. q\<lparr>rq_bytes := n\<rparr>) (upd_contents (file_child k) (\<lambda>r. r\<lparr>c_bytes := n\<rparr>) d1)"
    and d3: "rfold (lock_bytes n) (filter (\<lambda>l. l_did l = k) (locks d2)) d2 = Inr d3"
    and c4: "rfold (replica_bytes n) (filter (\<lambda>p. fst (p_key p) = k) (replicas d3)) (c\<lparr>cat_db := d3\<rparr>) = Inr c4"
    and c': "c' = c4\<lparr>cat_db := fold sum_bytes (parents_of (cat_db c4) k) (cat_db c4)\<rparr>"
  have "locks d2 = locks (cat_db c) \<and> rules d2 = rules (cat_db c) \<and> replicas d2 = replicas (cat_db c) \<and> account_counters d2 = account_counters (cat_db c)"
    unfolding d2 by (subst (1 2 3 4) update_file_rows(1) [OF d1]) simp
  then have "accounted c (c\<lparr>cat_db := d2\<rparr>)" by (intro accounted_tables) simp_all
  also have "accounted (c\<lparr>cat_db := d2\<rparr>) (c\<lparr>cat_db := d3\<rparr>)" by (rule lock_bytes_all(2) [OF d3])
  also have "accounted (c\<lparr>cat_db := d3\<rparr>) c4" using c4 by (intro replica_bytes_all(2) [of n k]) simp
  also have "accounted c4 c'" unfolding c' by (rule accounted_tables) simp_all
  finally show ?thesis .
qed

lemma accounted_db:
  assumes "d = x\<lparr>dids := dids d\<rparr>"
  shows "accounted (c\<lparr>cat_db := x\<rparr>) (c\<lparr>cat_db := d\<rparr>)"
proof -
  have "accounted (c\<lparr>cat_db := x\<rparr>) ((c\<lparr>cat_db := x\<rparr>)\<lparr>cat_db := d\<rparr>)" by (rule accounted_tables) (subst assms, simp)+
  then show ?thesis by simp
qed

lemma sum_events_sel [simp]:
  "contents (fold sum_events ps d) = contents d" "archive_contents (fold sum_events ps d) = archive_contents d" "locks (fold sum_events ps d) = locks d"
  "rules (fold sum_events ps d) = rules d" "replicas (fold sum_events ps d) = replicas d" "requests (fold sum_events ps d) = requests d"
  "account_counters (fold sum_events ps d) = account_counters d" "map did_of (dids (fold sum_events ps d)) = map did_of (dids d)"
  "map d_type (dids (fold sum_events ps d)) = map d_type (dids d)"
  by (induction ps arbitrary: d) (simp_all add: sum_events_def map_view_upd_where did_of_def)

text \<open>One key of the metadata, or all that remain.\<close>

lemma meta_step_cases:
  assumes "meta_step e k (key, v) (c, m) = Inr (c', m')"
  obtains (kept) "c' = c" "m' = m" | (later) "c' = c" "m' = m @ [(key, v)]" "key \<noteq> ''bytes''"
  | (lifetime) t where "c' = c\<lparr>cat_db := upd_dids (\<lambda>x. did_of x = k) (\<lambda>x. x\<lparr>d_expired_at := t\<rparr>) (cat_db c)\<rparr>" "m' = m"
  | (guid) d where "set_guid k v (cat_db c) = Inr d" "c' = c\<lparr>cat_db := d\<rparr>" "m' = m"
  | (events) d where "set_events k v (cat_db c) = Inr d" "c' = c\<lparr>cat_db := d\<rparr>" "m' = m"
  | (adler32) d where "set_adler32 k v (cat_db c) = Inr d" "c' = c\<lparr>cat_db := d\<rparr>" "m' = m"
  | (bytes) "key = ''bytes''" "set_bytes k v c = Inr c'" "m' = m"
proof -
  note run = assms [unfolded meta_step_def Let_def prod.case]
  consider "key = ''eol_at'' \<and> (case v of MText _ \<Rightarrow> True | _ \<Rightarrow> False)" | "key = ''lifetime''" | "key = ''guid''" | "key = ''events''"
    | "key = ''adler32''" | "key = ''bytes''"
    | "\<not> (key = ''eol_at'' \<and> (case v of MText _ \<Rightarrow> True | _ \<Rightarrow> False))" "key \<noteq> ''lifetime''" "key \<noteq> ''guid''" "key \<noteq> ''events''"
      "key \<noteq> ''adler32''" "key \<noteq> ''bytes''" by satx
  then show thesis
  proof cases
    case 1
    with run have "c' = c \<and> m' = m" by (simp split: meta_value.splits if_splits)
    with kept show thesis by simp
  next
    case 2
    with run obtain t where "c' = c\<lparr>cat_db := upd_dids (\<lambda>x. did_of x = k) (\<lambda>x. x\<lparr>d_expired_at := t\<rparr>) (cat_db c)\<rparr>" "m' = m" by (auto simp: rbind_eq_Inr)
    with lifetime show thesis by blast
  next
    case 3
    with run obtain d where "set_guid k v (cat_db c) = Inr d" "c' = c\<lparr>cat_db := d\<rparr>" "m' = m" by (auto simp: rbind_eq_Inr)
    with guid show thesis by blast
  next
    case 4
    with run obtain d where "set_events k v (cat_db c) = Inr d" "c' = c\<lparr>cat_db := d\<rparr>" "m' = m" by (auto simp: rbind_eq_Inr)
    with events show thesis by blast
  next
    case 5
    with run obtain d where "set_adler32 k v (cat_db c) = Inr d" "c' = c\<lparr>cat_db := d\<rparr>" "m' = m" by (auto simp: rbind_eq_Inr)
    with adler32 show thesis by blast
  next
    case 6
    with run have "set_bytes k v c = Inr c' \<and> m' = m" by (auto simp: rbind_eq_Inr)
    with 6 bytes show thesis by blast
  next
    case 7
    with run have "c' = c \<and> m' = m @ [(key, v)]" by (simp split: if_splits)
    with 7 later show thesis by simp
  qed
qed

lemma file_column_tables:
  assumes "update_file k m d = Inr x"
  shows "locks x = locks d" "rules x = rules d" "replicas x = replicas d" "account_counters x = account_counters d" "contents x = contents d"
    "archive_contents x = archive_contents d" "requests x = requests d"
  by (subst update_file_rows(1) [OF assms], simp)+

lemma meta_step_accounted:
  assumes "meta_step e k kv (c, m) = Inr (c', m')"
  shows "accounted c c'"
proof -
  obtain key v where kv: "kv = (key, v)" by (cases kv)
  from assms [unfolded kv] show ?thesis
  proof (cases rule: meta_step_cases)
    case (lifetime t)
    then show ?thesis by (simp add: accounted_tables)
  next
    case (guid d)
    then show ?thesis by (auto simp: set_guid_def rbind_eq_Inr file_column_tables intro!: accounted_tables)
  next
    case (events d)
    then show ?thesis by (auto simp: set_events_def rbind_eq_Inr file_column_tables intro!: accounted_tables)
  next
    case (adler32 d)
    then show ?thesis
      by (auto simp: set_adler32_def rbind_eq_Inr file_column_tables map_view_upd_where rep_view_def size_view_def p_key_def intro!: accounted_tables)
  next
    case bytes
    then show ?thesis by (intro set_bytes_accounted)
  qed simp_all
qed

lemma DidColumnMeta_accounted:
  assumes "DidColumnMeta_set_metadata_bulk e k m recursive c = Inr c'"
  shows "accounted c c'"
proof -
  from assms obtain c1 rest d where loop: "rfold (meta_step e k) m (c, []) = Inr (c1, rest)"
    and d: "write_remainder e k rest recursive (cat_db c1) = Inr d" and c': "c' = c1\<lparr>cat_db := d\<rparr>"
    by (auto simp: DidColumnMeta_set_metadata_bulk_def rbind_eq_Inr split: if_splits)
  have "accounted c (fst (c1, rest))"
  proof (rule rfold_invariant [OF loop, of "\<lambda>s. accounted c (fst s)"])
    fix kv s s' assume "accounted c (fst s)" and "meta_step e k kv s = Inr s'"
    then show "accounted c (fst s')" using meta_step_accounted [of e k kv "fst s" "snd s" "fst s'" "snd s'"] by (auto intro: accounted_trans)
  qed simp
  moreover have "accounted (c1\<lparr>cat_db := cat_db c1\<rparr>) c'" unfolding c' by (rule accounted_db [OF write_remainder_rows [OF d]])
  ultimately show ?thesis by (auto intro: accounted_trans)
qed

lemma set_metadata_bulk_accounted: "set_metadata_bulk e k m recursive c = Inr c' \<Longrightarrow> accounted c c'"
  by (auto simp: set_metadata_bulk_def Let_def rbind_eq_Inr intro: DidColumnMeta_accounted split: if_splits)

text \<open>What a new size of a file \<open>k\<close> changes.\<close>

definition resized :: "did \<Rightarrow> int \<Rightarrow> rule_db \<Rightarrow> rule_db \<Rightarrow> bool" where
  "resized k n d d' \<longleftrightarrow>
     locks d' = upd_where (\<lambda>l. l_did l = k) (\<lambda>l. l\<lparr>l_bytes := Some n\<rparr>) (locks d) \<and>
     replicas d' = upd_where (\<lambda>p. fst (p_key p) = k) (\<lambda>p. p\<lparr>p_bytes := n\<rparr>) (replicas d) \<and>
     requests d' = upd_where (\<lambda>q. fst (rq_key q) = k) (\<lambda>q. q\<lparr>rq_bytes := Some n\<rparr>) (requests d) \<and>
     contents d' = upd_where (file_child k) (\<lambda>r. r\<lparr>c_bytes := Some n\<rparr>) (contents d) \<and>
     map did_of (dids d') = map did_of (dids d) \<and>
     (\<forall>x \<in> set (dids d').
        if did_of x \<in> set (parents_of d k) then d_bytes x = sql_sum (map c_bytes (rows_of_parent d' (did_of x)))
        else if did_of x = k \<and> d_type x = FILE then d_bytes x = Some n
        else x \<in> set (dids d))"

lemma set_bytes_resized:
  assumes "set_bytes k (MInt n) c = Inr c'"
  shows "resized k n (cat_db c) (cat_db c')"
  using assms
proof (rule set_bytes_run)
  fix n' d1 d2 d3 c4
  assume n': "int_value (MInt n) = Inr n'" and d1: "update_file k [(''bytes'', MInt n)] (cat_db c) = Inr d1"
    and d2: "d2 = upd_requests (\<lambda>q. fst (rq_key q) = k) (\<lambda>q. q\<lparr>rq_bytes := n'\<rparr>) (upd_contents (file_child k) (\<lambda>r. r\<lparr>c_bytes := n'\<rparr>) d1)"
    and d3: "rfold (lock_bytes n') (filter (\<lambda>l. l_did l = k) (locks d2)) d2 = Inr d3"
    and c4: "rfold (replica_bytes n') (filter (\<lambda>p. fst (p_key p) = k) (replicas d3)) (c\<lparr>cat_db := d3\<rparr>) = Inr c4"
    and c': "c' = c4\<lparr>cat_db := fold sum_bytes (parents_of (cat_db c4) k) (cat_db c4)\<rparr>"
  let ?d = "cat_db c" and ?d4 = "cat_db c4"
  have n: "n' = Some n" using n' by simp
  note t1 = file_column_tables [OF d1]
  have c4': "rfold (replica_bytes n') (filter (\<lambda>p. fst (p_key p) = k) (replicas (cat_db (c\<lparr>cat_db := d3\<rparr>)))) (c\<lparr>cat_db := d3\<rparr>) = Inr c4" using c4 by simp
  have t3: "dids d3 = dids d1" "contents d3 = contents d2" "requests d3 = requests d2" "replicas d3 = replicas ?d" "rules d3 = rules d2"
    by (subst lock_bytes_all(1) [OF d3], simp add: d2 t1)+
  have locks: "locks d3 = upd_where (\<lambda>l. l_did l = k) (\<lambda>l. l\<lparr>l_bytes := Some n\<rparr>) (locks ?d)"
    using lock_bytes_all(3) [OF d3 n] by (simp add: d2 t1)
  have t4: "dids ?d4 = dids d1" "contents ?d4 = upd_where (file_child k) (\<lambda>r. r\<lparr>c_bytes := Some n\<rparr>) (contents ?d)" "locks ?d4 = locks d3"
    "requests ?d4 = upd_where (\<lambda>q. fst (rq_key q) = k) (\<lambda>q. q\<lparr>rq_bytes := Some n\<rparr>) (requests ?d)"
    by (subst replica_bytes_all(1) [OF c4'], simp add: t3 d2 t1 n)+
  have reps: "replicas ?d4 = upd_where (\<lambda>p. fst (p_key p) = k) (\<lambda>p. p\<lparr>p_bytes := n\<rparr>) (replicas ?d)"
    using replica_bytes_all(3) [OF c4' n] by (simp add: t3)
  have "map c_parent (filter (\<lambda>r. c_child r = k) (upd_where P (\<lambda>r. r\<lparr>c_bytes := v\<rparr>) rs)) = map c_parent (filter (\<lambda>r. c_child r = k) rs)" for P v rs
    by (induction rs) (simp_all add: c_parent_def c_child_def)
  then have parents: "parents_of ?d4 k = parents_of ?d k" by (simp add: parents_of_def t4(2))
  have row: "did_of y = did_of x \<and> (if did_of y = k \<and> d_type y = FILE then d_bytes y = Some n else y = x)"
    if "if did_of x = k \<and> d_type x = FILE then set_columns [(''bytes'', MInt n)] x = Inr y else y = x" for x y
    using that by (auto simp: set_columns_def set_column_def did_of_def split: if_splits)
  have rows: "map did_of (dids d1) = map did_of (dids ?d)" "\<forall>y \<in> set (dids d1). if did_of y = k \<and> d_type y = FILE then d_bytes y = Some n else y \<in> set (dids ?d)"
    using list_all2_mono [OF update_file_rows(2) [OF d1] row] by (induction rule: list_all2_induct) (auto split: if_splits)
  have "if did_of x \<in> set (parents_of ?d k) then d_bytes x = sql_sum (map c_bytes (rows_of_parent ?d4 (did_of x)))
      else if did_of x = k \<and> d_type x = FILE then d_bytes x = Some n else x \<in> set (dids ?d)"
    if "x \<in> set (dids (fold sum_bytes (parents_of ?d k) ?d4))" for x
    using fold_sum_bytes_rows [OF that] rows(2) by (auto simp: t4(1))
  then show ?thesis by (simp add: resized_def c' parents t4 locks reps rows(1))
qed


definition demo_meta_env :: meta_env where
  "demo_meta_env = rule_env.extend demo_rule_env (meta_env.fields RucioException (\<lambda>_. None) (\<lambda>_. True) (\<lambda>_ _. Inr ()) (\<lambda>_. False))"

definition demo_sizes :: catalogue where
  "demo_sizes = \<lparr>cat_db = two_files, cat_rse_counters = \<lparr>rse_usages = [],
     updated_rse_counters = [\<lparr>uc_rse_id = ''A'', uc_files = 2, uc_bytes = 6\<rparr>], rse_usage_history = []\<rparr>\<rparr>"

lemma demo_sizes_exact: "consistent (cat_db demo_sizes)" "usage_exact demo_sizes"
proof -
  have "backed two_files" by (simp add: backed_def demo_defs l_replica_def l_did_def p_key_def)
  then show "consistent (cat_db demo_sizes)" by (simp add: consistent_def demo_sizes_def two_files_ok)
  have "replicas two_files = [demo_replica ''f'' 1, demo_replica ''g'' 1]" by (simp add: two_files_def demo_rule_db_def)
  moreover have "p_rse_id (demo_replica k n) = ''A''" "p_bytes (demo_replica k n) = 3" for k n by (simp_all add: demo_replica_def)
  ultimately show "usage_exact demo_sizes" by (simp add: usage_exact_def demo_sizes_def rse_counted_def rse_pending_def)
qed


end
