(* ===== verification/Replicas.thy ===== *)
theory Replicas
  imports DID_Metadata
begin

text \<open>
  File replicas (\<^verbatim>\<open>core/replica.py\<close>): their registration with \<^verbatim>\<open>add_replicas\<close>, the reports on their states, tombstones,
  accesses, and the choice of the replicas that the reaper deletes.

  The state is the catalogue of the rule engine with the counters of the RSEs. Which exception reports a violated
  constraint depends on the database and on the moment at which the session flushes; it is a parameter, and so
  are the protocol drivers, which the configuration names and the program loads at run time.
\<close>

section \<open>The environment\<close>

record replica_env = meta_env +
  known_scope :: "iscope \<Rightarrow> bool"
  known_account :: "iaccount \<Rightarrow> bool"
  replica_conflict :: rucio_error
  pfn_path :: "string \<Rightarrow> string \<Rightarrow> string \<Rightarrow> rucio_error + string"
  lfn_pfns :: "string \<Rightarrow> string \<Rightarrow> string \<Rightarrow> did list \<Rightarrow> rucio_error + string list"
  clean_pfn :: "string \<Rightarrow> string"

abbreviation rules_env :: "replica_env \<Rightarrow> rule_env" where
  "rules_env e \<equiv> rule_env.truncate e"

abbreviation plugins :: "replica_env \<Rightarrow> meta_env" where
  "plugins e \<equiv> meta_env.truncate e"

definition get_rse :: "replica_env \<Rightarrow> string \<Rightarrow> rucio_error + rse_row" where
  "get_rse e rse = (case filter (\<lambda>x. \<not> deleted x \<and> rse_id x = rse) (rses (registry e)) of x # _ \<Rightarrow> Inr x | [] \<Rightarrow> Inl RSENotFoundError)"

section \<open>Registration\<close>

text \<open>The dictionary of a file. \<open>None\<close> is a missing key.\<close>

record file_dict =
  fd_did :: did
  fd_bytes :: "int option"
  fd_md5 :: "string option"
  fd_adler32 :: "string option"
  fd_account :: "iaccount option"
  fd_meta :: meta
  fd_pfn :: "string option"
  fd_path :: "string option"
  fd_state :: "replica_state option"
  fd_lock_cnt :: "int option"
  fd_tombstone :: "int option"

definition new_file_did :: "replica_env \<Rightarrow> iaccount \<Rightarrow> file_dict \<Rightarrow> int \<Rightarrow> did_row" where
  "new_file_did e account f b = \<lparr>d_scope = fst (fd_did f), d_name = snd (fd_did f), d_type = FILE, d_open = None, d_length = None,
     d_bytes = Some b, d_events = None, d_lost = False, d_md5 = fd_md5 f, d_adler32 = fd_adler32 f, d_created_at = now e,
     d_account = (case fd_account f of Some a \<Rightarrow> a | None \<Rightarrow> account), d_monotonic = False, d_expired_at = None, d_is_new = None,
     d_guid = None, d_is_archive = None, d_constituent = None, d_purge_replicas = True, d_closed_at = None, d_accessed_at = None,
     d_access_cnt = None\<rparr>"

definition insert_did :: "replica_env \<Rightarrow> rucio_error \<Rightarrow> did_row \<Rightarrow> rule_db \<Rightarrow> rucio_error + rule_db" where
  "insert_did e conflict x d =
     (if has_did d (did_of x) then Inl conflict
      else if \<not> known_scope e (d_scope x) \<or> \<not> known_account e (d_account x) then Inl ScopeNotFound
      else Inr (d\<lparr>dids := dids d @ [x]\<rparr>))"

definition set_file_meta :: "meta_env \<Rightarrow> did \<Rightarrow> meta \<Rightarrow> catalogue \<Rightarrow> rucio_error + catalogue" where
  "set_file_meta e k m c = (if m = [] then Inr c else set_metadata_bulk e k m False c)"

definition add_file_did :: "replica_env \<Rightarrow> iaccount \<Rightarrow> meta \<Rightarrow> file_dict \<Rightarrow> catalogue \<Rightarrow> rucio_error + catalogue" where
  "add_file_did e account dataset_meta f c = (case fd_bytes f of
     None \<Rightarrow> Inl KeyError
   | Some b \<Rightarrow> rbind (insert_did e (did_conflict e) (new_file_did e account f b) (cat_db c)) (\<lambda>d.
       rbind (set_file_meta (plugins e) (fd_did f) (fd_meta f) (c\<lparr>cat_db := d\<rparr>)) (set_file_meta (plugins e) (fd_did f) dataset_meta)))"

definition bulk_add_new_file_dids :: "replica_env \<Rightarrow> iaccount \<Rightarrow> meta \<Rightarrow> file_dict list \<Rightarrow> catalogue \<Rightarrow> rucio_error + catalogue" where
  "bulk_add_new_file_dids e account dataset_meta files c = rfold (add_file_did e account dataset_meta) files c"

definition bulk_add_file_dids :: "replica_env \<Rightarrow> iaccount \<Rightarrow> meta \<Rightarrow> file_dict list \<Rightarrow> catalogue \<Rightarrow> rucio_error + catalogue" where
  "bulk_add_file_dids e account dataset_meta files c =
     (let available = map did_of (filter (\<lambda>x. d_type x = FILE) (dids (cat_db c)))
      in bulk_add_new_file_dids e account dataset_meta (filter (\<lambda>f. fd_did f \<notin> set available) files) c)"

definition tombstone_from_delay :: "int \<Rightarrow> attr_value option \<Rightarrow> rucio_error + int option" where
  "tombstone_from_delay clock delay = (case delay of
     None \<Rightarrow> Inr None
   | Some v \<Rightarrow> if v = AStr [] \<or> v = ABool False then Inr None
       else (case attr_int v of
               None \<Rightarrow> Inl ValueError
             | Some n \<Rightarrow> Inr (if n = 0 then None else if n < 0 then Some OBSOLETE else Some (clock + n))))"

definition new_file_replica :: "replica_env \<Rightarrow> string \<Rightarrow> int option \<Rightarrow> file_dict \<Rightarrow> int \<Rightarrow> replica" where
  "new_file_replica e rse default_tombstone f b = \<lparr>p_scope = fst (fd_did f), p_name = snd (fd_did f), p_rse_id = rse, p_bytes = b,
     p_md5 = fd_md5 f, p_adler32 = fd_adler32 f, p_state = (case fd_state f of Some s \<Rightarrow> s | None \<Rightarrow> AVAILABLE),
     p_lock_cnt = (case fd_lock_cnt f of Some n \<Rightarrow> n | None \<Rightarrow> 0), p_accessed_at = None,
     p_tombstone = (case fd_tombstone f of Some t \<Rightarrow> Some t | None \<Rightarrow> default_tombstone), p_created_at = now e, p_path = fd_path f\<rparr>"

definition new_replicas :: "replica_env \<Rightarrow> string \<Rightarrow> int option \<Rightarrow> file_dict list \<Rightarrow> rucio_error + replica list" where
  "new_replicas e rse default_tombstone files =
     rmapM (\<lambda>f. case fd_bytes f of None \<Rightarrow> Inl KeyError | Some b \<Rightarrow> Inr (new_file_replica e rse default_tombstone f b)) files"

definition bulk_add_replicas :: "replica_env \<Rightarrow> string \<Rightarrow> file_dict list \<Rightarrow> rule_db \<Rightarrow> rucio_error + (int \<times> int) \<times> rule_db" where
  "bulk_add_replicas e rse files d =
     (let missing = filter (\<lambda>f. (fd_did f, rse) \<notin> p_key ` set (replicas d)) files
      in rbind (tombstone_from_delay (now e) (get_rse_attribute (attr_region e) (registry e) rse ''tombstone_delay'')) (\<lambda>t.
         rbind (new_replicas e rse t missing) (\<lambda>ps.
           if \<not> distinct (map p_key ps) then Inl (replica_conflict e)
           else if \<exists>p \<in> set ps. \<not> has_did d (fst (p_key p)) then Inl RucioException
           else Inr ((int (length ps), sum_list (map p_bytes ps)), d\<lparr>replicas := replicas d @ ps\<rparr>))))"

text \<open>The part of \<^verbatim>\<open>add_replicas\<close> that looks at the given PFNs. On a non-deterministic RSE they give the paths; the driver of a
  scheme parses only the PFNs of that scheme, but the loop visits every file whose PFN starts with its name. On a
  deterministic one they have to be among the PFNs that the drivers expect.\<close>

definition pfn_scheme :: "string \<Rightarrow> string" where
  "pfn_scheme pfn = hd (py_split CHR '':'' pfn)"

definition starts_with :: "string \<Rightarrow> string \<Rightarrow> bool" where
  "starts_with s pre \<longleftrightarrow> take (length pre) s = pre"

definition set_path :: "replica_env \<Rightarrow> string \<Rightarrow> string \<Rightarrow> file_dict \<Rightarrow> rucio_error + file_dict" where
  "set_path e rse scheme f = (case fd_pfn f of
     None \<Rightarrow> Inl KeyError
   | Some pfn \<Rightarrow> if \<not> starts_with pfn scheme then Inr f
                 else if pfn_scheme pfn \<noteq> scheme then Inl KeyError
                 else rbind (pfn_path e rse scheme pfn) (\<lambda>path. Inr (f\<lparr>fd_path := Some path\<rparr>)))"

definition check_pfns :: "replica_env \<Rightarrow> string \<Rightarrow> string \<Rightarrow> file_dict list \<Rightarrow> rucio_error + file_dict list" where
  "check_pfns e rse scheme files =
     (if \<exists>f \<in> set files. fd_pfn f = None then Inl KeyError
      else let lfns = map fd_did (filter (\<lambda>f. starts_with (the (fd_pfn f)) scheme) files);
               given = map (clean_pfn e) (filter (\<lambda>p. pfn_scheme p = scheme) (map (\<lambda>f. the (fd_pfn f)) files))
           in rbind (lfn_pfns e rse scheme ''wan'' lfns) (\<lambda>wan.
                if set given \<subseteq> set wan then Inr files
                else rbind (lfn_pfns e rse scheme ''lan'' lfns) (\<lambda>lan.
                  if set given \<subseteq> set wan \<union> set lan then Inr files else Inl InvalidPath)))"

definition resolve_pfns :: "replica_env \<Rightarrow> rse_row \<Rightarrow> file_dict list \<Rightarrow> rucio_error + file_dict list" where
  "resolve_pfns e x files =
     rfold (\<lambda>scheme fs. if deterministic x then check_pfns e (rse_id x) scheme fs else rmapM (set_path e (rse_id x) scheme) fs)
       (in_order (map pfn_scheme [p. f \<leftarrow> files, p \<leftarrow> (case fd_pfn f of Some p \<Rightarrow> [p] | None \<Rightarrow> [])])) files"

definition add_replicas ::
  "replica_env \<Rightarrow> string \<Rightarrow> file_dict list \<Rightarrow> iaccount \<Rightarrow> bool \<Rightarrow> meta \<Rightarrow> catalogue \<Rightarrow> rucio_error + catalogue" where
  "add_replicas e rse files account ignore_availability dataset_meta c =
     rbind (get_rse e rse) (\<lambda>x.
       if volatile x then Inl UnsupportedOperation
       else if availability_write x \<noteq> Some True \<and> \<not> ignore_availability then Inl ResourceTemporaryUnavailable
       else if \<not> deterministic x \<and> (\<exists>f \<in> set files. fd_pfn f = None) then Inl UnsupportedOperation
       else rbind (bulk_add_file_dids e account dataset_meta files c) (\<lambda>c1.
         rbind (resolve_pfns e x files) (\<lambda>files'.
           rbind (bulk_add_replicas e rse files' (cat_db c1)) (\<lambda>(n, d2).
             Inr (c1\<lparr>cat_db := d2, cat_rse_counters := increase rse n (cat_rse_counters c1)\<rparr>)))))"

definition add_replica ::
  "replica_env \<Rightarrow> string \<Rightarrow> did \<Rightarrow> int \<Rightarrow> iaccount \<Rightarrow> string option \<Rightarrow> string option \<Rightarrow> string option \<Rightarrow> meta \<Rightarrow> int option \<Rightarrow> catalogue
     \<Rightarrow> rucio_error + catalogue" where
  "add_replica e rse k b account adler32 md5 pfn m tombstone c =
     add_replicas e rse [\<lparr>fd_did = k, fd_bytes = Some b, fd_md5 = md5, fd_adler32 = adler32, fd_account = None, fd_meta = m,
       fd_pfn = (if pfn = Some [] then None else pfn), fd_path = None, fd_state = None, fd_lock_cnt = None, fd_tombstone = tombstone\<rparr>]
       account True [] c"

section \<open>Reports on states\<close>

text \<open>A report that a replica reached a state. The conditions under which a replica may become \<^verbatim>\<open>BEING_DELETED\<close> or
  \<^verbatim>\<open>TEMPORARY_UNAVAILABLE\<close> are added to the query that was run before, and not to the update, which therefore
  changes every replica it is asked to change.\<close>

record state_report =
  sr_did :: did
  sr_rse_id :: string
  sr_state :: replica_state
  sr_path :: "string option"
  sr_error_message :: "string option"
  sr_broken_rule_id :: "string option"
  sr_broken_message :: "string option"

definition recover_bad :: "did \<Rightarrow> string \<Rightarrow> rule_db \<Rightarrow> rule_db" where
  "recover_bad k rse d = d\<lparr>bad_replicas :=
     upd_where (\<lambda>(k', rse', s). k' = k \<and> rse' = rse \<and> s = BadBAD) (\<lambda>(k', rse', s). (k', rse', BadRECOVERED)) (bad_replicas d)\<rparr>"

definition report_transfer :: "rule_env \<Rightarrow> state_report \<Rightarrow> rule_db \<Rightarrow> rucio_error + rule_db" where
  "report_transfer e s d =
     (case sr_state s of
        AVAILABLE \<Rightarrow> rbind (successful_transfer e (sr_did s) (sr_rse_id s) d) (\<lambda>d'. Inr (recover_bad (sr_did s) (sr_rse_id s) d'))
      | UNAVAILABLE \<Rightarrow> failed_transfer e (sr_did s) (sr_rse_id s) (sr_error_message s) (sr_broken_rule_id s) (sr_broken_message s) d
      | _ \<Rightarrow> Inr d)"

definition reported_replica :: "state_report \<Rightarrow> replica \<Rightarrow> replica" where
  "reported_replica s p = p\<lparr>p_state := sr_state s,
     p_tombstone := (if sr_state s = BEING_DELETED then Some OBSOLETE else p_tombstone p),
     p_path := (case sr_path s of None \<Rightarrow> p_path p | Some path \<Rightarrow> if path = [] then p_path p else Some path)\<rparr>"

definition update_replica :: "rule_env \<Rightarrow> state_report \<Rightarrow> rule_db \<Rightarrow> rucio_error + rule_db" where
  "update_replica e s d =
     (if (sr_did s, sr_rse_id s) \<notin> p_key ` set (replicas d) then Inl ReplicaNotFound
      else rbind (report_transfer e s d) (\<lambda>d1.
        Inr (upd_replicas (\<lambda>p. p_key p = (sr_did s, sr_rse_id s)) (reported_replica s) d1)))"

definition update_replicas_states :: "rule_env \<Rightarrow> state_report list \<Rightarrow> rule_db \<Rightarrow> rucio_error + rule_db" where
  "update_replicas_states e reports d = rfold (update_replica e) reports d"

definition update_replica_state :: "rule_env \<Rightarrow> did \<Rightarrow> string \<Rightarrow> replica_state \<Rightarrow> rule_db \<Rightarrow> rucio_error + rule_db" where
  "update_replica_state e k rse s d =
     update_replicas_states e [\<lparr>sr_did = k, sr_rse_id = rse, sr_state = s, sr_path = None, sr_error_message = None,
       sr_broken_rule_id = None, sr_broken_message = None\<rparr>] d"

section \<open>Tombstones and accesses\<close>

definition set_tombstone :: "did \<Rightarrow> string \<Rightarrow> int option \<Rightarrow> rule_db \<Rightarrow> rucio_error + rule_db" where
  "set_tombstone k rse tombstone d =
     (if (k, rse) \<notin> p_key ` set (replicas d) then Inl ReplicaNotFound
      else if replica_locks_at d k rse \<noteq> [] then Inl ReplicaIsLocked
      else Inr (upd_replicas (\<lambda>p. p_key p = (k, rse)) (\<lambda>p. p\<lparr>p_tombstone := tombstone\<rparr>) d))"

text \<open>\<^verbatim>\<open>touch_replica\<close>. In SQL \<^verbatim>\<open>tombstone NOT IN (OBSOLETE, NULL)\<close> is never true, so that the case that should move
  the tombstone keeps it. \<open>busy_replica\<close> and \<open>busy_did\<close> say that another transaction has locked the row.\<close>

definition sql_not_in :: "int option \<Rightarrow> int option list \<Rightarrow> bool" where
  "sql_not_in v vs \<longleftrightarrow> v \<noteq> None \<and> None \<notin> set vs \<and> v \<notin> set vs"

definition touched_replica :: "int \<Rightarrow> replica \<Rightarrow> replica" where
  "touched_replica clock p = p\<lparr>p_accessed_at := Some clock,
     p_tombstone := (if sql_not_in (p_tombstone p) [Some OBSOLETE, None] then Some clock else p_tombstone p)\<rparr>"

definition touched_did :: "int \<Rightarrow> did_row \<Rightarrow> did_row" where
  "touched_did clock x = x\<lparr>d_accessed_at := Some clock, d_access_cnt := (case d_access_cnt x of None \<Rightarrow> Some 1 | Some n \<Rightarrow> Some (n + 1))\<rparr>"

definition touch_replica :: "bool \<Rightarrow> bool \<Rightarrow> did \<Rightarrow> string \<Rightarrow> int \<Rightarrow> rule_db \<Rightarrow> bool \<times> rule_db" where
  "touch_replica busy_replica busy_did k rse clock d =
     (let file = (\<lambda>x. did_of x = k \<and> d_type x = FILE);
          d1 = upd_replicas (\<lambda>p. p_key p = (k, rse)) (touched_replica clock) d
      in if (k, rse) \<notin> p_key ` set (replicas d) then (True, d)
         else if busy_replica then (False, d)
         else if \<not> (\<exists>x \<in> set (dids d). file x) then (True, d1)
         else if busy_did then (False, d1)
         else (True, d1\<lparr>dids := upd_where file (touched_did clock) (dids d1)\<rparr>))"

section \<open>The choice of the reaper\<close>

text \<open>\<^verbatim>\<open>list_and_mark_unlocked_replicas\<close>. The date of the last change of a row, which the database keeps, and the rows that another
  reaper has locked are parameters. The first query reads the candidates in the order of their tombstones; the
  second, for every chunk of them, drops the last available copy of a file that requests may need.\<close>

record reaper_query =
  rp_limit :: nat
  rp_needed_space :: "int option"
  rp_rse :: string
  rp_delay_seconds :: int
  rp_only_obsolete :: bool
  rp_row_updated :: "replica \<Rightarrow> int"
  rp_row_locked :: "replica \<Rightarrow> bool"

definition by_tombstone :: "(replica \<Rightarrow> int) \<Rightarrow> replica list \<Rightarrow> replica list" where
  "by_tombstone upd ps = sort_key (\<lambda>p. the (p_tombstone p)) (sort_key upd ps)"

definition is_source :: "rule_db \<Rightarrow> replica \<Rightarrow> bool" where
  "is_source d p \<longleftrightarrow> (\<exists>s \<in> set (sources d). (so_did s, so_rse_id s) = p_key p)"

definition unlocked :: "int \<Rightarrow> reaper_query \<Rightarrow> rule_db \<Rightarrow> replica \<Rightarrow> bool" where
  "unlocked clock q d p \<longleftrightarrow> p_lock_cnt p = 0 \<and> p_rse_id p = rp_rse q \<and>
     (if rp_only_obsolete q then p_tombstone p = Some OBSOLETE else (case p_tombstone p of Some t \<Rightarrow> t < clock | None \<Rightarrow> False)) \<and>
     (p_state p \<in> {AVAILABLE, UNAVAILABLE, BAD} \<or> p_state p = BEING_DELETED \<and> rp_row_updated q p < clock - rp_delay_seconds q) \<and>
     \<not> is_source d p \<and> \<not> rp_row_locked q p"

definition can_delete :: "rule_db \<Rightarrow> replica \<Rightarrow> bool" where
  "can_delete d p \<longleftrightarrow> has_did d (fst (p_key p)) \<and>
     ((\<exists>p' \<in> set (replicas d). fst (p_key p') = fst (p_key p) \<and> p_rse_id p' \<noteq> p_rse_id p \<and> p_state p' = AVAILABLE) \<or>
      \<not> (\<exists>r \<in> set (requests d). (rq_scope r, rq_name r) = fst (p_key p)))"

definition enough :: "reaper_query \<Rightarrow> replica list \<Rightarrow> int \<Rightarrow> bool" where
  "enough q rows freed \<longleftrightarrow> rp_limit q \<le> length rows \<or>
     \<not> rp_only_obsolete q \<and> (case rp_needed_space q of None \<Rightarrow> False | Some b \<Rightarrow> b < freed)"

fun take_rows :: "reaper_query \<Rightarrow> replica list \<Rightarrow> replica list \<times> int \<Rightarrow> replica list \<times> int" where
  "take_rows q [] acc = acc"
| "take_rows q (p # ps) (rows, freed) =
     (if enough q rows freed then (rows, freed)
      else take_rows q ps (rows @ [p], if p_state p \<noteq> UNAVAILABLE then freed + p_bytes p else freed))"

fun take_chunks :: "reaper_query \<Rightarrow> rule_db \<Rightarrow> replica list list \<Rightarrow> replica list \<times> int \<Rightarrow> replica list \<times> int" where
  "take_chunks q d [] acc = acc"
| "take_chunks q d (ps # pss) acc =
     (let found = take (rp_limit q - length (fst acc)) (by_tombstone (rp_row_updated q) (filter (can_delete d) ps));
          (rows, freed) = take_rows q found acc
      in if enough q rows freed then (rows, freed) else take_chunks q d pss (rows, freed))"

function in_chunks :: "nat \<Rightarrow> 'a list \<Rightarrow> 'a list list" where
  "in_chunks n xs = (if n = 0 \<or> xs = [] then [] else take n xs # in_chunks n (drop n xs))"
  by pat_completeness auto

termination in_chunks
  by (relation "measure (\<lambda>(n, xs). length xs)") auto

declare in_chunks.simps [simp del]

definition list_and_mark_unlocked_replicas :: "int \<Rightarrow> reaper_query \<Rightarrow> rule_db \<Rightarrow> replica list \<times> rule_db" where
  "list_and_mark_unlocked_replicas clock q d =
     (let candidates = by_tombstone (rp_row_updated q) (filter (unlocked clock q d) (replicas d));
          rows = fst (take_chunks q d (in_chunks ((5 * rp_limit q + 3) div 4) candidates) ([], 0))
      in (rows, upd_replicas (\<lambda>p. p_key p \<in> p_key ` set rows) (\<lambda>p. p\<lparr>p_state := BEING_DELETED, p_tombstone := Some OBSOLETE\<rparr>) d))"
section \<open>What the operations leave alone\<close>

lemma add_message_replicas: "add_message e m d = Inr d' \<Longrightarrow> replicas d' = replicas d"
  by (auto simp: add_message_def rbind_eq_Inr)

lemma messages_replicas: "rfold (add_message e) ms d = Inr d' \<Longrightarrow> replicas d' = replicas d"
  by (induction ms arbitrary: d) (auto simp: rbind_eq_Inr dest: add_message_replicas)

lemma notifications_replicas: "generate_rule_notifications e i n d = Inr d' \<Longrightarrow> replicas d' = replicas d"
  by (auto simp: generate_rule_notifications_def rbind_eq_Inr dest: messages_replicas)

lemma email_replicas: "generate_email_for_rule_ok_notification e i d = Inr d' \<Longrightarrow> replicas d' = replicas d"
  by (auto simp: generate_email_for_rule_ok_notification_def rbind_eq_Inr dest: add_message_replicas split: if_splits option.splits)

lemma small_replicas [simp]:
  "replicas (upd_rule i f d) = replicas d" "replicas (set_dataset_locks i s d) = replicas d"
  "replicas (insert_rule_history i a b d) = replicas d" "replicas (touch_collections r rse d) = replicas d"
  "replicas (set_lock_state l s d) = replicas d" "replicas (shift_lock l s r d) = replicas d"
  by (simp_all add: upd_rule_def set_dataset_locks_def insert_rule_history_def touch_collections_def set_lock_state_def shift_lock_def Let_def
      split: list.splits)

lemma ok_body_replicas: "ok_body e rse l d = Inr d' \<Longrightarrow> replicas d' = replicas d"
  by (auto simp: ok_body_def ok_rule_state_def rule_becomes_ok_def rbind_eq_Inr Let_def release_replicas
      dest!: notifications_replicas email_replicas split: if_splits)

lemma failed_body_replicas: "failed_body em bi bm l d = Inr d' \<Longrightarrow> replicas d' = replicas d"
  by (auto simp: failed_body_def failed_rule_state_def stuck_dataset_locks_def rbind_eq_Inr Let_def split: if_splits)

lemma rfold_replicas:
  assumes "\<And>x d d'. f x d = Inr d' \<Longrightarrow> replicas d' = replicas d"
  shows "rfold f xs d = Inr d' \<Longrightarrow> replicas d' = replicas d"
  by (induction xs arbitrary: d) (auto simp: rbind_eq_Inr dest: assms)

lemma successful_transfer_replicas: "successful_transfer e k rse d = Inr d' \<Longrightarrow> replicas d' = replicas d"
  unfolding successful_transfer_def by (rule rfold_replicas [of "ok_body e rse", OF ok_body_replicas])

lemma failed_transfer_replicas: "failed_transfer e k rse em bi bm d = Inr d' \<Longrightarrow> replicas d' = replicas d"
  unfolding failed_transfer_def by (rule rfold_replicas [of "failed_body em bi bm", OF failed_body_replicas])

lemma report_transfer_replicas: "report_transfer e s d = Inr d' \<Longrightarrow> replicas d' = replicas d"
  by (cases "sr_state s") (auto simp: report_transfer_def rbind_eq_Inr recover_bad_def dest: successful_transfer_replicas failed_transfer_replicas)

section \<open>Registration and reports keep the ledger and the usage of the RSEs\<close>

lemma consistent_transfer: "rule_step e d d' \<Longrightarrow> consistent d \<Longrightarrow> consistent d'"
  unfolding consistent_def using rule_step_invariant [of e d d'] rule_step_backed [of e d d'] by blast
lemma reported_replica_view [simp]: "rep_view (reported_replica s p) = rep_view p" "size_view (reported_replica s p) = size_view p"
  by (simp_all add: reported_replica_def rep_view_def p_key_def size_view_def)

lemma update_replica_consistent:
  assumes "update_replica e s d = Inr d'" and "consistent d"
  shows "consistent d'" and "map size_view (replicas d') = map size_view (replicas d)"
proof -
  from assms(1) obtain d1 where t: "report_transfer e s d = Inr d1"
    and d': "d' = upd_replicas (\<lambda>p. p_key p = (sr_did s, sr_rse_id s)) (reported_replica s) d1"
    by (auto simp: update_replica_def rbind_eq_Inr split: if_splits)
  have "consistent d1"
  proof (cases "sr_state s")
    case AVAILABLE
    with t obtain x where x: "successful_transfer e (sr_did s) (sr_rse_id s) d = Inr x" and d1: "d1 = recover_bad (sr_did s) (sr_rse_id s) x"
      by (auto simp: report_transfer_def rbind_eq_Inr)
    have "same_ledger x d1" unfolding d1 by (rule same_ledger_tables) (simp_all add: recover_bad_def)
    with consistent_transfer [OF rule_step.success [OF x] assms(2)] show ?thesis by (simp add: consistent_same)
  next
    case UNAVAILABLE
    with t show ?thesis by (auto simp: report_transfer_def intro: consistent_transfer [OF rule_step.failure assms(2)])
  qed (use t assms(2) in \<open>simp_all add: report_transfer_def\<close>)
  moreover have "same_ledger d1 d'" unfolding d' by (rule same_ledger_upd_replicas) simp
  ultimately show "consistent d'" by (simp add: consistent_same)
  show "map size_view (replicas d') = map size_view (replicas d)"
    by (simp add: d' report_transfer_replicas [OF t] map_upd_where)
qed

lemma update_replicas_states_consistent:
  "update_replicas_states e rs d = Inr d' \<Longrightarrow> consistent d \<Longrightarrow> consistent d' \<and> map size_view (replicas d') = map size_view (replicas d)"
  unfolding update_replicas_states_def
proof (induction rs arbitrary: d)
  case (Cons r rs)
  then obtain x where x: "update_replica e r d = Inr x" "rfold (update_replica e) rs x = Inr d'" by (auto simp: rbind_eq_Inr)
  from Cons.IH [OF x(2)] update_replica_consistent [OF x(1) Cons.prems(2)] show ?case by simp
qed simp

lemma touched_replica_view [simp]: "rep_view (touched_replica t p) = rep_view p" "size_view (touched_replica t p) = size_view p"
  "p_tombstone (touched_replica t p) = p_tombstone p"
  by (simp_all add: touched_replica_def rep_view_def p_key_def size_view_def sql_not_in_def)

lemma touch_replica_consistent:
  assumes "touch_replica b1 b2 k rse t d = (r, d')"
  shows "same_ledger d d'" and "map size_view (replicas d') = map size_view (replicas d)"
    and "map p_tombstone (replicas d') = map p_tombstone (replicas d)"
proof -
  let ?d1 = "upd_replicas (\<lambda>p. p_key p = (k, rse)) (touched_replica t) d"
  have one: "same_ledger d ?d1" by (rule same_ledger_upd_replicas) simp
  have "same_ledger ?d1 (?d1\<lparr>dids := x\<rparr>)" for x by (rule same_ledger_tables) simp_all
  with one have two: "same_ledger d (?d1\<lparr>dids := x\<rparr>)" for x by (blast intro: same_ledger_trans)
  from assms one two show "same_ledger d d'" by (auto simp: touch_replica_def Let_def split: if_splits)
  from assms show "map size_view (replicas d') = map size_view (replicas d)" "map p_tombstone (replicas d') = map p_tombstone (replicas d)"
    by (auto simp: touch_replica_def Let_def map_view_upd_where split: if_splits)
qed

lemma set_tombstone_consistent:
  assumes "set_tombstone k rse t d = Inr d'"
  shows "same_ledger d d'" and "map size_view (replicas d') = map size_view (replicas d)"
  using assms by (auto simp: set_tombstone_def size_view_def map_view_upd_where intro!: same_ledger_upd_replicas split: if_splits)

lemma mark_consistent:
  assumes "list_and_mark_unlocked_replicas t q d = (rows, d')"
  shows "same_ledger d d'" and "map size_view (replicas d') = map size_view (replicas d)"
  using assms by (auto simp: list_and_mark_unlocked_replicas_def Let_def size_view_def map_view_upd_where rep_view_def p_key_def intro!: same_ledger_upd_replicas)

text \<open>Registration.\<close>

lemma set_file_meta_accounted: "set_file_meta e k m c = Inr c' \<Longrightarrow> accounted c c'"
  by (auto simp: set_file_meta_def intro: set_metadata_bulk_accounted split: if_splits)

lemma insert_did_accounted: "insert_did e err x (cat_db c) = Inr d \<Longrightarrow> accounted c (c\<lparr>cat_db := d\<rparr>)"
  by (auto simp: insert_did_def intro!: accounted_tables split: if_splits)

lemma bulk_add_file_dids_accounted:
  assumes "bulk_add_file_dids e account dm files c = Inr c'"
  shows "accounted c c'"
proof -
  have "accounted c c'" if "add_file_did e account dm f c = Inr c'" for f c c'
  proof -
    from that obtain b d c1 where "insert_did e (did_conflict e) (new_file_did e account f b) (cat_db c) = Inr d"
      "set_file_meta (plugins e) (fd_did f) (fd_meta f) (c\<lparr>cat_db := d\<rparr>) = Inr c1" "set_file_meta (plugins e) (fd_did f) dm c1 = Inr c'"
      by (auto simp: add_file_did_def rbind_eq_Inr split: option.splits)
    then show ?thesis by (blast intro: accounted_trans insert_did_accounted set_file_meta_accounted)
  qed
  then show ?thesis using assms unfolding bulk_add_file_dids_def bulk_add_new_file_dids_def Let_def by (rule accounted_rfold)
qed

definition unclaimed :: "file_dict \<Rightarrow> bool" where
  "unclaimed f \<longleftrightarrow> fd_lock_cnt f = None \<or> fd_lock_cnt f = Some 0"

lemma rmapM_set: "rmapM f xs = Inr ys \<Longrightarrow> \<forall>y \<in> set ys. \<exists>x \<in> set xs. f x = Inr y"
proof (induction xs arbitrary: ys)
  case (Cons x xs)
  then obtain y zs where "f x = Inr y" "rmapM f xs = Inr zs" "ys = y # zs" by (auto simp: rbind_eq_Inr)
  with Cons.IH show ?case by auto
qed simp

lemma new_replicas_from:
  assumes "new_replicas e rse t files = Inr ps" and "p \<in> set ps"
  obtains f b where "f \<in> set files" and "p = new_file_replica e rse t f b"
proof -
  from rmapM_set [OF assms(1) [unfolded new_replicas_def]] assms(2) obtain f where f: "f \<in> set files"
    "(case fd_bytes f of None \<Rightarrow> Inl KeyError | Some b \<Rightarrow> Inr (new_file_replica e rse t f b)) = Inr p" by blast
  then obtain b where "p = new_file_replica e rse t f b" by (cases "fd_bytes f") auto
  with f(1) show ?thesis by (rule that)
qed

lemma new_file_replica_sel [simp]:
  "p_key (new_file_replica e rse t f b) = (fd_did f, rse)" "p_rse_id (new_file_replica e rse t f b) = rse"
  "p_bytes (new_file_replica e rse t f b) = b"
  by (simp_all add: new_file_replica_def p_key_def)

lemma exact_replicas_added:
  assumes "exact d" and "distinct (map p_key ps)" and "p_key ` set ps \<inter> p_key ` set (replicas d) = {}" and "\<forall>p \<in> set ps. p_lock_cnt p = 0"
  shows "exact (d\<lparr>replicas := replicas d @ ps\<rparr>)"
  using assms
proof (induction ps rule: rev_induct)
  case (snoc p ps)
  have "exact (d\<lparr>replicas := replicas d @ ps\<rparr>)" using snoc.prems by (intro snoc.IH) auto
  then show ?case by (rule exact_replica_added [of _ p]) (use snoc.prems in auto)
qed simp

lemma bulk_add_replicas_exact:
  assumes run: "bulk_add_replicas e rse files d = Inr (n, d')" and d: "consistent d" and un: "\<forall>f \<in> set files. unclaimed f"
  obtains ps where "d' = d\<lparr>replicas := replicas d @ ps\<rparr>" and "\<forall>p \<in> set ps. p_rse_id p = rse"
    and "n = (int (length ps), sum_list (map p_bytes ps))" and "consistent d'"
proof -
  let ?missing = "filter (\<lambda>f. (fd_did f, rse) \<notin> p_key ` set (replicas d)) files"
  from run obtain t ps where ps: "new_replicas e rse t ?missing = Inr ps" "distinct (map p_key ps)"
    and n: "n = (int (length ps), sum_list (map p_bytes ps))" and d': "d' = d\<lparr>replicas := replicas d @ ps\<rparr>"
    by (auto simp: bulk_add_replicas_def rbind_eq_Inr Let_def split: if_splits)
  have props: "p_rse_id p = rse \<and> p_lock_cnt p = 0 \<and> p_key p \<notin> p_key ` set (replicas d)" if "p \<in> set ps" for p
  proof -
    from new_replicas_from [OF ps(1) that] obtain f b where f: "f \<in> set ?missing" "p = new_file_replica e rse t f b" .
    from f(1) un have "unclaimed f" by simp
    then have "p_lock_cnt p = 0" by (auto simp: f(2) new_file_replica_def unclaimed_def)
    with f show ?thesis by simp
  qed
  have new: "p_key ` set ps \<inter> p_key ` set (replicas d) = {}" using props by blast
  have "exact d'" unfolding d'
    by (rule exact_replicas_added [OF _ ps(2) new]) (use d props in \<open>simp_all add: consistent_def exact_def\<close>)
  then have "consistent d'" using d by (simp add: consistent_def exact_def coherent_def d')
  with d' n props show ?thesis by (intro that) auto
qed
lemma resolve_pfns_unclaimed:
  assumes "resolve_pfns e x files = Inr files'" and "\<forall>f \<in> set files. unclaimed f"
  shows "\<forall>f \<in> set files'. unclaimed f"
proof (rule rfold_invariant [OF assms(1) [unfolded resolve_pfns_def], of "\<lambda>fs. \<forall>f \<in> set fs. unclaimed f"])
  fix scheme fs fs'
  assume all: "\<forall>f \<in> set fs. unclaimed f"
    and run: "(if deterministic x then check_pfns e (rse_id x) scheme fs else rmapM (set_path e (rse_id x) scheme) fs) = Inr fs'"
  have one: "unclaimed f'" if "set_path e r scheme f = Inr f'" "unclaimed f" for r f f'
    using that by (auto simp: set_path_def unclaimed_def rbind_eq_Inr split: option.splits if_splits)
  show "\<forall>f \<in> set fs'. unclaimed f"
  proof (cases "deterministic x")
    case True
    then have "check_pfns e (rse_id x) scheme fs = Inr fs'" using run by simp
    then have "fs' = fs" by (auto simp: check_pfns_def Let_def rbind_eq_Inr split: if_splits)
    with all show ?thesis by simp
  next
    case False
    with run have "rmapM (set_path e (rse_id x) scheme) fs = Inr fs'" by simp
    from rmapM_set [OF this] one all show ?thesis by blast
  qed
qed (rule assms(2))

lemma count_where_all: "\<forall>x \<in> set xs. P x \<Longrightarrow> count_where P xs = length xs"
  by (induction xs) simp_all

lemma sum_where_all: "\<forall>x \<in> set xs. P x \<Longrightarrow> sum_where P g xs = sum_list (map g xs)"
  by (induction xs) simp_all

lemma count_where_no: "\<forall>x \<in> set xs. \<not> P x \<Longrightarrow> count_where P xs = 0"
  by simp

lemma usage_exact_added:
  assumes "usage_exact c" and "replicas d = replicas (cat_db c) @ ps" and "\<forall>p \<in> set ps. p_rse_id p = rse"
    and "n = (int (length ps), sum_list (map p_bytes ps))"
  shows "usage_exact (c\<lparr>cat_db := d, cat_rse_counters := increase rse n (cat_rse_counters c)\<rparr>)"
  unfolding usage_exact_def
proof
  fix r
  have "count_where (\<lambda>p. p_rse_id p = r) ps = (if r = rse then length ps else 0)"
    using assms(3) by (auto intro: count_where_all)
  moreover have "sum_where (\<lambda>p. p_rse_id p = r) p_bytes ps = (if r = rse then sum_list (map p_bytes ps) else 0)"
    using assms(3) by (auto intro: sum_where_all sum_where_none)
  ultimately show "rse_counted ru_files (cat_rse_counters (c\<lparr>cat_db := d, cat_rse_counters := increase rse n (cat_rse_counters c)\<rparr>)) r +
      rse_pending uc_files (cat_rse_counters (c\<lparr>cat_db := d, cat_rse_counters := increase rse n (cat_rse_counters c)\<rparr>)) r =
      int (count_where (\<lambda>p. p_rse_id p = r) (replicas (cat_db (c\<lparr>cat_db := d, cat_rse_counters := increase rse n (cat_rse_counters c)\<rparr>)))) \<and>
    rse_counted ru_used (cat_rse_counters (c\<lparr>cat_db := d, cat_rse_counters := increase rse n (cat_rse_counters c)\<rparr>)) r +
      rse_pending uc_bytes (cat_rse_counters (c\<lparr>cat_db := d, cat_rse_counters := increase rse n (cat_rse_counters c)\<rparr>)) r =
      sum_where (\<lambda>p. p_rse_id p = r) p_bytes (replicas (cat_db (c\<lparr>cat_db := d, cat_rse_counters := increase rse n (cat_rse_counters c)\<rparr>)))"
    using assms(1) by (auto simp: usage_exact_def assms(2,4))
qed

lemma add_replicas_exact:
  assumes run: "add_replicas e rse files account ign dm c = Inr c'" and un: "\<forall>f \<in> set files. unclaimed f"
    and c: "consistent (cat_db c)" "usage_exact c"
  shows "consistent (cat_db c') \<and> usage_exact c'"
proof -
  from run obtain x c1 files' n d2 where c1: "bulk_add_file_dids e account dm files c = Inr c1"
    and f: "resolve_pfns e x files = Inr files'" and d2: "bulk_add_replicas e rse files' (cat_db c1) = Inr (n, d2)"
    and c': "c' = c1\<lparr>cat_db := d2, cat_rse_counters := increase rse n (cat_rse_counters c1)\<rparr>"
    by (auto simp: add_replicas_def rbind_eq_Inr split: if_splits)
  note acc = bulk_add_file_dids_accounted [OF c1]
  have u: "usage_exact c1" using acc c(2) by (simp add: accounted_def)
  from bulk_add_replicas_exact [OF d2 accounted_consistent [OF acc c(1)] resolve_pfns_unclaimed [OF f un]] obtain ps where
    ps: "d2 = (cat_db c1)\<lparr>replicas := replicas (cat_db c1) @ ps\<rparr>" "\<forall>p \<in> set ps. p_rse_id p = rse"
      "n = (int (length ps), sum_list (map p_bytes ps))" "consistent d2" .
  have "usage_exact c'" unfolding c' by (rule usage_exact_added [OF u _ ps(2,3)]) (simp add: ps(1))
  with ps(4) show ?thesis by (simp add: c')
qed

section \<open>The reaper takes only what nobody needs\<close>

definition freed_by :: "replica list \<Rightarrow> int" where
  "freed_by ps = sum_list (map (\<lambda>p. if p_state p \<noteq> UNAVAILABLE then p_bytes p else 0) ps)"

lemma take_rows_prefix:
  assumes "take_rows q ps (rows, freed_by rows) = (rows', n)"
  obtains xs zs where "ps = xs @ zs" and "rows' = rows @ xs" and "n = freed_by rows'" and "zs = [] \<or> enough q rows' n"
    and "xs = [] \<or> \<not> enough q (butlast rows') (freed_by (butlast rows'))"
proof -
  have "\<exists>xs zs. ps = xs @ zs \<and> rows' = rows @ xs \<and> n = freed_by rows' \<and> (zs = [] \<or> enough q rows' n) \<and>
      (xs = [] \<or> \<not> enough q (butlast rows') (freed_by (butlast rows')))"
    using assms
  proof (induction ps arbitrary: rows)
    case (Cons p ps)
    show ?case
    proof (cases "enough q rows (freed_by rows)")
      case True
      with Cons.prems have "rows' = rows" "n = freed_by rows" by auto
      with True show ?thesis by (intro exI [of _ "[]"] exI [of _ "p # ps"]) auto
    next
      case False
      have "freed_by (rows @ [p]) = (if p_state p \<noteq> UNAVAILABLE then freed_by rows + p_bytes p else freed_by rows)"
        by (simp add: freed_by_def)
      with Cons.prems False have "take_rows q ps (rows @ [p], freed_by (rows @ [p])) = (rows', n)" by simp
      from Cons.IH [OF this] obtain xs zs where xs: "ps = xs @ zs" "rows' = rows @ p # xs" "n = freed_by rows'" "zs = [] \<or> enough q rows' n"
        "xs = [] \<or> \<not> enough q (butlast rows') (freed_by (butlast rows'))" by auto
      have "\<not> enough q (butlast rows') (freed_by (butlast rows'))"
        by (cases "xs = []") (use xs(2,5) False in \<open>simp_all add: butlast_append\<close>)
      with xs(1-4) show ?thesis by (intro exI [of _ "p # xs"] exI [of _ zs]) simp
    qed
  qed simp
  then show ?thesis using that by blast
qed

lemma set_by_tombstone [simp]: "set (by_tombstone g ps) = set ps" "distinct (by_tombstone g ps) = distinct ps"
  by (simp_all add: by_tombstone_def)

definition stopped_late :: "reaper_query \<Rightarrow> replica list \<Rightarrow> bool" where
  "stopped_late q rows \<longleftrightarrow> rows = [] \<or> \<not> enough q (butlast rows) (freed_by (butlast rows))"

lemma take_chunks_prefix:
  assumes "take_chunks q d pss (rows, freed_by rows) = (rows', n)" and "distinct (rows @ concat pss)" and "stopped_late q rows"
  shows "set rows \<subseteq> set rows'" and "set rows' \<subseteq> set rows \<union> {p \<in> set (concat pss). can_delete d p}" and "distinct rows'"
    and "stopped_late q rows'" and "n = freed_by rows'"
    and "\<not> enough q rows' n \<Longrightarrow> {p \<in> set (concat pss). can_delete d p} \<subseteq> set rows'"
proof -
  have "set rows \<subseteq> set rows' \<and> set rows' \<subseteq> set rows \<union> {p \<in> set (concat pss). can_delete d p} \<and> distinct rows' \<and> stopped_late q rows' \<and>
      n = freed_by rows' \<and> (\<not> enough q rows' n \<longrightarrow> {p \<in> set (concat pss). can_delete d p} \<subseteq> set rows')"
    using assms
  proof (induction pss arbitrary: rows)
    case (Cons ps pss)
    let ?all = "by_tombstone (rp_row_updated q) (filter (can_delete d) ps)"
    let ?found = "take (rp_limit q - length rows) ?all"
    obtain rows1 n1 where one: "take_rows q ?found (rows, freed_by rows) = (rows1, n1)" by fastforce
    from take_rows_prefix [OF one] obtain xs zs where xs: "?found = xs @ zs" "rows1 = rows @ xs" "n1 = freed_by rows1"
      "zs = [] \<or> enough q rows1 n1" "xs = [] \<or> \<not> enough q (butlast rows1) (freed_by (butlast rows1))" .
    have "set xs \<subseteq> set ?found" by (simp add: xs(1))
    also have "\<dots> \<subseteq> set ?all" by (rule set_take_subset)
    finally have sub: "set xs \<subseteq> {p \<in> set ps. can_delete d p}" by simp
    have "distinct ?found" using Cons.prems(2) by (simp add: distinct_take)
    then have "distinct xs" by (simp add: xs(1))
    with sub Cons.prems(2) have dist: "distinct (rows1 @ concat pss)" unfolding xs(2) by auto
    have late: "stopped_late q rows1" using xs(2,5) Cons.prems(3) by (auto simp: stopped_late_def)
    have all: "{p \<in> set ps. can_delete d p} \<subseteq> set rows1" if "\<not> enough q rows1 n1"
    proof -
      from that xs(4) have "zs = []" by simp
      with xs(1) have eq: "?found = xs" by simp
      from that have "length rows + length xs < rp_limit q" by (simp add: enough_def xs(2))
      moreover have "length xs = min (length ?all) (rp_limit q - length rows)" unfolding eq [symmetric] by (rule length_take)
      ultimately have "length ?all \<le> rp_limit q - length rows" by linarith
      then have "xs = ?all" unfolding eq [symmetric] by (rule take_all)
      then have "set xs = set ?all" by (rule arg_cong)
      then show ?thesis by (simp add: xs(2))
    qed
    show ?case
    proof (cases "enough q rows1 n1")
      case True
      with Cons.prems(1) one have "rows' = rows1" "n = n1" by (simp_all add: Let_def)
      then show ?thesis using True sub late dist xs(3) by (auto simp: xs(2))
    next
      case False
      with Cons.prems(1) one have "take_chunks q d pss (rows1, freed_by rows1) = (rows', n)" by (simp add: Let_def xs(3))
      from Cons.IH [OF this dist late] all [OF False] sub show ?thesis by (auto simp: xs(2))
    qed
  qed simp
  then show "set rows \<subseteq> set rows'" "set rows' \<subseteq> set rows \<union> {p \<in> set (concat pss). can_delete d p}" "distinct rows'"
    "stopped_late q rows'" "n = freed_by rows'" "\<not> enough q rows' n \<Longrightarrow> {p \<in> set (concat pss). can_delete d p} \<subseteq> set rows'"
    by simp_all
qed

lemma concat_in_chunks: "0 < n \<Longrightarrow> concat (in_chunks n xs) = xs"
proof (induction n xs rule: in_chunks.induct)
  case (1 n xs)
  then show ?case by (subst in_chunks.simps) simp
qed

lemma in_chunks_0 [simp]: "in_chunks 0 xs = []"
  by (subst in_chunks.simps) simp
lemma consistent_keys: "consistent d \<Longrightarrow> distinct (map p_key (replicas d))"
  by (simp add: consistent_def ledger_ok_def rep_views_def comp_def)

lemma unlocked_no_locks:
  assumes "consistent d" and "p \<in> set (replicas d)" and "p_lock_cnt p = 0"
  shows "replica_locks_at d (fst (p_key p)) (p_rse_id p) = []"
proof -
  have "replica_total (locks d) (p_key p) = 0" using ledger_ok_replica [of d p] assms by (simp add: consistent_def)
  moreover have "(fst (p_key p), p_rse_id p) = p_key p" by (simp add: p_key_def)
  ultimately show ?thesis by (auto simp: replica_locks_at_def replica_total_def filter_empty_conv)
qed

lemma mark_rows:
  assumes keys: "distinct (map p_key (replicas d))" and run: "list_and_mark_unlocked_replicas t q d = (rows, d')"
  shows "set rows \<subseteq> {p \<in> set (replicas d). unlocked t q d p \<and> can_delete d p}" and "distinct rows" and "stopped_late q rows"
    and "\<not> enough q rows (freed_by rows) \<Longrightarrow> {p \<in> set (replicas d). unlocked t q d p \<and> can_delete d p} \<subseteq> set rows"
proof -
  let ?n = "(5 * rp_limit q + 3) div 4"
  let ?cs = "by_tombstone (rp_row_updated q) (filter (unlocked t q d) (replicas d))"
  have "take_chunks q d (in_chunks ?n ?cs) ([], freed_by []) = (rows, snd (take_chunks q d (in_chunks ?n ?cs) ([], 0)))"
    using run by (auto simp: list_and_mark_unlocked_replicas_def Let_def freed_by_def prod_eq_iff)
  note take = take_chunks_prefix [OF this]
  have "distinct (replicas d)" using keys by (simp add: distinct_map)
  moreover have sub: "set (concat (in_chunks ?n ?cs)) \<subseteq> set ?cs" and dist: "distinct ?cs \<Longrightarrow> distinct (concat (in_chunks ?n ?cs))"
    by (cases "?n = 0"; simp add: concat_in_chunks)+
  ultimately have d: "distinct ([] @ concat (in_chunks ?n ?cs))" by simp
  have s: "stopped_late q []" by (simp add: stopped_late_def)
  show "distinct rows" "stopped_late q rows" using take(3,4) [OF d s] by simp_all
  show "set rows \<subseteq> {p \<in> set (replicas d). unlocked t q d p \<and> can_delete d p}" using take(2) [OF d s] sub by auto
  show "{p \<in> set (replicas d). unlocked t q d p \<and> can_delete d p} \<subseteq> set rows" if "\<not> enough q rows (freed_by rows)"
  proof -
    from that have "0 < rp_limit q" by (auto simp: enough_def)
    then have "0 < ?n" by presburger
    then have "concat (in_chunks ?n ?cs) = ?cs" by (rule concat_in_chunks)
    moreover have "{p \<in> set (concat (in_chunks ?n ?cs)). can_delete d p} \<subseteq> set rows"
      using take(6) [OF d s] take(5) [OF d s] that by simp
    ultimately show ?thesis by auto
  qed
qed

text \<open>C6: The reaper takes at most as many replicas as it was asked for, and only ones that no rule locks, that no transfer uses as a
  source, whose tombstone has passed, and that are not the last available copy of a file for which requests are queued. It
  goes on until it has the number or the space it needs or until no such replica is left, and it marks exactly the
  replicas it returns.\<close>

theorem reaper_takes_disposable:
  assumes "consistent d" and "list_and_mark_unlocked_replicas t q d = (rows, d')"
  shows "length rows \<le> rp_limit q \<and> distinct (map p_key rows) \<and>
    set rows \<subseteq> {p \<in> set (replicas d). unlocked t q d p \<and> can_delete d p} \<and>
    (\<forall>p \<in> set rows. replica_locks_at d (fst (p_key p)) (p_rse_id p) = []) \<and>
    (rows = [] \<or> \<not> enough q (butlast rows) (freed_by (butlast rows))) \<and>
    (enough q rows (freed_by rows) \<or> set rows = {p \<in> set (replicas d). unlocked t q d p \<and> can_delete d p}) \<and>
    replicas d' = map (\<lambda>p. if p \<in> set rows then p\<lparr>p_state := BEING_DELETED, p_tombstone := Some OBSOLETE\<rparr> else p) (replicas d)"
proof -
  note keys = consistent_keys [OF assms(1)]
  note rows = mark_rows [OF keys assms(2)]
  have sub: "set rows \<subseteq> set (replicas d)" using rows(1) by blast
  have "inj_on p_key (set (replicas d))" using keys by (simp add: distinct_map)
  then have inj: "inj_on p_key (set rows)" using sub by (rule inj_on_subset)
  have "length rows \<le> rp_limit q" using rows(3) by (cases rows rule: rev_cases) (auto simp: stopped_late_def enough_def)
  moreover have "distinct (map p_key rows)" using rows(2) inj by (simp add: distinct_map)
  moreover have "p_lock_cnt p = 0" if "p \<in> set rows" for p using that rows(1) by (auto simp: unlocked_def)
  then have "\<forall>p \<in> set rows. replica_locks_at d (fst (p_key p)) (p_rse_id p) = []" using unlocked_no_locks [OF assms(1)] sub by blast
  moreover have "p_key p \<in> p_key ` set rows \<longleftrightarrow> p \<in> set rows" if "p \<in> set (replicas d)" for p
    using inj_on_image_mem_iff [OF \<open>inj_on p_key (set (replicas d))\<close> that sub] .
  then have "replicas d' = map (\<lambda>p. if p \<in> set rows then p\<lparr>p_state := BEING_DELETED, p_tombstone := Some OBSOLETE\<rparr> else p) (replicas d)"
    using assms(2) by (auto simp: list_and_mark_unlocked_replicas_def Let_def upd_where_def)
  ultimately show ?thesis using rows(1,3,4) by (auto simp: stopped_late_def)
qed
text \<open>C25: A report that a replica is being deleted is carried out whatever the replica is used for: locks and transfers that read it do not stop
  it. The replica is marked as obsolete and its locks stay.\<close>

theorem being_deleted_unchecked:
  assumes "(k, rse) \<in> p_key ` set (replicas d)"
  shows "\<exists>d'. update_replica_state e k rse BEING_DELETED d = Inr d' \<and> locks d' = locks d \<and>
    (\<forall>p \<in> set (replicas d'). p_key p = (k, rse) \<longrightarrow> p_state p = BEING_DELETED \<and> p_tombstone p = Some OBSOLETE)"
proof -
  let ?s = "\<lparr>sr_did = k, sr_rse_id = rse, sr_state = BEING_DELETED, sr_path = None, sr_error_message = None, sr_broken_rule_id = None, sr_broken_message = None\<rparr>"
  let ?d' = "upd_replicas (\<lambda>p. p_key p = (k, rse)) (reported_replica ?s) d"
  have "update_replica_state e k rse BEING_DELETED d = Inr ?d'"
    using assms by (simp add: update_replica_state_def update_replicas_states_def update_replica_def report_transfer_def)
  moreover have "p_key (reported_replica ?s p) = p_key p" for p by (simp add: reported_replica_def p_key_def)
  then have "\<forall>p \<in> set (replicas ?d'). p_key p = (k, rse) \<longrightarrow> p_state p = BEING_DELETED \<and> p_tombstone p = Some OBSOLETE"
    by (auto simp: upd_where_def reported_replica_def)
  ultimately show ?thesis by (intro exI [of _ ?d']) simp
qed

theorem being_deleted_unchecked_witness:
  "\<exists>d'. update_replica_state demo_rule_env (atlas, ''f'') ''A'' BEING_DELETED two_files = Inr d' \<and> locks d' = locks two_files \<and>
    map l_name (locks two_files) = [''f'', ''g''] \<and>
    map (\<lambda>p. (p_name p, p_lock_cnt p, p_state p)) (take 1 (replicas d')) = [(''f'', 1, BEING_DELETED)]"
proof -
  have "((atlas, ''f''), ''A'') \<in> p_key ` set (replicas two_files)" by code_simp
  moreover have "map l_name (locks two_files) = [''f'', ''g'']" by code_simp
  moreover have "case update_replica_state demo_rule_env (atlas, ''f'') ''A'' BEING_DELETED two_files of
      Inl _ \<Rightarrow> False | Inr d' \<Rightarrow> map (\<lambda>p. (p_name p, p_lock_cnt p, p_state p)) (take 1 (replicas d')) = [(''f'', 1, BEING_DELETED)]" by code_simp
  ultimately show ?thesis using being_deleted_unchecked [of "(atlas, ''f'')" "''A''" two_files demo_rule_env] by auto
qed

text \<open>Two copies of a file on \<open>A\<close> and \<open>B\<close>, and a file of which \<open>A\<close> has the only copy, while a request for it is queued.\<close>

definition reaper_demo :: rule_db where
  "reaper_demo = (demo_rule_db [] []
     [(demo_replica ''f'' 0)\<lparr>p_state := AVAILABLE, p_tombstone := Some 3\<rparr>,
      (demo_replica ''f'' 0)\<lparr>p_state := AVAILABLE, p_rse_id := ''B''\<rparr>,
      (demo_replica ''g'' 0)\<lparr>p_state := AVAILABLE, p_tombstone := Some 2\<rparr>])
     \<lparr>dids := dids two_files @ map (\<lambda>x. x\<lparr>d_name := ''g''\<rparr>) (drop 1 (dids two_files)), requests := [(demo_request ''q'' None QUEUED)\<lparr>rq_name := ''g''\<rparr>]\<rparr>"

definition reaper_demo_query :: reaper_query where
  "reaper_demo_query = \<lparr>rp_limit = 2, rp_needed_space = None, rp_rse = ''A'', rp_delay_seconds = 600, rp_only_obsolete = False,
     rp_row_updated = p_created_at, rp_row_locked = (\<lambda>_. False)\<rparr>"

theorem reaper_takes_disposable_witness:
  "map (\<lambda>p. (p_name p, replica_locks_at reaper_demo (fst (p_key p)) (p_rse_id p)))
     (fst (list_and_mark_unlocked_replicas 10 reaper_demo_query reaper_demo)) = [(''f'', [])]"
proof -
  have "consistent reaper_demo"
    by (simp add: consistent_def ledger_ok_def backed_def coherent_def reaper_demo_def demo_rule_db_def demo_replica_def cnt_views_def rep_views_def
        rep_view_def p_key_def replica_total_def atlas_def)
  moreover have "map p_name (fst (list_and_mark_unlocked_replicas 10 reaper_demo_query reaper_demo)) = [''f'']" by code_simp
  moreover obtain rows d' where "list_and_mark_unlocked_replicas 10 reaper_demo_query reaper_demo = (rows, d')" by fastforce
  ultimately show ?thesis using reaper_takes_disposable [of reaper_demo 10 reaper_demo_query rows d'] by auto
qed
end
