(* ===== verification/DID_Attachment.thy ===== *)
theory DID_Attachment
  imports Replicas
begin

text \<open>
  Putting data identifiers together (\<^verbatim>\<open>core/did.py\<close>): attaching files to datasets, collections to containers and
  files to archives, opening and closing collections, with the flags and messages that go with it.

  The invariant at the end is the type discipline of the catalogue: what the table \<^verbatim>\<open>contents\<close> says about the types of a
  parent and a child is what the table \<^verbatim>\<open>dids\<close> says, a dataset contains only files, a container only collections,
  and no collection contains itself, at whatever depth. The listing of containers relies on it.
\<close>

section \<open>Archive names\<close>

text \<open>\<^verbatim>\<open>is_archive\<close>: \<^verbatim>\<open>^.*\.(zip|zipx|tar.gz|tgz|tar.Z|tar.bz2|tbz2)(\.\d+)*$\<close> without regard to case. \<open>None\<close> is the
  dot of the pattern, which matches any character but a newline. The text is read from its end.\<close>

definition newline :: char where
  "newline = CHR 0x0A"

definition literal :: "string \<Rightarrow> char option list" where
  "literal s = map (\<lambda>c. if c = CHR ''.'' then None else Some (lower_char c)) s"

definition archive_extensions :: "char option list list" where
  "archive_extensions = map literal [''zip'', ''zipx'', ''tar.gz'', ''tgz'', ''tar.Z'', ''tar.bz2'', ''tbz2'']"

fun char_matches :: "char option \<Rightarrow> char \<Rightarrow> bool" where
  "char_matches None c \<longleftrightarrow> c \<noteq> newline"
| "char_matches (Some d) c \<longleftrightarrow> lower_char c = d"

text \<open>The reversed text starts with the reversed extension and a dot, and the rest has no newline.\<close>

definition has_extension :: "string \<Rightarrow> char option list \<Rightarrow> bool" where
  "has_extension r x \<longleftrightarrow> length x < length r \<and> list_all2 char_matches (rev x) (take (length x) r) \<and>
     r ! length x = CHR ''.'' \<and> newline \<notin> set (drop (length x) r)"

text \<open>The numbers \<^verbatim>\<open>(\.\d+)*\<close> after the extension, at most as many as the text has characters.\<close>

fun archive_tail :: "nat \<Rightarrow> string \<Rightarrow> bool" where
  "archive_tail 0 r = False"
| "archive_tail (Suc n) r \<longleftrightarrow> (\<exists>x \<in> set archive_extensions. has_extension r x) \<or>
     takeWhile is_digit r \<noteq> [] \<and>
     (case dropWhile is_digit r of [] \<Rightarrow> False | c # r' \<Rightarrow> c = CHR ''.'' \<and> archive_tail n r')"

definition is_archive :: "string \<Rightarrow> bool" where
  "is_archive s = (case rev s of [] \<Rightarrow> False | c # r \<Rightarrow> archive_tail (Suc (length s)) (if c = newline then r else rev s))"

section \<open>Arguments\<close>

text \<open>A child of an attachment is the dictionary of a file or a collection. A key that is there with the value \<^verbatim>\<open>None\<close> is listed
  in \<open>ch_nulls\<close>. \<open>name_meta\<close> is what \<^verbatim>\<open>validate_name\<close> of the policy package reads from the name of a dataset.\<close>

record child = file_dict +
  ch_guid :: "string option"
  ch_events :: "int option"
  ch_nulls :: "string list"

record attachment =
  at_did :: did
  at_children :: "child list"
  at_rse_id :: "string option"

record did_env = replica_env +
  name_meta :: "did \<Rightarrow> meta"
  reevaluate_dids_at_close :: bool

abbreviation rep_env :: "did_env \<Rightarrow> replica_env" where
  "rep_env e \<equiv> replica_env.truncate e"

definition find_did :: "'z did_db_scheme \<Rightarrow> did \<Rightarrow> did_row option" where
  "find_did d k = find (\<lambda>x. did_of x = k) (dids d)"

section \<open>Files in an archive\<close>

text \<open>The metadata sent with a new file are columns of its row and come before the keys of the same name, even before its name; only the
  flag, the type and the account are set after them. Keys that are no column do not count.\<close>

definition archive_file :: "did_env \<Rightarrow> iaccount \<Rightarrow> child \<Rightarrow> rucio_error + did_row" where
  "archive_file e account f =
     set_columns (filter (\<lambda>(key, _). key \<in> set did_columns \<and> key \<notin> set [''constituent'', ''did_type'', ''account'']) (fd_meta f))
       \<lparr>d_scope = fst (fd_did f), d_name = snd (fd_did f), d_type = FILE, d_open = None, d_length = None,
        d_bytes = fd_bytes f, d_events = ch_events f, d_lost = False, d_md5 = fd_md5 f, d_adler32 = fd_adler32 f, d_created_at = now e,
        d_account = account, d_monotonic = False, d_expired_at = None, d_is_new = Some True, d_guid = ch_guid f, d_is_archive = None,
        d_constituent = Some True, d_purge_replicas = True, d_closed_at = None, d_accessed_at = None, d_access_cnt = None\<rparr>"

definition archive_content :: "did \<Rightarrow> child \<Rightarrow> did_row option \<Rightarrow> archive_row" where
  "archive_content p f known = (case known of
     None \<Rightarrow> \<lparr>ac_parent = p, ac_child = fd_did f, ac_bytes = fd_bytes f, ac_adler32 = fd_adler32 f, ac_md5 = fd_md5 f,
       ac_guid = ch_guid f, ac_length = ch_events f\<rparr>
   | Some x \<Rightarrow> \<lparr>ac_parent = p, ac_child = fd_did f, ac_bytes = d_bytes x, ac_adler32 = d_adler32 x, ac_md5 = d_md5 x,
       ac_guid = d_guid x, ac_length = d_events x\<rparr>)"

definition in_archive :: "'z did_db_scheme \<Rightarrow> did \<Rightarrow> did \<Rightarrow> bool" where
  "in_archive d p k \<longleftrightarrow> (\<exists>a \<in> set (archive_contents d). ac_parent a = p \<and> ac_child a = k)"

definition archive_child ::
  "did \<Rightarrow> bool \<Rightarrow> rule_db \<Rightarrow> child \<Rightarrow> child list \<times> bool \<times> archive_row list \<Rightarrow> rucio_error + child list \<times> bool \<times> archive_row list" where
  "archive_child p ignore_duplicate d f acc =
     (let (new, must_set, rows) = acc; known = find_did d (fd_did f); row = archive_content p f known
      in if ignore_duplicate \<and> in_archive d p (fd_did f) then Inr acc
         else if fd_did f \<in> ac_child ` set rows then Inr acc
         else case known of
           None \<Rightarrow> if fd_bytes f = None \<and> ''bytes'' \<notin> set (ch_nulls f) then Inl KeyError
                   else Inr (new @ [f], must_set, rows @ [row])
         | Some x \<Rightarrow> if d_type x \<noteq> FILE then Inl UnsupportedOperation
                     else Inr (new, must_set \<or> d_constituent x \<noteq> Some True, rows @ [row]))"

text \<open>The archive and the datasets it is in are marked when the first file is added.\<close>

definition mark_archive :: "did_row \<Rightarrow> rule_db \<Rightarrow> rule_db" where
  "mark_archive p d =
     (if d_is_archive p = Some True then d
      else let d1 = upd_dids (\<lambda>x. did_of x = did_of p) (\<lambda>x. x\<lparr>d_is_archive := Some True\<rparr>) d;
               above = map c_parent (filter (\<lambda>c. c_child c = did_of p) (contents d))
           in upd_dids (\<lambda>x. did_of x \<in> set above \<and> d_is_archive x \<noteq> Some True) (\<lambda>x. x\<lparr>d_is_archive := Some True\<rparr>) d1)"

definition add_files_to_archive :: "did_env \<Rightarrow> did_row \<Rightarrow> child list \<Rightarrow> iaccount \<Rightarrow> bool \<Rightarrow> rule_db \<Rightarrow> rucio_error + rule_db" where
  "add_files_to_archive e p files account ignore_duplicate d =
     rbind (rfold (archive_child (did_of p) ignore_duplicate d) files ([], False, [])) (\<lambda>(new, must_set, rows).
       rbind (rmapM (archive_file e account) new) (\<lambda>xs.
         let d1 = d\<lparr>dids := dids d @ xs, archive_contents := archive_contents d @ rows\<rparr>
         in if \<exists>x \<in> set xs. \<not> known_scope e (d_scope x) \<or> \<not> known_account e account then Inl RucioException
            else if \<not> distinct (map did_of xs) \<or> (\<exists>x \<in> set xs. has_did d (did_of x)) then Inl RucioException
            else if \<exists>a \<in> set rows. in_archive d (did_of p) (ac_child a) \<or> \<not> has_did d1 (ac_child a) then Inl RucioException
            else let d2 = (if must_set
                           then upd_dids (\<lambda>x. did_of x \<in> fd_did ` set files \<and> d_constituent x \<noteq> Some True) (\<lambda>x. x\<lparr>d_constituent := Some True\<rparr>) d1
                           else d1)
                 in Inr (mark_archive p d2)))"

section \<open>Files in a dataset\<close>

definition value_agrees :: "string \<Rightarrow> child \<Rightarrow> 'a option \<Rightarrow> 'a option \<Rightarrow> bool" where
  "value_agrees key f sent column \<longleftrightarrow>
     (case sent of Some v \<Rightarrow> column = Some v | None \<Rightarrow> key \<in> set (ch_nulls f) \<longrightarrow> column = None)"

definition file_agrees :: "child \<Rightarrow> did_row \<Rightarrow> bool" where
  "file_agrees f x \<longleftrightarrow> value_agrees ''bytes'' f (fd_bytes f) (d_bytes x) \<and> value_agrees ''adler32'' f (fd_adler32 f) (d_adler32 x) \<and>
     value_agrees ''md5'' f (fd_md5 f) (d_md5 x)"

definition attached :: "'z did_db_scheme \<Rightarrow> did \<Rightarrow> did \<Rightarrow> bool" where
  "attached d p k \<longleftrightarrow> (p, k) \<in> c_key ` set (contents d)"

definition file_content :: "did \<Rightarrow> did_row \<Rightarrow> content_row" where
  "file_content p x = \<lparr>c_scope = fst p, c_name = snd p, c_child_scope = d_scope x, c_child_name = d_name x, c_did_type = DATASET,
     c_child_type = FILE, c_bytes = d_bytes x, c_events = d_events x, c_adler32 = d_adler32 x, c_md5 = d_md5 x, c_guid = d_guid x,
     c_rule_evaluation = Some True\<rparr>"

definition dataset_child ::
  "did \<Rightarrow> bool \<Rightarrow> rule_db \<Rightarrow> child \<Rightarrow> content_row list \<times> bool \<Rightarrow> rucio_error + content_row list \<times> bool" where
  "dataset_child p ignore_duplicate d f acc =
     (let (rows, archive) = acc
      in case find_did d (fd_did f) of
           None \<Rightarrow> Inl DataIdentifierNotFound
         | Some x \<Rightarrow>
             if d_lost x then Inl UnsupportedOperation
             else if d_type x \<noteq> FILE then Inl UnsupportedOperation
             else if \<not> file_agrees f x then Inl FileConsistencyMismatch
             else if ignore_duplicate \<and> attached d p (did_of x) then Inr acc
             else if did_of x \<in> c_child ` set rows then Inr acc
             else Inr (rows @ [file_content p x], archive \<or> d_is_archive x = Some True))"

definition add_files_to_dataset ::
  "did_env \<Rightarrow> did \<Rightarrow> child list \<Rightarrow> iaccount \<Rightarrow> string option \<Rightarrow> bool \<Rightarrow> catalogue \<Rightarrow> rucio_error + content_row list \<times> catalogue" where
  "add_files_to_dataset e p files account rse ignore_duplicate c =
     rbind (case rse of
         None \<Rightarrow> Inr c
       | Some r \<Rightarrow> if r = [] then Inr c else add_replicas (rep_env e) r (map file_dict.truncate files) account True (name_meta e p) c) (\<lambda>c1.
       let d = cat_db c1
       in rbind (rfold (dataset_child p ignore_duplicate d) files ([], False)) (\<lambda>(rows, archive).
         if \<exists>r \<in> set rows. attached d p (c_child r) then Inl FileAlreadyExists
         else let d1 = (if archive then upd_dids (\<lambda>x. did_of x = p) (\<lambda>x. x\<lparr>d_is_archive := Some True\<rparr>) d else d)
              in Inr (rows, c1\<lparr>cat_db := d1\<lparr>contents := contents d1 @ rows\<rparr>\<rparr>)))"

section \<open>Collections in a container\<close>

text \<open>\<^verbatim>\<open>list_all_parent_dids\<close> calls itself on every parent. On contents with a cycle it never returns, and Python raises
  \<^verbatim>\<open>RecursionError\<close>; without a cycle no chain of parents is longer than the table.\<close>

fun all_parents :: "nat \<Rightarrow> content_row list \<Rightarrow> did \<Rightarrow> rucio_error + (did \<times> did_type) list" where
  "all_parents 0 cs k = Inl RecursionError"
| "all_parents (Suc n) cs k =
     rbind (rmapM (\<lambda>c. rbind (all_parents n cs (c_parent c)) (\<lambda>ps. Inr ((c_parent c, c_did_type c) # ps))) (filter (\<lambda>c. c_child c = k) cs))
       (\<lambda>pss. Inr (concat pss))"

definition list_all_parent_dids :: "'z did_db_scheme \<Rightarrow> did \<Rightarrow> rucio_error + (did \<times> did_type) list" where
  "list_all_parent_dids d k = all_parents (Suc (length (contents d))) (contents d) k"

definition container_child :: "did \<Rightarrow> rule_db \<Rightarrow> child \<Rightarrow> did_type option \<Rightarrow> rucio_error + did_type option" where
  "container_child p d f child_type = (case find_did d (fd_did f) of
     None \<Rightarrow> Inl DataIdentifierNotFound
   | Some x \<Rightarrow>
       if d_type x = FILE then Inl UnsupportedOperation
       else let t = (case child_type of None \<Rightarrow> d_type x | Some t \<Rightarrow> t)
            in if t \<noteq> d_type x then Inl UnsupportedOperation
               else if t = CONTAINER then
                 rbind (list_all_parent_dids d p) (\<lambda>ps. if did_of x \<in> fst ` set ps then Inl UnsupportedOperation else Inr (Some t))
               else Inr (Some t))"

definition collection_content :: "did \<Rightarrow> did_type \<Rightarrow> did \<Rightarrow> content_row" where
  "collection_content p t k = \<lparr>c_scope = fst p, c_name = snd p, c_child_scope = fst k, c_child_name = snd k, c_did_type = CONTAINER,
     c_child_type = t, c_bytes = None, c_events = None, c_adler32 = None, c_md5 = None, c_guid = None, c_rule_evaluation = Some True\<rparr>"

definition register_message :: "iaccount \<Rightarrow> content_row \<Rightarrow> message" where
  "register_message account c = REGISTER_CNT (fst account) (vo_entry account) (fst (c_scope c)) (c_name c) (fst (c_child_scope c)) (c_child_name c) (c_child_type c)"

definition add_collections_to_container ::
  "did_env \<Rightarrow> did \<Rightarrow> child list \<Rightarrow> iaccount \<Rightarrow> bool \<Rightarrow> rule_db \<Rightarrow> rucio_error + rule_db" where
  "add_collections_to_container e p collections account ignore_duplicate d =
     (if p \<in> fd_did ` set collections then Inl UnsupportedOperation
      else rbind (rfold (container_child p d) collections None) (\<lambda>t. case t of
        None \<Rightarrow> Inr d
      | Some t \<Rightarrow>
          let rows = [collection_content p t (fd_did f). f \<leftarrow> collections, \<not> (ignore_duplicate \<and> attached d p (fd_did f))]
          in if \<exists>r \<in> set rows. attached d p (c_child r) then Inl DuplicateContent
             else rfold (add_message (rules_env (rep_env e))) (map (register_message account) rows) (d\<lparr>contents := contents d @ rows\<rparr>)))"

section \<open>Attachments\<close>

text \<open>The loop over the attachments. After the files of an archive the function returns: further attachments are not looked
  at, and the parents seen before are not recorded for the evaluation of their rules. Executing an \<^verbatim>\<open>INSERT\<close> with no
  rows inserts a row of nulls, which the temporary table refuses.\<close>

definition record_parents :: "did list \<Rightarrow> rule_db \<Rightarrow> rule_db" where
  "record_parents ps d = d\<lparr>updated_dids := updated_dids d @ map (\<lambda>k. (k, ReEvalATTACH)) (in_order ps)\<rparr>"

fun attach_loop :: "did_env \<Rightarrow> iaccount \<Rightarrow> bool \<Rightarrow> attachment list \<Rightarrow> did list \<Rightarrow> catalogue \<Rightarrow> rucio_error + catalogue" where
  "attach_loop e account ignore_duplicate [] parents c = Inr (c\<lparr>cat_db := record_parents parents (cat_db c)\<rparr>)"
| "attach_loop e account ignore_duplicate (a # as) parents c =
     rbind (get_did_row (cat_db c) (at_did a)) (\<lambda>p.
       let children = py_dict fd_did (at_children a)
       in if children = [] then Inl DatabaseException
          else if d_type p = FILE then
            (if is_archive (snd (at_did a))
             then rbind (add_files_to_archive e p children account ignore_duplicate (cat_db c)) (\<lambda>d. Inr (c\<lparr>cat_db := d\<rparr>))
             else Inl UnsupportedOperation)
          else if d_open p \<noteq> Some True then Inl UnsupportedOperation
          else if d_type p = DATASET then
            rbind (add_files_to_dataset e (at_did a) children account (at_rse_id a) ignore_duplicate c) (\<lambda>(rows, c1).
              attach_loop e account ignore_duplicate as (if rows = [] then parents else parents @ [at_did a]) c1)
          else if d_type p = CONTAINER then
            rbind (add_collections_to_container e (at_did a) children account ignore_duplicate (cat_db c)) (\<lambda>d.
              attach_loop e account ignore_duplicate as (parents @ [at_did a]) (c\<lparr>cat_db := d\<rparr>))
          else attach_loop e account ignore_duplicate as parents c)"

definition attach_dids_to_dids :: "did_env \<Rightarrow> attachment list \<Rightarrow> iaccount \<Rightarrow> bool \<Rightarrow> catalogue \<Rightarrow> rucio_error + catalogue" where
  "attach_dids_to_dids e attachments account ignore_duplicate c = attach_loop e account ignore_duplicate attachments [] c"

definition attach_dids :: "did_env \<Rightarrow> did \<Rightarrow> child list \<Rightarrow> iaccount \<Rightarrow> bool \<Rightarrow> string option \<Rightarrow> catalogue \<Rightarrow> rucio_error + catalogue" where
  "attach_dids e k cs account ignore_duplicate rse c =
     attach_dids_to_dids e [\<lparr>at_did = k, at_children = cs, at_rse_id = rse\<rparr>] account ignore_duplicate c"

section \<open>Opening and closing\<close>

text \<open>\<^verbatim>\<open>set_new_dids\<close>; PostgreSQL has \<open>Some False\<close> where the other databases have the flag \<open>None\<close>.\<close>

definition set_new_dids :: "did list \<Rightarrow> bool option \<Rightarrow> rule_db \<Rightarrow> rucio_error + rule_db" where
  "set_new_dids ks flag d =
     rfold (\<lambda>k d. if has_did d k then Inr (upd_dids (\<lambda>x. did_of x = k) (\<lambda>x. x\<lparr>d_is_new := flag\<rparr>) d) else Inl DataIdentifierNotFound) ks d"

text \<open>\<^verbatim>\<open>set_status\<close>. Its keyword arguments are a list of statuses with their values; \<open>change\<close> is the update that the loop over them
  builds, with the state in which the collection has to be.\<close>

definition close_values :: "did_env \<Rightarrow> int \<times> int \<times> int \<Rightarrow> did_row \<Rightarrow> did_row" where
  "close_values e v x = (case v of (b, n, ev) \<Rightarrow>
     x\<lparr>d_open := Some False, d_closed_at := Some (now e), d_bytes := Some b, d_length := Some n, d_events := Some ev\<rparr>)"

definition close_did :: "did_env \<Rightarrow> did \<Rightarrow> rule_db \<Rightarrow> rucio_error + (int \<times> int \<times> int) \<times> rule_db" where
  "close_did e k d =
     rbind (get_did_row d k) (\<lambda>x.
       let (b, n, ev) = resolve_bytes_length_events d x FILE;
           d1 = d\<lparr>dataset_locks := upd_where (\<lambda>l. (dl_scope l, dl_name l) = k) (\<lambda>l. l\<lparr>dl_length := Some n, dl_bytes := Some b\<rparr>) (dataset_locks d)\<rparr>
       in rbind (add_message (rules_env (rep_env e)) (CLOSE_DID (fst (fst k)) (vo_entry (fst k)) (snd k) b n ev) d1) (\<lambda>d2.
            rbind (if reevaluate_dids_at_close e then set_new_dids [k] (Some True) d2 else Inr d2) (\<lambda>d3. Inr ((b, n, ev), d3))))"

definition status_step ::
  "did_env \<Rightarrow> did \<Rightarrow> string \<times> bool \<Rightarrow> (bool \<times> (did_row \<Rightarrow> did_row)) option \<times> rule_db \<Rightarrow> rucio_error + (bool \<times> (did_row \<Rightarrow> did_row)) option \<times> rule_db" where
  "status_step e k s acc =
     (if fst s \<noteq> ''open'' then Inl UnsupportedStatus
      else if \<not> snd s then rbind (close_did e k (snd acc)) (\<lambda>(v, d). Inr (Some (True, close_values e v), d))
      else rbind (add_message (rules_env (rep_env e)) (OPEN_DID (fst (fst k)) (vo_entry (fst k)) (snd k)) (snd acc)) (\<lambda>d.
        Inr (Some (False, \<lambda>x. x\<lparr>d_open := Some True\<rparr>), d)))"

definition set_status :: "did_env \<Rightarrow> did \<Rightarrow> (string \<times> bool) list \<Rightarrow> rule_db \<Rightarrow> rucio_error + rule_db" where
  "set_status e k statuses d =
     rbind (rfold (status_step e k) statuses (None, d)) (\<lambda>(change, d1).
       let hit = (\<lambda>x. did_of x = k \<and> d_type x \<in> {CONTAINER, DATASET} \<and> (case change of None \<Rightarrow> True | Some (was_open, _) \<Rightarrow> d_open x = Some was_open))
       in if \<not> (\<exists>x \<in> set (dids d1). hit x) then Inl (if has_did d1 k then UnsupportedOperation else DataIdentifierNotFound)
          else case change of
            None \<Rightarrow> Inl KeyError
          | Some (was_open, f) \<Rightarrow>
              let d2 = upd_dids hit f d1
              in if was_open then
                   rfold (\<lambda>r. generate_rule_notifications (rules_env (rep_env e)) (r_id r) None) (filter (\<lambda>r. r_did r = k) (rules d2)) d2
                 else Inr d2)"
section \<open>The types of the catalogue\<close>

text \<open>Views of the tables: the type of every DID, the typed edges of the contents, and the pairs of an archive and a file.\<close>

type_synonym edge = "(did \<times> did) \<times> did_type \<times> did_type"

definition did_view :: "did_row \<Rightarrow> did \<times> did_type" where
  "did_view x = (did_of x, d_type x)"

definition row_view :: "content_row \<Rightarrow> edge" where
  "row_view c = (c_key c, c_did_type c, c_child_type c)"

definition arc_view :: "archive_row \<Rightarrow> did \<times> did" where
  "arc_view a = (ac_parent a, ac_child a)"

definition up :: "edge list \<Rightarrow> (did \<times> did) set" where
  "up es = {(k, p). \<exists>t. ((p, k), t) \<in> set es}"

definition edge_typed :: "(did \<times> did_type) set \<Rightarrow> edge \<Rightarrow> bool" where
  "edge_typed T v = (case v of ((p, k), pt, kt) \<Rightarrow> (p, pt) \<in> T \<and> (k, kt) \<in> T \<and>
     (pt = DATASET \<and> kt = FILE \<or> pt = CONTAINER \<and> (kt = DATASET \<or> kt = CONTAINER)))"

definition typing :: "(did \<times> did_type) list \<Rightarrow> edge list \<Rightarrow> (did \<times> did) list \<Rightarrow> bool" where
  "typing T E A \<longleftrightarrow> distinct (map fst T) \<and> (\<forall>v \<in> set T. snd v \<in> {FILE, DATASET, CONTAINER}) \<and> distinct (map fst E) \<and> distinct A \<and> (\<forall>v \<in> set E. edge_typed (set T) v) \<and>
     (\<forall>(p, k) \<in> set A. (p, FILE) \<in> set T \<and> (k, FILE) \<in> set T) \<and> acyclic (up E)"

definition well_typed :: "'z did_db_scheme \<Rightarrow> bool" where
  "well_typed d = typing (map did_view (dids d)) (map row_view (contents d)) (map arc_view (archive_contents d))"

definition same_types :: "'z did_db_scheme \<Rightarrow> 'z did_db_scheme \<Rightarrow> bool" where
  "same_types d d' \<longleftrightarrow> map did_view (dids d') = map did_view (dids d) \<and> map row_view (contents d') = map row_view (contents d) \<and>
     map arc_view (archive_contents d') = map arc_view (archive_contents d)"

lemma same_types_refl [simp, intro]: "same_types d d"
  by (simp add: same_types_def)

lemma same_types_trans [trans]: "same_types a b \<Longrightarrow> same_types b c \<Longrightarrow> same_types a c"
  by (simp add: same_types_def)

lemma same_types_tables:
  "dids d' = dids d \<Longrightarrow> contents d' = contents d \<Longrightarrow> archive_contents d' = archive_contents d \<Longrightarrow> same_types d d'"
  by (simp add: same_types_def)

lemma well_typed_same: "same_types d d' \<Longrightarrow> well_typed d' = well_typed d"
  by (simp add: well_typed_def same_types_def)

lemma up_append: "up (E @ R) = up E \<union> up R"
  by (auto simp: up_def)

lemma up_contents: "up (map row_view cs) = {(c_child c, c_parent c) |c. c \<in> set cs}"
  by (force simp: up_def row_view_def c_key_def)

lemma type_unique: "distinct (map fst T) \<Longrightarrow> (k, t) \<in> set T \<Longrightarrow> (k, t') \<in> set T \<Longrightarrow> t = t'"
  by (metis eq_key_imp_eq_value)

lemma typing_add_did:
  assumes "typing T E A" and "k \<notin> fst ` set T" and "t \<in> {FILE, DATASET, CONTAINER}"
  shows "typing (T @ [(k, t)]) E A"
  using assms unfolding typing_def by (auto simp: edge_typed_def)

lemma typing_add_archive:
  assumes "typing T E A" and "distinct B" and "set B \<inter> set A = {}" and "\<forall>(p, k) \<in> set B. (p, FILE) \<in> set T \<and> (k, FILE) \<in> set T"
  shows "typing T E (A @ B)"
  using assms unfolding typing_def by auto

text \<open>A parent above a collection is a container.\<close>

lemma above_container:
  assumes ty: "typing T E A" and "(p, k) \<in> (up E)\<^sup>+" and p: "(p, t) \<in> set T" "t \<noteq> FILE"
  shows "(k, CONTAINER) \<in> set T"
proof -
  have edge: "(k, CONTAINER) \<in> set T" if "(q, k) \<in> up E" "(q, t) \<in> set T" "t \<noteq> FILE" for q k t
  proof -
    from that(1) obtain pt kt where v: "((k, q), pt, kt) \<in> set E" by (auto simp: up_def)
    with ty have "edge_typed (set T) ((k, q), pt, kt)" by (auto simp: typing_def)
    moreover have "kt = t" using calculation that(2) ty type_unique by (auto simp: edge_typed_def typing_def)
    ultimately show ?thesis using that(3) by (auto simp: edge_typed_def)
  qed
  show ?thesis using assms(2)
  proof (induction rule: trancl_induct)
    case (base k)
    then show ?case using p by (rule edge)
  next
    case (step q k)
    from step.hyps(2) step.IH show ?case by (rule edge) simp
  qed
qed

lemma acyclic_fan:
  assumes "finite K" and "acyclic r" and "\<forall>k \<in> K. (p, k) \<notin> r\<^sup>*"
  shows "acyclic (r \<union> K \<times> {p})"
proof -
  have "acyclic (r \<union> K \<times> {p}) \<and> (\<forall>y. (p, y) \<in> (r \<union> K \<times> {p})\<^sup>* \<longleftrightarrow> (p, y) \<in> r\<^sup>*)"
    using assms(1,3)
  proof (induction K)
    case (insert k K)
    let ?r = "r \<union> K \<times> {p}"
    have eq: "r \<union> insert k K \<times> {p} = insert (k, p) ?r" by auto
    from insert have IH: "acyclic ?r" "\<And>y. (p, y) \<in> ?r\<^sup>* \<longleftrightarrow> (p, y) \<in> r\<^sup>*" by simp_all
    have "(p, k) \<notin> ?r\<^sup>*" using insert.prems IH(2) by simp
    then show ?case unfolding eq acyclic_insert rtrancl_insert using IH by auto
  qed (simp add: assms(2))
  then show ?thesis ..
qed

lemma typing_add_edges:
  assumes ty: "typing T E A" and new: "distinct (map fst R)" "fst ` set R \<inter> fst ` set E = {}" "\<forall>v \<in> set R. edge_typed (set T) v"
    and fan: "\<forall>((q, k), t) \<in> set R. q = p \<and> (p, k) \<notin> (up E)\<^sup>*"
  shows "typing T (E @ R) A"
proof -
  let ?K = "(\<lambda>v. snd (fst v)) ` set R"
  have "up R = ?K \<times> {p}" using fan by (force simp: up_def)
  then have "up (E @ R) = up E \<union> ?K \<times> {p}" by (simp add: up_append)
  moreover have "acyclic (up E \<union> ?K \<times> {p})" by (rule acyclic_fan) (use ty fan in \<open>auto simp: typing_def\<close>)
  ultimately show ?thesis using ty new by (auto simp: typing_def)
qed
section \<open>All parents\<close>

lemma rmapM_Inr_iff: "rmapM f xs = Inr ys \<longleftrightarrow> list_all2 (\<lambda>x y. f x = Inr y) xs ys"
proof (induction xs arbitrary: ys)
  case (Cons x xs)
  show ?case by (cases ys) (auto simp: rbind_eq_Inr Cons.IH)
qed auto

lemma rmapM_total: "(\<And>x. x \<in> set xs \<Longrightarrow> \<exists>y. f x = Inr y) \<Longrightarrow> \<exists>ys. rmapM f xs = Inr ys"
  by (induction xs) (simp, fastforce)

abbreviation upward :: "content_row list \<Rightarrow> (did \<times> did) set" where
  "upward cs \<equiv> up (map row_view cs)"

lemma all_parents_set:
  "all_parents n cs k = Inr ps \<Longrightarrow> fst ` set ps = {q. (k, q) \<in> (upward cs)\<^sup>+}"
proof (induction n arbitrary: k ps)
  case (Suc n)
  let ?rows = "filter (\<lambda>c. c_child c = k) cs"
  from Suc.prems obtain pss where
    pss: "list_all2 (\<lambda>c ps. \<exists>qs. all_parents n cs (c_parent c) = Inr qs \<and> (c_parent c, c_did_type c) # qs = ps) ?rows pss" and ps: "ps = concat pss"
    by (auto simp: rbind_eq_Inr rmapM_Inr_iff)
  have "fst ` set (concat pss) = (\<Union>c \<in> set rs. insert (c_parent c) {q. (c_parent c, q) \<in> (upward cs)\<^sup>+})"
    if "list_all2 (\<lambda>c ps. \<exists>qs. all_parents n cs (c_parent c) = Inr qs \<and> (c_parent c, c_did_type c) # qs = ps) rs pss" for rs pss
    using that
  proof (induction rs pss rule: list_all2_induct)
    case (Cons c rs ps pss)
    then obtain qs where qs: "all_parents n cs (c_parent c) = Inr qs" "ps = (c_parent c, c_did_type c) # qs" by auto
    have "fst ` set (concat (ps # pss)) = insert (c_parent c) (fst ` set qs) \<union> fst ` set (concat pss)" by (simp add: qs(2) image_Un)
    then show ?case unfolding Cons.IH Suc.IH [OF qs(1)] by simp
  qed simp
  from this [OF pss] have "fst ` set (concat pss) = (\<Union>c \<in> set ?rows. insert (c_parent c) {q. (c_parent c, q) \<in> (upward cs)\<^sup>+})" .
  also have "\<dots> = {q. (k, q) \<in> (upward cs)\<^sup>+}"
  proof (intro set_eqI iffI)
    fix q assume "q \<in> {q. (k, q) \<in> (upward cs)\<^sup>+}"
    then have "(k, q) \<in> (upward cs)\<^sup>+" by simp
    then obtain m where m: "(k, m) \<in> upward cs" "m = q \<or> (m, q) \<in> (upward cs)\<^sup>+" by (rule converse_tranclE) blast+
    then show "q \<in> (\<Union>c \<in> set ?rows. insert (c_parent c) {q. (c_parent c, q) \<in> (upward cs)\<^sup>+})" by (auto simp: up_contents)
  next
    fix q assume "q \<in> (\<Union>c \<in> set ?rows. insert (c_parent c) {q. (c_parent c, q) \<in> (upward cs)\<^sup>+})"
    then obtain c where c: "c \<in> set cs" "c_child c = k" "q = c_parent c \<or> (c_parent c, q) \<in> (upward cs)\<^sup>+" by auto
    then have "(k, c_parent c) \<in> upward cs" by (auto simp: up_contents)
    with c(3) show "q \<in> {q. (k, q) \<in> (upward cs)\<^sup>+}" by (auto intro: trancl_into_trancl2)
  qed
  finally show ?case by (simp add: ps)
qed simp

lemma list_all_parent_dids_set:
  "list_all_parent_dids d k = Inr ps \<Longrightarrow> fst ` set ps = {q. (k, q) \<in> (upward (contents d))\<^sup>+}"
  unfolding list_all_parent_dids_def by (rule all_parents_set)

text \<open>Without cycles the recursion ends.\<close>

lemma all_parents_total:
  assumes ac: "acyclic (upward cs)" and "card {c \<in> set cs. (k, c_child c) \<in> (upward cs)\<^sup>*} < n"
  shows "\<exists>ps. all_parents n cs k = Inr ps"
  using assms(2)
proof (induction n arbitrary: k)
  case (Suc n)
  have "\<exists>ps. rbind (all_parents n cs (c_parent c)) (\<lambda>ps. Inr ((c_parent c, c_did_type c) # ps)) = Inr ps" if c: "c \<in> set cs" "c_child c = k" for c
  proof -
    let ?S = "\<lambda>k. {c \<in> set cs. (k, c_child c) \<in> (upward cs)\<^sup>*}"
    have e: "(k, c_parent c) \<in> upward cs" using c by (auto simp: up_contents)
    have "?S (c_parent c) \<subseteq> ?S k" using e by (auto intro: converse_rtrancl_into_rtrancl)
    moreover have "c \<in> ?S k" using c by simp
    moreover have "(c_parent c, k) \<notin> (upward cs)\<^sup>*"
    proof
      assume "(c_parent c, k) \<in> (upward cs)\<^sup>*"
      with e have "(k, k) \<in> (upward cs)\<^sup>+" by (rule rtrancl_into_trancl2)
      with ac show False unfolding acyclic_def by blast
    qed
    then have "c \<notin> ?S (c_parent c)" using c by simp
    ultimately have "card (?S (c_parent c)) < card (?S k)" by (intro psubset_card_mono) auto
    with Suc.prems have "card (?S (c_parent c)) < n" by linarith
    from Suc.IH [OF this] show ?thesis by (auto simp: rbind_def)
  qed
  then have "\<exists>pss. rmapM (\<lambda>c. rbind (all_parents n cs (c_parent c)) (\<lambda>ps. Inr ((c_parent c, c_did_type c) # ps))) (filter (\<lambda>c. c_child c = k) cs) = Inr pss"
    by (intro rmapM_total) simp
  then show ?case by auto
qed simp

lemma list_all_parent_dids_total: "acyclic (upward (contents d)) \<Longrightarrow> \<exists>ps. list_all_parent_dids d k = Inr ps"
  unfolding list_all_parent_dids_def
proof (rule all_parents_total)
  have "card {c \<in> set (contents d). (k, c_child c) \<in> (upward (contents d))\<^sup>*} \<le> card (set (contents d))" by (rule card_mono) auto
  also have "\<dots> \<le> length (contents d)" by (rule card_length)
  finally show "card {c \<in> set (contents d). (k, c_child c) \<in> (upward (contents d))\<^sup>*} < Suc (length (contents d))" by simp
qed
section \<open>Attaching keeps the types\<close>

lemma same_types_upd_dids: "(\<And>x. did_view (f x) = did_view x) \<Longrightarrow> same_types d (upd_dids P f d)"
  by (simp add: same_types_def map_view_upd_where)

lemma did_view_upd [simp]:
  "did_view (x\<lparr>d_is_archive := a\<rparr>) = did_view x" "did_view (x\<lparr>d_constituent := a\<rparr>) = did_view x"
  "did_view (x\<lparr>d_is_new := a\<rparr>) = did_view x" "did_view (x\<lparr>d_open := b\<rparr>) = did_view x" "did_view (close_values e v x) = did_view x"
  by (simp_all add: did_view_def did_of_def close_values_def split: prod.splits)

lemma add_message_types: "add_message e m d = Inr d' \<Longrightarrow> same_types d d'"
  by (auto simp: add_message_def rbind_eq_Inr same_types_def)

lemma rfold_same_types:
  assumes "\<And>x d d'. f x d = Inr d' \<Longrightarrow> same_types d d'"
  shows "rfold f xs d = Inr d' \<Longrightarrow> same_types d d'"
proof (induction xs arbitrary: d)
  case (Cons x xs)
  then obtain y where "f x d = Inr y" "rfold f xs y = Inr d'" by (auto simp: rbind_eq_Inr)
  with Cons.IH assms show ?case by (blast intro: same_types_trans)
qed simp

lemma find_did_Some: "find_did d k = Some x \<Longrightarrow> x \<in> set (dids d) \<and> did_of x = k"
  by (auto simp: find_did_def find_Some_iff)

lemma find_did_None: "find_did d k = None \<Longrightarrow> k \<notin> did_of ` set (dids d)"
  by (auto simp: find_did_def find_None_iff)

lemma get_did_row_Inr: "get_did_row d k = Inr x \<Longrightarrow> x \<in> set (dids d) \<and> did_of x = k"
  by (auto simp: get_did_row_def dest: filter_ConsD split: list.splits)

lemma did_view_mem: "x \<in> set (dids d) \<Longrightarrow> (did_of x, d_type x) \<in> set (map did_view (dids d))"
  by (force simp: did_view_def)

text \<open>New DIDs.\<close>

lemma well_typed_insert:
  assumes "well_typed d" and "did_of x \<notin> did_of ` set (dids d)" and "d_type x \<in> {FILE, DATASET, CONTAINER}"
  shows "well_typed (d\<lparr>dids := dids d @ [x]\<rparr>)"
proof -
  have "fst ` set (map did_view (dids d)) = did_of ` set (dids d)" by (force simp: did_view_def)
  with typing_add_did [of _ _ _ "did_of x" "d_type x"] assms show ?thesis by (simp add: well_typed_def did_view_def)
qed

text \<open>Metadata. Only the name of a DID can change, and only where no row refers to it.\<close>

definition rest_kept :: "did \<Rightarrow> rule_db \<Rightarrow> rule_db \<Rightarrow> bool" where
  "rest_kept k d d' \<longleftrightarrow> (\<forall>x \<in> set (dids d). did_of x \<noteq> k \<longrightarrow> did_view x \<in> did_view ` set (dids d'))"

lemma rest_kept_same: "same_types d d' \<Longrightarrow> rest_kept k d d'"
proof -
  assume "same_types d d'"
  then have "did_view ` set (dids d') = did_view ` set (dids d)" unfolding same_types_def by (metis list.set_map)
  then show ?thesis by (simp add: rest_kept_def)
qed

lemma rest_kept_trans: "rest_kept k a b \<Longrightarrow> rest_kept k b c \<Longrightarrow> rest_kept k a c"
  unfolding rest_kept_def by (force simp: did_view_def)

lemma typing_rename:
  assumes ty: "typing T E A" and dist: "distinct (map fst T')" and types: "\<forall>v \<in> set T'. snd v \<in> {FILE, DATASET, CONTAINER}"
    and kept: "\<forall>v \<in> set T. v \<in> set T' \<or> fst v = k"
    and free: "\<forall>v \<in> set E. fst (fst v) \<noteq> k \<and> snd (fst v) \<noteq> k" "\<forall>(p, q) \<in> set A. p \<noteq> k \<and> q \<noteq> k"
  shows "typing T' E A"
proof -
  have "edge_typed (set T') v" if "v \<in> set E" for v
  proof -
    from that ty have "edge_typed (set T) v" by (simp add: typing_def)
    moreover from that free(1) have "fst (fst v) \<noteq> k" "snd (fst v) \<noteq> k" by simp_all
    ultimately show ?thesis using kept by (auto simp: edge_typed_def split: prod.splits)
  qed
  moreover have "\<forall>(p, q) \<in> set A. (p, FILE) \<in> set T' \<and> (q, FILE) \<in> set T'" using ty kept free(2) by (fastforce simp: typing_def)
  ultimately show ?thesis using ty dist types by (simp add: typing_def)
qed

lemma update_dids_views:
  assumes "update_dids P m d = Inr d'"
  shows "list_all2 (\<lambda>x y. d_type y = d_type x \<and> (P x \<or> y = x) \<and> (''name'' \<in> fst ` set m \<or> did_view y = did_view x)) (dids d) (dids d')"
  using update_dids_rows(2) [OF assms]
  by (rule list_all2_mono) (auto simp: did_view_def dest: set_columns_kept split: if_splits)

lemma list_all2_map_eq: "list_all2 (\<lambda>x y. f y = f x) xs ys \<Longrightarrow> map f ys = map f xs"
  by (induction rule: list_all2_induct) simp_all

lemma update_file_types:
  assumes "update_file k m d = Inr d'" and "''name'' \<notin> fst ` set m"
  shows "same_types d d'"
proof -
  from assms(1) have "update_dids (\<lambda>x. did_of x = k \<and> d_type x = FILE) m d = Inr d'" by (simp add: update_file_def Let_def split: if_splits)
  then have "list_all2 (\<lambda>x y. did_view y = did_view x) (dids d) (dids d')"
    by (rule list_all2_mono [OF update_dids_views]) (use assms(2) in simp)
  with file_column_tables [OF assms(1)] show ?thesis by (simp add: same_types_def list_all2_map_eq)
qed

lemma same_types_views:
  assumes "map did_of (dids d') = map did_of (dids d)" and "map d_type (dids d') = map d_type (dids d)"
    and "map row_view (contents d') = map row_view (contents d)" and "map arc_view (archive_contents d') = map arc_view (archive_contents d)"
  shows "same_types d d'"
proof -
  have "map did_view xs = zip (map did_of xs) (map d_type xs)" for xs by (induction xs) (simp_all add: did_view_def)
  then show ?thesis using assms by (simp add: same_types_def)
qed

lemma row_view_upd [simp]:
  "row_view (r\<lparr>c_bytes := b\<rparr>) = row_view r" "row_view (r\<lparr>c_events := b\<rparr>) = row_view r" "row_view (r\<lparr>c_guid := g\<rparr>) = row_view r"
  "row_view (r\<lparr>c_adler32 := g\<rparr>) = row_view r"
  by (simp_all add: row_view_def c_key_def c_parent_def c_child_def)

lemma set_bytes_types:
  assumes "set_bytes k v c = Inr c'"
  shows "same_types (cat_db c) (cat_db c')"
  using assms
proof (rule set_bytes_run)
  fix n d1 d2 d3 c4
  assume d1: "update_file k [(''bytes'', v)] (cat_db c) = Inr d1"
    and d2: "d2 = upd_requests (\<lambda>q. fst (rq_key q) = k) (\<lambda>q. q\<lparr>rq_bytes := n\<rparr>) (upd_contents (file_child k) (\<lambda>r. r\<lparr>c_bytes := n\<rparr>) d1)"
    and d3: "rfold (lock_bytes n) (filter (\<lambda>l. l_did l = k) (locks d2)) d2 = Inr d3"
    and c4: "rfold (replica_bytes n) (filter (\<lambda>p. fst (p_key p) = k) (replicas d3)) (c\<lparr>cat_db := d3\<rparr>) = Inr c4"
    and c': "c' = c4\<lparr>cat_db := fold sum_bytes (parents_of (cat_db c4) k) (cat_db c4)\<rparr>"
  have "same_types (cat_db c) d1" by (rule update_file_types [OF d1]) simp
  also have "same_types d1 d2" by (simp add: d2 same_types_def map_view_upd_where)
  also have "same_types d2 d3" by (rule same_types_tables; subst lock_bytes_all(1) [OF d3], simp)
  also have "same_types d3 (cat_db c4)"
  proof -
    from c4 have "rfold (replica_bytes n) (filter (\<lambda>p. fst (p_key p) = k) (replicas (cat_db (c\<lparr>cat_db := d3\<rparr>)))) (c\<lparr>cat_db := d3\<rparr>) = Inr c4" by simp
    from replica_bytes_all(1) [OF this] have c4': "cat_db c4 = d3\<lparr>replicas := replicas (cat_db c4)\<rparr>" by simp
    show ?thesis by (rule same_types_tables; subst c4', simp)
  qed
  also have "same_types (cat_db c4) (cat_db c')" unfolding c' by (rule same_types_views) simp_all
  finally show ?thesis .
qed

lemma meta_step_types:
  assumes "meta_step e k kv (c, m) = Inr (c', m')"
  shows "same_types (cat_db c) (cat_db c')"
proof -
  obtain key v where kv: "kv = (key, v)" by (cases kv)
  have column: "same_types d x" if "update_file k [(col, v)] d = Inr x" "col \<noteq> ''name''" for col d x using update_file_types [OF that(1)] that(2) by simp
  from assms [unfolded kv] show ?thesis
  proof (cases rule: meta_step_cases)
    case (lifetime t)
    then show ?thesis by (simp add: same_types_upd_dids did_view_def did_of_def)
  next
    case (guid d)
    then obtain x s where x: "update_file k [(''guid'', v)] (cat_db c) = Inr x" and d: "d = upd_contents (file_child k) (\<lambda>r. r\<lparr>c_guid := s\<rparr>) x"
      by (auto simp: set_guid_def rbind_eq_Inr)
    have "same_types x d" by (simp add: d same_types_def map_view_upd_where)
    with column [OF x] show ?thesis by (simp add: guid(2) same_types_trans)
  next
    case (events d)
    then obtain x n where x: "update_file k [(''events'', v)] (cat_db c) = Inr x"
      and d: "d = fold sum_events (parents_of x k) (upd_contents (file_child k) (\<lambda>r. r\<lparr>c_events := n\<rparr>) x)"
      by (auto simp: set_events_def rbind_eq_Inr)
    have "same_types x d" by (rule same_types_views) (simp_all add: d map_view_upd_where)
    with column [OF x] show ?thesis by (simp add: events(2) same_types_trans)
  next
    case (adler32 d)
    then obtain x s where x: "update_file k [(''adler32'', v)] (cat_db c) = Inr x"
      and d: "d = upd_replicas (\<lambda>p. fst (p_key p) = k) (\<lambda>p. p\<lparr>p_adler32 := s\<rparr>) (upd_requests (\<lambda>q. fst (rq_key q) = k) (\<lambda>q. q\<lparr>rq_adler32 := s\<rparr>)
        (upd_contents (file_child k) (\<lambda>r. r\<lparr>c_adler32 := s\<rparr>) x))"
      by (auto simp: set_adler32_def rbind_eq_Inr)
    have "same_types x d" by (simp add: d same_types_def map_view_upd_where)
    with column [OF x] show ?thesis by (simp add: adler32(2) same_types_trans)
  next
    case bytes
    then show ?thesis by (intro set_bytes_types)
  qed simp_all
qed

lemma write_columns_types:
  assumes run: "write_columns e m k d = Inr d'" and wt: "well_typed d"
  shows "well_typed d'" and "rest_kept k d d'"
proof -
  from run have upd: "update_dids (\<lambda>x. did_of x = k) m d = Inr d'" and dist: "distinct (map did_of (dids d'))"
    and free: "has_did d k \<longrightarrow> has_did d' k \<or> \<not> referenced d k"
    by (auto simp: write_columns_def rbind_eq_Inr split: if_splits)
  have rows: "list_all2 (\<lambda>x y. d_type y = d_type x \<and> (did_of x = k \<or> y = x)) (dids d) (dids d')"
    by (rule list_all2_mono [OF update_dids_views [OF upd]]) blast
  have fwd: "\<exists>y \<in> set (dids d'). d_type y = d_type x \<and> (did_of x = k \<or> y = x)" if "x \<in> set (dids d)" for x
    using rows that by (induction rule: list_all2_induct) auto
  have bwd: "\<exists>x \<in> set (dids d). d_type y = d_type x \<and> (did_of x = k \<or> y = x)" if "y \<in> set (dids d')" for y
    using rows that by (induction rule: list_all2_induct) auto
  show "rest_kept k d d'" unfolding rest_kept_def using fwd by blast
  have tabs: "contents d' = contents d" "archive_contents d' = archive_contents d" by (subst write_columns_rows [OF run], simp)+
  have ty: "typing (map did_view (dids d)) (map row_view (contents d)) (map arc_view (archive_contents d))" using wt by (simp add: well_typed_def)
  have dist': "distinct (map fst (map did_view (dids d')))" using dist by (simp add: did_view_def comp_def)
  have types: "\<forall>v \<in> set (map did_view (dids d')). snd v \<in> {FILE, DATASET, CONTAINER}"
  proof
    fix v assume "v \<in> set (map did_view (dids d'))"
    then obtain y where "y \<in> set (dids d')" "v = did_view y" by auto
    with bwd obtain x where "x \<in> set (dids d)" "snd v = d_type x" by (auto simp: did_view_def)
    with ty show "snd v \<in> {FILE, DATASET, CONTAINER}" by (fastforce simp: typing_def did_view_def)
  qed
  show "well_typed d'"
  proof (cases "has_did d k \<and> \<not> has_did d' k")
    case True
    with free have unref: "\<not> referenced d k" by simp
    have "\<forall>v \<in> set (map did_view (dids d)). v \<in> set (map did_view (dids d')) \<or> fst v = k"
      using fwd by (fastforce simp: did_view_def)
    moreover have "\<forall>v \<in> set (map row_view (contents d)). fst (fst v) \<noteq> k \<and> snd (fst v) \<noteq> k"
      using unref by (auto simp: referenced_def row_view_def c_key_def)
    moreover have "\<forall>(p, q) \<in> set (map arc_view (archive_contents d)). p \<noteq> k \<and> q \<noteq> k" using unref by (auto simp: referenced_def arc_view_def)
    ultimately show ?thesis using typing_rename [OF ty dist' types] by (simp add: well_typed_def tabs)
  next
    case False
    have "y = x" if xy: "x \<in> set (dids d)" "y \<in> set (dids d)" "did_of x = did_of y" for x y
      using xy ty by (auto simp: typing_def did_view_def comp_def distinct_map inj_on_def)
    have "did_view x \<in> did_view ` set (dids d')" if x: "x \<in> set (dids d)" for x
    proof (cases "did_of x = k")
      case True
      with x False have "has_did d' k" by (auto simp: has_did_def)
      then obtain y where y: "y \<in> set (dids d')" "did_of y = k" by (auto simp: has_did_def)
      with bwd obtain z where z: "z \<in> set (dids d)" "d_type y = d_type z" "did_of z = k" by metis
      have "z = x" using x z True \<open>\<And>x y. x \<in> set (dids d) \<Longrightarrow> y \<in> set (dids d) \<Longrightarrow> did_of x = did_of y \<Longrightarrow> y = x\<close> by metis
      with y z True show ?thesis by (force simp: did_view_def)
    next
      case False
      with fwd [OF x] show ?thesis by (auto simp: did_view_def)
    qed
    then have sub: "set (map did_view (dids d)) \<subseteq> set (map did_view (dids d'))" by auto
    have "edge_typed (set (map did_view (dids d'))) v" if "edge_typed (set (map did_view (dids d))) v" for v
      using that sub unfolding edge_typed_def by (auto split: prod.splits)
    with ty dist' types sub show ?thesis unfolding well_typed_def tabs typing_def by fastforce
  qed
qed

lemma DidColumnMeta_types:
  assumes run: "DidColumnMeta_set_metadata_bulk e k m recursive c = Inr c'" and wt: "well_typed (cat_db c)"
  shows "well_typed (cat_db c') \<and> (\<not> recursive \<longrightarrow> rest_kept k (cat_db c) (cat_db c'))"
proof -
  from run obtain c1 rest d where loop: "rfold (meta_step e k) m (c, []) = Inr (c1, rest)"
    and d: "write_remainder e k rest recursive (cat_db c1) = Inr d" and c': "c' = c1\<lparr>cat_db := d\<rparr>"
    by (auto simp: DidColumnMeta_set_metadata_bulk_def rbind_eq_Inr split: if_splits)
  have "same_types (cat_db c) (cat_db (fst (c1, rest)))"
  proof (rule rfold_invariant [OF loop, of "\<lambda>s. same_types (cat_db c) (cat_db (fst s))"])
    fix kv s s' assume "same_types (cat_db c) (cat_db (fst s))" and "meta_step e k kv s = Inr s'"
    then show "same_types (cat_db c) (cat_db (fst s'))" using meta_step_types [of e k kv "fst s" "snd s" "fst s'" "snd s'"] by (auto intro: same_types_trans)
  qed simp
  then have same: "same_types (cat_db c) (cat_db c1)" by simp
  with wt have wt1: "well_typed (cat_db c1)" by (simp add: well_typed_same)
  show ?thesis
  proof (cases "rest = []")
    case True
    with d same wt1 show ?thesis by (simp add: c' write_remainder_def rest_kept_same)
  next
    case False
    with d obtain d1 where d1: "write_columns e rest k (cat_db c1) = Inr d1"
      and d': "(if recursive then rfold (write_columns e rest) (map c_child (rows_of_parent d1 k)) d1 else Inr d1) = Inr d"
      by (auto simp: write_remainder_def rbind_eq_Inr split: if_splits)
    note wt2 = write_columns_types [OF d1 wt1]
    show ?thesis
    proof (cases recursive)
      case True
      then have "rfold (write_columns e rest) (map c_child (rows_of_parent d1 k)) d1 = Inr d" using d' by simp
      from rfold_invariant [OF this, of well_typed, OF wt2(1) write_columns_types(1)] True show ?thesis by (simp add: c')
    next
      case False
      with d' wt2 rest_kept_trans [OF rest_kept_same [OF same] wt2(2)] show ?thesis by (simp add: c')
    qed
  qed
qed

lemma set_metadata_bulk_types:
  assumes "set_metadata_bulk e k m recursive c = Inr c'" and "well_typed (cat_db c)"
  shows "well_typed (cat_db c') \<and> (\<not> recursive \<longrightarrow> rest_kept k (cat_db c) (cat_db c'))"
  using assms DidColumnMeta_types [of e k _ recursive c]
  by (auto simp: set_metadata_bulk_def Let_def rbind_eq_Inr rest_kept_same split: if_splits)

lemma set_file_meta_types:
  assumes "set_file_meta e k m c = Inr c'" and "well_typed (cat_db c)"
  shows "well_typed (cat_db c')" and "rest_kept k (cat_db c) (cat_db c')"
  using assms set_metadata_bulk_types [of e k m False c c'] by (auto simp: set_file_meta_def rest_kept_same split: if_splits)

lemma insert_did_types: "insert_did e err x d = Inr d' \<Longrightarrow> d_type x \<in> {FILE, DATASET, CONTAINER} \<Longrightarrow> well_typed d \<Longrightarrow> well_typed d'"
  by (auto simp: insert_did_def has_did_def image_iff intro!: well_typed_insert split: if_splits)

lemma add_file_did_types:
  assumes run: "add_file_did e account dm f c = Inr c'" and wt: "well_typed (cat_db c)"
  shows "well_typed (cat_db c')" and "did_view ` set (dids (cat_db c)) \<subseteq> did_view ` set (dids (cat_db c'))"
proof -
  let ?k = "fd_did f"
  from run obtain b d c1 where d: "insert_did e (did_conflict e) (new_file_did e account f b) (cat_db c) = Inr d"
    and c1: "set_file_meta (plugins e) ?k (fd_meta f) (c\<lparr>cat_db := d\<rparr>) = Inr c1" and c': "set_file_meta (plugins e) ?k dm c1 = Inr c'"
    by (auto simp: add_file_did_def rbind_eq_Inr split: option.splits)
  have wtd: "well_typed (cat_db (c\<lparr>cat_db := d\<rparr>))" using insert_did_types [OF d _ wt] by (simp add: new_file_did_def)
  note t1 = set_file_meta_types [OF c1 wtd]
  note t2 = set_file_meta_types [OF c' t1(1)]
  show "well_typed (cat_db c')" by (rule t2(1))
  have "did_of (new_file_did e account f b) = ?k" by (simp add: new_file_did_def did_of_def)
  with d have sub: "set (dids (cat_db c)) \<subseteq> set (dids d)" and new: "?k \<notin> did_of ` set (dids (cat_db c))"
    by (auto simp: insert_did_def has_did_def split: if_splits)
  have "rest_kept ?k d (cat_db c')" using rest_kept_trans [OF t1(2) t2(2)] by simp
  then have "did_view x \<in> did_view ` set (dids (cat_db c'))" if "x \<in> set (dids (cat_db c))" for x
    using that sub new unfolding rest_kept_def by (metis imageI subsetD)
  then show "did_view ` set (dids (cat_db c)) \<subseteq> did_view ` set (dids (cat_db c'))" by blast
qed

lemma add_replicas_types:
  assumes run: "add_replicas e rse files account ign dm c = Inr c'" and wt: "well_typed (cat_db c)"
  shows "well_typed (cat_db c')" and "did_view ` set (dids (cat_db c)) \<subseteq> did_view ` set (dids (cat_db c'))"
proof -
  let ?I = "\<lambda>x. well_typed (cat_db x) \<and> did_view ` set (dids (cat_db c)) \<subseteq> did_view ` set (dids (cat_db x))"
  from run obtain c1 files' n d2 where c1: "bulk_add_file_dids e account dm files c = Inr c1"
    and d2: "bulk_add_replicas e rse files' (cat_db c1) = Inr (n, d2)" and c': "cat_db c' = d2"
    by (auto simp: add_replicas_def rbind_eq_Inr split: if_splits)
  have I: "?I c1"
  proof (rule rfold_invariant [OF c1 [unfolded bulk_add_file_dids_def bulk_add_new_file_dids_def Let_def], of ?I])
    fix f x y assume "?I x" and "add_file_did e account dm f x = Inr y"
    with add_file_did_types [of e account dm f x y] show "?I y" by blast
  qed (simp add: wt)
  have tabs: "same_types (cat_db c1) d2" "dids d2 = dids (cat_db c1)"
    using d2 by (auto simp: bulk_add_replicas_def Let_def rbind_eq_Inr intro!: same_types_tables split: if_splits)
  show "well_typed (cat_db c')" using I tabs(1) by (simp add: c' well_typed_same)
  show "did_view ` set (dids (cat_db c)) \<subseteq> did_view ` set (dids (cat_db c'))" using I by (simp add: c' tabs(2))
qed

text \<open>New contents of a collection \<open>p\<close>.\<close>

lemma well_typed_contents:
  assumes wt: "well_typed d" and p: "p \<in> set (dids d)" "d_type p \<noteq> FILE"
    and new: "distinct (map c_child rows)" "\<forall>r \<in> set rows. c_parent r = did_of p \<and> \<not> attached d (did_of p) (c_child r)"
    and ty: "\<forall>r \<in> set rows. edge_typed (set (map did_view (dids d))) (row_view r)"
    and safe: "\<forall>r \<in> set rows. c_child_type r = CONTAINER \<longrightarrow> c_child r \<noteq> did_of p \<and> (did_of p, c_child r) \<notin> (upward (contents d))\<^sup>+"
  shows "well_typed (d\<lparr>contents := contents d @ rows\<rparr>)"
proof -
  let ?T = "map did_view (dids d)" and ?E = "map row_view (contents d)"
  have tp: "typing ?T ?E (map arc_view (archive_contents d))" using wt by (simp add: well_typed_def)
  then have "distinct (map fst ?T)" unfolding typing_def by blast
  note un = type_unique [OF this]
  have pT: "(did_of p, d_type p) \<in> set ?T" by (rule did_view_mem [OF p(1)])
  have fan: "(did_of p, c_child r) \<notin> (up ?E)\<^sup>*" if r: "r \<in> set rows" for r
  proof
    assume "(did_of p, c_child r) \<in> (up ?E)\<^sup>*"
    then consider "c_child r = did_of p" | "(did_of p, c_child r) \<in> (up ?E)\<^sup>+" by (auto simp: rtrancl_eq_or_trancl)
    then show False
    proof cases
      case 1
      have "edge_typed (set ?T) (row_view r)" using ty r by blast
      with 1 new(2) r have v: "(did_of p, c_did_type r) \<in> set ?T" "(did_of p, c_child_type r) \<in> set ?T"
        "c_child_type r = CONTAINER \<or> c_did_type r \<noteq> c_child_type r"
        by (auto simp: edge_typed_def row_view_def c_key_def)
      have "c_did_type r = c_child_type r" by (rule un [OF v(1,2)])
      with v(3) have "c_child_type r = CONTAINER" by simp
      with safe r 1 show False by blast
    next
      case 2
      from above_container [OF tp 2 pT p(2)] have "(c_child r, CONTAINER) \<in> set ?T" .
      moreover have "(c_child r, c_child_type r) \<in> set ?T" using ty r by (auto simp: edge_typed_def row_view_def c_key_def)
      ultimately have "c_child_type r = CONTAINER" by (intro un)
      with safe r 2 show False by blast
    qed
  qed
  have keys: "map (fst \<circ> row_view) cs = map c_key cs" for cs by (simp add: row_view_def)
  have "distinct (map c_key rows)" using new by (auto simp: distinct_map inj_on_def c_key_def)
  moreover have "c_key r \<notin> c_key ` set (contents d)" if "r \<in> set rows" for r
    using new(2) that unfolding attached_def c_key_def [of r] by simp
  then have "c_key ` set rows \<inter> c_key ` set (contents d) = {}" by blast
  ultimately have "typing ?T (?E @ map row_view rows) (map arc_view (archive_contents d))"
    using ty fan new(2)
    by (intro typing_add_edges [OF tp, of _ "did_of p"]) (auto simp: keys row_view_def c_key_def image_image)
  then show ?thesis by (simp add: well_typed_def)
qed
lemma dataset_rows:
  assumes "rfold (dataset_child p ign d) files ([], False) = Inr (rows, archive)"
  shows "distinct (map c_child rows) \<and> (\<forall>r \<in> set rows. \<exists>x \<in> set (dids d). d_type x = FILE \<and> r = file_content p x)"
proof -
  let ?I = "\<lambda>acc. distinct (map c_child (fst acc)) \<and> (\<forall>r \<in> set (fst acc). \<exists>x \<in> set (dids d). d_type x = FILE \<and> r = file_content p x)"
  have child: "c_child (file_content p x) = did_of x" for x by (simp add: file_content_def c_child_def did_of_def)
  have "?I acc'" if "?I acc" "dataset_child p ign d f acc = Inr acc'" for f acc acc'
  proof -
    obtain rows archive where acc: "acc = (rows, archive)" by (cases acc)
    from that(2) obtain x where x: "find_did d (fd_did f) = Some x" "d_type x = FILE"
      and cs: "acc' = acc \<or> did_of x \<notin> c_child ` set rows \<and> fst acc' = rows @ [file_content p x]"
      by (auto simp: dataset_child_def acc split: option.splits if_splits)
    from x(1) have "x \<in> set (dids d)" by (blast dest: find_did_Some)
    with that(1) cs x(2) show ?thesis unfolding acc by (auto simp: child)
  qed
  note step = this
  have "?I (rows, archive)" by (rule rfold_invariant [OF assms, of ?I]) (simp, rule step)
  then show ?thesis by simp
qed

lemma add_files_to_dataset_types:
  assumes run: "add_files_to_dataset e (did_of p) files account rse ign c = Inr (rows, c')"
    and wt: "well_typed (cat_db c)" and p: "get_did_row (cat_db c) (did_of p) = Inr p" "d_type p = DATASET"
  shows "well_typed (cat_db c')"
proof -
  let ?k = "did_of p"
  from run obtain c1 archive where c1: "(case rse of None \<Rightarrow> Inr c
       | Some r \<Rightarrow> if r = [] then Inr c else add_replicas (rep_env e) r (map file_dict.truncate files) account True (name_meta e ?k) c) = Inr c1"
    and rows: "rfold (dataset_child ?k ign (cat_db c1)) files ([], False) = Inr (rows, archive)"
    and new: "\<forall>r \<in> set rows. \<not> attached (cat_db c1) ?k (c_child r)"
    and c': "cat_db c' = (let d1 = (if archive then upd_dids (\<lambda>x. did_of x = ?k) (\<lambda>x. x\<lparr>d_is_archive := Some True\<rparr>) (cat_db c1) else cat_db c1)
       in d1\<lparr>contents := contents d1 @ rows\<rparr>)"
    by (auto simp: add_files_to_dataset_def rbind_eq_Inr Let_def split: if_splits)
  let ?d = "cat_db c1"
  define d1 where "d1 = (if archive then upd_dids (\<lambda>x. did_of x = ?k) (\<lambda>x. x\<lparr>d_is_archive := Some True\<rparr>) ?d else ?d)"
  have "well_typed ?d" using c1 wt by (auto dest: add_replicas_types(1) split: option.splits if_splits)
  moreover have st: "same_types ?d d1" by (auto simp: d1_def intro: same_types_upd_dids)
  ultimately have wt1: "well_typed d1" by (simp add: well_typed_same)
  have conts: "contents d1 = contents ?d" and views: "map did_view (dids d1) = map did_view (dids ?d)" using st by (auto simp: d1_def same_types_def)
  have "(?k, DATASET) \<in> set (map did_view (dids (cat_db c)))" using get_did_row_Inr [OF p(1)] p(2) by (force simp: did_view_def)
  moreover have "did_view ` set (dids (cat_db c)) \<subseteq> did_view ` set (dids ?d)"
    using c1 wt by (auto dest: add_replicas_types(2) split: option.splits if_splits)
  ultimately have "(?k, DATASET) \<in> set (map did_view (dids ?d))" by auto
  then have pin: "(?k, DATASET) \<in> set (map did_view (dids d1))" by (simp only: views)
  then obtain q where q: "q \<in> set (dids d1)" "did_of q = ?k" "d_type q = DATASET" by (auto simp: did_view_def)
  have "well_typed (d1\<lparr>contents := contents d1 @ rows\<rparr>)"
  proof (rule well_typed_contents [OF wt1 q(1)])
    show "d_type q \<noteq> FILE" by (simp add: q(3))
    show "distinct (map c_child rows)" using dataset_rows [OF rows] by simp
    show "\<forall>r \<in> set rows. c_parent r = did_of q \<and> \<not> attached d1 (did_of q) (c_child r)"
      using dataset_rows [OF rows] new by (auto simp: q(2) attached_def conts file_content_def c_parent_def)
    show "\<forall>r \<in> set rows. edge_typed (set (map did_view (dids d1))) (row_view r)"
    proof
      fix r assume "r \<in> set rows"
      with dataset_rows [OF rows] obtain x where x: "x \<in> set (dids ?d)" "d_type x = FILE" "r = file_content ?k x" by blast
      have "(did_of x, FILE) \<in> set (map did_view (dids d1))" using did_view_mem [OF x(1)] x(2) views by simp
      with pin show "edge_typed (set (map did_view (dids d1))) (row_view r)"
        by (simp add: edge_typed_def row_view_def c_key_def c_parent_def c_child_def x(3) file_content_def did_of_def)
    qed
    show "\<forall>r \<in> set rows. c_child_type r = CONTAINER \<longrightarrow> c_child r \<noteq> did_of q \<and> (did_of q, c_child r) \<notin> (upward (contents d1))\<^sup>+"
      using dataset_rows [OF rows] by (auto simp: file_content_def)
  qed
  then show ?thesis by (simp add: c' d1_def Let_def)
qed
lemma container_rows:
  assumes "rfold (container_child p d) cs t = Inr t'" and "\<forall>x \<in> set cs. fd_did x \<noteq> p"
  shows "(t' = None \<longrightarrow> cs = [] \<and> t = None) \<and> (t \<noteq> None \<longrightarrow> t' = t) \<and>
    (\<forall>f \<in> set cs. \<exists>x \<in> set (dids d). did_of x = fd_did f \<and> Some (d_type x) = t' \<and> d_type x \<noteq> FILE \<and>
      (d_type x = CONTAINER \<longrightarrow> (p, fd_did f) \<notin> (upward (contents d))\<^sup>+))"
  using assms
proof (induction cs arbitrary: t)
  case (Cons f cs)
  then obtain s where s: "container_child p d f t = Inr s" and rest: "rfold (container_child p d) cs s = Inr t'" by (auto simp: rbind_eq_Inr)
  from s obtain x where x: "find_did d (fd_did f) = Some x" "d_type x \<noteq> FILE" "s = Some (d_type x)" "t = None \<or> t = Some (d_type x)"
    and up: "d_type x = CONTAINER \<longrightarrow> (\<exists>ps. list_all_parent_dids d p = Inr ps \<and> did_of x \<notin> fst ` set ps)"
    by (auto simp: container_child_def Let_def rbind_eq_Inr split: option.splits if_splits)
  from find_did_Some [OF x(1)] have mem: "x \<in> set (dids d)" "did_of x = fd_did f" by simp_all
  have "d_type x = CONTAINER \<longrightarrow> (p, fd_did f) \<notin> (upward (contents d))\<^sup>+"
    using up list_all_parent_dids_set [of d p] unfolding mem(2) by blast
  moreover from Cons.IH [OF rest] Cons.prems(2) have IH: "t' = s" "\<forall>f \<in> set cs. \<exists>x \<in> set (dids d). did_of x = fd_did f \<and> Some (d_type x) = t' \<and> d_type x \<noteq> FILE \<and>
      (d_type x = CONTAINER \<longrightarrow> (p, fd_did f) \<notin> (upward (contents d))\<^sup>+)" unfolding x(3) by auto
  ultimately show ?case using mem x by auto
qed auto

lemma add_collections_to_container_types:
  assumes run: "add_collections_to_container e (did_of p) cs account ign d = Inr d'" and wt: "well_typed d"
    and p: "p \<in> set (dids d)" "d_type p = CONTAINER" and dist: "distinct (map fd_did cs)"
  shows "well_typed d'"
proof -
  let ?k = "did_of p"
  from run have "?k \<notin> fd_did ` set cs" unfolding add_collections_to_container_def by (auto split: if_splits)
  then have self: "\<forall>x \<in> set cs. fd_did x \<noteq> ?k" by (metis imageI)
  from run obtain t' where t': "rfold (container_child ?k d) cs None = Inr t'" and cont: "(case t' of
        None \<Rightarrow> Inr d
      | Some t \<Rightarrow>
          let rows = [collection_content ?k t (fd_did f). f \<leftarrow> cs, \<not> (ign \<and> attached d ?k (fd_did f))]
          in if \<exists>r \<in> set rows. attached d ?k (c_child r) then Inl DuplicateContent
             else rfold (add_message (rules_env (rep_env e))) (map (register_message account) rows) (d\<lparr>contents := contents d @ rows\<rparr>)) = Inr d'"
    by (auto simp: add_collections_to_container_def rbind_eq_Inr split: if_splits)
  note rows = container_rows [OF t' self]
  show ?thesis
  proof (cases t')
    case None
    with cont wt show ?thesis by simp
  next
    case (Some t)
    define R where "R = map (\<lambda>f. collection_content ?k t (fd_did f)) (filter (\<lambda>f. \<not> (ign \<and> attached d ?k (fd_did f))) cs)"
    have R: "[collection_content ?k t (fd_did f). f \<leftarrow> cs, \<not> (ign \<and> attached d ?k (fd_did f))] = R"
      unfolding R_def by (induction cs) simp_all
    from cont [unfolded Some option.case R Let_def] have new: "\<forall>r \<in> set R. \<not> attached d ?k (c_child r)"
      and msgs: "rfold (add_message (rules_env (rep_env e))) (map (register_message account) R) (d\<lparr>contents := contents d @ R\<rparr>) = Inr d'"
      by (simp_all split: if_splits)
    have sel: "c_child (collection_content q s j) = j" "c_parent (collection_content q s j) = q" "c_child_type (collection_content q s j) = s"
      "row_view (collection_content q s j) = ((q, j), CONTAINER, s)" for q s j
      by (simp_all add: collection_content_def c_child_def c_parent_def row_view_def c_key_def)
    have "well_typed (d\<lparr>contents := contents d @ R\<rparr>)"
    proof (rule well_typed_contents [OF wt p(1)])
      show "d_type p \<noteq> FILE" by (simp add: p(2))
      show "distinct (map c_child R)" using distinct_map_filter_key [OF dist] by (simp add: R_def sel comp_def)
      show "\<forall>r \<in> set R. c_parent r = ?k \<and> \<not> attached d ?k (c_child r)" using new by (auto simp: R_def sel)
      show "\<forall>r \<in> set R. edge_typed (set (map did_view (dids d))) (row_view r)"
      proof
        fix r assume "r \<in> set R"
        then obtain f where f: "f \<in> set cs" "r = collection_content ?k t (fd_did f)" by (auto simp: R_def)
        with rows obtain x where x: "x \<in> set (dids d)" "did_of x = fd_did f" "Some (d_type x) = t'" "d_type x \<noteq> FILE" by blast
        have "(fd_did f, t) \<in> set (map did_view (dids d))" using did_view_mem [OF x(1)] x(2,3) Some by simp
        moreover have "(?k, CONTAINER) \<in> set (map did_view (dids d))" using did_view_mem [OF p(1)] p(2) by simp
        moreover have "t = DATASET \<or> t = CONTAINER" using wt x(1,3,4) by (auto simp: Some well_typed_def typing_def did_view_def)
        ultimately show "edge_typed (set (map did_view (dids d))) (row_view r)" by (simp add: edge_typed_def f(2) sel)
      qed
      show "\<forall>r \<in> set R. c_child_type r = CONTAINER \<longrightarrow> c_child r \<noteq> ?k \<and> (?k, c_child r) \<notin> (upward (contents d))\<^sup>+"
      proof (intro ballI impI)
        fix r assume r: "r \<in> set R" "c_child_type r = CONTAINER"
        then obtain f where f: "f \<in> set cs" "r = collection_content ?k t (fd_did f)" by (auto simp: R_def)
        with rows obtain x where "x \<in> set (dids d)" "Some (d_type x) = t'" "d_type x = CONTAINER \<longrightarrow> (?k, fd_did f) \<notin> (upward (contents d))\<^sup>+" by blast
        with r(2) f self show "c_child r \<noteq> ?k \<and> (?k, c_child r) \<notin> (upward (contents d))\<^sup>+" by (simp add: sel Some)
      qed
    qed
    moreover have "same_types (d\<lparr>contents := contents d @ R\<rparr>) d'" by (rule rfold_same_types [OF add_message_types msgs])
    ultimately show ?thesis by (simp add: well_typed_same)
  qed
qed
text \<open>Archives.\<close>

lemma well_typed_inserts:
  "well_typed d \<Longrightarrow> distinct (map did_of xs) \<Longrightarrow> \<forall>x \<in> set xs. did_of x \<notin> did_of ` set (dids d) \<and> d_type x = FILE \<Longrightarrow>
   well_typed (d\<lparr>dids := dids d @ xs\<rparr>)"
proof (induction xs rule: rev_induct)
  case (snoc x xs)
  have "well_typed (d\<lparr>dids := dids d @ xs\<rparr>)" using snoc.prems by (intro snoc.IH) auto
  then have "well_typed ((d\<lparr>dids := dids d @ xs\<rparr>)\<lparr>dids := dids (d\<lparr>dids := dids d @ xs\<rparr>) @ [x]\<rparr>)"
    by (rule well_typed_insert) (use snoc.prems in auto)
  then show ?case by simp
qed simp

lemma well_typed_archive:
  assumes "well_typed d" and "distinct (map arc_view rows)" and "arc_view ` set rows \<inter> arc_view ` set (archive_contents d) = {}"
    and "\<forall>a \<in> set rows. (ac_parent a, FILE) \<in> set (map did_view (dids d)) \<and> (ac_child a, FILE) \<in> set (map did_view (dids d))"
  shows "well_typed (d\<lparr>archive_contents := archive_contents d @ rows\<rparr>)"
  using typing_add_archive [OF assms(1) [unfolded well_typed_def] assms(2)] assms(3,4) by (force simp: well_typed_def arc_view_def)

lemma archive_content_sel [simp]: "ac_parent (archive_content p f x) = p" "ac_child (archive_content p f x) = fd_did f"
  by (simp_all add: archive_content_def split: option.splits)

lemma archive_file_type: "archive_file e account f = Inr x \<Longrightarrow> d_type x = FILE"
  unfolding archive_file_def by (drule set_columns_kept(1)) simp

lemma archive_rows:
  assumes "rfold (archive_child p ign d) files ([], False, []) = Inr (new, must, rows)"
  shows "distinct (map ac_child rows)" and "\<forall>a \<in> set rows. ac_parent a = p"
    and "\<forall>a \<in> set rows. has_did d (ac_child a) \<longrightarrow> (\<exists>x \<in> set (dids d). did_of x = ac_child a \<and> d_type x = FILE)"
proof -
  let ?I = "\<lambda>(new, must, rows). distinct (map ac_child rows) \<and> (\<forall>a \<in> set rows. ac_parent a = p) \<and>
    (\<forall>a \<in> set rows. has_did d (ac_child a) \<longrightarrow> (\<exists>x \<in> set (dids d). did_of x = ac_child a \<and> d_type x = FILE))"
  have step: "?I acc'" if I: "?I acc" and run: "archive_child p ign d f acc = Inr acc'" for f acc acc'
  proof -
    obtain new must rows where acc: "acc = (new, must, rows)" by (cases acc)
    from run consider "acc' = acc"
      | "fd_did f \<notin> ac_child ` set rows" "find_did d (fd_did f) = None" "acc' = (new @ [f], must, rows @ [archive_content p f None])"
      | x must' where "fd_did f \<notin> ac_child ` set rows" "find_did d (fd_did f) = Some x" "d_type x = FILE" "acc' = (new, must', rows @ [archive_content p f (Some x)])"
      by (auto simp: archive_child_def acc Let_def split: option.splits if_splits)
    then show ?thesis
    proof cases
      case 1
      with I show ?thesis by simp
    next
      case 2
      have "\<not> has_did d (fd_did f)" using find_did_None [OF 2(2)] by (simp add: has_did_iff)
      with I 2(1) show ?thesis unfolding 2(3) acc by auto
    next
      case 3
      with I find_did_Some [OF 3(2)] show ?thesis unfolding 3(4) acc by auto
    qed
  qed
  have "?I (new, must, rows)" by (rule rfold_invariant [OF assms, of ?I]) (simp, rule step)
  then show "distinct (map ac_child rows)" "\<forall>a \<in> set rows. ac_parent a = p"
    "\<forall>a \<in> set rows. has_did d (ac_child a) \<longrightarrow> (\<exists>x \<in> set (dids d). did_of x = ac_child a \<and> d_type x = FILE)" by simp_all
qed

lemma mark_archive_types: "same_types d (mark_archive p d)"
proof -
  let ?f = "\<lambda>x. x\<lparr>d_is_archive := Some True\<rparr>"
  have "same_types d (upd_dids Q ?f (upd_dids P ?f d))" for P Q
    by (rule same_types_trans [of _ "upd_dids P ?f d"]; rule same_types_upd_dids) simp_all
  then show ?thesis by (simp add: mark_archive_def Let_def)
qed

lemma add_files_to_archive_types:
  assumes run: "add_files_to_archive e p files account ign d = Inr d'" and wt: "well_typed d" and p: "p \<in> set (dids d)" "d_type p = FILE"
  shows "well_typed d'"
proof -
  from run obtain new must rows xs where r: "rfold (archive_child (did_of p) ign d) files ([], False, []) = Inr (new, must, rows)"
    and xs: "rmapM (archive_file e account) new = Inr xs" "distinct (map did_of xs)" "\<forall>x \<in> set xs. \<not> has_did d (did_of x)"
    and fresh: "\<forall>a \<in> set rows. \<not> in_archive d (did_of p) (ac_child a) \<and> has_did (d\<lparr>dids := dids d @ xs, archive_contents := archive_contents d @ rows\<rparr>) (ac_child a)"
    and d': "d' = mark_archive p (let d1 = d\<lparr>dids := dids d @ xs, archive_contents := archive_contents d @ rows\<rparr> in
      if must then upd_dids (\<lambda>x. did_of x \<in> fd_did ` set files \<and> d_constituent x \<noteq> Some True) (\<lambda>x. x\<lparr>d_constituent := Some True\<rparr>) d1 else d1)"
    by (auto simp: add_files_to_archive_def rbind_eq_Inr Let_def split: if_splits)
  note rows = archive_rows [OF r]
  have is_file: "d_type x = FILE" if "x \<in> set xs" for x using rmapM_set [OF xs(1)] that archive_file_type by blast
  let ?d1 = "d\<lparr>dids := dids d @ xs\<rparr>"
  have "well_typed ?d1" by (rule well_typed_inserts [OF wt xs(2)]) (use xs(3) is_file in \<open>force simp: has_did_def\<close>)
  then have "well_typed (?d1\<lparr>archive_contents := archive_contents ?d1 @ rows\<rparr>)"
  proof (rule well_typed_archive)
    show "distinct (map arc_view rows)" using rows(1,2) by (auto simp: distinct_map inj_on_def arc_view_def)
    show "arc_view ` set rows \<inter> arc_view ` set (archive_contents ?d1) = {}"
      using fresh rows(2) by (fastforce simp: in_archive_def arc_view_def)
    show "\<forall>a \<in> set rows. (ac_parent a, FILE) \<in> set (map did_view (dids ?d1)) \<and> (ac_child a, FILE) \<in> set (map did_view (dids ?d1))"
    proof
      fix a assume a: "a \<in> set rows"
      have mem: "(did_of x, FILE) \<in> set (map did_view (dids ?d1))" if "x \<in> set (dids d) \<union> set xs" "d_type x = FILE" for x
        using that by (force simp: did_view_def)
      have "ac_parent a = did_of p" using rows(2) a by simp
      then have "(ac_parent a, FILE) \<in> set (map did_view (dids ?d1))" using mem [of p] p by simp
      moreover from fresh a obtain x where x: "x \<in> set (dids d) \<union> set xs" "did_of x = ac_child a" by (auto simp: has_did_def)
      then have "(ac_child a, FILE) \<in> set (map did_view (dids ?d1))"
      proof (cases "x \<in> set xs")
        case True
        with mem [of x] x is_file show ?thesis by simp
      next
        case False
        with x have "has_did d (ac_child a)" by (auto simp: has_did_def)
        with rows(3) a obtain y where "y \<in> set (dids d)" "did_of y = ac_child a" "d_type y = FILE" by blast
        with mem [of y] show ?thesis by simp
      qed
      ultimately show "(ac_parent a, FILE) \<in> set (map did_view (dids ?d1)) \<and> (ac_child a, FILE) \<in> set (map did_view (dids ?d1))" ..
    qed
  qed
  moreover have "same_types (?d1\<lparr>archive_contents := archive_contents ?d1 @ rows\<rparr>) d'"
  proof -
    let ?f = "\<lambda>x. x\<lparr>d_constituent := Some True\<rparr>"
    have "same_types x (if must then upd_dids P ?f x else x)" for x P by (simp add: same_types_upd_dids)
    then show ?thesis unfolding d' Let_def by (intro same_types_trans [OF _ mark_archive_types]) simp
  qed
  ultimately show ?thesis by (simp add: well_typed_same)
qed
lemma attach_loop_types:
  "attach_loop e account ign as parents c = Inr c' \<Longrightarrow> well_typed (cat_db c) \<Longrightarrow> well_typed (cat_db c')"
proof (induction as arbitrary: parents c)
  case Nil
  then have "same_types (cat_db c) (cat_db c')" by (auto simp: record_parents_def intro!: same_types_tables)
  with Nil.prems(2) show ?case by (simp add: well_typed_same)
next
  case (Cons a as)
  let ?cs = "py_dict fd_did (at_children a)"
  from Cons.prems(1) obtain p where row: "get_did_row (cat_db c) (at_did a) = Inr p" by (auto simp: rbind_eq_Inr)
  from get_did_row_Inr [OF row] have p: "p \<in> set (dids (cat_db c))" "did_of p = at_did a" by simp_all
  consider "d_type p = FILE" | "d_type p = DATASET" | "d_type p = CONTAINER" | "d_type p \<notin> {FILE, DATASET, CONTAINER}" by blast
  then show ?case
  proof cases
    case 1
    with Cons.prems(1) row obtain d where d: "add_files_to_archive e p ?cs account ign (cat_db c) = Inr d" "c' = c\<lparr>cat_db := d\<rparr>"
      by (auto simp: rbind_eq_Inr Let_def split: if_splits)
    from add_files_to_archive_types [OF d(1) Cons.prems(2) p(1) 1] show ?thesis by (simp add: d(2))
  next
    case 2
    with Cons.prems(1) row obtain rows c1 ps where c1: "add_files_to_dataset e (did_of p) ?cs account (at_rse_id a) ign c = Inr (rows, c1)"
      and rest: "attach_loop e account ign as ps c1 = Inr c'"
      by (auto simp: rbind_eq_Inr Let_def p(2) split: if_splits)
    have "well_typed (cat_db c1)" by (rule add_files_to_dataset_types [OF c1 Cons.prems(2) _ 2]) (simp add: p(2) row)
    with rest show ?thesis by (rule Cons.IH)
  next
    case 3
    with Cons.prems(1) row obtain d ps where d: "add_collections_to_container e (did_of p) ?cs account ign (cat_db c) = Inr d"
      and rest: "attach_loop e account ign as ps (c\<lparr>cat_db := d\<rparr>) = Inr c'"
      by (auto simp: rbind_eq_Inr Let_def p(2) split: if_splits)
    have "well_typed d" by (rule add_collections_to_container_types [OF d Cons.prems(2) p(1) 3]) simp
    with rest show ?thesis by (intro Cons.IH [OF rest]) simp
  next
    case 4
    with Cons.prems(1) row have "attach_loop e account ign as parents c = Inr c'" by (auto simp: Let_def split: if_splits)
    with Cons.prems(2) show ?thesis by (intro Cons.IH)
  qed
qed

lemma attach_dids_to_dids_types:
  "attach_dids_to_dids e as account ign c = Inr c' \<Longrightarrow> well_typed (cat_db c) \<Longrightarrow> well_typed (cat_db c')"
  unfolding attach_dids_to_dids_def by (rule attach_loop_types)

section \<open>Closing and detaching keep the types\<close>

lemma set_new_dids_types: "set_new_dids ks b d = Inr d' \<Longrightarrow> same_types d d'"
  unfolding set_new_dids_def by (erule rfold_same_types [rotated]) (auto intro: same_types_upd_dids split: if_splits)

lemma messages_types: "rfold (add_message e) ms d = Inr d' \<Longrightarrow> same_types d d'"
  by (rule rfold_same_types [of "add_message e", OF add_message_types])

lemma notifications_types: "generate_rule_notifications e i n d = Inr d' \<Longrightarrow> same_types d d'"
  by (auto simp: generate_rule_notifications_def rbind_eq_Inr intro: messages_types)

lemma close_did_types: "close_did e k d = Inr (v, d') \<Longrightarrow> same_types d d'"
proof -
  assume "close_did e k d = Inr (v, d')"
  then obtain x m f d2 where d2: "add_message (rules_env (rep_env e)) m (d\<lparr>dataset_locks := f\<rparr>) = Inr d2"
    and d': "(if reevaluate_dids_at_close e then set_new_dids [k] (Some True) d2 else Inr d2) = Inr d'"
    unfolding close_did_def by (cases "get_did_row d k") (auto simp: rbind_eq_Inr Let_def case_prod_beta)
  have "same_types d (d\<lparr>dataset_locks := f\<rparr>)" by (rule same_types_tables) simp_all
  also have "same_types (d\<lparr>dataset_locks := f\<rparr>) d2" by (rule add_message_types [OF d2])
  also have "same_types d2 d'" using d' by (auto dest: set_new_dids_types split: if_splits)
  finally show ?thesis .
qed

lemma status_step_types:
  assumes "status_step e k s acc = Inr acc'"
  shows "same_types (snd acc) (snd acc') \<and> (\<exists>b f. fst acc' = Some (b, f) \<and> (\<forall>x. did_view (f x) = did_view x))"
proof (cases "snd s")
  case True
  with assms show ?thesis by (auto simp: status_step_def rbind_eq_Inr dest: add_message_types split: if_splits)
next
  case False
  with assms show ?thesis by (auto simp: status_step_def rbind_eq_Inr dest: close_did_types split: if_splits)
qed

lemma set_status_types:
  assumes "set_status e k ss d = Inr d'"
  shows "same_types d d'"
proof -
  let ?I = "\<lambda>acc. same_types d (snd acc) \<and> (\<forall>b f x. fst acc = Some (b, f) \<longrightarrow> did_view (f x) = did_view x)"
  from assms obtain change d1 where loop: "rfold (status_step e k) ss (None, d) = Inr (change, d1)" by (auto simp: set_status_def rbind_eq_Inr)
  have I: "?I (change, d1)"
  proof (rule rfold_invariant [OF loop, of ?I])
    fix s acc acc' assume "?I acc" and run: "status_step e k s acc = Inr acc'"
    with status_step_types [OF run] show "?I acc'" by (auto intro: same_types_trans)
  qed simp
  from assms loop obtain was f hit where change: "change = Some (was, f)"
    and d': "(if was then rfold (\<lambda>r. generate_rule_notifications (rules_env (rep_env e)) (r_id r) None) (filter (\<lambda>r. r_did r = k) (rules (upd_dids hit f d1)))
      (upd_dids hit f d1) else Inr (upd_dids hit f d1)) = Inr d'"
    by (auto simp: set_status_def Let_def split: if_splits option.splits)
  have "same_types d d1" using I by simp
  also have "same_types d1 (upd_dids hit f d1)" using I change by (intro same_types_upd_dids) simp
  also have "same_types (upd_dids hit f d1) d'"
    using d' rfold_same_types [of "\<lambda>r. generate_rule_notifications (rules_env (rep_env e)) (r_id r) None", OF notifications_types] by (auto split: if_splits)
  finally show ?thesis .
qed
text \<open>A new collection (\<^verbatim>\<open>add_dids\<close>, for a dictionary without \<^verbatim>\<open>rules\<close>): its row, its metadata, its contents and the message that announces it.\<close>

record did_dict =
  nd_did :: did
  nd_type :: did_type
  nd_account :: "iaccount option"
  nd_monotonic :: bool
  nd_lifetime :: "int option"
  nd_meta :: meta
  nd_dids :: "child list"
  nd_rse_id :: "string option"

definition expiry :: "did_env \<Rightarrow> did_dict \<Rightarrow> int option" where
  "expiry e n = (case nd_lifetime n of None \<Rightarrow> None | Some s \<Rightarrow> if s = 0 then None else Some (now e + s))"

definition new_collection :: "did_env \<Rightarrow> iaccount \<Rightarrow> did_dict \<Rightarrow> did_row" where
  "new_collection e account n = \<lparr>d_scope = fst (nd_did n), d_name = snd (nd_did n), d_type = nd_type n, d_open = Some True, d_length = None,
     d_bytes = None, d_events = None, d_lost = False, d_md5 = None, d_adler32 = None, d_created_at = now e,
     d_account = (case nd_account n of Some a \<Rightarrow> a | None \<Rightarrow> account), d_monotonic = nd_monotonic n, d_expired_at = expiry e n,
     d_is_new = Some True, d_guid = None, d_is_archive = None, d_constituent = None, d_purge_replicas = True, d_closed_at = None,
     d_accessed_at = None, d_access_cnt = None\<rparr>"

definition create_message :: "did_env \<Rightarrow> iaccount \<Rightarrow> did_dict \<Rightarrow> message list" where
  "create_message e account n =
     (let k = nd_did n
      in if nd_type n = CONTAINER then [CREATE_CNT (fst account) (vo_entry account) (fst (fst k)) (snd k) (expiry e n)]
         else if nd_type n = DATASET then [CREATE_DTS (fst account) (vo_entry account) (fst (fst k)) (snd k) (expiry e n)]
         else [])"

definition create_did :: "did_env \<Rightarrow> iaccount \<Rightarrow> did_dict \<Rightarrow> catalogue \<Rightarrow> rucio_error + catalogue" where
  "create_did e account n c =
     (if nd_type n = FILE then Inl UnsupportedOperation
      else rbind (insert_did (rep_env e) DataIdentifierAlreadyExists (new_collection e account n) (cat_db c)) (\<lambda>d1.
        rbind (set_file_meta ((plugins (rep_env e))\<lparr>did_conflict := DataIdentifierAlreadyExists\<rparr>) (nd_did n) (nd_meta n) (c\<lparr>cat_db := d1\<rparr>)) (\<lambda>c2.
          rbind (if nd_dids n = [] then Inr c2 else attach_dids e (nd_did n) (nd_dids n) account False (nd_rse_id n) c2) (\<lambda>c3.
            rbind (rfold (add_message (rules_env (rep_env e))) (create_message e account n) (cat_db c3)) (\<lambda>d4. Inr (c3\<lparr>cat_db := d4\<rparr>))))))"

section \<open>The type invariant\<close>

lemma typing_drop_edges:
  assumes "typing T E A" and "set E' \<subseteq> set E" and "distinct (map fst E')"
  shows "typing T E' A"
proof -
  have "up E' \<subseteq> up E" using assms(2) by (auto simp: up_def)
  with assms show ?thesis unfolding typing_def by (meson acyclic_subset subsetD)
qed

lemma well_typed_filter: "well_typed d \<Longrightarrow> well_typed (d\<lparr>contents := filter P (contents d)\<rparr>)"
proof -
  assume "well_typed d"
  then have tp: "typing (map did_view (dids d)) (map row_view (contents d)) (map arc_view (archive_contents d))" by (simp add: well_typed_def)
  then have "distinct (map (fst \<circ> row_view) (contents d))" by (simp add: typing_def)
  then have "distinct (map fst (map row_view (filter P (contents d))))" by (simp add: distinct_map_filter_key)
  then show ?thesis unfolding well_typed_def by (simp, intro typing_drop_edges [OF tp]) auto
qed

lemma detach_one_types:
  assumes "detach_one t p parent child acc = Inr acc'" and "well_typed (fst acc)"
  shows "well_typed (fst acc')"
proof -
  let ?d = "(fst acc)\<lparr>contents := filter (\<lambda>c. c_key c \<noteq> (p, child)) (contents (fst acc))\<rparr>"
  have "same_types ?d (fst acc')"
    using assms(1) by (auto simp: detach_one_def Let_def same_types_def map_view_upd_where did_view_def did_of_def split: if_splits list.splits)
  with well_typed_filter [OF assms(2)] show ?thesis by (simp add: well_typed_same)
qed

lemma detach_dids_types:
  assumes "detach_dids ss t p ks d = Inr d'" and "well_typed d"
  shows "well_typed d'"
proof -
  from assms(1) obtain parent u d2 ms xs where loop: "rfold (detach_one t p parent) ks (d\<lparr>updated_dids := u\<rparr>, []) = Inr (d2, ms)"
    and d': "d' = d2\<lparr>messages := xs\<rparr>"
    by (auto simp: detach_dids_def rbind_eq_Inr Let_def split: list.splits if_splits)
  have "well_typed (fst (d\<lparr>updated_dids := u\<rparr>, [] :: message list))" using assms(2) by (simp add: well_typed_def)
  then have "well_typed (fst (d2, ms))" by (rule rfold_invariant [OF loop, of "\<lambda>acc. well_typed (fst acc)"]) (rule detach_one_types)
  then show ?thesis by (simp add: d' well_typed_def)
qed

lemma create_did_types:
  assumes run: "create_did e account n c = Inr c'" and t: "nd_type n \<in> {FILE, DATASET, CONTAINER}" and wt: "well_typed (cat_db c)"
  shows "well_typed (cat_db c')"
proof -
  from run have "nd_type n \<noteq> FILE" by (auto simp: create_did_def)
  with run obtain d1 c2 c3 d4 pe where d1: "insert_did (rep_env e) DataIdentifierAlreadyExists (new_collection e account n) (cat_db c) = Inr d1"
    and c2: "set_file_meta pe (nd_did n) (nd_meta n) (c\<lparr>cat_db := d1\<rparr>) = Inr c2"
    and c3: "(if nd_dids n = [] then Inr c2 else attach_dids e (nd_did n) (nd_dids n) account False (nd_rse_id n) c2) = Inr c3"
    and d4: "rfold (add_message (rules_env (rep_env e))) (create_message e account n) (cat_db c3) = Inr d4" and c': "c' = c3\<lparr>cat_db := d4\<rparr>"
    by (auto simp: create_did_def rbind_eq_Inr)
  have "well_typed d1" by (rule insert_did_types [OF d1 _ wt]) (use t in \<open>simp add: new_collection_def\<close>)
  then have "well_typed (cat_db c2)" using set_file_meta_types(1) [OF c2] by simp
  then have "well_typed (cat_db c3)" using c3 by (auto simp: attach_dids_def dest: attach_dids_to_dids_types split: if_splits)
  with messages_types [OF d4] show ?thesis by (simp add: c' well_typed_same)
qed

inductive did_step :: "did_env \<Rightarrow> catalogue \<Rightarrow> catalogue \<Rightarrow> bool" for e where
  create: "create_did e account n c = Inr c' \<Longrightarrow> nd_type n \<in> {FILE, DATASET, CONTAINER} \<Longrightarrow> did_step e c c'"
| attach: "attach_dids_to_dids e attachments account ign c = Inr c' \<Longrightarrow> did_step e c c'"
| detach: "detach_dids (services e) t k ks (cat_db c) = Inr d \<Longrightarrow> did_step e c (c\<lparr>cat_db := d\<rparr>)"
| register: "add_replicas (rep_env e) rse files account ign dm c = Inr c' \<Longrightarrow> did_step e c c'"
| status: "set_status e k ss (cat_db c) = Inr d \<Longrightarrow> did_step e c (c\<lparr>cat_db := d\<rparr>)"
| metadata: "set_metadata_bulk (plugins (rep_env e)) k m recursive c = Inr c' \<Longrightarrow> did_step e c c'"

lemma did_step_types:
  assumes "did_step e c c'" and wt: "well_typed (cat_db c)"
  shows "well_typed (cat_db c')"
  using assms(1)
proof cases
  case (create account n)
  then show ?thesis by (intro create_did_types [OF _ _ wt])
next
  case (attach attachments account ign)
  then show ?thesis by (intro attach_dids_to_dids_types [OF _ wt])
next
  case (detach t k ks d)
  then show ?thesis using detach_dids_types [OF _ wt] by simp
next
  case (register rse files account ign dm)
  then show ?thesis by (intro add_replicas_types(1) [OF _ wt])
next
  case (status k ss d)
  from set_status_types [OF status(2)] wt show ?thesis by (simp add: status(1) well_typed_same)
next
  case (metadata k m recursive)
  from set_metadata_bulk_types [OF metadata wt] show ?thesis ..
qed
lemma well_typed_acyclic:
  assumes "well_typed d"
  shows "acyclic_contents (contents d)"
  unfolding acyclic_contents_def
proof (rule exI [of _ "\<lambda>k. card {j. (j, k) \<in> (upward (contents d))\<^sup>+}"], rule ballI)
  let ?r = "upward (contents d)"
  have ac: "acyclic ?r" using assms by (simp add: well_typed_def typing_def)
  fix c assume "c \<in> set (contents d)"
  then have e: "(c_child c, c_parent c) \<in> ?r" by (auto simp: up_contents)
  have "?r = (\<lambda>c. (c_child c, c_parent c)) ` set (contents d)" by (auto simp: up_contents)
  then have "finite (?r\<^sup>+)" by simp
  then have fin: "finite {j. (j, k) \<in> ?r\<^sup>+}" for k
    by (rule finite_subset [rotated, OF finite_imageI [of _ fst]]) force
  have "{j. (j, c_child c) \<in> ?r\<^sup>+} \<subseteq> {j. (j, c_parent c) \<in> ?r\<^sup>+}" using e by (blast intro: trancl_into_trancl)
  moreover have "c_child c \<in> {j. (j, c_parent c) \<in> ?r\<^sup>+}" using e by blast
  moreover have "c_child c \<notin> {j. (j, c_child c) \<in> ?r\<^sup>+}" using ac unfolding acyclic_def by blast
  ultimately show "card {j. (j, c_child c) \<in> ?r\<^sup>+} < card {j. (j, c_parent c) \<in> ?r\<^sup>+}"
    by (intro psubset_card_mono [OF fin]) blast
qed

text \<open>C5: Creating collections (without rules of their own), attaching, detaching, opening and closing DIDs, registering replicas and setting
  metadata keep the catalogue well typed, in whatever order they come: names are unique; every row of the contents carries the types that its
  parent and its child have in the table of DIDs; datasets contain files and containers contain collections; archives and what is in them are files; and no
  collection is above itself. This holds although metadata can rename a DID: one that other rows refer to is refused. Hence the listing of all
  parents ends, and so does the recursive query over containers.\<close>

theorem catalogue_stays_typed:
  assumes "(did_step e)\<^sup>*\<^sup>* c c'" and "well_typed (cat_db c)"
  shows "well_typed (cat_db c') \<and> acyclic_contents (contents (cat_db c')) \<and> (\<forall>k. \<exists>ps. list_all_parent_dids (cat_db c') k = Inr ps)"
proof -
  from assms(1) have wt: "well_typed (cat_db c')"
    by (induction rule: rtranclp_induct) (rule assms(2), erule did_step_types)
  then have "acyclic (upward (contents (cat_db c')))" by (simp add: well_typed_def typing_def)
  with wt show ?thesis by (simp add: well_typed_acyclic list_all_parent_dids_total)
qed

definition demo_did_env :: did_env where
  "demo_did_env = \<lparr>services = [''activemq''], now = 10, preparer_enabled = False, uuid = (\<lambda>n. replicate n (CHR ''u'')), known_rse = (\<lambda>_. True), name_of_rse = (\<lambda>r. r),
     registry = empty_rse_db, attr_region = no_cache, ok_mail = (\<lambda>r. None), did_conflict = RucioException, text_seconds = (\<lambda>_. None), custom_manages_key = (\<lambda>_. True),
     custom_set_metadata_bulk = (\<lambda>_ _. Inr ()), referenced_elsewhere = (\<lambda>_. False), known_scope = (\<lambda>_. True), known_account = (\<lambda>_. True),
     replica_conflict = rucio_error.Duplicate, pfn_path = (\<lambda>_ _ p. Inr p),
     lfn_pfns = (\<lambda>_ _ _ _. Inr []), clean_pfn = (\<lambda>p. p), name_meta = (\<lambda>_. []), reevaluate_dids_at_close = False\<rparr>"

definition demo_child :: "string \<Rightarrow> child" where
  "demo_child k = \<lparr>fd_did = (atlas, k), fd_bytes = None, fd_md5 = None, fd_adler32 = None, fd_account = None, fd_meta = [], fd_pfn = None,
     fd_path = None, fd_state = None, fd_lock_cnt = None, fd_tombstone = None, ch_guid = None, ch_events = None, ch_nulls = []\<rparr>"

definition demo_collection :: "string \<Rightarrow> did_type \<Rightarrow> child list \<Rightarrow> did_dict" where
  "demo_collection k t cs = \<lparr>nd_did = (atlas, k), nd_type = t, nd_account = None, nd_monotonic = False, nd_lifetime = None, nd_meta = [],
     nd_dids = cs, nd_rse_id = None\<rparr>"

definition demo_catalogue :: catalogue where
  "demo_catalogue = \<lparr>cat_db = two_files\<lparr>contents := [content ''D'' DATASET ''f'' FILE (Some 3)]\<rparr>,
     cat_rse_counters = \<lparr>rse_usages = [], updated_rse_counters = [], rse_usage_history = []\<rparr>\<rparr>"

definition demo_root :: iaccount where
  "demo_root = (''root'', ''def'')"

text \<open>Two containers above \<open>D\<close>, and an empty one that is renamed from \<open>N\<close> to \<open>M\<close>.\<close>

definition demo_create :: "did_dict \<Rightarrow> catalogue \<Rightarrow> rucio_error + catalogue" where
  "demo_create n = create_did demo_did_env demo_root n"

definition demo_rename :: "string \<Rightarrow> string \<Rightarrow> catalogue \<Rightarrow> rucio_error + catalogue" where
  "demo_rename k k' = set_metadata_bulk (plugins (rep_env demo_did_env)) (atlas, k) [(''name'', MText k')] False"

definition demo_tree :: catalogue where
  "demo_tree = (case rbind (rfold demo_create [demo_collection ''C2'' CONTAINER [demo_child ''D''],
     demo_collection ''C'' CONTAINER [demo_child ''C2''], demo_collection ''N'' CONTAINER []] demo_catalogue) (demo_rename ''N'' ''M'')
   of Inr c \<Rightarrow> c | Inl _ \<Rightarrow> demo_catalogue)"

lemma demo_catalogue_typed: "well_typed (cat_db demo_catalogue)"
proof -
  have "{(k, p). p = a \<and> k = b} = {(b, a)}" for a b :: did by auto
  then show ?thesis
    by (simp add: well_typed_def typing_def demo_catalogue_def demo_defs content_def did_view_def row_view_def did_of_def c_key_def c_parent_def
        c_child_def edge_typed_def atlas_def up_def acyclic_insert wf_acyclic)
qed

theorem catalogue_stays_typed_witness:
  "(did_step demo_did_env)\<^sup>*\<^sup>* demo_catalogue demo_tree \<and> well_typed (cat_db demo_tree) \<and>
   map d_name (dids (cat_db demo_tree)) = [''D'', ''f'', ''C2'', ''C'', ''M''] \<and>
   map c_key (contents (cat_db demo_tree)) = map (\<lambda>(p, k). ((atlas, p), (atlas, k))) [(''D'', ''f''), (''C2'', ''D''), (''C'', ''C2'')] \<and>
   attach_dids demo_did_env (atlas, ''C2'') [demo_child ''C''] demo_root False None demo_tree = Inl UnsupportedOperation \<and>
   demo_rename ''C2'' ''E'' demo_tree = Inl RucioException"
proof -
  let ?ns = "[demo_collection ''C2'' CONTAINER [demo_child ''D''], demo_collection ''C'' CONTAINER [demo_child ''C2''], demo_collection ''N'' CONTAINER []]"
  have "\<not> isl (rbind (rfold demo_create ?ns demo_catalogue) (demo_rename ''N'' ''M''))" by code_simp
  then obtain c3 where c3: "rfold demo_create ?ns demo_catalogue = Inr c3" and c4: "demo_rename ''N'' ''M'' c3 = Inr demo_tree"
    by (cases "rfold demo_create ?ns demo_catalogue") (auto simp: demo_tree_def elim!: returnsE)
  have "(did_step demo_did_env)\<^sup>*\<^sup>* demo_catalogue c3"
  proof (rule rfold_invariant [OF c3, of "(did_step demo_did_env)\<^sup>*\<^sup>* demo_catalogue"])
    fix n c c' assume n: "n \<in> set ?ns" and c: "(did_step demo_did_env)\<^sup>*\<^sup>* demo_catalogue c" and run: "demo_create n c = Inr c'"
    from n have "nd_type n \<in> {FILE, DATASET, CONTAINER}" by (auto simp: demo_collection_def)
    from did_step.create [OF run [unfolded demo_create_def] this] c show "(did_step demo_did_env)\<^sup>*\<^sup>* demo_catalogue c'" by (rule rtranclp.rtrancl_into_rtrancl [rotated])
  qed simp
  then have steps: "(did_step demo_did_env)\<^sup>*\<^sup>* demo_catalogue demo_tree"
    using did_step.metadata [OF c4 [unfolded demo_rename_def]] by (rule rtranclp.rtrancl_into_rtrancl)
  from catalogue_stays_typed [OF steps demo_catalogue_typed] have "well_typed (cat_db demo_tree)" by simp
  moreover have "map d_name (dids (cat_db demo_tree)) = [''D'', ''f'', ''C2'', ''C'', ''M'']" by code_simp
  moreover have "map c_key (contents (cat_db demo_tree)) = map (\<lambda>(p, k). ((atlas, p), (atlas, k))) [(''D'', ''f''), (''C2'', ''D''), (''C'', ''C2'')]"
    by code_simp
  moreover have "attach_dids demo_did_env (atlas, ''C2'') [demo_child ''C''] demo_root False None demo_tree = Inl UnsupportedOperation" by code_simp
  moreover have "demo_rename ''C2'' ''E'' demo_tree = Inl RucioException" by code_simp
  ultimately show ?thesis using steps by simp
qed
end
