(* ===== verification/Rule_Evaluation.thy ===== *)
theory Rule_Evaluation
  imports DID_Attachment
begin

text \<open>
  The evaluation of the rules on a DID from which children were detached (\<^verbatim>\<open>__evaluate_did_detach\<close> of \<^verbatim>\<open>core/rule.py\<close>, with
  \<^verbatim>\<open>list_files\<close> of \<^verbatim>\<open>core/did.py\<close>). Rules on the DID and on everything above it lose their locks on files that are no
  longer below their DID.

  The listing of files walks down the contents with a stack and does not end on contents with a cycle; \<open>None\<close> stands for
  not returning. On the well-typed catalogues of \<open>DID_Attachment\<close> it returns.
\<close>

section \<open>The files below a DID\<close>

partial_function (option) list_files_loop :: "content_row list \<Rightarrow> (did \<times> did_type) list \<Rightarrow> did list \<Rightarrow> did list option" where
  "list_files_loop cs stack acc = (case stack of
     [] \<Rightarrow> Some acc
   | (k, t) # stack' \<Rightarrow>
       let rows = filter (\<lambda>c. c_parent c = k) cs
       in if t = DATASET then list_files_loop cs stack' (acc @ map c_child rows)
          else list_files_loop cs (rev (map (\<lambda>c. (c_child c, c_child_type c)) rows) @ stack') acc)"

declare list_files_loop.simps [code]

definition list_files :: "'z did_db_scheme \<Rightarrow> did \<Rightarrow> (rucio_error + did list) option" where
  "list_files d k = (case get_did_row d k of
     Inl _ \<Rightarrow> Some (Inl DataIdentifierNotFound)
   | Inr x \<Rightarrow> if d_type x = FILE then Some (Inr [did_of x])
               else map_option Inr (list_files_loop (contents d) [(k, d_type x)] []))"

section \<open>Detached files\<close>

text \<open>\<^verbatim>\<open>force_epoch\<close> is read as text, and any text but the empty one counts as true.\<close>

definition rules_above :: "rule_db \<Rightarrow> did \<Rightarrow> rucio_error + string list" where
  "rules_above d k =
     rbind (list_all_parent_dids d k) (\<lambda>ps.
       Inr (concat (map (\<lambda>k. map r_id (filter (\<lambda>r. r_did r = k) (rules d))) (k # map fst ps))))"

definition drop_dataset_locks :: "string \<Rightarrow> did \<Rightarrow> rule_db \<Rightarrow> rule_db" where
  "drop_dataset_locks i k d =
     d\<lparr>dataset_locks := filter (\<lambda>l. \<not> (dl_rule_id l = i \<and> (dl_scope l, dl_name l) \<notin> set (list_child_datasets d k))) (dataset_locks d)\<rparr>"

definition detached_rule_state :: "rule_env \<Rightarrow> string \<Rightarrow> int \<Rightarrow> rule_db \<Rightarrow> rucio_error + rule_db" where
  "detached_rule_state e i ok_before d =
     rbind (get_rule d i) (\<lambda>r.
       if r_state r = RuleSUSPENDED \<or> r_state r = RuleSTUCK then Inr d
       else if r_locks_replicating_cnt r = 0 \<and> r_locks_stuck_cnt r = 0 then
         (let d1 = upd_rule i (\<lambda>x. x\<lparr>r_state := RuleOK\<rparr>) d;
              d2 = (if r_grouping r \<noteq> GroupNONE then set_dataset_locks i LockOK d1 else d1)
          in rbind (if ok_before = r_locks_ok_cnt r then Inr d2
                    else rbind (generate_rule_notifications e i None d2) (generate_email_for_rule_ok_notification e i)) (\<lambda>d3.
               Inr (release_parent_rule i False d3)))
       else Inr d)"

definition detach_body ::
  "rule_env \<Rightarrow> bool \<Rightarrow> did_type \<Rightarrow> string \<Rightarrow> (did \<times> string) list \<times> replica_lock list \<times> rule_db
     \<Rightarrow> (rucio_error + (did \<times> string) list \<times> replica_lock list \<times> rule_db) option" where
  "detach_body e force_epoch t i s =
     (let (transfers, freed, d) = s
      in case get_rule d i of
           Inl err \<Rightarrow> Some (Inl err)
         | Inr r \<Rightarrow> map_option (\<lambda>x. rbind x (\<lambda>files.
             let gone = filter (\<lambda>l. l_rule_id l = i \<and> l_did l \<notin> set files) (locks d);
                 (ts, d1) = unlock_loop (force_epoch \<or> r_purge_replicas r) gone d;
                 d2 = upd_rule i (fold (\<lambda>l. add_cnt (l_state l) (-1)) gone) d1;
                 d3 = (if t = CONTAINER then drop_dataset_locks i (r_did r) d2 else d2)
             in rbind (detached_rule_state e i (r_locks_ok_cnt r) d3) (\<lambda>d4.
                  Inr (transfers @ ts, freed @ gone, insert_rule_history i True False d4)))) (list_files d (r_did r)))"

fun detach_rules ::
  "rule_env \<Rightarrow> bool \<Rightarrow> did_type \<Rightarrow> string list \<Rightarrow> (did \<times> string) list \<times> replica_lock list \<times> rule_db
     \<Rightarrow> (rucio_error + (did \<times> string) list \<times> replica_lock list \<times> rule_db) option" where
  "detach_rules e force_epoch t [] s = Some (Inr s)"
| "detach_rules e force_epoch t (i # is) s =
     Option.bind (detach_body e force_epoch t i s) (\<lambda>x. case x of
       Inl err \<Rightarrow> Some (Inl err) | Inr s' \<Rightarrow> detach_rules e force_epoch t is s')"

text \<open>After the loop the counters of one account are decreased: that of the rule which the loop visited last.\<close>

definition evaluate_did_detach ::
  "rule_env \<Rightarrow> string option \<Rightarrow> did_row \<Rightarrow> rule_db \<Rightarrow> (rucio_error + (string option \<times> string) list \<times> rule_db) option" where
  "evaluate_did_detach e force_epoch x d =
     (case rules_above d (did_of x) of
        Inl err \<Rightarrow> Some (Inl err)
      | Inr ids \<Rightarrow> map_option (\<lambda>y. rbind y (\<lambda>(ts, freed, d1).
          rbind (if freed = [] then Inr (account_counters d1)
                 else rbind (get_rule d1 (last ids)) (\<lambda>r. decrease_counters (r_account r) freed (account_counters d1))) (\<lambda>c.
            Inr (cancel_transfers_of ts (d1\<lparr>account_counters := c\<rparr>)))))
          (detach_rules e (truthy_text force_epoch) (d_type x) ids ([], [], d)))"

section \<open>The listing of files returns\<close>

lemma list_files_loop_step [simp]:
  "list_files_loop cs [] acc = Some acc"
  "list_files_loop cs ((k, t) # stack) acc =
     (let rows = filter (\<lambda>c. c_parent c = k) cs
      in if t = DATASET then list_files_loop cs stack (acc @ map c_child rows)
         else list_files_loop cs (rev (map (\<lambda>c. (c_child c, c_child_type c)) rows) @ stack) acc)"
  by (simp_all add: list_files_loop.simps [of cs "[]"] list_files_loop.simps [of cs "(k, t) # stack"])

definition files_below :: "content_row list \<Rightarrow> did \<Rightarrow> did set" where
  "files_below cs k = {c_child c |c. c \<in> set cs \<and> c_child_type c = FILE \<and> (c_parent c, k) \<in> (upward cs)\<^sup>*}"

definition typed_by :: "(did \<Rightarrow> did_type) \<Rightarrow> content_row list \<Rightarrow> bool" where
  "typed_by \<tau> cs \<longleftrightarrow> (\<forall>c \<in> set cs. c_child_type c = \<tau> (c_child c) \<and>
     (\<tau> (c_parent c) = DATASET \<and> \<tau> (c_child c) = FILE \<or> \<tau> (c_parent c) = CONTAINER \<and> \<tau> (c_child c) \<noteq> FILE))"

lemma upward_typed: "typed_by \<tau> cs \<Longrightarrow> (m, k) \<in> upward cs \<Longrightarrow>
    \<tau> k = DATASET \<and> \<tau> m = FILE \<or> \<tau> k = CONTAINER \<and> \<tau> m \<noteq> FILE"
  by (auto simp: typed_by_def up_contents)

lemma files_below_dataset:
  assumes ty: "typed_by \<tau> cs" and k: "\<tau> k = DATASET"
  shows "files_below cs k = c_child ` {c \<in> set cs. c_parent c = k}"
proof (intro set_eqI iffI)
  fix f assume "f \<in> files_below cs k"
  then obtain c where c: "c \<in> set cs" "f = c_child c" "(c_parent c, k) \<in> (upward cs)\<^sup>*" by (auto simp: files_below_def)
  from c(3) have "c_parent c = k"
  proof (cases rule: rtranclE)
    case (step m)
    from upward_typed [OF ty step(2)] k have m: "\<tau> m = FILE" by simp
    from step(1) have "c_parent c = m \<or> (\<exists>x. (x, m) \<in> upward cs)" by (cases rule: rtranclE) auto
    moreover have "(c_child c, c_parent c) \<in> upward cs" using c(1) by (auto simp: up_contents)
    ultimately show ?thesis using upward_typed [OF ty] m by (metis did_type.distinct)
  qed
  with c show "f \<in> c_child ` {c \<in> set cs. c_parent c = k}" by blast
next
  fix f assume "f \<in> c_child ` {c \<in> set cs. c_parent c = k}"
  then obtain c where c: "c \<in> set cs" "f = c_child c" "c_parent c = k" by blast
  with ty k have "c_child_type c = FILE" by (auto simp: typed_by_def)
  with c show "f \<in> files_below cs k" by (auto simp: files_below_def)
qed

lemma files_below_other:
  assumes ty: "typed_by \<tau> cs" and k: "\<tau> k \<noteq> DATASET"
  shows "files_below cs k = (\<Union>c \<in> {c \<in> set cs. c_parent c = k}. files_below cs (c_child c))"
proof (intro set_eqI iffI)
  fix f assume "f \<in> files_below cs k"
  then obtain c where c: "c \<in> set cs" "f = c_child c" "c_child_type c = FILE" "(c_parent c, k) \<in> (upward cs)\<^sup>*" by (auto simp: files_below_def)
  with ty have "\<tau> (c_parent c) = DATASET" by (auto simp: typed_by_def)
  with k have "c_parent c \<noteq> k" by blast
  with c(4) obtain m where "(c_parent c, m) \<in> (upward cs)\<^sup>*" "(m, k) \<in> upward cs" by (metis rtranclE)
  then show "f \<in> (\<Union>c \<in> {c \<in> set cs. c_parent c = k}. files_below cs (c_child c))"
    using c by (auto simp: files_below_def up_contents)
next
  fix f assume "f \<in> (\<Union>c \<in> {c \<in> set cs. c_parent c = k}. files_below cs (c_child c))"
  then obtain c b where c: "c \<in> set cs" "c_parent c = k" and b: "b \<in> set cs" "c_child_type b = FILE" "f = c_child b" "(c_parent b, c_child c) \<in> (upward cs)\<^sup>*"
    by (auto simp: files_below_def)
  have "(c_child c, k) \<in> upward cs" using c by (auto simp: up_contents)
  with b(4) have "(c_parent b, k) \<in> (upward cs)\<^sup>*" by (rule rtrancl_into_rtrancl)
  with b show "f \<in> files_below cs k" by (auto simp: files_below_def)
qed

lemma list_files_stack:
  assumes "\<And>x stack acc. x \<in> set xs \<Longrightarrow> \<exists>acc'. list_files_loop cs (x # stack) acc = list_files_loop cs stack acc' \<and> set acc' = set acc \<union> F (fst x)"
  shows "\<exists>acc'. list_files_loop cs (xs @ stack) acc = list_files_loop cs stack acc' \<and> set acc' = set acc \<union> (\<Union>x \<in> set xs. F (fst x))"
  using assms
proof (induction xs arbitrary: acc)
  case (Cons x xs)
  note list_files_loop_step(2) [simp del]
  from Cons.prems [of x "xs @ stack" acc] obtain a where a: "list_files_loop cs (x # xs @ stack) acc = list_files_loop cs (xs @ stack) a"
    "set a = set acc \<union> F (fst x)" by auto
  from Cons.IH [of a] Cons.prems obtain b where "list_files_loop cs (xs @ stack) a = list_files_loop cs stack b"
    "set b = set a \<union> (\<Union>x \<in> set xs. F (fst x))" by auto
  with a show ?case by (intro exI [of _ b]) auto
qed auto

lemma list_files_loop_below:
  assumes ty: "typed_by \<tau> cs" and rank: "\<forall>c \<in> set cs. (rank :: did \<Rightarrow> nat) (c_child c) < rank (c_parent c)"
  shows "\<exists>acc'. list_files_loop cs ((k, \<tau> k) # stack) acc = list_files_loop cs stack acc' \<and> set acc' = set acc \<union> files_below cs k"
proof (induction "rank k" arbitrary: k stack acc rule: less_induct)
  case less
  let ?rows = "filter (\<lambda>c. c_parent c = k) cs"
  show ?case
  proof (cases "\<tau> k = DATASET")
    case True
    then have "list_files_loop cs ((k, \<tau> k) # stack) acc = list_files_loop cs stack (acc @ map c_child ?rows)"
      by (simp add: Let_def)
    moreover have "set (acc @ map c_child ?rows) = set acc \<union> files_below cs k" unfolding files_below_dataset [OF ty True] by auto
    ultimately show ?thesis by blast
  next
    case False
    let ?xs = "rev (map (\<lambda>c. (c_child c, c_child_type c)) ?rows)"
    have "\<exists>acc'. list_files_loop cs (?xs @ stack) acc = list_files_loop cs stack acc' \<and> set acc' = set acc \<union> (\<Union>x \<in> set ?xs. files_below cs (fst x))"
    proof (rule list_files_stack)
      fix x stack acc assume "x \<in> set ?xs"
      then obtain c where c: "c \<in> set cs" "c_parent c = k" "x = (c_child c, c_child_type c)" by auto
      then have "rank (c_child c) < rank k" "x = (c_child c, \<tau> (c_child c))" using rank ty by (auto simp: typed_by_def)
      with less [of "c_child c" stack acc] show "\<exists>acc'. list_files_loop cs (x # stack) acc = list_files_loop cs stack acc' \<and> set acc' = set acc \<union> files_below cs (fst x)"
        by simp
    qed
    moreover have "list_files_loop cs ((k, \<tau> k) # stack) acc = list_files_loop cs (?xs @ stack) acc"
      using False by (simp add: Let_def)
    moreover have "(\<Union>x \<in> set ?xs. files_below cs (fst x)) = files_below cs k" unfolding files_below_other [OF ty False] by auto
    ultimately show ?thesis by simp
  qed
qed

definition type_of :: "'z did_db_scheme \<Rightarrow> did \<Rightarrow> did_type" where
  "type_of d k = (case get_did_row d k of Inl _ \<Rightarrow> FILE | Inr x \<Rightarrow> d_type x)"

lemma type_of_view:
  assumes "distinct (map did_of (dids d))" and "(k, t) \<in> did_view ` set (dids d)"
  shows "type_of d k = t"
proof -
  from assms(2) obtain x where x: "x \<in> set (dids d)" "did_of x = k" "d_type x = t" by (auto simp: did_view_def)
  then obtain y ys where y: "filter (\<lambda>d. did_of d = k) (dids d) = y # ys" by (cases "filter (\<lambda>d. did_of d = k) (dids d)") (auto simp: filter_empty_conv)
  then have "y \<in> set (filter (\<lambda>d. did_of d = k) (dids d))" by simp
  then have "y = x" using x assms(1) by (auto simp: distinct_map dest: inj_onD)
  with y x(3) show ?thesis by (simp add: type_of_def get_did_row_def)
qed

lemma well_typed_by:
  assumes "well_typed d"
  shows "typed_by (type_of d) (contents d)"
  unfolding typed_by_def
proof
  have t: "typing (map did_view (dids d)) (map row_view (contents d)) (map arc_view (archive_contents d))" using assms by (simp add: well_typed_def)
  then have dist: "distinct (map did_of (dids d))" by (simp add: typing_def did_view_def comp_def)
  fix c assume "c \<in> set (contents d)"
  then have "row_view c \<in> set (map row_view (contents d))" by simp
  with t have "edge_typed (set (map did_view (dids d))) (row_view c)" unfolding typing_def by blast
  then have "(c_parent c, c_did_type c) \<in> did_view ` set (dids d)" "(c_child c, c_child_type c) \<in> did_view ` set (dids d)"
    and v: "c_did_type c = DATASET \<and> c_child_type c = FILE \<or> c_did_type c = CONTAINER \<and> (c_child_type c = DATASET \<or> c_child_type c = CONTAINER)"
    by (auto simp: edge_typed_def row_view_def c_key_def)
  from type_of_view [OF dist this(1)] type_of_view [OF dist this(2)] v
  show "c_child_type c = type_of d (c_child c) \<and> (type_of d (c_parent c) = DATASET \<and> type_of d (c_child c) = FILE \<or>
      type_of d (c_parent c) = CONTAINER \<and> type_of d (c_child c) \<noteq> FILE)" by auto
qed

text \<open>The files that a rule on a DID covers.\<close>

definition covered :: "'z did_db_scheme \<Rightarrow> did \<Rightarrow> did set" where
  "covered d k = (if type_of d k = FILE then {k} else files_below (contents d) k)"

lemma list_files_covered:
  assumes "well_typed d"
  shows "list_files d k = Some (Inl DataIdentifierNotFound) \<or> (\<exists>fs. list_files d k = Some (Inr fs) \<and> set fs = covered d k)"
proof (cases "get_did_row d k")
  case (Inr x)
  then have k: "did_of x = k" "type_of d k = d_type x" by (auto simp: get_did_row_def type_of_def filter_eq_Cons_iff split: list.splits)
  from well_typed_acyclic [OF assms] obtain rank :: "did \<Rightarrow> nat" where "\<forall>c \<in> set (contents d). rank (c_child c) < rank (c_parent c)"
    unfolding acyclic_contents_def by blast
  from list_files_loop_below [OF well_typed_by [OF assms] this, of k "[]" "[]"] k(2)
  show ?thesis by (auto simp: list_files_def Inr covered_def k simp del: list_files_loop_step(2))
qed (simp add: list_files_def)

section \<open>What the evaluation leaves alone\<close>

definition rule_keys :: "rule_db \<Rightarrow> (string \<times> did) list" where
  "rule_keys d = map (\<lambda>r. (r_id r, r_did r)) (rules d)"

definition same_frame :: "rule_db \<Rightarrow> rule_db \<Rightarrow> bool" where
  "same_frame d d' \<longleftrightarrow> same_types d d' \<and> rule_keys d' = rule_keys d"

lemma same_frame_refl [simp, intro]: "same_frame d d"
  by (simp add: same_frame_def)

lemma same_frame_trans [trans]: "same_frame a b \<Longrightarrow> same_frame b c \<Longrightarrow> same_frame a c"
  by (auto simp: same_frame_def intro: same_types_trans)

lemma same_frame_tables:
  "dids d' = dids d \<Longrightarrow> contents d' = contents d \<Longrightarrow> archive_contents d' = archive_contents d \<Longrightarrow> rule_keys d' = rule_keys d \<Longrightarrow> same_frame d d'"
  by (simp add: same_frame_def same_types_def)

lemma same_frame_typed: "same_frame d d' \<Longrightarrow> well_typed d' = well_typed d"
  unfolding same_frame_def using well_typed_same by blast

lemma rule_keys_upd: "(\<And>r. r_did (f r) = r_did r \<and> r_id (f r) = r_id r) \<Longrightarrow> rule_keys (upd_rule i f d) = rule_keys d"
  by (simp add: rule_keys_def upd_rule_def upd_where_def)

lemma same_frame_upd_rule: "(\<And>r. r_did (f r) = r_did r \<and> r_id (f r) = r_id r) \<Longrightarrow> same_frame d (upd_rule i f d)"
  by (rule same_frame_tables) (simp_all add: rule_keys_upd, simp_all add: upd_rule_def)

lemma same_frame_history [simp]: "same_frame d (insert_rule_history i a b d)"
  by (rule same_frame_tables) (simp_all add: insert_rule_history_def Let_def rule_keys_def)

lemma same_frame_dataset_locks [simp]: "same_frame d (set_dataset_locks i s d)" "same_frame d (drop_dataset_locks i k d)"
  by (rule same_frame_tables; simp add: set_dataset_locks_def drop_dataset_locks_def rule_keys_def)+

lemma same_frame_message: "add_message e m d = Inr d' \<Longrightarrow> same_frame d d'"
  by (rule same_frame_tables) (auto simp: add_message_def rbind_eq_Inr rule_keys_def)

lemma same_frame_messages: "rfold (add_message e) ms d = Inr d' \<Longrightarrow> same_frame d d'"
proof (rule rfold_invariant [of "add_message e" ms d d' "same_frame d"])
  fix m x y assume "same_frame d x" and "add_message e m x = Inr y"
  then show "same_frame d y" by (blast intro: same_frame_trans same_frame_message)
qed simp_all

lemma same_frame_notifications: "generate_rule_notifications e i n d = Inr d' \<Longrightarrow> same_frame d d'"
  by (auto simp: generate_rule_notifications_def rbind_eq_Inr dest: same_frame_messages)

lemma same_frame_email: "generate_email_for_rule_ok_notification e i d = Inr d' \<Longrightarrow> same_frame d d'"
  by (auto simp: generate_email_for_rule_ok_notification_def rbind_eq_Inr dest: same_frame_message split: if_splits option.splits)

lemma same_frame_release [simp]: "same_frame d (release_parent_rule i b d)"
proof -
  have one: "same_frame d (release_one b r d)" for r d
    unfolding release_one_def by (rule same_frame_trans [OF same_frame_upd_rule same_frame_history]) (simp add: r_did_def)
  have "same_frame d (fold (release_one b) rs d)" for rs
    by (induction rs arbitrary: d) (auto intro: same_frame_trans one)
  then show ?thesis by (simp add: release_parent_rule_def)
qed

lemma unlock_frame:
  assumes "unlock_loop purge ls d = (ts, d')"
  shows "same_frame d d'"
  using assms
proof (induction ls arbitrary: d ts)
  case (Cons l ls)
  obtain c x where step: "delete_lock_and_update_replica purge l d = (c, x)" by fastforce
  then obtain ts' where rest: "unlock_loop purge ls x = (ts', d')" using Cons.prems by (auto split: prod.splits)
  have "same_frame d x"
    by (rule same_frame_tables)
      (use step in \<open>auto simp: delete_lock_and_update_replica_def delete_lock_def Let_def rule_keys_def split: sum.splits\<close>)
  with Cons.IH [OF rest] show ?case by (blast intro: same_frame_trans)
qed simp

lemma covered_same:
  assumes "same_frame d d'"
  shows "covered d' = covered d"
proof -
  have dv: "map did_view (dids d') = map did_view (dids d)" and cv: "map row_view (contents d') = map row_view (contents d)"
    using assms by (simp_all add: same_frame_def same_types_def)
  have t: "type_of x k = (case filter (\<lambda>v. fst v = k) (map did_view (dids x)) of v # _ \<Rightarrow> snd v | [] \<Rightarrow> FILE)" for x :: rule_db and k
    by (simp add: type_of_def get_did_row_def filter_map comp_def did_view_def split: list.splits)
  have f: "files_below cs k = {f. \<exists>p t. ((p, f), t, FILE) \<in> set (map row_view cs) \<and> (p, k) \<in> (upward cs)\<^sup>*}" for cs k
  proof (intro set_eqI iffI)
    fix f assume "f \<in> files_below cs k"
    then obtain c where "c \<in> set cs" "f = c_child c" "c_child_type c = FILE" "(c_parent c, k) \<in> (upward cs)\<^sup>*" by (auto simp: files_below_def)
    then show "f \<in> {f. \<exists>p t. ((p, f), t, FILE) \<in> set (map row_view cs) \<and> (p, k) \<in> (upward cs)\<^sup>*}"
      by (intro CollectI exI [of _ "c_parent c"] exI [of _ "c_did_type c"]) (auto simp: row_view_def c_key_def image_iff)
  next
    fix f assume "f \<in> {f. \<exists>p t. ((p, f), t, FILE) \<in> set (map row_view cs) \<and> (p, k) \<in> (upward cs)\<^sup>*}"
    then show "f \<in> files_below cs k" by (auto simp: files_below_def row_view_def c_key_def)
  qed
  show ?thesis by (intro ext) (simp only: covered_def t f dv cv)
qed

section \<open>The counters after the evaluation\<close>

lemma add_cnt_did [simp]: "r_did (add_cnt s n r) = r_did r" "r_scope (add_cnt s n r) = r_scope r" "r_name (add_cnt s n r) = r_name r"
  by (cases s; simp add: r_did_def)+

lemma fold_drop_cnt:
  "lock_cnt_of s (fold (\<lambda>l. add_cnt (l_state l) (-1)) ls r) = lock_cnt_of s r - int (count_where (\<lambda>l. l_state l = s) ls)"
  "r_id (fold (\<lambda>l. add_cnt (l_state l) (-1)) ls r) = r_id r" "r_state (fold (\<lambda>l. add_cnt (l_state l) (-1)) ls r) = r_state r"
  "r_did (fold (\<lambda>l. add_cnt (l_state l) (-1)) ls r) = r_did r"
  by (induction ls arbitrary: r) (simp_all add: cnt_of_add)

lemma count_where_split: "int (count_where P (filter Q xs)) = int (count_where P xs) - int (count_where P (filter (\<lambda>x. \<not> Q x) xs))"
  by (induction xs) simp_all

lemma lock_total_without:
  "lock_total (filter (\<lambda>l. l_rule_id l = i \<longrightarrow> \<not> Q l) ls) j s =
     lock_total ls j s - (if j = i then int (count_where (\<lambda>l. l_state l = s) (filter (\<lambda>l. l_rule_id l = i \<and> Q l) ls)) else 0)"
  by (induction ls) (auto simp: lock_total_def)

lemma ledger_ok_fewer:
  assumes ok: "ledger_ok d" and reps: "replicas_ok d'" and locks: "locks d' = filter (\<lambda>l. \<not> (l_rule_id l = i \<and> Q l)) (locks d)"
    and rules: "rules d' = upd_where (\<lambda>r. r_id r = i) (fold (\<lambda>l. add_cnt (l_state l) (-1)) (filter (\<lambda>l. l_rule_id l = i \<and> Q l) (locks d))) (rules d)"
  shows "ledger_ok d'"
proof -
  have ids: "map fst (cnt_views d') = map fst (cnt_views d)"
    by (simp add: cnt_views_def rules upd_where_def comp_def fold_drop_cnt if_distrib cong: if_cong)
  have "c s = lock_total (locks d') j s" if v: "(j, c) \<in> set (cnt_views d')" for j c s
  proof -
    from v obtain r where r: "r \<in> set (rules d)" "j = r_id r"
      and c: "c = (\<lambda>s. lock_cnt_of s (if r_id r = i then fold (\<lambda>l. add_cnt (l_state l) (-1)) (filter (\<lambda>l. l_rule_id l = i \<and> Q l) (locks d)) r else r))"
      by (auto simp: cnt_views_def rules upd_where_def cnt_view_def fold_drop_cnt split: if_splits)
    show ?thesis using ledger_ok_rule [OF ok r(1), of s] by (simp add: c locks lock_total_without fold_drop_cnt r(2))
  qed
  moreover have "l_rule_id l \<in> fst ` set (cnt_views d')" if "l \<in> set (locks d')" for l
  proof -
    from that ok have "l_rule_id l \<in> set (map fst (cnt_views d))" by (auto simp: locks ledger_ok_def)
    then show ?thesis unfolding ids [symmetric] by simp
  qed
  moreover have "distinct (map fst (cnt_views d'))" unfolding ids using ok by (simp add: ledger_ok_def)
  ultimately show ?thesis using reps unfolding ledger_ok_def replicas_ok_def by auto
qed

lemma detached_state_effect:
  assumes run: "detached_rule_state e i n d = Inr d'" and ok: "ledger_ok d" and co: "coherent_but i d"
    and ri: "\<And>r. r \<in> set (rules d) \<Longrightarrow> r_id r = i \<Longrightarrow>
      r_locks_replicating_cnt r = 0 \<and> r_locks_stuck_cnt r = 0 \<or> coherent_view (state_view r)"
  shows "same_frame d d'" and "locks d' = locks d" and "rep_views d' = rep_views d" and "ledger_ok d'" and "coherent d'"
proof -
  from run obtain r where r: "get_rule d i = Inr r" by (auto simp: detached_rule_state_def rbind_eq_Inr)
  have only: "x = r" if "x \<in> set (rules d)" "r_id x = i" for x
    using that get_rule_Inr [OF r] ledger_ok_rule_ids [OF ok] by (auto simp: distinct_map dest: inj_onD)
  have "same_frame d d' \<and> locks d' = locks d \<and> rep_views d' = rep_views d \<and> ledger_ok d' \<and> coherent d'"
  proof (cases "r_state r \<noteq> RuleSUSPENDED \<and> r_state r \<noteq> RuleSTUCK \<and> r_locks_replicating_cnt r = 0 \<and> r_locks_stuck_cnt r = 0")
    case True
    define d1 where "d1 = upd_rule i (\<lambda>x. x\<lparr>r_state := RuleOK\<rparr>) d"
    define d2 where "d2 = (if r_grouping r \<noteq> GroupNONE then set_dataset_locks i LockOK d1 else d1)"
    from run True r obtain d3 where d3: "d3 = d2 \<or> (\<exists>x. generate_rule_notifications e i None d2 = Inr x \<and> generate_email_for_rule_ok_notification e i x = Inr d3)"
      and d': "d' = release_parent_rule i False d3"
      by (auto simp: detached_rule_state_def Let_def rbind_eq_Inr d1_def d2_def split: if_splits)
    have f1: "same_frame d d1" unfolding d1_def by (rule same_frame_upd_rule) (simp add: r_did_def)
    have state_cnt: "lock_cnt_of s (x\<lparr>r_state := q\<rparr>) = lock_cnt_of s x" for s x q by (cases s) simp_all
    have s1: "locks d1 = locks d" "rep_views d1 = rep_views d" "cnt_views d1 = cnt_views d"
      by (simp_all add: d1_def upd_rule_def rep_views_def cnt_views_def upd_where_def cnt_view_def comp_def fun_eq_iff)
        (auto simp: state_cnt)
    have c1: "coherent d1" unfolding d1_def
      by (rule coherent_upd [OF co]) (use only True in \<open>auto simp: coherent_view_def state_view_def cnt_view_def\<close>)
    have "same_frame d1 d2" "same_ledger d1 d2" by (simp_all add: d2_def)
    moreover have "same_frame d2 d3"
      using d3 by (auto intro: same_frame_trans dest!: same_frame_notifications same_frame_email)
    moreover have "same_ledger d2 d3"
      using d3 by (auto intro: same_ledger_trans dest!: notifications_ledger email_ledger)
    moreover have "same_frame d3 d'" "same_ledger d3 d'" by (simp_all add: d')
    ultimately have f: "same_frame d1 d'" and l: "same_ledger d1 d'" by (blast intro: same_frame_trans same_ledger_trans)+
    have "ledger_ok d1" using ok s1 by (simp add: ledger_ok_def)
    with l c1 have "ledger_ok d' \<and> coherent d'" by (simp add: same_ledger_ok same_ledger_coherent)
    with f1 f l s1 show ?thesis by (auto simp: same_ledger_def intro: same_frame_trans)
  next
    case False
    with run r have d': "d' = d" by (auto simp: detached_rule_state_def split: if_splits)
    have "coherent_view (state_view x)" if x: "x \<in> set (rules d)" for x
    proof (cases "r_id x = i")
      case True
      then have "x = r" using only x by blast
      with ri [OF x True] False show ?thesis by (auto simp: coherent_view_def state_view_def)
    next
      case False
      with co x show ?thesis by (simp add: coherent_but_def)
    qed
    then show ?thesis using ok by (simp add: d' coherent_def)
  qed
  then show "same_frame d d'" "locks d' = locks d" "rep_views d' = rep_views d" "ledger_ok d'" "coherent d'" by blast+
qed

lemma detach_ledger:
  assumes ok: "ledger_ok d" and run: "unlock_loop purge (filter (\<lambda>l. l_rule_id l = i \<and> Q l) (locks d)) d = (ts, d1)"
    and gone_def: "gone = filter (\<lambda>l. l_rule_id l = i \<and> Q l) (locks d)"
    and d3_def: "d3 = (if t = CONTAINER then drop_dataset_locks i k (upd_rule i (fold (\<lambda>l. add_cnt (l_state l) (-1)) gone) d1)
    else upd_rule i (fold (\<lambda>l. add_cnt (l_state l) (-1)) gone) d1)"
  shows "ledger_ok d3" and "rules d3 = upd_where (\<lambda>r. r_id r = i) (fold (\<lambda>l. add_cnt (l_state l) (-1)) gone) (rules d)"
    and "locks d3 = filter (\<lambda>l. \<not> (l_rule_id l = i \<and> Q l)) (locks d)" and "map fst (rep_views d3) = map fst (rep_views d)"
proof -
  note keys = ledger_ok_lock_keys [OF ok]
  have "set gone \<subseteq> set (locks d)" "distinct (map l_key gone)" unfolding gone_def by (auto intro: distinct_map_filter_key [OF keys])
  note t1 = unlock_loop_tables [OF run [folded gone_def] ledger_ok_replicas [OF ok] this]
  have v: "locks d3 = locks d1" "rep_views d3 = rep_views d1"
    by (simp_all add: d3_def drop_dataset_locks_def upd_rule_def rep_views_def)
  show rules: "rules d3 = upd_where (\<lambda>r. r_id r = i) (fold (\<lambda>l. add_cnt (l_state l) (-1)) gone) (rules d)"
    using t1 by (simp add: d3_def drop_dataset_locks_def upd_rule_def)
  show locks: "locks d3 = filter (\<lambda>l. \<not> (l_rule_id l = i \<and> Q l)) (locks d)"
    using t1 filter_selected [OF keys, of "\<lambda>l. l_rule_id l = i \<and> Q l"] unfolding fold_move_lock_None gone_def by (simp add: v)
  show "map fst (rep_views d3) = map fst (rep_views d)" using t1 by (simp add: v)
  show "ledger_ok d3"
  proof (rule ledger_ok_fewer [OF ok _ locks rules [unfolded gone_def]])
    show "replicas_ok d3" using conjunct1 [OF t1] by (simp add: replicas_ok_def v)
  qed
qed

lemma detach_body_effect:
  assumes run: "detach_body e fe t i (ts, freed, d) = Some (Inr (ts', freed', d'))" and con: "consistent d" and wt: "well_typed d"
  obtains r where "get_rule d i = Inr r" and "consistent d'" and "same_frame d d'"
    and "locks d' = filter (\<lambda>l. l_rule_id l = i \<longrightarrow> l_did l \<in> covered d (r_did r)) (locks d)"
    and "freed' = freed @ filter (\<lambda>l. l_rule_id l = i \<and> l_did l \<notin> covered d (r_did r)) (locks d)"
proof -
  from run obtain r where r: "get_rule d i = Inr r" by (auto simp: detach_body_def split: sum.splits)
  have ok: "ledger_ok d" "backed d" "coherent d" using con by (simp_all add: consistent_def)
  define Q where "Q l \<longleftrightarrow> l_did l \<notin> covered d (r_did r)" for l
  from list_files_covered [OF wt, of "r_did r"] run r obtain fs where fs: "list_files d (r_did r) = Some (Inr fs)" "set fs = covered d (r_did r)"
    by (auto simp: detach_body_def)
  define gone where "gone = filter (\<lambda>l. l_rule_id l = i \<and> l_did l \<notin> set fs) (locks d)"
  obtain ts1 d1 where d1: "unlock_loop (fe \<or> r_purge_replicas r) gone d = (ts1, d1)" by fastforce
  define d2 where "d2 = upd_rule i (fold (\<lambda>l. add_cnt (l_state l) (-1)) gone) d1"
  define d3 where "d3 = (if t = CONTAINER then drop_dataset_locks i (r_did r) d2 else d2)"
  from run r obtain d4 where d4: "detached_rule_state e i (r_locks_ok_cnt r) d3 = Inr d4" and d': "d' = insert_rule_history i True False d4"
    and freed: "freed' = freed @ gone"
    unfolding d3_def d2_def gone_def by (auto simp: detach_body_def Let_def fs(1) d1 [unfolded gone_def] rbind_eq_Inr)
  have gone: "gone = filter (\<lambda>l. l_rule_id l = i \<and> Q l) (locks d)" by (simp add: gone_def Q_def fs(2))
  note t3 = detach_ledger [OF ok(1) d1 [unfolded gone] gone d3_def [unfolded d2_def]]
  note ok3 = t3(1)
  have row: "\<exists>y \<in> set (rules d). r_id x = r_id y \<and> r_state x = r_state y \<and> (\<forall>s. lock_cnt_of s x \<le> lock_cnt_of s y \<and> 0 \<le> lock_cnt_of s x) \<and>
      (r_id x \<noteq> i \<longrightarrow> x = y)" if x: "x \<in> set (rules d3)" for x
  proof -
    from x obtain y where y: "y \<in> set (rules d)" "x = (if r_id y = i then fold (\<lambda>l. add_cnt (l_state l) (-1)) gone y else y)"
      by (auto simp: t3(2) upd_where_def)
    moreover have "0 \<le> lock_cnt_of s x" for s using ledger_ok_rule [OF ok3 x, of s] by (simp add: lock_total_def)
    ultimately show ?thesis by (intro bexI [of _ y]) (auto simp: fold_drop_cnt)
  qed
  have but: "coherent_but i d3" unfolding coherent_but_def using row ok(3) by (metis coherent_def)
  have mine: "r_locks_replicating_cnt x = 0 \<and> r_locks_stuck_cnt x = 0 \<or> coherent_view (state_view x)" if "x \<in> set (rules d3)" "r_id x = i" for x
  proof -
    from row [OF that(1)] obtain y where y: "y \<in> set (rules d)" "r_state x = r_state y" and le: "\<forall>s. lock_cnt_of s x \<le> lock_cnt_of s y \<and> 0 \<le> lock_cnt_of s x" by blast
    from ok(3) y(1) have "coherent_view (state_view y)" by (simp add: coherent_def)
    then show ?thesis using y(2) spec [OF le, of LockREPLICATING] spec [OF le, of LockSTUCK]
      by (cases "r_state y") (auto simp: coherent_view_def state_view_def cnt_view_def)
  qed
  note s = detached_state_effect [OF d4 ok3 but mine]
  have f12: "same_frame d1 d2" unfolding d2_def by (rule same_frame_upd_rule) (simp add: fold_drop_cnt)
  have "same_frame d d1" by (rule unlock_frame [OF d1])
  also have "same_frame d1 d2" by (rule f12)
  also have "same_frame d2 d3" by (simp add: d3_def)
  also have "same_frame d3 d4" by (rule s(1))
  also have "same_frame d4 d'" by (simp add: d')
  finally have frame: "same_frame d d'" .
  have led: "same_ledger d4 d'" by (simp add: d')
  have locks: "locks d' = filter (\<lambda>l. \<not> (l_rule_id l = i \<and> Q l)) (locks d)" using led s(2) by (simp add: same_ledger_def t3(3))
  have "map fst (rep_views d') = map fst (rep_views d)" using led s(3) t3(4) by (simp add: same_ledger_def)
  then have "backed d'" using ok(2) unfolding backed_views locks by (metis (no_types, lifting) filter_is_subset set_map subsetD)
  moreover have "ledger_ok d'" "coherent d'" using led s(4,5) by (simp_all add: same_ledger_ok same_ledger_coherent)
  ultimately have "consistent d'" by (simp add: consistent_def)
  moreover have "locks d' = filter (\<lambda>l. l_rule_id l = i \<longrightarrow> l_did l \<in> covered d (r_did r)) (locks d)" unfolding locks Q_def by (rule filter_cong) auto
  ultimately show ?thesis using that r frame freed unfolding gone Q_def by blast
qed

text \<open>The locks that an evaluation for the rules \<open>ids\<close> keeps.\<close>

definition still_covered :: "rule_db \<Rightarrow> string list \<Rightarrow> replica_lock \<Rightarrow> bool" where
  "still_covered d is l \<longleftrightarrow> (\<forall>r \<in> set (rules d). r_id r \<in> set is \<and> r_id r = l_rule_id l \<longrightarrow> l_did l \<in> covered d (r_did r))"

lemma still_covered_same: "same_frame d d' \<Longrightarrow> still_covered d' is l = still_covered d is l"
proof -
  assume f: "same_frame d d'"
  have v: "still_covered x is l \<longleftrightarrow> (\<forall>(i, k) \<in> set (rule_keys x). i \<in> set is \<and> i = l_rule_id l \<longrightarrow> l_did l \<in> covered x k)" for x
    by (auto simp: still_covered_def rule_keys_def)
  from f have "rule_keys d' = rule_keys d" by (simp add: same_frame_def)
  then show ?thesis unfolding v covered_same [OF f] by simp
qed

lemma detach_rules_Cons:
  assumes "detach_rules e fe t (i # is) s = Some (Inr (ts', freed', d'))"
  obtains ts1 freed1 d1 where "detach_body e fe t i s = Some (Inr (ts1, freed1, d1))" and "detach_rules e fe t is (ts1, freed1, d1) = Some (Inr (ts', freed', d'))"
proof (cases "detach_body e fe t i s")
  case (Some y)
  with assms obtain s' where "y = Inr s'" by (cases y) auto
  with Some assms that show ?thesis by (cases s') auto
qed (use assms in simp)

lemma detach_rules_effect:
  assumes "detach_rules e fe t is (ts, freed, d) = Some (Inr (ts', freed', d'))" and "consistent d" and "well_typed d"
  shows "consistent d' \<and> same_frame d d' \<and> locks d' = filter (still_covered d is) (locks d)"
  using assms
proof (induction "is" arbitrary: ts freed d)
  case Nil
  then show ?case by (simp add: still_covered_def)
next
  case (Cons i "is")
  from detach_rules_Cons [OF Cons.prems(1)] obtain ts1 freed1 d1 where one: "detach_body e fe t i (ts, freed, d) = Some (Inr (ts1, freed1, d1))"
    and rest: "detach_rules e fe t is (ts1, freed1, d1) = Some (Inr (ts', freed', d'))" .
  obtain r where r: "get_rule d i = Inr r" and c1: "consistent d1" and f1: "same_frame d d1"
    and l1: "locks d1 = filter (\<lambda>l. l_rule_id l = i \<longrightarrow> l_did l \<in> covered d (r_did r)) (locks d)"
    using detach_body_effect [OF one Cons.prems(2,3)] by blast
  from Cons.prems(3) have "well_typed d1" by (simp add: same_frame_typed [OF f1])
  note ih = Cons.IH [OF rest c1 this]
  have "distinct (map r_id (rules d))" using Cons.prems(2) by (simp add: consistent_def ledger_ok_rule_ids)
  then have only: "x = r" if "x \<in> set (rules d)" "r_id x = i" for x
    using that get_rule_Inr [OF r] by (auto simp: distinct_map dest: inj_onD)
  have "locks d' = filter (still_covered d is) (filter (\<lambda>l. l_rule_id l = i \<longrightarrow> l_did l \<in> covered d (r_did r)) (locks d))"
    using ih by (simp add: l1 still_covered_same [OF f1])
  also have "\<dots> = filter (still_covered d (i # is)) (locks d)"
    unfolding filter_filter by (rule filter_cong) (use get_rule_Inr [OF r] only in \<open>auto simp: still_covered_def\<close>)
  finally show ?case using ih f1 by (blast intro: same_frame_trans)
qed

lemma detach_rules_returns:
  assumes "consistent d" and "well_typed d"
  shows "\<exists>y. detach_rules e fe t is (ts, freed, d) = Some y"
  using assms
proof (induction "is" arbitrary: ts freed d)
  case (Cons i "is")
  have "\<exists>y. detach_body e fe t i (ts, freed, d) = Some y"
  proof (cases "get_rule d i")
    case (Inr r)
    with list_files_covered [OF Cons.prems(2), of "r_did r"] show ?thesis by (auto simp: detach_body_def)
  qed (simp add: detach_body_def)
  then obtain y where y: "detach_body e fe t i (ts, freed, d) = Some y" by blast
  show ?case
  proof (cases y)
    case (Inr s)
    obtain ts1 freed1 d1 where s: "s = (ts1, freed1, d1)" by (cases s)
    from y Inr s have one: "detach_body e fe t i (ts, freed, d) = Some (Inr (ts1, freed1, d1))" by simp
    obtain c1: "consistent d1" and f1: "same_frame d d1" using detach_body_effect [OF one Cons.prems] by blast
    from Cons.prems(2) have "well_typed d1" by (simp add: same_frame_typed [OF f1])
    with c1 show ?thesis using Cons.IH [of d1 ts1 freed1] by (simp add: y Inr s)
  qed (simp add: y)
qed simp

definition rules_over :: "rule_db \<Rightarrow> did \<Rightarrow> rule set" where
  "rules_over d k = {r \<in> set (rules d). (k, r_did r) \<in> (upward (contents d))\<^sup>*}"

lemma rules_above_set:
  assumes "rules_above d k = Inr ids"
  shows "set ids = r_id ` rules_over d k"
proof -
  from assms obtain ps where ps: "list_all_parent_dids d k = Inr ps"
    and ids: "ids = concat (map (\<lambda>k. map r_id (filter (\<lambda>r. r_did r = k) (rules d))) (k # map fst ps))"
    by (auto simp: rules_above_def rbind_eq_Inr)
  have "r_did r = k \<or> r_did r \<in> fst ` set ps \<longleftrightarrow> (k, r_did r) \<in> (upward (contents d))\<^sup>*" for r
    unfolding list_all_parent_dids_set [OF ps] rtrancl_eq_or_trancl by auto
  then show ?thesis unfolding ids rules_over_def by (auto simp: image_iff)
qed

lemma cancel_catalogue:
  assumes "cancel_transfers_of ts d = (es, d')"
  shows "dids d' = dids d \<and> contents d' = contents d \<and> archive_contents d' = archive_contents d"
proof -
  have one: "dids (archive_request i d) = dids d \<and> contents (archive_request i d) = contents d \<and>
      archive_contents (archive_request i d) = archive_contents d" for i and d :: rule_db
    by (auto simp: archive_request_def split: option.splits)
  have fold: "dids (fold (\<lambda>r. archive_request (rq_id r)) qs d) = dids d \<and> contents (fold (\<lambda>r. archive_request (rq_id r)) qs d) = contents d \<and>
      archive_contents (fold (\<lambda>r. archive_request (rq_id r)) qs d) = archive_contents d" for qs and d :: rule_db
    by (induction qs arbitrary: d) (simp_all add: one)
  have "fold (\<lambda>(k, rse) (es, d). let (es', d') = cancel_request_did k rse TRANSFER d in (es @ es', d')) ts (es0, d) = (es, d') \<Longrightarrow>
      dids d' = dids d \<and> contents d' = contents d \<and> archive_contents d' = archive_contents d" for es0
    by (induction ts arbitrary: es0 d) (auto simp: cancel_request_did_def Let_def fold)
  then show ?thesis using assms by (simp add: cancel_transfers_of_def)
qed

lemma detach_evaluation_run:
  assumes run: "evaluate_did_detach e fe x d = Some (Inr (es, d'))"
  obtains ids ts freed d1 c where "rules_above d (did_of x) = Inr ids"
    and "detach_rules e (truthy_text fe) (d_type x) ids ([], [], d) = Some (Inr (ts, freed, d1))"
    and "cancel_transfers_of ts (d1\<lparr>account_counters := c\<rparr>) = (es, d')"
proof -
  from run obtain ids where ids: "rules_above d (did_of x) = Inr ids" by (auto simp: evaluate_did_detach_def split: sum.splits)
  with run obtain ts freed d1 where loop: "detach_rules e (truthy_text fe) (d_type x) ids ([], [], d) = Some (Inr (ts, freed, d1))"
    and rest: "rbind (if freed = [] then Inr (account_counters d1)
               else rbind (get_rule d1 (last ids)) (\<lambda>r. decrease_counters (r_account r) freed (account_counters d1))) (\<lambda>c.
          Inr (cancel_transfers_of ts (d1\<lparr>account_counters := c\<rparr>))) = Inr (es, d')"
    by (auto simp: evaluate_did_detach_def rbind_eq_Inr)
  from rest obtain c where "cancel_transfers_of ts (d1\<lparr>account_counters := c\<rparr>) = (es, d')" by (auto simp: rbind_eq_Inr)
  with ids loop show ?thesis by (rule that)
qed

lemma detach_evaluation_effect:
  assumes run: "evaluate_did_detach e fe x d = Some (Inr (es, d'))" and con: "consistent d" and wt: "well_typed d"
  shows "consistent d' \<and> same_frame d d' \<and>
    locks d' = filter (\<lambda>l. \<forall>r \<in> rules_over d (did_of x). r_id r = l_rule_id l \<longrightarrow> l_did l \<in> covered d (r_did r)) (locks d)"
proof -
  from detach_evaluation_run [OF run] obtain ids ts freed d1 c where ids: "rules_above d (did_of x) = Inr ids"
    and loop: "detach_rules e (truthy_text fe) (d_type x) ids ([], [], d) = Some (Inr (ts, freed, d1))"
    and fin: "cancel_transfers_of ts (d1\<lparr>account_counters := c\<rparr>) = (es, d')" .
  note l = detach_rules_effect [OF loop con wt]
  note t = cancel_rules [OF fin]
  have led: "same_ledger d1 d'" by (rule same_ledger_tables) (use t in simp_all)
  have "same_frame d1 d'"
    by (rule same_frame_tables) (use t cancel_catalogue [OF fin] in \<open>simp_all add: rule_keys_def\<close>)
  moreover have "still_covered d ids k \<longleftrightarrow> (\<forall>r \<in> rules_over d (did_of x). r_id r = l_rule_id k \<longrightarrow> l_did k \<in> covered d (r_did r))" if "k \<in> set (locks d)" for k
  proof -
    have "distinct (map r_id (rules d))" using con by (simp add: consistent_def ledger_ok_rule_ids)
    then have "inj_on r_id (set (rules d))" by (simp add: distinct_map)
    then have "r_id r \<in> set ids \<longleftrightarrow> r \<in> rules_over d (did_of x)" if "r \<in> set (rules d)" for r
      unfolding rules_above_set [OF ids] by (rule inj_on_image_mem_iff [OF _ that]) (auto simp: rules_over_def)
    moreover have "r \<in> set (rules d)" if "r \<in> rules_over d (did_of x)" for r using that by (simp add: rules_over_def)
    ultimately show ?thesis unfolding still_covered_def by blast
  qed
  then have "filter (still_covered d ids) (locks d) =
      filter (\<lambda>k. \<forall>r \<in> rules_over d (did_of x). r_id r = l_rule_id k \<longrightarrow> l_did k \<in> covered d (r_did r)) (locks d)" by (rule filter_cong [OF refl])
  moreover have "locks d' = locks d1" using t by simp
  moreover have "consistent d'" using l consistent_same [OF led] by blast
  ultimately show ?thesis using l by (metis (no_types, lifting) same_frame_trans)
qed

text \<open>The states of the rules.\<close>

lemma same_ledger_row:
  assumes "same_ledger d d'" and "x \<in> set (rules d)"
  obtains y where "y \<in> set (rules d')" and "state_view y = state_view x"
proof -
  have "state_view x \<in> set (map state_view (rules d'))" using assms by (simp add: same_ledger_def)
  with that show ?thesis by auto
qed

lemma detached_state_rows:
  assumes run: "detached_rule_state e i n d = Inr d'" and ok: "ledger_ok d" and x: "x \<in> set (rules d)"
  obtains y where "y \<in> set (rules d')" and "r_id y = r_id x" and "r_id x \<noteq> i \<Longrightarrow> r_state y = r_state x"
    and "r_id x = i \<Longrightarrow> r_state x \<noteq> RuleSUSPENDED \<Longrightarrow> r_state x \<noteq> RuleSTUCK \<Longrightarrow> r_locks_replicating_cnt x = 0 \<Longrightarrow> r_locks_stuck_cnt x = 0 \<Longrightarrow>
      r_state y = RuleOK"
proof -
  from run obtain r where r: "get_rule d i = Inr r" by (auto simp: detached_rule_state_def rbind_eq_Inr)
  have only: "x = r" if "r_id x = i"
    using that x get_rule_Inr [OF r] ledger_ok_rule_ids [OF ok] by (auto simp: distinct_map dest: inj_onD)
  show ?thesis
  proof (cases "r_state r \<noteq> RuleSUSPENDED \<and> r_state r \<noteq> RuleSTUCK \<and> r_locks_replicating_cnt r = 0 \<and> r_locks_stuck_cnt r = 0")
    case True
    define d1 where "d1 = upd_rule i (\<lambda>x. x\<lparr>r_state := RuleOK\<rparr>) d"
    define d2 where "d2 = (if r_grouping r \<noteq> GroupNONE then set_dataset_locks i LockOK d1 else d1)"
    from run True r obtain d3 where d3: "d3 = d2 \<or> (\<exists>x. generate_rule_notifications e i None d2 = Inr x \<and> generate_email_for_rule_ok_notification e i x = Inr d3)"
      and d': "d' = release_parent_rule i False d3"
      by (auto simp: detached_rule_state_def Let_def rbind_eq_Inr d1_def d2_def split: if_splits)
    have "same_ledger d1 d2" by (simp add: d2_def)
    moreover have "same_ledger d2 d3" using d3 by (auto intro: same_ledger_trans dest!: notifications_ledger email_ledger)
    moreover have "same_ledger d3 d'" by (simp add: d')
    ultimately have l: "same_ledger d1 d'" by (blast intro: same_ledger_trans)
    have "(if r_id x = i then x\<lparr>r_state := RuleOK\<rparr> else x) \<in> set (rules d1)" using x by (auto simp: d1_def upd_rule_def upd_where_def)
    from same_ledger_row [OF l this] obtain y where y: "y \<in> set (rules d')" "state_view y = state_view (if r_id x = i then x\<lparr>r_state := RuleOK\<rparr> else x)" .
    then show ?thesis by (intro that [OF y(1)]) (auto simp: state_view_def cnt_view_def split: if_splits)
  next
    case False
    with run r have "d' = d" by (auto simp: detached_rule_state_def split: if_splits)
    with x only False show ?thesis by (intro that [of x]) auto
  qed
qed

lemma detach_body_rows:
  assumes run: "detach_body e fe t i (ts, freed, d) = Some (Inr (ts', freed', d'))" and con: "consistent d" and wt: "well_typed d"
    and x: "x \<in> set (rules d)" "r_state x \<in> {RuleWAITING_APPROVAL, RuleINJECT, RuleOK}"
  obtains y where "y \<in> set (rules d')" and "r_id y = r_id x" and "r_state y = (if r_id x = i then RuleOK else r_state x)"
proof -
  from run obtain r where r: "get_rule d i = Inr r" by (auto simp: detach_body_def split: sum.splits)
  have ok: "ledger_ok d" "coherent d" using con by (simp_all add: consistent_def)
  from list_files_covered [OF wt, of "r_did r"] run r obtain fs where fs: "list_files d (r_did r) = Some (Inr fs)" by (auto simp: detach_body_def)
  define gone where "gone = filter (\<lambda>l. l_rule_id l = i \<and> l_did l \<notin> set fs) (locks d)"
  obtain ts1 d1 where d1: "unlock_loop (fe \<or> r_purge_replicas r) gone d = (ts1, d1)" by fastforce
  define d2 where "d2 = upd_rule i (fold (\<lambda>l. add_cnt (l_state l) (-1)) gone) d1"
  define d3 where "d3 = (if t = CONTAINER then drop_dataset_locks i (r_did r) d2 else d2)"
  from run r obtain d4 where d4: "detached_rule_state e i (r_locks_ok_cnt r) d3 = Inr d4" and d': "d' = insert_rule_history i True False d4"
    unfolding d3_def d2_def gone_def by (auto simp: detach_body_def Let_def fs d1 [unfolded gone_def] rbind_eq_Inr)
  note ok3 = detach_ledger [OF ok(1) d1 [unfolded gone_def] gone_def d3_def [unfolded d2_def]]
  define x3 where "x3 = (if r_id x = i then fold (\<lambda>l. add_cnt (l_state l) (-1)) gone x else x)"
  have x3: "x3 \<in> set (rules d3)" using x(1) ok3(2) by (auto simp: x3_def upd_where_def)
  have same: "r_id x3 = r_id x" "r_state x3 = r_state x" by (simp_all add: x3_def fold_drop_cnt)
  have le: "lock_cnt_of s x3 \<le> lock_cnt_of s x" for s by (simp add: x3_def fold_drop_cnt)
  have ge: "0 \<le> lock_cnt_of s x3" for s using ledger_ok_rule [OF ok3(1) x3, of s] by (simp add: lock_total_def)
  have "coherent_view (state_view x)" using ok(2) x(1) by (simp add: coherent_def)
  then have "lock_cnt_of LockREPLICATING x = 0" "lock_cnt_of LockSTUCK x = 0"
    using x(2) by (auto simp: coherent_view_def state_view_def cnt_view_def)
  then have zero: "lock_cnt_of LockREPLICATING x3 = 0" "lock_cnt_of LockSTUCK x3 = 0"
    using le [of LockREPLICATING] ge [of LockREPLICATING] le [of LockSTUCK] ge [of LockSTUCK] by linarith+
  obtain y where y: "y \<in> set (rules d4)" "r_id y = r_id x" "r_state y = (if r_id x = i then RuleOK else r_state x)"
    by (rule detached_state_rows [OF d4 ok3(1) x3]) (use zero x(2) in \<open>auto simp: same\<close>)
  have "same_ledger d4 d'" by (simp add: d')
  from same_ledger_row [OF this y(1)] obtain z where "z \<in> set (rules d')" "state_view z = state_view y" .
  with y that show ?thesis by (auto simp: state_view_def cnt_view_def)
qed

lemma detach_rules_rows:
  assumes "detach_rules e fe t is (ts, freed, d) = Some (Inr (ts', freed', d'))" and "consistent d" and "well_typed d"
    and "x \<in> set (rules d)" and "r_state x \<in> {RuleWAITING_APPROVAL, RuleINJECT, RuleOK}"
  shows "\<exists>y \<in> set (rules d'). r_id y = r_id x \<and> r_state y = (if r_id x \<in> set is then RuleOK else r_state x)"
  using assms
proof (induction "is" arbitrary: ts freed d x)
  case (Cons i "is")
  from detach_rules_Cons [OF Cons.prems(1)] obtain ts1 freed1 d1 where one: "detach_body e fe t i (ts, freed, d) = Some (Inr (ts1, freed1, d1))"
    and rest: "detach_rules e fe t is (ts1, freed1, d1) = Some (Inr (ts', freed', d'))" .
  obtain c1: "consistent d1" and f1: "same_frame d d1" using detach_body_effect [OF one Cons.prems(2,3)] by blast
  have wt1: "well_typed d1" using Cons.prems(3) by (simp add: same_frame_typed [OF f1])
  obtain y where y: "y \<in> set (rules d1)" "r_id y = r_id x" "r_state y = (if r_id x = i then RuleOK else r_state x)"
    by (rule detach_body_rows [OF one Cons.prems(2-5)])
  then have "r_state y \<in> {RuleWAITING_APPROVAL, RuleINJECT, RuleOK}" using Cons.prems(5) by auto
  from Cons.IH [OF rest c1 wt1 y(1) this] y show ?case by auto
qed auto

section \<open>The evaluation of detached files\<close>

text \<open>C13: On a well-typed catalogue the evaluation of a DID for detached children returns. When it does not raise, the rules on the DID and on
  everything above it hold locks on exactly those of their files that are still below their DID, the locks of all other
  rules are untouched, and the ledger stays consistent: counters of rules and replicas are exact and the states of
  rules agree with their locks.\<close>

theorem detach_evaluation_exact:
  assumes "consistent d" and "well_typed d"
  shows "\<exists>y. evaluate_did_detach e force_epoch x d = Some y \<and>
    (\<forall>es d'. y = Inr (es, d') \<longrightarrow> consistent d' \<and> well_typed d' \<and>
      locks d' = filter (\<lambda>l. \<forall>r \<in> rules_over d (did_of x). r_id r = l_rule_id l \<longrightarrow> l_did l \<in> covered d (r_did r)) (locks d))"
proof -
  have "acyclic (upward (contents d))" using assms(2) by (simp add: well_typed_def typing_def)
  from list_all_parent_dids_total [OF this, of "did_of x"] obtain ids where "rules_above d (did_of x) = Inr ids" by (auto simp: rules_above_def)
  with detach_rules_returns [OF assms, of e "truthy_text force_epoch" "d_type x" ids "[]" "[]"]
  obtain y where y: "evaluate_did_detach e force_epoch x d = Some y" by (auto simp: evaluate_did_detach_def)
  have "consistent d' \<and> well_typed d' \<and>
      locks d' = filter (\<lambda>l. \<forall>r \<in> rules_over d (did_of x). r_id r = l_rule_id l \<longrightarrow> l_did l \<in> covered d (r_did r)) (locks d)" if "y = Inr (es, d')" for es d'
    using detach_evaluation_effect [OF y [unfolded that] assms] assms(2) same_frame_typed by blast
  with y show ?thesis by blast
qed

text \<open>C24: The evaluation does not look at the state of a rule that waits for approval or for the injector: having no locks, it
  becomes \<^verbatim>\<open>OK\<close> without ever having been approved or applied.\<close>

theorem detach_ends_waiting:
  assumes "evaluate_did_detach e force_epoch x d = Some (Inr (es, d'))" and "consistent d" and "well_typed d"
    and "r \<in> rules_over d (did_of x)" and "r_state r = RuleWAITING_APPROVAL \<or> r_state r = RuleINJECT"
  shows "\<exists>r' \<in> set (rules d'). r_id r' = r_id r \<and> r_state r' = RuleOK \<and> filter (\<lambda>l. l_rule_id l = r_id r) (locks d') = []"
proof -
  from detach_evaluation_run [OF assms(1)] obtain ids ts freed d1 c where ids: "rules_above d (did_of x) = Inr ids"
    and loop: "detach_rules e (truthy_text force_epoch) (d_type x) ids ([], [], d) = Some (Inr (ts, freed, d1))"
    and fin: "cancel_transfers_of ts (d1\<lparr>account_counters := c\<rparr>) = (es, d')" .
  have r: "r \<in> set (rules d)" "r_id r \<in> set ids" using assms(4) rules_above_set [OF ids] by (auto simp: rules_over_def)
  from detach_rules_rows [OF loop assms(2,3) r(1)] assms(5) r(2) obtain r' where r': "r' \<in> set (rules d')" "r_id r' = r_id r" "r_state r' = RuleOK"
    using cancel_rules [OF fin] by auto
  have "coherent_view (state_view r)" using assms(2) r(1) by (simp add: consistent_def coherent_def)
  then have "lock_cnt_of s r = 0" for s using assms(5) by (cases s) (auto simp: coherent_view_def state_view_def cnt_view_def)
  then have none: "lock_total (locks d) (r_id r) s = 0" for s
    using ledger_ok_rule [OF _ r(1), of s] assms(2) by (simp add: consistent_def)
  have "filter (\<lambda>l. l_rule_id l = r_id r) (locks d) = []"
  proof (rule filter_False, rule ballI)
    fix l assume "l \<in> set (locks d)"
    with none [of "l_state l"] show "l_rule_id l \<noteq> r_id r" by (auto simp: lock_total_def)
  qed
  then have "filter (\<lambda>l. l_rule_id l = r_id r) (locks d') = []"
    using detach_evaluation_effect [OF assms(1-3)] by (auto simp: filter_empty_conv)
  with r' show ?thesis by blast
qed

definition detach_demo :: rule_db where
  "detach_demo = (cat_db demo_catalogue)\<lparr>rules := rules (cat_db demo_catalogue) @ [(demo_rule ''W'' RuleWAITING_APPROVAL 0 0 0)\<lparr>r_copies := 2\<rparr>]\<rparr>"

lemma detach_demo_ok: "consistent detach_demo" "well_typed detach_demo"
proof -
  have *: "lock_cnt_of s r = (case s of LockOK \<Rightarrow> r_locks_ok_cnt r | LockREPLICATING \<Rightarrow> r_locks_replicating_cnt r | LockSTUCK \<Rightarrow> r_locks_stuck_cnt r)" for s r
    by (cases s) simp_all
  show "consistent detach_demo"
    unfolding consistent_def ledger_ok_def backed_def coherent_def
    by (auto simp: detach_demo_def demo_catalogue_def demo_defs cnt_views_def cnt_view_def rep_views_def rep_view_def p_key_def l_key_def l_did_def l_replica_def
        lock_total_def replica_total_def coherent_view_def state_view_def * split: lock_state.splits)
  show "well_typed detach_demo" using demo_catalogue_typed by (simp add: detach_demo_def well_typed_def)
qed

theorem detach_evaluation_exact_witness:
  "\<exists>es d'. evaluate_did_detach demo_rule_env None (hd (dids detach_demo)) detach_demo = Some (Inr (es, d')) \<and> consistent d' \<and>
     map l_name (locks detach_demo) = [''f'', ''g''] \<and> map l_name (locks d') = [''f'']"
proof -
  let ?run = "evaluate_did_detach demo_rule_env None (hd (dids detach_demo)) detach_demo"
  have "case ?run of Some (Inr (es, d')) \<Rightarrow> map l_name (locks d') = [''f''] | _ \<Rightarrow> False" by code_simp
  then obtain es d' where run: "?run = Some (Inr (es, d'))" and l: "map l_name (locks d') = [''f'']" by (auto split: option.splits sum.splits)
  from detach_evaluation_exact [OF detach_demo_ok, of demo_rule_env None "hd (dids detach_demo)"] run have "consistent d'" by auto
  moreover have "map l_name (locks detach_demo) = [''f'', ''g'']" by code_simp
  ultimately show ?thesis using run l by (intro exI [of _ es] exI [of _ d']) simp
qed

theorem detach_ends_waiting_witness:
  "\<exists>es d'. evaluate_did_detach demo_rule_env None (hd (dids detach_demo)) detach_demo = Some (Inr (es, d')) \<and>
     map (\<lambda>r. (r_id r, r_state r)) (rules detach_demo) = [(''R'', RuleREPLICATING), (''W'', RuleWAITING_APPROVAL)] \<and>
     (''W'', RuleOK) \<in> (\<lambda>r. (r_id r, r_state r)) ` set (rules d')"
proof -
  let ?run = "evaluate_did_detach demo_rule_env None (hd (dids detach_demo)) detach_demo"
  let ?w = "(demo_rule ''W'' RuleWAITING_APPROVAL 0 0 0)\<lparr>r_copies := 2\<rparr>"
  have "case ?run of Some (Inr (es, d')) \<Rightarrow> True | _ \<Rightarrow> False" by code_simp
  then obtain es d' where run: "?run = Some (Inr (es, d'))" by (auto split: option.splits sum.splits)
  have "?w \<in> rules_over detach_demo (did_of (hd (dids detach_demo)))"
    by (simp add: rules_over_def detach_demo_def demo_catalogue_def demo_defs r_did_def did_of_def)
  moreover have "r_state ?w = RuleWAITING_APPROVAL \<or> r_state ?w = RuleINJECT" by (simp add: demo_rule_def)
  ultimately have "\<exists>r' \<in> set (rules d'). r_id r' = r_id ?w \<and> r_state r' = RuleOK \<and> filter (\<lambda>l. l_rule_id l = r_id ?w) (locks d') = []"
    by (rule detach_ends_waiting [OF run detach_demo_ok])
  moreover have "r_id ?w = ''W''" by (simp add: demo_rule_def)
  moreover have "map (\<lambda>r. (r_id r, r_state r)) (rules detach_demo) = [(''R'', RuleREPLICATING), (''W'', RuleWAITING_APPROVAL)]" by code_simp
  ultimately show ?thesis using run by (intro exI [of _ es] exI [of _ d']) force
qed

end
