(* ===== verification/Heartbeats.thy ===== *)
theory Heartbeats
  imports Thread_Work
begin

text \<open>
  The heartbeats of the daemons (\<^verbatim>\<open>core/heartbeat.py\<close>) and their handler (\<^verbatim>\<open>HeartbeatHandler\<close> of \<^verbatim>\<open>daemons/common.py\<close>).

  Every thread of a daemon has a row in a table. A thread that reports itself gets its number among the live threads of its executable and
  how many there are; \<open>Thread_Work\<close> divides the work by these two numbers. Times are in seconds. The hash of the executable,
  the processes of the host, the order of host names in the database, the local time of the host and the time that a report takes are
  parameters. The table has times in UTC, the handler remembers local times. Errors of the database, which \<^verbatim>\<open>sanity_check\<close>
  ignores, are not modelled.
\<close>

section \<open>Data\<close>

record heartbeat =
  hb_executable :: string
  hb_readable :: "string option"
  hb_hostname :: string
  hb_pid :: int
  hb_thread_id :: int
  hb_thread_name :: "string option"
  hb_payload :: "string option"
  hb_created_at :: int
  hb_updated_at :: int

record hb_env =
  calc_hash :: "string \<Rightarrow> string"
  pid_exists :: "int \<Rightarrow> bool"
  host_less :: "string \<Rightarrow> string \<Rightarrow> bool"
  zone :: "int \<Rightarrow> int"
  latency :: "int \<Rightarrow> int"

record thread =
  th_ident :: int
  th_name :: string

type_synonym worker = "string \<times> int \<times> int"

definition hb_worker :: "heartbeat \<Rightarrow> worker" where
  "hb_worker h = (hb_hostname h, hb_pid h, hb_thread_id h)"

definition hb_key :: "heartbeat \<Rightarrow> string \<times> worker" where
  "hb_key h = (hb_executable h, hb_worker h)"

definition DEFAULT_EXPIRATION_DELAY :: int where
  "DEFAULT_EXPIRATION_DELAY = 24 * 60 * 60"

section \<open>Reports\<close>

definition executable_hash :: "hb_env \<Rightarrow> string \<Rightarrow> string option \<Rightarrow> string" where
  "executable_hash e executable hash_executable =
     (case hash_executable of None \<Rightarrow> calc_hash e executable | Some x \<Rightarrow> if x = [] then calc_hash e executable else x)"

definition thread_key :: "thread option \<Rightarrow> int \<times> string" where
  "thread_key t = (case t of Some t \<Rightarrow> (th_ident t, th_name t) | None \<Rightarrow> (0, ''thread''))"

definition beat :: "int \<Rightarrow> string \<Rightarrow> string \<Rightarrow> worker \<Rightarrow> string \<Rightarrow> string option \<Rightarrow> heartbeat list \<Rightarrow> heartbeat list" where
  "beat now x executable k name payload hbs =
     (if \<exists>h \<in> set hbs. hb_key h = (x, k) then
        upd_where (\<lambda>h. hb_key h = (x, k)) (\<lambda>h. h\<lparr>hb_updated_at := now, hb_payload := payload\<rparr>) hbs
      else hbs @ [\<lparr>hb_executable = x, hb_readable = Some (take 4000 executable), hb_hostname = fst k, hb_pid = fst (snd k),
        hb_thread_id = snd (snd k), hb_thread_name = Some name, hb_payload = payload, hb_created_at = now, hb_updated_at = now\<rparr>])"

fun worker_less :: "hb_env \<Rightarrow> worker \<Rightarrow> worker \<Rightarrow> bool" where
  "worker_less e (h, p, t) (h', p', t') \<longleftrightarrow> host_less e h h' \<or> h = h' \<and> (p < p' \<or> p = p' \<and> t < t')"

fun place_worker :: "hb_env \<Rightarrow> worker \<Rightarrow> worker list \<Rightarrow> worker list" where
  "place_worker e k [] = [k]"
| "place_worker e k (w # ws) = (if worker_less e w k then w # place_worker e k ws else k # w # ws)"

definition live_workers :: "hb_env \<Rightarrow> string \<Rightarrow> int \<Rightarrow> heartbeat list \<Rightarrow> worker list" where
  "live_workers e x since hbs =
     foldr (place_worker e) (remdups (map hb_worker (filter (\<lambda>h. hb_executable h = x \<and> since \<le> hb_updated_at h) hbs))) []"

text \<open>The loop that looks for the own number; a thread that is not in the list gets \<^verbatim>\<open>0\<close>.\<close>

fun thread_slot :: "worker \<Rightarrow> worker list \<Rightarrow> nat \<Rightarrow> nat" where
  "thread_slot k [] r = 0"
| "thread_slot k (w # ws) r = (if w = k then r else thread_slot k ws (Suc r))"

definition live ::
  "hb_env \<Rightarrow> int \<Rightarrow> string \<Rightarrow> string \<Rightarrow> int \<Rightarrow> thread option \<Rightarrow> int \<Rightarrow> string option \<Rightarrow> string option \<Rightarrow> heartbeat list
     \<Rightarrow> (nat \<times> nat) \<times> heartbeat list" where
  "live e now executable hostname pid thread older_than hash_executable payload hbs =
     (let x = executable_hash e executable hash_executable;
          (i, name) = thread_key thread;
          k = (hostname, pid, i);
          hbs1 = beat now x executable k name payload hbs;
          ws = live_workers e x (now - older_than) hbs1
      in ((thread_slot k ws 0, length ws), hbs1))"

section \<open>Removal\<close>

definition expired :: "int \<Rightarrow> int option \<Rightarrow> heartbeat \<Rightarrow> bool" where
  "expired now older_than h =
     (case older_than of None \<Rightarrow> True | Some d \<Rightarrow> if d = 0 then True else hb_updated_at h < now - d)"

definition die ::
  "hb_env \<Rightarrow> int \<Rightarrow> string \<Rightarrow> string \<Rightarrow> int \<Rightarrow> thread \<Rightarrow> int option \<Rightarrow> string option \<Rightarrow> heartbeat list \<Rightarrow> heartbeat list" where
  "die e now executable hostname pid thread older_than hash_executable hbs =
     filter (\<lambda>h. \<not> (hb_key h = (executable_hash e executable hash_executable, hostname, pid, th_ident thread) \<and> expired now older_than h)) hbs"

definition cardiac_arrest :: "int \<Rightarrow> int option \<Rightarrow> heartbeat list \<Rightarrow> heartbeat list" where
  "cardiac_arrest now older_than hbs = filter (\<lambda>h. \<not> expired now older_than h) hbs"

text \<open>\<^verbatim>\<open>_sanity_check\<close>: the rows of dead processes of the host go, of one executable or, where its name is empty, of all.\<close>

definition sanity_check_host ::
  "hb_env \<Rightarrow> int \<Rightarrow> string \<Rightarrow> string \<Rightarrow> string option \<Rightarrow> int \<Rightarrow> heartbeat list \<Rightarrow> heartbeat list" where
  "sanity_check_host e now executable hostname hash_executable expiration_delay hbs =
     (let mine = (\<lambda>h. hb_hostname h = hostname \<and>
            (executable = [] \<or> hb_executable h = executable_hash e executable hash_executable));
          pids = remdups (map hb_pid (filter mine hbs));
          hbs1 = fold (\<lambda>pid hbs. if pid_exists e pid then hbs else filter (\<lambda>h. \<not> (mine h \<and> hb_pid h = pid)) hbs) pids hbs
      in if expiration_delay \<noteq> 0 then cardiac_arrest now (Some expiration_delay) hbs1 else hbs1)"

definition sanity_check ::
  "hb_env \<Rightarrow> int \<Rightarrow> string \<Rightarrow> string \<Rightarrow> string option \<Rightarrow> int option \<Rightarrow> thread option \<Rightarrow> int \<Rightarrow> heartbeat list \<Rightarrow> heartbeat list" where
  "sanity_check e now executable hostname hash_executable pid thread expiration_delay hbs =
     (let hbs1 = sanity_check_host e now executable hostname hash_executable expiration_delay hbs
      in case pid of None \<Rightarrow> hbs1
         | Some p \<Rightarrow> if p = 0 then hbs1 else snd (live e now executable hostname p thread 600 None None hbs1))"

definition list_payload_counts :: "hb_env \<Rightarrow> int \<Rightarrow> string \<Rightarrow> int \<Rightarrow> string option \<Rightarrow> heartbeat list \<Rightarrow> string \<rightharpoonup> nat" where
  "list_payload_counts e now executable older_than hash_executable hbs =
     (let rows = filter (\<lambda>h. hb_executable h = executable_hash e executable hash_executable \<and> now - older_than \<le> hb_updated_at h) hbs
      in (\<lambda>p. if p \<noteq> [] \<and> (\<exists>h \<in> set rows. hb_payload h = Some p)
           then Some (count_where (\<lambda>h. hb_payload h = Some p) rows) else None))"

section \<open>The handler of a daemon\<close>

record handler =
  hh_executable :: string
  hh_renewal_interval :: int
  hh_older_than :: "int option"
  hh_hostname :: string
  hh_pid :: int
  hh_thread :: thread
  last_heart_beat :: "(nat \<times> nat) option"
  last_time :: "int option"
  last_payload :: "string option"

definition HeartbeatHandler :: "string \<Rightarrow> int \<Rightarrow> string \<Rightarrow> int \<Rightarrow> thread \<Rightarrow> handler" where
  "HeartbeatHandler executable renewal_interval hostname pid thread =
     \<lparr>hh_executable = executable, hh_renewal_interval = renewal_interval,
      hh_older_than = (if 0 < renewal_interval then Some (renewal_interval * 10) else None), hh_hostname = hostname, hh_pid = pid,
      hh_thread = thread, last_heart_beat = None, last_time = None, last_payload = None\<rparr>"

text \<open>The time window in which a thread counts as live; \<^verbatim>\<open>600\<close> is the default of \<^verbatim>\<open>live\<close>.\<close>

definition window :: "handler \<Rightarrow> int" where
  "window h = (case hh_older_than h of None \<Rightarrow> 600 | Some d \<Rightarrow> d)"

text \<open>\<^verbatim>\<open>datetime.now()\<close> at a time of UTC.\<close>

definition local_time :: "hb_env \<Rightarrow> int \<Rightarrow> int" where
  "local_time e t = t + zone e t"

definition must_renew :: "hb_env \<Rightarrow> int \<Rightarrow> bool \<Rightarrow> string option \<Rightarrow> handler \<Rightarrow> bool" where
  "must_renew e now force_renew payload h \<longleftrightarrow>
     force_renew \<or> last_heart_beat h = None \<or> last_payload h \<noteq> payload \<or>
     (case last_time h of None \<Rightarrow> True | Some t \<Rightarrow> t < local_time e now - hh_renewal_interval h)"

text \<open>The handler remembers the time after the report.\<close>

definition handler_live :: "hb_env \<Rightarrow> int \<Rightarrow> bool \<Rightarrow> string option \<Rightarrow> handler \<times> heartbeat list \<Rightarrow> (nat \<times> nat) \<times> handler \<times> heartbeat list" where
  "handler_live e now force_renew payload s =
     (let (h, hbs) = s;
          (h1, hbs1) =
            (if must_renew e now force_renew payload h then
               (let (b, hbs') = live e now (hh_executable h) (hh_hostname h) (hh_pid h) (Some (hh_thread h)) (window h) None payload hbs
                in (h\<lparr>last_heart_beat := Some b, last_time := Some (local_time e (now + latency e now)), last_payload := payload\<rparr>, hbs'))
             else (h, hbs))
      in (the (last_heart_beat h1), h1, hbs1))"

definition handler_enter :: "hb_env \<Rightarrow> int \<Rightarrow> handler \<times> heartbeat list \<Rightarrow> handler \<times> heartbeat list" where
  "handler_enter e now s =
     (let (h, hbs) = s
      in snd (handler_live e now False None
           (h, sanity_check e now (hh_executable h) (hh_hostname h) None None None DEFAULT_EXPIRATION_DELAY hbs)))"

definition handler_exit :: "hb_env \<Rightarrow> int \<Rightarrow> handler \<times> heartbeat list \<Rightarrow> heartbeat list" where
  "handler_exit e now s =
     (let (h, hbs) = s
      in if last_heart_beat h = None then hbs
         else die e now (hh_executable h) (hh_hostname h) (hh_pid h) (hh_thread h) None None hbs)"

section \<open>The numbers of the threads\<close>

lemma set_place_worker [simp]: "set (place_worker e k ws) = insert k (set ws)"
  by (induction ws) auto

lemma distinct_place_worker [simp]: "distinct (place_worker e k ws) \<longleftrightarrow> k \<notin> set ws \<and> distinct ws"
  by (induction ws) auto

lemma placed_all: "set (foldr (place_worker e) ks []) = set ks" "distinct (foldr (place_worker e) ks []) = distinct ks"
  by (induction ks) auto

lemma live_workers_set: "set (live_workers e x since hbs) = hb_worker ` {h \<in> set hbs. hb_executable h = x \<and> since \<le> hb_updated_at h}"
  by (simp add: live_workers_def placed_all)

lemma live_workers_distinct [simp]: "distinct (live_workers e x since hbs)"
  by (simp add: live_workers_def placed_all)

lemma thread_slot_found: "k \<in> set ws \<Longrightarrow> r \<le> thread_slot k ws r \<and> thread_slot k ws r < r + length ws \<and> ws ! (thread_slot k ws r - r) = k"
proof (induction ws arbitrary: r)
  case (Cons w ws)
  show ?case
  proof (cases "w = k")
    case False
    with Cons.prems have "k \<in> set ws" by simp
    from Cons.IH [OF this, of "Suc r"] False show ?thesis by (simp add: nth_Cons')
  qed simp
qed simp

lemma thread_slot_at:
  assumes "distinct ws" and "t < length ws"
  shows "thread_slot (ws ! t) ws 0 = t"
proof -
  have "thread_slot (ws ! t) ws 0 < length ws" "ws ! thread_slot (ws ! t) ws 0 = ws ! t"
    using thread_slot_found [OF nth_mem [OF assms(2)], of 0] by simp_all
  then show ?thesis using nth_eq_iff_index_eq [OF assms(1) _ assms(2)] by blast
qed

text \<open>A report counts the reporter in and changes the membership of nobody else.\<close>

lemma beat_live:
  assumes "since \<le> now"
  shows "set (live_workers e x since (beat now x executable k name payload hbs)) = insert k (set (live_workers e x since hbs))"
proof (cases "\<exists>h \<in> set hbs. hb_key h = (x, k)")
  case True
  then obtain h where h: "h \<in> set hbs" "hb_key h = (x, k)" by blast
  let ?f = "\<lambda>h. h\<lparr>hb_updated_at := now, hb_payload := payload\<rparr>"
  have keys: "hb_worker (?f g) = hb_worker g" "hb_executable (?f g) = hb_executable g" for g by (simp_all add: hb_worker_def)
  show ?thesis
  proof (intro set_eqI iffI)
    fix w assume "w \<in> set (live_workers e x since (beat now x executable k name payload hbs))"
    with True show "w \<in> insert k (set (live_workers e x since hbs))"
      by (auto simp: live_workers_set beat_def upd_where_def hb_key_def keys split: if_splits)
  next
    fix w assume "w \<in> insert k (set (live_workers e x since hbs))"
    then consider "w = k" | g where "g \<in> set hbs" "hb_executable g = x" "since \<le> hb_updated_at g" "w = hb_worker g" "w \<noteq> k"
      by (auto simp: live_workers_set)
    then show "w \<in> set (live_workers e x since (beat now x executable k name payload hbs))"
    proof cases
      case 1
      with h have "?f h \<in> set (beat now x executable k name payload hbs)" by (auto simp: beat_def upd_where_def)
      with h assms 1 show ?thesis by (auto simp: live_workers_set hb_key_def keys intro!: image_eqI [of _ _ "?f h"])
    next
      case 2
      with True have "g \<in> set (beat now x executable k name payload hbs)" by (auto simp: beat_def upd_where_def hb_key_def)
      with 2 show ?thesis by (auto simp: live_workers_set)
    qed
  qed
next
  case False
  have app: "set (live_workers e x since (hbs @ [h])) = set (live_workers e x since hbs) \<union> hb_worker ` set (filter (\<lambda>h. hb_executable h = x \<and> since \<le> hb_updated_at h) [h])" for h
    by (auto simp: live_workers_set)
  from False have "beat now x executable k name payload hbs = hbs @ [\<lparr>hb_executable = x, hb_readable = Some (take 4000 executable),
      hb_hostname = fst k, hb_pid = fst (snd k), hb_thread_id = snd (snd k), hb_thread_name = Some name, hb_payload = payload,
      hb_created_at = now, hb_updated_at = now\<rparr>]" by (simp only: beat_def if_False)
  then show ?thesis by (simp only: app) (simp add: assms hb_worker_def)
qed

lemma beat_same:
  assumes keys: "distinct (map hb_key hbs)" and k: "k \<in> set (live_workers e x since hbs)" and "since \<le> now"
  shows "live_workers e x since (beat now x executable k name payload hbs) = live_workers e x since hbs"
proof -
  from k obtain h where h: "h \<in> set hbs" "hb_key h = (x, k)" "since \<le> hb_updated_at h"
    by (auto simp: live_workers_set hb_key_def)
  then have fresh: "since \<le> hb_updated_at g" if "g \<in> set hbs" "hb_key g = (x, k)" for g
    using keys that by (metis distinct_map inj_onD)
  let ?P = "\<lambda>h. hb_executable h = x \<and> since \<le> hb_updated_at h"
  have "map hb_worker (filter ?P (upd_where (\<lambda>h. hb_key h = (x, k)) (\<lambda>h. h\<lparr>hb_updated_at := now, hb_payload := payload\<rparr>) gs))
      = map hb_worker (filter ?P gs)" if "set gs \<subseteq> set hbs" for gs
    using that
  proof (induction gs)
    case (Cons g gs)
    then show ?case using fresh [of g] assms(3) by (auto simp: hb_worker_def)
  qed simp
  moreover have "beat now x executable k name payload hbs
      = upd_where (\<lambda>h. hb_key h = (x, k)) (\<lambda>h. h\<lparr>hb_updated_at := now, hb_payload := payload\<rparr>) hbs"
    using h by (auto simp: beat_def)
  ultimately show ?thesis by (simp add: live_workers_def)
qed

text \<open>The number of a worker, as \<^verbatim>\<open>live\<close> gives it to that worker.\<close>

definition report :: "hb_env \<Rightarrow> int \<Rightarrow> string \<Rightarrow> int \<Rightarrow> heartbeat list \<Rightarrow> worker \<Rightarrow> nat \<times> nat" where
  "report e now executable older_than hbs k =
     fst (live e now executable (fst k) (fst (snd k)) (Some \<lparr>th_ident = snd (snd k), th_name = ''worker''\<rparr>) older_than None None hbs)"

text \<open>C35: Work is divided among the live threads of a daemon without gaps and overlaps: when each of them asks for its number, every item
  falls to exactly one of them (on the databases that hash; on SQLite every thread gets everything).\<close>

theorem work_divided:
  assumes "distinct (map hb_key hbs)" and "0 \<le> older_than" and "dialect \<noteq> SQLite" and "ora_hash_bounded hash"
    and ws: "ws = live_workers e (calc_hash e executable) (now - older_than) hbs" and "ws \<noteq> []"
  shows "\<exists>!k. k \<in> set ws \<and>
    (case report e now executable older_than hbs k of (t, n) \<Rightarrow> in_thread dialect hash (Some n) (Some t) item)"
proof -
  have report: "report e now executable older_than hbs k = (thread_slot k ws 0, length ws)" if "k \<in> set ws" for k
    using beat_same [OF assms(1), of k e "calc_hash e executable" "now - older_than" now executable "''worker''" None] assms(2) that
    by (simp add: report_def live_def executable_hash_def thread_key_def ws Let_def)
  have dist: "distinct ws" by (simp add: ws)
  from assms(6) have "0 < length ws" by simp
  from in_thread_exists [OF assms(4) this] obtain t where t: "t < length ws" "in_thread dialect hash (Some (length ws)) (Some t) item" by blast
  show ?thesis
  proof (rule ex1I [of _ "ws ! t"])
    show "ws ! t \<in> set ws \<and> (case report e now executable older_than hbs (ws ! t) of (t, n) \<Rightarrow> in_thread dialect hash (Some n) (Some t) item)"
      using t report [OF nth_mem [OF t(1)]] thread_slot_at [OF dist t(1)] by simp
  next
    fix k assume k: "k \<in> set ws \<and> (case report e now executable older_than hbs k of (t, n) \<Rightarrow> in_thread dialect hash (Some n) (Some t) item)"
    then have "in_thread dialect hash (Some (length ws)) (Some (thread_slot k ws 0)) item"
      using report [of k] by (simp only: prod.case)
    with thread_slot_found [of k ws 0] k have "thread_slot k ws 0 = t"
      by (intro in_thread_unique [OF assms(3) _ t(1) _ t(2)]) simp_all
    with thread_slot_found [of k ws 0] k show "k = ws ! t" by simp
  qed
qed

section \<open>A thread that reports in time stays live\<close>

text \<open>What other threads do to the table from one time to a later one: they report, leave, and check the processes of their hosts. A check on the host of
  the thread \<open>k\<close> finds the process of \<open>k\<close> running.\<close>

inductive others_run :: "worker \<Rightarrow> int \<Rightarrow> heartbeat list \<Rightarrow> int \<Rightarrow> heartbeat list \<Rightarrow> bool" for k where
  start: "others_run k t hbs t hbs"
| report: "others_run k t0 hbs0 t hbs \<Longrightarrow> t \<le> t' \<Longrightarrow>
    others_run k t0 hbs0 t' (snd (live e t' executable hostname pid thread older_than hash_executable payload hbs))"
| leave: "others_run k t0 hbs0 t hbs \<Longrightarrow> t \<le> t' \<Longrightarrow> (hostname, pid, th_ident thread) \<noteq> k \<Longrightarrow>
    others_run k t0 hbs0 t' (die e t' executable hostname pid thread older_than hash_executable hbs)"
| check: "others_run k t0 hbs0 t hbs \<Longrightarrow> t \<le> t' \<Longrightarrow> (hostname = fst k \<longrightarrow> pid_exists e (fst (snd k))) \<Longrightarrow>
    others_run k t0 hbs0 t' (sanity_check e t' executable hostname hash_executable pid thread DEFAULT_EXPIRATION_DELAY hbs)"

definition beating :: "string \<Rightarrow> worker \<Rightarrow> int \<Rightarrow> heartbeat list \<Rightarrow> bool" where
  "beating x k since hbs \<longleftrightarrow> (\<exists>h \<in> set hbs. hb_key h = (x, k) \<and> since \<le> hb_updated_at h)"

lemma beating_live: "k \<in> set (live_workers e x since hbs) \<longleftrightarrow> beating x k since hbs"
  by (auto simp: live_workers_set beating_def hb_key_def)

lemma beating_beat:
  assumes "beating x k since hbs" and "since \<le> now"
  shows "beating x k since (beat now y executable j name payload hbs)"
proof -
  from assms(1) obtain h where h: "h \<in> set hbs" "hb_key h = (x, k)" "since \<le> hb_updated_at h" by (auto simp: beating_def)
  let ?f = "\<lambda>h. h\<lparr>hb_updated_at := now, hb_payload := payload\<rparr>"
  have key: "hb_key (?f h) = hb_key h" by (simp add: hb_key_def hb_worker_def)
  show ?thesis
  proof (cases "\<exists>g \<in> set hbs. hb_key g = (y, j)")
    case True
    then have eq: "beat now y executable j name payload hbs = upd_where (\<lambda>h. hb_key h = (y, j)) ?f hbs" by (simp only: beat_def if_True)
    show ?thesis
      unfolding beating_def eq
      by (rule bexI [of _ "if hb_key h = (y, j) then ?f h else h"]) (use h assms(2) key in \<open>auto simp: upd_where_def\<close>)
  next
    case False
    then have "set hbs \<subseteq> set (beat now y executable j name payload hbs)" by (auto simp: beat_def)
    with h show ?thesis by (auto simp: beating_def)
  qed
qed

lemma beating_report:
  assumes "beating x k since hbs" and "since \<le> now"
  shows "beating x k since (snd (live e now executable hostname pid thread older_than hash_executable payload hbs))"
  using beating_beat [OF assms] by (simp add: live_def Let_def split: prod.split)

lemma beating_filter: "beating x k since hbs \<Longrightarrow> (\<And>h. hb_key h = (x, k) \<Longrightarrow> since \<le> hb_updated_at h \<Longrightarrow> P h) \<Longrightarrow> beating x k since (filter P hbs)"
  by (auto simp: beating_def)

lemma beating_check:
  assumes "beating x k since hbs" and "now - DEFAULT_EXPIRATION_DELAY \<le> since" and "since \<le> now"
    and alive: "hostname = fst k \<longrightarrow> pid_exists e (fst (snd k))"
  shows "beating x k since (sanity_check e now executable hostname hash_executable pid thread DEFAULT_EXPIRATION_DELAY hbs)"
proof -
  let ?mine = "\<lambda>h. hb_hostname h = hostname \<and> (executable = [] \<or> hb_executable h = executable_hash e executable hash_executable)"
  have one: "beating x k since (if pid_exists e p then gs else filter (\<lambda>h. \<not> (?mine h \<and> hb_pid h = p)) gs)" if "beating x k since gs" for p gs
    by (rule if_split [THEN iffD2]) (use that alive in \<open>auto intro!: beating_filter simp: hb_key_def hb_worker_def\<close>)
  have all: "beating x k since (fold (\<lambda>p gs. if pid_exists e p then gs else filter (\<lambda>h. \<not> (?mine h \<and> hb_pid h = p)) gs) ps gs)"
    if "beating x k since gs" for ps gs
    using that by (induction ps arbitrary: gs) (simp_all only: fold_simps one)
  have "beating x k since (sanity_check_host e now executable hostname hash_executable DEFAULT_EXPIRATION_DELAY hbs)"
    unfolding sanity_check_host_def Let_def cardiac_arrest_def
    by (rule if_split [THEN iffD2])
      (use all [OF assms(1)] assms(2) in \<open>auto intro!: beating_filter simp: expired_def DEFAULT_EXPIRATION_DELAY_def\<close>)
  then show ?thesis
    using beating_report [OF _ assms(3)] by (auto simp: sanity_check_def Let_def split: option.split)
qed

lemma beating_others:
  assumes "others_run k t0 hbs0 t hbs" and "beating x k since hbs0" and "since \<le> t0" and "t \<le> since + DEFAULT_EXPIRATION_DELAY"
  shows "t0 \<le> t \<and> beating x k since hbs"
  using assms
proof (induction rule: others_run.induct)
  case (leave t0 hbs0 t hbs t' hostname pid thread e executable older_than hash_executable)
  then have "beating x k since hbs" by simp
  with leave show ?case unfolding die_def by (auto intro!: beating_filter)
qed (auto intro: beating_report beating_check)

definition hh_worker :: "handler \<Rightarrow> worker" where
  "hh_worker h = (hh_hostname h, hh_pid h, th_ident (hh_thread h))"

text \<open>What the handler remembers is in the table. The local time is \<open>z\<close> ahead of UTC and a report takes at most \<open>d\<close> seconds.\<close>

definition handler_ok :: "hb_env \<Rightarrow> int \<Rightarrow> int \<Rightarrow> handler \<Rightarrow> heartbeat list \<Rightarrow> bool" where
  "handler_ok e z d h hbs \<longleftrightarrow>
     (case last_time h of None \<Rightarrow> True | Some t \<Rightarrow> beating (calc_hash e (hh_executable h)) (hh_worker h) (t - z - d) hbs)"

definition steady :: "hb_env \<Rightarrow> int \<Rightarrow> int \<Rightarrow> bool" where
  "steady e z d \<longleftrightarrow> (\<forall>t. zone e t = z \<and> 0 \<le> latency e t \<and> latency e t \<le> d)"

text \<open>C36: Take a handler with a positive renewal interval, on a host whose local time keeps its distance from UTC (no change of daylight
  saving) and whose reports take at most \<open>d\<close> seconds. From a call of the handler on, the thread is counted as live by every thread of its
  daemon, whatever the others do (report, leave, or clean up), for the shorter of ten intervals and one day, less one
  interval and less \<open>d\<close>. For an interval of up to 8640 seconds these are nine intervals less \<open>d\<close>. For longer ones the
  limit is the clean-up of rows that are a day old: a daemon that renews its row once a day is not protected from it.\<close>

theorem handler_stays_live:
  assumes "handler_live e now force_renew payload (h, hbs) = (b, h', hbs')" and "handler_ok e z d h hbs" and clocks: "steady e z d"
    and h: "0 < hh_renewal_interval h" "hh_older_than h = Some (hh_renewal_interval h * 10)"
    and "others_run (hh_worker h) now hbs' t hbs''"
    and t: "t \<le> now + min (window h) DEFAULT_EXPIRATION_DELAY - hh_renewal_interval h - d"
  shows "handler_ok e z d h' hbs' \<and> hh_worker h \<in> set (live_workers e' (calc_hash e (hh_executable h)) (t - window h) hbs'')"
proof -
  let ?x = "calc_hash e (hh_executable h)" and ?k = "hh_worker h"
  have clock: "local_time e s = s + z" "0 \<le> latency e s" "latency e s \<le> d" for s using clocks by (simp_all add: steady_def local_time_def)
  have d: "0 \<le> d" using clock(2,3) [of now] by linarith
  have ok: "handler_ok e z d h' hbs' \<and> beating ?x ?k (now - hh_renewal_interval h - d) hbs'"
  proof (cases "must_renew e now force_renew payload h")
    case True
    then have h': "hbs' = snd (live e now (hh_executable h) (hh_hostname h) (hh_pid h) (Some (hh_thread h)) (window h) None payload hbs)"
      and same: "last_time h' = Some (now + latency e now + z)" "hh_executable h' = hh_executable h" "hh_worker h' = hh_worker h"
      using assms(1) by (auto simp: handler_live_def Let_def hh_worker_def clock(1) split: prod.splits)
    have "?k \<in> set (live_workers e ?x now hbs')"
      unfolding h' using beat_live [of now now e ?x "hh_executable h" ?k "th_name (hh_thread h)" payload hbs]
      by (simp add: live_def Let_def executable_hash_def thread_key_def hh_worker_def)
    then have now: "beating ?x ?k now hbs'" by (simp add: beating_live)
    then have "beating ?x ?k (now - hh_renewal_interval h - d) hbs'" using h(1) d by (force simp: beating_def)
    moreover have "beating ?x ?k (now + latency e now + z - z - d) hbs'" using now clock(3) [of now] by (force simp: beating_def)
    ultimately show ?thesis by (simp add: handler_ok_def same)
  next
    case False
    then obtain t0 where "last_time h = Some t0" "now + z - hh_renewal_interval h \<le> t0" and "h' = h" "hbs' = hbs"
      using assms(1) by (auto simp: must_renew_def handler_live_def Let_def clock(1) split: option.splits)
    with assms(2) show ?thesis by (force simp: handler_ok_def beating_def)
  qed
  then have "beating ?x ?k (now - hh_renewal_interval h - d) hbs''"
    using beating_others [OF assms(6), of ?x "now - hh_renewal_interval h - d"] h(1) d t by simp
  then have "beating ?x ?k (t - window h) hbs''" using t by (force simp: beating_def)
  with ok show ?thesis by (simp add: beating_live)
qed

section \<open>Two threads\<close>

definition demo_hb_env :: hb_env where
  "demo_hb_env = \<lparr>calc_hash = id, pid_exists = (\<lambda>_. True), host_less = (\<lambda>_ _. False), zone = (\<lambda>_. 3600), latency = (\<lambda>_. 2)\<rparr>"

definition demo_beats :: "heartbeat list" where
  "demo_beats = snd (live demo_hb_env 5 ''judge'' ''h'' 2 None 600 None None (snd (live demo_hb_env 0 ''judge'' ''h'' 1 None 600 None None [])))"

theorem work_divided_witness:
  "live_workers demo_hb_env ''judge'' (-590) demo_beats = [(''h'', 1, 0), (''h'', 2, 0)] \<and>
   (\<exists>!k. k \<in> set [(''h'', 1, 0), (''h'', 2, 0)] \<and>
      (case report demo_hb_env 10 ''judge'' 600 demo_beats k of (t, n) \<Rightarrow>
         in_thread PostgreSQL \<lparr>ora_hash = (\<lambda>_ _. 0), hash_number = (\<lambda>_. length)\<rparr> (Some n) (Some t) ''abc''))"
proof -
  have ws: "[(''h'', 1, 0), (''h'', 2, 0)] = live_workers demo_hb_env ''judge'' (-590) demo_beats"
    and keys: "distinct (map hb_key demo_beats)" by code_simp+
  have *: "[(''h'', 1, 0), (''h'', 2, 0)] = live_workers demo_hb_env (calc_hash demo_hb_env ''judge'') (10 - 600) demo_beats"
    using ws by (simp add: demo_hb_env_def)
  have "ora_hash_bounded \<lparr>ora_hash = (\<lambda>_ _. 0), hash_number = (\<lambda>_. length)\<rparr>" by (simp add: ora_hash_bounded_def)
  then show ?thesis by (intro conjI ws [symmetric] work_divided [OF keys _ _ _ *]) simp_all
qed

definition demo_handler :: handler where
  "demo_handler = HeartbeatHandler ''judge'' 60 ''h'' 1 \<lparr>th_ident = 7, th_name = ''t''\<rparr>"

theorem handler_stays_live_witness:
  "(''h'', 1, 7) \<in> set (live_workers demo_hb_env ''judge'' (-42)
     (sanity_check demo_hb_env 558 ''judge'' ''h'' None None None DEFAULT_EXPIRATION_DELAY
        (snd (snd (handler_live demo_hb_env 20 False None (demo_handler, demo_beats))))))"
proof -
  obtain b h' hbs' where run: "handler_live demo_hb_env 20 False None (demo_handler, demo_beats) = (b, h', hbs')" by (metis prod_cases3)
  have start: "handler_ok demo_hb_env 3600 2 demo_handler demo_beats" "steady demo_hb_env 3600 2" "0 < hh_renewal_interval demo_handler"
    "hh_older_than demo_handler = Some (hh_renewal_interval demo_handler * 10)"
    by (simp_all add: handler_ok_def demo_handler_def HeartbeatHandler_def steady_def demo_hb_env_def)
  have "others_run (hh_worker demo_handler) 20 hbs' 558 (sanity_check demo_hb_env 558 ''judge'' ''h'' None None None DEFAULT_EXPIRATION_DELAY hbs')"
    by (rule others_run.check [OF others_run.start]) (simp_all add: demo_hb_env_def)
  from handler_stays_live [OF run start this, of demo_hb_env] run show ?thesis
    by (simp add: demo_handler_def HeartbeatHandler_def hh_worker_def window_def demo_hb_env_def DEFAULT_EXPIRATION_DELAY_def)
qed

end
