(* ===== verification/Daemon_Loop.thy ===== *)
theory Daemon_Loop
  imports Priority_Queue Heartbeats
begin

text \<open>
  The main loop of the daemons (\<^verbatim>\<open>daemons/common.py\<close>): \<^verbatim>\<open>_activity_looper\<close>, which chooses the next activity, and \<^verbatim>\<open>db_workqueue\<close>, which
  calls the work of a daemon on it.

  The generator \<^verbatim>\<open>_activity_looper\<close> is a state with a step to the next \<^verbatim>\<open>yield\<close> (\<open>looper_next\<close>) and one for the value sent to it (\<open>looper_send\<close>).
  The clock is part of the state: waiting and the work of the daemon advance it, everything else takes no time. The work, \<^verbatim>\<open>run_once_fnc\<close>, is
  a parameter. A loop that has not ended after a number of rounds is in state \<open>Running\<close>.
\<close>

section \<open>The next activity\<close>

record looper =
  lo_once :: bool
  lo_sleep_time :: int
  lo_queue :: "(string option, int) pqueue"

definition activity_keys :: "string list option \<Rightarrow> string option list" where
  "activity_keys activities = (case activities of None \<Rightarrow> [None] | Some as \<Rightarrow> if as = [] then [None] else map Some as)"

definition activity_looper :: "bool \<Rightarrow> int \<Rightarrow> string list option \<Rightarrow> int \<Rightarrow> looper" where
  "activity_looper once sleep_time activities now =
     \<lparr>lo_once = once, lo_sleep_time = sleep_time, lo_queue = fold (\<lambda>a. pq_setitem a now) (activity_keys activities) pq_init\<rparr>"

definition looper_next :: "int \<Rightarrow> looper \<Rightarrow> ((string option \<times> int) \<times> looper) option" where
  "looper_next now l =
     (case pq_top (lo_queue l) of
        None \<Rightarrow> None
      | Some a \<Rightarrow>
          if lo_once l then map_option (\<lambda>(_, q). ((a, 0), l\<lparr>lo_queue := q\<rparr>)) (pq_pop (lo_queue l))
          else map_option (\<lambda>t. ((a, t - now), l)) (pq_getitem (lo_queue l) a))"

definition looper_send :: "string option \<Rightarrow> int \<Rightarrow> bool \<Rightarrow> int \<Rightarrow> looper \<Rightarrow> looper" where
  "looper_send a actual_exe_time must_sleep now l =
     (if lo_once l then l
      else l\<lparr>lo_queue := pq_setitem a
        (if must_sleep then now + max 1 (lo_sleep_time l - (now - actual_exe_time)) else now + 1) (lo_queue l)\<rparr>)"

section \<open>The loop\<close>

datatype 'v outcome = ReturnedNone | ReturnedBool bool | ReturnedPair bool "'v option" | Raised

text \<open>\<open>stop_at\<close> is the time at which the event \<^verbatim>\<open>graceful_stop\<close> is set. The work gets the activity, the time, the handler and the heartbeats, and
  gives its outcome and how long it took.\<close>

record ('s, 'v) daemon_env =
  dm_hb :: hb_env
  stop_at :: "int option"
  dm_once :: bool
  dm_executable :: string
  dm_hostname :: string
  dm_pid :: int
  dm_thread :: thread
  partition_wait_time :: int
  dm_sleep_time :: int
  dm_activities :: "string list option"
  run_once_fnc :: "string option \<Rightarrow> int \<Rightarrow> handler \<times> heartbeat list \<Rightarrow> 's \<Rightarrow> 'v outcome \<times> nat \<times> (handler \<times> heartbeat list) \<times> 's"

text \<open>\<open>dm_runs\<close> records the calls of the work: activity, start and whether it asked to sleep.\<close>

record ('s, 'v) daemon =
  dm_now :: int
  dm_looper :: looper
  dm_handler :: "handler \<times> heartbeat list"
  dm_state :: 's
  dm_yielded :: "'v list"
  dm_runs :: "(string option \<times> int \<times> bool) list"

datatype 'd loop_result = Running 'd | Ended 'd | Failed 'd

definition stop_set :: "('s, 'v) daemon_env \<Rightarrow> int \<Rightarrow> bool" where
  "stop_set e now = (case stop_at e of None \<Rightarrow> False | Some t \<Rightarrow> t \<le> now)"

definition stop_wait :: "('s, 'v) daemon_env \<Rightarrow> int \<Rightarrow> int \<Rightarrow> int" where
  "stop_wait e t now = (case stop_at e of None \<Rightarrow> now + t | Some s \<Rightarrow> if s \<le> now then now else min (now + t) s)"

definition beat_once :: "('s, 'v) daemon_env \<Rightarrow> bool \<Rightarrow> ('s, 'v) daemon \<Rightarrow> ('s, 'v) daemon" where
  "beat_once e force_renew d = d\<lparr>dm_handler := snd (handler_live (dm_hb e) (dm_now d) force_renew None (dm_handler d))\<rparr>"

text \<open>What the loop reads off the value that the work returned: whether to sleep and what to yield; an exception leaves \<^verbatim>\<open>must_sleep = True\<close>.\<close>

fun sleep_of :: "'v outcome \<Rightarrow> bool" where
  "sleep_of (ReturnedBool b) = b"
| "sleep_of (ReturnedPair b v) = b"
| "sleep_of _ = True"

fun value_of :: "'v outcome \<Rightarrow> 'v list" where
  "value_of (ReturnedPair b (Some v)) = [v]"
| "value_of _ = []"

definition work_once :: "('s, 'v) daemon_env \<Rightarrow> string option \<Rightarrow> ('s, 'v) daemon \<Rightarrow> 'v outcome \<times> ('s, 'v) daemon" where
  "work_once e a d =
     (let (r, n, h, s) = run_once_fnc e a (dm_now d) (dm_handler d) (dm_state d)
      in (r, d\<lparr>dm_now := dm_now d + int n, dm_handler := h, dm_state := s, dm_yielded := dm_yielded d @ value_of r,
               dm_runs := dm_runs d @ [(a, dm_now d, sleep_of r)]\<rparr>))"

fun daemon_loop :: "('s, 'v) daemon_env \<Rightarrow> nat \<Rightarrow> string option \<Rightarrow> int \<Rightarrow> ('s, 'v) daemon \<Rightarrow> ('s, 'v) daemon loop_result" where
  "daemon_loop e 0 a t d = Running d"
| "daemon_loop e (Suc n) a t d =
     (if stop_set e (dm_now d) then Ended d
      else let d1 = beat_once e False (if 0 < t then d\<lparr>dm_now := stop_wait e t (dm_now d)\<rparr> else d);
               (r, d2) = work_once e a d1;
               l = looper_send a (dm_now d1) (sleep_of r) (dm_now d2) (dm_looper d2)
           in if r = Raised \<and> dm_once e then Failed d2
              else case looper_next (dm_now d2) l of
                     None \<Rightarrow> Ended d2
                   | Some ((a', t'), l') \<Rightarrow> daemon_loop e n a' t' (d2\<lparr>dm_looper := l'\<rparr>))"

fun loop_exit :: "('s, 'v) daemon_env \<Rightarrow> ('s, 'v) daemon loop_result \<Rightarrow> ('s, 'v) daemon loop_result" where
  "loop_exit e (Running d) = Running d"
| "loop_exit e (Ended d) = Ended (d\<lparr>dm_handler := (fst (dm_handler d), handler_exit (dm_hb e) (dm_now d) (dm_handler d))\<rparr>)"
| "loop_exit e (Failed d) = Failed (d\<lparr>dm_handler := (fst (dm_handler d), handler_exit (dm_hb e) (dm_now d) (dm_handler d))\<rparr>)"

definition daemon_start :: "('s, 'v) daemon_env \<Rightarrow> int \<Rightarrow> heartbeat list \<Rightarrow> 's \<Rightarrow> ('s, 'v) daemon" where
  "daemon_start e now hbs s =
     (let h = HeartbeatHandler (dm_executable e) (dm_sleep_time e - 1) (dm_hostname e) (dm_pid e) (dm_thread e);
          now1 = (if partition_wait_time e \<noteq> 0 then stop_wait e (partition_wait_time e) now else now);
          d = \<lparr>dm_now = now1, dm_looper = activity_looper (dm_once e) (dm_sleep_time e) (dm_activities e) now1,
               dm_handler = handler_enter (dm_hb e) now (h, hbs), dm_state = s, dm_yielded = [], dm_runs = []\<rparr>
      in if partition_wait_time e \<noteq> 0 then beat_once e True d else d)"

definition db_workqueue :: "('s, 'v) daemon_env \<Rightarrow> nat \<Rightarrow> int \<Rightarrow> heartbeat list \<Rightarrow> 's \<Rightarrow> ('s, 'v) daemon loop_result" where
  "db_workqueue e n now hbs s =
     (let d = daemon_start e now hbs s
      in loop_exit e (case looper_next (dm_now d) (dm_looper d) of
           None \<Rightarrow> Ended d
         | Some ((a, t), l) \<Rightarrow> daemon_loop e n a t (d\<lparr>dm_looper := l\<rparr>)))"

section \<open>The queue of the looper\<close>

definition looper_ok :: "looper \<Rightarrow> bool" where
  "looper_ok l \<longleftrightarrow> pq_wf (lo_queue l)"

lemma fold_setitem: "fold (\<lambda>a. pq_setitem a now) as q = fold (\<lambda>(k, p). pq_setitem k p) (map (\<lambda>a. (a, now)) as) q"
  by (induction as arbitrary: q) simp_all

lemma map_of_const: "map_of (map (\<lambda>a. (a, v)) as) k = (if k \<in> set as then Some v else None)"
  by (induction as) auto

lemma looper_init:
  "looper_ok (activity_looper once sleep_time activities now)"
  "pq_getitem (lo_queue (activity_looper once sleep_time activities now)) a = (if a \<in> set (activity_keys activities) then Some now else None)"
  by (simp_all add: looper_ok_def activity_looper_def fold_setitem pq_getitem_init rev_map map_of_const
      pq.inv_puts [OF pq_wf_init] pq.lookup_puts [OF pq_wf_init])

lemma looper_sel [simp]:
  "lo_once (activity_looper once sleep_time activities now) = once" "lo_sleep_time (activity_looper once sleep_time activities now) = sleep_time"
  by (simp_all add: activity_looper_def)

lemma looper_next_once:
  assumes "looper_ok l" and "lo_once l"
  shows "(case looper_next now l of
      None \<Rightarrow> dom (pq_getitem (lo_queue l)) = {}
    | Some ((a, t), l') \<Rightarrow> t = 0 \<and> looper_ok l' \<and> lo_once l' \<and> lo_sleep_time l' = lo_sleep_time l \<and>
        a \<in> dom (pq_getitem (lo_queue l)) \<and> dom (pq_getitem (lo_queue l')) = dom (pq_getitem (lo_queue l)) - {a})"
proof (cases "pq_pop (lo_queue l)")
  case None
  then have "looper_next now l = None" using assms pq_top_pop [of "lo_queue l"] by (simp add: looper_next_def looper_ok_def)
  with assms None show ?thesis by (simp add: looper_ok_def pq_pop_None)
next
  case (Some kq)
  obtain k q where kq: "kq = (k, q)" by (cases kq)
  with Some assms have "pq_wf q" "dom (pq_getitem q) = dom (pq_getitem (lo_queue l)) - {k} \<and> k \<in> dom (pq_getitem (lo_queue l))"
    using pq_pop_Some [of "lo_queue l" k q] pq.pop_dom [of "lo_queue l" k q] by (simp_all add: looper_ok_def)
  with Some assms kq show ?thesis by (simp add: looper_next_def looper_ok_def pq_top_pop)
qed

lemma looper_next_loop:
  assumes "looper_ok l" and "\<not> lo_once l" and "looper_next now l = Some ((a, t), l')"
  shows "l' = l \<and> pq_getitem (lo_queue l) a = Some (now + t)"
  using assms by (auto simp: looper_next_def split: option.splits)

lemma looper_send_loop:
  assumes "looper_ok l" and "\<not> lo_once l"
  shows "looper_ok (looper_send a actual b now l)" and "\<not> lo_once (looper_send a actual b now l)"
    and "lo_sleep_time (looper_send a actual b now l) = lo_sleep_time l"
    and "pq_getitem (lo_queue (looper_send a actual b now l)) = (pq_getitem (lo_queue l))
      (a \<mapsto> (if b then now + max 1 (lo_sleep_time l - (now - actual)) else now + 1))"
  using assms pq_setitem_effect [of "lo_queue l"] by (simp_all add: looper_send_def looper_ok_def)

section \<open>One pass over the activities\<close>

lemma beat_once_sel [simp]:
  "dm_now (beat_once e f d) = dm_now d" "dm_looper (beat_once e f d) = dm_looper d" "dm_runs (beat_once e f d) = dm_runs d"
  by (simp_all add: beat_once_def)

lemma work_once_sel:
  assumes "work_once e a d = (r, d')"
  shows "dm_now d \<le> dm_now d'" and "dm_looper d' = dm_looper d" and "dm_runs d' = dm_runs d @ [(a, dm_now d, sleep_of r)]"
  using assms by (auto simp: work_once_def Let_def split: prod.splits)

text \<open>Without the event and without exceptions, a daemon that runs once ends after one round for each activity.\<close>

lemma daemon_loop_once:
  assumes "stop_at e = None" and once: "dm_once e" and quiet: "\<And>a now h s. fst (run_once_fnc e a now h s) \<noteq> Raised"
    and "looper_ok (dm_looper d)" and "lo_once (dm_looper d)" and "card (dom (pq_getitem (lo_queue (dm_looper d)))) < n"
    and "finite (dom (pq_getitem (lo_queue (dm_looper d))))" and "a \<notin> dom (pq_getitem (lo_queue (dm_looper d)))"
  shows "\<exists>d'. daemon_loop e n a t d = Ended d' \<and> (\<exists>rs. dm_runs d' = dm_runs d @ rs \<and> distinct (map fst rs) \<and>
    set (map fst rs) = insert a (dom (pq_getitem (lo_queue (dm_looper d)))))"
  using assms(4-)
proof (induction n arbitrary: a t d)
  case (Suc n)
  define d1 where "d1 = beat_once e False (if 0 < t then d\<lparr>dm_now := stop_wait e t (dm_now d)\<rparr> else d)"
  obtain r d2 where w: "work_once e a d1 = (r, d2)" by (cases "work_once e a d1")
  have r: "r \<noteq> Raised" using quiet [of a "dm_now d1" "dm_handler d1" "dm_state d1"] w by (auto simp: work_once_def Let_def split: prod.splits)
  have d1: "dm_looper d1 = dm_looper d" "dm_runs d1 = dm_runs d" by (simp_all add: d1_def)
  have d2: "dm_looper d2 = dm_looper d" "dm_runs d2 = dm_runs d @ [(a, dm_now d1, sleep_of r)]"
    using work_once_sel [OF w] d1 by simp_all
  have nostop: "\<not> stop_set e (dm_now d)" by (simp add: stop_set_def assms(1))
  let ?l = "dm_looper d" and ?dom = "dom (pq_getitem (lo_queue (dm_looper d)))"
  have send: "looper_send a (dm_now d1) (sleep_of r) (dm_now d2) (dm_looper d2) = ?l"
    using Suc.prems(2) by (simp add: looper_send_def d2)
  have step: "daemon_loop e (Suc n) a t d = (case looper_next (dm_now d2) ?l of
      None \<Rightarrow> Ended d2 | Some ((a', t'), l') \<Rightarrow> daemon_loop e n a' t' (d2\<lparr>dm_looper := l'\<rparr>))"
    using nostop r send w by (simp add: d1_def [symmetric])
  note next_ok = looper_next_once [OF Suc.prems(1,2), of "dm_now d2"]
  show ?case
  proof (cases "looper_next (dm_now d2) ?l")
    case None
    with next_ok step d2 show ?thesis by (intro exI [of _ d2]) simp
  next
    case (Some x)
    obtain a' t' l' where x: "x = ((a', t'), l')" by (metis prod.exhaust)
    with Some next_ok have n: "looper_ok l'" "lo_once l'" "a' \<in> ?dom" "dom (pq_getitem (lo_queue l')) = ?dom - {a'}" by simp_all
    let ?d = "d2\<lparr>dm_looper := l'\<rparr>"
    from Suc.prems(3,4) n have "card (dom (pq_getitem (lo_queue (dm_looper ?d)))) < n"
      using card_Diff1_less [of ?dom a'] by simp
    with Suc.IH [of ?d a' t'] n Suc.prems(4) obtain d' rs where run: "daemon_loop e n a' t' ?d = Ended d'"
      and rs: "dm_runs d' = dm_runs d2 @ rs" "distinct (map fst rs)" "set (map fst rs) = insert a' (?dom - {a'})" by auto
    from rs(3) n(3) have "set (map fst rs) = ?dom" by auto
    with rs(1,2) d2(2) Suc.prems(5) have "dm_runs d' = dm_runs d @ ((a, dm_now d1, sleep_of r) # rs)" "distinct (map fst ((a, dm_now d1, sleep_of r) # rs))"
      "set (map fst ((a, dm_now d1, sleep_of r) # rs)) = insert a ?dom" by simp_all
    with run step Some x show ?thesis by (intro exI [of _ d'] conjI exI [of _ "(a, dm_now d1, sleep_of r) # rs"]) simp_all
  qed
qed simp

lemma daemon_start_sel:
  "dm_looper (daemon_start e now hbs s) = activity_looper (dm_once e) (dm_sleep_time e) (dm_activities e) (dm_now (daemon_start e now hbs s))"
  "dm_runs (daemon_start e now hbs s) = []"
  by (simp_all add: daemon_start_def Let_def)

text \<open>C37: A daemon that is started to run once, is not stopped and whose work raises nothing ends, after it did its work exactly once for each of its
  activities (once without an activity, where it has none).\<close>

theorem runs_each_activity_once:
  assumes "dm_once e" and "stop_at e = None" and "\<And>a now h s. fst (run_once_fnc e a now h s) \<noteq> Raised"
    and "length (activity_keys (dm_activities e)) < n"
  shows "\<exists>d. db_workqueue e n now hbs s = Ended d \<and> distinct (map fst (dm_runs d)) \<and> set (map fst (dm_runs d)) = set (activity_keys (dm_activities e))"
proof -
  let ?d = "daemon_start e now hbs s" and ?ks = "set (activity_keys (dm_activities e))"
  have l: "looper_ok (dm_looper ?d)" "lo_once (dm_looper ?d)" "dom (pq_getitem (lo_queue (dm_looper ?d))) = ?ks"
    using assms(1) by (auto simp: daemon_start_sel looper_init looper_sel split: if_splits)
  have "?ks \<noteq> {}" by (auto simp: activity_keys_def split: option.splits)
  with looper_next_once [OF l(1,2), of "dm_now ?d"] l(3) obtain a t l' where x: "looper_next (dm_now ?d) (dm_looper ?d) = Some ((a, t), l')"
    by (cases "looper_next (dm_now ?d) (dm_looper ?d)") auto
  with looper_next_once [OF l(1,2), of "dm_now ?d"] l(3) have n: "looper_ok l'" "lo_once l'" "a \<in> ?ks" "dom (pq_getitem (lo_queue l')) = ?ks - {a}" by simp_all
  have "card (?ks - {a}) < n"
    using assms(4) card_length [of "activity_keys (dm_activities e)"] card_Diff1_le [of ?ks a] by linarith
  then obtain d' rs where run: "daemon_loop e n a t (?d\<lparr>dm_looper := l'\<rparr>) = Ended d'" and rs: "dm_runs d' = rs" "distinct (map fst rs)" "set (map fst rs) = insert a (?ks - {a})"
    using daemon_loop_once [OF assms(2,1,3), of "?d\<lparr>dm_looper := l'\<rparr>" n a t] n by (auto simp: daemon_start_sel)
  then have "db_workqueue e n now hbs s = loop_exit e (Ended d')" by (simp add: db_workqueue_def Let_def x)
  with rs n(3) show ?thesis by (auto simp: insert_absorb)
qed

section \<open>The pause between two runs\<close>

text \<open>Runs of the same activity, where the first asked to sleep, are a sleep time apart, unless the event was set.\<close>

definition spaced :: "('s, 'v) daemon_env \<Rightarrow> (string option \<times> int \<times> bool) list \<Rightarrow> bool" where
  "spaced e rs \<longleftrightarrow> (\<forall>i j. i < j \<longrightarrow> j < length rs \<longrightarrow> fst (rs ! i) = fst (rs ! j) \<longrightarrow> snd (snd (rs ! i)) \<longrightarrow>
     fst (snd (rs ! i)) + dm_sleep_time e \<le> fst (snd (rs ! j)) \<or> stop_set e (fst (snd (rs ! j))))"

text \<open>The time in the queue is late enough for all runs that were made.\<close>

definition scheduled :: "('s, 'v) daemon_env \<Rightarrow> int \<Rightarrow> looper \<Rightarrow> (string option \<times> int \<times> bool) list \<Rightarrow> bool" where
  "scheduled e now l rs \<longleftrightarrow> stop_set e now \<or>
     (\<forall>(a, t, b) \<in> set rs. b \<longrightarrow> (\<exists>p. pq_getitem (lo_queue l) a = Some p \<and> t + dm_sleep_time e \<le> p))"

lemma stop_set_mono: "stop_set e t \<Longrightarrow> t \<le> t' \<Longrightarrow> stop_set e t'"
  by (auto simp: stop_set_def split: option.splits)

lemma stop_wait_ge: "0 \<le> t \<Longrightarrow> now \<le> stop_wait e t now \<and> (now + t \<le> stop_wait e t now \<or> stop_set e (stop_wait e t now))"
  by (auto simp: stop_wait_def stop_set_def split: option.splits)

lemma spaced_append:
  assumes "spaced e rs" and "\<And>t. (a, t, True) \<in> set rs \<Longrightarrow> t + dm_sleep_time e \<le> now \<or> stop_set e now"
  shows "spaced e (rs @ [(a, now, b)])"
  unfolding spaced_def
proof (intro allI impI)
  fix i j assume ij: "i < j" "j < length (rs @ [(a, now, b)])" and same: "fst ((rs @ [(a, now, b)]) ! i) = fst ((rs @ [(a, now, b)]) ! j)"
    and slp: "snd (snd ((rs @ [(a, now, b)]) ! i))"
  have i: "i < length rs" using ij by simp
  then have at: "(rs @ [(a, now, b)]) ! i = rs ! i" by (simp add: nth_append)
  show "fst (snd ((rs @ [(a, now, b)]) ! i)) + dm_sleep_time e \<le> fst (snd ((rs @ [(a, now, b)]) ! j)) \<or> stop_set e (fst (snd ((rs @ [(a, now, b)]) ! j)))"
  proof (cases "j < length rs")
    case True
    with assms(1) ij(1) same slp at show ?thesis unfolding spaced_def by (simp add: nth_append)
  next
    case False
    with ij have "j = length rs" by simp
    with same slp at have "rs ! i = (a, fst (snd (rs ! i)), True)" by (simp add: prod_eq_iff)
    with i have "(a, fst (snd (rs ! i)), True) \<in> set rs" by (metis nth_mem)
    from assms(2) [OF this] at \<open>j = length rs\<close> show ?thesis by simp
  qed
qed

fun result_state :: "'d loop_result \<Rightarrow> 'd" where
  "result_state (Running d) = d"
| "result_state (Ended d) = d"
| "result_state (Failed d) = d"

lemma daemon_loop_spaced:
  assumes "looper_ok (dm_looper d)" and "\<not> lo_once (dm_looper d)" and "lo_sleep_time (dm_looper d) = dm_sleep_time e"
    and "pq_getitem (lo_queue (dm_looper d)) a = Some (dm_now d + t)"
    and "spaced e (dm_runs d)" and "scheduled e (dm_now d) (dm_looper d) (dm_runs d)"
  shows "spaced e (dm_runs (result_state (daemon_loop e n a t d)))"
  using assms
proof (induction n arbitrary: a t d)
  case (Suc n)
  show ?case
  proof (cases "stop_set e (dm_now d)")
    case True
    with Suc.prems show ?thesis by simp
  next
    case False
    define d1 where "d1 = beat_once e False (if 0 < t then d\<lparr>dm_now := stop_wait e t (dm_now d)\<rparr> else d)"
    obtain r d2 where w: "work_once e a d1 = (r, d2)" by (cases "work_once e a d1")
    note d2 = work_once_sel [OF w]
    have d1: "dm_looper d1 = dm_looper d" "dm_runs d1 = dm_runs d" by (simp_all add: d1_def)
    have now1: "dm_now d + t \<le> dm_now d1 \<or> stop_set e (dm_now d1)" using stop_wait_ge [of t "dm_now d" e] by (auto simp: d1_def)
    define l where "l = looper_send a (dm_now d1) (sleep_of r) (dm_now d2) (dm_looper d2)"
    have looper2: "dm_looper d2 = dm_looper d" using d2(2) d1 by simp
    note send = looper_send_loop [OF Suc.prems(1,2), of a "dm_now d1" "sleep_of r" "dm_now d2", folded l_def [unfolded looper2]]
    have late: "t0 + dm_sleep_time e \<le> dm_now d1 \<or> stop_set e (dm_now d1)" if "(a, t0, True) \<in> set (dm_runs d)" for t0
      using Suc.prems(4,6) that False now1 unfolding scheduled_def by auto
    have spaced2: "spaced e (dm_runs d2)"
      unfolding d2(3) d1 by (rule spaced_append [OF Suc.prems(5) late])
    have sched2: "scheduled e (dm_now d2) l (dm_runs d2)"
    proof (cases "stop_set e (dm_now d2)")
      case stop: False
      with stop_set_mono d2(1) have "\<not> stop_set e (dm_now d1)" by blast
      with late have "t0 + dm_sleep_time e \<le> dm_now d1" if "(a, t0, True) \<in> set (dm_runs d)" for t0 using that by blast
      then show ?thesis
        using Suc.prems(3,6) False d2(1) unfolding scheduled_def d2(3) d1 send(4)
        by (auto simp: Suc.prems(3)) force+
    qed (simp add: scheduled_def)
    have step: "daemon_loop e (Suc n) a t d = (if r = Raised \<and> dm_once e then Failed d2 else case looper_next (dm_now d2) l of
        None \<Rightarrow> Ended d2 | Some ((a', t'), l') \<Rightarrow> daemon_loop e n a' t' (d2\<lparr>dm_looper := l'\<rparr>))"
      using False w by (simp add: d1_def [symmetric] l_def)
    show ?thesis
    proof (cases "(r = Raised \<and> dm_once e) \<or> looper_next (dm_now d2) l = None")
      case True
      with step spaced2 show ?thesis by auto
    next
      case cont: False
      then obtain a' t' l' where x: "looper_next (dm_now d2) l = Some ((a', t'), l')" by (cases "looper_next (dm_now d2) l") auto
      from looper_next_loop [OF send(1,2) x] have l': "l' = l" "pq_getitem (lo_queue l) a' = Some (dm_now d2 + t')" by simp_all
      from cont step x l'(1) have eq: "daemon_loop e (Suc n) a t d = daemon_loop e n a' t' (d2\<lparr>dm_looper := l\<rparr>)" by auto
      show ?thesis unfolding eq
        by (rule Suc.IH) (use send Suc.prems(3) l'(2) spaced2 sched2 in simp_all)
    qed
  qed
qed simp

text \<open>C38: A daemon that runs for ever keeps its pace: after any number of rounds, two runs of the same activity of which the first asked to sleep are at
  least the sleep time apart, from start to start, unless the daemon was told to stop by then.\<close>

theorem activity_runs_spaced:
  assumes "\<not> dm_once e"
  shows "spaced e (dm_runs (result_state (db_workqueue e n now hbs s)))"
proof -
  let ?d = "daemon_start e now hbs s"
  have runs: "dm_runs (result_state (loop_exit e x)) = dm_runs (result_state x)" for x by (cases x) simp_all
  have ok: "looper_ok (dm_looper ?d)" "\<not> lo_once (dm_looper ?d)" "lo_sleep_time (dm_looper ?d) = dm_sleep_time e"
    using assms by (simp_all add: daemon_start_sel looper_init)
  show ?thesis
  proof (cases "looper_next (dm_now ?d) (dm_looper ?d)")
    case None
    then show ?thesis by (simp add: db_workqueue_def Let_def runs daemon_start_sel spaced_def)
  next
    case (Some x)
    obtain a t l where x: "x = ((a, t), l)" by (metis prod.exhaust)
    from looper_next_loop [OF ok(1,2) Some [unfolded x]] have l: "l = dm_looper ?d" "pq_getitem (lo_queue (dm_looper ?d)) a = Some (dm_now ?d + t)" by simp_all
    have "?d\<lparr>dm_looper := l\<rparr> = ?d" by (simp add: l(1))
    with Some x have "db_workqueue e n now hbs s = loop_exit e (daemon_loop e n a t ?d)" by (simp add: db_workqueue_def Let_def)
    then show ?thesis
      by (simp only: runs) (rule daemon_loop_spaced [OF ok l(2)], simp_all add: daemon_start_sel spaced_def scheduled_def)
  qed
qed

section \<open>A daemon with two activities\<close>

definition demo_daemon :: "bool \<Rightarrow> (nat, nat) daemon_env" where
  "demo_daemon once = \<lparr>dm_hb = demo_hb_env, stop_at = None, dm_once = once, dm_executable = ''judge'', dm_hostname = ''h'', dm_pid = 1,
     dm_thread = \<lparr>th_ident = 7, th_name = ''t''\<rparr>, partition_wait_time = 0, dm_sleep_time = 60, dm_activities = Some [''User'', ''Prod''],
     run_once_fnc = (\<lambda>a now h s. (ReturnedPair True (Some s), 5, h, s + 1))\<rparr>"

theorem runs_each_activity_once_witness:
  "\<exists>d. db_workqueue (demo_daemon True) 3 0 [] 0 = Ended d \<and> distinct (map fst (dm_runs d)) \<and> set (map fst (dm_runs d)) = {Some ''User'', Some ''Prod''}"
  using runs_each_activity_once [of "demo_daemon True" 3 0 "[]" 0] by (simp add: demo_daemon_def activity_keys_def)

theorem activity_runs_spaced_witness:
  "dm_runs (result_state (db_workqueue (demo_daemon False) 3 0 [] 0)) = [(Some ''User'', 0, True), (Some ''Prod'', 5, True), (Some ''User'', 60, True)] \<and>
   spaced (demo_daemon False) [(Some ''User'', 0, True), (Some ''Prod'', 5, True), (Some ''User'', 60, True)]"
proof -
  have "dm_runs (result_state (db_workqueue (demo_daemon False) 3 0 [] 0)) = [(Some ''User'', 0, True), (Some ''Prod'', 5, True), (Some ''User'', 60, True)]"
    by code_simp
  moreover have "\<not> dm_once (demo_daemon False)" by (simp add: demo_daemon_def)
  ultimately show ?thesis using activity_runs_spaced [of "demo_daemon False" 3 0 "[]" 0] by simp
qed

end
