(* ===== verification/Producer_Consumer.thy ===== *)
theory Producer_Consumer
  imports Prelude "HOL-Library.Multiset"
begin

text \<open>
  \<^verbatim>\<open>ProducerConsumerDaemon\<close> of \<^verbatim>\<open>daemons/common.py\<close>: threads that produce, threads that consume, and a queue between them.

  The threads interleave freely; a step has one access to what the threads share, where what is done under the lock is one: the queue with its number of
  unfinished tasks, the number of active producers under its lock, and the two events. What an iterator yields is given as a list in
  which \<open>None\<close> stands for an exception. Waiting for a time is a loop that the step relation takes as often as it likes.
\<close>

section \<open>Threads and shared state\<close>

text \<open>A producer tests the event that stops it, looks at the size of the queue, and fetches and puts a product. A consumer tests the
  event that all producers are done and, when it is set, the number of unfinished tasks.\<close>

datatype 'a producer =
    Created "'a option list" | Producing "'a option list" | Sizing "'a option list" | Fetching "'a option list" | Joining | ProducerEnded

datatype 'a consumer = Checking | CheckingTasks | Getting | Working 'a | ConsumerEnded

record 'a pc_state =
  pc_queue :: "'a list"
  unfinished_tasks :: nat
  active_producers :: nat
  producers_done :: bool
  graceful_stop :: bool
  pc_producers :: "'a producer list"
  pc_consumers :: "'a consumer list"
  pc_put :: "'a list"
  pc_handled :: "'a list"

text \<open>The last two fields record what was put into the queue and what was handled.\<close>

definition ProducerConsumerDaemon :: "'a option list list \<Rightarrow> nat \<Rightarrow> 'a pc_state" where
  "ProducerConsumerDaemon producers consumers =
     \<lparr>pc_queue = [], unfinished_tasks = 0, active_producers = 0, producers_done = False, graceful_stop = False,
      pc_producers = map Created producers, pc_consumers = replicate consumers Checking, pc_put = [], pc_handled = []\<rparr>"

section \<open>The steps of the threads\<close>

definition set_producer :: "nat \<Rightarrow> 'a producer \<Rightarrow> 'a pc_state \<Rightarrow> 'a pc_state" where
  "set_producer i p s = s\<lparr>pc_producers := (pc_producers s)[i := p]\<rparr>"

definition set_consumer :: "nat \<Rightarrow> 'a consumer \<Rightarrow> 'a pc_state \<Rightarrow> 'a pc_state" where
  "set_consumer j c s = s\<lparr>pc_consumers := (pc_consumers s)[j := c]\<rparr>"

definition register :: "nat \<Rightarrow> 'a option list \<Rightarrow> 'a pc_state \<Rightarrow> 'a pc_state" where
  "register i ps s = (set_producer i (Producing ps) s)\<lparr>active_producers := active_producers s + 1\<rparr>"

definition enqueue :: "'a \<Rightarrow> 'a pc_state \<Rightarrow> 'a pc_state" where
  "enqueue x s = s\<lparr>pc_queue := pc_queue s @ [x], unfinished_tasks := unfinished_tasks s + 1, pc_put := pc_put s @ [x]\<rparr>"

definition crowded :: "'a pc_state \<Rightarrow> bool" where
  "crowded s \<longleftrightarrow> length (pc_consumers s) < length (pc_queue s)"

definition unregister :: "nat \<Rightarrow> 'a pc_state \<Rightarrow> 'a pc_state" where
  "unregister i s =
     (let n = active_producers s - 1
      in (set_producer i Joining s)\<lparr>active_producers := n, producers_done := (producers_done s \<or> n = 0)\<rparr>)"

text \<open>\<^verbatim>\<open>_produce\<close>, \<^verbatim>\<open>_consume\<close> and \<^verbatim>\<open>run\<close>. With \<open>ordered\<close>, no producer registers after the event that all are done was set; the code does not
  enforce this.\<close>

inductive pc_step :: "bool \<Rightarrow> 'a pc_state \<Rightarrow> 'a pc_state \<Rightarrow> bool" for ordered where
  produce_begin: "i < length (pc_producers s) \<Longrightarrow> pc_producers s ! i = Created ps \<Longrightarrow> (ordered \<longrightarrow> \<not> producers_done s) \<Longrightarrow>
    pc_step ordered s (register i ps s)"
| produce_go: "i < length (pc_producers s) \<Longrightarrow> pc_producers s ! i = Producing ps \<Longrightarrow> \<not> graceful_stop s \<Longrightarrow>
    pc_step ordered s (set_producer i (Sizing ps) s)"
| produce_size: "i < length (pc_producers s) \<Longrightarrow> pc_producers s ! i = Sizing ps \<Longrightarrow>
    pc_step ordered s (set_producer i (if crowded s then Producing ps else Fetching ps) s)"
| produce_put: "i < length (pc_producers s) \<Longrightarrow> pc_producers s ! i = Fetching (Some x # ps) \<Longrightarrow>
    pc_step ordered s (enqueue x (set_producer i (Producing ps) s))"
| produce_raise: "i < length (pc_producers s) \<Longrightarrow> pc_producers s ! i = Fetching (None # ps) \<Longrightarrow>
    pc_step ordered s (set_producer i (Producing ps) s)"
| produce_end: "i < length (pc_producers s) \<Longrightarrow> pc_producers s ! i = Fetching [] \<or> pc_producers s ! i = Producing ps \<and> graceful_stop s \<Longrightarrow>
    pc_step ordered s (unregister i s)"
| produce_joined: "i < length (pc_producers s) \<Longrightarrow> pc_producers s ! i = Joining \<Longrightarrow> unfinished_tasks s = 0 \<Longrightarrow>
    pc_step ordered s (set_producer i ProducerEnded s)"
| consume_go: "j < length (pc_consumers s) \<Longrightarrow> pc_consumers s ! j = Checking \<Longrightarrow>
    pc_step ordered s (set_consumer j (if producers_done s then CheckingTasks else Getting) s)"
| consume_end: "j < length (pc_consumers s) \<Longrightarrow> pc_consumers s ! j = CheckingTasks \<Longrightarrow>
    pc_step ordered s (set_consumer j (if unfinished_tasks s = 0 then ConsumerEnded else Getting) s)"
| consume_get: "j < length (pc_consumers s) \<Longrightarrow> pc_consumers s ! j = Getting \<Longrightarrow> pc_queue s = x # q \<Longrightarrow>
    pc_step ordered s ((set_consumer j (Working x) s)\<lparr>pc_queue := q\<rparr>)"
| consume_empty: "j < length (pc_consumers s) \<Longrightarrow> pc_consumers s ! j = Getting \<Longrightarrow> pc_queue s = [] \<Longrightarrow>
    pc_step ordered s (set_consumer j Checking s)"
| consume_done: "j < length (pc_consumers s) \<Longrightarrow> pc_consumers s ! j = Working x \<Longrightarrow>
    pc_step ordered s ((set_consumer j Checking s)\<lparr>unfinished_tasks := unfinished_tasks s - 1, pc_handled := pc_handled s @ [x]\<rparr>)"
| run_joined: "\<forall>p \<in> set (pc_producers s). p = ProducerEnded \<Longrightarrow> pc_step ordered s (s\<lparr>producers_done := True\<rparr>)"
| stop: "pc_step ordered s (s\<lparr>graceful_stop := True\<rparr>)"

inductive_cases pc_stepE: "pc_step ordered s s'"

section \<open>Every product is in one place\<close>

fun in_work :: "'a consumer \<Rightarrow> 'a multiset" where
  "in_work (Working x) = {#x#}"
| "in_work _ = {#}"

fun is_producing :: "'a producer \<Rightarrow> bool" where
  "is_producing (Producing _) = True"
| "is_producing (Sizing _) = True"
| "is_producing (Fetching _) = True"
| "is_producing _ = False"

definition working :: "'a pc_state \<Rightarrow> 'a multiset" where
  "working s = sum_list (map in_work (pc_consumers s))"

text \<open>What the shared counters count.\<close>

definition pc_inv :: "'a pc_state \<Rightarrow> bool" where
  "pc_inv s \<longleftrightarrow>
     mset (pc_put s) = mset (pc_queue s) + working s + mset (pc_handled s) \<and>
     unfinished_tasks s = length (pc_queue s) + size (working s) \<and>
     active_producers s = count_where is_producing (pc_producers s)"


lemma working_update:
  assumes "j < length (pc_consumers s)"
  shows "working (set_consumer j c s) + in_work (pc_consumers s ! j) = working s + in_work c"
proof -
  have "sum_list (map in_work (cs[j := c])) + in_work (cs ! j) = sum_list (map in_work cs) + in_work c" if "j < length cs" for cs
    using that by (induction cs arbitrary: j) (auto simp: nth_Cons' less_Suc_eq_0_disj ac_simps split: nat.splits)
  from this [OF assms] show ?thesis by (simp add: working_def set_consumer_def)
qed

lemma count_where_update:
  assumes "i < length ps"
  shows "count_where P (ps[i := p]) + (if P (ps ! i) then 1 else 0) = count_where P ps + (if P p then 1 else 0)"
  using assms
proof (induction ps arbitrary: i)
  case (Cons q ps)
  show ?case
  proof (cases i)
    case (Suc i')
    with Cons.IH [of i'] Cons.prems show ?thesis by simp
  qed simp
qed simp

lemma set_sel [simp]:
  "pc_queue (set_consumer j c s) = pc_queue s" "unfinished_tasks (set_consumer j c s) = unfinished_tasks s"
  "active_producers (set_consumer j c s) = active_producers s" "producers_done (set_consumer j c s) = producers_done s"
  "pc_producers (set_consumer j c s) = pc_producers s" "pc_put (set_consumer j c s) = pc_put s" "pc_handled (set_consumer j c s) = pc_handled s"
  "pc_consumers (set_consumer j c s) = (pc_consumers s)[j := c]" "pc_producers (set_producer i p s) = (pc_producers s)[i := p]"
  "pc_queue (set_producer i p s) = pc_queue s" "unfinished_tasks (set_producer i p s) = unfinished_tasks s"
  "active_producers (set_producer i p s) = active_producers s" "producers_done (set_producer i p s) = producers_done s"
  "pc_consumers (set_producer i p s) = pc_consumers s" "pc_put (set_producer i p s) = pc_put s" "pc_handled (set_producer i p s) = pc_handled s"
  by (simp_all add: set_consumer_def set_producer_def)

lemma working_cong: "pc_consumers s' = pc_consumers s \<Longrightarrow> working s' = working s"
  by (simp add: working_def)

lemma pc_step_inv:
  assumes "pc_step ordered s s'" and "pc_inv s"
  shows "pc_inv s'"
  using assms(1)
proof cases
  case (produce_begin i ps)
  with assms(2) count_where_update [OF produce_begin(2), of is_producing "Producing ps"] show ?thesis
    by (simp add: pc_inv_def register_def working_def)
next
  case (produce_go i ps)
  with assms(2) count_where_update [OF produce_go(2), of is_producing "Sizing ps"] show ?thesis
    by (simp add: pc_inv_def working_def)
next
  case (produce_size i ps)
  with assms(2) count_where_update [OF produce_size(2), of is_producing "if crowded s then Producing ps else Fetching ps"] show ?thesis
    by (simp add: pc_inv_def working_def split: if_splits)
next
  case (produce_put i x ps)
  with assms(2) count_where_update [OF produce_put(2), of is_producing "Producing ps"] show ?thesis
    by (simp add: pc_inv_def enqueue_def working_def)
next
  case (produce_raise i ps)
  with assms(2) count_where_update [OF produce_raise(2), of is_producing "Producing ps"] show ?thesis
    by (simp add: pc_inv_def working_def)
next
  case (produce_end i ps)
  then have "is_producing (pc_producers s ! i)" by auto
  with produce_end(1) assms(2) count_where_update [OF produce_end(2), of is_producing Joining] show ?thesis
    by (simp add: pc_inv_def unregister_def working_def Let_def)
next
  case (produce_joined i)
  with assms(2) count_where_update [OF produce_joined(2), of is_producing ProducerEnded] show ?thesis
    by (simp add: pc_inv_def working_def)
next
  case (consume_go j)
  with assms(2) working_update [OF consume_go(2), of "if producers_done s then CheckingTasks else Getting"] show ?thesis
    by (simp add: pc_inv_def split: if_splits)
next
  case (consume_end j)
  with assms(2) working_update [OF consume_end(2), of "if unfinished_tasks s = 0 then ConsumerEnded else Getting"] show ?thesis
    by (simp add: pc_inv_def split: if_splits)
next
  case (consume_get j x q)
  have "working s' = working s + {#x#}"
    using working_update [OF consume_get(2), of "Working x"] consume_get by (simp add: working_def)
  with assms(2) consume_get show ?thesis by (simp add: pc_inv_def)
next
  case (consume_empty j)
  with assms(2) working_update [OF consume_empty(2), of Checking] show ?thesis by (simp add: pc_inv_def)
next
  case (consume_done j x)
  have "working s = working s' + {#x#}"
    using working_update [OF consume_done(2), of Checking] consume_done by (simp add: working_def)
  with assms(2) have "mset (pc_put s) = mset (pc_queue s) + working s' + mset (pc_handled s @ [x])"
    and "unfinished_tasks s = Suc (length (pc_queue s) + size (working s'))"
    and "active_producers s = count_where is_producing (pc_producers s)"
    by (simp_all only: pc_inv_def) simp_all
  then show ?thesis unfolding pc_inv_def consume_done(1) by simp
qed (use assms(2) in \<open>simp_all add: pc_inv_def working_def\<close>)

section \<open>Consumers end when all is done\<close>

definition ended_ok :: "'a pc_state \<Rightarrow> bool" where
  "ended_ok s \<longleftrightarrow> (producers_done s \<longrightarrow> \<not> (\<exists>p \<in> set (pc_producers s). is_producing p)) \<and>
     (CheckingTasks \<in> set (pc_consumers s) \<longrightarrow> producers_done s) \<and>
     (ConsumerEnded \<in> set (pc_consumers s) \<longrightarrow> producers_done s \<and> unfinished_tasks s = 0)"

lemma producing_not_done:
  assumes "ended_ok s" and "i < length (pc_producers s)" and "is_producing (pc_producers s ! i)"
  shows "\<not> producers_done s" and "CheckingTasks \<notin> set (pc_consumers s)" and "ConsumerEnded \<notin> set (pc_consumers s)"
proof -
  from assms show "\<not> producers_done s" unfolding ended_ok_def by (meson nth_mem)
  with assms(1) show "CheckingTasks \<notin> set (pc_consumers s)" and "ConsumerEnded \<notin> set (pc_consumers s)" by (auto simp: ended_ok_def)
qed

lemma ended_ok_producer:
  assumes "ended_ok s" and "\<not> is_producing p"
  shows "ended_ok (set_producer i p s)"
  using assms set_update_subset_insert [of "pc_producers s" i p] by (auto simp: ended_ok_def)

lemma ended_ok_consumer:
  assumes "ended_ok s" and "c = CheckingTasks \<longrightarrow> producers_done s" and "c = ConsumerEnded \<longrightarrow> producers_done s \<and> unfinished_tasks s = 0"
  shows "ended_ok (set_consumer j c s)"
  using assms set_update_subset_insert [of "pc_consumers s" j c] by (auto simp: ended_ok_def)

lemma pc_step_ended:
  assumes "pc_step True s s'" and "pc_inv s" and ok: "ended_ok s"
  shows "ended_ok s'"
  using assms(1)
proof cases
  case (produce_begin i ps)
  with ok have "CheckingTasks \<notin> set (pc_consumers s)" "ConsumerEnded \<notin> set (pc_consumers s)" by (auto simp: ended_ok_def)
  with produce_begin show ?thesis by (simp add: ended_ok_def register_def)
next
  case (produce_go i ps)
  then have "is_producing (pc_producers s ! i)" by simp
  from producing_not_done [OF ok produce_go(2) this] produce_go show ?thesis by (simp add: ended_ok_def)
next
  case (produce_size i ps)
  then have "is_producing (pc_producers s ! i)" by simp
  from producing_not_done [OF ok produce_size(2) this] produce_size show ?thesis by (simp add: ended_ok_def)
next
  case (produce_put i x ps)
  then have "is_producing (pc_producers s ! i)" by simp
  from producing_not_done [OF ok produce_put(2) this] produce_put show ?thesis by (simp add: ended_ok_def enqueue_def)
next
  case (produce_raise i ps)
  then have "is_producing (pc_producers s ! i)" by simp
  from producing_not_done [OF ok produce_raise(2) this] produce_raise show ?thesis by (simp add: ended_ok_def)
next
  case (produce_end i ps)
  have inv': "pc_inv s'" by (rule pc_step_inv [OF assms(1,2)])
  have "is_producing (pc_producers s ! i)" using produce_end(3) by auto
  from producing_not_done [OF ok produce_end(2) this] produce_end(1) inv' show ?thesis
    by (auto simp: ended_ok_def unregister_def pc_inv_def Let_def)
next
  case (produce_joined i)
  with ok show ?thesis by (simp add: ended_ok_producer)
next
  case (consume_end j)
  then have "producers_done s" using ok nth_mem [OF consume_end(2)] by (simp add: ended_ok_def)
  with ok show ?thesis unfolding consume_end(1) by (intro ended_ok_consumer) (simp_all split: if_splits)
next
  case (consume_done j x)
  with ended_ok_consumer [OF ok, of Checking j] show ?thesis by (auto simp: ended_ok_def)
next
  case (consume_get j x q)
  with ended_ok_consumer [OF ok, of "Working x" j] show ?thesis by (simp add: ended_ok_def)
next
  case (consume_go j)
  show ?thesis unfolding consume_go(1) by (intro ended_ok_consumer ok) (simp_all split: if_splits)
next
  case (consume_empty j)
  with ok show ?thesis by (simp add: ended_ok_consumer)
next
  case run_joined
  with ok show ?thesis by (auto simp: ended_ok_def)
next
  case stop
  with ok show ?thesis by (simp add: ended_ok_def)
qed

lemma pc_reachable:
  assumes "(pc_step ordered)\<^sup>*\<^sup>* (ProducerConsumerDaemon producers n) s"
  shows "pc_inv s \<and> (ordered \<longrightarrow> ended_ok s)"
  using assms
proof (induction rule: rtranclp_induct)
  case base
  have "working (ProducerConsumerDaemon producers n) = {#}"
    by (induction n) (simp_all add: working_def ProducerConsumerDaemon_def)
  then show ?case by (auto simp: pc_inv_def ended_ok_def ProducerConsumerDaemon_def)
next
  case (step s s')
  from step pc_step_inv [OF step(2)] pc_step_ended [of s s'] show ?case by (cases ordered) simp_all
qed

text \<open>C39: In every interleaving of the threads, each product that was put into the queue is in the queue, with one consumer, or was handled
  once, and no product is handled twice. If every producer registers before all registered ones are done, then, once a
  consumer has ended, the queue is empty and every product was handled.\<close>

theorem products_handled_once:
  assumes "(pc_step ordered)\<^sup>*\<^sup>* (ProducerConsumerDaemon producers n) s"
  shows "mset (pc_put s) = mset (pc_queue s) + working s + mset (pc_handled s) \<and>
    (ordered \<and> ConsumerEnded \<in> set (pc_consumers s) \<longrightarrow> pc_queue s = [] \<and> mset (pc_handled s) = mset (pc_put s))"
  using pc_reachable [OF assms] by (auto simp: pc_inv_def ended_ok_def)

section \<open>A producer that begins late\<close>

text \<open>A first producer without products ends before the second has registered.\<close>

definition late_state :: "nat pc_state" where
  "late_state = \<lparr>pc_queue = [7], unfinished_tasks = 1, active_producers = 0, producers_done = True, graceful_stop = False,
      pc_producers = [Joining, Joining], pc_consumers = [ConsumerEnded], pc_put = [7], pc_handled = []\<rparr>"

text \<open>A producer that has no more products, one that puts a product, and a consumer that ends.\<close>

lemma produces_nothing:
  assumes "i < length (pc_producers s)" and "pc_producers s ! i = Producing []" and "\<not> graceful_stop s" and "\<not> crowded s"
  shows "(pc_step ordered)\<^sup>*\<^sup>* s (unregister i (set_producer i (Fetching []) (set_producer i (Sizing []) s)))"
proof -
  let ?s1 = "set_producer i (Sizing []) s"
  have a1: "pc_step ordered s ?s1" using assms by (intro pc_step.produce_go)
  have "\<not> crowded ?s1" using assms(4) by (simp add: crowded_def)
  then have a2: "pc_step ordered ?s1 (set_producer i (Fetching []) ?s1)" using pc_step.produce_size [of i ?s1 "[]" ordered] assms(1) by simp
  have a3: "pc_step ordered (set_producer i (Fetching []) ?s1) (unregister i (set_producer i (Fetching []) ?s1))"
    by (rule pc_step.produce_end) (simp_all add: assms(1))
  note c = converse_rtranclp_into_rtranclp [of "pc_step ordered"]
  show ?thesis by (rule c [OF a1 c [OF a2 r_into_rtranclp [of "pc_step ordered", OF a3]]])
qed

lemma produces_one:
  assumes "i < length (pc_producers s)" and "pc_producers s ! i = Producing (Some x # ps)" and "\<not> graceful_stop s" and "\<not> crowded s"
  shows "(pc_step ordered)\<^sup>*\<^sup>* s (enqueue x (set_producer i (Producing ps) (set_producer i (Fetching (Some x # ps)) (set_producer i (Sizing (Some x # ps)) s))))"
proof -
  let ?s1 = "set_producer i (Sizing (Some x # ps)) s"
  let ?s2 = "set_producer i (Fetching (Some x # ps)) ?s1"
  have a1: "pc_step ordered s ?s1" using assms by (intro pc_step.produce_go)
  have "\<not> crowded ?s1" using assms(4) by (simp add: crowded_def)
  then have a2: "pc_step ordered ?s1 ?s2" using pc_step.produce_size [of i ?s1 "Some x # ps" ordered] assms(1) by simp
  have a3: "pc_step ordered ?s2 (enqueue x (set_producer i (Producing ps) ?s2))"
    by (rule pc_step.produce_put) (simp_all add: assms(1))
  note c = converse_rtranclp_into_rtranclp [of "pc_step ordered"]
  show ?thesis by (rule c [OF a1 c [OF a2 r_into_rtranclp [of "pc_step ordered", OF a3]]])
qed

lemma consumer_ends:
  assumes "j < length (pc_consumers s)" and "pc_consumers s ! j = Checking" and "producers_done s" and "unfinished_tasks s = 0"
  shows "(pc_step ordered)\<^sup>*\<^sup>* s (set_consumer j ConsumerEnded (set_consumer j CheckingTasks s))"
proof -
  let ?s1 = "set_consumer j CheckingTasks s"
  have a1: "pc_step ordered s ?s1" using pc_step.consume_go [of j s ordered] assms by simp
  have a2: "pc_step ordered ?s1 (set_consumer j ConsumerEnded ?s1)" using pc_step.consume_end [of j ?s1 ordered] assms by simp
  show ?thesis by (rule converse_rtranclp_into_rtranclp [of "pc_step ordered", OF a1 r_into_rtranclp [of "pc_step ordered", OF a2]])
qed

lemma late_state_reached: "(pc_step False)\<^sup>*\<^sup>* (ProducerConsumerDaemon [[], [Some 7]] 1) late_state"
proof -
  let ?s0 = "ProducerConsumerDaemon [[], [Some (7::nat)]] 1"
  let ?s1 = "register 0 [] ?s0"
  let ?s2 = "unregister 0 (set_producer 0 (Fetching []) (set_producer 0 (Sizing []) ?s1))"
  let ?s3 = "set_consumer 0 ConsumerEnded (set_consumer 0 CheckingTasks ?s2)"
  let ?s4 = "register 1 [Some 7] ?s3"
  let ?s5 = "enqueue 7 (set_producer 1 (Producing []) (set_producer 1 (Fetching [Some 7]) (set_producer 1 (Sizing [Some 7]) ?s4)))"
  note defs = ProducerConsumerDaemon_def register_def unregister_def enqueue_def crowded_def Let_def
  have a1: "(pc_step False)\<^sup>*\<^sup>* ?s0 ?s1" by (intro r_into_rtranclp pc_step.produce_begin) (simp_all add: defs)
  have a2: "(pc_step False)\<^sup>*\<^sup>* ?s1 ?s2" by (rule produces_nothing) (simp_all add: defs set_producer_def)
  have a3: "(pc_step False)\<^sup>*\<^sup>* ?s2 ?s3" by (rule consumer_ends) (simp_all add: defs)
  have a4: "(pc_step False)\<^sup>*\<^sup>* ?s3 ?s4" by (intro r_into_rtranclp pc_step.produce_begin) (simp_all add: defs)
  have a5: "(pc_step False)\<^sup>*\<^sup>* ?s4 ?s5" by (rule produces_one) (simp_all add: defs set_producer_def set_consumer_def)
  have a6: "(pc_step False)\<^sup>*\<^sup>* ?s5 (unregister 1 (set_producer 1 (Fetching []) (set_producer 1 (Sizing []) ?s5)))"
    by (rule produces_nothing) (simp_all add: defs set_producer_def set_consumer_def)
  have eq: "unregister 1 (set_producer 1 (Fetching []) (set_producer 1 (Sizing []) ?s5)) = late_state"
    by (simp add: defs late_state_def set_producer_def set_consumer_def)
  show ?thesis
    using rtranclp_trans [OF rtranclp_trans [OF rtranclp_trans [OF a1 a2] rtranclp_trans [OF a3 a4]] rtranclp_trans [OF a5 a6]] unfolding eq .
qed

lemma late_state_stuck: "(pc_step False)\<^sup>*\<^sup>* late_state s \<Longrightarrow> s = late_state \<or> s = late_state\<lparr>graceful_stop := True\<rparr>"
proof (induction rule: rtranclp_induct)
  case (step s s')
  from step(2) step.IH show ?case
    by cases (auto simp: late_state_def nth_Cons' less_Suc_eq split: if_splits)
qed simp

text \<open>C40: Without that order products can be lost. The first producer ends before the second registers: the event is set, the consumer
  ends, and the product of the second producer stays in the queue for ever, while both producers wait for it to be handled.\<close>

theorem late_producer_starves:
  "\<exists>s. (pc_step False)\<^sup>*\<^sup>* (ProducerConsumerDaemon [[], [Some (7::nat)]] 1) s \<and>
     {s'. (pc_step False)\<^sup>*\<^sup>* s s'} \<subseteq>
       {s'. pc_queue s' = [7] \<and> pc_handled s' = [] \<and> pc_producers s' = [Joining, Joining] \<and> pc_consumers s' = [ConsumerEnded]}"
proof (intro exI [of _ late_state] conjI subsetI)
  fix s' assume "s' \<in> {s'. (pc_step False)\<^sup>*\<^sup>* late_state s'}"
  then have "s' = late_state \<or> s' = late_state\<lparr>graceful_stop := True\<rparr>" by (simp add: late_state_stuck)
  then show "s' \<in> {s'. pc_queue s' = [7] \<and> pc_handled s' = [] \<and> pc_producers s' = [Joining, Joining] \<and> pc_consumers s' = [ConsumerEnded]}"
    by (auto simp: late_state_def)
qed (rule late_state_reached)

text \<open>One producer of one product, and one consumer that handles it and ends.\<close>

definition done_state :: "nat pc_state" where
  "done_state = \<lparr>pc_queue = [], unfinished_tasks = 0, active_producers = 0, producers_done = True, graceful_stop = False,
      pc_producers = [Joining], pc_consumers = [ConsumerEnded], pc_put = [7], pc_handled = [7]\<rparr>"

lemma done_state_reached: "(pc_step True)\<^sup>*\<^sup>* (ProducerConsumerDaemon [[Some 7]] 1) done_state"
proof -
  let ?s0 = "ProducerConsumerDaemon [[Some (7::nat)]] 1"
  let ?s1 = "register 0 [Some 7] ?s0"
  let ?s2 = "enqueue 7 (set_producer 0 (Producing []) (set_producer 0 (Fetching [Some 7]) (set_producer 0 (Sizing [Some 7]) ?s1)))"
  let ?s3 = "unregister 0 (set_producer 0 (Fetching []) (set_producer 0 (Sizing []) ?s2))"
  let ?s4 = "set_consumer 0 CheckingTasks ?s3"
  let ?s5 = "set_consumer 0 Getting ?s4"
  let ?s6 = "(set_consumer 0 (Working 7) ?s5)\<lparr>pc_queue := []\<rparr>"
  let ?s7 = "(set_consumer 0 Checking ?s6)\<lparr>unfinished_tasks := unfinished_tasks ?s6 - 1, pc_handled := pc_handled ?s6 @ [7]\<rparr>"
  let ?s8 = "set_consumer 0 ConsumerEnded (set_consumer 0 CheckingTasks ?s7)"
  note defs = ProducerConsumerDaemon_def register_def unregister_def enqueue_def crowded_def Let_def
  have a1: "pc_step True ?s0 ?s1" by (rule pc_step.produce_begin) (simp_all add: defs)
  have a2: "(pc_step True)\<^sup>*\<^sup>* ?s1 ?s2" by (rule produces_one) (simp_all add: defs set_producer_def)
  have a3: "(pc_step True)\<^sup>*\<^sup>* ?s2 ?s3" by (rule produces_nothing) (simp_all add: defs set_producer_def)
  have a4: "pc_step True ?s3 ?s4" using pc_step.consume_go [of 0 ?s3 True] by (simp add: defs)
  have a5: "pc_step True ?s4 ?s5" using pc_step.consume_end [of 0 ?s4 True] by (simp add: defs)
  have a6: "pc_step True ?s5 ?s6" by (rule pc_step.consume_get) (simp_all add: defs)
  have a7: "pc_step True ?s6 ?s7" by (rule pc_step.consume_done) (simp_all add: defs)
  have a8: "(pc_step True)\<^sup>*\<^sup>* ?s7 ?s8" by (rule consumer_ends) (simp_all add: defs)
  have eq: "?s8 = done_state" by (simp add: defs done_state_def set_producer_def set_consumer_def)
  note c = converse_rtranclp_into_rtranclp [of "pc_step True"]
  show ?thesis
    unfolding eq [symmetric] by (rule c [OF a1 rtranclp_trans [OF rtranclp_trans [OF a2 a3] c [OF a4 c [OF a5 c [OF a6 c [OF a7 a8]]]]]])
qed

theorem products_handled_once_witness:
  "(pc_step True)\<^sup>*\<^sup>* (ProducerConsumerDaemon [[Some 7]] 1) done_state \<and> pc_queue done_state = [] \<and> mset (pc_handled done_state) = {#7#}"
proof -
  have "ConsumerEnded \<in> set (pc_consumers done_state)" "pc_put done_state = [7]" by (simp_all add: done_state_def)
  moreover from this(1) have "pc_queue done_state = [] \<and> mset (pc_handled done_state) = mset (pc_put done_state)"
    using products_handled_once [OF done_state_reached] by blast
  ultimately show ?thesis using done_state_reached by (simp only: mset.simps simp_thms)
qed

end
