(* ===== verification/Spec2Isabelle.thy ===== *)
theory Spec2Isabelle
  imports Topology_Search Role_Invariant Rule_Evaluation Daemon_Loop Producer_Consumer
begin

text \<open>
  Verification of the core of Rucio, the scientific data management system. All paths are below
  \<^verbatim>\<open>src/lib/rucio\<close>.

  \<^bold>\<open>The program.\<close> Rucio keeps a catalogue of files in datasets and containers (DIDs), of the storage
  elements that hold copies of them (RSEs) and of replication rules, which say how many copies of a DID have
  to exist on which RSEs. A rule is turned into one lock per file and copy; a lock on a file that is not yet on
  its RSE gives rise to a transfer request. Daemons submit the requests along a path of RSEs and report
  successes and failures, which move the locks, the counters and the states of the rules. Access to
  the catalogue is controlled by roles, which accounts hold for a period of time.

  \<^bold>\<open>The theories.\<close> Each component is a theory with its records (the tables it keeps), one definition per operation,
  and its lemmas.

  \<^item> \<open>Prelude\<close>: results of operations that may raise, loops over tables, generic lemmas; the locale
    \<open>keyed_store\<close> of a table with a key.
  \<^item> \<open>Counters\<close>: \<^verbatim>\<open>core/rse_counter.py\<close>, \<^verbatim>\<open>core/account_counter.py\<close> and the pass of
    \<^verbatim>\<open>daemons/abacus/rse.py\<close>. The locale \<open>delta_counter\<close> is the contract of a counter with pending deltas; its
    four interpretations give that no delta is lost or counted twice in any interleaving.
  \<^item> \<open>RSE_Store\<close>: the registry of RSEs in \<^verbatim>\<open>core/rse.py\<close>, with the attribute column of \<^verbatim>\<open>db/sqla/types.py\<close>. Deleting
    and restoring an RSE moves it out of all listings and back, with the attribute that carries its name.
  \<^item> \<open>RSE_Expression\<close>, \<open>RSE_Grammar\<close>, \<open>RSE_Semantics\<close>: \<^verbatim>\<open>core/rse_expression_parser.py\<close>. The checks accept exactly a
    grammar, the parser returns the tree of the expression, and the result is the set of RSEs that the expression denotes, in the
    registry in which it was computed when it comes from the cache.
  \<^item> \<open>DIDs\<close>: \<^verbatim>\<open>core/did.py\<close> (lookup, recursive listing of containers, detaching) and \<^verbatim>\<open>core/message.py\<close>
    (inserting messages).
  \<^item> \<open>Requests\<close>: \<^verbatim>\<open>core/request.py\<close>: queueing, state transitions, retries, archiving, cancellation.
  \<^item> \<open>Rule_State\<close>, \<open>Locks\<close>, \<open>Rules\<close>: the rule engine, \<^verbatim>\<open>core/lock.py\<close> and parts of \<^verbatim>\<open>core/rule.py\<close> and
    \<^verbatim>\<open>core/rule_grouping.py\<close>. Its tables extend those of requests and DIDs, so one state carries all three.
    The locale \<open>lock_mover\<close> is what a loop over locks has to do so that the redundant counters of rules and
    replicas stay exact; successful and failed transfers, bad and lost replicas are interpretations.
    The step relation at the end of \<open>Rules\<close> composes these operations in any order.
  \<^item> \<open>Account_Limits\<close>, \<open>RSE_Selector\<close>: \<^verbatim>\<open>core/account.py\<close>, \<^verbatim>\<open>core/account_limit.py\<close> and \<^verbatim>\<open>core/rse_selector.py\<close>. Quotas of accounts and
    roles, and the weighted choice of RSEs under them. The random numbers are a parameter; the
    theorems hold for every draw.
  \<^item> \<open>Thread_Work\<close>: \<^verbatim>\<open>filter_thread_work\<close> of \<^verbatim>\<open>db/sqla/__init__.py\<close>, which divides rows among threads by a hash.
  \<^item> \<open>Rule_Grouping\<close>, \<open>Rule_Application\<close>, \<open>Rule_Placement\<close>: how a rule is applied (\<^verbatim>\<open>core/rule_grouping.py\<close>, the replica queries of
    \<^verbatim>\<open>core/replica.py\<close> and \<^verbatim>\<open>__create_locks_replicas_transfers\<close> of \<^verbatim>\<open>core/rule.py\<close>). \<open>Rule_Grouping\<close> has the definitions,
    the other two show where the locks go and that the counters stay exact.
  \<^item> \<open>Rule_Creation\<close>, \<open>Rule_Lifecycle\<close>: creation, approval, denial, background injection and splitting of rules. The step relation
    of \<open>Rule_Lifecycle\<close> composes them with the operations of \<open>Rules\<close> and \<open>Locks\<close>; one invariant holds through all of them.
  \<^item> \<open>DID_Metadata\<close>: setting metadata (\<^verbatim>\<open>core/did_meta_plugins\<close>): the dispatch to plugins and the plugin for the columns of the table of DIDs. It
    changes sizes in several tables and can rename DIDs; its theorem shows that all usage follows.
  \<^item> \<open>Replicas\<close>: \<^verbatim>\<open>core/replica.py\<close>: registration with the checks of PFNs and the usage of RSEs, reports on states, tombstones, accesses, and
    the choice of the replicas that the reaper may delete.
  \<^item> \<open>DID_Attachment\<close>: creation and attachment of DIDs, opening and closing (\<^verbatim>\<open>core/did.py\<close>, \<^verbatim>\<open>is_archive\<close> of
    \<^verbatim>\<open>common/utils.py\<close>). Its invariant is the type discipline of the catalogue, which metadata keep too.
  \<^item> \<open>Rule_Evaluation\<close>: what the judge does to the rules above a DID from which children were detached (\<^verbatim>\<open>__evaluate_did_detach\<close> of
    \<^verbatim>\<open>core/rule.py\<close>, \<^verbatim>\<open>list_files\<close> of \<^verbatim>\<open>core/did.py\<close>).
  \<^item> \<open>Heartbeats\<close>, \<open>Daemon_Loop\<close>, \<open>Producer_Consumer\<close>: \<^verbatim>\<open>core/heartbeat.py\<close> and \<^verbatim>\<open>daemons/common.py\<close>. The table by which the threads of a
    daemon number themselves, the loop that runs the activities of a daemon in turn (on the priority queue), and the
    threads that pass work through a queue, as a step relation with one access to the shared objects per step. A handler renews its
    heartbeat by the local clock, the table is written in UTC; both clocks and the time that a renewal takes are in the model.
  \<^item> \<open>Priority_Queue\<close>: the class \<^verbatim>\<open>PriorityQueue\<close> of \<^verbatim>\<open>common/utils.py\<close>; the locale \<open>priority_map\<close> is its contract,
    and the heap with its position dictionary implements it.
  \<^item> \<open>Protocols\<close>: the choice of transfer protocols in \<^verbatim>\<open>rse/rsemanager.py\<close>.
  \<^item> \<open>Shortest_Paths\<close>, \<open>Topology\<close>, \<open>Topology_Search\<close>: \<^verbatim>\<open>core/topology.py\<close>. The locale \<open>weighted_graph\<close> has the invariant of
    a backwards search; the search of the code, which runs on the priority queue and chooses protocols for every
    edge, is an interpretation and finds paths of least cost.
  \<^item> \<open>Roles\<close>, \<open>Role_Permissions\<close>, \<open>Role_Access\<close>, \<open>Role_Quotas\<close>, \<open>Role_Sync\<close>, \<open>Role_Invariant\<close>: \<^verbatim>\<open>core/role.py\<close> with
    \<^verbatim>\<open>common/types.py\<close>. Roles and assignments, permissions on DID patterns and limits on RSE expressions (resolved
    by the model of the expression parser), the caching access checkers (locale \<open>memo_table\<close>), the space that
    the limits leave, the synchronisation with a policy package and with an identity provider, and the
    invariant that all of these keep.

  \<^bold>\<open>Conventions.\<close> A table is a list of rows in insertion order; an operation returns the new
  state, or \<open>Inl\<close> of the exception it raises. A transaction that raises is rolled back, so the state is part of
  the result only on success. Numbers are unbounded, as in Python. Dates are numbers of seconds or, where the code
  compares dates with and without a time zone, values that keep the difference. Strings are 8-bit
  character strings. What is not code of the repository is a parameter: the clock, generated identifiers,
  random choices, hashes, the wording of database errors, comparisons that the database makes between columns of different
  types, the cache region, the configuration and the policy package. So are the protocol drivers and the additional metadata plugins, which
  the configuration names and the program loads at run time.

  \<^bold>\<open>Loops.\<close> Loops over tables and lists are structural recursion. Three loops may run forever on some inputs:
  the descent of the expression parser (on a text that its check refuses), the shortest path search (with a
  negative penalty) and the listing of the files of a container (when it contains itself); they are partial functions, with \<open>None\<close> for not
  returning, and the theorems show that they return on every checked expression, for non-negative costs, and on well-typed catalogues. The recursive SQL query over containers
  has a bound of one level per row of the table of contents, which is enough on acyclic contents and proved so.
  The loops of the heap and of the container query have termination proofs. A daemon loops for ever by intention: its model
  takes a number of rounds and returns whether it ended; started to run once, it ends within one round per activity.

  \<^bold>\<open>Not modelled.\<close> Repair and update of rules and their evaluation for attached files; rules that are added together with a DID; searching metadata and
  deletion of DIDs;
  listing and deletion of replicas and the queues of bad replicas (\<^verbatim>\<open>core/replica.py\<close>); the throttler and the choice of sources for requests; the locks between
  threads and cache expiry of topology objects; the message texts of role synchronisation; the work of the daemons other than
  the abacus; transfer tools, REST server, gateway and clients, which parse, forward or perform I/O.
\<close>

end
